(* ===== verification/Prelude.thy ===== *)
theory Prelude
  imports Main "HOL-Library.Word" "HOL-Library.Multiset"
begin

text \<open>
  Shared vocabulary of the development: the C integer types the sources use, byte access
  into 32-bit words (the \<open>(uchar*) ptr\<close> casts of the sources, little-endian as on the
  supported x86-64 and arm64 targets), a bounded forward scan that stands for the
  \<open>for (i= ..; ; i++) if (..) return\<close> loops, list lemmas, and the interfaces (locales)
  several components share: comparison callbacks, index sets, codecs, priority queues and the
  invariants of state machines.
\<close>

unbundle bit_operations_syntax

declare bit_numeral_word_iff [simp del] push_bit_of_1 [simp del]

section \<open>Collections of facts\<close>

named_theorems byte_simps \<open>bits of the bytes of a word\<close>
named_theorems inv_intros \<open>preservation lemmas of component invariants\<close>
named_theorems abs_simps \<open>refinement equations: abstraction of an operation's result\<close>

section \<open>C integer types\<close>

type_synonym uchar = "8 word"
type_synonym uint32 = "32 word"
type_synonym ulonglong = "64 word"

text \<open>
  Indices, sizes and counters of C type \<open>uint\<close> are natural numbers; where an expression can
  wrap at 32 bits the wrap-around is written out with \<open>u32\<close>.
\<close>

definition u32 :: "nat \<Rightarrow> nat" where
  "u32 n = n mod 2 ^ 32"

lemma u32_id [simp]: "n < 2 ^ 32 \<Longrightarrow> u32 n = n"
  by (simp add: u32_def)

lemma u32_less [simp]: "u32 n < 2 ^ 32"
  by (simp add: u32_def)

definition u64 :: "nat \<Rightarrow> nat" where
  "u64 n = n mod 2 ^ 64"

lemma u64_id [simp]: "n < 2 ^ 64 \<Longrightarrow> u64 n = n"
  by (simp add: u64_def)

text \<open>The conversion of a number to \<open>int\<close> (32 bits, two's complement).\<close>

definition s32 :: "int \<Rightarrow> int" where
  "s32 x = (x + 2 ^ 31) mod 2 ^ 32 - 2 ^ 31"

lemma s32_id: "- (2 ^ 31) \<le> x \<Longrightarrow> x < 2 ^ 31 \<Longrightarrow> s32 x = x"
  by (simp add: s32_def)

section \<open>Bytes of a 32-bit word\<close>

definition word_byte :: "uint32 \<Rightarrow> nat \<Rightarrow> uchar" where
  "word_byte w k = ucast (drop_bit (8 * k) w)"

definition word_set_byte :: "uint32 \<Rightarrow> nat \<Rightarrow> uchar \<Rightarrow> uint32" where
  "word_set_byte w k b =
     (w AND NOT (push_bit (8 * k) 0xFF)) OR push_bit (8 * k) (ucast b)"

lemma bit_word_byte [byte_simps]: "bit (word_byte w k) j \<longleftrightarrow> j < 8 \<and> bit w (8 * k + j)"
  by (auto simp: word_byte_def bit_ucast_iff bit_drop_bit_eq dest: bit_imp_le_length)

lemma bit_0xFF: "bit (0xFF :: uint32) j \<longleftrightarrow> j < 8"
proof -
  have "(0xFF :: uint32) = mask 8" by (simp add: mask_eq_exp_minus_1)
  then show ?thesis by (simp only: bit_mask_iff) auto
qed

lemma byte_index: "j div 8 = k \<longleftrightarrow> 8 * k \<le> j \<and> j - 8 * k < (8::nat)"
  by arith

lemma bit_word_set_byte [byte_simps]:
  assumes "k < 4" "j < 32"
  shows "bit (word_set_byte w k b) j \<longleftrightarrow>
    (if j div 8 = k then bit b (j mod 8) else bit w j)"
proof -
  have "\<not> bit b (j - 8 * k)" if "\<not> j - 8 * k < 8"
    using that bit_imp_le_length [of b "j - 8 * k"] by auto
  moreover have "j mod 8 = j - 8 * k" if "j div 8 = k"
    using that by (simp add: modulo_nat_def)
  ultimately show ?thesis using assms byte_index [of j k]
    by (auto simp: word_set_byte_def bit_or_iff bit_and_iff bit_not_iff bit_push_bit_iff
        bit_ucast_iff bit_0xFF)
qed

lemma word32_eqI: "(\<And>j. j < 32 \<Longrightarrow> bit v j = bit w j) \<Longrightarrow> v = (w :: uint32)"
  by (rule bit_word_eqI) simp

lemma word8_eqI: "(\<And>j. j < 8 \<Longrightarrow> bit v j = bit w j) \<Longrightarrow> v = (w :: uchar)"
  by (rule bit_word_eqI) simp

lemma bit_ones32: "bit (0xFFFFFFFF :: uint32) j \<longleftrightarrow> j < 32"
proof -
  have "(0xFFFFFFFF :: uint32) = mask 32" by (simp add: mask_eq_exp_minus_1)
  then show ?thesis by (simp only: bit_mask_iff) auto
qed

lemma bit_ones8: "bit (0xFF :: uchar) j \<longleftrightarrow> j < 8"
proof -
  have "(0xFF :: uchar) = mask 8" by (simp add: mask_eq_exp_minus_1)
  then show ?thesis by (simp only: bit_mask_iff) auto
qed

lemma bit_shl1_8: "bit (push_bit k 1 :: uchar) j \<longleftrightarrow> j = k \<and> j < 8"
  by (auto simp: push_bit_of_1 bit_exp_iff)

lemma byte_pow2m1:
  assumes "k \<le> 8"
  shows "bit (push_bit k 1 - 1 :: uchar) j \<longleftrightarrow> j < k"
proof -
  have "(push_bit k 1 - 1 :: uchar) = mask k" by (simp add: mask_eq_exp_minus_1 push_bit_eq_mult)
  then show ?thesis using assms by (auto simp: bit_mask_iff)
qed

lemma word_zero_iff32: "(w :: uint32) = 0 \<longleftrightarrow> (\<forall>j < 32. \<not> bit w j)"
  by (auto intro: word32_eqI)

lemma word_ones_iff32: "(w :: uint32) = 0xFFFFFFFF \<longleftrightarrow> (\<forall>j < 32. bit w j)"
  by (auto simp: bit_ones32 intro: word32_eqI)

lemma byte_zero_iff: "(w :: uchar) = 0 \<longleftrightarrow> (\<forall>j < 8. \<not> bit w j)"
  by (auto intro: word8_eqI)

lemma byte_ones_iff: "(w :: uchar) = 0xFF \<longleftrightarrow> (\<forall>j < 8. bit w j)"
  by (auto simp: bit_ones8 intro: word8_eqI)

section \<open>Bounded forward scan\<close>

text \<open>
  \<open>first_from p i n\<close> is the loop \<open>for (; i < n; i++) if (p(i)) return i;\<close>; \<open>None\<close> when it
  reaches \<open>n\<close>.
\<close>

function first_from :: "(nat \<Rightarrow> bool) \<Rightarrow> nat \<Rightarrow> nat \<Rightarrow> nat option" where
  "first_from p i n = (if i < n then if p i then Some i else first_from p (Suc i) n else None)"
  by pat_completeness auto
termination
  by (relation "measure (\<lambda>(p, i, n). n - i)") auto

declare first_from.simps [simp del]

lemma first_from_Some:
  "first_from p i n = Some j \<longleftrightarrow> i \<le> j \<and> j < n \<and> p j \<and> (\<forall>k. i \<le> k \<longrightarrow> k < j \<longrightarrow> \<not> p k)"
proof (induction p i n rule: first_from.induct)
  case (1 p i n)
  show ?case
  proof (cases "i < n \<and> \<not> p i")
    case True
    then show ?thesis using 1 first_from.simps [of p i n]
      by (auto simp: Suc_le_eq less_le)
  next
    case False
    then show ?thesis using first_from.simps [of p i n]
      by (auto simp: le_less)
  qed
qed

lemma first_from_None: "first_from p i n = None \<longleftrightarrow> (\<forall>k. i \<le> k \<longrightarrow> k < n \<longrightarrow> \<not> p k)"
proof (induction p i n rule: first_from.induct)
  case (1 p i n)
  show ?case
  proof (cases "i < n \<and> \<not> p i")
    case True
    then show ?thesis using 1 first_from.simps [of p i n]
      by (auto simp: Suc_le_eq less_le)
  next
    case False
    then show ?thesis using first_from.simps [of p i n] by auto
  qed
qed

section \<open>Lists and multisets\<close>

lemma list_update_Cons_numeral [simp]:
  "(x # xs)[numeral v := y] = x # xs[pred_numeral v := y]"
  by (simp add: numeral_eq_Suc)

lemma distinct_submset:
  assumes "distinct ys" "mset xs \<subseteq># mset ys"
  shows "distinct xs"
  unfolding distinct_count_atmost_1
proof
  fix a
  have "count (mset ys) a \<le> 1" using assms(1) by (simp add: distinct_count_atmost_1)
  then have "count (mset xs) a \<le> 1" using mset_subset_eq_count [OF assms(2), of a] by simp
  then show "count (mset xs) a = (if a \<in> set xs then 1 else 0)"
    by (metis count_greater_eq_one_iff le_antisym not_in_iff set_mset_mset)
qed

section \<open>Interfaces\<close>

text \<open>
  The callback contract of \<open>qsort_cmp2\<close>-style comparison functions: the sign of
  \<open>cmp a b\<close> is that of a total preorder.
\<close>

locale comparator =
  fixes cmp :: "'k \<Rightarrow> 'k \<Rightarrow> int"
  assumes cmp_anti: "cmp a b < 0 \<longleftrightarrow> 0 < cmp b a"
    and cmp_trans: "cmp a b \<le> 0 \<Longrightarrow> cmp b c \<le> 0 \<Longrightarrow> cmp a c \<le> 0"
begin

lemma cmp_refl [simp]: "cmp a a = 0"
  using cmp_anti [of a a] by linarith

lemma cmp_zero_sym: "cmp a b = 0 \<longleftrightarrow> cmp b a = 0"
  using cmp_anti [of a b] cmp_anti [of b a] by linarith

lemma cmp_le_total: "cmp a b \<le> 0 \<or> cmp b a \<le> 0"
  using cmp_anti [of a b] cmp_anti [of b a] by linarith

lemma cmp_le_less_trans: "cmp a b \<le> 0 \<Longrightarrow> cmp b c < 0 \<Longrightarrow> cmp a c < 0"
  using cmp_anti [of a c] cmp_anti [of b c] cmp_trans [of c a b] by linarith

lemma cmp_less_trans: "cmp a b < 0 \<Longrightarrow> cmp b c < 0 \<Longrightarrow> cmp a c < 0"
  by (rule cmp_le_less_trans) auto

lemma cmp_less_le_trans: "cmp a b < 0 \<Longrightarrow> cmp b c \<le> 0 \<Longrightarrow> cmp a c < 0"
  using cmp_anti [of a c] cmp_anti [of a b] cmp_trans [of b c a] by linarith

end

text \<open>
  A finite set of indices below a bound that is kept in a mutable structure: what a client
  of a bitmap relies on.
\<close>

locale index_set =
  fixes invar :: "'s \<Rightarrow> bool"
    and bound :: "'s \<Rightarrow> nat"
    and elems :: "'s \<Rightarrow> nat set"
    and add :: "'s \<Rightarrow> nat \<Rightarrow> 's"
    and del :: "'s \<Rightarrow> nat \<Rightarrow> 's"
    and mem :: "'s \<Rightarrow> nat \<Rightarrow> bool"
  assumes elems_bound: "invar s \<Longrightarrow> elems s \<subseteq> {..<bound s}"
    and add_elems: "invar s \<Longrightarrow> i < bound s \<Longrightarrow> elems (add s i) = insert i (elems s)"
    and del_elems: "invar s \<Longrightarrow> i < bound s \<Longrightarrow> elems (del s i) = elems s - {i}"
    and mem_elems: "invar s \<Longrightarrow> i < bound s \<Longrightarrow> mem s i \<longleftrightarrow> i \<in> elems s"
    and invar_add: "invar s \<Longrightarrow> i < bound s \<Longrightarrow> invar (add s i) \<and> bound (add s i) = bound s"
    and invar_del: "invar s \<Longrightarrow> i < bound s \<Longrightarrow> invar (del s i) \<and> bound (del s i) = bound s"
begin

text \<open>A run of updates: \<open>(True, i)\<close> adds, \<open>(False, i)\<close> deletes.\<close>

lemma run_refines:
  assumes "invar s" "\<forall>(b, i) \<in> set us. i < bound s"
  shows "invar (foldl (\<lambda>s (b, i). if b then add s i else del s i) s us)
    \<and> bound (foldl (\<lambda>s (b, i). if b then add s i else del s i) s us) = bound s
    \<and> elems (foldl (\<lambda>s (b, i). if b then add s i else del s i) s us)
      = foldl (\<lambda>A (b, i). if b then insert i A else A - {i}) (elems s) us"
  using assms
proof (induction us arbitrary: s)
  case Nil
  then show ?case by simp
next
  case (Cons u us)
  obtain b i where u: "u = (b, i)" by (cases u)
  let ?s = "if b then add s i else del s i"
  have i: "i < bound s" using Cons.prems(2) u by auto
  have s': "invar ?s" "bound ?s = bound s"
    using invar_add [OF Cons.prems(1) i] invar_del [OF Cons.prems(1) i] by auto
  have e: "elems ?s = (if b then insert i (elems s) else elems s - {i})"
    using add_elems [OF Cons.prems(1) i] del_elems [OF Cons.prems(1) i] by auto
  show ?case using Cons.IH [of ?s] s' e Cons.prems(2) u by auto
qed

lemma run_member:
  assumes "invar s" "\<forall>(b, i) \<in> set us. i < bound s" "j < bound s"
  shows "mem (foldl (\<lambda>s (b, i). if b then add s i else del s i) s us) j \<longleftrightarrow>
    j \<in> foldl (\<lambda>A (b, i). if b then insert i A else A - {i}) (elems s) us"
proof -
  let ?s = "foldl (\<lambda>s (b, i). if b then add s i else del s i) s us"
  note r = run_refines [OF assms(1,2)]
  have "mem ?s j \<longleftrightarrow> j \<in> elems ?s"
    by (rule mem_elems) (use r assms(3) in auto)
  with r show ?thesis by simp
qed

end

text \<open>
  A self-delimiting code: decoding an encoded value in front of any further input gives the
  value back and leaves the rest, for every value of the domain.
\<close>

locale stream_codec =
  fixes dom :: "'v \<Rightarrow> bool"
    and enc :: "'v \<Rightarrow> 'b list"
    and dec :: "'b list \<Rightarrow> ('v \<times> 'b list) option"
  assumes dec_enc: "dom v \<Longrightarrow> dec (enc v @ rest) = Some (v, rest)"
begin

lemma enc_inj:
  assumes "dom v" "dom w" "enc v @ r = enc w @ s"
  shows "v = w \<and> r = s"
proof -
  have "Some (v, r) = Some (w, s)"
    unfolding dec_enc [OF assms(1), symmetric] dec_enc [OF assms(2), symmetric] assms(3) ..
  then show ?thesis by simp
qed

fun dec_many :: "nat \<Rightarrow> 'b list \<Rightarrow> ('v list \<times> 'b list) option" where
  "dec_many 0 bs = Some ([], bs)"
| "dec_many (Suc n) bs = (case dec bs of None \<Rightarrow> None
     | Some (v, bs') \<Rightarrow> map_option (\<lambda>(vs, r). (v # vs, r)) (dec_many n bs'))"

lemma dec_many_enc:
  "list_all dom vs \<Longrightarrow> dec_many (length vs) (concat (map enc vs) @ rest) = Some (vs, rest)"
  by (induction vs) (auto simp: dec_enc)

lemma concat_enc_inj:
  assumes "list_all dom vs" "list_all dom ws" "length vs = length ws"
    "concat (map enc vs) = concat (map enc ws)"
  shows "vs = ws"
  using dec_many_enc [OF assms(1), of "[]"] dec_many_enc [OF assms(2), of "[]"] assms(3,4)
  by simp

end


text \<open>
  A priority queue: \<open>pop\<close> removes a least element of the stored multiset, in the order the
  queue was created with.  Popping everything sorts.
\<close>

primrec pop_all :: "('s \<Rightarrow> 's \<times> 'e) \<Rightarrow> nat \<Rightarrow> 's \<Rightarrow> 'e list" where
  "pop_all pop 0 s = []"
| "pop_all pop (Suc n) s = (let (s', x) = pop s in x # pop_all pop n s')"

locale priority_queue =
  fixes invar :: "'s \<Rightarrow> bool"
    and els :: "'s \<Rightarrow> 'e multiset"
    and le :: "'s \<Rightarrow> 'e \<Rightarrow> 'e \<Rightarrow> bool"
    and pop :: "'s \<Rightarrow> 's \<times> 'e"
  assumes pop_least: "invar s \<Longrightarrow> els s \<noteq> {#} \<Longrightarrow>
      snd (pop s) \<in># els s \<and> (\<forall>y \<in># els s. le s (snd (pop s)) y)"
    and pop_els: "invar s \<Longrightarrow> els s \<noteq> {#} \<Longrightarrow> els (fst (pop s)) = els s - {#snd (pop s)#}"
    and pop_invar: "invar s \<Longrightarrow> els s \<noteq> {#} \<Longrightarrow> invar (fst (pop s)) \<and> le (fst (pop s)) = le s"
begin

lemma pop_all_sorts:
  assumes "invar s" "size (els s) = n"
  shows "mset (pop_all pop n s) = els s \<and> sorted_wrt (le s) (pop_all pop n s)"
  using assms
proof (induction n arbitrary: s)
  case 0
  then show ?case by simp
next
  case (Suc n)
  obtain s' x where p: "pop s = (s', x)" by (cases "pop s")
  have ne: "els s \<noteq> {#}" using Suc.prems(2) by auto
  note L = pop_least [OF Suc.prems(1) ne] pop_els [OF Suc.prems(1) ne] pop_invar [OF Suc.prems(1) ne]
  have "size (els s') = n" using L Suc.prems(2) p by (simp add: size_Diff_singleton)
  then have IH: "mset (pop_all pop n s') = els s'" "sorted_wrt (le s) (pop_all pop n s')"
    using Suc.IH [of s'] L p by simp_all
  have "set (pop_all pop n s') \<subseteq> set_mset (els s)"
    using IH(1) L p by (metis fst_conv in_diffD set_mset_mset snd_conv subsetI)
  then show ?case using L p IH by auto
qed

end

section \<open>State machines\<close>

text \<open>
  The states that a step relation reaches from its initial states, and the interface of an
  invariant: it holds initially and every step keeps it.
\<close>

inductive reachable :: "('s \<Rightarrow> bool) \<Rightarrow> ('s \<Rightarrow> 's \<Rightarrow> bool) \<Rightarrow> 's \<Rightarrow> bool"
  for init :: "'s \<Rightarrow> bool" and step :: "'s \<Rightarrow> 's \<Rightarrow> bool" where
  start: "init s \<Longrightarrow> reachable init step s"
| more: "reachable init step s \<Longrightarrow> step s s' \<Longrightarrow> reachable init step s'"

locale transition_system =
  fixes init :: "'s \<Rightarrow> bool" and step :: "'s \<Rightarrow> 's \<Rightarrow> bool" and inv :: "'s \<Rightarrow> bool"
  assumes inv_init: "init s \<Longrightarrow> inv s"
    and inv_step: "inv s \<Longrightarrow> step s s' \<Longrightarrow> inv s'"
begin

lemma inv_reachable: "reachable init step s \<Longrightarrow> inv s"
  by (induction rule: reachable.induct) (auto intro: inv_init inv_step)

end

end
