(* ===== verification/Bit_Count.thy ===== *)
theory Bit_Count
  imports Prelude
begin

text \<open>
  \<open>my_count_bits_uint32\<close> of \<open>include/my_bit.h\<close>, the parallel bit count that
  \<open>bitmap_bits_set\<close> uses, and the proof that it counts the bits of a word.
\<close>

definition my_count_bits_uint32 :: "uint32 \<Rightarrow> nat" where
  "my_count_bits_uint32 v =
     (let v = v - (drop_bit 1 v AND 0x55555555);
          v = (v AND 0x33333333) + (drop_bit 2 v AND 0x33333333)
      in unat (drop_bit 24 (((v + drop_bit 4 v) AND 0xF0F0F0F) * 0x1010101)))"

section \<open>Counting bits in parallel\<close>

text \<open>
  Natural numbers by their digits, least significant first, and the regrouping of a number's
  digits in pairs: the SWAR steps of \<open>my_count_bits_uint32\<close> are digit-wise.
\<close>

fun val :: "nat \<Rightarrow> nat list \<Rightarrow> nat" where
  "val b [] = 0"
| "val b (d # ds) = d + b * val b ds"

fun pairs :: "nat \<Rightarrow> nat list \<Rightarrow> nat list" where
  "pairs b (x # y # r) = (x + b * y) # pairs b r"
| "pairs b r = r"

lemma val_pairs: "even (length ds) \<Longrightarrow> val (b * b) (pairs b ds) = val b ds"
  by (induction b ds rule: pairs.induct) (auto simp: algebra_simps)

lemma and_split: "(u AND v :: nat) = (u mod 2 ^ k AND v mod 2 ^ k) + 2 ^ k * (u div 2 ^ k AND v div 2 ^ k)"
proof -
  have "(u AND v) mod 2 ^ k = (u mod 2 ^ k AND v mod 2 ^ k)" "(u AND v) div 2 ^ k = (u div 2 ^ k AND v div 2 ^ k)"
    by (simp_all add: take_bit_and drop_bit_and flip: take_bit_eq_mod drop_bit_eq_div)
  then show ?thesis using mod_mult_div_eq [of "u AND v" "2 ^ k"] by simp
qed

lemma and_low: "(u AND (2 ^ h - 1) :: nat) = u mod 2 ^ h"
  using take_bit_eq_mask [of h u] by (simp only: mask_eq_exp_minus_1 take_bit_eq_mod)

lemma and_digit:
  assumes "m < 2 ^ k"
  shows "(u AND (m + 2 ^ k * M) :: nat) = (u mod 2 ^ k AND m) + 2 ^ k * (u div 2 ^ k AND M)"
  using assms and_split [of u "m + 2 ^ k * M" k] by simp

text \<open>
  With digits of \<open>2 * h\<close> bits: masking with the low halves keeps the low half of every digit,
  and shifting by \<open>h\<close> first keeps the high halves.
\<close>

lemma mask_low:
  assumes "list_all (\<lambda>d. d < B) ds" and B: "B = 2 ^ (2 * h)" and m: "m = 2 ^ h - (1::nat)"
  shows "val B ds AND val B (replicate (length ds) m) = val B (map (\<lambda>d. d mod 2 ^ h) ds)"
  using assms(1)
proof (induction ds)
  case (Cons d ds)
  have mB: "m < 2 ^ (2 * h)"
    unfolding m by (rule less_le_trans [of _ "2 ^ h"]) (simp_all add: power_increasing)
  have "(d + B * val B ds) AND (m + B * val B (replicate (length ds) m)) =
      (d AND m) + B * (val B ds AND val B (replicate (length ds) m))"
    using Cons.prems and_digit [OF mB, of "d + B * val B ds" "val B (replicate (length ds) m)"] by (simp add: B)
  moreover have "d AND m = d mod 2 ^ h" unfolding m by (rule and_low)
  ultimately show ?case using Cons by simp
qed simp

lemma mask_high:
  assumes "list_all (\<lambda>d. d < B) ds" and B: "B = 2 ^ (2 * h)" and m: "m = 2 ^ h - (1::nat)"
  shows "(val B ds div 2 ^ h) AND val B (replicate (length ds) m) = val B (map (\<lambda>d. d div 2 ^ h) ds)"
  using assms(1)
proof (induction ds)
  case (Cons d ds)
  define V where "V = val B ds"
  have hh: "B = 2 ^ h * 2 ^ h" by (simp add: B mult_2 power_add)
  have mB: "m < 2 ^ (2 * h)"
    unfolding m by (rule less_le_trans [of _ "2 ^ h"]) (simp_all add: power_increasing)
  define X where "X = (d + B * V) div 2 ^ h"
  have X: "X = d div 2 ^ h + 2 ^ h * V" by (simp add: X_def hh mult.assoc)
  have dh: "d div 2 ^ h < 2 ^ h" using Cons.prems by (simp add: hh less_mult_imp_div_less)
  have "X div B = V div 2 ^ h" unfolding X hh div_mult2_eq using dh by simp
  moreover have "X mod B AND m = d div 2 ^ h"
    unfolding X m and_low hh using dh by (simp add: mod_mult2_eq)
  ultimately have "X AND (m + B * val B (replicate (length ds) m)) =
      d div 2 ^ h + B * (V div 2 ^ h AND val B (replicate (length ds) m))"
    using and_digit [OF mB, of X "val B (replicate (length ds) m)"] by (simp add: B)
  then show ?case using Cons by (simp add: X_def V_def)
qed simp

lemma val_sub: "list_all2 (\<le>) es ds \<Longrightarrow> val b ds - val b es = val b (map2 (-) ds es) \<and> val b es \<le> val b ds"
proof (induction rule: list_all2_induct)
  case (Cons x xs y ys)
  obtain k where k: "val b ys = val b xs + k" using Cons.IH le_Suc_ex by blast
  then show ?case using Cons by (simp add: distrib_left)
qed simp

lemma val_add: "length es = length ds \<Longrightarrow> val b ds + val b es = val b (map2 (+) ds es)"
  by (induction rule: list_induct2) (auto simp: algebra_simps simp flip: distrib_left)

lemma pairs_bits:
  "even (length bs) \<Longrightarrow> list_all (\<lambda>b. b \<le> 1) bs \<Longrightarrow>
    map (\<lambda>d. d - d div 2) (pairs 2 bs) = pairs 1 bs \<and> list_all (\<lambda>d. d < 4) (pairs 2 bs)"
  by (induction "2::nat" bs rule: pairs.induct) (auto simp: le_Suc_eq)

lemma pairs_half:
  "even (length ds) \<Longrightarrow> list_all (\<lambda>d. d < c) ds \<Longrightarrow> 0 < c \<Longrightarrow>
    map (\<lambda>d. d mod c + d div c) (pairs c ds) = pairs 1 ds \<and> list_all (\<lambda>d. d < c * c) (pairs c ds)"
proof (induction c ds rule: pairs.induct)
  case (1 c x y r)
  have "x + c * y < c + c * y" using 1 by simp
  also have "\<dots> = c * Suc y" by simp
  also have "\<dots> \<le> c * c" using 1 by (intro mult_le_mono2) simp
  finally show ?case using 1 by simp
qed auto

lemma pairs_bound: "even (length ds) \<Longrightarrow> list_all (\<lambda>d. d \<le> k) ds \<Longrightarrow> list_all (\<lambda>d. d \<le> 2 * k) (pairs 1 ds)"
  by (induction "1::nat" ds rule: pairs.induct) auto

lemma sum_pairs: "even (length ds) \<Longrightarrow> sum_list (pairs 1 ds) = sum_list ds"
  by (induction "1::nat" ds rule: pairs.induct) auto

lemma length_pairs: "even (length ds) \<Longrightarrow> length (pairs b ds) = length ds div 2"
  by (induction b ds rule: pairs.induct) auto

text \<open>The third step: nibbles of at most 4 added to their neighbours, then the even ones kept.\<close>

lemma nibble_digit:
  assumes "x \<le> 4" "y \<le> 4" "V mod 16 \<le> (4::nat)"
  shows "((x + 16 * (y + 16 * V)) + (x + 16 * (y + 16 * V)) div 16) AND (15 + 256 * M) =
    (x + y) + 256 * ((V + V div 16) AND M)"
proof -
  define q where "q = y + V mod 16"
  have q: "q \<le> 8" "x + y \<le> 8" using assms by (auto simp: q_def)
  have "(x + 16 * (y + 16 * V)) div 16 = y + 16 * V" using assms(1) by (subst div_mult_self2) simp_all
  moreover have "16 * V = 16 * (V mod 16) + 256 * (V div 16)"
    using div_mult_mod_eq [of V 16] by linarith
  ultimately have e: "(x + 16 * (y + 16 * V)) + (x + 16 * (y + 16 * V)) div 16 = ((x + y) + 16 * q) + 256 * (V + V div 16)"
    by (simp add: q_def)
  have "((x + y) + 16 * q) AND 15 = x + y"
    using and_low [of "(x + y) + 16 * q" 4] q by simp
  moreover define t where "t = V + V div 16"
  ultimately show ?thesis
    unfolding e t_def [symmetric] using and_digit [of 15 8 "((x + y) + 16 * q) + 256 * t" M] q by simp
qed

lemma nibble_step:
  assumes "even (length ds)" "list_all (\<lambda>d. d \<le> 4) ds"
  shows "(val 16 ds + val 16 ds div 16) AND val 256 (replicate (length ds div 2) 15) = val 256 (pairs 1 ds)"
  using assms
proof (induction "1::nat" ds rule: pairs.induct)
  case (1 x y r)
  have "val 16 r mod 16 \<le> 4" using 1(3) by (cases r) auto
  with 1 nibble_digit [of x y "val 16 r" "val 256 (replicate (length r div 2) 15)"]
  show ?case by simp
qed auto

lemma byte_sum:
  assumes "c0 \<le> 8" "c1 \<le> 8" "c2 \<le> 8" "c3 \<le> (8::nat)"
  shows "val 256 [c0, c1, c2, c3] * 0x1010101 mod 2 ^ 32 div 2 ^ 24 = c0 + c1 + c2 + c3"
proof -
  define low where "low = c0 + 256 * (c0 + c1) + 65536 * (c0 + c1 + c2)"
  define high where "high = (c1 + c2 + c3) + 256 * (c2 + c3) + 65536 * c3"
  have "val 256 [c0, c1, c2, c3] * 0x1010101 = (low + 2 ^ 24 * (c0 + c1 + c2 + c3)) + 2 ^ 32 * high"
    by (simp add: low_def high_def)
  moreover have l: "low < 2 ^ 24" using assms by (simp add: low_def)
  moreover have "low + 2 ^ 24 * (c0 + c1 + c2 + c3) < 2 ^ 32" using assms l by simp
  ultimately show ?thesis by (simp only: mod_mult_self2 mod_less div_mult_self2 div_less)
qed

definition bits_of :: "uint32 \<Rightarrow> nat list" where
  "bits_of v = map (\<lambda>i. of_bool (bit v i)) [0..<32]"

lemma val_horner: "val 2 (map of_bool bs) = horner_sum of_bool 2 bs"
  by (induction bs) auto

lemma unat_bits: "unat v = val 2 (bits_of v)" for v :: uint32
proof -
  have "unat v < 2 ^ LENGTH(32)" by (rule unsigned_less)
  then have "unat v < 2 ^ 32" by simp
  then have "unat v = take_bit 32 (unat v)" by (rule take_bit_nat_eq_self [symmetric])
  also have "\<dots> = horner_sum of_bool 2 (map (bit (unat v)) [0..<32])"
    by (simp only: horner_sum_bit_eq_take_bit)
  finally show ?thesis by (simp add: bits_of_def val_horner [symmetric] comp_def bit_unsigned_iff)
qed

lemma sum_bits: "sum_list (bits_of v) = card {j. j < 32 \<and> bit v j}"
proof -
  have "sum_list (bits_of v) = (\<Sum>i = 0..<32. of_bool (bit v i))"
    unfolding bits_of_def interv_sum_list_conv_sum_set_nat by simp
  also have "\<dots> = card ({0..<32} \<inter> {j. bit v j})" by (simp add: sum_of_bool_eq)
  also have "{0..<32} \<inter> {j. bit v j} = {j. j < 32 \<and> bit v j}" by auto
  finally show ?thesis .
qed

lemma replicates:
  "replicate 16 x = [x, x, x, x, x, x, x, x, x, x, x, x, x, x, x, x]" "replicate 8 x = [x, x, x, x, x, x, x, x]"
  "replicate 4 x = [x, x, x, x]"
  by (simp_all add: numeral_eq_Suc)

lemma swar_masks:
  "val 4 (replicate 16 1) = 0x55555555" "val 16 (replicate 8 3) = 0x33333333"
  "val 256 (replicate 4 15) = 0xF0F0F0F"
  unfolding replicates by simp_all

lemma unat_shr: "unat (drop_bit n v :: uint32) = unat v div 2 ^ n"
  by (simp only: unat_drop_bit_eq) (simp only: drop_bit_eq_div)

lemma swar_literals:
  "unat (0x55555555 :: uint32) = 0x55555555" "unat (0x33333333 :: uint32) = 0x33333333"
  "unat (0xF0F0F0F :: uint32) = 0xF0F0F0F" "unat (0x1010101 :: uint32) = 0x1010101"
  by simp_all

lemma swar_step1:
  assumes "length d = 16" "list_all (\<lambda>x. x < 4) d" "unat v = val 4 d"
  shows "unat (v - (drop_bit 1 v AND 0x55555555) :: uint32) = val 4 (map (\<lambda>x. x - x div 2) d)"
proof -
  let ?w = "drop_bit 1 v AND 0x55555555"
  have "unat ?w = (val 4 d div 2 ^ 1) AND val 4 (replicate (length d) 1)"
    unfolding swar_masks unsigned_and_eq unat_shr assms(1,3) swar_literals ..
  also have "\<dots> = val 4 (map (\<lambda>x. x div 2 ^ 1) d)"
    by (rule mask_high [OF assms(2)]) simp_all
  finally have w: "unat ?w = val 4 (map (\<lambda>x. x div 2) d)" unfolding power_one_right .
  have s: "val 4 d - val 4 (map (\<lambda>x. x div 2) d) = val 4 (map2 (-) d (map (\<lambda>x. x div 2) d)) \<and>
      val 4 (map (\<lambda>x. x div 2) d) \<le> val 4 d"
    by (rule val_sub) (simp add: list_all2_map1 list_all2_same)
  then have "unat (v - ?w) = unat v - unat ?w" by (intro unat_sub) (simp only: word_le_nat_alt w assms(3))
  moreover have "map2 (-) d (map (\<lambda>x. x div 2) d) = map (\<lambda>x. x - x div 2) d"
    by (induction d) auto
  ultimately show ?thesis using s unfolding w assms(3) by simp
qed

lemma val_bound: "list_all (\<lambda>x. x < 16) ds \<Longrightarrow> val 16 ds < 16 ^ length ds"
proof (induction ds)
  case (Cons x ds)
  then have "x + 16 * val 16 ds < 16 + 16 * val 16 ds" by simp
  also have "\<dots> = 16 * Suc (val 16 ds)" by simp
  also have "\<dots> \<le> 16 * 16 ^ length ds" using Cons by (intro mult_le_mono2) (simp add: Suc_le_eq)
  finally show ?case by simp
qed simp

lemma val_small: "list_all (\<lambda>x. x \<le> 4) ds \<Longrightarrow> 3 * val 16 ds < 16 ^ length ds"
  by (induction ds) auto

lemma swar_step2:
  assumes "length d = 8" "list_all (\<lambda>x. x < 16) d" "unat v = val 16 d"
    and small: "list_all (\<lambda>x. x < 16) (map (\<lambda>x. x mod 4 + x div 4) d)"
  shows "unat ((v AND 0x33333333) + (drop_bit 2 v AND 0x33333333) :: uint32) = val 16 (map (\<lambda>x. x mod 4 + x div 4) d)"
proof -
  have "unat (v AND 0x33333333) = val 16 d AND val 16 (replicate (length d) 3)"
    unfolding unsigned_and_eq assms(1,3) swar_literals swar_masks ..
  also have "\<dots> = val 16 (map (\<lambda>x. x mod 2 ^ 2) d)" by (rule mask_low [OF assms(2)]) simp_all
  finally have lo: "unat (v AND 0x33333333) = val 16 (map (\<lambda>x. x mod 4) d)" by simp
  have "unat (drop_bit 2 v AND 0x33333333) = (val 16 d div 2 ^ 2) AND val 16 (replicate (length d) 3)"
    unfolding unsigned_and_eq unat_shr assms(1,3) swar_literals swar_masks ..
  also have "\<dots> = val 16 (map (\<lambda>x. x div 2 ^ 2) d)" by (rule mask_high [OF assms(2)]) simp_all
  finally have hi: "unat (drop_bit 2 v AND 0x33333333) = val 16 (map (\<lambda>x. x div 4) d)" by simp
  have "val 16 (map (\<lambda>x. x mod 4) d) + val 16 (map (\<lambda>x. x div 4) d) = val 16 (map (\<lambda>x. x mod 4 + x div 4) d)"
  proof -
    have "map2 (+) (map (\<lambda>x. x mod 4) d) (map (\<lambda>x. x div 4) d) = map (\<lambda>x. x mod 4 + x div 4) d"
      by (induction d) auto
    then show ?thesis using val_add [of "map (\<lambda>x. x div 4) d" "map (\<lambda>x. x mod 4) d" 16] by simp
  qed
  moreover have "val 16 (map (\<lambda>x. x mod 4 + x div 4) d) < 2 ^ 32"
    using val_bound [OF small] assms(1) by simp
  ultimately show ?thesis unfolding unat_word_ariths lo hi by simp
qed

text \<open>The parallel bit count is the number of bits that are on.\<close>

lemma my_count_bits_uint32_correct: "my_count_bits_uint32 v = card {j. j < 32 \<and> bit v j}"
proof -
  define bs where "bs = bits_of v"
  have bs: "length bs = 32" "list_all (\<lambda>b. b \<le> 1) bs" "unat v = val 2 bs"
    by (auto simp: bs_def bits_of_def list_all_iff unat_bits)
  define v1 where "v1 = v - (drop_bit 1 v AND 0x55555555)"
  define v2 where "v2 = (v1 AND 0x33333333) + (drop_bit 2 v1 AND 0x33333333)"
  define v3 where "v3 = (v2 + drop_bit 4 v2) AND 0xF0F0F0F"
  define e1 where "e1 = pairs 1 bs"
  define e2 where "e2 = pairs 1 e1"
  define e3 where "e3 = pairs 1 e2"
  have e1: "length e1 = 16" "list_all (\<lambda>x. x \<le> 2) e1"
    using pairs_bound [of bs 1] bs by (simp_all add: e1_def length_pairs)
  have e2: "length e2 = 8" "list_all (\<lambda>x. x \<le> 4) e2"
    using pairs_bound [of e1 2] e1 by (simp_all add: e2_def length_pairs)
  have e3: "length e3 = 4" "list_all (\<lambda>x. x \<le> 8) e3"
    using pairs_bound [of e2 4] e2 by (simp_all add: e3_def length_pairs)
  have "unat v1 = val 4 e1"
    using swar_step1 [of "pairs 2 bs" v] pairs_bits [of bs] bs val_pairs [of bs 2]
    by (simp add: v1_def e1_def length_pairs)
  moreover have "list_all (\<lambda>x. x < 4) e1" using e1(2) by (auto simp: list_all_iff)
  then have p: "map (\<lambda>x. x mod 4 + x div 4) (pairs 4 e1) = e2" "list_all (\<lambda>x. x < 16) (pairs 4 e1)"
    using pairs_half [of e1 4] e1 by (simp_all add: e2_def)
  have e2': "list_all (\<lambda>x. x < 16) e2" using e2(2) by (auto simp: list_all_iff)
  ultimately have "unat v2 = val 16 (map (\<lambda>x. x mod 4 + x div 4) (pairs 4 e1))"
    unfolding v2_def using p e2' e1 val_pairs [of e1 4] by (intro swar_step2) (simp_all add: length_pairs)
  then have v2: "unat v2 = val 16 e2" unfolding p .
  have v3: "unat v3 = val 256 e3"
  proof -
    have "val 16 e2 + val 16 e2 div 16 < 2 ^ 32" using val_small [OF e2(2)] e2(1) by simp
    then have "unat (v2 + drop_bit 4 v2) = val 16 e2 + val 16 e2 div 16"
      unfolding unat_word_ariths unat_shr v2 by simp
    then have "unat v3 = (val 16 e2 + val 16 e2 div 16) AND val 256 (replicate (length e2 div 2) 15)"
      unfolding v3_def unsigned_and_eq swar_literals e2(1) by (simp only: swar_masks) (simp add: swar_masks)
    then show ?thesis using nibble_step [of e2] e2 by (simp add: e3_def)
  qed
  obtain c0 c1 c2 c3 where c: "e3 = [c0, c1, c2, c3]" using e3(1)
    by (auto simp: numeral_eq_Suc length_Suc_conv)
  have "my_count_bits_uint32 v = unat (drop_bit 24 (v3 * 0x1010101))"
    by (simp only: my_count_bits_uint32_def Let_def v1_def v2_def v3_def)
  also have "\<dots> = val 256 e3 * 0x1010101 mod 2 ^ 32 div 2 ^ 24"
    unfolding unat_shr unat_word_ariths v3 swar_literals by simp
  also have "\<dots> = sum_list e3" using byte_sum [of c0 c1 c2 c3] e3(2) c by simp
  also have "\<dots> = sum_list bs" using sum_pairs bs(1) e1(1) e2(1) by (simp add: e3_def e2_def e1_def)
  finally show ?thesis by (simp add: bs_def sum_bits)
qed

end
