(* ===== verification/Bitmap.thy ===== *)
theory Bitmap
  imports Bit_Count
begin

text \<open>
  The bitmaps of \<open>mysys/my_bitmap.c\<close> (with \<open>include/my_bitmap.h\<close> and
  \<open>include/my_bit.h\<close>). A \<open>MY_BITMAP\<close> keeps a buffer of 32-bit words, the position of its
  last word and a mask of the unused bits of that word. The operations mix word-wise and
  byte-wise access to the buffer; both are modelled as they are written. The theorems show
  that a bitmap is a set of indices below \<open>n_bits\<close>: every operation refines the set
  operation of its name, whatever the unused bits of the last word hold.
\<close>

section \<open>State\<close>

text \<open>
  \<open>bitmap\<close> is the buffer (\<open>[]\<close> for the null pointer), \<open>last_word_ptr\<close> an index into it,
  \<open>mutex\<close> is \<open>None\<close> when there is no mutex and \<open>Some b\<close> with \<open>b\<close> telling whether it is
  held.
\<close>

record MY_BITMAP =
  bitmap :: "uint32 list"
  last_word_ptr :: nat
  mutex :: "bool option"
  last_word_mask_of :: uint32
  n_bits :: nat

definition MY_BIT_NONE :: nat where
  "MY_BIT_NONE = 2 ^ 32 - 1"

definition no_bytes_in_map :: "MY_BITMAP \<Rightarrow> nat" where
  "no_bytes_in_map mp = u32 (n_bits mp + 7) div 8"

definition no_words_in_map :: "MY_BITMAP \<Rightarrow> nat" where
  "no_words_in_map mp = u32 (n_bits mp + 31) div 32"

section \<open>Byte access to the buffer\<close>

definition get_byte :: "uint32 list \<Rightarrow> nat \<Rightarrow> uchar" where
  "get_byte ws i = word_byte (ws ! (i div 4)) (i mod 4)"

definition set_byte :: "uint32 list \<Rightarrow> nat \<Rightarrow> uchar \<Rightarrow> uint32 list" where
  "set_byte ws i b = ws[i div 4 := word_set_byte (ws ! (i div 4)) (i mod 4) b]"

text \<open>\<open>memset(m + from, b, n)\<close> on the buffer.\<close>

fun memset :: "uint32 list \<Rightarrow> nat \<Rightarrow> uchar \<Rightarrow> nat \<Rightarrow> uint32 list" where
  "memset ws from b 0 = ws"
| "memset ws from b (Suc n) = memset (set_byte ws from b) (Suc from) b n"

section \<open>Masks\<close>

definition last_byte_mask :: "nat \<Rightarrow> uchar" where
  "last_byte_mask bits = (let used = u32 (bits + (2 ^ 32 - 1)) mod 8 in push_bit used 2 - 1)"

definition invers_last_byte_mask :: "nat \<Rightarrow> uchar" where
  "invers_last_byte_mask bits = last_byte_mask bits XOR 255"

definition last_word_mask :: "nat \<Rightarrow> uint32" where
  "last_word_mask b =
     (let n_bits = u32 (b + 1); msk = invers_last_byte_mask n_bits;
          k = (u32 (n_bits + 7) div 8) mod 4
      in if k = 1 then word_set_byte (NOT 0) 0 msk
         else if k = 2 then word_set_byte (word_set_byte (NOT 0) 0 0) 1 msk
         else if k = 3 then word_set_byte (word_set_byte 0 2 msk) 3 0xFF
         else word_set_byte 0 3 msk)"

definition create_last_word_mask :: "MY_BITMAP \<Rightarrow> MY_BITMAP" where
  "create_last_word_mask mp =
     (let msk = invers_last_byte_mask (n_bits mp);
          mp = mp\<lparr>last_word_ptr := no_words_in_map mp - 1\<rparr>;
          k = no_bytes_in_map mp mod 4
      in if k = 1 then mp\<lparr>last_word_mask_of := word_set_byte (NOT 0) 0 msk\<rparr>
         else if k = 2 then
           mp\<lparr>last_word_mask_of := word_set_byte (word_set_byte (NOT 0) 0 0) 1 msk\<rparr>
         else if k = 3 then
           mp\<lparr>last_word_mask_of := word_set_byte (word_set_byte 0 2 msk) 3 0xFF\<rparr>
         else mp\<lparr>last_word_mask_of := word_set_byte 0 3 msk\<rparr>)"

definition bitmap_lock :: "MY_BITMAP \<Rightarrow> MY_BITMAP" where
  "bitmap_lock mp = (case mutex mp of None \<Rightarrow> mp | Some _ \<Rightarrow> mp\<lparr>mutex := Some True\<rparr>)"

definition bitmap_unlock :: "MY_BITMAP \<Rightarrow> MY_BITMAP" where
  "bitmap_unlock mp = (case mutex mp of None \<Rightarrow> mp | Some _ \<Rightarrow> mp\<lparr>mutex := Some False\<rparr>)"

text \<open>
  \<open>get_first_set\<close> scans the four bytes of a word and then the eight bits of the first
  non-zero byte; \<open>None\<close> stands for running past the object, which the callers exclude by
  testing the word first.
\<close>

definition get_first_set :: "uint32 \<Rightarrow> nat \<Rightarrow> nat option" where
  "get_first_set value word_pos =
     (case first_from (\<lambda>byte_pos. word_byte value byte_pos \<noteq> 0) 0 4 of
        None \<Rightarrow> None
      | Some byte_pos \<Rightarrow>
          (case first_from (\<lambda>bit_pos. word_byte value byte_pos AND push_bit bit_pos 1 \<noteq> 0) 0 8 of
             None \<Rightarrow> None
           | Some bit_pos \<Rightarrow> Some (word_pos * 32 + byte_pos * 8 + bit_pos)))"

section \<open>Creation\<close>

text \<open>
  \<open>bitmap_clear_all\<close> is \<open>memset(bitmap, 0, 4 * no_words)\<close> in the header. The buffer is
  either the caller's (\<open>buf\<close> not null) or comes from \<open>my_malloc\<close>, whose result is the
  parameter \<open>malloc\<close>: \<open>None\<close> when the allocation fails, otherwise the words of the new
  block (the mutex placed behind them in the same block is not part of the buffer).
\<close>

definition bitmap_clear_all :: "MY_BITMAP \<Rightarrow> MY_BITMAP" where
  "bitmap_clear_all mp = mp\<lparr>bitmap := memset (bitmap mp) 0 0 (4 * no_words_in_map mp)\<rparr>"

definition my_bitmap_init ::
  "MY_BITMAP \<Rightarrow> uint32 list \<Rightarrow> uint32 list option \<Rightarrow> nat \<Rightarrow> bool \<Rightarrow> MY_BITMAP \<times> bool" where
  "my_bitmap_init mp buf malloc n thread_safe =
     (let mp = mp\<lparr>mutex := None\<rparr> in
      if buf = [] then
        (case malloc of
           None \<Rightarrow> (mp, True)
         | Some block \<Rightarrow>
             let mp = (if thread_safe then mp\<lparr>mutex := Some False\<rparr> else mp);
                 mp = mp\<lparr>bitmap := block, n_bits := n\<rparr>
             in (bitmap_clear_all (create_last_word_mask mp), False))
      else
        let mp = mp\<lparr>bitmap := buf, n_bits := n\<rparr>
        in (bitmap_clear_all (create_last_word_mask mp), False))"

definition my_bitmap_free :: "MY_BITMAP \<Rightarrow> MY_BITMAP" where
  "my_bitmap_free mp = (if bitmap mp \<noteq> [] then mp\<lparr>bitmap := []\<rparr> else mp)"

section \<open>Single bits\<close>

definition bitmap_set_bit :: "MY_BITMAP \<Rightarrow> nat \<Rightarrow> MY_BITMAP" where
  "bitmap_set_bit mp b = mp\<lparr>bitmap :=
     set_byte (bitmap mp) (b div 8) (get_byte (bitmap mp) (b div 8) OR push_bit (b mod 8) 1)\<rparr>"

definition bitmap_flip_bit :: "MY_BITMAP \<Rightarrow> nat \<Rightarrow> MY_BITMAP" where
  "bitmap_flip_bit mp b = mp\<lparr>bitmap :=
     set_byte (bitmap mp) (b div 8) (get_byte (bitmap mp) (b div 8) XOR push_bit (b mod 8) 1)\<rparr>"

definition bitmap_clear_bit :: "MY_BITMAP \<Rightarrow> nat \<Rightarrow> MY_BITMAP" where
  "bitmap_clear_bit mp b = mp\<lparr>bitmap := set_byte (bitmap mp) (b div 8)
     (get_byte (bitmap mp) (b div 8) AND NOT (push_bit (b mod 8) 1))\<rparr>"

definition bitmap_is_set :: "MY_BITMAP \<Rightarrow> nat \<Rightarrow> bool" where
  "bitmap_is_set mp b = (get_byte (bitmap mp) (b div 8) AND push_bit (b mod 8) 1 \<noteq> 0)"

definition bitmap_fast_test_and_set :: "MY_BITMAP \<Rightarrow> nat \<Rightarrow> MY_BITMAP \<times> bool" where
  "bitmap_fast_test_and_set mp bitmap_bit =
     (let value = get_byte (bitmap mp) (bitmap_bit div 8);
          bt = push_bit (bitmap_bit mod 8) 1;
          res = value AND bt
      in (mp\<lparr>bitmap := set_byte (bitmap mp) (bitmap_bit div 8) (value OR bt)\<rparr>, res \<noteq> 0))"

definition bitmap_test_and_set :: "MY_BITMAP \<Rightarrow> nat \<Rightarrow> MY_BITMAP \<times> bool" where
  "bitmap_test_and_set mp bitmap_bit =
     (let mp = bitmap_lock mp;
          (mp, res) = bitmap_fast_test_and_set mp bitmap_bit
      in (bitmap_unlock mp, res))"

definition bitmap_fast_test_and_clear :: "MY_BITMAP \<Rightarrow> nat \<Rightarrow> MY_BITMAP \<times> bool" where
  "bitmap_fast_test_and_clear mp bitmap_bit =
     (let byte = get_byte (bitmap mp) (bitmap_bit div 8);
          bt = push_bit (bitmap_bit mod 8) 1;
          res = byte AND bt
      in (mp\<lparr>bitmap := set_byte (bitmap mp) (bitmap_bit div 8) (byte AND NOT bt)\<rparr>, res \<noteq> 0))"

definition bitmap_test_and_clear :: "MY_BITMAP \<Rightarrow> nat \<Rightarrow> MY_BITMAP \<times> bool" where
  "bitmap_test_and_clear mp bitmap_bit =
     (let mp = bitmap_lock mp;
          (mp, res) = bitmap_fast_test_and_clear mp bitmap_bit
      in (bitmap_unlock mp, res))"

section \<open>Prefixes and ranges\<close>

definition bitmap_set_prefix :: "MY_BITMAP \<Rightarrow> nat \<Rightarrow> MY_BITMAP" where
  "bitmap_set_prefix mp prefix_size =
     (let prefix_size = (if n_bits mp < prefix_size then n_bits mp else prefix_size);
          m = bitmap mp;
          prefix_bytes = prefix_size div 8;
          m = (if prefix_bytes \<noteq> 0 then memset m 0 0xFF prefix_bytes else m);
          prefix_bits = prefix_size mod 8;
          (m, prefix_bytes) =
            (if prefix_bits \<noteq> 0
             then (set_byte m prefix_bytes (push_bit prefix_bits 1 - 1), prefix_bytes + 1)
             else (m, prefix_bytes));
          d = no_bytes_in_map mp - prefix_bytes;
          m = (if d \<noteq> 0 then memset m prefix_bytes 0 d else m)
      in mp\<lparr>bitmap := m\<rparr>)"

definition bitmap_is_prefix :: "MY_BITMAP \<Rightarrow> nat \<Rightarrow> bool" where
  "bitmap_is_prefix mp prefix_size =
     (let prefix_mask = last_byte_mask prefix_size;
          m = bitmap mp;
          end_prefix = (prefix_size - 1) div 8;
          lst = no_bytes_in_map mp - 1
      in if prefix_size = 0 then True
         else if \<not> list_all (\<lambda>i. get_byte m i = 0xFF) [0..<end_prefix] then False
         else if end_prefix = lst then
           get_byte m lst AND last_byte_mask (n_bits mp) = prefix_mask
         else if get_byte m end_prefix \<noteq> prefix_mask then False
         else if \<not> list_all (\<lambda>i. get_byte m i = 0) [Suc end_prefix..<lst] then False
         else get_byte m lst AND last_byte_mask (n_bits mp) = 0)"

definition bitmap_set_above :: "MY_BITMAP \<Rightarrow> nat \<Rightarrow> bool \<Rightarrow> MY_BITMAP" where
  "bitmap_set_above mp from_byte use_bit =
     (let use_byte = (if use_bit then 0xFF else 0)
      in mp\<lparr>bitmap := memset (bitmap mp) from_byte use_byte
               (no_bytes_in_map mp - from_byte)\<rparr>)"

section \<open>Word-wise predicates\<close>

definition bitmap_is_set_all :: "MY_BITMAP \<Rightarrow> bool" where
  "bitmap_is_set_all mp =
     (list_all (\<lambda>w. w = 0xFFFFFFFF) (take (last_word_ptr mp) (bitmap mp)) \<and>
      bitmap mp ! last_word_ptr mp OR last_word_mask_of mp = 0xFFFFFFFF)"

definition bitmap_is_clear_all :: "MY_BITMAP \<Rightarrow> bool" where
  "bitmap_is_clear_all mp =
     (list_all (\<lambda>w. w = 0) (take (last_word_ptr mp) (bitmap mp)) \<and>
      bitmap mp ! last_word_ptr mp AND NOT (last_word_mask_of mp) = 0)"

definition bitmap_is_subset :: "MY_BITMAP \<Rightarrow> MY_BITMAP \<Rightarrow> bool" where
  "bitmap_is_subset mp1 mp2 =
     (let m1 = bitmap mp1; m2 = bitmap mp2; e = last_word_ptr mp1
      in list_all (\<lambda>i. m1 ! i AND NOT (m2 ! i) = 0) [0..<e] \<and>
         (m1 ! e AND NOT (m2 ! e) AND NOT (last_word_mask_of mp1)) = 0)"

definition bitmap_is_overlapping :: "MY_BITMAP \<Rightarrow> MY_BITMAP \<Rightarrow> bool" where
  "bitmap_is_overlapping mp1 mp2 =
     (let m1 = bitmap mp1; m2 = bitmap mp2; e = last_word_ptr mp1
      in list_ex (\<lambda>i. m1 ! i AND m2 ! i \<noteq> 0) [0..<e] \<or>
         (m1 ! e AND m2 ! e AND NOT (last_word_mask_of mp1)) \<noteq> 0)"

definition bitmap_union_is_set_all :: "MY_BITMAP \<Rightarrow> MY_BITMAP \<Rightarrow> bool" where
  "bitmap_union_is_set_all mp1 mp2 =
     (let m1 = bitmap mp1; m2 = bitmap mp2; e = last_word_ptr mp1
      in if \<not> list_all (\<lambda>i. m1 ! i OR m2 ! i = 0xFFFFFFFF) [0..<e] then False
         else (m1 ! e OR m2 ! e OR last_word_mask_of mp1) \<noteq> 0xFFFFFFFF)"

text \<open>
  \<open>for (j= 0; cur_res && j < bitmap_count; j++) cur_res&= bitmap_array[j]->bitmap[i]\<close>: the
  early exit at 0 does not change the value, but it is kept.
\<close>

fun and_all :: "uint32 \<Rightarrow> MY_BITMAP list \<Rightarrow> nat \<Rightarrow> uint32" where
  "and_all cur_res [] i = cur_res"
| "and_all cur_res (m # ms) i =
     (if cur_res = 0 then cur_res else and_all (cur_res AND bitmap m ! i) ms i)"

definition bitmap_exists_intersection :: "MY_BITMAP list \<Rightarrow> nat \<Rightarrow> nat \<Rightarrow> bool" where
  "bitmap_exists_intersection bitmap_array start_bit end_bit =
     (let start_idx = start_bit div 8 div 4; end_idx = end_bit div 8 div 4
      in if list_ex (\<lambda>i. and_all (NOT 0) bitmap_array i \<noteq> 0) [start_idx..<end_idx] then True
         else and_all (NOT (last_word_mask end_bit)) bitmap_array end_idx \<noteq> 0)"

section \<open>Word-wise updates\<close>

text \<open>\<open>while (to <= end) *to++ = f(*to, *from++)\<close>\<close>

definition words_upto ::
  "(uint32 \<Rightarrow> uint32 \<Rightarrow> uint32) \<Rightarrow> nat \<Rightarrow> uint32 list \<Rightarrow> uint32 list \<Rightarrow> uint32 list" where
  "words_upto f e to from = map2 f (take (Suc e) to) (take (Suc e) from) @ drop (Suc e) to"

definition bitmap_subtract :: "MY_BITMAP \<Rightarrow> MY_BITMAP \<Rightarrow> MY_BITMAP" where
  "bitmap_subtract mp mp2 =
     mp\<lparr>bitmap := words_upto (\<lambda>a b. a AND NOT b) (last_word_ptr mp) (bitmap mp) (bitmap mp2)\<rparr>"

definition bitmap_union :: "MY_BITMAP \<Rightarrow> MY_BITMAP \<Rightarrow> MY_BITMAP" where
  "bitmap_union mp mp2 =
     mp\<lparr>bitmap := words_upto (\<lambda>a b. a OR b) (last_word_ptr mp) (bitmap mp) (bitmap mp2)\<rparr>"

definition bitmap_xor :: "MY_BITMAP \<Rightarrow> MY_BITMAP \<Rightarrow> MY_BITMAP" where
  "bitmap_xor mp mp2 =
     mp\<lparr>bitmap := words_upto (\<lambda>a b. a XOR b) (last_word_ptr mp) (bitmap mp) (bitmap mp2)\<rparr>"

definition bitmap_copy :: "MY_BITMAP \<Rightarrow> MY_BITMAP \<Rightarrow> MY_BITMAP" where
  "bitmap_copy mp mp2 =
     mp\<lparr>bitmap := words_upto (\<lambda>a b. b) (last_word_ptr mp) (bitmap mp) (bitmap mp2)\<rparr>"

definition bitmap_invert :: "MY_BITMAP \<Rightarrow> MY_BITMAP" where
  "bitmap_invert mp =
     mp\<lparr>bitmap := words_upto (\<lambda>a _. a XOR 0xFFFFFFFF) (last_word_ptr mp) (bitmap mp) (bitmap mp)\<rparr>"

definition bitmap_intersect :: "MY_BITMAP \<Rightarrow> MY_BITMAP \<Rightarrow> MY_BITMAP" where
  "bitmap_intersect mp mp2 =
     (let to = bitmap mp; len = no_words_in_map mp; len2 = no_words_in_map mp2;
          e = min len len2;
          to = map2 (\<lambda>a b. a AND b) (take e to) (take e (bitmap mp2)) @ drop e to
      in if len2 \<le> len then
           let to = to[e - 1 := to ! (e - 1) AND NOT (last_word_mask_of mp2)];
               to = take e to @ replicate (len - len2) 0 @ drop len to
           in mp\<lparr>bitmap := to\<rparr>
         else mp\<lparr>bitmap := to\<rparr>)"

section \<open>Counting and searching\<close>

definition bitmap_bits_set :: "MY_BITMAP \<Rightarrow> nat" where
  "bitmap_bits_set mp =
     u32 (sum_list (map my_count_bits_uint32 (take (last_word_ptr mp) (bitmap mp)))
       + my_count_bits_uint32
           (bitmap mp ! last_word_ptr mp AND NOT (last_word_mask_of mp)))"

definition bitmap_get_first_set :: "MY_BITMAP \<Rightarrow> nat option" where
  "bitmap_get_first_set mp =
     (let d = bitmap mp; e = last_word_ptr mp
      in case first_from (\<lambda>i. d ! i \<noteq> 0) 0 e of
           Some i \<Rightarrow> get_first_set (d ! i) i
         | None \<Rightarrow>
             if d ! e AND NOT (last_word_mask_of mp) = 0 then Some MY_BIT_NONE
             else get_first_set (d ! e) e)"

text \<open>The masking of the bits before \<open>bitmap_bit\<close> in the first word, byte by byte.\<close>

fun clear_bytes :: "uint32 \<Rightarrow> nat \<Rightarrow> uint32" where
  "clear_bytes w 0 = w"
| "clear_bytes w (Suc n) = word_set_byte (clear_bytes w n) n 0"

definition bitmap_get_next_set :: "MY_BITMAP \<Rightarrow> nat \<Rightarrow> nat option" where
  "bitmap_get_next_set mp bitmap_bit =
     (let bitmap_bit = u32 (bitmap_bit + 1); d = bitmap mp; e = last_word_ptr mp
      in if n_bits mp \<le> bitmap_bit then Some MY_BIT_NONE
         else
           let word_pos = bitmap_bit div 32;
               byte_to_mask = (bitmap_bit mod 32) div 8;
               first_word = clear_bytes (d ! word_pos) byte_to_mask;
               first_word = word_set_byte first_word byte_to_mask
                 (word_byte first_word byte_to_mask AND push_bit (bitmap_bit mod 8) 0xFF)
           in if word_pos = e then
                if first_word AND NOT (last_word_mask_of mp) \<noteq> 0
                then get_first_set first_word word_pos
                else Some MY_BIT_NONE
              else if first_word \<noteq> 0 then get_first_set first_word word_pos
              else (case first_from (\<lambda>i. d ! i \<noteq> 0) (word_pos + 1) e of
                      Some i \<Rightarrow> get_first_set (d ! i) i
                    | None \<Rightarrow>
                        if d ! e AND NOT (last_word_mask_of mp) = 0 then Some MY_BIT_NONE
                        else get_first_set (d ! e) e))"

text \<open>
  \<open>bitmap_get_first\<close> looks for a clear bit; it first sets the unused bits of the last word
  in the buffer (through the \<open>const\<close> pointer), so it returns the changed bitmap too.
\<close>

definition first_clear_in :: "uint32 \<Rightarrow> nat \<Rightarrow> nat option" where
  "first_clear_in w i =
     (case first_from (\<lambda>j. word_byte w j \<noteq> 0xFF) 0 4 of
        None \<Rightarrow> None
      | Some j \<Rightarrow>
          (case first_from (\<lambda>k. word_byte w j AND push_bit k 1 = 0) 0 8 of
             None \<Rightarrow> None
           | Some k \<Rightarrow> Some (i * 32 + j * 8 + k)))"

definition bitmap_get_first :: "MY_BITMAP \<Rightarrow> MY_BITMAP \<times> nat option" where
  "bitmap_get_first mp =
     (let e = last_word_ptr mp;
          mp = mp\<lparr>bitmap := (bitmap mp)[e := bitmap mp ! e OR last_word_mask_of mp]\<rparr>;
          d = bitmap mp
      in (mp,
          case first_from (\<lambda>i. d ! i \<noteq> 0xFFFFFFFF) 0 e of
            Some i \<Rightarrow> first_clear_in (d ! i) i
          | None \<Rightarrow>
              if d ! e OR last_word_mask_of mp = 0xFFFFFFFF then Some MY_BIT_NONE
              else first_clear_in (d ! e) e))"

definition bitmap_set_next :: "MY_BITMAP \<Rightarrow> MY_BITMAP \<times> nat option" where
  "bitmap_set_next mp =
     (case bitmap_get_first mp of
        (mp, None) \<Rightarrow> (mp, None)
      | (mp, Some bit_found) \<Rightarrow>
          (if bit_found \<noteq> MY_BIT_NONE then bitmap_set_bit mp bit_found else mp,
           Some bit_found))"

definition bitmap_lock_set_next :: "MY_BITMAP \<Rightarrow> MY_BITMAP \<times> nat option" where
  "bitmap_lock_set_next mp =
     (let (mp, bit_found) = bitmap_set_next (bitmap_lock mp) in (bitmap_unlock mp, bit_found))"

definition bitmap_lock_clear_bit :: "MY_BITMAP \<Rightarrow> nat \<Rightarrow> MY_BITMAP" where
  "bitmap_lock_clear_bit mp bitmap_bit =
     bitmap_unlock (bitmap_clear_bit (bitmap_lock mp) bitmap_bit)"

lemma div32: "n div 32 = n div 8 div (4::nat)"
  using div_mult2_eq [of n 8 4] by simp

lemma mod32: "n mod 32 = 8 * (n div 8 mod 4) + n mod (8::nat)"
  using mod_mult2_eq [of n 8 4] by simp

lemma byte_lex: "c < 8 \<Longrightarrow> d < 8 \<Longrightarrow> 8 * p + c < 8 * a + d \<longleftrightarrow> p < a \<or> p = a \<and> c < (d::nat)"
  by arith

lemma word_lex: "m < (n::nat) \<longleftrightarrow> m div 32 < n div 32 \<or> m div 32 = n div 32 \<and> m mod 32 < n mod 32"
proof -
  have "32 * p + c < 32 * a + d \<longleftrightarrow> p < a \<or> p = a \<and> c < d" if "c < 32" "d < 32" for p c a d :: nat
    using that by arith
  from this [of "m mod 32" "n mod 32" "m div 32" "n div 32"] show ?thesis by simp
qed

section \<open>Abstraction and invariant\<close>

definition mem_bit :: "uint32 list \<Rightarrow> nat \<Rightarrow> bool" where
  "mem_bit ws i = bit (ws ! (i div 32)) (i mod 32)"

text \<open>The abstract value of a bitmap: the set of the bits that are on.\<close>

definition bm_elems :: "MY_BITMAP \<Rightarrow> nat set" where
  "bm_elems mp = set (filter (mem_bit (bitmap mp)) [0..<n_bits mp])"

definition bm_invar :: "MY_BITMAP \<Rightarrow> bool" where
  "bm_invar mp \<longleftrightarrow> 0 < n_bits mp \<and> n_bits mp \<le> 2 ^ 32 - 32
     \<and> length (bitmap mp) = (n_bits mp + 31) div 32
     \<and> last_word_ptr mp = length (bitmap mp) - 1
     \<and> (\<forall>j < 32. bit (last_word_mask_of mp) j \<longleftrightarrow> (n_bits mp - 1) mod 32 < j)"

lemma bm_elems_iff: "i \<in> bm_elems mp \<longleftrightarrow> i < n_bits mp \<and> mem_bit (bitmap mp) i"
  by (auto simp: bm_elems_def)

lemma bm_invar_words:
  assumes "bm_invar mp"
  shows "no_words_in_map mp = length (bitmap mp)" "no_bytes_in_map mp = (n_bits mp + 7) div 8"
    "last_word_ptr mp < length (bitmap mp)" "last_word_ptr mp = (n_bits mp - 1) div 32"
    "no_bytes_in_map mp \<le> 4 * length (bitmap mp)" "length (bitmap mp) = Suc (last_word_ptr mp)"
  using assms by (auto simp: bm_invar_def no_words_in_map_def no_bytes_in_map_def)

lemma in_word_less:
  "bm_invar mp \<Longrightarrow> i < n_bits mp \<Longrightarrow> i div 32 < length (bitmap mp)"
  by (simp add: bm_invar_def)

text \<open>Which words and bits of the buffer hold the index \<open>i\<close>.\<close>

lemma index_split:
  assumes "bm_invar mp"
  shows "i < n_bits mp \<longleftrightarrow> i div 32 < last_word_ptr mp \<or>
    i div 32 = last_word_ptr mp \<and> \<not> bit (last_word_mask_of mp) (i mod 32)"
proof -
  have "i < n_bits mp \<longleftrightarrow> \<not> n_bits mp - 1 < i"
    using assms by (auto simp: bm_invar_def)
  then have "i < n_bits mp \<longleftrightarrow> i div 32 < (n_bits mp - 1) div 32 \<or>
     i div 32 = (n_bits mp - 1) div 32 \<and> i mod 32 \<le> (n_bits mp - 1) mod 32"
    unfolding word_lex [of "n_bits mp - 1" i] by auto
  then show ?thesis
    using assms bm_invar_words(4) [OF assms] by (auto simp: bm_invar_def not_less)
qed

subsection \<open>Bytes and words of the buffer\<close>

lemma bit_get_byte [byte_simps]:
  "bit (get_byte ws i) j \<longleftrightarrow> j < 8 \<and> mem_bit ws (8 * i + j)"
proof -
  have "(8 * i + j) div 32 = i div 4 \<and> (8 * i + j) mod 32 = 8 * (i mod 4) + j" if "j < 8"
    using that by (simp add: div32 mod32)
  then show ?thesis by (auto simp: get_byte_def mem_bit_def bit_word_byte)
qed

lemma mem_bit_set_byte [byte_simps]:
  assumes "i < 4 * length ws"
  shows "mem_bit (set_byte ws i b) n \<longleftrightarrow> (if n div 8 = i then bit b (n mod 8) else mem_bit ws n)"
proof -
  have l: "i div 4 < length ws" using assms by simp
  have "n div 8 = i \<longleftrightarrow> n div 8 div 4 = i div 4 \<and> n div 8 mod 4 = i mod 4"
    using div_mult_mod_eq [of "n div 8" 4] div_mult_mod_eq [of i 4] by metis
  then have "n div 8 = i \<longleftrightarrow> n div 32 = i div 4 \<and> n mod 32 div 8 = i mod 4"
    by (simp add: div32 mod32)
  moreover have "n mod 32 mod 8 = n mod 8" by (simp add: mod32)
  ultimately show ?thesis using l
    by (auto simp: mem_bit_def set_byte_def bit_word_set_byte nth_list_update)
qed

lemma length_set_byte [simp]: "length (set_byte ws i b) = length ws"
  by (simp add: set_byte_def)

lemma length_memset [simp]: "length (memset ws fr b n) = length ws"
  by (induction ws fr b n rule: memset.induct) auto

lemma mem_bit_memset [byte_simps]:
  "fr + n \<le> 4 * length ws \<Longrightarrow> mem_bit (memset ws fr b n) k \<longleftrightarrow>
    (if fr \<le> k div 8 \<and> k div 8 < fr + n then bit b (k mod 8) else mem_bit ws k)"
  by (induction ws fr b n rule: memset.induct) (auto simp: mem_bit_set_byte)

lemma mem_bit_byte: "mem_bit ws (8 * (k div 8) + k mod 8) = mem_bit ws k"
  by simp

lemma nth_words_upto:
  assumes "e < length xs" "e < length ys" "i \<le> e"
  shows "words_upto f e xs ys ! i = f (xs ! i) (ys ! i)"
  using assms by (simp add: words_upto_def nth_append)

lemma length_words_upto:
  assumes "e < length xs" "e < length ys"
  shows "length (words_upto f e xs ys) = length xs"
  using assms by (simp add: words_upto_def)

lemma mem_bit_words_upto [byte_simps]:
  assumes "e < length xs" "e < length ys" "i div 32 \<le> e"
    and "\<And>a b j. bit (f a b) j \<longleftrightarrow> P (bit a j) (bit b j) j"
  shows "mem_bit (words_upto f e xs ys) i \<longleftrightarrow> P (mem_bit xs i) (mem_bit ys i) (i mod 32)"
  using assms by (simp add: mem_bit_def nth_words_upto)

subsection \<open>Masks\<close>

lemma bit_last_byte_mask [byte_simps]:
  assumes "0 < bits" "bits < 2 ^ 32"
  shows "bit (last_byte_mask bits) j \<longleftrightarrow> j \<le> (bits - 1) mod 8"
proof -
  have "u32 (bits + (2 ^ 32 - 1)) = bits - 1"
    using assms mod_add_self2 [of "bits - 1" "2 ^ 32"] by (simp add: u32_def add.commute)
  then have "last_byte_mask bits = push_bit (Suc ((bits - 1) mod 8)) 1 - 1"
    by (simp add: last_byte_mask_def push_bit_eq_mult mult.commute)
  moreover have "bit (push_bit (Suc ((bits - 1) mod 8)) 1 - 1 :: uchar) j \<longleftrightarrow> j < Suc ((bits - 1) mod 8)"
    by (rule byte_pow2m1) (simp add: Suc_le_eq)
  ultimately show ?thesis by (simp only: less_Suc_eq_le)
qed

lemma bit_invers_last_byte_mask [byte_simps]:
  assumes "0 < bits" "bits < 2 ^ 32"
  shows "bit (invers_last_byte_mask bits) j \<longleftrightarrow> j < 8 \<and> (bits - 1) mod 8 < j"
  using bit_last_byte_mask [OF assms, of j] bit_imp_le_length [of "last_byte_mask bits" j]
  by (auto simp: invers_last_byte_mask_def bit_xor_iff bit_ones8)

text \<open>The four cases of the mask construction, common to the two places that use it.\<close>

lemma mask_cases:
  assumes n: "0 < n" "n < 2 ^ 32" and j: "j < 32" and m: "m = invers_last_byte_mask n"
    and k: "k = ((n + 7) div 8) mod 4"
  shows "bit (if k = 1 then word_set_byte (NOT 0) 0 m
         else if k = 2 then word_set_byte (word_set_byte (NOT 0) 0 0) 1 m
         else if k = 3 then word_set_byte (word_set_byte 0 2 m) 3 0xFF
         else word_set_byte 0 3 m) j \<longleftrightarrow> (n - 1) mod 32 < j"
proof -
  define q where "q = (n - 1) div 8"
  define c where "c = (n - 1) mod 8"
  have c8: "c < 8" by (simp add: c_def)
  have "(n + 7) div 8 = Suc q" using n(1) by (simp add: q_def)
  then have kq: "k = Suc q mod 4" using k by simp
  define p where "p = q mod 4"
  have nn: "(n - 1) mod 32 < j \<longleftrightarrow> p < j div 8 \<or> p = j div 8 \<and> c < j mod 8"
    using byte_lex [of c "j mod 8" p "j div 8"] c8
    unfolding mod32 [of "n - 1"] by (simp add: q_def c_def p_def)
  have m': "bit m i \<longleftrightarrow> i < 8 \<and> c < i" for i
    using bit_invers_last_byte_mask [OF n] m by (simp add: c_def)
  have j4: "j div 8 < 4" using j by simp
  have "p = 0 \<or> p = 1 \<or> p = 2 \<or> p = 3" unfolding p_def by arith
  then consider "k = 1" "p = 0" | "k = 2" "p = 1" | "k = 3" "p = 2" | "k = 0" "p = 3"
    using kq by (auto simp: mod_Suc p_def)
  then show ?thesis unfolding nn
    by cases (use j j4 in \<open>auto simp: bit_word_set_byte m' bit_not_iff bit_ones8\<close>)
qed

lemma bit_last_word_mask [byte_simps]:
  assumes "b + 1 \<le> 2 ^ 32 - 8" "j < 32"
  shows "bit (last_word_mask b) j \<longleftrightarrow> b mod 32 < j"
proof -
  have "(b + 1) - 1 = b" by simp
  moreover have "u32 (b + 1) = b + 1" "u32 (b + 1 + 7) = b + 1 + 7" using assms(1) by auto
  ultimately show ?thesis
    using mask_cases [of "b + 1" j "invers_last_byte_mask (b + 1)" "(b + 1 + 7) div 8 mod 4"] assms
    unfolding last_word_mask_def Let_def by auto
qed

section \<open>Operations refine sets\<close>

lemma bm_invar_upd [simp]:
  "length ws = length (bitmap mp) \<Longrightarrow> bm_invar (mp\<lparr>bitmap := ws\<rparr>) = bm_invar mp"
  "bm_invar (mp\<lparr>mutex := x\<rparr>) = bm_invar mp"
  by (simp_all add: bm_invar_def)

lemma bm_elems_upd [simp]: "bm_elems (mp\<lparr>mutex := x\<rparr>) = bm_elems mp"
  by (simp add: bm_elems_def)

lemma byte_of_index:
  "bm_invar mp \<Longrightarrow> i < n_bits mp \<Longrightarrow> i div 8 < 4 * length (bitmap mp)"
  using in_word_less [of mp i] by (simp add: div32 div_less_iff_less_mult)

subsection \<open>Creation\<close>

lemma create_last_word_mask_invar:
  assumes "0 < n_bits mp" "n_bits mp \<le> 2 ^ 32 - 32" "length (bitmap mp) = (n_bits mp + 31) div 32"
  shows "bm_invar (create_last_word_mask mp)"
    "bitmap (create_last_word_mask mp) = bitmap mp"
    "n_bits (create_last_word_mask mp) = n_bits mp"
    "mutex (create_last_word_mask mp) = mutex mp"
proof -
  define k where "k = (n_bits mp + 7) div 8 mod 4"
  have u: "u32 (n_bits mp + 7) = n_bits mp + 7" "u32 (n_bits mp + 31) = n_bits mp + 31"
    using assms by auto
  have e: "create_last_word_mask mp = mp\<lparr>last_word_ptr := (n_bits mp + 31) div 32 - 1,
     last_word_mask_of := (if k = 1 then word_set_byte (NOT 0) 0 (invers_last_byte_mask (n_bits mp))
         else if k = 2 then
           word_set_byte (word_set_byte (NOT 0) 0 0) 1 (invers_last_byte_mask (n_bits mp))
         else if k = 3 then
           word_set_byte (word_set_byte 0 2 (invers_last_byte_mask (n_bits mp))) 3 0xFF
         else word_set_byte 0 3 (invers_last_byte_mask (n_bits mp)))\<rparr>"
    by (simp add: create_last_word_mask_def Let_def no_bytes_in_map_def no_words_in_map_def u k_def)
  show "bm_invar (create_last_word_mask mp)"
    unfolding bm_invar_def e
    using assms mask_cases [OF assms(1) _ _ refl k_def] by simp
  show "bitmap (create_last_word_mask mp) = bitmap mp"
    "n_bits (create_last_word_mask mp) = n_bits mp"
    "mutex (create_last_word_mask mp) = mutex mp"
    unfolding e by simp_all
qed

lemma bitmap_clear_all_correct:
  assumes "bm_invar mp"
  shows "bm_invar (bitmap_clear_all mp)" "bm_elems (bitmap_clear_all mp) = {}"
    "n_bits (bitmap_clear_all mp) = n_bits mp" "mutex (bitmap_clear_all mp) = mutex mp"
proof -
  note w = bm_invar_words(1) [OF assms]
  show "bm_invar (bitmap_clear_all mp)"
    "n_bits (bitmap_clear_all mp) = n_bits mp" "mutex (bitmap_clear_all mp) = mutex mp"
    using assms by (simp_all add: bitmap_clear_all_def)
  show "bm_elems (bitmap_clear_all mp) = {}"
    using byte_of_index [OF assms]
    by (auto simp: bm_elems_iff bitmap_clear_all_def w mem_bit_memset)
qed

lemma my_bitmap_init_correct_facts:
  assumes "0 < n" "n \<le> 2 ^ 32 - 32" "length block = (n + 31) div 32"
  shows "my_bitmap_init mp [] None n ts = (mp\<lparr>mutex := None\<rparr>, True)"
    and "\<exists>mp'. my_bitmap_init mp [] (Some block) n ts = (mp', False) \<and> bm_invar mp' \<and> n_bits mp' = n
       \<and> bm_elems mp' = {} \<and> mutex mp' = (if ts then Some False else None)"
    and "\<exists>mp'. my_bitmap_init mp block malloc n False = (mp', False) \<and> bm_invar mp' \<and> n_bits mp' = n
       \<and> bm_elems mp' = {} \<and> mutex mp' = None"
proof -
  have ne: "block \<noteq> []" using assms by auto
  define m1 where "m1 = (if ts then mp\<lparr>mutex := Some False\<rparr> else mp\<lparr>mutex := None\<rparr>)\<lparr>bitmap := block, n_bits := n\<rparr>"
  define m2 where "m2 = mp\<lparr>mutex := None, bitmap := block, n_bits := n\<rparr>"
  note l1 = create_last_word_mask_invar [of m1] and l2 = create_last_word_mask_invar [of m2]
  have f1: "n_bits m1 = n" "bitmap m1 = block" "mutex m1 = (if ts then Some False else None)"
    and f2: "n_bits m2 = n" "bitmap m2 = block" "mutex m2 = None"
    by (simp_all add: m1_def m2_def)
  show "my_bitmap_init mp [] None n ts = (mp\<lparr>mutex := None\<rparr>, True)"
    by (simp add: my_bitmap_init_def)
  have "my_bitmap_init mp [] (Some block) n ts = (bitmap_clear_all (create_last_word_mask m1), False)"
    by (simp add: my_bitmap_init_def m1_def)
  then show "\<exists>mp'. my_bitmap_init mp [] (Some block) n ts = (mp', False) \<and> bm_invar mp' \<and> n_bits mp' = n
       \<and> bm_elems mp' = {} \<and> mutex mp' = (if ts then Some False else None)"
    using l1 f1 assms bitmap_clear_all_correct [of "create_last_word_mask m1"] by simp
  have "my_bitmap_init mp block malloc n False = (bitmap_clear_all (create_last_word_mask m2), False)"
    using ne by (simp add: my_bitmap_init_def m2_def)
  then show "\<exists>mp'. my_bitmap_init mp block malloc n False = (mp', False) \<and> bm_invar mp' \<and> n_bits mp' = n
       \<and> bm_elems mp' = {} \<and> mutex mp' = None"
    using l2 f2 assms bitmap_clear_all_correct [of "create_last_word_mask m2"] by simp
qed

text \<open>
  Initialisation gives a well-formed empty bitmap of the requested size, in the caller's
  buffer or in a fresh block, with a released mutex exactly for a thread-safe bitmap of its
  own block; a failed allocation is reported and leaves the map without a mutex.
\<close>

theorem my_bitmap_init_correct:
  assumes "0 < n" "n \<le> 2 ^ 32 - 32" "length block = (n + 31) div 32"
  shows "(my_bitmap_init mp [] None n ts = (mp\<lparr>mutex := None\<rparr>, True))
    \<and> (\<exists>mp'. my_bitmap_init mp [] (Some block) n ts = (mp', False) \<and> bm_invar mp' \<and> n_bits mp' = n
       \<and> bm_elems mp' = {} \<and> mutex mp' = (if ts then Some False else None))
    \<and> (\<exists>mp'. my_bitmap_init mp block malloc n False = (mp', False) \<and> bm_invar mp' \<and> n_bits mp' = n
       \<and> bm_elems mp' = {} \<and> mutex mp' = None)"
  using my_bitmap_init_correct_facts [OF assms] by blast

subsection \<open>Single bits\<close>

lemma bit_one_test:
  "(w AND push_bit k 1 \<noteq> (0 :: uchar)) \<longleftrightarrow> bit w k" if "k < 8"
  using that by (auto simp: byte_zero_iff bit_and_iff bit_shl1_8)

lemma upd_byte_elems:
  assumes "bm_invar mp" "i < n_bits mp"
    and "\<And>j. j < 8 \<Longrightarrow> bit b j \<longleftrightarrow> (if j = i mod 8 then v else bit (get_byte (bitmap mp) (i div 8)) j)"
  shows "bm_elems (mp\<lparr>bitmap := set_byte (bitmap mp) (i div 8) b\<rparr>) =
    (if v then insert i (bm_elems mp) else bm_elems mp - {i})"
proof -
  have eq: "mem_bit (set_byte (bitmap mp) (i div 8) b) k \<longleftrightarrow> (if k = i then v else mem_bit (bitmap mp) k)" for k
  proof -
    have "k = i \<longleftrightarrow> k div 8 = i div 8 \<and> k mod 8 = i mod 8"
      using div_mult_mod_eq [of k 8] div_mult_mod_eq [of i 8] by metis
    then show ?thesis
      using byte_of_index [OF assms(1,2)] mem_bit_byte [of "bitmap mp" k]
      by (cases "k div 8 = i div 8") (simp_all add: mem_bit_set_byte assms(3) bit_get_byte)
  qed
  show ?thesis using assms(2) by (auto simp: bm_elems_iff eq split: if_splits)
qed

lemma bm_set_bit [abs_simps]:
  assumes "bm_invar mp" "i < n_bits mp"
  shows "bm_elems (bitmap_set_bit mp i) = insert i (bm_elems mp)"
  unfolding bitmap_set_bit_def
  by (subst upd_byte_elems [OF assms, where v = True]) (auto simp: bit_or_iff bit_shl1_8)

lemma bm_clear_bit [abs_simps]:
  assumes "bm_invar mp" "i < n_bits mp"
  shows "bm_elems (bitmap_clear_bit mp i) = bm_elems mp - {i}"
  unfolding bitmap_clear_bit_def
  by (subst upd_byte_elems [OF assms, where v = False])
    (auto simp: bit_and_iff bit_not_iff bit_shl1_8)

lemma bm_is_set [abs_simps]:
  assumes "bm_invar mp" "i < n_bits mp"
  shows "bitmap_is_set mp i \<longleftrightarrow> i \<in> bm_elems mp"
  using assms by (simp add: bitmap_is_set_def bit_one_test bit_get_byte bm_elems_iff)

lemma bm_flip_bit [abs_simps]:
  assumes "bm_invar mp" "i < n_bits mp"
  shows "bm_elems (bitmap_flip_bit mp i) =
    (if i \<in> bm_elems mp then bm_elems mp - {i} else insert i (bm_elems mp))"
  unfolding bitmap_flip_bit_def
  by (subst upd_byte_elems [OF assms, where v = "i \<notin> bm_elems mp"])
    (use assms(2) in \<open>auto simp: bit_xor_iff bit_shl1_8 bit_get_byte bm_elems_iff\<close>)

lemma bm_bit_ops_invar [inv_intros]:
  assumes "bm_invar mp"
  shows "bm_invar (bitmap_set_bit mp i)" "bm_invar (bitmap_clear_bit mp i)"
    "bm_invar (bitmap_flip_bit mp i)"
    "n_bits (bitmap_set_bit mp i) = n_bits mp" "n_bits (bitmap_clear_bit mp i) = n_bits mp"
    "n_bits (bitmap_flip_bit mp i) = n_bits mp"
  using assms by (simp_all add: bitmap_set_bit_def bitmap_clear_bit_def bitmap_flip_bit_def)

interpretation bitmap_set: index_set bm_invar n_bits bm_elems bitmap_set_bit bitmap_clear_bit bitmap_is_set
  by unfold_locales (auto simp: abs_simps intro: inv_intros simp: bm_bit_ops_invar bm_elems_iff)

lemma lock_facts [simp]:
  "bitmap (bitmap_lock mp) = bitmap mp" "n_bits (bitmap_lock mp) = n_bits mp"
  "bm_elems (bitmap_lock mp) = bm_elems mp" "bm_invar (bitmap_lock mp) = bm_invar mp"
  "bitmap (bitmap_unlock mp) = bitmap mp" "n_bits (bitmap_unlock mp) = n_bits mp"
  "bm_elems (bitmap_unlock mp) = bm_elems mp" "bm_invar (bitmap_unlock mp) = bm_invar mp"
  "mutex (bitmap_unlock (bitmap_lock mp)) = map_option (\<lambda>_. False) (mutex mp)"
  by (auto simp: bitmap_lock_def bitmap_unlock_def split: option.splits)

lemma fast_test_and_set_eq:
  "bitmap_fast_test_and_set mp i = (bitmap_set_bit mp i, bitmap_is_set mp i)"
  by (simp add: bitmap_fast_test_and_set_def bitmap_set_bit_def bitmap_is_set_def Let_def)

lemma fast_test_and_clear_eq:
  "bitmap_fast_test_and_clear mp i = (bitmap_clear_bit mp i, bitmap_is_set mp i)"
  by (simp add: bitmap_fast_test_and_clear_def bitmap_clear_bit_def bitmap_is_set_def Let_def)

lemma bitmap_test_and_change_facts:
  assumes "bm_invar mp" "i < n_bits mp"
  shows "\<exists>mp'. bitmap_test_and_set mp i = (mp', i \<in> bm_elems mp) \<and> bm_invar mp'
      \<and> bm_elems mp' = insert i (bm_elems mp) \<and> mutex mp' = map_option (\<lambda>_. False) (mutex mp)"
    and "\<exists>mp'. bitmap_test_and_clear mp i = (mp', i \<in> bm_elems mp) \<and> bm_invar mp'
      \<and> bm_elems mp' = bm_elems mp - {i} \<and> mutex mp' = map_option (\<lambda>_. False) (mutex mp)"
proof -
  have "mutex (bitmap_unlock (bitmap_set_bit (bitmap_lock mp) i)) = map_option (\<lambda>_. False) (mutex mp)"
    "mutex (bitmap_unlock (bitmap_clear_bit (bitmap_lock mp) i)) = map_option (\<lambda>_. False) (mutex mp)"
    by (auto simp: bitmap_lock_def bitmap_unlock_def bitmap_set_bit_def bitmap_clear_bit_def split: option.splits)
  then show "\<exists>mp'. bitmap_test_and_set mp i = (mp', i \<in> bm_elems mp) \<and> bm_invar mp'
      \<and> bm_elems mp' = insert i (bm_elems mp) \<and> mutex mp' = map_option (\<lambda>_. False) (mutex mp)"
    "\<exists>mp'. bitmap_test_and_clear mp i = (mp', i \<in> bm_elems mp) \<and> bm_invar mp'
      \<and> bm_elems mp' = bm_elems mp - {i} \<and> mutex mp' = map_option (\<lambda>_. False) (mutex mp)"
    using assms
    by (simp_all add: bitmap_test_and_set_def bitmap_test_and_clear_def Let_def
        fast_test_and_set_eq fast_test_and_clear_eq bm_bit_ops_invar bm_set_bit bm_clear_bit bm_is_set)
qed

text \<open>
  Test-and-set and test-and-clear return the old value of the bit, change that bit only,
  keep the bitmap well-formed and release the mutex, if there is one.
\<close>

theorem bitmap_test_and_change:
  assumes "bm_invar mp" "i < n_bits mp"
  shows "(\<exists>mp'. bitmap_test_and_set mp i = (mp', i \<in> bm_elems mp) \<and> bm_invar mp'
      \<and> bm_elems mp' = insert i (bm_elems mp) \<and> mutex mp' = map_option (\<lambda>_. False) (mutex mp))
    \<and> (\<exists>mp'. bitmap_test_and_clear mp i = (mp', i \<in> bm_elems mp) \<and> bm_invar mp'
      \<and> bm_elems mp' = bm_elems mp - {i} \<and> mutex mp' = map_option (\<lambda>_. False) (mutex mp))"
  using bitmap_test_and_change_facts [OF assms] by blast

subsection \<open>Binary operations\<close>

lemma words_upto_elems:
  assumes "bm_invar mp" "bm_invar mp2" "n_bits mp = n_bits mp2"
    and f: "\<And>a b j. j < 32 \<Longrightarrow> bit (f a b) j \<longleftrightarrow> P (bit a j) (bit b j)"
  shows "bm_invar (mp\<lparr>bitmap := words_upto f (last_word_ptr mp) (bitmap mp) (bitmap mp2)\<rparr>)"
    and "bm_elems (mp\<lparr>bitmap := words_upto f (last_word_ptr mp) (bitmap mp) (bitmap mp2)\<rparr>) =
      {i. i < n_bits mp \<and> P (i \<in> bm_elems mp) (i \<in> bm_elems mp2)}"
proof -
  have l: "last_word_ptr mp < length (bitmap mp)" "last_word_ptr mp < length (bitmap mp2)"
    using bm_invar_words(3) [OF assms(1)] bm_invar_words(3,4) [OF assms(2)]
      bm_invar_words(4) [OF assms(1)] assms(3) by simp_all
  show "bm_invar (mp\<lparr>bitmap := words_upto f (last_word_ptr mp) (bitmap mp) (bitmap mp2)\<rparr>)"
    using assms(1) l by (simp add: length_words_upto)
  have "mem_bit (words_upto f (last_word_ptr mp) (bitmap mp) (bitmap mp2)) i
      \<longleftrightarrow> P (mem_bit (bitmap mp) i) (mem_bit (bitmap mp2) i)" if "i < n_bits mp" for i
  proof -
    have "i div 32 \<le> last_word_ptr mp" using index_split [OF assms(1), of i] that by auto
    then show ?thesis using l by (simp add: mem_bit_def nth_words_upto f)
  qed
  then show "bm_elems (mp\<lparr>bitmap := words_upto f (last_word_ptr mp) (bitmap mp) (bitmap mp2)\<rparr>) =
      {i. i < n_bits mp \<and> P (i \<in> bm_elems mp) (i \<in> bm_elems mp2)}"
    using assms(3) by (auto simp: bm_elems_iff)
qed

lemma bit_and_not32: "j < 32 \<Longrightarrow> bit (a AND NOT b :: uint32) j \<longleftrightarrow> bit a j \<and> \<not> bit b j"
  by (simp add: bit_and_iff bit_not_iff)

lemma bit_invert32: "j < 32 \<Longrightarrow> bit (a XOR 0xFFFFFFFF :: uint32) j \<longleftrightarrow> \<not> bit a j"
  by (simp add: bit_xor_iff bit_ones32)

lemma bm_union:
  assumes "bm_invar mp" "bm_invar mp2" "n_bits mp = n_bits mp2"
  shows "bm_invar (bitmap_union mp mp2)"
    "bm_elems (bitmap_union mp mp2) = {i. i < n_bits mp \<and> ((\<or>) (i \<in> bm_elems mp) (i \<in> bm_elems mp2))}"
  unfolding bitmap_union_def
  by (rule words_upto_elems [OF assms], simp add: bit_or_iff)+

lemma bm_subtract:
  assumes "bm_invar mp" "bm_invar mp2" "n_bits mp = n_bits mp2"
  shows "bm_invar (bitmap_subtract mp mp2)"
    "bm_elems (bitmap_subtract mp mp2) = {i. i < n_bits mp \<and> ((\<lambda>a b. a \<and> \<not> b) (i \<in> bm_elems mp) (i \<in> bm_elems mp2))}"
  unfolding bitmap_subtract_def
  by (rule words_upto_elems [OF assms], simp add: bit_and_not32)+

lemma bm_xor:
  assumes "bm_invar mp" "bm_invar mp2" "n_bits mp = n_bits mp2"
  shows "bm_invar (bitmap_xor mp mp2)"
    "bm_elems (bitmap_xor mp mp2) = {i. i < n_bits mp \<and> ((\<noteq>) (i \<in> bm_elems mp) (i \<in> bm_elems mp2))}"
  unfolding bitmap_xor_def
  by (rule words_upto_elems [OF assms], simp add: bit_xor_iff)+

lemma bm_copy:
  assumes "bm_invar mp" "bm_invar mp2" "n_bits mp = n_bits mp2"
  shows "bm_invar (bitmap_copy mp mp2)"
    "bm_elems (bitmap_copy mp mp2) = {i. i < n_bits mp \<and> ((\<lambda>a b. b) (i \<in> bm_elems mp) (i \<in> bm_elems mp2))}"
  unfolding bitmap_copy_def
  by (rule words_upto_elems [OF assms], simp add: bit_or_iff)+

lemma bm_invert:
  assumes "bm_invar mp"
  shows "bm_invar (bitmap_invert mp)" "bm_elems (bitmap_invert mp) = {i. i < n_bits mp \<and> i \<notin> bm_elems mp}"
  unfolding bitmap_invert_def
  by (rule words_upto_elems [OF assms assms refl, where P = "\<lambda>a b. \<not> a"], simp add: bit_invert32)+

lemma bitmap_binary_ops_facts:
  assumes "bm_invar mp" "bm_invar mp2" "n_bits mp = n_bits mp2"
  shows "bm_elems (bitmap_union mp mp2) = bm_elems mp \<union> bm_elems mp2"
    and "bm_elems (bitmap_subtract mp mp2) = bm_elems mp - bm_elems mp2"
    and "bm_elems (bitmap_xor mp mp2) = (bm_elems mp - bm_elems mp2) \<union> (bm_elems mp2 - bm_elems mp)"
    and "bm_elems (bitmap_copy mp mp2) = bm_elems mp2"
    and "bm_elems (bitmap_invert mp) = {..<n_bits mp} - bm_elems mp"
    and "bm_invar (bitmap_union mp mp2) \<and> bm_invar (bitmap_subtract mp mp2) \<and>
      bm_invar (bitmap_xor mp mp2) \<and> bm_invar (bitmap_copy mp mp2) \<and> bm_invar (bitmap_invert mp)"
  subgoal unfolding bm_union(2) [OF assms] using assms(3) by (auto simp: bm_elems_iff)
  subgoal unfolding bm_subtract(2) [OF assms] using assms(3) by (auto simp: bm_elems_iff)
  subgoal unfolding bm_xor(2) [OF assms] using assms(3) by (auto simp: bm_elems_iff)
  subgoal unfolding bm_copy(2) [OF assms] using assms(3) by (auto simp: bm_elems_iff)
  subgoal unfolding bm_invert(2) [OF assms(1)] by auto
  subgoal using bm_union(1) [OF assms] bm_subtract(1) [OF assms] bm_xor(1) [OF assms]
      bm_copy(1) [OF assms] bm_invert(1) [OF assms(1)] by simp
  done

text \<open>C33: the word-wise binary operations are the set operations of their names.\<close>

theorem bitmap_binary_ops:
  assumes "bm_invar mp" "bm_invar mp2" "n_bits mp = n_bits mp2"
  shows "(bm_elems (bitmap_union mp mp2) = bm_elems mp \<union> bm_elems mp2)
    \<and> (bm_elems (bitmap_subtract mp mp2) = bm_elems mp - bm_elems mp2)
    \<and> (bm_elems (bitmap_xor mp mp2) = (bm_elems mp - bm_elems mp2) \<union> (bm_elems mp2 - bm_elems mp))
    \<and> (bm_elems (bitmap_copy mp mp2) = bm_elems mp2)
    \<and> (bm_elems (bitmap_invert mp) = {..<n_bits mp} - bm_elems mp)
    \<and> (bm_invar (bitmap_union mp mp2) \<and> bm_invar (bitmap_subtract mp mp2) \<and>
      bm_invar (bitmap_xor mp mp2) \<and> bm_invar (bitmap_copy mp mp2) \<and> bm_invar (bitmap_invert mp))"
  using bitmap_binary_ops_facts [OF assms] by blast

subsection \<open>Quantifying over the words of a bitmap\<close>

lemma mem_bit_word [simp]: "j < 32 \<Longrightarrow> mem_bit ws (32 * w + j) = bit (ws ! w) j"
  by (simp add: mem_bit_def)

lemma all_index:
  assumes "bm_invar mp"
  shows "(\<forall>i < n_bits mp. Q i) \<longleftrightarrow>
    (\<forall>w < last_word_ptr mp. \<forall>j < 32. Q (32 * w + j)) \<and>
    (\<forall>j < 32. \<not> bit (last_word_mask_of mp) j \<longrightarrow> Q (32 * last_word_ptr mp + j))"
    (is "?l \<longleftrightarrow> ?r")
proof
  assume ?l
  then show ?r using index_split [OF assms] by auto
next
  assume r: ?r
  show ?l
  proof (intro allI impI)
    fix i assume "i < n_bits mp"
    then have "i div 32 < last_word_ptr mp \<or>
        i div 32 = last_word_ptr mp \<and> \<not> bit (last_word_mask_of mp) (i mod 32)"
      using index_split [OF assms] by simp
    moreover have "i mod 32 < 32" by simp
    ultimately have "Q (32 * (i div 32) + i mod 32)" using r by metis
    then show "Q i" by simp
  qed
qed

lemma same_last:
  assumes "bm_invar mp" "bm_invar mp2" "n_bits mp = n_bits mp2"
  shows "last_word_ptr mp2 = last_word_ptr mp"
  using bm_invar_words(4) [OF assms(1)] bm_invar_words(4) [OF assms(2)] assms(3) by simp

lemma list_all_take_nth:
  "n \<le> length xs \<Longrightarrow> list_all P (take n xs) \<longleftrightarrow> (\<forall>w < n. P (xs ! w))"
  by (auto simp: list_all_length)

lemma bitmap_predicates_facts:
  assumes "bm_invar mp" "bm_invar mp2" "n_bits mp = n_bits mp2"
  shows "bitmap_is_set_all mp \<longleftrightarrow> bm_elems mp = {..<n_bits mp}"
    and "bitmap_is_clear_all mp \<longleftrightarrow> bm_elems mp = {}"
    and "bitmap_is_subset mp mp2 \<longleftrightarrow> bm_elems mp \<subseteq> bm_elems mp2"
    and "bitmap_is_overlapping mp mp2 \<longleftrightarrow> bm_elems mp \<inter> bm_elems mp2 \<noteq> {}"
proof -
  have l: "last_word_ptr mp \<le> length (bitmap mp)" using bm_invar_words(3) [OF assms(1)] by simp
  have "bitmap_is_set_all mp \<longleftrightarrow> (\<forall>i < n_bits mp. mem_bit (bitmap mp) i)"
    unfolding all_index [OF assms(1)] bitmap_is_set_all_def
    by (auto simp: list_all_take_nth [OF l] word_ones_iff32 bit_or_iff)
  then show "bitmap_is_set_all mp \<longleftrightarrow> bm_elems mp = {..<n_bits mp}"
    by (auto simp: bm_elems_iff set_eq_iff)
  have "bitmap_is_clear_all mp \<longleftrightarrow> (\<forall>i < n_bits mp. \<not> mem_bit (bitmap mp) i)"
    unfolding all_index [OF assms(1)] bitmap_is_clear_all_def
    by (auto simp: list_all_take_nth [OF l] word_zero_iff32 bit_and_iff bit_not_iff)
  then show "bitmap_is_clear_all mp \<longleftrightarrow> bm_elems mp = {}"
    by (auto simp: bm_elems_iff set_eq_iff)
  have "bitmap_is_subset mp mp2 \<longleftrightarrow>
      (\<forall>i < n_bits mp. mem_bit (bitmap mp) i \<longrightarrow> mem_bit (bitmap mp2) i)"
    unfolding all_index [OF assms(1)] bitmap_is_subset_def
    by (auto simp: Let_def list_all_iff word_zero_iff32 bit_and_iff bit_not_iff)
  then show "bitmap_is_subset mp mp2 \<longleftrightarrow> bm_elems mp \<subseteq> bm_elems mp2"
    using assms(3) by (auto simp: bm_elems_iff subset_iff)
  have "\<not> bitmap_is_overlapping mp mp2 \<longleftrightarrow>
      (\<forall>i < n_bits mp. \<not> (mem_bit (bitmap mp) i \<and> mem_bit (bitmap mp2) i))"
    unfolding all_index [OF assms(1)] bitmap_is_overlapping_def
    by (auto simp: Let_def list_ex_iff word_zero_iff32 bit_and_iff bit_not_iff)
  then show "bitmap_is_overlapping mp mp2 \<longleftrightarrow> bm_elems mp \<inter> bm_elems mp2 \<noteq> {}"
    using assms(3) by (auto simp: bm_elems_iff set_eq_iff)
qed

text \<open>
  The predicates decide the corresponding questions about sets, ignoring the unused bits
  of the last word.
\<close>

theorem bitmap_predicates:
  assumes "bm_invar mp" "bm_invar mp2" "n_bits mp = n_bits mp2"
  shows "(bitmap_is_set_all mp \<longleftrightarrow> bm_elems mp = {..<n_bits mp})
    \<and> (bitmap_is_clear_all mp \<longleftrightarrow> bm_elems mp = {})
    \<and> (bitmap_is_subset mp mp2 \<longleftrightarrow> bm_elems mp \<subseteq> bm_elems mp2)
    \<and> (bitmap_is_overlapping mp mp2 \<longleftrightarrow> bm_elems mp \<inter> bm_elems mp2 \<noteq> {})"
  using bitmap_predicates_facts [OF assms] by blast

text \<open>
  \<open>bitmap_union_is_set_all\<close> is documented to hold when the union has all bits set. The
  code returns the negated test on the last word: it answers \<open>False\<close> for every pair whose
  union is full, and \<open>True\<close> exactly when all words but the last are full and the last is
  not.
\<close>

theorem bitmap_union_is_set_all_inverted:
  assumes "bm_invar mp" "bm_invar mp2" "n_bits mp = n_bits mp2"
  shows "bitmap_union_is_set_all mp mp2 \<longleftrightarrow>
      (\<forall>i < 32 * last_word_ptr mp. i \<in> bm_elems mp \<union> bm_elems mp2) \<and>
      bm_elems mp \<union> bm_elems mp2 \<noteq> {..<n_bits mp}"
proof -
  let ?P = "\<lambda>i. mem_bit (bitmap mp) i \<or> mem_bit (bitmap mp2) i"
  have w: "(\<forall>i < 32 * last_word_ptr mp. ?P i) \<longleftrightarrow>
      (\<forall>w < last_word_ptr mp. \<forall>j < 32. ?P (32 * w + j))"
  proof safe
    fix i assume a: "\<forall>w < last_word_ptr mp. \<forall>j < 32. ?P (32 * w + j)"
      and i: "i < 32 * last_word_ptr mp" and n: "\<not> mem_bit (bitmap mp2) i"
    from i have "i div 32 < last_word_ptr mp" by auto
    with a [rule_format, of "i div 32" "i mod 32"] have "?P (32 * (i div 32) + i mod 32)" by simp
    with n show "mem_bit (bitmap mp) i" by simp
  next
    fix w j :: nat assume a: "\<forall>i < 32 * last_word_ptr mp. ?P i"
      and "w < last_word_ptr mp" "j < 32" and n: "\<not> mem_bit (bitmap mp2) (32 * w + j)"
    then have "32 * w + j < 32 * last_word_ptr mp" by linarith
    with a n show "mem_bit (bitmap mp) (32 * w + j)" by blast
  qed
  have lt: "i < n_bits mp" if "i < 32 * last_word_ptr mp" for i
    using index_split [OF assms(1), of i] that by auto
  have "bm_elems mp \<union> bm_elems mp2 = {..<n_bits mp} \<longleftrightarrow> (\<forall>i < n_bits mp. ?P i)"
    using assms(3) by (auto simp: bm_elems_iff set_eq_iff)
  moreover have "(\<forall>i < 32 * last_word_ptr mp. i \<in> bm_elems mp \<union> bm_elems mp2) \<longleftrightarrow>
      (\<forall>i < 32 * last_word_ptr mp. ?P i)"
    using assms(3) lt by (auto simp: bm_elems_iff)
  ultimately show ?thesis
    unfolding bitmap_union_is_set_all_def all_index [OF assms(1)] w
    by (auto simp: Let_def list_all_iff word_ones_iff32 bit_or_iff)
qed

subsection \<open>Intersection of bitmaps of different sizes\<close>

lemma bitmap_intersect_correct_facts:
  assumes "bm_invar mp" "bm_invar mp2"
  shows "bm_elems (bitmap_intersect mp mp2) = bm_elems mp \<inter> bm_elems mp2"
    and "bm_invar (bitmap_intersect mp mp2)"
proof -
  define len where "len = length (bitmap mp)"
  define len2 where "len2 = length (bitmap mp2)"
  define e where "e = min len len2"
  define to1 where "to1 = map2 (\<lambda>a b. a AND b) (take e (bitmap mp)) (take e (bitmap mp2)) @ drop e (bitmap mp)"
  define to2 where "to2 = (let t = to1[e - 1 := to1 ! (e - 1) AND NOT (last_word_mask_of mp2)]
      in take e t @ replicate (len - len2) 0 @ drop len t)"
  have nw: "no_words_in_map mp = len" "no_words_in_map mp2 = len2"
    using bm_invar_words(1) assms by (simp_all add: len_def len2_def)
  have eq: "bitmap_intersect mp mp2 = mp\<lparr>bitmap := if len2 \<le> len then to2 else to1\<rparr>"
    by (simp add: bitmap_intersect_def nw Let_def to2_def to1_def e_def)
  have l1: "length to1 = len" by (simp add: to1_def e_def len_def len2_def)
  have len2: "0 < len2" "last_word_ptr mp2 = len2 - 1"
    using bm_invar_words(6) [OF assms(2)] by (simp_all add: len2_def)
  have l2: "length to2 = len" if "len2 \<le> len"
    using that l1 by (simp add: to2_def Let_def e_def)
  show "bm_invar (bitmap_intersect mp mp2)"
    using assms(1) l1 l2 by (simp add: eq len_def)
  have n1: "to1 ! w = (bitmap mp ! w AND bitmap mp2 ! w)" if "w < e" for w
    using that by (simp add: to1_def nth_append e_def len_def len2_def)
  have "mem_bit (if len2 \<le> len then to2 else to1) i \<longleftrightarrow>
      mem_bit (bitmap mp) i \<and> i < n_bits mp2 \<and> mem_bit (bitmap mp2) i" if i: "i < n_bits mp" for i
  proof -
    define w where "w = i div 32"
    have w: "w < len" using in_word_less [OF assms(1) i] by (simp add: w_def len_def)
    have s2: "i < n_bits mp2 \<longleftrightarrow> w < len2 - 1 \<or> w = len2 - 1 \<and> \<not> bit (last_word_mask_of mp2) (i mod 32)"
      using index_split [OF assms(2), of i] len2 by (simp add: w_def)
    show ?thesis
    proof (cases "len2 \<le> len")
      case False
      then have "w < e" "w < len2 - 1" using w by (auto simp: e_def)
      with False s2 show ?thesis by (simp add: mem_bit_def n1 bit_and_iff flip: w_def)
    next
      case True
      then have e: "e = len2" by (simp add: e_def)
      have "to2 ! w = (if w < len2 then if w = len2 - 1 then
          bitmap mp ! w AND bitmap mp2 ! w AND NOT (last_word_mask_of mp2)
          else bitmap mp ! w AND bitmap mp2 ! w else 0)"
        using w True len2 l1 n1 [of w] n1 [of "len2 - 1"]
        by (auto simp: to2_def Let_def e nth_append and.assoc nth_list_update)
      with True s2 len2 show ?thesis
        by (auto simp: mem_bit_def bit_and_iff bit_not_iff simp flip: w_def)
    qed
  qed
  then show "bm_elems (bitmap_intersect mp mp2) = bm_elems mp \<inter> bm_elems mp2"
    by (auto simp: eq bm_elems_iff)
qed

text \<open>
  \<open>bitmap_intersect\<close> accepts bitmaps of different sizes: the result is the intersection
  (bits beyond the second bitmap become clear), and the first bitmap stays well-formed.
\<close>

theorem bitmap_intersect_correct:
  assumes "bm_invar mp" "bm_invar mp2"
  shows "(bm_elems (bitmap_intersect mp mp2) = bm_elems mp \<inter> bm_elems mp2)
    \<and> (bm_invar (bitmap_intersect mp mp2))"
  using bitmap_intersect_correct_facts [OF assms] by blast

subsection \<open>Prefixes\<close>

lemma ceil8: "(q + 7) div 8 = Suc (q div 8)" if a: "q mod 8 \<noteq> 0" for q :: nat
proof -
  have "q = q div 8 * 8 + q mod 8" by simp
  then have "q div 8 * 8 + 1 \<le> q" using a by linarith
  then have "Suc (q div 8) * 8 \<le> q + 7" by simp
  moreover have "q + 7 < Suc (Suc (q div 8)) * 8"
    using dividend_less_div_times [of 8 q] by simp
  ultimately show ?thesis by (intro div_nat_eqI) (simp_all add: mult.commute)
qed

lemma bm_set_above:
  assumes "bm_invar mp"
  shows "bm_elems (bitmap_set_above mp b v) =
      {i \<in> bm_elems mp. i < 8 * b} \<union> (if v then {8 * b..<n_bits mp} else {})"
proof -
  have nb: "no_bytes_in_map mp = (n_bits mp + 7) div 8" "no_bytes_in_map mp \<le> 4 * length (bitmap mp)"
    using bm_invar_words [OF assms] by simp_all
  have "mem_bit (memset (bitmap mp) b (if v then 0xFF else 0) (no_bytes_in_map mp - b)) i \<longleftrightarrow>
     (if i < 8 * b then mem_bit (bitmap mp) i else v)" if i: "i < n_bits mp" for i
  proof -
    have "i div 8 < no_bytes_in_map mp" using i nb(1) by simp
    then show ?thesis
      using nb(2) by (cases "b \<le> no_bytes_in_map mp") (auto simp: mem_bit_memset bit_ones8)
  qed
  then show ?thesis
    by (auto simp: bitmap_set_above_def bm_elems_iff Let_def split: if_splits)
qed

lemma bm_set_prefix:
  assumes "bm_invar mp"
  shows "bm_elems (bitmap_set_prefix mp p) = {..<min p (n_bits mp)}"
    and "bm_invar (bitmap_set_prefix mp p)"
proof -
  define q where "q = min p (n_bits mp)"
  have q: "(if n_bits mp < p then n_bits mp else p) = q" by (simp add: q_def)
  have nb: "no_bytes_in_map mp = (n_bits mp + 7) div 8" "no_bytes_in_map mp \<le> 4 * length (bitmap mp)"
    using bm_invar_words [OF assms] by simp_all
  define m1 where "m1 = memset (bitmap mp) 0 0xFF (q div 8)"
  define m2 where "m2 = (if q mod 8 \<noteq> 0 then set_byte m1 (q div 8) (push_bit (q mod 8) 1 - 1) else m1)"
  define pb where "pb = (if q mod 8 \<noteq> 0 then q div 8 + 1 else q div 8)"
  have eq: "bitmap_set_prefix mp p = mp\<lparr>bitmap := memset m2 pb 0 (no_bytes_in_map mp - pb)\<rparr>"
    unfolding bitmap_set_prefix_def Let_def q
    by (cases "q div 8 = 0"; cases "q mod 8 = 0"; cases "no_bytes_in_map mp - pb = 0")
      (simp_all add: m1_def m2_def pb_def)
  have len: "length m2 = length (bitmap mp)" by (simp add: m1_def m2_def)
  show "bm_invar (bitmap_set_prefix mp p)" using assms by (simp add: eq len)
  have pb: "pb \<le> no_bytes_in_map mp" "q div 8 \<le> no_bytes_in_map mp"
    "q mod 8 \<noteq> 0 \<Longrightarrow> q div 8 < no_bytes_in_map mp"
  proof -
    have qn: "q \<le> n_bits mp" by (simp add: q_def)
    then show c: "q div 8 \<le> no_bytes_in_map mp"
      unfolding nb(1) by (intro div_le_mono) simp
    have "(q + 7) div 8 \<le> no_bytes_in_map mp" using qn unfolding nb(1) by (intro div_le_mono) simp
    with ceil8 [of q] show d: "q mod 8 \<noteq> 0 \<Longrightarrow> q div 8 < no_bytes_in_map mp" by simp
    show "pb \<le> no_bytes_in_map mp" using c d by (auto simp: pb_def)
  qed
  have "mem_bit (memset m2 pb 0 (no_bytes_in_map mp - pb)) i \<longleftrightarrow> i < q" if i: "i < n_bits mp" for i
  proof -
    have ib: "i div 8 < no_bytes_in_map mp" using i nb(1) by simp
    have iq: "i < q \<longleftrightarrow> i div 8 < q div 8 \<or> i div 8 = q div 8 \<and> i mod 8 < q mod 8"
      using byte_lex [of "i mod 8" "q mod 8" "i div 8" "q div 8"] by simp
    have a: "mem_bit m1 i \<longleftrightarrow> i div 8 < q div 8 \<or> mem_bit (bitmap mp) i"
      using pb(2) nb(2) by (auto simp: m1_def mem_bit_memset bit_ones8)
    have bb: "bit (push_bit (q mod 8) 1 - 1 :: uchar) (i mod 8) \<longleftrightarrow> i mod 8 < q mod 8"
      by (rule byte_pow2m1) (simp add: less_imp_le)
    have b: "mem_bit m2 i \<longleftrightarrow> i < q" if "i div 8 < pb"
      using a that pb(3) nb(2) bb
      by (auto simp: m2_def pb_def iq mem_bit_set_byte m1_def split: if_splits)
    have c: "\<not> i < q" if "\<not> i div 8 < pb"
      using that by (auto simp: pb_def iq split: if_splits)
    show ?thesis
      using b c ib pb(1) nb(2) len by (auto simp: mem_bit_memset)
  qed
  then show "bm_elems (bitmap_set_prefix mp p) = {..<min p (n_bits mp)}"
    by (auto simp: eq bm_elems_iff q_def)
qed

lemma bitmap_set_prefix_correct_facts:
  assumes "bm_invar mp"
  shows "bm_elems (bitmap_set_prefix mp p) = {..<min p (n_bits mp)}"
    and "bm_invar (bitmap_set_prefix mp p)"
    and "bm_elems (bitmap_set_above mp b v) =
      {i \<in> bm_elems mp. i < 8 * b} \<union> (if v then {8 * b..<n_bits mp} else {})"
  by (rule bm_set_prefix [OF assms] bm_set_above [OF assms])+

text \<open>
  \<open>bitmap_set_prefix\<close> makes the bitmap the set of the first indices (all of them when
  the size asked for is larger), and \<open>bitmap_set_above\<close> fills or clears everything from a
  byte boundary on.
\<close>

theorem bitmap_set_prefix_correct:
  assumes "bm_invar mp"
  shows "(bm_elems (bitmap_set_prefix mp p) = {..<min p (n_bits mp)})
    \<and> (bm_invar (bitmap_set_prefix mp p))
    \<and> (bm_elems (bitmap_set_above mp b v) =
      {i \<in> bm_elems mp. i < 8 * b} \<union> (if v then {8 * b..<n_bits mp} else {}))"
  using bitmap_set_prefix_correct_facts [OF assms] by blast

lemma byte_eq_iff: "(v :: uchar) = w \<longleftrightarrow> (\<forall>j < 8. bit v j \<longleftrightarrow> bit w j)"
  by (auto intro: word8_eqI)

text \<open>The two loops and the three comparisons of \<open>bitmap_is_prefix\<close>, bit by bit.\<close>

lemma bitmap_is_prefix_bits:
  assumes "bm_invar mp" "p \<le> n_bits mp" "p \<noteq> 0"
    and e: "e = (p - 1) div 8" and l: "l = no_bytes_in_map mp - 1"
    and P: "P = (p - 1) mod 8" and N: "N = (n_bits mp - 1) mod 8"
    and M: "M = (\<lambda>k j. mem_bit (bitmap mp) (8 * k + j))"
  shows "bitmap_is_prefix mp p \<longleftrightarrow> (\<forall>k < e. \<forall>j < 8. M k j) \<and>
    (if e = l then \<forall>j < 8. M l j \<and> j \<le> N \<longleftrightarrow> j \<le> P
     else (\<forall>j < 8. M e j \<longleftrightarrow> j \<le> P) \<and> (\<forall>k. e < k \<and> k < l \<longrightarrow> (\<forall>j < 8. \<not> M k j))
       \<and> (\<forall>j < 8. \<not> (M l j \<and> j \<le> N)))"
proof -
  have n: "0 < n_bits mp" "n_bits mp < 2 ^ 32" "0 < p" "p < 2 ^ 32"
    using assms(1-3) by (auto simp: bm_invar_def)
  have ff: "get_byte (bitmap mp) k = 0xFF \<longleftrightarrow> (\<forall>j < 8. M k j)"
    and zz: "get_byte (bitmap mp) k = 0 \<longleftrightarrow> (\<forall>j < 8. \<not> M k j)"
    and ep: "get_byte (bitmap mp) k = last_byte_mask p \<longleftrightarrow> (\<forall>j < 8. M k j \<longleftrightarrow> j \<le> P)"
    and lp: "get_byte (bitmap mp) k AND last_byte_mask (n_bits mp) = last_byte_mask p \<longleftrightarrow>
      (\<forall>j < 8. M k j \<and> j \<le> N \<longleftrightarrow> j \<le> P)"
    and lz: "get_byte (bitmap mp) k AND last_byte_mask (n_bits mp) = 0 \<longleftrightarrow>
      (\<forall>j < 8. \<not> (M k j \<and> j \<le> N))" for k
    using n by (simp_all add: byte_eq_iff bit_get_byte bit_and_iff bit_ones8 bit_last_byte_mask M P N)
  show ?thesis
    unfolding bitmap_is_prefix_def Let_def ff zz ep lp lz e [symmetric] l [symmetric]
    using assms(3) by (auto simp: list_all_iff Suc_le_eq)
qed

lemma prefix_logic:
  assumes "e \<le> (l::nat)" "e = l \<Longrightarrow> P \<le> N"
  shows "(\<forall>k \<le> l. \<forall>j < 8. (k < l \<or> k = l \<and> j \<le> N) \<longrightarrow> (M k j \<longleftrightarrow> k < e \<or> k = e \<and> j \<le> P)) \<longleftrightarrow>
    (\<forall>k < e. \<forall>j < 8. M k j) \<and>
    (if e = l then \<forall>j < 8. M l j \<and> j \<le> N \<longleftrightarrow> j \<le> P
     else (\<forall>j < 8. M e j \<longleftrightarrow> j \<le> P) \<and> (\<forall>k. e < k \<and> k < l \<longrightarrow> (\<forall>j < 8. \<not> M k j))
       \<and> (\<forall>j < (8::nat). \<not> (M l j \<and> j \<le> (N::nat))))" (is "?L \<longleftrightarrow> ?R")
proof
  assume L: ?L
  have h: "M k j \<longleftrightarrow> k < e \<or> k = e \<and> j \<le> P" if "j < 8" "k < l \<or> k = l \<and> j \<le> N" for k j
    using L [rule_format, of k j] that by auto
  show ?R using assms by (auto simp: h)
next
  assume r: ?R
  show ?L
  proof (intro allI impI)
    fix k j assume "k \<le> l" "j < 8" "k < l \<or> k = l \<and> j \<le> N"
    with r assms show "M k j \<longleftrightarrow> k < e \<or> k = e \<and> j \<le> P"
      by (cases k e rule: linorder_cases) (auto split: if_splits)
  qed
qed

text \<open>
  For a prefix no longer than the bitmap, \<open>bitmap_is_prefix\<close> holds exactly when the
  bitmap is that prefix; the empty prefix is always accepted.
\<close>

theorem bitmap_is_prefix_correct:
  assumes "bm_invar mp" "p \<le> n_bits mp"
  shows "bitmap_is_prefix mp p \<longleftrightarrow> p = 0 \<or> bm_elems mp = {..<p}"
proof (cases "p = 0")
  case True
  then show ?thesis by (simp add: bitmap_is_prefix_def Let_def)
next
  case False
  define n where "n = n_bits mp"
  define e where "e = (p - 1) div 8"
  define l where "l = no_bytes_in_map mp - 1"
  have n: "0 < n" "n < 2 ^ 32" "p < 2 ^ 32" using assms by (auto simp: bm_invar_def n_def)
  have l: "l = (n - 1) div 8" using bm_invar_words(2) [OF assms(1)] n by (simp add: l_def n_def)
  have el: "e \<le> l" unfolding e_def l using assms(2) by (intro div_le_mono) (simp add: n_def)
  let ?M = "\<lambda>k j. mem_bit (bitmap mp) (8 * k + j)"
  have ip: "8 * k + j < p \<longleftrightarrow> k < e \<or> k = e \<and> j \<le> (p - 1) mod 8" if "j < 8" for k j
  proof -
    have "8 * k + j < p \<longleftrightarrow> \<not> 8 * e + (p - 1) mod 8 < 8 * k + j"
      using False by (auto simp: e_def)
    then show ?thesis using byte_lex [of "(p - 1) mod 8" j e k] that by auto
  qed
  have "in": "8 * k + j < n \<longleftrightarrow> k < l \<or> k = l \<and> j \<le> (n - 1) mod 8" if "j < 8" for k j
  proof -
    have "8 * k + j < n \<longleftrightarrow> \<not> 8 * l + (n - 1) mod 8 < 8 * k + j"
      using n(1) unfolding l by auto
    then show ?thesis using byte_lex [of "(n - 1) mod 8" j l k] that by auto
  qed
  have split8: "(\<forall>i < n. Q i) \<longleftrightarrow> (\<forall>k \<le> l. \<forall>j < 8. 8 * k + j < n \<longrightarrow> Q (8 * k + j))" for Q
  proof safe
    fix i assume a: "\<forall>k \<le> l. \<forall>j < 8. 8 * k + j < n \<longrightarrow> Q (8 * k + j)" and i: "i < n"
    have "i div 8 \<le> l" unfolding l using i by (intro div_le_mono) simp
    then show "Q i" using a [rule_format, of "i div 8" "i mod 8"] i by simp
  qed auto
  have "bm_elems mp = {..<p} \<longleftrightarrow> (\<forall>i < n. mem_bit (bitmap mp) i \<longleftrightarrow> i < p)"
    using assms(2) by (auto simp: bm_elems_iff set_eq_iff n_def)
  also have "\<dots> \<longleftrightarrow> (\<forall>k \<le> l. \<forall>j < 8. (k < l \<or> k = l \<and> j \<le> (n - 1) mod 8) \<longrightarrow>
      (?M k j \<longleftrightarrow> k < e \<or> k = e \<and> j \<le> (p - 1) mod 8))"
    unfolding split8 by (simp add: ip "in" cong: imp_cong)
  also have "\<dots> \<longleftrightarrow> bitmap_is_prefix mp p"
    unfolding bitmap_is_prefix_bits [OF assms False e_def l_def refl refl refl] n_def [symmetric]
  proof (rule prefix_logic [OF el])
    assume "e = l"
    then show "(p - 1) mod 8 \<le> (n - 1) mod 8"
      using assms(2) div_mult_mod_eq [of "p - 1" 8] div_mult_mod_eq [of "n - 1" 8]
      unfolding e_def l n_def by linarith
  qed
  finally show ?thesis using False by simp
qed

subsection \<open>Searching\<close>

text \<open>The byte-then-bit scan of one word, for any test on bits.\<close>

lemma scan_word:
  assumes "i < 32" "bit w i = v" and nb: "\<And>k. nz k \<longleftrightarrow> (\<exists>j < 8. bit w (8 * k + j) = v)"
    and bi: "\<And>k j. j < 8 \<Longrightarrow> tst k j \<longleftrightarrow> bit (w :: uint32) (8 * k + j) = v"
  shows "\<exists>p q. first_from nz 0 4 = Some p \<and> first_from (tst p) 0 8 = Some q \<and> 8 * p + q < 32
    \<and> bit w (8 * p + q) = v \<and> (\<forall>i < 8 * p + q. bit w i \<noteq> v)"
proof -
  have "nz (i div 8)" using nb [of "i div 8"] assms(2) by (metis mod_less_divisor mult_div_mod_eq zero_less_numeral)
  moreover have "i div 8 < 4" using assms(1) by simp
  ultimately obtain p where p: "first_from nz 0 4 = Some p"
    using first_from_None [of nz 0 4] by (cases "first_from nz 0 4") auto
  then have p4: "p < 4" and nzp: "nz p" and pl: "\<And>k. k < p \<Longrightarrow> \<not> nz k"
    by (auto simp: first_from_Some)
  from nzp obtain j where j: "j < 8" "bit w (8 * p + j) = v" using nb by auto
  then obtain q where q: "first_from (tst p) 0 8 = Some q"
    using first_from_None [of "tst p" 0 8] bi by (cases "first_from (tst p) 0 8") auto
  then have q8: "q < 8" and tq: "tst p q" and ql: "\<And>k. k < q \<Longrightarrow> \<not> tst p k"
    by (auto simp: first_from_Some)
  have "bit w n \<noteq> v" if n: "n < 8 * p + q" for n
  proof -
    have "n = 8 * (n div 8) + n mod 8" by simp
    moreover have "n div 8 < p \<or> n div 8 = p \<and> n mod 8 < q"
      using byte_lex [of "n mod 8" q "n div 8" p] n q8 by simp
    ultimately show ?thesis using pl [of "n div 8"] nb ql [of "n mod 8"] bi [of "n mod 8" p]
      by (metis mod_less_divisor zero_less_numeral)
  qed
  moreover have "8 * p + q < 32" using p4 q8 by simp
  ultimately show ?thesis using p q bi [OF q8] tq by blast
qed

lemma get_first_set_correct:
  assumes "w \<noteq> 0"
  shows "\<exists>k < 32. get_first_set w n = Some (32 * n + k) \<and> bit w k \<and> (\<forall>i < k. \<not> bit w i)"
proof -
  obtain i where i: "i < 32" "bit w i" using assms by (auto simp: word_zero_iff32)
  have "\<exists>p q. first_from (\<lambda>k. word_byte w k \<noteq> 0) 0 4 = Some p \<and>
      first_from (\<lambda>j. word_byte w p AND push_bit j 1 \<noteq> 0) 0 8 = Some q \<and> 8 * p + q < 32
      \<and> bit w (8 * p + q) = True \<and> (\<forall>i < 8 * p + q. bit w i \<noteq> True)"
    by (rule scan_word [OF i(1), where tst = "\<lambda>p j. word_byte w p AND push_bit j 1 \<noteq> 0"])
      (auto simp: i byte_zero_iff bit_word_byte bit_and_iff bit_shl1_8)
  then obtain p q where pq: "first_from (\<lambda>k. word_byte w k \<noteq> 0) 0 4 = Some p"
      "first_from (\<lambda>j. word_byte w p AND push_bit j 1 \<noteq> 0) 0 8 = Some q" "8 * p + q < 32"
      "bit w (8 * p + q)" "\<forall>i < 8 * p + q. \<not> bit w i"
    by auto
  then have "get_first_set w n = Some (32 * n + (8 * p + q))"
    by (simp add: get_first_set_def mult.commute)
  with pq(3-5) show ?thesis by blast
qed

lemma first_clear_in_correct:
  assumes "w \<noteq> 0xFFFFFFFF"
  shows "\<exists>k < 32. first_clear_in w n = Some (32 * n + k) \<and> \<not> bit w k \<and> (\<forall>i < k. bit w i)"
proof -
  obtain i where i: "i < 32" "\<not> bit w i" using assms by (auto simp: word_ones_iff32)
  have "\<exists>p q. first_from (\<lambda>k. word_byte w k \<noteq> 0xFF) 0 4 = Some p \<and>
      first_from (\<lambda>j. word_byte w p AND push_bit j 1 = 0) 0 8 = Some q \<and> 8 * p + q < 32
      \<and> bit w (8 * p + q) = False \<and> (\<forall>i < 8 * p + q. bit w i \<noteq> False)"
    by (rule scan_word [OF i(1), where tst = "\<lambda>p j. word_byte w p AND push_bit j 1 = 0"])
      (auto simp: i byte_ones_iff byte_zero_iff bit_word_byte bit_and_iff bit_shl1_8)
  then obtain p q where pq: "first_from (\<lambda>k. word_byte w k \<noteq> 0xFF) 0 4 = Some p"
      "first_from (\<lambda>j. word_byte w p AND push_bit j 1 = 0) 0 8 = Some q" "8 * p + q < 32"
      "\<not> bit w (8 * p + q)" "\<forall>i < 8 * p + q. bit w i"
    by auto
  then have "first_clear_in w n = Some (32 * n + (8 * p + q))"
    by (simp add: first_clear_in_def mult.commute)
  with pq(3-5) show ?thesis by blast
qed

text \<open>The answer of a search: the least index of a set, or \<open>MY_BIT_NONE\<close>.\<close>

definition least_or_none :: "nat set \<Rightarrow> nat" where
  "least_or_none A = (if A = {} then MY_BIT_NONE else Min A)"

lemma least_or_noneI:
  assumes "finite A" "k \<in> A" "\<And>i. i \<in> A \<Longrightarrow> k \<le> i"
  shows "least_or_none A = k"
  using assms by (auto simp: least_or_none_def intro: Min_eqI)

lemma finite_bm_elems [simp]: "finite (bm_elems mp)"
  by (simp add: bm_elems_def)

lemma word_index_le:
  assumes "w < i div 32 \<or> w = i div 32 \<and> k \<le> i mod 32" "k < 32"
  shows "32 * w + k \<le> (i::nat)"
proof -
  have "i = 32 * (i div 32) + i mod 32" by simp
  with assms show ?thesis by linarith
qed

text \<open>
  From a word \<open>i\<close> of the bitmap with a relevant bit set, where all earlier words from
  \<open>s\<close> on are zero, the word scan finds the least element from \<open>32 * s\<close> on.
\<close>

lemma first_set_from:
  assumes inv: "bm_invar mp"
    and zero: "\<And>w. s \<le> w \<Longrightarrow> w < i \<Longrightarrow> bitmap mp ! w = 0"
    and i: "s \<le> i" "i \<le> last_word_ptr mp" "bitmap mp ! i \<noteq> 0"
      "i = last_word_ptr mp \<Longrightarrow> bitmap mp ! i AND NOT (last_word_mask_of mp) \<noteq> 0"
  shows "get_first_set (bitmap mp ! i) i = Some (least_or_none {x \<in> bm_elems mp. 32 * s \<le> x})"
proof -
  obtain k where k: "k < 32" "get_first_set (bitmap mp ! i) i = Some (32 * i + k)"
    "bit (bitmap mp ! i) k" "\<forall>j < k. \<not> bit (bitmap mp ! i) j"
    using get_first_set_correct [OF i(3)] by blast
  have "32 * i + k < n_bits mp"
  proof (cases "i = last_word_ptr mp")
    case True
    then obtain j where j: "j < 32" "bit (bitmap mp ! i) j" "\<not> bit (last_word_mask_of mp) j"
      using i(4) by (auto simp: word_zero_iff32 bit_and_iff bit_not_iff)
    then have "32 * i + j < n_bits mp" using True index_split [OF inv, of "32 * i + j"] by simp
    moreover have "k \<le> j" using k(4) j(2) by (meson leI)
    ultimately show ?thesis by simp
  next
    case False
    then show ?thesis using i(2) index_split [OF inv, of "32 * i + k"] k(1) by simp
  qed
  then have "32 * i + k \<in> {x \<in> bm_elems mp. 32 * s \<le> x}"
    using k i(1) by (simp add: bm_elems_iff)
  moreover have "32 * i + k \<le> x" if "x \<in> {x \<in> bm_elems mp. 32 * s \<le> x}" for x
  proof -
    have b: "bit (bitmap mp ! (x div 32)) (x mod 32)" "s \<le> x div 32"
      using that by (auto simp: bm_elems_iff mem_bit_def)
    then have "i \<le> x div 32" using zero [of "x div 32"] by (metis bit_0_eq bot_apply bot_bool_def not_le)
    then show ?thesis using b(1) k(4) k(1)
      by (intro word_index_le) (metis le_less not_le, assumption)
  qed
  ultimately show ?thesis using k(2) least_or_noneI [of "{x \<in> bm_elems mp. 32 * s \<le> x}"] by simp
qed

lemma none_set_from:
  assumes inv: "bm_invar mp"
    and zero: "\<And>w. s \<le> w \<Longrightarrow> w < last_word_ptr mp \<Longrightarrow> bitmap mp ! w = 0"
    and "bitmap mp ! last_word_ptr mp AND NOT (last_word_mask_of mp) = 0"
  shows "{x \<in> bm_elems mp. 32 * s \<le> x} = {}"
proof -
  have False if x: "x \<in> bm_elems mp" "32 * s \<le> x" for x
  proof -
    have b: "bit (bitmap mp ! (x div 32)) (x mod 32)" "s \<le> x div 32" "x < n_bits mp"
      using x by (auto simp: bm_elems_iff mem_bit_def)
    have "bit (bitmap mp ! last_word_ptr mp) (x mod 32) \<longrightarrow> bit (last_word_mask_of mp) (x mod 32)"
      using assms(3) by (auto simp: word_zero_iff32 bit_and_iff bit_not_iff)
    then show False using b index_split [OF inv, of x] zero [of "x div 32"] by auto
  qed
  then show ?thesis by auto
qed

text \<open>The word-wise search both functions run, from word \<open>s\<close> on.\<close>

definition search_from :: "MY_BITMAP \<Rightarrow> nat \<Rightarrow> nat option" where
  "search_from mp s =
     (case first_from (\<lambda>i. bitmap mp ! i \<noteq> 0) s (last_word_ptr mp) of
        Some i \<Rightarrow> get_first_set (bitmap mp ! i) i
      | None \<Rightarrow>
          if bitmap mp ! last_word_ptr mp AND NOT (last_word_mask_of mp) = 0 then Some MY_BIT_NONE
          else get_first_set (bitmap mp ! last_word_ptr mp) (last_word_ptr mp))"

lemma search_from_correct:
  assumes inv: "bm_invar mp" and s: "s \<le> last_word_ptr mp"
  shows "search_from mp s = Some (least_or_none {x \<in> bm_elems mp. 32 * s \<le> x})"
proof (cases "first_from (\<lambda>i. bitmap mp ! i \<noteq> 0) s (last_word_ptr mp)")
  case (Some i)
  then have "get_first_set (bitmap mp ! i) i = Some (least_or_none {x \<in> bm_elems mp. 32 * s \<le> x})"
    by (intro first_set_from [OF inv]) (auto simp: first_from_Some)
  then show ?thesis using Some by (simp add: search_from_def)
next
  case None
  then have z: "\<And>w. s \<le> w \<Longrightarrow> w < last_word_ptr mp \<Longrightarrow> bitmap mp ! w = 0"
    by (simp add: first_from_None)
  show ?thesis
  proof (cases "bitmap mp ! last_word_ptr mp AND NOT (last_word_mask_of mp) = 0")
    case True
    then have "{x \<in> bm_elems mp. 32 * s \<le> x} = {}" using none_set_from [OF inv, of s] z by blast
    then show ?thesis using None True by (simp add: search_from_def least_or_none_def)
  next
    case False
    then have "get_first_set (bitmap mp ! last_word_ptr mp) (last_word_ptr mp) =
        Some (least_or_none {x \<in> bm_elems mp. 32 * s \<le> x})"
      using z s by (intro first_set_from [OF inv]) auto
    then show ?thesis using None False by (simp add: search_from_def)
  qed
qed

text \<open>\<open>bitmap_get_first_set\<close> returns the least element, or \<open>MY_BIT_NONE\<close> for the empty set.\<close>

theorem bitmap_get_first_set_correct:
  assumes inv: "bm_invar mp"
  shows "bitmap_get_first_set mp = Some (least_or_none (bm_elems mp))"
  using search_from_correct [OF inv, of 0] by (simp add: bitmap_get_first_set_def search_from_def Let_def)

lemma bit_clear_bytes:
  "n \<le> 4 \<Longrightarrow> j < 32 \<Longrightarrow> bit (clear_bytes w n) j \<longleftrightarrow> n \<le> j div 8 \<and> bit w j"
  by (induction n) (auto simp: bit_word_set_byte Suc_le_eq)

lemma bit_shl_ones: "k \<le> 8 \<Longrightarrow> bit (push_bit k 0xFF :: uchar) j \<longleftrightarrow> k \<le> j \<and> j < 8"
  by (auto simp: bit_push_bit_iff bit_ones8)

text \<open>Clearing the bytes before position \<open>b\<close> and the low bits of its byte leaves the bits from \<open>b\<close> on.\<close>

lemma bit_mask_before:
  assumes "b < 32" "j < 32" and w1_def: "w1 = clear_bytes w (b div 8)"
  shows "bit (word_set_byte w1 (b div 8) (word_byte w1 (b div 8) AND push_bit (b mod 8) 0xFF)) j \<longleftrightarrow>
    b \<le> j \<and> bit w j"
proof -
  have b4: "b div 8 < 4" using assms(1) by simp
  have le: "b \<le> j \<longleftrightarrow> b div 8 < j div 8 \<or> b div 8 = j div 8 \<and> b mod 8 \<le> j mod 8"
    using byte_lex [of "j mod 8" "b mod 8" "j div 8" "b div 8"] by (auto simp: not_less [symmetric])
  show ?thesis
  proof (cases "j div 8 = b div 8")
    case True
    have "8 * (b div 8) + j mod 8 = j" using True by (metis mult_div_mod_eq)
    then show ?thesis using assms b4 True le
      by (auto simp: bit_word_set_byte bit_and_iff bit_word_byte bit_shl_ones w1_def bit_clear_bytes less_imp_le)
  next
    case False
    then show ?thesis using assms b4 le
      by (auto simp: bit_word_set_byte w1_def bit_clear_bytes)
  qed
qed

text \<open>
  The bitmap with the bits before \<open>c\<close> masked out of its word: searching it from that word
  on is what \<open>bitmap_get_next_set\<close> does.
\<close>

definition masked_from :: "MY_BITMAP \<Rightarrow> nat \<Rightarrow> MY_BITMAP" where
  "masked_from mp c =
     (let w0 = clear_bytes (bitmap mp ! (c div 32)) (c mod 32 div 8)
      in mp\<lparr>bitmap := (bitmap mp)[c div 32 := word_set_byte w0 (c mod 32 div 8)
           (word_byte w0 (c mod 32 div 8) AND push_bit (c mod 8) 0xFF)]\<rparr>)"

lemma masked_from_facts:
  assumes inv: "bm_invar mp" and c: "c < n_bits mp"
  shows "bm_invar (masked_from mp c)" "last_word_ptr (masked_from mp c) = last_word_ptr mp"
    "last_word_mask_of (masked_from mp c) = last_word_mask_of mp"
    "{x \<in> bm_elems (masked_from mp c). 32 * (c div 32) \<le> x} = {x \<in> bm_elems mp. c \<le> x}"
proof -
  define fw where "fw = bitmap (masked_from mp c) ! (c div 32)"
  have wl: "c div 32 < length (bitmap mp)" by (rule in_word_less [OF inv c])
  have c8: "c mod 32 mod 8 = c mod 8" by (simp add: mod32)
  have fw: "bit fw j \<longleftrightarrow> c mod 32 \<le> j \<and> bit (bitmap mp ! (c div 32)) j" if "j < 32" for j
    using bit_mask_before [OF _ that refl, of "c mod 32"] wl
    unfolding fw_def masked_from_def Let_def c8 by simp
  show m1: "bm_invar (masked_from mp c)" "last_word_ptr (masked_from mp c) = last_word_ptr mp"
    "last_word_mask_of (masked_from mp c) = last_word_mask_of mp"
    using inv by (simp_all add: masked_from_def Let_def)
  have m1w: "bitmap (masked_from mp c) ! w = (if w = c div 32 then fw else bitmap mp ! w)" for w
    using wl by (simp add: fw_def masked_from_def Let_def)
  have "mem_bit (bitmap (masked_from mp c)) x \<and> 32 * (c div 32) \<le> x \<longleftrightarrow> mem_bit (bitmap mp) x \<and> c \<le> x" for x
  proof -
    have "c \<le> x \<longleftrightarrow> c div 32 < x div 32 \<or> c div 32 = x div 32 \<and> c mod 32 \<le> x mod 32"
      using word_lex [of x c] by (auto simp: not_less [symmetric])
    moreover have "32 * (c div 32) \<le> x \<longleftrightarrow> c div 32 \<le> x div 32"
      by (simp add: less_eq_div_iff_mult_less_eq mult.commute)
    ultimately show ?thesis using m1w [of "x div 32"] by (auto simp: mem_bit_def fw)
  qed
  moreover have "n_bits (masked_from mp c) = n_bits mp" by (simp add: masked_from_def Let_def)
  ultimately show "{x \<in> bm_elems (masked_from mp c). 32 * (c div 32) \<le> x} = {x \<in> bm_elems mp. c \<le> x}"
    by (auto simp: bm_elems_iff)
qed

lemma first_from_cong:
  assumes "\<And>k. i \<le> k \<Longrightarrow> k < n \<Longrightarrow> p k = q k"
  shows "first_from p i n = first_from q i n"
proof (cases "first_from q i n")
  case None
  then have "first_from p i n = None" using assms by (auto simp: first_from_None)
  with None show ?thesis by simp
next
  case (Some j)
  then have "first_from p i n = Some j" using assms by (auto simp: first_from_Some)
  with Some show ?thesis by simp
qed

lemma get_next_set_search:
  assumes inv: "bm_invar mp" and c: "Suc b < n_bits mp"
  shows "bitmap_get_next_set mp b = search_from (masked_from mp (Suc b)) (Suc b div 32)"
proof -
  define c where "c = Suc b"
  define wp where "wp = c div 32"
  define m where "m = masked_from mp c"
  define e where "e = last_word_ptr mp"
  have wl: "wp < length (bitmap mp)" "wp \<le> e"
    using in_word_less [OF inv c] index_split [OF inv, of c] c by (auto simp: wp_def c_def e_def)
  have u: "u32 (b + 1) = c" "\<not> n_bits mp \<le> c" using inv assms(2) by (auto simp: c_def bm_invar_def)
  have fw: "bitmap m ! wp = word_set_byte (clear_bytes (bitmap mp ! wp) (c mod 32 div 8)) (c mod 32 div 8)
      (word_byte (clear_bytes (bitmap mp ! wp) (c mod 32 div 8)) (c mod 32 div 8) AND push_bit (c mod 8) 0xFF)"
    using wl(1) by (simp add: m_def masked_from_def Let_def wp_def)
  have body: "bitmap_get_next_set mp b =
      (if wp = e then if bitmap m ! wp AND NOT (last_word_mask_of mp) \<noteq> 0 then get_first_set (bitmap m ! wp) wp
         else Some MY_BIT_NONE
       else if bitmap m ! wp \<noteq> 0 then get_first_set (bitmap m ! wp) wp
       else case first_from (\<lambda>i. bitmap mp ! i \<noteq> 0) (wp + 1) e of
           Some i \<Rightarrow> get_first_set (bitmap mp ! i) i
         | None \<Rightarrow> if bitmap mp ! e AND NOT (last_word_mask_of mp) = 0 then Some MY_BIT_NONE
             else get_first_set (bitmap mp ! e) e)"
    unfolding bitmap_get_next_set_def Let_def u(1) if_not_P [OF u(2)] fw wp_def [symmetric] e_def [symmetric] ..
  have mw: "bitmap m ! w = bitmap mp ! w" if "w \<noteq> wp" for w
    using that by (simp add: m_def masked_from_def Let_def wp_def)
  have me: "last_word_ptr m = e" "last_word_mask_of m = last_word_mask_of mp"
    by (simp_all add: m_def masked_from_def Let_def e_def)
  have ff: "first_from (\<lambda>i. bitmap m ! i \<noteq> 0) (Suc wp) e = first_from (\<lambda>i. bitmap mp ! i \<noteq> 0) (Suc wp) e"
    by (rule first_from_cong) (auto simp: mw)
  have "search_from m wp = bitmap_get_next_set mp b"
  proof (cases "wp = e")
    case True
    then show ?thesis unfolding body search_from_def me by (simp add: first_from.simps [of _ e e])
  next
    case False
    then have "wp < e" using wl by simp
    then show ?thesis unfolding body search_from_def me first_from.simps [of _ wp e] ff
      by (auto simp: mw split: option.splits dest: first_from_Some [THEN iffD1])
  qed
  then show ?thesis by (simp add: m_def wp_def c_def)
qed

text \<open>
  \<open>bitmap_get_next_set\<close> returns the least element greater than the given index, or
  \<open>MY_BIT_NONE\<close>.
\<close>

theorem bitmap_get_next_set_correct:
  assumes inv: "bm_invar mp" and b: "b < 2 ^ 32 - 1"
  shows "bitmap_get_next_set mp b = Some (least_or_none {i \<in> bm_elems mp. b < i})"
proof (cases "Suc b < n_bits mp")
  case False
  then have "{i \<in> bm_elems mp. b < i} = {}" by (auto simp: bm_elems_iff)
  then show ?thesis using False b by (simp add: bitmap_get_next_set_def least_or_none_def)
next
  case True
  have "Suc b div 32 \<le> last_word_ptr mp" using index_split [OF inv, of "Suc b"] True by auto
  then show ?thesis
    using get_next_set_search [OF inv True] search_from_correct [of "masked_from mp (Suc b)" "Suc b div 32"]
      masked_from_facts [OF inv True] by (simp add: Suc_le_eq)
qed

subsection \<open>The first clear bit\<close>

lemma first_clear_in_not: "first_clear_in w n = get_first_set (NOT w) n"
proof -
  have b: "bit (word_byte (NOT w) k) j \<longleftrightarrow> \<not> bit (word_byte w k) j" if "k < 4" "j < 8" for k j
    using that by (simp add: bit_word_byte bit_not_iff)
  have a: "first_from (\<lambda>k. word_byte w k \<noteq> 0xFF) 0 4 = first_from (\<lambda>k. word_byte (NOT w) k \<noteq> 0) 0 4"
    by (rule first_from_cong) (auto simp: byte_ones_iff byte_zero_iff b)
  have c: "first_from (\<lambda>j. word_byte w k AND push_bit j 1 = 0) 0 8 =
      first_from (\<lambda>j. word_byte (NOT w) k AND push_bit j 1 \<noteq> 0) 0 8" if "k < 4" for k
    by (rule first_from_cong) (use that b in \<open>auto simp: bit_one_test [symmetric]\<close>)
  show ?thesis
  proof (cases "first_from (\<lambda>k. word_byte (NOT w) k \<noteq> 0) 0 4")
    case None
    then show ?thesis by (simp add: first_clear_in_def get_first_set_def a)
  next
    case (Some k)
    then have "k < 4" by (simp add: first_from_Some)
    with Some show ?thesis by (simp add: first_clear_in_def get_first_set_def a c)
  qed
qed

text \<open>\<open>bitmap_get_first\<close> is the search for a set bit in the complement of the filled bitmap.\<close>

definition filled :: "MY_BITMAP \<Rightarrow> MY_BITMAP" where
  "filled mp = mp\<lparr>bitmap := (bitmap mp)[last_word_ptr mp :=
     bitmap mp ! last_word_ptr mp OR last_word_mask_of mp]\<rparr>"

lemma filled_facts:
  assumes inv: "bm_invar mp"
  shows "bm_invar (filled mp)" "bm_elems (filled mp) = bm_elems mp" "n_bits (filled mp) = n_bits mp"
proof -
  have l: "last_word_ptr mp < length (bitmap mp)" by (rule bm_invar_words [OF inv])
  show "bm_invar (filled mp)" "n_bits (filled mp) = n_bits mp" using inv by (simp_all add: filled_def)
  have "mem_bit (bitmap (filled mp)) i = mem_bit (bitmap mp) i" if "i < n_bits mp" for i
    using that index_split [OF inv, of i] l
    by (auto simp: filled_def mem_bit_def nth_list_update bit_or_iff)
  then show "bm_elems (filled mp) = bm_elems mp"
    using \<open>n_bits (filled mp) = n_bits mp\<close> by (auto simp: bm_elems_iff)
qed

lemma not_zero_iff: "(w :: uint32) \<noteq> 0xFFFFFFFF \<longleftrightarrow> NOT w \<noteq> 0"
  by (auto simp: word_ones_iff32 word_zero_iff32 bit_not_iff)

lemma get_first_search:
  assumes inv: "bm_invar mp"
  shows "bitmap_get_first mp = (filled mp, search_from (bitmap_invert (filled mp)) 0)"
proof -
  define m where "m = filled mp"
  define v where "v = bitmap_invert m"
  define e where "e = last_word_ptr mp"
  have m: "last_word_ptr m = e" "last_word_mask_of m = last_word_mask_of mp" "bm_invar m"
    using filled_facts [OF inv] by (simp_all add: m_def filled_def e_def)
  have l: "e < length (bitmap m)" using bm_invar_words(3) [OF m(3)] m(1) by simp
  have vw: "bitmap v ! w = NOT (bitmap m ! w)" if "w \<le> e" for w
    unfolding v_def bitmap_invert_def using that l
    by (intro word32_eqI) (simp add: m nth_words_upto bit_invert32 bit_not_iff)
  have vl: "last_word_ptr v = e" "last_word_mask_of v = last_word_mask_of mp"
    by (simp_all add: v_def bitmap_invert_def m)
  have ff: "first_from (\<lambda>i. bitmap m ! i \<noteq> 0xFFFFFFFF) 0 e = first_from (\<lambda>i. bitmap v ! i \<noteq> 0) 0 e"
    by (rule first_from_cong) (auto simp: vw not_zero_iff)
  have le: "bitmap m ! e OR last_word_mask_of mp = 0xFFFFFFFF \<longleftrightarrow>
      bitmap v ! e AND NOT (last_word_mask_of mp) = 0"
    by (auto simp: vw word_ones_iff32 word_zero_iff32 bit_or_iff bit_and_iff bit_not_iff)
  have meq: "mp\<lparr>bitmap := (bitmap mp)[e := bitmap mp ! e OR last_word_mask_of mp]\<rparr> = m"
    by (simp add: m_def filled_def e_def)
  have "bitmap_get_first mp = (m, case first_from (\<lambda>i. bitmap m ! i \<noteq> 0xFFFFFFFF) 0 e of
        Some i \<Rightarrow> first_clear_in (bitmap m ! i) i
      | None \<Rightarrow> if bitmap m ! e OR last_word_mask_of mp = 0xFFFFFFFF then Some MY_BIT_NONE
          else first_clear_in (bitmap m ! e) e)"
    unfolding bitmap_get_first_def Let_def e_def [symmetric] meq m(2) ..
  also have "\<dots> = (m, search_from v 0)"
  proof (cases "first_from (\<lambda>i. bitmap v ! i \<noteq> 0) 0 e")
    case None
    then show ?thesis by (simp add: search_from_def vl ff le first_clear_in_not vw)
  next
    case (Some i)
    then have "i \<le> e" by (simp add: first_from_Some)
    with Some show ?thesis by (simp add: search_from_def vl ff first_clear_in_not vw)
  qed
  finally show ?thesis by (simp add: m_def v_def)
qed

lemma get_first_value:
  assumes i: "bm_invar mp"
  shows "bitmap_get_first mp = (filled mp, Some (least_or_none ({..<n_bits mp} - bm_elems mp)))"
proof -
  note f = filled_facts [OF i]
  show ?thesis
    using get_first_search [OF i] search_from_correct [OF bm_invert(1) [OF f(1)], of 0]
      bm_invert(2) [OF f(1)] f by (simp add: set_diff_eq)
qed

lemma set_next_value:
  assumes inv: "bm_invar mp"
  defines "r \<equiv> least_or_none ({..<n_bits mp} - bm_elems mp)"
  shows "\<exists>mp'. bitmap_set_next mp = (mp', Some r) \<and> bm_invar mp' \<and> mutex mp' = mutex mp \<and>
      bm_elems mp' = (if bm_elems mp = {..<n_bits mp} then bm_elems mp else insert r (bm_elems mp))"
proof (cases "bm_elems mp = {..<n_bits mp}")
  case True
  then have "r = MY_BIT_NONE" by (simp add: r_def least_or_none_def)
  then show ?thesis using get_first_value [OF inv] filled_facts [OF inv] True
    by (auto simp: bitmap_set_next_def r_def filled_def)
next
  case False
  let ?C = "{..<n_bits mp} - bm_elems mp"
  have ne: "?C \<noteq> {}" using False by (auto simp: bm_elems_iff)
  then have "r = Min ?C" by (simp add: r_def least_or_none_def)
  then have "r \<in> ?C" using Min_in [of ?C] ne by simp
  then have r: "r < n_bits mp" "r \<noteq> MY_BIT_NONE" using inv by (auto simp: bm_invar_def MY_BIT_NONE_def)
  note f = filled_facts [OF inv]
  have "bitmap_set_next mp = (bitmap_set_bit (filled mp) r, Some r)"
    using get_first_value [OF inv] r by (simp add: bitmap_set_next_def r_def)
  moreover have "bm_elems (bitmap_set_bit (filled mp) r) = insert r (bm_elems mp)"
    using bm_set_bit [OF f(1)] r f by simp
  moreover have "mutex (bitmap_set_bit (filled mp) r) = mutex mp"
    by (simp add: bitmap_set_bit_def filled_def)
  ultimately show ?thesis using False bm_bit_ops_invar(1) [OF f(1)] by auto
qed

lemma bitmap_set_next_correct_facts:
  assumes inv: "bm_invar mp"
  defines "r \<equiv> least_or_none ({..<n_bits mp} - bm_elems mp)"
  shows "\<exists>mp'. bitmap_get_first mp = (mp', Some r) \<and> bm_invar mp' \<and> bm_elems mp' = bm_elems mp"
    and "\<exists>mp'. bitmap_set_next mp = (mp', Some r) \<and> bm_invar mp' \<and>
      bm_elems mp' = (if bm_elems mp = {..<n_bits mp} then bm_elems mp else insert r (bm_elems mp))"
    and "\<exists>mp'. bitmap_lock_set_next mp = (mp', Some r) \<and> bm_invar mp' \<and>
      bm_elems mp' = (if bm_elems mp = {..<n_bits mp} then bm_elems mp else insert r (bm_elems mp)) \<and>
      mutex mp' = map_option (\<lambda>_. False) (mutex mp)"
proof -
  show "\<exists>mp'. bitmap_get_first mp = (mp', Some r) \<and> bm_invar mp' \<and> bm_elems mp' = bm_elems mp"
    using get_first_value [OF inv] filled_facts [OF inv] by (simp add: r_def)
  show "\<exists>mp'. bitmap_set_next mp = (mp', Some r) \<and> bm_invar mp' \<and>
      bm_elems mp' = (if bm_elems mp = {..<n_bits mp} then bm_elems mp else insert r (bm_elems mp))"
    using set_next_value [OF inv] unfolding r_def by blast
  obtain m' where "bitmap_set_next (bitmap_lock mp) = (m', Some r)" "bm_invar m'"
    "mutex m' = mutex (bitmap_lock mp)"
    "bm_elems m' = (if bm_elems mp = {..<n_bits mp} then bm_elems mp else insert r (bm_elems mp))"
    using set_next_value [of "bitmap_lock mp"] inv unfolding r_def by auto
  then show "\<exists>mp'. bitmap_lock_set_next mp = (mp', Some r) \<and> bm_invar mp' \<and>
      bm_elems mp' = (if bm_elems mp = {..<n_bits mp} then bm_elems mp else insert r (bm_elems mp)) \<and>
      mutex mp' = map_option (\<lambda>_. False) (mutex mp)"
    by (auto simp: bitmap_lock_set_next_def bitmap_lock_def bitmap_unlock_def split: option.splits)
qed

text \<open>
  \<open>bitmap_get_first\<close> returns the least index that is not in the set (\<open>MY_BIT_NONE\<close> when
  there is none) and only touches unused bits; \<open>bitmap_set_next\<close> and its locking variant
  add that index, and the latter releases the mutex.
\<close>

theorem bitmap_set_next_correct:
  assumes inv: "bm_invar mp"
  defines "r \<equiv> least_or_none ({..<n_bits mp} - bm_elems mp)"
  shows "(\<exists>mp'. bitmap_get_first mp = (mp', Some r) \<and> bm_invar mp' \<and> bm_elems mp' = bm_elems mp)
    \<and> (\<exists>mp'. bitmap_set_next mp = (mp', Some r) \<and> bm_invar mp' \<and>
      bm_elems mp' = (if bm_elems mp = {..<n_bits mp} then bm_elems mp else insert r (bm_elems mp)))
    \<and> (\<exists>mp'. bitmap_lock_set_next mp = (mp', Some r) \<and> bm_invar mp' \<and>
      bm_elems mp' = (if bm_elems mp = {..<n_bits mp} then bm_elems mp else insert r (bm_elems mp)) \<and>
      mutex mp' = map_option (\<lambda>_. False) (mutex mp))"
  unfolding r_def using bitmap_set_next_correct_facts [OF assms(1)] by blast

subsection \<open>Common bits of several bitmaps\<close>

lemma bit_and_all: "bit (and_all c ms i) j \<longleftrightarrow> bit c j \<and> (\<forall>m \<in> set ms. bit (bitmap m ! i) j)"
  by (induction c ms i rule: and_all.induct) (auto simp: bit_and_iff)

text \<open>
  Under the documented assumption that one of the bitmaps has no bit outside the range,
  \<open>bitmap_exists_intersection\<close> decides whether all bitmaps share a bit of the range.
\<close>

theorem bitmap_exists_intersection_correct:
  assumes "\<forall>m \<in> set ms. bm_invar m \<and> e < n_bits m" "s \<le> e"
    and "\<exists>m \<in> set ms. bm_elems m \<subseteq> {s..e}"
  shows "bitmap_exists_intersection ms s e \<longleftrightarrow> (\<exists>i \<in> {s..e}. \<forall>m \<in> set ms. i \<in> bm_elems m)"
proof -
  obtain m0 where m0: "m0 \<in> set ms" "bm_elems m0 \<subseteq> {s..e}" using assms(3) by blast
  have e32: "e + 1 \<le> 2 ^ 32 - 8" using assms(1) m0(1) by (auto simp: bm_invar_def)
  define A where "A = (\<lambda>i. \<forall>m \<in> set ms. mem_bit (bitmap m) i)"
  have nz: "and_all (NOT 0) ms w \<noteq> 0 \<longleftrightarrow> (\<exists>j < 32. A (32 * w + j))" for w
    by (auto simp: A_def word_zero_iff32 bit_and_all)
  have lst: "and_all (NOT (last_word_mask e)) ms w \<noteq> 0 \<longleftrightarrow> (\<exists>j < 32. j \<le> e mod 32 \<and> A (32 * w + j))" for w
    by (auto simp: A_def word_zero_iff32 bit_and_all bit_not_iff bit_last_word_mask [OF e32] not_less)
  have "bitmap_exists_intersection ms s e \<longleftrightarrow>
      (\<exists>w j. j < 32 \<and> s div 32 \<le> w \<and> (w < e div 32 \<or> w = e div 32 \<and> j \<le> e mod 32) \<and> A (32 * w + j))"
  proof -
    have d: "n div 8 div 4 = n div 32" for n :: nat by (simp add: div32)
    show ?thesis unfolding bitmap_exists_intersection_def Let_def d nz lst
      using div_le_mono [OF assms(2), of 32] by (auto simp: list_ex_iff Bex_def)
  qed
  also have "\<dots> \<longleftrightarrow> (\<exists>i. s div 32 \<le> i div 32 \<and> i \<le> e \<and> A i)"
  proof (intro iffI; elim exE conjE)
    fix w j assume a: "j < 32" "s div 32 \<le> w" "w < e div 32 \<or> w = e div 32 \<and> j \<le> e mod 32" "A (32 * w + j)"
    then have "32 * w + j \<le> e" by (intro word_index_le) auto
    then show "\<exists>i. s div 32 \<le> i div 32 \<and> i \<le> e \<and> A i" using a by (intro exI [of _ "32 * w + j"]) auto
  next
    fix i assume a: "s div 32 \<le> i div 32" "i \<le> e" "A i"
    have "i div 32 < e div 32 \<or> i div 32 = e div 32 \<and> i mod 32 \<le> e mod 32"
      using a(2) word_lex [of e i] by auto
    then show "\<exists>w j. j < 32 \<and> s div 32 \<le> w \<and> (w < e div 32 \<or> w = e div 32 \<and> j \<le> e mod 32) \<and> A (32 * w + j)"
      using a by (intro exI [of _ "i div 32"] exI [of _ "i mod 32"]) auto
  qed
  also have "\<dots> \<longleftrightarrow> (\<exists>i \<in> {s..e}. \<forall>m \<in> set ms. i \<in> bm_elems m)"
  proof (intro iffI; elim exE conjE bexE)
    fix i assume a: "s div 32 \<le> i div 32" "i \<le> e" "A i"
    then have all: "\<forall>m \<in> set ms. i \<in> bm_elems m" using assms(1) by (auto simp: A_def bm_elems_iff)
    then have "i \<in> {s..e}" using m0 by blast
    with all show "\<exists>i \<in> {s..e}. \<forall>m \<in> set ms. i \<in> bm_elems m" by blast
  next
    fix i assume "i \<in> {s..e}" "\<forall>m \<in> set ms. i \<in> bm_elems m"
    then show "\<exists>i. s div 32 \<le> i div 32 \<and> i \<le> e \<and> A i"
      by (intro exI [of _ i]) (auto simp: A_def bm_elems_iff intro: div_le_mono)
  qed
  finally show ?thesis .
qed

subsection \<open>Counting\<close>

lemma card_words:
  "card {i. i < 32 * k \<and> mem_bit ws i} = (\<Sum>w < k. card {j. j < 32 \<and> bit (ws ! w) j})"
proof (induction k)
  case (Suc k)
  let ?A = "{i. i < 32 * k \<and> mem_bit ws i}" and ?B = "{j. j < 32 \<and> bit (ws ! k) j}"
  have "{i. i < 32 * Suc k \<and> mem_bit ws i} = ?A \<union> (\<lambda>j. 32 * k + j) ` ?B" (is "?L = ?R")
  proof
    show "?L \<subseteq> ?R"
    proof
      fix i assume i: "i \<in> ?L"
      show "i \<in> ?R"
      proof (cases "i < 32 * k")
        case False
        then have "i - 32 * k \<in> ?B" "i = 32 * k + (i - 32 * k)"
          using i mem_bit_word [of "i - 32 * k" ws k] by auto
        then show ?thesis by blast
      qed (use i in auto)
    qed
    show "?R \<subseteq> ?L" by auto
  qed
  moreover have "?A \<inter> (\<lambda>j. 32 * k + j) ` ?B = {}" by auto
  moreover have "card ((\<lambda>j. 32 * k + j) ` ?B) = card ?B" by (rule card_image) (auto simp: inj_on_def)
  ultimately show ?case using Suc by (simp add: card_Un_disjoint)
qed simp

text \<open>\<open>bitmap_bits_set\<close> is the number of elements.\<close>

theorem bitmap_bits_set_correct:
  assumes inv: "bm_invar mp"
  shows "bitmap_bits_set mp = card (bm_elems mp)"
proof -
  define e where "e = last_word_ptr mp"
  define ws where "ws = (bitmap mp)[e := bitmap mp ! e AND NOT (last_word_mask_of mp)]"
  have l: "e < length (bitmap mp)" using bm_invar_words(3) [OF inv] by (simp add: e_def)
  have "bm_elems mp = {i. i < 32 * Suc e \<and> mem_bit ws i}"
  proof -
    have "i \<in> bm_elems mp \<longleftrightarrow> i < 32 * Suc e \<and> mem_bit ws i" for i
    proof -
      have "i < 32 * Suc e \<longleftrightarrow> i div 32 \<le> e" by auto
      then show ?thesis using index_split [OF inv, of i] l
        by (auto simp: bm_elems_iff mem_bit_def ws_def nth_list_update bit_and_iff bit_not_iff simp flip: e_def)
    qed
    then show ?thesis by blast
  qed
  then have c: "card (bm_elems mp) = (\<Sum>w < Suc e. my_count_bits_uint32 (ws ! w))"
    by (simp only: card_words my_count_bits_uint32_correct)
  have "take e (bitmap mp) = take e ws" by (simp add: ws_def)
  then have "sum_list (map my_count_bits_uint32 (take e (bitmap mp))) = (\<Sum>w < e. my_count_bits_uint32 (ws ! w))"
    using l by (simp add: sum_list_sum_nth atLeast0LessThan ws_def)
  moreover have "card (bm_elems mp) \<le> n_bits mp"
    using card_mono [of "{..<n_bits mp}" "bm_elems mp"] by (auto simp: bm_elems_iff subset_iff)
  then have "card (bm_elems mp) < 2 ^ 32" using inv by (auto simp: bm_invar_def)
  ultimately show ?thesis using c l by (simp add: bitmap_bits_set_def ws_def flip: e_def)
qed

section \<open>Concrete bitmaps\<close>

text \<open>Two bitmaps of 40 bits, \<open>{0, 2, 33}\<close> and \<open>{1, 2, 39}\<close>, with different junk in the unused bits.\<close>

definition ex_map1 :: MY_BITMAP where
  "ex_map1 = \<lparr>bitmap = [5, 2], last_word_ptr = 1, mutex = Some False,
     last_word_mask_of = 0xFFFFFF00, n_bits = 40\<rparr>"

definition ex_map2 :: MY_BITMAP where
  "ex_map2 = \<lparr>bitmap = [6, 0xAB000080], last_word_ptr = 1, mutex = None,
     last_word_mask_of = 0xFFFFFF00, n_bits = 40\<rparr>"

lemma ex_mask: "j < 32 \<Longrightarrow> bit (0xFFFFFF00 :: uint32) j \<longleftrightarrow> 7 < j"
proof -
  have "(0xFFFFFF00 :: uint32) = NOT (mask 8)" by (simp add: mask_eq_exp_minus_1)
  then show "j < 32 \<Longrightarrow> bit (0xFFFFFF00 :: uint32) j \<longleftrightarrow> 7 < j"
    by (simp only: bit_not_iff bit_mask_iff) auto
qed

lemma ex_maps: "bm_invar ex_map1" "bm_invar ex_map2" "n_bits ex_map1 = n_bits ex_map2"
  and ex_nbits: "n_bits ex_map1 = 40" "n_bits ex_map2 = 40"
  by (simp_all add: bm_invar_def ex_map1_def ex_map2_def ex_mask)

lemma ex_elems: "bm_elems ex_map1 = {0, 2, 33}" "bm_elems ex_map2 = {1, 2, 39}"
  by code_simp+

theorem bitmap_binary_ops_witness:
  "bm_elems (bitmap_union ex_map1 ex_map2) = {0, 1, 2, 33, 39}
   \<and> bm_elems (bitmap_subtract ex_map1 ex_map2) = {0, 33}"
  proof -
  have "{0, 2, 33} \<union> {1, 2, 39} = {0, 1, 2, 33, 39 :: nat}" "{0, 2, 33} - {1, 2, 39} = {0, 33 :: nat}"
    by auto
  then show ?thesis using bitmap_binary_ops [OF ex_maps] unfolding ex_elems by simp
qed

theorem bitmap_predicates_witness:
  "bitmap_is_overlapping ex_map1 ex_map2 \<and> \<not> bitmap_is_subset ex_map1 ex_map2"
  using bitmap_predicates [OF ex_maps] unfolding ex_elems by simp

theorem bitmap_intersect_witness:
  "bm_elems (bitmap_intersect ex_map1 ex_map2) = {2}"
  using bitmap_intersect_correct [OF ex_maps(1,2)] unfolding ex_elems by simp

theorem bitmap_set_prefix_witness: "bm_elems (bitmap_set_prefix ex_map2 9) = {..<9}"
  using bitmap_set_prefix_correct [OF ex_maps(2), of 9] unfolding ex_nbits by simp

theorem bitmap_is_prefix_witness: "\<not> bitmap_is_prefix ex_map1 3"
proof -
  have "(3::nat) \<le> n_bits ex_map1" by (simp add: ex_nbits)
  moreover have "1 \<notin> {0, 2, 33 :: nat}" "1 \<in> {..<3 :: nat}" by simp_all
  then have "{0, 2, 33} \<noteq> {..<3 :: nat}" by blast
  ultimately show ?thesis
    using bitmap_is_prefix_correct [OF ex_maps(1), of 3] unfolding ex_elems by simp
qed

theorem bitmap_get_first_set_witness: "bitmap_get_first_set ex_map2 = Some 1"
  unfolding bitmap_get_first_set_correct [OF ex_maps(2)] ex_elems by (simp add: least_or_none_def)

theorem bitmap_get_next_set_witness: "bitmap_get_next_set ex_map2 2 = Some 39"
proof -
  have "(2::nat) < 2 ^ 32 - 1" by simp
  from bitmap_get_next_set_correct [OF ex_maps(2) this] have "bitmap_get_next_set ex_map2 2 =
      Some (least_or_none {i \<in> {1, 2, 39}. 2 < i})" by (simp only: ex_elems)
  also have "{i \<in> {1, 2, 39}. 2 < i} = {39 :: nat}" by auto
  finally show ?thesis by (simp add: least_or_none_def)
qed

theorem bitmap_set_next_witness: "snd (bitmap_set_next ex_map1) = Some 1"
proof -
  have l: "least_or_none ({..<40} - {0, 2, 33}) = 1"
    by (rule least_or_noneI) (auto simp: not_less [symmetric])
  from bitmap_set_next_correct [OF ex_maps(1)] show ?thesis
    unfolding ex_elems ex_nbits l by auto
qed

theorem bitmap_test_and_change_witness: "snd (bitmap_test_and_set ex_map1 33)"
proof -
  have "33 < n_bits ex_map1" by (simp add: ex_nbits)
  with bitmap_test_and_change [OF ex_maps(1), of 33] show ?thesis by (auto simp: ex_elems)
qed

theorem bitmap_union_is_set_all_witness:
  "\<not> bitmap_union_is_set_all (bitmap_set_prefix ex_map1 40) ex_map2
   \<and> bm_elems (bitmap_set_prefix ex_map1 40) \<union> bm_elems ex_map2 = {..<40}"
proof -
  let ?m = "bitmap_set_prefix ex_map1 40"
  have i: "bm_invar ?m" "bm_elems ?m = {..<40}"
    using bm_set_prefix [OF ex_maps(1), of 40] by (simp_all add: ex_nbits)
  have n: "n_bits ?m = n_bits ex_map2" by (simp add: bitmap_set_prefix_def Let_def ex_nbits)
  have "bm_elems ?m \<union> bm_elems ex_map2 = {..<40}" by (auto simp: i ex_elems)
  with bitmap_union_is_set_all_inverted [OF i(1) ex_maps(2) n] n show ?thesis by (simp add: ex_nbits)
qed

theorem bitmap_exists_intersection_witness: "bitmap_exists_intersection [ex_map1, ex_map2] 0 39"
proof -
  have h: "\<forall>m \<in> set [ex_map1, ex_map2]. bm_invar m \<and> 39 < n_bits m" "(0::nat) \<le> 39"
    "\<exists>m \<in> set [ex_map1, ex_map2]. bm_elems m \<subseteq> {0..39}"
    using ex_maps by (simp_all add: ex_elems ex_nbits)
  have "\<exists>i \<in> {0..39}. \<forall>m \<in> set [ex_map1, ex_map2]. i \<in> bm_elems m"
    by (intro bexI [of _ 2]) (auto simp: ex_elems)
  with bitmap_exists_intersection_correct [OF h] show ?thesis by simp
qed

theorem my_bitmap_init_witness:
  "\<exists>mp'. my_bitmap_init ex_map1 [] (Some [7, 9]) 40 True = (mp', False) \<and> bm_elems mp' = {}"
proof -
  have "(0::nat) < 40" "(40::nat) \<le> 2 ^ 32 - 32" "length [7, 9 :: uint32] = (40 + 31) div 32" by simp_all
  from my_bitmap_init_correct [OF this] show ?thesis by blast
qed

theorem bitmap_bits_set_witness: "bitmap_bits_set ex_map2 = 3"
  unfolding bitmap_bits_set_correct [OF ex_maps(2)] ex_elems by simp

end
