(* ===== verification/Queues.thy ===== *)
theory Queues
  imports Prelude
begin

text \<open>
  The priority queues of \<open>mysys/queues.c\<close> (used by the timer threads, the multi-range read and
  merge code and the event scheduler): a binary heap of element pointers in an array indexed
  from 1.  Pointers are addresses; the keys are read by the \<open>compare\<close> callback at
  \<open>element + offset_to_key\<close>, and the optional back pointer an element keeps of its heap index
  is a cell of \<open>pos_mem\<close> at \<open>element + offset_to_queue_pos - 1\<close>.  Array accesses out of the
  allocated range have no meaning in the model; the lemmas show that the indices used are
  between 1 and \<open>elements\<close>.
\<close>

section \<open>The model\<close>

subsection \<open>State\<close>

record 'a QUEUE =
  root :: "nat list option"
  first_cmp_arg :: 'a
  elements :: nat
  max_elements :: nat
  offset_to_key :: nat
  offset_to_queue_pos :: nat
  auto_extent :: nat
  max_at_top :: int
  compare :: "'a \<Rightarrow> nat \<Rightarrow> nat \<Rightarrow> int"
  pos_mem :: "nat \<Rightarrow> nat"

definition queue_arr :: "'a QUEUE \<Rightarrow> nat list" where
  "queue_arr q = (case root q of None \<Rightarrow> [] | Some r \<Rightarrow> r)"

definition queue_empty :: "'a QUEUE \<Rightarrow> bool" where
  "queue_empty q = (elements q = 0)"

definition queue_element :: "'a QUEUE \<Rightarrow> nat \<Rightarrow> nat" where
  "queue_element q i = queue_arr q ! i"

definition queue_top :: "'a QUEUE \<Rightarrow> nat" where
  "queue_top q = queue_element q 1"

definition queue_set_max_at_top :: "'a QUEUE \<Rightarrow> bool \<Rightarrow> 'a QUEUE" where
  "queue_set_max_at_top q set_arg = q\<lparr>max_at_top := if set_arg then - 1 else 1\<rparr>"

definition queue_remove_all :: "'a QUEUE \<Rightarrow> 'a QUEUE" where
  "queue_remove_all q = q\<lparr>elements := 0\<rparr>"

text \<open>
  The comparison of two elements with the \<open>max_at_top\<close> sign, and the store of an element's
  index into the element.
\<close>

definition queue_cmp :: "'a QUEUE \<Rightarrow> nat \<Rightarrow> nat \<Rightarrow> int" where
  "queue_cmp q a b =
     compare q (first_cmp_arg q) (a + offset_to_key q) (b + offset_to_key q) * max_at_top q"

definition store_pos :: "nat \<Rightarrow> (nat \<Rightarrow> nat) \<Rightarrow> nat \<Rightarrow> nat \<Rightarrow> nat \<Rightarrow> nat" where
  "store_pos off m e idx = (if off \<noteq> 0 then m(e + off - 1 := idx) else m)"

subsection \<open>Creation and size\<close>

text \<open>\<open>ok\<close> is the outcome of \<open>my_malloc\<close>; \<open>block\<close> the contents of the block it returns.\<close>

definition init_queue :: "'a QUEUE \<Rightarrow> nat \<Rightarrow> nat \<Rightarrow> bool \<Rightarrow> ('a \<Rightarrow> nat \<Rightarrow> nat \<Rightarrow> int) \<Rightarrow> 'a \<Rightarrow>
    nat \<Rightarrow> nat \<Rightarrow> bool \<Rightarrow> nat list \<Rightarrow> 'a QUEUE \<times> nat" where
  "init_queue q max_els off_key max_top cmp arg off_pos extent ok block =
     (if \<not> ok then (q\<lparr>root := None\<rparr>, 1)
      else (queue_set_max_at_top
        (q\<lparr>root := Some (take (u32 (max_els + 1)) block), elements := 0, compare := cmp, first_cmp_arg := arg,
           max_elements := max_els, offset_to_key := off_key, offset_to_queue_pos := off_pos,
           auto_extent := extent\<rparr>) max_top, 0))"

text \<open>
  \<open>my_realloc\<close>: the old contents up to the smaller size; what lies beyond is \<open>block\<close>.
\<close>

definition resize_queue :: "'a QUEUE \<Rightarrow> nat \<Rightarrow> bool \<Rightarrow> nat list \<Rightarrow> 'a QUEUE \<times> nat" where
  "resize_queue q max_els ok block =
     (if max_elements q = max_els then (q, 0)
      else if \<not> ok then (q, 1)
      else
        let new_root = take (u32 (max_els + 1)) (queue_arr q @ block);
            q = q\<lparr>elements := (if max_els < elements q then max_els else elements q)\<rparr>;
            q = q\<lparr>max_elements := max_els\<rparr>
        in (q\<lparr>root := Some new_root\<rparr>, 0))"

definition reinit_queue :: "'a QUEUE \<Rightarrow> nat \<Rightarrow> nat \<Rightarrow> bool \<Rightarrow> ('a \<Rightarrow> nat \<Rightarrow> nat \<Rightarrow> int) \<Rightarrow> 'a \<Rightarrow>
    nat \<Rightarrow> nat \<Rightarrow> bool \<Rightarrow> nat list \<Rightarrow> 'a QUEUE \<times> nat" where
  "reinit_queue q max_els off_key max_top cmp arg off_pos extent ok block =
     resize_queue (queue_set_max_at_top
        (q\<lparr>elements := 0, compare := cmp, first_cmp_arg := arg, offset_to_key := off_key,
           offset_to_queue_pos := off_pos, auto_extent := extent\<rparr>) max_top) max_els ok block"

definition delete_queue :: "'a QUEUE \<Rightarrow> 'a QUEUE" where
  "delete_queue q = q\<lparr>root := None\<rparr>"

subsection \<open>Insertion\<close>

text \<open>
  The loops work on the array, the position cells and the index; they are parameterised over
  the signed comparison \<open>cmp\<close> and \<open>offset_to_queue_pos\<close>.
\<close>

function insert_loop :: "(nat \<Rightarrow> nat \<Rightarrow> int) \<Rightarrow> nat \<Rightarrow> nat \<Rightarrow> nat list \<Rightarrow> (nat \<Rightarrow> nat) \<Rightarrow> nat \<Rightarrow>
    nat list \<times> (nat \<Rightarrow> nat) \<times> nat" where
  "insert_loop cmp off element r m idx =
     (let next_idx = idx div 2 in
      if idx > 1 \<and> cmp element (r ! next_idx) < 0 then
        insert_loop cmp off element (r[idx := r ! next_idx])
          (store_pos off m (r ! next_idx) idx) next_idx
      else (r, m, idx))"
  by pat_completeness auto
termination
  by (relation "measure (\<lambda>(cmp, off, e, r, m, idx). idx)") auto

definition queue_insert :: "'a QUEUE \<Rightarrow> nat \<Rightarrow> 'a QUEUE" where
  "queue_insert q element =
     (let q = q\<lparr>elements := elements q + 1\<rparr>;
          off = offset_to_queue_pos q;
          (r, m, idx) = insert_loop (queue_cmp q) off element (queue_arr q) (pos_mem q) (elements q)
      in q\<lparr>root := Some (r[idx := element]), pos_mem := store_pos off m element idx\<rparr>)"

definition queue_insert_safe :: "'a QUEUE \<Rightarrow> nat \<Rightarrow> bool \<Rightarrow> nat list \<Rightarrow> 'a QUEUE \<times> nat" where
  "queue_insert_safe q element ok block =
     (if elements q = max_elements q then
        if auto_extent q = 0 then (q, 2)
        else
          let (q', rc) = resize_queue q (u32 (max_elements q + auto_extent q)) ok block
          in if rc \<noteq> 0 then (q', 1) else (queue_insert q' element, 0)
      else (queue_insert q element, 0))"

subsection \<open>Moving an element down\<close>

text \<open>
  The first loop of \<open>_downheap\<close> moves smaller children up: \<open>(True, ..)\<close> is its early return.
  Every caller passes an index of at least 1 (the assertions of \<open>queue_remove\<close> and
  \<open>queue_replace\<close>, the loop bound of \<open>queue_fix\<close>); the model stops at index 0, where the
  C loop has no progress.
\<close>

definition smaller_child :: "(nat \<Rightarrow> nat \<Rightarrow> int) \<Rightarrow> nat list \<Rightarrow> nat \<Rightarrow> nat \<Rightarrow> nat" where
  "smaller_child cmp r els idx =
     (let next_index = idx + idx in
      if next_index < els \<and> cmp (r ! next_index) (r ! (next_index + 1)) > 0
      then next_index + 1 else next_index)"

function down_loop :: "(nat \<Rightarrow> nat \<Rightarrow> int) \<Rightarrow> nat \<Rightarrow> nat \<Rightarrow> nat \<Rightarrow> bool \<Rightarrow> nat list \<Rightarrow> (nat \<Rightarrow> nat) \<Rightarrow> nat \<Rightarrow>
    bool \<times> nat list \<times> (nat \<Rightarrow> nat) \<times> nat" where
  "down_loop cmp off els element is_first r m idx =
     (if 0 < idx \<and> idx \<le> els div 2 then
        let next_index = smaller_child cmp r els idx in
        if is_first \<and> cmp (r ! next_index) element \<ge> 0
        then (True, r[idx := element], store_pos off m element idx, idx)
        else down_loop cmp off els element False (r[idx := r ! next_index])
               (store_pos off m (r ! next_index) idx) next_index
      else (False, r, m, idx))"
  by pat_completeness auto
termination
  by (relation "measure (\<lambda>(cmp, off, els, e, b, r, m, idx). Suc els - idx)")
    (auto simp: smaller_child_def Let_def split: if_splits)

function up_loop :: "(nat \<Rightarrow> nat \<Rightarrow> int) \<Rightarrow> nat \<Rightarrow> nat \<Rightarrow> nat \<Rightarrow> nat list \<Rightarrow> (nat \<Rightarrow> nat) \<Rightarrow> nat \<Rightarrow>
    nat list \<times> (nat \<Rightarrow> nat) \<times> nat" where
  "up_loop cmp off start_idx element r m idx =
     (let next_index = idx div 2 in
      if next_index > start_idx \<and> cmp element (r ! next_index) < 0 then
        up_loop cmp off start_idx element (r[idx := r ! next_index])
          (store_pos off m (r ! next_index) idx) next_index
      else (r, m, idx))"
  by pat_completeness auto
termination
  by (relation "measure (\<lambda>(cmp, off, s, e, r, m, idx). idx)") auto

declare insert_loop.simps [simp del] down_loop.simps [simp del] up_loop.simps [simp del]

definition downheap :: "'a QUEUE \<Rightarrow> nat \<Rightarrow> nat \<Rightarrow> 'a QUEUE" where
  "downheap q start_idx element =
     (let off = offset_to_queue_pos q;
          (returned, r, m, idx) = down_loop (queue_cmp q) off (elements q) element True (queue_arr q)
             (pos_mem q) start_idx
      in if returned then q\<lparr>root := Some r, pos_mem := m\<rparr>
         else
           let (r, m, idx) = up_loop (queue_cmp q) off start_idx element r m idx
           in q\<lparr>root := Some (r[idx := element]), pos_mem := store_pos off m element idx\<rparr>)"

subsection \<open>Removal and repair\<close>

definition queue_remove :: "'a QUEUE \<Rightarrow> nat \<Rightarrow> 'a QUEUE \<times> nat" where
  "queue_remove q idx =
     (let element = queue_arr q ! idx;
          last_el = queue_arr q ! elements q;
          q = q\<lparr>elements := elements q - 1\<rparr>
      in (downheap q idx last_el, element))"

definition queue_remove_top :: "'a QUEUE \<Rightarrow> 'a QUEUE \<times> nat" where
  "queue_remove_top q = queue_remove q 1"

definition queue_replace_top :: "'a QUEUE \<Rightarrow> 'a QUEUE" where
  "queue_replace_top q = downheap q 1 (queue_arr q ! 1)"

primrec queue_fix_loop :: "'a QUEUE \<Rightarrow> nat \<Rightarrow> 'a QUEUE" where
  "queue_fix_loop q 0 = q"
| "queue_fix_loop q (Suc i) = queue_fix_loop (downheap q (Suc i) (queue_element q (Suc i))) i"

definition queue_fix :: "'a QUEUE \<Rightarrow> 'a QUEUE" where
  "queue_fix q = queue_fix_loop q (elements q div 2)"

definition queue_replace :: "'a QUEUE \<Rightarrow> nat \<Rightarrow> 'a QUEUE" where
  "queue_replace q idx =
     (let element = queue_arr q ! idx
      in queue_insert (fst (queue_remove q idx)) element)"

section \<open>Heap order with a hole\<close>

text \<open>
  Specification vocabulary: the stored pointers, the heap order below (and including) parents
  of index at least \<open>s\<close>, the heap order of an array whose entry \<open>h\<close> is a hole, and the
  back pointers.
\<close>

definition heap_els :: "nat list \<Rightarrow> nat \<Rightarrow> nat list" where
  "heap_els r n = map ((!) r) [1..<Suc n]"

definition heap_from :: "(nat \<Rightarrow> nat \<Rightarrow> int) \<Rightarrow> nat \<Rightarrow> nat list \<Rightarrow> nat \<Rightarrow> bool" where
  "heap_from cmp s r n \<longleftrightarrow>
     (\<forall>i \<in> {2..n}. s \<le> i div 2 \<longrightarrow> cmp (r ! (i div 2)) (r ! i) \<le> 0)"

definition hole_ok :: "(nat \<Rightarrow> nat \<Rightarrow> int) \<Rightarrow> nat \<Rightarrow> nat list \<Rightarrow> nat \<Rightarrow> nat \<Rightarrow> bool" where
  "hole_ok cmp s r n h \<longleftrightarrow>
     (\<forall>i \<in> {2..n}. s \<le> i div 2 \<longrightarrow> i \<noteq> h \<longrightarrow> i div 2 \<noteq> h \<longrightarrow> cmp (r ! (i div 2)) (r ! i) \<le> 0)
     \<and> (2 \<le> h \<and> s \<le> h div 2 \<longrightarrow> (\<forall>c \<in> {2..n}. c div 2 = h \<longrightarrow> cmp (r ! (h div 2)) (r ! c) \<le> 0))"

definition pos_ok :: "nat \<Rightarrow> nat list \<Rightarrow> (nat \<Rightarrow> nat) \<Rightarrow> nat \<Rightarrow> nat \<Rightarrow> bool" where
  "pos_ok off r m n h \<longleftrightarrow> off \<noteq> 0 \<longrightarrow> (\<forall>i \<in> {1..n}. i \<noteq> h \<longrightarrow> m (r ! i + off - 1) = i)"

lemma heap_els_tl: "n < length r \<Longrightarrow> heap_els r n = tl (take (Suc n) r)"
  by (cases r) (auto intro!: nth_equalityI simp: heap_els_def simp del: upt_Suc)

lemma mset_heap_els: "n < length r \<Longrightarrow> add_mset (r ! 0) (mset (heap_els r n)) = mset (take (Suc n) r)"
  unfolding heap_els_tl by (cases r) auto

lemma distinct_heap_els:
  "distinct (heap_els r n) \<longleftrightarrow> inj_on ((!) r) {1..n}"
  by (simp add: heap_els_def distinct_map atLeastLessThanSuc_atLeastAtMost del: upt_Suc)

text \<open>Moving the entry \<open>j\<close> into the hole \<open>h\<close> makes \<open>j\<close> the hole.\<close>

lemma move_mset:
  assumes "1 \<le> h" "h \<le> n" "1 \<le> j" "j \<le> n" "j \<noteq> h" "n < length r"
  shows "mset (heap_els (r[h := r ! j, j := e]) n) = mset (heap_els (r[h := e]) n)"
proof -
  let ?L = "take (Suc n) (r[h := e])"
  have "take (Suc n) (r[h := r ! j, j := e]) = ?L[j := ?L ! h, h := ?L ! j]"
    using assms by (auto intro!: nth_equalityI simp: nth_list_update)
  moreover have "mset (?L[j := ?L ! h, h := ?L ! j]) = mset ?L"
    by (rule mset_swap) (use assms in auto)
  ultimately have "mset (take (Suc n) (r[h := r ! j, j := e])) = mset ?L" by simp
  then have "add_mset (r ! 0) (mset (heap_els (r[h := r ! j, j := e]) n))
      = add_mset (r ! 0) (mset (heap_els (r[h := e]) n))"
    using assms mset_heap_els [of n "r[h := e]"] mset_heap_els [of n "r[h := r ! j, j := e]"] by simp
  then show ?thesis by simp
qed

lemma move_distinct:
  assumes "1 \<le> h" "h \<le> n" "1 \<le> j" "j \<le> n" "j \<noteq> h" "n < length r"
    "distinct (heap_els (r[h := e]) n)"
  shows "distinct (heap_els (r[h := r ! j, j := e]) n)"
  using mset_eq_imp_distinct_iff [OF move_mset [OF assms(1-6)]] assms(7) by blast

lemma store_pos_other: "x \<noteq> e \<Longrightarrow> off \<noteq> 0 \<Longrightarrow> store_pos off m e i (x + off - Suc 0) = m (x + off - Suc 0)"
  by (auto simp: store_pos_def)

lemma store_pos_same: "off \<noteq> 0 \<Longrightarrow> store_pos off m e i (e + off - Suc 0) = i"
  by (auto simp: store_pos_def)

lemma move_pos:
  assumes "1 \<le> h" "h \<le> n" "1 \<le> j" "j \<le> n" "j \<noteq> h" "n < length r"
    "distinct (heap_els (r[h := e]) n)" "pos_ok off r m n h"
  shows "pos_ok off (r[h := r ! j]) (store_pos off m (r ! j) h) n j"
proof -
  have "r ! i \<noteq> r ! j" if "i \<in> {1..n}" "i \<noteq> h" "i \<noteq> j" for i
    using assms that inj_onD [of "(!) (r[h := e])" "{1..n}" i j] unfolding distinct_heap_els by auto
  then show ?thesis using assms(1,2,5,6,8)
    by (auto simp: pos_ok_def nth_list_update store_pos_other store_pos_same)
qed

lemma fill_pos:
  assumes "1 \<le> h" "h \<le> n" "n < length r" "distinct (heap_els (r[h := e]) n)" "pos_ok off r m n h"
  shows "pos_ok off (r[h := e]) (store_pos off m e h) n 0"
proof -
  have "r ! i \<noteq> e" if "i \<in> {1..n}" "i \<noteq> h" for i
    using assms that inj_onD [of "(!) (r[h := e])" "{1..n}" i h] unfolding distinct_heap_els by auto
  then show ?thesis using assms
    by (auto simp: pos_ok_def nth_list_update store_pos_other store_pos_same)
qed

subsection \<open>Moving up\<close>

lemma insert_loop_up: "insert_loop cmp off e r m idx = up_loop cmp off 0 e r m idx"
proof (induction cmp off e r m idx rule: insert_loop.induct)
  case (1 cmp off e r m idx)
  have "idx > 1 \<longleftrightarrow> idx div 2 > 0" by auto
  with 1 show ?case
    by (simp add: insert_loop.simps [of cmp off e r m idx] up_loop.simps [of cmp off 0 e r m idx] Let_def)
qed

lemma up_loop_frame:
  assumes "up_loop cmp off s e r m idx = (r', m', h)" "s < idx" "idx \<le> n" "n < length r"
  shows "s < h \<and> h \<le> n \<and> length r' = length r
    \<and> mset (heap_els (r'[h := e]) n) = mset (heap_els (r[idx := e]) n)
    \<and> (\<forall>i. i \<le> s \<or> n < i \<longrightarrow> r' ! i = r ! i)
    \<and> (distinct (heap_els (r[idx := e]) n) \<longrightarrow> pos_ok off r m n idx \<longrightarrow> pos_ok off r' m' n h)"
  using assms
proof (induction cmp off s e r m idx rule: up_loop.induct)
  case (1 cmp off s e r m idx)
  let ?p = "idx div 2"
  show ?case
  proof (cases "?p > s \<and> cmp e (r ! ?p) < 0")
    case True
    have p: "1 \<le> idx" "idx \<le> n" "1 \<le> ?p" "?p \<le> n" "?p \<noteq> idx" "n < length r"
      using True 1(3-5) by auto
    have "up_loop cmp off s e (r[idx := r ! ?p]) (store_pos off m (r ! ?p) idx) ?p = (r', m', h)"
      using 1(2) True by (simp add: up_loop.simps [of cmp off s e r m idx] Let_def)
    from 1(1) [OF refl True this] True p
    show ?thesis using move_mset [OF p, of e] move_distinct [OF p, of e] move_pos [OF p, of e off m] 1(3)
      by (auto simp: nth_list_update)
  next
    case False
    then have "r' = r" "m' = m" "h = idx"
      using 1(2) by (auto simp: up_loop.simps [of cmp off s e r m idx] Let_def)
    then show ?thesis using 1(3-5) by auto
  qed
qed

text \<open>The callback contract at element pointers.\<close>

locale element_order = comparator cmp for cmp :: "nat \<Rightarrow> nat \<Rightarrow> int"
begin

lemma hole_step:
  assumes h: "hole_ok cmp s r n h" and "n < length r" "h \<le> n" "s < h div 2"
    and lt: "cmp e (r ! (h div 2)) < 0"
  shows "hole_ok cmp s (r[h := r ! (h div 2)]) n (h div 2)"
    and "c \<in> {2..n} \<Longrightarrow> c div 2 = h div 2 \<Longrightarrow> cmp e (r[h := r ! (h div 2)] ! c) \<le> 0"
proof -
  let ?p = "h div 2"
  have p: "1 \<le> ?p" "2 \<le> h" "?p \<noteq> h" using assms(4) by auto
  have sib: "cmp (r ! ?p) (r ! c) \<le> 0" if "c \<in> {2..n}" "c div 2 = ?p" "c \<noteq> h" for c
    using h that assms(4) p unfolding hole_ok_def by force
  have low: "cmp (r ! ?p) (r ! c) \<le> 0" if "c \<in> {2..n}" "c div 2 = h" for c
    using h that assms(4) p unfolding hole_ok_def by auto
  have up: "cmp (r ! (?p div 2)) (r ! ?p) \<le> 0" if "2 \<le> ?p" "s \<le> ?p div 2"
  proof -
    have "?p \<in> {2..n}" "?p div 2 \<noteq> h" using that assms(3) by auto
    then show ?thesis using h that p unfolding hole_ok_def by blast
  qed
  show "hole_ok cmp s (r[h := r ! ?p]) n ?p"
    unfolding hole_ok_def
  proof (intro conjI ballI impI)
    fix i assume i: "i \<in> {2..n}" "s \<le> i div 2" "i \<noteq> ?p" "i div 2 \<noteq> ?p"
    show "cmp (r[h := r ! ?p] ! (i div 2)) (r[h := r ! ?p] ! i) \<le> 0"
    proof (cases "i div 2 = h")
      case True
      then have "i \<noteq> h" using p by auto
      then show ?thesis using low [OF i(1) True] True assms(2,3) by simp
    next
      case False
      have "i \<noteq> h" using i(4) by auto
      then show ?thesis using False h i unfolding hole_ok_def by simp
    qed
  next
    fix c assume c: "2 \<le> ?p \<and> s \<le> ?p div 2" "c \<in> {2..n}" "c div 2 = ?p"
    have ne: "?p div 2 \<noteq> h" using p by auto
    show "cmp (r[h := r ! ?p] ! (?p div 2)) (r[h := r ! ?p] ! c) \<le> 0"
    proof (cases "c = h")
      case True
      then show ?thesis using up c(1) ne assms(2,3) by simp
    next
      case False
      then show ?thesis using cmp_trans [OF up sib [OF c(2,3)]] c(1) ne by simp
    qed
  qed
  assume c: "c \<in> {2..n}" "c div 2 = ?p"
  show "cmp e (r[h := r ! ?p] ! c) \<le> 0"
    using cmp_trans [of e "r ! ?p" "r ! c"] sib [OF c] lt assms(2,3) by (cases "c = h") auto
qed

lemma up_loop_heap:
  assumes "up_loop cmp off s e r m idx = (r', m', h)" "s < idx" "idx \<le> n" "n < length r"
    "hole_ok cmp s r n idx" "\<forall>c \<in> {2..n}. c div 2 = idx \<longrightarrow> cmp e (r ! c) \<le> 0"
    "s \<noteq> 0 \<Longrightarrow> cmp (r ! s) e \<le> 0"
  shows "heap_from cmp s (r'[h := e]) n"
  using assms
proof (induction idx arbitrary: r m rule: less_induct)
  case (less idx)
  let ?p = "idx div 2"
  note ul = up_loop.simps [of cmp off s e r m idx]
  show ?case
  proof (cases "?p > s \<and> cmp e (r ! ?p) < 0")
    case True
    have "up_loop cmp off s e (r[idx := r ! ?p]) (store_pos off m (r ! ?p) idx) ?p = (r', m', h)"
      using less.prems(1) True by (simp add: ul Let_def)
    note IH = less.IH [OF _ this]
    show ?thesis
      by (rule IH) (use True less.prems hole_step [OF less.prems(5,4,3)] in auto)
  next
    case False
    then have eq: "r' = r" "h = idx" using less.prems(1) by (auto simp: ul Let_def)
    have pe: "cmp (r ! ?p) e \<le> 0" if "2 \<le> idx" "s \<le> ?p"
      using False less.prems(7) that cmp_anti [of e "r ! ?p"] by (cases "?p = s") auto
    show ?thesis unfolding heap_from_def eq
    proof (intro ballI impI)
      fix i assume i: "i \<in> {2..n}" "s \<le> i div 2"
      then consider "i = idx" | "i div 2 = idx" "i \<noteq> idx" | "i \<noteq> idx" "i div 2 \<noteq> idx" by blast
      then show "cmp (r[idx := e] ! (i div 2)) (r[idx := e] ! i) \<le> 0"
      proof cases
        case 1
        then show ?thesis using pe i less.prems(3,4) by auto
      next
        case 2
        then show ?thesis using less.prems(3,4,6) i by simp
      next
        case 3
        then show ?thesis using less.prems(5) i unfolding hole_ok_def by simp
      qed
    qed
  qed
qed

end
subsection \<open>Moving down\<close>

text \<open>The index \<open>i\<close> lies in the subtree of \<open>s\<close>; only that subtree is changed.\<close>

function below :: "nat \<Rightarrow> nat \<Rightarrow> bool" where
  "below s i = (if s < i then below s (i div 2) else i = s)"
  by pat_completeness auto
termination
  by (relation "measure snd") auto

declare below.simps [simp del]

lemma below_refl [simp]: "below s s"
  by (subst below.simps) simp

lemma below_le: "below s i \<Longrightarrow> s \<le> i"
  by (subst (asm) below.simps) (auto split: if_splits)

lemma below_parent: "below s i \<Longrightarrow> i \<noteq> s \<Longrightarrow> below s (i div 2)"
  by (subst (asm) below.simps) (auto split: if_splits)

lemma below_child: "below s h \<Longrightarrow> 1 \<le> h \<Longrightarrow> c div 2 = h \<Longrightarrow> below s c"
  using below_le [of s h] by (subst below.simps) auto

lemma smaller_child_range:
  assumes "1 \<le> idx" "idx \<le> n div 2"
  shows "smaller_child cmp r n idx \<in> {2..n}" "smaller_child cmp r n idx div 2 = idx"
    "idx < smaller_child cmp r n idx"
  using assms by (auto simp: smaller_child_def Let_def)

lemma up_loop_below:
  assumes "up_loop cmp off s e r m idx = (r', m', h)" "below s idx" "s < idx"
  shows "below s h \<and> (\<forall>i. \<not> below s i \<longrightarrow> r' ! i = r ! i)"
  using assms
proof (induction cmp off s e r m idx rule: up_loop.induct)
  case (1 cmp off s e r m idx)
  note ul = up_loop.simps [of cmp off s e r m idx]
  show ?case
  proof (cases "idx div 2 > s \<and> cmp e (r ! (idx div 2)) < 0")
    case True
    moreover have "r[idx := r ! (idx div 2)] ! i = r ! i" if "\<not> below s i" for i
      using that 1(3) by (metis nth_list_update_neq)
    ultimately show ?thesis using 1(1) [OF refl True] 1(2-4) below_parent [OF 1(3)]
      by (auto simp: ul Let_def)
  next
    case False
    then show ?thesis using 1(2-4) by (auto simp: ul Let_def)
  qed
qed

lemma down_loop_frame:
  assumes "down_loop cmp off n e False r m idx = (b, r', m', h)" "1 \<le> idx" "idx \<le> n" "n < length r"
    "below s idx"
  shows "\<not> b \<and> idx \<le> h \<and> h \<le> n \<and> n < 2 * h \<and> below s h \<and> length r' = length r
    \<and> mset (heap_els (r'[h := e]) n) = mset (heap_els (r[idx := e]) n)
    \<and> (\<forall>i. \<not> below s i \<or> i < idx \<or> n < i \<longrightarrow> r' ! i = r ! i)
    \<and> (distinct (heap_els (r[idx := e]) n) \<longrightarrow> pos_ok off r m n idx \<longrightarrow> pos_ok off r' m' n h)"
  using assms
proof (induction cmp off n e False r m idx rule: down_loop.induct)
  case (1 cmp off n e r m idx)
  let ?c = "smaller_child cmp r n idx"
  note dl = down_loop.simps [of cmp off n e False r m idx]
  show ?case
  proof (cases "idx \<le> n div 2")
    case True
    note c = smaller_child_range [OF 1(3) True, of cmp r]
    have p: "1 \<le> idx" "idx \<le> n" "1 \<le> ?c" "?c \<le> n" "?c \<noteq> idx" "n < length r"
      using c 1(3-5) by auto
    have "down_loop cmp off n e False (r[idx := r ! ?c]) (store_pos off m (r ! ?c) idx) ?c = (b, r', m', h)"
      using 1(2,3) True by (simp add: dl Let_def)
    from 1(1) [OF _ refl _ this] True p below_child [OF 1(6) p(1) c(2)]
    show ?thesis using move_mset [OF p, of e] move_distinct [OF p, of e] move_pos [OF p, of e off m] c(3) 1(6)
      by (auto simp: nth_list_update)
  next
    case False
    then show ?thesis using 1(2-6) by (auto simp: dl)
  qed
qed

context element_order
begin

lemma smaller_child_least:
  assumes "1 \<le> idx" "idx \<le> n div 2" "i \<in> {2..n}" "i div 2 = idx"
  shows "cmp (r ! smaller_child cmp r n idx) (r ! i) \<le> 0"
proof -
  have "i = 2 * idx \<or> i = 2 * idx + 1" using assms(4) by auto
  then show ?thesis using assms(3) cmp_anti [of "r ! Suc (2 * idx)" "r ! (2 * idx)"]
    by (auto simp: smaller_child_def Let_def mult_2)
qed

lemma heap_from_move_up:
  assumes "heap_from cmp s r n" "s < idx" "1 \<le> idx" "idx \<le> n div 2" "n < length r"
  shows "heap_from cmp s (r[idx := r ! smaller_child cmp r n idx]) n"
  unfolding heap_from_def
proof (intro ballI impI)
  let ?c = "smaller_child cmp r n idx"
  note c = smaller_child_range [OF assms(3,4), of cmp r]
  fix i assume i: "i \<in> {2..n}" "s \<le> i div 2"
  consider "i = idx" | "i div 2 = idx" "i \<noteq> idx" | "i \<noteq> idx" "i div 2 \<noteq> idx" by blast
  then show "cmp (r[idx := r ! ?c] ! (i div 2)) (r[idx := r ! ?c] ! i) \<le> 0"
  proof cases
    case 1
    have "cmp (r ! (idx div 2)) (r ! idx) \<le> 0" "cmp (r ! idx) (r ! ?c) \<le> 0"
      using bspec [OF assms(1) [unfolded heap_from_def] i(1)] assms(2) i 1
        bspec [OF assms(1) [unfolded heap_from_def] c(1)] c(2) by simp_all
    then show ?thesis using 1 cmp_trans assms(3,4,5) by auto
  next
    case 2
    then show ?thesis using smaller_child_least [OF assms(3,4) i(1), of r] assms(4,5) by simp
  next
    case 3
    then show ?thesis using assms(1) i by (simp add: heap_from_def)
  qed
qed

lemma down_loop_heap:
  assumes "down_loop cmp off n e False r m idx = (b, r', m', h)" "s < idx" "1 \<le> idx" "n < length r"
    "heap_from cmp s r n"
  shows "heap_from cmp s r' n"
  using assms
proof (induction "Suc n - idx" arbitrary: r m idx rule: less_induct)
  case less
  let ?c = "smaller_child cmp r n idx"
  note dl = down_loop.simps [of cmp off n e False r m idx]
  show ?case
  proof (cases "idx \<le> n div 2")
    case True
    note c = smaller_child_range [OF less(4) True, of cmp r]
    have "down_loop cmp off n e False (r[idx := r ! ?c]) (store_pos off m (r ! ?c) idx) ?c = (b, r', m', h)"
      using less(2,4) True by (simp add: dl Let_def)
    from less(1) [OF _ this] show ?thesis
      using heap_from_move_up [OF less(6,3,4) True less(5)] c less(3,5) True by auto
  next
    case False
    then show ?thesis using less(2,6) by (auto simp: dl)
  qed
qed

end

section \<open>The queue\<close>

definition queue_wf :: "'a QUEUE \<Rightarrow> bool" where
  "queue_wf q \<longleftrightarrow> (\<exists>r. root q = Some r \<and> length r = max_elements q + 1)
     \<and> elements q \<le> max_elements q \<and> max_elements q + 1 < 2 ^ 32
     \<and> max_at_top q \<in> {1, - 1}"

definition queue_mset :: "'a QUEUE \<Rightarrow> nat multiset" where
  "queue_mset q = mset (heap_els (queue_arr q) (elements q))"

definition queue_heap :: "'a QUEUE \<Rightarrow> bool" where
  "queue_heap q = heap_from (queue_cmp q) 1 (queue_arr q) (elements q)"

definition queue_invar :: "'a QUEUE \<Rightarrow> bool" where
  "queue_invar q \<longleftrightarrow> queue_wf q \<and> comparator (queue_cmp q) \<and> queue_heap q"

text \<open>The elements are distinct objects and each knows its index.\<close>

definition queue_pos_ok :: "'a QUEUE \<Rightarrow> bool" where
  "queue_pos_ok q \<longleftrightarrow> distinct (heap_els (queue_arr q) (elements q))
     \<and> pos_ok (offset_to_queue_pos q) (queue_arr q) (pos_mem q) (elements q) 0"

lemma queue_cmp_frame [simp]:
  "queue_cmp (q\<lparr>root := x\<rparr>) = queue_cmp q" "queue_cmp (q\<lparr>pos_mem := m\<rparr>) = queue_cmp q"
  "queue_cmp (q\<lparr>elements := k\<rparr>) = queue_cmp q" "queue_cmp (q\<lparr>max_elements := k\<rparr>) = queue_cmp q"
  by (simp_all add: queue_cmp_def fun_eq_iff)

lemma queue_arr_frame [simp]:
  "queue_arr (q\<lparr>root := Some r\<rparr>) = r" "queue_arr (q\<lparr>pos_mem := m\<rparr>) = queue_arr q"
  "queue_arr (q\<lparr>elements := k\<rparr>) = queue_arr q" "queue_arr (q\<lparr>max_elements := k\<rparr>) = queue_arr q"
  by (simp_all add: queue_arr_def)

lemma queue_wf_arr: "queue_wf q \<Longrightarrow> length (queue_arr q) = max_elements q + 1"
  by (auto simp: queue_wf_def queue_arr_def)

text \<open>\<open>max_at_top\<close> reverses the callback's order; both directions meet the contract.\<close>

lemma queue_cmp_comparator:
  assumes "comparator (compare q (first_cmp_arg q))" "max_at_top q \<in> {1, - 1}"
  shows "comparator (queue_cmp q)"
proof
  fix a b c
  note anti = comparator.cmp_anti [OF assms(1)] and trans = comparator.cmp_trans [OF assms(1)]
  show "queue_cmp q a b < 0 \<longleftrightarrow> 0 < queue_cmp q b a"
    using assms(2) anti [of "a + offset_to_key q" "b + offset_to_key q"]
      anti [of "b + offset_to_key q" "a + offset_to_key q"] by (auto simp: queue_cmp_def)
  assume ab: "queue_cmp q a b \<le> 0" "queue_cmp q b c \<le> 0"
  let ?a = "a + offset_to_key q" and ?b = "b + offset_to_key q" and ?c = "c + offset_to_key q"
  let ?cmp = "compare q (first_cmp_arg q)"
  have le: "0 \<le> ?cmp x y \<longleftrightarrow> ?cmp y x \<le> 0" for x y using anti [of x y] by linarith
  show "queue_cmp q a c \<le> 0"
    using assms(2) ab trans [of ?a ?b ?c] trans [of ?c ?b ?a]
    by (auto simp: queue_cmp_def le)
qed

lemma element_order_iff: "element_order cmp \<longleftrightarrow> comparator cmp"
  by (simp add: element_order_def)

lemma heap_els_Suc: "heap_els r (Suc n) = heap_els r n @ [r ! Suc n]"
  by (simp add: heap_els_def)

lemma heap_els_cong: "(\<And>i. 1 \<le> i \<Longrightarrow> i \<le> n \<Longrightarrow> r ! i = r' ! i) \<Longrightarrow> heap_els r n = heap_els r' n"
  by (simp add: heap_els_def del: upt_Suc)

lemma heap_from_0: "heap_from cmp 0 r n = heap_from cmp 1 r n"
  by (auto simp: heap_from_def)

lemma insert_shape:
  assumes wf: "queue_wf q" and n: "elements q < max_elements q"
  obtains r m where "queue_insert q e = q\<lparr>elements := elements q + 1, root := Some r, pos_mem := m\<rparr>"
    "length r = max_elements q + 1"
    "mset (heap_els r (elements q + 1)) = add_mset e (queue_mset q)"
    "comparator (queue_cmp q) \<Longrightarrow> queue_heap q \<Longrightarrow> heap_from (queue_cmp q) 1 r (elements q + 1)"
    "queue_pos_ok q \<Longrightarrow> e \<notin># queue_mset q \<Longrightarrow> pos_ok (offset_to_queue_pos q) r m (elements q + 1) 0"
proof -
  let ?r = "queue_arr q" and ?n = "elements q + 1" and ?off = "offset_to_queue_pos q"
  obtain r m h where u: "up_loop (queue_cmp q) ?off 0 e ?r (pos_mem q) ?n = (r, m, h)"
    by (metis prod_cases3)
  have len: "?n < length ?r" using wf n by (simp add: queue_wf_arr)
  note fr = up_loop_frame [OF u _ order.refl len]
  have ms: "mset (heap_els (?r[?n := e]) ?n) = add_mset e (queue_mset q)"
    using len heap_els_cong [of "elements q" "?r[?n := e]" ?r] by (simp add: heap_els_Suc queue_mset_def)
  have hp: "heap_from (queue_cmp q) 1 (r[h := e]) ?n"
    if "comparator (queue_cmp q)" "queue_heap q"
  proof -
    have "hole_ok (queue_cmp q) 0 ?r ?n ?n" using that(2)
      by (auto simp: hole_ok_def queue_heap_def heap_from_def)
    then have "heap_from (queue_cmp q) 0 (r[h := e]) ?n"
      by (intro element_order.up_loop_heap [OF _ u _ order.refl len])
        (auto simp: element_order_iff that)
    then show ?thesis by (simp only: heap_from_0)
  qed
  have ps: "pos_ok ?off (r[h := e]) (store_pos ?off m e h) ?n 0"
    if "queue_pos_ok q" "e \<notin># queue_mset q"
  proof -
    have d: "distinct (heap_els (?r[?n := e]) ?n)"
      using that len heap_els_cong [of "elements q" "?r[?n := e]" ?r]
      by (simp add: heap_els_Suc queue_mset_def queue_pos_ok_def)
    moreover have "pos_ok ?off ?r (pos_mem q) ?n ?n"
      using that(1) by (auto simp: queue_pos_ok_def pos_ok_def)
    moreover have "distinct (heap_els (r[h := e]) ?n)"
      using d fr mset_eq_imp_distinct_iff by (metis Suc_eq_plus1 zero_less_Suc)
    ultimately show ?thesis using fr fill_pos [of h ?n r e ?off m] len by auto
  qed
  have "queue_insert q e = q\<lparr>elements := ?n, root := Some (r[h := e]), pos_mem := store_pos ?off m e h\<rparr>"
    using u by (simp add: queue_insert_def insert_loop_up Let_def)
  from that [OF this _ _ hp ps] show thesis
    using fr len wf ms by (simp add: queue_wf_arr)
qed


lemma heap_from_leaf:
  assumes "heap_from cmp s r n" "n < 2 * h"
  shows "hole_ok cmp s r n h" "\<forall>c \<in> {2..n}. c div 2 = h \<longrightarrow> P c"
  using assms by (auto simp: heap_from_def hole_ok_def)

text \<open>
  The case in which the first comparison already finds the element in place, or \<open>start_idx\<close>
  is a leaf; and the case in which the hole sinks to a leaf and the element moves up again.
\<close>

lemma downheap_stays:
  assumes "1 \<le> s"
    "s \<le> elements q div 2 \<Longrightarrow>
      0 \<le> queue_cmp q (queue_arr q ! smaller_child (queue_cmp q) (queue_arr q) (elements q) s) e"
  shows "downheap q s e = q\<lparr>root := Some ((queue_arr q)[s := e]),
    pos_mem := store_pos (offset_to_queue_pos q) (pos_mem q) e s\<rparr>"
  using assms
  by (auto simp: downheap_def down_loop.simps [of _ _ _ _ True] up_loop.simps [of _ _ s _ _ _ s] Let_def)

lemma downheap_sinks:
  assumes "1 \<le> s" "s \<le> elements q div 2"
    and c: "c = smaller_child (queue_cmp q) (queue_arr q) (elements q) s"
    and "queue_cmp q (queue_arr q ! c) e < 0"
    and n: "elements q < length (queue_arr q)" "n = elements q"
  obtains r1 m1 h1 r2 m2 h2 where
    "down_loop (queue_cmp q) (offset_to_queue_pos q) n e False ((queue_arr q)[s := queue_arr q ! c])
       (store_pos (offset_to_queue_pos q) (pos_mem q) (queue_arr q ! c) s) c = (False, r1, m1, h1)"
    "up_loop (queue_cmp q) (offset_to_queue_pos q) s e r1 m1 h1 = (r2, m2, h2)"
    "downheap q s e = q\<lparr>root := Some (r2[h2 := e]),
       pos_mem := store_pos (offset_to_queue_pos q) m2 e h2\<rparr>"
proof -
  note cr = smaller_child_range [OF assms(1,2), of "queue_cmp q" "queue_arr q", folded c]
  obtain b r1 m1 h1 where d: "down_loop (queue_cmp q) (offset_to_queue_pos q) n e False
      ((queue_arr q)[s := queue_arr q ! c])
      (store_pos (offset_to_queue_pos q) (pos_mem q) (queue_arr q ! c) s) c = (b, r1, m1, h1)"
    by (metis prod_cases4)
  have nb: "\<not> b" using down_loop_frame [OF d, of c] cr n by auto
  obtain r2 m2 h2 where u: "up_loop (queue_cmp q) (offset_to_queue_pos q) s e r1 m1 h1 = (r2, m2, h2)"
    by (metis prod_cases3)
  have "downheap q s e = q\<lparr>root := Some (r2[h2 := e]),
       pos_mem := store_pos (offset_to_queue_pos q) m2 e h2\<rparr>"
    using assms(1,2,4) d u nb
    by (simp add: downheap_def down_loop.simps [of _ _ _ _ True] n(2) [symmetric]
        c [symmetric, folded n(2)] Let_def)
  from that [OF _ u this] d nb show thesis by simp
qed


text \<open>What \<open>_downheap\<close> does to the array, in either case.\<close>

definition sifted :: "'a QUEUE \<Rightarrow> nat \<Rightarrow> nat \<Rightarrow> nat list \<Rightarrow> (nat \<Rightarrow> nat) \<Rightarrow> bool" where
  "sifted q s e r' m' \<longleftrightarrow>
     length r' = length (queue_arr q)
     \<and> mset (heap_els r' (elements q)) = mset (heap_els ((queue_arr q)[s := e]) (elements q))
     \<and> (\<forall>i. \<not> below s i \<longrightarrow> r' ! i = queue_arr q ! i)
     \<and> (r' ! s = e \<or> (\<exists>c \<in> {2..elements q}. c div 2 = s \<and> r' ! s = queue_arr q ! c))
     \<and> (comparator (queue_cmp q) \<longrightarrow> heap_from (queue_cmp q) (Suc s) (queue_arr q) (elements q) \<longrightarrow>
          heap_from (queue_cmp q) s r' (elements q))
     \<and> (distinct (heap_els ((queue_arr q)[s := e]) (elements q)) \<longrightarrow>
        pos_ok (offset_to_queue_pos q) (queue_arr q) (pos_mem q) (elements q) s \<longrightarrow>
          pos_ok (offset_to_queue_pos q) r' m' (elements q) 0)"

lemma sifted_stays:
  assumes s: "1 \<le> s" "s \<le> elements q" and n: "elements q < length (queue_arr q)"
    and le: "s \<le> elements q div 2 \<Longrightarrow>
      0 \<le> queue_cmp q (queue_arr q ! smaller_child (queue_cmp q) (queue_arr q) (elements q) s) e"
  shows "sifted q s e ((queue_arr q)[s := e]) (store_pos (offset_to_queue_pos q) (pos_mem q) e s)"
proof -
  let ?r = "queue_arr q" and ?n = "elements q" and ?cmp = "queue_cmp q"
  have "heap_from ?cmp s (?r[s := e]) ?n" if c: "comparator ?cmp" and h: "heap_from ?cmp (Suc s) ?r ?n"
    unfolding heap_from_def
  proof (intro ballI impI)
    fix i assume i: "i \<in> {2..?n}" "s \<le> i div 2"
    show "?cmp (?r[s := e] ! (i div 2)) (?r[s := e] ! i) \<le> 0"
    proof (cases "i div 2 = s")
      case True
      let ?c = "smaller_child ?cmp ?r ?n s"
      have s2: "s \<le> ?n div 2" "i \<noteq> s" using True i s by auto
      have "?cmp (?r ! ?c) (?r ! i) \<le> 0"
        using element_order.smaller_child_least [OF _ s(1) s2(1) i(1) True] c
        by (simp add: element_order_iff)
      then have "?cmp e (?r ! i) \<le> 0"
        using le [OF s2(1)] comparator.cmp_trans [OF c] comparator.cmp_anti [OF c, of "?r ! ?c" e]
        by (meson linorder_not_le)
      then show ?thesis using True s s2 n by simp
    next
      case False
      then show ?thesis using i h s by (auto simp: heap_from_def)
    qed
  qed
  moreover have "?r[s := e] ! i = ?r ! i" if "\<not> below s i" for i
    using that by (metis below_refl nth_list_update_neq)
  ultimately show ?thesis using s n fill_pos [OF s n, of e "offset_to_queue_pos q"]
    by (simp add: sifted_def)
qed


lemma heap_from_fill_least:
  assumes "element_order cmp" "heap_from cmp (Suc s) r n" "1 \<le> s" "s \<le> n div 2" "n < length r"
  shows "heap_from cmp s (r[s := r ! smaller_child cmp r n s]) n"
  unfolding heap_from_def
proof (intro ballI impI)
  fix i assume i: "i \<in> {2..n}" "s \<le> i div 2"
  show "cmp (r[s := r ! smaller_child cmp r n s] ! (i div 2))
      (r[s := r ! smaller_child cmp r n s] ! i) \<le> 0"
    using element_order.smaller_child_least [OF assms(1,3,4) i(1), of r] assms(2-5) i
    by (cases "i div 2 = s") (auto simp: heap_from_def)
qed

lemma sifted_sinks:
  assumes s: "1 \<le> s" "s \<le> elements q div 2" and n: "elements q < length (queue_arr q)"
    and c: "c = smaller_child (queue_cmp q) (queue_arr q) (elements q) s"
    and lt: "queue_cmp q (queue_arr q ! c) e < 0"
    and d: "down_loop (queue_cmp q) (offset_to_queue_pos q) (elements q) e False
      ((queue_arr q)[s := queue_arr q ! c])
      (store_pos (offset_to_queue_pos q) (pos_mem q) (queue_arr q ! c) s) c = (False, r1, m1, h1)"
    and u: "up_loop (queue_cmp q) (offset_to_queue_pos q) s e r1 m1 h1 = (r2, m2, h2)"
  shows "sifted q s e (r2[h2 := e]) (store_pos (offset_to_queue_pos q) m2 e h2)"
proof -
  let ?r = "queue_arr q" and ?n = "elements q" and ?cmp = "queue_cmp q" and ?off = "offset_to_queue_pos q"
  note cr = smaller_child_range [OF s, of ?cmp ?r, folded c]
  have mv: "1 \<le> s" "s \<le> ?n" "1 \<le> c" "c \<le> ?n" "c \<noteq> s" "?n < length ?r" using cr s n by auto
  have bc: "below s c" using below_child [OF below_refl s(1) cr(2)] .
  note D = down_loop_frame [OF d mv(3,4) _ bc, simplified, OF n]
  have h1: "s < h1" "h1 \<le> ?n" "?n < length r1" using D cr(3) n by auto
  note U = up_loop_frame [OF u h1]
  note B = up_loop_below [OF u _ h1(1)]
  have ms: "mset (heap_els (r2[h2 := e]) ?n) = mset (heap_els (?r[s := e]) ?n)"
    using U D move_mset [OF mv, of e] by simp
  have r2s: "r2 ! s = ?r ! c" using U D cr(3) mv by auto
  have fr: "r2[h2 := e] ! i = ?r ! i" if "\<not> below s i" for i
    using that B D by (metis below_refl nth_list_update_neq)
  have hp: "heap_from ?cmp s (r2[h2 := e]) ?n"
    if "comparator ?cmp" "heap_from ?cmp (Suc s) ?r ?n"
  proof -
    have eo: "element_order ?cmp" using that(1) by (simp add: element_order_iff)
    have "heap_from ?cmp s (?r[s := ?r ! c]) ?n"
      using heap_from_fill_least [OF eo that(2) s n] by (simp only: c)
    then have "heap_from ?cmp s r1 ?n"
      by (rule element_order.down_loop_heap [OF eo d cr(3) mv(3), rotated]) (use n in simp)
    moreover have "r1 ! s = ?r ! c" using D cr(3) mv by auto
    ultimately show ?thesis
      using element_order.up_loop_heap [OF eo u h1 heap_from_leaf] D lt by auto
  qed
  have ps: "pos_ok ?off (r2[h2 := e]) (store_pos ?off m2 e h2) ?n 0"
    if di: "distinct (heap_els (?r[s := e]) ?n)" and "pos_ok ?off ?r (pos_mem q) ?n s"
  proof -
    have "pos_ok ?off r1 m1 ?n h1" "distinct (heap_els (r1[h1 := e]) ?n)"
      using D move_pos [OF mv that] move_distinct [OF mv di] mset_eq_imp_distinct_iff by blast+
    then have "pos_ok ?off r2 m2 ?n h2" "distinct (heap_els (r2[h2 := e]) ?n)"
      using U mset_eq_imp_distinct_iff by blast+
    then show ?thesis using fill_pos [of h2 ?n r2 e ?off m2] U n D s by auto
  qed
  have "s \<noteq> h2" using U by blast
  then have "\<exists>c \<in> {2..?n}. c div 2 = s \<and> r2[h2 := e] ! s = ?r ! c"
    using r2s cr by (intro bexI [of _ c]) simp_all
  moreover have "length (r2[h2 := e]) = length ?r" using U D by simp
  ultimately show ?thesis unfolding sifted_def using ms fr hp ps by blast
qed

lemma downheap_shape:
  assumes "1 \<le> s" "s \<le> elements q" "elements q < length (queue_arr q)"
  obtains r m where "downheap q s e = q\<lparr>root := Some r, pos_mem := m\<rparr>" "sifted q s e r m"
proof (cases "s \<le> elements q div 2 \<and>
    queue_cmp q (queue_arr q ! smaller_child (queue_cmp q) (queue_arr q) (elements q) s) e < 0")
  case True
  then show thesis
    using downheap_sinks [OF assms(1) _ refl _ assms(3) refl]
      sifted_sinks [OF assms(1) _ assms(3) refl] that by metis
next
  case False
  then show thesis
    using downheap_stays [OF assms(1)] sifted_stays [OF assms] that by (metis not_le)
qed


subsection \<open>Removal\<close>

lemma heap_els_update:
  "1 \<le> s \<Longrightarrow> s \<le> n \<Longrightarrow> n < length r \<Longrightarrow> heap_els (r[s := e]) n = (heap_els r n)[s - 1 := e]"
  by (rule nth_equalityI) (auto simp: heap_els_def nth_list_update simp del: upt_Suc)

lemma mset_heap_els_update:
  assumes "1 \<le> s" "s \<le> n" "n < length r"
  shows "mset (heap_els (r[s := e]) n) = add_mset e (mset (heap_els r n)) - {#r ! s#}"
proof -
  have k: "s - 1 < length (heap_els r n)" "heap_els r n ! (s - 1) = r ! s"
    using assms by (simp_all add: heap_els_def del: upt_Suc)
  then have "r ! s \<in># mset (heap_els r n)" by (metis nth_mem set_mset_mset)
  then show ?thesis using k assms by (simp add: heap_els_update mset_update)
qed

text \<open>
  The heap order after \<open>_downheap\<close> at \<open>s\<close>, when the entry at \<open>s\<close> was a hole and the element
  stored there is not smaller than its parent.
\<close>

lemma sifted_heap:
  assumes sf: "sifted q s e r m" and cmp: "comparator (queue_cmp q)"
    and hole: "hole_ok (queue_cmp q) 1 (queue_arr q) (elements q) s"
    and par: "s = 1 \<or> queue_cmp q (queue_arr q ! (s div 2)) e \<le> 0" and s: "1 \<le> s"
  shows "heap_from (queue_cmp q) 1 r (elements q)"
  unfolding heap_from_def
proof (intro ballI impI)
  let ?r = "queue_arr q" and ?n = "elements q" and ?cmp = "queue_cmp q"
  fix i assume i: "i \<in> {2..?n}"
  have "heap_from ?cmp (Suc s) ?r ?n" using hole s by (auto simp: heap_from_def hole_ok_def)
  with sf cmp have h: "heap_from ?cmp s r ?n" by (simp add: sifted_def)
  have fr: "r ! j = ?r ! j" if "\<not> below s j" for j using sf that by (simp add: sifted_def)
  consider "s \<le> i div 2" | "i = s" | "i div 2 < s" "i \<noteq> s" by linarith
  then show "?cmp (r ! (i div 2)) (r ! i) \<le> 0"
  proof cases
    case 1
    then show ?thesis using h i by (simp add: heap_from_def)
  next
    case 2
    have "\<not> below s (s div 2)" using below_le [of s "s div 2"] s by auto
    moreover have "?cmp (?r ! (s div 2)) (?r ! c) \<le> 0" if "c \<in> {2..?n}" "c div 2 = s" for c
      using hole that 2 i by (auto simp: hole_ok_def)
    ultimately show ?thesis using sf par 2 i fr [of "s div 2"] by (auto simp: sifted_def)
  next
    case 3
    then have "\<not> below s i" "\<not> below s (i div 2)"
      using below_parent [of s i] below_le [of s "i div 2"] by auto
    then show ?thesis using fr hole i 3 by (auto simp: hole_ok_def)
  qed
qed

text \<open>Removing the last entry only shortens the queue.\<close>

lemma queue_remove_last:
  assumes "queue_wf q" "0 < elements q"
  shows "fst (queue_remove q (elements q)) = q\<lparr>elements := elements q - 1, root := Some (queue_arr q),
    pos_mem := store_pos (offset_to_queue_pos q) (pos_mem q) (queue_arr q ! elements q) (elements q)\<rparr>"
  using assms downheap_stays [of "elements q" "q\<lparr>elements := elements q - 1\<rparr>" "queue_arr q ! elements q"]
  by (auto simp: queue_remove_def Let_def)

lemma queue_pos_ok_last:
  "queue_pos_ok q \<Longrightarrow> elements q = Suc n \<Longrightarrow> k \<in> {1..n} \<Longrightarrow> queue_arr q ! k \<noteq> queue_arr q ! Suc n"
  using inj_onD [of "(!) (queue_arr q)" "{1..Suc n}" k "Suc n"]
  by (auto simp: queue_pos_ok_def distinct_heap_els)

lemma queue_remove_shape:
  assumes wf: "queue_wf q" and i: "1 \<le> idx" "idx \<le> elements q"
  obtains r m where "fst (queue_remove q idx) = q\<lparr>elements := elements q - 1, root := Some r, pos_mem := m\<rparr>"
    "length r = length (queue_arr q)"
    "mset (heap_els r (elements q - 1)) = queue_mset q - {#queue_arr q ! idx#}"
    "comparator (queue_cmp q) \<Longrightarrow> hole_ok (queue_cmp q) 1 (queue_arr q) (elements q) idx \<Longrightarrow>
      idx = 1 \<or> idx = elements q \<or> queue_cmp q (queue_arr q ! (idx div 2)) (queue_arr q ! elements q) \<le> 0 \<Longrightarrow>
      heap_from (queue_cmp q) 1 r (elements q - 1)"
    "queue_pos_ok q \<Longrightarrow> pos_ok (offset_to_queue_pos q) r m (elements q - 1) 0"
proof -
  let ?r = "queue_arr q" and ?off = "offset_to_queue_pos q"
  obtain n where n: "elements q = Suc n" using i by (cases "elements q") auto
  have ms: "queue_mset q = add_mset (?r ! Suc n) (mset (heap_els ?r n))"
    by (simp add: queue_mset_def n heap_els_Suc)
  show thesis
  proof (cases "idx = Suc n")
    case True
    have "heap_from (queue_cmp q) 1 ?r n" if "hole_ok (queue_cmp q) 1 ?r (Suc n) idx"
      using that True by (auto simp: hole_ok_def heap_from_def)
    moreover have "pos_ok ?off ?r (store_pos ?off (pos_mem q) (?r ! Suc n) (Suc n)) n 0" if "queue_pos_ok q"
      using that queue_pos_ok_last [OF that n]
      by (auto simp: queue_pos_ok_def n pos_ok_def store_pos_other)
    ultimately show thesis
      using that [of _ ?r] queue_remove_last [OF wf] ms True by (simp add: n)
  next
    case False
    let ?q = "q\<lparr>elements := n\<rparr>"
    have l: "idx \<le> n" "n < length ?r" using False i wf n queue_wf_arr [OF wf] by (auto simp: queue_wf_def)
    obtain r m where D: "downheap ?q idx (?r ! Suc n) = ?q\<lparr>root := Some r, pos_mem := m\<rparr>"
      "sifted ?q idx (?r ! Suc n) r m"
      by (rule downheap_shape [of idx ?q "?r ! Suc n"]) (use i l in auto)
    have h: "heap_from (queue_cmp q) 1 r n" if "comparator (queue_cmp q)"
        "hole_ok (queue_cmp q) 1 ?r (Suc n) idx"
        "idx = 1 \<or> idx = Suc n \<or> queue_cmp q (?r ! (idx div 2)) (?r ! Suc n) \<le> 0"
    proof -
      have "hole_ok (queue_cmp q) 1 ?r n idx" using that(2) by (auto simp: hole_ok_def)
      then show ?thesis using sifted_heap [OF D(2)] that i False by simp
    qed
    have p: "pos_ok ?off r m n 0" if "queue_pos_ok q"
    proof -
      have "inj_on ((!) (?r[idx := ?r ! Suc n])) {1..n}"
        using that l i queue_pos_ok_last [OF that n] queue_pos_ok_last [OF that n, symmetric]
        by (auto simp: queue_pos_ok_def distinct_heap_els n inj_on_def nth_list_update)
      moreover have "pos_ok ?off ?r (pos_mem q) n idx"
        using that by (auto simp: queue_pos_ok_def pos_ok_def n)
      ultimately show ?thesis using D(2) by (simp add: sifted_def distinct_heap_els)
    qed
    have "mset (heap_els r n) = queue_mset q - {#?r ! idx#}"
      using D(2) mset_heap_els_update [OF i(1) l, of "?r ! Suc n"] ms by (simp add: sifted_def)
    then show thesis using that [of m r] D h p by (simp add: n queue_remove_def Let_def sifted_def)
  qed
qed


lemma queue_invar_shape:
  assumes "queue_wf q" "comparator (queue_cmp q)" "length r = length (queue_arr q)" "k \<le> max_elements q"
    "heap_from (queue_cmp q) 1 r k"
  shows "queue_invar (q\<lparr>elements := k, root := Some r, pos_mem := m\<rparr>)"
  using assms queue_wf_arr [of q] by (auto simp: queue_invar_def queue_wf_def queue_heap_def)

lemma queue_invar_hole: "queue_invar q \<Longrightarrow> hole_ok (queue_cmp q) 1 (queue_arr q) (elements q) idx"
  unfolding queue_invar_def queue_heap_def heap_from_def hole_ok_def
proof (elim conjE, intro conjI ballI impI)
  fix c assume cmp: "comparator (queue_cmp q)"
    and h: "\<forall>i \<in> {2..elements q}. 1 \<le> i div 2 \<longrightarrow> queue_cmp q (queue_arr q ! (i div 2)) (queue_arr q ! i) \<le> 0"
    and c: "2 \<le> idx \<and> 1 \<le> idx div 2" "c \<in> {2..elements q}" "c div 2 = idx"
  have "queue_cmp q (queue_arr q ! (idx div 2)) (queue_arr q ! idx) \<le> 0"
    "queue_cmp q (queue_arr q ! idx) (queue_arr q ! c) \<le> 0"
    using h c by auto
  then show "queue_cmp q (queue_arr q ! (idx div 2)) (queue_arr q ! c) \<le> 0"
    by (rule comparator.cmp_trans [OF cmp])
qed auto

lemma queue_insert_inv:
  assumes "queue_invar q" "elements q < max_elements q"
  shows "queue_invar (queue_insert q e)" "queue_mset (queue_insert q e) = add_mset e (queue_mset q)"
    "queue_pos_ok q \<Longrightarrow> e \<notin># queue_mset q \<Longrightarrow> queue_pos_ok (queue_insert q e)"
    "elements (queue_insert q e) = elements q + 1" "queue_cmp (queue_insert q e) = queue_cmp q"
    "max_elements (queue_insert q e) = max_elements q"
proof -
  have q: "queue_wf q" "comparator (queue_cmp q)" "queue_heap q" using assms(1) by (auto simp: queue_invar_def)
  obtain r m where S: "queue_insert q e = q\<lparr>elements := elements q + 1, root := Some r, pos_mem := m\<rparr>"
    "length r = max_elements q + 1"
    "mset (heap_els r (elements q + 1)) = add_mset e (queue_mset q)"
    "heap_from (queue_cmp q) 1 r (elements q + 1)"
    "queue_pos_ok q \<Longrightarrow> e \<notin># queue_mset q \<Longrightarrow> pos_ok (offset_to_queue_pos q) r m (elements q + 1) 0"
    by (rule insert_shape [OF q(1) assms(2), of e]) (use q in blast)
  show "queue_invar (queue_insert q e)" unfolding S(1)
    by (rule queue_invar_shape [OF q(1,2)]) (use S assms queue_wf_arr [OF q(1)] in auto)
  show "queue_mset (queue_insert q e) = add_mset e (queue_mset q)"
    using S(3) by (simp add: S(1) queue_mset_def [of "q\<lparr>elements := _, root := _, pos_mem := _\<rparr>"])
  show "queue_pos_ok (queue_insert q e)" if "queue_pos_ok q" "e \<notin># queue_mset q"
  proof -
    have "distinct (heap_els (queue_arr q) (elements q) @ [e])"
      using that by (simp add: queue_pos_ok_def queue_mset_def)
    then have "distinct (heap_els r (elements q + 1))"
      using S(3) mset_eq_imp_distinct_iff [of "heap_els (queue_arr q) (elements q) @ [e]"]
      by (auto simp: queue_mset_def)
    then show ?thesis using S that by (simp add: queue_pos_ok_def)
  qed
qed (simp_all add: queue_insert_def insert_loop_up Let_def split: prod.split)


lemma queue_remove_hole:
  assumes q: "queue_wf q" "comparator (queue_cmp q)" and i: "1 \<le> idx" "idx \<le> elements q"
    and hole: "hole_ok (queue_cmp q) 1 (queue_arr q) (elements q) idx"
  shows "queue_mset (fst (queue_remove q idx)) = queue_mset q - {#snd (queue_remove q idx)#}"
    "snd (queue_remove q idx) = queue_arr q ! idx"
    "queue_arr q ! idx \<in># queue_mset q"
    "idx = 1 \<or> idx = elements q \<or> queue_cmp q (queue_arr q ! (idx div 2)) (queue_arr q ! elements q) \<le> 0 \<Longrightarrow>
      queue_invar (fst (queue_remove q idx))"
    "queue_pos_ok q \<Longrightarrow> queue_pos_ok (fst (queue_remove q idx))"
    "elements (fst (queue_remove q idx)) = elements q - 1"
    "queue_cmp (fst (queue_remove q idx)) = queue_cmp q"
    "max_elements (fst (queue_remove q idx)) = max_elements q"
proof -
  obtain r m where S: "fst (queue_remove q idx) = q\<lparr>elements := elements q - 1, root := Some r, pos_mem := m\<rparr>"
    "length r = length (queue_arr q)"
    "mset (heap_els r (elements q - 1)) = queue_mset q - {#queue_arr q ! idx#}"
    "idx = 1 \<or> idx = elements q \<or> queue_cmp q (queue_arr q ! (idx div 2)) (queue_arr q ! elements q) \<le> 0 \<Longrightarrow>
      heap_from (queue_cmp q) 1 r (elements q - 1)"
    "queue_pos_ok q \<Longrightarrow> pos_ok (offset_to_queue_pos q) r m (elements q - 1) 0"
    by (rule queue_remove_shape [OF q(1) i]) (use q hole in blast)
  show x: "snd (queue_remove q idx) = queue_arr q ! idx" by (simp add: queue_remove_def Let_def)
  show "queue_mset (fst (queue_remove q idx)) = queue_mset q - {#snd (queue_remove q idx)#}"
    using S(3) unfolding x by (simp add: S(1) queue_mset_def [of "q\<lparr>elements := _, root := _, pos_mem := _\<rparr>"])
  show "queue_arr q ! idx \<in># queue_mset q"
    using i by (auto simp: queue_mset_def heap_els_def simp del: upt_Suc)
  show "queue_invar (fst (queue_remove q idx))"
    if "idx = 1 \<or> idx = elements q \<or> queue_cmp q (queue_arr q ! (idx div 2)) (queue_arr q ! elements q) \<le> 0"
    unfolding S(1) by (rule queue_invar_shape [OF q S(2) _ S(4) [OF that]])
      (use q(1) in \<open>auto simp: queue_wf_def\<close>)
  show "queue_pos_ok (fst (queue_remove q idx))" if "queue_pos_ok q"
  proof -
    have "mset (heap_els r (elements q - 1)) \<subseteq># mset (heap_els (queue_arr q) (elements q))"
      using S(3) by (simp add: queue_mset_def)
    then have "distinct (heap_els r (elements q - 1))"
      using that distinct_submset by (auto simp: queue_pos_ok_def)
    then show ?thesis using S that by (simp add: queue_pos_ok_def)
  qed
  show "elements (fst (queue_remove q idx)) = elements q - 1"
    "queue_cmp (fst (queue_remove q idx)) = queue_cmp q"
    "max_elements (fst (queue_remove q idx)) = max_elements q" by (simp_all add: S(1))
qed

lemmas queue_remove_inv = queue_remove_hole [OF _ _ _ _ queue_invar_hole]

lemma queue_top_least:
  assumes "queue_invar q" "1 \<le> i" "i \<le> elements q"
  shows "queue_cmp q (queue_top q) (queue_arr q ! i) \<le> 0"
  using assms(2,3)
proof (induction i rule: less_induct)
  case (less i)
  have cmp: "comparator (queue_cmp q)" using assms(1) by (simp add: queue_invar_def)
  show ?case
  proof (cases "i = 1")
    case True
    then show ?thesis by (simp add: queue_top_def queue_element_def comparator.cmp_refl [OF cmp])
  next
    case False
    then have "queue_cmp q (queue_top q) (queue_arr q ! (i div 2)) \<le> 0"
      using less.IH [of "i div 2"] less.prems by auto
    moreover have "queue_cmp q (queue_arr q ! (i div 2)) (queue_arr q ! i) \<le> 0"
      using assms(1) less.prems False by (auto simp: queue_invar_def queue_heap_def heap_from_def)
    ultimately show ?thesis by (rule comparator.cmp_trans [OF cmp])
  qed
qed

lemma queue_mset_ball: "(\<forall>y \<in># queue_mset q. P y) \<longleftrightarrow> (\<forall>i \<in> {1..elements q}. P (queue_arr q ! i))"
  by (auto simp: queue_mset_def heap_els_def atLeastLessThanSuc_atLeastAtMost simp del: upt_Suc)

lemma queue_mset_empty: "queue_mset q = {#} \<longleftrightarrow> elements q = 0"
  by (auto simp: queue_mset_def heap_els_def)

interpretation heap_queue: priority_queue queue_invar queue_mset
    "\<lambda>q a b. queue_cmp q a b \<le> 0" queue_remove_top
proof
  fix q :: "'a QUEUE" assume q: "queue_invar q" "queue_mset q \<noteq> {#}"
  then have n: "1 \<le> elements q" "1 \<le> (1::nat)" by (auto simp: queue_mset_empty)
  have w: "queue_wf q" "comparator (queue_cmp q)" using q(1) by (auto simp: queue_invar_def)
  note R = queue_remove_inv [OF w n(2,1) q(1)]
  show "snd (queue_remove_top q) \<in># queue_mset q
      \<and> (\<forall>y \<in># queue_mset q. queue_cmp q (snd (queue_remove_top q)) y \<le> 0)"
    using R(2,3) queue_top_least [OF q(1)] unfolding queue_mset_ball
    by (auto simp: queue_remove_top_def queue_top_def queue_element_def)
  show "queue_mset (fst (queue_remove_top q)) = queue_mset q - {#snd (queue_remove_top q)#}"
    using R(1) by (simp add: queue_remove_top_def)
  show "queue_invar (fst (queue_remove_top q)) \<and>
      (\<lambda>a b. queue_cmp (fst (queue_remove_top q)) a b \<le> 0) = (\<lambda>a b. queue_cmp q a b \<le> 0)"
    using R(4,7) by (simp add: queue_remove_top_def)
qed


lemma queue_remove_broken:
  assumes q: "queue_invar q" and i: "1 < idx" "idx < elements q"
    and lt: "queue_cmp q (queue_arr q ! elements q) (queue_arr q ! (idx div 2)) < 0"
  shows "\<not> queue_heap (fst (queue_remove q idx))"
proof -
  let ?r = "queue_arr q" and ?cmp = "queue_cmp q" and ?q = "q\<lparr>elements := elements q - 1\<rparr>"
  let ?e = "?r ! elements q"
  have cmp: "comparator ?cmp" and len: "elements q < length ?r"
    using q queue_wf_arr [of q] by (auto simp: queue_invar_def queue_wf_def)
  have "0 \<le> ?cmp (?r ! smaller_child ?cmp ?r (elements q - 1) idx) ?e" if "idx \<le> (elements q - 1) div 2"
  proof -
    let ?c = "smaller_child ?cmp ?r (elements q - 1) idx"
    have "?c \<in> {2..elements q}" "?c div 2 = idx"
      using smaller_child_range [OF _ that, of ?cmp ?r] i by auto
    then have "?cmp (?r ! (idx div 2)) (?r ! ?c) \<le> 0"
      using queue_invar_hole [OF q, of idx] i by (auto simp: hole_ok_def)
    then have "?cmp ?e (?r ! ?c) < 0"
      using comparator.cmp_less_le_trans [OF cmp lt] by blast
    then show ?thesis using comparator.cmp_anti [OF cmp, of ?e] by simp
  qed
  then have D: "fst (queue_remove q idx) = ?q\<lparr>root := Some (?r[idx := ?e]),
      pos_mem := store_pos (offset_to_queue_pos q) (pos_mem q) ?e idx\<rparr>"
    using downheap_stays [of idx ?q ?e] i by (simp add: queue_remove_def Let_def)
  have "0 < ?cmp (?r[idx := ?e] ! (idx div 2)) (?r[idx := ?e] ! idx)"
    using lt i len comparator.cmp_anti [OF cmp, of ?e] by simp
  then show ?thesis using i
    by (auto simp: D queue_heap_def heap_from_def intro!: bexI [of _ idx])
qed

subsection \<open>Repair\<close>

lemma queue_fix_step:
  assumes "queue_wf q" "comparator (queue_cmp q)" "1 \<le> s" "s \<le> elements q"
    "heap_from (queue_cmp q) (Suc s) (queue_arr q) (elements q)"
    "q' = downheap q s (queue_element q s)"
  shows "queue_wf q' \<and> queue_cmp q' = queue_cmp q \<and> elements q' = elements q \<and> queue_mset q' = queue_mset q
    \<and> heap_from (queue_cmp q) s (queue_arr q') (elements q) \<and> (queue_pos_ok q \<longrightarrow> queue_pos_ok q')"
proof -
  have len: "elements q < length (queue_arr q)"
    using assms(1) queue_wf_arr [OF assms(1)] by (auto simp: queue_wf_def)
  obtain r m where D: "q' = q\<lparr>root := Some r, pos_mem := m\<rparr>" "sifted q s (queue_arr q ! s) r m"
    by (rule downheap_shape [OF assms(3,4) len, of "queue_arr q ! s"])
      (use assms(6) in \<open>simp add: queue_element_def\<close>)
  have ms: "mset (heap_els r (elements q)) = mset (heap_els (queue_arr q) (elements q))"
    using D(2) by (simp add: sifted_def)
  show ?thesis
    using D assms(1,2,5) len ms mset_eq_imp_distinct_iff [OF ms] queue_wf_arr [OF assms(1)]
    by (auto simp: sifted_def queue_wf_def queue_mset_def queue_pos_ok_def pos_ok_def)
qed

lemma queue_fix_loop_inv:
  assumes "queue_wf q" "comparator (queue_cmp q)" "i \<le> elements q"
    "heap_from (queue_cmp q) (Suc i) (queue_arr q) (elements q)"
  shows "queue_invar (queue_fix_loop q i) \<and> queue_mset (queue_fix_loop q i) = queue_mset q
    \<and> (queue_pos_ok q \<longrightarrow> queue_pos_ok (queue_fix_loop q i))"
  using assms
proof (induction i arbitrary: q)
  case 0
  then show ?case by (simp add: queue_invar_def queue_heap_def)
next
  case (Suc i)
  from queue_fix_step [OF Suc.prems(1,2) _ Suc.prems(3,4) refl] Suc.IH Suc.prems(2,3)
  show ?case by simp
qed

subsection \<open>Resizing\<close>

lemma resize_queue_inv:
  assumes q: "queue_invar q" and "max_els + 1 < 2 ^ 32" "max_els \<le> max_elements q + length block"
  shows "queue_invar (fst (resize_queue q max_els True block))"
    "queue_mset (fst (resize_queue q max_els True block))
       = mset (heap_els (queue_arr q) (min max_els (elements q)))"
    "elements (fst (resize_queue q max_els True block)) = min max_els (elements q)"
    "max_elements (fst (resize_queue q max_els True block)) = max_els"
proof -
  let ?k = "min max_els (elements q)"
  have w: "queue_wf q" "comparator (queue_cmp q)" "queue_heap q" using q by (auto simp: queue_invar_def)
  have len: "length (queue_arr q) = max_elements q + 1" "elements q \<le> max_elements q"
    using queue_wf_arr [OF w(1)] w(1) by (auto simp: queue_wf_def)
  have E: "fst (resize_queue q max_els True block) = q \<and> max_els = max_elements q
      \<or> fst (resize_queue q max_els True block)
        = q\<lparr>elements := ?k, max_elements := max_els, root := Some (take (max_els + 1) (queue_arr q @ block))\<rparr>"
    using assms(2) by (auto simp: resize_queue_def Let_def min_def)
  have arr: "take (max_els + 1) (queue_arr q @ block) ! i = queue_arr q ! i" if "i \<le> ?k" for i
    using that len by (simp add: nth_append del: take_append)
  have "heap_from (queue_cmp q) 1 (take (max_els + 1) (queue_arr q @ block)) ?k"
    unfolding heap_from_def
  proof (intro ballI impI)
    fix i assume i: "i \<in> {2..?k}"
    then have "i \<le> ?k" "i div 2 \<le> ?k" by auto
    then show "queue_cmp q (take (max_els + 1) (queue_arr q @ block) ! (i div 2))
        (take (max_els + 1) (queue_arr q @ block) ! i) \<le> 0"
      unfolding arr [OF \<open>i \<le> ?k\<close>] arr [OF \<open>i div 2 \<le> ?k\<close>]
      using w(3) i by (auto simp: heap_from_def queue_heap_def)
  qed
  then show "queue_invar (fst (resize_queue q max_els True block))"
    using E q assms(2,3) w len by (elim disjE) (auto simp: queue_invar_def queue_wf_def queue_heap_def)
  have "heap_els (take (max_els + 1) (queue_arr q @ block)) ?k = heap_els (queue_arr q) ?k"
    by (rule heap_els_cong) (rule arr)
  then show "queue_mset (fst (resize_queue q max_els True block)) = mset (heap_els (queue_arr q) ?k)"
    using E len by (elim disjE) (auto simp: queue_mset_def min_def)
  show "elements (fst (resize_queue q max_els True block)) = ?k"
    "max_elements (fst (resize_queue q max_els True block)) = max_els"
    using E len by auto
qed

section \<open>Correctness of the priority queue\<close>

text \<open>
  C25: \<open>queue_insert\<close> on a queue with room keeps the heap order, adds exactly the new element
  and, with \<open>offset_to_queue_pos\<close>, keeps every element's stored index equal to its position.
\<close>

theorem queue_insert_correct:
  assumes "queue_invar q" "elements q < max_elements q"
  shows "queue_invar (queue_insert q e) \<and> queue_mset (queue_insert q e) = add_mset e (queue_mset q)
    \<and> elements (queue_insert q e) = elements q + 1
    \<and> (queue_pos_ok q \<longrightarrow> e \<notin># queue_mset q \<longrightarrow> queue_pos_ok (queue_insert q e))"
  using queue_insert_inv [OF assms] by blast

text \<open>
  C24: removing every element from the top returns exactly the stored elements, in the order
  of the comparison callback (descending with \<open>max_at_top\<close>).
\<close>

theorem queue_remove_top_sorts:
  assumes "queue_invar q"
  shows "mset (pop_all queue_remove_top (elements q) q) = queue_mset q
    \<and> sorted_wrt (\<lambda>a b. compare q (first_cmp_arg q) (a + offset_to_key q) (b + offset_to_key q)
         * max_at_top q \<le> 0) (pop_all queue_remove_top (elements q) q)"
  using heap_queue.pop_all_sorts [OF assms] by (simp add: queue_mset_def heap_els_def queue_cmp_def del: upt_Suc)

text \<open>
  \<open>queue_remove\<close> of any index returns that element, removes exactly it and keeps the
  stored indices right; but it keeps the heap order exactly when the last element, which
  takes the free place, is not smaller than the parent of that place (the first and the last
  index are always safe).
\<close>

theorem queue_remove_correct:
  assumes "queue_invar q" "1 \<le> idx" "idx \<le> elements q"
  shows "snd (queue_remove q idx) = queue_element q idx
    \<and> queue_mset (fst (queue_remove q idx)) = queue_mset q - {#queue_element q idx#}
    \<and> (queue_pos_ok q \<longrightarrow> queue_pos_ok (fst (queue_remove q idx)))
    \<and> (queue_heap (fst (queue_remove q idx)) \<longleftrightarrow> idx = 1 \<or> idx = elements q \<or>
         queue_cmp q (queue_element q (idx div 2)) (queue_element q (elements q)) \<le> 0)"
proof -
  have w: "queue_wf q" "comparator (queue_cmp q)" using assms(1) by (auto simp: queue_invar_def)
  note R = queue_remove_inv [OF w assms(2,3,1)]
  have "queue_cmp q (queue_arr q ! (idx div 2)) (queue_arr q ! elements q) \<le> 0 \<or>
      queue_cmp q (queue_arr q ! elements q) (queue_arr q ! (idx div 2)) < 0"
    using comparator.cmp_anti [OF w(2), of "queue_arr q ! elements q"] by (meson not_le)
  moreover have "idx = elements q \<or> idx < elements q" "idx = 1 \<or> 1 < idx" using assms(2,3) by auto
  ultimately show ?thesis using R queue_remove_broken [OF assms(1), of idx]
    by (auto simp: queue_element_def queue_invar_def)
qed

text \<open>
  \<open>queue_fix\<close> turns an array in any order into a heap of the same elements.
\<close>

theorem queue_fix_correct:
  assumes "queue_wf q" "comparator (compare q (first_cmp_arg q))"
  shows "queue_invar (queue_fix q) \<and> queue_mset (queue_fix q) = queue_mset q
    \<and> (queue_pos_ok q \<longrightarrow> queue_pos_ok (queue_fix q))"
proof -
  have "comparator (queue_cmp q)"
    using queue_cmp_comparator [OF assms(2)] assms(1) by (simp add: queue_wf_def)
  moreover have "heap_from (queue_cmp q) (Suc (elements q div 2)) (queue_arr q) (elements q)"
    by (auto simp: heap_from_def)
  ultimately show ?thesis using queue_fix_loop_inv [OF assms(1)] by (simp add: queue_fix_def)
qed

text \<open>
  After the key of the entry \<open>idx\<close> changed (so that it alone may be out of order),
  \<open>queue_replace\<close> restores the heap with the same elements, provided the last element fits
  below the parent of \<open>idx\<close>; for the top entry this always holds.
\<close>

theorem queue_replace_correct:
  assumes "queue_wf q" "comparator (queue_cmp q)" "1 \<le> idx" "idx \<le> elements q"
    "hole_ok (queue_cmp q) 1 (queue_arr q) (elements q) idx"
    "idx = 1 \<or> queue_cmp q (queue_element q (idx div 2)) (queue_element q (elements q)) \<le> 0"
  shows "queue_invar (queue_replace q idx) \<and> queue_mset (queue_replace q idx) = queue_mset q"
proof -
  note R = queue_remove_hole [OF assms(1-5)]
  let ?q = "fst (queue_remove q idx)"
  have "queue_invar ?q" "elements ?q < max_elements ?q"
    using R assms(1,3,4,6) by (auto simp: queue_element_def queue_wf_def)
  note I = queue_insert_inv [OF this, of "queue_arr q ! idx"]
  have "queue_mset (queue_replace q idx) = add_mset (queue_arr q ! idx) (queue_mset q - {#queue_arr q ! idx#})"
    using I(2) R(1,2) by (simp add: queue_replace_def)
  then show ?thesis using I(1) R(3) by (simp add: queue_replace_def)
qed


text \<open>
  \<open>queue_insert_safe\<close> reports 2 and 1 without touching the queue when it is full and may
  not, or cannot, be extended; otherwise it returns 0 and the element is in the queue.
\<close>

theorem queue_insert_safe_correct:
  assumes q: "queue_invar q" and big: "max_elements q + auto_extent q + 1 < 2 ^ 32"
    and blk: "auto_extent q \<le> length block"
  shows "if elements q = max_elements q \<and> auto_extent q = 0 then queue_insert_safe q e ok block = (q, 2)
    else if elements q = max_elements q \<and> \<not> ok then queue_insert_safe q e ok block = (q, 1)
    else snd (queue_insert_safe q e ok block) = 0
      \<and> queue_invar (fst (queue_insert_safe q e ok block))
      \<and> queue_mset (fst (queue_insert_safe q e ok block)) = add_mset e (queue_mset q)"
proof -
  consider "elements q < max_elements q" | "elements q = max_elements q" "auto_extent q = 0"
    | "elements q = max_elements q" "auto_extent q \<noteq> 0" "\<not> ok"
    | "elements q = max_elements q" "auto_extent q \<noteq> 0" "ok"
    using q by (force simp: queue_invar_def queue_wf_def)
  then show ?thesis
  proof cases
    case 1
    then show ?thesis using queue_insert_inv [OF q 1] by (simp add: queue_insert_safe_def)
  next
    case 4
    let ?q = "fst (resize_queue q (max_elements q + auto_extent q) True block)"
    note Z = resize_queue_inv [OF q big, of block]
    have "snd (resize_queue q (max_elements q + auto_extent q) True block) = 0"
      by (simp add: resize_queue_def Let_def)
    then have s: "queue_insert_safe q e True block = (queue_insert ?q e, 0)"
      using 4 big by (auto simp: queue_insert_safe_def split: prod.split)
    have "elements ?q < max_elements ?q" "queue_mset ?q = queue_mset q" "queue_invar ?q"
      using Z blk 4 by (simp_all add: queue_mset_def)
    then show ?thesis using queue_insert_inv [of ?q e] 4 s by simp
  qed (use big in \<open>auto simp: queue_insert_safe_def resize_queue_def\<close>)
qed

section \<open>Witnesses\<close>

text \<open>A queue of elements whose key is their address, with back pointers 100 bytes further.\<close>

definition ex_queue :: "nat list \<Rightarrow> unit QUEUE" where
  "ex_queue xs = \<lparr>root = Some (0 # xs @ replicate (9 - length xs) 0), first_cmp_arg = (),
     elements = length xs, max_elements = 9, offset_to_key = 0, offset_to_queue_pos = 101,
     auto_extent = 2, max_at_top = 1, compare = (\<lambda>_ a b. int a - int b), pos_mem = (\<lambda>_. 0)\<rparr>"

lemma ex_cmp: "queue_cmp (ex_queue xs) = (\<lambda>a b. int a - int b)"
  by (simp add: queue_cmp_def ex_queue_def fun_eq_iff)

lemma ex_comparator: "comparator (queue_cmp (ex_queue xs))"
  by unfold_locales (simp_all add: ex_cmp)

lemma ex_wf: "length xs \<le> 9 \<Longrightarrow> queue_wf (ex_queue xs)"
  by (simp add: queue_wf_def ex_queue_def)

lemma heap_from_code [code]:
  "heap_from cmp s r n = list_all (\<lambda>i. s \<le> i div 2 \<longrightarrow> cmp (r ! (i div 2)) (r ! i) \<le> 0) [2..<Suc n]"
  by (auto simp: heap_from_def list_all_iff simp del: upt_Suc)

lemma ex_invar: "queue_invar (ex_queue [1, 10, 2, 11, 12, 3, 4])"
proof -
  have "queue_heap (ex_queue [1, 10, 2, 11, 12, 3, 4])" by code_simp
  then show ?thesis using ex_wf ex_comparator by (simp add: queue_invar_def)
qed

theorem queue_insert_witness:
  "queue_invar (queue_insert (ex_queue [1, 10, 2, 11, 12, 3, 4]) 5)"
  using queue_insert_correct [OF ex_invar, of 5] by (simp add: ex_queue_def)

theorem queue_remove_top_sorts_witness:
  "mset (pop_all queue_remove_top 7 (ex_queue [1, 10, 2, 11, 12, 3, 4])) = {#1, 2, 3, 4, 10, 11, 12#}"
proof -
  have "queue_mset (ex_queue [1, 10, 2, 11, 12, 3, 4]) = {#1, 2, 3, 4, 10, 11, 12#}"
    by (simp add: queue_mset_def heap_els_def ex_queue_def queue_arr_def upt_rec)
  moreover have "elements (ex_queue [1, 10, 2, 11, 12, 3, 4]) = 7" by (simp add: ex_queue_def)
  ultimately show ?thesis using queue_remove_top_sorts [OF ex_invar] by simp
qed

text \<open>Removing index 4 puts the element 4 below its parent 10.\<close>

theorem queue_remove_witness:
  "queue_invar (ex_queue [1, 10, 2, 11, 12, 3, 4])
   \<and> \<not> queue_heap (fst (queue_remove (ex_queue [1, 10, 2, 11, 12, 3, 4]) 4))"
proof -
  let ?q = "ex_queue [1, 10, 2, 11, 12, 3, 4]"
  have "(1::nat) \<le> 4" "4 \<le> elements ?q" by (simp_all add: ex_queue_def)
  moreover have "queue_element ?q (4 div 2) = 10" "queue_element ?q (elements ?q) = 4" "elements ?q \<noteq> 4"
    by (simp_all add: queue_element_def queue_arr_def ex_queue_def)
  ultimately show ?thesis using queue_remove_correct [OF ex_invar, of 4] ex_invar
    unfolding ex_cmp by simp
qed

theorem queue_fix_witness: "queue_invar (queue_fix (ex_queue [9, 8, 7, 6, 5, 4]))"
proof -
  have "comparator (compare (ex_queue [9, 8, 7, 6, 5, 4]) (first_cmp_arg (ex_queue [9, 8, 7, 6, 5, 4])))"
    by unfold_locales (simp_all add: ex_queue_def)
  with queue_fix_correct [OF ex_wf] show ?thesis by simp
qed

lemma hole_ok_code [code]:
  "hole_ok cmp s r n h \<longleftrightarrow>
     list_all (\<lambda>i. s \<le> i div 2 \<longrightarrow> i \<noteq> h \<longrightarrow> i div 2 \<noteq> h \<longrightarrow> cmp (r ! (i div 2)) (r ! i) \<le> 0) [2..<Suc n]
     \<and> (2 \<le> h \<and> s \<le> h div 2 \<longrightarrow>
          list_all (\<lambda>c. c div 2 = h \<longrightarrow> cmp (r ! (h div 2)) (r ! c) \<le> 0) [2..<Suc n])"
  by (auto simp: hole_ok_def list_all_iff simp del: upt_Suc)

theorem queue_replace_witness: "queue_invar (queue_replace (ex_queue [99, 10, 2, 11, 12, 3, 4]) 1)"
proof -
  let ?q = "ex_queue [99, 10, 2, 11, 12, 3, 4]"
  have "hole_ok (queue_cmp ?q) 1 (queue_arr ?q) (elements ?q) 1" by code_simp
  moreover have "(1::nat) \<le> elements ?q" by (simp add: ex_queue_def)
  ultimately show ?thesis using queue_replace_correct [OF ex_wf ex_comparator, of "[99, 10, 2, 11, 12, 3, 4]" 1] by simp
qed

theorem queue_insert_safe_witness:
  "queue_invar (fst (queue_insert_safe (ex_queue [1, 10, 2, 11, 12, 3, 4]) 5 True [0, 0]))"
proof -
  let ?q = "ex_queue [1, 10, 2, 11, 12, 3, 4]"
  have "max_elements ?q + auto_extent ?q + 1 < 2 ^ 32" "auto_extent ?q \<le> length [0, 0 :: nat]"
    by (simp_all add: ex_queue_def)
  from queue_insert_safe_correct [OF ex_invar this, of 5 True] show ?thesis by (simp add: ex_queue_def)
qed

end
