(* ===== verification/Ptr_Cmp.thy ===== *)
theory Ptr_Cmp
  imports Prelude
begin

text \<open>
  \<open>mysys/ptr_cmp.c\<close>: the byte-wise key comparisons handed to the sort and queue code, and the
  row pointers of 1 to 8 bytes, stored high byte first with the \<open>mi_intNstore\<close> macros of
  \<open>include/myisampack.h\<close>.  Memory is a function from addresses to bytes; a comparison gets
  the two key addresses (the sources pass pointers to them).
\<close>

section \<open>Key comparison\<close>

text \<open>\<open>memcmp\<close>: the difference of the first bytes that differ, 0 when there is none.\<close>

primrec memcmp :: "(nat \<Rightarrow> uchar) \<Rightarrow> nat \<Rightarrow> nat \<Rightarrow> nat \<Rightarrow> int" where
  "memcmp m a b 0 = 0"
| "memcmp m a b (Suc n) =
     (if m a \<noteq> m b then uint (m a) - uint (m b) else memcmp m (a + 1) (b + 1) n)"

definition native_compare :: "nat \<Rightarrow> (nat \<Rightarrow> uchar) \<Rightarrow> nat \<Rightarrow> nat \<Rightarrow> int" where
  "native_compare len m a b = memcmp m a b len"

text \<open>
  The comparisons of a build without \<open>USE_NATIVE_MEMCMP\<close>.  \<open>cmpN\<close> is the macro \<open>cmp(N)\<close>
  followed by the rest of the function; \<open>ptr_compare\<close> asserts a positive length (\<open>None\<close>
  otherwise).  The unrolled loops are entered with a positive multiple of 4 left.
\<close>

definition cmpN :: "(nat \<Rightarrow> uchar) \<Rightarrow> nat \<Rightarrow> nat \<Rightarrow> nat \<Rightarrow> int \<Rightarrow> int" where
  "cmpN m first_p last_p n rest =
     (if m (first_p + n) \<noteq> m (last_p + n)
      then uint (m (first_p + n)) - uint (m (last_p + n)) else rest)"

fun ptr_compare_loop :: "(nat \<Rightarrow> uchar) \<Rightarrow> nat \<Rightarrow> nat \<Rightarrow> nat \<Rightarrow> int" where
  "ptr_compare_loop m 0 first_p last_p = uint (m first_p) - uint (m last_p)"
| "ptr_compare_loop m (Suc len) first_p last_p =
     (if m first_p \<noteq> m last_p then uint (m first_p) - uint (m last_p)
      else ptr_compare_loop m len (first_p + 1) (last_p + 1))"

definition ptr_compare :: "nat \<Rightarrow> (nat \<Rightarrow> uchar) \<Rightarrow> nat \<Rightarrow> nat \<Rightarrow> int option" where
  "ptr_compare len m a b = (if len > 0 then Some (ptr_compare_loop m (len - 1) a b) else None)"

function unrolled_loop :: "(nat \<Rightarrow> uchar) \<Rightarrow> nat \<Rightarrow> nat \<Rightarrow> nat \<Rightarrow> int" where
  "unrolled_loop m len first_p last_p =
     cmpN m first_p last_p 0 (cmpN m first_p last_p 1 (cmpN m first_p last_p 2 (cmpN m first_p last_p 3
       (if len - 4 \<noteq> 0 then unrolled_loop m (len - 4) (first_p + 4) (last_p + 4) else 0))))"
  by pat_completeness auto
termination
  by (relation "measure (\<lambda>(m, len, f, l). len)") auto

declare unrolled_loop.simps [simp del]

definition ptr_compare_0 :: "nat \<Rightarrow> (nat \<Rightarrow> uchar) \<Rightarrow> nat \<Rightarrow> nat \<Rightarrow> int" where
  "ptr_compare_0 len m a b = unrolled_loop m len a b"

definition ptr_compare_1 :: "nat \<Rightarrow> (nat \<Rightarrow> uchar) \<Rightarrow> nat \<Rightarrow> nat \<Rightarrow> int" where
  "ptr_compare_1 len m a b = cmpN m a b 0 (unrolled_loop m (len - 1) (a + 1) (b + 1))"

definition ptr_compare_2 :: "nat \<Rightarrow> (nat \<Rightarrow> uchar) \<Rightarrow> nat \<Rightarrow> nat \<Rightarrow> int" where
  "ptr_compare_2 len m a b =
     cmpN m a b 0 (cmpN m a b 1 (unrolled_loop m (len - 2) (a + 2) (b + 2)))"

definition ptr_compare_3 :: "nat \<Rightarrow> (nat \<Rightarrow> uchar) \<Rightarrow> nat \<Rightarrow> nat \<Rightarrow> int" where
  "ptr_compare_3 len m a b =
     cmpN m a b 0 (cmpN m a b 1 (cmpN m a b 2 (unrolled_loop m (len - 3) (a + 3) (b + 3))))"

definition get_ptr_compare :: "nat \<Rightarrow> nat \<Rightarrow> (nat \<Rightarrow> uchar) \<Rightarrow> nat \<Rightarrow> nat \<Rightarrow> int option" where
  "get_ptr_compare sz =
     (if sz < 4 then ptr_compare
      else (\<lambda>len m a b. Some
        ((if sz mod 4 = 0 then ptr_compare_0
          else if sz mod 4 = 1 then ptr_compare_1
          else if sz mod 4 = 2 then ptr_compare_2
          else ptr_compare_3) len m a b)))"

section \<open>Row pointers\<close>

text \<open>\<open>byte_of A k\<close> is \<open>(uchar) (A >> 8*k)\<close>.\<close>

definition byte_of :: "ulonglong \<Rightarrow> nat \<Rightarrow> uchar" where
  "byte_of w k = ucast (drop_bit (8 * k) w)"

definition mi_int2store :: "uchar list \<Rightarrow> ulonglong \<Rightarrow> uchar list" where
  "mi_int2store t a = t[1 := byte_of a 0, 0 := byte_of a 1]"

definition mi_int3store :: "uchar list \<Rightarrow> ulonglong \<Rightarrow> uchar list" where
  "mi_int3store t a = t[2 := byte_of a 0, 1 := byte_of a 1, 0 := byte_of a 2]"

definition mi_int4store :: "nat \<Rightarrow> uchar list \<Rightarrow> ulonglong \<Rightarrow> uchar list" where
  "mi_int4store k t a =
     t[k + 3 := byte_of a 0, k + 2 := byte_of a 1, k + 1 := byte_of a 2, k := byte_of a 3]"

definition mi_int5store :: "uchar list \<Rightarrow> ulonglong \<Rightarrow> uchar list" where
  "mi_int5store t a = (let a2 = drop_bit 32 a in
     t[4 := byte_of a 0, 3 := byte_of a 1, 2 := byte_of a 2, 1 := byte_of a 3, 0 := byte_of a2 0])"

definition mi_int6store :: "uchar list \<Rightarrow> ulonglong \<Rightarrow> uchar list" where
  "mi_int6store t a = (let a2 = drop_bit 32 a in
     t[5 := byte_of a 0, 4 := byte_of a 1, 3 := byte_of a 2, 2 := byte_of a 3,
       1 := byte_of a2 0, 0 := byte_of a2 1])"

definition mi_int7store :: "uchar list \<Rightarrow> ulonglong \<Rightarrow> uchar list" where
  "mi_int7store t a = (let a2 = drop_bit 32 a in
     t[6 := byte_of a 0, 5 := byte_of a 1, 4 := byte_of a 2, 3 := byte_of a 3,
       2 := byte_of a2 0, 1 := byte_of a2 1, 0 := byte_of a2 2])"

definition mi_int8store :: "uchar list \<Rightarrow> ulonglong \<Rightarrow> uchar list" where
  "mi_int8store t a = (let a4 = drop_bit 32 a in mi_int4store 4 (mi_int4store 0 t a4) a)"

text \<open>
  The reading macros sum shifted bytes in 32-bit arithmetic and join two halves at 64 bits;
  \<open>by4\<close> is such a 32-bit half of up to four bytes, low byte first.
\<close>

definition by4 :: "uchar \<Rightarrow> uchar \<Rightarrow> uchar \<Rightarrow> uchar \<Rightarrow> uint32" where
  "by4 b0 b1 b2 b3 =
     ucast b0 + push_bit 8 (ucast b1) + push_bit 16 (ucast b2) + push_bit 24 (ucast b3)"

definition mi_uint2korr :: "uchar list \<Rightarrow> ulonglong" where
  "mi_uint2korr a = ucast (ucast (a ! 1) + push_bit 8 (ucast (a ! 0)) :: 16 word)"

definition mi_uint3korr :: "uchar list \<Rightarrow> ulonglong" where
  "mi_uint3korr a = ucast (by4 (a ! 2) (a ! 1) (a ! 0) 0)"

definition mi_uint4korr :: "uchar list \<Rightarrow> ulonglong" where
  "mi_uint4korr a = ucast (by4 (a ! 3) (a ! 2) (a ! 1) (a ! 0))"

definition mi_uint5korr :: "uchar list \<Rightarrow> ulonglong" where
  "mi_uint5korr a = ucast (by4 (a ! 4) (a ! 3) (a ! 2) (a ! 1)) + push_bit 32 (ucast (a ! 0))"

definition mi_uint6korr :: "uchar list \<Rightarrow> ulonglong" where
  "mi_uint6korr a = ucast (by4 (a ! 5) (a ! 4) (a ! 3) (a ! 2))
     + push_bit 32 (ucast (by4 (a ! 1) (a ! 0) 0 0))"

definition mi_uint7korr :: "uchar list \<Rightarrow> ulonglong" where
  "mi_uint7korr a = ucast (by4 (a ! 6) (a ! 5) (a ! 4) (a ! 3))
     + push_bit 32 (ucast (by4 (a ! 2) (a ! 1) (a ! 0) 0))"

definition mi_uint8korr :: "uchar list \<Rightarrow> ulonglong" where
  "mi_uint8korr a = ucast (by4 (a ! 7) (a ! 6) (a ! 5) (a ! 4))
     + push_bit 32 (ucast (by4 (a ! 3) (a ! 2) (a ! 1) (a ! 0)))"

text \<open>\<open>None\<close> is the failed assertion of the \<open>default\<close> branch.\<close>

definition my_store_ptr :: "uchar list \<Rightarrow> nat \<Rightarrow> ulonglong \<Rightarrow> uchar list option" where
  "my_store_ptr buff pack_length pos =
     (if pack_length = 8 then Some (mi_int8store buff pos)
      else if pack_length = 7 then Some (mi_int7store buff pos)
      else if pack_length = 6 then Some (mi_int6store buff pos)
      else if pack_length = 5 then Some (mi_int5store buff pos)
      else if pack_length = 4 then Some (mi_int4store 0 buff pos)
      else if pack_length = 3 then Some (mi_int3store buff pos)
      else if pack_length = 2 then Some (mi_int2store buff pos)
      else if pack_length = 1 then Some (buff[0 := ucast pos])
      else None)"

definition my_get_ptr :: "uchar list \<Rightarrow> nat \<Rightarrow> ulonglong option" where
  "my_get_ptr ptr pack_length =
     (if pack_length = 8 then Some (mi_uint8korr ptr)
      else if pack_length = 7 then Some (mi_uint7korr ptr)
      else if pack_length = 6 then Some (mi_uint6korr ptr)
      else if pack_length = 5 then Some (mi_uint5korr ptr)
      else if pack_length = 4 then Some (mi_uint4korr ptr)
      else if pack_length = 3 then Some (mi_uint3korr ptr)
      else if pack_length = 2 then Some (mi_uint2korr ptr)
      else if pack_length = 1 then Some (ucast (ptr ! 0))
      else None)"

section \<open>The comparison order\<close>

lemma memcmp_zero: "memcmp m a b n = 0 \<longleftrightarrow> (\<forall>i < n. m (a + i) = m (b + i))"
proof (induction n arbitrary: a b)
  case (Suc n)
  have "(\<forall>i < Suc n. m (a + i) = m (b + i)) \<longleftrightarrow> m a = m b \<and> (\<forall>i < n. m (a + 1 + i) = m (b + 1 + i))"
    by (simp add: All_less_Suc2)
  with Suc show ?case by (auto simp: word_uint_eq_iff)
qed simp

lemma memcmp_anti: "memcmp m a b n < 0 \<longleftrightarrow> 0 < memcmp m b a n"
  by (induction n arbitrary: a b) (auto simp: word_uint_eq_iff)

lemma memcmp_trans: "memcmp m a b n \<le> 0 \<Longrightarrow> memcmp m b c n \<le> 0 \<Longrightarrow> memcmp m a c n \<le> 0"
  by (induction n arbitrary: a b c) (auto simp: word_uint_eq_iff split: if_splits)

interpretation native: comparator "native_compare len m" for len m
  by unfold_locales (auto simp: native_compare_def memcmp_anti intro: memcmp_trans)

lemma ptr_compare_loop_memcmp: "ptr_compare_loop m n a b = memcmp m a b (Suc n)"
  by (induction m n a b rule: ptr_compare_loop.induct) (auto simp: word_uint_eq_iff)

lemma cmpN_memcmp: "cmpN m a b 0 (memcmp m (a + 1) (b + 1) n) = memcmp m a b (Suc n)"
  by (simp add: cmpN_def)

lemma cmpN_shift: "cmpN m a b (Suc k) r = cmpN m (a + 1) (b + 1) k r"
  by (simp add: cmpN_def)

lemma cmp4_memcmp:
  "cmpN m a b 0 (cmpN m a b 1 (cmpN m a b 2 (cmpN m a b 3 (memcmp m (a + 4) (b + 4) n)))) = memcmp m a b (n + 4)"
  by (simp add: cmpN_def numeral_eq_Suc)

lemma cmp2_memcmp: "cmpN m a b 0 (cmpN m a b 1 (memcmp m (a + 2) (b + 2) n)) = memcmp m a b (n + 2)"
  by (simp add: cmpN_def numeral_eq_Suc)

lemma cmp3_memcmp:
  "cmpN m a b 0 (cmpN m a b 1 (cmpN m a b 2 (memcmp m (a + 3) (b + 3) n))) = memcmp m a b (n + 3)"
  by (simp add: cmpN_def numeral_eq_Suc)

lemma unrolled_memcmp: "unrolled_loop m (4 * Suc k) a b = memcmp m a b (4 * Suc k)"
proof (induction k arbitrary: a b)
  case 0
  show ?case using cmp4_memcmp [of m a b 0] by (simp add: unrolled_loop.simps [of m 4])
next
  case (Suc k)
  have e: "4 * Suc (Suc k) = 4 * Suc k + 4" "4 * Suc k \<noteq> 0" by simp_all
  show ?case unfolding e(1) unfolding cmp4_memcmp [symmetric] Suc [symmetric]
    by (subst unrolled_loop.simps) (simp only: add_diff_cancel_right' e(2) if_True not_False_eq_True)
qed

lemma unrolled_memcmp_mod: "4 \<le> n \<Longrightarrow> n mod 4 = 0 \<Longrightarrow> unrolled_loop m n a b = memcmp m a b n"
  using unrolled_memcmp [of m "n div 4 - 1" a b] by (auto simp: mod_eq_0_iff_dvd elim!: dvdE)

lemma split_mod4:
  assumes "\<not> n < (4::nat)"
  obtains k where "n = n mod 4 + 4 * Suc k"
proof -
  obtain k where "n div 4 = Suc k" using assms by (cases "n div 4") auto
  then show thesis using that mod_mult_div_eq [of n 4] by (metis add.commute)
qed

text \<open>
  Every comparison \<open>get_ptr_compare\<close> can choose, the unrolled ones included, returns what
  \<open>memcmp\<close> returns on keys of that length.
\<close>

theorem get_ptr_compare_memcmp:
  assumes "0 < sz"
  shows "get_ptr_compare sz sz m a b = Some (native_compare sz m a b)"
proof (cases "sz < 4")
  case True
  then show ?thesis using assms
    by (simp add: get_ptr_compare_def ptr_compare_def ptr_compare_loop_memcmp native_compare_def)
next
  case False
  have "sz mod 4 < 4" by simp
  then consider "sz mod 4 = 0" | "sz mod 4 = 1" | "sz mod 4 = 2" | "sz mod 4 = 3" by linarith
  then show ?thesis
  proof cases
    case 1
    then show ?thesis using False
      by (simp add: get_ptr_compare_def ptr_compare_0_def unrolled_memcmp_mod native_compare_def)
  next
    case 2
    then obtain k where "sz = 4 * Suc k + 1" using split_mod4 [OF False] by auto
    then show ?thesis using 2 False cmpN_memcmp [of m a b "sz - 1"] unrolled_memcmp [of m k "a + 1" "b + 1"]
      by (simp add: get_ptr_compare_def ptr_compare_1_def native_compare_def)
  next
    case 3
    then obtain k where "sz = 4 * Suc k + 2" using split_mod4 [OF False] by auto
    then show ?thesis using 3 False cmp2_memcmp [of m a b "sz - 2"] unrolled_memcmp [of m k "a + 2" "b + 2"]
      by (simp add: get_ptr_compare_def ptr_compare_2_def native_compare_def)
  next
    case 4
    then obtain k where "sz = 4 * Suc k + 3" using split_mod4 [OF False] by auto
    then show ?thesis using 4 False cmp3_memcmp [of m a b "sz - 3"] unrolled_memcmp [of m k "a + 3" "b + 3"]
      by (simp add: get_ptr_compare_def ptr_compare_3_def native_compare_def)
  qed
qed

section \<open>Round trip of row pointers\<close>

lemma unat_byte_of: "unat (byte_of w k) = unat w div 256 ^ k mod 256"
proof -
  have "(256::nat) ^ k = 2 ^ (8 * k)" "unat w < 18446744073709551616"
    using unsigned_less [of w, where ?'a = nat] by (simp_all add: power_mult)
  then show ?thesis unfolding byte_of_def unsigned_ucast_eq unsigned_drop_bit_eq
    by (simp add: take_bit_eq_mod drop_bit_eq_div)
qed

lemma byte_of_high: "byte_of (drop_bit 32 w) k = byte_of w (k + 4)"
  by (simp add: byte_of_def add.commute distrib_left)

lemma unat_uchar: "unat (b :: uchar) < 256"
  using unsigned_less [of b, where ?'a = nat] by simp

lemma unat_ucast_uchar: "unat (ucast (b :: uchar) :: ulonglong) = unat b"
  "unat (ucast (b :: uchar) :: uint32) = unat b" "unat (ucast (b :: uchar) :: 16 word) = unat b"
  using unat_uchar [of b] by (simp_all add: unsigned_ucast_eq take_bit_eq_mod)

lemma unat_by4:
  "unat (by4 b0 b1 b2 b3) = unat b0 + 256 * unat b1 + 65536 * unat b2 + 16777216 * unat b3"
  using unat_uchar [of b0] unat_uchar [of b1] unat_uchar [of b2] unat_uchar [of b3]
  by (simp add: by4_def unat_word_ariths push_bit_eq_mult unat_ucast_uchar)

lemma unat32: "unat (l :: uint32) < 4294967296"
  using unsigned_less [of l, where ?'a = nat] by simp

lemma unat_ucast32: "unat (ucast (l :: uint32) :: ulonglong) = unat l"
  using unat32 [of l] by (simp add: unsigned_ucast_eq take_bit_eq_mod)

lemma unat_join:
  "unat (ucast (l :: uint32) + push_bit 32 (ucast (h :: uint32)) :: ulonglong) = unat l + 4294967296 * unat h"
  using unat32 [of l] unat32 [of h]
  by (simp add: unat_word_ariths push_bit_eq_mult unat_ucast32)

lemma unat_join_byte:
  "unat (ucast (l :: uint32) + push_bit 32 (ucast (h :: uchar)) :: ulonglong) = unat l + 4294967296 * unat h"
  using unat32 [of l] unat_uchar [of h]
  by (simp add: unat_word_ariths push_bit_eq_mult unat_ucast32 unat_ucast_uchar)

text \<open>The value of the first \<open>n\<close> bytes of a buffer, high byte first.\<close>

primrec be_val :: "nat \<Rightarrow> uchar list \<Rightarrow> nat" where
  "be_val 0 bs = 0"
| "be_val (Suc n) bs = 256 * be_val n bs + unat (bs ! n)"

lemma be_val_numeral:
  "be_val (numeral k) bs = 256 * be_val (pred_numeral k) bs + unat (bs ! pred_numeral k)"
  by (simp add: numeral_eq_Suc)

definition be_bytes :: "nat \<Rightarrow> ulonglong \<Rightarrow> uchar list" where
  "be_bytes n pos = map (byte_of pos) (rev [0..<n])"

lemma be_val_be_bytes_prefix:
  "m \<le> n \<Longrightarrow> be_val m (be_bytes n pos @ rest) = unat pos div 256 ^ (n - m) mod 256 ^ m"
proof (induction m)
  case 0
  then show ?case by simp
next
  case (Suc m)
  have b: "(be_bytes n pos @ rest) ! m = byte_of pos (n - Suc m)"
    using Suc.prems by (simp add: be_bytes_def nth_append rev_nth)
  have "n - m = Suc (n - Suc m)" using Suc.prems by simp
  then have q: "unat pos div 256 ^ (n - m) = unat pos div 256 ^ (n - Suc m) div 256"
    by (simp only: power_Suc2 div_mult2_eq)
  show ?case using Suc
    by (simp add: b unat_byte_of q mod_mult2_eq)
qed

lemma be_val_be_bytes: "be_val n (be_bytes n pos @ rest) = unat pos mod 256 ^ n"
  using be_val_be_bytes_prefix [of n n pos rest] by simp

lemma pack_length_cases:
  assumes "1 \<le> n" "n \<le> (8::nat)"
  shows "n = 1 \<or> n = 2 \<or> n = 3 \<or> n = 4 \<or> n = 5 \<or> n = 6 \<or> n = 7 \<or> n = 8"
  using assms by linarith

lemma length_explicit:
  "length p = n \<Longrightarrow> p = map ((!) p) [0..<n]"
  by (metis map_nth)

lemma upt_small:
  "[0..<2] = [0, 1]" "[0..<3] = [0, 1, 2]" "[0..<4] = [0, 1, 2, 3]" "[0..<5] = [0, 1, 2, 3, 4]"
  "[0..<6] = [0, 1, 2, 3, 4, 5]" "[0..<7] = [0, 1, 2, 3, 4, 5, 6]" "[0..<8] = [0, 1, 2, 3, 4, 5, 6, 7]"
  by (simp_all add: upt_rec)

lemma my_store_ptr_bytes:
  assumes "1 \<le> n" "n \<le> 8" "length p = n"
  shows "my_store_ptr (p @ rest) n pos = Some (be_bytes n pos @ rest)"
  using pack_length_cases [OF assms(1,2)]
  by (subst length_explicit [OF assms(3)])
    (elim disjE, simp_all add: my_store_ptr_def mi_int8store_def mi_int7store_def mi_int6store_def
      mi_int5store_def mi_int4store_def mi_int3store_def mi_int2store_def Let_def byte_of_high
      be_bytes_def upt_small, simp add: byte_of_def)

lemma unat_mi_uint2korr: "unat (mi_uint2korr a) = unat (a ! 1) + 256 * unat (a ! 0)"
  using unat_uchar [of "a ! 0"] unat_uchar [of "a ! 1"]
  by (simp add: mi_uint2korr_def unsigned_ucast_eq take_bit_eq_mod unat_word_ariths push_bit_eq_mult)

lemma my_get_ptr_val:
  assumes "1 \<le> n" "n \<le> 8"
  obtains v where "my_get_ptr bs n = Some v" "unat v = be_val n bs"
proof -
  have "\<exists>v. my_get_ptr bs n = Some v \<and> unat v = be_val n bs"
    using pack_length_cases [OF assms]
    by (elim disjE) (simp_all add: my_get_ptr_def mi_uint8korr_def mi_uint7korr_def mi_uint6korr_def
      mi_uint5korr_def mi_uint4korr_def mi_uint3korr_def unat_mi_uint2korr unat_join unat_join_byte
      unat_ucast_uchar unat_ucast32 unat_by4 be_val_numeral)
  then show thesis using that by blast
qed


text \<open>
  A row pointer that fits into its length is read back as it was stored, whatever the
  buffer held before, and no other byte of the buffer changes.
\<close>

theorem my_store_get_ptr:
  assumes "1 \<le> n" "n \<le> 8" "n \<le> length buff" "unat pos < 256 ^ n"
  shows "\<exists>buff'. my_store_ptr buff n pos = Some buff' \<and> my_get_ptr buff' n = Some pos
    \<and> length buff' = length buff \<and> drop n buff' = drop n buff"
proof -
  let ?b = "be_bytes n pos @ drop n buff"
  have "my_store_ptr buff n pos = Some ?b"
    using my_store_ptr_bytes [OF assms(1,2), of "take n buff" "drop n buff"] assms(3) by simp
  moreover have "my_get_ptr ?b n = Some pos"
    using my_get_ptr_val [OF assms(1,2), of ?b] be_val_be_bytes [of n pos "drop n buff"] assms(4)
    by (metis mod_less word_unat_eq_iff)
  moreover have "length ?b = length buff" "drop n ?b = drop n buff"
    using assms(3) by (simp_all add: be_bytes_def)
  ultimately show ?thesis by blast
qed

text \<open>Row pointers of one length as a self-delimiting code.\<close>

definition ptr_enc :: "nat \<Rightarrow> ulonglong \<Rightarrow> uchar list" where
  "ptr_enc n pos = (case my_store_ptr (replicate n 0) n pos of None \<Rightarrow> [] | Some bs \<Rightarrow> bs)"

definition ptr_dec :: "nat \<Rightarrow> uchar list \<Rightarrow> (ulonglong \<times> uchar list) option" where
  "ptr_dec n bs = (if n \<le> length bs then map_option (\<lambda>v. (v, drop n bs)) (my_get_ptr bs n) else None)"

interpretation row_ptr: stream_codec "\<lambda>v. 1 \<le> n \<and> n \<le> 8 \<and> unat v < 256 ^ n" "ptr_enc n" "ptr_dec n" for n
proof
  fix v :: ulonglong and rest :: "uchar list"
  assume v: "1 \<le> n \<and> n \<le> 8 \<and> unat v < 256 ^ n"
  have e: "ptr_enc n v = be_bytes n v"
    using my_store_ptr_bytes [of n "replicate n 0" "[]" v] v by (simp add: ptr_enc_def)
  have "my_get_ptr (be_bytes n v @ rest) n = Some v"
    using my_get_ptr_val [of n "be_bytes n v @ rest"] be_val_be_bytes [of n v rest] v
    by (metis mod_less word_unat_eq_iff)
  then show "ptr_dec n (ptr_enc n v @ rest) = Some (v, rest)"
    by (simp add: e ptr_dec_def) (simp add: be_bytes_def)
qed

section \<open>Witnesses\<close>

lemma memcmp_numeral:
  "memcmp m a b (numeral k) =
     (if m a \<noteq> m b then uint (m a) - uint (m b) else memcmp m (a + 1) (b + 1) (pred_numeral k))"
  by (simp add: numeral_eq_Suc)

theorem get_ptr_compare_witness:
  "get_ptr_compare 6 6 (\<lambda>i. if i = 9 then 7 else 0) 0 4 = Some (- 7)"
proof -
  have "native_compare 6 (\<lambda>i. if i = 9 then 7 else 0) 0 4 = - 7"
    by (simp add: native_compare_def memcmp_numeral)
  with get_ptr_compare_memcmp [of 6 "\<lambda>i. if i = 9 then 7 else 0" 0 4] show ?thesis by simp
qed

theorem my_store_get_ptr_witness:
  "\<exists>b. my_store_ptr [1, 2, 3, 4, 5, 6, 7] 5 0x1234567890 = Some b \<and> my_get_ptr b 5 = Some 0x1234567890"
proof -
  have "unat (0x1234567890 :: ulonglong) < 256 ^ 5" by simp
  with my_store_get_ptr [of 5 "[1, 2, 3, 4, 5, 6, 7]" "0x1234567890"] show ?thesis by auto
qed

end
