(* ===== verification/Rb_Tree.thy ===== *)
theory Rb_Tree
  imports Prelude "HOL-Library.Monad_Syntax"
begin

text \<open>
  The red-black trees of \<open>mysys/tree.c\<close> (used for \<open>COUNT(DISTINCT)\<close>, the full-text parser,
  bulk insert and the HEAP engine).  An element carries a key, a duplicate count and a colour;
  the sentinel \<open>null_element\<close> is \<open>Null\<close>.  The array \<open>tree->parents\<close> of slot addresses is a
  list of frames, innermost first: a frame is the parent element with its other child.
  Reading a child of the sentinel (whose pointers are 0), rotating around it, and reading
  \<open>parent[-2]\<close> above the root are undefined in C; the balancing functions return \<open>None\<close> there.
\<close>

section \<open>The model\<close>

subsection \<open>State\<close>

datatype colour = RED | BLACK

datatype 'k rbt = Null | Elem "'k rbt" 'k nat colour "'k rbt"

datatype 'k frame =
    At_left 'k nat colour "'k rbt"
  | At_right "'k rbt" 'k nat colour

datatype 'k free_call = Free_init | Free_free 'k | Free_end

text \<open>
  The bits of \<open>flag\<close> and \<open>my_flags\<close> that the code tests are booleans.  \<open>free_fn\<close> is the
  \<open>tree_element_free\<close> callback applied to a key (its result for \<open>free_free\<close>) and \<open>free_log\<close>
  the calls made to it.  \<open>root = None\<close> is a tree that was never initialised.
\<close>

record ('k, 'c) TREE =
  root :: "'k rbt option"
  offset_to_key :: nat
  elements_in_tree :: nat
  size_of_element :: nat
  memory_limit :: nat
  allocated :: nat
  compare :: "'c \<Rightarrow> 'k \<Rightarrow> 'k \<Rightarrow> int"
  with_delete :: bool
  free_fn :: "('k \<Rightarrow> int) option"
  only_dups :: bool
  no_dups :: bool
  mem_block_size :: nat
  mem_min_malloc :: nat
  free_log :: "'k free_call list"

definition sizeof_TREE_ELEMENT :: nat where "sizeof_TREE_ELEMENT = 24"

definition sizeof_ptr :: nat where "sizeof_ptr = 8"

definition tree_of :: "('k, 'c) TREE \<Rightarrow> 'k rbt" where
  "tree_of t = (case root t of None \<Rightarrow> Null | Some r \<Rightarrow> r)"

fun col :: "'k rbt \<Rightarrow> colour" where
  "col Null = BLACK"
| "col (Elem l k n c r) = c"

fun set_colour :: "colour \<Rightarrow> 'k rbt \<Rightarrow> 'k rbt" where
  "set_colour c Null = Null"
| "set_colour c (Elem l k n c' r) = Elem l k n c r"

fun plug :: "'k frame \<Rightarrow> 'k rbt \<Rightarrow> 'k rbt" where
  "plug (At_left k n c r) t = Elem t k n c r"
| "plug (At_right l k n c) t = Elem l k n c t"

fun zip_up :: "'k rbt \<Rightarrow> 'k frame list \<Rightarrow> 'k rbt" where
  "zip_up t [] = t"
| "zip_up t (f # fs) = zip_up (plug f t) fs"

subsection \<open>Creation and destruction\<close>

definition init_tree :: "('k, 'c) TREE \<Rightarrow> nat \<Rightarrow> nat \<Rightarrow> int \<Rightarrow> ('c \<Rightarrow> 'k \<Rightarrow> 'k \<Rightarrow> int) \<Rightarrow>
    ('k \<Rightarrow> int) option \<Rightarrow> bool \<Rightarrow> ('k, 'c) TREE" where
  "init_tree t default_alloc_size mem_limit sz cmp free_element with_del =
     (let alloc = max default_alloc_size 8192;
          alloc = (alloc + 8191) div 8192 * 8192;
          t = t\<lparr>root := Some Null, compare := cmp, size_of_element := (if sz > 0 then nat sz else 0),
                memory_limit := mem_limit, free_fn := free_element, allocated := 0,
                elements_in_tree := 0, only_dups := False, no_dups := False\<rparr>;
          (t, alloc) =
            (if free_element = None \<and> sz \<ge> 0 \<and> (nat sz \<le> sizeof_ptr \<or> nat sz mod sizeof_ptr \<noteq> 0) then
               let n = alloc div (sizeof_TREE_ELEMENT + nat sz);
                   n = (if n = 0 then 1 else n)
               in (t\<lparr>offset_to_key := sizeof_TREE_ELEMENT\<rparr>, n * (sizeof_TREE_ELEMENT + nat sz))
             else (t\<lparr>offset_to_key := 0, size_of_element := size_of_element t + sizeof_ptr\<rparr>, alloc));
          t = t\<lparr>with_delete := with_del\<rparr>
      in if with_del then t
         else t\<lparr>mem_block_size := alloc, mem_min_malloc := sizeof_TREE_ELEMENT + size_of_element t\<rparr>)"

text \<open>\<open>delete_tree_element\<close>: the error it returns and the callback calls it makes.\<close>

fun delete_tree_element :: "('k \<Rightarrow> int) option \<Rightarrow> 'k rbt \<Rightarrow> bool \<Rightarrow> int \<times> 'k free_call list" where
  "delete_tree_element free_f Null abort = (0, [])"
| "delete_tree_element free_f (Elem l k n c r) abort =
     (let (first_error, log1) = delete_tree_element free_f l abort;
          abort = (abort \<or> first_error \<noteq> 0);
          (first_error, abort, log2) =
            (case free_f of
               Some f \<Rightarrow>
                 if \<not> abort then
                   let error = f k in
                   if error \<noteq> 0 then (if first_error \<noteq> 0 then first_error else error, True, [Free_free k])
                   else (first_error, abort, [Free_free k])
                 else (first_error, abort, [])
             | None \<Rightarrow> (first_error, abort, []));
          (error, log3) = delete_tree_element free_f r abort
      in (if error \<noteq> 0 then if first_error \<noteq> 0 then first_error else error else first_error,
          log1 @ log2 @ log3))"

definition free_tree :: "('k, 'c) TREE \<Rightarrow> bool \<Rightarrow> ('k, 'c) TREE \<times> int" where
  "free_tree t abort =
     (let (error, log) =
        (case root t of None \<Rightarrow> (0, [])
         | Some r \<Rightarrow>
             if with_delete t then delete_tree_element (free_fn t) r abort
             else if free_fn t \<noteq> None then
               let (error, log) = delete_tree_element (free_fn t) r abort
               in (error, (if memory_limit t \<noteq> 0 then [Free_init] else []) @ log
                          @ (if memory_limit t \<noteq> 0 then [Free_end] else []))
             else (0, []))
      in (t\<lparr>root := Some Null, elements_in_tree := 0, allocated := 0, free_log := free_log t @ log\<rparr>, error))"

definition delete_tree :: "('k, 'c) TREE \<Rightarrow> bool \<Rightarrow> ('k, 'c) TREE \<times> int" where
  "delete_tree t abort = free_tree t abort"

definition reset_tree :: "('k, 'c) TREE \<Rightarrow> ('k, 'c) TREE \<times> int" where
  "reset_tree t = free_tree t False"

subsection \<open>Rotations and balancing\<close>

fun left_rotate :: "'k rbt \<Rightarrow> 'k rbt option" where
  "left_rotate (Elem a k n c (Elem b k' n' c' d)) = Some (Elem (Elem a k n c b) k' n' c' d)"
| "left_rotate _ = None"

fun right_rotate :: "'k rbt \<Rightarrow> 'k rbt option" where
  "right_rotate (Elem (Elem a k' n' c' b) k n c d) = Some (Elem a k' n' c' (Elem b k n c d))"
| "right_rotate _ = None"

fun frame_col :: "'k frame \<Rightarrow> colour" where
  "frame_col (At_left k n c r) = c"
| "frame_col (At_right l k n c) = c"

fun frame_set_col :: "colour \<Rightarrow> 'k frame \<Rightarrow> 'k frame" where
  "frame_set_col c (At_left k n c' r) = At_left k n c r"
| "frame_set_col c (At_right l k n c') = At_right l k n c"

text \<open>
  The loop of \<open>rb_insert\<close>: \<open>leaf\<close> is red and stands below the frames; \<open>p\<close> is \<open>par\<close>, the next
  frame \<open>par2\<close>.
\<close>

fun rb_insert_loop :: "'k rbt \<Rightarrow> 'k frame list \<Rightarrow> 'k rbt option" where
  "rb_insert_loop leaf [] = Some (set_colour BLACK leaf)"
| "rb_insert_loop leaf [p] =
     (if frame_col p = RED then None else Some (set_colour BLACK (zip_up leaf [p])))"
| "rb_insert_loop leaf (p # At_left k n c y # gs) =
     (if frame_col p = RED then
        if col y = RED then
          rb_insert_loop (Elem (plug (frame_set_col BLACK p) leaf) k n RED (set_colour BLACK y)) gs
        else do {
          par \<leftarrow> (case p of At_right _ _ _ _ \<Rightarrow> left_rotate (plug p leaf) | At_left _ _ _ _ \<Rightarrow> Some (plug p leaf));
          sub \<leftarrow> right_rotate (Elem (set_colour BLACK par) k n RED y);
          Some (set_colour BLACK (zip_up sub gs)) }
      else Some (set_colour BLACK (zip_up leaf (p # At_left k n c y # gs))))"
| "rb_insert_loop leaf (p # At_right y k n c # gs) =
     (if frame_col p = RED then
        if col y = RED then
          rb_insert_loop (Elem (set_colour BLACK y) k n RED (plug (frame_set_col BLACK p) leaf)) gs
        else do {
          par \<leftarrow> (case p of At_left _ _ _ _ \<Rightarrow> right_rotate (plug p leaf) | At_right _ _ _ _ \<Rightarrow> Some (plug p leaf));
          sub \<leftarrow> left_rotate (Elem y k n RED (set_colour BLACK par));
          Some (set_colour BLACK (zip_up sub gs)) }
      else Some (set_colour BLACK (zip_up leaf (p # At_right y k n c # gs))))"

definition rb_insert :: "'k rbt \<Rightarrow> 'k frame list \<Rightarrow> 'k rbt option" where
  "rb_insert leaf fs = rb_insert_loop (set_colour RED leaf) fs"

text \<open>
  The part of the loop of \<open>rb_delete_fixup\<close> behind the red-sibling case, for \<open>x\<close> on the left
  of \<open>par\<close>: \<open>Inl\<close> the new \<open>x\<close> one level up, \<open>Inr\<close> the finished subtree.  The sibling's
  children are read, so the sibling must not be the sentinel.
\<close>

fun fixup_left :: "'k rbt \<Rightarrow> 'k \<Rightarrow> nat \<Rightarrow> colour \<Rightarrow> 'k rbt \<Rightarrow> ('k rbt + 'k rbt) option" where
  "fixup_left x k n c Null = None"
| "fixup_left x k n c (Elem wl wk wn wc wr) =
     (if col wl = BLACK \<and> col wr = BLACK then Some (Inl (Elem x k n c (Elem wl wk wn RED wr)))
      else do {
        w \<leftarrow> (if col wr = BLACK then right_rotate (Elem (set_colour BLACK wl) wk wn RED wr)
              else Some (Elem wl wk wn wc wr));
        sub \<leftarrow> (case w of Null \<Rightarrow> None
              | Elem a k' n' c' b \<Rightarrow> left_rotate (Elem x k n BLACK (Elem a k' n' c (set_colour BLACK b))));
        Some (Inr sub) })"

fun fixup_right :: "'k rbt \<Rightarrow> 'k \<Rightarrow> nat \<Rightarrow> colour \<Rightarrow> 'k rbt \<Rightarrow> ('k rbt + 'k rbt) option" where
  "fixup_right Null k n c x = None"
| "fixup_right (Elem wl wk wn wc wr) k n c x =
     (if col wr = BLACK \<and> col wl = BLACK then Some (Inl (Elem (Elem wl wk wn RED wr) k n c x))
      else do {
        w \<leftarrow> (if col wl = BLACK then left_rotate (Elem wl wk wn RED (set_colour BLACK wr))
              else Some (Elem wl wk wn wc wr));
        sub \<leftarrow> (case w of Null \<Rightarrow> None
              | Elem a k' n' c' b \<Rightarrow> right_rotate (Elem (Elem (set_colour BLACK a) k' n' c b) k n BLACK x));
        Some (Inr sub) })"

lemma fixup_left_Inl: "fixup_left x k n c w = Some (Inl x') \<Longrightarrow> col x' = c"
  by (cases w) (auto split: if_splits Option.bind_splits)

lemma fixup_right_Inl: "fixup_right w k n c x = Some (Inl x') \<Longrightarrow> col x' = c"
  by (cases w) (auto split: if_splits Option.bind_splits)

text \<open>
  \<open>rb_delete_fixup\<close>.  The test \<open>x == par->left\<close> compares pointers: with \<open>x\<close> the sentinel on the
  right and the sentinel also on the left it would take the left branch and read the sentinel's
  children, so both branches are undefined exactly when the sibling is the sentinel.
\<close>

function rb_delete_fixup :: "'k rbt \<Rightarrow> 'k frame list \<Rightarrow> 'k rbt option" where
  "rb_delete_fixup x [] = Some (set_colour BLACK x)"
| "rb_delete_fixup x (At_left k n c w # fs) =
     (if col x = RED then Some (zip_up (set_colour BLACK x) (At_left k n c w # fs))
      else
        case (case w of Elem wl wk wn RED wr \<Rightarrow>
                (fixup_left x k n RED wl, At_left wk wn BLACK wr # fs)
              | _ \<Rightarrow> (fixup_left x k n c w, fs))
        of (None, fs') \<Rightarrow> None
         | (Some (Inl x'), fs') \<Rightarrow> rb_delete_fixup x' fs'
         | (Some (Inr sub), fs') \<Rightarrow> Some (set_colour BLACK (zip_up sub fs')))"
| "rb_delete_fixup x (At_right w k n c # fs) =
     (if col x = RED then Some (zip_up (set_colour BLACK x) (At_right w k n c # fs))
      else
        case (case w of Elem wl wk wn RED wr \<Rightarrow>
                (fixup_right wr k n RED x, At_right wl wk wn BLACK # fs)
              | _ \<Rightarrow> (fixup_right w k n c x, fs))
        of (None, fs') \<Rightarrow> None
         | (Some (Inl x'), fs') \<Rightarrow> rb_delete_fixup x' fs'
         | (Some (Inr sub), fs') \<Rightarrow> Some (set_colour BLACK (zip_up sub fs')))"
  by pat_completeness auto

termination
  by (relation "measure (\<lambda>(x, fs). if col x = RED then 0 else Suc (length fs))")
    (auto split: rbt.splits colour.splits dest!: fixup_left_Inl fixup_right_Inl sym [of "Some _"])


subsection \<open>Insertion and deletion\<close>

text \<open>
  The search loop of \<open>tree_insert\<close> and \<open>tree_delete\<close>; \<open>cmp k\<close> stands for
  \<open>(*tree->compare)(custom_arg, k, key)\<close>.
\<close>

fun descend :: "('k \<Rightarrow> int) \<Rightarrow> 'k rbt \<Rightarrow> 'k frame list \<Rightarrow> 'k rbt \<times> 'k frame list" where
  "descend cmp Null fs = (Null, fs)"
| "descend cmp (Elem l k n c r) fs =
     (if cmp k = 0 then (Elem l k n c r, fs)
      else if cmp k < 0 then descend cmp r (At_right l k n c # fs)
      else descend cmp l (At_left k n c r # fs))"

text \<open>The result of \<open>tree_insert\<close>: an element, \<open>TREE_ELEMENT_UNIQUE\<close> or a null pointer.\<close>

datatype 'k insert_result = Element 'k nat | Element_unique | No_element

text \<open>\<open>count\<close> has 31 bits; incrementing the largest value leaves it.\<close>

definition count_inc :: "nat \<Rightarrow> nat" where
  "count_inc n = (let m = (n + 1) mod 2 ^ 31 in if m = 0 then (m + 2 ^ 31 - 1) mod 2 ^ 31 else m)"

lemma elements_free_tree [simp]: "elements_in_tree (fst (free_tree t abort)) = 0"
  by (simp add: free_tree_def split: prod.split)

function tree_insert :: "('k, 'c) TREE \<Rightarrow> 'k \<Rightarrow> nat \<Rightarrow> 'c \<Rightarrow> bool \<Rightarrow> (('k, 'c) TREE \<times> 'k insert_result) option" where
  "tree_insert t key key_size arg ok =
     (case descend (\<lambda>k. compare t arg k key) (tree_of t) [] of
        (Null, fs) \<Rightarrow>
          if only_dups t then Some (t, Element_unique)
          else
            let alloc_size = u32 (sizeof_TREE_ELEMENT + key_size + size_of_element t);
                t1 = t\<lparr>allocated := u64 (allocated t + alloc_size)\<rparr>
            in if memory_limit t1 \<noteq> 0 \<and> elements_in_tree t1 \<noteq> 0 \<and> allocated t1 > memory_limit t1
               then tree_insert (fst (reset_tree t1)) key key_size arg ok
               else if \<not> ok then Some (t1, No_element)
               else do {
                 r \<leftarrow> rb_insert (Elem Null key 1 RED Null) fs;
                 Some (t1\<lparr>root := Some r, elements_in_tree := u32 (elements_in_tree t1 + 1)\<rparr>, Element key 1) }
      | (Elem l k n c r, fs) \<Rightarrow>
          if no_dups t then Some (t, No_element)
          else Some (t\<lparr>root := Some (zip_up (Elem l k (count_inc n) c r) fs)\<rparr>, Element k (count_inc n)))"
  by pat_completeness auto

termination
  by (relation "measure (\<lambda>(t, key, ks, arg, ok). elements_in_tree t)") (simp_all add: reset_tree_def)

declare tree_insert.simps [simp del]

text \<open>The leftmost element below \<open>nod\<close>: its key, count, colour, right child and the frames above.\<close>

fun min_path :: "'k rbt \<Rightarrow> 'k frame list \<Rightarrow> ('k \<times> nat \<times> colour \<times> 'k rbt \<times> 'k frame list) option" where
  "min_path Null fs = None"
| "min_path (Elem Null k n c r) fs = Some (k, n, c, r, fs)"
| "min_path (Elem (Elem ll lk ln lc lr) k n c r) fs = min_path (Elem ll lk ln lc lr) (At_left k n c r # fs)"

text \<open>Unlinking the element: the subtree that takes the free place, its frames, the removed colour.\<close>

definition unlink :: "'k rbt \<Rightarrow> colour \<Rightarrow> 'k rbt \<Rightarrow> 'k frame list \<Rightarrow> ('k rbt \<times> 'k frame list \<times> colour) option" where
  "unlink l c r fs =
     (case l of Null \<Rightarrow> Some (r, fs, c)
      | Elem _ _ _ _ _ \<Rightarrow>
          (case r of Null \<Rightarrow> Some (l, fs, c)
           | Elem _ _ _ _ _ \<Rightarrow> do {
               (nk, nn, nc, nr, path) \<leftarrow> min_path r [];
               Some (nr, path @ At_right l nk nn c # fs, nc) }))"

definition tree_delete :: "('k, 'c) TREE \<Rightarrow> 'k \<Rightarrow> nat \<Rightarrow> 'c \<Rightarrow> (('k, 'c) TREE \<times> int) option" where
  "tree_delete t key key_size arg =
     (if \<not> with_delete t then Some (t, 1)
      else case descend (\<lambda>k. compare t arg k key) (tree_of t) [] of
        (Null, fs) \<Rightarrow> Some (t, 1)
      | (Elem l k n c r, fs) \<Rightarrow> do {
          (x, fs', remove_colour) \<leftarrow> unlink l c r fs;
          r' \<leftarrow> (if remove_colour = BLACK then rb_delete_fixup x fs' else Some (zip_up x fs'));
          Some (t\<lparr>root := Some r',
            free_log := free_log t @ (if free_fn t \<noteq> None then [Free_free k] else []),
            allocated := u64 (allocated t + 2 ^ 64 - u64 (sizeof_TREE_ELEMENT + size_of_element t + key_size)),
            elements_in_tree := u32 (elements_in_tree t + 2 ^ 32 - 1)\<rparr>, 0) })"

subsection \<open>Searching\<close>

fun search_loop :: "('k \<Rightarrow> int) \<Rightarrow> 'k rbt \<Rightarrow> 'k option" where
  "search_loop cmp Null = None"
| "search_loop cmp (Elem l k n c r) =
     (if cmp k = 0 then Some k else if cmp k < 0 then search_loop cmp r else search_loop cmp l)"

definition tree_search :: "('k, 'c) TREE \<Rightarrow> 'k \<Rightarrow> 'c \<Rightarrow> 'k option" where
  "tree_search t key arg = search_loop (\<lambda>k. compare t arg k key) (tree_of t)"

datatype ha_rkey_function =
    HA_READ_KEY_EXACT | HA_READ_KEY_OR_NEXT | HA_READ_KEY_OR_PREV | HA_READ_AFTER_KEY
  | HA_READ_BEFORE_KEY | HA_READ_PREFIX | HA_READ_PREFIX_LAST | HA_READ_PREFIX_LAST_OR_PREV
  | HA_READ_MBR_CONTAIN | HA_READ_MBR_INTERSECT | HA_READ_MBR_WITHIN | HA_READ_MBR_DISJOINT
  | HA_READ_MBR_EQUAL

text \<open>
  The caller's array \<open>parents\<close> is the list of elements from the current one up to the root; a
  pointer into it is the list from that position on, and the empty list is the sentinel the
  array starts with.  \<open>None\<close> of a step pointer is \<open>NULL\<close>.
\<close>

type_synonym 'k cursor = "'k rbt list"

fun key_of :: "'k cursor \<Rightarrow> 'k option" where
  "key_of (Elem l k n c r # xs) = Some k"
| "key_of _ = None"

text \<open>On equality the flag turns the comparison to 1 or -1; other flags return \<open>NULL\<close>.\<close>

definition equal_step :: "ha_rkey_function \<Rightarrow> (bool \<times> int) option" where
  "equal_step flag =
     (case flag of
        HA_READ_KEY_EXACT \<Rightarrow> Some (True, 1) | HA_READ_KEY_OR_NEXT \<Rightarrow> Some (True, 1)
      | HA_READ_BEFORE_KEY \<Rightarrow> Some (True, 1) | HA_READ_KEY_OR_PREV \<Rightarrow> Some (True, 1)
      | HA_READ_AFTER_KEY \<Rightarrow> Some (False, - 1)
      | HA_READ_PREFIX_LAST \<Rightarrow> Some (True, - 1) | HA_READ_PREFIX_LAST_OR_PREV \<Rightarrow> Some (True, - 1)
      | _ \<Rightarrow> None)"

fun search_key_loop :: "('k \<Rightarrow> int) \<Rightarrow> ha_rkey_function \<Rightarrow> 'k rbt \<Rightarrow> 'k cursor \<Rightarrow> 'k cursor option \<Rightarrow>
    'k cursor option \<Rightarrow> 'k cursor option \<Rightarrow> ('k cursor option \<times> 'k cursor option \<times> 'k cursor option) option" where
  "search_key_loop cmp flag Null ps llsp lrsp leq = Some (llsp, lrsp, leq)"
| "search_key_loop cmp flag (Elem l k n c r) ps llsp lrsp leq =
     (let ps = Elem l k n c r # ps in
      case (if cmp k = 0 then equal_step flag else Some (False, cmp k)) of
        None \<Rightarrow> None
      | Some (eq, d) \<Rightarrow>
          let leq = (if eq then Some ps else leq) in
          if d < 0 then search_key_loop cmp flag r ps llsp (Some ps) leq
          else search_key_loop cmp flag l ps (Some ps) lrsp leq)"

definition or_else :: "'a option \<Rightarrow> 'a option \<Rightarrow> 'a option" where
  "or_else a b = (case a of None \<Rightarrow> b | Some x \<Rightarrow> Some x)"

definition tree_search_key :: "('k, 'c) TREE \<Rightarrow> 'k \<Rightarrow> 'k cursor option \<Rightarrow> ha_rkey_function \<Rightarrow> 'c \<Rightarrow>
    'k cursor option \<times> 'k option" where
  "tree_search_key t key last_pos flag arg =
     (case search_key_loop (\<lambda>k. compare t arg k key) flag (tree_of t) [] None None None of
        None \<Rightarrow> (last_pos, None)
      | Some (llsp, lrsp, leq) \<Rightarrow>
          let pos =
            (case flag of
               HA_READ_KEY_EXACT \<Rightarrow> Some leq | HA_READ_PREFIX_LAST \<Rightarrow> Some leq
             | HA_READ_KEY_OR_NEXT \<Rightarrow> Some (or_else leq llsp)
             | HA_READ_AFTER_KEY \<Rightarrow> Some llsp
             | HA_READ_PREFIX_LAST_OR_PREV \<Rightarrow> Some (or_else leq lrsp)
             | HA_READ_BEFORE_KEY \<Rightarrow> Some lrsp
             | HA_READ_KEY_OR_PREV \<Rightarrow> Some (or_else leq lrsp)
             | _ \<Rightarrow> None)
          in case pos of None \<Rightarrow> (last_pos, None)
             | Some p \<Rightarrow> (p, case p of None \<Rightarrow> None | Some ps \<Rightarrow> key_of ps))"

datatype side = Left_child | Right_child

fun child :: "'k rbt \<Rightarrow> side \<Rightarrow> 'k rbt" where
  "child Null s = Null"
| "child (Elem l k n c r) s = (case s of Left_child \<Rightarrow> l | Right_child \<Rightarrow> r)"

lemma size_child [simp]: "x \<noteq> Null \<Longrightarrow> size (child x s) < size x"
  by (cases x; cases s) auto

function edge_loop :: "side \<Rightarrow> 'k rbt \<Rightarrow> 'k cursor \<Rightarrow> 'k cursor" where
  "edge_loop s x ps = (if x = Null then ps else edge_loop s (child x s) (x # ps))"
  by pat_completeness auto
termination by (relation "measure (\<lambda>(s, x, ps). size x)") auto

declare edge_loop.simps [simp del]

definition tree_search_edge :: "('k, 'c) TREE \<Rightarrow> side \<Rightarrow> 'k cursor \<times> 'k option" where
  "tree_search_edge t s = (let ps = edge_loop s (tree_of t) [] in (ps, key_of ps))"

text \<open>
  The upward loop of \<open>tree_search_next\<close>; \<open>x == ELEMENT_CHILD(y, r_offs)\<close> compares element
  addresses, which for the elements of one search tree (distinct keys) is equality of the
  subtrees.
\<close>

fun next_up :: "side \<Rightarrow> 'k rbt \<Rightarrow> 'k cursor \<Rightarrow> 'k cursor \<times> 'k option" where
  "next_up r_offs x [] = ([], None)"
| "next_up r_offs x (y # ys) =
     (if x = child y r_offs then next_up r_offs y ys else (y # ys, key_of (y # ys)))"

fun tree_search_next :: "'k cursor \<Rightarrow> side \<Rightarrow> side \<Rightarrow> 'k cursor \<times> 'k option" where
  "tree_search_next [] l_offs r_offs = ([], None)"
| "tree_search_next (x # ys) l_offs r_offs =
     (if child x r_offs \<noteq> Null then
        let ps = edge_loop l_offs (child (child x r_offs) l_offs) (child x r_offs # x # ys)
        in (ps, key_of ps)
      else next_up r_offs x ys)"

subsection \<open>Walking\<close>

text \<open>The walks return the error and the \<open>(key, count)\<close> pairs the action was called with.\<close>

fun walk_left_root_right :: "('k \<Rightarrow> nat \<Rightarrow> int) \<Rightarrow> 'k rbt \<Rightarrow> int \<times> ('k \<times> nat) list" where
  "walk_left_root_right action Null = (0, [])"
| "walk_left_root_right action (Elem l k n c r) =
     (let (error, log1) = walk_left_root_right action l in
      if error = 0 then
        let error = action k n in
        if error = 0 then let (error, log2) = walk_left_root_right action r in (error, log1 @ (k, n) # log2)
        else (error, log1 @ [(k, n)])
      else (error, log1))"

fun walk_right_root_left :: "('k \<Rightarrow> nat \<Rightarrow> int) \<Rightarrow> 'k rbt \<Rightarrow> int \<times> ('k \<times> nat) list" where
  "walk_right_root_left action Null = (0, [])"
| "walk_right_root_left action (Elem l k n c r) =
     (let (error, log1) = walk_right_root_left action r in
      if error = 0 then
        let error = action k n in
        if error = 0 then let (error, log2) = walk_right_root_left action l in (error, log1 @ (k, n) # log2)
        else (error, log1 @ [(k, n)])
      else (error, log1))"

datatype tree_walk_order = Left_root_right | Right_root_left

definition tree_walk :: "('k, 'c) TREE \<Rightarrow> ('k \<Rightarrow> nat \<Rightarrow> int) \<Rightarrow> tree_walk_order \<Rightarrow> int \<times> ('k \<times> nat) list" where
  "tree_walk t action visit =
     (case visit of Left_root_right \<Rightarrow> walk_left_root_right action (tree_of t)
      | Right_root_left \<Rightarrow> walk_right_root_left action (tree_of t))"

text \<open>The debug check of the red-black properties: the black height, or -1.\<close>

fun test_rb_tree :: "'k rbt \<Rightarrow> int" where
  "test_rb_tree Null = 0"
| "test_rb_tree (Elem l k n c r) =
     (if c = RED \<and> (col l = RED \<or> col r = RED) then - 1
      else
        let count_l = test_rb_tree l; count_r = test_rb_tree r in
        if count_l \<ge> 0 \<and> count_r \<ge> 0 then
          if count_l = count_r then count_l + (if c = BLACK then 1 else 0) else - 1
        else - 1)"


declare rb_delete_fixup.simps(2,3) [simp del]

section \<open>Red-black invariants of a tree and of its context\<close>

fun bh :: "'k rbt \<Rightarrow> nat" where
  "bh Null = 0"
| "bh (Elem l k n c r) = (if c = BLACK then Suc (bh l) else bh l)"

fun invc :: "'k rbt \<Rightarrow> bool" where
  "invc Null = True"
| "invc (Elem l k n c r) = (invc l \<and> invc r \<and> (c = RED \<longrightarrow> col l = BLACK \<and> col r = BLACK))"

fun invh :: "'k rbt \<Rightarrow> bool" where
  "invh Null = True"
| "invh (Elem l k n c r) = (invh l \<and> invh r \<and> bh l = bh r)"

definition rb :: "'k rbt \<Rightarrow> bool" where
  "rb t \<longleftrightarrow> invc t \<and> invh t \<and> col t = BLACK"

fun top_black :: "'k frame list \<Rightarrow> bool" where
  "top_black [] = False"
| "top_black (f # fs) = (frame_col f = BLACK)"

text \<open>
  \<open>ctx h fs\<close>: the frames are those of a red-black tree around a subtree of black height \<open>h\<close>;
  a red frame stands below a black one.
\<close>

fun ctx :: "nat \<Rightarrow> 'k frame list \<Rightarrow> bool" where
  "ctx h [] = True"
| "ctx h (At_left k n c s # fs) = (invc s \<and> invh s \<and> bh s = h
     \<and> (c = RED \<longrightarrow> col s = BLACK \<and> top_black fs) \<and> ctx (if c = BLACK then Suc h else h) fs)"
| "ctx h (At_right s k n c # fs) = (invc s \<and> invh s \<and> bh s = h
     \<and> (c = RED \<longrightarrow> col s = BLACK \<and> top_black fs) \<and> ctx (if c = BLACK then Suc h else h) fs)"

fun inorder :: "'k rbt \<Rightarrow> ('k \<times> nat) list" where
  "inorder Null = []"
| "inorder (Elem l k n c r) = inorder l @ (k, n) # inorder r"

fun before :: "'k frame list \<Rightarrow> ('k \<times> nat) list" where
  "before [] = []"
| "before (At_left k n c s # fs) = before fs"
| "before (At_right s k n c # fs) = before fs @ inorder s @ [(k, n)]"

fun after :: "'k frame list \<Rightarrow> ('k \<times> nat) list" where
  "after [] = []"
| "after (At_left k n c s # fs) = (k, n) # inorder s @ after fs"
| "after (At_right s k n c # fs) = after fs"

lemma inorder_zip_up: "inorder (zip_up t fs) = before fs @ inorder t @ after fs"
proof (induction fs arbitrary: t)
  case (Cons f fs)
  then show ?case by (cases f) auto
qed simp

lemma set_colour_simps [simp]:
  "inorder (set_colour c t) = inorder t" "invh (set_colour BLACK t) = invh t"
  "invc t \<Longrightarrow> invc (set_colour BLACK t)" "col (set_colour BLACK t) = BLACK"
  "bh (set_colour BLACK t) = (if col t = RED then Suc (bh t) else bh t)"
  by (cases t; auto intro: colour.exhaust)+

lemma col_RED: "(c \<noteq> RED) = (c = BLACK)" "(c \<noteq> BLACK) = (c = RED)"
  by (cases c; simp)+

lemma zip_up_rb:
  assumes "invc t" "invh t" "ctx (bh t) fs" "fs = [] \<Longrightarrow> col t = BLACK"
    "fs \<noteq> [] \<Longrightarrow> \<not> top_black fs \<Longrightarrow> col t = BLACK"
  shows "rb (zip_up t fs)"
  using assms
proof (induction fs arbitrary: t)
  case Nil
  then show ?case by (simp add: rb_def)
next
  case (Cons f fs)
  have tb: "fs = [] \<Longrightarrow> \<not> top_black fs" by simp
  show ?case
  proof (cases f)
    case (At_left k n c s)
    have "rb (zip_up (Elem t k n c s) fs)"
      by (rule Cons.IH) (use Cons.prems At_left tb in \<open>auto simp: col_RED split: if_splits\<close>)
    then show ?thesis by (simp add: At_left)
  next
    case (At_right s k n c)
    have "rb (zip_up (Elem s k n c t) fs)"
      by (rule Cons.IH) (use Cons.prems At_right tb in \<open>auto simp: col_RED split: if_splits\<close>)
    then show ?thesis by (simp add: At_right)
  qed
qed

lemma rb_root_black: "rb t \<Longrightarrow> set_colour BLACK t = t"
  by (cases t) (auto simp: rb_def)

subsection \<open>Insertion\<close>

lemma rb_insert_loop_correct:
  assumes "invc leaf" "invh leaf" "col leaf = RED" "ctx (bh leaf) fs"
  shows "\<exists>t. rb_insert_loop leaf fs = Some t \<and> rb t \<and> inorder t = before fs @ inorder leaf @ after fs"
  using assms
proof (induction leaf fs rule: rb_insert_loop.induct)
  case (1 leaf)
  then show ?case by (simp add: rb_def)
next
  case (2 leaf p)
  then have "frame_col p = BLACK" by (cases p) (auto simp: col_RED)
  moreover have "rb (zip_up leaf [p])" by (rule zip_up_rb) (use 2 \<open>frame_col p = BLACK\<close> in auto)
  ultimately show ?case using inorder_zip_up [of leaf "[p]"] by (simp add: rb_root_black)
next
  case (3 leaf p k n c y gs)
  show ?case
  proof (cases "frame_col p = RED")
    case True
    then have c: "c = BLACK" using 3(5) by (cases p) auto
    show ?thesis
    proof (cases "col y = RED")
      case red: True
      show ?thesis using 3(1) [OF True red] 3(2-5) c red True
        by (cases p; cases y) (auto simp: col_RED)
    next
      case False
      obtain par where par: "(case p of At_right _ _ _ _ \<Rightarrow> left_rotate (plug p leaf) | At_left _ _ _ _ \<Rightarrow> Some (plug p leaf)) = Some par"
        "invc (set_colour BLACK par)" "invh par" "bh par = bh leaf" "inorder par = inorder (plug p leaf)"
        "\<exists>a k' n' b. par = Elem a k' n' RED b \<and> col a = RED \<and> col b = BLACK"
        using 3(2-5) True by (cases p; cases leaf) (auto simp: col_RED)
      then obtain a k' n' b where ab: "par = Elem a k' n' RED b" "col a = RED" "col b = BLACK" by blast
      have cy: "invc y" "invh y" "bh y = bh leaf" "ctx (Suc (bh leaf)) gs" using 3(5) c True by (cases p; auto)+
      let ?sub = "Elem a k' n' BLACK (Elem b k n RED y)"
      have "rb (zip_up ?sub gs)" by (rule zip_up_rb) (use par ab cy False in \<open>auto simp: col_RED\<close>)
      moreover have "inorder ?sub = inorder (plug p leaf) @ (k, n) # inorder y" using par(5) ab by simp
      moreover have "rb_insert_loop leaf (p # At_left k n c y # gs) = Some (set_colour BLACK (zip_up ?sub gs))"
        using True False par(1) ab by simp
      ultimately show ?thesis by (cases p) (auto simp: rb_root_black inorder_zip_up)
    qed
  next
    case False
    have "rb (zip_up leaf (p # At_left k n c y # gs))"
      by (rule zip_up_rb) (use 3(2-5) False in \<open>auto simp: col_RED\<close>)
    then show ?thesis using False inorder_zip_up [of leaf "p # At_left k n c y # gs"]
      by (simp add: rb_root_black del: zip_up.simps)
  qed
next
  case (4 leaf p y k n c gs)
  show ?case
  proof (cases "frame_col p = RED")
    case True
    then have c: "c = BLACK" using 4(5) by (cases p) auto
    show ?thesis
    proof (cases "col y = RED")
      case red: True
      show ?thesis using 4(1) [OF True red] 4(2-5) c red True
        by (cases p; cases y) (auto simp: col_RED)
    next
      case False
      obtain par where par: "(case p of At_left _ _ _ _ \<Rightarrow> right_rotate (plug p leaf) | At_right _ _ _ _ \<Rightarrow> Some (plug p leaf)) = Some par"
        "invc (set_colour BLACK par)" "invh par" "bh par = bh leaf" "inorder par = inorder (plug p leaf)"
        "\<exists>a k' n' b. par = Elem a k' n' RED b \<and> col b = RED \<and> col a = BLACK"
        using 4(2-5) True by (cases p; cases leaf) (auto simp: col_RED)
      then obtain a k' n' b where ab: "par = Elem a k' n' RED b" "col b = RED" "col a = BLACK" by blast
      have cy: "invc y" "invh y" "bh y = bh leaf" "ctx (Suc (bh leaf)) gs" using 4(5) c True by (cases p; auto)+
      let ?sub = "Elem (Elem y k n RED a) k' n' BLACK b"
      have "rb (zip_up ?sub gs)" by (rule zip_up_rb) (use par ab cy False in \<open>auto simp: col_RED\<close>)
      moreover have "inorder ?sub = inorder y @ (k, n) # inorder (plug p leaf)" using par(5) ab by simp
      moreover have "rb_insert_loop leaf (p # At_right y k n c # gs) = Some (set_colour BLACK (zip_up ?sub gs))"
        using True False par(1) ab by simp
      ultimately show ?thesis by (cases p) (auto simp: rb_root_black inorder_zip_up)
    qed
  next
    case False
    have "rb (zip_up leaf (p # At_right y k n c # gs))"
      by (rule zip_up_rb) (use 4(2-5) False in \<open>auto simp: col_RED\<close>)
    then show ?thesis using False inorder_zip_up [of leaf "p # At_right y k n c # gs"]
      by (simp add: rb_root_black del: zip_up.simps)
  qed
qed


subsection \<open>Deletion\<close>

text \<open>
  What one round of the fix-up gives for a deficient \<open>x\<close> next to a black sibling: a new
  deficient subtree one level up (which may be a red element over a red child), or a subtree
  of the right height with the parent's colour.
\<close>

definition fixed :: "'k rbt \<Rightarrow> colour \<Rightarrow> ('k \<times> nat) list \<Rightarrow> 'k rbt + 'k rbt \<Rightarrow> bool" where
  "fixed x c xs res = (case res of
     Inl x' \<Rightarrow> invc (set_colour BLACK x') \<and> invh x' \<and> bh x' = (if c = BLACK then Suc (bh x) else bh x)
       \<and> col x' = c \<and> inorder x' = xs
   | Inr s \<Rightarrow> invc s \<and> invh s \<and> bh s = (if c = BLACK then Suc (Suc (bh x)) else Suc (bh x))
       \<and> col s = c \<and> inorder s = xs)"

lemma fixup_left_fixed:
  assumes x: "invc x" "invh x" "col x = BLACK" and w: "invc w" "invh w" "bh w = Suc (bh x)" "col w = BLACK"
  shows "\<exists>res. fixup_left x k n c w = Some res \<and> fixed x c (inorder x @ (k, n) # inorder w) res"
proof (cases w)
  case (Elem wl wk wn wc wr)
  then have wc: "wc = BLACK" "invc wl" "invc wr" "invh wl" "invh wr" "bh wl = bh x" "bh wr = bh x" using w by auto
  consider "col wl = BLACK" "col wr = BLACK" | "col wr = RED" | "col wr = BLACK" "col wl = RED"
    by (metis colour.exhaust)
  then show ?thesis
  proof cases
    case 1
    then show ?thesis using Elem wc x by (simp add: fixed_def)
  next
    case 2
    then show ?thesis using Elem wc x by (auto simp: fixed_def)
  next
    case 3
    then show ?thesis using Elem wc x by (cases wl) (auto simp: fixed_def)
  qed
qed (use w in simp)

lemma fixup_right_fixed:
  assumes x: "invc x" "invh x" "col x = BLACK" and w: "invc w" "invh w" "bh w = Suc (bh x)" "col w = BLACK"
  shows "\<exists>res. fixup_right w k n c x = Some res \<and> fixed x c (inorder w @ (k, n) # inorder x) res"
proof (cases w)
  case (Elem wl wk wn wc wr)
  then have wc: "wc = BLACK" "invc wl" "invc wr" "invh wl" "invh wr" "bh wl = bh x" "bh wr = bh x" using w by auto
  consider "col wl = BLACK" "col wr = BLACK" | "col wl = RED" | "col wl = BLACK" "col wr = RED"
    by (metis colour.exhaust)
  then show ?thesis
  proof cases
    case 1
    then show ?thesis using Elem wc x by (simp add: fixed_def)
  next
    case 2
    then show ?thesis using Elem wc x by (auto simp: fixed_def)
  next
    case 3
    then show ?thesis using Elem wc x by (cases wr) (auto simp: fixed_def)
  qed
qed (use w in simp)

text \<open>The continuation after a round, in the frames \<open>fs'\<close> that are left.\<close>

lemma fixed_continue:
  assumes f: "fixed x c xs res" and h: "ctx (if c = BLACK then Suc (Suc (bh x)) else Suc (bh x)) fs"
    and tb: "c = RED \<longrightarrow> top_black fs"
    and IH: "\<And>x'. res = Inl x' \<Longrightarrow> invc (set_colour BLACK x') \<Longrightarrow> invh x' \<Longrightarrow> ctx (Suc (bh x')) fs \<Longrightarrow>
      \<exists>t. rb_delete_fixup x' fs = Some t \<and> rb t \<and> inorder t = before fs @ inorder x' @ after fs"
  shows "\<exists>t. (case res of Inl x' \<Rightarrow> rb_delete_fixup x' fs | Inr s \<Rightarrow> Some (set_colour BLACK (zip_up s fs))) = Some t
    \<and> rb t \<and> inorder t = before fs @ xs @ after fs"
proof (cases res)
  case (Inl x')
  then show ?thesis using IH [OF Inl] f h by (auto simp: fixed_def split: if_splits)
next
  case (Inr s)
  have "rb (zip_up s fs)"
    by (rule zip_up_rb) (use f h tb Inr in \<open>auto simp: fixed_def split: if_splits intro: colour.exhaust\<close>)
  then show ?thesis using f Inr by (simp add: rb_root_black inorder_zip_up fixed_def)
qed

lemma round_left:
  assumes x: "invc x" "invh x" "col x = BLACK" and h: "ctx (Suc (bh x)) (At_left k n c w # fs)"
  obtains res fs' c' xs where
    "(case w of Elem wl wk wn RED wr \<Rightarrow> (fixup_left x k n RED wl, At_left wk wn BLACK wr # fs)
      | _ \<Rightarrow> (fixup_left x k n c w, fs)) = (Some res, fs')"
    "fixed x c' xs res" "ctx (if c' = BLACK then Suc (Suc (bh x)) else Suc (bh x)) fs'"
    "c' = RED \<longrightarrow> top_black fs'"
    "before fs' @ xs @ after fs' = before (At_left k n c w # fs) @ inorder x @ after (At_left k n c w # fs)"
proof (cases "col w = RED")
  case True
  then obtain wl wk wn wr where w: "w = Elem wl wk wn RED wr" by (cases w) auto
  moreover obtain res where "fixup_left x k n RED wl = Some res"
    "fixed x RED (inorder x @ (k, n) # inorder wl) res"
    using fixup_left_fixed [OF x, of wl k n RED] h w by auto
  moreover have "c = BLACK" using h w by (auto simp: col_RED)
  ultimately show thesis using that [of res "At_left wk wn BLACK wr # fs" RED] h by simp
next
  case False
  then have w: "col w = BLACK" by (simp add: col_RED)
  obtain res where res: "fixup_left x k n c w = Some res" "fixed x c (inorder x @ (k, n) # inorder w) res"
    using fixup_left_fixed [OF x, of w k n c] h w by auto
  then have "(case w of Elem wl wk wn RED wr \<Rightarrow> (fixup_left x k n RED wl, At_left wk wn BLACK wr # fs)
      | _ \<Rightarrow> (fixup_left x k n c w, fs)) = (Some res, fs)" using w by (cases w) auto
  from that [OF this res(2)] h show thesis by simp
qed

lemma round_right:
  assumes x: "invc x" "invh x" "col x = BLACK" and h: "ctx (Suc (bh x)) (At_right w k n c # fs)"
  obtains res fs' c' xs where
    "(case w of Elem wl wk wn RED wr \<Rightarrow> (fixup_right wr k n RED x, At_right wl wk wn BLACK # fs)
      | _ \<Rightarrow> (fixup_right w k n c x, fs)) = (Some res, fs')"
    "fixed x c' xs res" "ctx (if c' = BLACK then Suc (Suc (bh x)) else Suc (bh x)) fs'"
    "c' = RED \<longrightarrow> top_black fs'"
    "before fs' @ xs @ after fs' = before (At_right w k n c # fs) @ inorder x @ after (At_right w k n c # fs)"
proof (cases "col w = RED")
  case True
  then obtain wl wk wn wr where w: "w = Elem wl wk wn RED wr" by (cases w) auto
  moreover obtain res where "fixup_right wr k n RED x = Some res"
    "fixed x RED (inorder wr @ (k, n) # inorder x) res"
    using fixup_right_fixed [OF x, of wr k n RED] h w by auto
  moreover have "c = BLACK" using h w by (auto simp: col_RED)
  ultimately show thesis using that [of res "At_right wl wk wn BLACK # fs" RED] h by simp
next
  case False
  then have w: "col w = BLACK" by (simp add: col_RED)
  obtain res where res: "fixup_right w k n c x = Some res" "fixed x c (inorder w @ (k, n) # inorder x) res"
    using fixup_right_fixed [OF x, of w k n c] h w by auto
  then have "(case w of Elem wl wk wn RED wr \<Rightarrow> (fixup_right wr k n RED x, At_right wl wk wn BLACK # fs)
      | _ \<Rightarrow> (fixup_right w k n c x, fs)) = (Some res, fs)" using w by (cases w) auto
  from that [OF this res(2)] h show thesis by simp
qed

lemma rb_delete_fixup_correct:
  assumes "invc (set_colour BLACK x)" "invh x" "ctx (Suc (bh x)) fs"
  shows "\<exists>t. rb_delete_fixup x fs = Some t \<and> rb t \<and> inorder t = before fs @ inorder x @ after fs"
  using assms
proof (induction x fs rule: rb_delete_fixup.induct)
  case (1 x)
  then show ?case by (simp add: rb_def)
next
  case (2 x k n c w fs)
  show ?case
  proof (cases "col x = RED")
    case True
    have "rb (zip_up (set_colour BLACK x) (At_left k n c w # fs))"
      by (rule zip_up_rb) (use 2(2-4) True in auto)
    then show ?thesis using True inorder_zip_up [of "set_colour BLACK x" "At_left k n c w # fs"]
      by (simp add: rb_delete_fixup.simps(2) del: zip_up.simps)
  next
    case False
    then have x: "invc x" "invh x" "col x = BLACK" using 2(2,3) by (cases x; auto simp: col_RED)+
    obtain res fs' c' xs where R: "(case w of Elem wl wk wn RED wr \<Rightarrow> (fixup_left x k n RED wl, At_left wk wn BLACK wr # fs)
        | _ \<Rightarrow> (fixup_left x k n c w, fs)) = (Some res, fs')"
      "fixed x c' xs res" "ctx (if c' = BLACK then Suc (Suc (bh x)) else Suc (bh x)) fs'"
      "c' = RED \<longrightarrow> top_black fs'"
      "before fs' @ xs @ after fs' = before (At_left k n c w # fs) @ inorder x @ after (At_left k n c w # fs)"
      by (rule round_left [OF x 2(4)])
    have "rb_delete_fixup x (At_left k n c w # fs) =
        (case res of Inl x' \<Rightarrow> rb_delete_fixup x' fs' | Inr s \<Rightarrow> Some (set_colour BLACK (zip_up s fs')))"
      unfolding rb_delete_fixup.simps(2) [of x] R(1) using False by (simp split: sum.split)
    then show ?thesis
      using fixed_continue [OF R(2,3,4)] 2(1) [OF False R(1) [symmetric] refl] R(5) by simp
  qed
next
  case (3 x w k n c fs)
  show ?case
  proof (cases "col x = RED")
    case True
    have "rb (zip_up (set_colour BLACK x) (At_right w k n c # fs))"
      by (rule zip_up_rb) (use 3(2-4) True in auto)
    then show ?thesis using True inorder_zip_up [of "set_colour BLACK x" "At_right w k n c # fs"]
      by (simp add: rb_delete_fixup.simps(3) del: zip_up.simps)
  next
    case False
    then have x: "invc x" "invh x" "col x = BLACK" using 3(2,3) by (cases x; auto simp: col_RED)+
    obtain res fs' c' xs where R: "(case w of Elem wl wk wn RED wr \<Rightarrow> (fixup_right wr k n RED x, At_right wl wk wn BLACK # fs)
        | _ \<Rightarrow> (fixup_right w k n c x, fs)) = (Some res, fs')"
      "fixed x c' xs res" "ctx (if c' = BLACK then Suc (Suc (bh x)) else Suc (bh x)) fs'"
      "c' = RED \<longrightarrow> top_black fs'"
      "before fs' @ xs @ after fs' = before (At_right w k n c # fs) @ inorder x @ after (At_right w k n c # fs)"
      by (rule round_right [OF x 3(4)])
    have "rb_delete_fixup x (At_right w k n c # fs) =
        (case res of Inl x' \<Rightarrow> rb_delete_fixup x' fs' | Inr s \<Rightarrow> Some (set_colour BLACK (zip_up s fs')))"
      unfolding rb_delete_fixup.simps(3) [of x] R(1) using False by (simp split: sum.split)
    then show ?thesis
      using fixed_continue [OF R(2,3,4)] 3(1) [OF False R(1) [symmetric] refl] R(5) by simp
  qed
qed


subsection \<open>The search path\<close>

lemma descend_ctx:
  assumes "descend cmp t fs = (x, fs')" "invc t" "invh t" "ctx (bh t) fs" "col t = RED \<longrightarrow> top_black fs"
  shows "invc x \<and> invh x \<and> ctx (bh x) fs' \<and> (col x = RED \<longrightarrow> top_black fs')
    \<and> before fs' @ inorder x @ after fs' = before fs @ inorder t @ after fs
    \<and> zip_up x fs' = zip_up t fs"
  using assms
proof (induction cmp t fs rule: descend.induct)
  case (2 cmp l k n c r fs)
  then show ?case by (auto simp: col_RED split: if_splits)
qed auto

lemma descend_found: "descend cmp t fs = (Elem l k n c r, fs') \<Longrightarrow> cmp k = 0"
  by (induction cmp t fs rule: descend.induct) (auto split: if_splits)

definition tree_sorted :: "('k \<Rightarrow> 'k \<Rightarrow> int) \<Rightarrow> ('k \<times> nat) list \<Rightarrow> bool" where
  "tree_sorted cmp xs = sorted_wrt (\<lambda>a b. cmp (fst a) (fst b) < 0) xs"

context comparator
begin

lemma descend_sides:
  assumes "descend (\<lambda>k. cmp k key) t fs = (x, fs')" "tree_sorted cmp (inorder t)"
    "\<forall>a \<in> set (before fs). cmp (fst a) key < 0" "\<forall>a \<in> set (after fs). 0 < cmp (fst a) key"
  shows "(\<forall>a \<in> set (before fs'). cmp (fst a) key < 0) \<and> (\<forall>a \<in> set (after fs'). 0 < cmp (fst a) key)"
  using assms
proof (induction "\<lambda>k. cmp k key" t fs rule: descend.induct)
  case (1 fs)
  then show ?case by simp
next
  case (2 l k n c r fs)
  have l: "cmp (fst a) key < 0" if "cmp k key < 0" "a \<in> set (inorder l)" for a
    using that 2(4) cmp_less_trans [of "fst a" k key] by (auto simp: tree_sorted_def sorted_wrt_append)
  have r: "0 < cmp (fst a) key" if "0 < cmp k key" "a \<in> set (inorder r)" for a
    using that 2(4) cmp_less_trans [of key k "fst a"] cmp_anti [of key k] cmp_anti [of key "fst a"]
    by (auto simp: tree_sorted_def sorted_wrt_append)
  have srt: "tree_sorted cmp (inorder l)" "tree_sorted cmp (inorder r)"
    using 2(4) by (auto simp: tree_sorted_def sorted_wrt_append)
  consider "cmp k key = 0" | "cmp k key < 0" | "0 < cmp k key" by linarith
  then show ?case
  proof cases
    case 1
    then show ?thesis using 2(3,5,6) by auto
  next
    case 2
    then have "\<forall>a \<in> set (before (At_right l k n c # fs)). cmp (fst a) key < 0"
      using "2.prems"(3) l by (simp add: ball_Un)
    then show ?thesis using "2.hyps"(1) "2.prems" srt 2 by simp
  next
    case 3
    then have "\<forall>a \<in> set (after (At_left k n c r # fs)). 0 < cmp (fst a) key"
      using "2.prems"(4) r by (simp add: ball_Un)
    then show ?thesis using "2.hyps"(2) "2.prems" srt 3 by simp
  qed
qed

end

text \<open>A subtree that takes the place of a removed element of colour \<open>rc\<close> at the frames \<open>fs\<close>.\<close>

definition hole_filled :: "colour \<Rightarrow> 'k rbt \<Rightarrow> 'k frame list \<Rightarrow> bool" where
  "hole_filled rc x fs \<longleftrightarrow> invc x \<and> invh x \<and> ctx (if rc = BLACK then Suc (bh x) else bh x) fs
     \<and> (rc = RED \<longrightarrow> col x = BLACK)"

lemma min_path_total: "t \<noteq> Null \<Longrightarrow> \<exists>nk nn nc nr p. min_path t acc = Some (nk, nn, nc, nr, p)"
  by (induction t acc rule: min_path.induct) auto

lemma min_path_ctx:
  assumes "min_path t acc = Some (nk, nn, nc, nr, p)" "invc t" "invh t" "ctx (bh t) (acc @ B)"
    "col t = RED \<longrightarrow> top_black (acc @ B)"
  shows "hole_filled nc nr (p @ B) \<and> before (p @ B) = before (acc @ B)
    \<and> (nk, nn) # inorder nr @ after (p @ B) = inorder t @ after (acc @ B)"
  using assms
proof (induction t acc rule: min_path.induct)
  case (2 k n c r fs)
  then show ?case by (auto simp: hole_filled_def)
next
  case (3 ll lk ln lc lr k n c r fs)
  then show ?case by (cases c; cases lc) simp_all
qed simp

lemma unlink_correct:
  assumes "invc (Elem l k n c r)" "invh (Elem l k n c r)" "ctx (bh (Elem l k n c r)) fs" "c = RED \<longrightarrow> top_black fs"
  shows "\<exists>x fs' rc. unlink l c r fs = Some (x, fs', rc) \<and> hole_filled rc x fs'
    \<and> before fs' @ inorder x @ after fs' = before fs @ inorder l @ inorder r @ after fs"
proof (cases "l = Null \<or> r = Null")
  case True
  then show ?thesis using assms
    by (cases l; cases r) (auto simp: unlink_def hole_filled_def col_RED split: if_splits)
next
  case False
  obtain nk nn nc nr p where m: "min_path r [] = Some (nk, nn, nc, nr, p)"
    using min_path_total [of r "[]"] False by blast
  have "hole_filled nc nr (p @ At_right l nk nn c # fs)
      \<and> before (p @ At_right l nk nn c # fs) = before ([] @ At_right l nk nn c # fs)
      \<and> (nk, nn) # inorder nr @ after (p @ At_right l nk nn c # fs) = inorder r @ after ([] @ At_right l nk nn c # fs)"
    by (rule min_path_ctx [OF m]) (use assms in \<open>auto simp: col_RED split: if_splits\<close>)
  moreover have "unlink l c r fs = Some (nr, p @ At_right l nk nn c # fs, nc)"
    using False m by (cases l; cases r) (auto simp: unlink_def)
  ultimately show ?thesis by auto
qed


section \<open>The search tree\<close>

abbreviation entries :: "('k, 'c) TREE \<Rightarrow> ('k \<times> nat) list" where
  "entries t \<equiv> inorder (tree_of t)"

definition tree_inv :: "('k, 'c) TREE \<Rightarrow> 'c \<Rightarrow> bool" where
  "tree_inv t arg \<longleftrightarrow> root t \<noteq> None \<and> rb (tree_of t) \<and> comparator (compare t arg)
     \<and> tree_sorted (compare t arg) (entries t) \<and> elements_in_tree t = length (entries t)
     \<and> (\<forall>e \<in> set (entries t). 0 < snd e \<and> snd e < 2 ^ 31)"

lemma count_inc_saturates: "n < 2 ^ 31 \<Longrightarrow> count_inc n = min (n + 1) (2 ^ 31 - 1)"
  by (cases "n + 1 = 2 ^ 31") (auto simp: count_inc_def Let_def)

definition entry_of :: "('k \<Rightarrow> int) \<Rightarrow> ('k \<times> nat) list \<Rightarrow> ('k \<times> nat) option" where
  "entry_of cmp xs = find (\<lambda>e. cmp (fst e) = 0) xs"

lemma tree_sorted_mid:
  "tree_sorted cmp (xs @ (k, n) # ys) \<longleftrightarrow> tree_sorted cmp xs \<and> tree_sorted cmp ys
     \<and> (\<forall>a \<in> set xs. cmp (fst a) k < 0) \<and> (\<forall>b \<in> set ys. cmp k (fst b) < 0)
     \<and> (\<forall>a \<in> set xs. \<forall>b \<in> set ys. cmp (fst a) (fst b) < 0)"
  by (auto simp: tree_sorted_def sorted_wrt_append)

lemma tree_sorted_append:
  "tree_sorted cmp (xs @ ys) \<longleftrightarrow> tree_sorted cmp xs \<and> tree_sorted cmp ys
     \<and> (\<forall>a \<in> set xs. \<forall>b \<in> set ys. cmp (fst a) (fst b) < 0)"
  by (auto simp: tree_sorted_def sorted_wrt_append)

lemma entry_of_append: "entry_of c (xs @ ys) = or_else (entry_of c xs) (entry_of c ys)"
  by (induction xs) (auto simp: entry_of_def or_else_def)

lemma entry_of_None: "entry_of c xs = None \<longleftrightarrow> (\<forall>a \<in> set xs. c (fst a) \<noteq> 0)"
  by (auto simp: entry_of_def find_None_iff)

context comparator
begin

lemma entry_of_mid:
  assumes "tree_sorted cmp (xs @ (k, n) # ys)" "cmp k key = 0"
  shows "entry_of (\<lambda>k. cmp k key) (xs @ (k, n) # ys) = Some (k, n)"
    "set xs \<union> set ys = set (xs @ (k, n) # ys) - {(k, n)}"
proof -
  have "cmp (fst a) key < 0" if "a \<in> set xs" for a
    using assms that cmp_less_le_trans [of "fst a" k key] by (simp add: tree_sorted_mid)
  then have "entry_of (\<lambda>k. cmp k key) xs = None" by (force simp: entry_of_None)
  then show "entry_of (\<lambda>k. cmp k key) (xs @ (k, n) # ys) = Some (k, n)"
    using assms(2) by (simp add: entry_of_append or_else_def) (simp add: entry_of_def)
  have "(k, n) \<notin> set xs \<union> set ys" using assms(1) by (auto simp: tree_sorted_mid)
  then show "set xs \<union> set ys = set (xs @ (k, n) # ys) - {(k, n)}" by auto
qed

lemma entry_of_missing:
  assumes "\<forall>a \<in> set xs. cmp (fst a) key < 0" "\<forall>a \<in> set ys. 0 < cmp (fst a) key"
    "tree_sorted cmp (xs @ ys)"
  shows "entry_of (\<lambda>k. cmp k key) (xs @ ys) = None" "tree_sorted cmp (xs @ (key, n) # ys)"
proof -
  show "entry_of (\<lambda>k. cmp k key) (xs @ ys) = None" using assms(1,2) by (force simp: entry_of_None)
  have "cmp key (fst b) < 0" if "b \<in> set ys" for b using that assms(2) cmp_anti [of key "fst b"] by simp
  then show "tree_sorted cmp (xs @ (key, n) # ys)"
    using assms(1) assms(3) [unfolded tree_sorted_append] unfolding tree_sorted_mid by blast
qed

end

text \<open>The search path in a tree that satisfies the invariant.\<close>

lemma descend_inv:
  assumes t: "tree_inv t arg" and d: "descend (\<lambda>k. compare t arg k key) (tree_of t) [] = (x, fs)"
  shows "invc x" "invh x" "ctx (bh x) fs" "col x = RED \<longrightarrow> top_black fs"
    "before fs @ inorder x @ after fs = entries t" "zip_up x fs = tree_of t"
    "\<forall>a \<in> set (before fs). compare t arg (fst a) key < 0"
    "\<forall>a \<in> set (after fs). 0 < compare t arg (fst a) key"
  using descend_ctx [OF d] comparator.descend_sides [of "compare t arg" key "tree_of t" "[]" x fs] d t by (auto simp: tree_inv_def rb_def)

lemma tree_insert_missing:
  assumes t: "tree_inv t arg" and d: "descend (\<lambda>k. compare t arg k key) (tree_of t) [] = (Null, fs)"
  shows "\<exists>r. rb_insert (Elem Null key 1 RED Null) fs = Some r \<and> rb r
    \<and> tree_sorted (compare t arg) (inorder r) \<and> inorder r = before fs @ (key, 1) # after fs
    \<and> entries t = before fs @ after fs \<and> entry_of (\<lambda>k. compare t arg k key) (entries t) = None"
proof -
  note D = descend_inv [OF t d]
  have cmp: "comparator (compare t arg)" and srt: "tree_sorted (compare t arg) (entries t)"
    using t by (auto simp: tree_inv_def)
  have e: "entries t = before fs @ after fs" using D(5) by simp
  note M = comparator.entry_of_missing [OF cmp D(7,8) srt [unfolded e]]
  show ?thesis
    using rb_insert_loop_correct [of "Elem Null key 1 RED Null" fs] D(3) M e by (auto simp: rb_insert_def)
qed

lemma tree_insert_found:
  assumes t: "tree_inv t arg" and d: "descend (\<lambda>k. compare t arg k key) (tree_of t) [] = (Elem l k n c r, fs)"
  shows "entry_of (\<lambda>k. compare t arg k key) (entries t) = Some (k, n)"
    "set (before fs @ inorder l @ inorder r @ after fs) = set (entries t) - {(k, n)}"
    "rb (zip_up (Elem l k m c r) fs)"
    "tree_sorted (compare t arg) (inorder (zip_up (Elem l k m c r) fs))"
    "set (inorder (zip_up (Elem l k m c r) fs)) = insert (k, m) (set (entries t) - {(k, n)})"
    "length (inorder (zip_up (Elem l k m c r) fs)) = length (entries t)"
    "tree_sorted (compare t arg) (before fs @ inorder l @ inorder r @ after fs)"
proof -
  note D = descend_inv [OF t d]
  have cmp: "comparator (compare t arg)" and srt: "tree_sorted (compare t arg) (entries t)"
    and root: "rb (zip_up (Elem l k n c r) fs)"
    using t D(6) by (auto simp: tree_inv_def)
  have k: "compare t arg k key = 0" using descend_found [OF d] .
  have e: "entries t = (before fs @ inorder l) @ (k, n) # (inorder r @ after fs)" using D(5) by simp
  note M = comparator.entry_of_mid [OF cmp srt [unfolded e] k]
  show "entry_of (\<lambda>k. compare t arg k key) (entries t) = Some (k, n)" unfolding e by (rule M(1))
  show s: "set (before fs @ inorder l @ inorder r @ after fs) = set (entries t) - {(k, n)}"
    using M(2) unfolding e by auto
  have "fs = [] \<Longrightarrow> c = BLACK" using root by (auto simp: rb_def)
  then show "rb (zip_up (Elem l k m c r) fs)"
    by (intro zip_up_rb) (use D(1-4) in \<open>auto simp: col_RED\<close>)
  have i: "inorder (zip_up (Elem l k m c r) fs) = (before fs @ inorder l) @ (k, m) # (inorder r @ after fs)"
    by (simp add: inorder_zip_up)
  show "tree_sorted (compare t arg) (inorder (zip_up (Elem l k m c r) fs))"
    using srt unfolding i e tree_sorted_mid .
  show "set (inorder (zip_up (Elem l k m c r) fs)) = insert (k, m) (set (entries t) - {(k, n)})"
    unfolding i s [symmetric] by auto
  show "length (inorder (zip_up (Elem l k m c r) fs)) = length (entries t)" by (simp add: i e)
  show "tree_sorted (compare t arg) (before fs @ inorder l @ inorder r @ after fs)"
    using srt unfolding e tree_sorted_mid by (auto simp: tree_sorted_append)
qed


text \<open>
  C7: an insertion that may allocate and stays within the memory limit never touches an
  undefined pointer, keeps the red-black tree ordered and balanced, and does what the flags
  say: a new key becomes one new entry of count 1 (or is only reported under
  \<open>TREE_ONLY_DUPS\<close>); for a key that is present the entry's count goes up by one and stays at
  \<open>2 ^ 31 - 1\<close>, the largest value of its 31 bits, once it is there (or nothing changes under \<open>TREE_NO_DUPS\<close>).
\<close>

theorem tree_insert_correct:
  assumes t: "tree_inv t arg" and room: "elements_in_tree t + 1 < 2 ^ 32"
    and lim: "memory_limit t = 0 \<or> elements_in_tree t = 0 \<or>
      u64 (allocated t + u32 (sizeof_TREE_ELEMENT + key_size + size_of_element t)) \<le> memory_limit t"
  shows "\<exists>t' res. tree_insert t key key_size arg True = Some (t', res) \<and> tree_inv t' arg
    \<and> (case entry_of (\<lambda>k. compare t arg k key) (entries t) of
         None \<Rightarrow> if only_dups t then t' = t \<and> res = Element_unique
           else res = Element key 1 \<and> set (entries t') = insert (key, 1) (set (entries t))
             \<and> elements_in_tree t' = elements_in_tree t + 1
       | Some (k, n) \<Rightarrow> if no_dups t then t' = t \<and> res = No_element
           else res = Element k (min (n + 1) (2 ^ 31 - 1))
             \<and> set (entries t') = insert (k, min (n + 1) (2 ^ 31 - 1)) (set (entries t) - {(k, n)})
             \<and> elements_in_tree t' = elements_in_tree t)"
proof -
  obtain x fs where d: "descend (\<lambda>k. compare t arg k key) (tree_of t) [] = (x, fs)" by fastforce
  show ?thesis
  proof (cases x)
    case Null
    then obtain r where r: "rb_insert (Elem Null key 1 RED Null) fs = Some r" "rb r"
      "tree_sorted (compare t arg) (inorder r)" "inorder r = before fs @ (key, 1) # after fs"
      "entries t = before fs @ after fs" "entry_of (\<lambda>k. compare t arg k key) (entries t) = None"
      using tree_insert_missing [OF t d [unfolded Null]] by blast
    then show ?thesis using t d Null room lim
      by (auto simp: tree_insert.simps [of t] Let_def tree_inv_def tree_of_def)
  next
    case (Elem l k n c r)
    note F = tree_insert_found [OF t d [unfolded Elem]]
    have "(k, n) \<in> set (entries t)" using F(1) by (auto simp: entry_of_def find_Some_iff)
    then have "n < 2 ^ 31" using t by (auto simp: tree_inv_def)
    then have inc: "count_inc n = min (n + 1) (2 ^ 31 - 1)" by (rule count_inc_saturates)
    show ?thesis using F(1) F(3-6) [of "count_inc n"] t d Elem unfolding inc
      by (auto simp: tree_insert.simps [of t] tree_inv_def tree_of_def inc)
  qed
qed

text \<open>
  C8: \<open>tree_delete\<close> on a tree that allows it removes exactly the entry of the key, keeps the
  tree ordered and balanced without touching an undefined pointer, calls the free callback
  once, and returns 1 without a change when the key is not there.
\<close>

theorem tree_delete_correct:
  assumes t: "tree_inv t arg" and del: "with_delete t" and n: "elements_in_tree t < 2 ^ 32"
  shows "\<exists>t' rc. tree_delete t key key_size arg = Some (t', rc) \<and> tree_inv t' arg
    \<and> (case entry_of (\<lambda>k. compare t arg k key) (entries t) of
         None \<Rightarrow> t' = t \<and> rc = 1
       | Some (k, n) \<Rightarrow> rc = 0 \<and> set (entries t') = set (entries t) - {(k, n)}
           \<and> elements_in_tree t' = elements_in_tree t - 1
           \<and> free_log t' = free_log t @ (if free_fn t \<noteq> None then [Free_free k] else []))"
proof -
  obtain x fs where d: "descend (\<lambda>k. compare t arg k key) (tree_of t) [] = (x, fs)" by fastforce
  show ?thesis
  proof (cases x)
    case Null
    then show ?thesis using tree_insert_missing [OF t d [unfolded Null]] t d del
      by (auto simp: tree_delete_def)
  next
    case (Elem l k m c r)
    note D = descend_inv [OF t d, unfolded Elem] and F = tree_insert_found [OF t d [unfolded Elem]]
    obtain y fs' rc where u: "unlink l c r fs = Some (y, fs', rc)" "hole_filled rc y fs'"
      "before fs' @ inorder y @ after fs' = before fs @ inorder l @ inorder r @ after fs"
      using unlink_correct [OF D(1,2,3)] D(4) by auto
    have "\<exists>r'. (if rc = BLACK then rb_delete_fixup y fs' else Some (zip_up y fs')) = Some r' \<and> rb r'
        \<and> inorder r' = before fs' @ inorder y @ after fs'"
    proof (cases "rc = BLACK")
      case True
      then show ?thesis using rb_delete_fixup_correct [of y fs'] u(2) by (simp add: hole_filled_def)
    next
      case False
      then show ?thesis using zip_up_rb [of y fs'] u(2) by (simp add: hole_filled_def inorder_zip_up col_RED)
    qed
    then obtain r' where r': "(if rc = BLACK then rb_delete_fixup y fs' else Some (zip_up y fs')) = Some r'"
      "rb r'" "inorder r' = before fs @ inorder l @ inorder r @ after fs" using u(3) by auto
    have len: "length (entries t) = Suc (length (inorder r'))" using D(5) r'(3) by (auto dest: arg_cong [of _ _ length])
    then have "u32 (elements_in_tree t + 2 ^ 32 - 1) = elements_in_tree t - 1"
      using t n by (simp add: tree_inv_def u32_def)
    then show ?thesis using F(1,2,7) t d del u(1) r' len Elem
      by (auto simp: tree_delete_def tree_inv_def tree_of_def)
  qed
qed


section \<open>Searching\<close>

abbreviation tree_keys :: "'k rbt \<Rightarrow> 'k list" where
  "tree_keys t \<equiv> map fst (inorder t)"

context comparator
begin

lemma search_loop_entry:
  "tree_sorted cmp (inorder t) \<Longrightarrow>
   search_loop (\<lambda>k. cmp k key) t = map_option fst (entry_of (\<lambda>k. cmp k key) (inorder t))"
proof (induction t)
  case (Elem l k n c r)
  have srt: "tree_sorted cmp (inorder l)" "tree_sorted cmp (inorder r)"
    using Elem.prems by (auto simp: tree_sorted_mid)
  consider "cmp k key = 0" | "cmp k key < 0" | "0 < cmp k key" by linarith
  then show ?case
  proof cases
    case 1
    then show ?thesis using entry_of_mid(1) [OF _ 1] Elem.prems by simp
  next
    case 2
    have "\<forall>a \<in> set (inorder l). cmp (fst a) key \<noteq> 0"
      using Elem.prems cmp_less_trans [OF _ 2] by (force simp: tree_sorted_mid)
    then have "entry_of (\<lambda>k. cmp k key) (inorder l) = None" by (simp add: entry_of_None)
    then show ?thesis using Elem.IH(2) [OF srt(2)] 2 by (simp add: entry_of_append or_else_def) (simp add: entry_of_def)
  next
    case 3
    then have k: "cmp key k < 0" using cmp_anti [of key k] by simp
    have "cmp (fst a) key \<noteq> 0" if "a \<in> set (inorder r)" for a
      using Elem.prems that cmp_less_trans [OF k, of "fst a"] cmp_zero_sym [of "fst a" key]
      by (auto simp: tree_sorted_mid)
    then have "entry_of (\<lambda>k. cmp k key) ((k, n) # inorder r) = None" using 3 by (simp add: entry_of_None)
    then show ?thesis using Elem.IH(1) [OF srt(1)] 3 by (simp add: entry_of_append or_else_def split: option.split)
  qed
qed (simp add: entry_of_def)

end

text \<open>
  \<open>tree_search\<close> returns the stored key that compares equal to the given one, if there is one.
\<close>

theorem tree_search_correct:
  assumes "tree_inv t arg"
  shows "tree_search t key arg = map_option fst (entry_of (\<lambda>k. compare t arg k key) (entries t))"
  using comparator.search_loop_entry [of "compare t arg"] assms by (simp add: tree_search_def tree_inv_def)

subsection \<open>Positioned search\<close>

text \<open>
  The specification of \<open>tree_search_key\<close> over the keys in order, for a comparison with the
  search key that may be a prefix comparison: keys below, equal and above follow each other.
\<close>

definition sign_sorted :: "('k \<Rightarrow> int) \<Rightarrow> 'k list \<Rightarrow> bool" where
  "sign_sorted c ks = sorted_wrt (\<lambda>a b. (c b < 0 \<longrightarrow> c a < 0) \<and> (0 < c a \<longrightarrow> 0 < c b)) ks"

definition key_spec :: "ha_rkey_function \<Rightarrow> ('k \<Rightarrow> int) \<Rightarrow> 'k list \<Rightarrow> 'k option" where
  "key_spec flag c ks =
     (case flag of
        HA_READ_KEY_EXACT \<Rightarrow> find (\<lambda>k. c k = 0) ks
      | HA_READ_KEY_OR_NEXT \<Rightarrow> find (\<lambda>k. 0 \<le> c k) ks
      | HA_READ_AFTER_KEY \<Rightarrow> find (\<lambda>k. 0 < c k) ks
      | HA_READ_BEFORE_KEY \<Rightarrow> find (\<lambda>k. c k < 0) (rev ks)
      | HA_READ_KEY_OR_PREV \<Rightarrow> or_else (find (\<lambda>k. c k = 0) ks) (find (\<lambda>k. c k < 0) (rev ks))
      | HA_READ_PREFIX_LAST \<Rightarrow> find (\<lambda>k. c k = 0) (rev ks)
      | HA_READ_PREFIX_LAST_OR_PREV \<Rightarrow> find (\<lambda>k. c k \<le> 0) (rev ks)
      | _ \<Rightarrow> None)"

definition pos_key :: "'k cursor option \<Rightarrow> 'k option" where
  "pos_key p = (case p of None \<Rightarrow> None | Some ps \<Rightarrow> key_of ps)"

lemma pos_key_simps [simp]: "pos_key None = None" "pos_key (Some ps) = key_of ps"
  by (simp_all add: pos_key_def)

lemma find_append: "find P (xs @ ys) = or_else (find P xs) (find P ys)"
  by (induction xs) (auto simp: or_else_def)

lemma or_else_simps [simp]: "or_else None b = b" "or_else (Some x) b = Some x" "or_else a None = a"
  "or_else (or_else a b) d = or_else a (or_else b d)"
  by (auto simp: or_else_def split: option.split)

lemma find_none: "(\<And>x. x \<in> set xs \<Longrightarrow> \<not> P x) \<Longrightarrow> find P xs = None"
  by (auto simp: find_None_iff)

text \<open>\<open>goes_right flag c k\<close>: the loop steps from \<open>k\<close> to the right.\<close>

definition goes_right :: "int \<Rightarrow> ('k \<Rightarrow> int) \<Rightarrow> 'k \<Rightarrow> bool" where
  "goes_right d c k \<longleftrightarrow> c k < 0 \<or> (c k = 0 \<and> d < 0)"

lemma goes_right_simps:
  "goes_right 1 c = (\<lambda>k. c k < 0)" "goes_right (- 1) c = (\<lambda>k. c k < 0 \<or> c k = 0)"
  by (auto simp: goes_right_def fun_eq_iff)

lemma search_key_loop_spec:
  assumes "equal_step flag = Some (eq, d)" "sign_sorted c (tree_keys t)" "le = None \<or> pos_key le \<noteq> None"
  shows "\<exists>ll' lr' le'. search_key_loop c flag t ps ll lr le = Some (ll', lr', le')
    \<and> pos_key ll' = or_else (find (\<lambda>k. \<not> goes_right d c k) (tree_keys t)) (pos_key ll)
    \<and> pos_key lr' = or_else (find (goes_right d c) (rev (tree_keys t))) (pos_key lr)
    \<and> pos_key le' = or_else (if eq then if d < 0 then find (\<lambda>k. c k = 0) (rev (tree_keys t))
         else find (\<lambda>k. c k = 0) (tree_keys t) else None) (pos_key le)
    \<and> (le' = None \<or> pos_key le' \<noteq> None)"
  using assms(2,3)
proof (induction t arbitrary: ps ll lr le)
  case (Elem l k n cl r)
  let ?p = "Elem l k n cl r # ps" and ?g = "goes_right d c"
  let ?e = "if c k = 0 \<and> eq then Some ?p else le"
  have srt: "sign_sorted c (tree_keys l)" "sign_sorted c (tree_keys r)"
    and lo: "\<And>a. a \<in> set (tree_keys l) \<Longrightarrow> (c k < 0 \<longrightarrow> c a < 0) \<and> (0 < c a \<longrightarrow> 0 < c k)"
    and hi: "\<And>a. a \<in> set (tree_keys r) \<Longrightarrow> (c a < 0 \<longrightarrow> c k < 0) \<and> (0 < c k \<longrightarrow> 0 < c a)"
    using Elem.prems(1) by (auto simp: sign_sorted_def sorted_wrt_append)
  have e: "?e = None \<or> pos_key ?e \<noteq> None" using Elem.prems(2) by auto
  have step: "search_key_loop c flag (Elem l k n cl r) ps ll lr le =
      (if ?g k then search_key_loop c flag r ?p ll (Some ?p) ?e else search_key_loop c flag l ?p (Some ?p) lr ?e)"
    using assms(1) by (auto simp: goes_right_def Let_def)
  show ?case
  proof (cases "?g k")
    case True
    have z: "find (\<lambda>k. \<not> ?g k) (tree_keys l) = None"
      by (rule find_none) (use True lo in \<open>force simp: goes_right_def\<close>)
    have z2: "c k < 0 \<Longrightarrow> find (\<lambda>k. c k = 0) (tree_keys l) = None"
      "c k < 0 \<Longrightarrow> find (\<lambda>k. c k = 0) (rev (tree_keys l)) = None"
      by (rule find_none; use lo in force)+
    show ?thesis
      using Elem.IH(2) [OF srt(2) e, of ?p ll "Some ?p"] True z z2
      by (auto simp: step find_append goes_right_def simp del: search_key_loop.simps(2))
  next
    case False
    have ck: "0 < c k \<or> c k = 0 \<and> \<not> d < 0" using False by (auto simp: goes_right_def)
    have z: "find ?g (rev (tree_keys r)) = None"
      by (rule find_none) (use False hi in \<open>force simp: goes_right_def\<close>)
    have z2: "0 < c k \<Longrightarrow> find (\<lambda>k. c k = 0) (tree_keys r) = None"
      "0 < c k \<Longrightarrow> find (\<lambda>k. c k = 0) (rev (tree_keys r)) = None"
      by (rule find_none; use hi in force)+
    show ?thesis
      using Elem.IH(1) [OF srt(1) e, of ?p "Some ?p" lr] False z z2
      unfolding step using ck by (auto simp: find_append)
  qed
qed simp


lemma find_cong_set: "(\<And>x. x \<in> set xs \<Longrightarrow> P x = Q x) \<Longrightarrow> find P xs = find Q xs"
  by (induction xs) auto

lemma find_eq_or_above:
  "sign_sorted c ks \<Longrightarrow> or_else (find (\<lambda>k. c k = 0) ks) (find (\<lambda>k. \<not> c k < 0) ks) = find (\<lambda>k. 0 \<le> c k) ks"
proof (induction ks)
  case (Cons a ks)
  then have srt: "sign_sorted c ks" "\<forall>b \<in> set ks. (c b < 0 \<longrightarrow> c a < 0) \<and> (0 < c a \<longrightarrow> 0 < c b)"
    by (auto simp: sign_sorted_def)
  have "0 < c a \<Longrightarrow> find (\<lambda>k. c k = 0) ks = None" by (rule find_none) (use srt(2) in force)
  then show ?case using Cons.IH [OF srt(1)] by (auto simp: not_less)
qed simp

lemma find_eq_or_below:
  assumes "sign_sorted c ks"
  shows "or_else (find (\<lambda>k. c k = 0) (rev ks)) (find (\<lambda>k. c k < 0 \<or> c k = 0) (rev ks)) = find (\<lambda>k. c k \<le> 0) (rev ks)"
  using assms
proof (induction ks rule: rev_induct)
  case (snoc a ks)
  then have srt: "sign_sorted c ks" "\<forall>b \<in> set ks. c a < 0 \<longrightarrow> c b < 0"
    by (auto simp: sign_sorted_def sorted_wrt_append)
  have "c a < 0 \<Longrightarrow> find (\<lambda>k. c k = 0) (rev ks) = None" by (rule find_none) (use srt(2) in force)
  then show ?case using snoc.IH [OF srt(1)] by auto
qed simp

text \<open>
  \<open>tree_search_key\<close> positions on the key each read flag asks for: the first or last equal
  key, the first key above, the last below, or the documented fallback; flags it does not
  support give no key.
\<close>

theorem tree_search_key_correct:
  assumes "sign_sorted (\<lambda>k. compare t arg k key) (tree_keys (tree_of t))"
  shows "snd (tree_search_key t key last_pos flag arg)
    = key_spec flag (\<lambda>k. compare t arg k key) (tree_keys (tree_of t))"
proof (cases "equal_step flag")
  case None
  then show ?thesis
    by (auto simp: tree_search_key_def key_spec_def equal_step_def Let_def
        split: option.split ha_rkey_function.splits)
next
  case (Some ed)
  obtain eq d where ed: "equal_step flag = Some (eq, d)" using Some by (cases ed) auto
  let ?c = "\<lambda>k. compare t arg k key" and ?ks = "tree_keys (tree_of t)"
  obtain ll lr le where S: "search_key_loop ?c flag (tree_of t) [] None None None = Some (ll, lr, le)"
    "pos_key ll = find (\<lambda>k. \<not> goes_right d ?c k) ?ks"
    "pos_key lr = find (goes_right d ?c) (rev ?ks)"
    "pos_key le = (if eq then if d < 0 then find (\<lambda>k. ?c k = 0) (rev ?ks) else find (\<lambda>k. ?c k = 0) ?ks else None)"
    "le = None \<or> pos_key le \<noteq> None"
    using search_key_loop_spec [OF ed assms, of None "[]" None None, simplified or_else_simps pos_key_simps]
    by (metis (no_types, lifting))
  have o: "pos_key (or_else le q) = or_else (pos_key le) (pos_key q)" for q using S(5) by (cases le) auto
  note E = find_eq_or_above [OF assms] find_eq_or_below [OF assms]
  have R: "snd (tree_search_key t key last_pos flag arg) = pos_key
      (case flag of HA_READ_KEY_OR_NEXT \<Rightarrow> or_else le ll | HA_READ_AFTER_KEY \<Rightarrow> ll
       | HA_READ_PREFIX_LAST_OR_PREV \<Rightarrow> or_else le lr | HA_READ_BEFORE_KEY \<Rightarrow> lr
       | HA_READ_KEY_OR_PREV \<Rightarrow> or_else le lr | _ \<Rightarrow> le)"
    unfolding tree_search_key_def S(1) using ed by (cases flag) (auto simp: equal_step_def pos_key_def)
  show ?thesis unfolding R using ed S(2-4) E
    by (cases flag) (auto simp: equal_step_def key_spec_def o goes_right_simps intro!: find_cong_set)
qed


subsection \<open>Iteration\<close>

definition opposite :: "side \<Rightarrow> side" where
  "opposite s = (case s of Left_child \<Rightarrow> Right_child | Right_child \<Rightarrow> Left_child)"

text \<open>The keys in the order of a scan that starts at the edge \<open>s\<close>.\<close>

definition keys_from :: "side \<Rightarrow> 'k rbt \<Rightarrow> 'k list" where
  "keys_from s t = (case s of Left_child \<Rightarrow> tree_keys t | Right_child \<Rightarrow> rev (tree_keys t))"

fun key_at :: "'k rbt \<Rightarrow> 'k list" where
  "key_at Null = []"
| "key_at (Elem l k n c r) = [k]"

lemma keys_from_Null [simp]: "keys_from s Null = []"
  by (cases s) (simp_all add: keys_from_def)

lemma keys_from_child:
  "keys_from s t = keys_from s (child t s) @ key_at t @ keys_from s (child t (opposite s))"
  by (cases t; cases s) (simp_all add: keys_from_def opposite_def)

lemma keys_from_neq_Nil: "t \<noteq> Null \<Longrightarrow> keys_from s t \<noteq> []"
  by (cases t; cases s) (simp_all add: keys_from_def)

lemma key_of_key_at: "t \<noteq> Null \<Longrightarrow> key_of (t # ps) = Some (hd (key_at t)) \<and> key_at t = [hd (key_at t)]"
  by (cases t) auto

text \<open>The keys still to come above a position, and after it.\<close>

fun keys_above :: "side \<Rightarrow> 'k rbt \<Rightarrow> 'k cursor \<Rightarrow> 'k list" where
  "keys_above s x [] = []"
| "keys_above s x (y # ys) =
     (if x = child y (opposite s) then keys_above s y ys
      else key_at y @ keys_from s (child y (opposite s)) @ keys_above s y ys)"

fun to_come :: "side \<Rightarrow> 'k cursor \<Rightarrow> 'k list" where
  "to_come s [] = []"
| "to_come s (x # ys) = keys_from s (child x (opposite s)) @ keys_above s x ys"

lemma next_up_to_come:
  assumes "Null \<notin> set (x # ys)" "next_up (opposite s) x ys = (ps, res)"
  shows "(case res of None \<Rightarrow> keys_above s x ys = [] \<and> ps = []
     | Some k \<Rightarrow> keys_above s x ys = k # to_come s ps) \<and> Null \<notin> set ps"
  using assms
proof (induction ys arbitrary: x)
  case (Cons y ys)
  then have y: "y \<noteq> Null" by auto
  show ?case using Cons key_of_key_at [OF y, of ys]
    by (cases "x = child y (opposite s)"; cases res) auto
qed simp

text \<open>Going down to an edge: the first key of the subtree, the others follow.\<close>

lemma distinct_not_both:
  "distinct (keys_from s t) \<Longrightarrow> child t s \<noteq> Null \<Longrightarrow> child t s \<noteq> child t (opposite s)"
  using keys_from_child [of s t] keys_from_neq_Nil [of "child t s" s] by auto

lemma edge_loop_to_come:
  assumes "x \<noteq> Null" "distinct (keys_from s x)" "Null \<notin> set ps"
  shows "(\<exists>k. key_of (edge_loop s x ps) = Some k
     \<and> k # to_come s (edge_loop s x ps) = keys_from s x @ keys_above s x ps) \<and> Null \<notin> set (edge_loop s x ps)"
  using assms
proof (induction s x ps rule: edge_loop.induct)
  case (1 s x ps)
  show ?case
  proof (cases "child x s = Null")
    case True
    then have e: "edge_loop s x ps = x # ps"
      using 1(2) by (simp add: edge_loop.simps [of s x] edge_loop.simps [of s Null])
    show ?thesis using True keys_from_child [of s x] key_of_key_at [OF 1(2), of ps] 1(2,4)
      by (auto simp: e)
  next
    case False
    have "distinct (keys_from s (child x s))" using 1(3) keys_from_child [of s x] by simp
    with 1 False distinct_not_both [OF 1(3) False] show ?thesis
      using keys_from_child [of s x] by (auto simp: edge_loop.simps [of s x])
  qed
qed

lemma next_to_come:
  assumes "Null \<notin> set (x # ys)" "distinct (keys_from s (child x (opposite s)))"
    "tree_search_next (x # ys) s (opposite s) = (ps, res)"
  shows "(case res of None \<Rightarrow> to_come s (x # ys) = []
     | Some k \<Rightarrow> to_come s (x # ys) = k # to_come s ps) \<and> Null \<notin> set ps"
proof (cases "child x (opposite s) = Null")
  case True
  then show ?thesis using next_up_to_come [OF assms(1), of s ps res] assms(3) by (auto split: option.splits)
next
  case False
  let ?y = "child x (opposite s)"
  have e: "edge_loop s (child ?y s) (?y # x # ys) = edge_loop s ?y (x # ys)"
    using False by (simp add: edge_loop.simps [of s ?y])
  have "(ps, res) = (edge_loop s ?y (x # ys), key_of (edge_loop s ?y (x # ys)))"
    using assms(3) False by (auto simp: Let_def e)
  then show ?thesis using edge_loop_to_come [OF False assms(2,1)] by auto
qed


text \<open>A complete scan: the edge, then \<open>tree_search_next\<close> until it returns no key (at most \<open>n\<close> keys).\<close>

fun tree_scan :: "nat \<Rightarrow> side \<Rightarrow> 'k cursor \<times> 'k option \<Rightarrow> 'k list" where
  "tree_scan 0 s p = []"
| "tree_scan (Suc n) s (ps, None) = []"
| "tree_scan (Suc n) s (ps, Some k) = k # tree_scan n s (tree_search_next ps s (opposite s))"

definition cursor_ok :: "side \<Rightarrow> 'k cursor \<Rightarrow> bool" where
  "cursor_ok s ps \<longleftrightarrow> Null \<notin> set ps \<and> (\<forall>x \<in> set ps. distinct (keys_from s x))"

lemma distinct_child: "distinct (keys_from s x) \<Longrightarrow> distinct (keys_from s (child x s'))"
proof -
  assume "distinct (keys_from s x)"
  moreover have "s' = s \<or> s' = opposite s" by (cases s; cases s') (auto simp: opposite_def)
  ultimately show ?thesis using keys_from_child [of s x] by auto
qed

lemma edge_loop_Null [simp]: "edge_loop s Null ps = ps"
  by (simp add: edge_loop.simps)

lemma edge_loop_distinct:
  "distinct (keys_from s x) \<Longrightarrow> \<forall>y \<in> set ps. distinct (keys_from s y) \<Longrightarrow>
   \<forall>y \<in> set (edge_loop s x ps). distinct (keys_from s y)"
proof (induction s x ps rule: edge_loop.induct)
  case (1 s x ps)
  show ?case
    using 1(1) [OF _ distinct_child [OF 1(2)]] 1(2,3) by (cases "x = Null") (auto simp: edge_loop.simps [of s x])
qed

lemma next_up_subset: "set (fst (next_up s x ys)) \<subseteq> set ys"
  by (induction ys arbitrary: x) auto

lemma next_up_key: "snd (next_up s x ys) = key_of (fst (next_up s x ys))"
  by (induction ys arbitrary: x) auto

lemma tree_search_next_key: "tree_search_next ps l r = (ps', res) \<Longrightarrow> res = key_of ps'"
  using next_up_key [of r "hd ps" "tl ps"] by (cases ps) (auto simp: Let_def split: if_splits)

lemma next_cursor_ok:
  assumes "cursor_ok s (x # ys)" "tree_search_next (x # ys) s (opposite s) = (ps, res)"
  shows "(case res of None \<Rightarrow> to_come s (x # ys) = []
     | Some k \<Rightarrow> to_come s (x # ys) = k # to_come s ps \<and> ps \<noteq> []) \<and> cursor_ok s ps"
proof -
  let ?y = "child x (opposite s)"
  have d: "distinct (keys_from s x)" "distinct (keys_from s ?y)" "\<forall>y \<in> set (x # ys). distinct (keys_from s y)"
    "Null \<notin> set (x # ys)"
    using assms(1) distinct_child [of s x "opposite s"] by (auto simp: cursor_ok_def)
  note N = next_to_come [OF d(4,2) assms(2)]
  have "\<forall>y \<in> set ps. distinct (keys_from s y)"
  proof (cases "?y = Null")
    case True
    then show ?thesis using assms(2) next_up_subset [of "opposite s" x ys] d(3) by auto
  next
    case False
    then show ?thesis
      using assms(2) edge_loop_distinct [OF d(2,3)] by (auto simp: Let_def edge_loop.simps [of s ?y])
  qed
  moreover have "ps \<noteq> []" if "res = Some k" for k
    using tree_search_next_key [OF assms(2)] that by auto
  ultimately show ?thesis using N by (cases res) (auto simp: cursor_ok_def)
qed

lemma tree_scan_to_come:
  "cursor_ok s ps \<Longrightarrow> ps \<noteq> [] \<Longrightarrow> length (to_come s ps) \<le> n \<Longrightarrow>
   tree_scan (Suc n) s (ps, Some k) = k # to_come s ps"
proof (induction n arbitrary: ps k)
  case (Suc n)
  then obtain x ys where ps: "ps = x # ys" by (cases ps) auto
  obtain ps' res where N: "tree_search_next ps s (opposite s) = (ps', res)" by fastforce
  show ?case
  proof (cases res)
    case None
    then show ?thesis using next_cursor_ok [of s x ys ps' res] Suc.prems(1) N ps by auto
  next
    case (Some k')
    then have c: "to_come s ps = k' # to_come s ps'" "ps' \<noteq> []" "cursor_ok s ps'"
      using next_cursor_ok [of s x ys ps' res] Suc.prems(1) N ps by auto
    then show ?thesis using Suc.IH [OF c(3,2)] Suc.prems(3) N Some by auto
  qed
qed simp


lemma sorted_distinct_keys:
  assumes "comparator cmp" "tree_sorted cmp xs"
  shows "distinct (map fst xs)"
  using assms(2)
proof (induction xs)
  case (Cons a xs)
  then have "fst a \<noteq> fst b" if "b \<in> set xs" for b
    using that comparator.cmp_refl [OF assms(1)] by (fastforce simp: tree_sorted_def)
  with Cons show ?case by (auto simp: tree_sorted_def)
qed simp

text \<open>
  C35: a scan from the left (or right) edge with \<open>tree_search_next\<close> returns every key once, in
  ascending (or descending) order, and then no key.
\<close>

theorem tree_scan_correct:
  assumes "tree_inv t arg" "elements_in_tree t \<le> n"
  shows "tree_scan (Suc n) s (tree_search_edge t s) =
    (case s of Left_child \<Rightarrow> map fst (entries t) | Right_child \<Rightarrow> rev (map fst (entries t)))"
proof -
  let ?t = "tree_of t"
  have "distinct (keys_from s ?t)"
    using assms(1) sorted_distinct_keys [of "compare t arg" "entries t"]
    by (cases s) (auto simp: tree_inv_def keys_from_def)
  note E = edge_loop_to_come [OF _ this, of "[]"] edge_loop_distinct [OF this, of "[]"]
  have len: "length (keys_from s ?t) = elements_in_tree t"
    using assms(1) by (cases s) (auto simp: tree_inv_def keys_from_def)
  have "tree_scan (Suc n) s (tree_search_edge t s) = keys_from s ?t"
  proof (cases "?t = Null")
    case True
    then show ?thesis by (simp add: tree_search_edge_def Let_def)
  next
    case False
    then obtain k where k: "key_of (edge_loop s ?t []) = Some k" "k # to_come s (edge_loop s ?t []) = keys_from s ?t"
      "cursor_ok s (edge_loop s ?t [])" using E by (auto simp: cursor_ok_def)
    then have "edge_loop s ?t [] \<noteq> []" "length (to_come s (edge_loop s ?t [])) \<le> n"
      using len assms(2) by (auto dest: arg_cong [of _ _ length])
    then show ?thesis using tree_scan_to_come [OF k(3), of n k] k by (simp add: tree_search_edge_def)
  qed
  then show ?thesis by (simp add: keys_from_def)
qed

section \<open>Walks, the debug check and the height\<close>

primrec walk_spec :: "('k \<Rightarrow> nat \<Rightarrow> int) \<Rightarrow> ('k \<times> nat) list \<Rightarrow> int \<times> ('k \<times> nat) list" where
  "walk_spec action [] = (0, [])"
| "walk_spec action (e # es) =
     (if action (fst e) (snd e) = 0 then let (error, log) = walk_spec action es in (error, e # log)
      else (action (fst e) (snd e), [e]))"

lemma walk_spec_append:
  "walk_spec action (xs @ ys) =
     (let (error, log) = walk_spec action xs in
      if error = 0 then let (error', log') = walk_spec action ys in (error', log @ log') else (error, log))"
  by (induction xs) (auto simp: Let_def split: prod.splits)

lemma walk_lrr: "walk_left_root_right action t = walk_spec action (inorder t)"
  by (induction t) (auto simp: walk_spec_append Let_def split: prod.splits)

lemma walk_rrl: "walk_right_root_left action t = walk_spec action (rev (inorder t))"
  by (induction t) (auto simp: walk_spec_append Let_def split: prod.splits)

text \<open>
  \<open>tree_walk\<close> calls the action on the entries in ascending (descending) order up to and
  including the first call that fails, and returns that error, or 0.
\<close>

theorem tree_walk_correct:
  "tree_walk t action visit =
     walk_spec action (case visit of Left_root_right \<Rightarrow> entries t | Right_root_left \<Rightarrow> rev (entries t))"
  by (simp add: tree_walk_def walk_lrr walk_rrl split: tree_walk_order.split)

lemma test_rb_tree_ge: "test_rb_tree t \<ge> - 1"
  by (induction t) (auto simp: Let_def)

text \<open>
  The debug check accepts exactly the trees without two red elements in a row and with equal
  black heights, and returns the black height.
\<close>

theorem test_rb_tree_correct:
  "test_rb_tree t = (if invc t \<and> invh t then int (bh t) else - 1)"
proof (induction t)
  case (Elem l k n c r)
  then show ?case by (cases c) (auto simp: col_RED)
qed simp

fun tree_height :: "'k rbt \<Rightarrow> nat" where
  "tree_height Null = 0"
| "tree_height (Elem l k n c r) = Suc (max (tree_height l) (tree_height r))"

lemma height_bh: "invc t \<Longrightarrow> invh t \<Longrightarrow> tree_height t \<le> 2 * bh t + (if col t = RED then 1 else 0)"
proof (induction t)
  case (Elem l k n c r)
  then show ?case by (cases c) (auto split: if_splits)
qed simp

lemma bh_size: "invh t \<Longrightarrow> 2 ^ bh t \<le> length (inorder t) + 1"
proof (induction t)
  case (Elem l k n c r)
  then show ?case by (cases c) auto
qed simp

lemma descend_height: "descend cmp t fs = (x, fs') \<Longrightarrow> length fs' + tree_height x \<le> length fs + tree_height t"
  by (induction cmp t fs rule: descend.induct) (fastforce split: if_splits)+

lemma min_path_height:
  "min_path t fs = Some (nk, nn, nc, nr, p) \<Longrightarrow> length p + 1 \<le> length fs + tree_height t"
  by (induction t fs rule: min_path.induct) fastforce+

text \<open>
  With fewer than \<open>2^32 - 1\<close> elements the search path of an insertion or deletion, the
  successor path of a deletion included, ends at an index of at most 62 of the array
  \<open>parents[MAX_TREE_HEIGHT]\<close> of 64 entries, so that the one further entry that the fix-up of a
  deletion pushes is still inside.
\<close>

theorem tree_path_in_bounds:
  assumes t: "tree_inv t arg" and n: "elements_in_tree t < 2 ^ 32 - 1"
    and d: "descend (\<lambda>k. compare t arg k key) (tree_of t) [] = (x, fs)"
  shows "length fs \<le> 62 \<and> (\<forall>l k m c r y fs' rc. x = Elem l k m c r \<longrightarrow> unlink l c r fs = Some (y, fs', rc) \<longrightarrow>
    length fs' \<le> 62)"
proof -
  have "rb (tree_of t)" "length (entries t) + 1 < 2 ^ 32" using t n by (auto simp: tree_inv_def)
  then have "(2::nat) ^ bh (tree_of t) < 2 ^ 32" using bh_size [of "tree_of t"] by (auto simp: rb_def)
  then have "bh (tree_of t) < 32" by (rule power_less_imp_less_exp [rotated]) simp
  then have h: "tree_height (tree_of t) \<le> 62"
    using height_bh [of "tree_of t"] \<open>rb (tree_of t)\<close> by (auto simp: rb_def)
  note L = descend_height [OF d]
  have "length fs' \<le> 62" if "x = Elem l k m c r" "unlink l c r fs = Some (y, fs', rc)" for l k m c r y fs' rc
    using L h that min_path_height [of r "[]"]
    by (fastforce simp: unlink_def split: rbt.splits Option.bind_splits)
  then show ?thesis using L h by auto
qed


section \<open>Freeing and the memory limit\<close>

lemma delete_tree_element_abort: "delete_tree_element f t True = (0, [])"
  by (induction t) (auto split: option.split)

lemma delete_tree_element_walk:
  "delete_tree_element (Some f) t False =
     (let (error, log) = walk_spec (\<lambda>k n. f k) (inorder t) in (error, map (\<lambda>e. Free_free (fst e)) log))"
proof (induction t)
  case (Elem l k n c r)
  then show ?case
    by (auto simp: walk_spec_append Let_def delete_tree_element_abort split: prod.splits)
qed simp

text \<open>
  \<open>delete_tree\<close> hands the keys to the free callback in ascending order, stops calling it
  after the first error and returns that error, calls the callback's \<open>free_init\<close> and
  \<open>free_end\<close> around it for a tree with a memory limit that owns its memory root, and leaves an
  empty tree; with \<open>abort\<close> the callback is not called for any element.
\<close>

theorem delete_tree_correct:
  assumes "root t \<noteq> None" "free_fn t = Some f"
  shows "delete_tree t abort =
    (let (error, log) = (if abort then (0, []) else walk_spec (\<lambda>k n. f k) (entries t));
         bracketed = (\<not> with_delete t \<and> memory_limit t \<noteq> 0)
     in (t\<lparr>root := Some Null, elements_in_tree := 0, allocated := 0,
           free_log := free_log t @ (if bracketed then [Free_init] else [])
             @ map (\<lambda>e. Free_free (fst e)) log @ (if bracketed then [Free_end] else [])\<rparr>, error))"
proof -
  obtain r where "root t = Some r" using assms(1) by blast
  then show ?thesis using assms(2)
    by (cases abort; cases "with_delete t"; cases "walk_spec (\<lambda>k n. f k) (entries t)")
      (simp_all add: delete_tree_def free_tree_def tree_of_def delete_tree_element_walk
        delete_tree_element_abort Let_def)
qed

lemma free_tree_fields:
  "root (fst (free_tree t a)) = Some Null" "allocated (fst (free_tree t a)) = 0"
  "compare (fst (free_tree t a)) = compare t" "only_dups (fst (free_tree t a)) = only_dups t"
  "memory_limit (fst (free_tree t a)) = memory_limit t" "size_of_element (fst (free_tree t a)) = size_of_element t"
  by (simp_all add: free_tree_def split: prod.split)

lemma tree_insert_empty:
  assumes "root t = Some Null" "elements_in_tree t = 0" "allocated t = 0" "\<not> only_dups t"
  shows "tree_insert t key key_size arg True =
    Some (t\<lparr>allocated := u32 (sizeof_TREE_ELEMENT + key_size + size_of_element t),
      root := Some (Elem Null key 1 BLACK Null), elements_in_tree := 1\<rparr>, Element key 1)"
proof -
  have "u32 (sizeof_TREE_ELEMENT + key_size + size_of_element t) < 2 ^ 64"
    using u32_less [of "sizeof_TREE_ELEMENT + key_size + size_of_element t"] by simp
  then show ?thesis using assms u64_id
    by (simp add: tree_insert.simps [of t] Let_def tree_of_def rb_insert_def)
qed

text \<open>
  Inserting a new key that would exceed the memory limit of a non-empty tree empties the tree
  first, so that the new key is its only entry; the insertion cannot recurse again.
\<close>

theorem tree_insert_over_limit:
  assumes t: "tree_inv t arg" and new: "entry_of (\<lambda>k. compare t arg k key) (entries t) = None"
    and fl: "\<not> only_dups t" and lim: "memory_limit t \<noteq> 0" "elements_in_tree t \<noteq> 0"
      "memory_limit t < u64 (allocated t + u32 (sizeof_TREE_ELEMENT + key_size + size_of_element t))"
  shows "\<exists>t'. tree_insert t key key_size arg True = Some (t', Element key 1) \<and> tree_inv t' arg
    \<and> entries t' = [(key, 1)] \<and> elements_in_tree t' = 1
    \<and> allocated t' = u32 (sizeof_TREE_ELEMENT + key_size + size_of_element t)"
proof -
  obtain x fs where d: "descend (\<lambda>k. compare t arg k key) (tree_of t) [] = (x, fs)" by fastforce
  have x: "x = Null" using tree_insert_found(1) [OF t] d new by (cases x) auto
  let ?a = "u32 (sizeof_TREE_ELEMENT + key_size + size_of_element t)"
  let ?t = "fst (reset_tree (t\<lparr>allocated := u64 (allocated t + ?a)\<rparr>))"
  have "tree_insert t key key_size arg True = tree_insert ?t key key_size arg True"
    using d x fl lim by (simp add: tree_insert.simps [of t] Let_def)
  moreover have "tree_insert ?t key key_size arg True =
      Some (?t\<lparr>allocated := ?a, root := Some (Elem Null key 1 BLACK Null), elements_in_tree := 1\<rparr>, Element key 1)"
    using tree_insert_empty [of ?t key key_size arg] fl by (simp add: reset_tree_def free_tree_fields)
  ultimately show ?thesis using t
    by (auto simp: tree_inv_def tree_of_def reset_tree_def free_tree_fields rb_def tree_sorted_def)
qed

section \<open>Witnesses\<close>

definition ex_tree :: "nat \<Rightarrow> (nat, unit) TREE" where
  "ex_tree lim = \<lparr>root = Some (Elem (Elem Null 1 1 RED Null) 2 4 BLACK (Elem Null 5 1 RED Null)),
     offset_to_key = 24, elements_in_tree = 3, size_of_element = 8, memory_limit = lim, allocated = 90,
     compare = (\<lambda>_ a b. int a - int b), with_delete = True, free_fn = Some (\<lambda>k. if k = 2 then 7 else 0),
     only_dups = False, no_dups = False, mem_block_size = 8192, mem_min_malloc = 32, free_log = []\<rparr>"

lemma ex_tree_entries: "entries (ex_tree lim) = [(1, 1), (2, 4), (5, 1)]"
  by (simp add: ex_tree_def tree_of_def)

lemma ex_tree_simps [simp]:
  "compare (ex_tree lim) = (\<lambda>_ a b. int a - int b)" "elements_in_tree (ex_tree lim) = 3"
  "with_delete (ex_tree lim)" "\<not> only_dups (ex_tree lim)" "\<not> no_dups (ex_tree lim)"
  "memory_limit (ex_tree lim) = lim" "root (ex_tree lim) \<noteq> None" "size_of_element (ex_tree lim) = 8"
  "allocated (ex_tree lim) = 90" "free_fn (ex_tree lim) = Some (\<lambda>k. if k = 2 then 7 else 0)"
  by (simp_all add: ex_tree_def)

lemma ex_tree_inv: "tree_inv (ex_tree lim) ()"
proof -
  have "comparator (\<lambda>a b :: nat. int a - int b)" by unfold_locales simp_all
  moreover have "rb (tree_of (ex_tree lim))" by (simp add: rb_def ex_tree_def tree_of_def)
  ultimately show ?thesis by (simp add: tree_inv_def ex_tree_entries tree_sorted_def)
qed

theorem tree_insert_witness:
  "\<exists>t'. tree_insert (ex_tree 0) 2 8 () True = Some (t', Element 2 5) \<and> tree_inv t' ()
     \<and> set (entries t') = {(1, 1), (2, 5), (5, 1)}"
proof -
  have e: "entry_of (\<lambda>k. compare (ex_tree 0) () k 2) (entries (ex_tree 0)) = Some (2, 4)"
    by (simp add: ex_tree_entries entry_of_def)
  have "insert (2, 5) ({(1, 1), (2, 4), (5, 1)} - {(2, 4)}) = {(1, 1), (2, 5), (5, 1 :: nat) :: nat \<times> nat}" by auto
  with tree_insert_correct [OF ex_tree_inv, of 0 8 2, unfolded e] show ?thesis
    by (auto simp: ex_tree_entries count_inc_def)
qed

theorem tree_delete_witness:
  "\<exists>t'. tree_delete (ex_tree 0) 2 8 () = Some (t', 0) \<and> tree_inv t' () \<and> set (entries t') = {(1, 1), (5, 1)}"
proof -
  have e: "entry_of (\<lambda>k. compare (ex_tree 0) () k 2) (entries (ex_tree 0)) = Some (2, 4)"
    by (simp add: ex_tree_entries entry_of_def)
  have "{(1, 1), (2, 4), (5, 1)} - {(2, 4)} = {(1, 1), (5, 1 :: nat) :: nat \<times> nat}" by auto
  with tree_delete_correct [OF ex_tree_inv, of 0 2 8, unfolded e] show ?thesis
    by (auto simp: ex_tree_entries)
qed

theorem tree_search_witness: "tree_search (ex_tree 0) 5 () = Some 5"
  using tree_search_correct [OF ex_tree_inv, of 0 5] by (simp add: ex_tree_entries entry_of_def)

theorem tree_search_key_witness: "snd (tree_search_key (ex_tree 0) 3 None HA_READ_BEFORE_KEY ()) = Some 2"
proof -
  have "sign_sorted (\<lambda>k. compare (ex_tree 0) () k 3) (tree_keys (tree_of (ex_tree 0)))"
    by (simp add: sign_sorted_def ex_tree_entries)
  from tree_search_key_correct [OF this] show ?thesis by (simp add: key_spec_def ex_tree_entries)
qed

theorem tree_scan_witness: "tree_scan 4 Right_child (tree_search_edge (ex_tree 0) Right_child) = [5, 2, 1]"
  using tree_scan_correct [OF ex_tree_inv, of 0 3 Right_child] by (simp add: ex_tree_entries numeral_eq_Suc)

theorem tree_path_in_bounds_witness:
  "length (snd (descend (\<lambda>k. compare (ex_tree 0) () k 5) (tree_of (ex_tree 0)) [])) \<le> 62"
  using tree_path_in_bounds [OF ex_tree_inv, of 0 5] by (simp add: prod_eq_iff)

theorem delete_tree_witness: "snd (delete_tree (ex_tree 0) False) = 7"
  using delete_tree_correct [of "ex_tree 0" _ False] by (simp add: ex_tree_entries)

theorem tree_insert_over_limit_witness:
  "\<exists>t'. tree_insert (ex_tree 100) 3 8 () True = Some (t', Element 3 1) \<and> entries t' = [(3, 1)]"
proof -
  have "entry_of (\<lambda>k. compare (ex_tree 100) () k 3) (entries (ex_tree 100)) = None"
    by (simp add: ex_tree_entries entry_of_def)
  from tree_insert_over_limit [OF ex_tree_inv this, of 8] show ?thesis
    by (auto simp: u64_def u32_def sizeof_TREE_ELEMENT_def)
qed

end
