(* ===== verification/Net_Pack.thy ===== *)
theory Net_Pack
  imports Ptr_Cmp
begin

text \<open>
  \<open>sql-common/pack.c\<close>: the length-encoded integers of the client/server protocol.  A packet
  position is the list of the bytes from there on; reading or writing beyond the list is
  undefined in C (\<open>None\<close>).  Multi-byte integers are little-endian.
\<close>

section \<open>The model\<close>

definition NULL_LENGTH :: ulonglong where "NULL_LENGTH = NOT 0"

definition le_bytes :: "nat \<Rightarrow> ulonglong \<Rightarrow> uchar list" where
  "le_bytes n v = map (byte_of v) [0..<n]"

primrec le_val :: "uchar list \<Rightarrow> nat" where
  "le_val [] = 0"
| "le_val (b # bs) = unat b + 256 * le_val bs"

text \<open>\<open>uintNkorr(pos + 1)\<close> for a packet position \<open>pos\<close>, and the position after it.\<close>

definition korr :: "nat \<Rightarrow> uchar list \<Rightarrow> (ulonglong \<times> uchar list) option" where
  "korr n pos = (if n + 1 \<le> length pos then Some (word_of_nat (le_val (take n (tl pos))), drop (n + 1) pos)
     else None)"

definition net_field_length :: "uchar list \<Rightarrow> (ulonglong \<times> uchar list) option" where
  "net_field_length pos =
     (case pos of [] \<Rightarrow> None
      | b # rest \<Rightarrow>
          if b < 251 then Some (ucast b, rest)
          else if b = 251 then Some (NULL_LENGTH, rest)
          else if b = 252 then korr 2 pos
          else if b = 253 then korr 3 pos
          else map_option (\<lambda>(v, r). (v, drop 9 pos)) (korr 4 pos))"

text \<open>The assertion that the first byte is 254 is the last \<open>None\<close>.\<close>

definition net_field_length_ll :: "uchar list \<Rightarrow> (ulonglong \<times> uchar list) option" where
  "net_field_length_ll pos =
     (case pos of [] \<Rightarrow> None
      | b # rest \<Rightarrow>
          if b < 251 then Some (ucast b, rest)
          else if b = 251 then Some (NULL_LENGTH, rest)
          else if b = 252 then korr 2 pos
          else if b = 253 then korr 3 pos
          else if b = 254 then korr 8 pos
          else None)"

text \<open>
  The bounds-checked reader: \<open>Inl ()\<close> is \<open>*packet= NULL; return 0\<close>.  Every read is of the
  memory \<open>pos\<close>, of which only \<open>packet_len\<close> bytes belong to the packet.
\<close>

definition safe_net_field_length_ll :: "uchar list \<Rightarrow> nat \<Rightarrow> (unit + ulonglong \<times> uchar list) option" where
  "safe_net_field_length_ll pos packet_len =
     (if packet_len < 1 then Some (Inl ())
      else case pos of [] \<Rightarrow> None
      | b # rest \<Rightarrow>
          if b < 251 then Some (Inr (ucast b, rest))
          else if b = 251 then Some (Inr (NULL_LENGTH, rest))
          else if b = 252 then if packet_len < 3 then Some (Inl ()) else map_option Inr (korr 2 pos)
          else if b = 253 then if packet_len < 4 then Some (Inl ()) else map_option Inr (korr 3 pos)
          else if packet_len < 9 \<or> b \<noteq> 254 then Some (Inl ())
          else map_option Inr (korr 8 pos))"

definition write_bytes :: "uchar list \<Rightarrow> uchar list \<Rightarrow> (uchar list \<times> nat) option" where
  "write_bytes buf bs =
     (if length bs \<le> length buf then Some (bs @ drop (length bs) buf, length bs) else None)"

text \<open>The stores return the buffer and the offset of the returned pointer.\<close>

definition net_store_length :: "uchar list \<Rightarrow> ulonglong \<Rightarrow> (uchar list \<times> nat) option" where
  "net_store_length packet len =
     (if len < 251 then write_bytes packet [ucast len]
      else if len < 65536 then write_bytes packet (252 # le_bytes 2 len)
      else if len < 16777216 then write_bytes packet (253 # le_bytes 3 len)
      else write_bytes packet (254 # le_bytes 8 len))"

definition safe_net_store_length :: "uchar list \<Rightarrow> nat \<Rightarrow> ulonglong \<Rightarrow> (unit + uchar list \<times> nat) option" where
  "safe_net_store_length packet packet_len len =
     (if len < 251 then
        if packet_len < 1 then Some (Inl ()) else map_option Inr (write_bytes packet [ucast len])
      else if len < 65536 then
        if packet_len < 3 then Some (Inl ()) else map_option Inr (write_bytes packet (252 # le_bytes 2 len))
      else if len < 16777216 then
        if packet_len < 4 then Some (Inl ()) else map_option Inr (write_bytes packet (253 # le_bytes 3 len))
      else if packet_len < 9 then Some (Inl ())
      else map_option Inr (write_bytes packet (254 # le_bytes 8 len)))"

definition net_length_size :: "ulonglong \<Rightarrow> nat" where
  "net_length_size num =
     (if num < 251 then 1 else if num < 65536 then 3 else if num < 16777216 then 4 else 9)"

section \<open>Round trip\<close>

lemma le_val_append: "le_val (xs @ ys) = le_val xs + 256 ^ length xs * le_val ys"
  by (induction xs) auto

lemma le_val_le_bytes: "le_val (le_bytes n v) = unat v mod 256 ^ n"
proof (induction n)
  case (Suc n)
  have "le_bytes (Suc n) v = le_bytes n v @ [byte_of v n]" by (simp add: le_bytes_def)
  then show ?case using Suc
    by (simp add: le_val_append le_bytes_def unat_byte_of mod_mult2_eq [of _ "256 ^ n" 256] mult.commute [of 256])
qed (simp add: le_bytes_def)

lemma korr_le_bytes:
  "unat v < 256 ^ n \<Longrightarrow> korr n (b # le_bytes n v @ rest) = Some (v, rest)"
  by (simp add: korr_def le_val_le_bytes [unfolded le_bytes_def] le_bytes_def)

text \<open>The encoding of a length.\<close>

definition length_bytes :: "ulonglong \<Rightarrow> uchar list" where
  "length_bytes len =
     (if len < 251 then [ucast len]
      else if len < 65536 then 252 # le_bytes 2 len
      else if len < 16777216 then 253 # le_bytes 3 len
      else 254 # le_bytes 8 len)"

lemma net_store_length_bytes: "net_store_length packet len = write_bytes packet (length_bytes len)"
  by (simp add: net_store_length_def length_bytes_def)

lemma length_length_bytes: "length (length_bytes len) = net_length_size len"
  by (simp add: length_bytes_def net_length_size_def le_bytes_def)

lemma small_ucast:
  assumes "len < (251 :: ulonglong)"
  shows "(ucast len :: uchar) < 251" "ucast (ucast len :: uchar) = len"
proof -
  have "unat len < 251" using assms by (simp add: word_less_nat_alt)
  then have u: "unat (ucast len :: uchar) = unat len" by (simp add: unsigned_ucast_eq take_bit_eq_mod)
  then show "(ucast len :: uchar) < 251" using \<open>unat len < 251\<close> by (simp add: word_less_nat_alt)
  show "ucast (ucast len :: uchar) = len" using u unat_ucast_uchar(1) [of "ucast len"]
    by (simp add: word_unat_eq_iff)
qed

lemma read_length_bytes:
  "net_field_length_ll (length_bytes len @ rest) = Some (len, rest)"
proof -
  have "unat len < 18446744073709551616" using unsigned_less [of len, where ?'a = nat] by simp
  then have "len < 65536 \<Longrightarrow> unat len < 256 ^ 2" "len < 16777216 \<Longrightarrow> unat len < 256 ^ 3" "unat len < 256 ^ 8"
    by (simp_all add: word_less_nat_alt)
  then show ?thesis
    using small_ucast [of len] korr_le_bytes [of len 2 252 rest] korr_le_bytes [of len 3 253 rest]
      korr_le_bytes [of len 8 254 rest]
    by (auto simp: net_field_length_ll_def length_bytes_def)
qed

text \<open>A complete packet position of at least \<open>n\<close> bytes: the checked reader agrees with the other.\<close>

lemma safe_reader_agrees:
  "net_field_length_ll pos = Some r \<Longrightarrow> length pos \<le> n \<Longrightarrow> safe_net_field_length_ll pos n = Some (Inr r)"
  by (cases pos) (auto simp: net_field_length_ll_def safe_net_field_length_ll_def korr_def split: if_splits)


interpretation net_length: stream_codec "\<lambda>_. True" length_bytes net_field_length_ll
  by unfold_locales (simp add: read_length_bytes)

text \<open>
  C36: a length stored with \<open>net_store_length\<close> into a large enough buffer takes
  \<open>net_length_size\<close> bytes, leaves the rest of the buffer alone, and both readers return it
  and stop right behind it.
\<close>

theorem net_length_roundtrip:
  assumes "net_length_size len \<le> length buf"
  shows "\<exists>buf'. net_store_length buf len = Some (buf', net_length_size len) \<and> length buf' = length buf
    \<and> net_field_length_ll buf' = Some (len, drop (net_length_size len) buf)
    \<and> safe_net_field_length_ll buf' (length buf) = Some (Inr (len, drop (net_length_size len) buf))"
proof -
  let ?b = "length_bytes len @ drop (net_length_size len) buf"
  have "net_store_length buf len = Some (?b, net_length_size len)" "length ?b = length buf"
    using assms by (simp_all add: net_store_length_bytes write_bytes_def length_length_bytes)
  then show ?thesis
    using read_length_bytes [of len "drop (net_length_size len) buf"] safe_reader_agrees [of ?b _ "length buf"]
    by simp
qed

text \<open>A sequence of lengths, as in a row of the text protocol, is read back one by one.\<close>

lemma net_length_sequence:
  "net_length.dec_many (length lens) (concat (map length_bytes lens) @ rest) = Some (lens, rest)"
  by (rule net_length.dec_many_enc) (simp add: list_all_iff)

text \<open>
  \<open>safe_net_store_length\<close> never writes beyond \<open>packet_len\<close>: it fails exactly when the
  encoding does not fit and otherwise does what \<open>net_store_length\<close> does.
\<close>

theorem safe_net_store_correct:
  assumes "packet_len \<le> length packet"
  shows "safe_net_store_length packet packet_len len =
    (if packet_len < net_length_size len then Some (Inl ())
     else map_option Inr (net_store_length packet len)) \<and> safe_net_store_length packet packet_len len \<noteq> None"
  using assms
  by (auto simp: safe_net_store_length_def net_store_length_def net_length_size_def write_bytes_def le_bytes_def)

lemma korr_cut:
  assumes "n \<le> length rest"
  shows "korr k (b # take n rest) =
      (if k \<le> n then Some (word_of_nat (le_val (take k rest)), drop k (take n rest)) else None)"
    "k \<le> n \<Longrightarrow> korr k (b # rest) = Some (word_of_nat (le_val (take k rest)), drop k (take n rest) @ drop n rest)"
proof -
  show "korr k (b # take n rest) =
      (if k \<le> n then Some (word_of_nat (le_val (take k rest)), drop k (take n rest)) else None)"
    using assms by (auto simp: korr_def min_def)
  assume k: "k \<le> n"
  have "drop k rest = drop k (take n rest @ drop n rest)" by simp
  also have "\<dots> = drop k (take n rest) @ drop n rest" using k assms by (simp only: drop_append) simp
  finally show "korr k (b # rest) = Some (word_of_nat (le_val (take k rest)), drop k (take n rest) @ drop n rest)"
    using k assms by (simp add: korr_def)
qed

text \<open>
  \<open>safe_net_field_length_ll\<close> never reads beyond \<open>packet_len\<close>: what it returns is what the
  unchecked reader returns on the packet cut off at \<open>packet_len\<close>, and an error when that
  packet is incomplete or does not start with a length.
\<close>

theorem safe_net_field_correct:
  assumes "packet_len \<le> length pos"
  shows "safe_net_field_length_ll pos packet_len =
    (case net_field_length_ll (take packet_len pos) of
       None \<Rightarrow> Some (Inl ())
     | Some (v, r) \<Rightarrow> Some (Inr (v, r @ drop packet_len pos)))"
proof (cases packet_len)
  case 0
  then show ?thesis by (simp add: safe_net_field_length_ll_def net_field_length_ll_def)
next
  case (Suc n)
  then obtain b rest where pos: "pos = b # rest" using assms by (cases pos) auto
  have rd: "take packet_len pos = b # take n rest" by (simp add: pos Suc)
  have n: "n \<le> length rest" using assms by (simp add: pos Suc)
  show ?thesis unfolding rd
    using korr_cut(1) [OF n, of 2] korr_cut(1) [OF n, of 3] korr_cut(1) [OF n, of 8]
      korr_cut(2) [OF n, of 2] korr_cut(2) [OF n, of 3] korr_cut(2) [OF n, of 8]
    by (auto simp: safe_net_field_length_ll_def net_field_length_ll_def Suc pos)
qed

text \<open>
  \<open>net_field_length\<close> skips the same bytes but returns only the low 32 bits of a length that
  was stored in the 8-byte form; shorter forms are returned in full.
\<close>

theorem net_field_length_low_bits:
  "net_field_length (length_bytes len @ rest) =
     Some (if len < 16777216 then len else len AND 0xFFFFFFFF, rest)"
proof (cases "len < 16777216")
  case True
  then show ?thesis using read_length_bytes [of len rest] small_ucast [of len]
    by (auto simp: net_field_length_def net_field_length_ll_def length_bytes_def)
next
  case False
  have "take 4 (le_bytes 8 len) = le_bytes 4 len" by (simp add: le_bytes_def take_map)
  then have "le_val (take 4 (le_bytes 8 len)) = unat len mod 256 ^ 4" by (simp only: le_val_le_bytes)
  moreover have "(word_of_nat (unat len mod 256 ^ 4) :: ulonglong) = len AND 0xFFFFFFFF"
  proof -
    have e: "len AND 0xFFFFFFFF = take_bit 32 len" by (simp add: take_bit_eq_mask mask_eq_exp_minus_1)
    have "unat (len AND 0xFFFFFFFF) = unat len mod 2 ^ 32"
      unfolding e unsigned_take_bit_eq by (simp add: take_bit_eq_mod)
    then show ?thesis by (simp add: word_unat_eq_iff unsigned_of_nat take_bit_eq_mod)
  qed
  moreover have "\<not> len < 251" "\<not> len < 65536" using False by (auto simp: word_less_nat_alt)
  ultimately show ?thesis using False
    by (simp add: net_field_length_def length_bytes_def korr_def) (simp add: le_bytes_def)
qed

section \<open>Witnesses\<close>

theorem net_length_roundtrip_witness:
  "\<exists>b. net_store_length [0, 0, 0, 9] 500 = Some (b, 3) \<and> net_field_length_ll b = Some (500, [9])"
proof -
  have "net_length_size 500 = 3" by (simp add: net_length_size_def)
  with net_length_roundtrip [of 500 "[0, 0, 0, 9]"] show ?thesis by auto
qed

theorem safe_net_store_witness: "safe_net_store_length [0, 0, 0] 2 500 = Some (Inl ())"
  using safe_net_store_correct [of 2 "[0, 0, 0]" 500] by (simp add: net_length_size_def)

theorem safe_net_field_witness: "safe_net_field_length_ll [252, 1, 2] 2 = Some (Inl ())"
  using safe_net_field_correct [of 2 "[252, 1, 2]"] by (simp add: net_field_length_ll_def korr_def)

end
