(* ===== verification/Base64.thy ===== *)
theory Base64
  imports Prelude "HOL-Library.Signed_Division"
begin

text \<open>
  \<open>mysys/base64.c\<close>: the encoder, which breaks lines after 76 characters, and the decoder, a
  small state machine that skips white space anywhere and accepts padding only at the end of a
  group.  Bytes and characters are numbers below 256; the decoder's 32-bit collector \<open>c\<close> wraps.
\<close>

section \<open>The model\<close>

subsection \<open>Lengths\<close>

definition my_base64_encode_max_arg_length :: int where
  "my_base64_encode_max_arg_length = 0x5EC0D4C6"

definition my_base64_needed_encoded_length :: "int \<Rightarrow> int" where
  "my_base64_needed_encoded_length length_of_data =
     (let nb_base64_chars = s32 (s32 (length_of_data + 2) sdiv 3 * 4)
      in s32 (s32 (nb_base64_chars + s32 (nb_base64_chars - 1) sdiv 76) + 1))"

definition my_base64_decode_max_arg_length :: int where
  "my_base64_decode_max_arg_length = 0x7FFFFFFF"

text \<open>The cast to \<open>int\<close> applies to the sum, before the division.\<close>

definition my_base64_needed_decoded_length :: "int \<Rightarrow> int" where
  "my_base64_needed_decoded_length length_of_encoded_data =
     s32 (s32 (length_of_encoded_data + 3) sdiv 4 * 3)"

subsection \<open>Encoder\<close>

definition base64_table :: "nat list" where
  "base64_table = map of_char
     ''ABCDEFGHIJKLMNOPQRSTUVWXYZabcdefghijklmnopqrstuvwxyz0123456789+/''"

function encode_loop :: "nat list \<Rightarrow> nat \<Rightarrow> nat \<Rightarrow> nat list" where
  "encode_loop s i len =
     (if i < length s then
        let nl = (if len = 76 then [10] else []);
            len = (if len = 76 then 0 else len);
            c = s ! i * 256;
            c = (if i + 1 < length s then c + s ! (i + 1) else c) * 256;
            c = (if i + 2 < length s then c + s ! (i + 2) else c);
            i = i + 3
        in nl @ [base64_table ! (c div 2 ^ 18 mod 64), base64_table ! (c div 2 ^ 12 mod 64),
                 if i > length s + 1 then 61 else base64_table ! (c div 2 ^ 6 mod 64),
                 if i > length s then 61 else base64_table ! (c mod 64)]
           @ encode_loop s i (len + 4)
      else [])"
  by pat_completeness auto
termination
  by (relation "measure (\<lambda>(s, i, len). length s - i)") auto

declare encode_loop.simps [simp del]

definition my_base64_encode :: "nat list \<Rightarrow> nat list" where
  "my_base64_encode src = encode_loop src 0 0 @ [0]"

subsection \<open>Decoder\<close>

definition from_base64_table :: "int list" where
  "from_base64_table =
     [- 1, - 1, - 1, - 1, - 1, - 1, - 1, - 1, - 1, - 2, - 2, - 2, - 2, - 2, - 1, - 1,
      - 1, - 1, - 1, - 1, - 1, - 1, - 1, - 1, - 1, - 1, - 1, - 1, - 1, - 1, - 1, - 1,
      - 2, - 1, - 1, - 1, - 1, - 1, - 1, - 1, - 1, - 1, - 1, 62, - 1, - 1, - 1, 63,
      52, 53, 54, 55, 56, 57, 58, 59, 60, 61, - 1, - 1, - 1, - 1, - 1, - 1,
      - 1, 0, 1, 2, 3, 4, 5, 6, 7, 8, 9, 10, 11, 12, 13, 14,
      15, 16, 17, 18, 19, 20, 21, 22, 23, 24, 25, - 1, - 1, - 1, - 1, - 1,
      - 1, 26, 27, 28, 29, 30, 31, 32, 33, 34, 35, 36, 37, 38, 39, 40,
      41, 42, 43, 44, 45, 46, 47, 48, 49, 50, 51, - 1, - 1, - 1, - 1, - 1,
      - 1, - 1, - 1, - 1, - 1, - 1, - 1, - 1, - 1, - 1, - 1, - 1, - 1, - 1, - 1, - 1,
      - 1, - 1, - 1, - 1, - 1, - 1, - 1, - 1, - 1, - 1, - 1, - 1, - 1, - 1, - 1, - 1,
      - 2, - 1, - 1, - 1, - 1, - 1, - 1, - 1, - 1, - 1, - 1, - 1, - 1, - 1, - 1, - 1,
      - 1, - 1, - 1, - 1, - 1, - 1, - 1, - 1, - 1, - 1, - 1, - 1, - 1, - 1, - 1, - 1,
      - 1, - 1, - 1, - 1, - 1, - 1, - 1, - 1, - 1, - 1, - 1, - 1, - 1, - 1, - 1, - 1,
      - 1, - 1, - 1, - 1, - 1, - 1, - 1, - 1, - 1, - 1, - 1, - 1, - 1, - 1, - 1, - 1,
      - 1, - 1, - 1, - 1, - 1, - 1, - 1, - 1, - 1, - 1, - 1, - 1, - 1, - 1, - 1, - 1,
      - 1, - 1, - 1, - 1, - 1, - 1, - 1, - 1, - 1, - 1, - 1, - 1, - 1, - 1, - 1, - 1]"

record MY_BASE64_DECODER =
  src :: "nat list"
  collected :: nat
  error :: bool
  state :: nat
  padmark :: nat

fun skip_loop :: "nat list \<Rightarrow> nat list" where
  "skip_loop [] = []"
| "skip_loop (x # xs) = (if from_base64_table ! x \<noteq> - 2 then x # xs else skip_loop xs)"

definition my_base64_decoder_skip_spaces :: "MY_BASE64_DECODER \<Rightarrow> MY_BASE64_DECODER \<times> bool" where
  "my_base64_decoder_skip_spaces d =
     (let d = d\<lparr>src := skip_loop (src d)\<rparr> in
      if src d \<noteq> [] then (d, False)
      else (if state d > 0 then d\<lparr>error := True\<rparr> else d, True))"

text \<open>The next character is consumed; the caller has checked that there is one.\<close>

definition my_base64_add :: "MY_BASE64_DECODER \<Rightarrow> MY_BASE64_DECODER \<times> bool" where
  "my_base64_add d =
     (let d' = d\<lparr>collected := (collected d * 64) mod 2 ^ 32, src := tl (src d)\<rparr>;
          res = from_base64_table ! hd (src d)
      in if res < 0 then (d'\<lparr>error := True\<rparr>, True)
         else (d'\<lparr>collected := (collected d' + nat res) mod 2 ^ 32\<rparr>, False))"

definition my_base64_decoder_getch :: "MY_BASE64_DECODER \<Rightarrow> MY_BASE64_DECODER \<times> bool" where
  "my_base64_decoder_getch d =
     (case my_base64_decoder_skip_spaces d of
        (d, True) \<Rightarrow> (d, True)
      | (d, False) \<Rightarrow>
          (case my_base64_add d of
             (e, False) \<Rightarrow>
               if padmark e > 0 then (e\<lparr>error := True, src := src d\<rparr>, True)
               else (e\<lparr>state := state e + 1\<rparr>, False)
           | (e, True) \<Rightarrow>
               if state e = 0 \<or> state e = 1 then (e\<lparr>src := src d\<rparr>, True)
               else if state e = 2 \<or> state e = 3 then
                 if hd (src d) = 61 then
                   (e\<lparr>error := False, padmark := padmark e + 1, state := state e + 1\<rparr>, False)
                 else (e\<lparr>src := src d\<rparr>, True)
               else (e, True)))"

text \<open>Four characters, stopping at the first that fails.\<close>

definition get_group :: "MY_BASE64_DECODER \<Rightarrow> MY_BASE64_DECODER \<times> bool" where
  "get_group d =
     (case my_base64_decoder_getch d of (d, True) \<Rightarrow> (d, True)
      | (d, False) \<Rightarrow> (case my_base64_decoder_getch d of (d, True) \<Rightarrow> (d, True)
      | (d, False) \<Rightarrow> (case my_base64_decoder_getch d of (d, True) \<Rightarrow> (d, True)
      | (d, False) \<Rightarrow> my_base64_decoder_getch d)))"

lemma skip_loop_length: "length (skip_loop xs) \<le> length xs"
  by (induction xs) auto

lemma getch_length:
  assumes "my_base64_decoder_getch d = (d', False)"
  shows "length (src d') < length (src d)"
proof (cases "skip_loop (src d)")
  case Nil
  then show ?thesis using assms
    by (simp add: my_base64_decoder_getch_def my_base64_decoder_skip_spaces_def Let_def)
next
  case (Cons x xs)
  then have "src d' = xs" using assms
    by (auto simp: my_base64_decoder_getch_def my_base64_decoder_skip_spaces_def my_base64_add_def Let_def
      split: if_splits)
  then show ?thesis using Cons skip_loop_length [of "src d"] by simp
qed

lemma get_group_steps:
  assumes "get_group d = (d', False)"
  obtains d1 d2 d3 where "my_base64_decoder_getch d = (d1, False)" "my_base64_decoder_getch d1 = (d2, False)"
    "my_base64_decoder_getch d2 = (d3, False)" "my_base64_decoder_getch d3 = (d', False)"
  using assms unfolding get_group_def by (auto split: prod.splits bool.splits)

lemma get_group_length: "get_group d = (d', False) \<Longrightarrow> length (src d') < length (src d)"
  by (elim get_group_steps) (meson getch_length less_trans)

text \<open>The main loop; \<open>out\<close> is what was written, \<open>d\<close> in the sources.\<close>

function decode_loop :: "bool \<Rightarrow> MY_BASE64_DECODER \<Rightarrow> nat list \<Rightarrow> MY_BASE64_DECODER \<times> nat list" where
  "decode_loop multiple d out =
     (case get_group (d\<lparr>collected := 0, state := 0\<rparr>) of
        (d', True) \<Rightarrow> (d', out)
      | (d', False) \<Rightarrow>
          let out = out @ [collected d' div 2 ^ 16 mod 256, collected d' div 2 ^ 8 mod 256, collected d' mod 256]
          in if padmark d' > 0 then
               let out = take (length out - padmark d') out in
               if \<not> multiple then (d', out)
               else decode_loop multiple (d'\<lparr>padmark := 0\<rparr>) out
             else decode_loop multiple d' out)"
  by pat_completeness auto
termination
  by (relation "measure (\<lambda>(m, d, out). length (src d))") (auto dest!: get_group_length sym [of "(_, False)"])

declare decode_loop.simps [simp del]

text \<open>The decoded bytes, the number returned (-1 for an error) and the input left at \<open>*end_ptr\<close>.\<close>

definition my_base64_decode :: "nat list \<Rightarrow> bool \<Rightarrow> nat list \<times> int \<times> nat list" where
  "my_base64_decode src_base multiple =
     (let d0 = \<lparr>src = src_base, collected = 0, error = False, state = 0, padmark = 0\<rparr>;
          (d, out) = decode_loop multiple d0 [];
          (d, at_end) = my_base64_decoder_skip_spaces (d\<lparr>state := 0\<rparr>);
          d = (if \<not> at_end then d\<lparr>error := True\<rparr> else d)
      in (out, if error d then - 1 else s32 (int (length out)), src d))"


section \<open>Tables and arithmetic\<close>

lemma tables_inverse: "\<forall>i < 64. from_base64_table ! (base64_table ! i) = int i"
proof -
  have "list_all (\<lambda>i. from_base64_table ! (base64_table ! i) = int i) [0..<64]" by code_simp
  then show ?thesis by (simp add: list_all_iff)
qed

lemma table_value [simp]: "i < 64 \<Longrightarrow> from_base64_table ! (base64_table ! i) = int i"
  using tables_inverse by blast

lemma table_newline [simp]: "from_base64_table ! 10 = - 2"
  by code_simp

lemma table_pad [simp]: "from_base64_table ! 61 = - 1"
  by code_simp

lemma sextets:
  fixes c :: nat
  assumes "c < 2 ^ 24"
  shows "((c div 2 ^ 18 mod 64 * 64 + c div 2 ^ 12 mod 64) * 64 + c div 2 ^ 6 mod 64) * 64 + c mod 64 = c"
    "(c div 2 ^ 18 mod 64 * 64 + c div 2 ^ 12 mod 64) * 64 + c div 2 ^ 6 mod 64 = c div 2 ^ 6"
    "c div 2 ^ 18 mod 64 * 64 + c div 2 ^ 12 mod 64 = c div 2 ^ 12"
proof -
  have d: "c div 2 ^ 18 = c div 2 ^ 12 div 64" "c div 2 ^ 12 = c div 2 ^ 6 div 64" "c div 2 ^ 6 = c div 64"
    by (simp_all add: div_mult2_eq [symmetric])
  have m: "c div 2 ^ 18 mod 64 = c div 2 ^ 18" using assms by simp
  show 1: "c div 2 ^ 18 mod 64 * 64 + c div 2 ^ 12 mod 64 = c div 2 ^ 12"
    unfolding m unfolding d(1) by simp
  show 2: "(c div 2 ^ 18 mod 64 * 64 + c div 2 ^ 12 mod 64) * 64 + c div 2 ^ 6 mod 64 = c div 2 ^ 6"
    unfolding 1 unfolding d(2) by simp
  show "((c div 2 ^ 18 mod 64 * 64 + c div 2 ^ 12 mod 64) * 64 + c div 2 ^ 6 mod 64) * 64 + c mod 64 = c"
    unfolding 2 unfolding d(3) by simp
qed

lemma octets:
  fixes x y z :: nat
  assumes "x < 256" "y < 256" "z < 256"
  defines "c \<equiv> (x * 256 + y) * 256 + z"
  shows "c < 2 ^ 24" "c div 2 ^ 16 mod 256 = x" "c div 2 ^ 8 mod 256 = y" "c mod 256 = z"
proof -
  show "c < 2 ^ 24" using assms by simp
  have "c div 2 ^ 8 = x * 256 + y" using assms(3) by (simp add: c_def)
  moreover have "c div 2 ^ 16 = c div 2 ^ 8 div 256" by (simp add: div_mult2_eq [symmetric])
  ultimately show "c div 2 ^ 16 mod 256 = x" "c div 2 ^ 8 mod 256 = y" using assms(1,2) by simp_all
  have "c = z + 256 * (x * 256 + y)" by (simp add: c_def)
  then show "c mod 256 = z" using assms(3) by (simp only: mod_mult_self2 mod_less)
qed

section \<open>Decoding what was encoded\<close>

definition dec0 :: "nat list \<Rightarrow> MY_BASE64_DECODER" where
  "dec0 xs = \<lparr>src = xs, collected = 0, error = False, state = 0, padmark = 0\<rparr>"

lemma getch_sextet:
  assumes "i < 64" "collected d * 64 + i < 2 ^ 32" "padmark d = 0" "src d = ws @ base64_table ! i # xs"
    "ws = [] \<or> ws = [10]"
  shows "my_base64_decoder_getch d = (d\<lparr>src := xs, collected := collected d * 64 + i, state := state d + 1\<rparr>, False)"
proof -
  have "skip_loop (src d) = base64_table ! i # xs" using assms(1,4,5) by auto
  then show ?thesis using assms(1-3)
    by (simp add: my_base64_decoder_getch_def my_base64_decoder_skip_spaces_def my_base64_add_def Let_def)
qed

lemma getch_pad:
  assumes "collected d * 64 < 2 ^ 32" "state d = 2 \<or> state d = 3" "src d = 61 # xs"
  shows "my_base64_decoder_getch d =
    (d\<lparr>src := xs, collected := collected d * 64, error := False, padmark := padmark d + 1, state := state d + 1\<rparr>, False)"
  using assms by (auto simp: my_base64_decoder_getch_def my_base64_decoder_skip_spaces_def my_base64_add_def Let_def)

lemma getch_end: "src d = [] \<Longrightarrow> state d = 0 \<Longrightarrow> my_base64_decoder_getch d = (d, True)"
  by (simp add: my_base64_decoder_getch_def my_base64_decoder_skip_spaces_def)

lemma group_full:
  assumes i: "i0 < 64" "i1 < 64" "i2 < 64" "i3 < 64" and ws: "ws = [] \<or> ws = [10]"
    and t: "t = base64_table"
  shows "get_group (dec0 (ws @ [t ! i0, t ! i1, t ! i2, t ! i3] @ xs)) =
    (\<lparr>src = xs, collected = ((i0 * 64 + i1) * 64 + i2) * 64 + i3, error = False, state = 4, padmark = 0\<rparr>, False)"
  using i ws unfolding t by (simp add: get_group_def dec0_def getch_sextet [where ws = ws] getch_sextet [where ws = "[]"])

lemma group_one_pad:
  assumes i: "i0 < 64" "i1 < 64" "i2 < 64" and ws: "ws = [] \<or> ws = [10]" and t: "t = base64_table"
  shows "get_group (dec0 (ws @ [t ! i0, t ! i1, t ! i2, 61] @ xs)) =
    (\<lparr>src = xs, collected = ((i0 * 64 + i1) * 64 + i2) * 64, error = False, state = 4, padmark = 1\<rparr>, False)"
  using i ws unfolding t
  by (simp add: get_group_def dec0_def getch_sextet [where ws = ws] getch_sextet [where ws = "[]"] getch_pad)

lemma group_two_pads:
  assumes i: "i0 < 64" "i1 < 64" and ws: "ws = [] \<or> ws = [10]" and t: "t = base64_table"
  shows "get_group (dec0 (ws @ [t ! i0, t ! i1, 61, 61] @ xs)) =
    (\<lparr>src = xs, collected = (i0 * 64 + i1) * 64 * 64, error = False, state = 4, padmark = 2\<rparr>, False)"
  using i ws unfolding t
  by (simp add: get_group_def dec0_def getch_sextet [where ws = ws] getch_sextet [where ws = "[]"] getch_pad)


lemma decode_loop_reset: "decode_loop m d out = decode_loop m (d\<lparr>collected := 0, state := 0\<rparr>) out"
  by (simp add: decode_loop.simps [of m d] decode_loop.simps [of m "d\<lparr>collected := 0, state := 0\<rparr>"])

lemma decode_loop_end: "decode_loop m (dec0 []) out = (dec0 [], out)"
  unfolding decode_loop.simps [of m "dec0 []" out] by (simp add: get_group_def dec0_def getch_end)

lemma decode_full_group:
  fixes c :: nat
  assumes c: "c < 2 ^ 24" and ws: "ws = [] \<or> ws = [10]" and t: "t = base64_table"
  shows "decode_loop m (dec0 (ws @ [t ! (c div 2 ^ 18 mod 64), t ! (c div 2 ^ 12 mod 64), t ! (c div 2 ^ 6 mod 64),
      t ! (c mod 64)] @ xs)) out
    = decode_loop m (dec0 xs) (out @ [c div 2 ^ 16 mod 256, c div 2 ^ 8 mod 256, c mod 256])"
proof -
  have g: "get_group (dec0 (ws @ [t ! (c div 2 ^ 18 mod 64), t ! (c div 2 ^ 12 mod 64), t ! (c div 2 ^ 6 mod 64),
      t ! (c mod 64)] @ xs)) = (\<lparr>src = xs, collected = c, error = False, state = 4, padmark = 0\<rparr>, False)"
    using group_full [of "c div 2 ^ 18 mod 64" "c div 2 ^ 12 mod 64" "c div 2 ^ 6 mod 64" "c mod 64", OF _ _ _ _ ws t, of xs]
    unfolding sextets(1) [OF c] by simp
  have "dec0 ys\<lparr>collected := 0, state := 0\<rparr> = dec0 ys" for ys by (simp add: dec0_def)
  then show ?thesis
    unfolding decode_loop.simps [of m "dec0 (ws @ _ @ xs)"]
    using g decode_loop_reset [of m "\<lparr>src = xs, collected = c, error = False, state = 4, padmark = 0\<rparr>"]
    by (simp add: dec0_def)
qed

text \<open>A padded last group.\<close>

lemma decode_last_group:
  assumes g: "get_group (dec0 ys) = (\<lparr>src = [], collected = c, error = False, state = 4, padmark = k\<rparr>, False)"
    and k: "0 < k" "k \<le> 3"
  shows "\<exists>d. decode_loop m (dec0 ys) out =
      (d, out @ take (3 - k) [c div 2 ^ 16 mod 256, c div 2 ^ 8 mod 256, c mod 256]) \<and> src d = [] \<and> \<not> error d"
proof -
  have d0: "dec0 ys\<lparr>collected := 0, state := 0\<rparr> = dec0 ys" by (simp add: dec0_def)
  let ?o = "out @ [c div 2 ^ 16 mod 256, c div 2 ^ 8 mod 256, c mod 256]"
  have o: "take (length ?o - k) ?o = out @ take (3 - k) [c div 2 ^ 16 mod 256, c div 2 ^ 8 mod 256, c mod 256]"
    using k by (simp add: take_append)
  have e: "decode_loop True \<lparr>src = [], collected = c, error = False, state = 4, padmark = 0\<rparr> out' = (dec0 [], out')" for out'
    using decode_loop_reset [of True "\<lparr>src = [], collected = c, error = False, state = 4, padmark = 0\<rparr>" out']
      decode_loop_end [of True out'] by (simp add: dec0_def)
  show ?thesis unfolding decode_loop.simps [of m "dec0 ys"] d0 g prod.case bool.case Let_def
    using k o e by (cases m) (auto simp: dec0_def)
qed


lemma drop_three:
  "i + 2 < length s \<Longrightarrow> drop i s = s ! i # s ! (i + 1) # s ! (i + 2) # drop (i + 3) s"
  by (simp add: Cons_nth_drop_Suc numeral_eq_Suc)

lemma drop_two: "i + 2 = length s \<Longrightarrow> drop i s = [s ! i, s ! (i + 1)]"
  using Cons_nth_drop_Suc [of i s] Cons_nth_drop_Suc [of "Suc i" s] by simp

lemma drop_one: "i + 1 = length s \<Longrightarrow> drop i s = [s ! i]"
  using Cons_nth_drop_Suc [of i s] by simp

lemma encode_loop_end: "length s \<le> i \<Longrightarrow> encode_loop s i len = []"
  by (simp add: encode_loop.simps)

lemma decode_two_left:
  assumes "i + 2 = length s" "s ! i < 256" "s ! (i + 1) < 256"
  shows "\<exists>d. decode_loop m (dec0 (encode_loop s i len)) out = (d, out @ drop i s) \<and> src d = [] \<and> \<not> error d"
proof -
  let ?ws = "if len = 76 then [10] else [] :: nat list"
  let ?c = "(s ! i * 256 + s ! (i + 1)) * 256"
  have ws: "?ws = [] \<or> ?ws = [10]" by simp
  note oc = octets [OF assms(2,3), of 0, simplified]
  have c: "?c div 2 ^ 6 * 64 = ?c" by simp
  have "encode_loop s i len = ?ws @ [base64_table ! (?c div 2 ^ 18 mod 64), base64_table ! (?c div 2 ^ 12 mod 64),
      base64_table ! (?c div 2 ^ 6 mod 64), 61] @ []"
    using assms(1) by (simp add: encode_loop.simps [of s i len] Let_def encode_loop_end)
  moreover have "get_group (dec0 (?ws @ [base64_table ! (?c div 2 ^ 18 mod 64), base64_table ! (?c div 2 ^ 12 mod 64),
      base64_table ! (?c div 2 ^ 6 mod 64), 61] @ [])) =
      (\<lparr>src = [], collected = ?c, error = False, state = 4, padmark = 1\<rparr>, False)"
    using group_one_pad [of "?c div 2 ^ 18 mod 64" "?c div 2 ^ 12 mod 64" "?c div 2 ^ 6 mod 64", OF _ _ _ ws refl, of "[]"]
      sextets(2) [of ?c] oc(1) c by simp
  ultimately show ?thesis using decode_last_group [of "encode_loop s i len" ?c 1 m out] oc assms(1)
    by (simp add: drop_two)
qed

lemma decode_one_left:
  assumes "i + 1 = length s" "s ! i < 256"
  shows "\<exists>d. decode_loop m (dec0 (encode_loop s i len)) out = (d, out @ drop i s) \<and> src d = [] \<and> \<not> error d"
proof -
  let ?ws = "if len = 76 then [10] else [] :: nat list"
  let ?c = "s ! i * 256 * 256"
  have ws: "?ws = [] \<or> ?ws = [10]" by simp
  note oc = octets [OF assms(2), of 0 0, simplified]
  have c: "?c div 2 ^ 12 * 64 * 64 = ?c" by simp
  have "encode_loop s i len = ?ws @ [base64_table ! (?c div 2 ^ 18 mod 64), base64_table ! (?c div 2 ^ 12 mod 64),
      61, 61] @ []"
    using assms(1) by (simp add: encode_loop.simps [of s i len] Let_def encode_loop_end)
  moreover have "get_group (dec0 (?ws @ [base64_table ! (?c div 2 ^ 18 mod 64), base64_table ! (?c div 2 ^ 12 mod 64),
      61, 61] @ [])) = (\<lparr>src = [], collected = ?c, error = False, state = 4, padmark = 2\<rparr>, False)"
    using group_two_pads [of "?c div 2 ^ 18 mod 64" "?c div 2 ^ 12 mod 64", OF _ _ ws refl, of "[]"]
      sextets(3) [of ?c] oc(1) c by simp
  ultimately show ?thesis using decode_last_group [of "encode_loop s i len" ?c 2 m out] oc assms(1)
    by (simp add: drop_one)
qed

lemma decode_encode_loop:
  assumes "\<forall>x \<in> set s. x < 256"
  shows "\<exists>d. decode_loop m (dec0 (encode_loop s i len)) out = (d, out @ drop i s) \<and> src d = [] \<and> \<not> error d"
  using assms
proof (induction s i len arbitrary: out rule: encode_loop.induct)
  case (1 s i len)
  let ?ws = "if len = 76 then [10] else [] :: nat list" and ?len = "if len = 76 then 0 else len"
  have b: "j < length s \<Longrightarrow> s ! j < 256" for j using 1(2) by simp
  consider "length s \<le> i" | "i + 2 < length s" | "i + 2 = length s" | "i + 1 = length s" by linarith
  then show ?case
  proof cases
    case 1
    then show ?thesis using decode_loop_end [of m out] by (simp add: encode_loop_end dec0_def)
  next
    case 2
    let ?c = "(s ! i * 256 + s ! (i + 1)) * 256 + s ! (i + 2)"
    have ws: "?ws = [] \<or> ?ws = [10]" by simp
    note oc = octets [OF b b b, of i "i + 1" "i + 2"]
    have "encode_loop s i len = ?ws @ [base64_table ! (?c div 2 ^ 18 mod 64), base64_table ! (?c div 2 ^ 12 mod 64),
        base64_table ! (?c div 2 ^ 6 mod 64), base64_table ! (?c mod 64)] @ encode_loop s (i + 3) (?len + 4)"
      using 2 by (simp add: encode_loop.simps [of s i len] Let_def)
    then show ?thesis
      using decode_full_group [OF oc(1) ws refl, of m "encode_loop s (i + 3) (?len + 4)" out]
        "1.IH" [OF _ refl refl refl refl refl refl "1.prems", of "out @ [s ! i, s ! (i + 1), s ! (i + 2)]"] 2 oc
      by (simp add: drop_three)
  qed (use b decode_two_left decode_one_left in auto)
qed

text \<open>
  C32: decoding an encoded string gives back the bytes, reports their number (converted to the 32-bit
  \<open>int\<close> that is returned) and consumes the whole input, with the line breaks of long encodings and with every padding; with or without
  \<open>MY_BASE64_DECODE_ALLOW_MULTIPLE_CHUNKS\<close>.
\<close>

theorem base64_roundtrip:
  assumes "\<forall>x \<in> set bytes. x < 256"
  shows "my_base64_decode (butlast (my_base64_encode bytes)) multiple = (bytes, s32 (int (length bytes)), [])"
proof -
  obtain d where "decode_loop multiple (dec0 (encode_loop bytes 0 0)) [] = (d, bytes)" "src d = []" "\<not> error d"
    using decode_encode_loop [OF assms, of multiple 0 0 "[]"] by auto
  moreover have "butlast (my_base64_encode bytes) = encode_loop bytes 0 0" by (simp add: my_base64_encode_def)
  ultimately show ?thesis unfolding my_base64_decode_def dec0_def [symmetric]
    by (simp add: my_base64_decoder_skip_spaces_def)
qed

section \<open>Buffer sizes\<close>

lemma length_encode_loop:
  assumes "j \<le> 19" "k = (length s - i + 2) div 3"
  shows "length (encode_loop s i (4 * j)) = 4 * k + (if k = 0 then 0 else (j + k - 1) div 19)"
  using assms
proof (induction k arbitrary: i j)
  case 0
  then show ?case by (simp add: encode_loop_end)
next
  case (Suc k)
  then have i: "i < length s" by (cases "i < length s") auto
  have k: "k = (length s - (i + 3) + 2) div 3"
  proof (cases "i + 3 \<le> length s")
    case True
    then have "length s - i + 2 = (length s - (i + 3) + 2) + 3" by simp
    with Suc.prems(2) have "Suc k = (length s - (i + 3) + 2 + 3) div 3" by (simp only:)
    then show ?thesis by simp
  next
    case False
    then have "length s - i = 1 \<or> length s - i = 2" "length s - (i + 3) = 0" using i by auto
    then have "(length s - i + 2) div 3 = 1" "(length s - (i + 3) + 2) div 3 = 0" by auto
    then show ?thesis using Suc.prems(2) by linarith
  qed
  have e: "length (encode_loop s i (4 * j)) = (if j = 19 then 1 else 0) + 4
      + length (encode_loop s (i + 3) (4 * (if j = 19 then 1 else j + 1)))"
    using i by (subst encode_loop.simps) (auto simp: Let_def add.commute)
  show ?case using Suc.IH [of "if j = 19 then 1 else j + 1" "i + 3"] Suc.prems(1) k
    unfolding e by (auto simp: div_add_self1)
qed


lemma needed_encoded_nat:
  assumes "n \<le> 1589695686"
  shows "my_base64_needed_encoded_length (int n) =
    int (4 * ((n + 2) div 3) + (if n = 0 then 0 else ((n + 2) div 3 - 1) div 19) + 1)"
proof -
  let ?k = "(n + 2) div 3"
  have k: "?k \<le> 529898562" using assms by simp
  have a: "s32 (int n + 2) = int (n + 2)" using assms by (simp add: s32_id)
  have nb: "s32 (int (n + 2) sdiv 3 * 4) = int (4 * ?k)"
    using k by (simp add: signed_divide_int_def s32_id zdiv_int [symmetric])
  have d: "s32 (int (4 * ?k) - 1) sdiv 76 = int (if n = 0 then 0 else (?k - 1) div 19)"
  proof (cases "n = 0")
    case True
    then show ?thesis by (simp add: s32_id signed_divide_int_def)
  next
    case False
    then have "1 \<le> ?k" by auto
    then have "int (4 * ?k) - 1 = int (4 * (?k - 1) + 3)" by simp
    moreover have "(4 * (?k - 1) + 3) div 76 = (?k - 1) div 19"
      using div_mult2_eq [of "4 * (?k - 1) + 3" 4 19] by simp
    ultimately have "(int (4 * ?k) - 1) div 76 = int ((?k - 1) div 19)" by (metis of_nat_div of_nat_numeral)
    then show ?thesis using False k \<open>1 \<le> ?k\<close> by (simp add: s32_id signed_divide_int_def)
  qed
  have "(?k - 1) div 19 \<le> 27889398" using k by simp
  then show ?thesis using k unfolding my_base64_needed_encoded_length_def Let_def a nb d
    by (simp add: s32_id)
qed

text \<open>
  For every length up to \<open>my_base64_encode_max_arg_length\<close>, the advertised buffer size is
  exactly what the encoder writes, the terminating NUL included, and its computation does not
  overflow \<open>int\<close>.
\<close>

theorem base64_encoded_length:
  assumes "int (length bytes) \<le> my_base64_encode_max_arg_length"
  shows "my_base64_needed_encoded_length (int (length bytes)) = int (length (my_base64_encode bytes))"
proof -
  have n: "length bytes \<le> 1589695686" using assms by (simp add: my_base64_encode_max_arg_length_def)
  have "(length bytes + 2) div 3 = 0 \<longleftrightarrow> length bytes = 0" by (simp add: div_eq_0_iff)
  then show ?thesis unfolding needed_encoded_nat [OF n] my_base64_encode_def
    using length_encode_loop [of 0 _ bytes 0] by simp
qed

lemma group_consumes: "get_group d = (d', False) \<Longrightarrow> length (src d') + 4 \<le> length (src d)"
  by (elim get_group_steps) (auto dest!: getch_length)

lemma decode_loop_bound:
  "decode_loop m d out = (d', out') \<Longrightarrow> length out' \<le> length out + 3 * (length (src d) div 4)"
proof (induction m d out rule: decode_loop.induct)
  case (1 m d out)
  obtain e f where g: "get_group (d\<lparr>collected := 0, state := 0\<rparr>) = (e, f)" by fastforce
  show ?case
  proof (cases f)
    case True
    then show ?thesis using 1(3) g by (simp add: decode_loop.simps [of m d])
  next
    case False
    then have "length (src e) + 4 \<le> length (src d)" using group_consumes g by fastforce
    then have "length (src e) div 4 + 1 \<le> length (src d) div 4"
      using div_le_mono [of "length (src e) + 4" "length (src d)" 4] by simp
    then show ?thesis using 1(1) [OF g [symmetric] _ refl _ refl] 1(2) [OF g [symmetric] _ refl] 1(3) g False
      by (simp add: decode_loop.simps [of m d] Let_def split: if_splits) fastforce+
  qed
qed

text \<open>
  For every input shorter than \<open>2^31 - 3\<close> the decoder's output fits into the advertised
  buffer.
\<close>

theorem base64_decoded_length:
  assumes "int (length input) + 3 < 2 ^ 31"
  shows "int (length (fst (my_base64_decode input multiple))) \<le> my_base64_needed_decoded_length (int (length input))"
proof -
  obtain d out where D: "decode_loop multiple \<lparr>src = input, collected = 0, error = False, state = 0, padmark = 0\<rparr> [] = (d, out)"
    by fastforce
  have "length out \<le> 3 * ((length input + 3) div 4)"
    using decode_loop_bound [OF D] div_le_mono [of "length input" "length input + 3" 4] by simp
  moreover have "s32 (int (length input) + 3) sdiv 4 = int ((length input + 3) div 4)"
    using assms by (simp add: s32_id signed_divide_int_def zdiv_int)
  ultimately show ?thesis using assms D
    by (simp add: my_base64_decode_def my_base64_needed_decoded_length_def s32_id Let_def split: prod.split)
qed

text \<open>
  At the advertised maximum input length the size computation overflows, because the cast to
  \<open>int\<close> is applied before the division: the result is negative.
\<close>

theorem base64_decoded_length_overflow:
  "my_base64_needed_decoded_length my_base64_decode_max_arg_length = - 1610612733"
  by (simp add: my_base64_needed_decoded_length_def my_base64_decode_max_arg_length_def s32_def signed_divide_int_def)

section \<open>Witnesses\<close>

theorem base64_roundtrip_witness:
  "my_base64_decode (butlast (my_base64_encode [77, 97, 110, 255])) True = ([77, 97, 110, 255], 4, [])"
  using base64_roundtrip [of "[77, 97, 110, 255]" True] by (simp add: s32_def)

theorem base64_encoded_length_witness: "length (my_base64_encode [1, 2, 3, 4]) = 9"
proof -
  have "my_base64_needed_encoded_length 4 = 9"
    by (simp add: my_base64_needed_encoded_length_def s32_def signed_divide_int_def)
  with base64_encoded_length [of "[1, 2, 3, 4]"] show ?thesis by (simp add: my_base64_encode_max_arg_length_def)
qed

theorem base64_decoded_length_witness: "length (fst (my_base64_decode [77, 97, 110, 61, 10] False)) \<le> 6"
proof -
  have "my_base64_needed_decoded_length 5 = 6"
    by (simp add: my_base64_needed_decoded_length_def s32_def signed_divide_int_def)
  with base64_decoded_length [of "[77, 97, 110, 61, 10]" False] show ?thesis by simp
qed

end
