(* ===== verification/My_Time.thy ===== *)
theory My_Time
  imports Prelude "HOL-Library.Signed_Division"
begin

text \<open>
  The calendar and number part of \<open>sql-common/my_time.c\<close>: leap years and day numbers, the validity
  checks of dates and times, and the conversions between the broken-down \<open>MYSQL_TIME\<close> and the
  packed decimal numbers \<open>YYYYMMDDHHMMSS\<close>, \<open>YYYYMMDD\<close> and \<open>HHMMSS\<close>.  The fields of
  \<open>MYSQL_TIME\<close> are the numbers below \<open>2 ^ 32\<close> (\<open>unsigned int\<close>) or \<open>2 ^ 64\<close>
  (\<open>unsigned long\<close>) that the C fields hold; conversions that can lose bits are written out.
\<close>

section \<open>The model\<close>

subsection \<open>Data\<close>

datatype timestamp_type =
  MYSQL_TIMESTAMP_NONE | MYSQL_TIMESTAMP_ERROR | MYSQL_TIMESTAMP_DATE
| MYSQL_TIMESTAMP_DATETIME | MYSQL_TIMESTAMP_TIME

record MYSQL_TIME =
  year :: nat
  month :: nat
  day :: nat
  hour :: nat
  minute :: nat
  second :: nat
  second_part :: nat
  neg :: bool
  time_type :: timestamp_type

text \<open>\<open>bzero\<close> of a \<open>MYSQL_TIME\<close>: the enumeration value 0 is \<open>MYSQL_TIMESTAMP_DATE\<close>.\<close>

definition zero_TIME :: MYSQL_TIME where
  "zero_TIME = \<lparr>year = 0, month = 0, day = 0, hour = 0, minute = 0, second = 0,
     second_part = 0, neg = False, time_type = MYSQL_TIMESTAMP_DATE\<rparr>"

definition set_zero_time :: "timestamp_type \<Rightarrow> MYSQL_TIME" where
  "set_zero_time t = zero_TIME\<lparr>time_type := t\<rparr>"

subsection \<open>Constants and flags of \<open>my_time.h\<close>\<close>

definition TIME_DATETIME_ONLY :: ulonglong where "TIME_DATETIME_ONLY = 2"
definition TIME_TIME_ONLY :: ulonglong where "TIME_TIME_ONLY = 4"
definition TIME_NO_ZERO_IN_DATE :: ulonglong where "TIME_NO_ZERO_IN_DATE = 2 ^ 23"
definition TIME_NO_ZERO_DATE :: ulonglong where "TIME_NO_ZERO_DATE = 2 ^ 24"
definition TIME_INVALID_DATES :: ulonglong where "TIME_INVALID_DATES = 2 ^ 25"

definition flag_set :: "ulonglong \<Rightarrow> ulonglong \<Rightarrow> bool" where
  "flag_set flags f \<longleftrightarrow> flags AND f \<noteq> 0"

definition MYSQL_TIME_WARN_TRUNCATED :: nat where "MYSQL_TIME_WARN_TRUNCATED = 1"
definition MYSQL_TIME_WARN_OUT_OF_RANGE :: nat where "MYSQL_TIME_WARN_OUT_OF_RANGE = 2"
definition MYSQL_TIME_NOTE_TRUNCATED :: nat where "MYSQL_TIME_NOTE_TRUNCATED = 16"

definition TIME_MAX_HOUR :: nat where "TIME_MAX_HOUR = 838"
definition TIME_MAX_MINUTE :: nat where "TIME_MAX_MINUTE = 59"
definition TIME_MAX_SECOND :: nat where "TIME_MAX_SECOND = 59"
definition TIME_MAX_SECOND_PART :: nat where "TIME_MAX_SECOND_PART = 999999"
definition TIME_SECOND_PART_DIGITS :: nat where "TIME_SECOND_PART_DIGITS = 6"
definition AUTO_SEC_PART_DIGITS :: nat where "AUTO_SEC_PART_DIGITS = 39"
definition YY_PART_YEAR :: nat where "YY_PART_YEAR = 70"

definition TIME_MAX_VALUE :: nat where
  "TIME_MAX_VALUE = TIME_MAX_HOUR * 10000 + TIME_MAX_MINUTE * 100 + TIME_MAX_SECOND"

lemmas time_consts =
  TIME_MAX_HOUR_def TIME_MAX_MINUTE_def TIME_MAX_SECOND_def TIME_MAX_SECOND_PART_def
  TIME_SECOND_PART_DIGITS_def YY_PART_YEAR_def TIME_MAX_VALUE_def
  MYSQL_TIME_WARN_TRUNCATED_def MYSQL_TIME_WARN_OUT_OF_RANGE_def MYSQL_TIME_NOTE_TRUNCATED_def

definition log_10_int :: "nat list" where
  "log_10_int =
     [1, 10, 100, 1000, 10000, 100000, 1000000, 10000000, 100000000, 1000000000, 10000000000,
      100000000000, 1000000000000, 10000000000000, 100000000000000, 1000000000000000,
      10000000000000000, 100000000000000000, 1000000000000000000, 10000000000000000000]"

subsection \<open>Calendar\<close>

definition days_in_month :: "nat list" where
  "days_in_month = [31, 28, 31, 30, 31, 30, 31, 31, 30, 31, 30, 31, 0]"

definition calc_days_in_year :: "nat \<Rightarrow> nat" where
  "calc_days_in_year y =
     (if y AND 3 = 0 \<and> (y mod 100 \<noteq> 0 \<or> (y mod 400 = 0 \<and> y \<noteq> 0)) then 366 else 365)"

text \<open>Returns whether the date is refused, and \<open>was_cut\<close>.\<close>

definition check_date :: "MYSQL_TIME \<Rightarrow> bool \<Rightarrow> ulonglong \<Rightarrow> nat \<Rightarrow> bool \<times> nat" where
  "check_date ltime not_zero_date flags was_cut =
     (if time_type ltime = MYSQL_TIMESTAMP_TIME then (False, was_cut)
      else if not_zero_date then
        if (flag_set flags TIME_NO_ZERO_IN_DATE \<and> (month ltime = 0 \<or> day ltime = 0)) \<or> neg ltime
           \<or> (\<not> flag_set flags TIME_INVALID_DATES \<and> month ltime \<noteq> 0
              \<and> day ltime > days_in_month ! (month ltime - 1)
              \<and> (month ltime \<noteq> 2 \<or> calc_days_in_year (year ltime) \<noteq> 366 \<or> day ltime \<noteq> 29))
        then (True, 2)
        else (False, was_cut)
      else if flag_set flags TIME_NO_ZERO_DATE then (True, was_cut)
      else (False, was_cut))"

definition check_datetime_range :: "MYSQL_TIME \<Rightarrow> bool" where
  "check_datetime_range ltime \<longleftrightarrow>
     year ltime > 9999 \<or> month ltime > 12 \<or> day ltime > 31 \<or> minute ltime > 59
     \<or> second ltime > 59 \<or> second_part ltime > TIME_MAX_SECOND_PART
     \<or> hour ltime > (if time_type ltime = MYSQL_TIMESTAMP_TIME then TIME_MAX_HOUR else 23)"

definition max_sec_part :: "nat list" where
  "max_sec_part = [0, 900000, 990000, 999000, 999900, 999990, 999999]"

text \<open>
  Returns whether the value is invalid, the value (moved to the end of the range when outside of
  it) and the warnings.  The sum \<open>my_time->hour + (24*my_time->day)\<close> is computed as
  \<open>unsigned int\<close> before it is widened.
\<close>

definition check_time_range ::
    "MYSQL_TIME \<Rightarrow> nat \<Rightarrow> nat \<Rightarrow> bool \<times> MYSQL_TIME \<times> nat" where
  "check_time_range t dec warning =
     (if minute t \<ge> 60 \<or> second t \<ge> 60 then
        (True, t, warning OR MYSQL_TIME_WARN_TRUNCATED)
      else
        let h = u32 (hour t + 24 * day t);
            dec = (if dec = AUTO_SEC_PART_DIGITS then TIME_SECOND_PART_DIGITS else dec)
        in if h \<le> TIME_MAX_HOUR
              \<and> (h \<noteq> TIME_MAX_HOUR \<or> minute t \<noteq> TIME_MAX_MINUTE
                 \<or> second t \<noteq> TIME_MAX_SECOND \<or> second_part t \<le> max_sec_part ! dec)
           then (False, t, warning)
           else (False, t\<lparr>day := 0, hour := TIME_MAX_HOUR, minute := TIME_MAX_MINUTE,
                   second := TIME_MAX_SECOND, second_part := max_sec_part ! dec\<rparr>,
                 warning OR MYSQL_TIME_WARN_OUT_OF_RANGE))"

definition year_2000_handling :: "nat \<Rightarrow> nat" where
  "year_2000_handling y =
     (let y = u32 (y + 1900) in if y < 1900 + YY_PART_YEAR then u32 (y + 100) else y)"

text \<open>
  The arguments are converted to \<open>int\<close>; \<open>None\<close> is an overflow of the \<open>int\<close> expressions, and the division is the
  truncating one of C.  \<open>y\<close> is -1 for January of year 0.
\<close>

definition in_int :: "int \<Rightarrow> bool" where
  "in_int x \<longleftrightarrow> - (2 ^ 31) \<le> x \<and> x < 2 ^ 31"

definition calc_daynr :: "nat \<Rightarrow> nat \<Rightarrow> nat \<Rightarrow> int option" where
  "calc_daynr yr mon dy =
     (let y = s32 (int yr); m = s32 (int mon); d = s32 (int dy) in
      if y = 0 \<and> mon = 0 then Some 0
      else if \<not> list_all in_int [365 * y, m - 1, 31 * (m - 1), 365 * y + 31 * (m - 1), 365 * y + 31 * (m - 1) + d] \<or>
        mon > 2 \<and> \<not> list_all in_int [m * 4, m * 4 + 23] then None
      else
        let delsum = 365 * y + 31 * (m - 1) + d;
            y' = (if mon \<le> 2 then y - 1 else y);
            delsum = (if mon \<le> 2 then delsum else delsum - (m * 4 + 23) sdiv 10);
            temp = ((y' sdiv 100 + 1) * 3) sdiv 4
        in Some (delsum + y' sdiv 4 - temp))"

subsection \<open>Packed decimal numbers\<close>

definition TIME_to_ulonglong_datetime :: "MYSQL_TIME \<Rightarrow> nat" where
  "TIME_to_ulonglong_datetime t =
     u64 (u64 (u64 (year t * 10000 + month t * 100 + day t) * 1000000)
          + u64 (hour t * 10000 + minute t * 100 + second t))"

definition TIME_to_ulonglong_date :: "MYSQL_TIME \<Rightarrow> nat" where
  "TIME_to_ulonglong_date t = u64 (year t * 10000 + month t * 100 + day t)"

definition TIME_to_ulonglong_time :: "MYSQL_TIME \<Rightarrow> nat" where
  "TIME_to_ulonglong_time t = u64 (hour t * 10000 + minute t * 100 + second t)"

definition TIME_to_ulonglong :: "MYSQL_TIME \<Rightarrow> nat" where
  "TIME_to_ulonglong t =
     (case time_type t of
        MYSQL_TIMESTAMP_DATETIME \<Rightarrow> TIME_to_ulonglong_datetime t
      | MYSQL_TIMESTAMP_DATE \<Rightarrow> TIME_to_ulonglong_date t
      | MYSQL_TIMESTAMP_TIME \<Rightarrow> TIME_to_ulonglong_time t
      | MYSQL_TIMESTAMP_NONE \<Rightarrow> 0
      | MYSQL_TIMESTAMP_ERROR \<Rightarrow> 0)"

text \<open>
  The ladder of ranges at the head of \<open>number_to_datetime\<close>: the number with its century and its
  time part filled in, and whether the value is a date or a datetime; \<open>Inl\<close> is the jump to
  \<open>err\<close>.
\<close>

definition expand_number :: "int \<Rightarrow> timestamp_type + timestamp_type \<times> int" where
  "expand_number nr =
     (if nr = 0 \<or> nr \<ge> 10000101000000 then Inr (MYSQL_TIMESTAMP_DATETIME, nr)
      else if nr < 101 then Inl MYSQL_TIMESTAMP_DATE
      else if nr \<le> (int YY_PART_YEAR - 1) * 10000 + 1231 then
        Inr (MYSQL_TIMESTAMP_DATE, (nr + 20000000) * 1000000)
      else if nr < int YY_PART_YEAR * 10000 + 101 then Inl MYSQL_TIMESTAMP_DATE
      else if nr \<le> 991231 then Inr (MYSQL_TIMESTAMP_DATE, (nr + 19000000) * 1000000)
      else if nr < 10000101 then Inl MYSQL_TIMESTAMP_DATE
      else if nr \<le> 99991231 then Inr (MYSQL_TIMESTAMP_DATE, nr * 1000000)
      else if nr < 101000000 then Inl MYSQL_TIMESTAMP_DATE
      else if nr \<le> (int YY_PART_YEAR - 1) * 10000000000 + 1231235959 then
        Inr (MYSQL_TIMESTAMP_DATETIME, nr + 20000000000000)
      else if nr < int YY_PART_YEAR * 10000000000 + 101000000 then Inl MYSQL_TIMESTAMP_DATETIME
      else if nr \<le> 991231235959 then Inr (MYSQL_TIMESTAMP_DATETIME, nr + 19000000000000)
      else Inr (MYSQL_TIMESTAMP_DATETIME, nr))"

text \<open>
  The assignments after the label \<open>ok\<close>.  The number is not negative there, and its year, at most
  \<open>LONGLONG_MAX\<close> divided by \<open>10 ^ 10\<close>, fits the \<open>int\<close> it is cast to.
\<close>

definition split_number :: "nat \<Rightarrow> nat \<Rightarrow> timestamp_type \<Rightarrow> MYSQL_TIME" where
  "split_number nr sec_part ty =
     (let part1 = nr div 1000000; part2 = nr - part1 * 1000000 in
      \<lparr>year = part1 div 10000, month = part1 mod 10000 div 100, day = part1 mod 10000 mod 100,
       hour = part2 div 10000, minute = part2 mod 10000 div 100, second = part2 mod 10000 mod 100,
       second_part = sec_part, neg = False, time_type = ty\<rparr>)"

text \<open>Returns the number (or -1), the broken-down value and \<open>was_cut\<close>.\<close>

definition number_to_datetime ::
    "int \<Rightarrow> nat \<Rightarrow> ulonglong \<Rightarrow> int \<times> MYSQL_TIME \<times> nat" where
  "number_to_datetime nr sec_part flags =
     (case expand_number nr of
        Inl ty \<Rightarrow> (- 1, zero_TIME\<lparr>time_type := ty\<rparr>, 1)
      | Inr (ty, nr) \<Rightarrow>
          let t = split_number (nat nr) sec_part ty;
              (bad, was_cut) =
                (if year t \<le> 9999 \<and> month t \<le> 12 \<and> day t \<le> 31 \<and> hour t \<le> 23
                    \<and> minute t \<le> 59 \<and> second t \<le> 59 \<and> sec_part \<le> TIME_MAX_SECOND_PART
                 then check_date t (nr \<noteq> 0 \<or> sec_part \<noteq> 0) flags 0
                 else (True, 0))
          in if \<not> bad then
               (nr, t, if ty = MYSQL_TIMESTAMP_DATE \<and> sec_part \<noteq> 0
                       then MYSQL_TIME_NOTE_TRUNCATED else was_cut)
             else (- 1, t, if nr \<noteq> 0 \<or> \<not> flag_set flags TIME_NO_ZERO_DATE then 1 else was_cut))"

definition number_to_time ::
    "bool \<Rightarrow> nat \<Rightarrow> nat \<Rightarrow> bool \<times> MYSQL_TIME \<times> nat" where
  "number_to_time ng nr sec_part =
     (if nr > 9999999 \<and> nr < 99991231235959 \<and> \<not> ng then
        (case number_to_datetime (int nr) sec_part TIME_INVALID_DATES of
           (r, t, was_cut) \<Rightarrow> (r < 0, t, was_cut))
      else
        let over = nr > TIME_MAX_VALUE;
            nr = (if over then TIME_MAX_VALUE else nr);
            sec_part = (if over then TIME_MAX_SECOND_PART else sec_part);
            was_cut = (if over then MYSQL_TIME_WARN_OUT_OF_RANGE else 0);
            t = \<lparr>year = 0, month = 0, day = 0, hour = nr div 100 div 100,
                 minute = nr div 100 mod 100, second = nr mod 100, second_part = sec_part,
                 neg = ng, time_type = MYSQL_TIMESTAMP_TIME\<rparr>
        in if minute t < 60 \<and> second t < 60 \<and> sec_part \<le> TIME_MAX_SECOND_PART
           then (False, t, was_cut)
           else (True, t, MYSQL_TIME_WARN_TRUNCATED))"

section \<open>Calendar\<close>

lemma and_3: "n AND 3 = n mod (4 :: nat)"
  using take_bit_eq_mask [of 2 n] by (simp add: take_bit_eq_mod mask_eq_exp_minus_1)

lemma calc_days_in_year_range: "calc_days_in_year y = 365 \<or> calc_days_in_year y = 366"
  by (simp add: calc_days_in_year_def)

text \<open>The reference calendar: lengths of months, and the days before a year and before a month.\<close>

definition month_length :: "nat \<Rightarrow> nat \<Rightarrow> nat" where
  "month_length y m = (if m = 2 \<and> calc_days_in_year y = 366 then 29 else days_in_month ! (m - 1))"

definition days_before_year :: "nat \<Rightarrow> nat" where
  "days_before_year y = (\<Sum>i < y. calc_days_in_year i)"

definition days_before_month :: "nat \<Rightarrow> nat \<Rightarrow> nat" where
  "days_before_month y m = sum_list (map (month_length y) [1..<m])"

lemma year_month_lengths: "days_before_month y 13 = calc_days_in_year y"
  by (simp add: days_before_month_def month_length_def days_in_month_def calc_days_in_year_def
        upt_rec)

lemma month_cases:
  assumes "1 \<le> m" "m \<le> 12"
  obtains "m = 1" | "m = 2" | "m = 3" | "m = 4" | "m = 5" | "m = 6" | "m = 7" | "m = 8" | "m = 9"
    | "m = 10" | "m = 11" | "m = (12 :: nat)"
  using assms by atomize_elim arith

text \<open>The days months before \<open>m\<close> are short of 31, in a year that is not a leap year.\<close>

definition month_gap :: "nat \<Rightarrow> int" where
  "month_gap m = (int m * 4 + 23) div 10"

text \<open>The leap years up to and with year \<open>y\<close>.\<close>

definition leaps :: "int \<Rightarrow> int" where
  "leaps y = y div 4 - y div 100 + y div 400"

lemma days_before_month_eq:
  assumes "1 \<le> m" "m \<le> 12"
  shows "int (days_before_month y m) =
    31 * (int m - 1) - (if m \<le> 2 then 0 else
      month_gap m - (if calc_days_in_year y = 366 then 1 else 0))"
  using assms
  by (cases rule: month_cases)
    (simp_all add: days_before_month_def month_length_def days_in_month_def upt_rec month_gap_def)

lemma days_before_year_eq:
  "int (days_before_year (Suc y)) = 365 * int (Suc y) + leaps (int y)"
proof (induction y)
  case 0
  show ?case by (simp add: days_before_year_def calc_days_in_year_def leaps_def)
next
  case (Suc y)
  have "int (Suc y div k) = int (y div k) + (if Suc y mod k = 0 then 1 else 0)" for k
    by (simp add: div_Suc)
  then have step: "int (Suc y) div int k = int y div int k + (if Suc y mod k = 0 then 1 else 0)" for k
    by (simp only: zdiv_int)
  have "Suc y mod 4 = 0" if "Suc y mod 100 = 0"
    using that dvd_trans [of 4 100 "Suc y"] by (simp add: mod_eq_0_iff_dvd)
  moreover have "Suc y mod 100 = 0" if "Suc y mod 400 = 0"
    using that dvd_trans [of 100 400 "Suc y"] by (simp add: mod_eq_0_iff_dvd)
  ultimately have "int (calc_days_in_year (Suc y)) = 365 + (if Suc y mod 4 = 0 then 1 else 0)
      - (if Suc y mod 100 = 0 then 1 else 0) + (if Suc y mod 400 = 0 then 1 else 0)"
    by (auto simp: calc_days_in_year_def and_3)
  moreover have "days_before_year (Suc (Suc y)) = days_before_year (Suc y) + calc_days_in_year (Suc y)"
    by (simp add: days_before_year_def)
  ultimately show ?case
    using Suc step [of 4] step [of 100] step [of 400] by (simp add: leaps_def)
qed

lemma century_quarter: "((c + 1) * 3) div 4 = c - c div (4 :: int)"
proof -
  define q r where "q = c div 4" and "r = c mod 4"
  then have qr: "c = r + 4 * q" "0 \<le> r" "r < 4"
    by simp_all
  then have "r = 0 \<or> r = 1 \<or> r = 2 \<or> r = 3" by linarith
  moreover have "(c + 1) * 3 = (3 * r + 3) + 4 * (3 * q)"
    using qr by simp
  then have "((c + 1) * 3) div 4 = (3 * r + 3) div 4 + 3 * q"
    by simp
  moreover have "c div 4 = r div 4 + q"
    using qr by simp
  ultimately show ?thesis using qr(1) by auto
qed
lemma century_days: "((y div 100 + 1) * 3) div 4 = y div 100 - y div (400 :: int)"
proof -
  have "y div 400 = y div 100 div 4"
    using zdiv_zmult2_eq [of 4 y 100] by simp
  then show ?thesis using century_quarter [of "y div 100"] by simp
qed

lemma sdiv_nonneg: "0 \<le> x \<Longrightarrow> 0 < k \<Longrightarrow> x sdiv k = x div (k :: int)"
  by (cases "x = 0") (simp_all add: signed_divide_int_def)

lemma calc_daynr_closed:
  assumes "1 \<le> m" "m \<le> 12" "365 * y + 31 * (m - 1) + d < 2 ^ 31"
  shows "calc_daynr y m d = Some (365 * int y + 31 * (int m - 1) + int d
    - (if m \<le> 2 then 0 else month_gap m)
    + (if m \<le> 2 then (if y = 0 then 0 else leaps (int y - 1)) else leaps (int y)))"
proof -
  have int: "int (365 * y + 31 * (m - 1) + d) = 365 * int y + 31 * (int m - 1) + int d"
    using assms(1) by (simp add: of_nat_diff)
  have small: "365 * int y + 31 * (int m - 1) + int d < 2 ^ 31" using assms(3) unfolding int [symmetric] by simp
  then have id: "s32 (int y) = int y" "s32 (int m) = int m" "s32 (int d) = int d"
    using assms(1,2) by (auto intro!: s32_id)
  have ok: "list_all in_int [365 * int y, int m - 1, 31 * (int m - 1), 365 * int y + 31 * (int m - 1),
      365 * int y + 31 * (int m - 1) + int d]" "list_all in_int [int m * 4, int m * 4 + 23]"
    using small assms(1,2) by (auto simp: in_int_def)
  have eq: "calc_daynr y m d =
      (let delsum = 365 * int y + 31 * (int m - 1) + int d;
           y' = (if m \<le> 2 then int y - 1 else int y);
           delsum = (if m \<le> 2 then delsum else delsum - (int m * 4 + 23) sdiv 10);
           temp = ((y' sdiv 100 + 1) * 3) sdiv 4
       in Some (delsum + y' sdiv 4 - temp))"
    unfolding calc_daynr_def id Let_def using ok assms(1) by (simp only: simp_thms if_False) auto
  have neg1: "(- 1 :: int) sdiv 100 = 0" "(- 1 :: int) sdiv 4 = 0" "(3 :: int) sdiv 4 = 0"
    by (simp_all add: signed_divide_int_def)
  have temp: "x sdiv 4 - ((x sdiv 100 + 1) * 3) sdiv 4 = leaps x" if "0 \<le> x" for x :: int
    using that century_days [of x] by (simp add: sdiv_nonneg pos_imp_zdiv_nonneg_iff leaps_def)
  have gap: "(int m * 4 + 23) sdiv 10 = month_gap m"
    by (simp add: sdiv_nonneg month_gap_def)
  consider "m > 2" | "m \<le> 2" "y = 0" | "m \<le> 2" "y > 0" by linarith
  then show ?thesis
  proof cases
    case 1
    then have "m \<noteq> 0" by simp
    with 1 temp [of "int y"] show ?thesis by (simp add: eq Let_def gap)
  next
    case 2
    with assms neg1 show ?thesis unfolding eq by (simp add: Let_def)
  next
    case 3
    with temp [of "int y - 1"] show ?thesis by (simp add: eq Let_def)
  qed
qed

text \<open>
  C34: \<open>calc_daynr\<close> of a date is its position in the calendar: the lengths of the years before it, the
  lengths of the months before it in its year, and its day.  This holds for every year for which the \<open>int\<close>
  expression \<open>365 * y + 31 * (month - 1) + day\<close> does not overflow, and in particular for the four digits
  that the comment of the function asks for.
\<close>

theorem calc_daynr_correct:
  assumes "1 \<le> m" "m \<le> 12" "365 * y + 31 * (m - 1) + d < 2 ^ 31"
  shows "calc_daynr y m d = Some (int (days_before_year y + days_before_month y m + d))"
proof (cases y)
  case 0
  then show ?thesis
    using calc_daynr_closed [OF assms] days_before_month_eq [OF assms(1,2), of 0]
    by (simp add: days_before_year_def calc_days_in_year_def leaps_def [of 0])
next
  case (Suc x)
  have "leaps (int y) = leaps (int x) + (if calc_days_in_year y = 366 then 1 else 0)"
    using days_before_year_eq [of x] days_before_year_eq [of y] calc_days_in_year_range [of y]
    by (auto simp: days_before_year_def Suc)
  then show ?thesis
    using calc_daynr_closed [OF assms] days_before_month_eq [OF assms(1,2), of y]
      days_before_year_eq [of x] by (auto simp: Suc)
qed

section \<open>Numbers\<close>

lemma digits_split:
  assumes "b < k"
  shows "(a * k + b) div k = a" "(a * k + b) mod k = (b :: nat)"
  using assms by simp_all

text \<open>The two six-digit halves of a packed number, and its two-digit fields.\<close>

definition pack3 :: "nat \<Rightarrow> nat \<Rightarrow> nat \<Rightarrow> nat" where
  "pack3 a b c = a * 10000 + b * 100 + c"

lemma pack3_fields:
  assumes "b < 100" "c < 100"
  shows "pack3 a b c div 10000 = a" "pack3 a b c mod 10000 div 100 = b"
    "pack3 a b c mod 10000 mod 100 = c"
proof -
  have "pack3 a b c = a * 10000 + (b * 100 + c)" by (simp add: pack3_def)
  moreover have "b * 100 + c < 10000" using assms by simp
  ultimately show "pack3 a b c div 10000 = a" "pack3 a b c mod 10000 div 100 = b"
    "pack3 a b c mod 10000 mod 100 = c"
    using digits_split [of "b * 100 + c" 10000 a] digits_split [of c 100 b] assms by simp_all
qed

lemma pack3_split: "pack3 (n div 10000) (n mod 10000 div 100) (n mod 10000 mod 100) = n"
  unfolding pack3_def by (metis add.assoc div_mult_mod_eq)

lemma pack3_bound: "a \<le> A \<Longrightarrow> b < 100 \<Longrightarrow> c < 100 \<Longrightarrow> pack3 a b c < (A + 1) * 10000"
  unfolding pack3_def by simp

definition datetime_number :: "MYSQL_TIME \<Rightarrow> nat" where
  "datetime_number t =
     pack3 (year t) (month t) (day t) * 1000000 + pack3 (hour t) (minute t) (second t)"

text \<open>A value in range loses nothing in the unsigned arithmetic.\<close>

lemma TIME_to_ulonglong_datetime_eq:
  assumes "\<not> check_datetime_range t"
  shows "TIME_to_ulonglong_datetime t = datetime_number t"
proof -
  have "pack3 (year t) (month t) (day t) < 10000 * 10000"
    "pack3 (hour t) (minute t) (second t) < 839 * 10000"
    using assms pack3_bound [of "year t" 9999 "month t" "day t"]
      pack3_bound [of "hour t" 838 "minute t" "second t"]
    by (auto simp: check_datetime_range_def time_consts split: if_splits)
  then show ?thesis
    by (simp add: TIME_to_ulonglong_datetime_def datetime_number_def pack3_def u64_def)
qed

lemma datetime_number_split [simp]: "datetime_number (split_number n sp ty) = n"
  by (simp add: datetime_number_def split_number_def Let_def pack3_split)

lemma split_number_fields [simp]:
  "second_part (split_number n sp ty) = sp" "\<not> neg (split_number n sp ty)"
  "time_type (split_number n sp ty) = ty"
  by (simp_all add: split_number_def Let_def)

lemma split_datetime_number:
  assumes "month t < 100" "day t < 100" "hour t < 100" "minute t < 100" "second t < 100" "\<not> neg t"
  shows "split_number (datetime_number t) (second_part t) (time_type t) = t"
proof -
  let ?n = "datetime_number t"
  have "pack3 (hour t) (minute t) (second t) < 1000000"
    using assms pack3_bound [of "hour t" 99] by simp
  then have "?n div 1000000 = pack3 (year t) (month t) (day t)"
    "?n - pack3 (year t) (month t) (day t) * 1000000 = pack3 (hour t) (minute t) (second t)"
    by (simp_all add: datetime_number_def)
  then show ?thesis
    using assms by (simp add: split_number_def pack3_fields)
qed

text \<open>
  A broken-down datetime in range, from \<open>1000-01-01\<close> on, that \<open>check_date\<close> accepts comes back
  unchanged when its packed number is converted with \<open>number_to_datetime\<close>, without a warning.
\<close>

theorem number_to_datetime_roundtrip:
  assumes "\<not> check_datetime_range t" "time_type t = MYSQL_TIMESTAMP_DATETIME"
    and "10000101000000 \<le> TIME_to_ulonglong_datetime t"
    and "\<not> fst (check_date t True flags 0)"
  shows "number_to_datetime (int (TIME_to_ulonglong_datetime t)) (second_part t) flags =
    (int (TIME_to_ulonglong_datetime t), t, 0)"
proof -
  have range: "year t \<le> 9999" "month t \<le> 12" "day t \<le> 31" "hour t \<le> 23" "minute t \<le> 59"
      "second t \<le> 59" "second_part t \<le> TIME_MAX_SECOND_PART"
    using assms(1,2) by (simp_all add: check_datetime_range_def)
  have "\<not> neg t" and cut: "check_date t True flags 0 = (False, 0)"
    using assms(2,4) by (auto simp: check_date_def split: if_splits)
  let ?n = "datetime_number t"
  have n: "TIME_to_ulonglong_datetime t = ?n"
    using assms(1) by (rule TIME_to_ulonglong_datetime_eq)
  have "split_number ?n (second_part t) MYSQL_TIMESTAMP_DATETIME = t"
    using split_datetime_number [of t] range \<open>\<not> neg t\<close> assms(2) by simp
  moreover have "expand_number (int ?n) = Inr (MYSQL_TIMESTAMP_DATETIME, int ?n)"
    using assms(3) n by (simp add: expand_number_def)
  moreover have "?n \<noteq> 0" using assms(3) n by simp
  ultimately show ?thesis
    using range cut by (simp add: n number_to_datetime_def)
qed

text \<open>The years the ladder of \<open>number_to_datetime\<close> can produce.\<close>

lemma expand_number_nonneg: "expand_number nr = Inr (ty, r) \<Longrightarrow> 0 \<le> r"
  by (auto simp: expand_number_def split: if_splits)

lemma expand_number_date: "expand_number nr = Inr (MYSQL_TIMESTAMP_DATE, r) \<Longrightarrow> 1000000 dvd r"
  by (auto simp: expand_number_def split: if_splits)

lemma number_to_datetime_accepted:
  assumes "number_to_datetime nr sp flags = (r, t, w)" "0 \<le> r"
  obtains ty where "expand_number nr = Inr (ty, r)" "t = split_number (nat r) sp ty"
    "year t \<le> 9999" "month t \<le> 12" "day t \<le> 31" "hour t \<le> 23" "minute t \<le> 59"
    "second t \<le> 59" "sp \<le> TIME_MAX_SECOND_PART"
    "\<not> fst (check_date t (r \<noteq> 0 \<or> sp \<noteq> 0) flags 0)"
proof -
  obtain ty r' where e: "expand_number nr = Inr (ty, r')"
    using assms by (cases "expand_number nr") (auto simp: number_to_datetime_def)
  show thesis
    using assms e
    by (intro that [of ty]) (auto simp: number_to_datetime_def Let_def split: if_splits prod.splits)
qed

text \<open>
  Whatever number it is given, \<open>number_to_datetime\<close> either refuses it with -1 or returns the
  value in the full \<open>YYYYMMDDHHMMSS\<close> form: the broken-down value is in range, is accepted by
  \<open>check_date\<close> and has exactly the returned number as its packed form, the number itself when it
  was already in full form, a date without time part when it was a date.
\<close>

theorem number_to_datetime_sound:
  assumes "number_to_datetime nr sp flags = (r, t, w)" "0 \<le> r"
  shows "\<not> check_datetime_range t \<and> \<not> neg t \<and> second_part t = sp
    \<and> \<not> fst (check_date t (r \<noteq> 0 \<or> sp \<noteq> 0) flags 0)
    \<and> int (TIME_to_ulonglong_datetime t) = r
    \<and> (nr = 0 \<or> 10000101000000 \<le> nr \<longrightarrow> r = nr \<and> time_type t = MYSQL_TIMESTAMP_DATETIME)
    \<and> (time_type t = MYSQL_TIMESTAMP_DATE \<longrightarrow> hour t = 0 \<and> minute t = 0 \<and> second t = 0)"
proof -
  obtain ty where e: "expand_number nr = Inr (ty, r)" and t: "t = split_number (nat r) sp ty"
    and range: "year t \<le> 9999" "month t \<le> 12" "day t \<le> 31" "hour t \<le> 23" "minute t \<le> 59"
      "second t \<le> 59" "sp \<le> TIME_MAX_SECOND_PART"
    and ok: "\<not> fst (check_date t (r \<noteq> 0 \<or> sp \<noteq> 0) flags 0)"
    using assms by (rule number_to_datetime_accepted)
  have ty: "ty = MYSQL_TIMESTAMP_DATE \<or> ty = MYSQL_TIMESTAMP_DATETIME"
    using e by (auto simp: expand_number_def split: if_splits)
  have in_range: "\<not> check_datetime_range t"
    using range ty by (auto simp: check_datetime_range_def t time_consts)
  then have num: "int (TIME_to_ulonglong_datetime t) = r"
    using assms(2) by (simp add: TIME_to_ulonglong_datetime_eq t)
  have full: "r = nr \<and> ty = MYSQL_TIMESTAMP_DATETIME" if "nr = 0 \<or> 10000101000000 \<le> nr"
    using e that by (auto simp: expand_number_def)
  have date: "hour t = 0 \<and> minute t = 0 \<and> second t = 0" if "ty = MYSQL_TIMESTAMP_DATE"
  proof -
    have "1000000 dvd r" using expand_number_date e that by simp
    then obtain m where "r = 1000000 * m" by (rule dvdE)
    then have "nat r = nat m * 1000000" by (simp add: nat_mult_distrib)
    then show ?thesis by (simp add: t split_number_def Let_def)
  qed
  show ?thesis
    using in_range ok num full date range ty by (auto simp: t)
qed

text \<open>
  A time value in range (its days already in the hours) comes back unchanged, without a
  warning, when its packed number is converted with \<open>number_to_time\<close>; a number above \<open>8385959\<close>
  that is not read as a datetime becomes the end of the range, 838:59:59.999999, with the
  out-of-range warning.
\<close>

theorem number_to_time_correct:
  assumes "\<not> check_datetime_range t" "time_type t = MYSQL_TIMESTAMP_TIME"
    and "year t = 0" "month t = 0" "day t = 0"
    and "TIME_MAX_VALUE < n" "n \<le> 9999999 \<or> 99991231235959 \<le> n \<or> ng"
  shows "number_to_time (neg t) (TIME_to_ulonglong_time t) (second_part t) = (False, t, 0)
    \<and> number_to_time ng n sp =
        (False, \<lparr>year = 0, month = 0, day = 0, hour = 838, minute = 59, second = 59,
           second_part = 999999, neg = ng, time_type = MYSQL_TIMESTAMP_TIME\<rparr>,
         MYSQL_TIME_WARN_OUT_OF_RANGE)"
proof
  have range: "hour t \<le> 838" "minute t \<le> 59" "second t \<le> 59" "second_part t \<le> 999999"
    using assms(1,2) by (simp_all add: check_datetime_range_def time_consts)
  let ?n = "pack3 (hour t) (minute t) (second t)"
  have n: "TIME_to_ulonglong_time t = ?n"
    using range by (simp add: TIME_to_ulonglong_time_def pack3_def u64_def)
  have "?n div 100 div 100 = hour t" "?n div 100 mod 100 = minute t" "?n mod 100 = second t"
  proof -
    have "?n = (hour t * 100 + minute t) * 100 + second t" by (simp add: pack3_def)
    then show "?n div 100 div 100 = hour t" "?n div 100 mod 100 = minute t" "?n mod 100 = second t"
      using range digits_split [of "second t" 100 "hour t * 100 + minute t"]
        digits_split [of "minute t" 100 "hour t"] by simp_all
  qed
  moreover have "?n \<le> 8385959"
    using range by (simp add: pack3_def)
  ultimately show "number_to_time (neg t) (TIME_to_ulonglong_time t) (second_part t) = (False, t, 0)"
    using range assms(2-5) by (simp add: n number_to_time_def Let_def time_consts)
  show "number_to_time ng n sp =
      (False, \<lparr>year = 0, month = 0, day = 0, hour = 838, minute = 59, second = 59,
         second_part = 999999, neg = ng, time_type = MYSQL_TIMESTAMP_TIME\<rparr>,
       MYSQL_TIME_WARN_OUT_OF_RANGE)"
    using assms(6,7) by (auto simp: number_to_time_def Let_def time_consts)
qed

section \<open>The range of times\<close>

definition time_usec :: "MYSQL_TIME \<Rightarrow> nat" where
  "time_usec t =
     (((hour t + 24 * day t) * 60 + minute t) * 60 + second t) * 1000000 + second_part t"

lemma hms_le:
  fixes h m s u x :: nat
  assumes "m < 60" "s < 60" "u \<le> 999999"
    and "h < 838 \<or> h = 838 \<and> m < 59 \<or> h = 838 \<and> s < 59 \<or> h = 838 \<and> u \<le> x"
  shows "((h * 60 + m) * 60 + s) * 1000000 + u \<le> ((838 * 60 + 59) * 60 + 59) * 1000000 + x"
  using assms by auto

lemma hms_gt:
  fixes h m s u x :: nat
  assumes "x \<le> 999999" "h > 838 \<or> h = 838 \<and> m = 59 \<and> s = 59 \<and> u > x"
  shows "((838 * 60 + 59) * 60 + 59) * 1000000 + x < ((h * 60 + m) * 60 + s) * 1000000 + u"
  using assms by auto

text \<open>
  \<open>check_time_range\<close> refuses minutes and seconds above 59; any other time value it moves to the
  nearest time of at most 838:59:59 and \<open>dec\<close> digits of nines, warning exactly when it moved it.
\<close>

theorem check_time_range_correct:
  assumes "dec \<le> 6" "hour t + 24 * day t < 2 ^ 32" "second_part t \<le> 999999"
  shows "(minute t \<ge> 60 \<or> second t \<ge> 60) \<and>
      check_time_range t dec w = (True, t, w OR MYSQL_TIME_WARN_TRUNCATED)
    \<or> minute t < 60 \<and> second t < 60 \<and> (\<exists>t' w'. check_time_range t dec w = (False, t', w')
      \<and> time_usec t' = min (time_usec t) (((838 * 60 + 59) * 60 + 59) * 1000000 + max_sec_part ! dec)
      \<and> (time_usec t' = time_usec t \<and> t' = t \<and> w' = w
         \<or> time_usec t' < time_usec t \<and> w' = w OR MYSQL_TIME_WARN_OUT_OF_RANGE))"
proof (cases "minute t \<ge> 60 \<or> second t \<ge> 60")
  case True
  then show ?thesis by (auto simp: check_time_range_def)
next
  case False
  have h: "u32 (hour t + 24 * day t) = hour t + 24 * day t"
    using assms(2) by simp
  have ms: "minute t < 60" "second t < 60" using False by simp_all
  have dec: "dec \<noteq> AUTO_SEC_PART_DIGITS" using assms(1) by (simp add: AUTO_SEC_PART_DIGITS_def)
  show ?thesis
  proof (cases "hour t + 24 * day t \<le> 838 \<and> (hour t + 24 * day t \<noteq> 838 \<or> minute t \<noteq> 59
      \<or> second t \<noteq> 59 \<or> second_part t \<le> max_sec_part ! dec)")
    case True
    then have "check_time_range t dec w = (False, t, w)"
      using False h dec by (simp add: check_time_range_def Let_def time_consts)
    moreover have "time_usec t \<le> ((838 * 60 + 59) * 60 + 59) * 1000000 + max_sec_part ! dec"
      unfolding time_usec_def using True ms assms(3) by (intro hms_le) auto
    ultimately show ?thesis using False by simp
  next
    case moved: False
    then have "check_time_range t dec w = (False, t\<lparr>day := 0, hour := 838, minute := 59,
        second := 59, second_part := max_sec_part ! dec\<rparr>, w OR MYSQL_TIME_WARN_OUT_OF_RANGE)"
      using False h dec by (auto simp: check_time_range_def Let_def time_consts)
    moreover have "((838 * 60 + 59) * 60 + 59) * 1000000 + max_sec_part ! dec < time_usec t"
    proof -
      have "dec \<in> {0, 1, 2, 3, 4, 5, 6}" using assms(1) by auto
      then have "max_sec_part ! dec \<le> 999999" by (auto simp: max_sec_part_def)
      with moved show ?thesis unfolding time_usec_def by (intro hms_gt) auto
    qed
    ultimately show ?thesis using False by (simp add: time_usec_def)
  qed
qed

section \<open>Applications\<close>

theorem calc_daynr_witness: "calc_daynr 1970 1 1 = Some 719528 \<and> days_before_month 1970 1 = 0"
proof -
  have "days_before_month 1970 1 = 0" by (simp add: days_before_month_def)
  moreover have "int (days_before_year 1970) = 719527"
    using days_before_year_eq [of 1969] by (simp add: leaps_def)
  ultimately show ?thesis using calc_daynr_correct [of 1 1970 1] by simp
qed

definition ex_datetime :: MYSQL_TIME where
  "ex_datetime = \<lparr>year = 2018, month = 2, day = 28, hour = 23, minute = 59, second = 58,
     second_part = 7, neg = False, time_type = MYSQL_TIMESTAMP_DATETIME\<rparr>"

theorem number_to_datetime_roundtrip_witness:
  "number_to_datetime 20180228235958 7 0 = (20180228235958, ex_datetime, 0)"
proof -
  have "TIME_to_ulonglong_datetime ex_datetime = 20180228235958"
    by (simp add: TIME_to_ulonglong_datetime_def ex_datetime_def u64_def)
  moreover have "\<not> check_datetime_range ex_datetime" "\<not> fst (check_date ex_datetime True 0 0)"
    by (simp_all add: check_datetime_range_def check_date_def ex_datetime_def flag_set_def
          time_consts days_in_month_def)
  ultimately show ?thesis
    using number_to_datetime_roundtrip [of ex_datetime 0] by (simp add: ex_datetime_def)
qed

theorem number_to_datetime_sound_witness:
  "\<not> check_datetime_range (fst (snd (number_to_datetime 180228 0 0)))
   \<and> fst (number_to_datetime 180228 0 0) = 20180228000000"
proof -
  have "number_to_datetime 180228 0 0 = (20180228000000, \<lparr>year = 2018, month = 2, day = 28,
      hour = 0, minute = 0, second = 0, second_part = 0, neg = False,
      time_type = MYSQL_TIMESTAMP_DATE\<rparr>, 0)"
    by (simp add: number_to_datetime_def expand_number_def split_number_def check_date_def
          flag_set_def days_in_month_def time_consts Let_def)
  then show ?thesis using number_to_datetime_sound [of 180228 0 0] by simp
qed

definition ex_time :: MYSQL_TIME where
  "ex_time = \<lparr>year = 0, month = 0, day = 0, hour = 100, minute = 20, second = 30,
     second_part = 5, neg = True, time_type = MYSQL_TIMESTAMP_TIME\<rparr>"

theorem number_to_time_witness:
  "number_to_time True 1002030 5 = (False, ex_time, 0)
   \<and> hour (fst (snd (number_to_time True 9000000 0))) = 838"
proof -
  have "TIME_to_ulonglong_time ex_time = 1002030"
    by (simp add: TIME_to_ulonglong_time_def ex_time_def u64_def)
  moreover have "\<not> check_datetime_range ex_time"
    by (simp add: check_datetime_range_def ex_time_def time_consts)
  ultimately show ?thesis
    using number_to_time_correct [of ex_time 9000000 True 0] by (simp add: ex_time_def time_consts)
qed

theorem check_time_range_witness:
  "\<exists>t w. check_time_range (ex_time\<lparr>hour := 839\<rparr>) 0 0 = (False, t, w)
     \<and> time_usec t = ((838 * 60 + 59) * 60 + 59) * 1000000"
  using check_time_range_correct [of 0 "ex_time\<lparr>hour := 839\<rparr>" 0]
  by (auto simp: ex_time_def time_usec_def max_sec_part_def)

end
