(* ===== verification/My_Ctype.thy ===== *)
theory My_Ctype
  imports Prelude
begin

text \<open>
  The character classes of \<open>my_charset_latin1\<close>: the table \<open>ctype_latin1\<close> of
  \<open>strings/ctype-latin1.c\<close> and the class tests of \<open>include/m_ctype.h\<close> on it.
\<close>

definition ctype_latin1 :: "nat list" where
  "ctype_latin1 =
     [0,
      32, 32, 32, 32, 32, 32, 32, 32, 32, 40, 40, 40, 40, 40, 32, 32,
      32, 32, 32, 32, 32, 32, 32, 32, 32, 32, 32, 32, 32, 32, 32, 32,
      72, 16, 16, 16, 16, 16, 16, 16, 16, 16, 16, 16, 16, 16, 16, 16,
      132, 132, 132, 132, 132, 132, 132, 132, 132, 132, 16, 16, 16, 16, 16, 16,
      16, 129, 129, 129, 129, 129, 129, 1, 1, 1, 1, 1, 1, 1, 1, 1,
      1, 1, 1, 1, 1, 1, 1, 1, 1, 1, 1, 16, 16, 16, 16, 16,
      16, 130, 130, 130, 130, 130, 130, 2, 2, 2, 2, 2, 2, 2, 2, 2,
      2, 2, 2, 2, 2, 2, 2, 2, 2, 2, 2, 16, 16, 16, 16, 32,
      16, 0, 16, 2, 16, 16, 16, 16, 16, 16, 1, 16, 1, 0, 1, 0,
      0, 16, 16, 16, 16, 16, 16, 16, 16, 16, 2, 16, 2, 0, 2, 1,
      72, 16, 16, 16, 16, 16, 16, 16, 16, 16, 16, 16, 16, 16, 16, 16,
      16, 16, 16, 16, 16, 16, 16, 16, 16, 16, 16, 16, 16, 16, 16, 16,
      1, 1, 1, 1, 1, 1, 1, 1, 1, 1, 1, 1, 1, 1, 1, 1,
      1, 1, 1, 1, 1, 1, 1, 16, 1, 1, 1, 1, 1, 1, 1, 2,
      2, 2, 2, 2, 2, 2, 2, 2, 2, 2, 2, 2, 2, 2, 2, 2,
      2, 2, 2, 2, 2, 2, 2, 16, 2, 2, 2, 2, 2, 2, 2, 2]"

text \<open>\<open>((s)->ctype+1)[(uchar) (c)]\<close>: the entry of a character is one place further.\<close>

definition ctype_of :: "char \<Rightarrow> nat" where
  "ctype_of c = ctype_latin1 ! (of_char c + 1)"

definition my_isdigit :: "char \<Rightarrow> bool" where
  "my_isdigit c \<longleftrightarrow> ctype_of c AND 4 \<noteq> 0"

definition my_isspace :: "char \<Rightarrow> bool" where
  "my_isspace c \<longleftrightarrow> ctype_of c AND 8 \<noteq> 0"

definition my_ispunct :: "char \<Rightarrow> bool" where
  "my_ispunct c \<longleftrightarrow> ctype_of c AND 16 \<noteq> 0"

section \<open>The classes\<close>

lemma ctype_digits:
  "list_all (\<lambda>n. (ctype_latin1 ! (n + 1) AND 4 \<noteq> 0) = (48 \<le> n \<and> n \<le> 57)) [0..<256]"
  by code_simp

lemma ctype_spaces:
  "list_all (\<lambda>n. (ctype_latin1 ! (n + 1) AND 8 \<noteq> 0) = (9 \<le> n \<and> n \<le> 13 \<or> n = 32 \<or> n = 160)) [0..<256]"
  by code_simp

lemma of_char_range: "of_char c < (256 :: nat)"
  using of_char_mod_256 [of c] mod_less_divisor [of 256 "of_char c :: nat"] by simp

lemma my_isdigit_iff: "my_isdigit c \<longleftrightarrow> 48 \<le> (of_char c :: nat) \<and> (of_char c :: nat) \<le> 57"
  using ctype_digits of_char_range [of c] by (simp add: my_isdigit_def ctype_of_def list_all_iff)

lemma my_isspace_iff:
  "my_isspace c \<longleftrightarrow> 9 \<le> (of_char c :: nat) \<and> (of_char c :: nat) \<le> 13
     \<or> (of_char c :: nat) = 32 \<or> (of_char c :: nat) = 160"
  using ctype_spaces of_char_range [of c] by (simp add: my_isspace_def ctype_of_def list_all_iff)

lemma my_isdigit_not_space: "my_isdigit c \<Longrightarrow> \<not> my_isspace c"
  by (simp add: my_isdigit_iff my_isspace_iff)

end
