(* ===== verification/Int_Str.thy ===== *)
theory Int_Str
  imports Prelude
begin

text \<open>
  Integers and text: \<open>strings/int2str.c\<close>, \<open>strings/longlong2str.c\<close> (integer to text in any radix,
  and the decimal variants) and \<open>strings/my_strtoll10.c\<close> (decimal text to a 64-bit integer, read
  in groups of nine digits).  A \<open>longlong\<close> is an \<open>int\<close> from \<open>- 2 ^ 63\<close> up to \<open>2 ^ 63\<close>; the
  conversions between signed and unsigned are written out.
\<close>

section \<open>The model\<close>

definition s64 :: "int \<Rightarrow> int" where
  "s64 x = (x + 2 ^ 63) mod 2 ^ 64 - 2 ^ 63"

definition ulonglong_of :: "int \<Rightarrow> nat" where
  "ulonglong_of x = nat (x mod 2 ^ 64)"

definition LONG_MAX :: nat where "LONG_MAX = 2 ^ 63 - 1"

subsection \<open>Printing\<close>

definition dig_vec_upper :: string where
  "dig_vec_upper = ''0123456789ABCDEFGHIJKLMNOPQRSTUVWXYZ''"

definition dig_vec_lower :: string where
  "dig_vec_lower = ''0123456789abcdefghijklmnopqrstuvwxyz''"

text \<open>
  The loop \<open>while (val != 0)\<close>: digits are written downwards from the end of \<open>buffer\<close>, so the text
  so far is the list of what is behind \<open>p\<close>.  The callers have checked that the radix is at
  least 2.
\<close>

function digit_loop :: "string \<Rightarrow> nat \<Rightarrow> nat \<Rightarrow> string \<Rightarrow> string" where
  "digit_loop dig_vec radix val p =
     (if val = 0 \<or> radix < 2 then p
      else let quo = val div radix
           in digit_loop dig_vec radix quo (dig_vec ! (val - quo * radix) # p))"
  by pat_completeness auto
termination
  by (relation "measure (\<lambda>(d, r, v, p). v)") auto

text \<open>The loop \<open>while (uval > (ulonglong) LONG_MAX)\<close> of the \<open>longlong\<close> versions.\<close>

function unsigned_loop :: "string \<Rightarrow> nat \<Rightarrow> nat \<Rightarrow> string \<Rightarrow> nat \<times> string" where
  "unsigned_loop dig_vec radix uval p =
     (if uval \<le> LONG_MAX \<or> radix < 2 then (uval, p)
      else let quo = uval div radix
           in unsigned_loop dig_vec radix quo (dig_vec ! (uval - quo * radix) # p))"
  by pat_completeness auto
termination
  by (relation "measure (\<lambda>(d, r, v, p). v)") (auto intro: div_less_dividend)

declare digit_loop.simps [simp del] unsigned_loop.simps [simp del]

text \<open>The checks of the radix and of the sign: the sign, the magnitude and the radix.\<close>

definition sign_and_radix :: "int \<Rightarrow> int \<Rightarrow> (string \<times> nat \<times> nat) option" where
  "sign_and_radix val radix =
     (let uval = ulonglong_of val in
      if radix < 0 then
        if radix < - 36 \<or> radix > - 2 then None
        else if val < 0 then Some (''-'', ulonglong_of (0 - int uval), nat (- radix))
        else Some ('''', uval, nat (- radix))
      else if radix > 36 \<or> radix < 2 then None
      else Some ('''', uval, nat radix))"

definition int2str :: "int \<Rightarrow> int \<Rightarrow> bool \<Rightarrow> string option" where
  "int2str val radix upcase =
     (case sign_and_radix val radix of None \<Rightarrow> None
      | Some (sign, uval, r) \<Rightarrow>
          let dig_vec = (if upcase then dig_vec_upper else dig_vec_lower);
              new_val = uval div r
          in Some (sign @ digit_loop dig_vec r new_val [dig_vec ! (uval - new_val * r)]))"

text \<open>\<open>'0' + (char) d\<close> for a decimal digit \<open>d\<close>.\<close>

definition dig_vec_10 :: string where
  "dig_vec_10 = map (\<lambda>d. char_of (48 + d)) [0..<10]"

definition int10_to_str :: "int \<Rightarrow> int \<Rightarrow> string" where
  "int10_to_str val radix =
     (let negative = radix < 0 \<and> val < 0;
          uval = (if negative then ulonglong_of (0 - int (ulonglong_of val)) else ulonglong_of val);
          new_val = uval div 10
      in (if negative then ''-'' else '''')
         @ digit_loop dig_vec_10 10 new_val [dig_vec_10 ! (uval - new_val * 10)])"

text \<open>The digits written after the sign by the \<open>longlong\<close> versions.\<close>

definition ll_digits :: "string \<Rightarrow> nat \<Rightarrow> nat \<Rightarrow> string" where
  "ll_digits dig_vec r uval =
     (if uval = 0 then ''0''
      else case unsigned_loop dig_vec r uval [] of (long_val, p) \<Rightarrow> digit_loop dig_vec r long_val p)"

definition ll2str :: "int \<Rightarrow> int \<Rightarrow> bool \<Rightarrow> string option" where
  "ll2str val radix upcase =
     (case sign_and_radix val radix of None \<Rightarrow> None
      | Some (sign, uval, r) \<Rightarrow>
          Some (sign @ ll_digits (if upcase then dig_vec_upper else dig_vec_lower) r uval))"

definition longlong10_to_str :: "int \<Rightarrow> int \<Rightarrow> string" where
  "longlong10_to_str val radix =
     (let negative = radix < 0 \<and> val < 0;
          uval = (if negative then ulonglong_of (0 - int (ulonglong_of val)) else ulonglong_of val)
      in (if negative then ''-'' else '''') @ ll_digits dig_vec_upper 10 uval)"

subsection \<open>Reading\<close>

datatype my_errno = MY_ERRNO_NEGATIVE | MY_ERRNO_OK | MY_ERRNO_ERANGE | MY_ERRNO_EDOM

definition MAX_NEGATIVE_NUMBER :: nat where "MAX_NEGATIVE_NUMBER = 0x8000000000000000"
definition ULONGLONG_MAX :: nat where "ULONGLONG_MAX = 0xFFFFFFFFFFFFFFFF"
definition INIT_CNT :: nat where "INIT_CNT = 9"
definition LFACTOR :: nat where "LFACTOR = 1000000000"
definition LFACTOR1 :: nat where "LFACTOR1 = 10000000000"
definition LFACTOR2 :: nat where "LFACTOR2 = 100000000000"

definition lfactor :: "nat list" where
  "lfactor = [1, 10, 100, 1000, 10000, 100000, 1000000, 10000000, 100000000]"

text \<open>\<open>c= (*s-'0')\<close>, as an \<open>uchar\<close>.\<close>

definition digit_of :: "char \<Rightarrow> nat" where
  "digit_of c = (of_char c + 208) mod 256"

text \<open>
  The digit loops, at most \<open>n\<close> characters: the number, the rest of the text, and whether the loop
  was left at a character that is not a digit.
\<close>

fun read_digits :: "nat \<Rightarrow> nat \<Rightarrow> string \<Rightarrow> nat \<times> string \<times> bool" where
  "read_digits 0 i s = (i, s, False)"
| "read_digits (Suc n) i [] = (i, [], False)"
| "read_digits (Suc n) i (c # s) =
     (if digit_of c > 9 then (i, c # s, True) else read_digits n (i * 10 + digit_of c) s)"

definition signed_result :: "bool \<Rightarrow> nat \<Rightarrow> int" where
  "signed_result negative li = (if negative then s64 (- s64 (int li)) else s64 (int li))"

text \<open>The label \<open>overflow\<close>.\<close>

definition strtoll_overflow :: "bool \<Rightarrow> string \<Rightarrow> int \<times> my_errno \<times> string" where
  "strtoll_overflow negative s =
     (if negative then - (2 ^ 63) else s64 (int ULONGLONG_MAX), MY_ERRNO_ERANGE, s)"

text \<open>From the third group of digits on: \<open>s\<close> is at a digit after eighteen digits \<open>i\<close>, \<open>j\<close>.\<close>

definition read_k :: "bool \<Rightarrow> my_errno \<Rightarrow> nat \<Rightarrow> nat \<Rightarrow> string \<Rightarrow> int \<times> my_errno \<times> string" where
  "read_k negative err i j s =
     (let k = digit_of (hd s); s = tl s in
      if s = [] \<or> digit_of (hd s) > 9 then
        let li = u64 (i * LFACTOR1 + j * 10 + k) in
        if negative \<and> li > MAX_NEGATIVE_NUMBER then strtoll_overflow negative s
        else (signed_result negative li, err, s)
      else
        let k = k * 10 + digit_of (hd s); s = tl s;
            limit = (if negative then MAX_NEGATIVE_NUMBER else ULONGLONG_MAX);
            cutoff = limit div LFACTOR2;
            cutoff2 = limit mod LFACTOR2 div 100;
            cutoff3 = limit mod 100
        in if s \<noteq> [] \<and> digit_of (hd s) \<le> 9 then strtoll_overflow negative s
           else if i > cutoff \<or> (i = cutoff \<and> (j > cutoff2 \<or> (j = cutoff2 \<and> k > cutoff3)))
           then strtoll_overflow negative s
           else (s64 (int (u64 (i * LFACTOR2 + j * 100 + k))), err, s))"

text \<open>The second group of digits; \<open>s\<close> is not at the end.\<close>

definition read_j :: "bool \<Rightarrow> my_errno \<Rightarrow> nat \<Rightarrow> string \<Rightarrow> int \<times> my_errno \<times> string" where
  "read_j negative err i start =
     (case read_digits INIT_CNT 0 start of (j, s, stopped) \<Rightarrow>
        let n = length start - length s;
            end_i_and_j = (signed_result negative (u64 (i * lfactor ! n + j)), err, s);
            end3 = (signed_result negative (u64 (i * LFACTOR + j)), err, s)
        in if stopped then end_i_and_j
           else if s = [] then (if n \<noteq> INIT_CNT then end_i_and_j else end3)
           else if digit_of (hd s) > 9 then end3
           else read_k negative err i j s)"

fun skip_zeros :: "string \<Rightarrow> string" where
  "skip_zeros [] = []"
| "skip_zeros (c # s) = (if c = CHR ''0'' then skip_zeros s else c # s)"

text \<open>After the first group of digits.\<close>

definition after_i :: "bool \<Rightarrow> my_errno \<Rightarrow> nat \<times> string \<times> bool \<Rightarrow> int \<times> my_errno \<times> string" where
  "after_i negative err first =
     (case first of (i, s, stopped) \<Rightarrow>
        if stopped \<or> s = [] then (signed_result negative i, err, s) else read_j negative err i s)"

text \<open>
  From the first digit on; \<open>None\<close> is the jump to \<open>no_conv\<close>.  Here \<open>s\<close> is not at the end.
\<close>

definition read_number :: "bool \<Rightarrow> my_errno \<Rightarrow> string \<Rightarrow> (int \<times> my_errno \<times> string) option" where
  "read_number negative err s =
     (if hd s = CHR ''0'' then
        let s = skip_zeros s in
        Some (if s = [] then (signed_result negative 0, err, s)
              else after_i negative err (read_digits INIT_CNT 0 s))
      else if digit_of (hd s) > 9 then None
      else Some (after_i negative err (read_digits (INIT_CNT - 1) (digit_of (hd s)) (tl s))))"

text \<open>
  With a limit (\<open>endptr\<close> given) the text is what is before the limit, and the result has the
  rest of it at the place \<open>*endptr\<close> is set to.
\<close>

definition my_strtoll10_core :: "string \<Rightarrow> string \<Rightarrow> int \<times> my_errno \<times> string" where
  "my_strtoll10_core nptr s =
     (let no_conv = (0, MY_ERRNO_EDOM, nptr);
          negative = (hd s = CHR ''-'');
          err = (if negative then MY_ERRNO_NEGATIVE else MY_ERRNO_OK);
          s = (if negative \<or> hd s = CHR ''+'' then tl s else s)
      in if s = [] then no_conv
         else case read_number negative err s of None \<Rightarrow> no_conv | Some r \<Rightarrow> r)"

definition my_strtoll10 :: "string \<Rightarrow> int \<times> my_errno \<times> string" where
  "my_strtoll10 nptr =
     (let s = dropWhile (\<lambda>c. c = CHR '' '' \<or> c = CHR 0x09) nptr in
      if s = [] then (0, MY_ERRNO_EDOM, nptr) else my_strtoll10_core nptr s)"

text \<open>Without a limit the text ends with a NUL character; at most 65535 characters are read.\<close>

definition my_strtoll10_nul :: "string \<Rightarrow> int \<times> my_errno \<times> string" where
  "my_strtoll10_nul nptr =
     (let s = dropWhile (\<lambda>c. c = CHR '' '' \<or> c = CHR 0x09) nptr in
      if s = [] then (0, MY_ERRNO_EDOM, nptr)
      else my_strtoll10_core nptr (take 65535 (s @ [CHR 0x00])))"

section \<open>Printing\<close>

text \<open>The reference: the digits of a number, most significant first.\<close>

function num_str :: "string \<Rightarrow> nat \<Rightarrow> nat \<Rightarrow> string" where
  "num_str dig_vec r n =
     (if n < r \<or> r < 2 then [dig_vec ! n] else num_str dig_vec r (n div r) @ [dig_vec ! (n mod r)])"
  by pat_completeness auto
termination
  by (relation "measure (\<lambda>(d, r, n). n)") (auto intro: div_less_dividend)

declare num_str.simps [simp del]

lemma dig_vec_10_eq: "dig_vec_10 = ''0123456789''"
  by code_simp

lemma minus_div_mult: "n - n div r * r = n mod (r :: nat)"
  by (simp add: minus_div_mult_eq_mod)

lemma digit_loop_num_str:
  "2 \<le> r \<Longrightarrow> n \<noteq> 0 \<Longrightarrow> digit_loop d r n p = num_str d r n @ p"
proof (induction n arbitrary: p rule: less_induct)
  case (less n)
  show ?case
  proof (cases "n < r")
    case True
    then show ?thesis using less.prems
      by (simp add: digit_loop.simps [of d r n] digit_loop.simps [of d r 0] num_str.simps [of d r n])
  next
    case False
    then have "n div r \<noteq> 0" "n div r < n" using less.prems by (simp_all add: div_eq_0_iff)
    with False less.prems less.IH [of "n div r"] show ?thesis
      by (simp add: digit_loop.simps [of d r n] num_str.simps [of d r n] minus_div_mult Let_def)
  qed
qed

lemma first_digit_num_str:
  assumes "2 \<le> r"
  shows "digit_loop d r (n div r) [d ! (n - n div r * r)] = num_str d r n"
proof (cases "n < r")
  case True
  then show ?thesis
    using assms by (simp add: digit_loop.simps [of d r 0] num_str.simps [of d r n])
next
  case False
  then have "n div r \<noteq> 0" using assms by (simp add: div_eq_0_iff)
  with False assms show ?thesis
    by (simp add: digit_loop_num_str minus_div_mult num_str.simps [of d r n])
qed

lemma unsigned_loop_num_str:
  assumes "2 \<le> r" "r \<le> 36" "n \<noteq> 0" "unsigned_loop d r n p = (v, q)"
  shows "digit_loop d r v q = num_str d r n @ p"
  using assms(3,4)
proof (induction n arbitrary: p rule: less_induct)
  case (less n)
  show ?case
  proof (cases "n \<le> LONG_MAX")
    case True
    then show ?thesis
      using less.prems assms(1) by (simp add: unsigned_loop.simps [of d r n] digit_loop_num_str)
  next
    case False
    then have "36 \<le> n" by (simp add: LONG_MAX_def)
    then have nr: "r \<le> n" using assms(2) by simp
    then have "n div r \<noteq> 0" "n div r < n"
      using assms(1) less.prems by (simp_all add: div_eq_0_iff)
    moreover have "unsigned_loop d r (n div r) (d ! (n mod r) # p) = (v, q)"
      using less.prems(2) False assms(1)
      by (simp add: unsigned_loop.simps [of d r n] minus_div_mult Let_def)
    ultimately have "digit_loop d r v q = num_str d r (n div r) @ d ! (n mod r) # p"
      using less.IH [of "n div r"] by simp
    with nr assms(1) show ?thesis by (simp add: num_str.simps [of d r n])
  qed
qed

lemma num_str_0: "2 \<le> r \<Longrightarrow> num_str d r 0 = [d ! 0]"
  by (simp add: num_str.simps [of d r 0])

lemma ll_digits_num_str:
  assumes "2 \<le> r" "r \<le> 36" "d ! 0 = CHR ''0''"
  shows "ll_digits d r n = num_str d r n"
  using assms unsigned_loop_num_str [OF assms(1,2), of n d "[]"]
  by (auto simp: ll_digits_def num_str_0 split: prod.split)

lemma length_num_str:
  "2 \<le> r \<Longrightarrow> 0 < k \<Longrightarrow> n < r ^ k \<Longrightarrow> length (num_str d r n) \<le> k"
proof (induction k arbitrary: n)
  case (Suc k)
  show ?case
  proof (cases "n < r")
    case True
    then show ?thesis by (simp add: num_str.simps [of d r n])
  next
    case False
    have "n div r < r ^ k"
      using Suc.prems by (simp add: less_mult_imp_div_less mult.commute)
    moreover have "0 < k" using False Suc.prems by (cases k) auto
    ultimately show ?thesis
      using Suc False by (simp add: num_str.simps [of d r n])
  qed
qed simp

subsection \<open>The printers agree with the reference\<close>

lemma ulonglong_of_nonneg: "0 \<le> x \<Longrightarrow> x < 2 ^ 64 \<Longrightarrow> ulonglong_of x = nat x"
  by (simp add: ulonglong_of_def)

lemma ulonglong_of_bound: "ulonglong_of x < 2 ^ 64"
  by (simp add: ulonglong_of_def nat_less_iff)

lemma ulonglong_of_negate:
  assumes "- (2 ^ 63) \<le> x" "x < 0"
  shows "ulonglong_of (0 - int (ulonglong_of x)) = nat (- x)"
proof -
  have "int (ulonglong_of x) = x mod 2 ^ 64"
    by (simp add: ulonglong_of_def)
  then have "(0 - int (ulonglong_of x)) mod 2 ^ 64 = (- x) mod 2 ^ 64"
    by (metis diff_0 mod_minus_eq)
  also have "\<dots> = - x" using assms by simp
  finally show ?thesis by (simp add: ulonglong_of_def)
qed

definition signed_str :: "string \<Rightarrow> nat \<Rightarrow> int \<Rightarrow> string" where
  "signed_str dig_vec r x = (if x < 0 then ''-'' else '''') @ num_str dig_vec r (nat \<bar>x\<bar>)"

lemma sign_and_radix_signed:
  assumes "2 \<le> r" "r \<le> 36" "- (2 ^ 63) \<le> x" "x < 2 ^ 63"
  shows "sign_and_radix x (- int r) = Some (if x < 0 then ''-'' else '''', nat \<bar>x\<bar>, r)"
  using assms ulonglong_of_negate [of x] by (auto simp: sign_and_radix_def ulonglong_of_nonneg)

lemma sign_and_radix_unsigned:
  assumes "2 \<le> r" "r \<le> 36"
  shows "sign_and_radix x (int r) = Some ('''', ulonglong_of x, r)"
  using assms by (simp add: sign_and_radix_def)

lemma dig_vec_digits:
  "dig_vec_upper ! 0 = CHR ''0''" "dig_vec_lower ! 0 = CHR ''0''" "dig_vec_10 ! 0 = CHR ''0''"
  by (simp_all add: dig_vec_upper_def dig_vec_lower_def dig_vec_10_eq)

lemma longlong10_to_str_eq:
  assumes "- (2 ^ 63) \<le> x" "x < 2 ^ 63"
  shows "longlong10_to_str x (- 10) = signed_str dig_vec_upper 10 x"
    "longlong10_to_str x 10 = num_str dig_vec_upper 10 (ulonglong_of x)"
  using assms ulonglong_of_negate [of x] ll_digits_num_str [of 10 dig_vec_upper] dig_vec_digits
  by (auto simp: longlong10_to_str_def signed_str_def ulonglong_of_nonneg Let_def)

text \<open>
  The integer printers write the digits of the value, most significant first, in every radix
  from 2 to 36: as an unsigned 64-bit value when the radix is positive, with a sign, also for the
  least value \<open>- 2 ^ 63\<close>, when it is negative.  The decimal versions agree with them, other radixes
  are refused, and the 64 places before the terminator of \<open>buffer\<close> are enough.
\<close>

theorem int_to_str_correct:
  assumes "2 \<le> r" "r \<le> 36" "- (2 ^ 63) \<le> x" "x < 2 ^ 63"
  shows "int2str x (int r) up = Some (num_str (if up then dig_vec_upper else dig_vec_lower) r (ulonglong_of x))
    \<and> int2str x (- int r) up = Some (signed_str (if up then dig_vec_upper else dig_vec_lower) r x)
    \<and> ll2str x (int r) up = int2str x (int r) up
    \<and> ll2str x (- int r) up = int2str x (- int r) up
    \<and> int10_to_str x (- 10) = signed_str dig_vec_10 10 x
    \<and> int10_to_str x 10 = num_str dig_vec_10 10 (ulonglong_of x)
    \<and> longlong10_to_str x (- 10) = signed_str dig_vec_upper 10 x
    \<and> longlong10_to_str x 10 = num_str dig_vec_upper 10 (ulonglong_of x)
    \<and> (radix \<notin> {2..36} \<union> {- 36..- 2} \<longrightarrow> int2str x radix up = None \<and> ll2str x radix up = None)
    \<and> length (num_str d r (ulonglong_of x)) \<le> 64"
proof -
  let ?d = "if up then dig_vec_upper else dig_vec_lower"
  have d0: "?d ! 0 = CHR ''0''" by (simp add: dig_vec_digits)
  note digits = first_digit_num_str [OF assms(1)] ll_digits_num_str [OF assms(1,2) d0]
    first_digit_num_str [of 10]
  have neg: "ulonglong_of (0 - int (ulonglong_of x)) = nat (- x)" if "x < 0"
    using that assms ulonglong_of_negate by simp
  have "int2str x (int r) up = Some (num_str ?d r (ulonglong_of x))"
    and "ll2str x (int r) up = Some (num_str ?d r (ulonglong_of x))"
    using assms digits by (simp_all add: int2str_def ll2str_def sign_and_radix_unsigned Let_def)
  moreover have "int2str x (- int r) up = Some (signed_str ?d r x)"
    and "ll2str x (- int r) up = Some (signed_str ?d r x)"
    using assms digits
    by (simp_all add: int2str_def ll2str_def sign_and_radix_signed signed_str_def Let_def)
  moreover have "int10_to_str x (- 10) = signed_str dig_vec_10 10 x"
    and "int10_to_str x 10 = num_str dig_vec_10 10 (ulonglong_of x)"
    using assms digits neg
    by (auto simp: int10_to_str_def signed_str_def ulonglong_of_nonneg Let_def)
  moreover note longlong10_to_str_eq [OF assms(3,4)]
  moreover have "length (num_str d r (ulonglong_of x)) \<le> 64"
  proof (rule length_num_str)
    have "(2 :: nat) ^ 64 \<le> r ^ 64" using assms(1) by (rule power_mono) simp
    then show "ulonglong_of x < r ^ 64" using ulonglong_of_bound [of x] by linarith
  qed (use assms(1) in simp_all)
  moreover have "int2str x radix up = None \<and> ll2str x radix up = None"
    if "radix \<notin> {2..36} \<union> {- 36..- 2}"
  proof -
    have "sign_and_radix x radix = None" using that by (auto simp: sign_and_radix_def Let_def)
    then show ?thesis by (simp add: int2str_def ll2str_def)
  qed
  ultimately show ?thesis by (intro conjI impI) simp_all
qed

section \<open>Reading\<close>

abbreviation is_digit :: "char \<Rightarrow> bool" where
  "is_digit c \<equiv> digit_of c \<le> 9"

text \<open>The value of a text of digits, after digits of value \<open>v\<close>.\<close>

definition dec_from :: "nat \<Rightarrow> string \<Rightarrow> nat" where
  "dec_from v ds = foldl (\<lambda>v c. v * 10 + digit_of c) v ds"

abbreviation dec_val :: "string \<Rightarrow> nat" where
  "dec_val ds \<equiv> dec_from 0 ds"

lemma dec_from_simps [simp]:
  "dec_from v [] = v" "dec_from v (c # ds) = dec_from (v * 10 + digit_of c) ds"
  by (simp_all add: dec_from_def)

lemma dec_from_append: "dec_from v (as @ bs) = dec_from (dec_from v as) bs"
  by (simp add: dec_from_def)

lemma dec_from_shift: "dec_from v ds = v * 10 ^ length ds + dec_val ds"
proof (induction ds arbitrary: v)
  case (Cons c ds)
  show ?case
    using Cons [of "v * 10 + digit_of c"] Cons [of "digit_of c"] by (simp add: algebra_simps)
qed simp

lemma dec_val_bound: "list_all is_digit ds \<Longrightarrow> dec_val ds < 10 ^ length ds"
proof (induction ds rule: rev_induct)
  case (snoc c ds)
  then show ?case by (simp add: dec_from_append)
qed simp

lemma dec_val_lower:
  assumes "ds \<noteq> []" "digit_of (hd ds) \<noteq> 0"
  shows "10 ^ (length ds - 1) \<le> dec_val ds"
proof (cases ds)
  case (Cons c cs)
  have "1 * 10 ^ length cs \<le> digit_of c * 10 ^ length cs"
    using assms Cons by (intro mult_le_mono1) simp
  moreover have "dec_val ds = digit_of c * 10 ^ length cs + dec_val cs" "length ds - 1 = length cs"
    using Cons dec_from_shift [of "digit_of c" cs] by simp_all
  ultimately show ?thesis by (simp only: mult_1 trans_le_add1)
qed (use assms in simp)

lemma dec_val_split: "dec_val ds = dec_val (take n ds) * 10 ^ (length ds - n) + dec_val (drop n ds)"
  using dec_from_append [of 0 "take n ds" "drop n ds"] dec_from_shift [of "dec_val (take n ds)" "drop n ds"]
  by simp

abbreviation stops :: "string \<Rightarrow> bool" where
  "stops rest \<equiv> rest = [] \<or> \<not> is_digit (hd rest)"

lemma read_digits_spec:
  assumes "list_all is_digit ds" "stops rest"
  shows "read_digits n v (ds @ rest) =
    (if length ds < n then (dec_from v ds, rest, rest \<noteq> [])
     else (dec_from v (take n ds), drop n ds @ rest, False))"
  using assms(1)
proof (induction n arbitrary: v ds)
  case (Suc n)
  show ?case
  proof (cases ds)
    case Nil
    then show ?thesis using assms(2) by (cases rest) auto
  next
    case (Cons c cs)
    then show ?thesis using Suc by simp
  qed
qed simp

lemma s64_id: "- (2 ^ 63) \<le> x \<Longrightarrow> x < 2 ^ 63 \<Longrightarrow> s64 x = x"
  by (simp add: s64_def)

lemma signed_result_eq:
  "n \<le> 2 ^ 63 \<Longrightarrow> signed_result True n = - int n"
  "signed_result False n = s64 (int n)"
proof -
  show "signed_result True n = - int n" if "n \<le> 2 ^ 63"
  proof (cases "n = 2 ^ 63")
    case True
    then show ?thesis by (simp add: signed_result_def s64_def)
  next
    case False
    with that have "int n < 2 ^ 63" by simp
    then show ?thesis by (simp add: signed_result_def s64_id)
  qed
qed (simp add: signed_result_def)

text \<open>What \<open>my_strtoll10\<close> has to return for a number of magnitude \<open>v\<close>.\<close>

definition strtoll_value :: "bool \<Rightarrow> nat \<Rightarrow> int \<times> my_errno" where
  "strtoll_value negative v =
     (if negative then
        if v \<le> 2 ^ 63 then (- int v, MY_ERRNO_NEGATIVE) else (- (2 ^ 63), MY_ERRNO_ERANGE)
      else if v < 2 ^ 64 then (s64 (int v), MY_ERRNO_OK) else (s64 (2 ^ 64 - 1), MY_ERRNO_ERANGE))"

definition strtoll_result :: "bool \<Rightarrow> nat \<Rightarrow> string \<Rightarrow> int \<times> my_errno \<times> string \<Rightarrow> bool" where
  "strtoll_result negative v rest r \<longleftrightarrow>
     (case r of (x, e, s) \<Rightarrow>
        (x, e) = strtoll_value negative v \<and> (e \<noteq> MY_ERRNO_ERANGE \<longrightarrow> s = rest))"

definition err_of :: "bool \<Rightarrow> my_errno" where
  "err_of negative = (if negative then MY_ERRNO_NEGATIVE else MY_ERRNO_OK)"

lemma strtoll_result_small:
  assumes "v \<le> 2 ^ 63"
  shows "strtoll_result negative v rest (signed_result negative v, err_of negative, rest)"
  using assms by (auto simp: strtoll_result_def strtoll_value_def signed_result_eq err_of_def)

lemma strtoll_result_overflow:
  assumes "if negative then v > 2 ^ 63 else v \<ge> 2 ^ 64"
  shows "strtoll_result negative v rest (strtoll_overflow negative s)"
  using assms
  by (cases negative)
    (auto simp: strtoll_result_def strtoll_value_def strtoll_overflow_def ULONGLONG_MAX_def)

lemma lex_compare:
  fixes i j k a b c :: nat
  assumes "j < 10 ^ 9" "k < 100" "b < 10 ^ 9" "c < 100"
  shows "i > a \<or> (i = a \<and> (j > b \<or> (j = b \<and> k > c)))
    \<longleftrightarrow> a * 100000000000 + b * 100 + c < i * 100000000000 + j * 100 + k"
proof (cases i a rule: linorder_cases)
  case equal
  then show ?thesis using assms by auto
qed (use assms in auto)

text \<open>Twenty digits: the comparison by parts is the comparison of the numbers.\<close>

lemma cutoff_compare:
  fixes i j k limit :: nat
  assumes "j < 10 ^ 9" "k < 100"
  shows "i > limit div LFACTOR2 \<or> (i = limit div LFACTOR2 \<and> (j > limit mod LFACTOR2 div 100
      \<or> (j = limit mod LFACTOR2 div 100 \<and> k > limit mod 100)))
    \<longleftrightarrow> i * LFACTOR2 + j * 100 + k > limit"
proof -
  define a b c where "a = limit div LFACTOR2" and "b = limit mod LFACTOR2 div 100"
    and "c = limit mod 100"
  have "limit mod LFACTOR2 mod 100 = c"
    by (simp add: c_def LFACTOR2_def mod_mod_cancel)
  then have limit: "limit = a * LFACTOR2 + b * 100 + c"
    unfolding a_def b_def by (metis add.assoc div_mult_mod_eq)
  have "b < 10 ^ 9" "c < 100"
    by (simp_all add: b_def c_def LFACTOR2_def less_mult_imp_div_less)
  then have "i > a \<or> (i = a \<and> (j > b \<or> (j = b \<and> k > c)))
      \<longleftrightarrow> a * LFACTOR2 + b * 100 + c < i * LFACTOR2 + j * 100 + k"
    using assms unfolding LFACTOR2_def by (intro lex_compare)
  then show ?thesis
    by (simp only: limit [symmetric] flip: a_def b_def c_def)
qed

lemma read_k_spec:
  assumes "list_all is_digit ds" "stops rest" "ds \<noteq> []" "j < 10 ^ 9" "10 ^ 8 \<le> i" "i < 10 ^ 9"
  shows "strtoll_result negative ((i * 10 ^ 9 + j) * 10 ^ length ds + dec_val ds) rest
    (read_k negative (err_of negative) i j (ds @ rest))"
proof -
  consider c where "ds = [c]" | c d where "ds = [c, d]" | c d e cs where "ds = c # d # e # cs"
    using assms(3) by (metis neq_Nil_conv)
  then show ?thesis
  proof cases
    case 1
    then have c: "is_digit c" using assms(1) by simp
    have v: "(i * 10 ^ 9 + j) * 10 ^ length ds + dec_val ds = i * LFACTOR1 + j * 10 + digit_of c"
      by (simp add: 1 LFACTOR1_def)
    have small: "i * LFACTOR1 + j * 10 + digit_of c < 2 ^ 64"
      using assms c by (simp add: LFACTOR1_def)
    have "read_k negative (err_of negative) i j (ds @ rest) =
        (if negative \<and> i * LFACTOR1 + j * 10 + digit_of c > 2 ^ 63 then strtoll_overflow negative rest
         else (signed_result negative (i * LFACTOR1 + j * 10 + digit_of c), err_of negative, rest))"
      using assms(2) small by (auto simp: 1 read_k_def MAX_NEGATIVE_NUMBER_def)
    then show ?thesis
      unfolding v using small
      by (auto simp: strtoll_result_def strtoll_value_def strtoll_overflow_def signed_result_eq err_of_def)
  next
    case 2
    then have cd: "is_digit c" "is_digit d" using assms(1) by simp_all
    let ?k = "digit_of c * 10 + digit_of d"
    let ?n = "i * LFACTOR2 + j * 100 + ?k"
    let ?limit = "if negative then MAX_NEGATIVE_NUMBER else ULONGLONG_MAX"
    have k: "?k < 100" using cd by simp
    have v: "(i * 10 ^ 9 + j) * 10 ^ length ds + dec_val ds = ?n"
      by (simp add: 2 LFACTOR2_def)
    have large: "2 ^ 63 < ?n" using assms(5) by (simp add: LFACTOR2_def)
    have "read_k negative (err_of negative) i j (ds @ rest) =
        (if ?n > ?limit then strtoll_overflow negative rest else (s64 (int (u64 ?n)), err_of negative, rest))"
      using assms(2) cd
      by (auto simp: 2 read_k_def Let_def cutoff_compare [OF assms(4) k])
    then show ?thesis
      unfolding v using large
      by (cases negative) (auto simp: strtoll_overflow_def strtoll_result_def strtoll_value_def
            MAX_NEGATIVE_NUMBER_def ULONGLONG_MAX_def err_of_def)
  next
    case 3
    then have cd: "is_digit c" "is_digit d" "is_digit e" using assms(1) by simp_all
    then have "read_k negative (err_of negative) i j (ds @ rest) = strtoll_overflow negative (e # cs @ rest)"
      by (simp add: 3 read_k_def Let_def)
    moreover have "(10 ^ 8 * 10 ^ 9) * 10 ^ 3 \<le> (i * 10 ^ 9 + j) * 10 ^ length ds"
      using assms(5) by (intro mult_le_mono power_increasing) (auto simp: 3)
    then have "2 ^ 64 \<le> (i * 10 ^ 9 + j) * 10 ^ length ds + dec_val ds"
      by simp
    ultimately show ?thesis
      by (auto intro!: strtoll_result_overflow)
  qed
qed

lemma lfactor_nth: "n < 9 \<Longrightarrow> lfactor ! n = 10 ^ n"
proof -
  assume "n < 9"
  then have "n \<in> {0, 1, 2, 3, 4, 5, 6, 7, 8}" by auto
  then show ?thesis by (auto simp: lfactor_def)
qed

lemma list_all_take: "list_all P xs \<Longrightarrow> list_all P (take n xs)"
  by (metis in_set_takeD list_all_iff)

lemma list_all_drop: "list_all P xs \<Longrightarrow> list_all P (drop n xs)"
  by (metis in_set_dropD list_all_iff)

lemma mult_add_less:
  fixes i a d p :: nat
  assumes "i < a" "d < p"
  shows "i * p + d < a * p"
proof -
  have "Suc i * p \<le> a * p" using assms(1) by (intro mult_le_mono1) simp
  moreover have "Suc i * p = i * p + p" by simp
  ultimately show ?thesis using assms(2) by linarith
qed

lemma read_j_spec:
  assumes "list_all is_digit ds" "stops rest" "ds @ rest \<noteq> []" "10 ^ 8 \<le> i" "i < 10 ^ 9"
  shows "strtoll_result negative (i * 10 ^ length ds + dec_val ds) rest
    (read_j negative (err_of negative) i (ds @ rest))"
proof (cases "length ds < 9")
  case True
  have "i * 10 ^ length ds + dec_val ds < 10 ^ 9 * 10 ^ length ds"
    using assms(5) dec_val_bound [OF assms(1)] by (rule mult_add_less)
  also have "\<dots> \<le> 10 ^ 9 * 10 ^ 8"
    using True by (intro mult_le_mono power_increasing) auto
  finally have "i * 10 ^ length ds + dec_val ds \<le> 2 ^ 63" by simp
  then show ?thesis
    using True strtoll_result_small [of "i * 10 ^ length ds + dec_val ds" negative rest]
    by (auto simp: read_j_def read_digits_spec [OF assms(1,2)] INIT_CNT_def lfactor_nth Let_def)
next
  case False
  define j where "j = dec_val (take 9 ds)"
  have j: "j < 10 ^ 9"
    using dec_val_bound [of "take 9 ds"] assms(1) False by (simp add: j_def list_all_take)
  have v: "i * 10 ^ length ds + dec_val ds = (i * 10 ^ 9 + j) * 10 ^ length (drop 9 ds) + dec_val (drop 9 ds)"
  proof -
    have "(10 :: nat) ^ length ds = 10 ^ 9 * 10 ^ (length ds - 9)"
      using False power_add [of "10 :: nat" 9 "length ds - 9"] by simp
    then show ?thesis using dec_val_split [of ds 9] by (simp add: j_def algebra_simps)
  qed
  show ?thesis
  proof (cases "drop 9 ds = []")
    case True
    have "(i * 10 ^ 9 + j) \<le> 2 ^ 63" "j = dec_val ds" using assms(5) j True by (simp_all add: j_def)
    then show ?thesis
      using True False assms(2) strtoll_result_small [of "i * 10 ^ 9 + j" negative rest] unfolding v
      by (auto simp: read_j_def read_digits_spec [OF assms(1,2)] INIT_CNT_def LFACTOR_def Let_def
            simp flip: j_def)
  next
    case more: False
    then have "is_digit (hd (drop 9 ds))"
      using assms(1) by (metis in_set_dropD list.set_sel(1) list_all_iff)
    then have "read_j negative (err_of negative) i (ds @ rest) =
        read_k negative (err_of negative) i j (drop 9 ds @ rest)"
      using more False
      by (simp add: read_j_def read_digits_spec [OF assms(1,2)] INIT_CNT_def Let_def flip: j_def)
    then show ?thesis
      unfolding v using read_k_spec [of "drop 9 ds" rest j i negative] assms j more
      by (simp add: list_all_drop)
  qed
qed

text \<open>The digits after the zeros in front.\<close>

lemma read_tail_spec:
  assumes "list_all is_digit ds" "stops rest" "ds \<noteq> [] \<longrightarrow> digit_of (hd ds) \<noteq> 0"
  shows "strtoll_result negative (dec_val ds) rest
    (after_i negative (err_of negative) (read_digits INIT_CNT 0 (ds @ rest)))"
proof (cases "length ds < 9")
  case True
  have "dec_val ds < 10 ^ length ds" using assms(1) by (rule dec_val_bound)
  also have "(10 :: nat) ^ length ds \<le> 10 ^ 9" using True by (intro power_increasing) auto
  finally have "dec_val ds \<le> 2 ^ 63" by simp
  then show ?thesis
    using True strtoll_result_small [of "dec_val ds" negative rest]
    by (auto simp: after_i_def read_digits_spec [OF assms(1,2)] INIT_CNT_def)
next
  case False
  define i where "i = dec_val (take 9 ds)"
  have i: "i < 10 ^ 9"
    using dec_val_bound [of "take 9 ds"] assms(1) False by (simp add: i_def list_all_take)
  have low: "10 ^ 8 \<le> i"
    using dec_val_lower [of "take 9 ds"] assms(3) False by (cases ds) (auto simp: i_def)
  have "strtoll_result negative (dec_val ds) rest
      (if drop 9 ds @ rest = [] then (signed_result negative i, err_of negative, [])
       else read_j negative (err_of negative) i (drop 9 ds @ rest))"
  proof (cases "drop 9 ds @ rest = []")
    case True
    then have "dec_val ds = i" by (simp add: i_def)
    with True i show ?thesis using strtoll_result_small [of i negative "[]"] by simp
  next
    case nonempty: False
    have "dec_val ds = i * 10 ^ length (drop 9 ds) + dec_val (drop 9 ds)"
      using dec_val_split [of ds 9] by (simp add: i_def)
    then have "strtoll_result negative (dec_val ds) rest
        (read_j negative (err_of negative) i (drop 9 ds @ rest))"
      using read_j_spec [of "drop 9 ds" rest i negative] assms(1,2) nonempty i low
      by (simp add: list_all_drop)
    then show ?thesis unfolding if_not_P [OF nonempty] .
  qed
  then show ?thesis
    using False by (auto simp: after_i_def read_digits_spec [OF assms(1,2)] INIT_CNT_def simp flip: i_def split: if_splits)
qed

lemma skip_zeros_eq: "skip_zeros s = dropWhile (\<lambda>c. c = CHR ''0'') s"
  by (induction s) auto

lemma digit_of_0 [simp]: "digit_of (CHR ''0'') = 0"
  by (simp add: digit_of_def)

lemma digit_of_eq_0: "digit_of c = 0 \<longleftrightarrow> c = CHR ''0''"
proof
  assume "digit_of c = 0"
  moreover have "of_char c < (256 :: nat)"
    using of_char_mod_256 [of c] mod_less_divisor [of 256 "of_char c :: nat"] by simp
  ultimately have "of_char c = (48 :: nat)"
    unfolding digit_of_def by presburger
  moreover have "of_char (CHR ''0'') = (48 :: nat)" by simp
  ultimately show "c = CHR ''0''" by (metis of_char_eq_iff)
qed simp

lemma dec_val_zeros: "dec_val ds = dec_val (dropWhile (\<lambda>c. c = CHR ''0'') ds)"
  by (induction ds) auto

lemma skip_zeros_append:
  assumes "stops rest"
  shows "skip_zeros (ds @ rest) = dropWhile (\<lambda>c. c = CHR ''0'') ds @ rest"
proof (induction ds)
  case Nil
  show ?case using assms by (cases rest) auto
qed simp

lemma read_number_spec:
  assumes "list_all is_digit ds" "stops rest" "ds \<noteq> []"
  shows "\<exists>r. read_number negative (err_of negative) (ds @ rest) = Some r
    \<and> strtoll_result negative (dec_val ds) rest r"
proof (cases "hd ds = CHR ''0''")
  case True
  define zs where "zs = dropWhile (\<lambda>c. c = CHR ''0'') ds"
  have skip: "skip_zeros (ds @ rest) = zs @ rest"
    using skip_zeros_append [OF assms(2), of ds] by (simp add: zs_def)
  have "list_all is_digit zs"
    using assms(1) set_dropWhileD unfolding zs_def list_all_iff by fast
  moreover have "zs \<noteq> [] \<longrightarrow> digit_of (hd zs) \<noteq> 0"
    using hd_dropWhile [of "\<lambda>c. c = CHR ''0''" ds] by (auto simp: digit_of_eq_0 zs_def)
  moreover have "dec_val ds = dec_val zs"
    unfolding zs_def by (rule dec_val_zeros)
  ultimately have tail: "strtoll_result negative (dec_val ds) rest
    (after_i negative (err_of negative) (read_digits INIT_CNT 0 (zs @ rest)))"
    using read_tail_spec [OF _ assms(2), of zs negative] by simp
  have hd: "hd (ds @ rest) = CHR ''0''" using True assms(3) by simp
  show ?thesis
  proof (cases "zs @ rest = []")
    case True
    then have "read_number negative (err_of negative) (ds @ rest) = Some (signed_result negative 0, err_of negative, [])"
      unfolding read_number_def hd skip by simp
    moreover have "after_i negative (err_of negative) (read_digits INIT_CNT 0 (zs @ rest)) =
        (signed_result negative 0, err_of negative, [])"
      using True by (simp add: after_i_def INIT_CNT_def numeral_eq_Suc)
    ultimately show ?thesis using tail by simp
  next
    case False
    then show ?thesis
      using tail unfolding read_number_def hd skip by (auto simp: Let_def)
  qed
next
  case False
  then obtain c cs where ds: "ds = c # cs" "is_digit c" "digit_of c \<noteq> 0" "c \<noteq> CHR ''0''"
    using assms by (cases ds) (auto simp: digit_of_eq_0)
  have "read_digits 9 0 (ds @ rest) = read_digits 8 (digit_of c) (cs @ rest)"
    using ds by (simp add: numeral_eq_Suc)
  then show ?thesis
    using read_tail_spec [OF assms(1,2), of negative] ds
    by (simp add: read_number_def INIT_CNT_def)
qed

subsection \<open>The reader agrees with the reference\<close>

abbreviation blank :: "char \<Rightarrow> bool" where
  "blank c \<equiv> c = CHR '' '' \<or> c = CHR 0x09"

text \<open>
  The reference: blanks, a sign, digits.  The text of the digits, the sign and the result.
\<close>

definition number_body :: "string \<Rightarrow> string" where
  "number_body nptr =
     (let s = dropWhile blank nptr in if s \<noteq> [] \<and> (hd s = CHR ''-'' \<or> hd s = CHR ''+'') then tl s else s)"

definition number_negative :: "string \<Rightarrow> bool" where
  "number_negative nptr = (let s = dropWhile blank nptr in s \<noteq> [] \<and> hd s = CHR ''-'')"

definition strtoll_ref :: "string \<Rightarrow> int \<times> my_errno" where
  "strtoll_ref nptr =
     (let ds = takeWhile is_digit (number_body nptr) in
      if ds = [] then (0, MY_ERRNO_EDOM) else strtoll_value (number_negative nptr) (dec_val ds))"

lemma read_number_no_digit: "\<not> is_digit (hd s) \<Longrightarrow> read_number negative err s = None"
  by (auto simp: read_number_def)

lemma strtoll_core_spec:
  assumes "s \<noteq> []"
    and body: "body = (if hd s = CHR ''-'' \<or> hd s = CHR ''+'' then tl s else s)"
    and r: "my_strtoll10_core nptr s = (x, e, rest)"
  shows "if takeWhile is_digit body = [] then (x, e, rest) = (0, MY_ERRNO_EDOM, nptr)
    else strtoll_result (hd s = CHR ''-'') (dec_val (takeWhile is_digit body))
      (dropWhile is_digit body) (x, e, rest)"
proof -
  let ?neg = "hd s = CHR ''-''" and ?ds = "takeWhile is_digit body" and ?rest = "dropWhile is_digit body"
  have core: "my_strtoll10_core nptr s = (if body = [] then (0, MY_ERRNO_EDOM, nptr)
      else case read_number ?neg (err_of ?neg) body of None \<Rightarrow> (0, MY_ERRNO_EDOM, nptr) | Some r \<Rightarrow> r)"
    by (simp only: my_strtoll10_core_def body Let_def err_of_def)
  show ?thesis
  proof (cases "?ds = []")
    case True
    then have "body = [] \<or> \<not> is_digit (hd body)" by (cases body) auto
    with True r show ?thesis by (auto simp: core read_number_no_digit split: if_splits)
  next
    case False
    have "stops ?rest" using hd_dropWhile [of is_digit body] by auto
    moreover have "list_all is_digit ?ds" by (auto simp: list_all_iff dest: set_takeWhileD)
    ultimately obtain q where "read_number ?neg (err_of ?neg) (?ds @ ?rest) = Some q"
        "strtoll_result ?neg (dec_val ?ds) ?rest q"
      using read_number_spec [OF _ _ False, of ?rest ?neg] by blast
    moreover have "body \<noteq> []" using False by auto
    ultimately show ?thesis using False r by (simp add: core)
  qed
qed

lemma strtoll_result_iff:
  "strtoll_result neg v rest (x, e, s) \<longleftrightarrow>
     (x, e) = strtoll_value neg v \<and> (e = MY_ERRNO_ERANGE \<or> s = rest)"
  by (auto simp: strtoll_result_def)

lemma strtoll_value_not_EDOM: "strtoll_value neg v \<noteq> (x, MY_ERRNO_EDOM)"
  by (auto simp: strtoll_value_def split: if_splits)

lemma strtoll_ref_blank:
  assumes "dropWhile blank nptr = []"
  shows "strtoll_ref nptr = (0, MY_ERRNO_EDOM)"
proof -
  have "number_body nptr = []" unfolding number_body_def assms by simp
  then show ?thesis by (simp add: strtoll_ref_def)
qed

lemma my_strtoll10_facts:
  assumes "my_strtoll10 nptr = (x, e, rest)"
  shows "(x, e) = strtoll_ref nptr
    \<and> (e = MY_ERRNO_EDOM \<longrightarrow> rest = nptr)
    \<and> (e = MY_ERRNO_OK \<or> e = MY_ERRNO_NEGATIVE \<longrightarrow> rest = dropWhile is_digit (number_body nptr))"
proof (cases "dropWhile blank nptr = []")
  case True
  then show ?thesis
    using assms strtoll_ref_blank [OF True] by (simp add: my_strtoll10_def del: dropWhile_eq_Nil_conv)
next
  case False
  let ?s = "dropWhile blank nptr"
  have "my_strtoll10_core nptr ?s = (x, e, rest)"
    using assms False by (simp add: my_strtoll10_def Let_def del: dropWhile_eq_Nil_conv)
  moreover have "number_body nptr = (if hd ?s = CHR ''-'' \<or> hd ?s = CHR ''+'' then tl ?s else ?s)"
    using False by (simp add: number_body_def)
  moreover have neg: "number_negative nptr = (hd ?s = CHR ''-'')"
    using False by (simp add: number_negative_def)
  ultimately have spec: "if takeWhile is_digit (number_body nptr) = []
    then (x, e, rest) = (0, MY_ERRNO_EDOM, nptr)
    else strtoll_result (number_negative nptr) (dec_val (takeWhile is_digit (number_body nptr)))
      (dropWhile is_digit (number_body nptr)) (x, e, rest)"
    unfolding neg by (intro strtoll_core_spec [OF False])
  show ?thesis
  proof (cases "takeWhile is_digit (number_body nptr) = []")
    case True
    with spec show ?thesis by (simp add: strtoll_ref_def)
  next
    case more: False
    with spec have "(x, e) = strtoll_ref nptr" and "e = MY_ERRNO_ERANGE \<or> rest = dropWhile is_digit (number_body nptr)"
      by (simp_all add: strtoll_ref_def strtoll_result_iff Let_def)
    moreover have "e \<noteq> MY_ERRNO_EDOM"
      using more spec strtoll_value_not_EDOM by (metis strtoll_result_iff)
    ultimately show ?thesis by auto
  qed
qed

text \<open>
  C26: \<open>my_strtoll10\<close>, which reads nine digits at a time, returns for every text what reading the
  digits one by one gives: after blanks and a sign, the value of all digits that follow when it
  fits (64 bits unsigned without a minus sign, down to \<open>- 2 ^ 63\<close> with one), with the rest of the
  text after the last digit; the end of the range and \<open>ERANGE\<close> when it does not fit, whatever the
  number of digits; 0 and \<open>EDOM\<close> with the text itself when there is no digit.
\<close>

theorem my_strtoll10_correct:
  assumes "my_strtoll10 nptr = (x, e, rest)"
  shows "(x, e) = strtoll_ref nptr
    \<and> (e = MY_ERRNO_EDOM \<longrightarrow> rest = nptr)
    \<and> (e = MY_ERRNO_OK \<or> e = MY_ERRNO_NEGATIVE \<longrightarrow> rest = dropWhile is_digit (number_body nptr))"
  using assms by (rule my_strtoll10_facts)

lemma takeWhile_NUL: "takeWhile is_digit (s @ [CHR 0x00]) = takeWhile is_digit s"
proof -
  have "\<not> is_digit (CHR 0x00)" by (simp add: digit_of_def)
  then show ?thesis by (induction s) simp_all
qed

text \<open>
  Without a limit, \<open>my_strtoll10\<close> of a NUL-terminated text of less than 65535 characters
  returns the same value and error as the reference.
\<close>

theorem my_strtoll10_nul_correct:
  assumes "length nptr < 65535"
  shows "(case my_strtoll10_nul nptr of (x, e, rest) \<Rightarrow> (x, e)) = strtoll_ref nptr"
proof (cases "dropWhile blank nptr = []")
  case True
  then show ?thesis
    using strtoll_ref_blank [OF True] by (simp add: my_strtoll10_nul_def del: dropWhile_eq_Nil_conv)
next
  case False
  let ?s = "dropWhile blank nptr"
  have "length (?s @ [CHR 0x00]) \<le> 65535"
    using assms length_dropWhile_le [of blank nptr] by simp
  then have r: "my_strtoll10_nul nptr = my_strtoll10_core nptr (?s @ [CHR 0x00])"
    using False
    by (simp add: my_strtoll10_nul_def Let_def del: length_append dropWhile_eq_Nil_conv take_append)
  obtain x e rest where xe: "my_strtoll10_core nptr (?s @ [CHR 0x00]) = (x, e, rest)"
    by (cases "my_strtoll10_core nptr (?s @ [CHR 0x00])")
  have "takeWhile is_digit (if hd ?s = CHR ''-'' \<or> hd ?s = CHR ''+'' then tl (?s @ [CHR 0x00]) else ?s @ [CHR 0x00])
      = takeWhile is_digit (number_body nptr)"
    using False by (simp add: number_body_def takeWhile_NUL tl_append2)
  moreover have "number_negative nptr = (hd ?s = CHR ''-'')"
    using False by (simp add: number_negative_def)
  ultimately show ?thesis
    using strtoll_core_spec [OF _ refl xe] False
    by (simp add: r xe strtoll_ref_def strtoll_result_iff split: if_splits)
qed

section \<open>Round trip\<close>

lemma digit_of_dig_vec_10: "d < 10 \<Longrightarrow> digit_of (dig_vec_10 ! d) = d"
proof -
  assume "d < 10"
  then have "d \<in> {0, 1, 2, 3, 4, 5, 6, 7, 8, 9}" by auto
  then show ?thesis by (auto simp: dig_vec_10_eq digit_of_def)
qed

lemma num_str_digits:
  "list_all is_digit (num_str dig_vec_10 10 n) \<and> dec_val (num_str dig_vec_10 10 n) = n
   \<and> num_str dig_vec_10 10 n \<noteq> []"
proof (induction n rule: less_induct)
  case (less n)
  show ?case
  proof (cases "n < 10")
    case True
    then show ?thesis by (simp add: num_str.simps [of _ 10 n] digit_of_dig_vec_10)
  next
    case False
    then show ?thesis
      using less [of "n div 10"] digit_of_dig_vec_10 [of "n mod 10"]
      by (simp add: num_str.simps [of _ 10 n] dec_from_append)
  qed
qed

lemma num_str_upper: "num_str dig_vec_upper 10 n = num_str dig_vec_10 10 n"
proof (induction n rule: less_induct)
  case (less n)
  have "dig_vec_upper ! d = dig_vec_10 ! d" if "d < 10" for d
  proof -
    have "d \<in> {0, 1, 2, 3, 4, 5, 6, 7, 8, 9}" using that by auto
    then show ?thesis by (auto simp: dig_vec_10_eq dig_vec_upper_def)
  qed
  then show ?case
    using less [of "n div 10"] by (simp add: num_str.simps [of _ 10 n])
qed

lemma is_digit_not_sign: "is_digit c \<Longrightarrow> c \<noteq> CHR ''-'' \<and> c \<noteq> CHR ''+'' \<and> \<not> blank c"
  by (auto simp: digit_of_def)

lemma strtoll_ref_digits:
  assumes "list_all is_digit ds" "ds \<noteq> []"
  shows "strtoll_ref ds = strtoll_value False (dec_val ds)"
    "strtoll_ref (CHR ''-'' # ds) = strtoll_value True (dec_val ds)"
proof -
  have tw: "takeWhile is_digit ds = ds"
    using assms(1) by (simp add: list_all_iff)
  obtain c cs where ds: "ds = c # cs" using assms(2) by (cases ds) auto
  then have "c \<noteq> CHR ''-'' \<and> c \<noteq> CHR ''+'' \<and> \<not> blank c"
    using is_digit_not_sign [of c] assms(1) by simp
  then show "strtoll_ref ds = strtoll_value False (dec_val ds)"
    using tw by (simp add: strtoll_ref_def number_body_def number_negative_def ds)
  show "strtoll_ref (CHR ''-'' # ds) = strtoll_value True (dec_val ds)"
    using assms(2) by (simp add: strtoll_ref_def number_body_def number_negative_def Let_def tw)
qed

text \<open>
  Printing a \<open>longlong\<close> in decimal and reading it back gives the value, for every value from
  \<open>- 2 ^ 63\<close> to \<open>2 ^ 63 - 1\<close>; printed as an unsigned number it comes back as the same 64 bits.
\<close>

theorem longlong_str_roundtrip:
  assumes "- (2 ^ 63) \<le> x" "x < 2 ^ 63"
  shows "fst (my_strtoll10 (longlong10_to_str x (- 10))) = x
    \<and> fst (snd (my_strtoll10 (longlong10_to_str x (- 10)))) = err_of (x < 0)
    \<and> fst (my_strtoll10 (longlong10_to_str x 10)) = x"
proof -
  have val: "(fst (my_strtoll10 s), fst (snd (my_strtoll10 s))) = strtoll_ref s" for s
    using my_strtoll10_facts [of s] by (cases "my_strtoll10 s") simp
  have print: "longlong10_to_str x (- 10) = signed_str dig_vec_10 10 x"
      "longlong10_to_str x 10 = num_str dig_vec_10 10 (ulonglong_of x)"
    using longlong10_to_str_eq [OF assms] by (simp_all add: signed_str_def num_str_upper)
  have "strtoll_ref (longlong10_to_str x (- 10)) = (x, err_of (x < 0))"
    using assms strtoll_ref_digits [of "num_str dig_vec_10 10 (nat \<bar>x\<bar>)"]
      num_str_digits [of "nat \<bar>x\<bar>"]
    by (auto simp: print signed_str_def strtoll_value_def err_of_def s64_id nat_le_iff)
  moreover have "strtoll_ref (longlong10_to_str x 10) = (x, MY_ERRNO_OK)"
  proof -
    have "s64 (int (ulonglong_of x)) = x"
      using assms by (simp add: s64_def ulonglong_of_def mod_simps)
    then show ?thesis
      using strtoll_ref_digits(1) [of "num_str dig_vec_10 10 (ulonglong_of x)"]
        num_str_digits [of "ulonglong_of x"] ulonglong_of_bound [of x]
      by (simp add: print strtoll_value_def)
  qed
  ultimately show ?thesis
    using val [of "longlong10_to_str x (- 10)"] val [of "longlong10_to_str x 10"] by simp
qed

section \<open>Applications\<close>

theorem int_to_str_witness:
  "int2str (- 255) (- 16) True = Some (signed_str dig_vec_upper 16 (- 255))
   \<and> signed_str dig_vec_upper 16 (- 255) = ''-FF''"
  using int_to_str_correct [of 16 "- 255" True 0 "''''"]
  by (simp add: signed_str_def num_str.simps [of _ 16 255] num_str.simps [of _ 16 15] dig_vec_upper_def)

theorem my_strtoll10_witness:
  "\<exists>rest. my_strtoll10 ''  -12ab'' = (- 12, MY_ERRNO_NEGATIVE, rest) \<and> rest = ''ab''"
proof -
  have "my_strtoll10 ''  -12ab'' = (- 12, MY_ERRNO_NEGATIVE, ''ab'')"
    by code_simp
  then show ?thesis
    using my_strtoll10_correct [of "''  -12ab''" "- 12" MY_ERRNO_NEGATIVE "''ab''"] by blast
qed

theorem my_strtoll10_nul_witness:
  "(case my_strtoll10_nul ''18446744073709551616'' of (x, e, rest) \<Rightarrow> (x, e)) = (- 1, MY_ERRNO_ERANGE)"
proof -
  have "strtoll_ref ''18446744073709551616'' = (- 1, MY_ERRNO_ERANGE)"
    by (simp add: strtoll_ref_def number_body_def number_negative_def digit_of_def
          strtoll_value_def s64_def)
  then show ?thesis using my_strtoll10_nul_correct [of "''18446744073709551616''"] by simp
qed

theorem longlong_str_roundtrip_witness:
  "fst (my_strtoll10 (longlong10_to_str (- (2 ^ 63)) (- 10))) = - (2 ^ 63)"
  using longlong_str_roundtrip [of "- (2 ^ 63)"] by simp

end
