(* ===== verification/Time_Str.thy ===== *)
theory Time_Str
  imports My_Time My_Ctype Int_Str
begin

text \<open>
  The text part of \<open>sql-common/my_time.c\<close>: printing dates and times (\<open>my_date_to_str\<close>,
  \<open>my_time_to_str\<close>, \<open>my_datetime_to_str\<close>, \<open>my_TIME_to_str\<close>, \<open>my_timeval_to_str\<close>) and the
  parsers \<open>str_to_datetime\<close> and \<open>str_to_time\<close>.  A pointer into the text is a position in the
  buffer that holds it; \<open>end\<close> is a position as well, and the buffer can go on behind it.  Behind
  the buffer a NUL character is read.
\<close>

section \<open>Printing: the model\<close>

text \<open>\<open>fmt_number\<close> writes the digits from the last to the first.\<close>

fun fmt_number :: "nat \<Rightarrow> nat \<Rightarrow> string" where
  "fmt_number val 0 = ''''"
| "fmt_number val (Suc digits) = fmt_number (val div 10) digits @ [char_of (48 + val mod 10)]"

definition sec_part_shift :: "nat \<Rightarrow> nat \<Rightarrow> nat" where
  "sec_part_shift usec digits =
     usec div log_10_int ! (TIME_SECOND_PART_DIGITS - digits)"

definition sec_digits :: "MYSQL_TIME \<Rightarrow> nat \<Rightarrow> nat" where
  "sec_digits t digits =
     (if digits = AUTO_SEC_PART_DIGITS then if second_part t \<noteq> 0 then TIME_SECOND_PART_DIGITS else 0
      else digits)"

definition fraction_str :: "nat \<Rightarrow> nat \<Rightarrow> string" where
  "fraction_str usec digits =
     (if digits \<noteq> 0 then ''.'' @ fmt_number (u32 (sec_part_shift usec digits)) digits else '''')"

definition my_time_to_str :: "MYSQL_TIME \<Rightarrow> nat \<Rightarrow> string" where
  "my_time_to_str t digits =
     (let d = (if year t \<noteq> 0 \<or> month t \<noteq> 0 then 0 else day t);
          h = u32 (d * 24 + hour t);
          digits = sec_digits t digits
      in (if neg t then ''-'' else '''')
         @ (if h > 99 then longlong10_to_str (int h) 10 else fmt_number h 2)
         @ '':'' @ fmt_number (minute t) 2 @ '':'' @ fmt_number (second t) 2
         @ fraction_str (second_part t) digits)"

definition my_date_to_str :: "MYSQL_TIME \<Rightarrow> string" where
  "my_date_to_str t = fmt_number (year t) 4 @ ''-'' @ fmt_number (month t) 2 @ ''-'' @ fmt_number (day t) 2"

definition my_datetime_to_str :: "MYSQL_TIME \<Rightarrow> nat \<Rightarrow> string" where
  "my_datetime_to_str t digits =
     (let digits = sec_digits t digits
      in fmt_number (year t) 4 @ ''-'' @ fmt_number (month t) 2 @ ''-'' @ fmt_number (day t) 2
         @ '' '' @ fmt_number (hour t) 2 @ '':'' @ fmt_number (minute t) 2 @ '':''
         @ fmt_number (second t) 2 @ fraction_str (second_part t) digits)"

definition my_TIME_to_str :: "MYSQL_TIME \<Rightarrow> nat \<Rightarrow> string" where
  "my_TIME_to_str t digits =
     (case time_type t of
        MYSQL_TIMESTAMP_DATETIME \<Rightarrow> my_datetime_to_str t digits
      | MYSQL_TIMESTAMP_DATE \<Rightarrow> my_date_to_str t
      | MYSQL_TIMESTAMP_TIME \<Rightarrow> my_time_to_str t digits
      | MYSQL_TIMESTAMP_NONE \<Rightarrow> ''''
      | MYSQL_TIMESTAMP_ERROR \<Rightarrow> '''')"

definition my_timeval_to_str :: "int \<Rightarrow> nat \<Rightarrow> nat \<Rightarrow> string" where
  "my_timeval_to_str tv_sec tv_usec dec = longlong10_to_str tv_sec 10 @ fraction_str tv_usec dec"

section \<open>Parsing: the model\<close>

subsection \<open>Tokens\<close>

definition char_at :: "string \<Rightarrow> nat \<Rightarrow> char" where
  "char_at buf p = (if p < length buf then buf ! p else CHR 0x00)"

abbreviation digit_at :: "string \<Rightarrow> nat \<Rightarrow> bool" where
  "digit_at buf p \<equiv> my_isdigit (char_at buf p)"

definition digit_val :: "char \<Rightarrow> nat" where
  "digit_val c = of_char c - 48"

function number_loop :: "string \<Rightarrow> nat \<Rightarrow> nat \<Rightarrow> nat \<Rightarrow> nat \<times> nat" where
  "number_loop buf en s val =
     (if s < en \<and> digit_at buf s then number_loop buf en (s + 1) (u32 (val * 10 + digit_val (char_at buf s)))
      else (val, s))"
  by pat_completeness auto
termination
  by (relation "measure (\<lambda>(buf, en, s, val). en - s)") auto

text \<open>Returns the failure flag, the value, the number of fields and the position.\<close>

definition get_number :: "string \<Rightarrow> nat \<Rightarrow> nat \<Rightarrow> nat \<Rightarrow> nat \<Rightarrow> bool \<times> nat \<times> nat \<times> nat" where
  "get_number buf en val number_of_fields s =
     (if s \<ge> en then (False, val, number_of_fields, s)
      else if \<not> digit_at buf s then (True, val, number_of_fields, s)
      else case number_loop buf en (s + 1) (digit_val (char_at buf s)) of
             (val, s) \<Rightarrow> (False, val, u32 (number_of_fields + 1), s))"

definition get_digits ::
    "string \<Rightarrow> nat \<Rightarrow> nat \<Rightarrow> nat \<Rightarrow> nat \<Rightarrow> nat \<Rightarrow> bool \<times> nat \<times> nat \<times> nat" where
  "get_digits buf en len val number_of_fields s =
     get_number buf (min en (s + len)) val number_of_fields s"

function skip_while :: "(char \<Rightarrow> bool) \<Rightarrow> string \<Rightarrow> nat \<Rightarrow> nat \<Rightarrow> nat" where
  "skip_while P buf en s = (if s < en \<and> P (char_at buf s) then skip_while P buf en (s + 1) else s)"
  by pat_completeness auto
termination
  by (relation "measure (\<lambda>(P, buf, en, s). en - s)") auto

text \<open>\<open>skip_digits\<close>: the new position; the count is the difference.\<close>

definition skip_digits :: "string \<Rightarrow> nat \<Rightarrow> nat \<Rightarrow> nat" where
  "skip_digits buf en s = skip_while my_isdigit buf en s"

text \<open>
  The loop \<open>do s++; while (my_isspace(*s))\<close> of \<open>get_date_time_separator\<close>, which does not look at
  \<open>end\<close>: it stops at the end of the buffer at the latest, where a NUL is read.
\<close>

function space_loop :: "string \<Rightarrow> nat \<Rightarrow> nat" where
  "space_loop buf s = (if s < length buf \<and> my_isspace (char_at buf s) then space_loop buf (s + 1) else s)"
  by pat_completeness auto
termination
  by (relation "measure (\<lambda>(buf, s). length buf - s)") auto

text \<open>
  The loop over the rest of the text, \<open>for (; str != end ; str++)\<close>: whether it meets a character
  that is not a space.  It is left with \<open>break\<close> at the NUL behind the buffer.
\<close>

function garbage_loop :: "string \<Rightarrow> nat \<Rightarrow> nat \<Rightarrow> bool" where
  "garbage_loop buf en s =
     (if s = en then False
      else if s \<ge> length buf \<or> \<not> my_isspace (char_at buf s) then True
      else garbage_loop buf en (s + 1))"
  by pat_completeness auto
termination
  by (relation "measure (\<lambda>(buf, en, s). length buf - s)") auto

declare number_loop.simps [simp del] skip_while.simps [simp del] space_loop.simps [simp del]
  garbage_loop.simps [simp del]

subsection \<open>The fields of a date\<close>

record scan =
  l_time :: MYSQL_TIME
  nfields :: nat
  pos :: nat

text \<open>A step of a chain \<open>a || b || ...\<close>: the failure flag and the new state.\<close>

type_synonym scan_step = "scan \<Rightarrow> bool \<times> scan"

fun or_chain :: "scan_step list \<Rightarrow> scan_step" where
  "or_chain [] st = (False, st)"
| "or_chain (f # fs) st = (case f st of (True, st) \<Rightarrow> (True, st) | (False, st) \<Rightarrow> or_chain fs st)"

definition number_into ::
    "string \<Rightarrow> nat \<Rightarrow> (MYSQL_TIME \<Rightarrow> nat) \<Rightarrow> (nat \<Rightarrow> MYSQL_TIME \<Rightarrow> MYSQL_TIME) \<Rightarrow> scan_step" where
  "number_into buf en fld set_fld st =
     (case get_number buf en (fld (l_time st)) (nfields st) (pos st) of
        (rc, v, n, p) \<Rightarrow> (rc, \<lparr>l_time = set_fld v (l_time st), nfields = n, pos = p\<rparr>))"

definition digits_into ::
    "string \<Rightarrow> nat \<Rightarrow> nat \<Rightarrow> (MYSQL_TIME \<Rightarrow> nat) \<Rightarrow> (nat \<Rightarrow> MYSQL_TIME \<Rightarrow> MYSQL_TIME) \<Rightarrow> scan_step" where
  "digits_into buf en len fld set_fld st =
     (case get_digits buf en len (fld (l_time st)) (nfields st) (pos st) of
        (rc, v, n, p) \<Rightarrow> (rc, \<lparr>l_time = set_fld v (l_time st), nfields = n, pos = p\<rparr>))"

definition get_punct :: "string \<Rightarrow> nat \<Rightarrow> scan_step" where
  "get_punct buf en st =
     (if pos st \<ge> en then (False, st)
      else if my_ispunct (char_at buf (pos st)) then (False, st\<lparr>pos := pos st + 1\<rparr>)
      else (True, st))"

definition get_date_time_separator :: "ulonglong \<Rightarrow> string \<Rightarrow> nat \<Rightarrow> scan_step" where
  "get_date_time_separator flags buf en st =
     (let s = pos st; c = char_at buf s in
      if s \<ge> en then (False, st)
      else if c = CHR ''T'' then (False, st\<lparr>pos := s + 1\<rparr>)
      else if my_ispunct c then
        if flag_set flags TIME_DATETIME_ONLY then (True, st\<lparr>nfields := 0\<rparr>)
        else (False, st\<lparr>pos := s + 1\<rparr>)
      else if \<not> my_isspace c then (True, st)
      else (False, st\<lparr>pos := space_loop buf (s + 1)\<rparr>))"

definition get_maybe_T :: "string \<Rightarrow> nat \<Rightarrow> scan_step" where
  "get_maybe_T buf en st =
     (False, if pos st < en \<and> char_at buf (pos st) = CHR ''T'' then st\<lparr>pos := pos st + 1\<rparr> else st)"

abbreviation "set_year \<equiv> \<lambda>v. year_update (\<lambda>_. v)"
abbreviation "set_month \<equiv> \<lambda>v. month_update (\<lambda>_. v)"
abbreviation "set_day \<equiv> \<lambda>v. day_update (\<lambda>_. v)"
abbreviation "set_hour \<equiv> \<lambda>v. hour_update (\<lambda>_. v)"
abbreviation "set_minute \<equiv> \<lambda>v. minute_update (\<lambda>_. v)"
abbreviation "set_second \<equiv> \<lambda>v. second_update (\<lambda>_. v)"

text \<open>
  \<open>[YY]YYMMDD[T][hhmmss]\<close>: whether it failed, the state and the length of the year.
\<close>

definition internal_format :: "string \<Rightarrow> nat \<Rightarrow> nat \<Rightarrow> scan_step" where
  "internal_format buf en year_length =
     or_chain [digits_into buf en year_length year set_year, digits_into buf en 2 month set_month,
       digits_into buf en 2 day set_day, get_maybe_T buf en, digits_into buf en 2 hour set_hour,
       digits_into buf en 2 minute set_minute, digits_into buf en 2 second set_second]"

text \<open>The fields after the year, with punctuation between them.\<close>

definition delimited_format :: "ulonglong \<Rightarrow> string \<Rightarrow> nat \<Rightarrow> scan_step" where
  "delimited_format flags buf en =
     or_chain [get_punct buf en, number_into buf en month set_month,
       get_punct buf en, number_into buf en day set_day, get_date_time_separator flags buf en,
       number_into buf en hour set_hour, get_punct buf en, number_into buf en minute set_minute,
       get_punct buf en, number_into buf en second set_second]"

subsection \<open>\<open>str_to_datetime\<close>\<close>

record MYSQL_TIME_STATUS =
  warnings :: nat
  precision :: nat

definition my_time_status_init :: MYSQL_TIME_STATUS where
  "my_time_status_init = \<lparr>warnings = 0, precision = 0\<rparr>"

definition warn :: "nat \<Rightarrow> MYSQL_TIME_STATUS \<Rightarrow> MYSQL_TIME_STATUS" where
  "warn w status = status\<lparr>warnings := warnings status OR w\<rparr>"

text \<open>Returns the microseconds, the status, the number of fields and the position.\<close>

definition get_microseconds ::
    "string \<Rightarrow> nat \<Rightarrow> MYSQL_TIME_STATUS \<Rightarrow> nat \<Rightarrow> nat \<Rightarrow> nat \<times> MYSQL_TIME_STATUS \<times> nat \<times> nat" where
  "get_microseconds buf en status number_of_fields start =
     (case get_digits buf en 6 0 number_of_fields start of
        (rc, tmp, n, s) \<Rightarrow>
          let status = (if rc then warn MYSQL_TIME_WARN_TRUNCATED status else status);
              status = status\<lparr>precision := s - start\<rparr>;
              val = (if precision status < 6 then u64 (tmp * log_10_int ! (6 - (s - start))) else tmp);
              s' = skip_digits buf en s
          in (val, if s' - s \<noteq> 0 then warn MYSQL_TIME_NOTE_TRUNCATED status else status, n, s'))"

text \<open>
  The position after the digits of the first part, with what \<open>T\<close> and a fraction add to it, and
  the number of digits.
\<close>

definition first_part :: "string \<Rightarrow> nat \<Rightarrow> nat \<Rightarrow> nat \<times> nat" where
  "first_part buf en str =
     (let p = skip_digits buf en str; digits = p - str;
          t = p < en \<and> char_at buf p = CHR ''T'';
          p' = (if t then skip_digits buf en (p + 1) else p);
          digits = (if t then digits + (p' - (p + 1)) else digits);
          q = (if p' < en \<and> char_at buf p' = CHR ''.'' \<and> digits \<ge> 12
               then skip_digits buf en (p' + 1) else p')
      in (q, digits))"

text \<open>
  The fields, by either format: the state, the status and the length of the year.  The value
  starts as zero, and so does the number of fields.
\<close>

definition date_fields ::
    "ulonglong \<Rightarrow> string \<Rightarrow> nat \<Rightarrow> nat \<Rightarrow> MYSQL_TIME_STATUS \<Rightarrow> scan \<times> MYSQL_TIME_STATUS \<times> nat" where
  "date_fields flags buf en str status =
     (let st = \<lparr>l_time = zero_TIME, nfields = 0, pos = str\<rparr>; (p, digits) = first_part buf en str in
      if p = en then
        let year_length = (if digits = 4 \<or> digits = 8 \<or> digits \<ge> 14 then 4 else 2);
            (rc, st) = internal_format buf en year_length st
        in (st, if rc then warn MYSQL_TIME_WARN_TRUNCATED status else status, year_length)
      else
        let (rc, st) = number_into buf en year set_year st;
            status = (if rc then warn MYSQL_TIME_WARN_TRUNCATED status else status);
            year_length = pos st - str;
            (rc, st) = (if warnings status = 0 then delimited_format flags buf en st else (False, st))
        in (st, if rc then warn MYSQL_TIME_WARN_TRUNCATED status else status, year_length))"

definition error_TIME :: MYSQL_TIME where
  "error_TIME = zero_TIME\<lparr>time_type := MYSQL_TIMESTAMP_ERROR\<rparr>"

definition not_zero_date :: "MYSQL_TIME \<Rightarrow> bool" where
  "not_zero_date t \<longleftrightarrow> year t \<noteq> 0 \<or> month t \<noteq> 0 \<or> day t \<noteq> 0 \<or> hour t \<noteq> 0 \<or> minute t \<noteq> 0
     \<or> second t \<noteq> 0 \<or> second_part t \<noteq> 0"

text \<open>
  From the fraction on: two-digit years, the checks, the type and the characters that are left.
  Returns the error flag, the value and the status.
\<close>

definition finish_date ::
    "ulonglong \<Rightarrow> string \<Rightarrow> nat \<Rightarrow> nat \<Rightarrow> scan \<Rightarrow> MYSQL_TIME_STATUS \<Rightarrow> bool \<times> MYSQL_TIME \<times> MYSQL_TIME_STATUS" where
  "finish_date flags buf en year_length st status =
     (let t = l_time st; nz = not_zero_date t;
          t = (if year_length = 2 \<and> nz
               then t\<lparr>year := u32 (year t + (if year t < YY_PART_YEAR then 2000 else 1900))\<rparr> else t)
      in if year t > 9999 \<or> month t > 12 \<or> day t > 31 \<or> hour t > 23 \<or> minute t > 59 \<or> second t > 59
         then (True, error_TIME, warn MYSQL_TIME_WARN_TRUNCATED status)
         else case check_date t nz flags (warnings status) of
                (True, w) \<Rightarrow> (True, error_TIME, status\<lparr>warnings := w\<rparr>)
              | (False, w) \<Rightarrow>
                  (False,
                   t\<lparr>time_type := if nfields st \<le> 3 then MYSQL_TIMESTAMP_DATE else MYSQL_TIMESTAMP_DATETIME\<rparr>,
                   if garbage_loop buf en (pos st)
                   then status\<lparr>warnings := MYSQL_TIME_WARN_TRUNCATED\<rparr> else status\<lparr>warnings := w\<rparr>))"

text \<open>\<open>str_to_datetime\<close> after the test of \<open>TIME_TIME_ONLY\<close>.\<close>

definition str_to_datetime_body ::
    "string \<Rightarrow> nat \<Rightarrow> nat \<Rightarrow> ulonglong \<Rightarrow> bool \<times> MYSQL_TIME \<times> MYSQL_TIME_STATUS" where
  "str_to_datetime_body buf str en flags =
     (let status = my_time_status_init; str = skip_while my_isspace buf en str in
      if str = en \<or> \<not> digit_at buf str then
        (True, zero_TIME\<lparr>time_type := MYSQL_TIMESTAMP_NONE\<rparr>,
         status\<lparr>warnings := MYSQL_TIME_WARN_TRUNCATED\<rparr>)
      else
        case date_fields flags buf en str status of
          (st, status, year_length) \<Rightarrow>
            if nfields st < 3 then
              (True, (l_time st)\<lparr>time_type := MYSQL_TIMESTAMP_NONE\<rparr>,
               warn MYSQL_TIME_WARN_TRUNCATED status)
            else
              let (st, status) =
                (if warnings status = 0 \<and> pos st < en \<and> char_at buf (pos st) = CHR ''.'' then
                   case get_microseconds buf en status (nfields st) (pos st + 1) of
                     (v, status, n, p) \<Rightarrow>
                       (\<lparr>l_time = (l_time st)\<lparr>second_part := v\<rparr>, nfields = n, pos = p\<rparr>, status)
                 else (st, status))
              in finish_date flags buf en year_length st status)"

subsection \<open>\<open>str_to_time\<close>\<close>

function value_loop :: "string \<Rightarrow> nat \<Rightarrow> nat \<Rightarrow> nat \<Rightarrow> nat \<times> nat" where
  "value_loop buf en s v =
     (if s \<noteq> en \<and> s < length buf \<and> digit_at buf s
      then value_loop buf en (s + 1) (u64 (v * 10 + digit_val (char_at buf s))) else (v, s))"
  by pat_completeness auto
termination
  by (relation "measure (\<lambda>(buf, en, s, v). length buf - s)") auto

text \<open>
  Hours, minutes and seconds from entry \<open>state\<close> of \<open>date\<close> on; the loop is entered with
  \<open>state\<close> 1 or 2 and left when it is 4.
\<close>

function hms_loop :: "string \<Rightarrow> nat \<Rightarrow> nat \<Rightarrow> nat list \<Rightarrow> nat \<Rightarrow> nat list \<times> nat \<times> nat" where
  "hms_loop buf en s date state =
     (case value_loop buf en s 0 of (v, s) \<Rightarrow>
        let date = date[state := v]; state = state + 1 in
        if state \<ge> 4 \<or> en - s < 2 \<or> char_at buf s \<noteq> CHR '':'' \<or> \<not> digit_at buf (s + 1)
        then (date, state, s)
        else hms_loop buf en (s + 1) date state)"
  by pat_completeness auto
termination
  by (relation "measure (\<lambda>(buf, en, s, date, state). 4 - state)") auto

declare value_loop.simps [simp del] hms_loop.simps [simp del]

text \<open>
  The three forms of a time: days and hours, hours, or one number \<open>HHMMSS\<close>.  \<open>date\<close> and the
  position.  After a loop left before the seconds the entries from \<open>state\<close> on are cleared (days
  or hours were found, so the other branch, which assumes seconds, is not taken).
\<close>

definition time_fields :: "string \<Rightarrow> nat \<Rightarrow> nat \<Rightarrow> nat list \<times> nat" where
  "time_fields buf en str =
     (case value_loop buf en str 0 of (v, end_of_days) \<Rightarrow>
        let s = skip_while my_isspace buf en end_of_days;
            read = (\<lambda>s date state.
              case hms_loop buf en s date state of (date, state, s) \<Rightarrow>
                (map (\<lambda>i. if state \<le> i \<and> i < 4 then 0 else date ! i) [0..<5], s))
        in if en - s > 1 \<and> s \<noteq> end_of_days \<and> digit_at buf s then read s [v, 0, 0, 0, 0] 1
           else if en - s > 1 \<and> char_at buf s = CHR '':'' \<and> digit_at buf (s + 1)
           then read (s + 1) [0, v, 0, 0, 0] 2
           else ([0, v div 10000, v div 100 mod 100, v mod 100, 0], s))"

definition exponent_at :: "string \<Rightarrow> nat \<Rightarrow> nat \<Rightarrow> bool" where
  "exponent_at buf en s \<longleftrightarrow>
     en - s > 1 \<and> (char_at buf s = CHR ''e'' \<or> char_at buf s = CHR ''E'')
     \<and> (digit_at buf (s + 1)
        \<or> ((char_at buf (s + 1) = CHR ''-'' \<or> char_at buf (s + 1) = CHR ''+'')
           \<and> en - s > 2 \<and> digit_at buf (s + 2)))"

definition UINT_MAX :: nat where "UINT_MAX = 2 ^ 32 - 1"

text \<open>From the fraction on.  The days are mixed into the hours, an \<open>unsigned int\<close>.\<close>

definition finish_time ::
    "string \<Rightarrow> nat \<Rightarrow> bool \<Rightarrow> nat list \<Rightarrow> nat \<Rightarrow> bool \<times> MYSQL_TIME \<times> MYSQL_TIME_STATUS" where
  "finish_time buf en ng date s =
     (let status = my_time_status_init;
          (usec, status, s) =
            (if s < en \<and> char_at buf s = CHR ''.'' then
               case get_microseconds buf en status 0 (s + 1) of (v, status, n, s) \<Rightarrow> (v, status, s)
             else (0, status, s));
          date = date[4 := usec]
      in if exponent_at buf en s then (True, error_TIME, warn MYSQL_TIME_WARN_TRUNCATED status)
         else if \<exists>i < 5. date ! i > UINT_MAX then
           (True, error_TIME, warn MYSQL_TIME_WARN_OUT_OF_RANGE status)
         else
           case check_time_range
             \<lparr>year = 0, month = 0, day = 0, hour = u32 (u64 (date ! 1 + u64 (date ! 0 * 24))),
              minute = date ! 2, second = date ! 3, second_part = date ! 4, neg = ng,
              time_type = MYSQL_TIMESTAMP_TIME\<rparr> 6 (warnings status) of
             (True, t, w) \<Rightarrow> (True, t, status\<lparr>warnings := w\<rparr>)
           | (False, t, w) \<Rightarrow>
               (False, t, (if garbage_loop buf en s then warn MYSQL_TIME_WARN_TRUNCATED else id)
                  (status\<lparr>warnings := w\<rparr>)))"

definition str_to_time ::
    "string \<Rightarrow> nat \<Rightarrow> nat \<Rightarrow> ulonglong \<Rightarrow> bool \<times> MYSQL_TIME \<times> MYSQL_TIME_STATUS" where
  "str_to_time buf str en fuzzydate =
     (let str = skip_while my_isspace buf en str;
          ng = (str \<noteq> en \<and> char_at buf str = CHR ''-'');
          str = (if ng then str + 1 else str)
      in if str = en then (True, error_TIME, warn MYSQL_TIME_WARN_TRUNCATED my_time_status_init)
         else
           let dt = str_to_datetime_body buf str en
                 ((fuzzydate AND NOT TIME_TIME_ONLY) OR TIME_DATETIME_ONLY);
               ty = time_type (fst (snd dt))
           in if en - str \<ge> 12 \<and> ty \<noteq> MYSQL_TIMESTAMP_NONE
              then (ty = MYSQL_TIMESTAMP_ERROR, snd dt)
              else case time_fields buf en str of (date, s) \<Rightarrow> finish_time buf en ng date s)"

text \<open>
  \<open>str_to_time\<close> calls \<open>str_to_datetime\<close> with \<open>TIME_TIME_ONLY\<close> cleared, so only the part after
  the test of this flag runs there, and the two do not call each other any further.
\<close>

definition str_to_datetime ::
    "string \<Rightarrow> nat \<Rightarrow> ulonglong \<Rightarrow> bool \<times> MYSQL_TIME \<times> MYSQL_TIME_STATUS" where
  "str_to_datetime buf len flags =
     (if flag_set flags TIME_TIME_ONLY then str_to_time buf 0 len flags
      else str_to_datetime_body buf 0 len flags)"

section \<open>Soundness of the parsers\<close>

lemma log_10_int_nth: "k \<le> 6 \<Longrightarrow> log_10_int ! k = 10 ^ k"
proof -
  assume "k \<le> 6"
  then have "k \<in> {0, 1, 2, 3, 4, 5, 6}" by auto
  then show ?thesis by (auto simp: log_10_int_def)
qed

lemma digit_val_le: "my_isdigit c \<Longrightarrow> digit_val c \<le> 9"
  by (auto simp: my_isdigit_iff digit_val_def)

lemma number_loop_bound:
  assumes "number_loop buf en s v = (v', s')" "v < 10 ^ k"
  shows "s \<le> s' \<and> s' \<le> max s en \<and> v' < 10 ^ (k + (s' - s))"
  using assms
proof (induction buf en s v arbitrary: k rule: number_loop.induct)
  case (1 buf en s v)
  show ?case
  proof (cases "s < en \<and> digit_at buf s")
    case True
    let ?v = "u32 (v * 10 + digit_val (char_at buf s))"
    have "v * 10 + digit_val (char_at buf s) < 10 ^ Suc k"
      using 1(3) digit_val_le [of "char_at buf s"] True by simp
    then have v: "?v < 10 ^ Suc k"
      using mod_less_eq_dividend [of "v * 10 + digit_val (char_at buf s)" "2 ^ 32"]
      unfolding u32_def by linarith
    have loop: "number_loop buf en (s + 1) ?v = (v', s')"
      using 1(2) True number_loop.simps [of buf en s v] by simp
    have b: "s + 1 \<le> s' \<and> s' \<le> max (s + 1) en \<and> v' < 10 ^ (Suc k + (s' - (s + 1)))"
      using 1(1) [OF True loop v] .
    then have e: "Suc k + (s' - (s + 1)) = k + (s' - s)" by linarith
    show ?thesis using b True unfolding e by auto
  next
    case False
    then have "v' = v" "s' = s"
      using 1(2) by (auto simp: number_loop.simps [of buf en s v] split: if_splits)
    then show ?thesis using 1(3) by simp
  qed
qed

lemma get_number_bound:
  assumes "get_number buf en x n s = (rc, v, n', s')" "s < en" "digit_at buf s"
  shows "\<not> rc \<and> s < s' \<and> s' \<le> en \<and> v < 10 ^ (s' - s)"
proof -
  obtain v1 s1 where loop: "number_loop buf en (s + 1) (digit_val (char_at buf s)) = (v1, s1)"
    by (cases "number_loop buf en (s + 1) (digit_val (char_at buf s))")
  have "digit_val (char_at buf s) < 10 ^ 1" using digit_val_le [OF assms(3)] by simp
  from number_loop_bound [OF loop this] have b: "s + 1 \<le> s1 \<and> s1 \<le> max (s + 1) en \<and> v1 < 10 ^ (1 + (s1 - (s + 1)))" .
  have "rc = False" "v = v1" "s' = s1"
    using assms loop by (auto simp: get_number_def)
  moreover have e: "1 + (s1 - (s + 1)) = s1 - s" using b by linarith
  ultimately show ?thesis using b assms(2) unfolding e by auto
qed

lemma get_number_failed:
  "get_number buf en x n s = (rc, v, n', s') \<Longrightarrow> \<not> (s < en \<and> digit_at buf s) \<Longrightarrow> v = x \<and> s' = s"
  by (auto simp: get_number_def split: if_splits)

lemma get_microseconds_bound:
  assumes "get_microseconds buf en status n s = (v, status', n', s')"
  shows "v \<le> 999999"
proof -
  obtain rc tmp n1 s1 where g: "get_number buf (min en (s + 6)) 0 n s = (rc, tmp, n1, s1)"
    by (cases "get_number buf (min en (s + 6)) 0 n s")
  have b: "tmp < 10 ^ (s1 - s) \<and> s1 - s \<le> 6"
  proof (cases "s < min en (s + 6) \<and> digit_at buf s")
    case True
    then show ?thesis using get_number_bound [OF g] by auto
  next
    case False
    then show ?thesis using get_number_failed [OF g] by simp
  qed
  have "v = (if s1 - s < 6 then u64 (tmp * log_10_int ! (6 - (s1 - s))) else tmp)"
    using assms g by (auto simp: get_microseconds_def get_digits_def Let_def)
  moreover have "tmp * 10 ^ (6 - (s1 - s)) < 10 ^ (s1 - s) * 10 ^ (6 - (s1 - s))"
    using b by simp
  moreover have "(10 :: nat) ^ (s1 - s) * 10 ^ (6 - (s1 - s)) = 10 ^ 6"
    using b by (simp flip: power_add)
  moreover have "u64 x \<le> x" for x by (simp add: u64_def)
  ultimately show ?thesis
    using b by (auto simp: log_10_int_nth intro: order_trans split: if_splits)
qed

lemma or_chain_invariant:
  assumes "\<And>f st rc st'. f \<in> set fs \<Longrightarrow> P st \<Longrightarrow> f st = (rc, st') \<Longrightarrow> P st'"
    and "P st" "or_chain fs st = (rc, st')"
  shows "P st'"
  using assms
proof (induction fs arbitrary: st)
  case (Cons f fs)
  obtain r st1 where f: "f st = (r, st1)" by (cases "f st")
  then have "P st1" using Cons.prems(1) [of f st r st1] Cons.prems(2) by simp
  moreover have "(rc, st') = (r, st1) \<or> or_chain fs st1 = (rc, st')"
    using Cons.prems(3) f by (cases r) auto
  moreover have "P st'" if "or_chain fs st1 = (rc, st')"
    using Cons.IH [OF _ \<open>P st1\<close> that] Cons.prems(1) by (meson list.set_intros(2))
  ultimately show ?case by auto
qed simp

text \<open>What the steps after the year leave alone.\<close>

definition same_rest :: "MYSQL_TIME \<Rightarrow> MYSQL_TIME \<Rightarrow> bool" where
  "same_rest t0 t \<longleftrightarrow> year t = year t0 \<and> second_part t = second_part t0 \<and> neg t = neg t0
     \<and> time_type t = time_type t0"

lemma delimited_same_rest:
  assumes "delimited_format flags buf en st = (rc, st')"
  shows "same_rest (l_time st) (l_time st')"
proof (rule or_chain_invariant [where P = "\<lambda>x. same_rest (l_time st) (l_time x)"])
  show "same_rest (l_time st) (l_time st)" by (simp add: same_rest_def)
  show "or_chain [get_punct buf en, number_into buf en month set_month,
       get_punct buf en, number_into buf en day set_day, get_date_time_separator flags buf en,
       number_into buf en hour set_hour, get_punct buf en, number_into buf en minute set_minute,
       get_punct buf en, number_into buf en second set_second] st = (rc, st')"
    using assms by (simp only: delimited_format_def)
qed (auto simp: same_rest_def number_into_def get_punct_def get_date_time_separator_def Let_def
      split: prod.splits if_splits)

lemma internal_same_rest:
  assumes "internal_format buf en k st = (rc, st')"
  shows "(\<lambda>t. second_part t = second_part (l_time st) \<and> neg t = neg (l_time st)
    \<and> time_type t = time_type (l_time st)) (l_time st')
    \<and> (k = 2 \<longrightarrow> year (l_time st) < 100 \<longrightarrow> year (l_time st') < 100)"
proof -
  obtain rc1 st1 where f: "digits_into buf en k year set_year st = (rc1, st1)"
    by (cases "digits_into buf en k year set_year st")
  have year: "year (l_time st1) < 100" if k: "k = 2" "year (l_time st) < 100"
  proof -
    obtain v n p where g: "get_number buf (min en (pos st + k)) (year (l_time st)) (nfields st) (pos st) = (rc1, v, n, p)"
        "st1 = \<lparr>l_time = set_year v (l_time st), nfields = n, pos = p\<rparr>"
      using f by (auto simp: digits_into_def get_digits_def split: prod.splits)
    show ?thesis
    proof (cases "pos st < min en (pos st + k) \<and> digit_at buf (pos st)")
      case True
      then have "v < 10 ^ (p - pos st)" "p \<le> pos st + 2" using get_number_bound [OF g(1)] k by auto
      moreover have "(10 :: nat) ^ (p - pos st) \<le> 10 ^ 2"
        using \<open>p \<le> pos st + 2\<close> by (intro power_increasing) auto
      ultimately show ?thesis by (simp add: g(2))
    next
      case False
      then show ?thesis using get_number_failed [OF g(1)] g(2) k by simp
    qed
  qed
  have first: "second_part (l_time st1) = second_part (l_time st) \<and> neg (l_time st1) = neg (l_time st)
      \<and> time_type (l_time st1) = time_type (l_time st)"
    using f by (auto simp: digits_into_def split: prod.splits)
  show ?thesis
  proof (cases rc1)
    case True
    then show ?thesis using assms f first year by (auto simp: internal_format_def)
  next
    case False
    have "same_rest (l_time st1) (l_time st')"
    proof (rule or_chain_invariant [where P = "\<lambda>x. same_rest (l_time st1) (l_time x)"])
      show "same_rest (l_time st1) (l_time st1)" by (simp add: same_rest_def)
      show "or_chain [digits_into buf en 2 month set_month,
       digits_into buf en 2 day set_day, get_maybe_T buf en, digits_into buf en 2 hour set_hour,
       digits_into buf en 2 minute set_minute, digits_into buf en 2 second set_second] st1 = (rc, st')"
        using assms f False by (simp add: internal_format_def)
    qed (auto simp: same_rest_def digits_into_def get_maybe_T_def split: prod.splits if_splits)
    then show ?thesis using first year by (auto simp: same_rest_def)
  qed
qed

lemma number_into_year:
  assumes "number_into buf en year set_year st = (rc, st')"
  shows "second_part (l_time st') = second_part (l_time st) \<and> neg (l_time st') = neg (l_time st)
    \<and> time_type (l_time st') = time_type (l_time st)
    \<and> (pos st' - pos st = 2 \<longrightarrow> year (l_time st) < 100 \<longrightarrow> year (l_time st') < 100)"
proof -
  obtain v n p where g: "get_number buf en (year (l_time st)) (nfields st) (pos st) = (rc, v, n, p)"
      "st' = \<lparr>l_time = set_year v (l_time st), nfields = n, pos = p\<rparr>"
    using assms by (auto simp: number_into_def split: prod.splits)
  have "v < 100" if "p - pos st = 2"
  proof (cases "pos st < en \<and> digit_at buf (pos st)")
    case True
    then have "v < 10 ^ (p - pos st)" using get_number_bound [OF g(1)] by simp
    then show ?thesis using that by simp
  next
    case False
    then show ?thesis using get_number_failed [OF g(1)] that by simp
  qed
  then show ?thesis by (simp add: g(2))
qed

lemma date_fields_rest:
  assumes "date_fields flags buf en str status = (st, status', yl)"
  shows "second_part (l_time st) = 0 \<and> \<not> neg (l_time st) \<and> time_type (l_time st) = MYSQL_TIMESTAMP_DATE
    \<and> (yl = 2 \<longrightarrow> year (l_time st) < 100)"
proof -
  let ?st = "\<lparr>l_time = zero_TIME, nfields = 0, pos = str\<rparr>"
  obtain p digits where f: "first_part buf en str = (p, digits)" by (cases "first_part buf en str")
  have zero: "second_part zero_TIME = 0" "\<not> neg zero_TIME" "year zero_TIME = 0"
      "time_type zero_TIME = MYSQL_TIMESTAMP_DATE"
    by (simp_all add: zero_TIME_def)
  show ?thesis
  proof (cases "p = en")
    case True
    then obtain rc where i: "internal_format buf en yl ?st = (rc, st)"
      using assms f by (auto simp: date_fields_def Let_def split: prod.splits)
    show ?thesis using internal_same_rest [OF i] zero by simp
  next
    case False
    obtain rc1 st1 where n: "number_into buf en year set_year ?st = (rc1, st1)"
      by (cases "number_into buf en year set_year ?st")
    have "(\<exists>rc. delimited_format flags buf en st1 = (rc, st)) \<or> st = st1"
      using assms f False n by (auto simp: date_fields_def Let_def split: prod.splits if_splits)
    then have "same_rest (l_time st1) (l_time st)"
      using delimited_same_rest by (auto simp: same_rest_def)
    moreover have "yl = pos st1 - str"
      using assms f False n by (auto simp: date_fields_def Let_def split: prod.splits if_splits)
    ultimately show ?thesis
      using number_into_year [OF n] zero by (auto simp: same_rest_def)
  qed
qed

lemma check_date_cong:
  assumes "year t = year t'" "month t = month t'" "day t = day t'" "neg t = neg t'"
    and "time_type t = MYSQL_TIMESTAMP_TIME \<longleftrightarrow> time_type t' = MYSQL_TIMESTAMP_TIME"
  shows "check_date t nz flags w = check_date t' nz flags w"
  using assms by (simp add: check_date_def)

lemma check_date_fst: "fst (check_date t nz flags w) = fst (check_date t nz flags w')"
  by (auto simp: check_date_def)

text \<open>A value the date parser may return.\<close>

definition good_date :: "ulonglong \<Rightarrow> MYSQL_TIME \<Rightarrow> bool" where
  "good_date flags t \<longleftrightarrow> \<not> check_datetime_range t \<and> \<not> neg t
     \<and> (time_type t = MYSQL_TIMESTAMP_DATE \<or> time_type t = MYSQL_TIMESTAMP_DATETIME)
     \<and> \<not> fst (check_date t (not_zero_date t) flags 0)"

lemma finish_date_good:
  assumes "finish_date flags buf en yl st status = (False, t, status')"
    and "second_part (l_time st) \<le> 999999" "\<not> neg (l_time st)"
      "time_type (l_time st) = MYSQL_TIMESTAMP_DATE" "yl = 2 \<longrightarrow> year (l_time st) < 100"
  shows "good_date flags t"
proof -
  define u where "u = (if yl = 2 \<and> not_zero_date (l_time st)
    then (l_time st)\<lparr>year := u32 (year (l_time st) + (if year (l_time st) < YY_PART_YEAR then 2000 else 1900))\<rparr>
    else l_time st)"
  let ?ty = "if nfields st \<le> 3 then MYSQL_TIMESTAMP_DATE else MYSQL_TIMESTAMP_DATETIME"
  have u: "second_part u = second_part (l_time st)" "neg u = neg (l_time st)"
      "time_type u = time_type (l_time st)"
    by (simp_all add: u_def)
  have nz: "not_zero_date u = not_zero_date (l_time st)"
    using assms(5) by (auto simp: u_def not_zero_date_def)
  have fin: "finish_date flags buf en yl st status =
     (if year u > 9999 \<or> month u > 12 \<or> day u > 31 \<or> hour u > 23 \<or> minute u > 59 \<or> second u > 59
         then (True, error_TIME, warn MYSQL_TIME_WARN_TRUNCATED status)
         else case check_date u (not_zero_date u) flags (warnings status) of
                (True, w) \<Rightarrow> (True, error_TIME, status\<lparr>warnings := w\<rparr>)
              | (False, w) \<Rightarrow>
                  (False, u\<lparr>time_type := ?ty\<rparr>,
                   if garbage_loop buf en (pos st)
                   then status\<lparr>warnings := MYSQL_TIME_WARN_TRUNCATED\<rparr> else status\<lparr>warnings := w\<rparr>))"
    unfolding finish_date_def Let_def nz unfolding u_def ..
  have t: "t = u\<lparr>time_type := ?ty\<rparr>" and range: "year u \<le> 9999" "month u \<le> 12" "day u \<le> 31"
      "hour u \<le> 23" "minute u \<le> 59" "second u \<le> 59"
    and ok: "\<not> fst (check_date u (not_zero_date u) flags (warnings status))"
    using assms(1) unfolding fin by (auto split: if_splits prod.splits bool.splits)
  have "check_date t (not_zero_date u) flags 0 = check_date u (not_zero_date u) flags 0"
    by (rule check_date_cong) (simp_all add: t u assms(4))
  moreover have "not_zero_date t = not_zero_date u" by (simp add: t not_zero_date_def)
  ultimately show ?thesis
    using range ok check_date_fst [of u "not_zero_date u" flags "warnings status" 0] assms(2,3)
    by (simp add: good_date_def t check_datetime_range_def u TIME_MAX_SECOND_PART_def)
qed

lemma str_to_datetime_body_good:
  assumes "str_to_datetime_body buf str en flags = (err, t, status)"
  shows "if err then time_type t = MYSQL_TIMESTAMP_NONE \<or> t = error_TIME else good_date flags t"
proof -
  let ?str = "skip_while my_isspace buf en str"
  obtain st1 status1 yl where d: "date_fields flags buf en ?str my_time_status_init = (st1, status1, yl)"
    by (cases "date_fields flags buf en ?str my_time_status_init")
  consider (none) "err" "time_type t = MYSQL_TIMESTAMP_NONE"
    | (fin) st2 status2 where "finish_date flags buf en yl st2 status2 = (err, t, status)"
      "st2 = st1 \<or> (\<exists>v n p. get_microseconds buf en status1 (nfields st1) (pos st1 + 1) = (v, status2, n, p)
         \<and> st2 = \<lparr>l_time = (l_time st1)\<lparr>second_part := v\<rparr>, nfields = n, pos = p\<rparr>)"
    using assms d by (auto simp: str_to_datetime_body_def Let_def split: if_splits prod.splits)
  then show ?thesis
  proof cases
    case none
    then show ?thesis by simp
  next
    case fin
    have "second_part (l_time st2) \<le> 999999" "\<not> neg (l_time st2)"
      "time_type (l_time st2) = MYSQL_TIMESTAMP_DATE" "yl = 2 \<longrightarrow> year (l_time st2) < 100"
      using fin(2) date_fields_rest [OF d] get_microseconds_bound by auto
    moreover have "t = error_TIME" if err
      using fin(1) that by (auto simp: finish_date_def Let_def split: if_splits prod.splits bool.splits)
    ultimately show ?thesis
      using finish_date_good fin(1) by (cases err) auto
  qed
qed

text \<open>A value the time parser may return for a time.\<close>

definition good_time :: "MYSQL_TIME \<Rightarrow> bool" where
  "good_time t \<longleftrightarrow> \<not> check_datetime_range t \<and> time_type t = MYSQL_TIMESTAMP_TIME
     \<and> year t = 0 \<and> month t = 0 \<and> day t = 0"

lemma check_time_range_good:
  assumes "check_time_range t 6 w = (False, t', w')" "second_part t \<le> 999999"
    and "time_type t = MYSQL_TIMESTAMP_TIME" "year t = 0" "month t = 0" "day t = 0" "hour t < 2 ^ 32"
  shows "good_time t'"
  using assms
  by (auto simp: check_time_range_def good_time_def check_datetime_range_def time_consts
        AUTO_SEC_PART_DIGITS_def max_sec_part_def Let_def split: if_splits)

lemma length_time_fields: "time_fields buf en str = (date, s) \<Longrightarrow> length date = 5"
  by (auto simp: time_fields_def Let_def split: prod.splits if_splits)

lemma finish_time_good:
  assumes "finish_time buf en ng date s = (False, t, status)" "length date = 5"
  shows "good_time t"
proof -
  define u where "u = (if s < en \<and> char_at buf s = CHR ''.''
    then fst (get_microseconds buf en my_time_status_init 0 (s + 1)) else 0)"
  have usec: "u \<le> 999999"
    using get_microseconds_bound [of buf en my_time_status_init 0 "s + 1"]
    by (cases "get_microseconds buf en my_time_status_init 0 (s + 1)") (auto simp: u_def)
  let ?t = "\<lparr>year = 0, month = 0, day = 0,
      hour = u32 (u64 (date[4 := u] ! 1 + u64 (date[4 := u] ! 0 * 24))),
      minute = date[4 := u] ! 2, second = date[4 := u] ! 3, second_part = date[4 := u] ! 4, neg = ng,
      time_type = MYSQL_TIMESTAMP_TIME\<rparr>"
  obtain w w' where "check_time_range ?t 6 w = (False, t, w')"
    using assms(1) by (auto simp: finish_time_def Let_def u_def split: if_splits prod.splits bool.splits)
  then show ?thesis
    by (rule check_time_range_good)
      (use usec assms(2) u32_less [of "u64 (date ! 1 + u64 (date ! 0 * 24))"] in simp_all)
qed

lemma flag_set_bit: "flag_set flags (2 ^ k) \<longleftrightarrow> k < 64 \<and> bit flags k"
  by (auto simp: flag_set_def and_exp_eq_0_iff_not_bit dest: bit_imp_le_length)

lemma datetime_flags:
  defines "flags' \<equiv> \<lambda>flags. (flags AND NOT TIME_TIME_ONLY) OR TIME_DATETIME_ONLY"
  shows "flag_set (flags' flags) TIME_NO_ZERO_IN_DATE = flag_set flags TIME_NO_ZERO_IN_DATE"
    "flag_set (flags' flags) TIME_NO_ZERO_DATE = flag_set flags TIME_NO_ZERO_DATE"
    "flag_set (flags' flags) TIME_INVALID_DATES = flag_set flags TIME_INVALID_DATES"
    "flag_set (flags' flags) TIME_DATETIME_ONLY"
proof -
  have pow: "TIME_TIME_ONLY = 2 ^ 2" "TIME_DATETIME_ONLY = 2 ^ 1"
    by (simp_all add: TIME_TIME_ONLY_def TIME_DATETIME_ONLY_def)
  have "bit TIME_TIME_ONLY k = (k = 2)" "bit TIME_DATETIME_ONLY k = (k = 1)" for k
    unfolding pow bit_exp_iff by auto
  then have bit: "bit (flags' flags) k = (k < 64 \<and> (bit flags k \<and> k \<noteq> 2 \<or> k = 1))" for k
    by (auto simp: flags'_def bit_or_iff bit_and_iff bit_not_iff dest: bit_imp_le_length)
  show "flag_set (flags' flags) TIME_NO_ZERO_IN_DATE = flag_set flags TIME_NO_ZERO_IN_DATE"
    "flag_set (flags' flags) TIME_NO_ZERO_DATE = flag_set flags TIME_NO_ZERO_DATE"
    "flag_set (flags' flags) TIME_INVALID_DATES = flag_set flags TIME_INVALID_DATES"
    unfolding TIME_NO_ZERO_IN_DATE_def TIME_NO_ZERO_DATE_def TIME_INVALID_DATES_def flag_set_bit bit
    by simp_all
  show "flag_set (flags' flags) TIME_DATETIME_ONLY"
    unfolding pow(2) flag_set_bit bit by simp
qed

lemma good_date_flags:
  "good_date ((flags AND NOT TIME_TIME_ONLY) OR TIME_DATETIME_ONLY) t = good_date flags t"
  by (simp add: good_date_def check_date_def datetime_flags)

lemma str_to_time_good:
  assumes "str_to_time buf str en flags = (False, t, status)"
  shows "good_time t \<or> good_date flags t"
proof -
  let ?s = "skip_while my_isspace buf en str"
  let ?ng = "?s \<noteq> en \<and> char_at buf ?s = CHR ''-''"
  let ?p = "if ?ng then ?s + 1 else ?s"
  let ?flags = "(flags AND NOT TIME_TIME_ONLY) OR TIME_DATETIME_ONLY"
  obtain err dt dstatus where d: "str_to_datetime_body buf ?p en ?flags = (err, dt, dstatus)"
    by (cases "str_to_datetime_body buf ?p en ?flags")
  obtain date q where f: "time_fields buf en ?p = (date, q)"
    by (cases "time_fields buf en ?p")
  have "t = dt \<and> time_type dt \<noteq> MYSQL_TIMESTAMP_NONE \<and> time_type dt \<noteq> MYSQL_TIMESTAMP_ERROR
    \<or> finish_time buf en ?ng date q = (False, t, status)"
    using assms d f unfolding str_to_time_def Let_def
    by (cases "?p = en"; cases "en - ?p \<ge> 12 \<and> time_type dt \<noteq> MYSQL_TIMESTAMP_NONE") auto
  then show ?thesis
  proof
    assume t: "t = dt \<and> time_type dt \<noteq> MYSQL_TIMESTAMP_NONE \<and> time_type dt \<noteq> MYSQL_TIMESTAMP_ERROR"
    then have "good_date ?flags dt"
      using str_to_datetime_body_good [OF d] by (auto simp: error_TIME_def split: if_splits)
    then show ?thesis using t good_date_flags by simp
  next
    assume "finish_time buf en ?ng date q = (False, t, status)"
    then show ?thesis using finish_time_good length_time_fields [OF f] by blast
  qed
qed

text \<open>
  C20: whatever text it is given, \<open>str_to_datetime\<close> returns success only with a value in range: a
  date or datetime that is not negative and that \<open>check_date\<close> accepts under the given flags, or,
  only when times are asked for, a time of at most 838 hours without a date part.  When a date is
  asked for and refused the value is marked as none or is zero and marked as an error.
\<close>

theorem str_to_datetime_sound:
  assumes "str_to_datetime buf len flags = (err, t, status)"
  shows "(\<not> err \<longrightarrow> good_date flags t \<or> good_time t \<and> flag_set flags TIME_TIME_ONLY)
    \<and> (err \<and> \<not> flag_set flags TIME_TIME_ONLY \<longrightarrow>
        time_type t = MYSQL_TIMESTAMP_NONE \<or> t = error_TIME)"
  using assms str_to_datetime_body_good [of buf 0 len flags] str_to_time_good [of buf 0 len flags]
  by (cases err) (auto simp: str_to_datetime_def split: if_splits)

section \<open>Printing and parsing\<close>

subsection \<open>Printed numbers\<close>

lemma length_fmt_number [simp]: "length (fmt_number v k) = k"
  by (induction k arbitrary: v) auto

lemma fmt_number_Cons:
  "fmt_number v (Suc k) = char_of (48 + v div 10 ^ k mod 10) # fmt_number v k"
proof (induction k arbitrary: v)
  case (Suc k)
  have "fmt_number v (Suc (Suc k)) = fmt_number (v div 10) (Suc k) @ [char_of (48 + v mod 10)]"
    by simp
  also have "\<dots> = char_of (48 + v div 10 div 10 ^ k mod 10) # fmt_number (v div 10) k @ [char_of (48 + v mod 10)]"
    unfolding Suc by simp
  also have "v div 10 div 10 ^ k = v div 10 ^ Suc k"
    by (simp add: div_mult2_eq)
  finally show ?case by simp
qed simp

lemma digit_char:
  assumes "d < 10"
  shows "my_isdigit (char_of (48 + d))" "digit_val (char_of (48 + d)) = d"
proof -
  have "(48 + d) mod 256 = 48 + d" using assms by simp
  then have "of_char (char_of (48 + d) :: char) = 48 + d" by (simp only: of_char_of)
  with assms show "my_isdigit (char_of (48 + d))" "digit_val (char_of (48 + d)) = d"
    by (simp_all add: my_isdigit_iff digit_val_def)
qed

lemma at_drop:
  assumes "drop s buf = c # cs"
  shows "char_at buf s = c" "drop (s + 1) buf = cs" "s < length buf"
proof -
  show "s < length buf" using assms by (metis drop_all list.distinct(1) not_le)
  then have "drop s buf = buf ! s # drop (Suc s) buf" by (simp add: Cons_nth_drop_Suc)
  then show "char_at buf s = c" "drop (s + 1) buf = cs"
    using assms \<open>s < length buf\<close> by (simp_all add: char_at_def)
qed

lemma drop_fmt: "drop s buf = fmt_number v k @ rest \<Longrightarrow> drop (s + k) buf = rest"
proof -
  assume "drop s buf = fmt_number v k @ rest"
  then have "drop k (drop s buf) = rest" by simp
  then show ?thesis by (simp add: add.commute)
qed

abbreviation ends_at :: "nat \<Rightarrow> nat \<Rightarrow> string \<Rightarrow> bool" where
  "ends_at s en rest \<equiv> s = en \<or> s < en \<and> rest \<noteq> [] \<and> \<not> my_isdigit (hd rest)"

lemma mod_digit_step: "acc * 10 ^ Suc k + v mod 10 ^ Suc k =
    (acc * 10 + v div 10 ^ k mod 10) * 10 ^ k + v mod (10 :: nat) ^ k"
proof -
  have "v mod 10 ^ Suc k = v div 10 ^ k mod 10 * 10 ^ k + v mod 10 ^ k"
    using mod_mult2_eq [of v "10 ^ k" 10] by (simp add: mult.commute)
  then show ?thesis by (simp add: algebra_simps)
qed

lemma ends_not_digit:
  assumes "drop s buf = rest" "ends_at s en rest"
  shows "\<not> (s < en \<and> digit_at buf s)"
proof (cases rest)
  case Nil
  then show ?thesis using assms by auto
next
  case (Cons c cs)
  then have "char_at buf s = c" using at_drop(1) assms(1) by simp
  then show ?thesis using assms(2) Cons by auto
qed

lemma number_loop_fmt:
  assumes "drop s buf = fmt_number v k @ rest" "s + k \<le> en" "ends_at (s + k) en rest"
    and "(acc + 1) * 10 ^ k \<le> 2 ^ 32"
  shows "number_loop buf en s acc = (acc * 10 ^ k + v mod 10 ^ k, s + k)"
  using assms
proof (induction k arbitrary: s acc)
  case 0
  then have "\<not> (s < en \<and> digit_at buf s)" using ends_not_digit [of s buf rest en] by simp
  then show ?case by (auto simp: number_loop.simps [of buf en s acc])
next
  case (Suc k)
  let ?d = "v div 10 ^ k mod 10"
  have at: "char_at buf s = char_of (48 + ?d)" "drop (s + 1) buf = fmt_number v k @ rest"
    using Suc.prems(1) at_drop unfolding fmt_number_Cons by simp_all
  have d: "my_isdigit (char_of (48 + ?d))" "digit_val (char_of (48 + ?d)) = ?d"
    by (rule digit_char; simp)+
  have "(acc * 10 + ?d + 1) * 10 ^ k \<le> ((acc + 1) * 10) * 10 ^ k"
  proof (rule mult_le_mono1)
    have "acc * 10 + x + 1 \<le> (acc + 1) * 10" if "x < 10" for x
      using that by simp
    then show "acc * 10 + ?d + 1 \<le> (acc + 1) * 10" by simp
  qed
  also have "\<dots> \<le> 2 ^ 32" using Suc.prems(4) by (simp add: algebra_simps)
  finally have bound: "(acc * 10 + ?d + 1) * 10 ^ k \<le> 2 ^ 32" .
  have "x * 1 \<le> x * 10 ^ k" for x :: nat by (rule mult_le_mono2) simp
  then have "acc * 10 + ?d + 1 \<le> (acc * 10 + ?d + 1) * 10 ^ k" by (metis mult_1_right)
  with bound have small: "acc * 10 + ?d < 2 ^ 32" by linarith
  have "number_loop buf en s acc = number_loop buf en (s + 1) (acc * 10 + ?d)"
    using Suc.prems(2) at d small by (simp add: number_loop.simps [of buf en s acc])
  also have "\<dots> = ((acc * 10 + ?d) * 10 ^ k + v mod 10 ^ k, s + 1 + k)"
    using Suc.prems(2,3) at(2) bound by (intro Suc.IH) simp_all
  finally show ?case using mod_digit_step [of acc k v] by simp
qed

lemma get_number_fmt:
  assumes "drop s buf = fmt_number v k @ rest" "0 < k" "k \<le> 9" "v < 10 ^ k" "s + k \<le> en"
    and "ends_at (s + k) en rest"
  shows "get_number buf en x n s = (False, v, u32 (n + 1), s + k)"
proof -
  obtain j where k: "k = Suc j" using assms(2) by (cases k) auto
  let ?d = "v div 10 ^ j mod 10"
  have at: "char_at buf s = char_of (48 + ?d)" "drop (s + 1) buf = fmt_number v j @ rest"
    using assms(1) at_drop unfolding k fmt_number_Cons by simp_all
  have d: "my_isdigit (char_of (48 + ?d))" "digit_val (char_of (48 + ?d)) = ?d"
    by (rule digit_char; simp)+
  have "(?d + 1) * 10 ^ j \<le> 10 * 10 ^ j"
    by (rule mult_le_mono1) (simp add: Suc_le_eq)
  also have "\<dots> \<le> 10 ^ 9" using assms(3) unfolding k power_Suc [symmetric] by (intro power_increasing) auto
  finally have "number_loop buf en (s + 1) ?d = (?d * 10 ^ j + v mod 10 ^ j, s + 1 + j)"
    using assms(5,6) at(2) by (intro number_loop_fmt [where v = v and rest = rest]) (simp_all add: k)
  moreover have "?d * 10 ^ j + v mod 10 ^ j = v"
    using mod_digit_step [of 0 j v] assms(4) by (simp add: k)
  ultimately show ?thesis
    using assms(5) at d by (simp add: get_number_def k)
qed

lemma skip_while_stop: "\<not> (s < en \<and> P (char_at buf s)) \<Longrightarrow> skip_while P buf en s = s"
  by (auto simp: skip_while.simps)

lemma skip_digits_fmt:
  assumes "drop s buf = fmt_number v k @ rest" "s + k \<le> en" "ends_at (s + k) en rest"
  shows "skip_digits buf en s = s + k"
  using assms unfolding skip_digits_def
proof (induction k arbitrary: s)
  case 0
  then show ?case using ends_not_digit [of s buf rest en] by (simp add: skip_while_stop)
next
  case (Suc k)
  have at: "char_at buf s = char_of (48 + v div 10 ^ k mod 10)" "drop (s + 1) buf = fmt_number v k @ rest"
    using Suc.prems(1) at_drop unfolding fmt_number_Cons by simp_all
  have "my_isdigit (char_of (48 + v div 10 ^ k mod 10))" by (rule digit_char) simp
  then show ?case
    using Suc.IH [of "s + 1"] Suc.prems at by (simp add: skip_while.simps [of my_isdigit buf en s])
qed

subsection \<open>Dates\<close>

lemma punct_chars [simp]: "my_ispunct (CHR ''-'')" "my_ispunct (CHR '':'')" "my_ispunct (CHR ''.'')"
    "\<not> my_ispunct (CHR '' '')"
  by (simp_all add: my_ispunct_def ctype_of_def ctype_latin1_def)

lemma class_chars [simp]: "\<not> my_isdigit (CHR ''-'')" "\<not> my_isdigit (CHR '':'')"
    "\<not> my_isdigit (CHR ''.'')" "\<not> my_isdigit (CHR '' '')" "my_isspace (CHR '' '')"
    "\<not> my_isspace (CHR ''-'')"
  by (simp_all add: my_isdigit_iff my_isspace_iff)

lemma char_of_fmt:
  assumes "drop s buf = fmt_number v k @ rest" "0 < k"
  shows "digit_at buf s" "char_at buf s \<noteq> CHR ''T''" "char_at buf s \<noteq> CHR ''-''" "s < length buf"
proof -
  obtain j where k: "k = Suc j" using assms(2) by (cases k) auto
  have c: "char_at buf s = char_of (48 + v div 10 ^ j mod 10)" "s < length buf"
    using assms(1) at_drop unfolding k fmt_number_Cons by simp_all
  then show "s < length buf" by simp
  show d: "digit_at buf s" unfolding c by (rule digit_char) simp
  show "char_at buf s \<noteq> CHR ''T''" "char_at buf s \<noteq> CHR ''-''"
    using d by (auto simp: my_isdigit_iff)
qed

lemma space_loop_stop: "\<not> my_isspace (char_at buf s) \<Longrightarrow> space_loop buf s = s"
  by (auto simp: space_loop.simps)

lemma type_usec_swap:
  "t\<lparr>time_type := a, second_part := b\<rparr> = (t :: MYSQL_TIME)\<lparr>second_part := b, time_type := a\<rparr>"
  by (cases t) simp

lemma status_init: "warnings my_time_status_init = 0"
    "my_time_status_init\<lparr>precision := k\<rparr> = \<lparr>warnings = 0, precision = k\<rparr>"
    "\<lparr>warnings = 0, precision = 0\<rparr> = my_time_status_init"
  by (simp_all add: my_time_status_init_def)

lemma garbage_loop_end [simp]: "garbage_loop buf en en = False"
  by (simp add: garbage_loop.simps)

text \<open>The text of a date, and what parsing it up to the day leaves.\<close>

lemma parse_date_part:
  assumes buf: "drop 0 buf = fmt_number y 4 @ CHR ''-'' # r1" "r1 = fmt_number m 2 @ CHR ''-'' # r2"
      "r2 = fmt_number d 2 @ rest"
    and range: "y \<le> 9999" "m \<le> 99" "d \<le> 99" and en: "10 \<le> en" "ends_at 10 en rest"
  shows "get_number buf en v n 0 = (False, y, u32 (n + 1), 4)"
    "get_number buf en v n 5 = (False, m, u32 (n + 1), 7)"
    "get_number buf en v n 8 = (False, d, u32 (n + 1), 10)"
    "char_at buf 4 = CHR ''-''" "char_at buf 7 = CHR ''-''" "drop 10 buf = rest"
    "first_part buf en 0 = (4, 4)" "digit_at buf 0"
proof -
  have 4: "drop 4 buf = CHR ''-'' # r1" using drop_fmt [OF buf(1)] by simp
  have 5: "drop 5 buf = fmt_number m 2 @ CHR ''-'' # r2" using at_drop(2) [OF 4] buf(2) by simp
  have 7: "drop 7 buf = CHR ''-'' # r2" using drop_fmt [OF 5] by simp
  have 8: "drop 8 buf = fmt_number d 2 @ rest" using at_drop(2) [OF 7] buf(3) by simp
  show "get_number buf en v n 0 = (False, y, u32 (n + 1), 4)"
    using get_number_fmt [OF buf(1), of en v n] range en by simp
  show "get_number buf en v n 5 = (False, m, u32 (n + 1), 7)"
    using get_number_fmt [OF 5, of en v n] range en by simp
  show "get_number buf en v n 8 = (False, d, u32 (n + 1), 10)"
    using get_number_fmt [OF 8, of en v n] range en by simp
  show c: "char_at buf 4 = CHR ''-''" "char_at buf 7 = CHR ''-''" using at_drop(1) 4 7 by auto
  show "drop 10 buf = rest" using drop_fmt [OF 8] by simp
  have "skip_digits buf en 0 = 4" using skip_digits_fmt [OF buf(1)] en by simp
  then show "first_part buf en 0 = (4, 4)" using c by (simp add: first_part_def Let_def)
  show "digit_at buf 0" using char_of_fmt [OF buf(1)] by simp
qed

lemma parse_time_part:
  assumes buf: "drop 11 buf = fmt_number h 2 @ CHR '':'' # r1" "r1 = fmt_number mi 2 @ CHR '':'' # r2"
      "r2 = fmt_number se 2 @ rest"
    and range: "h \<le> 99" "mi \<le> 99" "se \<le> 99" and en: "19 \<le> en" "ends_at 19 en rest"
  shows "get_number buf en v n 11 = (False, h, u32 (n + 1), 13)"
    "get_number buf en v n 14 = (False, mi, u32 (n + 1), 16)"
    "get_number buf en v n 17 = (False, se, u32 (n + 1), 19)"
    "char_at buf 13 = CHR '':''" "char_at buf 16 = CHR '':''" "drop 19 buf = rest"
    "space_loop buf 11 = 11"
proof -
  have 13: "drop 13 buf = CHR '':'' # r1" using drop_fmt [OF buf(1)] by simp
  have 14: "drop 14 buf = fmt_number mi 2 @ CHR '':'' # r2" using at_drop(2) [OF 13] buf(2) by simp
  have 16: "drop 16 buf = CHR '':'' # r2" using drop_fmt [OF 14] by simp
  have 17: "drop 17 buf = fmt_number se 2 @ rest" using at_drop(2) [OF 16] buf(3) by simp
  show "get_number buf en v n 11 = (False, h, u32 (n + 1), 13)"
    using get_number_fmt [OF buf(1), of en v n] range en by simp
  show "get_number buf en v n 14 = (False, mi, u32 (n + 1), 16)"
    using get_number_fmt [OF 14, of en v n] range en by simp
  show "get_number buf en v n 17 = (False, se, u32 (n + 1), 19)"
    using get_number_fmt [OF 17, of en v n] range en by simp
  show "char_at buf 13 = CHR '':''" "char_at buf 16 = CHR '':''" using at_drop(1) 13 16 by auto
  show "drop 19 buf = rest" using drop_fmt [OF 17] by simp
  have "digit_at buf 11" using char_of_fmt [OF buf(1)] by simp
  then show "space_loop buf 11 = 11" by (simp add: space_loop_stop my_isdigit_not_space)
qed

lemma finish_date_accepts:
  assumes "\<not> check_datetime_range t" "\<not> neg t" "yl \<noteq> 2"
    and "time_type t = (if n \<le> 3 then MYSQL_TIMESTAMP_DATE else MYSQL_TIMESTAMP_DATETIME)"
    and "\<not> fst (check_date t (not_zero_date t) flags 0)"
  shows "finish_date flags buf en yl \<lparr>l_time = t\<lparr>time_type := MYSQL_TIMESTAMP_DATE\<rparr>, nfields = n, pos = en\<rparr>
      \<lparr>warnings = 0, precision = k\<rparr> = (False, t, \<lparr>warnings = 0, precision = k\<rparr>)"
proof -
  let ?u = "t\<lparr>time_type := MYSQL_TIMESTAMP_DATE\<rparr>"
  have range: "year t \<le> 9999" "month t \<le> 12" "day t \<le> 31" "hour t \<le> 23" "minute t \<le> 59" "second t \<le> 59"
    using assms(1,4) by (auto simp: check_datetime_range_def split: if_splits)
  have "check_date ?u (not_zero_date t) flags 0 = check_date t (not_zero_date t) flags 0"
    using assms(4) by (intro check_date_cong) auto
  moreover have "check_date t (not_zero_date t) flags 0 = (False, 0)"
    using assms(5) by (auto simp: check_date_def split: if_splits)
  moreover have "not_zero_date ?u = not_zero_date t" by (simp add: not_zero_date_def)
  ultimately show ?thesis
    using range assms(3) by (simp add: finish_date_def Let_def assms(4) [symmetric])
qed

lemma zero_TIME_fields:
  "zero_TIME\<lparr>year := y, month := m, day := d, hour := h, minute := mi, second := s, second_part := us\<rparr>
   = \<lparr>year = y, month = m, day = d, hour = h, minute = mi, second = s, second_part = us, neg = False,
      time_type = MYSQL_TIMESTAMP_DATE\<rparr>"
  by (simp add: zero_TIME_def)

text \<open>
  Parsing the text of a date gives the date back, without a warning, whatever is in the buffer
  behind it, when \<open>check_date\<close> accepts the date.
\<close>

theorem date_str_roundtrip:
  assumes "\<not> check_datetime_range t" "\<not> neg t" "time_type t = MYSQL_TIMESTAMP_DATE"
    and "hour t = 0" "minute t = 0" "second t = 0" "second_part t = 0"
    and "\<not> fst (check_date t (not_zero_date t) flags 0)" "\<not> flag_set flags TIME_TIME_ONLY"
  shows "str_to_datetime (my_TIME_to_str t digits @ tail) (length (my_TIME_to_str t digits)) flags =
    (False, t, my_time_status_init)"
proof -
  let ?buf = "my_date_to_str t @ tail"
  have range: "year t \<le> 9999" "month t \<le> 99" "day t \<le> 99"
    using assms(1) by (simp_all add: check_datetime_range_def)
  have same_type: "t\<lparr>time_type := MYSQL_TIMESTAMP_DATE\<rparr> = t" using assms(3) by (cases t) simp
  have len: "length (my_date_to_str t) = 10" by (simp add: my_date_to_str_def)
  have buf: "drop 0 ?buf = fmt_number (year t) 4 @ CHR ''-'' # fmt_number (month t) 2 @ CHR ''-''
      # fmt_number (day t) 2 @ tail"
    by (simp add: my_date_to_str_def)
  note parse = parse_date_part [OF buf refl refl range, of 10, simplified]
  have skip: "skip_while my_isspace ?buf 10 0 = 0"
    using parse(8) by (simp add: skip_while_stop my_isdigit_not_space)
  have past: "get_number ?buf 10 v n 10 = (False, v, n, 10)" for v n
    by (simp add: get_number_def)
  have fields: "date_fields flags ?buf 10 0 my_time_status_init =
      (\<lparr>l_time = t, nfields = 3, pos = 10\<rparr>, my_time_status_init, 4)"
    using parse past assms(2-7)
    by (simp add: date_fields_def delimited_format_def number_into_def get_punct_def
          get_date_time_separator_def my_time_status_init_def Let_def zero_TIME_def u32_def)
  have "str_to_datetime_body ?buf 0 10 flags =
      finish_date flags ?buf 10 4 \<lparr>l_time = t, nfields = 3, pos = 10\<rparr> my_time_status_init"
    using parse(8) by (simp add: str_to_datetime_body_def Let_def skip fields)
  also have "\<dots> = (False, t, my_time_status_init)"
    using finish_date_accepts [of t 4 3 flags ?buf 10 0] assms same_type
    by (simp add: my_time_status_init_def)
  finally show ?thesis
    using assms(3,9) len by (simp add: str_to_datetime_def my_TIME_to_str_def)
qed

subsection \<open>Fractions\<close>

text \<open>The microseconds that \<open>k\<close> digits of the fraction keep.\<close>

definition cut_usec :: "nat \<Rightarrow> nat \<Rightarrow> nat" where
  "cut_usec us k = us - us mod 10 ^ (6 - k)"

lemma sec_part_shift_eq: "k \<le> 6 \<Longrightarrow> sec_part_shift us k = us div 10 ^ (6 - k)"
  by (simp add: sec_part_shift_def log_10_int_nth TIME_SECOND_PART_DIGITS_def)

lemma sec_part_shift_bound:
  fixes us k :: nat
  assumes "us \<le> 999999" "k \<le> 6"
  shows "us div 10 ^ (6 - k) < 10 ^ k"
proof (rule less_mult_imp_div_less)
  have "(10 :: nat) ^ k * 10 ^ (6 - k) = 10 ^ 6"
    using assms(2) by (simp flip: power_add)
  then show "us < 10 ^ k * 10 ^ (6 - k)" using assms(1) by simp
qed

lemma get_microseconds_fmt:
  assumes "drop s buf = fmt_number (us div 10 ^ (6 - k)) k @ rest" "0 < k" "k \<le> 6" "us \<le> 999999"
  shows "get_microseconds buf (s + k) status n s =
    (cut_usec us k, status\<lparr>precision := k\<rparr>, u32 (n + 1), s + k)"
proof -
  let ?v = "us div 10 ^ (6 - k)"
  have v: "?v < 10 ^ k" using sec_part_shift_bound [OF assms(4,3)] .
  have "min (s + k) (s + 6) = s + k" using assms(3) by simp
  then have g: "get_digits buf (s + k) 6 0 n s = (False, ?v, u32 (n + 1), s + k)"
    using get_number_fmt [OF assms(1,2) _ v, of "s + k" 0 n] assms(3) by (simp add: get_digits_def)
  have cut: "?v * 10 ^ (6 - k) = cut_usec us k"
    by (simp add: cut_usec_def minus_mod_eq_div_mult)
  moreover have "cut_usec us k < 2 ^ 64" using assms(4) by (simp add: cut_usec_def)
  ultimately have "(if k < 6 then u64 (?v * log_10_int ! (6 - k)) else ?v) = cut_usec us k"
    using assms(3) by (auto simp: log_10_int_nth u64_def)
  moreover have "skip_digits buf (s + k) (s + k) = s + k"
    by (simp add: skip_digits_def skip_while_stop)
  ultimately show ?thesis
    by (auto simp: get_microseconds_def g Let_def)
qed

lemma fraction_str_eq:
  assumes "us \<le> 999999" "k \<le> 6"
  shows "fraction_str us k = (if k \<noteq> 0 then CHR ''.'' # fmt_number (us div 10 ^ (6 - k)) k else '''')"
proof -
  have "us < 2 ^ 32" using assms(1) by simp
  then have "us div 10 ^ (6 - k) < 2 ^ 32" by (rule le_less_trans [OF div_le_dividend])
  then show ?thesis using assms(2) by (simp add: fraction_str_def sec_part_shift_eq)
qed

lemma cut_usec_le: "cut_usec us k \<le> us"
  by (simp add: cut_usec_def)

lemma cut_usec_0: "us \<le> 999999 \<Longrightarrow> cut_usec us 0 = 0"
  by (simp add: cut_usec_def)

text \<open>
  C21: parsing the text of a datetime, printed with \<open>k\<close> digits of the fraction, gives the datetime
  back with its microseconds cut to these digits, without a warning, whatever is in the buffer
  behind the text, when \<open>check_date\<close> accepts the result.
\<close>

theorem datetime_str_roundtrip:
  assumes "\<not> check_datetime_range t" "\<not> neg t" "time_type t = MYSQL_TIMESTAMP_DATETIME" "k \<le> 6"
    and "t' = t\<lparr>second_part := cut_usec (second_part t) k\<rparr>"
    and "\<not> fst (check_date t' (not_zero_date t') flags 0)" "\<not> flag_set flags TIME_TIME_ONLY"
  shows "str_to_datetime (my_TIME_to_str t k @ tail) (length (my_TIME_to_str t k)) flags =
    (False, t', \<lparr>warnings = 0, precision = k\<rparr>)"
proof -
  let ?en = "19 + (if k = 0 then 0 else 1 + k)"
  let ?frac = "fraction_str (second_part t) k"
  define buf where "buf = my_datetime_to_str t k @ tail"
  have range: "year t \<le> 9999" "month t \<le> 99" "day t \<le> 99" "hour t \<le> 99" "minute t \<le> 99" "second t \<le> 99"
    and us: "second_part t \<le> 999999"
    using assms(1,3) by (simp_all add: check_datetime_range_def TIME_MAX_SECOND_PART_def)
  have k: "sec_digits t k = k" using assms(4) by (simp add: sec_digits_def AUTO_SEC_PART_DIGITS_def)
  have frac: "?frac = (if k \<noteq> 0 then CHR ''.'' # fmt_number (second_part t div 10 ^ (6 - k)) k else '''')"
    using fraction_str_eq [OF us assms(4)] .
  have len: "length (my_datetime_to_str t k) = ?en"
    by (simp add: my_datetime_to_str_def k frac)
  have b0: "drop 0 buf = fmt_number (year t) 4 @ CHR ''-'' # fmt_number (month t) 2 @ CHR ''-''
      # fmt_number (day t) 2 @ CHR '' '' # fmt_number (hour t) 2 @ CHR '':'' # fmt_number (minute t) 2
      @ CHR '':'' # fmt_number (second t) 2 @ ?frac @ tail"
    by (simp add: buf_def my_datetime_to_str_def k)
  note date = parse_date_part [OF b0 refl refl range(1-3), of ?en, simplified]
  have b11: "drop 11 buf = fmt_number (hour t) 2 @ CHR '':'' # fmt_number (minute t) 2
      @ CHR '':'' # fmt_number (second t) 2 @ ?frac @ tail"
    and c10: "char_at buf 10 = CHR '' ''"
    using at_drop [OF date(6)] by simp_all
  have e19: "ends_at 19 ?en (?frac @ tail)" by (simp add: frac)
  note time = parse_time_part [OF b11 refl refl range(4-6) _ e19, simplified]
  have skip: "skip_while my_isspace buf ?en 0 = 0"
    using date(8) by (simp add: skip_while_stop my_isdigit_not_space)
  let ?t0 = "t\<lparr>second_part := 0, time_type := MYSQL_TIMESTAMP_DATE\<rparr>"
  have fields: "date_fields flags buf ?en 0 my_time_status_init =
      (\<lparr>l_time = ?t0, nfields = 6, pos = 19\<rparr>, my_time_status_init, 4)"
    using date time c10 assms(2)
    by (simp add: date_fields_def delimited_format_def number_into_def get_punct_def
          get_date_time_separator_def my_time_status_init_def Let_def zero_TIME_def u32_def)
  have "str_to_datetime_body buf 0 ?en flags =
      finish_date flags buf ?en 4 \<lparr>l_time = t'\<lparr>time_type := MYSQL_TIMESTAMP_DATE\<rparr>,
        nfields = (if k = 0 then 6 else 7), pos = ?en\<rparr> \<lparr>warnings = 0, precision = k\<rparr>"
  proof (cases "k = 0")
    case True
    then show ?thesis
      using date(8) cut_usec_0 [OF us]
      by (simp add: str_to_datetime_body_def Let_def skip [unfolded True, simplified]
            fields [unfolded True, simplified] assms(5) status_init)
  next
    case False
    have c19: "char_at buf 19 = CHR ''.''"
      and b20: "drop 20 buf = fmt_number (second_part t div 10 ^ (6 - k)) k @ tail"
      using at_drop [OF time(6) [unfolded frac, simplified False, simplified]] by simp_all
    have "get_microseconds buf (20 + k) my_time_status_init 6 20 =
        (cut_usec (second_part t) k, my_time_status_init\<lparr>precision := k\<rparr>, 7, 20 + k)"
      using get_microseconds_fmt [OF b20 _ assms(4) us] False by (simp add: u32_def)
    then show ?thesis
      using date(8) False skip fields c19
      by (simp add: str_to_datetime_body_def Let_def assms(5) status_init type_usec_swap)
  qed
  also have "\<dots> = (False, t', \<lparr>warnings = 0, precision = k\<rparr>)"
  proof (rule finish_date_accepts)
    show "\<not> check_datetime_range t'"
      using assms(1,5) cut_usec_le [of "second_part t" k] by (auto simp: check_datetime_range_def)
  qed (use assms in simp_all)
  finally show ?thesis
    using assms(3,7) len by (simp add: str_to_datetime_def my_TIME_to_str_def buf_def)
qed

subsection \<open>Times\<close>

text \<open>The hours are printed with two digits, or as a number of three.\<close>

lemma hours_str:
  assumes "h \<le> 838"
  shows "(if h > 99 then longlong10_to_str (int h) 10 else fmt_number h 2) =
    fmt_number h (if h > 99 then 3 else 2)"
proof (cases "h > 99")
  case True
  have digit: "dig_vec_upper ! d = char_of (48 + d)" if "d < 10" for d :: nat
  proof -
    have "d \<in> {0, 1, 2, 3, 4, 5, 6, 7, 8, 9}" using that by auto
    then have "dig_vec_upper ! d = dig_vec_10 ! d" by (auto simp: dig_vec_10_eq dig_vec_upper_def)
    then show ?thesis using that by (simp add: dig_vec_10_def)
  qed
  have three: "h div 10 div 10 < 10" "\<not> h div 10 < 10"
    using less_mult_imp_div_less [of "h div 10" 10 10] less_mult_imp_div_less [of h 100 10]
      div_le_mono [of 100 h 10] True assms by simp_all
  have "longlong10_to_str (int h) 10 = num_str dig_vec_upper 10 h"
    using longlong10_to_str_eq(2) [of "int h"] assms by (simp add: ulonglong_of_nonneg)
  also have "\<dots> = fmt_number h 3"
    using True three digit [of "h div 10 div 10"] digit [of "h div 10 mod 10"] digit [of "h mod 10"]
    by (simp add: num_str.simps [of _ 10 h] num_str.simps [of _ 10 "h div 10"]
          num_str.simps [of _ 10 "h div 10 div 10"] numeral_3_eq_3)
  finally show ?thesis using True by simp
qed simp

lemma value_loop_fmt:
  assumes "drop s buf = fmt_number v k @ rest" "s + k \<le> en" "ends_at (s + k) en rest"
    and "(acc + 1) * 10 ^ k \<le> 2 ^ 64"
  shows "value_loop buf en s acc = (acc * 10 ^ k + v mod 10 ^ k, s + k)"
  using assms
proof (induction k arbitrary: s acc)
  case 0
  then have "\<not> (s < en \<and> digit_at buf s)" "s \<le> en" using ends_not_digit [of s buf rest en] by simp_all
  then show ?case by (auto simp: value_loop.simps [of buf en s acc])
next
  case (Suc k)
  let ?d = "v div 10 ^ k mod 10"
  have at: "char_at buf s = char_of (48 + ?d)" "drop (s + 1) buf = fmt_number v k @ rest" "s < length buf"
    using Suc.prems(1) at_drop unfolding fmt_number_Cons by simp_all
  have d: "my_isdigit (char_of (48 + ?d))" "digit_val (char_of (48 + ?d)) = ?d"
    by (rule digit_char; simp)+
  have "(acc * 10 + ?d + 1) * 10 ^ k \<le> ((acc + 1) * 10) * 10 ^ k"
  proof (rule mult_le_mono1)
    have "acc * 10 + x + 1 \<le> (acc + 1) * 10" if "x < 10" for x
      using that by simp
    then show "acc * 10 + ?d + 1 \<le> (acc + 1) * 10" by simp
  qed
  also have "\<dots> \<le> 2 ^ 64" using Suc.prems(4) by (simp add: algebra_simps)
  finally have bound: "(acc * 10 + ?d + 1) * 10 ^ k \<le> 2 ^ 64" .
  have "x * 1 \<le> x * 10 ^ k" for x :: nat by (rule mult_le_mono2) simp
  then have "acc * 10 + ?d + 1 \<le> (acc * 10 + ?d + 1) * 10 ^ k" by (metis mult_1_right)
  with bound have small: "acc * 10 + ?d < 2 ^ 64" by linarith
  have "value_loop buf en s acc = value_loop buf en (s + 1) (acc * 10 + ?d)"
    using Suc.prems(2) at d small by (simp add: value_loop.simps [of buf en s acc])
  also have "\<dots> = ((acc * 10 + ?d) * 10 ^ k + v mod 10 ^ k, s + 1 + k)"
    using Suc.prems(2,3) at(2) bound by (intro Suc.IH) simp_all
  finally show ?case using mod_digit_step [of acc k v] by simp
qed

lemma value_fmt:
  assumes "drop s buf = fmt_number v k @ rest" "k \<le> 9" "v < 10 ^ k" "s + k \<le> en" "ends_at (s + k) en rest"
  shows "value_loop buf en s 0 = (v, s + k)"
proof -
  have "(10 :: nat) ^ k \<le> 10 ^ 9" using assms(2) by (intro power_increasing) auto
  then have "value_loop buf en s 0 = (0 * 10 ^ k + v mod 10 ^ k, s + k)"
    using assms by (intro value_loop_fmt) simp_all
  then show ?thesis using assms(3) by simp
qed

text \<open>The positions in the text \<open>hh:mm:ss\<close> from \<open>p\<close> on, with \<open>k\<close> digits for the hours.\<close>

lemma hms_text:
  assumes "drop p buf = fmt_number h k @ CHR '':'' # fmt_number mi 2 @ CHR '':'' # fmt_number se 2 @ rest"
  shows "drop (p + k) buf = CHR '':'' # fmt_number mi 2 @ CHR '':'' # fmt_number se 2 @ rest"
    "drop (p + k + 1) buf = fmt_number mi 2 @ CHR '':'' # fmt_number se 2 @ rest"
    "drop (p + k + 3) buf = CHR '':'' # fmt_number se 2 @ rest"
    "drop (p + k + 4) buf = fmt_number se 2 @ rest"
    "drop (p + k + 6) buf = rest"
    "char_at buf (p + k) = CHR '':''" "char_at buf (p + k + 3) = CHR '':''"
    "digit_at buf (p + k + 1)" "digit_at buf (p + k + 4)"
proof -
  have e: "p + k + 1 + 2 = p + k + 3" "p + k + 3 + 1 = p + k + 4" "p + k + 4 + 2 = p + k + 6"
    by simp_all
  show 0: "drop (p + k) buf = CHR '':'' # fmt_number mi 2 @ CHR '':'' # fmt_number se 2 @ rest"
    using assms by (rule drop_fmt)
  show 1: "drop (p + k + 1) buf = fmt_number mi 2 @ CHR '':'' # fmt_number se 2 @ rest"
    using at_drop(2) [OF 0] .
  show 3: "drop (p + k + 3) buf = CHR '':'' # fmt_number se 2 @ rest"
    using drop_fmt [OF 1] unfolding e .
  show 4: "drop (p + k + 4) buf = fmt_number se 2 @ rest"
    using at_drop(2) [OF 3] unfolding e .
  show "drop (p + k + 6) buf = rest"
    using drop_fmt [OF 4] unfolding e .
  show "char_at buf (p + k) = CHR '':''" "char_at buf (p + k + 3) = CHR '':''"
    using at_drop(1) [OF 0] at_drop(1) [OF 3] by simp_all
  show "digit_at buf (p + k + 1)" "digit_at buf (p + k + 4)"
    using char_of_fmt(1) [OF 1] char_of_fmt(1) [OF 4] by simp_all
qed

text \<open>The same with names for the positions, so that they are not computed with.\<close>

definition hms_at :: "string \<Rightarrow> nat \<Rightarrow> nat \<Rightarrow> nat \<Rightarrow> string \<Rightarrow> nat \<Rightarrow> nat \<Rightarrow> nat \<Rightarrow> nat \<Rightarrow> bool" where
  "hms_at buf en mi se rest a b c d \<longleftrightarrow> Suc b = c
    \<and> drop (Suc a) buf = fmt_number mi 2 @ CHR '':'' # fmt_number se 2 @ rest
    \<and> drop c buf = fmt_number se 2 @ rest \<and> drop d buf = rest \<and> Suc a + 2 = b \<and> c + 2 = d
    \<and> a < en \<and> Suc a < en \<and> b < en \<and> c < en \<and> d \<le> en
    \<and> char_at buf a = CHR '':'' \<and> char_at buf b = CHR '':'' \<and> digit_at buf (Suc a) \<and> digit_at buf c
    \<and> en - a > 1 \<and> \<not> en - b < 2"

lemma hms_positions:
  assumes "drop p buf = fmt_number h k @ CHR '':'' # fmt_number mi 2 @ CHR '':'' # fmt_number se 2 @ rest"
    and "p + k + 6 \<le> en"
  obtains a b c d where "p + k = a" "p + k + 6 = d" "hms_at buf en mi se rest a b c d"
proof -
  have "hms_at buf en mi se rest (p + k) (p + k + 3) (p + k + 4) (p + k + 6)"
    unfolding hms_at_def using hms_text [OF assms(1)] assms(2) by (simp; linarith)
  then show thesis using that by blast
qed

text \<open>A printed time is not taken for a datetime: with a fraction the \<open>.\<close> stops the date parser.\<close>

lemma time_not_datetime:
  assumes buf: "drop p buf = fmt_number h k @ CHR '':'' # fmt_number mi 2 @ CHR '':'' # fmt_number se 2 @ CHR ''.'' # rest"
    and range: "h < 10 ^ k" "mi \<le> 59" "se \<le> 59" "0 < k" "k \<le> 3" "p + k + 6 < en"
    and "flag_set flags TIME_DATETIME_ONLY"
  shows "time_type (fst (snd (str_to_datetime_body buf p en flags))) = MYSQL_TIMESTAMP_NONE"
proof -
  have "p + k + 6 \<le> en" using range(6) by simp
  then obtain a b c d where pos: "p + k = a" "p + k + 6 = d"
    and at: "hms_at buf en mi se (CHR ''.'' # rest) a b c d"
    by (rule hms_positions [OF buf])
  then have hms: "Suc b = c" "drop (Suc a) buf = fmt_number mi 2 @ CHR '':'' # fmt_number se 2 @ CHR ''.'' # rest"
    "drop c buf = fmt_number se 2 @ CHR ''.'' # rest" "drop d buf = CHR ''.'' # rest" "Suc a + 2 = b" "c + 2 = d"
    "a < en" "Suc a < en" "b < en" "c < en" "char_at buf a = CHR '':''" "char_at buf b = CHR '':''"
    by (auto simp only: hms_at_def)
  have dot: "char_at buf d = CHR ''.''" "d < en" using at_drop(1) [OF hms(4)] pos(2) range(6) by simp_all
  have num: "get_number buf en v n p = (False, h, u32 (n + 1), a)"
      "get_number buf en v n (Suc a) = (False, mi, u32 (n + 1), b)"
      "get_number buf en v n c = (False, se, u32 (n + 1), d)" for v n
    using get_number_fmt [OF buf, of en v n] get_number_fmt [OF hms(2), of en v n]
      get_number_fmt [OF hms(3), of en v n] range dot(2) unfolding pos(1) hms(5,6)
    using hms(7-10) by simp_all
  have digit: "digit_at buf p" using char_of_fmt [OF buf range(4)] by simp
  then have skip: "skip_while my_isspace buf en p = p"
    by (simp add: skip_while_stop my_isdigit_not_space)
  have "skip_digits buf en p = a"
    using skip_digits_fmt [OF buf, of en] hms(7) unfolding pos(1) by simp
  then have first: "first_part buf en p = (a, a - p)"
    using hms(11) by (simp add: first_part_def Let_def)
  have "nfields (fst (date_fields flags buf en p my_time_status_init)) = 0"
    using assms(8) num hms(1,7-12) dot first
    by (simp add: date_fields_def delimited_format_def number_into_def get_punct_def
          get_date_time_separator_def my_time_status_init_def Let_def)
  moreover have "p \<noteq> en" using range(6) by simp
  ultimately show ?thesis
    using digit by (auto simp: str_to_datetime_body_def skip Let_def split: prod.splits)
qed

lemma time_fields_hms:
  assumes buf: "drop p buf = fmt_number h k @ CHR '':'' # fmt_number mi 2 @ CHR '':'' # fmt_number se 2 @ rest"
    and range: "h < 10 ^ k" "mi \<le> 59" "se \<le> 59" "0 < k" "k \<le> 3"
    and en: "p + k + 6 \<le> en" "ends_at (p + k + 6) en rest"
  shows "time_fields buf en p = ([0, h, mi, se, 0], p + k + 6)"
proof -
  obtain a b c d where pos: "p + k = a" "p + k + 6 = d" and at: "hms_at buf en mi se rest a b c d"
    using en(1) by (rule hms_positions [OF buf])
  then have hms: "Suc b = c" "drop (Suc a) buf = fmt_number mi 2 @ CHR '':'' # fmt_number se 2 @ rest"
    "drop c buf = fmt_number se 2 @ rest" "Suc a + 2 = b" "c + 2 = d" "a < en" "Suc a < en" "b < en" "c < en" "d \<le> en"
    "char_at buf a = CHR '':''" "char_at buf b = CHR '':''" "digit_at buf (Suc a)" "digit_at buf c"
    "en - a > 1" "\<not> en - b < 2"
    by (auto simp only: hms_at_def)
  have vals: "value_loop buf en p 0 = (h, a)" "value_loop buf en (Suc a) 0 = (mi, b)"
      "value_loop buf en c 0 = (se, d)"
    using value_fmt [OF buf, of en] value_fmt [OF hms(2), of en] value_fmt [OF hms(3), of en] range en(2)
    unfolding pos(2) unfolding pos(1) hms(4,5) using hms(6-10) by simp_all
  have skip: "skip_while my_isspace buf en a = a"
    using hms(11) by (simp add: skip_while_stop my_isspace_iff)
  have "hms_loop buf en c [0, h, mi, 0, 0] 3 = ([0, h, mi, se, 0], 4, d)"
    using vals(3) by (simp add: hms_loop.simps [of buf en c] list_update_Cons_numeral)
  then have "hms_loop buf en (Suc a) [0, h, 0, 0, 0] 2 = ([0, h, mi, se, 0], 4, d)"
    using vals(2) hms(1,12,14,16)
    by (simp add: hms_loop.simps [of buf en "Suc a"] list_update_Cons_numeral)
  then show ?thesis
    using vals(1) skip hms(11,13,15) unfolding pos(2) by (simp add: time_fields_def Let_def upt_rec)
qed

lemma check_time_range_id:
  assumes "\<not> check_datetime_range t" "time_type t = MYSQL_TIMESTAMP_TIME" "day t = 0"
  shows "check_time_range t 6 w = (False, t, w)"
proof -
  have "hour t \<le> 838" "minute t < 60" "second t < 60" "second_part t \<le> 999999"
    using assms(1,2) by (simp_all add: check_datetime_range_def time_consts)
  then show ?thesis
    using assms(3)
    by (simp add: check_time_range_def AUTO_SEC_PART_DIGITS_def max_sec_part_def time_consts Let_def)
qed

lemma finish_time_accepts:
  assumes "\<not> check_datetime_range t'" "time_type t' = MYSQL_TIMESTAMP_TIME"
      "year t' = 0" "month t' = 0" "day t' = 0"
    and "if k = 0 then s = en \<and> second_part t' = 0
      else s + 1 + k = en \<and> char_at buf s = CHR ''.'' \<and> get_microseconds buf en my_time_status_init 0 (s + 1) =
        (second_part t', \<lparr>warnings = 0, precision = k\<rparr>, n, en)"
  shows "finish_time buf en (neg t') [0, hour t', minute t', second t', 0] s =
    (False, t', \<lparr>warnings = 0, precision = k\<rparr>)"
proof -
  have range: "hour t' \<le> 838" "minute t' < 60" "second t' < 60" "second_part t' \<le> 999999"
    using assms(1,2) by (simp_all add: check_datetime_range_def time_consts)
  have t': "\<lparr>year = 0, month = 0, day = 0, hour = hour t', minute = minute t', second = second t',
      second_part = second_part t', neg = neg t', time_type = MYSQL_TIMESTAMP_TIME\<rparr> = t'"
    using assms(2-5) by (cases t') simp
  have small: "\<not> (\<exists>i < 5. [0, hour t', minute t', second t', second_part t'] ! i > UINT_MAX)"
  proof -
    have "list_all (\<lambda>x. x \<le> UINT_MAX) [0, hour t', minute t', second t', second_part t']"
      using range by (simp add: UINT_MAX_def)
    then have "\<forall>i < 5. [0, hour t', minute t', second t', second_part t'] ! i \<le> UINT_MAX"
      unfolding list_all_length by simp
    then show ?thesis by (auto simp: not_less)
  qed
  have hour: "u32 (u64 (hour t' + u64 (0 * 24))) = hour t'"
    using range by (simp add: u64_def)
  have no_exp: "\<not> exponent_at buf en en" by (simp add: exponent_at_def)
  show ?thesis
  proof (cases "k = 0")
    case True
    with assms(6) have "s = en" "second_part t' = 0" by simp_all
    then show ?thesis
      using small hour no_exp check_time_range_id [OF assms(1,2,5), of 0] t' True
      by (simp add: finish_time_def Let_def list_update_Cons_numeral my_time_status_init_def)
  next
    case False
    with assms(6) have "s < en" "char_at buf s = CHR ''.''" "get_microseconds buf en my_time_status_init 0 (s + 1) =
        (second_part t', \<lparr>warnings = 0, precision = k\<rparr>, n, en)"
      by simp_all
    then show ?thesis
      using small hour no_exp check_time_range_id [OF assms(1,2,5), of 0] t'
      by (simp add: finish_time_def Let_def list_update_Cons_numeral)
  qed
qed

text \<open>
  C22: parsing the text of a time, printed with \<open>k\<close> digits of the fraction, gives the time back with
  its sign and its microseconds cut to these digits, without a warning, whatever is in the buffer
  behind the text: also the texts long enough to be tried as a datetime first.
\<close>

theorem time_str_roundtrip:
  assumes "\<not> check_datetime_range t" "time_type t = MYSQL_TIMESTAMP_TIME"
    and "year t = 0" "month t = 0" "day t = 0" "k \<le> 6"
    and "t' = t\<lparr>second_part := cut_usec (second_part t) k\<rparr>" "flag_set flags TIME_TIME_ONLY"
  shows "str_to_datetime (my_TIME_to_str t k @ tail) (length (my_TIME_to_str t k)) flags =
    (False, t', \<lparr>warnings = 0, precision = k\<rparr>)"
proof -
  have range: "hour t \<le> 838" "minute t \<le> 59" "second t \<le> 59" and us: "second_part t \<le> 999999"
    using assms(1,2) by (simp_all add: check_datetime_range_def time_consts)
  define p w where "p = (if neg t then 1 else 0 :: nat)" and "w = (if hour t > 99 then 3 else 2 :: nat)"
  let ?en = "p + w + 6 + (if k = 0 then 0 else 1 + k)"
  let ?frac = "fraction_str (second_part t) k"
  define buf where "buf = my_time_to_str t k @ tail"
  have frac: "?frac = (if k \<noteq> 0 then CHR ''.'' # fmt_number (second_part t div 10 ^ (6 - k)) k else '''')"
    using fraction_str_eq [OF us assms(6)] .
  have "sec_digits t k = k" using assms(6) by (simp add: sec_digits_def AUTO_SEC_PART_DIGITS_def)
  moreover have "u32 (hour t) = hour t" using range(1) by (simp add: u32_def)
  ultimately have str: "my_time_to_str t k = (if neg t then ''-'' else '''') @ fmt_number (hour t) w
      @ CHR '':'' # fmt_number (minute t) 2 @ CHR '':'' # fmt_number (second t) 2 @ ?frac"
    using hours_str [OF range(1)] assms(3-5) by (simp add: my_time_to_str_def w_def)
  have len: "length (my_time_to_str t k) = ?en"
    by (simp add: str frac p_def)
  have b: "drop p buf = fmt_number (hour t) w @ CHR '':'' # fmt_number (minute t) 2 @ CHR '':''
      # fmt_number (second t) 2 @ ?frac @ tail"
    by (simp add: buf_def str p_def)
  have wide: "hour t < 10 ^ w" "0 < w" "w \<le> 3" using range(1) by (simp_all add: w_def)
  have digit: "digit_at buf p" "char_at buf p \<noteq> CHR ''-''" using char_of_fmt [OF b wide(2)] by simp_all
  have sign: "char_at buf 0 = CHR ''-''" if "neg t"
    using that by (simp add: buf_def str char_at_def)
  have start: "skip_while my_isspace buf ?en 0 = 0"
    using digit sign by (cases "neg t") (auto simp: p_def skip_while_stop my_isdigit_not_space)
  have not_dt: "time_type (fst (snd (str_to_datetime_body buf p ?en
        ((flags AND NOT TIME_TIME_ONLY) OR TIME_DATETIME_ONLY)))) = MYSQL_TIMESTAMP_NONE"
    if "12 \<le> ?en - p"
  proof -
    have "k \<noteq> 0" using that wide(3) by (auto split: if_splits)
    then have "drop p buf = fmt_number (hour t) w @ CHR '':'' # fmt_number (minute t) 2 @ CHR '':''
        # fmt_number (second t) 2 @ CHR ''.'' # fmt_number (second_part t div 10 ^ (6 - k)) k @ tail"
      using b frac by simp
    then show ?thesis
      by (rule time_not_datetime)
        (use wide range(2,3) \<open>k \<noteq> 0\<close> in \<open>simp_all add: datetime_flags(4)\<close>)
  qed
  have fields: "time_fields buf ?en p = ([0, hour t, minute t, second t, 0], p + w + 6)"
  proof -
    have "ends_at (p + w + 6) ?en (?frac @ tail)" by (cases "k = 0") (simp_all add: frac)
    then show ?thesis using time_fields_hms [OF b wide(1) range(2,3) wide(2,3)] by simp
  qed
  have body: "str_to_time buf 0 ?en flags =
      finish_time buf ?en (neg t) [0, hour t, minute t, second t, 0] (p + w + 6)"
    using start digit sign not_dt fields by (cases "neg t") (auto simp: str_to_time_def Let_def p_def)
  have rest: "drop (p + w + 6) buf = ?frac @ tail" using hms_text(5) [OF b] .
  have "finish_time buf ?en (neg t') [0, hour t', minute t', second t', 0] (p + w + 6) =
      (False, t', \<lparr>warnings = 0, precision = k\<rparr>)"
  proof (rule finish_time_accepts [where n = 1])
    show "\<not> check_datetime_range t'"
      using assms(1,7) cut_usec_le [of "second_part t" k] by (auto simp: check_datetime_range_def)
    show "if k = 0 then p + w + 6 = ?en \<and> second_part t' = 0
      else p + w + 6 + 1 + k = ?en \<and> char_at buf (p + w + 6) = CHR ''.''
        \<and> get_microseconds buf ?en my_time_status_init 0 (p + w + 6 + 1) =
          (second_part t', \<lparr>warnings = 0, precision = k\<rparr>, 1, ?en)"
    proof (cases "k = 0")
      case True
      then show ?thesis using cut_usec_0 [OF us] assms(7) by simp
    next
      case False
      then have "drop (p + w + 6) buf = CHR ''.'' # fmt_number (second_part t div 10 ^ (6 - k)) k @ tail"
        using rest frac by simp
      note dot = at_drop [OF this]
      have "get_microseconds buf (p + w + 6 + 1 + k) my_time_status_init 0 (p + w + 6 + 1) =
          (second_part t', \<lparr>warnings = 0, precision = k\<rparr>, 1, p + w + 6 + 1 + k)"
        using get_microseconds_fmt [OF dot(2) _ assms(6) us, of my_time_status_init 0] False assms(7)
        by (simp add: status_init u32_def)
      moreover have "?en = p + w + 6 + 1 + k" using False by simp
      ultimately show ?thesis using dot(1) False by (simp add: ac_simps)
    qed
  qed (use assms in simp_all)
  then show ?thesis
    using body assms(2,7,8) len by (simp add: str_to_datetime_def my_TIME_to_str_def buf_def)
qed

section \<open>Two defects\<close>

lemmas token_eval = char_at_def digit_val_def my_isdigit_iff my_isspace_iff u64_def u32_def

lemmas field_eval = date_fields_def number_into_def delimited_format_def get_punct_def
  get_date_time_separator_def my_ispunct_def ctype_of_def ctype_latin1_def char_at_def Let_def
  my_time_status_init_def my_isdigit_iff my_isspace_iff u32_def

abbreviation "days_text \<equiv> ''178956971 00:00:00''"

lemma days_text_tokens:
  "value_loop days_text 18 0 0 = (178956971, 9)" "value_loop days_text 18 10 0 = (0, 12)"
  "value_loop days_text 18 13 0 = (0, 15)" "value_loop days_text 18 16 0 = (0, 18)"
  "skip_while my_isspace days_text 18 9 = 10" "skip_while my_isspace days_text 18 0 = 0"
  by (simp_all add: value_loop.simps skip_while.simps token_eval)

lemma days_text_fields: "time_fields days_text 18 0 = ([178956971, 0, 0, 0, 0], 18)"
proof -
  let ?date = "[178956971, 0, 0, 0, 0 :: nat]"
  have "hms_loop days_text 18 16 ?date (Suc (Suc (Suc 0))) = (?date, 4, 18)"
    by (simp add: hms_loop.simps [of days_text 18 16] days_text_tokens)
  then have "hms_loop days_text 18 13 ?date (Suc (Suc 0)) = (?date, 4, 18)"
    by (simp add: hms_loop.simps [of days_text 18 13] days_text_tokens token_eval)
  then have "hms_loop days_text 18 10 ?date (Suc 0) = (?date, 4, 18)"
    by (simp add: hms_loop.simps [of days_text 18 10] days_text_tokens token_eval)
  then show ?thesis
    by (simp add: time_fields_def days_text_tokens token_eval Let_def upt_rec)
qed

lemma days_text_not_datetime:
  "time_type (fst (snd (str_to_datetime_body days_text 0 18 flags))) = MYSQL_TIMESTAMP_NONE"
proof -
  have "get_number days_text 18 v n 0 = (False, 178956971, u32 (n + 1), 9)" for v n
    by (simp add: get_number_def number_loop.simps token_eval)
  moreover have "first_part days_text 18 0 = (9, 9)"
    by (simp add: first_part_def skip_digits_def skip_while.simps token_eval Let_def)
  ultimately show ?thesis
    by (simp add: str_to_datetime_body_def days_text_tokens field_eval)
qed

text \<open>
  The overflow checks of \<open>str_to_time\<close> compare the days and the hours with \<open>UINT_MAX\<close> each,
  but not the hours they make together: 178956971 days, far outside the range of times, are read
  as 8 hours without a warning.
\<close>

theorem str_to_time_days_overflow:
  "str_to_time ''178956971 00:00:00'' 0 18 0 =
     (False, \<lparr>year = 0, month = 0, day = 0, hour = 8, minute = 0, second = 0, second_part = 0,
        neg = False, time_type = MYSQL_TIMESTAMP_TIME\<rparr>, my_time_status_init)"
proof -
  have "\<not> (\<exists>i < 5. [178956971, 0, 0, 0, 0] ! i > UINT_MAX)"
    by (auto simp: UINT_MAX_def nth_Cons split: nat.splits)
  then have "finish_time days_text 18 False [178956971, 0, 0, 0, 0] 18 =
      (False, \<lparr>year = 0, month = 0, day = 0, hour = 8, minute = 0, second = 0, second_part = 0,
        neg = False, time_type = MYSQL_TIMESTAMP_TIME\<rparr>, my_time_status_init)"
    by (simp add: finish_time_def exponent_at_def Let_def list_update_Cons_numeral check_time_range_def
          u32_def u64_def time_consts max_sec_part_def my_time_status_init_def AUTO_SEC_PART_DIGITS_def)
  then show ?thesis
    by (simp add: str_to_time_def days_text_tokens days_text_fields days_text_not_datetime char_at_def)
qed

definition day_text :: "string \<Rightarrow> string" where
  "day_text tail = ''2018-02-28 '' @ tail"

lemma day_text_tokens:
  "get_number (day_text tail) 11 v n 0 = (False, 2018, u32 (n + 1), 4)"
  "get_number (day_text tail) 11 v n 5 = (False, 2, u32 (n + 1), 7)"
  "get_number (day_text tail) 11 v n 8 = (False, 28, u32 (n + 1), 10)"
  "11 \<le> p \<Longrightarrow> get_number (day_text tail) 11 v n p = (False, v, n, p)"
  "first_part (day_text tail) 11 0 = (4, 4)" "skip_while my_isspace (day_text tail) 11 0 = 0"
  "char_at (day_text tail) 0 = CHR ''2''" "char_at (day_text tail) 4 = CHR ''-''"
  "char_at (day_text tail) 7 = CHR ''-''" "char_at (day_text tail) 10 = CHR '' ''"
  by (simp_all add: day_text_def get_number_def number_loop.simps first_part_def skip_digits_def
        skip_while.simps token_eval Let_def)

lemma day_text_date:
  assumes "space_loop (day_text tail) 11 = p" "11 \<le> p"
  shows "warnings (snd (snd (str_to_datetime (day_text tail) 11 0))) =
    (if garbage_loop (day_text tail) 11 p then MYSQL_TIME_WARN_TRUNCATED else 0)"
proof -
  have "date_fields 0 (day_text tail) 11 0 my_time_status_init =
      (\<lparr>l_time = zero_TIME\<lparr>year := 2018, month := 2, day := 28\<rparr>, nfields = 3, pos = p\<rparr>,
       my_time_status_init, 4)"
    using assms
    by (simp add: day_text_tokens zero_TIME_def date_fields_def number_into_def delimited_format_def
          get_punct_def get_date_time_separator_def my_time_status_init_def Let_def u32_def)
  then show ?thesis
    using assms(2)
    by (simp add: str_to_datetime_def str_to_datetime_body_def flag_set_def day_text_tokens
          finish_date_def not_zero_date_def zero_TIME_def check_date_def days_in_month_def
          status_init my_isdigit_iff Let_def MYSQL_TIME_WARN_TRUNCATED_def)
qed

text \<open>
  The loop over the spaces after a date does not stop at the end of the text.  The text of
  eleven characters \<open>2018-02-28\<close> with a space after it is parsed with or without a truncation
  warning depending on what the memory behind it holds.
\<close>

theorem str_to_datetime_reads_behind:
  "warnings (snd (snd (str_to_datetime (''2018-02-28 '' @ ''x'') 11 0))) = 0
   \<and> warnings (snd (snd (str_to_datetime (''2018-02-28 '' @ '' '') 11 0))) = MYSQL_TIME_WARN_TRUNCATED"
proof -
  have "space_loop (day_text ''x'') 11 = 11" "space_loop (day_text '' '') 11 = 12"
    by (simp_all add: day_text_def space_loop.simps token_eval)
  moreover have "\<not> garbage_loop (day_text ''x'') 11 11" "garbage_loop (day_text '' '') 11 12"
    by (simp_all add: day_text_def garbage_loop.simps token_eval)
  ultimately show ?thesis
    using day_text_date [of "''x''" 11] day_text_date [of "'' ''" 12] by (simp add: day_text_def)
qed

section \<open>Applications\<close>

definition ex_date :: MYSQL_TIME where
  "ex_date = \<lparr>year = 2020, month = 2, day = 29, hour = 0, minute = 0, second = 0,
     second_part = 0, neg = False, time_type = MYSQL_TIMESTAMP_DATE\<rparr>"

lemma ex_check_date: "\<not> fst (check_date ex_date True 0 0)" "\<not> fst (check_date ex_datetime True 0 0)"
  by (simp_all add: check_date_def ex_date_def ex_datetime_def flag_set_def days_in_month_def
        calc_days_in_year_def and_3)

theorem str_to_datetime_sound_witness:
  "\<exists>t status. str_to_datetime ''x'' 1 0 = (True, t, status) \<and> time_type t = MYSQL_TIMESTAMP_NONE"
proof -
  obtain err t status where r: "str_to_datetime ''x'' 1 0 = (err, t, status)"
    by (cases "str_to_datetime ''x'' 1 0")
  moreover have "err" "t \<noteq> error_TIME"
    using r by (auto simp: str_to_datetime_def flag_set_def str_to_datetime_body_def skip_while.simps
        token_eval Let_def error_TIME_def zero_TIME_def)
  ultimately show ?thesis
    using str_to_datetime_sound [OF r] by (auto simp: flag_set_def)
qed

theorem date_str_roundtrip_witness:
  "str_to_datetime (my_TIME_to_str ex_date 0 @ ''zz'') (length (my_TIME_to_str ex_date 0)) 0 =
     (False, ex_date, my_time_status_init)"
proof -
  have "\<not> check_datetime_range ex_date" "not_zero_date ex_date"
    by (simp_all add: check_datetime_range_def not_zero_date_def ex_date_def)
  then show ?thesis
    using date_str_roundtrip [of ex_date 0 0 "''zz''"] ex_check_date
    by (simp add: ex_date_def flag_set_def)
qed

theorem datetime_str_roundtrip_witness:
  "str_to_datetime (my_TIME_to_str ex_datetime 6) (length (my_TIME_to_str ex_datetime 6)) 0 =
     (False, ex_datetime, \<lparr>warnings = 0, precision = 6\<rparr>)"
proof -
  have "\<not> check_datetime_range ex_datetime" "not_zero_date ex_datetime"
    by (simp_all add: check_datetime_range_def not_zero_date_def ex_datetime_def time_consts)
  then show ?thesis
    using datetime_str_roundtrip [of ex_datetime 6 ex_datetime 0 "''''"] ex_check_date
    by (simp add: ex_datetime_def flag_set_def cut_usec_def)
qed

theorem time_str_roundtrip_witness:
  "str_to_datetime (my_TIME_to_str ex_time 6) (length (my_TIME_to_str ex_time 6)) 4 =
     (False, ex_time, \<lparr>warnings = 0, precision = 6\<rparr>)"
proof -
  have "\<not> check_datetime_range ex_time"
    by (simp add: check_datetime_range_def ex_time_def time_consts)
  then show ?thesis
    using time_str_roundtrip [of ex_time 6 ex_time 4 "''''"]
    by (simp add: ex_time_def flag_set_def cut_usec_def TIME_TIME_ONLY_def)
qed

end
