(* ===== verification/Thr_Lock.thy ===== *)
theory Thr_Lock
  imports Prelude
begin

text \<open>
  The table-level lock manager of \<open>src/mysys/thr_lock.c\<close> (types in
  \<open>src/include/thr_lock.h\<close>).  A \<open>THR_LOCK\<close> has four queues of requests
  (\<open>read\<close>, \<open>read_wait\<close>, \<open>write\<close>, \<open>write_wait\<close>; the first and third are called
  \<open>read_q\<close> and \<open>write_q\<close> here); a \<open>THR_LOCK_DATA\<close> is one request of one
  thread.  The requests live in a heap and the queues hold their addresses, so that a request
  keeps its \<open>type\<close> and \<open>cond\<close> fields while it moves between queues.  The intrusive
  doubly linked lists (\<open>next\<close>, \<open>prev\<close>, \<open>last\<close>) are lists of addresses: appending at \<open>last\<close>
  is \<open>@\<close>, and the unlinking idiom \<open>(*data->prev)= data->next\<close> is \<open>remove1\<close>.

  Every function between \<open>mysql_mutex_lock(&lock->mutex)\<close> and the matching unlock is one
  step; \<open>wait_for_lock\<close>, which releases the mutex while it sleeps, is split into the part
  before the sleep and the part after it.  The status callbacks of the storage engine
  (\<open>get_status\<close> and the like) and the signals sent to sleeping threads are recorded in a log;
  the result of \<open>check_status\<close> is a parameter.  Performance-schema hooks, statistics and the
  \<open>WITH_WSREP\<close> variants are left out.
\<close>

section \<open>Data (thr_lock.h)\<close>

datatype thr_lock_type = TL_IGNORE | TL_UNLOCK | TL_READ_DEFAULT | TL_READ
  | TL_READ_WITH_SHARED_LOCKS | TL_READ_HIGH_PRIORITY | TL_READ_NO_INSERT
  | TL_WRITE_ALLOW_WRITE | TL_WRITE_CONCURRENT_INSERT | TL_WRITE_DELAYED | TL_WRITE_DEFAULT
  | TL_WRITE_LOW_PRIORITY | TL_WRITE | TL_WRITE_ONLY

text \<open>The numbers of the C enumeration; the sources compare lock types by them.\<close>

fun tl_code :: "thr_lock_type \<Rightarrow> int" where
  "tl_code TL_IGNORE = -1"
| "tl_code TL_UNLOCK = 0"
| "tl_code TL_READ_DEFAULT = 1"
| "tl_code TL_READ = 2"
| "tl_code TL_READ_WITH_SHARED_LOCKS = 3"
| "tl_code TL_READ_HIGH_PRIORITY = 4"
| "tl_code TL_READ_NO_INSERT = 5"
| "tl_code TL_WRITE_ALLOW_WRITE = 6"
| "tl_code TL_WRITE_CONCURRENT_INSERT = 7"
| "tl_code TL_WRITE_DELAYED = 8"
| "tl_code TL_WRITE_DEFAULT = 9"
| "tl_code TL_WRITE_LOW_PRIORITY = 10"
| "tl_code TL_WRITE = 11"
| "tl_code TL_WRITE_ONLY = 12"

lemma tl_code_inj: "tl_code a = tl_code b \<longleftrightarrow> a = b"
  by (cases a; cases b; simp)

instantiation thr_lock_type :: linorder
begin

definition less_eq_thr_lock_type :: "thr_lock_type \<Rightarrow> thr_lock_type \<Rightarrow> bool" where
  "a \<le> b \<longleftrightarrow> tl_code a \<le> tl_code b"

definition less_thr_lock_type :: "thr_lock_type \<Rightarrow> thr_lock_type \<Rightarrow> bool" where
  "a < b \<longleftrightarrow> tl_code a < tl_code b"

instance
  by standard (auto simp: less_eq_thr_lock_type_def less_thr_lock_type_def tl_code_inj)

end

lemmas tl_order = less_eq_thr_lock_type_def less_thr_lock_type_def

datatype enum_thr_lock_result = THR_LOCK_SUCCESS | THR_LOCK_ABORTED | THR_LOCK_WAIT_TIMEOUT
  | THR_LOCK_DEADLOCK

text \<open>
  One request.  \<open>owner\<close>, \<open>lock\<close>, \<open>cond\<close> and \<open>status_param\<close> are addresses;
  \<open>cond = None\<close> is the null pointer.
\<close>

record THR_LOCK_DATA =
  owner :: nat
  lock :: nat
  cond :: "nat option"
  status_param :: nat
  type :: thr_lock_type
  priority :: uint32

text \<open>
  The lock.  For each callback of the storage engine the model keeps whether the pointer is
  set; \<open>get_status\<close> stands for \<open>lock->get_status != 0\<close>, and so on.
\<close>

record THR_LOCK =
  read_wait :: "nat list"
  read_q :: "nat list"
  write_wait :: "nat list"
  write_q :: "nat list"
  write_lock_count :: ulonglong
  read_no_write_count :: uint32
  get_status :: bool
  copy_status :: bool
  update_status :: bool
  restore_status :: bool
  start_trans :: bool
  check_status :: bool
  fix_status :: bool
  allow_multiple_concurrent_insert :: bool

datatype lock_event = Get_status nat bool | Update_status nat | Restore_status nat
  | Start_trans nat | Copy_status nat nat | Fix_status nat "nat option" | Cond_signal nat

text \<open>What one operation works on: the requests, the lock, and the log of calls made.\<close>

record lock_state =
  heap :: "nat \<Rightarrow> THR_LOCK_DATA"
  lk :: THR_LOCK
  evs :: "lock_event list"

text \<open>
  Global variables and callbacks that the operations read: \<open>max_write_lock_count\<close>,
  \<open>thr_upgraded_concurrent_insert_lock\<close>, and the answer of \<open>check_status\<close> for a status
  parameter (true: a concurrent insert is not possible now).
\<close>

record lock_env =
  max_write_lock_count :: ulonglong
  thr_upgraded_concurrent_insert_lock :: thr_lock_type
  concurrent_insert_refused :: "nat \<Rightarrow> bool"

abbreviation ty :: "lock_state \<Rightarrow> nat \<Rightarrow> thr_lock_type" where
  "ty s d \<equiv> type (heap s d)"

abbreviation ow :: "lock_state \<Rightarrow> nat \<Rightarrow> nat" where
  "ow s d \<equiv> owner (heap s d)"

definition upd :: "nat \<Rightarrow> (THR_LOCK_DATA \<Rightarrow> THR_LOCK_DATA) \<Rightarrow> lock_state \<Rightarrow> lock_state" where
  "upd d f s = s\<lparr>heap := (heap s)(d := f (heap s d))\<rparr>"

definition set_type :: "nat \<Rightarrow> thr_lock_type \<Rightarrow> lock_state \<Rightarrow> lock_state" where
  "set_type d t = upd d (type_update (\<lambda>_. t))"

definition emit :: "lock_event \<Rightarrow> lock_state \<Rightarrow> lock_state" where
  "emit e s = s\<lparr>evs := evs s @ [e]\<rparr>"

definition emit_if :: "bool \<Rightarrow> lock_event \<Rightarrow> lock_state \<Rightarrow> lock_state" where
  "emit_if b e s = (if b then emit e s else s)"

text \<open>\<open>data->cond= 0; mysql_cond_signal(cond);\<close>\<close>

definition mark_free :: "nat \<Rightarrow> lock_state \<Rightarrow> lock_state" where
  "mark_free d s =
     (case cond (heap s d) of
        None \<Rightarrow> s
      | Some c \<Rightarrow> emit (Cond_signal c) (upd d (cond_update (\<lambda>_. None)) s))"

definition THR_LOCK_LATE_PRIV :: uint32 where "THR_LOCK_LATE_PRIV = 1"

definition THR_LOCK_MERGE_PRIV :: uint32 where "THR_LOCK_MERGE_PRIV = 2"

section \<open>Initialisation\<close>

definition thr_lock_init :: THR_LOCK where
  "thr_lock_init =
     \<lparr>read_wait = [], read_q = [], write_wait = [], write_q = [], write_lock_count = 0,
      read_no_write_count = 0, get_status = False, copy_status = False, update_status = False,
      restore_status = False, start_trans = False, check_status = False, fix_status = False,
      allow_multiple_concurrent_insert = False\<rparr>"

definition thr_lock_data_init :: "nat \<Rightarrow> nat \<Rightarrow> THR_LOCK_DATA" where
  "thr_lock_data_init l param =
     \<lparr>owner = 0, lock = l, cond = None, status_param = param, type = TL_UNLOCK, priority = 0\<rparr>"

definition thr_lock_owner_equal :: "nat \<Rightarrow> nat \<Rightarrow> bool" where
  "thr_lock_owner_equal rhs lhs \<longleftrightarrow> rhs = lhs"

fun has_old_lock :: "lock_state \<Rightarrow> nat list \<Rightarrow> nat \<Rightarrow> bool" where
  "has_old_lock s [] own = False"
| "has_old_lock s (d # ds) own =
     (if thr_lock_owner_equal (ow s d) own then True else has_old_lock s ds own)"

section \<open>Waking up waiting requests\<close>

text \<open>
  \<open>free_all_read_locks\<close>: the waiting readers are appended to \<open>read\<close>, then visited one by one;
  with \<open>using_concurrent_insert\<close> a \<open>TL_READ_NO_INSERT\<close> request is linked back.
\<close>

fun free_read_loop :: "bool \<Rightarrow> nat list \<Rightarrow> lock_state \<Rightarrow> lock_state" where
  "free_read_loop uci [] s = s"
| "free_read_loop uci (d # ds) s =
     (if ty s d = TL_READ_NO_INSERT
      then if uci
           then free_read_loop uci ds
                  (s\<lparr>lk := (lk s)\<lparr>read_q := remove1 d (read_q (lk s)),
                               read_wait := read_wait (lk s) @ [d]\<rparr>\<rparr>)
           else free_read_loop uci ds
                  (mark_free d
                    (s\<lparr>lk := (lk s)\<lparr>read_no_write_count := read_no_write_count (lk s) + 1\<rparr>\<rparr>))
      else free_read_loop uci ds (mark_free d s))"

definition free_all_read_locks :: "bool \<Rightarrow> lock_state \<Rightarrow> lock_state" where
  "free_all_read_locks uci s =
     (let ds = read_wait (lk s);
          s1 = free_read_loop uci ds
                 (s\<lparr>lk := (lk s)\<lparr>read_q := read_q (lk s) @ ds, read_wait := []\<rparr>\<rparr>)
      in if read_wait (lk s1) = [] then s1\<lparr>lk := (lk s1)\<lparr>write_lock_count := 0\<rparr>\<rparr> else s1)"

text \<open>Moves the first waiting writer to the end of \<open>write\<close>.\<close>

definition start_write :: "nat \<Rightarrow> nat list \<Rightarrow> lock_state \<Rightarrow> lock_state" where
  "start_write d ds s = s\<lparr>lk := (lk s)\<lparr>write_wait := ds, write_q := write_q (lk s) @ [d]\<rparr>\<rparr>"

text \<open>
  The loop \<open>for (;;)\<close> of \<open>wake_up_waiters\<close>: grants the first waiting writer and, while the
  writer just granted and the next one are both \<open>TL_WRITE_ALLOW_WRITE\<close>, the next one too.
  Returns the last writer granted.
\<close>

fun grant_writers :: "lock_env \<Rightarrow> nat \<Rightarrow> nat list \<Rightarrow> lock_state \<Rightarrow> lock_state \<times> nat" where
  "grant_writers env d ds s =
     (let s1 = start_write d ds s;
          s2 = (if ty s1 d = TL_WRITE_CONCURRENT_INSERT \<and>
                   concurrent_insert_refused env (status_param (heap s1 d))
                then set_type d TL_WRITE s1 else s1);
          s3 = mark_free d s2
      in if ty s3 d \<noteq> TL_WRITE_ALLOW_WRITE then (s3, d)
         else case ds of
                [] \<Rightarrow> (s3, d)
              | d' # ds' \<Rightarrow> if ty s3 d' \<noteq> TL_WRITE_ALLOW_WRITE then (s3, d)
                           else grant_writers env d' ds' s3)"

text \<open>The \<open>do .. while\<close> loop that starts waiting writers together with active readers.\<close>

fun grant_shared_writers ::
  "thr_lock_type \<Rightarrow> nat \<Rightarrow> nat list \<Rightarrow> lock_state \<Rightarrow> lock_state" where
  "grant_shared_writers lock_type d ds s =
     (let s1 = mark_free d (start_write d ds s)
      in if lock_type = TL_WRITE_ALLOW_WRITE
         then case ds of
                [] \<Rightarrow> s1
              | d' # ds' \<Rightarrow> if ty s1 d' = TL_WRITE_ALLOW_WRITE
                           then grant_shared_writers lock_type d' ds' s1 else s1
         else s1)"

declare grant_writers.simps [simp del] grant_shared_writers.simps [simp del]

definition free_waiting_readers :: "bool \<Rightarrow> lock_state \<Rightarrow> lock_state" where
  "free_waiting_readers uci s =
     (if read_wait (lk s) \<noteq> [] then free_all_read_locks uci s else s)"

text \<open>
  The test \<open>lock->write_lock_count++ > max_write_lock_count\<close> and its effect on the counter: too
  many write locks in a row reset it.
\<close>

definition too_many_writes :: "lock_env \<Rightarrow> lock_state \<Rightarrow> bool" where
  "too_many_writes env s \<longleftrightarrow> max_write_lock_count env < write_lock_count (lk s)"

definition count_write :: "lock_env \<Rightarrow> lock_state \<Rightarrow> lock_state" where
  "count_write env s =
     s\<lparr>lk := (lk s)\<lparr>write_lock_count :=
        (if too_many_writes env s then 0 else write_lock_count (lk s) + 1)\<rparr>\<rparr>"

text \<open>No lock is active: first half of \<open>wake_up_waiters\<close>.\<close>

definition wake_up_idle :: "lock_env \<Rightarrow> lock_state \<Rightarrow> lock_state" where
  "wake_up_idle env s =
     (case write_wait (lk s) of
        [] \<Rightarrow> free_waiting_readers False s
      | d # ds \<Rightarrow>
          if ty s d \<noteq> TL_WRITE_LOW_PRIORITY \<or> read_wait (lk s) = [] \<or>
             ty s (hd (read_wait (lk s))) < TL_READ_HIGH_PRIORITY
          then
            let s2 = count_write env s
            in if too_many_writes env s \<and> read_wait (lk s2) \<noteq> []
               then free_all_read_locks False s2
               else (case grant_writers env d ds s2 of (s3, d') \<Rightarrow>
                 if TL_WRITE_LOW_PRIORITY \<le> ty s3 d' then s3
                 else free_waiting_readers
                        (ty s3 d' = TL_WRITE_CONCURRENT_INSERT \<or> ty s3 d' = TL_WRITE_ALLOW_WRITE)
                        s3)
          else free_waiting_readers
                 (ty s d = TL_WRITE_CONCURRENT_INSERT \<or> ty s d = TL_WRITE_ALLOW_WRITE) s)"

text \<open>Only readers are active: the other half.\<close>

definition wake_up_readers_active :: "lock_env \<Rightarrow> lock_state \<Rightarrow> lock_state" where
  "wake_up_readers_active env s =
     (case write_wait (lk s) of
        [] \<Rightarrow> free_waiting_readers False s
      | d # ds \<Rightarrow>
          let lock_type = ty s d in
          if lock_type \<le> TL_WRITE_DELAYED \<and>
             (lock_type \<noteq> TL_WRITE_CONCURRENT_INSERT \<and> lock_type \<noteq> TL_WRITE_ALLOW_WRITE \<or>
              read_no_write_count (lk s) = 0)
          then
            if lock_type = TL_WRITE_CONCURRENT_INSERT \<and>
               concurrent_insert_refused env (status_param (heap s d))
            then free_waiting_readers False (set_type d TL_WRITE s)
            else free_waiting_readers
                   (lock_type = TL_WRITE_CONCURRENT_INSERT \<or> lock_type = TL_WRITE_ALLOW_WRITE)
                   (grant_shared_writers lock_type d ds s)
          else s)"

definition wake_up_waiters :: "lock_env \<Rightarrow> lock_state \<Rightarrow> lock_state" where
  "wake_up_waiters env s =
     (if write_q (lk s) \<noteq> [] then s
      else if read_q (lk s) = [] then wake_up_idle env s
      else wake_up_readers_active env s)"

section \<open>Waiting\<close>

datatype wait_queue = Read_wait | Write_wait

text \<open>
  \<open>wait_for_lock\<close> up to the first \<open>mysql_cond_timedwait\<close>: the request is appended to the wait
  queue unless it is there already, and its \<open>cond\<close> is set to the condition variable \<open>c\<close> of
  the calling thread.
\<close>

definition wait_for_lock_begin ::
  "wait_queue \<Rightarrow> nat \<Rightarrow> bool \<Rightarrow> nat \<Rightarrow> lock_state \<Rightarrow> lock_state" where
  "wait_for_lock_begin wait d in_wait_list c s =
     (let s1 = (if in_wait_list then s
                else case wait of
                       Read_wait \<Rightarrow> s\<lparr>lk := (lk s)\<lparr>read_wait := read_wait (lk s) @ [d]\<rparr>\<rparr>
                     | Write_wait \<Rightarrow> s\<lparr>lk := (lk s)\<lparr>write_wait := write_wait (lk s) @ [d]\<rparr>\<rparr>)
      in upd d (cond_update (\<lambda>_. Some c)) s1)"

text \<open>
  \<open>wait_for_lock\<close> from the end of its loop: the loop ends when \<open>data->cond\<close> was cleared (granted
  or aborted by another thread), when the wait timed out (\<open>timed_out\<close>) or when the thread was
  killed (otherwise).
\<close>

definition wait_for_lock_end ::
  "lock_env \<Rightarrow> wait_queue \<Rightarrow> nat \<Rightarrow> bool \<Rightarrow> lock_state \<Rightarrow> lock_state \<times> enum_thr_lock_result" where
  "wait_for_lock_end env wait d timed_out s =
     (case cond (heap s d) of
        Some c \<Rightarrow>
          (let s1 = (case wait of
                       Read_wait \<Rightarrow> s\<lparr>lk := (lk s)\<lparr>read_wait := remove1 d (read_wait (lk s))\<rparr>\<rparr>
                     | Write_wait \<Rightarrow> s\<lparr>lk := (lk s)\<lparr>write_wait := remove1 d (write_wait (lk s))\<rparr>\<rparr>);
               s2 = set_type d TL_UNLOCK s1
           in (wake_up_waiters env s2,
               if timed_out then THR_LOCK_WAIT_TIMEOUT else THR_LOCK_ABORTED))
      | None \<Rightarrow>
          if ty s d = TL_UNLOCK then (s, THR_LOCK_ABORTED)
          else (emit_if (get_status (lk s))
                  (Get_status (status_param (heap s d)) (ty s d = TL_WRITE_CONCURRENT_INSERT)) s,
                THR_LOCK_SUCCESS))"

section \<open>Requesting a lock\<close>

text \<open>
  The three ways a request leaves \<open>thr_lock\<close> at once (first component of the result is the new
  state, second \<open>Some\<close> result), and the call of \<open>wait_for_lock\<close> (second component \<open>None\<close>: the
  thread sleeps with the request in a wait queue).
\<close>

definition grant_read :: "nat \<Rightarrow> lock_state \<Rightarrow> lock_state" where
  "grant_read d s =
     (let s1 = s\<lparr>lk := (lk s)\<lparr>read_q := read_q (lk s) @ [d]\<rparr>\<rparr>;
          s2 = (if ty s1 d = TL_READ_NO_INSERT
                then s1\<lparr>lk := (lk s1)\<lparr>read_no_write_count := read_no_write_count (lk s1) + 1\<rparr>\<rparr>
                else s1)
      in emit_if (get_status (lk s2)) (Get_status (status_param (heap s2 d)) False) s2)"

definition grant_write :: "nat \<Rightarrow> bool \<Rightarrow> lock_state \<Rightarrow> lock_state" where
  "grant_write d concurrent_insert s =
     (let s1 = s\<lparr>lk := (lk s)\<lparr>write_q := write_q (lk s) @ [d]\<rparr>\<rparr>
      in emit_if (get_status (lk s1)) (Get_status (status_param (heap s1 d)) concurrent_insert) s1)"

definition abort_request :: "nat \<Rightarrow> lock_state \<Rightarrow> lock_state \<times> enum_thr_lock_result option" where
  "abort_request d s = (set_type d TL_UNLOCK s, Some THR_LOCK_ABORTED)"

text \<open>Request for a READ lock.\<close>

definition thr_lock_read ::
  "nat \<Rightarrow> nat \<Rightarrow> lock_state \<Rightarrow> lock_state \<times> enum_thr_lock_result option" where
  "thr_lock_read d c s =
     (let lock_type = ty s d in
      case write_q (lk s) of
        w # ws \<Rightarrow>
          if thr_lock_owner_equal (ow s d) (ow s w) \<or>
             ty s w \<le> TL_WRITE_DELAYED \<and>
               (lock_type \<le> TL_READ_HIGH_PRIORITY \<or> ty s w \<noteq> TL_WRITE_CONCURRENT_INSERT)
          then (grant_read d s, Some THR_LOCK_SUCCESS)
          else if ty s w = TL_WRITE_ONLY then abort_request d s
          else (wait_for_lock_begin Read_wait d False c s, None)
      | [] \<Rightarrow>
          if write_wait (lk s) = [] \<or> ty s (hd (write_wait (lk s))) \<le> TL_WRITE_LOW_PRIORITY \<or>
             lock_type = TL_READ_HIGH_PRIORITY \<or> has_old_lock s (read_q (lk s)) (ow s d)
          then (grant_read d s, Some THR_LOCK_SUCCESS)
          else (wait_for_lock_begin Read_wait d False c s, None))"

text \<open>
  Request for a WRITE lock after the treatment of \<open>TL_WRITE_DELAYED\<close>; first the case that
  some write lock is active, then the case that none is.
\<close>

definition thr_lock_write_held ::
  "nat \<Rightarrow> nat \<Rightarrow> nat \<Rightarrow> lock_state \<Rightarrow> lock_state \<times> enum_thr_lock_result option" where
  "thr_lock_write_held w d c s =
     (let lock_type = ty s d in
      if ty s w = TL_WRITE_ONLY \<and> \<not> thr_lock_owner_equal (ow s d) (ow s w)
      then abort_request d s
      else if (lock_type = TL_WRITE_ALLOW_WRITE \<or>
               lock_type = TL_WRITE_CONCURRENT_INSERT \<and>
                 allow_multiple_concurrent_insert (lk s) \<and> read_no_write_count (lk s) = 0) \<and>
              write_wait (lk s) = [] \<and> ty s w = lock_type \<and> read_no_write_count (lk s) = 0 \<or>
              has_old_lock s (write_q (lk s)) (ow s d)
      then (grant_write d (lock_type = TL_WRITE_CONCURRENT_INSERT) s, Some THR_LOCK_SUCCESS)
      else (wait_for_lock_begin Write_wait d False c s, None))"

definition thr_lock_write_free ::
  "lock_env \<Rightarrow> nat \<Rightarrow> nat \<Rightarrow> lock_state \<Rightarrow> lock_state \<times> enum_thr_lock_result option" where
  "thr_lock_write_free env d c s =
     (if write_wait (lk s) = []
      then
        let ci = (ty s d = TL_WRITE_CONCURRENT_INSERT);
            refused = concurrent_insert_refused env (status_param (heap s d));
            s1 = (if ci \<and> refused
                  then set_type d (thr_upgraded_concurrent_insert_lock env) s else s);
            lock_type = ty s1 d
        in if read_q (lk s1) = [] \<or>
              lock_type \<le> TL_WRITE_DELAYED \<and>
                (lock_type \<noteq> TL_WRITE_CONCURRENT_INSERT \<and> lock_type \<noteq> TL_WRITE_ALLOW_WRITE \<or>
                 read_no_write_count (lk s1) = 0)
           then (grant_write d (ci \<and> \<not> refused) s1, Some THR_LOCK_SUCCESS)
           else (wait_for_lock_begin Write_wait d False c s1, None)
      else (wait_for_lock_begin Write_wait d False c s, None))"

definition thr_lock_write_any ::
  "lock_env \<Rightarrow> nat \<Rightarrow> nat \<Rightarrow> lock_state \<Rightarrow> lock_state \<times> enum_thr_lock_result option" where
  "thr_lock_write_any env d c s =
     (case write_q (lk s) of
        w # ws \<Rightarrow> thr_lock_write_held w d c s
      | [] \<Rightarrow> thr_lock_write_free env d c s)"

text \<open>\<open>TL_WRITE_DELAYED\<close> never sleeps: it is queued, with \<open>cond\<close> set, and the call returns.\<close>

definition queue_delayed :: "nat \<Rightarrow> nat \<Rightarrow> lock_state \<Rightarrow> lock_state" where
  "queue_delayed d c s =
     upd d (cond_update (\<lambda>_. Some c)) (s\<lparr>lk := (lk s)\<lparr>write_wait := write_wait (lk s) @ [d]\<rparr>\<rparr>)"

definition thr_lock_write ::
  "lock_env \<Rightarrow> nat \<Rightarrow> nat \<Rightarrow> lock_state \<Rightarrow> lock_state \<times> enum_thr_lock_result option" where
  "thr_lock_write env d c s =
     (if ty s d = TL_WRITE_DELAYED
      then if write_q (lk s) \<noteq> [] \<and> ty s (hd (write_q (lk s))) = TL_WRITE_ONLY
           then abort_request d s
           else if write_q (lk s) \<noteq> [] \<or> read_q (lk s) \<noteq> []
           then (queue_delayed d c s, Some THR_LOCK_SUCCESS)
           else thr_lock_write_any env d c s
      else if ty s d = TL_WRITE_CONCURRENT_INSERT \<and> \<not> check_status (lk s)
      then thr_lock_write_any env d c
             (set_type d (thr_upgraded_concurrent_insert_lock env) s)
      else thr_lock_write_any env d c s)"

text \<open>
  \<open>data->cond= 0; data->owner= owner; data->priority&= ~THR_LOCK_LATE_PRIV;\<close> at the start of
  \<open>thr_lock\<close>.  The lock type asked for is in \<open>data->type\<close>.
\<close>

definition init_request :: "nat \<Rightarrow> nat \<Rightarrow> lock_state \<Rightarrow> lock_state" where
  "init_request d own s =
     upd d (\<lambda>x. x\<lparr>cond := None, owner := own, priority := priority x AND NOT THR_LOCK_LATE_PRIV\<rparr>) s"

definition thr_lock ::
  "lock_env \<Rightarrow> nat \<Rightarrow> nat \<Rightarrow> nat \<Rightarrow> lock_state \<Rightarrow> lock_state \<times> enum_thr_lock_result option" where
  "thr_lock env d own c s =
     (let s1 = init_request d own s in
      if ty s1 d \<le> TL_READ_NO_INSERT then thr_lock_read d c s1 else thr_lock_write env d c s1)"

text \<open>
  The \<open>DBUG_ASSERT\<close> of \<open>thr_lock\<close>: a thread that already has a write lock asks for the same or
  a weaker type.  \<open>lock_type\<close> is the type after the replacement of
  \<open>TL_WRITE_CONCURRENT_INSERT\<close>.
\<close>

definition second_write_assert :: "nat \<Rightarrow> nat \<Rightarrow> thr_lock_type \<Rightarrow> lock_state \<Rightarrow> bool" where
  "second_write_assert w own lock_type s \<longleftrightarrow>
     \<not> has_old_lock s (write_q (lk s)) own \<or>
     (lock_type \<le> ty s w \<or> lock_type = TL_WRITE \<and> ty s w = TL_WRITE_LOW_PRIORITY) \<and>
     ty s w \<noteq> TL_WRITE_DELAYED"

section \<open>Releasing a lock\<close>

definition THR_UNLOCK_UPDATE_STATUS :: uint32 where "THR_UNLOCK_UPDATE_STATUS = 1"

definition unlink_request :: "nat \<Rightarrow> lock_state \<Rightarrow> lock_state" where
  "unlink_request d s =
     (if ty s d \<le> TL_READ_NO_INSERT
      then s\<lparr>lk := (lk s)\<lparr>read_q := remove1 d (read_q (lk s))\<rparr>\<rparr>
      else if ty s d = TL_WRITE_DELAYED \<and> cond (heap s d) \<noteq> None
      then s\<lparr>lk := (lk s)\<lparr>write_wait := remove1 d (write_wait (lk s))\<rparr>\<rparr>
      else s\<lparr>lk := (lk s)\<lparr>write_q := remove1 d (write_q (lk s))\<rparr>\<rparr>)"

definition status_on_unlock :: "nat \<Rightarrow> uint32 \<Rightarrow> lock_state \<Rightarrow> lock_state" where
  "status_on_unlock d unlock_flags s =
     (if unlock_flags AND THR_UNLOCK_UPDATE_STATUS \<noteq> 0
      then if TL_WRITE_CONCURRENT_INSERT \<le> ty s d
           then emit_if (update_status (lk s)) (Update_status (status_param (heap s d))) s
           else emit_if (restore_status (lk s)) (Restore_status (status_param (heap s d))) s
      else s)"

definition thr_unlock :: "lock_env \<Rightarrow> nat \<Rightarrow> uint32 \<Rightarrow> lock_state \<Rightarrow> lock_state" where
  "thr_unlock env d unlock_flags s =
     (let s1 = status_on_unlock d unlock_flags (unlink_request d s);
          s2 = (if ty s d = TL_READ_NO_INSERT
                then s1\<lparr>lk := (lk s1)\<lparr>read_no_write_count := read_no_write_count (lk s1) - 1\<rparr>\<rparr>
                else s1)
      in wake_up_waiters env (set_type d TL_UNLOCK s2))"

section \<open>Aborting, downgrading and upgrading\<close>

fun abort_loop :: "nat list \<Rightarrow> lock_state \<Rightarrow> lock_state" where
  "abort_loop [] s = s"
| "abort_loop (d # ds) s = abort_loop ds (mark_free d (set_type d TL_UNLOCK s))"

definition thr_abort_locks :: "bool \<Rightarrow> lock_state \<Rightarrow> lock_state" where
  "thr_abort_locks upgrade_lock s =
     (let s1 = abort_loop (read_wait (lk s)) s;
          s2 = abort_loop (write_wait (lk s1)) s1;
          s3 = s2\<lparr>lk := (lk s2)\<lparr>read_wait := [], write_wait := []\<rparr>\<rparr>
      in if upgrade_lock \<and> write_q (lk s3) \<noteq> []
         then set_type (hd (write_q (lk s3))) TL_WRITE_ONLY s3 else s3)"

text \<open>
  \<open>thread_id\<close> gives \<open>owner->thread_id\<close> of an owner.  The two loops walk a wait queue and unlink
  the requests of the thread.
\<close>

fun abort_thread_loop ::
  "(nat \<Rightarrow> nat) \<Rightarrow> nat \<Rightarrow> wait_queue \<Rightarrow> nat list \<Rightarrow> lock_state \<Rightarrow> bool \<Rightarrow> lock_state \<times> bool" where
  "abort_thread_loop thread_id t q [] s found = (s, found)"
| "abort_thread_loop thread_id t q (d # ds) s found =
     (if thread_id (ow s d) = t
      then
        let s1 = mark_free d (set_type d TL_UNLOCK s);
            s2 = (case q of
                    Read_wait \<Rightarrow> s1\<lparr>lk := (lk s1)\<lparr>read_wait := remove1 d (read_wait (lk s1))\<rparr>\<rparr>
                  | Write_wait \<Rightarrow> s1\<lparr>lk := (lk s1)\<lparr>write_wait := remove1 d (write_wait (lk s1))\<rparr>\<rparr>)
        in abort_thread_loop thread_id t q ds s2 True
      else abort_thread_loop thread_id t q ds s found)"

definition thr_abort_locks_for_thread ::
  "lock_env \<Rightarrow> (nat \<Rightarrow> nat) \<Rightarrow> nat \<Rightarrow> lock_state \<Rightarrow> lock_state \<times> bool" where
  "thr_abort_locks_for_thread env thread_id t s =
     (case abort_thread_loop thread_id t Read_wait (read_wait (lk s)) s False of (s1, f1) \<Rightarrow>
      case abort_thread_loop thread_id t Write_wait (write_wait (lk s1)) s1 f1 of (s2, f2) \<Rightarrow>
        (wake_up_waiters env s2, f2))"

definition thr_downgrade_write_lock :: "nat \<Rightarrow> thr_lock_type \<Rightarrow> lock_state \<Rightarrow> lock_state" where
  "thr_downgrade_write_lock d new_lock_type s = set_type d new_lock_type s"

text \<open>
  \<open>thr_upgrade_write_delay_lock\<close> up to the sleep (\<open>None\<close>) or its early return, and from the
  end of the sleep.  \<open>trans_failed\<close> is what the engine's \<open>start_trans\<close> returns.
\<close>

definition put_first_in_write_wait :: "nat \<Rightarrow> lock_state \<Rightarrow> lock_state" where
  "put_first_in_write_wait d s =
     s\<lparr>lk := (lk s)\<lparr>write_q := remove1 d (write_q (lk s)), write_wait := d # write_wait (lk s)\<rparr>\<rparr>"

definition thr_upgrade_write_delay_lock ::
  "nat \<Rightarrow> thr_lock_type \<Rightarrow> nat \<Rightarrow> lock_state \<Rightarrow> lock_state \<times> bool option" where
  "thr_upgrade_write_delay_lock d new_lock_type c s =
     (if ty s d = TL_UNLOCK \<or> TL_WRITE_LOW_PRIORITY \<le> ty s d
      then (s, Some (ty s d = TL_UNLOCK))
      else
        let s1 = set_type d new_lock_type s in
        if cond (heap s1 d) = None
        then if read_q (lk s1) = []
             then (emit_if (start_trans (lk s1)) (Start_trans (status_param (heap s1 d)))
                    (emit_if (get_status (lk s1)) (Get_status (status_param (heap s1 d)) False) s1),
                   Some False)
             else (wait_for_lock_begin Write_wait d True c (put_first_in_write_wait d s1), None)
        else (wait_for_lock_begin Write_wait d True c s1, None))"

definition thr_upgrade_write_delay_lock_end ::
  "lock_env \<Rightarrow> nat \<Rightarrow> bool \<Rightarrow> bool \<Rightarrow> lock_state \<Rightarrow> lock_state \<times> bool" where
  "thr_upgrade_write_delay_lock_end env d timed_out trans_failed s =
     (case wait_for_lock_end env Write_wait d timed_out s of (s1, res) \<Rightarrow>
        if res = THR_LOCK_SUCCESS \<and> start_trans (lk s1)
        then (emit (Start_trans (status_param (heap s1 d))) s1, trans_failed)
        else (s1, False))"

text \<open>
  \<open>thr_reschedule_write_lock\<close> up to its call of \<open>thr_upgrade_write_delay_lock\<close>; \<open>Some t\<close>: the
  call follows, with the old type \<open>t\<close>.
\<close>

definition thr_reschedule_write_lock ::
  "nat \<Rightarrow> nat \<Rightarrow> lock_state \<Rightarrow> lock_state \<times> thr_lock_type option" where
  "thr_reschedule_write_lock d c s =
     (if read_wait (lk s) = [] then (s, None)
      else
        let s1 = emit_if (update_status (lk s)) (Update_status (status_param (heap s d)))
                   (set_type d TL_WRITE_DELAYED s);
            s2 = upd d (cond_update (\<lambda>_. Some c)) (put_first_in_write_wait d s1)
        in (free_all_read_locks False s2, Some (ty s d)))"

end
