(* ===== verification/Thr_Lock_Inv.thy ===== *)
theory Thr_Lock_Inv
  imports Thr_Lock
begin

text \<open>
  The invariant of a table lock and its preservation by every operation of
  \<open>src/mysys/thr_lock.c\<close>: the structure of the four queues, the meaning of
  \<open>read_no_write_count\<close>, which requests may be active together, and that no request waits
  while nothing is active.  Closed forms of the wake-up loops come first, then one preservation
  lemma per operation, collected in \<open>inv_intros\<close>.
\<close>

section \<open>The invariant\<close>

text \<open>
  Addresses of requests are bounded so that \<open>read_no_write_count\<close>, a 32-bit counter of queued
  requests, cannot wrap.
\<close>

definition addressable :: "nat \<Rightarrow> bool" where "addressable d \<longleftrightarrow> int d < 2 ^ 32 - 1"

definition is_read :: "thr_lock_type \<Rightarrow> bool" where
  "is_read t \<longleftrightarrow> TL_UNLOCK < t \<and> t \<le> TL_READ_NO_INSERT"

text \<open>\<open>TL_WRITE_DEFAULT\<close> is used by the parser only and never reaches the lock manager.\<close>

definition is_write :: "thr_lock_type \<Rightarrow> bool" where
  "is_write t \<longleftrightarrow> TL_READ_NO_INSERT < t \<and> t \<noteq> TL_WRITE_DEFAULT"

text \<open>The matrix in the comment of \<open>thr_lock\<close>: a held write type and a granted read type.\<close>

definition rw_compatible :: "thr_lock_type \<Rightarrow> thr_lock_type \<Rightarrow> bool" where
  "rw_compatible held req \<longleftrightarrow>
     held \<le> TL_WRITE_DELAYED \<and> (req \<le> TL_READ_HIGH_PRIORITY \<or> held \<noteq> TL_WRITE_CONCURRENT_INSERT)"

definition requests :: "lock_state \<Rightarrow> nat list" where
  "requests s = read_q (lk s) @ read_wait (lk s) @ write_q (lk s) @ write_wait (lk s)"

definition queues_ok :: "lock_state \<Rightarrow> bool" where
  "queues_ok s \<longleftrightarrow>
     distinct (requests s) \<and> (\<forall>d\<in>set (requests s). addressable d) \<and>
     (\<forall>d\<in>set (read_q (lk s)). is_read (ty s d) \<and> cond (heap s d) = None) \<and>
     (\<forall>d\<in>set (read_wait (lk s)). is_read (ty s d) \<and> cond (heap s d) \<noteq> None) \<and>
     (\<forall>d\<in>set (write_q (lk s)). is_write (ty s d) \<and> cond (heap s d) = None) \<and>
     (\<forall>d\<in>set (write_wait (lk s)). is_write (ty s d) \<and> cond (heap s d) \<noteq> None)"

definition no_insert_readers :: "lock_state \<Rightarrow> nat list" where
  "no_insert_readers s = filter (\<lambda>d. ty s d = TL_READ_NO_INSERT) (read_q (lk s))"

definition count_ok :: "lock_state \<Rightarrow> bool" where
  "count_ok s \<longleftrightarrow> read_no_write_count (lk s) = of_nat (length (no_insert_readers s))"

text \<open>Write types that several threads may hold at once, and the read that the code lets in beside them.\<close>

definition shared_write :: "thr_lock_type \<Rightarrow> bool" where
  "shared_write t \<longleftrightarrow> t = TL_WRITE_ALLOW_WRITE \<or> t = TL_WRITE_CONCURRENT_INSERT"

definition let_in :: "lock_state \<Rightarrow> thr_lock_type \<Rightarrow> thr_lock_type \<Rightarrow> bool" where
  "let_in s held req \<longleftrightarrow>
     rw_compatible held req \<or>
     allow_multiple_concurrent_insert (lk s) \<and> held = TL_WRITE_CONCURRENT_INSERT \<and> req = TL_READ_NO_INSERT"

definition writers_ok :: "lock_state \<Rightarrow> bool" where
  "writers_ok s \<longleftrightarrow>
     (\<forall>w\<in>set (write_q (lk s)). \<forall>w'\<in>set (write_q (lk s)). ow s w = ow s w') \<or>
     (\<forall>w\<in>set (write_q (lk s)). ty s w = TL_WRITE_ALLOW_WRITE) \<or>
     allow_multiple_concurrent_insert (lk s) \<and> (\<forall>w\<in>set (write_q (lk s)). shared_write (ty s w))"

definition readers_ok :: "lock_state \<Rightarrow> bool" where
  "readers_ok s \<longleftrightarrow>
     (\<forall>w\<in>set (write_q (lk s)). \<forall>r\<in>set (read_q (lk s)).
        ow s w = ow s r \<or> let_in s (ty s w) (ty s r))"

definition delayed_ok :: "lock_state \<Rightarrow> bool" where
  "delayed_ok s \<longleftrightarrow>
     (\<forall>w\<in>set (write_q (lk s)). ty s w = TL_WRITE_DELAYED \<longrightarrow> write_q (lk s) = [w])"

text \<open>
  The write locks of one thread are taken from the strongest to the weakest type; the only
  exception is \<open>TL_WRITE\<close> after \<open>TL_WRITE_LOW_PRIORITY\<close> (comment in \<open>thr_lock\<close>).
\<close>

definition weaker :: "thr_lock_type \<Rightarrow> thr_lock_type \<Rightarrow> bool" where
  "weaker t u \<longleftrightarrow> t \<le> u \<or> t = TL_WRITE \<and> u = TL_WRITE_LOW_PRIORITY"

definition order_ok :: "lock_state \<Rightarrow> bool" where
  "order_ok s \<longleftrightarrow>
     sorted_wrt (\<lambda>a b. ow s a = ow s b \<longrightarrow> weaker (ty s b) (ty s a)) (write_q (lk s))"

definition lock_core :: "lock_state \<Rightarrow> bool" where
  "lock_core s \<longleftrightarrow>
     queues_ok s \<and> count_ok s \<and> writers_ok s \<and> readers_ok s \<and> delayed_ok s \<and> order_ok s"

text \<open>No lost wake-up: a request waits only while some request is granted.\<close>

definition no_lost_wakeup :: "lock_state \<Rightarrow> bool" where
  "no_lost_wakeup s \<longleftrightarrow>
     (write_q (lk s) = [] \<and> read_q (lk s) = [] \<longrightarrow> write_wait (lk s) = [] \<and> read_wait (lk s) = []) \<and>
     (write_q (lk s) = [] \<and> write_wait (lk s) = [] \<longrightarrow> read_wait (lk s) = [])"

definition lock_inv :: "lock_state \<Rightarrow> bool" where
  "lock_inv s \<longleftrightarrow> lock_core s \<and> no_lost_wakeup s"

lemmas lock_core_defs = lock_core_def queues_ok_def count_ok_def writers_ok_def readers_ok_def
  delayed_ok_def order_ok_def shared_write_def let_in_def

section \<open>Field equations\<close>

lemma upd_sel [simp]:
  "lk (upd d f s) = lk s" "evs (upd d f s) = evs s" "heap (upd d f s) = (heap s)(d := f (heap s d))"
  by (simp_all add: upd_def)

lemma emit_sel [simp]:
  "lk (emit e s) = lk s" "heap (emit e s) = heap s" "evs (emit e s) = evs s @ [e]"
  by (simp_all add: emit_def)

lemma emit_if_sel [simp]:
  "lk (emit_if b e s) = lk s" "heap (emit_if b e s) = heap s"
  by (simp_all add: emit_if_def)

lemma mark_free_sel [simp]:
  "lk (mark_free d s) = lk s"
  "heap (mark_free d s) = (heap s)(d := (heap s d)\<lparr>cond := None\<rparr>)"
  by (auto simp: mark_free_def fun_eq_iff split: option.splits)

lemma set_type_sel [simp]:
  "lk (set_type d t s) = lk s" "evs (set_type d t s) = evs s"
  "heap (set_type d t s) = (heap s)(d := (heap s d)\<lparr>type := t\<rparr>)"
  by (simp_all add: set_type_def)

lemma start_write_sel [simp]:
  "heap (start_write d ds s) = heap s"
  "lk (start_write d ds s) = (lk s)\<lparr>write_wait := ds, write_q := write_q (lk s) @ [d]\<rparr>"
  by (simp_all add: start_write_def)

lemma has_old_lock_iff: "has_old_lock s ds own \<longleftrightarrow> (\<exists>d\<in>set ds. ow s d = own)"
  by (induction ds) (auto simp: thr_lock_owner_equal_def)

section \<open>Closed forms of the wake-up loops\<close>

definition clear_cond :: "nat set \<Rightarrow> (nat \<Rightarrow> THR_LOCK_DATA) \<Rightarrow> nat \<Rightarrow> THR_LOCK_DATA" where
  "clear_cond D h = (\<lambda>d. if d \<in> D then (h d)\<lparr>cond := None\<rparr> else h d)"

lemma clear_cond_sel [simp]:
  "type (clear_cond D h d) = type (h d)" "owner (clear_cond D h d) = owner (h d)"
  "status_param (clear_cond D h d) = status_param (h d)"
  "cond (clear_cond D h d) = (if d \<in> D then None else cond (h d))"
  by (simp_all add: clear_cond_def)

lemma free_read_loop_heap:
  "heap (free_read_loop uci ds s) =
     clear_cond {d \<in> set ds. \<not> (uci \<and> ty s d = TL_READ_NO_INSERT)} (heap s)"
  by (induction ds arbitrary: s) (auto simp: clear_cond_def fun_eq_iff)

lemma free_read_loop_lk:
  assumes "distinct ds" "set ds \<inter> set R = {}" "read_q (lk s) = R @ Q @ ds" "set Q \<inter> set ds = {}"
  shows "lk (free_read_loop uci ds s) =
     (lk s)\<lparr>read_q := R @ Q @ filter (\<lambda>d. \<not> (uci \<and> ty s d = TL_READ_NO_INSERT)) ds,
           read_wait := read_wait (lk s) @ filter (\<lambda>d. uci \<and> ty s d = TL_READ_NO_INSERT) ds,
           read_no_write_count := read_no_write_count (lk s) +
             of_nat (length (filter (\<lambda>d. \<not> uci \<and> ty s d = TL_READ_NO_INSERT) ds))\<rparr>"
  using assms
proof (induction ds arbitrary: s Q)
  case Nil
  then show ?case by simp
next
  case (Cons d ds)
  have skip: "d \<notin> set R" "d \<notin> set Q" "d \<notin> set ds" using Cons.prems by auto
  show ?case
  proof (cases "uci \<and> ty s d = TL_READ_NO_INSERT")
    case True
    let ?s = "s\<lparr>lk := (lk s)\<lparr>read_q := R @ Q @ ds, read_wait := read_wait (lk s) @ [d]\<rparr>\<rparr>"
    have "free_read_loop uci (d # ds) s = free_read_loop uci ds ?s"
      using True skip Cons.prems(3) by (simp add: remove1_append)
    then show ?thesis
      using Cons.IH [of ?s Q] Cons.prems True by simp
  next
    case False
    let ?s = "mark_free d (if ty s d = TL_READ_NO_INSERT
       then s\<lparr>lk := (lk s)\<lparr>read_no_write_count := read_no_write_count (lk s) + 1\<rparr>\<rparr> else s)"
    have step: "free_read_loop uci (d # ds) s = free_read_loop uci ds ?s"
      using False by auto
    have same: "\<And>x. ty ?s x = ty s x"
      by auto
    show ?thesis
      using Cons.IH [of ?s "Q @ [d]"] Cons.prems False unfolding step same by auto
  qed
qed

definition freed_readers :: "bool \<Rightarrow> lock_state \<Rightarrow> nat list" where
  "freed_readers uci s =
     filter (\<lambda>d. \<not> (uci \<and> ty s d = TL_READ_NO_INSERT)) (read_wait (lk s))"

lemma free_all_read_locks_heap:
  "heap (free_all_read_locks uci s) = clear_cond (set (freed_readers uci s)) (heap s)"
  by (simp add: free_all_read_locks_def Let_def free_read_loop_heap freed_readers_def)

lemma free_all_read_locks_queues:
  assumes "distinct (requests s)"
  shows "read_q (lk (free_all_read_locks uci s)) = read_q (lk s) @ freed_readers uci s"
    and "read_wait (lk (free_all_read_locks uci s)) =
           filter (\<lambda>d. uci \<and> ty s d = TL_READ_NO_INSERT) (read_wait (lk s))"
    and "read_no_write_count (lk (free_all_read_locks uci s)) = read_no_write_count (lk s) +
           of_nat (length (filter (\<lambda>d. ty s d = TL_READ_NO_INSERT) (freed_readers uci s)))"
    and "write_q (lk (free_all_read_locks uci s)) = write_q (lk s)"
    and "write_wait (lk (free_all_read_locks uci s)) = write_wait (lk s)"
    and "allow_multiple_concurrent_insert (lk (free_all_read_locks uci s)) =
           allow_multiple_concurrent_insert (lk s)"
    and "check_status (lk (free_all_read_locks uci s)) = check_status (lk s)"
proof -
  let ?s = "s\<lparr>lk := (lk s)\<lparr>read_q := read_q (lk s) @ read_wait (lk s), read_wait := []\<rparr>\<rparr>"
  have cnt: "filter (\<lambda>d. ty s d = TL_READ_NO_INSERT) (freed_readers uci s)
      = filter (\<lambda>d. \<not> uci \<and> ty s d = TL_READ_NO_INSERT) (read_wait (lk s))"
    by (auto simp: freed_readers_def intro!: filter_cong)
  have loop: "lk (free_read_loop uci (read_wait (lk s)) ?s) =
     (lk s)\<lparr>read_q := read_q (lk s) @ freed_readers uci s,
       read_wait := filter (\<lambda>d. uci \<and> ty s d = TL_READ_NO_INSERT) (read_wait (lk s)),
       read_no_write_count := read_no_write_count (lk s) +
         of_nat (length (filter (\<lambda>d. ty s d = TL_READ_NO_INSERT) (freed_readers uci s)))\<rparr>"
    using free_read_loop_lk [of "read_wait (lk s)" "read_q (lk s)" ?s "[]" uci] assms
    unfolding cnt by (auto simp: requests_def freed_readers_def)
  show "read_q (lk (free_all_read_locks uci s)) = read_q (lk s) @ freed_readers uci s"
    "read_wait (lk (free_all_read_locks uci s)) =
           filter (\<lambda>d. uci \<and> ty s d = TL_READ_NO_INSERT) (read_wait (lk s))"
    "read_no_write_count (lk (free_all_read_locks uci s)) = read_no_write_count (lk s) +
           of_nat (length (filter (\<lambda>d. ty s d = TL_READ_NO_INSERT) (freed_readers uci s)))"
    "write_q (lk (free_all_read_locks uci s)) = write_q (lk s)"
    "write_wait (lk (free_all_read_locks uci s)) = write_wait (lk s)"
    "allow_multiple_concurrent_insert (lk (free_all_read_locks uci s)) =
           allow_multiple_concurrent_insert (lk s)"
    "check_status (lk (free_all_read_locks uci s)) = check_status (lk s)"
    by (simp_all add: free_all_read_locks_def Let_def loop)
qed

text \<open>What granting a run of waiting writers does to the state.\<close>

definition writers_started :: "nat list \<Rightarrow> nat list \<Rightarrow> lock_state \<Rightarrow> lock_state \<Rightarrow> bool" where
  "writers_started g rest s s' \<longleftrightarrow>
     write_wait (lk s) = g @ rest \<and> g \<noteq> [] \<and>
     lk s' = (lk s)\<lparr>write_q := write_q (lk s) @ g, write_wait := rest\<rparr> \<and>
     (\<forall>d. d \<notin> set g \<longrightarrow> heap s' d = heap s d) \<and>
     (\<forall>d\<in>set g. cond (heap s' d) = None \<and> ow s' d = ow s d \<and> lock (heap s' d) = lock (heap s d)) \<and>
     ((\<forall>d\<in>set g. ty s' d = TL_WRITE_ALLOW_WRITE \<and> ty s d = TL_WRITE_ALLOW_WRITE) \<or>
      length g = 1 \<and> ty s' (hd g) \<noteq> TL_WRITE_ALLOW_WRITE \<and>
        (ty s' (hd g) = ty s (hd g) \<or>
         ty s (hd g) = TL_WRITE_CONCURRENT_INSERT \<and> ty s' (hd g) = TL_WRITE))"

lemma writers_started_step:
  assumes "writers_started g rest s1 s2"
    and "write_wait (lk s) = d # g @ rest" "d \<notin> set g"
    and "lk s1 = (lk s)\<lparr>write_wait := g @ rest, write_q := write_q (lk s) @ [d]\<rparr>"
    and "heap s1 = (heap s)(d := (heap s d)\<lparr>cond := None\<rparr>)"
    and "ty s d = TL_WRITE_ALLOW_WRITE" "ty s (hd g) = TL_WRITE_ALLOW_WRITE"
  shows "writers_started (d # g) rest s s2"
proof -
  have g: "g \<noteq> []" "hd g \<noteq> d" using assms(1,3) by (auto simp: writers_started_def)
  have "\<forall>x\<in>set g. ty s2 x = TL_WRITE_ALLOW_WRITE \<and> ty s x = TL_WRITE_ALLOW_WRITE"
  proof -
    consider "\<forall>x\<in>set g. ty s2 x = TL_WRITE_ALLOW_WRITE \<and> ty s1 x = TL_WRITE_ALLOW_WRITE"
      | "length g = 1" "ty s2 (hd g) \<noteq> TL_WRITE_ALLOW_WRITE"
        "ty s2 (hd g) = ty s1 (hd g) \<or> ty s1 (hd g) = TL_WRITE_CONCURRENT_INSERT"
      using assms(1) unfolding writers_started_def by blast
    then show ?thesis
      using assms(3,5,7) g by cases (auto simp: fun_upd_def split: if_splits)
  qed
  then show ?thesis
    using assms unfolding writers_started_def by (auto simp: fun_upd_def)
qed

lemma writers_started_one:
  assumes "write_wait (lk s) = d # ds"
    and "lk s' = (lk s)\<lparr>write_wait := ds, write_q := write_q (lk s) @ [d]\<rparr>"
    and "heap s' = (heap s)(d := (heap s d)\<lparr>cond := None, type := t\<rparr>)"
    and "t = ty s d \<or> ty s d = TL_WRITE_CONCURRENT_INSERT \<and> t = TL_WRITE"
  shows "writers_started [d] ds s s'"
  using assms by (auto simp: writers_started_def)

lemma grant_writers_started:
  assumes "write_wait (lk s) = d # ds" "distinct (d # ds)"
  shows "\<exists>g rest. writers_started g rest s (fst (grant_writers env d ds s)) \<and>
           snd (grant_writers env d ds s) = last g"
  using assms
proof (induction ds arbitrary: d s)
  case Nil
  have "writers_started [d] [] s (fst (grant_writers env d [] s))"
    by (rule writers_started_one [where t = "ty (fst (grant_writers env d [] s)) d"])
      (use Nil in \<open>auto simp: grant_writers.simps Let_def fun_upd_def upd_def\<close>)
  moreover have "snd (grant_writers env d [] s) = d"
    by (simp add: grant_writers.simps Let_def)
  ultimately show ?case by (metis last.simps)
next
  case (Cons d' ds)
  let ?s = "mark_free d (start_write d (d' # ds) s)"
  show ?case
  proof (cases "ty s d = TL_WRITE_ALLOW_WRITE \<and> ty s d' = TL_WRITE_ALLOW_WRITE")
    case True
    have step: "grant_writers env d (d' # ds) s = grant_writers env d' ds ?s"
      using True Cons.prems(2) by (subst grant_writers.simps) (auto simp: Let_def)
    obtain g rest where g: "writers_started g rest ?s (fst (grant_writers env d' ds ?s))"
        "snd (grant_writers env d' ds ?s) = last g"
      using Cons.IH [of ?s d'] Cons.prems by auto
    have gr: "d' # ds = g @ rest" "g \<noteq> []" using g(1) Cons.prems by (auto simp: writers_started_def)
    then have hg: "hd g = d'" "d \<notin> set g" using Cons.prems(2)
      by (metis hd_append2 list.sel(1), metis Un_iff distinct.simps(2) set_append)
    have "writers_started (d # g) rest s (fst (grant_writers env d' ds ?s))"
      by (rule writers_started_step [OF g(1)]) (use Cons.prems True gr hg in auto)
    then show ?thesis unfolding step using g(2) gr by (metis last.simps)
  next
    case False
    have "writers_started [d] (d' # ds) s (fst (grant_writers env d (d' # ds) s))"
      by (rule writers_started_one [where t = "ty (fst (grant_writers env d (d' # ds) s)) d"])
        (use Cons.prems False in \<open>auto simp: grant_writers.simps Let_def fun_upd_def upd_def\<close>)
    moreover have "snd (grant_writers env d (d' # ds) s) = d"
      using Cons.prems False by (auto simp: grant_writers.simps Let_def)
    ultimately show ?thesis by (metis last.simps)
  qed
qed

lemma grant_shared_writers_started:
  assumes "write_wait (lk s) = d # ds" "distinct (d # ds)" "ty s d = t"
  shows "\<exists>g rest. writers_started g rest s (grant_shared_writers t d ds s) \<and>
           ty (grant_shared_writers t d ds s) (last g) = t"
  using assms
proof (induction ds arbitrary: d s)
  case Nil
  have "writers_started [d] [] s (grant_shared_writers t d [] s)"
    by (rule writers_started_one [where t = t])
      (use Nil in \<open>auto simp: grant_shared_writers.simps Let_def fun_upd_def\<close>)
  moreover have "ty (grant_shared_writers t d [] s) d = t"
    using Nil by (simp add: grant_shared_writers.simps Let_def)
  ultimately show ?case by (metis last.simps)
next
  case (Cons d' ds)
  let ?s = "mark_free d (start_write d (d' # ds) s)"
  show ?case
  proof (cases "t = TL_WRITE_ALLOW_WRITE \<and> ty s d' = TL_WRITE_ALLOW_WRITE")
    case True
    have step: "grant_shared_writers t d (d' # ds) s = grant_shared_writers t d' ds ?s"
      using True Cons.prems(2) by (subst grant_shared_writers.simps) (auto simp: Let_def)
    obtain g rest where g: "writers_started g rest ?s (grant_shared_writers t d' ds ?s)"
        "ty (grant_shared_writers t d' ds ?s) (last g) = t"
      using Cons.IH [of ?s d'] Cons.prems True by auto
    have gr: "d' # ds = g @ rest" "g \<noteq> []" using g(1) Cons.prems by (auto simp: writers_started_def)
    then have hg: "hd g = d'" "d \<notin> set g" using Cons.prems(2)
      by (metis hd_append2 list.sel(1), metis Un_iff distinct.simps(2) set_append)
    have "writers_started (d # g) rest s (grant_shared_writers t d' ds ?s)"
      by (rule writers_started_step [OF g(1)]) (use Cons.prems True gr hg in auto)
    then show ?thesis unfolding step using g(2) gr by (metis last.simps)
  next
    case False
    have "writers_started [d] (d' # ds) s (grant_shared_writers t d (d' # ds) s)"
      by (rule writers_started_one [where t = t])
        (use Cons.prems False in \<open>auto simp: grant_shared_writers.simps Let_def fun_upd_def\<close>)
    moreover have "ty (grant_shared_writers t d (d' # ds) s) d = t"
      using Cons.prems False by (auto simp: grant_shared_writers.simps Let_def)
    ultimately show ?thesis by (metis last.simps)
  qed
qed

section \<open>Waking up keeps the invariant and loses no wake-up\<close>

lemma no_insert_count_bound:
  assumes "queues_ok s"
  shows "length (no_insert_readers s) < 2 ^ 32"
proof -
  have "distinct (no_insert_readers s)" "set (no_insert_readers s) \<subseteq> {..<2 ^ 32 - 1}"
    using assms by (auto simp: queues_ok_def requests_def no_insert_readers_def addressable_def)
  then have "length (no_insert_readers s) \<le> 2 ^ 32 - 1"
    by (metis card_lessThan card_mono distinct_card finite_lessThan)
  then show ?thesis by simp
qed

lemma no_write_count_zero:
  assumes "queues_ok s" "count_ok s"
  shows "read_no_write_count (lk s) = 0 \<longleftrightarrow> (\<forall>d\<in>set (read_q (lk s)). ty s d \<noteq> TL_READ_NO_INSERT)"
proof -
  have "unat (of_nat (length (no_insert_readers s)) :: uint32) = length (no_insert_readers s)"
    using no_insert_count_bound [OF assms(1)] by (simp add: unat_of_nat take_bit_nat_eq_self)
  then have "(of_nat (length (no_insert_readers s)) :: uint32) = 0 \<longleftrightarrow> length (no_insert_readers s) = 0"
    using unat_eq_0 [of "of_nat (length (no_insert_readers s)) :: uint32"] by argo
  then have "read_no_write_count (lk s) = 0 \<longleftrightarrow> length (no_insert_readers s) = 0"
    using assms(2) unfolding count_ok_def by argo
  then show ?thesis by (auto simp: no_insert_readers_def filter_empty_conv)
qed

lemma rw_compatible_simps:
  "is_read r \<Longrightarrow> rw_compatible TL_WRITE_ALLOW_WRITE r"
  "is_read r \<Longrightarrow> r \<noteq> TL_READ_NO_INSERT \<Longrightarrow> rw_compatible TL_WRITE_CONCURRENT_INSERT r"
  "is_read r \<Longrightarrow> rw_compatible TL_WRITE_DELAYED r"
  by (cases r; simp add: rw_compatible_def is_read_def tl_order)+

text \<open>Waiting readers may be freed when they are compatible with every active writer.\<close>

lemma free_all_read_locks_queues_ok:
  assumes q: "queues_ok s"
  shows "queues_ok (free_all_read_locks uci s)"
proof -
  have dist: "distinct (requests s)" using q by (simp add: queues_ok_def)
  note fields = free_all_read_locks_queues [OF dist, of uci] free_all_read_locks_heap
  have "set (freed_readers uci s) \<subseteq> set (read_wait (lk s))" "distinct (freed_readers uci s)"
    using dist by (auto simp: freed_readers_def requests_def)
  then show ?thesis
    using q unfolding queues_ok_def requests_def by (auto simp: fields freed_readers_def)
qed

lemma free_all_read_locks_core:
  assumes core: "lock_core s"
    and compat: "\<And>w r. \<lbrakk>w \<in> set (write_q (lk s)); r \<in> set (freed_readers uci s)\<rbrakk>
                   \<Longrightarrow> rw_compatible (ty s w) (ty s r)"
  shows "lock_core (free_all_read_locks uci s)"
proof -
  have dist: "distinct (requests s)" using core by (auto simp: lock_core_def queues_ok_def)
  note fields = free_all_read_locks_queues [OF dist, of uci] free_all_read_locks_heap
  have "queues_ok (free_all_read_locks uci s)"
    using core by (simp add: lock_core_def free_all_read_locks_queues_ok)
  moreover have "count_ok (free_all_read_locks uci s)"
    using core unfolding lock_core_def count_ok_def no_insert_readers_def by (simp add: fields)
  moreover have "writers_ok (free_all_read_locks uci s)" "delayed_ok (free_all_read_locks uci s)"
    "order_ok (free_all_read_locks uci s)"
    using core unfolding lock_core_def writers_ok_def delayed_ok_def order_ok_def
    by (simp_all add: fields)
  moreover have "readers_ok (free_all_read_locks uci s)"
    using core compat unfolding lock_core_def readers_ok_def let_in_def by (auto simp: fields)
  ultimately show ?thesis by (simp add: lock_core_def)
qed

lemma free_waiting_readers_core:
  assumes "lock_core s"
    and "\<And>w r. \<lbrakk>w \<in> set (write_q (lk s)); r \<in> set (freed_readers uci s)\<rbrakk>
            \<Longrightarrow> rw_compatible (ty s w) (ty s r)"
  shows "lock_core (free_waiting_readers uci s)"
  using assms free_all_read_locks_core by (simp add: free_waiting_readers_def)

text \<open>Waiting writers may be started while no writer is active and every reader allows them.\<close>

lemma writers_started_types:
  assumes "writers_started g rest s s'"
  shows "(\<forall>d\<in>set g. ty s' d = TL_WRITE_ALLOW_WRITE \<and> ty s d = TL_WRITE_ALLOW_WRITE) \<or>
      (\<exists>x. g = [x] \<and> ty s' x \<noteq> TL_WRITE_ALLOW_WRITE \<and>
         (ty s' x = ty s x \<or> ty s x = TL_WRITE_CONCURRENT_INSERT \<and> ty s' x = TL_WRITE))"
  using assms unfolding writers_started_def by (auto simp: length_Suc_conv)

lemma writers_started_queues_ok:
  assumes q: "queues_ok s" and st: "writers_started g rest s s'"
  shows "queues_ok s'"
proof -
  have ww: "write_wait (lk s) = g @ rest"
    and lk: "lk s' = (lk s)\<lparr>write_q := write_q (lk s) @ g, write_wait := rest\<rparr>"
    and same: "\<And>d. d \<notin> set g \<Longrightarrow> heap s' d = heap s d"
    and free: "\<And>d. d \<in> set g \<Longrightarrow> cond (heap s' d) = None"
    using st by (auto simp: writers_started_def)
  have out: "\<And>d. d \<in> set (read_q (lk s)) \<union> set (read_wait (lk s)) \<union> set (write_q (lk s)) \<union> set rest \<Longrightarrow>
      d \<notin> set g"
    using q ww by (auto simp: queues_ok_def requests_def)
  have dist: "distinct (requests s')" "set (requests s') = set (requests s)"
    using q lk ww unfolding queues_ok_def requests_def by auto
  have wr: "\<And>d. d \<in> set g \<Longrightarrow> is_write (ty s' d)"
    using writers_started_types [OF st] q ww unfolding queues_ok_def by (auto simp: is_write_def tl_order)
  show ?thesis
    using q dist wr free same out lk ww unfolding queues_ok_def by auto
qed

lemma writers_started_core:
  assumes core: "lock_core s" and st: "writers_started g rest s s'"
    and none: "write_q (lk s) = []"
    and compat: "\<And>r. r \<in> set (read_q (lk s)) \<Longrightarrow> rw_compatible (ty s' (hd g)) (ty s r)"
  shows "lock_core s'"
proof -
  have q: "queues_ok s" using core by (simp add: lock_core_def)
  have ww: "write_wait (lk s) = g @ rest" and g: "g \<noteq> []"
    and lk: "lk s' = (lk s)\<lparr>write_q := g, write_wait := rest\<rparr>"
    and same: "\<And>d. d \<notin> set g \<Longrightarrow> heap s' d = heap s d"
    using st none by (auto simp: writers_started_def)
  note kinds = writers_started_types [OF st]
  have all_hd: "\<And>d. d \<in> set g \<Longrightarrow> ty s' d = ty s' (hd g)"
    using kinds g by (metis list.sel(1) list.set_sel(1) list.set_intros(1) empty_iff insert_iff list.set)
  have out: "\<And>d. d \<in> set (read_q (lk s)) \<union> set (read_wait (lk s)) \<union> set rest \<Longrightarrow> d \<notin> set g"
    using q ww by (auto simp: queues_ok_def requests_def)
  have "queues_ok s'" by (rule writers_started_queues_ok [OF q st])
  moreover have "count_ok s'"
    using core out same lk unfolding lock_core_def count_ok_def no_insert_readers_def
    by (auto intro!: arg_cong [where f = of_nat] arg_cong [where f = length] filter_cong)
  moreover have "writers_ok s'" "delayed_ok s'"
    using kinds lk unfolding writers_ok_def delayed_ok_def by auto
  moreover have "order_ok s'"
    using kinds lk unfolding order_ok_def
    by (auto simp: weaker_def sorted_wrt_iff_nth_less)
  moreover have "readers_ok s'"
    using compat all_hd out same lk unfolding readers_ok_def let_in_def by auto
  ultimately show ?thesis by (simp add: lock_core_def)
qed

lemma lock_core_cong:
  assumes "heap s' = heap s" "read_q (lk s') = read_q (lk s)" "read_wait (lk s') = read_wait (lk s)"
    "write_q (lk s') = write_q (lk s)" "write_wait (lk s') = write_wait (lk s)"
    "read_no_write_count (lk s') = read_no_write_count (lk s)"
    "allow_multiple_concurrent_insert (lk s') = allow_multiple_concurrent_insert (lk s)"
  shows "lock_core s' = lock_core s"
  using assms by (simp add: lock_core_defs requests_def no_insert_readers_def)

lemma lock_core_write_lock_count [simp]:
  "lock_core (s\<lparr>lk := (lk s)\<lparr>write_lock_count := n\<rparr>\<rparr>) = lock_core s"
  by (rule lock_core_cong) simp_all

lemma lock_core_emit_if [simp]: "lock_core (emit_if b e s) = lock_core s"
  by (rule lock_core_cong) simp_all

lemma order_ok_mono:
  assumes "order_ok s" "write_q (lk s') = filter P (write_q (lk s))"
    "\<And>x. x \<in> set (write_q (lk s')) \<Longrightarrow> heap s' x = heap s x"
  shows "order_ok s'"
proof -
  have "sorted_wrt (\<lambda>a b. ow s a = ow s b \<longrightarrow> weaker (ty s b) (ty s a)) (write_q (lk s'))"
    using assms(1,2) by (simp add: order_ok_def sorted_wrt_filter)
  then show ?thesis
    unfolding order_ok_def by (rule sorted_wrt_mono_rel [rotated]) (simp add: assms(3))
qed

text \<open>Changes to waiting writers only.\<close>

lemma lock_core_frame:
  assumes core: "lock_core s" and lk: "lk s' = lk s"
    and same: "\<And>x. x \<in> set (read_q (lk s)) \<union> set (read_wait (lk s)) \<union> set (write_q (lk s)) \<Longrightarrow>
                heap s' x = heap s x"
    and ww: "\<And>x. x \<in> set (write_wait (lk s)) \<Longrightarrow> is_write (ty s' x) \<and> cond (heap s' x) \<noteq> None"
  shows "lock_core s'"
proof -
  have r: "\<And>x. x \<in> set (read_q (lk s)) \<Longrightarrow> heap s' x = heap s x"
    and rw: "\<And>x. x \<in> set (read_wait (lk s)) \<Longrightarrow> heap s' x = heap s x"
    and w: "\<And>x. x \<in> set (write_q (lk s)) \<Longrightarrow> heap s' x = heap s x"
    using same by auto
  have "requests s' = requests s" by (simp add: requests_def lk)
  then have "queues_ok s'"
    using core ww unfolding lock_core_def queues_ok_def lk
    by (simp add: r rw w cong: ball_cong)
  moreover have "no_insert_readers s' = no_insert_readers s"
    unfolding no_insert_readers_def lk by (auto simp: r intro!: filter_cong)
  then have "count_ok s'" using core by (simp add: lock_core_def count_ok_def lk)
  moreover have "writers_ok s'"
    using core unfolding lock_core_def writers_ok_def lk by (simp add: w cong: ball_cong)
  moreover have "delayed_ok s'"
    using core unfolding lock_core_def delayed_ok_def lk by (simp add: w cong: ball_cong)
  moreover have "readers_ok s'"
    using core unfolding lock_core_def readers_ok_def let_in_def lk by (simp add: w r cong: ball_cong)
  moreover have "order_ok s'"
    by (rule order_ok_mono [where P = "\<lambda>_. True" and s = s]) (use core w lk in \<open>simp_all add: lock_core_def\<close>)
  ultimately show ?thesis by (simp add: lock_core_def)
qed

lemma retype_waiting_core:
  assumes core: "lock_core s" and d: "d \<in> set (write_wait (lk s))"
    and t: "is_write t" "t \<noteq> TL_WRITE_ALLOW_WRITE" "t \<noteq> TL_WRITE_CONCURRENT_INSERT"
  shows "lock_core (set_type d t s)"
proof (rule lock_core_frame [OF core])
  have "d \<notin> set (read_q (lk s)) \<union> set (read_wait (lk s)) \<union> set (write_q (lk s))"
    using core d by (auto simp: lock_core_def queues_ok_def requests_def)
  then show "\<And>x. x \<in> set (read_q (lk s)) \<union> set (read_wait (lk s)) \<union> set (write_q (lk s)) \<Longrightarrow>
      heap (set_type d t s) x = heap s x"
    by auto
qed (use core t in \<open>auto simp: lock_core_def queues_ok_def\<close>)

lemma core_queues_ok [dest]: "lock_core s \<Longrightarrow> queues_ok s"
  and core_count_ok [dest]: "lock_core s \<Longrightarrow> count_ok s"
  by (simp_all add: lock_core_def)

lemma distinct_requests: "lock_core s \<Longrightarrow> distinct (requests s)"
  by (simp add: lock_core_def queues_ok_def)

lemma free_waiting_readers_queues:
  assumes "lock_core s"
  shows "write_q (lk (free_waiting_readers uci s)) = write_q (lk s)"
    and "write_wait (lk (free_waiting_readers uci s)) = write_wait (lk s)"
    and "read_q (lk (free_waiting_readers uci s)) = read_q (lk s) @ freed_readers uci s"
    and "read_wait (lk (free_waiting_readers uci s)) =
           filter (\<lambda>d. uci \<and> ty s d = TL_READ_NO_INSERT) (read_wait (lk s))"
  using free_all_read_locks_queues [OF distinct_requests [OF assms], of uci]
  by (simp_all add: free_waiting_readers_def freed_readers_def)

text \<open>With no active writer, freeing all waiting readers always keeps the invariant.\<close>

lemma free_readers_no_writer:
  assumes "lock_core s" "write_q (lk s) = []" "read_q (lk s) \<noteq> [] \<or> write_wait (lk s) = [] \<or> read_wait (lk s) \<noteq> []"
  shows "lock_inv (free_waiting_readers False s)"
  unfolding lock_inv_def
proof
  show "lock_core (free_waiting_readers False s)"
    by (rule free_waiting_readers_core [OF assms(1)]) (simp add: assms(2))
  show "no_lost_wakeup (free_waiting_readers False s)"
    using assms(2,3) unfolding no_lost_wakeup_def
    by (auto simp: free_waiting_readers_queues [OF assms(1)] freed_readers_def)
qed

lemma freed_reader_is_read:
  assumes "queues_ok s" "r \<in> set (freed_readers uci s)"
  shows "is_read (ty s r)" "uci \<Longrightarrow> ty s r \<noteq> TL_READ_NO_INSERT"
  using assms by (auto simp: freed_readers_def queues_ok_def)

lemma writer_then_readers:
  assumes core: "lock_core s" and st: "writers_started g rest s s'" and none: "write_q (lk s) = []"
    and compat: "\<And>r. r \<in> set (read_q (lk s)) \<Longrightarrow> rw_compatible (ty s' (hd g)) (ty s r)"
    and low: "ty s' (last g) \<le> TL_WRITE_DELAYED"
  shows "lock_inv (free_waiting_readers
           (ty s' (last g) = TL_WRITE_CONCURRENT_INSERT \<or> ty s' (last g) = TL_WRITE_ALLOW_WRITE) s')"
proof -
  have core': "lock_core s'" by (rule writers_started_core [OF assms(1-4)])
  have g: "g \<noteq> []" "write_q (lk s') = g" using st none by (auto simp: writers_started_def)
  have all: "\<forall>d\<in>set g. ty s' d = ty s' (last g)"
    using st g(1) unfolding writers_started_def by (auto simp: length_Suc_conv)
  have "is_write (ty s' (last g))"
    using core' g by (auto simp: lock_core_def queues_ok_def)
  then have cases: "ty s' (last g) = TL_WRITE_ALLOW_WRITE \<or> ty s' (last g) = TL_WRITE_CONCURRENT_INSERT
      \<or> ty s' (last g) = TL_WRITE_DELAYED"
    using low by (cases "ty s' (last g)") (auto simp: is_write_def tl_order)
  let ?u = "ty s' (last g) = TL_WRITE_CONCURRENT_INSERT \<or> ty s' (last g) = TL_WRITE_ALLOW_WRITE"
  have "lock_core (free_waiting_readers ?u s')"
  proof (rule free_waiting_readers_core [OF core'])
    fix w r
    assume w: "w \<in> set (write_q (lk s'))" and r: "r \<in> set (freed_readers ?u s')"
    note r' = freed_reader_is_read [OF core_queues_ok [OF core'] r]
    have "ty s' w = ty s' (last g)" using w unfolding g(2) by (rule bspec [OF all])
    then show "rw_compatible (ty s' w) (ty s' r)"
      using cases r' by (elim disjE) (simp_all add: rw_compatible_simps)
  qed
  moreover have "no_lost_wakeup (free_waiting_readers ?u s')"
    using g by (simp add: no_lost_wakeup_def free_waiting_readers_queues [OF core'])
  ultimately show ?thesis by (simp add: lock_inv_def)
qed

lemma write_wait_distinct:
  "lock_core s \<Longrightarrow> write_wait (lk s) = d # ds \<Longrightarrow> distinct (d # ds)"
  by (auto simp: lock_core_def queues_ok_def requests_def)

lemma tl_not_low: "is_write t \<Longrightarrow> \<not> TL_WRITE_LOW_PRIORITY \<le> t \<Longrightarrow> t \<le> TL_WRITE_DELAYED"
  by (cases t) (simp_all add: tl_order is_write_def)

lemma count_write_core [simp]: "lock_core (count_write env s) = lock_core s"
  by (simp add: count_write_def)

lemma count_write_sel [simp]:
  "heap (count_write env s) = heap s" "read_q (lk (count_write env s)) = read_q (lk s)"
  "read_wait (lk (count_write env s)) = read_wait (lk s)"
  "write_q (lk (count_write env s)) = write_q (lk s)"
  "write_wait (lk (count_write env s)) = write_wait (lk s)"
  by (simp_all add: count_write_def)

text \<open>The branch of \<open>wake_up_waiters\<close> in which nothing is active and a writer is started.\<close>

lemma grant_writers_inv:
  assumes core: "lock_core s" and idle: "write_q (lk s) = []" "read_q (lk s) = []"
    and ww: "write_wait (lk s) = d # ds" and run: "grant_writers env d ds s = (s', d')"
  shows "lock_inv (if TL_WRITE_LOW_PRIORITY \<le> ty s' d' then s'
           else free_waiting_readers
                  (ty s' d' = TL_WRITE_CONCURRENT_INSERT \<or> ty s' d' = TL_WRITE_ALLOW_WRITE) s')"
proof -
  obtain g rest where g: "writers_started g rest s s'" "d' = last g"
    using grant_writers_started [OF ww write_wait_distinct [OF core ww], of env] run by auto
  have core': "lock_core s'"
    by (rule writers_started_core [OF core g(1) idle(1)]) (simp add: idle)
  have w': "write_q (lk s') = g" "g \<noteq> []" using g(1) idle(1) by (auto simp: writers_started_def)
  then have wr: "is_write (ty s' d')" using core' g(2) by (auto simp: lock_core_def queues_ok_def)
  show ?thesis
  proof (cases "TL_WRITE_LOW_PRIORITY \<le> ty s' d'")
    case True
    then show ?thesis using core' w' by (simp add: lock_inv_def no_lost_wakeup_def)
  next
    case False
    then show ?thesis
      using writer_then_readers [OF core g(1) idle(1)] idle(2) tl_not_low [OF wr False] g(2) by simp
  qed
qed

lemma wake_up_idle_inv:
  assumes core: "lock_core s" and idle: "write_q (lk s) = []" "read_q (lk s) = []"
  shows "lock_inv (wake_up_idle env s)"
proof (cases "write_wait (lk s)")
  case Nil
  then show ?thesis using free_readers_no_writer [OF core idle(1)] by (simp add: wake_up_idle_def)
next
  case (Cons d ds)
  let ?s2 = "count_write env s"
  have core2: "lock_core ?s2" using core by simp
  obtain s' d' where run: "grant_writers env d ds ?s2 = (s', d')" by fastforce
  have granted: "lock_inv (if TL_WRITE_LOW_PRIORITY \<le> ty s' d' then s'
           else free_waiting_readers
                  (ty s' d' = TL_WRITE_CONCURRENT_INSERT \<or> ty s' d' = TL_WRITE_ALLOW_WRITE) s')"
    by (rule grant_writers_inv [OF core2 _ _ _ run]) (simp_all add: idle Cons)
  have counted: "read_wait (lk s) \<noteq> [] \<Longrightarrow> lock_inv (free_all_read_locks False ?s2)"
    using free_readers_no_writer [OF core2] idle by (simp add: free_waiting_readers_def)
  have readers: "read_wait (lk s) \<noteq> [] \<Longrightarrow> lock_inv (free_waiting_readers False s)"
    using free_readers_no_writer [OF core] idle by simp
  show ?thesis
  proof (cases "ty s d \<noteq> TL_WRITE_LOW_PRIORITY \<or> read_wait (lk s) = [] \<or>
      ty s (hd (read_wait (lk s))) < TL_READ_HIGH_PRIORITY")
    case True
    show ?thesis
    proof (cases "too_many_writes env s \<and> read_wait (lk s) \<noteq> []")
      case False
      then have "wake_up_idle env s = (if TL_WRITE_LOW_PRIORITY \<le> ty s' d' then s'
           else free_waiting_readers
                  (ty s' d' = TL_WRITE_CONCURRENT_INSERT \<or> ty s' d' = TL_WRITE_ALLOW_WRITE) s')"
        unfolding wake_up_idle_def Cons list.case Let_def count_write_sel run prod.case
        using True by (simp only: if_True if_False)
      then show ?thesis using granted by (simp only:)
    qed (use True Cons counted in \<open>simp add: wake_up_idle_def Let_def\<close>)
  qed (use Cons readers in \<open>simp add: wake_up_idle_def\<close>)
qed

lemma wake_up_readers_active_inv:
  assumes core: "lock_core s" and act: "write_q (lk s) = []" "read_q (lk s) \<noteq> []"
  shows "lock_inv (wake_up_readers_active env s)"
proof (cases "write_wait (lk s)")
  case Nil
  then show ?thesis using free_readers_no_writer [OF core act(1)] by (simp add: wake_up_readers_active_def)
next
  case (Cons d ds)
  let ?t = "ty s d" and ?s' = "grant_shared_writers (ty s d) d ds s"
  let ?start = "?t \<le> TL_WRITE_DELAYED \<and> (?t \<noteq> TL_WRITE_CONCURRENT_INSERT \<and> ?t \<noteq> TL_WRITE_ALLOW_WRITE
      \<or> read_no_write_count (lk s) = 0)"
  have refused: "lock_inv (free_waiting_readers False (set_type d TL_WRITE s))"
  proof (rule free_readers_no_writer)
    show "lock_core (set_type d TL_WRITE s)"
      using Cons by (intro retype_waiting_core [OF core]) (simp_all add: is_write_def tl_order)
  qed (use act in simp_all)
  have started: "lock_inv (free_waiting_readers
      (?t = TL_WRITE_CONCURRENT_INSERT \<or> ?t = TL_WRITE_ALLOW_WRITE) ?s')" if st: ?start
  proof -
    obtain g rest where g: "writers_started g rest s ?s'" "ty ?s' (last g) = ?t"
      using grant_shared_writers_started [OF Cons write_wait_distinct [OF core Cons] refl] by blast
    have hd: "ty ?s' (hd g) = ?t"
      using g unfolding writers_started_def by (auto simp: length_Suc_conv)
    have "rw_compatible (ty ?s' (hd g)) (ty s r)" if r: "r \<in> set (read_q (lk s))" for r
    proof -
      have "is_read (ty s r)" using core r by (simp add: lock_core_def queues_ok_def)
      moreover have "is_write ?t" using core Cons by (simp add: lock_core_def queues_ok_def)
      moreover have "?t = TL_WRITE_CONCURRENT_INSERT \<longrightarrow> ty s r \<noteq> TL_READ_NO_INSERT"
        using st r no_write_count_zero [OF core_queues_ok [OF core] core_count_ok [OF core]] by auto
      ultimately show ?thesis
        using st unfolding hd by (cases ?t) (auto simp: rw_compatible_simps is_write_def tl_order)
    qed
    then show ?thesis
      using writer_then_readers [OF core g(1) act(1)] st unfolding g(2) by blast
  qed
  have idle: "lock_inv s"
    using core act Cons by (simp add: lock_inv_def no_lost_wakeup_def)
  show ?thesis
    unfolding wake_up_readers_active_def Cons list.case Let_def
    using refused started idle by (simp only: split: if_split) blast
qed

lemma wake_up_waiters_inv [inv_intros]:
  assumes "lock_core s"
  shows "lock_inv (wake_up_waiters env s)"
  using wake_up_idle_inv [OF assms] wake_up_readers_active_inv [OF assms] assms
  by (auto simp: wake_up_waiters_def lock_inv_def no_lost_wakeup_def)

section \<open>Operations keep the invariant\<close>

text \<open>Requests may leave the queues at any time.\<close>

lemma lock_core_drop:
  assumes core: "lock_core s"
    and sub: "set (read_q (lk s')) \<subseteq> set (read_q (lk s))"
      "set (read_wait (lk s')) \<subseteq> set (read_wait (lk s))"
      "write_q (lk s') = filter P (write_q (lk s))"
      "set (write_wait (lk s')) \<subseteq> set (write_wait (lk s))"
    and dist: "distinct (requests s')"
    and same: "\<And>x. x \<in> set (requests s') \<Longrightarrow> heap s' x = heap s x"
    and multi: "allow_multiple_concurrent_insert (lk s') = allow_multiple_concurrent_insert (lk s)"
    and count: "count_ok s'"
  shows "lock_core s'"
proof -
  have r: "\<And>x. x \<in> set (read_q (lk s')) \<Longrightarrow> heap s' x = heap s x"
    and rw: "\<And>x. x \<in> set (read_wait (lk s')) \<Longrightarrow> heap s' x = heap s x"
    and w: "\<And>x. x \<in> set (write_q (lk s')) \<Longrightarrow> heap s' x = heap s x"
    and ww: "\<And>x. x \<in> set (write_wait (lk s')) \<Longrightarrow> heap s' x = heap s x"
    using same by (auto simp: requests_def)
  have sub3: "set (write_q (lk s')) \<subseteq> set (write_q (lk s))" using sub(3) by auto
  have all: "set (requests s') \<subseteq> set (requests s)" using sub sub3 by (auto simp: requests_def)
  have "queues_ok s'"
    using core sub(1,2,4) sub3 dist all unfolding lock_core_def queues_ok_def
    by (simp add: r rw w ww subset_iff cong: ball_cong)
  moreover have "writers_ok s'"
    using core sub3 unfolding lock_core_def writers_ok_def multi
    by (simp add: w subset_iff cong: ball_cong) blast
  moreover have "readers_ok s'"
    using core sub(1) sub3 unfolding lock_core_def readers_ok_def let_in_def multi
    by (simp add: r w subset_iff cong: ball_cong)
  moreover have "delayed_ok s'"
    unfolding delayed_ok_def
  proof (intro ballI impI)
    fix x
    assume x: "x \<in> set (write_q (lk s'))" "ty s' x = TL_WRITE_DELAYED"
    then have "write_q (lk s) = [x]"
      using core sub3 unfolding lock_core_def delayed_ok_def by (simp add: w subset_iff)
    then show "write_q (lk s') = [x]" using sub(3) x(1) by (auto split: if_splits)
  qed
  moreover have "order_ok s'"
    by (rule order_ok_mono [OF _ sub(3) w]) (use core in \<open>simp add: lock_core_def\<close>)
  ultimately show ?thesis using count by (simp add: lock_core_def)
qed

lemma no_insert_readers_remove:
  assumes "distinct (read_q (lk s))"
  shows "filter (\<lambda>x. ty s x = TL_READ_NO_INSERT) (remove1 d (read_q (lk s))) =
           remove1 d (no_insert_readers s)"
  using assms by (simp add: no_insert_readers_def filter_remove1)

lemma count_ok_remove_reader:
  assumes core: "lock_core s" and d: "d \<in> set (read_q (lk s))"
    and s': "read_q (lk s') = remove1 d (read_q (lk s))"
      "read_no_write_count (lk s') =
         (if ty s d = TL_READ_NO_INSERT then read_no_write_count (lk s) - 1
          else read_no_write_count (lk s))"
      "\<And>x. x \<noteq> d \<Longrightarrow> ty s' x = ty s x"
  shows "count_ok s'"
proof -
  have dist: "distinct (read_q (lk s))" using core by (auto simp: lock_core_def queues_ok_def requests_def)
  have "no_insert_readers s' = filter (\<lambda>x. ty s x = TL_READ_NO_INSERT) (remove1 d (read_q (lk s)))"
    using s'(1,3) dist unfolding no_insert_readers_def by (auto intro!: filter_cong)
  also have "\<dots> = remove1 d (no_insert_readers s)" by (rule no_insert_readers_remove [OF dist])
  finally have eq: "no_insert_readers s' = remove1 d (no_insert_readers s)" .
  have cnt: "read_no_write_count (lk s) = of_nat (length (no_insert_readers s))"
    using core by (simp add: lock_core_def count_ok_def)
  show ?thesis
  proof (cases "ty s d = TL_READ_NO_INSERT")
    case True
    then have mem: "d \<in> set (no_insert_readers s)" using d by (simp add: no_insert_readers_def)
    then have "length (no_insert_readers s) = Suc (length (remove1 d (no_insert_readers s)))"
      using length_pos_if_in_set [OF mem] by (simp add: length_remove1)
    then show ?thesis using True s'(2) cnt by (simp add: count_ok_def eq)
  next
    case False
    then have "d \<notin> set (no_insert_readers s)" by (simp add: no_insert_readers_def)
    then show ?thesis using False s'(2) cnt by (simp add: count_ok_def eq remove1_idem)
  qed
qed

lemma count_ok_same_readers:
  assumes "lock_core s" "read_q (lk s') = read_q (lk s)"
    "read_no_write_count (lk s') = read_no_write_count (lk s)"
    "\<And>x. x \<in> set (read_q (lk s)) \<Longrightarrow> ty s' x = ty s x"
  shows "count_ok s'"
proof -
  have "no_insert_readers s' = no_insert_readers s"
    unfolding no_insert_readers_def assms(2) by (auto simp: assms(4) intro!: filter_cong)
  then show ?thesis using assms(1,3) by (simp add: lock_core_def count_ok_def)
qed

lemmas queue_facts = lock_core_def queues_ok_def requests_def

text \<open>\<open>thr_unlock\<close> is called for a granted lock, or for a delayed one that still waits.\<close>

definition unlock_ok :: "nat \<Rightarrow> lock_state \<Rightarrow> bool" where
  "unlock_ok d s \<longleftrightarrow>
     d \<in> set (read_q (lk s)) \<or> d \<in> set (write_q (lk s)) \<or>
     d \<in> set (write_wait (lk s)) \<and> ty s d = TL_WRITE_DELAYED"

lemma status_on_unlock_sel [simp]:
  "lk (status_on_unlock d f s) = lk s" "heap (status_on_unlock d f s) = heap s"
  by (simp_all add: status_on_unlock_def)

lemma read_write_types:
  "is_read t \<Longrightarrow> t \<le> TL_READ_NO_INSERT" "is_read t \<Longrightarrow> t \<noteq> TL_UNLOCK"
  "is_write t \<Longrightarrow> \<not> t \<le> TL_READ_NO_INSERT" "is_write t \<Longrightarrow> t \<noteq> TL_READ_NO_INSERT"
  "is_write t \<Longrightarrow> t \<noteq> TL_UNLOCK"
  by (cases t; simp add: is_read_def is_write_def tl_order)+

definition unlocked :: "nat \<Rightarrow> uint32 \<Rightarrow> lock_state \<Rightarrow> lock_state" where
  "unlocked d f s =
     (let s1 = status_on_unlock d f (unlink_request d s);
          s2 = (if ty s d = TL_READ_NO_INSERT
                then s1\<lparr>lk := (lk s1)\<lparr>read_no_write_count := read_no_write_count (lk s1) - 1\<rparr>\<rparr>
                else s1)
      in set_type d TL_UNLOCK s2)"

lemma thr_unlock_unlocked: "thr_unlock env d f s = wake_up_waiters env (unlocked d f s)"
  by (simp add: thr_unlock_def unlocked_def Let_def)

lemma unlocked_lk:
  assumes q: "queues_ok s"
  shows "d \<in> set (read_q (lk s)) \<Longrightarrow> lk (unlocked d f s) = (lk s)\<lparr>read_q := remove1 d (read_q (lk s)),
      read_no_write_count := (if ty s d = TL_READ_NO_INSERT then read_no_write_count (lk s) - 1
          else read_no_write_count (lk s))\<rparr>"
    and "d \<in> set (write_q (lk s)) \<Longrightarrow> lk (unlocked d f s) = (lk s)\<lparr>write_q := remove1 d (write_q (lk s))\<rparr>"
    and "d \<in> set (write_wait (lk s)) \<Longrightarrow> ty s d = TL_WRITE_DELAYED \<Longrightarrow>
      lk (unlocked d f s) = (lk s)\<lparr>write_wait := remove1 d (write_wait (lk s))\<rparr>"
proof -
  assume "d \<in> set (read_q (lk s))"
  then have "is_read (ty s d)" using q by (simp add: queues_ok_def)
  from read_write_types(1) [OF this]
  show "lk (unlocked d f s) = (lk s)\<lparr>read_q := remove1 d (read_q (lk s)),
      read_no_write_count := (if ty s d = TL_READ_NO_INSERT then read_no_write_count (lk s) - 1
          else read_no_write_count (lk s))\<rparr>"
    by (simp add: unlocked_def unlink_request_def Let_def)
next
  assume "d \<in> set (write_q (lk s))"
  then have "is_write (ty s d)" "cond (heap s d) = None"
    using q by (simp_all add: queues_ok_def)
  with read_write_types(3,4) [OF this(1)]
  show "lk (unlocked d f s) = (lk s)\<lparr>write_q := remove1 d (write_q (lk s))\<rparr>"
    by (simp add: unlocked_def unlink_request_def Let_def)
next
  assume "d \<in> set (write_wait (lk s))" "ty s d = TL_WRITE_DELAYED"
  then have "cond (heap s d) \<noteq> None" using q by (simp add: queues_ok_def)
  with \<open>ty s d = TL_WRITE_DELAYED\<close>
  show "lk (unlocked d f s) = (lk s)\<lparr>write_wait := remove1 d (write_wait (lk s))\<rparr>"
    by (simp add: unlocked_def unlink_request_def Let_def tl_order)
qed

lemma unlocked_heap [simp]:
  "heap (unlocked d f s) = (heap s)(d := (heap s d)\<lparr>type := TL_UNLOCK\<rparr>)"
  by (auto simp: unlocked_def unlink_request_def Let_def)

lemma unlocked_core:
  assumes core: "lock_core s" and d: "unlock_ok d s"
  shows "lock_core (unlocked d f s)"
proof -
  have dist: "distinct (requests s)" by (rule distinct_requests [OF core])
  note lks = unlocked_lk [OF core_queues_ok [OF core], of d f]
  consider (r) "d \<in> set (read_q (lk s))" | (w) "d \<in> set (write_q (lk s))"
    | (ww) "d \<in> set (write_wait (lk s))" "ty s d = TL_WRITE_DELAYED"
    using d by (auto simp: unlock_ok_def)
  then show ?thesis
  proof cases
    case r
    show ?thesis
    proof (rule lock_core_drop [OF core, where P = "\<lambda>_. True"])
      show "count_ok (unlocked d f s)"
        by (rule count_ok_remove_reader [OF core r]) (simp_all add: lks(1) [OF r])
    qed (use dist r in \<open>auto simp: lks(1) requests_def\<close>)
  next
    case w
    have "distinct (write_q (lk s))" using dist by (simp add: requests_def)
    then have filt: "remove1 d (write_q (lk s)) = filter (\<lambda>x. d \<noteq> x) (write_q (lk s))"
      by (simp add: distinct_remove1_removeAll removeAll_filter_not_eq)
    show ?thesis
    proof (rule lock_core_drop [OF core, where P = "\<lambda>x. d \<noteq> x"])
      show "write_q (lk (unlocked d f s)) = filter (\<lambda>x. d \<noteq> x) (write_q (lk s))"
        by (simp add: lks(2) [OF w] filt)
      show "count_ok (unlocked d f s)"
        by (rule count_ok_same_readers [OF core]) (use w dist in \<open>auto simp: lks(2) requests_def\<close>)
    qed (use dist w in \<open>auto simp: lks(2) requests_def\<close>)
  next
    case ww
    show ?thesis
    proof (rule lock_core_drop [OF core, where P = "\<lambda>_. True"])
      show "count_ok (unlocked d f s)"
        by (rule count_ok_same_readers [OF core]) (use ww dist in \<open>auto simp: lks(3) requests_def\<close>)
    qed (use dist ww in \<open>auto simp: lks(3) requests_def\<close>)
  qed
qed

lemma thr_unlock_inv [inv_intros]:
  "lock_inv s \<Longrightarrow> unlock_ok d s \<Longrightarrow> lock_inv (thr_unlock env d f s)"
  unfolding thr_unlock_unlocked
  by (intro wake_up_waiters_inv unlocked_core) (simp_all add: lock_inv_def)

text \<open>A waiting request that times out, is killed or is aborted.\<close>

definition waits_in :: "wait_queue \<Rightarrow> nat \<Rightarrow> lock_state \<Rightarrow> bool" where
  "waits_in q d s \<longleftrightarrow>
     (case q of Read_wait \<Rightarrow> d \<in> set (read_wait (lk s)) | Write_wait \<Rightarrow> d \<in> set (write_wait (lk s)))"

definition leave_queue :: "wait_queue \<Rightarrow> nat \<Rightarrow> lock_state \<Rightarrow> lock_state" where
  "leave_queue q d s =
     (case q of
        Read_wait \<Rightarrow> s\<lparr>lk := (lk s)\<lparr>read_wait := remove1 d (read_wait (lk s))\<rparr>\<rparr>
      | Write_wait \<Rightarrow> s\<lparr>lk := (lk s)\<lparr>write_wait := remove1 d (write_wait (lk s))\<rparr>\<rparr>)"

lemma leave_queue_core:
  assumes core: "lock_core s" and d: "waits_in q d s"
    and s': "lk s' = lk (leave_queue q d s)" "\<And>x. x \<noteq> d \<Longrightarrow> heap s' x = heap s x"
  shows "lock_core s'"
proof -
  have dist: "distinct (requests s)" by (rule distinct_requests [OF core])
  have out: "d \<notin> set (read_q (lk s))"
    using dist d by (auto simp: waits_in_def requests_def split: wait_queue.splits)
  have r: "ty s' x = ty s x" if "x \<in> set (read_q (lk s))" for x
    using that out s'(2) [of x] by metis
  show ?thesis
  proof (rule lock_core_drop [OF core, where P = "\<lambda>_. True"])
    show "count_ok s'"
      by (rule count_ok_same_readers [OF core _ _ r]) (cases q; simp add: leave_queue_def s'(1))+
    show "heap s' x = heap s x" if "x \<in> set (requests s')" for x
      using that dist d s'
      by (cases "x = d") (auto simp: leave_queue_def waits_in_def requests_def split: wait_queue.splits)
    show "distinct (requests s')"
      using dist s'(1) set_remove1_subset
      by (cases q) (fastforce simp: leave_queue_def requests_def)+
    show "set (read_wait (lk s')) \<subseteq> set (read_wait (lk s))"
      "set (write_wait (lk s')) \<subseteq> set (write_wait (lk s))"
      using set_remove1_subset by (cases q; fastforce simp: leave_queue_def s'(1))+
  qed (cases q; simp add: leave_queue_def s'(1))+
qed

lemma wait_for_lock_end_inv [inv_intros]:
  assumes "lock_inv s" "cond (heap s d) \<noteq> None \<longrightarrow> waits_in q d s"
  shows "lock_inv (fst (wait_for_lock_end env q d timed_out s))"
proof (cases "cond (heap s d)")
  case None
  have "no_lost_wakeup (emit_if b e s) = no_lost_wakeup s" for b e by (simp add: no_lost_wakeup_def)
  then show ?thesis using None assms(1) by (simp add: wait_for_lock_end_def lock_inv_def)
next
  case (Some c)
  have "fst (wait_for_lock_end env q d timed_out s)
      = wake_up_waiters env (set_type d TL_UNLOCK (leave_queue q d s))"
    by (simp add: wait_for_lock_end_def Some leave_queue_def Let_def)
  moreover have "lock_core (set_type d TL_UNLOCK (leave_queue q d s))"
    by (rule leave_queue_core [where q = q and d = d and s = s])
      (use assms Some in \<open>auto simp: lock_inv_def leave_queue_def split: wait_queue.splits\<close>)
  ultimately show ?thesis by (simp add: wake_up_waiters_inv)
qed

lemma abort_loop_sel [simp]:
  "lk (abort_loop ds s) = lk s"
  "heap (abort_loop ds s) =
     (\<lambda>x. if x \<in> set ds then (heap s x)\<lparr>type := TL_UNLOCK, cond := None\<rparr> else heap s x)"
  by (induction ds arbitrary: s) (auto simp: fun_eq_iff)

text \<open>
  \<open>thr_abort_locks\<close> with \<open>upgrade_lock\<close> is called by the holder of an exclusive write lock: every
  granted request has the same owner.
\<close>

definition exclusive :: "lock_state \<Rightarrow> bool" where
  "exclusive s \<longleftrightarrow> (\<forall>x\<in>set (write_q (lk s)) \<union> set (read_q (lk s)). ow s x = ow s (hd (write_q (lk s))))"

definition aborted :: "lock_state \<Rightarrow> lock_state" where
  "aborted s =
     (let s1 = abort_loop (read_wait (lk s)) s;
          s2 = abort_loop (write_wait (lk s1)) s1
      in s2\<lparr>lk := (lk s2)\<lparr>read_wait := [], write_wait := []\<rparr>\<rparr>)"

lemma aborted_core:
  assumes core: "lock_core s"
  shows "lock_core (aborted s)"
proof -
  have dist: "distinct (requests s)" by (rule distinct_requests [OF core])
  show ?thesis
  proof (rule lock_core_drop [OF core, where P = "\<lambda>_. True"])
    show "count_ok (aborted s)"
      by (rule count_ok_same_readers [OF core])
        (use dist in \<open>auto simp: aborted_def Let_def requests_def\<close>)
  qed (use dist in \<open>auto simp: aborted_def Let_def requests_def\<close>)
qed

text \<open>A writer that shares the table with nobody may change its type.\<close>

lemma retype_exclusive_core:
  assumes core: "lock_core s" and d: "d \<in> set (write_q (lk s))" and t: "is_write t" "t \<noteq> TL_WRITE_DELAYED"
    and ex: "\<forall>x\<in>set (write_q (lk s)) \<union> set (read_q (lk s)). ow s x = ow s d"
    and order: "order_ok (set_type d t s)"
  shows "lock_core (set_type d t s)"
proof -
  have out: "d \<notin> set (read_q (lk s))" "d \<notin> set (read_wait (lk s))" "d \<notin> set (write_wait (lk s))"
    using core d by (auto simp: queue_facts)
  let ?s = "set_type d t s"
  have own: "\<And>x. ow ?s x = ow s x" by simp
  have "queues_ok ?s"
    using core d t out unfolding lock_core_def queues_ok_def requests_def by auto
  moreover have "count_ok ?s"
    by (rule count_ok_same_readers [OF core]) (use out in auto)
  moreover have "writers_ok ?s" "readers_ok ?s"
    using ex own unfolding writers_ok_def readers_ok_def let_in_def by (metis Un_iff set_type_sel(1))+
  moreover have "delayed_ok ?s"
    using core t(2) unfolding lock_core_def delayed_ok_def by auto
  ultimately show ?thesis using order by (simp add: lock_core_def)
qed

lemma order_ok_first:
  assumes "order_ok s" "distinct (write_q (lk s))" "write_q (lk s) = d # ws"
    "\<forall>w\<in>set ws. weaker (ty s w) t"
  shows "order_ok (set_type d t s)"
proof -
  have "sorted_wrt (\<lambda>a b. ow s a = ow s b \<longrightarrow> weaker (ty s b) (ty s a)) ws"
    using assms(1,3) by (simp add: order_ok_def)
  then have "sorted_wrt (\<lambda>a b. ow (set_type d t s) a = ow (set_type d t s) b \<longrightarrow>
      weaker (ty (set_type d t s) b) (ty (set_type d t s) a)) ws"
    by (rule sorted_wrt_mono_rel [rotated]) (use assms(2,3) in auto)
  then show ?thesis using assms by (auto simp: order_ok_def)
qed

lemma tl_top: "t \<le> TL_WRITE_ONLY"
  by (cases t) (simp_all add: tl_order)

lemma thr_abort_locks_inv [inv_intros]:
  assumes inv: "lock_inv s" and up: "upgrade_lock \<longrightarrow> exclusive s"
  shows "lock_inv (thr_abort_locks upgrade_lock s)"
proof -
  have core: "lock_core (aborted s)" using inv by (simp add: lock_inv_def aborted_core)
  let ?w = "hd (write_q (lk s))"
  have ab: "write_q (lk (aborted s)) = write_q (lk s)" "read_q (lk (aborted s)) = read_q (lk s)"
    "\<And>x. ow (aborted s) x = ow s x"
    by (simp_all add: aborted_def Let_def)
  have eq: "thr_abort_locks upgrade_lock s =
      (if upgrade_lock \<and> write_q (lk s) \<noteq> [] then set_type ?w TL_WRITE_ONLY (aborted s) else aborted s)"
    by (simp add: thr_abort_locks_def aborted_def Let_def)
  have "lock_core (set_type ?w TL_WRITE_ONLY (aborted s))" if w: "upgrade_lock" "write_q (lk s) \<noteq> []"
  proof (rule retype_exclusive_core [OF core])
    show "\<forall>x\<in>set (write_q (lk (aborted s))) \<union> set (read_q (lk (aborted s))).
        ow (aborted s) x = ow (aborted s) ?w"
      using up w unfolding ab exclusive_def by blast
    obtain ws where ws: "write_q (lk s) = ?w # ws" using w(2) by (cases "write_q (lk s)") auto
    show "order_ok (set_type ?w TL_WRITE_ONLY (aborted s))"
    proof (rule order_ok_first)
      show "\<forall>w\<in>set ws. weaker (ty (aborted s) w) TL_WRITE_ONLY"
        by (auto simp: weaker_def intro: tl_top)
    qed (use core ws ab in \<open>auto simp: queue_facts\<close>)
  qed (use w in \<open>simp_all add: ab is_write_def tl_order\<close>)
  then have "lock_core (thr_abort_locks upgrade_lock s)" using core eq by simp
  moreover have "no_lost_wakeup (thr_abort_locks upgrade_lock s)"
    by (auto simp: eq no_lost_wakeup_def aborted_def Let_def)
  ultimately show ?thesis by (simp add: lock_inv_def)
qed

text \<open>
  \<open>thr_downgrade_write_lock\<close>: its assertions, for the request that \<open>thr_abort_locks\<close> upgraded, and
  a type that is not weaker than the thread's other locks.
\<close>

definition downgrade_ok :: "nat \<Rightarrow> thr_lock_type \<Rightarrow> lock_state \<Rightarrow> bool" where
  "downgrade_ok d t s \<longleftrightarrow>
     write_q (lk s) \<noteq> [] \<and> d = hd (write_q (lk s)) \<and> ty s d = TL_WRITE_ONLY \<and>
     is_write t \<and> t < TL_WRITE_ONLY \<and> t \<noteq> TL_WRITE_DELAYED \<and>
     (\<forall>w\<in>set (tl (write_q (lk s))). weaker (ty s w) t)"

lemma exclusive_writer:
  assumes core: "lock_core s" and d: "d \<in> set (write_q (lk s))" "TL_WRITE_DELAYED < ty s d"
  shows "\<forall>x\<in>set (write_q (lk s)) \<union> set (read_q (lk s)). ow s x = ow s d"
proof -
  have "ty s d \<noteq> TL_WRITE_ALLOW_WRITE" "ty s d \<noteq> TL_WRITE_CONCURRENT_INSERT"
    using d(2) by (auto simp: tl_order)
  then have "\<forall>x\<in>set (write_q (lk s)). ow s x = ow s d"
    using core d(1) unfolding lock_core_def writers_ok_def shared_write_def by blast
  moreover have "\<not> let_in s (ty s d) r" for r
    using d(2) by (auto simp: let_in_def rw_compatible_def tl_order)
  then have "\<forall>x\<in>set (read_q (lk s)). ow s x = ow s d"
    using core d(1) unfolding lock_core_def readers_ok_def by metis
  ultimately show ?thesis by blast
qed

lemma thr_downgrade_write_lock_inv [inv_intros]:
  assumes inv: "lock_inv s" and ok: "downgrade_ok d t s"
  shows "lock_inv (thr_downgrade_write_lock d t s)"
proof -
  have core: "lock_core s" using inv by (simp add: lock_inv_def)
  obtain ws where ws: "write_q (lk s) = d # ws"
    using ok by (cases "write_q (lk s)") (auto simp: downgrade_ok_def)
  have "order_ok (set_type d t s)"
    by (rule order_ok_first [OF _ _ ws]) (use core ok ws in \<open>auto simp: queue_facts downgrade_ok_def\<close>)
  then have "lock_core (set_type d t s)"
    by (intro retype_exclusive_core [OF core _ _ _ exclusive_writer [OF core]])
      (use ok ws in \<open>auto simp: downgrade_ok_def tl_order\<close>)
  then show ?thesis using inv by (auto simp: lock_inv_def thr_downgrade_write_lock_def no_lost_wakeup_def)
qed

lemma abort_thread_loop_core:
  assumes "lock_core s" "distinct ds" "\<And>d. d \<in> set ds \<Longrightarrow> waits_in q d s"
  shows "lock_core (fst (abort_thread_loop thread_id t q ds s found))"
  using assms
proof (induction ds arbitrary: s found)
  case (Cons d ds)
  let ?s = "leave_queue q d (mark_free d (set_type d TL_UNLOCK s))"
  have step: "abort_thread_loop thread_id t q (d # ds) s found =
      (if thread_id (ow s d) = t then abort_thread_loop thread_id t q ds ?s True
       else abort_thread_loop thread_id t q ds s found)"
    by (simp add: leave_queue_def Let_def)
  have "lock_core ?s"
    by (rule leave_queue_core [OF Cons.prems(1) Cons.prems(3), where d = d])
      (auto simp: leave_queue_def split: wait_queue.splits)
  moreover have "waits_in q x ?s" if "x \<in> set ds" for x
    using that Cons.prems(2) Cons.prems(3) [of x]
    by (cases "x = d") (auto simp: waits_in_def leave_queue_def split: wait_queue.splits)
  ultimately show ?case
    using Cons.IH [of ?s True] Cons.IH [of s found] Cons.prems unfolding step by simp
qed simp

lemma thr_abort_locks_for_thread_inv [inv_intros]:
  assumes inv: "lock_inv s"
  shows "lock_inv (fst (thr_abort_locks_for_thread env thread_id t s))"
proof -
  let ?p = "abort_thread_loop thread_id t Read_wait (read_wait (lk s)) s False"
  have core: "lock_core s" using inv by (simp add: lock_inv_def)
  have 1: "lock_core (fst ?p)"
    by (rule abort_thread_loop_core [OF core]) (use core in \<open>auto simp: queue_facts waits_in_def\<close>)
  have "lock_core (fst (abort_thread_loop thread_id t Write_wait (write_wait (lk (fst ?p))) (fst ?p) f))" for f
    by (rule abort_thread_loop_core [OF 1]) (use 1 in \<open>auto simp: queue_facts waits_in_def\<close>)
  then show ?thesis
    by (auto simp: thr_abort_locks_for_thread_def split_beta intro: wake_up_waiters_inv)
qed

text \<open>A request enters a wait queue.\<close>

lemma lock_core_add_waiting:
  assumes core: "lock_core s" and d: "d \<notin> set (requests s)" "addressable d"
    and same: "\<And>x. x \<noteq> d \<Longrightarrow> heap s' x = heap s x" and c: "cond (heap s' d) \<noteq> None"
    and lk: "read_q (lk s') = read_q (lk s)" "write_q (lk s') = write_q (lk s)"
      "read_no_write_count (lk s') = read_no_write_count (lk s)"
      "allow_multiple_concurrent_insert (lk s') = allow_multiple_concurrent_insert (lk s)"
    and q: "read_wait (lk s') = read_wait (lk s) @ [d] \<and> write_wait (lk s') = write_wait (lk s) \<and> is_read (ty s' d) \<or>
       read_wait (lk s') = read_wait (lk s) \<and>
       (write_wait (lk s') = write_wait (lk s) @ [d] \<or> write_wait (lk s') = d # write_wait (lk s)) \<and>
       is_write (ty s' d)"
  shows "lock_core s'"
proof -
  have r: "\<And>x. x \<in> set (read_q (lk s)) \<Longrightarrow> heap s' x = heap s x"
    and w: "\<And>x. x \<in> set (write_q (lk s)) \<Longrightarrow> heap s' x = heap s x"
    and rw: "\<And>x. x \<in> set (read_wait (lk s)) \<Longrightarrow> heap s' x = heap s x"
    and ww: "\<And>x. x \<in> set (write_wait (lk s)) \<Longrightarrow> heap s' x = heap s x"
    using same d(1) unfolding requests_def by (metis Un_iff set_append)+
  have "distinct (requests s')" "set (requests s') = insert d (set (requests s))"
    using distinct_requests [OF core] d(1) q unfolding requests_def lk by auto
  then have "queues_ok s'"
    using core d(2) c q unfolding lock_core_def queues_ok_def lk
    by (auto simp: r w rw ww cong: ball_cong)
  moreover have "count_ok s'"
    by (rule count_ok_same_readers [OF core]) (simp_all add: lk r)
  moreover have "writers_ok s'" "delayed_ok s'" "readers_ok s'"
    using core unfolding lock_core_def writers_ok_def delayed_ok_def readers_ok_def let_in_def lk
    by (simp_all add: r w cong: ball_cong)
  moreover have "order_ok s'"
    by (rule order_ok_mono [where P = "\<lambda>_. True" and s = s]) (use core w lk in \<open>simp_all add: lock_core_def\<close>)
  ultimately show ?thesis by (simp add: lock_core_def)
qed

text \<open>A writer that is alone in \<open>write\<close> goes back to the head of \<open>write_wait\<close>.\<close>

lemma requeue_core:
  assumes core: "lock_core s" and w: "write_q (lk s) = [d]"
    and lk: "lk s' = (lk s)\<lparr>write_q := [], write_wait := d # write_wait (lk s)\<rparr>"
    and same: "\<And>x. x \<noteq> d \<Longrightarrow> heap s' x = heap s x" and c: "cond (heap s' d) \<noteq> None"
    and t: "is_write (ty s' d)" "ty s' d \<noteq> TL_WRITE_ALLOW_WRITE" "ty s' d \<noteq> TL_WRITE_CONCURRENT_INSERT"
  shows "lock_core s'"
proof -
  let ?m = "s\<lparr>lk := (lk s)\<lparr>write_q := []\<rparr>\<rparr>"
  have dist: "distinct (requests s)" by (rule distinct_requests [OF core])
  have "lock_core ?m"
  proof (rule lock_core_drop [OF core, where P = "\<lambda>_. False"])
    show "count_ok ?m" by (rule count_ok_same_readers [OF core]) simp_all
  qed (use dist in \<open>auto simp: requests_def\<close>)
  then show ?thesis
    by (rule lock_core_add_waiting [where d = d])
      (use core w dist lk same c t in \<open>auto simp: queue_facts\<close>)
qed

lemma lock_core_outside:
  assumes core: "lock_core s" and "lk s' = lk s" "\<And>x. x \<in> set (requests s) \<Longrightarrow> heap s' x = heap s x"
  shows "lock_core s'"
proof (rule lock_core_drop [OF core, where P = "\<lambda>_. True"])
  have req: "requests s' = requests s" using assms(2) by (simp add: requests_def)
  show "distinct (requests s')" using distinct_requests [OF core] by (simp add: req)
  show "\<And>x. x \<in> set (requests s') \<Longrightarrow> heap s' x = heap s x" using assms(3) by (simp add: req)
  show "count_ok s'"
    by (rule count_ok_same_readers [OF core]) (use assms(2,3) in \<open>auto simp: requests_def\<close>)
qed (simp_all add: assms(2))

text \<open>
  \<open>thr_upgrade_write_delay_lock\<close> is used for a delayed lock, granted or waiting, and asks for an
  exclusive type; \<open>thr_reschedule_write_lock\<close> for the only active writer.
\<close>

definition upgrade_ok :: "nat \<Rightarrow> thr_lock_type \<Rightarrow> lock_state \<Rightarrow> bool" where
  "upgrade_ok d t s \<longleftrightarrow>
     (d \<in> set (write_q (lk s)) \<or> d \<in> set (write_wait (lk s))) \<and> ty s d = TL_WRITE_DELAYED \<and>
     TL_WRITE_LOW_PRIORITY \<le> t"

lemma low_priority_types:
  assumes "TL_WRITE_LOW_PRIORITY \<le> t"
  shows "is_write t" "t \<noteq> TL_WRITE_ALLOW_WRITE" "t \<noteq> TL_WRITE_CONCURRENT_INSERT"
    "t \<noteq> TL_WRITE_DELAYED" "TL_WRITE_DELAYED < t"
  using assms by (cases t; simp add: is_write_def tl_order)+

lemma lock_inv_emit_if [simp]: "lock_inv (emit_if b e s) = lock_inv s"
  by (simp add: lock_inv_def no_lost_wakeup_def)

lemma put_first_sel [simp]:
  "heap (put_first_in_write_wait d s) = heap s"
  "lk (put_first_in_write_wait d s) =
     (lk s)\<lparr>write_q := remove1 d (write_q (lk s)), write_wait := d # write_wait (lk s)\<rparr>"
  by (simp_all add: put_first_in_write_wait_def)

lemma upgrade_granted_inv:
  assumes inv: "lock_inv s" and w: "d \<in> set (write_q (lk s))" and ty: "ty s d = TL_WRITE_DELAYED"
    and t: "TL_WRITE_LOW_PRIORITY \<le> t"
  shows "lock_inv (fst (thr_upgrade_write_delay_lock d t c s))"
proof -
  have core: "lock_core s" using inv by (simp add: lock_inv_def)
  have W: "write_q (lk s) = [d]" using core w ty by (auto simp: lock_core_def delayed_ok_def)
  have c0: "cond (heap s d) = None" using core w by (simp add: lock_core_def queues_ok_def)
  have notyet: "\<not> (ty s d = TL_UNLOCK \<or> TL_WRITE_LOW_PRIORITY \<le> ty s d)" using ty by (simp add: tl_order)
  show ?thesis
  proof (cases "read_q (lk s) = []")
    case True
    have "lock_core (set_type d t s)"
      by (rule retype_exclusive_core [OF core w])
        (use True W low_priority_types [OF t] in \<open>auto simp: order_ok_def\<close>)
    then have "lock_inv (set_type d t s)" using W by (simp add: lock_inv_def no_lost_wakeup_def)
    then show ?thesis
      using notyet c0 True by (simp add: thr_upgrade_write_delay_lock_def Let_def)
  next
    case False
    let ?s = "wait_for_lock_begin Write_wait d True c (put_first_in_write_wait d (set_type d t s))"
    have fields: "lk ?s = (lk s)\<lparr>write_q := [], write_wait := d # write_wait (lk s)\<rparr>"
      "heap ?s = (heap s)(d := (heap s d)\<lparr>type := t, cond := Some c\<rparr>)"
      by (simp_all add: wait_for_lock_begin_def W Let_def)
    have "lock_core ?s"
      by (rule requeue_core [OF core W]) (use low_priority_types [OF t] in \<open>simp_all add: fields\<close>)
    then have "lock_inv ?s" using False by (simp add: lock_inv_def no_lost_wakeup_def fields)
    then show ?thesis
      using notyet c0 False by (simp add: thr_upgrade_write_delay_lock_def Let_def)
  qed
qed

lemma upgrade_waiting_inv:
  assumes inv: "lock_inv s" and w: "d \<in> set (write_wait (lk s))" and ty: "ty s d = TL_WRITE_DELAYED"
    and t: "TL_WRITE_LOW_PRIORITY \<le> t"
  shows "lock_inv (fst (thr_upgrade_write_delay_lock d t c s))"
proof -
  have core: "lock_core s" using inv by (simp add: lock_inv_def)
  have c0: "cond (heap s d) \<noteq> None" using core w by (simp add: lock_core_def queues_ok_def)
  let ?s = "wait_for_lock_begin Write_wait d True c (set_type d t s)"
  have fields: "lk ?s = lk s" "heap ?s = (heap s)(d := (heap s d)\<lparr>type := t, cond := Some c\<rparr>)"
    by (simp_all add: wait_for_lock_begin_def)
  have "lock_core ?s"
    by (rule lock_core_frame [OF core])
      (use core w low_priority_types [OF t] in \<open>auto simp: fields queue_facts\<close>)
  then have "lock_inv ?s" using inv by (simp add: lock_inv_def no_lost_wakeup_def fields)
  then show ?thesis
    using ty c0 by (auto simp: thr_upgrade_write_delay_lock_def Let_def tl_order)
qed

lemma thr_upgrade_write_delay_lock_inv [inv_intros]:
  "lock_inv s \<Longrightarrow> upgrade_ok d t s \<Longrightarrow> lock_inv (fst (thr_upgrade_write_delay_lock d t c s))"
  using upgrade_granted_inv upgrade_waiting_inv by (auto simp: upgrade_ok_def)

lemma thr_reschedule_write_lock_inv [inv_intros]:
  assumes inv: "lock_inv s" and W: "write_q (lk s) = [d]"
  shows "lock_inv (fst (thr_reschedule_write_lock d c s))"
proof (cases "read_wait (lk s) = []")
  case True
  then show ?thesis using inv by (simp add: thr_reschedule_write_lock_def)
next
  case False
  have core: "lock_core s" using inv by (simp add: lock_inv_def)
  let ?s = "upd d (cond_update (\<lambda>_. Some c)) (put_first_in_write_wait d
      (emit_if (update_status (lk s)) (Update_status (status_param (heap s d))) (set_type d TL_WRITE_DELAYED s)))"
  have "lock_core ?s"
    by (rule requeue_core [OF core W]) (simp_all add: W is_write_def tl_order)
  from free_readers_no_writer [OF this] False
  have "lock_inv (free_waiting_readers False ?s)" by (simp add: W)
  then show ?thesis
    using False by (simp add: thr_reschedule_write_lock_def Let_def free_waiting_readers_def)
qed

section \<open>Requests keep the invariant\<close>

text \<open>
  \<open>thr_upgraded_concurrent_insert_lock\<close> is \<open>TL_WRITE\<close>, or \<open>TL_WRITE_LOW_PRIORITY\<close> with
  \<open>--low-priority-updates\<close>.
\<close>

definition env_ok :: "lock_env \<Rightarrow> bool" where
  "env_ok env \<longleftrightarrow> thr_upgraded_concurrent_insert_lock env \<in> {TL_WRITE, TL_WRITE_LOW_PRIORITY}"

definition asked_type :: "lock_env \<Rightarrow> nat \<Rightarrow> lock_state \<Rightarrow> thr_lock_type" where
  "asked_type env d s =
     (if ty s d = TL_WRITE_CONCURRENT_INSERT \<and> \<not> check_status (lk s)
      then thr_upgraded_concurrent_insert_lock env else ty s d)"

text \<open>
  What a caller of \<open>thr_lock\<close> promises: the request is not queued, asks for a read or write type,
  and, as the comment and the assertion in \<open>thr_lock\<close> require, a thread asks for its write locks on
  a table from the strongest type down and for no second one while it has a delayed one.
\<close>

definition request_ok :: "lock_env \<Rightarrow> nat \<Rightarrow> nat \<Rightarrow> lock_state \<Rightarrow> bool" where
  "request_ok env d own s \<longleftrightarrow>
     d \<notin> set (requests s) \<and> addressable d \<and> (is_read (ty s d) \<or> is_write (ty s d)) \<and>
     (is_write (ty s d) \<and> ty s d \<noteq> TL_WRITE_DELAYED \<longrightarrow>
        (\<forall>w\<in>set (write_q (lk s)). ow s w = own \<longrightarrow>
           weaker (asked_type env d s) (ty s w) \<and> ty s w \<noteq> TL_WRITE_DELAYED))"

text \<open>A request that is not in any queue and may enter one.\<close>

definition fresh :: "nat \<Rightarrow> lock_state \<Rightarrow> bool" where
  "fresh d s \<longleftrightarrow> d \<notin> set (requests s) \<and> addressable d \<and> cond (heap s d) = None"

lemma grant_read_core:
  assumes core: "lock_core s" and d: "fresh d s" "is_read (ty s d)"
    and compat: "\<And>w. w \<in> set (write_q (lk s)) \<Longrightarrow> ow s w = ow s d \<or> let_in s (ty s w) (ty s d)"
  shows "lock_core (grant_read d s)"
proof -
  let ?s = "grant_read d s"
  have lk: "lk ?s = (lk s)\<lparr>read_q := read_q (lk s) @ [d],
      read_no_write_count := (if ty s d = TL_READ_NO_INSERT then read_no_write_count (lk s) + 1
         else read_no_write_count (lk s))\<rparr>" and hp: "heap ?s = heap s"
    by (auto simp: grant_read_def Let_def)
  have "queues_ok ?s"
    using core d unfolding lock_core_def queues_ok_def fresh_def requests_def lk hp by auto
  moreover have "count_ok ?s"
    using core unfolding lock_core_def count_ok_def no_insert_readers_def lk hp by simp
  moreover have "writers_ok ?s" "delayed_ok ?s" "order_ok ?s"
    using core unfolding lock_core_def writers_ok_def delayed_ok_def order_ok_def lk hp
    by simp_all
  moreover have "readers_ok ?s"
    using core compat unfolding lock_core_def readers_ok_def let_in_def lk hp by auto
  ultimately show ?thesis by (simp add: lock_core_def)
qed

lemma grant_write_core:
  assumes core: "lock_core s" and d: "fresh d s" "is_write (ty s d)"
    and readers: "\<And>r. r \<in> set (read_q (lk s)) \<Longrightarrow> ow s d = ow s r \<or> let_in s (ty s d) (ty s r)"
    and delayed: "write_q (lk s) \<noteq> [] \<Longrightarrow> ty s d \<noteq> TL_WRITE_DELAYED"
      "\<And>w. w \<in> set (write_q (lk s)) \<Longrightarrow> ty s w \<noteq> TL_WRITE_DELAYED"
    and order: "\<And>w. w \<in> set (write_q (lk s)) \<Longrightarrow> ow s w = ow s d \<Longrightarrow> weaker (ty s d) (ty s w)"
    and writers: "(\<forall>w\<in>set (write_q (lk s)). ow s w = ow s d) \<or>
       ty s d = TL_WRITE_ALLOW_WRITE \<and> (\<forall>w\<in>set (write_q (lk s)). ty s w = TL_WRITE_ALLOW_WRITE) \<or>
       allow_multiple_concurrent_insert (lk s) \<and> shared_write (ty s d) \<and>
         (\<forall>w\<in>set (write_q (lk s)). shared_write (ty s w))"
  shows "lock_core (grant_write d ci s)"
proof -
  let ?s = "grant_write d ci s"
  have lk: "lk ?s = (lk s)\<lparr>write_q := write_q (lk s) @ [d]\<rparr>" and hp: "heap ?s = heap s"
    by (auto simp: grant_write_def Let_def)
  have "queues_ok ?s"
    using core d unfolding lock_core_def queues_ok_def fresh_def requests_def lk hp by auto
  moreover have "count_ok ?s"
    using core unfolding lock_core_def count_ok_def no_insert_readers_def lk hp by simp
  moreover have "writers_ok ?s"
    using writers unfolding writers_ok_def lk hp by auto
  moreover have "delayed_ok ?s"
    using delayed unfolding delayed_ok_def lk hp by auto
  moreover have "order_ok ?s"
    using core order unfolding lock_core_def order_ok_def lk hp by (auto simp: sorted_wrt_append)
  moreover have "readers_ok ?s"
    using core readers unfolding lock_core_def readers_ok_def let_in_def lk hp by auto
  ultimately show ?thesis by (simp add: lock_core_def)
qed

lemma wait_begin_core:
  assumes core: "lock_core s" and d: "fresh d s"
    and q: "q = Read_wait \<and> is_read (ty s d) \<or> q = Write_wait \<and> is_write (ty s d)"
  shows "lock_core (wait_for_lock_begin q d False c s)"
  by (rule lock_core_add_waiting [OF core, where d = d])
    (use d q in \<open>auto simp: fresh_def wait_for_lock_begin_def Let_def split: wait_queue.splits\<close>)

lemma wait_begin_lk:
  "lk (wait_for_lock_begin q d False c s) =
     (case q of Read_wait \<Rightarrow> (lk s)\<lparr>read_wait := read_wait (lk s) @ [d]\<rparr>
              | Write_wait \<Rightarrow> (lk s)\<lparr>write_wait := write_wait (lk s) @ [d]\<rparr>)"
  by (auto simp: wait_for_lock_begin_def Let_def split: wait_queue.splits)

lemma abort_request_inv:
  assumes "lock_inv s" "d \<notin> set (requests s)"
  shows "lock_inv (fst (abort_request d s))"
proof -
  have "lock_core (set_type d TL_UNLOCK s)"
    by (rule lock_core_outside [where s = s]) (use assms in \<open>auto simp: lock_inv_def\<close>)
  then show ?thesis using assms by (auto simp: abort_request_def lock_inv_def no_lost_wakeup_def)
qed

text \<open>The writers behind the head of \<open>write\<close>, which is the only one that the code looks at.\<close>

lemma weaker_low:
  assumes "weaker t u" "u \<le> TL_WRITE_DELAYED" shows "t \<le> u"
  using assms by (auto simp: weaker_def tl_order)

lemma writers_follow_head:
  assumes core: "lock_core s" and W: "write_q (lk s) = w # ws"
    and t: "shared_write (ty s w)" and x: "x \<in> set (write_q (lk s))"
  shows "shared_write (ty s x)" "ty s w = TL_WRITE_ALLOW_WRITE \<Longrightarrow> ty s x \<noteq> TL_WRITE_ALLOW_WRITE \<Longrightarrow>
      allow_multiple_concurrent_insert (lk s)" "ow s x \<noteq> ow s w \<Longrightarrow> ty s w = TL_WRITE_CONCURRENT_INSERT \<Longrightarrow>
      allow_multiple_concurrent_insert (lk s)"
proof -
  have wr: "is_write (ty s x)" using core x by (simp add: lock_core_def queues_ok_def)
  have le: "ty s x \<le> ty s w" if "ow s x = ow s w"
  proof (rule weaker_low)
    show "weaker (ty s x) (ty s w)"
      using core that x W unfolding lock_core_def order_ok_def by (auto simp: weaker_def)
  qed (use t in \<open>auto simp: shared_write_def tl_order\<close>)
  have other: "(ty s x = TL_WRITE_ALLOW_WRITE \<and> ty s w = TL_WRITE_ALLOW_WRITE) \<or>
      allow_multiple_concurrent_insert (lk s) \<and> shared_write (ty s x)" if "ow s x \<noteq> ow s w"
    using core x W that unfolding lock_core_def writers_ok_def by (metis list.set_intros(1))
  show "shared_write (ty s x)"
    using le other wr t by (cases "ow s x = ow s w"; cases "ty s x") (auto simp: shared_write_def is_write_def tl_order)
  show "allow_multiple_concurrent_insert (lk s)" if "ty s w = TL_WRITE_ALLOW_WRITE" "ty s x \<noteq> TL_WRITE_ALLOW_WRITE"
    using le other wr that by (cases "ow s x = ow s w"; cases "ty s x") (auto simp: is_write_def tl_order)
  show "allow_multiple_concurrent_insert (lk s)" if "ow s x \<noteq> ow s w" "ty s w = TL_WRITE_CONCURRENT_INSERT"
    using other [OF that(1)] that(2) by auto
qed

lemma head_delayed_alone:
  "lock_core s \<Longrightarrow> write_q (lk s) = w # ws \<Longrightarrow> ty s w = TL_WRITE_DELAYED \<Longrightarrow> ws = []"
  by (auto simp: lock_core_def delayed_ok_def)

lemma thr_lock_read_inv:
  assumes inv: "lock_inv s" and d: "fresh d s" "is_read (ty s d)"
  shows "lock_inv (fst (thr_lock_read d c s))"
proof -
  have core: "lock_core s" and prog: "no_lost_wakeup s" using inv by (simp_all add: lock_inv_def)
  have wait: "lock_inv (wait_for_lock_begin Read_wait d False c s)"
    if "write_q (lk s) \<noteq> [] \<or> write_wait (lk s) \<noteq> []"
  proof -
    have "lock_core (wait_for_lock_begin Read_wait d False c s)"
      by (rule wait_begin_core [OF core d(1)]) (use d(2) in auto)
    then show ?thesis using prog that by (auto simp: lock_inv_def no_lost_wakeup_def wait_begin_lk)
  qed
  have grant: "lock_inv (grant_read d s)"
    if "\<And>w. w \<in> set (write_q (lk s)) \<Longrightarrow> ow s w = ow s d \<or> let_in s (ty s w) (ty s d)"
    using grant_read_core [OF core d that] prog
    by (auto simp: lock_inv_def no_lost_wakeup_def grant_read_def Let_def)
  show ?thesis
  proof (cases "write_q (lk s)")
    case Nil
    then show ?thesis using grant wait by (auto simp: thr_lock_read_def Let_def)
  next
    case (Cons w ws)
    have "ow s x = ow s d \<or> let_in s (ty s x) (ty s d)"
      if ok: "ow s d = ow s w \<or> rw_compatible (ty s w) (ty s d)" and x: "x \<in> set (write_q (lk s))" for x
    proof (cases "shared_write (ty s w)")
      case True
      note behind = writers_follow_head [OF core Cons True x]
      show ?thesis
        using ok True behind d(2) rw_compatible_simps(1,2) [of "ty s d"]
        by (auto simp: let_in_def shared_write_def rw_compatible_def tl_order)
    next
      case False
      then have "(\<forall>x\<in>set (write_q (lk s)). ow s x = ow s w)"
        using core Cons unfolding lock_core_def writers_ok_def shared_write_def by (metis list.set_intros(1))
      moreover have "ws = []" if "rw_compatible (ty s w) (ty s d)"
      proof (rule head_delayed_alone [OF core Cons])
        have "is_write (ty s w)" using core Cons by (simp add: lock_core_def queues_ok_def)
        then show "ty s w = TL_WRITE_DELAYED"
          using False that by (cases "ty s w") (auto simp: rw_compatible_def shared_write_def is_write_def tl_order)
      qed
      ultimately show ?thesis using ok x Cons by (auto simp: let_in_def)
    qed
    then show ?thesis
      using grant wait abort_request_inv [OF inv] d(1) Cons
      by (auto simp: thr_lock_read_def thr_lock_owner_equal_def fresh_def rw_compatible_def)
  qed
qed

lemma wait_write_inv:
  assumes inv: "lock_inv s" and d: "fresh d s" "is_write (ty s d)"
    and busy: "write_q (lk s) \<noteq> [] \<or> write_wait (lk s) \<noteq> [] \<or> read_q (lk s) \<noteq> []"
  shows "lock_inv (wait_for_lock_begin Write_wait d False c s)"
proof -
  have "lock_core (wait_for_lock_begin Write_wait d False c s)"
    by (rule wait_begin_core [OF _ d(1)]) (use inv d(2) in \<open>auto simp: lock_inv_def\<close>)
  then show ?thesis using inv busy by (auto simp: lock_inv_def no_lost_wakeup_def wait_begin_lk)
qed

lemma thr_lock_write_free_inv:
  assumes inv: "lock_inv s" and env: "env_ok env" and d: "fresh d s" "is_write (ty s d)"
    and none: "write_q (lk s) = []"
  shows "lock_inv (fst (thr_lock_write_free env d c s))"
proof (cases "write_wait (lk s) = []")
  case False
  then show ?thesis using wait_write_inv [OF inv d] by (simp add: thr_lock_write_free_def)
next
  case True
  let ?ci = "ty s d = TL_WRITE_CONCURRENT_INSERT"
    and ?ref = "concurrent_insert_refused env (status_param (heap s d))"
  define s1 where "s1 = (if ?ci \<and> ?ref then set_type d (thr_upgraded_concurrent_insert_lock env) s else s)"
  have lk1: "lk s1 = lk s" by (simp add: s1_def)
  have core1: "lock_core s1"
    by (rule lock_core_outside [where s = s])
      (use inv d(1) in \<open>auto simp: s1_def lock_inv_def fresh_def\<close>)
  then have inv1: "lock_inv s1" using inv by (simp add: lock_inv_def no_lost_wakeup_def lk1)
  have d1: "fresh d s1" using d(1) by (auto simp: s1_def fresh_def requests_def)
  have ty1: "ty s1 d = TL_WRITE \<or> ty s1 d = TL_WRITE_LOW_PRIORITY \<or> ty s1 d = ty s d"
    using env by (auto simp: s1_def env_ok_def)
  have w1: "is_write (ty s1 d)" using ty1 d(2) by (auto simp: is_write_def tl_order)
  have zero: "read_no_write_count (lk s1) = 0 \<longleftrightarrow> (\<forall>r\<in>set (read_q (lk s1)). ty s1 r \<noteq> TL_READ_NO_INSERT)"
    using core1 by (intro no_write_count_zero) auto
  let ?go = "read_q (lk s1) = [] \<or> ty s1 d \<le> TL_WRITE_DELAYED \<and>
     (ty s1 d \<noteq> TL_WRITE_CONCURRENT_INSERT \<and> ty s1 d \<noteq> TL_WRITE_ALLOW_WRITE \<or> read_no_write_count (lk s1) = 0)"
  have eq: "thr_lock_write_free env d c s =
      (if ?go then (grant_write d (?ci \<and> \<not> ?ref) s1, Some THR_LOCK_SUCCESS)
       else (wait_for_lock_begin Write_wait d False c s1, None))"
    by (simp add: thr_lock_write_free_def True s1_def [symmetric] Let_def)
  show ?thesis
  proof (cases ?go)
    case go: True
    have "rw_compatible (ty s1 d) (ty s1 r)" if r: "r \<in> set (read_q (lk s1))" for r
    proof -
      have "is_read (ty s1 r)" using core1 r by (simp add: lock_core_def queues_ok_def)
      then show ?thesis
        using go r w1 zero by (cases "ty s1 d") (auto simp: rw_compatible_simps is_write_def tl_order)
    qed
    then have "lock_core (grant_write d (?ci \<and> \<not> ?ref) s1)"
      by (intro grant_write_core [OF core1 d1 w1]) (simp_all add: lk1 none let_in_def)
    then show ?thesis
      using go by (simp add: eq lock_inv_def no_lost_wakeup_def grant_write_def Let_def)
  next
    case False
    then show ?thesis using wait_write_inv [OF inv1 d1 w1] by (auto simp: eq)
  qed
qed

text \<open>A second writer enters \<open>write\<close>: either beside writers of its own kind, or beside its own locks.\<close>

lemma second_write_same_kind:
  assumes core: "lock_core s" and d: "fresh d s" "is_write (ty s d)"
    and W: "write_q (lk s) = w # ws" and kind: "ty s w = ty s d"
    and t: "ty s d = TL_WRITE_ALLOW_WRITE \<or>
        ty s d = TL_WRITE_CONCURRENT_INSERT \<and> allow_multiple_concurrent_insert (lk s)"
    and zero: "read_no_write_count (lk s) = 0"
    and desc: "\<And>x. x \<in> set (write_q (lk s)) \<Longrightarrow> ow s x = ow s d \<Longrightarrow> weaker (ty s d) (ty s x)"
  shows "lock_core (grant_write d ci s)"
proof -
  have sh: "shared_write (ty s w)" using t kind by (auto simp: shared_write_def)
  note behind = writers_follow_head [OF core W sh]
  have "rw_compatible (ty s d) (ty s r)" if r: "r \<in> set (read_q (lk s))" for r
  proof -
    have "is_read (ty s r)" using core r by (simp add: lock_core_def queues_ok_def)
    moreover have "ty s r \<noteq> TL_READ_NO_INSERT"
      using zero r no_write_count_zero [OF core_queues_ok [OF core] core_count_ok [OF core]] by auto
    ultimately show ?thesis using t rw_compatible_simps(1,2) by metis
  qed
  moreover have "ty s d = TL_WRITE_ALLOW_WRITE \<and> (\<forall>x\<in>set (write_q (lk s)). ty s x = TL_WRITE_ALLOW_WRITE) \<or>
      allow_multiple_concurrent_insert (lk s) \<and> shared_write (ty s d) \<and> (\<forall>x\<in>set (write_q (lk s)). shared_write (ty s x))"
    using t kind behind sh by metis
  moreover have "ty s x \<noteq> TL_WRITE_DELAYED" if "x \<in> set (write_q (lk s))" for x
    using behind(1) [OF that] by (auto simp: shared_write_def)
  ultimately show ?thesis
    using t desc by (intro grant_write_core [OF core d]) (auto simp: let_in_def)
qed

lemma second_write_own:
  assumes core: "lock_core s" and d: "fresh d s" "is_write (ty s d)" "ty s d \<noteq> TL_WRITE_DELAYED"
    and own: "v \<in> set (write_q (lk s))" "ow s v = ow s d"
    and desc: "\<And>w. w \<in> set (write_q (lk s)) \<Longrightarrow> ow s w = ow s d \<Longrightarrow>
       weaker (ty s d) (ty s w) \<and> ty s w \<noteq> TL_WRITE_DELAYED"
  shows "lock_core (grant_write d ci s)"
proof -
  have v: "weaker (ty s d) (ty s v)" "ty s v \<noteq> TL_WRITE_DELAYED" using desc own by auto
  have wr: "is_write (ty s v)" using core own(1) by (simp add: lock_core_def queues_ok_def)
  have low: "shared_write (ty s d)" "ty s v = TL_WRITE_ALLOW_WRITE \<Longrightarrow> ty s d = TL_WRITE_ALLOW_WRITE"
    if "ty s v \<le> TL_WRITE_DELAYED"
    using weaker_low [OF v(1) that] that v(2) wr d(2)
    by (cases "ty s v"; cases "ty s d"; simp add: shared_write_def is_write_def tl_order)+
  have alone: "ty s w \<noteq> TL_WRITE_DELAYED" if "w \<in> set (write_q (lk s))" for w
  proof
    assume "ty s w = TL_WRITE_DELAYED"
    then have "write_q (lk s) = [w]" using core that by (simp add: lock_core_def delayed_ok_def)
    then show False using own(1) v(2) \<open>ty s w = TL_WRITE_DELAYED\<close> by simp
  qed
  have readers: "ow s d = ow s r \<or> let_in s (ty s d) (ty s r)" if r: "r \<in> set (read_q (lk s))" for r
  proof (cases "ow s d = ow s r")
    case False
    then have v_in: "let_in s (ty s v) (ty s r)" using core own r unfolding lock_core_def readers_ok_def by metis
    then have "ty s v \<le> TL_WRITE_DELAYED" by (auto simp: let_in_def rw_compatible_def tl_order)
    note low = low [OF this]
    have "is_read (ty s r)" using core r by (simp add: lock_core_def queues_ok_def)
    then show ?thesis
      using v_in low wr v(2) rw_compatible_simps(1,2) [of "ty s r"]
      by (cases "ty s v") (auto simp: let_in_def shared_write_def rw_compatible_def is_write_def tl_order)
  qed simp
  have writers: "(\<forall>w\<in>set (write_q (lk s)). ow s w = ow s d) \<or>
       ty s d = TL_WRITE_ALLOW_WRITE \<and> (\<forall>w\<in>set (write_q (lk s)). ty s w = TL_WRITE_ALLOW_WRITE) \<or>
       allow_multiple_concurrent_insert (lk s) \<and> shared_write (ty s d) \<and>
         (\<forall>w\<in>set (write_q (lk s)). shared_write (ty s w))"
  proof -
    have "shared_write (ty s v) \<Longrightarrow> ty s v \<le> TL_WRITE_DELAYED" by (auto simp: shared_write_def tl_order)
    moreover have "TL_WRITE_ALLOW_WRITE \<le> TL_WRITE_DELAYED" by (simp add: tl_order)
    ultimately show ?thesis
      using core own low unfolding lock_core_def writers_ok_def by metis
  qed
  show ?thesis
    by (rule grant_write_core [OF core d(1,2) readers _ alone _ writers]) (use d(3) desc in auto)
qed

lemma thr_lock_write_any_inv:
  assumes inv: "lock_inv s" and env: "env_ok env" and d: "fresh d s" "is_write (ty s d)"
    and notdel: "write_q (lk s) \<noteq> [] \<longrightarrow> ty s d \<noteq> TL_WRITE_DELAYED"
    and desc: "\<And>w. w \<in> set (write_q (lk s)) \<Longrightarrow> ow s w = ow s d \<Longrightarrow>
       weaker (ty s d) (ty s w) \<and> ty s w \<noteq> TL_WRITE_DELAYED"
  shows "lock_inv (fst (thr_lock_write_any env d c s))"
proof (cases "write_q (lk s)")
  case Nil
  then show ?thesis
    using thr_lock_write_free_inv [OF inv env d] by (simp add: thr_lock_write_any_def)
next
  case (Cons w ws)
  have core: "lock_core s" using inv by (simp add: lock_inv_def)
  have fin: "lock_inv (grant_write d ci s)" if "lock_core (grant_write d ci s)" for ci
    using that by (simp add: lock_inv_def no_lost_wakeup_def grant_write_def Let_def)
  have own: "lock_inv (grant_write d ci s)" if old: "has_old_lock s (write_q (lk s)) (ow s d)" for ci
  proof -
    obtain v where v: "v \<in> set (write_q (lk s))" "ow s v = ow s d"
      using old by (auto simp: has_old_lock_iff)
    have "ty s d \<noteq> TL_WRITE_DELAYED" using notdel by (simp add: Cons)
    then show ?thesis by (rule fin [OF second_write_own [OF core d _ v desc]])
  qed
  have kind: "lock_inv (grant_write d ci s)"
    if "ty s w = ty s d" "read_no_write_count (lk s) = 0" "ty s d = TL_WRITE_ALLOW_WRITE \<or>
        ty s d = TL_WRITE_CONCURRENT_INSERT \<and> allow_multiple_concurrent_insert (lk s)" for ci
    by (rule fin, rule second_write_same_kind [OF core d Cons that(1,3,2)]) (use desc in blast)
  have wait: "lock_inv (wait_for_lock_begin Write_wait d False c s)"
    by (rule wait_write_inv [OF inv d]) (simp add: Cons)
  have abort: "lock_inv (fst (abort_request d s))"
    using abort_request_inv [OF inv] d(1) by (simp add: fresh_def)
  show ?thesis
    unfolding thr_lock_write_any_def thr_lock_write_held_def Let_def Cons list.case
    using own [unfolded Cons] kind wait abort by (auto split: if_split)
qed

lemma thr_lock_write_inv:
  assumes inv: "lock_inv s" and env: "env_ok env" and d: "fresh d s" "is_write (ty s d)"
    and desc: "\<And>w. w \<in> set (write_q (lk s)) \<Longrightarrow> ow s w = ow s d \<Longrightarrow> ty s d \<noteq> TL_WRITE_DELAYED \<Longrightarrow>
       weaker (asked_type env d s) (ty s w) \<and> ty s w \<noteq> TL_WRITE_DELAYED"
  shows "lock_inv (fst (thr_lock_write env d c s))"
proof -
  consider (delayed) "ty s d = TL_WRITE_DELAYED"
    | (upgrade) "ty s d = TL_WRITE_CONCURRENT_INSERT" "\<not> check_status (lk s)"
    | (other) "ty s d \<noteq> TL_WRITE_DELAYED" "asked_type env d s = ty s d"
      "ty s d = TL_WRITE_CONCURRENT_INSERT \<longrightarrow> check_status (lk s)"
    unfolding asked_type_def by metis
  then show ?thesis
  proof cases
    case delayed
    have "queue_delayed d c s = wait_for_lock_begin Write_wait d False c s"
      by (simp add: queue_delayed_def wait_for_lock_begin_def)
    then have "write_q (lk s) \<noteq> [] \<or> read_q (lk s) \<noteq> [] \<Longrightarrow> lock_inv (queue_delayed d c s)"
      using wait_write_inv [OF inv d] by auto
    moreover have "write_q (lk s) = [] \<Longrightarrow> lock_inv (fst (thr_lock_write_any env d c s))"
      by (rule thr_lock_write_any_inv [OF inv env d]) simp_all
    ultimately show ?thesis
      using delayed abort_request_inv [OF inv] d(1) by (auto simp: thr_lock_write_def fresh_def)
  next
    case upgrade
    let ?u = "thr_upgraded_concurrent_insert_lock env"
    let ?s = "set_type d ?u s"
    have out: "d \<notin> set (write_q (lk s))" using d(1) by (simp add: fresh_def requests_def)
    have "lock_core ?s"
      by (rule lock_core_outside [where s = s]) (use inv d(1) in \<open>auto simp: lock_inv_def fresh_def\<close>)
    then have "lock_inv ?s" using inv by (simp add: lock_inv_def no_lost_wakeup_def)
    moreover have "fresh d ?s" using d(1) by (simp add: fresh_def requests_def)
    moreover have "asked_type env d s = ?u" using upgrade by (simp add: asked_type_def)
    ultimately have "lock_inv (fst (thr_lock_write_any env d c ?s))"
      using env desc out upgrade
      by (intro thr_lock_write_any_inv) (auto simp: env_ok_def is_write_def tl_order split: if_splits)
    then show ?thesis using upgrade by (simp add: thr_lock_write_def)
  next
    case other
    have "lock_inv (fst (thr_lock_write_any env d c s))"
      by (rule thr_lock_write_any_inv [OF inv env d]) (use other desc in auto)
    then show ?thesis using other by (auto simp: thr_lock_write_def)
  qed
qed

lemma init_request_sel [simp]:
  "lk (init_request d own s) = lk s"
  "heap (init_request d own s) = (heap s)(d := (heap s d)\<lparr>cond := None, owner := own,
      priority := priority (heap s d) AND NOT THR_LOCK_LATE_PRIV\<rparr>)"
  by (simp_all add: init_request_def)

lemma thr_lock_inv [inv_intros]:
  assumes inv: "lock_inv s" and env: "env_ok env" and ok: "request_ok env d own s"
  shows "lock_inv (fst (thr_lock env d own c s))"
proof -
  let ?s = "init_request d own s"
  have out: "d \<notin> set (requests s)" "d \<notin> set (write_q (lk s))"
    using ok by (auto simp: request_ok_def requests_def)
  have "lock_core ?s"
    by (rule lock_core_outside [where s = s]) (use inv out in \<open>auto simp: lock_inv_def\<close>)
  then have inv': "lock_inv ?s" using inv by (simp add: lock_inv_def no_lost_wakeup_def)
  have fr: "fresh d ?s" using ok by (simp add: fresh_def request_ok_def requests_def)
  have ty: "\<And>x. ty ?s x = ty s x" "asked_type env d ?s = asked_type env d s"
    "\<And>x. x \<in> set (write_q (lk s)) \<Longrightarrow> ow ?s x = ow s x"
    using out(2) by (auto simp: asked_type_def)
  show ?thesis
  proof (cases "is_read (ty s d)")
    case True
    have "lock_inv (fst (thr_lock_read d c ?s))"
      by (rule thr_lock_read_inv [OF inv' fr]) (use True ok ty in \<open>auto simp: request_ok_def\<close>)
    then show ?thesis
      using read_write_types(1) [OF True] by (simp add: thr_lock_def Let_def)
  next
    case False
    then have w: "is_write (ty s d)" using ok by (simp add: request_ok_def)
    have "lock_inv (fst (thr_lock_write env d c ?s))"
      by (rule thr_lock_write_inv [OF inv' env fr]) (use w ok ty in \<open>auto simp: request_ok_def\<close>)
    then show ?thesis
      using read_write_types(3) [OF w] by (simp add: thr_lock_def Let_def)
  qed
qed

end
