(* ===== verification/Thr_Lock_Step.thy ===== *)
theory Thr_Lock_Step
  imports Thr_Lock_Inv
begin

text \<open>
  A table lock as a state machine: every atomic section of \<open>src/mysys/thr_lock.c\<close> is a step, in
  any order and by any thread.  The theorems hold in every reachable state.
\<close>

section \<open>The steps\<close>

text \<open>
  A lock after \<open>thr_lock_init\<close>, when the engine has set its callbacks, with requests after
  \<open>thr_lock_data_init\<close>.
\<close>

definition new_lock :: "lock_state \<Rightarrow> bool" where
  "new_lock s \<longleftrightarrow>
     read_q (lk s) = [] \<and> read_wait (lk s) = [] \<and> write_q (lk s) = [] \<and> write_wait (lk s) = [] \<and>
     write_lock_count (lk s) = 0 \<and> read_no_write_count (lk s) = 0 \<and> (\<forall>d. ty s d = TL_UNLOCK)"

inductive lock_step :: "lock_state \<Rightarrow> lock_state \<Rightarrow> bool" where
  step_lock: "env_ok env \<Longrightarrow> request_ok env d own (set_type d t s) \<Longrightarrow>
     lock_step s (fst (thr_lock env d own c (set_type d t s)))"
| step_wait_end: "(cond (heap s d) \<noteq> None \<longrightarrow> waits_in q d s) \<Longrightarrow>
     lock_step s (fst (wait_for_lock_end env q d timed_out s))"
| step_unlock: "unlock_ok d s \<Longrightarrow> lock_step s (thr_unlock env d flags s)"
| step_abort: "(upgrade \<longrightarrow> exclusive s) \<Longrightarrow> lock_step s (thr_abort_locks upgrade s)"
| step_abort_thread: "lock_step s (fst (thr_abort_locks_for_thread env thread_id t s))"
| step_downgrade: "downgrade_ok d t s \<Longrightarrow> lock_step s (thr_downgrade_write_lock d t s)"
| step_upgrade: "upgrade_ok d t s \<Longrightarrow>
     lock_step s (fst (thr_upgrade_write_delay_lock d t c s))"
| step_upgrade_end: "(cond (heap s d) \<noteq> None \<longrightarrow> d \<in> set (write_wait (lk s))) \<Longrightarrow>
     lock_step s (fst (thr_upgrade_write_delay_lock_end env d timed_out trans_failed s))"
| step_reschedule: "write_q (lk s) = [d] \<Longrightarrow>
     lock_step s (fst (thr_reschedule_write_lock d c s))"

abbreviation lock_reachable :: "lock_state \<Rightarrow> bool" where
  "lock_reachable \<equiv> reachable new_lock (lock_step)"

lemma new_lock_inv: "new_lock s \<Longrightarrow> lock_inv s"
  by (simp add: new_lock_def lock_inv_def lock_core_defs no_lost_wakeup_def requests_def
      no_insert_readers_def)

lemma set_type_outside_inv:
  assumes "lock_inv s" "d \<notin> set (requests s)"
  shows "lock_inv (set_type d t s)"
proof -
  have "lock_core (set_type d t s)"
    by (rule lock_core_outside [where s = s]) (use assms in \<open>auto simp: lock_inv_def\<close>)
  then show ?thesis using assms(1) by (simp add: lock_inv_def no_lost_wakeup_def)
qed

lemma requests_set_type [simp]: "requests (set_type d t s) = requests s"
  by (simp add: requests_def)

lemma lock_inv_emit [simp]: "lock_inv (emit e s) = lock_inv s"
  using lock_inv_emit_if [of True e s] by (simp add: emit_if_def)

lemma upgrade_end_state:
  "fst (thr_upgrade_write_delay_lock_end env d timed_out trans_failed s) =
     (let p = wait_for_lock_end env Write_wait d timed_out s
      in if snd p = THR_LOCK_SUCCESS \<and> start_trans (lk (fst p))
         then emit (Start_trans (status_param (heap (fst p) d))) (fst p) else fst p)"
  by (simp add: thr_upgrade_write_delay_lock_end_def split_beta Let_def)

lemma lock_step_inv:
  assumes "lock_inv s" "lock_step s s'"
  shows "lock_inv s'"
  using assms(2,1)
proof cases
  case (step_lock env d own t c)
  then show ?thesis
    using assms(1) by (auto intro!: thr_lock_inv set_type_outside_inv simp: request_ok_def)
next
  case (step_upgrade_end d env timed_out trans_failed)
  then have "lock_inv (fst (wait_for_lock_end env Write_wait d timed_out s))"
    using assms(1) by (intro wait_for_lock_end_inv) (simp_all add: waits_in_def)
  then show ?thesis by (simp add: step_upgrade_end upgrade_end_state Let_def)
qed (auto intro: inv_intros assms)

interpretation table_lock: transition_system new_lock "lock_step" "lock_inv"
  by unfold_locales (auto intro: new_lock_inv lock_step_inv)

section \<open>What a request returns\<close>

text \<open>
  The result of \<open>thr_lock\<close>: granted (or, for a delayed lock, queued with \<open>cond\<close> set), refused, or
  asleep in a wait queue.  No other request moves.
\<close>

definition entered :: "nat \<Rightarrow> lock_state \<Rightarrow> lock_state \<Rightarrow> bool" where
  "entered d s s' \<longleftrightarrow>
     (read_q (lk s'), read_wait (lk s'), write_q (lk s'), write_wait (lk s')) \<in>
       {(read_q (lk s) @ [d], read_wait (lk s), write_q (lk s), write_wait (lk s)),
        (read_q (lk s), read_wait (lk s) @ [d], write_q (lk s), write_wait (lk s)),
        (read_q (lk s), read_wait (lk s), write_q (lk s) @ [d], write_wait (lk s)),
        (read_q (lk s), read_wait (lk s), write_q (lk s), write_wait (lk s) @ [d])}"

definition lock_outcome ::
  "nat \<Rightarrow> nat \<Rightarrow> nat \<Rightarrow> lock_state \<Rightarrow> lock_state \<times> enum_thr_lock_result option \<Rightarrow> bool" where
  "lock_outcome d own c s p \<longleftrightarrow>
     (\<forall>x. x \<noteq> d \<longrightarrow> heap (fst p) x = heap s x) \<and> ow (fst p) d = own \<and>
     (case snd p of
        Some THR_LOCK_SUCCESS \<Rightarrow>
          entered d s (fst p) \<and>
          ((d \<in> set (read_q (lk (fst p))) \<or> d \<in> set (write_q (lk (fst p)))) \<and>
             cond (heap (fst p) d) = None \<or>
           d \<in> set (write_wait (lk (fst p))) \<and> ty (fst p) d = TL_WRITE_DELAYED \<and>
             cond (heap (fst p) d) = Some c)
      | None \<Rightarrow>
          entered d s (fst p) \<and>
          (d \<in> set (read_wait (lk (fst p))) \<or> d \<in> set (write_wait (lk (fst p)))) \<and>
          cond (heap (fst p) d) = Some c
      | Some r \<Rightarrow>
          r = THR_LOCK_ABORTED \<and> lk (fst p) = lk s \<and> ty (fst p) d = TL_UNLOCK \<and>
          write_q (lk s) \<noteq> [] \<and> ty s (hd (write_q (lk s))) = TL_WRITE_ONLY)"

lemma outcome_grant_read:
  "ow s d = own \<Longrightarrow> cond (heap s d) = None \<Longrightarrow>
   lock_outcome d own c s (grant_read d s, Some THR_LOCK_SUCCESS)"
  by (simp add: lock_outcome_def entered_def grant_read_def Let_def)

lemma outcome_grant_write:
  "ow s d = own \<Longrightarrow> cond (heap s d) = None \<Longrightarrow>
   lock_outcome d own c s (grant_write d ci s, Some THR_LOCK_SUCCESS)"
  by (simp add: lock_outcome_def entered_def grant_write_def Let_def)

lemma outcome_wait:
  "ow s d = own \<Longrightarrow> lock_outcome d own c s (wait_for_lock_begin q d False c s, None)"
  by (cases q) (simp_all add: lock_outcome_def entered_def wait_for_lock_begin_def Let_def)

lemma outcome_delayed:
  "ow s d = own \<Longrightarrow> ty s d = TL_WRITE_DELAYED \<Longrightarrow>
   lock_outcome d own c s (queue_delayed d c s, Some THR_LOCK_SUCCESS)"
  by (simp add: lock_outcome_def entered_def queue_delayed_def)

lemma outcome_abort:
  "ow s d = own \<Longrightarrow> write_q (lk s) \<noteq> [] \<Longrightarrow> ty s (hd (write_q (lk s))) = TL_WRITE_ONLY \<Longrightarrow>
   lock_outcome d own c s (abort_request d s)"
  by (simp add: lock_outcome_def abort_request_def)

lemmas outcomes = outcome_grant_read outcome_grant_write outcome_wait outcome_delayed outcome_abort

lemma outcome_retype:
  assumes "lock_outcome d own c (set_type d t s) p" "write_q (lk s) \<noteq> [] \<longrightarrow> hd (write_q (lk s)) \<noteq> d"
  shows "lock_outcome d own c s p"
  using assms by (auto simp: lock_outcome_def entered_def split: option.splits enum_thr_lock_result.splits)

lemma outcome_write_any:
  assumes "ow s d = own" "cond (heap s d) = None" "d \<notin> set (requests s)"
  shows "lock_outcome d own c s (thr_lock_write_any env d c s)"
proof (cases "write_q (lk s)")
  case Nil
  let ?s1 = "if ty s d = TL_WRITE_CONCURRENT_INSERT \<and> concurrent_insert_refused env (status_param (heap s d))
    then set_type d (thr_upgraded_concurrent_insert_lock env) s else s"
  have "lock_outcome d own c s p" if "lock_outcome d own c ?s1 p" for p
    using that outcome_retype Nil by (auto split: if_splits)
  moreover have "ow ?s1 d = own" "cond (heap ?s1 d) = None" using assms by auto
  ultimately show ?thesis
    using assms outcomes by (simp add: thr_lock_write_any_def thr_lock_write_free_def Nil Let_def)
next
  case (Cons w ws)
  then show ?thesis
    using assms by (auto simp: thr_lock_write_any_def thr_lock_write_held_def Let_def intro!: outcomes)
qed

lemma thr_lock_outcome:
  assumes d: "d \<notin> set (requests s)"
  shows "lock_outcome d own c s (thr_lock env d own c s)"
proof -
  let ?s = "init_request d own s"
  have own: "ow ?s d = own" "cond (heap ?s d) = None" by simp_all
  have hd: "write_q (lk s) \<noteq> [] \<longrightarrow> hd (write_q (lk s)) \<noteq> d"
    using d by (cases "write_q (lk s)") (auto simp: requests_def)
  have init: "lock_outcome d own c s p" if "lock_outcome d own c ?s p" for p
    using that hd by (auto simp: lock_outcome_def entered_def split: option.splits enum_thr_lock_result.splits)
  have req: "d \<notin> set (requests ?s)" using d by (simp add: requests_def)
  have "lock_outcome d own c ?s (thr_lock_read d c ?s)"
    using own unfolding thr_lock_read_def Let_def
    by (cases "write_q (lk ?s)") (auto intro!: outcomes)
  moreover have "lock_outcome d own c ?s (thr_lock_write env d c ?s)"
  proof -
    have any: "lock_outcome d own c ?s (thr_lock_write_any env d c ?s)"
      by (rule outcome_write_any [OF own req])
    let ?t = "set_type d (thr_upgraded_concurrent_insert_lock env) ?s"
    have "lock_outcome d own c ?t (thr_lock_write_any env d c ?t)"
      by (rule outcome_write_any) (use own req in \<open>simp_all add: requests_def\<close>)
    then have "lock_outcome d own c ?s (thr_lock_write_any env d c ?t)"
      by (rule outcome_retype) (use hd in simp)
    then show ?thesis
      using any own by (auto simp: thr_lock_write_def intro!: outcomes)
  qed
  ultimately show ?thesis by (auto simp: thr_lock_def Let_def intro: init)
qed

section \<open>A request has a lock type exactly while it is queued\<close>

definition idle_ok :: "lock_state \<Rightarrow> bool" where
  "idle_ok s \<longleftrightarrow> (\<forall>d. d \<notin> set (requests s) \<longrightarrow> ty s d = TL_UNLOCK)"

text \<open>
  Waking up moves requests from the wait queues to the active ones, keeps the active ones active
  and touches no other request.
\<close>

definition moves_only :: "lock_state \<Rightarrow> lock_state \<Rightarrow> bool" where
  "moves_only s s' \<longleftrightarrow>
     queues_ok s' \<and> set (requests s') = set (requests s) \<and>
     (\<forall>d. d \<notin> set (requests s) \<longrightarrow> heap s' d = heap s d) \<and>
     (\<forall>d. lock (heap s' d) = lock (heap s d)) \<and> (\<forall>d. unlock_ok d s \<longrightarrow> unlock_ok d s')"

lemma moves_only_trans: "moves_only a b \<Longrightarrow> moves_only b c \<Longrightarrow> moves_only a c"
  by (simp add: moves_only_def)

lemma moves_only_refl: "queues_ok s \<Longrightarrow> moves_only s s"
  by (simp add: moves_only_def)

lemma moves_free_readers:
  assumes q: "queues_ok s"
  shows "moves_only s (free_waiting_readers uci s)"
proof (cases "read_wait (lk s) = []")
  case True
  then show ?thesis using q by (simp add: free_waiting_readers_def moves_only_refl)
next
  case False
  have dist: "distinct (requests s)" using q by (simp add: queues_ok_def)
  note eq = free_all_read_locks_queues [OF dist, of uci]
  have "set (freed_readers uci s) \<union> {d \<in> set (read_wait (lk s)). uci \<and> ty s d = TL_READ_NO_INSERT}
      = set (read_wait (lk s))"
    by (auto simp: freed_readers_def)
  then have req: "set (requests (free_all_read_locks uci s)) = set (requests s)"
    unfolding requests_def eq by auto
  have sub: "set (freed_readers uci s) \<subseteq> set (requests s)"
    by (auto simp: freed_readers_def requests_def)
  have "unlock_ok d (free_all_read_locks uci s)" if "unlock_ok d s" for d
    using that by (auto simp: unlock_ok_def eq free_all_read_locks_heap)
  then show ?thesis
    using False sub req free_all_read_locks_queues_ok [OF q, of uci]
    by (auto simp: moves_only_def free_waiting_readers_def free_all_read_locks_heap clear_cond_def)
qed

lemma moves_started:
  assumes q: "queues_ok s" and st: "writers_started g rest s s'"
  shows "moves_only s s'"
proof -
  have lk: "lk s' = (lk s)\<lparr>write_q := write_q (lk s) @ g, write_wait := rest\<rparr>"
    and ww: "write_wait (lk s) = g @ rest" and same: "\<And>d. d \<notin> set g \<Longrightarrow> heap s' d = heap s d"
    and lock: "\<And>d. d \<in> set g \<Longrightarrow> lock (heap s' d) = lock (heap s d)"
    using st by (auto simp: writers_started_def)
  have "lock (heap s' d) = lock (heap s d)" for d using lock same by metis
  moreover have "unlock_ok d s'" if "unlock_ok d s" for d
    using that same [of d] by (auto simp: unlock_ok_def lk ww)
  ultimately show ?thesis
    using writers_started_queues_ok [OF assms] same by (auto simp: moves_only_def requests_def lk ww)
qed

lemma requests_count_write [simp]: "requests (count_write env s) = requests s"
  by (simp add: requests_def)

lemma moves_count_write:
  "queues_ok s \<Longrightarrow> moves_only s (count_write env s)" "queues_ok (count_write env s) = queues_ok s"
  by (simp_all add: moves_only_def requests_def queues_ok_def unlock_ok_def)

lemma moves_retype:
  assumes "queues_ok s" "write_wait (lk s) = d # ds" "ty s d = TL_WRITE_CONCURRENT_INSERT"
  shows "moves_only s (set_type d TL_WRITE s)"
  using assms by (auto simp: moves_only_def requests_def queues_ok_def unlock_ok_def is_write_def tl_order)

lemma moves_queues_ok: "moves_only s s' \<Longrightarrow> queues_ok s'"
  by (simp add: moves_only_def)

lemma wake_up_moves:
  assumes q: "queues_ok s"
  shows "moves_only s (wake_up_waiters env s)"
proof (cases "write_wait (lk s)")
  case Nil
  then show ?thesis
    using moves_free_readers [OF q] moves_only_refl [OF q]
    by (simp add: wake_up_waiters_def wake_up_idle_def wake_up_readers_active_def)
next
  case (Cons d ds)
  have dds: "distinct (d # ds)" using q by (simp add: requests_def Cons queues_ok_def)
  let ?c = "count_write env s"
  have qc: "queues_ok ?c" using q by (simp add: moves_count_write)
  obtain s3 d' where run: "grant_writers env d ds ?c = (s3, d')" by fastforce
  obtain g rest where g: "writers_started g rest ?c s3"
    using grant_writers_started [of ?c d ds env] dds run by (auto simp: Cons)
  have s3: "moves_only s s3"
    by (rule moves_only_trans [OF moves_count_write(1) [OF q] moves_started [OF qc g]])
  note free3 = moves_only_trans [OF s3 moves_free_readers [OF moves_queues_ok [OF s3]]]
  note freec = moves_only_trans [OF moves_count_write(1) [OF q] moves_free_readers [OF qc]]
  have idle: "moves_only s (wake_up_idle env s)"
    using moves_free_readers [OF q] s3 free3 freec [of False]
    by (auto simp: wake_up_idle_def Cons Let_def run free_waiting_readers_def)
  obtain g' rest' where g': "writers_started g' rest' s (grant_shared_writers (ty s d) d ds s)"
    using grant_shared_writers_started [OF Cons dds refl] by blast
  note st = moves_started [OF q g']
  note frees = moves_only_trans [OF st moves_free_readers [OF moves_queues_ok [OF st]]]
  have freed: "ty s d = TL_WRITE_CONCURRENT_INSERT \<Longrightarrow> moves_only s (free_waiting_readers False (set_type d TL_WRITE s))"
    using moves_only_trans [OF moves_retype [OF q Cons] moves_free_readers [OF moves_queues_ok]]
      moves_retype [OF q Cons] by blast
  have "moves_only s (wake_up_readers_active env s)"
    using frees freed moves_only_refl [OF q] by (simp add: wake_up_readers_active_def Cons Let_def)
  then show ?thesis using idle moves_only_refl [OF q] by (simp add: wake_up_waiters_def)
qed

lemma idle_ok_moves: "moves_only s s' \<Longrightarrow> idle_ok s \<Longrightarrow> idle_ok s'"
  by (simp add: moves_only_def idle_ok_def)

text \<open>Requests leave the queues marked \<open>TL_UNLOCK\<close>.\<close>

lemma idle_ok_leave:
  assumes "idle_ok s" "\<And>x. x \<notin> set (requests s') \<Longrightarrow> x \<in> set (requests s) \<Longrightarrow> ty s' x = TL_UNLOCK"
    "\<And>x. x \<notin> set (requests s) \<Longrightarrow> ty s' x = ty s x \<or> ty s' x = TL_UNLOCK"
  shows "idle_ok s'"
  using assms unfolding idle_ok_def by metis

lemma wake_up_idle_ok:
  "lock_core s \<Longrightarrow> idle_ok s \<Longrightarrow> idle_ok (wake_up_waiters env s)"
  using idle_ok_moves wake_up_moves core_queues_ok by blast

lemma wait_end_idle_ok:
  assumes inv: "lock_inv s" and idle: "idle_ok s" and d: "cond (heap s d) \<noteq> None \<longrightarrow> waits_in q d s"
  shows "idle_ok (fst (wait_for_lock_end env q d timed_out s))"
proof (cases "cond (heap s d)")
  case None
  then show ?thesis using idle by (simp add: wait_for_lock_end_def idle_ok_def requests_def)
next
  case (Some c)
  let ?s = "set_type d TL_UNLOCK (leave_queue q d s)"
  have core: "lock_core ?s"
    by (rule leave_queue_core [where q = q and d = d and s = s])
      (use inv d Some in \<open>auto simp: lock_inv_def leave_queue_def split: wait_queue.splits\<close>)
  have "idle_ok ?s"
    by (rule idle_ok_leave [OF idle])
      (auto simp: requests_def leave_queue_def in_set_remove1 split: wait_queue.splits if_splits)
  then show ?thesis
    using wake_up_idle_ok [OF core] by (simp add: wait_for_lock_end_def Some leave_queue_def Let_def)
qed

lemma unlock_idle_ok:
  assumes inv: "lock_inv s" and idle: "idle_ok s" and d: "unlock_ok d s"
  shows "idle_ok (thr_unlock env d f s)"
proof -
  have core: "lock_core s" using inv by (simp add: lock_inv_def)
  have "idle_ok (unlocked d f s)"
  proof (rule idle_ok_leave [OF idle])
    fix x
    assume x: "x \<notin> set (requests (unlocked d f s))" "x \<in> set (requests s)"
    have "x = d"
    proof (rule ccontr)
      assume "x \<noteq> d"
      then show False
        using x d unlocked_lk [OF core_queues_ok [OF core], of d f] by (auto simp: unlock_ok_def requests_def)
    qed
    then show "ty (unlocked d f s) x = TL_UNLOCK" by simp
  qed simp
  then show ?thesis
    unfolding thr_unlock_unlocked by (rule wake_up_idle_ok [OF unlocked_core [OF core d]])
qed

lemma idle_ok_retype: "idle_ok s \<Longrightarrow> d \<in> set (requests s) \<Longrightarrow> idle_ok (set_type d t s)"
  by (auto simp: idle_ok_def)

lemma abort_idle_ok:
  assumes "idle_ok s"
  shows "idle_ok (thr_abort_locks upgrade s)"
proof -
  have idle: "idle_ok (aborted s)"
    by (rule idle_ok_leave [OF assms]) (auto simp: requests_def aborted_def Let_def)
  have hd: "hd (write_q (lk s)) \<in> set (requests (aborted s))" if "write_q (lk s) \<noteq> []"
    using that by (simp add: requests_def aborted_def Let_def)
  have "thr_abort_locks upgrade s = (if upgrade \<and> write_q (lk s) \<noteq> []
      then set_type (hd (write_q (lk s))) TL_WRITE_ONLY (aborted s) else aborted s)"
    by (simp add: thr_abort_locks_def aborted_def Let_def)
  then show ?thesis using idle idle_ok_retype [OF idle hd] by simp
qed

lemma leave_idle_ok:
  "idle_ok s \<Longrightarrow> idle_ok (leave_queue q d (mark_free d (set_type d TL_UNLOCK s)))"
  by (rule idle_ok_leave [of s])
    (auto simp: requests_def leave_queue_def in_set_remove1 split: wait_queue.splits if_splits)

lemma abort_thread_loop_idle_ok:
  "idle_ok s \<Longrightarrow> idle_ok (fst (abort_thread_loop thread_id t q ds s found))"
proof (induction ds arbitrary: s found)
  case (Cons d ds)
  let ?s = "leave_queue q d (mark_free d (set_type d TL_UNLOCK s))"
  have "abort_thread_loop thread_id t q (d # ds) s found =
      (if thread_id (ow s d) = t then abort_thread_loop thread_id t q ds ?s True
       else abort_thread_loop thread_id t q ds s found)"
    by (simp add: leave_queue_def Let_def)
  then show ?case
    using Cons.IH [OF leave_idle_ok [OF Cons.prems]] Cons.IH [OF Cons.prems] by simp
qed simp

lemma abort_thread_idle_ok:
  assumes inv: "lock_inv s" and idle: "idle_ok s"
  shows "idle_ok (fst (thr_abort_locks_for_thread env thread_id t s))"
proof -
  let ?p = "abort_thread_loop thread_id t Read_wait (read_wait (lk s)) s False"
  let ?r = "abort_thread_loop thread_id t Write_wait (write_wait (lk (fst ?p))) (fst ?p) (snd ?p)"
  have 1: "lock_core (fst ?p)"
    by (rule abort_thread_loop_core) (use inv in \<open>auto simp: lock_inv_def queue_facts waits_in_def\<close>)
  have "lock_core (fst ?r)"
    by (rule abort_thread_loop_core [OF 1]) (use 1 in \<open>auto simp: queue_facts waits_in_def\<close>)
  then have "idle_ok (wake_up_waiters env (fst ?r))"
    by (rule wake_up_idle_ok) (intro abort_thread_loop_idle_ok idle)
  then show ?thesis by (simp add: thr_abort_locks_for_thread_def split_beta)
qed

lemma thr_lock_idle_ok:
  assumes idle: "idle_ok s" and d: "d \<notin> set (requests s)"
  shows "idle_ok (fst (thr_lock env d own c (set_type d t s)))"
proof -
  let ?s = "set_type d t s"
  let ?p = "thr_lock env d own c ?s"
  have out: "lock_outcome d own c ?s ?p" by (rule thr_lock_outcome) (use d in simp)
  have d': "d \<in> set (requests (fst ?p)) \<or> ty (fst ?p) d = TL_UNLOCK"
    using out by (auto simp: lock_outcome_def requests_def split: option.splits enum_thr_lock_result.splits)
  have sub: "set (requests s) \<subseteq> set (requests (fst ?p))"
    using out
    by (auto simp: lock_outcome_def entered_def requests_def split: option.splits enum_thr_lock_result.splits)
  show ?thesis
    unfolding idle_ok_def
  proof (intro allI impI)
    fix x
    assume x: "x \<notin> set (requests (fst ?p))"
    show "ty (fst ?p) x = TL_UNLOCK"
    proof (cases "x = d")
      case False
      then have "heap (fst ?p) x = heap s x" using out by (simp add: lock_outcome_def)
      then show ?thesis using idle x sub unfolding idle_ok_def by (metis subsetD)
    qed (use d' x in simp)
  qed
qed

lemma idle_ok_same:
  "idle_ok s \<Longrightarrow> set (requests s) \<subseteq> set (requests s') \<Longrightarrow> (\<And>x. ty s' x = ty s x) \<Longrightarrow> idle_ok s'"
  by (auto simp: idle_ok_def)

lemma upgrade_idle_ok:
  assumes "idle_ok s" "d \<in> set (write_q (lk s)) \<or> d \<in> set (write_wait (lk s))"
  shows "idle_ok (fst (thr_upgrade_write_delay_lock d t c s))"
proof -
  let ?s = "set_type d t s"
  have idle: "idle_ok ?s" by (rule idle_ok_retype [OF assms(1)]) (use assms(2) in \<open>auto simp: requests_def\<close>)
  have "idle_ok (wait_for_lock_begin Write_wait d True c ?s)"
    by (rule idle_ok_same [OF idle]) (auto simp: wait_for_lock_begin_def requests_def)
  moreover have "idle_ok (wait_for_lock_begin Write_wait d True c (put_first_in_write_wait d ?s))"
    by (rule idle_ok_same [OF idle]) (auto simp: wait_for_lock_begin_def requests_def in_set_remove1)
  moreover have "idle_ok (emit_if b e (emit_if b' e' ?s))" for b e b' e'
    by (rule idle_ok_same [OF idle]) (auto simp: requests_def)
  ultimately show ?thesis
    using assms(1) by (simp add: thr_upgrade_write_delay_lock_def Let_def)
qed

lemma reschedule_idle_ok:
  assumes inv: "lock_inv s" and idle: "idle_ok s" and W: "write_q (lk s) = [d]"
  shows "idle_ok (fst (thr_reschedule_write_lock d c s))"
proof (cases "read_wait (lk s) = []")
  case False
  let ?s = "upd d (cond_update (\<lambda>_. Some c)) (put_first_in_write_wait d
      (emit_if (update_status (lk s)) (Update_status (status_param (heap s d))) (set_type d TL_WRITE_DELAYED s)))"
  have "lock_core s" using inv by (simp add: lock_inv_def)
  then have "lock_core ?s"
    by (rule requeue_core [OF _ W]) (simp_all add: W is_write_def tl_order)
  then have "queues_ok ?s" by auto
  moreover have "idle_ok ?s"
    by (rule idle_ok_leave [OF idle]) (use W in \<open>auto simp: requests_def\<close>)
  ultimately have "idle_ok (free_waiting_readers False ?s)"
    using idle_ok_moves moves_free_readers by blast
  then show ?thesis
    using False by (simp add: thr_reschedule_write_lock_def Let_def free_waiting_readers_def)
qed (use idle in \<open>simp add: thr_reschedule_write_lock_def\<close>)

lemma lock_step_idle_ok:
  assumes inv: "lock_inv s" and idle: "idle_ok s" and step: "lock_step s s'"
  shows "idle_ok s'"
  using step
proof cases
  case (step_lock env d own t c)
  then show ?thesis using thr_lock_idle_ok [OF idle] by (simp add: request_ok_def)
next
  case (step_downgrade d t)
  then show ?thesis
    using idle by (auto simp: thr_downgrade_write_lock_def downgrade_ok_def requests_def intro!: idle_ok_retype)
next
  case (step_upgrade d t c)
  then show ?thesis using upgrade_idle_ok [OF idle] by (simp add: upgrade_ok_def)
next
  case (step_upgrade_end d env timed_out trans_failed)
  then have "idle_ok (fst (wait_for_lock_end env Write_wait d timed_out s))"
    by (intro wait_end_idle_ok [OF inv idle]) (simp add: waits_in_def)
  then show ?thesis
    by (auto simp: step_upgrade_end(1) upgrade_end_state Let_def idle_ok_def requests_def)
qed (auto intro: abort_idle_ok abort_thread_idle_ok reschedule_idle_ok unlock_idle_ok wait_end_idle_ok
    inv idle)

interpretation lock_bookkeeping: transition_system new_lock "lock_step"
  "\<lambda>s. lock_inv s \<and> idle_ok s"
proof unfold_locales
  show "new_lock s \<Longrightarrow> lock_inv s \<and> idle_ok s" for s
    using new_lock_inv by (auto simp: new_lock_def idle_ok_def)
qed (auto intro: lock_step_inv lock_step_idle_ok)

section \<open>Properties of every reachable state\<close>

text \<open>
  C1: Requests, releases, time-outs, aborts, upgrades and downgrades come in any order from any number of
  threads, for tables with every mix of lock types.  The callers keep these rules: a request is not
  queued twice; a thread asks for its write locks on a table from the strongest type down and for none
  beside a delayed one, as \<open>thr_lock\<close> documents and asserts; only granted locks and waiting delayed ones
  are released; a lock becomes \<open>TL_WRITE_ONLY\<close> only while one thread holds all locks of the table, and only
  such a lock is downgraded, to a type not weaker than the thread's others; only delayed locks are upgraded,
  to an exclusive type; only a lone writer is rescheduled (and addresses are below \<open>2 ^ 32 - 1\<close>, so that the
  32-bit counter of readers does not wrap).  Then two
  active requests of different threads are compatible: a reader beside a writer satisfies the matrix
  documented in \<open>thr_lock\<close>, and two writers both have \<open>TL_WRITE_ALLOW_WRITE\<close>.  The only exceptions are on
  locks with \<open>allow_multiple_concurrent_insert\<close>, where \<open>TL_READ_NO_INSERT\<close> can be active beside
  \<open>TL_WRITE_CONCURRENT_INSERT\<close>, and each of two writers has \<open>TL_WRITE_ALLOW_WRITE\<close> or
  \<open>TL_WRITE_CONCURRENT_INSERT\<close>.
\<close>

theorem table_lock_exclusion:
  assumes "lock_reachable s" "w \<in> set (write_q (lk s))"
    "x \<in> set (read_q (lk s)) \<union> set (write_q (lk s))" "ow s w \<noteq> ow s x"
  shows "x \<in> set (read_q (lk s)) \<and>
           (rw_compatible (ty s w) (ty s x) \<or>
            allow_multiple_concurrent_insert (lk s) \<and>
              ty s w = TL_WRITE_CONCURRENT_INSERT \<and> ty s x = TL_READ_NO_INSERT) \<or>
         x \<in> set (write_q (lk s)) \<and>
           (ty s w = TL_WRITE_ALLOW_WRITE \<and> ty s x = TL_WRITE_ALLOW_WRITE \<or>
            allow_multiple_concurrent_insert (lk s) \<and>
              {ty s w, ty s x} \<subseteq> {TL_WRITE_ALLOW_WRITE, TL_WRITE_CONCURRENT_INSERT})"
proof -
  have core: "lock_core s"
    using table_lock.inv_reachable [OF assms(1)] by (simp add: lock_inv_def)
  show ?thesis
  proof (cases "x \<in> set (read_q (lk s))")
    case True
    then have "let_in s (ty s w) (ty s x)"
      using core assms(2,4) unfolding lock_core_def readers_ok_def by metis
    then show ?thesis using True by (simp add: let_in_def)
  next
    case False
    then have x: "x \<in> set (write_q (lk s))" using assms(3) by simp
    then have "ty s w = TL_WRITE_ALLOW_WRITE \<and> ty s x = TL_WRITE_ALLOW_WRITE \<or>
        allow_multiple_concurrent_insert (lk s) \<and> shared_write (ty s w) \<and> shared_write (ty s x)"
      using core assms(2,4) unfolding lock_core_def writers_ok_def by metis
    then show ?thesis using x by (auto simp: shared_write_def)
  qed
qed

text \<open>
  C2: No wake-up is lost: in every reachable state a request waits only while some request is
  active, and a reader waits only while a writer is active or waiting.  In particular the release
  of the last active lock, or the time-out of the last obstacle, starts a waiting request.
\<close>

theorem table_lock_no_lost_wakeup:
  assumes "lock_reachable s" "d \<in> set (read_wait (lk s)) \<union> set (write_wait (lk s))"
  shows "(\<exists>h. h \<in> set (read_q (lk s)) \<union> set (write_q (lk s))) \<and>
         (d \<in> set (read_wait (lk s)) \<longrightarrow> write_q (lk s) \<noteq> [] \<or> write_wait (lk s) \<noteq> [])"
proof -
  have "no_lost_wakeup s" using table_lock.inv_reachable [OF assms(1)] by (simp add: lock_inv_def)
  then show ?thesis
    using assms(2) unfolding no_lost_wakeup_def
    by (cases "read_q (lk s)"; cases "write_q (lk s)") auto
qed

text \<open>
  C4: \<open>wait_for_lock\<close> returns \<open>THR_LOCK_SUCCESS\<close> exactly for a request that another thread has
  moved to the active readers or writers; a request that was aborted, timed out or killed gets
  another result, is marked \<open>TL_UNLOCK\<close> and is in no queue.
\<close>

theorem wait_for_lock_result:
  assumes "lock_reachable s" "cond (heap s d) \<noteq> None \<longrightarrow> waits_in q d s"
    and "wait_for_lock_end env q d timed_out s = (s', r)"
  shows "(r = THR_LOCK_SUCCESS \<longleftrightarrow> d \<in> set (read_q (lk s)) \<union> set (write_q (lk s))) \<and>
         (r \<noteq> THR_LOCK_SUCCESS \<longrightarrow> ty s' d = TL_UNLOCK \<and> d \<notin> set (requests s'))"
proof -
  have inv: "lock_inv s" "idle_ok s"
    using lock_bookkeeping.inv_reachable [OF assms(1)] by simp_all
  then have core: "lock_core s" and q: "queues_ok s" by (auto simp: lock_inv_def)
  show ?thesis
  proof (cases "cond (heap s d)")
    case (Some c)
    let ?s = "set_type d TL_UNLOCK (leave_queue q d s)"
    have s': "s' = wake_up_waiters env ?s" and r: "r \<noteq> THR_LOCK_SUCCESS"
      using assms(3) Some by (auto simp: wait_for_lock_end_def leave_queue_def Let_def split: if_splits)
    have core': "lock_core ?s"
      by (rule leave_queue_core [OF core, where q = q and d = d])
        (use assms(2) Some in \<open>auto simp: leave_queue_def split: wait_queue.splits\<close>)
    have out: "d \<notin> set (requests ?s)"
      using assms(2) Some q
      by (auto simp: waits_in_def leave_queue_def queues_ok_def requests_def split: wait_queue.splits)
    have "d \<notin> set (read_q (lk s)) \<union> set (write_q (lk s))"
      using Some q by (auto simp: queues_ok_def)
    then show ?thesis
      using r out wake_up_moves [OF core_queues_ok [OF core']] by (simp add: s' moves_only_def)
  next
    case None
    have "ty s d \<noteq> TL_UNLOCK \<longleftrightarrow> d \<in> set (requests s)"
      using inv(2) q read_write_types by (auto simp: idle_ok_def queues_ok_def requests_def)
    then show ?thesis
      using None q assms(3)
      by (auto simp: wait_for_lock_end_def queues_ok_def requests_def split: if_splits)
  qed
qed

text \<open>
  In every reachable state \<open>read_no_write_count\<close> is the number of active
  \<open>TL_READ_NO_INSERT\<close> locks (the 32-bit counter does not wrap), the request has a lock type exactly
  while it is in a queue, and its \<open>cond\<close> is set there exactly while it waits.
\<close>

theorem table_lock_bookkeeping:
  assumes "lock_reachable s"
  shows "unat (read_no_write_count (lk s)) = card {d \<in> set (read_q (lk s)). ty s d = TL_READ_NO_INSERT} \<and>
         (ty s d \<noteq> TL_UNLOCK \<longleftrightarrow> d \<in> set (requests s)) \<and>
         (d \<in> set (requests s) \<longrightarrow>
            (cond (heap s d) \<noteq> None \<longleftrightarrow> d \<in> set (read_wait (lk s)) \<union> set (write_wait (lk s))))"
proof -
  have inv: "lock_inv s" "idle_ok s"
    using lock_bookkeeping.inv_reachable [OF assms] by simp_all
  then have q: "queues_ok s" and c: "count_ok s" by (auto simp: lock_inv_def)
  have "distinct (no_insert_readers s)"
    using q by (simp add: queues_ok_def requests_def no_insert_readers_def)
  then have "card {d \<in> set (read_q (lk s)). ty s d = TL_READ_NO_INSERT} = length (no_insert_readers s)"
    using distinct_card by (fastforce simp: no_insert_readers_def)
  moreover have "unat (read_no_write_count (lk s)) = length (no_insert_readers s)"
    using c no_insert_count_bound [OF q] by (simp add: count_ok_def unat_of_nat take_bit_nat_eq_self)
  moreover have "ty s d \<noteq> TL_UNLOCK \<longleftrightarrow> d \<in> set (requests s)"
    using inv(2) q read_write_types by (auto simp: idle_ok_def queues_ok_def requests_def)
  moreover have "d \<in> set (requests s) \<longrightarrow>
      (cond (heap s d) \<noteq> None \<longleftrightarrow> d \<in> set (read_wait (lk s)) \<union> set (write_wait (lk s)))"
    using q by (auto simp: queues_ok_def requests_def)
  ultimately show ?thesis by simp
qed

text \<open>
  \<open>thr_lock\<close> for a request that is in no queue changes no other request and ends in one of four
  ways: the request is active and \<open>THR_LOCK_SUCCESS\<close> is returned; it is a delayed write lock that is
  queued and \<open>THR_LOCK_SUCCESS\<close> is returned at once; it is appended to a wait queue with \<open>cond\<close> set
  and the thread sleeps; or \<open>THR_LOCK_ABORTED\<close> is returned, the lock is unchanged, the request is
  \<open>TL_UNLOCK\<close>, and this happens only behind a \<open>TL_WRITE_ONLY\<close> lock.
\<close>

theorem thr_lock_result:
  assumes "d \<notin> set (requests s)" "thr_lock env d own c s = (s', r)"
  shows "(\<forall>x. x \<noteq> d \<longrightarrow> heap s' x = heap s x) \<and> ow s' d = own \<and>
    (r = Some THR_LOCK_SUCCESS \<and> entered d s s' \<and> cond (heap s' d) = None \<and>
        d \<in> set (read_q (lk s')) \<union> set (write_q (lk s')) \<or>
     r = Some THR_LOCK_SUCCESS \<and> entered d s s' \<and> cond (heap s' d) = Some c \<and>
        d \<in> set (write_wait (lk s')) \<and> ty s' d = TL_WRITE_DELAYED \<or>
     r = None \<and> entered d s s' \<and> cond (heap s' d) = Some c \<and>
        d \<in> set (read_wait (lk s')) \<union> set (write_wait (lk s')) \<or>
     r = Some THR_LOCK_ABORTED \<and> lk s' = lk s \<and> ty s' d = TL_UNLOCK \<and>
        write_q (lk s) \<noteq> [] \<and> ty s (hd (write_q (lk s))) = TL_WRITE_ONLY)"
proof -
  have out: "lock_outcome d own c s (s', r)"
    using thr_lock_outcome [OF assms(1)] assms(2) by metis
  show ?thesis
  proof (cases r)
    case None
    then show ?thesis using out by (simp add: lock_outcome_def)
  next
    case (Some r')
    then show ?thesis using out by (cases r') (auto simp: lock_outcome_def)
  qed
qed

text \<open>
  The \<open>DBUG_ASSERT\<close> in \<open>thr_lock\<close> never fails for callers that keep the documented order of
  requests, unless the lock allows several concurrent inserts and has \<open>TL_WRITE_ALLOW_WRITE\<close> among them.
\<close>

theorem thr_lock_assertion:
  assumes inv: "lock_inv s" and ok: "request_ok env d own s"
    and w: "is_write (ty s d)" "ty s d \<noteq> TL_WRITE_DELAYED" and W: "write_q (lk s) = w # ws"
    and unmixed: "allow_multiple_concurrent_insert (lk s) \<Longrightarrow> \<forall>v\<in>set (write_q (lk s)). ty s v \<noteq> TL_WRITE_ALLOW_WRITE"
  shows "second_write_assert w own (asked_type env d s) s"
proof -
  have core: "lock_core s" using inv by (simp add: lock_inv_def)
  have desc: "weaker (asked_type env d s) (ty s v) \<and> ty s v \<noteq> TL_WRITE_DELAYED"
    if "v \<in> set (write_q (lk s))" "ow s v = own" for v
    using ok w that by (simp add: request_ok_def)
  have "weaker (asked_type env d s) (ty s w) \<and> ty s w \<noteq> TL_WRITE_DELAYED"
    if v: "v \<in> set (write_q (lk s))" "ow s v = own" for v
  proof (cases "ow s w = own")
    case False
    then have "ty s v = ty s w"
      using core v W unmixed unfolding lock_core_def writers_ok_def shared_write_def by (metis list.set_intros(1))
    then show ?thesis using desc [OF v] by simp
  qed (use desc W in simp)
  then show ?thesis
    unfolding second_write_assert_def has_old_lock_iff by (auto simp: weaker_def)
qed

text \<open>
  \<open>max_write_lock_count\<close> bounds how long writers keep readers waiting: when the last active lock
  is released after more than that many write locks in a row and readers wait, the release
  starts every waiting reader, in order, instead of the next writer, and resets the counter.
\<close>

theorem max_write_lock_count_frees_readers:
  assumes "lock_reachable s" "write_q (lk s) @ read_q (lk s) = [d]" "read_wait (lk s) \<noteq> []"
    and "max_write_lock_count env < write_lock_count (lk s)"
  shows "read_q (lk (thr_unlock env d flags s)) = read_wait (lk s) \<and>
         read_wait (lk (thr_unlock env d flags s)) = [] \<and>
         write_q (lk (thr_unlock env d flags s)) = [] \<and>
         write_lock_count (lk (thr_unlock env d flags s)) = 0"
proof -
  let ?u = "unlocked d flags s"
  have core: "lock_core s"
    using table_lock.inv_reachable [OF assms(1)] by (simp add: lock_inv_def)
  have d: "d \<in> set (write_q (lk s)) \<and> read_q (lk s) = [] \<and> write_q (lk s) = [d] \<or>
      d \<in> set (read_q (lk s)) \<and> write_q (lk s) = [] \<and> read_q (lk s) = [d]"
    using assms(2) by (cases "write_q (lk s)") auto
  have ok: "unlock_ok d s" using d by (auto simp: unlock_ok_def)
  have u: "write_q (lk ?u) = []" "read_q (lk ?u) = []" "read_wait (lk ?u) = read_wait (lk s)"
    "write_lock_count (lk ?u) = write_lock_count (lk s)"
    using d unlocked_lk [OF core_queues_ok [OF core], of d flags] by auto
  have coreu: "lock_core ?u" by (rule unlocked_core [OF core ok])
  note dist = distinct_requests [OF coreu]
  have too: "too_many_writes env ?u" using assms(4) by (simp add: too_many_writes_def u(4))
  have "wake_up_waiters env ?u = free_all_read_locks False ?u \<or>
      wake_up_waiters env ?u = free_all_read_locks False (count_write env ?u)"
    using u(1-3) assms(3) too
    by (auto simp: wake_up_waiters_def wake_up_idle_def free_waiting_readers_def Let_def split: list.splits)
  moreover have "freed_readers False t = read_wait (lk t)" for t
    by (simp add: freed_readers_def)
  moreover have "write_lock_count (lk (free_all_read_locks False t)) = 0" if "distinct (requests t)" for t
    using free_all_read_locks_queues(2) [OF that, of False]
    by (auto simp: free_all_read_locks_def Let_def split: if_splits)
  ultimately show ?thesis
    unfolding thr_unlock_unlocked
    using free_all_read_locks_queues [OF dist, of False] u
      free_all_read_locks_queues [of "count_write env ?u" False] dist
    by (elim disjE) (simp_all add: moves_count_write)
qed

text \<open>
  C37: When the wait of \<open>thr_upgrade_write_delay_lock\<close> ends with a time-out, the function returns 0,
  its value for success, although the request has left the queue, is marked \<open>TL_UNLOCK\<close> and the
  thread has no lock.
\<close>

theorem upgrade_timeout_reported_as_success:
  assumes "lock_reachable s" "d \<in> set (write_wait (lk s))"
    and "thr_upgrade_write_delay_lock_end env d True trans_failed s = (s', failed)"
  shows "\<not> failed \<and> ty s' d = TL_UNLOCK \<and> d \<notin> set (requests s')"
proof -
  have inv: "lock_inv s" using table_lock.inv_reachable [OF assms(1)] .
  then have core: "lock_core s" and q: "queues_ok s" by (auto simp: lock_inv_def)
  obtain c where c: "cond (heap s d) = Some c" using q assms(2) by (auto simp: queues_ok_def)
  let ?s = "set_type d TL_UNLOCK (leave_queue Write_wait d s)"
  have s': "s' = wake_up_waiters env ?s" "\<not> failed"
    using assms(3) c
    by (auto simp: thr_upgrade_write_delay_lock_end_def wait_for_lock_end_def leave_queue_def Let_def
        split: if_splits)
  have "lock_core ?s"
    by (rule leave_queue_core [OF core, where q = Write_wait and d = d])
      (use assms(2) in \<open>auto simp: leave_queue_def waits_in_def\<close>)
  moreover have "d \<notin> set (requests ?s)"
    using assms(2) q by (auto simp: leave_queue_def queues_ok_def requests_def)
  ultimately show ?thesis
    using s' wake_up_moves [OF core_queues_ok] by (simp add: moves_only_def)
qed

section \<open>Concrete runs\<close>

definition demo_start :: lock_state where
  "demo_start = \<lparr>heap = (\<lambda>d. thr_lock_data_init 0 d), lk = thr_lock_init, evs = []\<rparr>"

definition demo_env :: lock_env where
  "demo_env = \<lparr>max_write_lock_count = 0, thr_upgraded_concurrent_insert_lock = TL_WRITE,
     concurrent_insert_refused = (\<lambda>_. False)\<rparr>"

text \<open>Thread \<open>own\<close> asks for a lock of type \<open>t\<close> with request \<open>d\<close>.\<close>

definition demo_lock :: "nat \<Rightarrow> nat \<Rightarrow> thr_lock_type \<Rightarrow> lock_state \<Rightarrow> lock_state" where
  "demo_lock d own t s = fst (thr_lock demo_env d own own (set_type d t s))"

lemma demo_reachable:
  "lock_reachable demo_start"
  "lock_reachable s \<Longrightarrow> request_ok demo_env d own (set_type d t s) \<Longrightarrow>
     lock_reachable (demo_lock d own t s)"
  "lock_reachable s \<Longrightarrow> unlock_ok d s \<Longrightarrow> lock_reachable (thr_unlock demo_env d 0 s)"
proof -
  show "lock_reachable demo_start"
    by (rule reachable.start) (simp add: new_lock_def demo_start_def thr_lock_init_def thr_lock_data_init_def)
  show "lock_reachable s \<Longrightarrow> request_ok demo_env d own (set_type d t s) \<Longrightarrow>
     lock_reachable (demo_lock d own t s)"
    unfolding demo_lock_def
    by (rule reachable.more, assumption, rule step_lock) (simp_all add: env_ok_def demo_env_def)
  show "lock_reachable s \<Longrightarrow> unlock_ok d s \<Longrightarrow> lock_reachable (thr_unlock demo_env d 0 s)"
    by (rule reachable.more, assumption, rule step_unlock)
qed

text \<open>Two threads: a row-level writer and a reader; a writer and a waiting reader.\<close>

definition demo_shared :: lock_state where
  "demo_shared = demo_lock 1 2 TL_READ (demo_lock 0 1 TL_WRITE_ALLOW_WRITE demo_start)"

definition demo_waiting :: lock_state where
  "demo_waiting = demo_lock 1 2 TL_READ (demo_lock 0 1 TL_WRITE demo_start)"

definition demo_delayed :: lock_state where
  "demo_delayed = demo_lock 1 2 TL_WRITE_DELAYED (demo_lock 0 1 TL_READ demo_start)"

definition demo_writes :: lock_state where
  "demo_writes = demo_lock 3 4 TL_WRITE (demo_lock 2 3 TL_READ
     (thr_unlock demo_env 0 0 (demo_lock 1 2 TL_WRITE (demo_lock 0 1 TL_WRITE demo_start))))"

lemma demo_states_reachable:
  "lock_reachable demo_shared" "lock_reachable demo_waiting"
  "lock_reachable demo_delayed" "lock_reachable demo_writes"
  unfolding demo_shared_def demo_waiting_def demo_delayed_def demo_writes_def
  by (intro demo_reachable; code_simp)+

theorem table_lock_exclusion_witness:
  "0 \<in> set (write_q (lk demo_shared)) \<and> 1 \<in> set (read_q (lk demo_shared)) \<and>
   rw_compatible (ty demo_shared 0) (ty demo_shared 1)"
proof -
  have q: "write_q (lk demo_shared) = [0]" "read_q (lk demo_shared) = [1]"
    "ow demo_shared 0 = 1" "ow demo_shared 1 = 2" "\<not> allow_multiple_concurrent_insert (lk demo_shared)"
    by code_simp+
  then show ?thesis
    using table_lock_exclusion [OF demo_states_reachable(1), of 0 1] by simp
qed

theorem table_lock_no_lost_wakeup_witness:
  "1 \<in> set (read_wait (lk demo_waiting)) \<and>
   (\<exists>h. h \<in> set (read_q (lk demo_waiting)) \<union> set (write_q (lk demo_waiting)))"
proof -
  have "read_wait (lk demo_waiting) = [1]" by code_simp
  then show ?thesis using table_lock_no_lost_wakeup [OF demo_states_reachable(2), of 1] by simp
qed

theorem wait_for_lock_result_witness:
  "snd (wait_for_lock_end demo_env Read_wait 1 True demo_waiting) \<noteq> THR_LOCK_SUCCESS \<and>
   1 \<notin> set (requests (fst (wait_for_lock_end demo_env Read_wait 1 True demo_waiting)))"
proof -
  have q: "read_wait (lk demo_waiting) = [1]" "read_q (lk demo_waiting) = []"
    "write_q (lk demo_waiting) = [0]" by code_simp+
  then show ?thesis
    using wait_for_lock_result [OF demo_states_reachable(2), of 1 Read_wait demo_env True]
    by (simp add: waits_in_def) (metis prod.collapse)
qed

theorem table_lock_bookkeeping_witness:
  "unat (read_no_write_count (lk demo_waiting)) = 0 \<and> ty demo_waiting 1 \<noteq> TL_UNLOCK"
proof -
  have "read_q (lk demo_waiting) = []" "requests demo_waiting = [1, 0]" by code_simp+
  then show ?thesis using table_lock_bookkeeping [OF demo_states_reachable(2), of 1] by simp
qed

theorem thr_lock_result_witness:
  "0 \<notin> set (requests demo_start) \<and> ow (fst (thr_lock demo_env 0 1 1 (set_type 0 TL_WRITE demo_start))) 0 = 1"
proof -
  have "0 \<notin> set (requests (set_type 0 TL_WRITE demo_start))" by code_simp
  from thr_lock_result [OF this prod.collapse [symmetric], of demo_env 1 1] this
  show ?thesis by simp
qed

theorem max_write_lock_count_witness:
  "read_wait (lk demo_writes) = [2] \<and> write_wait (lk demo_writes) = [3] \<and>
   read_q (lk (thr_unlock demo_env 1 0 demo_writes)) = [2]"
proof -
  have q: "read_wait (lk demo_writes) = [2]" "write_wait (lk demo_writes) = [3]"
    "write_q (lk demo_writes) @ read_q (lk demo_writes) = [1]" by code_simp+
  have "max_write_lock_count demo_env < write_lock_count (lk demo_writes)" by code_simp
  with q show ?thesis
    using max_write_lock_count_frees_readers [OF demo_states_reachable(4) q(3), of demo_env 0] by simp
qed

theorem upgrade_timeout_witness:
  "1 \<in> set (write_wait (lk demo_delayed)) \<and>
   \<not> snd (thr_upgrade_write_delay_lock_end demo_env 1 True True demo_delayed)"
proof -
  have "1 \<in> set (write_wait (lk demo_delayed))" by code_simp
  with upgrade_timeout_reported_as_success [OF demo_states_reachable(3) this prod.collapse [symmetric]]
  show ?thesis by simp
qed

text \<open>
  Where several concurrent inserts are allowed, a thread that runs one of them gets
  \<open>TL_READ_NO_INSERT\<close> at once because it owns the head of \<open>write\<close>, although another thread's
  concurrent insert is active: the pair that the matrix in \<open>thr_lock\<close> marks as incompatible.
\<close>

definition demo_multi_start :: lock_state where
  "demo_multi_start = demo_start\<lparr>lk := thr_lock_init\<lparr>check_status := True,
     allow_multiple_concurrent_insert := True\<rparr>\<rparr>"

lemma demo_multi_reachable: "lock_reachable demo_multi_start"
  by (rule reachable.start)
    (simp add: new_lock_def demo_multi_start_def demo_start_def thr_lock_init_def thr_lock_data_init_def)

definition demo_multi :: lock_state where
  "demo_multi = demo_lock 1 2 TL_WRITE_CONCURRENT_INSERT
     (demo_lock 0 1 TL_WRITE_CONCURRENT_INSERT demo_multi_start)"

theorem read_no_insert_beside_concurrent_insert:
  "lock_reachable (demo_lock 2 1 TL_READ_NO_INSERT demo_multi) \<and>
   snd (thr_lock demo_env 2 1 1 (set_type 2 TL_READ_NO_INSERT demo_multi)) = Some THR_LOCK_SUCCESS \<and>
   (let s = demo_lock 2 1 TL_READ_NO_INSERT demo_multi
    in 1 \<in> set (write_q (lk s)) \<and> 2 \<in> set (read_q (lk s)) \<and> ow s 1 \<noteq> ow s 2 \<and>
       \<not> rw_compatible (ty s 1) (ty s 2))"
proof (intro conjI)
  show "lock_reachable (demo_lock 2 1 TL_READ_NO_INSERT demo_multi)"
    unfolding demo_multi_def by (intro demo_reachable(2) demo_multi_reachable; code_simp)
qed code_simp+

text \<open>
  Only the first write lock is compared with a new one: beside the two locks of a thread, a concurrent
  insert and a \<open>TL_WRITE_ALLOW_WRITE\<close>, another thread's concurrent insert is granted, although not all
  write locks have the same type as the comment asks.
\<close>

definition demo_mixed :: lock_state where
  "demo_mixed = demo_lock 1 1 TL_WRITE_ALLOW_WRITE (demo_lock 0 1 TL_WRITE_CONCURRENT_INSERT demo_multi_start)"

theorem concurrent_insert_beside_allow_write:
  "lock_reachable (demo_lock 2 2 TL_WRITE_CONCURRENT_INSERT demo_mixed) \<and>
   snd (thr_lock demo_env 2 2 2 (set_type 2 TL_WRITE_CONCURRENT_INSERT demo_mixed)) = Some THR_LOCK_SUCCESS \<and>
   (let s = demo_lock 2 2 TL_WRITE_CONCURRENT_INSERT demo_mixed
    in write_q (lk s) = [0, 1, 2] \<and> ow s 1 \<noteq> ow s 2 \<and>
       ty s 1 = TL_WRITE_ALLOW_WRITE \<and> ty s 2 = TL_WRITE_CONCURRENT_INSERT)"
proof (intro conjI)
  show "lock_reachable (demo_lock 2 2 TL_WRITE_CONCURRENT_INSERT demo_mixed)"
    unfolding demo_mixed_def by (intro demo_reachable(2) demo_multi_reachable; code_simp)
qed code_simp+

end
