(* ===== verification/Thr_Lock_Check.thy ===== *)
theory Thr_Lock_Check
  imports Thr_Lock_Step
begin

text \<open>
  The consistency checks that debug builds run around every lock operation (\<open>check_lock\<close> and
  \<open>check_locks\<close> of \<open>src/mysys/thr_lock.c\<close>).  The tests of the \<open>prev\<close> and \<open>last\<close> links have no
  counterpart, because the queues are lists here.
\<close>

definition MAX_LOCKS :: nat where "MAX_LOCKS = 1000"

definition MAX_FOUND_ERRORS :: nat where "MAX_FOUND_ERRORS = 10"

text \<open>The loop of \<open>check_lock\<close>; \<open>True\<close> is a warning (the function returns 1).\<close>

fun check_lock_loop ::
  "lock_state \<Rightarrow> nat \<Rightarrow> bool \<Rightarrow> bool \<Rightarrow> bool \<Rightarrow> thr_lock_type \<Rightarrow> nat \<Rightarrow> nat list \<Rightarrow> bool" where
  "check_lock_loop s first_owner same_owner no_cond read_lock last_lock_type cnt [] = False"
| "check_lock_loop s first_owner same_owner no_cond read_lock last_lock_type cnt (d # ds) =
     (if MAX_LOCKS \<le> cnt then True
      else if ty s d = TL_UNLOCK then True
      else if read_lock \<and> TL_READ_NO_INSERT < ty s d \<or> \<not> read_lock \<and> ty s d \<le> TL_READ_NO_INSERT
      then True
      else
        let lt = (if ty s d \<noteq> last_lock_type then TL_IGNORE else last_lock_type)
        in if same_owner \<and> \<not> thr_lock_owner_equal (ow s d) first_owner \<and>
              lt \<noteq> TL_WRITE_ALLOW_WRITE \<and> lt \<noteq> TL_WRITE_CONCURRENT_INSERT
           then True
           else if no_cond \<and> cond (heap s d) \<noteq> None then True
           else check_lock_loop s first_owner same_owner no_cond read_lock lt (cnt + 1) ds)"

definition check_lock :: "lock_state \<Rightarrow> nat list \<Rightarrow> bool \<Rightarrow> bool \<Rightarrow> bool \<Rightarrow> bool" where
  "check_lock s ds same_owner no_cond read_lock =
     (case ds of
        [] \<Rightarrow> False
      | d # _ \<Rightarrow> check_lock_loop s (ow s d) same_owner no_cond read_lock (ty s d) 0 ds)"

definition check_queues :: "lock_state \<Rightarrow> bool" where
  "check_queues s \<longleftrightarrow>
     check_lock s (write_q (lk s)) True True False \<or> check_lock s (write_wait (lk s)) False False False \<or>
     check_lock s (read_q (lk s)) False True True \<or> check_lock s (read_wait (lk s)) False False True"

fun count_no_insert :: "lock_state \<Rightarrow> nat list \<Rightarrow> uint32 \<Rightarrow> uint32" where
  "count_no_insert s [] cnt = cnt"
| "count_no_insert s (d # ds) cnt =
     count_no_insert s ds (if ty s d = TL_READ_NO_INSERT then cnt + 1 else cnt)"

text \<open>Errors that \<open>check_locks\<close> counts while no write lock is active.\<close>

definition errors_no_writer :: "bool \<Rightarrow> lock_state \<Rightarrow> nat" where
  "errors_no_writer allow_no_locks s =
     of_bool (\<not> allow_no_locks \<and> read_q (lk s) = [] \<and> (write_wait (lk s) \<noteq> [] \<or> read_wait (lk s) \<noteq> [])) +
     (case write_wait (lk s) of
        [] \<Rightarrow> of_bool (\<not> allow_no_locks \<and> read_wait (lk s) \<noteq> [])
      | w # _ \<Rightarrow>
          of_bool (\<not> allow_no_locks \<and>
            ((ty s w = TL_WRITE_CONCURRENT_INSERT \<or> ty s w = TL_WRITE_ALLOW_WRITE) \<and>
               read_no_write_count (lk s) = 0 \<or>
             ty s w = TL_WRITE_DELAYED \<and> read_q (lk s) = [])))"

definition reader_error :: "lock_state \<Rightarrow> nat \<Rightarrow> nat \<Rightarrow> bool" where
  "reader_error s w d \<longleftrightarrow>
     \<not> thr_lock_owner_equal (ow s w) (ow s d) \<and>
     (TL_WRITE_DELAYED < ty s w \<and> ty s w \<noteq> TL_WRITE_ONLY \<or>
      (ty s w = TL_WRITE_CONCURRENT_INSERT \<or> ty s w = TL_WRITE_ALLOW_WRITE) \<and>
        ty s d = TL_READ_NO_INSERT)"

text \<open>Errors that \<open>check_locks\<close> counts while \<open>w\<close> is the first active write lock.\<close>

definition errors_writer :: "bool \<Rightarrow> nat \<Rightarrow> lock_state \<Rightarrow> nat" where
  "errors_writer allow_no_locks w s =
     of_bool (write_wait (lk s) \<noteq> [] \<and> \<not> allow_no_locks \<and> ty s w = TL_WRITE_ALLOW_WRITE \<and>
        ty s (hd (write_wait (lk s))) = TL_WRITE_ALLOW_WRITE) +
     length (filter (reader_error s w) (read_q (lk s))) +
     of_bool (read_wait (lk s) \<noteq> [] \<and> \<not> allow_no_locks \<and> ty s w \<le> TL_WRITE_DELAYED \<and>
        ty s (hd (read_wait (lk s))) \<le> TL_READ_HIGH_PRIORITY)"

text \<open>\<open>check_locks\<close> as a function of the global \<open>found_errors\<close>, which it returns updated.\<close>

definition check_locks :: "nat \<Rightarrow> bool \<Rightarrow> lock_state \<Rightarrow> nat" where
  "check_locks found_errors allow_no_locks s =
     (if found_errors < MAX_FOUND_ERRORS
      then
        let e1 = found_errors + of_bool (check_queues s)
        in if e1 < MAX_FOUND_ERRORS
           then e1 + of_bool (count_no_insert s (read_q (lk s)) 0 \<noteq> read_no_write_count (lk s)) +
                (case write_q (lk s) of
                   [] \<Rightarrow> errors_no_writer allow_no_locks s
                 | w # _ \<Rightarrow> errors_writer allow_no_locks w s)
           else e1
      else found_errors)"

section \<open>What the checks say about reachable states\<close>

lemma count_no_insert_length:
  "count_no_insert s ds n = n + of_nat (length (filter (\<lambda>d. ty s d = TL_READ_NO_INSERT) ds))"
  by (induction ds arbitrary: n) auto

lemma check_lock_loop_quiet:
  assumes "cnt + length ds \<le> MAX_LOCKS"
    and "\<And>d. d \<in> set ds \<Longrightarrow> if rd then is_read (ty s d) else is_write (ty s d)"
    and "\<And>d. d \<in> set ds \<Longrightarrow> no_cond \<Longrightarrow> cond (heap s d) = None"
    and "same \<Longrightarrow> (\<forall>d\<in>set ds. ow s d = own) \<or>
           (\<forall>d\<in>set ds. ty s d = lt) \<and> (lt = TL_WRITE_ALLOW_WRITE \<or> lt = TL_WRITE_CONCURRENT_INSERT)"
  shows "\<not> check_lock_loop s own same no_cond rd lt cnt ds"
  using assms
proof (induction ds arbitrary: cnt lt)
  case (Cons d ds)
  have t: "if rd then is_read (ty s d) else is_write (ty s d)" using Cons.prems(2) by simp
  have rest: "\<not> check_lock_loop s own same no_cond rd l (cnt + 1) ds"
    if "same \<Longrightarrow> (\<forall>d\<in>set ds. ow s d = own) \<or>
         (\<forall>d\<in>set ds. ty s d = l) \<and> (l = TL_WRITE_ALLOW_WRITE \<or> l = TL_WRITE_CONCURRENT_INSERT)" for l
    by (rule Cons.IH) (use Cons.prems that in auto)
  have type_ok: "ty s d \<noteq> TL_UNLOCK"
      "\<not> (rd \<and> TL_READ_NO_INSERT < ty s d \<or> \<not> rd \<and> ty s d \<le> TL_READ_NO_INSERT)"
    using t read_write_types by (auto split: if_splits simp: not_less)
  have own_ok: "\<not> (same \<and> \<not> thr_lock_owner_equal (ow s d) own \<and>
      (if ty s d \<noteq> lt then TL_IGNORE else lt) \<noteq> TL_WRITE_ALLOW_WRITE \<and>
      (if ty s d \<noteq> lt then TL_IGNORE else lt) \<noteq> TL_WRITE_CONCURRENT_INSERT)"
    using Cons.prems(4) by (auto simp: thr_lock_owner_equal_def)
  have cond_ok: "\<not> (no_cond \<and> cond (heap s d) \<noteq> None)" using Cons.prems(3) by simp
  have small: "\<not> MAX_LOCKS \<le> cnt" using Cons.prems(1) by simp
  have "\<not> check_lock_loop s own same no_cond rd (if ty s d \<noteq> lt then TL_IGNORE else lt) (cnt + 1) ds"
    by (rule rest) (use Cons.prems(4) in auto)
  then show ?case
    unfolding check_lock_loop.simps Let_def using type_ok own_ok cond_ok small
    by (simp only: if_False simp_thms)
qed simp

lemma check_lock_quiet:
  assumes "length ds \<le> MAX_LOCKS"
    and "\<And>d. d \<in> set ds \<Longrightarrow> if rd then is_read (ty s d) else is_write (ty s d)"
    and "\<And>d. d \<in> set ds \<Longrightarrow> no_cond \<Longrightarrow> cond (heap s d) = None"
  shows "\<not> check_lock s ds False no_cond rd"
proof (cases ds)
  case (Cons d ds')
  have "\<not> check_lock_loop s (ow s d) False no_cond rd (ty s d) 0 ds"
    by (rule check_lock_loop_quiet) (use assms in auto)
  then show ?thesis by (simp add: check_lock_def Cons)
qed (simp add: check_lock_def)

lemma queues_quiet:
  assumes "lock_reachable s" "length (requests s) \<le> MAX_LOCKS"
    "allow_multiple_concurrent_insert (lk s) \<Longrightarrow> \<forall>v\<in>set (write_q (lk s)). ty s v \<noteq> TL_WRITE_ALLOW_WRITE"
  shows "\<not> check_queues s \<and> count_no_insert s (read_q (lk s)) 0 = read_no_write_count (lk s)"
proof -
  have core: "lock_core s"
    using table_lock.inv_reachable [OF assms(1)] by (simp add: lock_inv_def)
  have q: "queues_ok s" using core by auto
  have len: "length (read_q (lk s)) \<le> MAX_LOCKS" "length (read_wait (lk s)) \<le> MAX_LOCKS"
    "length (write_q (lk s)) \<le> MAX_LOCKS" "length (write_wait (lk s)) \<le> MAX_LOCKS"
    using assms(2) by (simp_all add: requests_def)
  have "\<not> check_lock s (read_q (lk s)) False True True"
    "\<not> check_lock s (read_wait (lk s)) False False True"
    "\<not> check_lock s (write_wait (lk s)) False False False"
    by (rule check_lock_quiet; use q len in \<open>simp add: queues_ok_def\<close>)+
  moreover have "\<not> check_lock s (write_q (lk s)) True True False"
  proof (cases "write_q (lk s)")
    case (Cons w ws)
    have "\<not> check_lock_loop s (ow s w) True True False (ty s w) 0 (write_q (lk s))"
    proof (rule check_lock_loop_quiet)
      show "(\<forall>d\<in>set (write_q (lk s)). ow s d = ow s w) \<or> (\<forall>d\<in>set (write_q (lk s)). ty s d = ty s w) \<and>
          (ty s w = TL_WRITE_ALLOW_WRITE \<or> ty s w = TL_WRITE_CONCURRENT_INSERT)"
        using core Cons assms(3) unfolding lock_core_def writers_ok_def shared_write_def by (metis list.set_intros(1))
    qed (use q len in \<open>auto simp: queues_ok_def\<close>)
    then show ?thesis by (simp add: check_lock_def Cons)
  qed (simp add: check_lock_def)
  moreover have "count_ok s" using core by auto
  ultimately show ?thesis
    by (simp add: check_queues_def count_no_insert_length count_ok_def no_insert_readers_def)
qed

text \<open>
  In every reachable state with at most 1000 requests in a queue (and no \<open>TL_WRITE_ALLOW_WRITE\<close> where several
  concurrent inserts are allowed), \<open>check_locks\<close> finds nothing
  wrong with the four queues nor with \<open>read_no_write_count\<close>: no queue holds a request of the wrong
  kind, an unlocked request or an active request with \<open>cond\<close> set, active writers of
  different threads are all \<open>TL_WRITE_ALLOW_WRITE\<close> or all \<open>TL_WRITE_CONCURRENT_INSERT\<close>, and the
  counter is right.
\<close>

theorem check_queues_quiet:
  assumes "lock_reachable s" "length (requests s) \<le> MAX_LOCKS"
    "allow_multiple_concurrent_insert (lk s) \<Longrightarrow> \<forall>v\<in>set (write_q (lk s)). ty s v \<noteq> TL_WRITE_ALLOW_WRITE"
  shows "\<not> check_queues s \<and> count_no_insert s (read_q (lk s)) 0 = read_no_write_count (lk s)"
  using queues_quiet assms by blast

theorem check_queues_quiet_witness:
  "\<not> check_queues demo_waiting \<and> length (requests demo_waiting) \<le> MAX_LOCKS"
proof -
  have "length (requests demo_waiting) = 2" by code_simp
  then have "length (requests demo_waiting) \<le> MAX_LOCKS" by (simp add: MAX_LOCKS_def)
  moreover have "\<not> allow_multiple_concurrent_insert (lk demo_waiting)" by code_simp
  ultimately show ?thesis using check_queues_quiet [OF demo_states_reachable(2)] by simp
qed

text \<open>
  \<open>check_locks\<close> counts an error for a state that \<open>thr_lock\<close> allows on purpose: a
  \<open>TL_READ_NO_INSERT\<close> lock beside another thread's \<open>TL_WRITE_ALLOW_WRITE\<close> lock.
\<close>

definition demo_no_insert :: lock_state where
  "demo_no_insert = demo_lock 1 2 TL_READ_NO_INSERT (demo_lock 0 1 TL_WRITE_ALLOW_WRITE demo_start)"

theorem check_locks_false_alarm:
  "lock_reachable demo_no_insert \<and> read_q (lk demo_no_insert) = [1] \<and>
   check_locks 0 False demo_no_insert = 1"
proof -
  have "lock_reachable demo_no_insert"
    unfolding demo_no_insert_def by (intro demo_reachable; code_simp)
  moreover have "read_q (lk demo_no_insert) = [1]" "write_q (lk demo_no_insert) = [0]"
    "write_wait (lk demo_no_insert) = []" "read_wait (lk demo_no_insert) = []"
    "reader_error demo_no_insert 0 1" "\<not> allow_multiple_concurrent_insert (lk demo_no_insert)" by code_simp+
  moreover have "length (requests demo_no_insert) \<le> MAX_LOCKS"
    using calculation by (simp add: requests_def MAX_LOCKS_def)
  ultimately show ?thesis
    using queues_quiet [of demo_no_insert]
    by (simp add: check_locks_def Let_def errors_writer_def MAX_FOUND_ERRORS_def)
qed

end
