(* ===== verification/Lock_Sort.thy ===== *)
theory Lock_Sort
  imports Thr_Lock "HOL-Library.Product_Lexorder"
begin

text \<open>
  The order in which \<open>thr_multi_lock\<close> takes several locks (\<open>LOCK_CMP\<close> and \<open>sort_locks\<close> of
  \<open>src/mysys/thr_lock.c\<close>).  The in-place insertion sort is shown to be the stable sort by lock
  address, then from the strongest to the weakest type, then by priority.
\<close>

definition LOCK_CMP :: "(nat \<Rightarrow> THR_LOCK_DATA) \<Rightarrow> nat \<Rightarrow> nat \<Rightarrow> bool" where
  "LOCK_CMP h a b =
     (if lock (h a) \<noteq> lock (h b) then lock (h a) < lock (h b)
      else if type (h a) \<noteq> type (h b) then type (h b) < type (h a)
      else priority (h a) < priority (h b))"

text \<open>
  The inner loop \<open>do { prev[0]= prev[-1]; } while (--prev != data && LOCK_CMP(tmp, prev[-1]));
  prev[0]= tmp;\<close>, with \<open>prev\<close> as an index of the array.
\<close>

fun shift_locks :: "(nat \<Rightarrow> THR_LOCK_DATA) \<Rightarrow> nat \<Rightarrow> nat \<Rightarrow> nat list \<Rightarrow> nat list" where
  "shift_locks h tmp 0 xs = xs"
| "shift_locks h tmp (Suc prev) xs =
     (let xs1 = xs[Suc prev := xs ! prev]
      in if prev \<noteq> 0 \<and> LOCK_CMP h tmp (xs1 ! (prev - 1)) then shift_locks h tmp prev xs1
         else xs1[prev := tmp])"

definition sort_step :: "(nat \<Rightarrow> THR_LOCK_DATA) \<Rightarrow> nat \<Rightarrow> nat list \<Rightarrow> nat list" where
  "sort_step h pos xs =
     (let tmp = xs ! pos
      in if LOCK_CMP h tmp (xs ! (pos - 1)) then shift_locks h tmp pos xs else xs)"

text \<open>\<open>sort_locks(data, count)\<close> where \<open>count\<close> is the length of the array.\<close>

definition sort_locks :: "(nat \<Rightarrow> THR_LOCK_DATA) \<Rightarrow> nat list \<Rightarrow> nat list" where
  "sort_locks h xs = fold (sort_step h) [1..<length xs] xs"

section \<open>The sorting key\<close>

definition lock_key :: "(nat \<Rightarrow> THR_LOCK_DATA) \<Rightarrow> nat \<Rightarrow> nat \<times> int \<times> uint32" where
  "lock_key h d = (lock (h d), - tl_code (type (h d)), priority (h d))"

lemma LOCK_CMP_key: "LOCK_CMP h a b \<longleftrightarrow> lock_key h a < lock_key h b"
  by (auto simp: LOCK_CMP_def lock_key_def less_thr_lock_type_def le_less tl_code_inj)

lemma shift_locks_correct:
  assumes "0 < p" "p < length xs" "\<And>q. q < p \<Longrightarrow> p - 1 \<le> q \<Longrightarrow> LOCK_CMP h tmp (xs ! q)"
  shows "\<exists>i \<le> p. i < p \<and>
     shift_locks h tmp p xs = take i xs @ tmp # drop i (take p xs) @ drop (Suc p) xs \<and>
     (\<forall>q. i \<le> q \<and> q < p \<longrightarrow> LOCK_CMP h tmp (xs ! q)) \<and>
     (0 < i \<longrightarrow> \<not> LOCK_CMP h tmp (xs ! (i - 1)))"
  using assms
proof (induction p arbitrary: xs)
  case (Suc p)
  have len: "p < length xs" using Suc.prems(2) by simp
  have here: "LOCK_CMP h tmp (xs ! p)" using Suc.prems(3) [of p] by simp
  let ?xs = "xs[Suc p := xs ! p]"
  show ?case
  proof (cases "p \<noteq> 0 \<and> LOCK_CMP h tmp (xs ! (p - 1))")
    case True
    have "\<exists>i \<le> p. i < p \<and>
       shift_locks h tmp p ?xs = take i ?xs @ tmp # drop i (take p ?xs) @ drop (Suc p) ?xs \<and>
       (\<forall>q. i \<le> q \<and> q < p \<longrightarrow> LOCK_CMP h tmp (?xs ! q)) \<and>
       (0 < i \<longrightarrow> \<not> LOCK_CMP h tmp (?xs ! (i - 1)))"
    proof (rule Suc.IH)
      fix q
      assume "q < p" "p - 1 \<le> q"
      then have "q = p - 1" by simp
      then show "LOCK_CMP h tmp (?xs ! q)" using True len by simp
    qed (use True len in auto)
    then obtain i where i: "i < p"
        "shift_locks h tmp p ?xs = take i ?xs @ tmp # drop i (take p ?xs) @ drop (Suc p) ?xs"
        "\<And>q. i \<le> q \<Longrightarrow> q < p \<Longrightarrow> LOCK_CMP h tmp (?xs ! q)" "0 < i \<Longrightarrow> \<not> LOCK_CMP h tmp (?xs ! (i - 1))"
      by auto
    have eq: "take i ?xs @ tmp # drop i (take p ?xs) @ drop (Suc p) ?xs =
        take i xs @ tmp # drop i (take (Suc p) xs) @ drop (Suc (Suc p)) xs"
      using i(1) Suc.prems(2) len
      by (simp add: drop_update_swap take_Suc_conv_app_nth Cons_nth_drop_Suc [symmetric])
    have "LOCK_CMP h tmp (xs ! q)" if "i \<le> q" "q < Suc p" for q
      using that i(3) [of q] here by (cases "q = p") auto
    then show ?thesis
      using True i(1,2,4) len eq by (intro exI [of _ i]) (simp add: Let_def)
  next
    case False
    have "shift_locks h tmp (Suc p) xs = xs[Suc p := xs ! p, p := tmp]"
      using False len by (auto simp: Let_def)
    also have "\<dots> = take p xs @ tmp # drop p (take (Suc p) xs) @ drop (Suc (Suc p)) xs"
      using len Suc.prems(2) by (auto simp: upd_conv_take_nth_drop take_Suc_conv_app_nth min_def)
    finally have "shift_locks h tmp (Suc p) xs =
        take p xs @ tmp # drop p (take (Suc p) xs) @ drop (Suc (Suc p)) xs" .
    then show ?thesis
      using False here by (intro exI [of _ p]) (auto simp: le_less_Suc_eq)
  qed
qed simp

text \<open>Inserting behind all elements with a smaller or equal key continues a stable sort.\<close>

lemma insert_sort_key:
  fixes f :: "'a \<Rightarrow> 'k :: linorder"
  assumes zs: "zs = sort_key f xs" and i: "i \<le> length zs"
    and above: "\<And>q. i \<le> q \<Longrightarrow> q < length zs \<Longrightarrow> f x < f (zs ! q)"
    and below: "0 < i \<Longrightarrow> f (zs ! (i - 1)) \<le> f x"
  shows "take i zs @ x # drop i zs = sort_key f (xs @ [x])"
proof (rule properties_for_sort_key [symmetric])
  have "mset (take i zs) + mset (drop i zs) = mset zs"
    by (metis append_take_drop_id mset_append)
  then show "mset (take i zs @ x # drop i zs) = mset (xs @ [x])"
    using zs by simp
  have big: "\<forall>y\<in>set (drop i zs). f x < f y"
    using above by (auto simp: in_set_conv_nth)
  have sorted: "sorted (map f zs)" by (simp add: zs)
  have "f y \<le> f x" if y: "y \<in> set (take i zs)" for y
  proof -
    obtain q where q: "q < i" "q < length zs" "y = zs ! q" using y by (auto simp: in_set_conv_nth)
    have "f (zs ! q) \<le> f (zs ! (i - 1))"
      using sorted_nth_mono [OF sorted, of q "i - 1"] q(1) i by simp
    then show ?thesis using below q by simp
  qed
  moreover have "sorted (map f (take i zs @ drop i zs))" using sorted by simp
  ultimately show "sorted (map f (take i zs @ x # drop i zs))"
    using big unfolding map_append sorted_append
    by (auto simp: less_imp_le simp del: append_take_drop_id)
  fix k
  have "filter (\<lambda>y. f k = f y) (drop i zs) = []" if "f k = f x"
    using big that by (auto simp: filter_empty_conv)
  moreover have "filter (\<lambda>y. f k = f y) (take i zs) @ filter (\<lambda>y. f k = f y) (drop i zs) =
      filter (\<lambda>y. f k = f y) xs"
    using sort_key_stable [of f "f k" xs] zs
    by (metis (mono_tags, lifting) append_take_drop_id filter_append filter_cong)
  ultimately show "filter (\<lambda>y. f k = f y) (take i zs @ x # drop i zs) = filter (\<lambda>y. f k = f y) (xs @ [x])"
    by auto
qed

lemma sort_step_correct:
  assumes "0 < k" "k < length xs" "length zs = k" "zs = sort_key (lock_key h) (take k xs)"
  shows "sort_step h k (zs @ drop k xs) =
           sort_key (lock_key h) (take (Suc k) xs) @ drop (Suc k) xs"
proof -
  let ?ys = "zs @ drop k xs" and ?x = "xs ! k" and ?f = "lock_key h"
  have x: "?ys ! k = ?x" "?ys ! (k - 1) = zs ! (k - 1)" and tk: "take (Suc k) xs = take k xs @ [?x]"
    and dr: "drop k xs = ?x # drop (Suc k) xs" and len: "k < length ?ys"
    using assms by (auto simp: nth_append take_Suc_conv_app_nth Cons_nth_drop_Suc)
  show ?thesis
  proof (cases "LOCK_CMP h ?x (zs ! (k - 1))")
    case True
    have "\<exists>i\<le>k. i < k \<and> shift_locks h ?x k ?ys = take i ?ys @ ?x # drop i (take k ?ys) @ drop (Suc k) ?ys \<and>
        (\<forall>q. i \<le> q \<and> q < k \<longrightarrow> LOCK_CMP h ?x (?ys ! q)) \<and> (0 < i \<longrightarrow> \<not> LOCK_CMP h ?x (?ys ! (i - 1)))"
    proof (rule shift_locks_correct [OF assms(1) len])
      fix q
      assume "q < k" "k - 1 \<le> q"
      then have "q = k - 1" by simp
      then show "LOCK_CMP h ?x (?ys ! q)" using True x by simp
    qed
    then obtain i where i: "i < k"
        "shift_locks h ?x k ?ys = take i ?ys @ ?x # drop i (take k ?ys) @ drop (Suc k) ?ys"
        "\<And>q. i \<le> q \<Longrightarrow> q < k \<Longrightarrow> LOCK_CMP h ?x (?ys ! q)" "0 < i \<Longrightarrow> \<not> LOCK_CMP h ?x (?ys ! (i - 1))"
      by blast
    have "take i zs @ ?x # drop i zs = sort_key ?f (take k xs @ [?x])"
      using i(1,3,4) assms(3)
      by (intro insert_sort_key [OF assms(4)]) (auto simp: LOCK_CMP_key nth_append not_less split: if_splits)
    then show ?thesis
      using True x i(1,2) assms(3) by (simp add: sort_step_def Let_def tk)
  next
    case False
    have "take k zs @ ?x # drop k zs = sort_key ?f (take k xs @ [?x])"
      using False assms(3) by (intro insert_sort_key [OF assms(4)]) (auto simp: LOCK_CMP_key not_less)
    then show ?thesis using False x assms(3) by (simp add: sort_step_def Let_def tk dr)
  qed
qed

lemma sort_prefix:
  "0 < k \<Longrightarrow> k \<le> length xs \<Longrightarrow>
   fold (sort_step h) [1..<k] xs = sort_key (lock_key h) (take k xs) @ drop k xs"
proof (induction k)
  case (Suc k)
  show ?case
  proof (cases "k = 0")
    case True
    then show ?thesis using Suc.prems by (cases xs) auto
  next
    case False
    then show ?thesis using Suc sort_step_correct [of k xs] by simp
  qed
qed simp

text \<open>
  C19: \<open>sort_locks\<close>, the in-place insertion sort of \<open>thr_multi_lock\<close>, is the stable sort of the
  requests by lock address, then by lock type from the strongest to the weakest, then by
  priority: all threads take the locks of different tables in the same order, which rules out
  deadlocks between calls of \<open>thr_multi_lock\<close>, and the write locks of one table first.
\<close>

theorem sort_locks_correct: "sort_locks h xs = sort_key (lock_key h) xs"
proof (cases xs)
  case (Cons x ys)
  then show ?thesis using sort_prefix [of "length xs" xs h] by (simp add: sort_locks_def)
qed (simp add: sort_locks_def)

text \<open>Within one table, the requests come in the order that \<open>thr_lock\<close> relies on.\<close>

lemma sort_locks_descending:
  assumes "i < j" "j < length xs" "lock (h (sort_locks h xs ! i)) = lock (h (sort_locks h xs ! j))"
  shows "type (h (sort_locks h xs ! j)) \<le> type (h (sort_locks h xs ! i))"
proof -
  have "sorted (map (lock_key h) (sort_locks h xs))" by (simp add: sort_locks_correct)
  from sorted_nth_mono [OF this, of i j] assms
  show ?thesis by (auto simp: lock_key_def sort_locks_correct less_eq_thr_lock_type_def)
qed

lemma sort_locks_set [simp]: "set (sort_locks h xs) = set xs" "length (sort_locks h xs) = length xs"
  "distinct (sort_locks h xs) = distinct xs"
  by (simp_all add: sort_locks_correct)

end
