(* ===== verification/Thr_Multi_Lock.thy ===== *)
theory Thr_Multi_Lock
  imports Thr_Lock_Step Lock_Sort
begin

text \<open>
  Several locks at once: \<open>thr_multi_lock\<close>, \<open>thr_multi_unlock\<close> and \<open>thr_merge_locks\<close> of
  \<open>src/mysys/thr_lock.c\<close>.  The state has one heap of requests and all locks; an operation on one
  lock is lifted to it with \<open>at_lock\<close>.  What other threads do while a request sleeps is a
  parameter \<open>others\<close>, which also says whether the sleep ended with a time-out.
\<close>

record locks_state =
  dat :: "nat \<Rightarrow> THR_LOCK_DATA"
  lck :: "nat \<Rightarrow> THR_LOCK"
  calls :: "lock_event list"

definition view :: "locks_state \<Rightarrow> nat \<Rightarrow> lock_state" where
  "view S l = \<lparr>heap = dat S, lk = lck S l, evs = calls S\<rparr>"

definition put :: "locks_state \<Rightarrow> nat \<Rightarrow> lock_state \<Rightarrow> locks_state" where
  "put S l s = S\<lparr>dat := heap s, lck := (lck S)(l := lk s), calls := evs s\<rparr>"

definition at_lock :: "nat \<Rightarrow> (lock_state \<Rightarrow> lock_state \<times> 'r) \<Rightarrow> locks_state \<Rightarrow> locks_state \<times> 'r" where
  "at_lock l f S = (case f (view S l) of (s, r) \<Rightarrow> (put S l s, r))"

text \<open>Releasing: requests marked \<open>TL_UNLOCK\<close> are skipped.\<close>

definition unlock_one :: "lock_env \<Rightarrow> uint32 \<Rightarrow> nat \<Rightarrow> locks_state \<Rightarrow> locks_state" where
  "unlock_one env flags d S =
     (if type (dat S d) \<noteq> TL_UNLOCK
      then put S (lock (dat S d)) (thr_unlock env d flags (view S (lock (dat S d)))) else S)"

definition thr_multi_unlock :: "lock_env \<Rightarrow> nat list \<Rightarrow> uint32 \<Rightarrow> locks_state \<Rightarrow> locks_state" where
  "thr_multi_unlock env ds flags S = fold (unlock_one env flags) ds S"

text \<open>One complete call of \<open>thr_lock\<close>, the sleep included.\<close>

definition lock_one ::
  "lock_env \<Rightarrow> nat \<Rightarrow> nat \<Rightarrow> (nat \<Rightarrow> locks_state \<Rightarrow> locks_state \<times> bool) \<Rightarrow> nat \<Rightarrow> locks_state
    \<Rightarrow> locks_state \<times> enum_thr_lock_result" where
  "lock_one env own c others d S =
     (let l = lock (dat S d);
          q = (if type (dat S d) \<le> TL_READ_NO_INSERT then Read_wait else Write_wait)
      in case at_lock l (thr_lock env d own c) S of
           (S1, Some r) \<Rightarrow> (S1, r)
         | (S1, None) \<Rightarrow>
             (case others d S1 of (S2, timed_out) \<Rightarrow>
                at_lock l (wait_for_lock_end env q d timed_out) S2))"

definition mark_unlocked :: "nat list \<Rightarrow> locks_state \<Rightarrow> locks_state" where
  "mark_unlocked ds S =
     S\<lparr>dat := (\<lambda>x. if x \<in> set ds then (dat S x)\<lparr>type := TL_UNLOCK\<rparr> else dat S x)\<rparr>"

text \<open>The loop of \<open>thr_multi_lock\<close>; \<open>got\<close> are the requests already granted, in order.\<close>

fun multi_lock_loop ::
  "lock_env \<Rightarrow> nat \<Rightarrow> nat \<Rightarrow> (nat \<Rightarrow> locks_state \<Rightarrow> locks_state \<times> bool) \<Rightarrow> nat list \<Rightarrow> nat list
    \<Rightarrow> locks_state \<Rightarrow> locks_state \<times> enum_thr_lock_result" where
  "multi_lock_loop env own c others got [] S = (S, THR_LOCK_SUCCESS)"
| "multi_lock_loop env own c others got (d # ds) S =
     (case lock_one env own c others d S of (S1, r) \<Rightarrow>
        if r \<noteq> THR_LOCK_SUCCESS
        then (mark_unlocked (d # ds) (thr_multi_unlock env got 0 S1), r)
        else multi_lock_loop env own c others (got @ [d]) ds S1)"

text \<open>
  The calls of the engine's \<open>start_trans\<close> and \<open>copy_status\<close> at the end of a successful
  \<open>thr_multi_lock\<close>; \<open>p\<close> is \<open>pos[-1]\<close> and \<open>f\<close> is \<open>*first_lock\<close>.
\<close>

definition trans_call :: "locks_state \<Rightarrow> nat \<Rightarrow> lock_event list" where
  "trans_call S d =
     (if start_trans (lck S (lock (dat S d))) then [Start_trans (status_param (dat S d))] else [])"

fun share_status :: "locks_state \<Rightarrow> nat \<Rightarrow> nat \<Rightarrow> nat list \<Rightarrow> lock_event list" where
  "share_status S p f [] = []"
| "share_status S p f (d # ds) =
     trans_call S d @
     (if lock (dat S d) = lock (dat S p) \<and> copy_status (lck S (lock (dat S d)))
      then Copy_status (status_param (dat S d)) (status_param (dat S f)) # share_status S d f ds
      else share_status S d d ds)"

definition thr_multi_lock ::
  "lock_env \<Rightarrow> nat list \<Rightarrow> nat \<Rightarrow> nat \<Rightarrow> (nat \<Rightarrow> locks_state \<Rightarrow> locks_state \<times> bool) \<Rightarrow> locks_state
    \<Rightarrow> locks_state \<times> enum_thr_lock_result" where
  "thr_multi_lock env data own c others S =
     (let ds = (if 1 < length data then sort_locks (dat S) data else data)
      in case ds of
           [] \<Rightarrow> (S, THR_LOCK_SUCCESS)
         | d # ds' \<Rightarrow>
             (case multi_lock_loop env own c others [] ds S of (S1, r) \<Rightarrow>
                if r \<noteq> THR_LOCK_SUCCESS then (S1, r)
                else (S1\<lparr>calls := calls S1 @ trans_call S1 d @ share_status S1 d d ds'\<rparr>,
                      THR_LOCK_SUCCESS)))"

text \<open>
  \<open>thr_merge_locks\<close>: old locks lose the mark \<open>THR_LOCK_LATE_PRIV\<close>, new locks get it, all are
  sorted, and every lock of a table shares the status of the first one.  Returns the sorted
  array.
\<close>

fun fix_loop :: "locks_state \<Rightarrow> nat option \<Rightarrow> nat list \<Rightarrow> lock_event list" where
  "fix_loop S f [] = []"
| "fix_loop S f (d # ds) =
     (if type (dat S d) = TL_UNLOCK \<or> \<not> fix_status (lck S (lock (dat S d))) then fix_loop S f ds
      else case f of
             Some e \<Rightarrow>
               if lock (dat S d) = lock (dat S e)
               then Fix_status (status_param (dat S e)) (Some (status_param (dat S d))) # fix_loop S f ds
               else Fix_status (status_param (dat S d)) None # fix_loop S (Some d) ds
           | None \<Rightarrow> Fix_status (status_param (dat S d)) None # fix_loop S (Some d) ds)"

definition set_late :: "nat list \<Rightarrow> nat list \<Rightarrow> locks_state \<Rightarrow> locks_state" where
  "set_late old new S =
     (let S1 = fold (\<lambda>d S. S\<lparr>dat := (dat S)(d := (dat S d)\<lparr>priority :=
                priority (dat S d) AND NOT THR_LOCK_LATE_PRIV\<rparr>)\<rparr>) old S
      in fold (\<lambda>d S. S\<lparr>dat := (dat S)(d := (dat S d)\<lparr>priority :=
                priority (dat S d) OR THR_LOCK_LATE_PRIV\<rparr>)\<rparr>) new S1)"

definition thr_merge_locks :: "nat list \<Rightarrow> nat list \<Rightarrow> locks_state \<Rightarrow> locks_state \<times> nat list" where
  "thr_merge_locks old new S =
     (let S1 = set_late old new S; ds = sort_locks (dat S1) (old @ new)
      in (S1\<lparr>calls := calls S1 @ fix_loop S1 None ds\<rparr>, ds))"

section \<open>Operations on one lock leave the others alone\<close>

text \<open>
  The structural invariant of the whole state: the queues of every lock are well formed and hold
  requests for that lock only.
\<close>

definition locks_ok :: "locks_state \<Rightarrow> bool" where
  "locks_ok S \<longleftrightarrow>
     (\<forall>l. queues_ok (view S l) \<and> (\<forall>d\<in>set (requests (view S l)). lock (dat S d) = l))"

text \<open>A request is queued, and it is held: granted, or a delayed lock in the queue.\<close>

definition queued :: "locks_state \<Rightarrow> nat \<Rightarrow> bool" where
  "queued S d \<longleftrightarrow> (\<exists>l. d \<in> set (requests (view S l)))"

definition held :: "locks_state \<Rightarrow> nat \<Rightarrow> bool" where
  "held S d \<longleftrightarrow> unlock_ok d (view S (lock (dat S d)))"

definition local_step :: "nat \<Rightarrow> lock_state \<Rightarrow> lock_state \<Rightarrow> bool" where
  "local_step d s s' \<longleftrightarrow>
     queues_ok s' \<and> set (requests s') \<subseteq> insert d (set (requests s)) \<and>
     (\<forall>x. x \<notin> insert d (set (requests s)) \<longrightarrow> heap s' x = heap s x) \<and>
     (\<forall>x. lock (heap s' x) = lock (heap s x))"

lemma view_sel [simp]: "heap (view S l) = dat S" "lk (view S l) = lck S l" "evs (view S l) = calls S"
  by (simp_all add: view_def)

lemma put_sel [simp]:
  "dat (put S l s) = heap s" "lck (put S l s) = (lck S)(l := lk s)" "calls (put S l s) = evs s"
  by (simp_all add: put_def)

lemma requests_view [simp]:
  "requests (view (put S l s) l) = requests s"
  "l' \<noteq> l \<Longrightarrow> requests (view (put S l s) l') = requests (view S l')"
  by (simp_all add: requests_def)

lemma queues_ok_cong:
  assumes "lk s' = lk s" "\<And>x. x \<in> set (requests s) \<Longrightarrow> heap s' x = heap s x" "queues_ok s"
  shows "queues_ok s'"
proof -
  have "requests s' = requests s" using assms(1) by (simp add: requests_def)
  then show ?thesis using assms unfolding queues_ok_def by (auto simp: requests_def)
qed

lemma locks_ok_put:
  assumes ok: "locks_ok S" and step: "local_step d (view S l) s'" and l: "lock (dat S d) = l"
  shows "locks_ok (put S l s')"
  unfolding locks_ok_def
proof (intro allI conjI ballI)
  fix l'
  have own: "\<And>x l. x \<in> set (requests (view S l)) \<Longrightarrow> lock (dat S x) = l" using ok by (simp add: locks_ok_def)
  show "queues_ok (view (put S l s') l')"
  proof (cases "l' = l")
    case True
    have "queues_ok s'" using step by (simp add: local_step_def)
    then show ?thesis using True by (auto intro: queues_ok_cong [of _ s'])
  next
    case False
    show ?thesis
    proof (rule queues_ok_cong [of _ "view S l'"])
      fix x
      assume x: "x \<in> set (requests (view S l'))"
      then have "x \<notin> insert d (set (requests (view S l)))" using own l False by blast
      then show "heap (view (put S l s') l') x = heap (view S l') x"
        using step by (simp add: local_step_def)
    qed (use ok False in \<open>simp_all add: locks_ok_def\<close>)
  qed
  fix x
  assume x: "x \<in> set (requests (view (put S l s') l'))"
  show "lock (dat (put S l s') x) = l'"
  proof (cases "l' = l")
    case True
    then have "x \<in> insert d (set (requests (view S l)))" using x step by (auto simp: local_step_def)
    then show ?thesis using own l True step by (auto simp: local_step_def)
  next
    case False
    then show ?thesis using x own step by (auto simp: local_step_def)
  qed
qed

section \<open>Effect of one operation\<close>

lemma unlocked_queues_ok:
  assumes q: "queues_ok s" and d: "unlock_ok d s"
  shows "queues_ok (unlocked d f s)" "set (requests (unlocked d f s)) = set (requests s) - {d}"
    "x \<noteq> d \<Longrightarrow> unlock_ok x s \<Longrightarrow> unlock_ok x (unlocked d f s)"
proof -
  have dist: "distinct (requests s)" using q by (simp add: queues_ok_def)
  note lks = unlocked_lk [OF q, of d f]
  have cases: "d \<in> set (read_q (lk s)) \<or> d \<in> set (write_q (lk s)) \<or>
      d \<in> set (write_wait (lk s)) \<and> ty s d = TL_WRITE_DELAYED"
    using d by (simp add: unlock_ok_def)
  show req: "set (requests (unlocked d f s)) = set (requests s) - {d}"
    using cases dist by (elim disjE) (auto simp: lks requests_def)
  have "distinct (requests (unlocked d f s))"
    using cases dist by (elim disjE) (auto simp: lks requests_def)
  then show "queues_ok (unlocked d f s)"
    using cases q dist req unfolding queues_ok_def
    by (elim disjE) (auto simp: lks requests_def)
  show "x \<noteq> d \<Longrightarrow> unlock_ok x s \<Longrightarrow> unlock_ok x (unlocked d f s)"
    using cases by (elim disjE) (auto simp: lks unlock_ok_def)
qed

lemma thr_unlock_local:
  assumes q: "queues_ok s" and d: "unlock_ok d s"
  shows "local_step d s (thr_unlock env d f s)" "d \<notin> set (requests (thr_unlock env d f s))"
    "ty (thr_unlock env d f s) d = TL_UNLOCK"
    "x \<noteq> d \<Longrightarrow> unlock_ok x s \<Longrightarrow> unlock_ok x (thr_unlock env d f s)"
  using wake_up_moves [OF unlocked_queues_ok(1) [OF assms, where f = f], of env]
    unlocked_queues_ok [OF assms, where f = f]
  unfolding thr_unlock_unlocked local_step_def moves_only_def by auto

text \<open>A request enters the queues for its kind of lock.\<close>

definition typed :: "nat \<Rightarrow> lock_state \<Rightarrow> lock_state \<Rightarrow> bool" where
  "typed d s s' \<longleftrightarrow>
     lock (heap s' d) = lock (heap s d) \<and>
     (d \<in> set (read_q (lk s')) \<union> set (read_wait (lk s')) \<longrightarrow> is_read (ty s' d)) \<and>
     (d \<in> set (write_q (lk s')) \<union> set (write_wait (lk s')) \<longrightarrow> is_write (ty s' d)) \<and>
     (is_read (ty s d) \<longrightarrow> d \<notin> set (write_q (lk s')) \<union> set (write_wait (lk s'))) \<and>
     (is_write (ty s d) \<longrightarrow> d \<notin> set (read_q (lk s')) \<union> set (read_wait (lk s')))"

lemma not_read_and_write: "is_read t \<Longrightarrow> is_write t \<Longrightarrow> P"
  by (cases t) (simp_all add: is_read_def is_write_def tl_order)

lemma typed_intros:
  assumes "d \<notin> set (requests s)"
  shows "is_read (ty s d) \<Longrightarrow> typed d s (grant_read d s)"
    "is_write (ty s d) \<Longrightarrow> typed d s (grant_write d ci s)"
    "is_read (ty s d) \<Longrightarrow> typed d s (wait_for_lock_begin Read_wait d False c s)"
    "is_write (ty s d) \<Longrightarrow> typed d s (wait_for_lock_begin Write_wait d False c s)"
    "is_write (ty s d) \<Longrightarrow> typed d s (queue_delayed d c s)"
    "typed d s (fst (abort_request d s))"
  using assms
  by (auto simp: typed_def requests_def grant_read_def grant_write_def wait_for_lock_begin_def
      queue_delayed_def abort_request_def Let_def dest: not_read_and_write)

lemma typed_retype:
  "typed d (set_type d t s) s' \<Longrightarrow> is_write t \<Longrightarrow> is_write (ty s d) \<Longrightarrow> typed d s s'"
  by (auto simp: typed_def dest: not_read_and_write)

lemma upgraded_is_write: "env_ok env \<Longrightarrow> is_write (thr_upgraded_concurrent_insert_lock env)"
  by (auto simp: env_ok_def is_write_def tl_order)

lemma write_any_typed:
  assumes env: "env_ok env" and d: "d \<notin> set (requests s)" "is_write (ty s d)"
  shows "typed d s (fst (thr_lock_write_any env d c s))"
proof (cases "write_q (lk s)")
  case Nil
  let ?t = "set_type d (thr_upgraded_concurrent_insert_lock env) s"
  have t: "d \<notin> set (requests ?t)" "is_write (ty ?t d)"
    using d upgraded_is_write [OF env] by simp_all
  have "typed d s (grant_write d ci ?t)" "typed d s (wait_for_lock_begin Write_wait d False c ?t)" for ci
    using typed_intros(2,4) [OF t(1)] t(2) typed_retype upgraded_is_write [OF env] d(2) by blast+
  then show ?thesis
    using typed_intros [OF d(1)] d(2)
    by (simp add: thr_lock_write_any_def thr_lock_write_free_def Nil Let_def)
next
  case (Cons w ws)
  then show ?thesis
    using typed_intros [OF d(1)] d(2)
    by (simp add: thr_lock_write_any_def thr_lock_write_held_def Let_def)
qed

lemma thr_lock_typed:
  assumes env: "env_ok env" and d: "d \<notin> set (requests s)" "is_read (ty s d) \<or> is_write (ty s d)"
  shows "typed d s (fst (thr_lock env d own c s))"
proof -
  let ?s = "init_request d own s"
  have req: "d \<notin> set (requests ?s)" using d(1) by (simp add: requests_def)
  have ty: "ty ?s d = ty s d" by simp
  have lift: "typed d ?s s' \<Longrightarrow> typed d s s'" for s' by (simp add: typed_def)
  show ?thesis
  proof (cases "is_read (ty s d)")
    case True
    have "typed d ?s (fst (thr_lock_read d c ?s))"
      using typed_intros(1,3,6) [OF req] True unfolding thr_lock_read_def Let_def
      by (cases "write_q (lk ?s)") simp_all
    then show ?thesis
      using read_write_types(1) [OF True] lift by (simp add: thr_lock_def Let_def)
  next
    case False
    then have w: "is_write (ty ?s d)" using d(2) ty by metis
    let ?t = "set_type d (thr_upgraded_concurrent_insert_lock env) ?s"
    have "typed d ?t (fst (thr_lock_write_any env d c ?t))"
      by (rule write_any_typed [OF env]) (use req upgraded_is_write [OF env] in simp_all)
    then have "typed d ?s (fst (thr_lock_write_any env d c ?t))"
      by (rule typed_retype [OF _ upgraded_is_write [OF env] w])
    then have "typed d ?s (fst (thr_lock_write env d c ?s))"
      using write_any_typed [OF env req w, of c] typed_intros(5,6) [OF req] w
      by (simp add: thr_lock_write_def)
    then show ?thesis
      using read_write_types(3) [OF w] lift by (simp add: thr_lock_def Let_def)
  qed
qed

lemma entered_facts:
  assumes "entered d s s'"
  shows "set (requests s') = insert d (set (requests s))"
    "d \<notin> set (requests s) \<Longrightarrow> distinct (requests s) \<Longrightarrow> distinct (requests s')"
    "set (read_q (lk s')) \<subseteq> insert d (set (read_q (lk s)))" "set (read_wait (lk s')) \<subseteq> insert d (set (read_wait (lk s)))"
    "set (write_q (lk s')) \<subseteq> insert d (set (write_q (lk s)))" "set (write_wait (lk s')) \<subseteq> insert d (set (write_wait (lk s)))"
    "set (read_q (lk s)) \<subseteq> set (read_q (lk s'))" "set (write_q (lk s)) \<subseteq> set (write_q (lk s'))"
    "set (write_wait (lk s)) \<subseteq> set (write_wait (lk s'))"
  using assms by (auto simp: entered_def requests_def)

lemma queue_member_after:
  assumes "set L' \<subseteq> insert d (set L)" "\<forall>x\<in>set L. P (heap s x)" "\<And>x. x \<noteq> d \<Longrightarrow> heap s' x = heap s x"
    "d \<in> set L' \<Longrightarrow> P (heap s' d)"
  shows "\<forall>x\<in>set L'. P (heap s' x)"
  using assms by (metis insertE subsetD)

text \<open>
  \<open>thr_lock\<close>: the request is held (success), sleeps in the wait queue of its kind, or is out of
  the queues; other requests stay where they are.
\<close>

lemma thr_lock_local:
  assumes q: "queues_ok s" and env: "env_ok env" and d: "d \<notin> set (requests s)" "addressable d"
    "is_read (ty s d) \<or> is_write (ty s d)" and run: "thr_lock env d own c s = (s', r)"
  shows "local_step d s s'" "x \<noteq> d \<Longrightarrow> unlock_ok x s \<Longrightarrow> unlock_ok x s'"
    "r = Some THR_LOCK_SUCCESS \<Longrightarrow> unlock_ok d s'"
    "r = None \<Longrightarrow> cond (heap s' d) \<noteq> None \<and> d \<in> set (requests s')"
    "r \<noteq> None \<Longrightarrow> r \<noteq> Some THR_LOCK_SUCCESS \<Longrightarrow> d \<notin> set (requests s')"
    "typed d s s'"
proof -
  have out: "lock_outcome d own c s (s', r)" using thr_lock_outcome [OF d(1)] run by metis
  show tp: "typed d s s'" using thr_lock_typed [OF env d(1,3)] run by (metis fst_conv)
  have same: "\<And>x. x \<noteq> d \<Longrightarrow> heap s' x = heap s x" using out by (simp add: lock_outcome_def)
  then have old: "\<And>x. x \<in> set (requests s) \<Longrightarrow> heap s' x = heap s x" using d(1) by metis
  have lock: "lock (heap s' x) = lock (heap s x)" for x using same tp unfolding typed_def by metis
  consider (go) "entered d s s'"
      "d \<in> set (read_q (lk s')) \<union> set (write_q (lk s')) \<longleftrightarrow> cond (heap s' d) = None"
    | (stop) "lk s' = lk s" "r = Some THR_LOCK_ABORTED"
    using out d(1)
    by (cases r; cases "the r") (auto simp: lock_outcome_def entered_def requests_def)
  then have "queues_ok s' \<and> set (requests s') \<subseteq> insert d (set (requests s))"
  proof cases
    case go
    note e = entered_facts [OF go(1)]
    have "\<forall>x\<in>set (requests s'). addressable x" using e(1) d(2) q by (auto simp: queues_ok_def)
    moreover have dist: "distinct (requests s')" using e(2) d(1) q by (simp add: queues_ok_def)
    have qs: "\<forall>x\<in>set (read_q (lk s)). is_read (ty s x) \<and> cond (heap s x) = None"
      "\<forall>x\<in>set (read_wait (lk s)). is_read (ty s x) \<and> cond (heap s x) \<noteq> None"
      "\<forall>x\<in>set (write_q (lk s)). is_write (ty s x) \<and> cond (heap s x) = None"
      "\<forall>x\<in>set (write_wait (lk s)). is_write (ty s x) \<and> cond (heap s x) \<noteq> None"
      using q unfolding queues_ok_def by blast+
    have wait: "d \<in> set (read_wait (lk s')) \<union> set (write_wait (lk s')) \<Longrightarrow> cond (heap s' d) \<noteq> None"
      using dist go(2) unfolding requests_def by auto
    have "\<forall>x\<in>set (read_q (lk s')). is_read (ty s' x) \<and> cond (heap s' x) = None"
      "\<forall>x\<in>set (read_wait (lk s')). is_read (ty s' x) \<and> cond (heap s' x) \<noteq> None"
      "\<forall>x\<in>set (write_q (lk s')). is_write (ty s' x) \<and> cond (heap s' x) = None"
      "\<forall>x\<in>set (write_wait (lk s')). is_write (ty s' x) \<and> cond (heap s' x) \<noteq> None"
      using queue_member_after [OF e(3) qs(1) same] queue_member_after [OF e(4) qs(2) same]
        queue_member_after [OF e(5) qs(3) same] queue_member_after [OF e(6) qs(4) same]
        tp go(2) wait unfolding typed_def by blast+
    moreover note dist
    ultimately show ?thesis using dist e(1) unfolding queues_ok_def by blast
  next
    case stop
    have "queues_ok s'" by (rule queues_ok_cong [OF stop(1) old q])
    then show ?thesis using stop(1) by (auto simp: requests_def)
  qed
  then show "local_step d s s'" using same lock by (auto simp: local_step_def)
  show "unlock_ok x s'" if "x \<noteq> d" "unlock_ok x s"
    using that same [OF that(1)] out
    by (auto simp: lock_outcome_def entered_def unlock_ok_def split: option.splits enum_thr_lock_result.splits)
  show "r = Some THR_LOCK_SUCCESS \<Longrightarrow> unlock_ok d s'"
    "r = None \<Longrightarrow> cond (heap s' d) \<noteq> None \<and> d \<in> set (requests s')"
    "r \<noteq> None \<Longrightarrow> r \<noteq> Some THR_LOCK_SUCCESS \<Longrightarrow> d \<notin> set (requests s')"
    using out d(1)
    by (auto simp: lock_outcome_def unlock_ok_def requests_def split: option.splits enum_thr_lock_result.splits)
qed

lemma wait_end_local:
  assumes q: "queues_ok s" and d: "cond (heap s d) \<noteq> None \<longrightarrow> waits_in wq d s"
    "cond (heap s d) = None \<longrightarrow> (ty s d \<noteq> TL_UNLOCK \<longleftrightarrow> d \<in> set (requests s))"
    and run: "wait_for_lock_end env wq d timed_out s = (s', r)"
  shows "local_step d s s'" "x \<noteq> d \<Longrightarrow> unlock_ok x s \<Longrightarrow> unlock_ok x s'"
    "r = THR_LOCK_SUCCESS \<Longrightarrow> unlock_ok d s'" "r \<noteq> THR_LOCK_SUCCESS \<Longrightarrow> d \<notin> set (requests s')"
proof -
  have "local_step d s s' \<and> (\<forall>x. x \<noteq> d \<longrightarrow> unlock_ok x s \<longrightarrow> unlock_ok x s') \<and>
    (r = THR_LOCK_SUCCESS \<longrightarrow> unlock_ok d s') \<and> (r \<noteq> THR_LOCK_SUCCESS \<longrightarrow> d \<notin> set (requests s'))"
  proof (cases "cond (heap s d)")
    case None
    then have s': "lk s' = lk s" "heap s' = heap s" "r = THR_LOCK_SUCCESS \<longleftrightarrow> ty s d \<noteq> TL_UNLOCK"
      using run by (auto simp: wait_for_lock_end_def split: if_splits)
    moreover have "queues_ok s'" by (rule queues_ok_cong [of _ s]) (simp_all add: s' q)
    moreover have "requests s' = requests s" by (simp add: requests_def s')
    moreover have "unlock_ok d s" if "d \<in> set (requests s)"
      using that q None by (auto simp: unlock_ok_def queues_ok_def requests_def)
    ultimately show ?thesis using d(2) None by (auto simp: local_step_def unlock_ok_def)
  next
    case (Some c)
    let ?u = "set_type d TL_UNLOCK (leave_queue wq d s)"
    have s': "s' = wake_up_waiters env ?u" "r \<noteq> THR_LOCK_SUCCESS"
      using run Some by (auto simp: wait_for_lock_end_def leave_queue_def Let_def split: if_splits)
    have w: "waits_in wq d s" using d(1) Some by simp
    have dist: "distinct (requests s)" using q by (simp add: queues_ok_def)
    have req: "set (requests ?u) = set (requests s) - {d}" "distinct (requests ?u)"
      using w dist by (cases wq; auto simp: waits_in_def leave_queue_def requests_def)+
    have "queues_ok ?u"
      using q w dist req unfolding queues_ok_def
      by (cases wq) (auto simp: waits_in_def leave_queue_def requests_def)
    note mv = wake_up_moves [OF this, of env]
    have "unlock_ok x ?u" if "x \<noteq> d" "unlock_ok x s" for x
      using that by (cases wq) (auto simp: leave_queue_def unlock_ok_def)
    moreover have "lock (heap ?u x) = lock (heap s x)" for x
      by (cases wq) (auto simp: leave_queue_def)
    moreover have "heap ?u x = heap s x" if "x \<noteq> d" for x
      using that by (cases wq) (auto simp: leave_queue_def)
    ultimately show ?thesis
      using mv req s' unfolding moves_only_def local_step_def by auto
  qed
  then show "local_step d s s'" "x \<noteq> d \<Longrightarrow> unlock_ok x s \<Longrightarrow> unlock_ok x s'"
    "r = THR_LOCK_SUCCESS \<Longrightarrow> unlock_ok d s'" "r \<noteq> THR_LOCK_SUCCESS \<Longrightarrow> d \<notin> set (requests s')"
    by blast+
qed

section \<open>The whole state\<close>

lemma local_frame:
  assumes ok: "locks_ok S" and step: "local_step d (view S l) s'" and l: "lock (dat S d) = l"
    and x: "x \<noteq> d"
  shows "\<not> queued S x \<Longrightarrow> \<not> queued (put S l s') x \<and> dat (put S l s') x = dat S x"
    "held S x \<Longrightarrow> (unlock_ok x (view S l) \<Longrightarrow> unlock_ok x s') \<Longrightarrow> held (put S l s') x"
proof -
  have sub: "set (requests s') \<subseteq> insert d (set (requests (view S l)))"
    and same: "\<And>x. x \<notin> insert d (set (requests (view S l))) \<Longrightarrow> heap s' x = dat S x"
    and lock: "\<And>x. lock (heap s' x) = lock (dat S x)"
    using step by (auto simp: local_step_def)
  show "\<not> queued (put S l s') x \<and> dat (put S l s') x = dat S x" if "\<not> queued S x"
  proof
    show "\<not> queued (put S l s') x"
      unfolding queued_def
    proof
      assume "\<exists>l'. x \<in> set (requests (view (put S l s') l'))"
      then obtain l' where "x \<in> set (requests (view (put S l s') l'))" ..
      then show False using that sub x by (cases "l' = l") (auto simp: queued_def)
    qed
    show "dat (put S l s') x = dat S x" using that x same by (auto simp: queued_def)
  qed
  show "held (put S l s') x" if h: "held S x" "unlock_ok x (view S l) \<Longrightarrow> unlock_ok x s'"
  proof (cases "lock (dat S x) = l")
    case True
    then have "unlock_ok x s'" using h by (simp add: held_def)
    then show ?thesis using True by (simp add: held_def lock unlock_ok_def)
  next
    case False
    then have "x \<notin> set (requests (view S l))" using ok by (auto simp: locks_ok_def)
    then have "heap s' x = dat S x" using same x by simp
    then show ?thesis using h(1) False by (simp add: held_def lock unlock_ok_def)
  qed
qed

text \<open>
  What the other threads may do while request \<open>d\<close> of the thread with requests \<open>M\<close> sleeps: they
  keep the queues well formed, they do not touch the thread's other requests, and they leave
  \<open>d\<close> asleep, grant it or abort it.
\<close>

definition rely :: "nat set \<Rightarrow> nat \<Rightarrow> locks_state \<Rightarrow> locks_state \<Rightarrow> bool" where
  "rely M d S S' \<longleftrightarrow>
     locks_ok S' \<and> lock (dat S' d) = lock (dat S d) \<and>
     (\<forall>x\<in>M - {d}. (held S x \<longrightarrow> held S' x) \<and> (\<not> queued S x \<longrightarrow> \<not> queued S' x \<and> dat S' x = dat S x)) \<and>
     (let s = view S (lock (dat S d)); s' = view S' (lock (dat S d)) in
      (cond (heap s' d) \<noteq> None \<longrightarrow>
         (d \<in> set (read_wait (lk s)) \<longrightarrow> d \<in> set (read_wait (lk s'))) \<and>
         (d \<in> set (write_wait (lk s)) \<longrightarrow> d \<in> set (write_wait (lk s')))) \<and>
      (cond (heap s' d) = None \<longrightarrow> (ty s' d \<noteq> TL_UNLOCK \<longleftrightarrow> d \<in> set (requests s'))))"

definition others_ok :: "nat set \<Rightarrow> (nat \<Rightarrow> locks_state \<Rightarrow> locks_state \<times> bool) \<Rightarrow> bool" where
  "others_ok M others \<longleftrightarrow>
     (\<forall>d\<in>M. \<forall>S. locks_ok S \<longrightarrow> queued S d \<longrightarrow> rely M d S (fst (others d S)))"

text \<open>A request that is not queued and asks for a lock.\<close>

definition pending :: "locks_state \<Rightarrow> nat \<Rightarrow> bool" where
  "pending S d \<longleftrightarrow>
     \<not> queued S d \<and> addressable d \<and> (is_read (type (dat S d)) \<or> is_write (type (dat S d)))"

lemma not_queued_own:
  assumes "locks_ok S" shows "queued S d \<longleftrightarrow> d \<in> set (requests (view S (lock (dat S d))))"
  using assms by (auto simp: queued_def locks_ok_def)

lemma at_lock_step:
  assumes ok: "locks_ok S" and step: "local_step d (view S (lock (dat S d))) s'"
    and keep: "\<And>x. x \<noteq> d \<Longrightarrow> unlock_ok x (view S (lock (dat S d))) \<Longrightarrow> unlock_ok x s'"
  defines "S' \<equiv> put S (lock (dat S d)) s'"
  shows "locks_ok S'" "x \<noteq> d \<Longrightarrow> held S x \<Longrightarrow> held S' x"
    "x \<noteq> d \<Longrightarrow> \<not> queued S x \<Longrightarrow> \<not> queued S' x \<and> dat S' x = dat S x"
    "unlock_ok d s' \<Longrightarrow> held S' d" "d \<notin> set (requests s') \<Longrightarrow> \<not> queued S' d"
    "lock (dat S' d) = lock (dat S d)"
proof -
  show okS: "locks_ok S'" unfolding S'_def by (rule locks_ok_put [OF ok step refl])
  show lk: "lock (dat S' d) = lock (dat S d)" using step by (simp add: S'_def local_step_def)
  show "x \<noteq> d \<Longrightarrow> held S x \<Longrightarrow> held S' x"
    unfolding S'_def using local_frame(2) [OF ok step refl] keep by blast
  show "x \<noteq> d \<Longrightarrow> \<not> queued S x \<Longrightarrow> \<not> queued S' x \<and> dat S' x = dat S x"
    unfolding S'_def using local_frame(1) [OF ok step refl] by blast
  show "unlock_ok d s' \<Longrightarrow> held S' d"
    using lk by (simp add: held_def unlock_ok_def S'_def)
  show "d \<notin> set (requests s') \<Longrightarrow> \<not> queued S' d"
    using not_queued_own [OF okS] lk by (simp add: S'_def)
qed

lemma lock_one_correct:
  assumes ok: "locks_ok S" and env: "env_ok env" and p: "pending S d" and M: "d \<in> M"
    and others: "others_ok M others" and run: "lock_one env own c others d S = (S', r)"
  shows "locks_ok S'" "x \<in> M - {d} \<Longrightarrow> held S x \<Longrightarrow> held S' x"
    "x \<in> M - {d} \<Longrightarrow> \<not> queued S x \<Longrightarrow> \<not> queued S' x \<and> dat S' x = dat S x"
    "r = THR_LOCK_SUCCESS \<Longrightarrow> held S' d" "r \<noteq> THR_LOCK_SUCCESS \<Longrightarrow> \<not> queued S' d"
proof -
  define l where "l = lock (dat S d)"
  let ?q = "if type (dat S d) \<le> TL_READ_NO_INSERT then Read_wait else Write_wait"
  obtain s1 r1 where t: "thr_lock env d own c (view S l) = (s1, r1)" by fastforce
  have qv: "queues_ok (view S l)" using ok by (simp add: locks_ok_def)
  have req: "d \<notin> set (requests (view S l))" using p by (auto simp: pending_def queued_def)
  note loc = thr_lock_local [OF qv env req _ _ t]
  have adr: "addressable d" "is_read (ty (view S l) d) \<or> is_write (ty (view S l) d)"
    using p by (simp_all add: pending_def)
  note loc = loc [OF adr]
  define S1 where "S1 = put S l s1"
  note st = at_lock_step [OF ok loc(1) [unfolded l_def] loc(2) [unfolded l_def], folded l_def S1_def]
  have "locks_ok S' \<and> (\<forall>x\<in>M - {d}. (held S x \<longrightarrow> held S' x) \<and>
      (\<not> queued S x \<longrightarrow> \<not> queued S' x \<and> dat S' x = dat S x)) \<and>
      (r = THR_LOCK_SUCCESS \<longrightarrow> held S' d) \<and> (r \<noteq> THR_LOCK_SUCCESS \<longrightarrow> \<not> queued S' d)"
  proof (cases r1)
    case (Some r')
    then have "S' = S1" "r = r'"
      using run t by (simp_all add: lock_one_def at_lock_def l_def [symmetric] S1_def)
    then show ?thesis using st loc(3,5) Some by auto
  next
    case None
    have asleep: "cond (heap s1 d) \<noteq> None" "d \<in> set (requests s1)" using loc(4) None by auto
    have q1: "queues_ok s1" using loc(1) by (simp add: local_step_def)
    have waits: "waits_in ?q d s1"
      using asleep q1 loc(6) adr(2) read_write_types
      by (auto simp: waits_in_def queues_ok_def requests_def typed_def)
    obtain S2 to where o: "others d S1 = (S2, to)" by fastforce
    have "queued S1 d" using asleep(2) not_queued_own [OF st(1)] st(6) by (simp add: S1_def l_def)
    then have rel: "rely M d S1 S2" using others M st(1) o unfolding others_ok_def by fastforce
    have ok2: "locks_ok S2" and l2: "lock (dat S2 d) = l"
      using rel st(6) by (simp_all add: rely_def)
    have l1: "lock (dat S1 d) = l" using st(6) by simp
    obtain s3 where w: "wait_for_lock_end env ?q d to (view S2 l) = (s3, r)" and S': "S' = put S2 l s3"
      using run t None o
      by (auto simp: lock_one_def at_lock_def l_def [symmetric] S1_def Let_def split: prod.splits)
    have q2: "queues_ok (view S2 l)" using ok2 by (simp add: locks_ok_def)
    have c: "cond (heap (view S2 l) d) \<noteq> None \<longrightarrow> waits_in ?q d (view S2 l)"
      using rel waits l1 by (auto simp: rely_def Let_def waits_in_def S1_def split: if_splits)
    have n: "cond (heap (view S2 l) d) = None \<longrightarrow>
        (ty (view S2 l) d \<noteq> TL_UNLOCK \<longleftrightarrow> d \<in> set (requests (view S2 l)))"
      using rel l1 by (simp add: rely_def Let_def)
    note fin = wait_end_local [OF q2 c n w]
    note st2 = at_lock_step [OF ok2, of d, unfolded l2, OF fin(1,2), folded S']
    show ?thesis
      using st2 fin(3,4) st(2,3) rel unfolding rely_def by auto
  qed
  then show "locks_ok S'" "x \<in> M - {d} \<Longrightarrow> held S x \<Longrightarrow> held S' x"
    "x \<in> M - {d} \<Longrightarrow> \<not> queued S x \<Longrightarrow> \<not> queued S' x \<and> dat S' x = dat S x"
    "r = THR_LOCK_SUCCESS \<Longrightarrow> held S' d" "r \<noteq> THR_LOCK_SUCCESS \<Longrightarrow> \<not> queued S' d"
    by blast+
qed

lemma held_type:
  assumes "locks_ok S" "held S d" shows "type (dat S d) \<noteq> TL_UNLOCK" "queued S d"
proof -
  have "queues_ok (view S (lock (dat S d)))" using assms(1) by (simp add: locks_ok_def)
  then show "type (dat S d) \<noteq> TL_UNLOCK"
    using assms(2) read_write_types by (auto simp: held_def unlock_ok_def queues_ok_def)
  show "queued S d" using assms(2) by (auto simp: held_def unlock_ok_def queued_def requests_def)
qed

text \<open>Releasing held requests one after the other.\<close>

definition released :: "nat list \<Rightarrow> locks_state \<Rightarrow> locks_state \<Rightarrow> bool" where
  "released ds S S' \<longleftrightarrow>
     locks_ok S' \<and> (\<forall>d\<in>set ds. \<not> queued S' d \<and> type (dat S' d) = TL_UNLOCK) \<and>
     (\<forall>x. x \<notin> set ds \<longrightarrow> \<not> queued S x \<longrightarrow> \<not> queued S' x \<and> dat S' x = dat S x) \<and>
     (\<forall>x. x \<notin> set ds \<longrightarrow> held S x \<longrightarrow> held S' x)"

lemma multi_unlock_correct:
  assumes "locks_ok S" "distinct ds" "\<And>d. d \<in> set ds \<Longrightarrow> held S d"
  shows "released ds S (thr_multi_unlock env ds flags S)"
  using assms
proof (induction ds arbitrary: S)
  case Nil
  then show ?case by (simp add: released_def thr_multi_unlock_def)
next
  case (Cons d ds)
  let ?l = "lock (dat S d)"
  let ?s = "thr_unlock env d flags (view S ?l)"
  define S1 where "S1 = put S ?l ?s"
  have h: "held S d" using Cons.prems(3) by simp
  have q: "queues_ok (view S ?l)" using Cons.prems(1) by (simp add: locks_ok_def)
  have u: "unlock_ok d (view S ?l)" using h by (simp add: held_def)
  note loc = thr_unlock_local [OF q u, where env = env and f = flags]
  have st: "locks_ok S1" "\<And>x. x \<noteq> d \<Longrightarrow> held S x \<Longrightarrow> held S1 x"
    "\<And>x. x \<noteq> d \<Longrightarrow> \<not> queued S x \<Longrightarrow> \<not> queued S1 x \<and> dat S1 x = dat S x" "\<not> queued S1 d"
    unfolding S1_def using at_lock_step [OF Cons.prems(1) loc(1)] loc(2,4) by blast+
  have d1: "\<not> queued S1 d" "type (dat S1 d) = TL_UNLOCK" using st(4) loc(3) by (simp_all add: S1_def)
  have one: "unlock_one env flags d S = S1"
    using held_type(1) [OF Cons.prems(1) h] by (simp add: unlock_one_def S1_def)
  have ne: "x \<noteq> d" if "x \<in> set ds" for x using that Cons.prems(2) by auto
  have "released ds S1 (thr_multi_unlock env ds flags S1)"
  proof (rule Cons.IH [OF st(1)])
    show "held S1 x" if "x \<in> set ds" for x
      using st(2) [OF ne [OF that]] Cons.prems(3) that by simp
  qed (use Cons.prems(2) in simp)
  moreover have "thr_multi_unlock env (d # ds) flags S = thr_multi_unlock env ds flags S1"
    by (simp add: thr_multi_unlock_def one)
  ultimately show ?case
    using d1 st(2,3) Cons.prems(2) unfolding released_def by auto
qed

text \<open>Marking requests that are not queued.\<close>

lemma mark_unlocked_ok:
  assumes "locks_ok S" "\<And>d. d \<in> set ds \<Longrightarrow> \<not> queued S d"
  shows "locks_ok (mark_unlocked ds S)" "queued (mark_unlocked ds S) x \<longleftrightarrow> queued S x"
    "type (dat (mark_unlocked ds S) x) = (if x \<in> set ds then TL_UNLOCK else type (dat S x))"
proof -
  have req: "requests (view (mark_unlocked ds S) l) = requests (view S l)" for l
    by (simp add: requests_def mark_unlocked_def)
  show "queued (mark_unlocked ds S) x \<longleftrightarrow> queued S x" by (simp add: queued_def req)
  show "type (dat (mark_unlocked ds S) x) = (if x \<in> set ds then TL_UNLOCK else type (dat S x))"
    by (simp add: mark_unlocked_def)
  have "queues_ok (view (mark_unlocked ds S) l)" for l
  proof (rule queues_ok_cong [of _ "view S l"])
    fix x
    assume "x \<in> set (requests (view S l))"
    then have "x \<notin> set ds" using assms(2) by (auto simp: queued_def)
    then show "heap (view (mark_unlocked ds S) l) x = heap (view S l) x" by (simp add: mark_unlocked_def)
  qed (use assms(1) in \<open>simp_all add: mark_unlocked_def locks_ok_def\<close>)
  then show "locks_ok (mark_unlocked ds S)"
    using assms(1) by (simp add: locks_ok_def req) (simp add: mark_unlocked_def)
qed

text \<open>All the requests are held, or none is queued and all are marked \<open>TL_UNLOCK\<close>.\<close>

definition all_or_none :: "nat set \<Rightarrow> locks_state \<times> enum_thr_lock_result \<Rightarrow> bool" where
  "all_or_none M p \<longleftrightarrow>
     locks_ok (fst p) \<and>
     (if snd p = THR_LOCK_SUCCESS then \<forall>d\<in>M. held (fst p) d
      else \<forall>d\<in>M. \<not> queued (fst p) d \<and> type (dat (fst p) d) = TL_UNLOCK)"

lemma multi_lock_loop_correct:
  assumes "locks_ok S" "env_ok env" "distinct (got @ ds)" "\<And>d. d \<in> set got \<Longrightarrow> held S d"
    "\<And>d. d \<in> set ds \<Longrightarrow> pending S d" "others_ok (set (got @ ds)) others"
  shows "all_or_none (set (got @ ds)) (multi_lock_loop env own c others got ds S)"
  using assms
proof (induction ds arbitrary: S got)
  case Nil
  then show ?case by (simp add: all_or_none_def)
next
  case (Cons d ds)
  let ?M = "set (got @ d # ds)"
  obtain S1 r where one: "lock_one env own c others d S = (S1, r)" by fastforce
  have pd: "pending S d" and dM: "d \<in> ?M" using Cons.prems(5) by simp_all
  note step = lock_one_correct [OF Cons.prems(1,2) pd dM Cons.prems(6) one]
  have got: "held S1 x" if "x \<in> set got" for x
    using step(2) [of x] Cons.prems(3,4) that by auto
  have rest: "\<not> queued S1 x \<and> dat S1 x = dat S x" if "x \<in> set ds" for x
    using step(3) [of x] Cons.prems(3) Cons.prems(5) [of x] that by (auto simp: pending_def)
  show ?case
  proof (cases "r = THR_LOCK_SUCCESS")
    case True
    have "all_or_none (set ((got @ [d]) @ ds)) (multi_lock_loop env own c others (got @ [d]) ds S1)"
    proof (rule Cons.IH [OF step(1) Cons.prems(2)])
      show "pending S1 x" if "x \<in> set ds" for x
        using rest [OF that] Cons.prems(5) [of x] that by (simp add: pending_def)
      show "held S1 x" if "x \<in> set (got @ [d])" for x
        using that got step(4) [OF True] by auto
    qed (use Cons.prems(3,6) in simp_all)
    then show ?thesis using True one by simp
  next
    case False
    let ?S2 = "thr_multi_unlock env got 0 S1"
    have rel: "released got S1 ?S2"
      by (rule multi_unlock_correct [OF step(1) _ got]) (use Cons.prems(3) in simp)
    have out: "\<not> queued ?S2 x" if "x \<in> set (d # ds)" for x
      using that rel rest step(5) [OF False] Cons.prems(3) by (auto simp: released_def)
    have "all_or_none ?M (mark_unlocked (d # ds) ?S2, r)"
      using rel out mark_unlocked_ok [of ?S2 "d # ds"] False
      by (auto simp: all_or_none_def released_def)
    then show ?thesis using one False by simp
  qed
qed

lemma calls_irrelevant [simp]:
  "view (S\<lparr>calls := e\<rparr>) l = (view S l)\<lparr>evs := e\<rparr>" "requests (s\<lparr>evs := e\<rparr>) = requests s"
  "queues_ok (s\<lparr>evs := e\<rparr>) = queues_ok s" "unlock_ok d (s\<lparr>evs := e\<rparr>) = unlock_ok d s"
  by (simp_all add: view_def requests_def queues_ok_def unlock_ok_def)

text \<open>
  C3: \<open>thr_multi_lock\<close> takes all the locks or none.  Whatever the other threads do while it sleeps
  (within \<open>others_ok\<close>), after \<open>THR_LOCK_SUCCESS\<close> every request of the array is granted (or is a
  delayed lock in its queue), and after any other result none of them is in any queue of any
  lock and all are marked \<open>TL_UNLOCK\<close>.
\<close>

theorem thr_multi_lock_all_or_none:
  assumes "locks_ok S" "env_ok env" "distinct data" "\<forall>d\<in>set data. pending S d"
    "others_ok (set data) others" "thr_multi_lock env data own c others S = (S', r)"
  shows "locks_ok S' \<and>
    (r = THR_LOCK_SUCCESS \<longrightarrow> (\<forall>d\<in>set data. held S' d)) \<and>
    (r \<noteq> THR_LOCK_SUCCESS \<longrightarrow> (\<forall>d\<in>set data. \<not> queued S' d \<and> type (dat S' d) = TL_UNLOCK))"
proof -
  define ds where "ds = (if 1 < length data then sort_locks (dat S) data else data)"
  have ds: "set ds = set data" "distinct ds" using assms(3) by (simp_all add: ds_def)
  have main: "all_or_none (set ([] @ ds)) (multi_lock_loop env own c others [] ds S)"
    by (rule multi_lock_loop_correct [OF assms(1,2)]) (use ds assms(4,5) in simp_all)
  show ?thesis
  proof (cases ds)
    case Nil
    then have "S' = S" "r = THR_LOCK_SUCCESS" "data = []"
      using assms(6) ds by (simp_all add: thr_multi_lock_def ds_def [symmetric])
    then show ?thesis using assms(1) by simp
  next
    case (Cons d ds')
    obtain S1 r1 where p: "multi_lock_loop env own c others [] (d # ds') S = (S1, r1)" by fastforce
    have "(S', r) = (if r1 \<noteq> THR_LOCK_SUCCESS then (S1, r1)
        else (S1\<lparr>calls := calls S1 @ trans_call S1 d @ share_status S1 d d ds'\<rparr>, THR_LOCK_SUCCESS))"
      using assms(6)
      unfolding thr_multi_lock_def ds_def [symmetric] Cons Let_def list.case p prod.case by simp
    moreover have "all_or_none (set data) (S1, r1)" using main ds Cons p by simp
    ultimately show ?thesis
      by (auto simp: all_or_none_def locks_ok_def held_def queued_def split: if_splits)
  qed
qed

section \<open>A concrete call\<close>

text \<open>
  Thread 2 asks for a write lock on table 1 (request 0) and a read lock on table 0 (request 1),
  while thread 1 has a write lock on table 1 (request 7) and does not release it in time.
\<close>

definition demo_request :: "nat \<Rightarrow> nat \<Rightarrow> thr_lock_type \<Rightarrow> THR_LOCK_DATA" where
  "demo_request own l t = (thr_lock_data_init l own)\<lparr>owner := own, type := t\<rparr>"

definition demo_locks :: locks_state where
  "demo_locks =
     \<lparr>dat = (\<lambda>d. if d = 0 then demo_request 2 1 TL_WRITE else if d = 1 then demo_request 2 0 TL_READ
             else if d = 7 then demo_request 1 1 TL_WRITE else thr_lock_data_init 0 0),
      lck = (\<lambda>l. if l = 1 then thr_lock_init\<lparr>write_q := [7]\<rparr> else thr_lock_init),
      calls = []\<rparr>"

text \<open>Nobody else does anything, and the sleep ends with a time-out.\<close>

definition nobody :: "nat \<Rightarrow> locks_state \<Rightarrow> locks_state \<times> bool" where
  "nobody d S = (S, True)"

lemma nobody_ok: "others_ok M nobody"
  unfolding others_ok_def
proof (intro ballI allI impI)
  fix d S
  assume ok: "locks_ok S" and qd: "queued S d"
  let ?s = "view S (lock (dat S d))"
  have q: "queues_ok ?s" and req: "d \<in> set (requests ?s)"
    using ok qd by (simp add: locks_ok_def, simp add: not_queued_own [OF ok])
  have "is_read (ty ?s d) \<or> is_write (ty ?s d)"
    using q req unfolding queues_ok_def requests_def set_append by blast
  then have "ty ?s d \<noteq> TL_UNLOCK" using read_write_types(2,5) by blast
  then show "rely M d S (fst (nobody d S))"
    using ok req by (simp add: rely_def nobody_def)
qed

lemma demo_locks_ok:
  "locks_ok demo_locks" "\<forall>d\<in>set [1, 0]. pending demo_locks d"
proof -
  have req: "requests (view demo_locks l) = (if l = 1 then [7] else [])" for l
    by (simp add: requests_def demo_locks_def thr_lock_init_def)
  have "queues_ok (view demo_locks l)" for l
    unfolding queues_ok_def req
    by (simp add: demo_locks_def thr_lock_init_def thr_lock_data_init_def demo_request_def addressable_def
        is_write_def tl_order)
  then show "locks_ok demo_locks"
    by (simp add: locks_ok_def req) (simp add: demo_locks_def demo_request_def thr_lock_data_init_def)
  show "\<forall>d\<in>set [1, 0]. pending demo_locks d"
    by (simp add: pending_def queued_def req addressable_def)
      (simp add: demo_locks_def demo_request_def is_read_def is_write_def tl_order)
qed

theorem thr_multi_lock_witness:
  "snd (thr_multi_lock demo_env [1, 0] 2 2 nobody demo_locks) = THR_LOCK_WAIT_TIMEOUT \<and>
   \<not> queued (fst (thr_multi_lock demo_env [1, 0] 2 2 nobody demo_locks)) 0 \<and>
   \<not> queued (fst (thr_multi_lock demo_env [1, 0] 2 2 nobody demo_locks)) 1"
proof -
  let ?p = "thr_multi_lock demo_env [1, 0] 2 2 nobody demo_locks"
  have "snd ?p = THR_LOCK_WAIT_TIMEOUT" by code_simp
  moreover have "env_ok demo_env" by (simp add: env_ok_def demo_env_def)
  ultimately show ?thesis
    using thr_multi_lock_all_or_none [OF demo_locks_ok(1) _ _ demo_locks_ok(2) nobody_ok
        prod.collapse [symmetric], of demo_env 2 2]
    by simp
qed

end
