(* ===== verification/Dyn_Array.thy ===== *)
theory Dyn_Array
  imports Prelude "HOL-Library.Monad_Syntax"
begin

text \<open>
  The growing arrays of \<open>mysys/array.c\<close> (\<open>DYNAMIC_ARRAY\<close>).  A block of memory is the list of
  the elements it has room for, and \<open>None\<close> is the null pointer.  The allocator is a parameter
  \<open>alloc\<close>: given a number of bytes it returns a block or fails.  The counters are 32 bits wide
  (\<open>uint\<close>), and so is the byte count handed to the allocator; the wrap-around is written out.
  Writing outside of the block is undefined in C: the operation as a whole returns \<open>None\<close> then.
\<close>

section \<open>The model\<close>

definition block :: "'a list option \<Rightarrow> 'a list" where
  "block b = (case b of None \<Rightarrow> [] | Some l \<Rightarrow> l)"

text \<open>\<open>my_realloc\<close>: the old contents, as far as they fit, then what the new block holds.\<close>

definition my_realloc :: "(nat \<Rightarrow> 'a list option) \<Rightarrow> 'a list option \<Rightarrow> nat \<Rightarrow> 'a list option" where
  "my_realloc alloc old sz =
     (case alloc sz of
        None \<Rightarrow> None
      | Some new \<Rightarrow> Some (take (length new) (block old) @ drop (length (block old)) new))"

text \<open>\<open>memcpy\<close> or \<open>bzero\<close> to the elements from \<open>i\<close> on.\<close>

definition write_at :: "'a list option \<Rightarrow> nat \<Rightarrow> 'a list \<Rightarrow> 'a list option option" where
  "write_at b i xs =
     (if xs = [] then Some b
      else case b of
        None \<Rightarrow> None
      | Some l \<Rightarrow>
          if i + length xs \<le> length l then Some (Some (take i l @ xs @ drop (i + length xs) l))
          else None)"

definition MALLOC_OVERHEAD :: nat where "MALLOC_OVERHEAD = 8"

definition MY_INIT_BUFFER_USED :: uint32 where "MY_INIT_BUFFER_USED = 256"

record 'a DYNAMIC_ARRAY =
  buffer :: "'a list option"
  elements :: nat
  max_element :: nat
  alloc_increment :: nat
  size_of_element :: nat
  malloc_flags :: uint32

definition init_buffer_used :: "'a DYNAMIC_ARRAY \<Rightarrow> bool" where
  "init_buffer_used a \<longleftrightarrow> malloc_flags a AND MY_INIT_BUFFER_USED \<noteq> 0"

definition default_increment :: "nat \<Rightarrow> nat \<Rightarrow> nat" where
  "default_increment element_size init_alloc =
     (let inc = max ((8192 - MALLOC_OVERHEAD) div element_size) 16
      in if init_alloc > 8 \<and> inc > u32 (init_alloc * 2) then u32 (init_alloc * 2) else inc)"

definition init_dynamic_array2 ::
  "(nat \<Rightarrow> 'a list option) \<Rightarrow> nat \<Rightarrow> 'a list option \<Rightarrow> nat \<Rightarrow> nat \<Rightarrow> uint32 \<Rightarrow>
   'a DYNAMIC_ARRAY \<times> bool" where
  "init_dynamic_array2 alloc element_size init_buffer init_alloc inc my_flags =
     (let a = \<lparr>buffer = init_buffer, elements = 0, max_element = init_alloc,
                alloc_increment = (if inc = 0 then default_increment element_size init_alloc else inc),
                size_of_element = element_size, malloc_flags = my_flags\<rparr>
      in if init_buffer \<noteq> None then (a\<lparr>malloc_flags := my_flags OR MY_INIT_BUFFER_USED\<rparr>, False)
         else if init_alloc \<noteq> 0 then
           (case alloc (u32 (element_size * init_alloc)) of
              None \<Rightarrow> (a\<lparr>max_element := 0\<rparr>, False)
            | Some b \<Rightarrow> (a\<lparr>buffer := Some b\<rparr>, False))
         else (a, False))"

text \<open>The new block that replaces a static buffer: \<open>my_malloc\<close> and \<open>memcpy\<close> of the elements.\<close>

definition leave_static :: "'a DYNAMIC_ARRAY \<Rightarrow> 'a list \<Rightarrow> 'a DYNAMIC_ARRAY option" where
  "leave_static a new =
     (if length (block (buffer a)) < elements a then None
      else do {
        b \<leftarrow> write_at (Some new) 0 (take (elements a) (block (buffer a)));
        Some (a\<lparr>buffer := b, malloc_flags := malloc_flags a AND NOT MY_INIT_BUFFER_USED\<rparr>)
      })"

text \<open>The result is the index of the free element, or \<open>None\<close> when there is no memory.\<close>

definition alloc_dynamic ::
  "(nat \<Rightarrow> 'a list option) \<Rightarrow> 'a DYNAMIC_ARRAY \<Rightarrow> ('a DYNAMIC_ARRAY \<times> nat option) option" where
  "alloc_dynamic alloc a =
     (if elements a = max_element a then
        (let new_max = u32 (max_element a + alloc_increment a);
             bytes = u32 (new_max * size_of_element a);
             fin = (\<lambda>a'. (a'\<lparr>max_element := new_max, elements := u32 (elements a + 1)\<rparr>, Some (elements a)))
         in if init_buffer_used a then
              (case alloc bytes of
                 None \<Rightarrow> Some (a, None)
               | Some new \<Rightarrow> map_option fin (leave_static a new))
            else
              (case my_realloc alloc (buffer a) bytes of
                 None \<Rightarrow> Some (a, None)
               | Some new \<Rightarrow> Some (fin (a\<lparr>buffer := Some new\<rparr>))))
      else Some (a\<lparr>elements := u32 (elements a + 1)\<rparr>, Some (elements a)))"

definition insert_dynamic ::
  "(nat \<Rightarrow> 'a list option) \<Rightarrow> 'a DYNAMIC_ARRAY \<Rightarrow> 'a \<Rightarrow> ('a DYNAMIC_ARRAY \<times> bool) option" where
  "insert_dynamic alloc a element = do {
     (a1, slot) \<leftarrow> (if elements a = max_element a then alloc_dynamic alloc a
                    else Some (a\<lparr>elements := u32 (elements a + 1)\<rparr>, Some (elements a)));
     case slot of
       None \<Rightarrow> Some (a1, True)
     | Some i \<Rightarrow> do { b \<leftarrow> write_at (buffer a1) i [element]; Some (a1\<lparr>buffer := b\<rparr>, False) }
   }"

definition pop_dynamic :: "'a DYNAMIC_ARRAY \<Rightarrow> 'a DYNAMIC_ARRAY \<times> nat option" where
  "pop_dynamic a =
     (if elements a \<noteq> 0 then (a\<lparr>elements := elements a - 1\<rparr>, Some (elements a - 1)) else (a, None))"

text \<open>
  \<open>True\<close> is a failed allocation -- except for a static buffer, where the source returns 0
  (\<open>FALSE\<close>) when \<open>my_malloc\<close> fails.
\<close>

definition allocate_dynamic ::
  "(nat \<Rightarrow> 'a list option) \<Rightarrow> 'a DYNAMIC_ARRAY \<Rightarrow> nat \<Rightarrow> ('a DYNAMIC_ARRAY \<times> bool) option" where
  "allocate_dynamic alloc a max_elements =
     (if max_elements \<ge> max_element a then
        (let sz = u32 (u32 (max_elements + alloc_increment a) div alloc_increment a * alloc_increment a);
             bytes = u32 (sz * size_of_element a)
         in if init_buffer_used a then
              (case alloc bytes of
                 None \<Rightarrow> Some (a, False)
               | Some new \<Rightarrow> map_option (\<lambda>a'. (a'\<lparr>max_element := sz\<rparr>, False)) (leave_static a new))
            else
              (case my_realloc alloc (buffer a) bytes of
                 None \<Rightarrow> Some (a, True)
               | Some new \<Rightarrow> Some (a\<lparr>buffer := Some new, max_element := sz\<rparr>, False)))
      else Some (a, False))"

text \<open>\<open>zero\<close> is the element whose bytes are all 0.\<close>

definition set_dynamic ::
  "(nat \<Rightarrow> 'a list option) \<Rightarrow> 'a \<Rightarrow> 'a DYNAMIC_ARRAY \<Rightarrow> 'a \<Rightarrow> nat \<Rightarrow> ('a DYNAMIC_ARRAY \<times> bool) option" where
  "set_dynamic alloc zero a element idx = do {
     (a1, err) \<leftarrow> (if idx \<ge> elements a \<and> idx \<ge> max_element a then allocate_dynamic alloc a idx
                   else Some (a, False));
     if err then Some (a1, True)
     else do {
       a2 \<leftarrow> (if idx \<ge> elements a then do {
                 b \<leftarrow> write_at (buffer a1) (elements a) (replicate (idx - elements a) zero);
                 Some (a1\<lparr>buffer := b, elements := u32 (idx + 1)\<rparr>) }
              else Some a1);
       b \<leftarrow> write_at (buffer a2) idx [element];
       Some (a2\<lparr>buffer := b\<rparr>, False) }
   }"

definition get_dynamic :: "'a \<Rightarrow> 'a DYNAMIC_ARRAY \<Rightarrow> nat \<Rightarrow> 'a option" where
  "get_dynamic zero a idx =
     (if idx \<ge> elements a then Some zero
      else if idx < length (block (buffer a)) then Some (block (buffer a) ! idx) else None)"

text \<open>The second component tells whether the buffer is given to \<open>my_free\<close>.\<close>

definition delete_dynamic :: "'a DYNAMIC_ARRAY \<Rightarrow> 'a DYNAMIC_ARRAY \<times> bool" where
  "delete_dynamic a =
     (a\<lparr>buffer := None, elements := 0, max_element := 0\<rparr>, \<not> init_buffer_used a \<and> buffer a \<noteq> None)"

definition delete_dynamic_element :: "'a DYNAMIC_ARRAY \<Rightarrow> nat \<Rightarrow> 'a DYNAMIC_ARRAY option" where
  "delete_dynamic_element a idx =
     (let l = block (buffer a); n = elements a - 1
      in if idx < elements a \<and> elements a \<le> length l then do {
           b \<leftarrow> write_at (buffer a) idx (take (n - idx) (drop (idx + 1) l));
           Some (a\<lparr>buffer := b, elements := n\<rparr>) }
         else None)"

text \<open>The elements handed to the callback, in order, then the state after \<open>delete_dynamic\<close>.\<close>

definition delete_dynamic_with_callback :: "'a DYNAMIC_ARRAY \<Rightarrow> ('a DYNAMIC_ARRAY \<times> 'a list) option" where
  "delete_dynamic_with_callback a =
     (if elements a \<le> length (block (buffer a))
      then Some (fst (delete_dynamic a), map ((!) (block (buffer a))) [0..<elements a]) else None)"

definition freeze_size :: "(nat \<Rightarrow> 'a list option) \<Rightarrow> 'a DYNAMIC_ARRAY \<Rightarrow> 'a DYNAMIC_ARRAY" where
  "freeze_size alloc a =
     (if init_buffer_used a then a
      else let n = max (elements a) 1
        in if buffer a \<noteq> None \<and> max_element a > n
           then a\<lparr>buffer := my_realloc alloc (buffer a) (u32 (n * size_of_element a)), max_element := n\<rparr>
           else a)"

text \<open>The argument of the last two is a pointer that can be null.\<close>

definition clear_dynamic_array :: "'a DYNAMIC_ARRAY option \<Rightarrow> 'a DYNAMIC_ARRAY option \<times> bool" where
  "clear_dynamic_array p = (case p of None \<Rightarrow> (None, True) | Some a \<Rightarrow> (Some (a\<lparr>elements := 0\<rparr>), False))"

definition empty_dynamic_array :: "'a DYNAMIC_ARRAY option \<Rightarrow> bool" where
  "empty_dynamic_array p = (case p of None \<Rightarrow> True | Some a \<Rightarrow> elements a = 0)"

section \<open>A growing array is a list\<close>

text \<open>What is asked of the allocator: a block of \<open>n\<close> bytes has room for \<open>n div sz\<close> elements.\<close>

definition alloc_ok :: "nat \<Rightarrow> (nat \<Rightarrow> 'a list option) \<Rightarrow> bool" where
  "alloc_ok sz alloc \<longleftrightarrow> (\<forall>n b. alloc n = Some b \<longrightarrow> length b = n div sz)"

definition dyn_ok :: "'a DYNAMIC_ARRAY \<Rightarrow> bool" where
  "dyn_ok a \<longleftrightarrow>
     elements a \<le> max_element a \<and> max_element a \<le> length (block (buffer a)) \<and>
     0 < size_of_element a \<and> 0 < alloc_increment a"

definition da_list :: "'a DYNAMIC_ARRAY \<Rightarrow> 'a list" where
  "da_list a = take (elements a) (block (buffer a))"

text \<open>The next growth to \<open>n\<close> elements has a byte count of at most 32 bits.\<close>

definition fits :: "'a DYNAMIC_ARRAY \<Rightarrow> nat \<Rightarrow> bool" where
  "fits a n \<longleftrightarrow> (n + alloc_increment a) * size_of_element a < 2 ^ 32"

lemma fits_mono: "fits a n \<Longrightarrow> m \<le> n \<Longrightarrow> fits a m"
  by (auto simp: fits_def elim!: le_less_trans [rotated] intro!: mult_le_mono)

lemma fits_bounds:
  assumes "fits a n" "0 < size_of_element a"
  shows "n + alloc_increment a < 2 ^ 32" "(n + alloc_increment a) * size_of_element a < 2 ^ 32"
proof -
  show *: "(n + alloc_increment a) * size_of_element a < 2 ^ 32" using assms by (simp add: fits_def)
  have "(n + alloc_increment a) * 1 \<le> (n + alloc_increment a) * size_of_element a"
    using assms(2) by (intro mult_le_mono) simp_all
  with * show "n + alloc_increment a < 2 ^ 32" by (metis le_less_trans mult_1_right)
qed

lemma block_Some [simp]: "block (Some l) = l" and block_None [simp]: "block None = []"
  by (simp_all add: block_def)

lemma write_at_block:
  assumes "i + length xs \<le> length (block b)"
  shows "\<exists>b'. write_at b i xs = Some b' \<and> block b' = take i (block b) @ xs @ drop (i + length xs) (block b)"
  using assms by (cases b) (auto simp: write_at_def)

lemma my_realloc_block:
  assumes "alloc_ok sz alloc" "my_realloc alloc old bytes = Some new"
  shows "length new = bytes div sz"
    "n \<le> bytes div sz \<Longrightarrow> n \<le> length (block old) \<Longrightarrow> take n new = take n (block old)"
  using assms by (auto simp: my_realloc_def alloc_ok_def split: option.splits)

text \<open>Both ways to grow: the elements stay, and the block has room for the new maximum.\<close>

lemma leave_static_ok:
  assumes "alloc_ok (size_of_element a) alloc" "dyn_ok a" "alloc bytes = Some new"
    "elements a \<le> n" "bytes = n * size_of_element a"
  shows "\<exists>b flags. leave_static a new = Some (a\<lparr>buffer := b, malloc_flags := flags\<rparr>) \<and>
    length (block b) = n \<and> take (elements a) (block b) = da_list a"
proof -
  have len: "length new = n" using assms by (auto simp: alloc_ok_def dyn_ok_def)
  let ?xs = "take (elements a) (block (buffer a))"
  have xs: "length ?xs = elements a" "\<not> length (block (buffer a)) < elements a"
    using assms(2) by (auto simp: dyn_ok_def)
  obtain b where "write_at (Some new) 0 ?xs = Some b" "block b = ?xs @ drop (elements a) new"
    using write_at_block [of 0 ?xs "Some new"] len xs assms(4) by auto
  then show ?thesis using len xs assms(4) by (auto simp: leave_static_def da_list_def)
qed

lemma realloc_ok:
  assumes "alloc_ok (size_of_element a) alloc" "dyn_ok a" "my_realloc alloc (buffer a) bytes = Some new"
    "elements a \<le> n" "bytes = n * size_of_element a"
  shows "length new = n \<and> take (elements a) new = da_list a"
  using assms my_realloc_block [OF assms(1,3)] by (auto simp: dyn_ok_def da_list_def)

lemma dyn_ok_grown:
  assumes "dyn_ok a" "length (block b) = n" "k \<le> n"
  shows "dyn_ok (a\<lparr>buffer := b, malloc_flags := f, max_element := n, elements := k\<rparr>)"
  using assms by (simp add: dyn_ok_def)

lemma alloc_dynamic_ok:
  assumes "alloc_ok (size_of_element a) alloc" "dyn_ok a" "fits a (elements a)"
  shows "\<exists>a' r. alloc_dynamic alloc a = Some (a', r) \<and> dyn_ok a' \<and>
    (case r of None \<Rightarrow> a' = a
     | Some i \<Rightarrow> i = elements a \<and> elements a' = elements a + 1 \<and> take i (block (buffer a')) = da_list a)"
proof -
  let ?n = "max_element a + alloc_increment a"
  have sz: "0 < size_of_element a" "0 < alloc_increment a" "elements a \<le> max_element a"
    using assms(2) by (auto simp: dyn_ok_def)
  have b: "elements a + alloc_increment a < 2 ^ 32"
    "(elements a + alloc_increment a) * size_of_element a < 2 ^ 32"
    using fits_bounds [OF assms(3) sz(1)] by auto
  have u: "u32 (elements a + 1) = elements a + 1" using b(1) sz(2) by simp
  show ?thesis
  proof (cases "elements a = max_element a")
    case False
    then show ?thesis using assms(2) u by (auto simp: alloc_dynamic_def dyn_ok_def da_list_def)
  next
    case full: True
    then have n: "u32 ?n = ?n" "u32 (?n * size_of_element a) = ?n * size_of_element a"
      "elements a \<le> ?n" "elements a + 1 \<le> ?n" using b sz by simp_all
    show ?thesis
    proof (cases "init_buffer_used a")
      case True
      then show ?thesis
        using leave_static_ok [OF assms(1,2) _ n(3) refl] full n u assms(2)
        by (cases "alloc (?n * size_of_element a)")
          (fastforce simp: alloc_dynamic_def Let_def dyn_ok_def)+
    next
      case False
      then show ?thesis
        using realloc_ok [OF assms(1,2) _ n(3) refl] full n u assms(2)
        by (cases "my_realloc alloc (buffer a) (?n * size_of_element a)")
          (fastforce simp: alloc_dynamic_def Let_def dyn_ok_def)+
    qed
  qed
qed

lemma insert_dynamic_ok:
  assumes "alloc_ok (size_of_element a) alloc" "dyn_ok a" "fits a (elements a)"
  shows "\<exists>a' e. insert_dynamic alloc a x = Some (a', e) \<and> dyn_ok a' \<and>
    da_list a' = (if e then da_list a else da_list a @ [x]) \<and> (e \<longrightarrow> a' = a)"
proof -
  let ?step = "if elements a = max_element a then alloc_dynamic alloc a
    else Some (a\<lparr>elements := u32 (elements a + 1)\<rparr>, Some (elements a))"
  have "?step = alloc_dynamic alloc a" by (simp add: alloc_dynamic_def)
  moreover obtain a' r where r: "alloc_dynamic alloc a = Some (a', r)" "dyn_ok a'"
    "case r of None \<Rightarrow> a' = a
     | Some i \<Rightarrow> i = elements a \<and> elements a' = elements a + 1 \<and> take i (block (buffer a')) = da_list a"
    using alloc_dynamic_ok [OF assms] by blast
  ultimately have step: "?step = Some (a', r)" by simp
  show ?thesis
  proof (cases r)
    case None
    then have "insert_dynamic alloc a x = Some (a, True)" using r(3) step by (simp add: insert_dynamic_def)
    then show ?thesis using assms(2) by auto
  next
    case (Some i)
    then have i: "i = elements a" "elements a' = elements a + 1" "take i (block (buffer a')) = da_list a"
      using r(3) by auto
    have room: "i + length [x] \<le> length (block (buffer a'))" using r(2) i by (simp add: dyn_ok_def)
    then obtain b where b: "write_at (buffer a') i [x] = Some b"
      "block b = take i (block (buffer a')) @ [x] @ drop (i + length [x]) (block (buffer a'))"
      using write_at_block by blast
    have "insert_dynamic alloc a x = Some (a'\<lparr>buffer := b\<rparr>, False)"
      using Some b(1) by (simp add: insert_dynamic_def step del: fun_upd_apply)
    moreover have "length (block b) = length (block (buffer a'))" using b(2) room by simp
    moreover have "dyn_ok (a'\<lparr>buffer := b\<rparr>)" using r(2) calculation(2) by (simp add: dyn_ok_def)
    moreover have "da_list (a'\<lparr>buffer := b\<rparr>) = da_list a @ [x]"
      using b(2) i room assms(2) by (simp add: da_list_def dyn_ok_def)
    ultimately show ?thesis by auto
  qed
qed

lemma allocate_dynamic_ok:
  assumes "alloc_ok (size_of_element a) alloc" "dyn_ok a" "fits a idx" "\<not> init_buffer_used a"
  shows "\<exists>a' e. allocate_dynamic alloc a idx = Some (a', e) \<and> dyn_ok a' \<and> da_list a' = da_list a \<and>
    elements a' = elements a \<and> (if e then a' = a else idx < length (block (buffer a')) \<and> idx < max_element a')"
proof (cases "max_element a \<le> idx")
  case False
  then show ?thesis using assms(2) by (auto simp: allocate_dynamic_def dyn_ok_def)
next
  case True
  let ?i = "alloc_increment a"
  let ?n = "(idx + ?i) div ?i * ?i"
  have sz: "0 < size_of_element a" "0 < ?i" "elements a \<le> max_element a"
    using assms(2) by (auto simp: dyn_ok_def)
  note b = fits_bounds [OF assms(3) sz(1)]
  have n: "idx < ?n" "?n \<le> idx + ?i"
    using sz(2) dividend_less_div_times [of ?i idx] by (simp_all add: div_add_self2 algebra_simps)
  have "?n * size_of_element a \<le> (idx + ?i) * size_of_element a" using n(2) by (rule mult_le_mono1)
  then have u: "u32 (idx + ?i) = idx + ?i" "u32 ?n = ?n"
    "u32 (?n * size_of_element a) = ?n * size_of_element a"
    using b n(2) by (blast intro: u32_id le_less_trans)+
  have eq: "allocate_dynamic alloc a idx = (case my_realloc alloc (buffer a) (?n * size_of_element a) of
      None \<Rightarrow> Some (a, True) | Some new \<Rightarrow> Some (a\<lparr>buffer := Some new, max_element := ?n\<rparr>, False))"
    using True assms(4) by (simp only: allocate_dynamic_def u Let_def if_True if_False)
  have "elements a \<le> ?n" using n(1) True sz(3) by linarith
  then show ?thesis
    using eq n(1) assms(2) realloc_ok [OF assms(1,2), of _ _ ?n]
    by (cases "my_realloc alloc (buffer a) (?n * size_of_element a)")
      (auto simp: dyn_ok_def da_list_def)
qed

lemma write_elem_ok:
  assumes "dyn_ok a" "idx < elements a" "write_at (buffer a) idx [x] = Some b"
  shows "dyn_ok (a\<lparr>buffer := b\<rparr>) \<and> da_list (a\<lparr>buffer := b\<rparr>) = (da_list a)[idx := x]"
proof -
  have "idx + length [x] \<le> length (block (buffer a))" using assms by (simp add: dyn_ok_def)
  then have "block b = (block (buffer a))[idx := x]"
    using write_at_block [of idx "[x]" "buffer a"] assms(3) by (auto simp: upd_conv_take_nth_drop)
  then show ?thesis using assms(1,2) by (simp add: dyn_ok_def da_list_def take_update_swap)
qed

lemma set_dynamic_ok:
  assumes "alloc_ok (size_of_element a) alloc" "dyn_ok a" "fits a idx" "\<not> init_buffer_used a"
  shows "\<exists>a' e. set_dynamic alloc zero a x idx = Some (a', e) \<and> dyn_ok a' \<and>
    da_list a' = (if e then da_list a
      else (da_list a @ replicate (idx + 1 - elements a) zero)[idx := x]) \<and> (e \<longrightarrow> a' = a)"
proof (cases "idx < elements a")
  case True
  then obtain b where "write_at (buffer a) idx [x] = Some b"
    using write_at_block [of idx "[x]" "buffer a"] assms(2) by (auto simp: dyn_ok_def)
  then show ?thesis
    using True write_elem_ok [OF assms(2) True, of x b] by (auto simp: set_dynamic_def)
next
  case False
  let ?step = "if idx \<ge> elements a \<and> idx \<ge> max_element a then allocate_dynamic alloc a idx else Some (a, False)"
  have "?step = allocate_dynamic alloc a idx"
    using False by (simp add: allocate_dynamic_def)
  then obtain a1 e where a1: "?step = Some (a1, e)" "dyn_ok a1" "da_list a1 = da_list a"
    "elements a1 = elements a" "if e then a1 = a else idx < length (block (buffer a1)) \<and> idx < max_element a1"
    using allocate_dynamic_ok [OF assms] by metis
  show ?thesis
  proof (cases e)
    case True
    then have "set_dynamic alloc zero a x idx = Some (a, True)" using a1(1,5) by (simp add: set_dynamic_def)
    then show ?thesis using assms(2) by auto
  next
    case ok: False
    let ?z = "replicate (idx - elements a) zero"
    have room: "elements a + length ?z \<le> length (block (buffer a1))" using a1(5) ok False by simp
    then obtain b where b: "write_at (buffer a1) (elements a) ?z = Some b"
      "block b = take (elements a) (block (buffer a1)) @ ?z @ drop (elements a + length ?z) (block (buffer a1))"
      using write_at_block by blast
    define a2 where "a2 = a1\<lparr>buffer := b, elements := idx + 1\<rparr>"
    have len: "length (block b) = length (block (buffer a1))" using b(2) room by simp
    have ok2: "dyn_ok a2" "idx < elements a2" using a1(2,5) ok len by (simp_all add: a2_def dyn_ok_def)
    have list2: "da_list a2 = da_list a @ ?z @ [block b ! idx]"
    proof -
      have "da_list a2 = take idx (block b) @ [block b ! idx]"
        using a1(5) ok len by (simp add: a2_def da_list_def take_Suc_conv_app_nth)
      also have "take idx (block b) = da_list a @ ?z"
        using b(2) a1(3,4) a1(2) assms(2) False by (simp add: da_list_def dyn_ok_def)
      finally show ?thesis by simp
    qed
    obtain b2 where b2: "write_at (buffer a2) idx [x] = Some b2"
      using write_at_block [of idx "[x]" "buffer a2"] ok2 by (auto simp: dyn_ok_def)
    have u: "u32 (idx + 1) = idx + 1"
      using fits_bounds(1) [OF assms(3)] assms(2) by (intro u32_id) (simp add: dyn_ok_def)
    have "set_dynamic alloc zero a x idx = Some (a2\<lparr>buffer := b2\<rparr>, False)"
      using a1(1) ok False b(1) b2 u by (simp add: set_dynamic_def a2_def)
    moreover have len: "length (da_list a) = elements a" "length (da_list a @ ?z) = idx"
      using assms(2) False by (simp_all add: da_list_def dyn_ok_def)
    then have "(da_list a @ replicate (idx + 1 - elements a) zero)[idx := x] = da_list a @ ?z @ [x]"
      using False by (simp add: Suc_diff_le replicate_append_same [symmetric] list_update_append len(1))
    moreover have "(da_list a2)[idx := x] = da_list a @ ?z @ [x]"
      using False by (simp add: list2 list_update_append len(1))
    ultimately show ?thesis using write_elem_ok [OF ok2 b2] by auto
  qed
qed

lemma get_dynamic_ok:
  assumes "dyn_ok a"
  shows "get_dynamic zero a idx = Some (if idx < length (da_list a) then da_list a ! idx else zero)"
  using assms by (auto simp: get_dynamic_def dyn_ok_def da_list_def)

lemma delete_dynamic_element_ok:
  assumes "dyn_ok a" "idx < elements a"
  shows "\<exists>a'. delete_dynamic_element a idx = Some a' \<and> dyn_ok a' \<and>
    da_list a' = take idx (da_list a) @ drop (idx + 1) (da_list a)"
proof -
  let ?l = "block (buffer a)" let ?n = "elements a - 1"
  let ?xs = "take (?n - idx) (drop (idx + 1) ?l)"
  have len: "elements a \<le> length ?l" "length ?xs = ?n - idx" "idx + length ?xs \<le> length ?l"
    using assms by (auto simp: dyn_ok_def)
  then obtain b where b: "write_at (buffer a) idx ?xs = Some b"
    "block b = take idx ?l @ ?xs @ drop (idx + length ?xs) ?l" using write_at_block by blast
  have "delete_dynamic_element a idx = Some (a\<lparr>buffer := b, elements := ?n\<rparr>)"
    using assms(2) len(1) b(1) by (simp add: delete_dynamic_element_def Let_def)
  moreover have "length (block b) = length ?l" using b(2) len by simp
  moreover have "take ?n (block b) = take idx ?l @ ?xs"
    using b(2) len assms(2) by simp
  ultimately show ?thesis using assms by (auto simp: dyn_ok_def da_list_def drop_take)
qed

text \<open>When an operation reports failure: the array is full and the allocator refuses the next size.\<close>

lemma my_realloc_None: "my_realloc alloc old n = None \<longleftrightarrow> alloc n = None"
  by (simp add: my_realloc_def split: option.split)

lemma insert_dynamic_error:
  assumes "dyn_ok a" "fits a (elements a)" "insert_dynamic alloc a x = Some (a', e)"
  shows "e \<longleftrightarrow> elements a = max_element a \<and> alloc ((elements a + alloc_increment a) * size_of_element a) = None"
proof -
  let ?n = "elements a + alloc_increment a"
  have "?n < 2 ^ 32" "?n * size_of_element a < 2 ^ 32"
    using fits_bounds [OF assms(2)] assms(1) by (simp_all add: dyn_ok_def)
  then have u: "u32 ?n = ?n" "u32 (?n * size_of_element a) = ?n * size_of_element a" by simp_all
  show ?thesis
  proof (cases "elements a = max_element a")
    case True
    then show ?thesis
      using assms(3) my_realloc_None [of alloc "buffer a" "?n * size_of_element a"] u
      by (auto simp: insert_dynamic_def alloc_dynamic_def Let_def split: if_splits option.splits bind_splits)
  next
    case False
    then show ?thesis using assms(3) by (auto simp: insert_dynamic_def split: bind_splits)
  qed
qed

lemma set_dynamic_error:
  assumes "dyn_ok a" "fits a idx" "\<not> init_buffer_used a" "set_dynamic alloc zero a x idx = Some (a', e)"
  shows "e \<longleftrightarrow> max_element a \<le> idx \<and>
    alloc ((idx + alloc_increment a) div alloc_increment a * alloc_increment a * size_of_element a) = None"
proof -
  let ?i = "alloc_increment a"
  let ?n = "(idx + ?i) div ?i * ?i"
  have sz: "0 < size_of_element a" "elements a \<le> max_element a" using assms(1) by (simp_all add: dyn_ok_def)
  note b = fits_bounds [OF assms(2) sz(1)]
  have n: "?n \<le> idx + ?i" by simp
  have "?n * size_of_element a \<le> (idx + ?i) * size_of_element a" using n by (rule mult_le_mono1)
  then have u: "u32 (idx + ?i) = idx + ?i" "u32 ?n = ?n" "u32 (?n * size_of_element a) = ?n * size_of_element a"
    using b n by (blast intro: u32_id le_less_trans)+
  show ?thesis
  proof (cases "max_element a \<le> idx")
    case True
    have "allocate_dynamic alloc a idx = (case my_realloc alloc (buffer a) (?n * size_of_element a) of
        None \<Rightarrow> Some (a, True) | Some new \<Rightarrow> Some (a\<lparr>buffer := Some new, max_element := ?n\<rparr>, False))"
      using True assms(3) by (simp only: allocate_dynamic_def u Let_def if_True if_False)
    then show ?thesis
      using assms(4) True sz(2) my_realloc_None [of alloc "buffer a" "?n * size_of_element a"]
      by (auto simp: set_dynamic_def split: if_splits option.splits bind_splits)
  next
    case False
    then show ?thesis using assms(4) by (auto simp: set_dynamic_def split: if_splits bind_splits)
  qed
qed

text \<open>
  C30: A growing array on the heap (one that does not use a static buffer of its caller) is a list, as long
  as the byte count of the next growth fits in 32 bits.  \<open>insert_dynamic\<close> appends the element;
  \<open>set_dynamic\<close> replaces an element, or pads with zero elements up to it; both report failure exactly when
  the array is full and the allocator refuses the next larger block, and leave the array alone then.
  \<open>get_dynamic\<close> reads an element, or the zero element outside; \<open>delete_dynamic_element\<close> and \<open>pop_dynamic\<close>
  remove; no operation writes outside of its block.
\<close>

theorem dyn_array_refines_list:
  assumes "alloc_ok (size_of_element a) alloc" "dyn_ok a" "\<not> init_buffer_used a" "fits a (max idx (elements a))"
  shows
    "(\<exists>a' e. insert_dynamic alloc a x = Some (a', e) \<and> dyn_ok a' \<and>
       da_list a' = (if e then da_list a else da_list a @ [x]) \<and>
       (e \<longleftrightarrow> elements a = max_element a \<and> alloc ((elements a + alloc_increment a) * size_of_element a) = None)) \<and>
     (\<exists>a' e. set_dynamic alloc zero a x idx = Some (a', e) \<and> dyn_ok a' \<and>
       da_list a' = (if e then da_list a
         else (da_list a @ replicate (idx + 1 - length (da_list a)) zero)[idx := x]) \<and>
       (e \<longleftrightarrow> max_element a \<le> idx \<and>
         alloc ((idx + alloc_increment a) div alloc_increment a * alloc_increment a * size_of_element a) = None)) \<and>
     get_dynamic zero a idx = Some (if idx < length (da_list a) then da_list a ! idx else zero) \<and>
     (idx < length (da_list a) \<longrightarrow>
       (\<exists>a'. delete_dynamic_element a idx = Some a' \<and> dyn_ok a' \<and>
         da_list a' = take idx (da_list a) @ drop (idx + 1) (da_list a))) \<and>
     dyn_ok (fst (pop_dynamic a)) \<and> da_list (fst (pop_dynamic a)) = butlast (da_list a)"
proof -
  have len: "length (da_list a) = elements a" using assms(2) by (simp add: da_list_def dyn_ok_def)
  have "dyn_ok (fst (pop_dynamic a)) \<and> da_list (fst (pop_dynamic a)) = butlast (da_list a)"
    using assms(2) by (auto simp: pop_dynamic_def dyn_ok_def da_list_def butlast_take)
  moreover have f: "fits a (elements a)" "fits a idx" using fits_mono [OF assms(4)] by simp_all
  ultimately show ?thesis
    unfolding len
    using insert_dynamic_ok [OF assms(1,2) f(1), of x] insert_dynamic_error [OF assms(2) f(1)]
      set_dynamic_ok [OF assms(1,2) f(2) assms(3), of zero x] set_dynamic_error [OF assms(2) f(2) assms(3)]
      get_dynamic_ok [OF assms(2), of zero idx, unfolded len] delete_dynamic_element_ok [OF assms(2), of idx]
    by blast
qed

theorem dyn_array_witness:
  "\<exists>a'. set_dynamic (\<lambda>n. Some (replicate (n div 4) 7)) 0
       \<lparr>buffer = Some [5], elements = 1, max_element = 1, alloc_increment = 2, size_of_element = 4,
        malloc_flags = 0\<rparr> (9 :: nat) 3 = Some (a', False) \<and> da_list a' = [5, 0, 0, 9]"
proof -
  define alloc :: "nat \<Rightarrow> nat list option" where "alloc = (\<lambda>n. Some (replicate (n div 4) 7))"
  define a :: "nat DYNAMIC_ARRAY" where
    "a = \<lparr>buffer = Some [5], elements = 1, max_element = 1, alloc_increment = 2, size_of_element = 4, malloc_flags = 0\<rparr>"
  have "alloc_ok (size_of_element a) alloc" by (simp add: alloc_ok_def alloc_def a_def)
  moreover have "dyn_ok a" "\<not> init_buffer_used a" "fits a (max 3 (elements a))"
    by (simp_all add: a_def dyn_ok_def init_buffer_used_def fits_def)
  ultimately obtain a' e where "set_dynamic alloc 0 a 9 3 = Some (a', e)"
      "da_list a' = (if e then da_list a else (da_list a @ replicate (3 + 1 - length (da_list a)) 0)[3 := 9])"
      "e \<longrightarrow> (\<exists>n. alloc n = None)"
    using dyn_array_refines_list [of a alloc 3 9 0] by blast
  moreover have "da_list a = [5]" "\<And>n. alloc n \<noteq> None" by (simp_all add: a_def da_list_def alloc_def)
  ultimately show ?thesis by (fastforce simp: alloc_def a_def numeral_3_eq_3 numeral_2_eq_2)
qed

text \<open>
  When memory runs out, \<open>allocate_dynamic\<close> reports success for an array in a static buffer,
  and \<open>set_dynamic\<close> then writes behind that buffer.
\<close>

theorem set_dynamic_static_overflow:
  assumes "init_buffer_used a" "alloc = (\<lambda>_. None)" "max_element a = length (block (buffer a))"
    "elements a \<le> max_element a" "max_element a \<le> idx"
  shows "allocate_dynamic alloc a idx = Some (a, False) \<and> set_dynamic alloc zero a x idx = None"
proof -
  have "allocate_dynamic alloc a idx = Some (a, False)"
    using assms by (simp add: allocate_dynamic_def Let_def)
  then show ?thesis using assms
    by (auto simp: set_dynamic_def write_at_def block_def split: option.splits)
qed

theorem set_dynamic_static_witness:
  "set_dynamic (\<lambda>_. None) 0 (fst (init_dynamic_array2 (\<lambda>_. None) 4 (Some [1, 2]) 2 0 0)) (3 :: nat) 2 = None"
  by (rule set_dynamic_static_overflow [THEN conjunct2])
    (simp_all add: init_dynamic_array2_def Let_def init_buffer_used_def MY_INIT_BUFFER_USED_def)

end
