(* ===== verification/Dyn_String.thy ===== *)
theory Dyn_String
  imports Dyn_Array
begin

text \<open>
  The growing strings of \<open>mysys/string.c\<close> (\<open>DYNAMIC_STRING\<close>).  Blocks and the allocator are as
  for \<open>DYNAMIC_ARRAY\<close>, with characters as elements; sizes are natural numbers (a block of
  \<open>2 ^ 64\<close> bytes does not exist).  A C string argument is the list of its characters without
  the final NUL.  The result \<open>None\<close> stands for a write outside of the block.
\<close>

section \<open>The model\<close>

record DYNAMIC_STRING =
  str :: "char list option"
  str_length :: nat
  max_length :: nat
  str_increment :: nat

definition NUL :: char where "NUL = CHR 0x00"

definition init_dynamic_string ::
  "(nat \<Rightarrow> char list option) \<Rightarrow> DYNAMIC_STRING \<Rightarrow> string option \<Rightarrow> nat \<Rightarrow> nat \<Rightarrow>
   (DYNAMIC_STRING \<times> bool) option" where
  "init_dynamic_string alloc s init_str init_alloc inc =
     (let inc = (if inc = 0 then 128 else inc);
          len = (case init_str of None \<Rightarrow> 1 | Some t \<Rightarrow> length t + 1);
          init_alloc = (if init_str \<noteq> None \<and> len < init_alloc then (len + inc - 1) div inc * inc else init_alloc);
          init_alloc = (if init_alloc = 0 then inc else init_alloc)
      in case alloc init_alloc of
           None \<Rightarrow> Some (s\<lparr>str := None\<rparr>, True)
         | Some new \<Rightarrow> do {
             b \<leftarrow> (case init_str of None \<Rightarrow> Some (Some new) | Some t \<Rightarrow> write_at (Some new) 0 (t @ [NUL]));
             Some (s\<lparr>str := b, str_length := len - 1, max_length := init_alloc, str_increment := inc\<rparr>, False) })"

definition dynstr_set ::
  "(nat \<Rightarrow> char list option) \<Rightarrow> DYNAMIC_STRING \<Rightarrow> string option \<Rightarrow> (DYNAMIC_STRING \<times> bool) option" where
  "dynstr_set alloc s init_str =
     (case init_str of
        None \<Rightarrow> Some (s\<lparr>str_length := 0\<rparr>, False)
      | Some t \<Rightarrow>
          (let len = u32 (length t + 1);
               grow = len > max_length s;
               m = (len + str_increment s - 1) div str_increment s * str_increment s;
               m = (if m = 0 then str_increment s else m);
               s1 = (if grow then s\<lparr>max_length := m, str := my_realloc alloc (str s) m\<rparr> else s)
           in if grow \<and> str s1 = None then Some (s1, True)
              else do {
                b \<leftarrow> write_at (str s1) 0 (take len (t @ [NUL]));
                Some (s1\<lparr>str := b, str_length := u32 (len + 2 ^ 32 - 1)\<rparr>, False) }))"

definition dynstr_realloc ::
  "(nat \<Rightarrow> char list option) \<Rightarrow> DYNAMIC_STRING \<Rightarrow> nat \<Rightarrow> DYNAMIC_STRING \<times> bool" where
  "dynstr_realloc alloc s additional_size =
     (if additional_size = 0 then (s, False)
      else if str_length s + additional_size > max_length s then
        (let m = (str_length s + additional_size + str_increment s - 1) div str_increment s * str_increment s;
             b = my_realloc alloc (str s) m
         in (s\<lparr>max_length := m, str := b\<rparr>, b = None))
      else (s, False))"

definition dynstr_append_mem ::
  "(nat \<Rightarrow> char list option) \<Rightarrow> DYNAMIC_STRING \<Rightarrow> string \<Rightarrow> (DYNAMIC_STRING \<times> bool) option" where
  "dynstr_append_mem alloc s app =
     (let n = str_length s + length app;
          grow = n \<ge> max_length s;
          new_length = (n + str_increment s) div str_increment s * str_increment s;
          new_ptr = my_realloc alloc (str s) new_length
      in if grow \<and> new_ptr = None then Some (s, True)
         else do {
           let s1 = (if grow then s\<lparr>str := new_ptr, max_length := new_length\<rparr> else s);
           b \<leftarrow> write_at (str s1) (str_length s1) app;
           b \<leftarrow> write_at b n [NUL];
           Some (s1\<lparr>str := b, str_length := n\<rparr>, False) })"

definition dynstr_append ::
  "(nat \<Rightarrow> char list option) \<Rightarrow> DYNAMIC_STRING \<Rightarrow> string \<Rightarrow> (DYNAMIC_STRING \<times> bool) option" where
  "dynstr_append alloc s app = dynstr_append_mem alloc s (take (u32 (length app)) app)"

text \<open>For \<open>n\<close> above the length the subtraction wraps and the write is far behind the block.\<close>

definition dynstr_trunc :: "DYNAMIC_STRING \<Rightarrow> nat \<Rightarrow> (DYNAMIC_STRING \<times> bool) option" where
  "dynstr_trunc s n =
     (if str_length s < n then None
      else do {
        b \<leftarrow> write_at (str s) (str_length s - n) [NUL];
        Some (s\<lparr>str := b, str_length := str_length s - n\<rparr>, False) })"

definition dynstr_clear :: "DYNAMIC_STRING \<Rightarrow> (DYNAMIC_STRING \<times> bool) option" where
  "dynstr_clear s = do {
     b \<leftarrow> write_at (str s) 0 [NUL];
     Some (s\<lparr>str := b, str_length := 0\<rparr>, False) }"

subsection \<open>Quoting for the shell\<close>

definition quote_char :: char where "quote_char = CHR 0x27"

definition replace_str :: string where
  "replace_str = [CHR 0x27, CHR 0x22, CHR 0x27, CHR 0x22, CHR 0x27]"

text \<open>\<open>ret &= dynstr_append_mem(..)\<close>\<close>

definition and_append ::
  "(nat \<Rightarrow> char list option) \<Rightarrow> DYNAMIC_STRING \<times> bool \<Rightarrow> string \<Rightarrow> (DYNAMIC_STRING \<times> bool) option" where
  "and_append alloc st app = do {
     (s, r) \<leftarrow> dynstr_append_mem alloc (fst st) app;
     Some (s, snd st \<and> r) }"

lemma drop_shorter: "x \<in> set xs \<Longrightarrow> length (dropWhile P xs) - Suc 0 < length xs"
  using length_dropWhile_le [of P xs] length_pos_if_in_set [of x xs] by linarith

text \<open>One argument; \<open>strcend\<close> finds the first quote or the end.\<close>

function quote_loop ::
  "(nat \<Rightarrow> char list option) \<Rightarrow> DYNAMIC_STRING \<times> bool \<Rightarrow> string \<Rightarrow> (DYNAMIC_STRING \<times> bool) option" where
  "quote_loop alloc st cur =
     (let upto = takeWhile (\<lambda>c. c \<noteq> quote_char) cur; rest = dropWhile (\<lambda>c. c \<noteq> quote_char) cur
      in if rest \<noteq> [] then do {
           st \<leftarrow> and_append alloc st (take (u32 (length upto)) upto);
           st \<leftarrow> and_append alloc st replace_str;
           quote_loop alloc st (tl rest) }
         else and_append alloc st (take (u32 (length upto)) upto))"
  by pat_completeness auto
termination
  by (relation "measure (\<lambda>(_, _, cur). length cur)") (auto intro: drop_shorter)

fun quote_args ::
  "(nat \<Rightarrow> char list option) \<Rightarrow> DYNAMIC_STRING \<times> bool \<Rightarrow> string list \<Rightarrow> (DYNAMIC_STRING \<times> bool) option" where
  "quote_args alloc st [] = Some st"
| "quote_args alloc st (app # args) = do { st \<leftarrow> quote_loop alloc st app; quote_args alloc st args }"

definition dynstr_append_os_quoted ::
  "(nat \<Rightarrow> char list option) \<Rightarrow> DYNAMIC_STRING \<Rightarrow> string list \<Rightarrow> (DYNAMIC_STRING \<times> bool) option" where
  "dynstr_append_os_quoted alloc s args = do {
     st \<leftarrow> and_append alloc (s, True) [quote_char];
     st \<leftarrow> quote_args alloc st args;
     and_append alloc st [quote_char] }"

subsection \<open>Quoting with backslashes\<close>

text \<open>\<open>str->str[str->length++]= c\<close>\<close>

definition put_char :: "DYNAMIC_STRING \<Rightarrow> char \<Rightarrow> DYNAMIC_STRING option" where
  "put_char s c = do {
     b \<leftarrow> write_at (str s) (str_length s) [c];
     Some (s\<lparr>str := b, str_length := str_length s + 1\<rparr>) }"

fun append_quoted_loop ::
  "(nat \<Rightarrow> char list option) \<Rightarrow> char \<Rightarrow> nat \<Rightarrow> nat \<Rightarrow> DYNAMIC_STRING \<Rightarrow> string \<Rightarrow>
   (DYNAMIC_STRING \<times> bool) option" where
  "append_quoted_loop alloc quote additional lim s [] = do { s \<leftarrow> put_char s quote; Some (s, False) }"
| "append_quoted_loop alloc quote additional lim s (c # cs) =
     (if c = quote \<or> c = CHR 0x5C then
        (let (s1, err) = (if lim = 0 then dynstr_realloc alloc s additional else (s, False));
             lim1 = (if lim = 0 then additional else lim)
         in if err then Some (s1, True)
            else do {
              s2 \<leftarrow> put_char s1 (CHR 0x5C);
              s3 \<leftarrow> put_char s2 c;
              append_quoted_loop alloc quote additional (lim1 - 1) s3 cs })
      else do { s1 \<leftarrow> put_char s c; append_quoted_loop alloc quote additional lim s1 cs })"

definition dynstr_append_quoted ::
  "(nat \<Rightarrow> char list option) \<Rightarrow> DYNAMIC_STRING \<Rightarrow> string \<Rightarrow> char \<Rightarrow> (DYNAMIC_STRING \<times> bool) option" where
  "dynstr_append_quoted alloc s app quote =
     (let additional = (if str_increment s \<noteq> 0 then str_increment s else 10);
          (s1, err) = dynstr_realloc alloc s (length app + additional + 2)
      in if err then Some (s1, True)
         else do {
           s2 \<leftarrow> put_char s1 quote;
           append_quoted_loop alloc quote additional additional s2 app })"

text \<open>\<open>True\<close> when the block is given to \<open>my_free\<close>.\<close>

definition dynstr_free :: "DYNAMIC_STRING \<Rightarrow> DYNAMIC_STRING \<times> bool" where
  "dynstr_free s = (s\<lparr>str := None\<rparr>, str s \<noteq> None)"

definition dynstr_reassociate :: "DYNAMIC_STRING \<Rightarrow> DYNAMIC_STRING \<times> char list option \<times> nat \<times> nat" where
  "dynstr_reassociate s = (s\<lparr>str := None\<rparr>, str s, str_length s, max_length s)"

section \<open>A growing string is a list of characters\<close>

definition dynstr_ok :: "DYNAMIC_STRING \<Rightarrow> bool" where
  "dynstr_ok s \<longleftrightarrow>
     str_length s < max_length s \<and> length (block (str s)) = max_length s \<and> 0 < str_increment s"

definition ds_text :: "DYNAMIC_STRING \<Rightarrow> string" where
  "ds_text s = take (str_length s) (block (str s))"

lemma alloc_length: "alloc_ok 1 alloc \<Longrightarrow> alloc n = Some b \<Longrightarrow> length b = n"
  by (auto simp: alloc_ok_def)

lemma realloc_text:
  assumes "alloc_ok 1 alloc" "my_realloc alloc old n = Some new" "k \<le> n" "k \<le> length (block old)"
  shows "length new = n" "take k new = take k (block old)"
  using my_realloc_block [OF assms(1,2)] assms(3,4) by auto

lemma round_up:
  fixes n k :: nat
  assumes "0 < k"
  shows "n < (n + k) div k * k" "n \<le> (n + k - 1) div k * k"
proof -
  have up: "m < (m + k) div k * k" for m
  proof -
    have "(m + k) div k = m div k + 1" using assms div_add_self2 [of k m] by simp
    then show ?thesis using dividend_less_div_times [OF assms, of m] by simp
  qed
  show "n < (n + k) div k * k" by (rule up)
  show "n \<le> (n + k - 1) div k * k"
    using up [of "n - 1"] by (cases n) simp_all
qed

lemma dynstr_append_mem_ok:
  assumes "alloc_ok 1 alloc" "dynstr_ok s"
  shows "\<exists>s' e. dynstr_append_mem alloc s t = Some (s', e) \<and> dynstr_ok s' \<and>
    ds_text s' = (if e then ds_text s else ds_text s @ t) \<and> (e \<longrightarrow> s' = s) \<and>
    ((\<forall>n. alloc n \<noteq> None) \<longrightarrow> \<not> e)"
proof -
  let ?n = "str_length s + length t"
  let ?m = "(?n + str_increment s) div str_increment s * str_increment s"
  let ?new = "my_realloc alloc (str s) ?m"
  let ?s1 = "if ?n \<ge> max_length s then s\<lparr>str := ?new, max_length := ?m\<rparr> else s"
  show ?thesis
  proof (cases "?n \<ge> max_length s \<and> ?new = None")
    case True
    then have "dynstr_append_mem alloc s t = Some (s, True)" by (simp add: dynstr_append_mem_def Let_def)
    moreover have "\<exists>n. alloc n = None" using True by (auto simp: my_realloc_def split: option.splits)
    ultimately show ?thesis using assms(2) by auto
  next
    case False
    have m: "?n < ?m" using assms(2) by (intro round_up) (simp add: dynstr_ok_def)
    have grown_ok: "length (the ?new) = ?m" "take (str_length s) (the ?new) = ds_text s"
      if "?new \<noteq> None"
    proof -
      obtain b where b: "?new = Some b" using \<open>?new \<noteq> None\<close> by blast
      have "str_length s \<le> ?m" "str_length s \<le> length (block (str s))"
        using m assms(2) by (auto simp: dynstr_ok_def)
      from realloc_text [OF assms(1) b this] show "length (the ?new) = ?m" "take (str_length s) (the ?new) = ds_text s"
        by (simp_all add: b ds_text_def)
    qed
    define s1 where "s1 = (if ?n \<ge> max_length s then s\<lparr>str := ?new, max_length := ?m\<rparr> else s)"
    have s1: "?n < length (block (str s1))" "max_length s1 = length (block (str s1))"
      "take (str_length s) (block (str s1)) = ds_text s" "str_increment s1 = str_increment s"
      "str_length s1 = str_length s"
      using grown_ok False m assms(2) by (auto simp: s1_def dynstr_ok_def ds_text_def)
    have room: "str_length s + length t \<le> length (block (str s1))" using s1(1) by simp
    obtain b where b: "write_at (str s1) (str_length s) t = Some b"
      "block b = take (str_length s) (block (str s1)) @ t @ drop ?n (block (str s1))"
      using write_at_block [OF room] by blast
    have lb: "length (block b) = length (block (str s1))" using b(2) room by simp
    have room': "?n + length [NUL] \<le> length (block b)" using s1(1) lb by simp
    obtain b' where b': "write_at b ?n [NUL] = Some b'"
      "block b' = take ?n (block b) @ [NUL] @ drop (?n + length [NUL]) (block b)"
      using write_at_block [OF room'] by blast
    have "dynstr_append_mem alloc s t = Some (s1\<lparr>str := b', str_length := ?n\<rparr>, False)"
      using False b(1) b'(1) unfolding dynstr_append_mem_def Let_def s1_def [symmetric] s1(5)
      by (simp only: if_False Option.bind.bind_lunit simp_thms)
    moreover have "length (block b') = length (block b)" using b'(2) room' by simp
    then have "dynstr_ok (s1\<lparr>str := b', str_length := ?n\<rparr>)"
      using s1 lb assms(2) by (simp add: dynstr_ok_def)
    moreover have "take ?n (block b) = ds_text s @ t"
      unfolding b(2) s1(3) [symmetric] using room by simp
    then have "ds_text (s1\<lparr>str := b', str_length := ?n\<rparr>) = ds_text s @ t"
      using b'(2) room' assms(2) by (simp add: ds_text_def dynstr_ok_def)
    ultimately show ?thesis by (intro exI conjI) (assumption | simp)+
  qed
qed

lemma init_dynamic_string_ok:
  assumes "alloc_ok 1 alloc" "alloc init_alloc = Some blk" "0 < init_alloc" "init_str = None"
  shows "\<exists>s'. init_dynamic_string alloc s init_str init_alloc inc = Some (s', False) \<and> dynstr_ok s' \<and> ds_text s' = []"
  using assms alloc_length [OF assms(1,2)]
  by (auto simp: init_dynamic_string_def Let_def dynstr_ok_def ds_text_def)

section \<open>Quoting for the shell\<close>

definition os_quote :: "string \<Rightarrow> string" where
  "os_quote t = concat (map (\<lambda>c. if c = quote_char then replace_str else [c]) t)"

lemma os_quote_Nil [simp]: "os_quote [] = []" and
  os_quote_Cons: "os_quote (c # t) = (if c = quote_char then replace_str else [c]) @ os_quote t" and
  os_quote_append: "os_quote (t @ u) = os_quote t @ os_quote u"
  by (simp_all add: os_quote_def)

lemma os_quote_plain: "quote_char \<notin> set t \<Longrightarrow> os_quote t = t"
  by (induction t) (auto simp: os_quote_Cons)

definition never_fails :: "(nat \<Rightarrow> 'a list option) \<Rightarrow> bool" where
  "never_fails alloc \<longleftrightarrow> (\<forall>n. alloc n \<noteq> None)"

lemma realloc_never_fails: "never_fails alloc \<Longrightarrow> \<exists>b. my_realloc alloc old n = Some b"
  by (cases "alloc n") (simp_all add: never_fails_def my_realloc_def, metis option.distinct(1))

lemma and_append_ok:
  assumes "alloc_ok 1 alloc" "never_fails alloc" "dynstr_ok s"
  shows "\<exists>s'. and_append alloc (s, r) t = Some (s', False) \<and> dynstr_ok s' \<and> ds_text s' = ds_text s @ t"
  using dynstr_append_mem_ok [OF assms(1,3), of t] assms(2)
  by (auto simp: and_append_def never_fails_def)

lemma quote_loop_ok:
  assumes "alloc_ok 1 alloc" "never_fails alloc" "dynstr_ok s" "length t < 2 ^ 32"
  shows "\<exists>s'. quote_loop alloc (s, r) t = Some (s', False) \<and> dynstr_ok s' \<and> ds_text s' = ds_text s @ os_quote t"
  using assms(3,4)
proof (induction t arbitrary: s r rule: length_induct)
  case (1 t)
  let ?u = "takeWhile (\<lambda>c. c \<noteq> quote_char) t" let ?v = "dropWhile (\<lambda>c. c \<noteq> quote_char) t"
  have "length ?u \<le> length t" by (rule length_takeWhile_le)
  then have u: "take (u32 (length ?u)) ?u = ?u" using "1.prems"(2) by simp
  have qu: "os_quote ?u = ?u" by (rule os_quote_plain) (auto dest: set_takeWhileD)
  obtain s1 where s1: "and_append alloc (s, r) ?u = Some (s1, False)" "dynstr_ok s1" "ds_text s1 = ds_text s @ ?u"
    using and_append_ok [OF assms(1,2) "1.prems"(1)] by blast
  show ?case
  proof (cases ?v)
    case Nil
    then have "?u = t" by (metis append_Nil2 takeWhile_dropWhile_id)
    then have "os_quote t = ?u" using qu by metis
    then show ?thesis using s1 u Nil by (subst quote_loop.simps) (simp add: Let_def)
  next
    case (Cons c v)
    have c: "c = quote_char" using Cons by (metis (full_types) hd_dropWhile list.distinct(1) list.sel(1))
    have t: "t = ?u @ c # v" using Cons by (metis takeWhile_dropWhile_id)
    have v: "length v < length t" using t by (metis add_Suc_right le_add2 length_append list.size(4) less_Suc_eq_le One_nat_def add.commute plus_1_eq_Suc)
    obtain s2 where s2: "and_append alloc (s1, False) replace_str = Some (s2, False)" "dynstr_ok s2"
      "ds_text s2 = ds_text s1 @ replace_str"
      using and_append_ok [OF assms(1,2) s1(2)] by blast
    obtain s3 where s3: "quote_loop alloc (s2, False) v = Some (s3, False)" "dynstr_ok s3"
      "ds_text s3 = ds_text s2 @ os_quote v"
      using "1.IH" v s2(2) "1.prems"(2) by (metis (no_types, lifting) less_trans)
    have "quote_loop alloc (s, r) t = Some (s3, False)"
      using Cons u s1(1) s2(1) s3(1) by (subst quote_loop.simps) (simp add: Let_def)
    moreover have "os_quote t = ?u @ replace_str @ os_quote v"
      by (subst t) (simp add: os_quote_append os_quote_Cons c qu)
    ultimately show ?thesis using s1(3) s2(3) s3(2,3) by simp
  qed
qed

lemma quote_args_ok:
  assumes "alloc_ok 1 alloc" "never_fails alloc" "dynstr_ok s" "\<forall>t\<in>set args. length t < 2 ^ 32"
  shows "\<exists>s'. quote_args alloc (s, False) args = Some (s', False) \<and> dynstr_ok s' \<and>
    ds_text s' = ds_text s @ os_quote (concat args)"
  using assms(3,4)
proof (induction args arbitrary: s)
  case (Cons t args)
  then obtain s1 where s1: "quote_loop alloc (s, False) t = Some (s1, False)" "dynstr_ok s1"
    "ds_text s1 = ds_text s @ os_quote t"
    using quote_loop_ok [OF assms(1,2) Cons.prems(1), of t False] by auto
  then show ?case using Cons.IH [OF s1(2)] Cons.prems(2) by (auto simp: os_quote_append)
qed simp

lemma dynstr_append_os_quoted_ok:
  assumes "alloc_ok 1 alloc" "never_fails alloc" "dynstr_ok s" "\<forall>t\<in>set args. length t < 2 ^ 32"
  shows "\<exists>s'. dynstr_append_os_quoted alloc s args = Some (s', False) \<and> dynstr_ok s' \<and>
    ds_text s' = ds_text s @ [quote_char] @ os_quote (concat args) @ [quote_char]"
proof -
  obtain s1 where s1: "and_append alloc (s, True) [quote_char] = Some (s1, False)" "dynstr_ok s1"
    "ds_text s1 = ds_text s @ [quote_char]" using and_append_ok [OF assms(1-3)] by blast
  obtain s2 where s2: "quote_args alloc (s1, False) args = Some (s2, False)" "dynstr_ok s2"
    "ds_text s2 = ds_text s1 @ os_quote (concat args)"
    using quote_args_ok [OF assms(1,2) s1(2) assms(4)] by blast
  obtain s3 where "and_append alloc (s2, False) [quote_char] = Some (s3, False)" "dynstr_ok s3"
    "ds_text s3 = ds_text s2 @ [quote_char]" using and_append_ok [OF assms(1,2) s2(2)] by blast
  then show ?thesis using s1 s2 by (simp add: dynstr_append_os_quoted_def)
qed

text \<open>
  How a POSIX shell reads a word that is made of quoted parts only: \<open>None\<close> when a character
  stands outside of quotes or is special inside of them.
\<close>

datatype sh_mode = Unquoted | In_single | In_double

fun sh_word :: "sh_mode \<Rightarrow> string \<Rightarrow> string option" where
  "sh_word m [] = (if m = Unquoted then Some [] else None)"
| "sh_word Unquoted (c # cs) =
     (if c = CHR 0x27 then sh_word In_single cs else if c = CHR 0x22 then sh_word In_double cs else None)"
| "sh_word In_single (c # cs) =
     (if c = CHR 0x27 then sh_word Unquoted cs else map_option ((#) c) (sh_word In_single cs))"
| "sh_word In_double (c # cs) =
     (if c = CHR 0x22 then sh_word Unquoted cs
      else if c \<in> {CHR 0x5C, CHR 0x24, CHR 0x60} then None
      else map_option ((#) c) (sh_word In_double cs))"

lemma sh_word_os_quote:
  "sh_word In_single (os_quote t @ [quote_char]) = Some t"
  by (induction t) (auto simp: os_quote_Cons quote_char_def replace_str_def)

text \<open>Under any allocator: \<open>ret\<close> stays \<open>TRUE\<close> only as long as every piece has failed.\<close>

lemma and_append_any:
  assumes "alloc_ok 1 alloc" "dynstr_ok s"
  shows "\<exists>s' r'. and_append alloc (s, r) t = Some (s', r') \<and> dynstr_ok s' \<and> (r' \<longrightarrow> r \<and> s' = s)"
  using dynstr_append_mem_ok [OF assms, of t] by (auto simp: and_append_def)

lemma quote_loop_any:
  assumes "alloc_ok 1 alloc" "dynstr_ok s"
  shows "\<exists>s' r'. quote_loop alloc (s, r) t = Some (s', r') \<and> dynstr_ok s' \<and> (r' \<longrightarrow> r \<and> s' = s)"
  using assms(2)
proof (induction t arbitrary: s r rule: length_induct)
  case (1 t)
  define u where "u = takeWhile (\<lambda>c. c \<noteq> quote_char) t"
  define v where "v = dropWhile (\<lambda>c. c \<noteq> quote_char) t"
  obtain s1 r1 where s1: "and_append alloc (s, r) (take (u32 (length u)) u) = Some (s1, r1)" "dynstr_ok s1" "r1 \<longrightarrow> r \<and> s1 = s"
    using and_append_any [OF assms(1) "1.prems"] by blast
  show ?case
  proof (cases "v = []")
    case True
    then show ?thesis using s1 by (subst quote_loop.simps) (simp add: Let_def u_def v_def)
  next
    case False
    then have v: "length (tl v) < length t"
      using length_dropWhile_le [of "\<lambda>c. c \<noteq> quote_char" t] by (cases v) (auto simp: v_def)
    obtain s2 r2 where s2: "and_append alloc (s1, r1) replace_str = Some (s2, r2)" "dynstr_ok s2" "r2 \<longrightarrow> r1 \<and> s2 = s1"
      using and_append_any [OF assms(1) s1(2)] by blast
    obtain s3 r3 where s3: "quote_loop alloc (s2, r2) (tl v) = Some (s3, r3)" "dynstr_ok s3" "r3 \<longrightarrow> r2 \<and> s3 = s2"
      using "1.IH" v s2(2) by blast
    have "quote_loop alloc (s, r) t = quote_loop alloc (s2, r2) (tl v)"
      using False s1(1) s2(1) by (subst quote_loop.simps) (simp add: Let_def u_def v_def)
    then show ?thesis using s1(3) s2(3) s3 by auto
  qed
qed

lemma quote_args_any:
  assumes "alloc_ok 1 alloc" "dynstr_ok s"
  shows "\<exists>s' r'. quote_args alloc (s, r) args = Some (s', r') \<and> dynstr_ok s' \<and> (r' \<longrightarrow> r \<and> s' = s)"
  using assms(2)
proof (induction args arbitrary: s r)
  case (Cons t args)
  then show ?case using quote_loop_any [OF assms(1) Cons.prems, of r t] by fastforce
qed simp

lemma os_quoted_any:
  assumes "alloc_ok 1 alloc" "dynstr_ok s"
  shows "\<exists>s' r. dynstr_append_os_quoted alloc s args = Some (s', r) \<and> dynstr_ok s' \<and> (r \<longrightarrow> s' = s)"
proof -
  obtain s1 r1 where s1: "and_append alloc (s, True) [quote_char] = Some (s1, r1)" "dynstr_ok s1" "r1 \<longrightarrow> s1 = s"
    using and_append_any [OF assms] by blast
  obtain s2 r2 where s2: "quote_args alloc (s1, r1) args = Some (s2, r2)" "dynstr_ok s2" "r2 \<longrightarrow> r1 \<and> s2 = s1"
    using quote_args_any [OF assms(1) s1(2)] by blast
  then show ?thesis
    using s1 and_append_any [OF assms(1) s2(2), of r2 "[quote_char]"] by (fastforce simp: dynstr_append_os_quoted_def)
qed

text \<open>
  C23: \<open>dynstr_append_os_quoted\<close> writes inside its block and leaves a well-formed string whether or not memory
  runs out.  When no allocation fails it returns \<open>FALSE\<close>, although its comment calls \<open>TRUE\<close> success, and has
  appended exactly one word to the command line, which a POSIX shell reads as the concatenation of the
  arguments, whatever characters they contain.  The result \<open>TRUE\<close> means that nothing was appended: since the
  results of the pieces are combined with \<open>&=\<close>, a failure of some of them is not reported.
\<close>

theorem os_quoted_roundtrip:
  assumes "alloc_ok 1 alloc" "dynstr_ok s" "\<forall>t\<in>set args. length t < 2 ^ 32"
  shows "\<exists>s' r. dynstr_append_os_quoted alloc s args = Some (s', r) \<and> dynstr_ok s' \<and> (r \<longrightarrow> s' = s) \<and>
    ((\<forall>n. alloc n \<noteq> None) \<longrightarrow>
       \<not> r \<and> (\<exists>w. ds_text s' = ds_text s @ w \<and> sh_word Unquoted w = Some (concat args)))"
proof (cases "never_fails alloc")
  case True
  then show ?thesis
    using dynstr_append_os_quoted_ok [OF assms(1) True assms(2,3)] sh_word_os_quote [of "concat args"]
    by (auto simp: quote_char_def)
next
  case False
  then have "\<not> (\<forall>n. alloc n \<noteq> None)" by (simp add: never_fails_def)
  then show ?thesis using os_quoted_any [OF assms(1,2), of args] by blast
qed

theorem os_quoted_witness:
  "\<exists>s' w. dynstr_append_os_quoted (\<lambda>n. Some (replicate n NUL))
       \<lparr>str = Some ''x   '', str_length = 2, max_length = 4, str_increment = 8\<rparr>
       [[CHR 0x27, CHR ''$''], ''b''] = Some (s', False) \<and>
     ds_text s' = ''x '' @ w \<and> sh_word Unquoted w = Some [CHR 0x27, CHR ''$'', CHR ''b'']"
  using os_quoted_roundtrip [of "\<lambda>n. Some (replicate n NUL)"
      "\<lparr>str = Some ''x   '', str_length = 2, max_length = 4, str_increment = 8\<rparr>"
      "[[CHR 0x27, CHR ''$''], ''b'']"]
  by (fastforce simp: alloc_ok_def dynstr_ok_def ds_text_def)

text \<open>The argument did not fit and is missing between the quotes, but the result is the one of success.\<close>

lemma os_quoted_loses_failure:
  "map_option (\<lambda>(s, r). (ds_text s, r)) (dynstr_append_os_quoted (\<lambda>_. None)
       \<lparr>str = Some ''x   '', str_length = 1, max_length = 4, str_increment = 8\<rparr> [''abc'']) =
     Some ([CHR ''x'', CHR 0x27, CHR 0x27], False)"
proof -
  have loop: "quote_loop alloc st ''abc'' = and_append alloc st ''abc''" for alloc st
    by (subst quote_loop.simps) (simp add: quote_char_def)
  show ?thesis
    by (simp add: dynstr_append_os_quoted_def loop and_append_def dynstr_append_mem_def my_realloc_def quote_char_def
        write_at_def ds_text_def)
qed

section \<open>Quoting with backslashes\<close>

definition escape :: "char \<Rightarrow> string \<Rightarrow> string" where
  "escape quote t = concat (map (\<lambda>c. if c = quote \<or> c = CHR 0x5C then [CHR 0x5C, c] else [c]) t)"

definition escapes :: "char \<Rightarrow> string \<Rightarrow> nat" where
  "escapes quote t = length (filter (\<lambda>c. c = quote \<or> c = CHR 0x5C) t)"

text \<open>Room for \<open>n\<close> more characters.\<close>

definition room :: "DYNAMIC_STRING \<Rightarrow> nat \<Rightarrow> bool" where
  "room s n \<longleftrightarrow> str_length s + n \<le> max_length s \<and> length (block (str s)) = max_length s"

lemma put_char_ok:
  assumes "room s (Suc n)"
  shows "\<exists>s'. put_char s c = Some s' \<and> room s' n \<and> ds_text s' = ds_text s @ [c]"
proof -
  have "str_length s + length [c] \<le> length (block (str s))" using assms by (simp add: room_def)
  then obtain b where "write_at (str s) (str_length s) [c] = Some b"
    "block b = take (str_length s) (block (str s)) @ [c] @ drop (str_length s + length [c]) (block (str s))"
    using write_at_block by blast
  then show ?thesis using assms by (simp add: put_char_def room_def ds_text_def)
qed

lemma append_quoted_loop_ok:
  assumes "room s (length t + escapes quote t + 1)" "escapes quote t \<le> lim"
  shows "\<exists>s'. append_quoted_loop alloc quote additional lim s t = Some (s', False) \<and>
    ds_text s' = ds_text s @ escape quote t @ [quote]"
  using assms
proof (induction t arbitrary: s lim)
  case Nil
  then show ?case using put_char_ok [of s 0 quote] by (auto simp: escape_def escapes_def)
next
  case (Cons c cs)
  show ?case
  proof (cases "c = quote \<or> c = CHR 0x5C")
    case False
    then have e: "escapes quote (c # cs) = escapes quote cs" "escape quote (c # cs) = c # escape quote cs"
      by (auto simp: escape_def escapes_def)
    then obtain s1 where s1: "put_char s c = Some s1" "room s1 (length cs + escapes quote cs + 1)"
      "ds_text s1 = ds_text s @ [c]" using put_char_ok [of s "length cs + escapes quote cs + 1" c] Cons.prems(1) by auto
    show ?thesis using Cons.IH [OF s1(2), of lim] Cons.prems(2) s1 e False by auto
  next
    case True
    then have e: "escapes quote (c # cs) = Suc (escapes quote cs)" "escape quote (c # cs) = CHR 0x5C # c # escape quote cs"
      by (auto simp: escape_def escapes_def)
    then obtain s1 where s1: "put_char s (CHR 0x5C) = Some s1" "room s1 (Suc (length cs + escapes quote cs + 1))"
      "ds_text s1 = ds_text s @ [CHR 0x5C]"
      using put_char_ok [of s "Suc (length cs + escapes quote cs + 1)" "CHR 0x5C"] Cons.prems(1) by auto
    obtain s2 where s2: "put_char s1 c = Some s2" "room s2 (length cs + escapes quote cs + 1)"
      "ds_text s2 = ds_text s1 @ [c]" using put_char_ok [OF s1(2)] by auto
    have lim: "lim \<noteq> 0" "escapes quote cs \<le> lim - 1" using Cons.prems(2) e by auto
    have "append_quoted_loop alloc quote additional lim s (c # cs) =
        append_quoted_loop alloc quote additional (lim - 1) s2 cs"
      using True lim(1) s1(1) s2(1) by simp
    then show ?thesis using Cons.IH [OF s2(2) lim(2)] s1(3) s2(3) e by auto
  qed
qed

text \<open>
  As long as the text needs at most \<open>alloc_increment\<close> backslashes, \<open>dynstr_append_quoted\<close> appends
  the quoted text and stays inside of its block.
\<close>

lemma dynstr_append_quoted_ok:
  assumes "alloc_ok 1 alloc" "never_fails alloc" "dynstr_ok s" "escapes quote t \<le> str_increment s"
  shows "\<exists>s'. dynstr_append_quoted alloc s t quote = Some (s', False) \<and>
    ds_text s' = ds_text s @ [quote] @ escape quote t @ [quote]"
proof -
  let ?a = "str_increment s"
  let ?k = "length t + ?a + 2"
  obtain s1 where s1: "dynstr_realloc alloc s ?k = (s1, False)" "room s1 ?k" "ds_text s1 = ds_text s"
  proof (cases "str_length s + ?k > max_length s")
    case True
    let ?m = "(str_length s + ?k + ?a - 1) div ?a * ?a"
    obtain b where b: "my_realloc alloc (str s) ?m = Some b" using realloc_never_fails [OF assms(2)] by blast
    have m: "str_length s + ?k \<le> ?m" using assms(3) by (intro round_up(2)) (simp add: dynstr_ok_def)
    have "length b = ?m" "take (str_length s) b = take (str_length s) (block (str s))"
      using realloc_text [OF assms(1) b, of "str_length s"] m assms(3) by (auto simp: dynstr_ok_def)
    with b m True show ?thesis
      by (intro that [of "s\<lparr>max_length := ?m, str := Some b\<rparr>"])
        (simp_all add: dynstr_realloc_def Let_def room_def ds_text_def)
  next
    case False
    then show ?thesis using assms(3) by (intro that [of s]) (simp_all add: dynstr_realloc_def room_def dynstr_ok_def)
  qed
  then obtain s2 where s2: "put_char s1 quote = Some s2" "room s2 (length t + ?a + 1)" "ds_text s2 = ds_text s @ [quote]"
    using put_char_ok [of s1 "length t + ?a + 1" quote] by auto
  have "room s2 (length t + escapes quote t + 1)" using s2(2) assms(4) by (simp add: room_def)
  then show ?thesis
    using append_quoted_loop_ok [of s2 t quote ?a alloc ?a] assms(3,4) s1(1) s2(1,3)
    by (auto simp: dynstr_append_quoted_def dynstr_ok_def)
qed

text \<open>
  \<open>dynstr_append_quoted\<close> writes behind its block when the text needs more backslashes than the
  growth increment: when the first allowance is used up, room is asked for the next backslashes
  but not for the characters still to come, although memory is never short.
\<close>

theorem dynstr_append_quoted_overflow:
  "dynstr_append_quoted (\<lambda>n. Some (replicate n NUL))
     \<lparr>str = Some [NUL, NUL], str_length = 0, max_length = 2, str_increment = 2\<rparr>
     (replicate 7 (CHR 0x27)) (CHR 0x27) = None"
  by code_simp

text \<open>
  \<open>init_dynamic_string\<close> with an initial text that does not fit in the given size copies it
  behind the block: the size is adapted only when the text is shorter.
\<close>

theorem init_dynamic_string_overflow:
  assumes "alloc_ok 1 alloc" "alloc n = Some new" "0 < n" "n \<le> length t"
  shows "init_dynamic_string alloc s (Some t) n inc = None"
  using assms alloc_length [OF assms(1,2)] by (simp add: init_dynamic_string_def write_at_def Let_def)

theorem init_dynamic_string_witness:
  "init_dynamic_string (\<lambda>n. Some (replicate n NUL))
     \<lparr>str = None, str_length = 0, max_length = 0, str_increment = 0\<rparr> (Some ''abc'') 3 0 = None"
  by (rule init_dynamic_string_overflow [where new = "replicate 3 NUL"]) (simp_all add: alloc_ok_def)

end
