(* ===== verification/String_Array.thy ===== *)
theory String_Array
  imports Dyn_String
begin

text \<open>
  The string arrays that TSpider adds to \<open>mysys/array.c\<close> (\<open>DYNAMIC_STRING_ARRAY\<close>, used for the
  connection and meta-data keys the Spider engine collects): one growing string with all texts,
  and a growing array with the offset and size of each.  The two parts are allocated
  separately; \<open>None\<close> is a null pointer.
\<close>

section \<open>The model\<close>

record dynstr_pos_info =
  elem_off :: nat
  elem_size :: nat

record DYNAMIC_STRING_ARRAY =
  dynstr :: "DYNAMIC_STRING option"
  pos_info_arr :: "dynstr_pos_info DYNAMIC_ARRAY option"
  cur_idx :: nat

definition no_string :: DYNAMIC_STRING where
  "no_string = \<lparr>str = None, str_length = 0, max_length = 0, str_increment = 0\<rparr>"

definition zero_info :: dynstr_pos_info where "zero_info = \<lparr>elem_off = 0, elem_size = 0\<rparr>"

text \<open>\<open>sizeof(dynstr_pos_info)\<close>, \<open>sizeof(DYNAMIC_ARRAY)\<close> and \<open>sizeof(DYNAMIC_STRING)\<close>\<close>

definition POS_INFO_SIZE :: nat where "POS_INFO_SIZE = 16"

definition DYNAMIC_ARRAY_SIZE :: nat where "DYNAMIC_ARRAY_SIZE = 32"

definition DYNAMIC_STRING_SIZE :: nat where "DYNAMIC_STRING_SIZE = 32"

definition MY_WME :: uint32 where "MY_WME = 16"

text \<open>
  \<open>alloc\<close> serves the two structures and the text, \<open>palloc\<close> the array of positions.  The result
  is the state with the returned error flag.  When the second structure cannot be allocated,
  the first is left without contents.
\<close>

definition init_dynamic_string_array ::
  "(nat \<Rightarrow> char list option) \<Rightarrow> (nat \<Rightarrow> dynstr_pos_info list option) \<Rightarrow> DYNAMIC_STRING_ARRAY option \<Rightarrow>
   nat \<Rightarrow> nat \<Rightarrow> (DYNAMIC_STRING_ARRAY option \<times> bool) option" where
  "init_dynamic_string_array alloc palloc p init_alloc inc =
     (case p of
        None \<Rightarrow> Some (None, True)
      | Some A \<Rightarrow>
          if alloc DYNAMIC_ARRAY_SIZE = None then Some (Some (A\<lparr>pos_info_arr := None\<rparr>), True)
          else
            (let parr = fst (init_dynamic_array2 palloc POS_INFO_SIZE None init_alloc inc MY_WME)
             in if alloc DYNAMIC_STRING_SIZE = None
                then Some (Some (A\<lparr>pos_info_arr := Some \<lparr>buffer = None, elements = 0, max_element = 0,
                    alloc_increment = 0, size_of_element = 0, malloc_flags = 0\<rparr>, dynstr := None\<rparr>), True)
                else do {
                  (s, e) \<leftarrow> init_dynamic_string alloc no_string (Some []) 0 0;
                  Some (Some (A\<lparr>pos_info_arr := Some parr, dynstr := Some s, cur_idx := 0\<rparr>), e) }))"

definition clear_dynamic_string_array ::
  "DYNAMIC_STRING_ARRAY option \<Rightarrow> (DYNAMIC_STRING_ARRAY option \<times> bool) option" where
  "clear_dynamic_string_array p =
     (case p of
        None \<Rightarrow> Some (None, True)
      | Some A \<Rightarrow> do {
          s \<leftarrow> dynstr A;
          (s', _) \<leftarrow> dynstr_clear s;
          Some (Some (A\<lparr>pos_info_arr := fst (clear_dynamic_array (pos_info_arr A)), dynstr := Some s', cur_idx := 0\<rparr>), False) })"

text \<open>The blocks that are given to \<open>my_free\<close>; freeing a null pointer does nothing.\<close>

datatype freed = Positions | Characters | Array_struct | String_struct

definition free_dynamic_string_array ::
  "DYNAMIC_STRING_ARRAY option \<Rightarrow> (DYNAMIC_STRING_ARRAY option \<times> bool \<times> freed list) option" where
  "free_dynamic_string_array p =
     (case p of
        None \<Rightarrow> Some (None, True, [])
      | Some A \<Rightarrow> do {
          a \<leftarrow> pos_info_arr A;
          s \<leftarrow> dynstr A;
          let f1 = (if snd (delete_dynamic a) then [Positions] else []);
          let A1 = A\<lparr>pos_info_arr := None\<rparr>;
          let f2 = (if snd (dynstr_free s) then [Characters] else []);
          let A2 = A1\<lparr>dynstr := None\<rparr>;
          let f3 = (if pos_info_arr A2 \<noteq> None then [Array_struct] else []);
          let f4 = (if dynstr A2 \<noteq> None then [String_struct] else []);
          Some (Some (A2\<lparr>pos_info_arr := None, dynstr := None, cur_idx := 0\<rparr>), False, f1 @ f2 @ f3 @ f4) })"

definition append_dynamic_string_array ::
  "(nat \<Rightarrow> char list option) \<Rightarrow> (nat \<Rightarrow> dynstr_pos_info list option) \<Rightarrow> DYNAMIC_STRING_ARRAY option \<Rightarrow>
   string option \<Rightarrow> (DYNAMIC_STRING_ARRAY option \<times> bool) option" where
  "append_dynamic_string_array alloc palloc p elem =
     (case (p, elem) of
        (Some A, Some t) \<Rightarrow>
          if t = [] then Some (p, False)
          else do {
            s \<leftarrow> dynstr A;
            a \<leftarrow> pos_info_arr A;
            let pos_info = \<lparr>elem_off = str_length s, elem_size = length t\<rparr>;
            (s1, e1) \<leftarrow> dynstr_append_mem alloc s t;
            let A1 = A\<lparr>dynstr := Some s1\<rparr>;
            if e1 then Some (Some A1, True)
            else do {
              (a1, e2) \<leftarrow> insert_dynamic palloc a pos_info;
              let A2 = A1\<lparr>pos_info_arr := Some a1\<rparr>;
              Some (if e2 then (Some A2, True) else (Some (A2\<lparr>cur_idx := cur_idx A + 1\<rparr>), False)) } }
      | _ \<Rightarrow> Some (p, True))"

text \<open>The result is the error flag with the offset of \<open>*dst\<close> in the text and \<open>*dst_len\<close>.\<close>

definition get_dynamic_string_array ::
  "DYNAMIC_STRING_ARRAY option \<Rightarrow> nat \<Rightarrow> (bool \<times> nat \<times> nat) option" where
  "get_dynamic_string_array p idx =
     (case p of
        None \<Rightarrow> Some (True, 0, 0)
      | Some A \<Rightarrow> do {
          a \<leftarrow> pos_info_arr A;
          if idx \<ge> elements a then Some (True, 0, 0)
          else do {
            pos_info \<leftarrow> get_dynamic zero_info a idx;
            s \<leftarrow> dynstr A;
            Some (str s = None \<and> elem_off pos_info = 0, elem_off pos_info, elem_size pos_info) } })"

definition empty_dynamic_string_array :: "DYNAMIC_STRING_ARRAY option \<Rightarrow> bool" where
  "empty_dynamic_string_array p = (case p of None \<Rightarrow> True | Some A \<Rightarrow> cur_idx A = 0)"

section \<open>A string array is a list of texts\<close>

definition sa_ok :: "DYNAMIC_STRING_ARRAY \<Rightarrow> bool" where
  "sa_ok A \<longleftrightarrow>
     (case (dynstr A, pos_info_arr A) of
        (Some s, Some a) \<Rightarrow>
          dynstr_ok s \<and> dyn_ok a \<and> \<not> init_buffer_used a \<and> size_of_element a = POS_INFO_SIZE \<and>
          cur_idx A = elements a \<and>
          (\<forall>q\<in>set (da_list a). elem_off q + elem_size q \<le> str_length s)
      | _ \<Rightarrow> False)"

definition text_at :: "string \<Rightarrow> dynstr_pos_info \<Rightarrow> string" where
  "text_at t q = take (elem_size q) (drop (elem_off q) t)"

definition sa_list :: "DYNAMIC_STRING_ARRAY \<Rightarrow> string list" where
  "sa_list A = map (text_at (ds_text (the (dynstr A)))) (da_list (the (pos_info_arr A)))"

definition sa_fits :: "DYNAMIC_STRING_ARRAY \<Rightarrow> bool" where
  "sa_fits A \<longleftrightarrow> fits (the (pos_info_arr A)) (cur_idx A)"

lemma sa_okE:
  assumes "sa_ok A"
  obtains s a where "dynstr A = Some s" "pos_info_arr A = Some a" "dynstr_ok s" "dyn_ok a"
    "\<not> init_buffer_used a" "size_of_element a = POS_INFO_SIZE" "cur_idx A = elements a"
    "\<forall>q\<in>set (da_list a). elem_off q + elem_size q \<le> str_length s"
  using assms by (auto simp: sa_ok_def split: option.splits)

lemma ds_text_length: "dynstr_ok s \<Longrightarrow> length (ds_text s) = str_length s"
  by (simp add: ds_text_def dynstr_ok_def)

lemma dynstr_ok_block: "dynstr_ok s \<Longrightarrow> str s \<noteq> None"
  by (cases "str s") (auto simp: dynstr_ok_def)

lemma da_list_length: "dyn_ok a \<Longrightarrow> length (da_list a) = elements a"
  by (simp add: da_list_def dyn_ok_def)

lemma insert_dynamic_keeps:
  assumes "insert_dynamic palloc a x = Some (a', e)" "\<not> init_buffer_used a"
  shows "\<not> init_buffer_used a'" "size_of_element a' = size_of_element a"
  using assms
  by (auto simp: insert_dynamic_def alloc_dynamic_def Let_def init_buffer_used_def split: if_splits option.splits bind_splits)

lemma text_at_append: "elem_off q + elem_size q \<le> length t \<Longrightarrow> text_at (t @ u) q = text_at t q"
  by (simp add: text_at_def)

text \<open>The text grew: earlier entries keep their meaning, whether or not the array grew too.\<close>

lemma sa_grow:
  assumes "sa_ok A" "dynstr A = Some s" "pos_info_arr A = Some a" "dynstr_ok s'" "ds_text s' = ds_text s @ t"
  shows "sa_ok (A\<lparr>dynstr := Some s'\<rparr>)" "sa_list (A\<lparr>dynstr := Some s'\<rparr>) = sa_list A"
proof -
  have bound: "\<forall>q\<in>set (da_list a). elem_off q + elem_size q \<le> str_length s" and ok: "dynstr_ok s"
    using assms(1-3) by (simp_all add: sa_ok_def)
  have len: "str_length s' = str_length s + length t"
    using assms(4,5) ok by (metis ds_text_length length_append)
  show "sa_ok (A\<lparr>dynstr := Some s'\<rparr>)"
    using assms(1-4) bound len by (auto simp: sa_ok_def)
  show "sa_list (A\<lparr>dynstr := Some s'\<rparr>) = sa_list A"
    using assms(2,3,5) bound by (simp add: sa_list_def text_at_append ds_text_length [OF ok])
qed

lemma append_string_array_ok:
  assumes "alloc_ok 1 alloc" "alloc_ok POS_INFO_SIZE palloc" "sa_ok A" "sa_fits A"
  shows "\<exists>A' e. append_dynamic_string_array alloc palloc (Some A) (Some t) = Some (Some A', e) \<and> sa_ok A' \<and>
    sa_list A' = (if e \<or> t = [] then sa_list A else sa_list A @ [t]) \<and>
    (e \<longrightarrow> t \<noteq> [] \<and> ((\<exists>n. alloc n = None) \<or> (\<exists>n. palloc n = None)))"
proof (cases "t = []")
  case True
  then show ?thesis using assms(3) by (auto simp: append_dynamic_string_array_def)
next
  case t: False
  from assms(3) obtain s a where sa: "dynstr A = Some s" "pos_info_arr A = Some a" "dynstr_ok s" "dyn_ok a"
    "\<not> init_buffer_used a" "size_of_element a = POS_INFO_SIZE" "cur_idx A = elements a"
    "\<forall>q\<in>set (da_list a). elem_off q + elem_size q \<le> str_length s" by (rule sa_okE)
  let ?q = "\<lparr>elem_off = str_length s, elem_size = length t\<rparr>"
  obtain s1 e1 where s1: "dynstr_append_mem alloc s t = Some (s1, e1)" "dynstr_ok s1"
    "ds_text s1 = (if e1 then ds_text s else ds_text s @ t)" "e1 \<longrightarrow> s1 = s" "(\<forall>n. alloc n \<noteq> None) \<longrightarrow> \<not> e1"
    using dynstr_append_mem_ok [OF assms(1) sa(3), of t] by blast
  let ?A1 = "A\<lparr>dynstr := Some s1\<rparr>"
  have grown: "sa_ok ?A1" "sa_list ?A1 = sa_list A"
    using sa_grow [OF assms(3) sa(1,2) s1(2)] s1(3) by (metis append_Nil2)+
  show ?thesis
  proof (cases e1)
    case True
    then have "append_dynamic_string_array alloc palloc (Some A) (Some t) = Some (Some ?A1, True)"
      using t sa(1,2) s1(1) by (simp add: append_dynamic_string_array_def)
    then show ?thesis using grown True t s1(5) by auto
  next
    case False
    have fits: "fits a (elements a)" using assms(4) sa(2,7) by (simp add: sa_fits_def)
    then obtain a1 e2 where a1: "insert_dynamic palloc a ?q = Some (a1, e2)" "dyn_ok a1"
      "da_list a1 = (if e2 then da_list a else da_list a @ [?q])" "e2 \<longrightarrow> a1 = a"
      using insert_dynamic_ok [of a palloc ?q] assms(2) sa(4,6) by auto
    note keeps = insert_dynamic_keeps [OF a1(1) sa(5)]
    show ?thesis
    proof (cases e2)
      case True
      then have "append_dynamic_string_array alloc palloc (Some A) (Some t) = Some (Some ?A1, True)"
        using t sa(1,2) s1(1) a1(1,4) False by (simp add: append_dynamic_string_array_def)
      then show ?thesis using grown t True insert_dynamic_error [OF sa(4) fits a1(1)] by auto
    next
      case e2: False
      let ?A2 = "?A1\<lparr>pos_info_arr := Some a1, cur_idx := cur_idx A + 1\<rparr>"
      have "append_dynamic_string_array alloc palloc (Some A) (Some t) = Some (Some ?A2, False)"
        using t sa(1,2) s1(1) a1(1) False e2 by (simp add: append_dynamic_string_array_def)
      moreover have len: "length (ds_text s1) = length (ds_text s) + length t" "elements a1 = elements a + 1"
        using s1(3) False da_list_length [OF a1(2)] da_list_length [OF sa(4)] a1(3) e2 by simp_all
      then have "sa_ok ?A2"
        using s1(2) a1(2,3) e2 keeps sa(3,6,7,8) by (auto simp: sa_ok_def ds_text_length)
      moreover have "sa_list ?A2 = sa_list A @ [t]"
        using grown(2) a1(3) e2 s1(3) False sa(1-3) by (simp add: sa_list_def text_at_def ds_text_length)
      ultimately show ?thesis using t by auto
    qed
  qed
qed

text \<open>The text a caller sees at an index, through \<open>get_dynamic_string_array\<close>.\<close>

definition read_text :: "DYNAMIC_STRING_ARRAY \<Rightarrow> nat \<Rightarrow> string option" where
  "read_text A i =
     (case get_dynamic_string_array (Some A) i of
        Some (False, off, n) \<Rightarrow> Some (take n (drop off (ds_text (the (dynstr A)))))
      | _ \<Rightarrow> None)"

lemma read_text_list:
  assumes "sa_ok A"
  shows "read_text A i = (if i < length (sa_list A) then Some (sa_list A ! i) else None)"
proof -
  from assms obtain s a where sa: "dynstr A = Some s" "pos_info_arr A = Some a" "dynstr_ok s" "dyn_ok a"
    by (rule sa_okE)
  have "str s \<noteq> None" using sa(3) by (rule dynstr_ok_block)
  then show ?thesis
    using sa da_list_length [OF sa(4)] get_dynamic_ok [OF sa(4), of zero_info i]
    by (auto simp: read_text_def get_dynamic_string_array_def sa_list_def text_at_def)
qed

lemma sa_list_length: "sa_ok A \<Longrightarrow> length (sa_list A) = cur_idx A"
  by (auto elim!: sa_okE simp: sa_list_def da_list_length)

lemma sa_ok_clear:
  assumes "sa_ok A"
  shows "\<exists>A'. clear_dynamic_string_array (Some A) = Some (Some A', False) \<and> sa_ok A' \<and> sa_list A' = []"
proof -
  from assms obtain s a where sa: "dynstr A = Some s" "pos_info_arr A = Some a" "dynstr_ok s" "dyn_ok a"
    "\<not> init_buffer_used a" "size_of_element a = POS_INFO_SIZE" by (rule sa_okE)
  have room: "0 + length [NUL] \<le> length (block (str s))" using sa(3) by (simp add: dynstr_ok_def)
  then obtain b where b: "write_at (str s) 0 [NUL] = Some b"
    "block b = take 0 (block (str s)) @ [NUL] @ drop (0 + length [NUL]) (block (str s))"
    using write_at_block by blast
  have "length (block b) = length (block (str s))" using b(2) room by simp
  then show ?thesis
    using sa b(1)
    by (auto simp: clear_dynamic_string_array_def clear_dynamic_array_def dynstr_clear_def sa_ok_def
        sa_list_def da_list_def dynstr_ok_def dyn_ok_def init_buffer_used_def)
qed

text \<open>
  C31: Appending to a string array and reading from it, as long as the byte count of the positions fits in
  32 bits.  Whether or not memory runs out, the array stays well-formed and every earlier index still gives
  its text.  \<open>append_dynamic_string_array\<close> reports an error only for a non-empty text and only when an
  allocator refuses a block; without an error a non-empty text is found at the next index, and an empty
  text is accepted and not stored.
\<close>

theorem string_array_append_read:
  assumes "alloc_ok 1 alloc" "alloc_ok POS_INFO_SIZE palloc" "sa_ok A" "sa_fits A"
  shows "\<exists>A' e. append_dynamic_string_array alloc palloc (Some A) (Some t) = Some (Some A', e) \<and> sa_ok A' \<and>
    (e \<longrightarrow> t \<noteq> [] \<and> ((\<exists>n. alloc n = None) \<or> (\<exists>n. palloc n = None))) \<and>
    (\<forall>i. read_text A' i = (if \<not> e \<and> t \<noteq> [] \<and> i = cur_idx A then Some t else read_text A i))"
proof -
  obtain A' e where A': "append_dynamic_string_array alloc palloc (Some A) (Some t) = Some (Some A', e)"
    "sa_ok A'" "sa_list A' = (if e \<or> t = [] then sa_list A else sa_list A @ [t])"
    "e \<longrightarrow> t \<noteq> [] \<and> ((\<exists>n. alloc n = None) \<or> (\<exists>n. palloc n = None))"
    using append_string_array_ok [OF assms] by blast
  have "read_text A' i = (if \<not> e \<and> t \<noteq> [] \<and> i = cur_idx A then Some t else read_text A i)" for i
    using A'(3) sa_list_length [OF assms(3)]
    by (auto simp: read_text_list [OF A'(2)] read_text_list [OF assms(3)] nth_append)
  then show ?thesis using A'(1,2,4) by blast
qed

definition demo_string_array :: DYNAMIC_STRING_ARRAY where
  "demo_string_array =
     \<lparr>dynstr = Some \<lparr>str = Some ''abc....'', str_length = 3, max_length = 7, str_increment = 4\<rparr>,
      pos_info_arr = Some \<lparr>buffer = Some [\<lparr>elem_off = 0, elem_size = 3\<rparr>], elements = 1, max_element = 1,
        alloc_increment = 2, size_of_element = 16, malloc_flags = 0\<rparr>,
      cur_idx = 1\<rparr>"

theorem string_array_witness:
  "\<exists>A'. append_dynamic_string_array (\<lambda>n. Some (replicate n NUL)) (\<lambda>n. Some (replicate (n div 16) zero_info))
       (Some demo_string_array) (Some ''xy'') = Some (Some A', False) \<and>
     read_text A' 1 = Some ''xy'' \<and> read_text A' 0 = Some ''abc''"
proof -
  have ok: "sa_ok demo_string_array" "sa_fits demo_string_array" "cur_idx demo_string_array = 1"
    by (simp_all add: demo_string_array_def sa_ok_def sa_fits_def dynstr_ok_def dyn_ok_def da_list_def
        init_buffer_used_def POS_INFO_SIZE_def fits_def)
  have "read_text demo_string_array 0 = Some ''abc''"
    by (simp add: demo_string_array_def read_text_def get_dynamic_string_array_def get_dynamic_def ds_text_def)
  moreover have "alloc_ok 1 (\<lambda>n. Some (replicate n NUL))"
    "alloc_ok POS_INFO_SIZE (\<lambda>n. Some (replicate (n div 16) zero_info))"
    by (simp_all add: alloc_ok_def POS_INFO_SIZE_def)
  ultimately show ?thesis using string_array_append_read [OF _ _ ok(1,2), of _ _ "''xy''"] ok(3) by fastforce
qed

text \<open>
  \<open>free_dynamic_string_array\<close> sets its two pointers to null before it frees them, so that of
  the four blocks of an array only the positions and the characters are freed.
\<close>

theorem free_dynamic_string_array_leaks:
  assumes "sa_ok A"
  shows "\<exists>fs. free_dynamic_string_array (Some A) =
      Some (Some \<lparr>dynstr = None, pos_info_arr = None, cur_idx = 0\<rparr>, False, fs) \<and>
    Characters \<in> set fs \<and> Array_struct \<notin> set fs \<and> String_struct \<notin> set fs"
proof -
  from assms obtain s a where sa: "dynstr A = Some s" "pos_info_arr A = Some a" "dynstr_ok s"
    by (rule sa_okE)
  have "str s \<noteq> None" using sa(3) by (rule dynstr_ok_block)
  then show ?thesis using sa by (auto simp: free_dynamic_string_array_def dynstr_free_def)
qed

theorem free_dynamic_string_array_witness:
  "\<exists>fs. free_dynamic_string_array (Some demo_string_array) =
      Some (Some \<lparr>dynstr = None, pos_info_arr = None, cur_idx = 0\<rparr>, False, fs) \<and> String_struct \<notin> set fs"
proof -
  have "sa_ok demo_string_array"
    by (simp add: demo_string_array_def sa_ok_def dynstr_ok_def dyn_ok_def da_list_def
        init_buffer_used_def POS_INFO_SIZE_def)
  from free_dynamic_string_array_leaks [OF this] show ?thesis by blast
qed

end
