(* ===== verification/Ctype_Bin.thy ===== *)
theory Ctype_Bin
  imports Prelude
begin

text \<open>
  The binary collation (\<open>my_charset_bin\<close>, \<open>strings/ctype-bin.c\<close>): comparison and hashing of keys.
  A string with its length is a list of bytes.  \<open>CHARSET_INFO\<close> keeps the two operations of
  \<open>MY_COLLATION_HANDLER\<close> that hash tables call.
\<close>

record CHARSET_INFO =
  strnncoll :: "uchar list \<Rightarrow> uchar list \<Rightarrow> bool \<Rightarrow> int"
  hash_sort :: "uchar list \<Rightarrow> ulonglong \<Rightarrow> ulonglong \<Rightarrow> ulonglong \<times> ulonglong"

fun memcmp_list :: "uchar list \<Rightarrow> uchar list \<Rightarrow> int" where
  "memcmp_list (a # as) (b # bs) = (if a \<noteq> b then uint a - uint b else memcmp_list as bs)"
| "memcmp_list _ _ = 0"

definition my_strnncoll_binary :: "uchar list \<Rightarrow> uchar list \<Rightarrow> bool \<Rightarrow> int" where
  "my_strnncoll_binary s t t_is_prefix =
     (let len = min (length s) (length t);
          cmp = memcmp_list (take len s) (take len t)
      in if cmp \<noteq> 0 then cmp
         else s32 (int (if t_is_prefix then len else length s) - int (length t)))"

definition my_strnncollsp_binary :: "uchar list \<Rightarrow> uchar list \<Rightarrow> int" where
  "my_strnncollsp_binary s t = my_strnncoll_binary s t False"

definition MY_HASH_ADD :: "ulonglong \<Rightarrow> ulonglong \<Rightarrow> uchar \<Rightarrow> ulonglong \<times> ulonglong" where
  "MY_HASH_ADD A B v = (A XOR (((A AND 63) + B) * ucast v + push_bit 8 A), B + 3)"

fun my_hash_sort_bin :: "uchar list \<Rightarrow> ulonglong \<Rightarrow> ulonglong \<Rightarrow> ulonglong \<times> ulonglong" where
  "my_hash_sort_bin [] nr1 nr2 = (nr1, nr2)"
| "my_hash_sort_bin (c # key) nr1 nr2 = (let (a, b) = MY_HASH_ADD nr1 nr2 c in my_hash_sort_bin key a b)"

definition my_charset_bin :: CHARSET_INFO where
  "my_charset_bin = \<lparr>strnncoll = my_strnncoll_binary, hash_sort = my_hash_sort_bin\<rparr>"

section \<open>What a hash table asks of a collation\<close>

text \<open>Keys of equal length that compare equal have the same hash value.\<close>

locale collation =
  fixes cs :: CHARSET_INFO
  assumes coll_refl: "strnncoll cs s s False = 0"
    and coll_hash: "length s = length t \<Longrightarrow> strnncoll cs s t False = 0 \<Longrightarrow> hash_sort cs s a b = hash_sort cs t a b"

lemma memcmp_list_zero: "length s = length t \<Longrightarrow> memcmp_list s t = 0 \<longleftrightarrow> s = t"
  by (induction s t rule: memcmp_list.induct) (auto simp: word_uint_eq_iff)

lemma strnncoll_binary_zero: "length s = length t \<Longrightarrow> my_strnncoll_binary s t False = 0 \<longleftrightarrow> s = t"
  by (simp add: my_strnncoll_binary_def Let_def memcmp_list_zero s32_def)

interpretation binary: collation my_charset_bin
  by unfold_locales (auto simp: my_charset_bin_def strnncoll_binary_zero)

end
