(* ===== verification/My_Hash.thy ===== *)
theory My_Hash
  imports Dyn_Array Ctype_Bin
begin

text \<open>
  The hash tables of \<open>mysys/hash.c\<close> (types in \<open>include/hash.h\<close>): linear hashing in one growing
  array.  A link holds a record pointer, the hash value of its key and the index of the next
  link of the same bucket; the bucket of a hash value is given by \<open>my_hash_mask\<close>, and the first
  link of a bucket is at the bucket's own index.  The table grows by one place per insertion:
  one bucket is split in two, and the links are moved so that all places stay in use.

  Records are addresses (0 is the null pointer) in a memory of bytes \<open>m\<close>, which the operations
  only read.  The callbacks (\<open>get_key\<close>, \<open>hash_function\<close>, the collation) are functions in the state.
  Loops that follow links are partial: \<open>None\<close> is a loop that does not end or an access outside
  of the array.
\<close>

section \<open>Data\<close>

definition NO_RECORD :: uint32 where "NO_RECORD = NOT 0"

definition HASH_UNIQUE :: uint32 where "HASH_UNIQUE = 1"

record HASH_LINK =
  nxt :: uint32
  hash_nr :: uint32
  row :: nat

type_synonym memory = "nat \<Rightarrow> uchar"

record HASH =
  key_offset :: nat
  key_length :: nat
  blength :: nat
  records :: nat
  flags :: uint32
  array :: "HASH_LINK DYNAMIC_ARRAY"
  get_key :: "(memory \<Rightarrow> nat \<Rightarrow> bool \<Rightarrow> nat \<times> nat) option"
  hash_function :: "CHARSET_INFO \<Rightarrow> uchar list \<Rightarrow> uint32"
  free_element :: bool
  charset :: CHARSET_INFO

definition bytes_at :: "memory \<Rightarrow> nat \<Rightarrow> nat \<Rightarrow> uchar list" where
  "bytes_at m a n = map m [a..<a + n]"

text \<open>The links of the array (\<open>dynamic_element(&hash->array,0,HASH_LINK*)\<close>).\<close>

definition links :: "HASH \<Rightarrow> HASH_LINK list" where
  "links h = block (buffer (array h))"

definition set_links :: "HASH \<Rightarrow> HASH_LINK list \<Rightarrow> HASH" where
  "set_links h d = h\<lparr>array := (array h)\<lparr>buffer := Some d\<rparr>\<rparr>"

definition get_link :: "HASH_LINK list \<Rightarrow> nat \<Rightarrow> HASH_LINK option" where
  "get_link d i = (if i < length d then Some (d ! i) else None)"

definition put_link :: "HASH_LINK list \<Rightarrow> nat \<Rightarrow> HASH_LINK \<Rightarrow> HASH_LINK list option" where
  "put_link d i l = (if i < length d then Some (d[i := l]) else None)"

section \<open>Initialisation and release\<close>

definition my_hash_sort :: "CHARSET_INFO \<Rightarrow> uchar list \<Rightarrow> uint32" where
  "my_hash_sort cs key = ucast (fst (hash_sort cs key 1 4))"

definition HASH_LINK_SIZE :: nat where "HASH_LINK_SIZE = 16"

definition my_hash_init2 ::
  "(nat \<Rightarrow> HASH_LINK list option) \<Rightarrow> nat \<Rightarrow> CHARSET_INFO \<Rightarrow> nat \<Rightarrow> nat \<Rightarrow> nat \<Rightarrow>
   (memory \<Rightarrow> nat \<Rightarrow> bool \<Rightarrow> nat \<times> nat) option \<Rightarrow> (CHARSET_INFO \<Rightarrow> uchar list \<Rightarrow> uint32) option \<Rightarrow>
   bool \<Rightarrow> uint32 \<Rightarrow> HASH \<times> bool" where
  "my_hash_init2 alloc growth_size cs sz key_offs key_len getk hash_fn free_fn fl =
     (let (a, res) = init_dynamic_array2 alloc HASH_LINK_SIZE None (u32 sz) growth_size
                       (if fl AND 2 \<noteq> 0 then 0x10000 else 0)
      in (\<lparr>key_offset = key_offs, key_length = key_len, blength = 1, records = 0, flags = fl, array = a,
          get_key = getk, hash_function = (case hash_fn of None \<Rightarrow> my_hash_sort | Some f \<Rightarrow> f),
          free_element = free_fn, charset = cs\<rparr>, res))"

text \<open>The rows of the first \<open>records\<close> links, in order: what the loops over the table visit.\<close>

definition rows_of :: "HASH \<Rightarrow> nat list" where
  "rows_of h = map row (take (records h) (links h))"

text \<open>With the rows that are handed to \<open>hash->free\<close>.\<close>

definition my_hash_free_elements :: "HASH \<Rightarrow> HASH \<times> nat list" where
  "my_hash_free_elements h = (h\<lparr>records := 0\<rparr>, if free_element h then rows_of h else [])"

definition my_hash_delegate :: "HASH \<Rightarrow> (nat \<Rightarrow> 's \<Rightarrow> 's) \<Rightarrow> 's \<Rightarrow> 's" where
  "my_hash_delegate h func s = fold func (rows_of h) s"

definition my_hash_delegate_2args :: "HASH \<Rightarrow> (nat \<Rightarrow> 'a \<Rightarrow> 'b \<Rightarrow> 's \<Rightarrow> 's) \<Rightarrow> 'a \<Rightarrow> 'b \<Rightarrow> 's \<Rightarrow> 's" where
  "my_hash_delegate_2args h func arg1 arg2 s = fold (\<lambda>r. func r arg1 arg2) (rows_of h) s"

definition my_hash_delegate_nargs :: "HASH \<Rightarrow> (nat \<Rightarrow> HASH \<Rightarrow> 'a list \<Rightarrow> 's \<Rightarrow> 's) \<Rightarrow> 'a list \<Rightarrow> 's \<Rightarrow> 's" where
  "my_hash_delegate_nargs h func args s = fold (\<lambda>r. func r h args) (rows_of h) s"

definition my_hash_free :: "HASH \<Rightarrow> HASH \<times> nat list" where
  "my_hash_free h =
     (let (h1, fs) = my_hash_free_elements h
      in (h1\<lparr>free_element := False, array := fst (delete_dynamic (array h1)), blength := 0\<rparr>, fs))"

definition my_hash_reset :: "HASH \<Rightarrow> HASH \<times> nat list" where
  "my_hash_reset h =
     (let (h1, fs) = my_hash_free_elements h
      in (h1\<lparr>array := (array h1)\<lparr>elements := 0\<rparr>, blength := 1\<rparr>, fs))"

section \<open>Keys and buckets\<close>

definition my_hash_key :: "HASH \<Rightarrow> memory \<Rightarrow> nat \<Rightarrow> bool \<Rightarrow> nat \<times> nat" where
  "my_hash_key h m record first =
     (case get_key h of
        Some f \<Rightarrow> f m record first
      | None \<Rightarrow> (record + key_offset h, key_length h))"

definition my_hash_mask :: "uint32 \<Rightarrow> nat \<Rightarrow> nat \<Rightarrow> nat" where
  "my_hash_mask hashnr buffmax maxlength =
     (if unat hashnr AND (buffmax - 1) < maxlength then unat hashnr AND (buffmax - 1)
      else unat hashnr AND (buffmax div 2 - 1))"

definition my_hash_rec_mask :: "HASH_LINK \<Rightarrow> nat \<Rightarrow> nat \<Rightarrow> nat" where
  "my_hash_rec_mask pos buffmax maxlength = my_hash_mask (hash_nr pos) buffmax maxlength"

definition rec_hashnr :: "HASH \<Rightarrow> memory \<Rightarrow> nat \<Rightarrow> uint32" where
  "rec_hashnr h m record =
     (let (key, len) = my_hash_key h m record False in hash_function h (charset h) (bytes_at m key len))"

text \<open>\<open>True\<close> stands for a result other than 0.\<close>

definition hashcmp :: "HASH \<Rightarrow> memory \<Rightarrow> HASH_LINK \<Rightarrow> nat \<Rightarrow> nat \<Rightarrow> bool" where
  "hashcmp h m pos key len =
     (let (rec_key, rec_keylength) = my_hash_key h m (row pos) True
      in len \<noteq> 0 \<and> len \<noteq> rec_keylength \<or>
         strnncoll (charset h) (bytes_at m rec_key rec_keylength) (bytes_at m key rec_keylength) False \<noteq> 0)"

section \<open>Searching\<close>

text \<open>The result is the row (0 when there is none) and the search state.\<close>

partial_function (option) first_loop ::
  "HASH \<Rightarrow> memory \<Rightarrow> nat \<Rightarrow> nat \<Rightarrow> bool \<Rightarrow> nat \<Rightarrow> (nat \<times> uint32) option" where
  "first_loop h m key len flag idx =
     (case get_link (links h) idx of
        None \<Rightarrow> None
      | Some pos \<Rightarrow>
          if \<not> hashcmp h m pos key len then Some (row pos, word_of_nat idx)
          else if flag \<and> my_hash_rec_mask pos (blength h) (records h) \<noteq> idx then Some (0, NO_RECORD)
          else if nxt pos = NO_RECORD then Some (0, NO_RECORD)
          else first_loop h m key len False (unat (nxt pos)))"

declare first_loop.simps [code]

definition my_hash_first_from_hash_value ::
  "HASH \<Rightarrow> memory \<Rightarrow> uint32 \<Rightarrow> nat \<Rightarrow> nat \<Rightarrow> (nat \<times> uint32) option" where
  "my_hash_first_from_hash_value h m hash_value key len =
     (if records h \<noteq> 0
      then first_loop h m key len True (my_hash_mask hash_value (blength h) (records h))
      else Some (0, NO_RECORD))"

definition my_hash_first :: "HASH \<Rightarrow> memory \<Rightarrow> nat \<Rightarrow> nat \<Rightarrow> (nat \<times> uint32) option" where
  "my_hash_first h m key len =
     my_hash_first_from_hash_value h m
       (hash_function h (charset h) (bytes_at m key (if len \<noteq> 0 then len else key_length h))) key len"

definition my_hash_search :: "HASH \<Rightarrow> memory \<Rightarrow> nat \<Rightarrow> nat \<Rightarrow> nat option" where
  "my_hash_search h m key len = map_option fst (my_hash_first h m key len)"

definition my_hash_search_using_hash_value :: "HASH \<Rightarrow> memory \<Rightarrow> uint32 \<Rightarrow> nat \<Rightarrow> nat \<Rightarrow> nat option" where
  "my_hash_search_using_hash_value h m hash_value key len =
     map_option fst (my_hash_first_from_hash_value h m hash_value key len)"

partial_function (option) next_loop :: "HASH \<Rightarrow> memory \<Rightarrow> nat \<Rightarrow> nat \<Rightarrow> uint32 \<Rightarrow> (nat \<times> uint32) option" where
  "next_loop h m key len idx =
     (if idx = NO_RECORD then Some (0, NO_RECORD)
      else case get_link (links h) (unat idx) of
        None \<Rightarrow> None
      | Some pos \<Rightarrow>
          if \<not> hashcmp h m pos key len then Some (row pos, idx) else next_loop h m key len (nxt pos))"

declare next_loop.simps [code]

definition my_hash_next :: "HASH \<Rightarrow> memory \<Rightarrow> nat \<Rightarrow> nat \<Rightarrow> uint32 \<Rightarrow> (nat \<times> uint32) option" where
  "my_hash_next h m key len current_record =
     (if current_record \<noteq> NO_RECORD then do {
        pos \<leftarrow> get_link (links h) (unat current_record);
        next_loop h m key len (nxt pos) }
      else Some (0, current_record))"

partial_function (option) movelink :: "HASH_LINK list \<Rightarrow> uint32 \<Rightarrow> nat \<Rightarrow> uint32 \<Rightarrow> HASH_LINK list option" where
  "movelink d target next_link newlink =
     (case get_link d next_link of
        None \<Rightarrow> None
      | Some old_link \<Rightarrow>
          if nxt old_link = target then Some (d[next_link := old_link\<lparr>nxt := newlink\<rparr>])
          else movelink d target (unat (nxt old_link)) newlink)"

declare movelink.simps [code]

section \<open>Inserting\<close>

text \<open>
  The local variables of the split loop of \<open>my_hash_insert\<close>: the bits of \<open>flag\<close>, the free place
  \<open>empty\<close>, and for the keys that stay (\<open>gpos\<close>, \<open>rec_data\<close>, \<open>rec_hash_nr\<close>) and the keys that move
  (\<open>gpos2\<close>, \<open>rec2_data\<close>, \<open>rec2_hash_nr\<close>) the place and contents of the last one seen.
\<close>

record SPLIT =
  lowfind :: bool
  lowused :: bool
  highfind :: bool
  highused :: bool
  empty_pos :: nat
  gpos :: nat
  rec_data :: nat
  rec_hash_nr :: uint32
  gpos2 :: nat
  rec2_data :: nat
  rec2_hash_nr :: uint32
  dlinks :: "HASH_LINK list"

definition key_will_not_move :: "SPLIT \<Rightarrow> nat \<Rightarrow> HASH_LINK \<Rightarrow> SPLIT option" where
  "key_will_not_move st idx pos =
     (if \<not> lowfind st then
        (if highfind st
         then Some (st\<lparr>lowfind := True, lowused := False, highfind := True, highused := False,
                gpos := empty_pos st, rec_data := row pos, rec_hash_nr := hash_nr pos, empty_pos := idx\<rparr>)
         else Some (st\<lparr>lowfind := True, lowused := True, highfind := False, highused := False,
                gpos := idx, rec_data := row pos, rec_hash_nr := hash_nr pos\<rparr>))
      else do {
        st1 \<leftarrow> (if \<not> lowused st then do {
                   d \<leftarrow> put_link (dlinks st) (gpos st)
                         \<lparr>nxt = word_of_nat idx, hash_nr = rec_hash_nr st, row = rec_data st\<rparr>;
                   Some (st\<lparr>dlinks := d, lowfind := True, lowused := True, highused := False\<rparr>) }
                else Some st);
        Some (st1\<lparr>gpos := idx, rec_data := row pos, rec_hash_nr := hash_nr pos\<rparr>) })"

definition key_will_be_moved :: "SPLIT \<Rightarrow> nat \<Rightarrow> HASH_LINK \<Rightarrow> SPLIT option" where
  "key_will_be_moved st idx pos =
     (if \<not> highfind st then
        Some (st\<lparr>lowused := False, highfind := True, highused := False,
            gpos2 := empty_pos st, empty_pos := idx, rec2_data := row pos, rec2_hash_nr := hash_nr pos\<rparr>)
      else do {
        st1 \<leftarrow> (if \<not> highused st then do {
                   d \<leftarrow> put_link (dlinks st) (gpos2 st)
                         \<lparr>nxt = word_of_nat idx, hash_nr = rec2_hash_nr st, row = rec2_data st\<rparr>;
                   Some (st\<lparr>dlinks := d, lowused := False, highfind := True, highused := True\<rparr>) }
                else Some st);
        Some (st1\<lparr>gpos2 := idx, rec2_data := row pos, rec2_hash_nr := hash_nr pos\<rparr>) })"

definition split_step :: "nat \<Rightarrow> SPLIT \<Rightarrow> nat \<Rightarrow> HASH_LINK \<Rightarrow> SPLIT option" where
  "split_step halfbuff st idx pos =
     (if unat (hash_nr pos) AND halfbuff = 0 then key_will_not_move st idx pos else key_will_be_moved st idx pos)"

definition no_flag :: "SPLIT \<Rightarrow> bool" where
  "no_flag st \<longleftrightarrow> \<not> lowfind st \<and> \<not> lowused st \<and> \<not> highfind st \<and> \<not> highused st"

partial_function (option) split_loop :: "nat \<Rightarrow> nat \<Rightarrow> nat \<Rightarrow> SPLIT \<Rightarrow> nat \<Rightarrow> SPLIT option" where
  "split_loop blen recs first_index st idx =
     (case get_link (dlinks st) idx of
        None \<Rightarrow> None
      | Some pos \<Rightarrow>
          if no_flag st \<and> my_hash_mask (hash_nr pos) blen recs \<noteq> first_index then Some st
          else (case split_step (blen div 2) st idx pos of
              None \<Rightarrow> None
            | Some st1 \<Rightarrow>
                if nxt (dlinks st1 ! idx) = NO_RECORD then Some st1
                else split_loop blen recs first_index st1 (unat (nxt (dlinks st1 ! idx)))))"

declare split_loop.simps [code]

definition split_finish :: "SPLIT \<Rightarrow> SPLIT option" where
  "split_finish st = do {
     d \<leftarrow> (if lowfind st \<and> \<not> lowused st
           then put_link (dlinks st) (gpos st) \<lparr>nxt = NO_RECORD, hash_nr = rec_hash_nr st, row = rec_data st\<rparr>
           else Some (dlinks st));
     d \<leftarrow> (if highfind st \<and> \<not> highused st
           then put_link d (gpos2 st) \<lparr>nxt = NO_RECORD, hash_nr = rec2_hash_nr st, row = rec2_data st\<rparr>
           else Some d);
     Some (st\<lparr>dlinks := d\<rparr>) }"

text \<open>The links after the split, with the place that is free.\<close>

definition split_bucket :: "nat \<Rightarrow> nat \<Rightarrow> HASH_LINK list \<Rightarrow> nat \<Rightarrow> (HASH_LINK list \<times> nat) option" where
  "split_bucket blen recs d emp =
     (let first_index = recs - blen div 2
      in if first_index \<noteq> recs then do {
           st \<leftarrow> split_loop blen recs first_index
                  \<lparr>lowfind = False, lowused = False, highfind = False, highused = False, empty_pos = emp,
                   gpos = 0, rec_data = 0, rec_hash_nr = 0, gpos2 = 0, rec2_data = 0, rec2_hash_nr = 0,
                   dlinks = d\<rparr> first_index;
           st \<leftarrow> split_finish st;
           Some (dlinks st, empty_pos st) }
         else Some (d, emp))"

text \<open>The new record takes the first place of its bucket; the link that was there moves to \<open>empty\<close>.\<close>

definition place_record :: "nat \<Rightarrow> nat \<Rightarrow> HASH_LINK list \<Rightarrow> nat \<Rightarrow> uint32 \<Rightarrow> nat \<Rightarrow> HASH_LINK list option" where
  "place_record blen recs d emp current_hash_nr record =
     (let idx = my_hash_mask current_hash_nr blen (recs + 1)
      in if idx = emp then put_link d idx \<lparr>nxt = NO_RECORD, hash_nr = current_hash_nr, row = record\<rparr>
         else do {
           pos \<leftarrow> get_link d idx;
           d \<leftarrow> put_link d emp pos;
           let home = my_hash_rec_mask pos blen (recs + 1);
           if idx = home
           then put_link d idx \<lparr>nxt = word_of_nat emp, hash_nr = current_hash_nr, row = record\<rparr>
           else do {
             d \<leftarrow> put_link d idx (pos\<lparr>nxt := NO_RECORD\<rparr>);
             d \<leftarrow> movelink d (word_of_nat idx) home (word_of_nat emp);
             pos \<leftarrow> get_link d idx;
             put_link d idx (pos\<lparr>hash_nr := current_hash_nr, row := record\<rparr>) } })"

text \<open>The counters: \<open>if (++info->records == info->blength) info->blength+= info->blength;\<close>\<close>

definition count_record :: "HASH \<Rightarrow> HASH" where
  "count_record h =
     (let h1 = h\<lparr>records := records h + 1\<rparr>
      in if records h1 = blength h1 then h1\<lparr>blength := blength h1 + blength h1\<rparr> else h1)"

text \<open>The part of \<open>my_hash_insert\<close> after the test for a duplicate key.\<close>

definition insert_record ::
  "(nat \<Rightarrow> HASH_LINK list option) \<Rightarrow> HASH \<Rightarrow> uint32 \<Rightarrow> nat \<Rightarrow> (HASH \<times> bool) option" where
  "insert_record alloc h current_hash_nr record = do {
     (a, slot) \<leftarrow> alloc_dynamic alloc (array h);
     case slot of
       None \<Rightarrow> Some (h\<lparr>array := a\<rparr>, True)
     | Some emp \<Rightarrow> do {
         (d, emp) \<leftarrow> split_bucket (blength h) (records h) (block (buffer a)) emp;
         d \<leftarrow> place_record (blength h) (records h) d emp current_hash_nr record;
         Some (count_record (set_links (h\<lparr>array := a\<rparr>) d), False) } }"

definition my_hash_insert ::
  "(nat \<Rightarrow> HASH_LINK list option) \<Rightarrow> HASH \<Rightarrow> memory \<Rightarrow> nat \<Rightarrow> (HASH \<times> bool) option" where
  "my_hash_insert alloc h m record =
     (let (key, len) = my_hash_key h m record True;
          current_hash_nr = hash_function h (charset h) (bytes_at m key len)
      in do {
        dup \<leftarrow> (if flags h AND HASH_UNIQUE \<noteq> 0
                then my_hash_search_using_hash_value h m current_hash_nr key len else Some 0);
        if dup \<noteq> 0 then Some (h, True) else insert_record alloc h current_hash_nr record })"

section \<open>Deleting\<close>

text \<open>The place of the record and that of its predecessor in the bucket; \<open>Some None\<close>: not found.\<close>

partial_function (option) find_record ::
  "HASH_LINK list \<Rightarrow> nat \<Rightarrow> nat \<Rightarrow> nat option \<Rightarrow> (nat \<times> nat option) option option" where
  "find_record d record pos previous =
     (case get_link d pos of
        None \<Rightarrow> None
      | Some l \<Rightarrow>
          if row l = record then Some (Some (pos, previous))
          else if nxt l = NO_RECORD then Some None
          else find_record d record (unat (nxt l)) (Some pos))"

declare find_record.simps [code]

text \<open>Take the link at \<open>pos\<close> out of its bucket; the result tells which place became free.\<close>

definition unlink_record :: "HASH_LINK list \<Rightarrow> nat \<Rightarrow> nat option \<Rightarrow> (HASH_LINK list \<times> nat) option" where
  "unlink_record d pos previous = do {
     l \<leftarrow> get_link d pos;
     case previous of
       Some g \<Rightarrow> do {
         p \<leftarrow> get_link d g;
         d \<leftarrow> put_link d g (p\<lparr>nxt := nxt l\<rparr>);
         Some (d, pos) }
     | None \<Rightarrow>
         if nxt l \<noteq> NO_RECORD then do {
           e \<leftarrow> get_link d (unat (nxt l));
           d \<leftarrow> put_link d pos e;
           Some (d, unat (nxt l)) }
         else Some (d, pos) }"

text \<open>Move the last link (at \<open>recs\<close>, the number of records left) to the free place.\<close>

definition move_last :: "nat \<Rightarrow> nat \<Rightarrow> nat \<Rightarrow> HASH_LINK list \<Rightarrow> nat \<Rightarrow> HASH_LINK list option" where
  "move_last old_blen blen recs d emp =
     (if emp = recs then Some d
      else do {
        lastpos \<leftarrow> get_link d recs;
        let pos = my_hash_mask (hash_nr lastpos) blen recs;
        if pos = emp then put_link d emp lastpos
        else do {
          p \<leftarrow> get_link d pos;
          let pos3 = my_hash_mask (hash_nr p) blen recs;
          if pos \<noteq> pos3 then do {
            d \<leftarrow> put_link d emp p;
            d \<leftarrow> put_link d pos lastpos;
            movelink d (word_of_nat pos) pos3 (word_of_nat emp) }
          else do {
            let pos2 = my_hash_mask (hash_nr lastpos) old_blen (recs + 1);
            if pos2 = my_hash_mask (hash_nr p) old_blen (recs + 1) \<and> pos2 \<noteq> recs then do {
              d \<leftarrow> put_link d emp lastpos;
              movelink d (word_of_nat recs) pos (word_of_nat emp) }
            else do {
              let idx = (if pos2 = my_hash_mask (hash_nr p) old_blen (recs + 1) then word_of_nat pos else NO_RECORD);
              d \<leftarrow> put_link d emp lastpos;
              p \<leftarrow> get_link d pos;
              d \<leftarrow> movelink d idx emp (nxt p);
              p \<leftarrow> get_link d pos;
              put_link d pos (p\<lparr>nxt := word_of_nat emp\<rparr>) } } } })"

text \<open>The list is what \<open>hash->free\<close> is called with.\<close>

definition my_hash_delete :: "HASH \<Rightarrow> memory \<Rightarrow> nat \<Rightarrow> (HASH \<times> bool \<times> nat list) option" where
  "my_hash_delete h m record =
     (if records h = 0 then Some (h, True, [])
      else do {
        found \<leftarrow> find_record (links h) record (my_hash_mask (rec_hashnr h m record) (blength h) (records h)) None;
        case found of
          None \<Rightarrow> Some (h, True, [])
        | Some (pos, previous) \<Rightarrow> do {
            let recs = records h - 1;
            let blen = (if recs < blength h div 2 then blength h div 2 else blength h);
            (d, emp) \<leftarrow> unlink_record (links h) pos previous;
            d \<leftarrow> move_last (blength h) blen recs d emp;
            let h1 = (set_links h d)\<lparr>records := recs, blength := blen\<rparr>;
            Some (h1\<lparr>array := fst (pop_dynamic (array h1))\<rparr>, False, if free_element h then [record] else []) } })"

section \<open>Updating\<close>

text \<open>The loop over the rows with the new key; \<open>True\<close> when another row has it.\<close>

partial_function (option) duplicate_loop ::
  "HASH \<Rightarrow> memory \<Rightarrow> nat \<Rightarrow> nat \<Rightarrow> nat \<Rightarrow> nat \<times> uint32 \<Rightarrow> bool option" where
  "duplicate_loop h m key len record found =
     (if fst found = 0 then Some False
      else if fst found \<noteq> record then Some True
      else (case my_hash_next h m key len (snd found) of
          None \<Rightarrow> None
        | Some found1 \<Rightarrow> duplicate_loop h m key len record found1))"

declare duplicate_loop.simps [code]

text \<open>Put the link \<open>l\<close> in the bucket \<open>new_index\<close>, using the free place.\<close>

definition relink :: "nat \<Rightarrow> nat \<Rightarrow> HASH_LINK list \<Rightarrow> nat \<Rightarrow> nat \<Rightarrow> HASH_LINK \<Rightarrow> HASH_LINK list option" where
  "relink blen recs d emp new_index l =
     (if new_index = emp then put_link d emp (l\<lparr>nxt := NO_RECORD\<rparr>)
      else do {
        pos \<leftarrow> get_link d new_index;
        let new_pos_index = my_hash_rec_mask pos blen recs;
        if new_index \<noteq> new_pos_index then do {
          d \<leftarrow> put_link d emp pos;
          d \<leftarrow> movelink d (word_of_nat new_index) new_pos_index (word_of_nat emp);
          put_link d new_index (l\<lparr>nxt := NO_RECORD\<rparr>) }
        else do {
          d \<leftarrow> put_link d emp (l\<lparr>nxt := nxt pos\<rparr>);
          pos \<leftarrow> get_link d new_index;
          put_link d new_index (pos\<lparr>nxt := word_of_nat emp\<rparr>) } })"

text \<open>The test that \<open>my_hash_update\<close> makes for \<open>HASH_UNIQUE\<close>, and its last part, for a record found at \<open>idx\<close>.\<close>

definition duplicate_key :: "HASH \<Rightarrow> memory \<Rightarrow> uint32 \<Rightarrow> nat \<Rightarrow> nat \<Rightarrow> nat \<Rightarrow> bool option" where
  "duplicate_key h m hash_value key len record = do {
     found \<leftarrow> my_hash_first_from_hash_value h m hash_value key len;
     duplicate_loop h m key len record found }"

definition rehash_record ::
  "HASH \<Rightarrow> nat \<Rightarrow> nat option \<Rightarrow> nat \<Rightarrow> nat \<Rightarrow> uint32 \<Rightarrow> (HASH \<times> bool) option" where
  "rehash_record h idx previous org_index new_index hash_value = do {
     pos \<leftarrow> get_link (links h) idx;
     if org_index = new_index then do {
       d \<leftarrow> put_link (links h) idx (pos\<lparr>hash_nr := hash_value\<rparr>);
       Some (set_links h d, False) }
     else do {
       (d, emp) \<leftarrow> unlink_record (links h) idx previous;
       d \<leftarrow> relink (blength h) (records h) d emp new_index (pos\<lparr>hash_nr := hash_value\<rparr>);
       Some (set_links h d, False) } }"

definition my_hash_update :: "HASH \<Rightarrow> memory \<Rightarrow> nat \<Rightarrow> nat \<Rightarrow> nat \<Rightarrow> (HASH \<times> bool) option" where
  "my_hash_update h m record old_key old_key_length =
     (let (new_key, len) = my_hash_key h m record True;
          hash_value = hash_function h (charset h) (bytes_at m new_key len)
      in do {
        dup \<leftarrow> (if HASH_UNIQUE AND flags h \<noteq> 0 then duplicate_key h m hash_value new_key len record
                else Some False);
        if dup then Some (h, True)
        else do {
          let org_index = my_hash_mask (hash_function h (charset h)
                (bytes_at m old_key (if old_key_length \<noteq> 0 then old_key_length else key_length h)))
                (blength h) (records h);
          let new_index = my_hash_mask hash_value (blength h) (records h);
          found \<leftarrow> find_record (links h) record org_index None;
          case found of
            None \<Rightarrow> Some (h, True)
          | Some (idx, previous) \<Rightarrow> rehash_record h idx previous org_index new_index hash_value } })"

definition my_hash_element :: "HASH \<Rightarrow> nat \<Rightarrow> nat option" where
  "my_hash_element h idx =
     (if idx < records h then map_option row (get_link (links h) idx) else Some 0)"

definition my_hash_replace :: "HASH \<Rightarrow> uint32 \<Rightarrow> nat \<Rightarrow> HASH option" where
  "my_hash_replace h current_record new_row =
     (if current_record \<noteq> NO_RECORD then do {
        l \<leftarrow> get_link (links h) (unat current_record);
        d \<leftarrow> put_link (links h) (unat current_record) (l\<lparr>row := new_row\<rparr>);
        Some (set_links h d) }
      else Some h)"

fun iterate_rows :: "(nat \<Rightarrow> 's \<Rightarrow> 's \<times> bool) \<Rightarrow> nat list \<Rightarrow> 's \<Rightarrow> 's \<times> bool" where
  "iterate_rows action [] s = (s, False)"
| "iterate_rows action (r # rs) s =
     (let (s1, stop) = action r s in if stop then (s1, True) else iterate_rows action rs s1)"

definition my_hash_iterate :: "HASH \<Rightarrow> (nat \<Rightarrow> 's \<Rightarrow> 's \<times> bool) \<Rightarrow> 's \<Rightarrow> 's \<times> bool" where
  "my_hash_iterate h action s = iterate_rows action (rows_of h) s"

section \<open>The consistency check of debug builds\<close>

text \<open>The walk along one bucket; the counters \<open>seek\<close> and \<open>max_links\<close> only serve the debug output.\<close>

partial_function (option) check_links ::
  "nat \<Rightarrow> nat \<Rightarrow> HASH_LINK list \<Rightarrow> nat \<Rightarrow> uint32 \<Rightarrow> nat \<Rightarrow> bool \<Rightarrow> (nat \<times> bool) option" where
  "check_links blen recs d i idx found err =
     (if idx = NO_RECORD \<or> \<not> found < recs + 1 then Some (found, err)
      else (case get_link d (unat idx) of
          None \<Rightarrow> None
        | Some l \<Rightarrow>
            if my_hash_rec_mask l blen recs \<noteq> i
            then check_links blen recs d i (nxt l) found True
            else check_links blen recs d i (nxt l) (found + 1) (err \<or> recs \<le> unat idx)))"

declare check_links.simps [code]

fun check_rows :: "HASH \<Rightarrow> memory \<Rightarrow> nat list \<Rightarrow> nat \<times> bool \<Rightarrow> (nat \<times> bool) option" where
  "check_rows h m [] st = Some st"
| "check_rows h m (i # is) (found, err) = do {
     l \<leftarrow> get_link (links h) i;
     let err1 = (err \<or> hash_nr l \<noteq> rec_hashnr h m (row l));
     st \<leftarrow> (if my_hash_rec_mask l (blength h) (records h) = i
           then check_links (blength h) (records h) (links h) i (nxt l) (found + 1) err1
           else Some (found, err1));
     check_rows h m is st }"

definition my_hash_check :: "HASH \<Rightarrow> memory \<Rightarrow> bool option" where
  "my_hash_check h m = do {
     (found, err) \<leftarrow> check_rows h m [0..<records h] (0, False);
     Some (err \<or> found \<noteq> records h) }"

end
