(* ===== verification/Hash_Chain.thy ===== *)
theory Hash_Chain
  imports My_Hash
begin

text \<open>
  Buckets as linked lists in the array of a hash table: list segments, the layout of an array in
  which every bucket starts at its own index, and what the elementary changes of
  \<open>mysys/hash.c\<close> (unlink, relocate, add) do to a layout and to the stored records.
\<close>

section \<open>Indices and list segments\<close>

definition idx_ok :: "nat \<Rightarrow> bool" where "idx_ok i \<longleftrightarrow> i < 2 ^ 32 - 1"

lemma unat_idx: "idx_ok i \<Longrightarrow> unat (word_of_nat i :: uint32) = i"
  by (simp add: idx_ok_def unat_of_nat)

lemma idx_not_no_record: "idx_ok i \<Longrightarrow> (word_of_nat i :: uint32) \<noteq> NO_RECORD"
proof
  assume i: "idx_ok i" and "(word_of_nat i :: uint32) = NO_RECORD"
  then have "unat (word_of_nat i :: uint32) = unat (NO_RECORD)" by simp
  then show False using i unat_idx [OF i] by (simp add: NO_RECORD_def idx_ok_def unsigned_minus_1_eq_mask mask_eq_exp_minus_1)
qed

lemma idx_eq: "idx_ok i \<Longrightarrow> idx_ok j \<Longrightarrow> (word_of_nat i :: uint32) = word_of_nat j \<longleftrightarrow> i = j"
  by (metis unat_idx)

lemmas idx_simps = unat_idx idx_not_no_record idx_not_no_record [symmetric] idx_eq

fun lseg :: "HASH_LINK list \<Rightarrow> uint32 \<Rightarrow> nat list \<Rightarrow> uint32 \<Rightarrow> bool" where
  "lseg d w [] w' \<longleftrightarrow> w = w'"
| "lseg d w (x # xs) w' \<longleftrightarrow> w = word_of_nat x \<and> lseg d (nxt (d ! x)) xs w'"

lemma lseg_append: "lseg d w (xs @ ys) w' \<longleftrightarrow> (\<exists>u. lseg d w xs u \<and> lseg d u ys w')"
  by (induction xs arbitrary: w) auto

lemma lseg_cong: "(\<And>x. x \<in> set xs \<Longrightarrow> nxt (d' ! x) = nxt (d ! x)) \<Longrightarrow> lseg d' w xs w' \<longleftrightarrow> lseg d w xs w'"
  by (induction xs arbitrary: w) auto

lemma lseg_update [simp]: "x \<notin> set xs \<Longrightarrow> lseg (d[x := l]) w xs w' \<longleftrightarrow> lseg d w xs w'"
  by (rule lseg_cong) (metis nth_list_update_neq)

lemma lseg_snoc: "lseg d w (xs @ [x]) w' \<longleftrightarrow> lseg d w xs (word_of_nat x) \<and> nxt (d ! x) = w'"
  by (auto simp: lseg_append)

text \<open>\<open>movelink\<close> changes the link in front of the target.\<close>

lemma movelink_lseg:
  assumes "lseg d (word_of_nat x) (xs @ [g]) target" "start = x"
    "\<forall>y\<in>set (xs @ [g]). y < length d \<and> idx_ok y" "idx_ok x" "\<forall>y\<in>set (tl (xs @ [g])). word_of_nat y \<noteq> target"
  shows "movelink d target start new = Some (d[g := (d ! g)\<lparr>nxt := new\<rparr>])"
  using assms
proof (induction xs arbitrary: x start)
  case Nil
  then have "x = g" by (simp add: idx_simps)
  then show ?case using Nil by (subst movelink.simps) (simp add: get_link_def)
next
  case (Cons y xs)
  then have y: "x = y" "y < length d" by (auto simp: idx_simps)
  obtain z where z: "hd (xs @ [g]) = z" by simp
  have "nxt (d ! y) = word_of_nat z"
    using Cons.prems(1) z by (cases xs) auto
  moreover have "idx_ok z" "word_of_nat z \<noteq> target"
    using Cons.prems(3,5) z by (cases xs; auto)+
  moreover have "set (tl (xs @ [g])) \<subseteq> set (xs @ [g])" by (cases xs) auto
  then have "movelink d target z new = Some (d[g := (d ! g)\<lparr>nxt := new\<rparr>])"
    using Cons.prems z calculation by (intro Cons.IH [of z z]) (auto simp del: set_append)
  ultimately show ?case
    using y Cons.prems(2) by (subst movelink.simps) (simp add: get_link_def idx_simps)
qed

section \<open>Layouts\<close>

text \<open>
  \<open>b\<close> gives the bucket of a hash value; \<open>L\<close> is the set of the places in use.
\<close>

abbreviation bucket :: "(uint32 \<Rightarrow> nat) \<Rightarrow> HASH_LINK list \<Rightarrow> nat \<Rightarrow> nat" where
  "bucket b d i \<equiv> b (hash_nr (d ! i))"

definition chain :: "(uint32 \<Rightarrow> nat) \<Rightarrow> HASH_LINK list \<Rightarrow> nat set \<Rightarrow> nat \<Rightarrow> nat list \<Rightarrow> bool" where
  "chain b d L h xs \<longleftrightarrow>
     lseg d (word_of_nat h) xs NO_RECORD \<and> distinct xs \<and> set xs = {i \<in> L. bucket b d i = h}"

definition places :: "HASH_LINK list \<Rightarrow> nat set \<Rightarrow> bool" where
  "places d L \<longleftrightarrow> finite L \<and> (\<forall>i\<in>L. i < length d \<and> idx_ok i)"

definition layout :: "(uint32 \<Rightarrow> nat) \<Rightarrow> HASH_LINK list \<Rightarrow> nat set \<Rightarrow> bool" where
  "layout b d L \<longleftrightarrow>
     places d L \<and> (\<forall>i\<in>L. idx_ok (bucket b d i) \<and> (\<exists>xs. chain b d L (bucket b d i) xs))"

text \<open>What is stored: the pairs of hash value and row.\<close>

definition entry :: "HASH_LINK list \<Rightarrow> nat \<Rightarrow> uint32 \<times> nat" where
  "entry d i = (hash_nr (d ! i), row (d ! i))"

definition stored :: "HASH_LINK list \<Rightarrow> nat set \<Rightarrow> (uint32 \<times> nat) multiset" where
  "stored d L = image_mset (entry d) (mset_set L)"

lemma placesD: "places d L \<Longrightarrow> i \<in> L \<Longrightarrow> i < length d \<and> idx_ok i"
  by (simp add: places_def)

lemma places_sub: "places d L \<Longrightarrow> L' \<subseteq> L \<Longrightarrow> length d' = length d \<Longrightarrow> places d' L'"
  by (auto simp: places_def intro: finite_subset)

lemma places_insert: "places d L \<Longrightarrow> i < length d \<Longrightarrow> idx_ok i \<Longrightarrow> places d (insert i L)"
  by (simp add: places_def)

lemma layout_places: "layout b d L \<Longrightarrow> places d L"
  by (simp add: layout_def)

text \<open>A bucket in use starts at its own index.\<close>

lemma layout_chain:
  assumes "layout b d L" "i \<in> L" "bucket b d i = h"
  obtains ys where "chain b d L h (h # ys)" "h \<in> L" "bucket b d h = h"
proof -
  obtain xs where xs: "chain b d L h xs" and h: "idx_ok h"
    using assms by (auto simp: layout_def)
  then have "xs \<noteq> []" using assms(2,3) by (auto simp: chain_def)
  then obtain x ys where x: "xs = x # ys" by (cases xs) auto
  have "x \<in> L" using xs x by (auto simp: chain_def)
  then have "idx_ok x" using assms(1) by (auto simp: layout_def places_def)
  then have "x = h" using xs x h by (simp add: chain_def idx_simps)
  then show ?thesis using that xs x by (auto simp: chain_def)
qed

lemma layout_head:
  assumes "layout b d L" "i \<in> L"
  shows "bucket b d i \<in> L" "bucket b d (bucket b d i) = bucket b d i"
  by (rule layout_chain [OF assms refl]; simp)+

text \<open>A bucket whose own place is not in it is empty.\<close>

lemma bucket_empty:
  assumes "layout b d L" "h \<notin> L \<or> bucket b d h \<noteq> h" "i \<in> L"
  shows "bucket b d i \<noteq> h"
  using layout_head [OF assms(1,3)] assms(2) by auto

text \<open>To show a layout after a change it is enough to look at the buckets \<open>H\<close> that it touches.\<close>

lemma layout_change:
  assumes "layout b d L" "places d' L'"
    and other: "\<And>h. h \<notin> H \<Longrightarrow> {i \<in> L'. bucket b' d' i = h} = {i \<in> L. bucket b d i = h}"
    and same: "\<And>i. i \<in> L \<Longrightarrow> bucket b d i \<notin> H \<Longrightarrow> nxt (d' ! i) = nxt (d ! i)"
    and changed: "\<And>h i. h \<in> H \<Longrightarrow> i \<in> L' \<Longrightarrow> bucket b' d' i = h \<Longrightarrow> idx_ok h \<and> (\<exists>xs. chain b' d' L' h xs)"
  shows "layout b' d' L'"
  unfolding layout_def
proof (intro conjI ballI)
  show "places d' L'" by fact
  fix i assume i: "i \<in> L'"
  let ?h = "bucket b' d' i"
  have "idx_ok ?h \<and> (\<exists>xs. chain b' d' L' ?h xs)"
  proof (cases "?h \<in> H")
    case True
    then show ?thesis using changed i by blast
  next
    case False
    then have eq: "{i \<in> L'. bucket b' d' i = ?h} = {i \<in> L. bucket b d i = ?h}" by (rule other)
    then have "i \<in> L" "bucket b d i = ?h" using i by auto
    then obtain xs where xs: "chain b d L ?h xs" and h: "idx_ok ?h"
      using assms(1) by (force simp: layout_def)
    have "nxt (d' ! x) = nxt (d ! x)" if "x \<in> set xs" for x
      using xs False that same [of x] by (auto simp: chain_def)
    then have "lseg d' (word_of_nat ?h) xs NO_RECORD"
      using xs lseg_cong [of xs d' d] by (simp add: chain_def)
    then show ?thesis using xs h eq by (auto simp: chain_def)
  qed
  then show "idx_ok ?h" "\<exists>xs. chain b' d' L' ?h xs" by auto
qed

section \<open>Stored records\<close>

lemma stored_insert: "finite L \<Longrightarrow> i \<notin> L \<Longrightarrow> stored d (insert i L) = add_mset (entry d i) (stored d L)"
  by (simp add: stored_def)

lemma stored_remove: "finite L \<Longrightarrow> i \<in> L \<Longrightarrow> stored d L = add_mset (entry d i) (stored d (L - {i}))"
  using stored_insert [of "L - {i}" i d] by (simp add: insert_absorb)

lemma stored_cong: "(\<And>i. i \<in> L \<Longrightarrow> entry d' i = entry d i) \<Longrightarrow> stored d' L = stored d L"
  unfolding stored_def by (cases "finite L") (auto intro!: image_mset_cong)

lemma entry_update: "i < length d \<Longrightarrow> entry (d[i := l]) j = (if j = i then (hash_nr l, row l) else entry d j)"
  by (simp add: entry_def)

lemma bucket_entry: "bucket b d i = b (fst (entry d i))"
  by (simp add: entry_def)

lemma nth_upd: "d[j := l] ! i = (if i = j \<and> j < length d then l else d ! i)"
  by (cases "j < length d") (auto simp: list_update_beyond)

lemma upd_nxt [simp]:
  "hash_nr (d[g := (d ! g)\<lparr>nxt := w\<rparr>] ! i) = hash_nr (d ! i)"
  "entry (d[g := (d ! g)\<lparr>nxt := w\<rparr>]) i = entry d i"
  by (auto simp: nth_upd entry_def)

lemma chain_in: "chain b d L h xs \<Longrightarrow> x \<in> set xs \<Longrightarrow> x \<in> L \<and> bucket b d x = h"
  by (auto simp: chain_def)

lemma chain_idx_ok:
  assumes "layout b d L" "chain b d L h (x # xs)"
  shows "idx_ok h" "h = x"
proof -
  have x: "x \<in> L" "bucket b d x = h" using chain_in [OF assms(2), of x] by auto
  then show h: "idx_ok h" using assms(1) by (auto simp: layout_def)
  have "idx_ok x" using assms(1) x by (auto simp: layout_def places_def)
  with h assms(2) show "h = x" by (simp add: chain_def idx_simps)
qed

section \<open>Elementary changes\<close>

subsection \<open>Taking a link out\<close>

lemma layout_unlink:
  assumes "layout b d L" "chain b d L h (xs @ g # p # ys)"
  defines "d' \<equiv> d[g := (d ! g)\<lparr>nxt := nxt (d ! p)\<rparr>]"
  shows "layout b d' (L - {p})" "stored d L = add_mset (entry d p) (stored d' (L - {p}))"
proof -
  have in_L: "g \<in> L" "p \<in> L" "bucket b d g = h" "bucket b d p = h" "idx_ok h"
    using assms(1,2) by (auto simp: chain_def layout_def)
  have g: "g < length d" and fin: "finite L"
    using layout_places [OF assms(1)] in_L(1) by (auto simp: places_def)
  show "stored d L = add_mset (entry d p) (stored d' (L - {p}))"
    using stored_remove [OF fin in_L(2), of d] stored_cong [of "L - {p}" d' d] by (simp add: d'_def)
  show "layout b d' (L - {p})"
  proof (rule layout_change [OF assms(1), where H = "{h}"])
    show "places d' (L - {p})"
      by (rule places_sub [OF layout_places [OF assms(1)]]) (auto simp: d'_def)
    fix k i assume "k \<in> {h}"
    have "lseg d' (word_of_nat h) (xs @ g # ys) NO_RECORD"
      using assms(2) g by (auto simp: d'_def chain_def lseg_append)
    moreover have "set (xs @ g # ys) = {i \<in> L - {p}. bucket b d' i = h}"
      using assms(2) by (auto simp: d'_def chain_def)
    ultimately show "idx_ok k \<and> (\<exists>xs. chain b d' (L - {p}) k xs)"
      using \<open>k \<in> {h}\<close> in_L(5) assms(2) by (auto simp: chain_def)
  qed (use in_L in \<open>auto simp: d'_def nth_upd\<close>)
qed

text \<open>The first link of a bucket is overwritten with the second.\<close>

lemma layout_unlink_head:
  assumes "layout b d L" "chain b d L h (h # q # ys)"
  shows "layout b (d[h := d ! q]) (L - {q})"
    "stored d L = add_mset (entry d h) (stored (d[h := d ! q]) (L - {q}))"
proof -
  let ?d = "d[h := d ! q]"
  have in_L: "h \<in> L" "q \<in> L" "bucket b d h = h" "bucket b d q = h" "idx_ok h" "h \<noteq> q"
    using assms by (auto simp: chain_def layout_def)
  have h: "h < length d" and fin: "finite L"
    using layout_places [OF assms(1)] in_L(1) by (auto simp: places_def)
  have "stored d L = add_mset (entry d h) (add_mset (entry d q) (stored d (L - {h} - {q})))"
    using stored_remove [OF fin in_L(1)] stored_remove [of "L - {h}" q d] fin in_L by simp
  moreover have "stored ?d (L - {q}) = add_mset (entry d q) (stored d (L - {h} - {q}))"
  proof -
    have "stored ?d (L - {q}) = add_mset (entry ?d h) (stored ?d (L - {q} - {h}))"
      by (rule stored_remove) (use fin in_L in auto)
    moreover have "stored ?d (L - {q} - {h}) = stored d (L - {q} - {h})"
      by (rule stored_cong) (simp add: entry_update [OF h])
    ultimately show ?thesis using h by (simp add: entry_def Diff_insert [symmetric] insert_commute)
  qed
  ultimately show "stored d L = add_mset (entry d h) (stored ?d (L - {q}))" by simp
  show "layout b ?d (L - {q})"
  proof (rule layout_change [OF assms(1), where H = "{h}"])
    show "places ?d (L - {q})" by (rule places_sub [OF layout_places [OF assms(1)]]) auto
    fix k i assume "k \<in> {h}"
    have "lseg ?d (word_of_nat h) (h # ys) NO_RECORD" using assms(2) h by (simp add: chain_def)
    moreover have "set (h # ys) = {i \<in> L - {q}. bucket b ?d i = h}"
    proof -
      have buc: "bucket b ?d i = bucket b d i" for i using in_L(3,4) by (simp add: nth_upd)
      have "set (h # q # ys) = {i \<in> L. bucket b d i = h}" "q \<notin> set (h # ys)"
        using assms(2) by (simp_all add: chain_def)
      then show ?thesis unfolding buc by auto
    qed
    moreover have "distinct (h # ys)" using assms(2) by (simp add: chain_def)
    ultimately have "chain b ?d (L - {q}) h (h # ys)" by (simp only: chain_def simp_thms)
    then show "idx_ok k \<and> (\<exists>xs. chain b ?d (L - {q}) k xs)" using \<open>k \<in> {h}\<close> in_L(5) by blast
  qed (use in_L h in \<open>auto simp: nth_upd\<close>)
qed

lemma layout_unlink_only:
  assumes "layout b d L" "chain b d L h [h]"
  shows "layout b d (L - {h})" "stored d L = add_mset (entry d h) (stored d (L - {h}))"
proof -
  have in_L: "h \<in> L" "bucket b d h = h" using assms(2) by (auto simp: chain_def)
  show "stored d L = add_mset (entry d h) (stored d (L - {h}))"
    using layout_places [OF assms(1)] in_L by (intro stored_remove) (auto simp: places_def)
  show "layout b d (L - {h})"
  proof (rule layout_change [OF assms(1), where H = "{h}"])
    show "places d (L - {h})" by (rule places_sub [OF layout_places [OF assms(1)]]) auto
  qed (use assms(2) in_L in \<open>auto simp: chain_def\<close>)
qed

subsection \<open>Moving a link to a free place\<close>

lemma layout_relocate:
  assumes "layout b d L" "chain b d L h (xs @ g # p # ys)" "e \<notin> L" "e < length d" "idx_ok e"
  defines "d' \<equiv> d[e := d ! p, g := (d ! g)\<lparr>nxt := word_of_nat e\<rparr>]"
  shows "layout b d' (insert e (L - {p}))" "stored d' (insert e (L - {p})) = stored d L"
proof -
  have in_L: "g \<in> L" "p \<in> L" "bucket b d g = h" "bucket b d p = h" "idx_ok h" "g \<noteq> p"
    using assms(1,2) by (auto simp: chain_def layout_def)
  have ne: "e \<noteq> g" "e \<noteq> p" using in_L assms(3) by auto
  have g: "g < length d" and fin: "finite L"
    using layout_places [OF assms(1)] in_L(1) by (auto simp: places_def)
  have ent: "entry d' i = (if i = e then entry d p else entry d i)" for i
    using assms(4) g ne by (simp add: d'_def entry_def nth_upd)
  have buc: "bucket b d' i = (if i = e then h else bucket b d i)" for i
    using ent [of i] in_L by (auto simp: bucket_entry)
  have "stored d' (insert e (L - {p})) = add_mset (entry d p) (stored d' (L - {p}))"
    using stored_insert [of "L - {p}" e d'] fin assms(3) ent by simp
  also have "stored d' (L - {p}) = stored d (L - {p})"
    by (rule stored_cong) (use ent assms(3) in auto)
  finally show "stored d' (insert e (L - {p})) = stored d L"
    using stored_remove [OF fin in_L(2), of d] by simp
  show "layout b d' (insert e (L - {p}))"
  proof (rule layout_change [OF assms(1), where H = "{h}"])
    show "places d' (insert e (L - {p}))"
      using layout_places [OF assms(1)] assms(4,5) by (auto simp: places_def d'_def)
    show "nxt (d' ! i) = nxt (d ! i)" if "i \<in> L" "bucket b d i \<notin> {h}" for i
      using that assms(3) in_L by (auto simp: d'_def nth_upd)
    show "{i \<in> insert e (L - {p}). bucket b d' i = k} = {i \<in> L. bucket b d i = k}" if "k \<notin> {h}" for k
      using that in_L assms(3) by (auto simp: buc)
    fix k i assume "k \<in> {h}"
    have disj: "e \<notin> set (xs @ g # p # ys)" "g \<notin> set (xs @ p # ys)" "p \<notin> set (xs @ ys)"
      using assms(2,3) by (auto simp: chain_def)
    have seg: "lseg d (word_of_nat h) xs (word_of_nat g)" "nxt (d ! g) = word_of_nat p"
      "lseg d (nxt (d ! p)) ys NO_RECORD"
      using assms(2) by (auto simp: chain_def lseg_append)
    have "lseg d' (word_of_nat h) (xs @ g # e # ys) NO_RECORD"
      using seg disj g assms(4) ne by (auto simp: d'_def lseg_append)
    moreover have "set (xs @ g # e # ys) = {i \<in> insert e (L - {p}). bucket b d' i = h}"
    proof -
      have "set (xs @ g # p # ys) = {i \<in> L. bucket b d i = h}" using assms(2) by (simp add: chain_def)
      then show ?thesis using disj assms(3) by (auto simp: buc)
    qed
    ultimately show "idx_ok k \<and> (\<exists>xs. chain b d' (insert e (L - {p})) k xs)"
      using \<open>k \<in> {h}\<close> in_L(5) assms(2) disj by (intro conjI exI [of _ "xs @ g # e # ys"]) (auto simp: chain_def)
  qed
qed

text \<open>Every link that is not the first of its bucket has a predecessor, which \<open>movelink\<close> finds.\<close>

lemma chain_pred:
  assumes "layout b d L" "p \<in> L" "bucket b d p = h" "h \<noteq> p"
  obtains us g ys where "chain b d L h (us @ g # p # ys)"
proof -
  obtain zs where zs: "chain b d L h (h # zs)" using layout_chain [OF assms(1-3)] by blast
  then have "p \<in> set (h # zs)" using assms(2,3) unfolding chain_def by blast
  then have "p \<in> set zs" using assms(4) by simp
  then obtain as bs where "zs = as @ p # bs" by (meson split_list)
  moreover obtain us g where "h # as = us @ [g]" by (metis list.distinct(1) rev_exhaust)
  ultimately have "h # zs = us @ g # p # bs" by (metis append.assoc append_Cons append_Nil)
  then show ?thesis using that zs by metis
qed

lemma movelink_chain:
  assumes "layout b d L" "chain b d L h (us @ g # p # ys)" "length d1 = length d"
    "\<And>x. x \<in> set (us @ [g]) \<Longrightarrow> nxt (d1 ! x) = nxt (d ! x)"
  shows "movelink d1 (word_of_nat p) h w = Some (d1[g := (d1 ! g)\<lparr>nxt := w\<rparr>])"
proof (rule movelink_lseg [OF _ refl])
  have "lseg d (word_of_nat h) (us @ [g]) (word_of_nat p)"
    using assms(2) by (auto simp: chain_def lseg_append)
  then show "lseg d1 (word_of_nat h) (us @ [g]) (word_of_nat p)"
    using lseg_cong [of "us @ [g]" d1 d] assms(4) by blast
  have pl: "\<forall>y\<in>set (us @ g # p # ys). y < length d \<and> idx_ok y"
    using layout_places [OF assms(1)] chain_in [OF assms(2)] by (auto simp: places_def)
  then show "\<forall>y\<in>set (us @ [g]). y < length d1 \<and> idx_ok y" using assms(3) by simp
  show "idx_ok h" using assms(1) chain_in [OF assms(2), of g] by (auto simp: layout_def)
  have "p \<notin> set (us @ [g])" using assms(2) by (auto simp: chain_def)
  moreover have "set (tl (us @ [g])) \<subseteq> set (us @ [g])" by (cases us) auto
  ultimately show "\<forall>y\<in>set (tl (us @ [g])). (word_of_nat y :: uint32) \<noteq> word_of_nat p"
    using pl by (auto simp: idx_simps subset_iff)
qed

subsection \<open>Adding a link\<close>

text \<open>At the bucket's own place, when it is free.\<close>

lemma layout_add_own:
  assumes "layout b d L" "e \<notin> L" "e < length d" "idx_ok e" "b (hash_nr l) = e" "nxt l = NO_RECORD"
  shows "layout b (d[e := l]) (insert e L)"
    "stored (d[e := l]) (insert e L) = add_mset (hash_nr l, row l) (stored d L)"
proof -
  let ?d = "d[e := l]"
  have fin: "finite L" using layout_places [OF assms(1)] by (simp add: places_def)
  have empty: "bucket b d i \<noteq> e" if "i \<in> L" for i
    using bucket_empty [OF assms(1) _ that] assms(2) by blast
  have "stored ?d L = stored d L" by (rule stored_cong) (use assms(2,3) in \<open>auto simp: entry_update\<close>)
  then show "stored ?d (insert e L) = add_mset (hash_nr l, row l) (stored d L)"
    using stored_insert [OF fin assms(2), of ?d] assms(3) by (simp add: entry_update)
  show "layout b ?d (insert e L)"
  proof (rule layout_change [OF assms(1), where H = "{e}"])
    show "places ?d (insert e L)" using layout_places [OF assms(1)] assms(3,4) by (simp add: places_def)
    show "{i \<in> insert e L. bucket b ?d i = k} = {i \<in> L. bucket b d i = k}" if "k \<notin> {e}" for k
      using that assms(2,3,5) by (auto simp: nth_upd)
    show "nxt (?d ! i) = nxt (d ! i)" if "i \<in> L" for i using that assms(2) by (auto simp: nth_upd)
    fix k i assume "k \<in> {e}"
    moreover have "chain b ?d (insert e L) e [e]"
      unfolding chain_def using assms(2,3,5,6) empty by (auto simp: nth_upd)
    ultimately show "idx_ok k \<and> (\<exists>xs. chain b ?d (insert e L) k xs)" using assms(4) by blast
  qed
qed

text \<open>As the first of a bucket in use: the former first link moves to the free place.\<close>

lemma layout_add_head:
  assumes "layout b d L" "h \<in> L" "bucket b d h = h" "e \<notin> L" "e < length d" "idx_ok e"
    "b (hash_nr l) = h" "nxt l = word_of_nat e"
  shows "layout b (d[e := d ! h, h := l]) (insert e L)"
    "stored (d[e := d ! h, h := l]) (insert e L) = add_mset (hash_nr l, row l) (stored d L)"
proof -
  let ?d = "d[e := d ! h, h := l]"
  obtain ys where ys: "chain b d L h (h # ys)" using layout_chain [OF assms(1-3)] by blast
  have fin: "finite L" and h: "h < length d" "idx_ok h" "e \<noteq> h"
    using layout_places [OF assms(1)] assms(2,4) by (auto simp: places_def)
  have ent: "entry ?d i = (if i = e then entry d h else if i = h then (hash_nr l, row l) else entry d i)" for i
    using h assms(5) by (simp add: entry_def nth_upd)
  have buc: "bucket b ?d i = (if i = e then h else bucket b d i)" for i
    using ent [of i] assms(3,7) by (auto simp: bucket_entry)
  have "stored ?d (insert e L) = add_mset (entry d h) (add_mset (hash_nr l, row l) (stored ?d (L - {h})))"
    using stored_insert [OF fin assms(4), of ?d] stored_remove [OF fin assms(2), of ?d] ent h(3) by simp
  also have "stored ?d (L - {h}) = stored d (L - {h})"
    by (rule stored_cong) (use ent assms(4) in auto)
  finally show "stored ?d (insert e L) = add_mset (hash_nr l, row l) (stored d L)"
    using stored_remove [OF fin assms(2), of d] by simp
  show "layout b ?d (insert e L)"
  proof (rule layout_change [OF assms(1), where H = "{h}"])
    show "places ?d (insert e L)" using layout_places [OF assms(1)] assms(5,6) by (simp add: places_def)
    show "{i \<in> insert e L. bucket b ?d i = k} = {i \<in> L. bucket b d i = k}" if "k \<notin> {h}" for k
      using that assms(4) by (auto simp: buc)
    show "nxt (?d ! i) = nxt (d ! i)" if "i \<in> L" "bucket b d i \<notin> {h}" for i
      using that assms(3,4) by (auto simp: nth_upd)
    fix k i assume "k \<in> {h}"
    have disj: "e \<notin> set (h # ys)" "h \<notin> set ys" "distinct ys" and seg: "lseg d (nxt (d ! h)) ys NO_RECORD"
      using ys assms(4) by (auto simp: chain_def)
    have "lseg ?d (word_of_nat h) (h # e # ys) NO_RECORD"
      using seg disj h assms(5,8) by simp
    moreover have "set (h # e # ys) = {i \<in> insert e L. bucket b ?d i = h}"
    proof -
      have "set (h # ys) = {i \<in> L. bucket b d i = h}" using ys by (simp add: chain_def)
      then show ?thesis using assms(4) by (auto simp: buc)
    qed
    moreover have "distinct (h # e # ys)" using disj by auto
    ultimately have "chain b ?d (insert e L) h (h # e # ys)" by (simp only: chain_def simp_thms)
    then show "idx_ok k \<and> (\<exists>xs. chain b ?d (insert e L) k xs)" using \<open>k \<in> {h}\<close> h(2) by blast
  qed
qed

text \<open>As the second of a bucket in use.\<close>

lemma layout_add_second:
  assumes "layout b d L" "h \<in> L" "bucket b d h = h" "e \<notin> L" "e < length d" "idx_ok e"
    "b (hash_nr l) = h" "nxt l = nxt (d ! h)"
  defines "d' \<equiv> d[e := l, h := (d ! h)\<lparr>nxt := word_of_nat e\<rparr>]"
  shows "layout b d' (insert e L)" "stored d' (insert e L) = add_mset (hash_nr l, row l) (stored d L)"
proof -
  obtain ys where ys: "chain b d L h (h # ys)" using layout_chain [OF assms(1-3)] by blast
  have fin: "finite L" and h: "h < length d" "idx_ok h" "e \<noteq> h"
    using layout_places [OF assms(1)] assms(2,4) by (auto simp: places_def)
  have ent: "entry d' i = (if i = e then (hash_nr l, row l) else entry d i)" for i
    using h assms(5) by (simp add: d'_def entry_def nth_upd)
  have buc: "bucket b d' i = (if i = e then h else bucket b d i)" for i
    using ent [of i] assms(7) by (auto simp: bucket_entry)
  have "stored d' L = stored d L" by (rule stored_cong) (use ent assms(4) in auto)
  then show "stored d' (insert e L) = add_mset (hash_nr l, row l) (stored d L)"
    using stored_insert [OF fin assms(4), of d'] ent by simp
  show "layout b d' (insert e L)"
  proof (rule layout_change [OF assms(1), where H = "{h}"])
    show "places d' (insert e L)"
      using layout_places [OF assms(1)] assms(5,6) by (simp add: places_def d'_def)
    show "{i \<in> insert e L. bucket b d' i = k} = {i \<in> L. bucket b d i = k}" if "k \<notin> {h}" for k
      using that assms(4) by (auto simp: buc)
    show "nxt (d' ! i) = nxt (d ! i)" if "i \<in> L" "bucket b d i \<notin> {h}" for i
      using that assms(3,4) by (auto simp: d'_def nth_upd)
    fix k i assume "k \<in> {h}"
    have disj: "e \<notin> set (h # ys)" "h \<notin> set ys" "distinct ys" and seg: "lseg d (nxt (d ! h)) ys NO_RECORD"
      using ys assms(4) by (auto simp: chain_def)
    have "lseg d' (word_of_nat h) (h # e # ys) NO_RECORD"
      using seg disj h assms(5,8) by (simp add: d'_def)
    moreover have "set (h # e # ys) = {i \<in> insert e L. bucket b d' i = h}"
    proof -
      have "set (h # ys) = {i \<in> L. bucket b d i = h}" using ys by (simp add: chain_def)
      then show ?thesis using assms(4) by (auto simp: buc)
    qed
    moreover have "distinct (h # e # ys)" using disj by auto
    ultimately have "chain b d' (insert e L) h (h # e # ys)" by (simp only: chain_def simp_thms)
    then show "idx_ok k \<and> (\<exists>xs. chain b d' (insert e L) k xs)" using \<open>k \<in> {h}\<close> h(2) by blast
  qed
qed

end
