(* ===== verification/Hash_Split.thy ===== *)
theory Hash_Split
  imports Hash_Chain
begin

text \<open>
  Linear hashing: how \<open>my_hash_mask\<close> changes when the table grows or shrinks by one place, and the
  split of a bucket in \<open>my_hash_insert\<close>, which moves the links so that both halves start at
  their own index and exactly one place becomes free.
\<close>

section \<open>The bucket function\<close>

lemma and_pow2_minus1: "(n :: nat) AND (2 ^ k - 1) = n mod 2 ^ k"
  by (metis mask_eq_exp_minus_1 take_bit_eq_mask take_bit_eq_mod)

text \<open>A table of \<open>n\<close> places with \<open>B\<close> the next power of 2.\<close>

definition table_size :: "nat \<Rightarrow> nat \<Rightarrow> bool" where
  "table_size B n \<longleftrightarrow> (\<exists>k. B = 2 ^ k) \<and> B div 2 \<le> n \<and> n \<le> B"

lemma mask_pow2:
  "my_hash_mask h (2 ^ Suc k) n = (if unat h mod 2 ^ Suc k < n then unat h mod 2 ^ Suc k else unat h mod 2 ^ k)"
proof -
  have "(2 ^ Suc k :: nat) div 2 = 2 ^ k" by simp
  then show ?thesis by (simp only: my_hash_mask_def and_pow2_minus1)
qed

lemma mask_1: "0 < n \<Longrightarrow> my_hash_mask h 1 n = 0"
  by (simp add: my_hash_mask_def)

lemma mask_less:
  assumes "table_size B n" "0 < n"
  shows "my_hash_mask h B n < n"
proof -
  obtain k where k: "B = 2 ^ k" using assms(1) by (auto simp: table_size_def)
  show ?thesis
  proof (cases k)
    case 0
    then show ?thesis using k assms(2) by (simp add: my_hash_mask_def)
  next
    case (Suc j)
    have "unat h mod 2 ^ j < (2 ^ j :: nat)" by simp
    moreover have "2 ^ j \<le> n" using assms(1) k Suc by (simp add: table_size_def)
    ultimately have "unat h mod 2 ^ j < n" by (rule less_le_trans)
    then show ?thesis unfolding k Suc mask_pow2 by simp
  qed
qed

text \<open>Full tables: twice the size is the same function.\<close>

lemma mask_double: "my_hash_mask h (2 ^ Suc k) (2 ^ k) = my_hash_mask h (2 ^ k) (2 ^ k)"
proof -
  have "unat h mod 2 ^ k < (2 ^ k :: nat)" by simp
  moreover have "unat h mod 2 ^ Suc k mod 2 ^ k = unat h mod 2 ^ k"
    by (rule mod_mod_cancel) simp
  then have "unat h mod 2 ^ Suc k = unat h mod 2 ^ k" if "unat h mod 2 ^ Suc k < 2 ^ k"
    using that by (metis mod_less)
  ultimately show ?thesis
    unfolding mask_pow2 by (simp add: my_hash_mask_def and_pow2_minus1 del: One_nat_def)
qed

text \<open>The new place \<open>n\<close> takes the hash values of bucket \<open>n - B / 2\<close> that have the upper bit set.\<close>

lemma mask_grow:
  assumes "table_size B (Suc n)" "B div 2 \<le> n" "2 \<le> B"
  shows "my_hash_mask h B (Suc n) =
    (if my_hash_mask h B n = n - B div 2 \<and> unat h AND (B div 2) \<noteq> 0 then n else my_hash_mask h B n)"
proof -
  obtain k where "B = 2 ^ k" using assms(1) by (auto simp: table_size_def)
  then obtain j where B: "B = 2 ^ Suc j" using assms(3) by (cases k) auto
  let ?H = "2 ^ j :: nat" let ?a = "unat h mod 2 ^ Suc j" let ?low = "unat h mod ?H"
  have half: "B div 2 = ?H" by (simp add: B)
  have n: "?H \<le> n" "n < 2 * ?H" using assms(1,2) by (simp_all add: table_size_def B)
  have a: "?a = ?low + (if bit (unat h) j then ?H else 0)"
  proof -
    have "?a = take_bit (Suc j) (unat h)" by (simp add: take_bit_eq_mod)
    also have "\<dots> = take_bit j (unat h) + (if bit (unat h) j then ?H else 0)"
      using take_bit_Suc_from_most [of j "unat h"] by (auto simp: ac_simps)
    finally show ?thesis by (simp add: take_bit_eq_mod)
  qed
  have bit: "unat h AND ?H \<noteq> 0 \<longleftrightarrow> bit (unat h) j" by (simp add: and_exp_eq_0_iff_not_bit)
  have low: "?low < ?H" by simp
  have mask: "my_hash_mask h B m = (if ?a < m then ?a else ?low)" for m unfolding B mask_pow2 ..
  show ?thesis unfolding mask half bit using a n low by (auto split: if_splits)
qed

lemma mask_shrink:
  assumes "table_size B (Suc n)" "B div 2 \<le> n" "0 < n"
  shows "my_hash_mask h B n = (if my_hash_mask h B (Suc n) = n then n - B div 2 else my_hash_mask h B (Suc n))"
proof -
  have "2 \<le> B" using assms by (auto simp: table_size_def)
  moreover have "table_size B n" using assms(1,2) by (simp add: table_size_def)
  ultimately show ?thesis
    using mask_grow [OF assms(1,2)] mask_less [of B n h] assms(3) by (auto split: if_splits)
qed

section \<open>The two halves of a bucket\<close>

text \<open>
  The links seen so far that go to one half: they will be at the places \<open>slots\<close>, in this order,
  with the contents \<open>cs\<close>.  The last of them is at \<open>g\<close> with contents \<open>c\<close>; it is written later
  unless \<open>used\<close> tells that the array holds it already, with the link \<open>w\<close>.
\<close>

definition half ::
  "HASH_LINK list \<Rightarrow> nat \<Rightarrow> nat list \<Rightarrow> (uint32 \<times> nat) list \<Rightarrow> bool \<Rightarrow> bool \<Rightarrow> nat \<Rightarrow> uint32 \<times> nat \<Rightarrow> uint32 \<Rightarrow> bool" where
  "half d start slots cs found used g c w \<longleftrightarrow>
     distinct slots \<and> (used \<longrightarrow> found) \<and>
     (if found then
        (\<exists>ss. slots = ss @ [g] \<and> cs = map (entry d) ss @ [c] \<and> lseg d (word_of_nat start) ss (word_of_nat g) \<and>
           (used \<longrightarrow> nxt (d ! g) = w \<and> entry d g = c))
      else slots = [] \<and> cs = [])"

lemma half_none: "half d start [] [] False False g c w"
  by (simp add: half_def)

lemma half_begin: "c = c' \<Longrightarrow> (used \<Longrightarrow> nxt (d ! start) = w \<and> entry d start = c) \<Longrightarrow>
    half d start [start] [c] True used start c' w"
  by (simp add: half_def)

lemma half_extend_used:
  assumes "half d start slots cs True True g c (word_of_nat p)" "p \<notin> set slots" "e = entry d p" "w = nxt (d ! p)"
  shows "half d start (slots @ [p]) (cs @ [e]) True True p e w"
  using assms by (auto simp: half_def lseg_append)

lemma half_extend_write:
  assumes "half d start slots cs True False g c w0" "p \<notin> set slots" "g < length d"
    "d' = d[g := \<lparr>nxt = word_of_nat p, hash_nr = fst c, row = snd c\<rparr>]" "e = entry d p" "w = nxt (d ! p)"
  shows "half d' start (slots @ [p]) (cs @ [e]) True True p e w"
proof -
  from assms(1) obtain ss where ss: "slots = ss @ [g]" "cs = map (entry d) ss @ [c]"
    "lseg d (word_of_nat start) ss (word_of_nat g)" "distinct slots" by (auto simp: half_def)
  have ne: "g \<notin> set ss" "p \<noteq> g" using ss(1,4) assms(2) by auto
  have "map (entry d') ss = map (entry d) ss" using ne(1) assms(3,4) by (auto simp: entry_update)
  moreover have "entry d' g = c" "entry d' p = e" "nxt (d' ! p) = w" "nxt (d' ! g) = word_of_nat p"
    using assms(3-6) ne(2) by (auto simp: entry_update entry_def)
  moreover have "lseg d' (word_of_nat start) ss (word_of_nat g)" using ss(3) ne(1) assms(4) by simp
  ultimately show ?thesis using ss assms(2) by (auto simp: half_def lseg_append)
qed

lemma half_cong:
  assumes "half d start slots cs found used g c w" "\<And>x. x \<in> set slots \<Longrightarrow> d' ! x = d ! x"
  shows "half d' start slots cs found used g c w"
proof (cases found)
  case True
  then obtain ss where ss: "slots = ss @ [g]" "cs = map (entry d) ss @ [c]"
    "lseg d (word_of_nat start) ss (word_of_nat g)" "distinct slots" using assms(1) by (auto simp: half_def)
  moreover have "lseg d' (word_of_nat start) ss (word_of_nat g) \<longleftrightarrow> lseg d (word_of_nat start) ss (word_of_nat g)"
    by (rule lseg_cong) (use assms(2) ss(1) in auto)
  moreover have "map (entry d') ss = map (entry d) ss" "entry d' g = entry d g" "d' ! g = d ! g"
    using assms(2) ss(1) by (auto simp: entry_def)
  ultimately show ?thesis using True assms(1) by (auto simp: half_def)
qed (use assms(1) in \<open>simp add: half_def\<close>)

lemma half_keep:
  assumes "half d start slots cs found used g c w" "\<And>x. x \<in> set slots \<Longrightarrow> d' ! x = d ! x"
  shows "half d' start slots cs found False g c w'"
  using half_cong [OF assms] by (auto simp: half_def)

text \<open>At the end the pending link is written, and the half is a list.\<close>

lemma half_used_end:
  assumes "half d start slots cs True True g c NO_RECORD"
  shows "lseg d (word_of_nat start) slots NO_RECORD" "map (entry d) slots = cs"
  using assms by (auto simp: half_def lseg_append)

lemma half_write_end:
  assumes "half d start slots cs True False g c w" "g < length d"
    "d' = d[g := \<lparr>nxt = NO_RECORD, hash_nr = fst c, row = snd c\<rparr>]"
  shows "lseg d' (word_of_nat start) slots NO_RECORD" "map (entry d') slots = cs"
proof -
  from assms(1) obtain ss where ss: "slots = ss @ [g]" "cs = map (entry d) ss @ [c]"
    "lseg d (word_of_nat start) ss (word_of_nat g)" "distinct slots" by (auto simp: half_def)
  have g: "g \<notin> set ss" using ss(1,4) by simp
  then show "lseg d' (word_of_nat start) slots NO_RECORD" using ss assms(2,3) by (auto simp: lseg_append)
  have "map (entry d') ss = map (entry d) ss" using g assms(2,3) by (auto simp: entry_update)
  then show "map (entry d') slots = cs" using ss(1,2) assms(2,3) by (simp add: entry_def)
qed

section \<open>The split loop\<close>

text \<open>
  After the links \<open>ps\<close> of bucket \<open>fi\<close> have been seen (in the array \<open>d0\<close> at the start): the places
  \<open>lo\<close> and \<open>hi\<close> of the two halves and the free place are the places of \<open>ps\<close> and the new place \<open>n\<close>.
\<close>

definition split_inv ::
  "HASH_LINK list \<Rightarrow> nat \<Rightarrow> nat \<Rightarrow> (nat \<Rightarrow> bool) \<Rightarrow> nat list \<Rightarrow> SPLIT \<Rightarrow> uint32 \<Rightarrow> nat list \<Rightarrow> nat list \<Rightarrow> bool" where
  "split_inv d0 n fi low ps st w lo hi \<longleftrightarrow>
     length (dlinks st) = length d0 \<and> (\<forall>x. x \<notin> insert n (set ps) \<longrightarrow> dlinks st ! x = d0 ! x) \<and>
     half (dlinks st) fi lo (map (entry d0) (filter low ps)) (lowfind st) (lowused st) (gpos st)
       (rec_hash_nr st, rec_data st) w \<and>
     half (dlinks st) n hi (map (entry d0) (filter (\<lambda>x. \<not> low x) ps)) (highfind st) (highused st) (gpos2 st)
       (rec2_hash_nr st, rec2_data st) w \<and>
     \<not> (lowused st \<and> highused st) \<and>
     distinct (empty_pos st # lo @ hi) \<and> set (empty_pos st # lo @ hi) = insert n (set ps) \<and>
     (\<not> highfind st \<longrightarrow> empty_pos st = n) \<and> (highfind st \<and> \<not> lowfind st \<longrightarrow> empty_pos st = fi)"

lemma half_found: "half d start slots cs found used g c w \<Longrightarrow> (found \<longleftrightarrow> cs \<noteq> []) \<and> (found \<longrightarrow> g \<in> set slots)"
  by (auto simp: half_def split: if_splits)

lemma half_not_found: "half d start slots cs False used g c w \<longleftrightarrow> slots = [] \<and> cs = [] \<and> \<not> used"
  by (auto simp: half_def)

lemma split_step_low:
  assumes inv: "split_inv d0 n fi low ps st (word_of_nat p) lo hi" and p: "p \<notin> insert n (set ps)"
    and first: "ps = [] \<Longrightarrow> p = fi" and low: "low p" and len: "\<forall>x\<in>insert n (set ps). x < length d0"
  shows "\<exists>st' lo'. key_will_not_move st p (d0 ! p) = Some st' \<and> lowfind st' \<and> nxt (dlinks st' ! p) = nxt (d0 ! p) \<and>
    split_inv d0 n fi low (ps @ [p]) st' (nxt (d0 ! p)) lo' hi"
proof -
  let ?d = "dlinks st" let ?lows = "map (entry d0) (filter low ps)"
  let ?highs = "map (entry d0) (filter (\<lambda>x. \<not> low x) ps)"
  have L: "half ?d fi lo ?lows (lowfind st) (lowused st) (gpos st) (rec_hash_nr st, rec_data st) (word_of_nat p)"
    and H: "half ?d n hi ?highs (highfind st) (highused st) (gpos2 st) (rec2_hash_nr st, rec2_data st) (word_of_nat p)"
    and dist: "distinct (empty_pos st # lo @ hi)" and sets: "set (empty_pos st # lo @ hi) = insert n (set ps)"
    and excl: "\<not> (lowused st \<and> highused st)" and lenst: "length ?d = length d0"
    and same: "\<forall>x. x \<notin> insert n (set ps) \<longrightarrow> ?d ! x = d0 ! x"
    and emp: "\<not> highfind st \<longrightarrow> empty_pos st = n" "highfind st \<and> \<not> lowfind st \<longrightarrow> empty_pos st = fi"
    using inv by (simp_all add: split_inv_def)
  have dp: "?d ! p = d0 ! p" "entry ?d p = entry d0 p" using same p by (auto simp: entry_def)
  have pout: "p \<notin> set lo" "p \<notin> set hi" "p \<noteq> empty_pos st" using p sets by auto
  have ent: "entry d0 p = (hash_nr (d0 ! p), row (d0 ! p))" by (simp add: entry_def)
  have keepH: "half ?d n hi ?highs (highfind st) False (gpos2 st) (rec2_hash_nr st, rec2_data st) w" for w
    by (rule half_keep [OF H]) simp
  show ?thesis
  proof (cases "lowfind st")
    case nofind: False
    then have lo: "lo = []" "?lows = []" using L by (simp_all add: half_not_found)
    show ?thesis
    proof (cases "highfind st")
      case True
      then have e: "empty_pos st = fi" using emp(2) nofind by simp
      show ?thesis
        unfolding key_will_not_move_def
        apply (rule exI, rule exI [of _ "[fi]"])
        using nofind True lo dist sets pout e keepH low p same dp lenst
        apply (auto simp: split_inv_def intro!: half_begin simp: ent)
        done
    next
      case nohigh: False
      then have hi: "hi = []" "?highs = []" using H by (simp_all add: half_not_found)
      have "filter low ps = []" "filter (\<lambda>x. \<not> low x) ps = []" using lo(2) hi(2) by auto
      then have "ps = []" by (cases ps) (auto split: if_splits)
      then have "p = fi" by (rule first)
      show ?thesis
        unfolding key_will_not_move_def
        apply (rule exI, rule exI [of _ "[fi]"])
        using nofind nohigh lo hi dist sets pout low p same dp lenst emp(1) \<open>ps = []\<close> \<open>p = fi\<close>
        apply (auto simp: split_inv_def half_none ent [unfolded \<open>p = fi\<close>] intro!: half_begin)
        done
    qed
  next
    case find: True
    show ?thesis
    proof (cases "lowused st")
      case True
      have "half ?d fi (lo @ [p]) (?lows @ [entry d0 p]) True True p (entry d0 p) (nxt (d0 ! p))"
        by (rule half_extend_used) (use L find True pout dp in auto)
      then show ?thesis
        unfolding key_will_not_move_def
        apply (intro exI [of _ "lo @ [p]"] exI)
        using find True keepH dist sets pout excl low p same dp lenst emp
        apply (auto simp: split_inv_def ent)
        done
    next
      case False
      let ?l = "\<lparr>nxt = word_of_nat p, hash_nr = rec_hash_nr st, row = rec_data st\<rparr>"
      have g: "gpos st \<in> set lo" "gpos st < length ?d"
        using half_found [OF L] find sets len lenst by auto
      have "half (?d[gpos st := ?l]) fi (lo @ [p]) (?lows @ [entry d0 p]) True True p (entry d0 p) (nxt (d0 ! p))"
        by (rule half_extend_write [where d = ?d]) (use L find False pout dp g in auto)
      moreover have "half (?d[gpos st := ?l]) n hi ?highs (highfind st) False (gpos2 st) (rec2_hash_nr st, rec2_data st) w" for w
        by (rule half_keep [OF H]) (use g dist in \<open>auto simp: nth_upd\<close>)
      moreover have "\<forall>x. x \<notin> insert n (set ps) \<longrightarrow> ?d[gpos st := ?l] ! x = d0 ! x"
        using same g(1) sets by (auto simp: nth_upd)
      ultimately show ?thesis
        unfolding key_will_not_move_def
        apply (intro exI [of _ "lo @ [p]"] exI)
        using find False dist sets pout low p dp lenst emp g
        apply (auto simp: split_inv_def ent put_link_def)
        done
    qed
  qed
qed

lemma split_step_high:
  assumes inv: "split_inv d0 n fi low ps st (word_of_nat p) lo hi" and p: "p \<notin> insert n (set ps)"
    and first: "ps = [] \<Longrightarrow> p = fi" and high: "\<not> low p" and len: "\<forall>x\<in>insert n (set ps). x < length d0"
  shows "\<exists>st' hi'. key_will_be_moved st p (d0 ! p) = Some st' \<and> highfind st' \<and> nxt (dlinks st' ! p) = nxt (d0 ! p) \<and>
    split_inv d0 n fi low (ps @ [p]) st' (nxt (d0 ! p)) lo hi'"
proof -
  let ?d = "dlinks st" let ?lows = "map (entry d0) (filter low ps)"
  let ?highs = "map (entry d0) (filter (\<lambda>x. \<not> low x) ps)"
  have L: "half ?d fi lo ?lows (lowfind st) (lowused st) (gpos st) (rec_hash_nr st, rec_data st) (word_of_nat p)"
    and H: "half ?d n hi ?highs (highfind st) (highused st) (gpos2 st) (rec2_hash_nr st, rec2_data st) (word_of_nat p)"
    and dist: "distinct (empty_pos st # lo @ hi)" and sets: "set (empty_pos st # lo @ hi) = insert n (set ps)"
    and excl: "\<not> (lowused st \<and> highused st)" and lenst: "length ?d = length d0"
    and same: "\<forall>x. x \<notin> insert n (set ps) \<longrightarrow> ?d ! x = d0 ! x"
    and emp: "\<not> highfind st \<longrightarrow> empty_pos st = n" "highfind st \<and> \<not> lowfind st \<longrightarrow> empty_pos st = fi"
    using inv by (simp_all add: split_inv_def)
  have dp: "?d ! p = d0 ! p" "entry ?d p = entry d0 p" using same p by (auto simp: entry_def)
  have pout: "p \<notin> set lo" "p \<notin> set hi" "p \<noteq> empty_pos st" using p sets by auto
  have ent: "entry d0 p = (hash_nr (d0 ! p), row (d0 ! p))" by (simp add: entry_def)
  have keepL: "half ?d fi lo ?lows (lowfind st) False (gpos st) (rec_hash_nr st, rec_data st) w" for w
    by (rule half_keep [OF L]) simp
  show ?thesis
  proof (cases "highfind st")
    case nofind: False
    then have hi: "hi = []" "?highs = []" and e: "empty_pos st = n" using H emp(1) by (simp_all add: half_not_found)
    have "p = fi" if "\<not> lowfind st"
    proof (rule first)
      have "filter low ps = []" "filter (\<lambda>x. \<not> low x) ps = []" using L that hi(2) by (auto simp: half_not_found)
      then show "ps = []" by (cases ps) (auto split: if_splits)
    qed
    then show ?thesis
      unfolding key_will_be_moved_def
      apply (intro exI [of _ "[n]"] exI)
      using nofind hi dist sets pout e keepL high p same dp lenst
      apply (auto simp: split_inv_def intro!: half_begin simp: ent)
      done
  next
    case find: True
    show ?thesis
    proof (cases "highused st")
      case True
      have "half ?d n (hi @ [p]) (?highs @ [entry d0 p]) True True p (entry d0 p) (nxt (d0 ! p))"
        by (rule half_extend_used) (use H find True pout dp in auto)
      then show ?thesis
        unfolding key_will_be_moved_def
        apply (intro exI [of _ "hi @ [p]"] exI)
        using find True keepL dist sets pout excl high p same dp lenst emp
        apply (auto simp: split_inv_def ent)
        done
    next
      case False
      let ?l = "\<lparr>nxt = word_of_nat p, hash_nr = rec2_hash_nr st, row = rec2_data st\<rparr>"
      have g: "gpos2 st \<in> set hi" "gpos2 st < length ?d"
        using half_found [OF H] find sets len lenst by auto
      have "half (?d[gpos2 st := ?l]) n (hi @ [p]) (?highs @ [entry d0 p]) True True p (entry d0 p) (nxt (d0 ! p))"
        by (rule half_extend_write [where d = ?d]) (use H find False pout dp g in auto)
      moreover have "half (?d[gpos2 st := ?l]) fi lo ?lows (lowfind st) False (gpos st) (rec_hash_nr st, rec_data st) w" for w
        by (rule half_keep [OF L]) (use g dist in \<open>auto simp: nth_upd\<close>)
      moreover have "\<forall>x. x \<notin> insert n (set ps) \<longrightarrow> ?d[gpos2 st := ?l] ! x = d0 ! x"
        using same g(1) sets by (auto simp: nth_upd)
      ultimately show ?thesis
        unfolding key_will_be_moved_def
        apply (intro exI [of _ "hi @ [p]"] exI)
        using find False dist sets pout high p dp lenst emp g
        apply (auto simp: split_inv_def ent put_link_def)
        done
    qed
  qed
qed

text \<open>The loop over the rest \<open>rs\<close> of the bucket.\<close>

lemma split_loop_ok:
  assumes "split_inv d0 n fi low ps st (word_of_nat p) lo hi"
    "lseg d0 (word_of_nat p) (p # rs) NO_RECORD" "distinct (ps @ p # rs)" "n \<notin> set (ps @ p # rs)"
    "\<forall>x\<in>insert n (set (ps @ p # rs)). x < length d0 \<and> idx_ok x" "ps = [] \<Longrightarrow> p = fi"
    "\<And>x. low x \<longleftrightarrow> unat (hash_nr (d0 ! x)) AND (B div 2) = 0"
    "no_flag st \<Longrightarrow> my_hash_mask (hash_nr (d0 ! p)) B n = fi"
  shows "\<exists>st' lo' hi'. split_loop B n fi st p = Some st' \<and> split_inv d0 n fi low (ps @ p # rs) st' NO_RECORD lo' hi'"
  using assms
proof (induction rs arbitrary: ps st p lo hi)
  case Nil
  then have nxt: "nxt (d0 ! p) = NO_RECORD" and p: "p \<notin> insert n (set ps)" "p < length d0"
    and len: "\<forall>x\<in>insert n (set ps). x < length d0" by auto
  have same: "length (dlinks st) = length d0" "dlinks st ! p = d0 ! p"
    using Nil.prems(1) p(1) by (auto simp: split_inv_def)
  obtain st' lo' hi' where st': "split_step (B div 2) st p (d0 ! p) = Some st'" "nxt (dlinks st' ! p) = nxt (d0 ! p)"
    "split_inv d0 n fi low (ps @ [p]) st' (nxt (d0 ! p)) lo' hi'"
    using split_step_low [OF Nil.prems(1) p(1) Nil.prems(6) _ len]
      split_step_high [OF Nil.prems(1) p(1) Nil.prems(6) _ len] Nil.prems(7)
    unfolding split_step_def by metis
  have "split_loop B n fi st p = Some st'"
    using st'(1,2) same p(2) nxt Nil.prems(8) by (subst split_loop.simps) (auto simp: get_link_def)
  then show ?case using st'(3) nxt by auto
next
  case (Cons q rs)
  then have nxt: "nxt (d0 ! p) = word_of_nat q" and p: "p \<notin> insert n (set ps)" "p < length d0"
    and len: "\<forall>x\<in>insert n (set ps). x < length d0" and q: "idx_ok q" by auto
  have same: "length (dlinks st) = length d0" "dlinks st ! p = d0 ! p"
    using Cons.prems(1) p(1) by (auto simp: split_inv_def)
  obtain st' lo' hi' where st': "split_step (B div 2) st p (d0 ! p) = Some st'" "nxt (dlinks st' ! p) = nxt (d0 ! p)"
    "split_inv d0 n fi low (ps @ [p]) st' (word_of_nat q) lo' hi'" "\<not> no_flag st'"
    using split_step_low [OF Cons.prems(1) p(1) Cons.prems(6) _ len]
      split_step_high [OF Cons.prems(1) p(1) Cons.prems(6) _ len] Cons.prems(7)
    unfolding split_step_def no_flag_def nxt by metis
  have step: "split_loop B n fi st p = split_loop B n fi st' q"
    using st'(1,2) same p(2) nxt Cons.prems(8) q
    by (subst split_loop.simps) (auto simp: get_link_def idx_simps)
  have "\<exists>st'' lo hi. split_loop B n fi st' q = Some st'' \<and> split_inv d0 n fi low ((ps @ [p]) @ q # rs) st'' NO_RECORD lo hi"
    using Cons.prems(2-5) st'(4) nxt by (intro Cons.IH [OF st'(3)]) (auto simp: Cons.prems(7))
  then show ?case using step by simp
qed

text \<open>What the loop and the writes after it leave behind.\<close>

lemma split_finish_ok:
  assumes inv: "split_inv d0 n fi low ps st NO_RECORD lo hi" and len: "\<forall>x\<in>insert n (set ps). x < length d0"
  shows "\<exists>d. split_finish st = Some (st\<lparr>dlinks := d\<rparr>) \<and> length d = length d0 \<and>
    (\<forall>x. x \<notin> insert n (set ps) \<longrightarrow> d ! x = d0 ! x) \<and>
    (lo \<noteq> [] \<longrightarrow> lseg d (word_of_nat fi) lo NO_RECORD) \<and> map (entry d) lo = map (entry d0) (filter low ps) \<and>
    (hi \<noteq> [] \<longrightarrow> lseg d (word_of_nat n) hi NO_RECORD) \<and> map (entry d) hi = map (entry d0) (filter (\<lambda>x. \<not> low x) ps)"
proof -
  let ?lows = "map (entry d0) (filter low ps)" let ?highs = "map (entry d0) (filter (\<lambda>x. \<not> low x) ps)"
  let ?l = "\<lparr>nxt = NO_RECORD, hash_nr = rec_hash_nr st, row = rec_data st\<rparr>"
  let ?h = "\<lparr>nxt = NO_RECORD, hash_nr = rec2_hash_nr st, row = rec2_data st\<rparr>"
  have L: "half (dlinks st) fi lo ?lows (lowfind st) (lowused st) (gpos st) (rec_hash_nr st, rec_data st) NO_RECORD"
    and H: "half (dlinks st) n hi ?highs (highfind st) (highused st) (gpos2 st) (rec2_hash_nr st, rec2_data st) NO_RECORD"
    and dist: "distinct (empty_pos st # lo @ hi)" and sets: "set (empty_pos st # lo @ hi) = insert n (set ps)"
    and lenst: "length (dlinks st) = length d0"
    and same: "\<forall>x. x \<notin> insert n (set ps) \<longrightarrow> dlinks st ! x = d0 ! x"
    using inv by (simp_all add: split_inv_def)
  have g: "gpos st \<in> set lo \<and> gpos st < length (dlinks st)" if "lowfind st"
    using half_found [OF L] that sets len lenst by auto
  have g2: "gpos2 st \<in> set hi \<and> gpos2 st < length (dlinks st)" if "highfind st"
    using half_found [OF H] that sets len lenst by auto
  define d1 where "d1 = (if lowfind st \<and> \<not> lowused st then (dlinks st)[gpos st := ?l] else dlinks st)"
  define d2 where "d2 = (if highfind st \<and> \<not> highused st then d1[gpos2 st := ?h] else d1)"
  have len1: "length d1 = length d0" "length d2 = length d0" using lenst by (simp_all add: d1_def d2_def)
  have same1: "d1 ! x = dlinks st ! x" if "x \<notin> set lo" for x using that g by (auto simp: d1_def nth_upd)
  have same2: "d2 ! x = d1 ! x" if "x \<notin> set hi" for x using that g2 by (auto simp: d2_def nth_upd)
  have low1: "(lo \<noteq> [] \<longrightarrow> lseg d1 (word_of_nat fi) lo NO_RECORD) \<and> map (entry d1) lo = ?lows"
  proof (cases "lowfind st")
    case True
    then show ?thesis
      using L g half_used_end [of "dlinks st" fi lo ?lows] half_write_end [of "dlinks st" fi lo ?lows _ _ _ d1]
      by (cases "lowused st") (auto simp: d1_def)
  qed (use L in \<open>simp add: half_not_found\<close>)
  have H1: "half d1 n hi ?highs (highfind st) (highused st) (gpos2 st) (rec2_hash_nr st, rec2_data st) NO_RECORD"
    by (rule half_cong [OF H]) (use same1 dist in auto)
  have high2: "(hi \<noteq> [] \<longrightarrow> lseg d2 (word_of_nat n) hi NO_RECORD) \<and> map (entry d2) hi = ?highs"
  proof (cases "highfind st")
    case True
    then show ?thesis
      using H1 g2 len1 lenst half_used_end [of d1 n hi ?highs] half_write_end [of d1 n hi ?highs _ _ _ d2]
      by (cases "highused st") (auto simp: d2_def)
  qed (use H1 in \<open>simp add: half_not_found\<close>)
  have keep: "d2 ! x = d1 ! x" if "x \<in> set lo" for x using that dist by (intro same2) auto
  have "lseg d2 (word_of_nat fi) lo NO_RECORD \<longleftrightarrow> lseg d1 (word_of_nat fi) lo NO_RECORD"
    by (rule lseg_cong) (simp add: keep)
  moreover have "map (entry d2) lo = map (entry d1) lo" using keep by (simp add: entry_def)
  moreover have
    "(if lowfind st \<and> \<not> lowused st then put_link (dlinks st) (gpos st) ?l else Some (dlinks st)) = Some d1"
    "(if highfind st \<and> \<not> highused st then put_link d1 (gpos2 st) ?h else Some d1) = Some d2"
    using g g2 len1 lenst by (simp_all add: put_link_def d1_def d2_def)
  then have "split_finish st = Some (st\<lparr>dlinks := d2\<rparr>)"
    unfolding split_finish_def by (simp only: Option.bind.bind_lunit)
  moreover have "d2 ! x = d0 ! x" if "x \<notin> insert n (set ps)" for x
  proof -
    have "x \<notin> set lo" "x \<notin> set hi" using that sets by auto
    then show ?thesis using that same same1 [of x] same2 [of x] by simp
  qed
  ultimately show ?thesis using low1 high2 len1 by auto
qed

section \<open>The split as a whole\<close>

lemma stored_list: "distinct xs \<Longrightarrow> stored d (set xs) = mset (map (entry d) xs)"
  by (simp add: stored_def mset_set_set)

lemma stored_Un: "finite A \<Longrightarrow> finite C \<Longrightarrow> A \<inter> C = {} \<Longrightarrow> stored d (A \<union> C) = stored d A + stored d C"
  by (simp add: stored_def mset_set_Union)

lemma mset_filter_parts: "mset (map f (filter P xs)) + mset (map f (filter (\<lambda>x. \<not> P x) xs)) = mset (map f xs)"
  by (induction xs) auto

lemma map_in: "map f xs = map g ys \<Longrightarrow> x \<in> set xs \<Longrightarrow> \<exists>y\<in>set ys. f x = g y"
  by (metis image_iff image_set)

text \<open>
  The effect of the split on the layout: the links \<open>xs\<close> of bucket \<open>fi\<close> are distributed over the
  places \<open>lo\<close> and \<open>hi\<close>.
\<close>

lemma split_layout:
  assumes lay: "layout b d {..<n}" and xs: "chain b d {..<n} fi xs" and n: "n < length d" "idx_ok n" "fi < n"
    and d': "length d' = length d" "\<forall>x. x \<notin> insert n (set xs) \<longrightarrow> d' ! x = d ! x"
      "lo \<noteq> [] \<longrightarrow> lseg d' (word_of_nat fi) lo NO_RECORD" "map (entry d') lo = map (entry d) (filter low xs)"
      "hi \<noteq> [] \<longrightarrow> lseg d' (word_of_nat n) hi NO_RECORD" "map (entry d') hi = map (entry d) (filter (\<lambda>x. \<not> low x) xs)"
    and sl: "distinct (e # lo @ hi)" "set (e # lo @ hi) = insert n (set xs)"
    and b': "\<And>h. b' h = (if b h = fi \<and> high h then n else b h)" and low: "\<And>x. low x \<longleftrightarrow> \<not> high (hash_nr (d ! x))"
  shows "layout b' d' ({..n} - {e})" "stored d' ({..n} - {e}) = stored d {..<n}"
proof -
  let ?A = "{..<n} - set xs"
  have xin: "x < n \<and> bucket b d x = fi" if "x \<in> set xs" for x using chain_in [OF xs that] by simp
  have dxs: "distinct xs" using xs by (simp add: chain_def)
  have slots: "set lo \<union> set hi = insert n (set xs) - {e}"
  proof -
    have "set (e # lo @ hi) = insert e (set lo \<union> set hi)" "e \<notin> set lo \<union> set hi" using sl(1) by auto
    then show ?thesis using sl(2) by (metis Diff_insert_absorb)
  qed
  have e: "e \<in> insert n (set xs)" using sl(2) by (metis list.set_intros(1))
  have sub: "set xs \<subseteq> {..<n}" using xin by auto
  have L': "{..n} - {e} = ?A \<union> (set lo \<union> set hi)" unfolding slots using e sub by auto
  have dis: "?A \<inter> (set lo \<union> set hi) = {}" "set lo \<inter> set hi = {}"
    using sl(1) unfolding slots by auto
  have A: "d' ! i = d ! i" "bucket b d i \<noteq> fi" "i < n" if "i \<in> ?A" for i
    using that d'(2) xs by (auto simp: chain_def)
  have bn: "bucket b d i < n" if "i < n" for i
    using layout_head(1) [OF lay, of i] that by simp
  have bA: "bucket b' d' i = bucket b d i" if "i \<in> ?A" for i using A [OF that] b' by simp
  have blo: "bucket b' d' i = fi" if i: "i \<in> set lo" for i
  proof -
    obtain x where "x \<in> set xs" "low x" "entry d' i = entry d x" using map_in [OF d'(4) i] by auto
    then show ?thesis using b' low xin by (simp add: bucket_entry) (metis bucket_entry)
  qed
  have bhi: "bucket b' d' i = n" if i: "i \<in> set hi" for i
  proof -
    obtain x where "x \<in> set xs" "\<not> low x" "entry d' i = entry d x" using map_in [OF d'(6) i] by auto
    then show ?thesis using b' low xin by (simp add: bucket_entry) (metis entry_def fst_conv)
  qed
  show "stored d' ({..n} - {e}) = stored d {..<n}"
  proof -
    have "stored d' ({..n} - {e}) = stored d' ?A + (stored d' (set lo) + stored d' (set hi))"
      unfolding L' using dis by (simp add: stored_Un)
    also have "stored d' ?A = stored d ?A" by (rule stored_cong) (use A in \<open>auto simp: entry_def\<close>)
    also have "stored d' (set lo) + stored d' (set hi) = mset (map (entry d) xs)"
      using sl(1) by (simp add: stored_list d'(4,6) mset_filter_parts del: mset_map)
    also have "\<dots> = stored d (set xs)" using dxs by (simp add: stored_list)
    also have "stored d ?A + stored d (set xs) = stored d (?A \<union> set xs)"
      by (subst stored_Un) auto
    also have "?A \<union> set xs = {..<n}" using xin by auto
    finally show ?thesis .
  qed
  show "layout b' d' ({..n} - {e})"
  proof (rule layout_change [OF lay, where H = "{fi, n}"])
    show "places d' ({..n} - {e})"
      using layout_places [OF lay] n d'(1) by (auto simp: places_def le_less)
    show "{i \<in> {..n} - {e}. bucket b' d' i = k} = {i \<in> {..<n}. bucket b d i = k}" if "k \<notin> {fi, n}" for k
    proof -
      have "{i \<in> {..n} - {e}. bucket b' d' i = k} = {i \<in> ?A. bucket b' d' i = k}"
        unfolding L' using that blo bhi by auto
      also have "\<dots> = {i \<in> ?A. bucket b d i = k}" using bA by auto
      also have "\<dots> = {i \<in> {..<n}. bucket b d i = k}" using that xin by auto
      finally show ?thesis .
    qed
    show "nxt (d' ! i) = nxt (d ! i)" if "i \<in> {..<n}" "bucket b d i \<notin> {fi, n}" for i
    proof -
      have "i \<notin> set xs" using that(2) xin [of i] by auto
      then show ?thesis using that(1) A(1) [of i] by simp
    qed
    have nA: "bucket b' d' i \<noteq> n" "bucket b' d' i \<noteq> fi" if "i \<in> ?A" for i
      using bA [OF that] bn [OF A(3) [OF that]] A(2) [OF that] by simp_all
    have hiS: "{i \<in> {..n} - {e}. bucket b' d' i = n} = set hi"
      and loS: "{i \<in> {..n} - {e}. bucket b' d' i = fi} = set lo"
      unfolding L' using nA bhi blo n(3) by auto
    fix k i assume k: "k \<in> {fi, n}" and i: "i \<in> {..n} - {e}" "bucket b' d' i = k"
    show "idx_ok k \<and> (\<exists>xs. chain b' d' ({..n} - {e}) k xs)"
    proof (cases "k = n")
      case True
      then have "i \<in> set hi" using i hiS by blast
      then have "hi \<noteq> []" by auto
      then have "chain b' d' ({..n} - {e}) n hi" using d'(5) sl(1) hiS by (simp add: chain_def)
      then show ?thesis using True n(2) by blast
    next
      case False
      then have k: "k = fi" using k by simp
      then have "i \<in> set lo" using i loS by blast
      then have "lo \<noteq> []" by auto
      then have "chain b' d' ({..n} - {e}) fi lo" using d'(3) sl(1) loS by (simp add: chain_def)
      then show ?thesis using k n(2,3) by (auto simp: idx_ok_def)
    qed
  qed
qed

lemma split_bucket_ok:
  assumes size: "table_size B (Suc n)" "B div 2 \<le> n"
    and lay: "layout (\<lambda>h. my_hash_mask h B n) d {..<n}" and n: "n < length d" "idx_ok n"
  shows "\<exists>d' e. split_bucket B n d n = Some (d', e) \<and> e \<le> n \<and> length d' = length d \<and>
    layout (\<lambda>h. my_hash_mask h B (Suc n)) d' ({..n} - {e}) \<and> stored d' ({..n} - {e}) = stored d {..<n}"
proof -
  let ?b = "\<lambda>h. my_hash_mask h B n" let ?b' = "\<lambda>h. my_hash_mask h B (Suc n)"
  let ?fi = "n - B div 2" let ?low = "\<lambda>x. unat (hash_nr (d ! x)) AND (B div 2) = 0"
  have drop_n: "{..n} - {n} = {..<n}" by auto
  show ?thesis
  proof (cases "n = 0")
    case True
    then show ?thesis using lay by (auto simp: split_bucket_def layout_def places_def stored_def Let_def)
  next
    case False
    then have B: "2 \<le> B" and fi: "?fi < n" using size by (auto simp: table_size_def)
    note grow = mask_grow [OF size B]
    let ?st = "\<lparr>lowfind = False, lowused = False, highfind = False, highused = False, empty_pos = n,
      gpos = 0, rec_data = 0, rec_hash_nr = 0, gpos2 = 0, rec2_data = 0, rec2_hash_nr = 0, dlinks = d\<rparr>"
    have sb: "split_bucket B n d n = do { st \<leftarrow> split_loop B n ?fi ?st ?fi; st \<leftarrow> split_finish st; Some (dlinks st, empty_pos st) }"
      using fi by (simp add: split_bucket_def Let_def)
    show ?thesis
    proof (cases "bucket ?b d ?fi = ?fi")
      case False
      have "split_loop B n ?fi ?st ?fi = Some ?st"
        using False fi n(1) by (subst split_loop.simps) (simp add: get_link_def no_flag_def)
      then have "split_bucket B n d n = Some (d, n)" by (simp add: sb split_finish_def)
      moreover have "layout ?b' d {..<n}"
      proof (rule layout_change [OF lay, where H = "{}"])
        have "bucket ?b d i \<noteq> ?fi" if "i < n" for i using bucket_empty [OF lay, of ?fi i] False that by simp
        then show "{i \<in> {..<n}. bucket ?b' d i = k} = {i \<in> {..<n}. bucket ?b d i = k}" for k using grow by auto
      qed (use layout_places [OF lay] in auto)
      ultimately show ?thesis using drop_n by auto
    next
      case True
      obtain zs where xs: "chain ?b d {..<n} ?fi (?fi # zs)"
        using layout_chain [OF lay, of ?fi ?fi] fi True by auto
      have pl: "\<forall>x\<in>insert n (set (?fi # zs)). x < length d \<and> idx_ok x" "n \<notin> set (?fi # zs)"
        using chain_in [OF xs] layout_places [OF lay] n by (fastforce simp: places_def)+
      have init: "split_inv d n ?fi ?low [] ?st (word_of_nat ?fi) [] []" by (simp add: split_inv_def half_none)
      have "\<exists>st lo hi. split_loop B n ?fi ?st ?fi = Some st \<and> split_inv d n ?fi ?low ([] @ ?fi # zs) st NO_RECORD lo hi"
      proof (rule split_loop_ok [OF init])
        show "lseg d (word_of_nat ?fi) (?fi # zs) NO_RECORD" "distinct ([] @ ?fi # zs)"
          using xs by (simp_all add: chain_def)
      qed (use pl True in auto)
      then obtain st lo hi where st: "split_loop B n ?fi ?st ?fi = Some st"
        "split_inv d n ?fi ?low ([] @ ?fi # zs) st NO_RECORD lo hi" by blast
      then have inv: "split_inv d n ?fi ?low (?fi # zs) st NO_RECORD lo hi" by simp
      obtain d' where d': "split_finish st = Some (st\<lparr>dlinks := d'\<rparr>)" "length d' = length d"
        "\<forall>x. x \<notin> insert n (set (?fi # zs)) \<longrightarrow> d' ! x = d ! x"
        "lo \<noteq> [] \<longrightarrow> lseg d' (word_of_nat ?fi) lo NO_RECORD" "map (entry d') lo = map (entry d) (filter ?low (?fi # zs))"
        "hi \<noteq> [] \<longrightarrow> lseg d' (word_of_nat n) hi NO_RECORD"
        "map (entry d') hi = map (entry d) (filter (\<lambda>x. \<not> ?low x) (?fi # zs))"
        using split_finish_ok [OF inv] pl(1) by blast
      have sl: "distinct (empty_pos st # lo @ hi)" "set (empty_pos st # lo @ hi) = insert n (set (?fi # zs))"
        using inv by (simp_all add: split_inv_def)
      note final = split_layout [OF lay xs n fi d'(2-7) sl, where b' = ?b' and high = "\<lambda>h. unat h AND (B div 2) \<noteq> 0",
          OF grow]
      have "empty_pos st \<in> insert n (set (?fi # zs))" using sl(2) by (metis list.set_intros(1))
      then have "empty_pos st \<le> n" using chain_in [OF xs] by fastforce
      then show ?thesis using final st(1) d'(1,2) by (simp add: sb)
    qed
  qed
qed

end
