(* ===== verification/Hash_Ops.thy ===== *)
theory Hash_Ops
  imports Hash_Split
begin

text \<open>
  The operations of \<open>mysys/hash.c\<close> on the array of links: placing a new record, taking one out,
  moving the last link when the table shrinks, relinking.  Each keeps the layout and changes the
  stored records as it should.
\<close>

section \<open>Placing a record\<close>

lemma link_upd [simp]: "l\<lparr>nxt := w, hash_nr := h, row := r\<rparr> = \<lparr>nxt = w, hash_nr = h, row = r\<rparr>"
  by (cases l) simp

text \<open>A link in the wrong bucket's place is moved away; then the place is taken.\<close>

lemma layout_displace:
  assumes "layout b d L" "p \<in> L" "bucket b d p \<noteq> p" "e \<notin> L" "e < length d" "idx_ok e" "b (hash_nr l) = p"
    "nxt l = NO_RECORD" "length d2 = length d" "\<And>x. x \<noteq> e \<Longrightarrow> x \<noteq> p \<Longrightarrow> d2 ! x = d ! x" "d2 ! e = d ! p"
  shows "\<exists>d3. movelink d2 (word_of_nat p) (bucket b d p) (word_of_nat e) = Some d3 \<and> length d3 = length d \<and>
    d3 ! p = d2 ! p \<and> layout b (d3[p := l]) (insert e L) \<and>
    stored (d3[p := l]) (insert e L) = add_mset (hash_nr l, row l) (stored d L)"
proof -
  obtain us g ys where c: "chain b d L (bucket b d p) (us @ g # p # ys)"
    using chain_pred [OF assms(1,2) refl assms(3)] by blast
  have g: "g \<in> L" "g \<noteq> p" "g \<noteq> e" using chain_in [OF c, of g] c assms(4) by (auto simp: chain_def)
  have lens: "p < length d" "g < length d" "idx_ok p"
    using layout_places [OF assms(1)] assms(2) g(1) by (auto simp: places_def)
  let ?d3 = "d2[g := (d2 ! g)\<lparr>nxt := word_of_nat e\<rparr>]"
  let ?dR = "d[e := d ! p, g := (d ! g)\<lparr>nxt := word_of_nat e\<rparr>]"
  have mv: "movelink d2 (word_of_nat p) (bucket b d p) (word_of_nat e) = Some ?d3"
  proof (rule movelink_chain [OF assms(1) c assms(9)])
    fix x assume "x \<in> set (us @ [g])"
    then have "x \<noteq> e" "x \<noteq> p" using chain_in [OF c, of x] c assms(4) by (auto simp: chain_def)
    then show "nxt (d2 ! x) = nxt (d ! x)" by (simp add: assms(10))
  qed
  have eq: "?d3[p := l] = ?dR[p := l]"
    using assms(9-11) g lens by (intro nth_equalityI) (auto simp: nth_upd)
  have R: "layout b ?dR (insert e (L - {p}))" "stored ?dR (insert e (L - {p})) = stored d L"
    using layout_relocate [OF assms(1) c assms(4-6)] by simp_all
  have "p \<notin> insert e (L - {p})" using assms(2,4) by auto
  then have "layout b (?dR[p := l]) (insert p (insert e (L - {p})))"
    "stored (?dR[p := l]) (insert p (insert e (L - {p}))) = add_mset (hash_nr l, row l) (stored d L)"
    using layout_add_own [OF R(1), of p l] R(2) lens assms(7,8) by simp_all
  moreover have "insert p (insert e (L - {p})) = insert e L" using assms(2) by auto
  ultimately show ?thesis using mv eq g assms(9) by simp
qed

lemma place_record_ok:
  assumes "layout (\<lambda>h. my_hash_mask h B (Suc n)) d ({..n} - {e})" "e \<le> n" "n < length d" "idx_ok n"
    "table_size B (Suc n)"
  shows "\<exists>d'. place_record B n d e cur record = Some d' \<and> length d' = length d \<and>
    layout (\<lambda>h. my_hash_mask h B (Suc n)) d' {..n} \<and>
    stored d' {..n} = add_mset (cur, record) (stored d ({..n} - {e}))"
proof -
  let ?b = "\<lambda>h. my_hash_mask h B (Suc n)" let ?L = "{..n} - {e}" let ?i = "?b cur"
  have e: "e \<notin> ?L" "e < length d" "idx_ok e" "insert e ?L = {..n}" using assms(2-4) by (auto simp: idx_ok_def)
  have i: "?i \<le> n" using mask_less [OF assms(5), of cur] by simp
  show ?thesis
  proof (cases "?i = e")
    case True
    let ?l = "\<lparr>nxt = NO_RECORD, hash_nr = cur, row = record\<rparr>"
    have "place_record B n d e cur record = Some (d[e := ?l])"
      using True e(2) by (simp add: place_record_def put_link_def Let_def)
    then show ?thesis using layout_add_own [OF assms(1) e(1-3), of ?l] True e(4) by simp
  next
    case False
    then have iL: "?i \<in> ?L" "?i < length d" using i assms(3) by auto
    show ?thesis
    proof (cases "bucket ?b d ?i = ?i")
      case True
      let ?l = "\<lparr>nxt = word_of_nat e, hash_nr = cur, row = record\<rparr>"
      have "place_record B n d e cur record = Some (d[e := d ! ?i, ?i := ?l])"
        using False True e(2) iL(2) by (simp add: place_record_def put_link_def get_link_def my_hash_rec_mask_def Let_def)
      then show ?thesis using layout_add_head [OF assms(1) iL(1) True e(1-3), of ?l] e(4) by simp
    next
      case other: False
      let ?l = "\<lparr>nxt = NO_RECORD, hash_nr = cur, row = record\<rparr>"
      let ?d2 = "d[e := d ! ?i, ?i := (d ! ?i)\<lparr>nxt := NO_RECORD\<rparr>]"
      obtain d3 where d3: "movelink ?d2 (word_of_nat ?i) (bucket ?b d ?i) (word_of_nat e) = Some d3"
        "length d3 = length d" "d3 ! ?i = ?d2 ! ?i" "layout ?b (d3[?i := ?l]) (insert e ?L)"
        "stored (d3[?i := ?l]) (insert e ?L) = add_mset (cur, record) (stored d ?L)"
        using layout_displace [OF assms(1) iL(1) other e(1-3), of ?l ?d2] False e(2) by (auto simp: nth_upd)
      have "place_record B n d e cur record = Some (d3[?i := ?l])"
        using False other e(2) iL(2) d3(1-3)
        by (simp add: place_record_def put_link_def get_link_def my_hash_rec_mask_def Let_def)
      then show ?thesis using d3(2,4,5) e(4) by simp
    qed
  qed
qed

end
