(* ===== verification/Hash_Del.thy ===== *)
theory Hash_Del
  imports Hash_Ops
begin

text \<open>
  Deletion in \<open>mysys/hash.c\<close>: finding a record along the links of its bucket, taking it out, and
  moving the last link of the array to the free place.  The table shrinks by one place, so the
  last bucket is merged into another one.
\<close>

section \<open>Finding and unlinking\<close>

lemma find_record_none:
  assumes "lseg d (word_of_nat p) (p # xs) NO_RECORD" "\<forall>x\<in>set (p # xs). x < length d \<and> idx_ok x"
    "record \<notin> (\<lambda>x. row (d ! x)) ` set (p # xs)"
  shows "find_record d record p prev = Some None"
  using assms
proof (induction xs arbitrary: p prev)
  case Nil
  then show ?case by (subst find_record.simps) (auto simp: get_link_def)
next
  case (Cons q xs)
  then have "find_record d record q (Some p) = Some None" by (intro Cons.IH) auto
  then show ?case using Cons.prems by (subst find_record.simps) (auto simp: get_link_def idx_simps)
qed

lemma find_record_some:
  assumes "lseg d (word_of_nat p) (us @ x # ys) NO_RECORD" "\<forall>x\<in>set (us @ x # ys). x < length d \<and> idx_ok x"
    "record \<notin> (\<lambda>x. row (d ! x)) ` set us" "row (d ! x) = record" "idx_ok p"
  shows "find_record d record p prev = Some (Some (x, if us = [] then prev else Some (last us)))"
  using assms
proof (induction us arbitrary: p prev)
  case Nil
  then have "p = x" by (simp add: idx_simps)
  then show ?case using Nil by (subst find_record.simps) (auto simp: get_link_def)
next
  case (Cons q us)
  then have q: "p = q" by (simp add: idx_simps)
  obtain z where z: "hd (us @ x # ys) = z" by simp
  have nz: "nxt (d ! q) = word_of_nat z" using Cons.prems(1) z by (cases us) auto
  have "idx_ok z" using Cons.prems(2) z by (cases us) auto
  moreover have "find_record d record z (Some q) = Some (Some (x, if us = [] then Some q else Some (last us)))"
    using Cons.prems nz \<open>idx_ok z\<close> by (intro Cons.IH) auto
  ultimately show ?case
    using Cons.prems(2,3) nz q by (subst find_record.simps) (auto simp: get_link_def idx_simps)
qed

lemma chain_places:
  assumes "layout b d L" "chain b d L h xs" shows "\<forall>x\<in>set xs. x < length d \<and> idx_ok x"
  using layout_places [OF assms(1)] chain_in [OF assms(2)] by (auto simp: places_def)

text \<open>The search starts at the place of a bucket, whether or not the bucket is in use.\<close>

lemma find_record_ok:
  assumes lay: "layout b d L" and h: "h \<in> L" "idx_ok h"
    and home: "\<And>x. x \<in> L \<Longrightarrow> row (d ! x) = record \<Longrightarrow> bucket b d x = h"
  shows "(\<exists>x\<in>L. row (d ! x) = record) \<Longrightarrow>
      \<exists>us x ys. chain b d L h (us @ x # ys) \<and> row (d ! x) = record \<and>
        find_record d record h None = Some (Some (x, if us = [] then None else Some (last us)))"
    and "\<not> (\<exists>x\<in>L. row (d ! x) = record) \<Longrightarrow> find_record d record h None = Some None"
proof -
  assume "\<exists>x\<in>L. row (d ! x) = record"
  then obtain x0 where x0: "x0 \<in> L" "row (d ! x0) = record" by blast
  obtain zs where c: "chain b d L h (h # zs)" using layout_chain [OF lay x0(1) home [OF x0]] by blast
  have "\<exists>x\<in>set (h # zs). row (d ! x) = record"
    using c x0 home [OF x0] unfolding chain_def by blast
  then obtain us x ys where sp: "h # zs = us @ x # ys" "row (d ! x) = record" "\<forall>y\<in>set us. row (d ! y) \<noteq> record"
    by (rule split_list_first_propE)
  have "find_record d record h None = Some (Some (x, if us = [] then None else Some (last us)))"
    using c chain_places [OF lay c] sp h(2) by (intro find_record_some) (auto simp: chain_def)
  then show "\<exists>us x ys. chain b d L h (us @ x # ys) \<and> row (d ! x) = record \<and>
      find_record d record h None = Some (Some (x, if us = [] then None else Some (last us)))"
    using c sp by metis
next
  assume none: "\<not> (\<exists>x\<in>L. row (d ! x) = record)"
  let ?k = "bucket b d h"
  obtain zs where c: "chain b d L ?k (?k # zs)" using layout_chain [OF lay h(1) refl] by blast
  then have "h \<in> set (?k # zs)" using h(1) unfolding chain_def by blast
  then obtain as bs where ab: "?k # zs = as @ h # bs" by (meson split_list)
  have "lseg d (word_of_nat h) (h # bs) NO_RECORD"
    using c ab by (auto simp: chain_def lseg_append)
  moreover have "set (h # bs) \<subseteq> set (?k # zs)" unfolding ab by auto
  ultimately show "find_record d record h None = Some None"
    using chain_places [OF lay c] chain_in [OF c] none by (intro find_record_none) blast+
qed

lemma unlink_record_ok:
  assumes lay: "layout b d L" and c: "chain b d L h (us @ x # ys)"
  shows "\<exists>d' e. unlink_record d x (if us = [] then None else Some (last us)) = Some (d', e) \<and> e \<in> L \<and>
    length d' = length d \<and> layout b d' (L - {e}) \<and> stored d L = add_mset (entry d x) (stored d' (L - {e}))"
proof -
  have pl: "\<forall>y\<in>set (us @ x # ys). y < length d \<and> idx_ok y" by (rule chain_places [OF lay c])
  have xL: "x \<in> L" using chain_in [OF c, of x] by simp
  show ?thesis
  proof (cases us rule: rev_cases)
    case (snoc vs g)
    then have c': "chain b d L h (vs @ g # x # ys)" using c by simp
    show ?thesis
      using layout_unlink [OF lay c'] snoc pl xL
      by (auto simp: unlink_record_def get_link_def put_link_def)
  next
    case Nil
    then have c': "chain b d L h (x # ys)" and "h = x" using c chain_idx_ok(2) [OF lay, of h x ys] by auto
    then have hx: "chain b d L x (x # ys)" by simp
    show ?thesis
    proof (cases ys)
      case Nil
      then have "nxt (d ! x) = NO_RECORD" using hx by (simp add: chain_def)
      then show ?thesis
        using layout_unlink_only [OF lay, of x] hx Nil \<open>us = []\<close> pl xL
        by (auto simp: unlink_record_def get_link_def)
    next
      case (Cons q zs)
      then have "nxt (d ! x) = word_of_nat q" "q \<in> L" using hx chain_in [OF hx, of q] by (auto simp: chain_def)
      then show ?thesis
        using layout_unlink_head [OF lay, of x q zs] hx Cons \<open>us = []\<close> pl xL
        by (auto simp: unlink_record_def get_link_def put_link_def idx_simps)
    qed
  qed
qed

section \<open>Merging the last bucket\<close>

text \<open>When place \<open>r\<close> is not in use, its bucket is empty and nothing changes.\<close>

lemma layout_shrink_empty:
  assumes lay: "layout b d L" and r: "r \<notin> L" and b': "\<And>h. b' h = (if b h = r then q else b h)"
  shows "layout b' d L"
proof (rule layout_change [OF lay, where H = "{}"])
  have "bucket b d i \<noteq> r" if "i \<in> L" for i using bucket_empty [OF lay _ that] r by blast
  then show "{i \<in> L. bucket b' d i = k} = {i \<in> L. bucket b d i = k}" for k by (auto simp: b')
qed (use layout_places [OF lay] in auto)

text \<open>The first link of bucket \<open>r\<close> moves to the free place \<open>q\<close>, the place of the merged bucket.\<close>

lemma layout_move_head:
  assumes lay: "layout b d L" and r: "r \<in> L" "bucket b d r = r" and q: "q \<notin> L" "q < length d" "idx_ok q"
    and b': "\<And>h. b' h = (if b h = r then q else b h)"
  shows "layout b' (d[q := d ! r]) (insert q (L - {r}))" "stored (d[q := d ! r]) (insert q (L - {r})) = stored d L"
proof -
  let ?d = "d[q := d ! r]"
  have fin: "finite L" using layout_places [OF lay] by (simp add: places_def)
  obtain ys where c: "chain b d L r (r # ys)" using layout_chain [OF lay r] by blast
  have ent: "entry ?d i = (if i = q then entry d r else entry d i)" for i
    using q(2) by (simp add: entry_def nth_upd)
  have buc: "bucket b' ?d i = (if i = q then q else if bucket b d i = r then q else bucket b d i)" for i
    using r(2) q(2) by (simp add: b' nth_upd)
  have bq: "bucket b d i \<noteq> q" if "i \<in> L" for i using bucket_empty [OF lay _ that] q(1) by blast
  have "stored ?d (insert q (L - {r})) = add_mset (entry d r) (stored ?d (L - {r}))"
    using stored_insert [of "L - {r}" q ?d] fin q(1) ent by simp
  also have "stored ?d (L - {r}) = stored d (L - {r})" by (rule stored_cong) (use ent q(1) in auto)
  finally show "stored ?d (insert q (L - {r})) = stored d L" using stored_remove [OF fin r(1), of d] by simp
  show "layout b' ?d (insert q (L - {r}))"
  proof (rule layout_change [OF lay, where H = "{q, r}"])
    show "places ?d (insert q (L - {r}))"
      using layout_places [OF lay] q(2,3) by (auto simp: places_def)
    show "nxt (?d ! i) = nxt (d ! i)" if "i \<in> L" for i using that q(1) by (auto simp: nth_upd)
    show "{i \<in> insert q (L - {r}). bucket b' ?d i = k} = {i \<in> L. bucket b d i = k}" if "k \<notin> {q, r}" for k
      using that r(2) q(1) by (auto simp: buc)
    have disj: "q \<notin> set (r # ys)" "r \<notin> set ys" "distinct ys" and seg: "lseg d (nxt (d ! r)) ys NO_RECORD"
      using c q(1) by (auto simp: chain_def)
    have "lseg ?d (word_of_nat q) (q # ys) NO_RECORD" using seg disj q(2) by simp
    moreover have "set (q # ys) = {i \<in> insert q (L - {r}). bucket b' ?d i = q}"
    proof -
      have "set ys = {i \<in> L. bucket b d i = r} - {r}" using c disj by (auto simp: chain_def)
      then show ?thesis using bq q(1) by (auto simp: buc)
    qed
    moreover have "distinct (q # ys)" using disj by auto
    ultimately have cq: "chain b' ?d (insert q (L - {r})) q (q # ys)" by (simp only: chain_def simp_thms)
    fix k i assume k: "k \<in> {q, r}" and i: "i \<in> insert q (L - {r})" "bucket b' ?d i = k"
    have "k \<noteq> r" using i r(1) q(1) by (auto simp: buc split: if_splits)
    then show "idx_ok k \<and> (\<exists>xs. chain b' ?d (insert q (L - {r})) k xs)" using k cq q(3) by blast
  qed
qed

text \<open>
  Bucket \<open>r\<close> is merged into a bucket whose first place \<open>p\<close> is in use: the links of \<open>r\<close> come after
  \<open>p\<close>, with the first of them at the free place \<open>e\<close>.
\<close>

lemma layout_merge:
  assumes lay: "layout b d L" and r: "r \<in> L" "p \<in> L" "p \<noteq> r" and e: "e \<notin> L" "e < length d" "idx_ok e"
    and us: "lseg d (nxt (d ! r)) us target" "\<forall>u\<in>set us. word_of_nat u \<noteq> target"
    and ys: "lseg d (nxt (d ! p)) ys NO_RECORD" and dist: "distinct (p # r # us @ ys)"
    and sets: "set (p # r # us @ ys) = {i \<in> L. bucket b d i = r \<or> bucket b d i = p}"
    and b': "\<And>h. b' h = (if b h = r then p else b h)"
  shows "\<exists>d2. movelink (d[e := d ! r]) target e (nxt (d ! p)) = Some d2 \<and> length d2 = length d \<and>
    layout b' (d2[p := (d2 ! p)\<lparr>nxt := word_of_nat e\<rparr>]) (insert e (L - {r})) \<and>
    stored (d2[p := (d2 ! p)\<lparr>nxt := word_of_nat e\<rparr>]) (insert e (L - {r})) = stored d L"
proof -
  let ?d1 = "d[e := d ! r]"
  have pl: "\<forall>x\<in>L. x < length d \<and> idx_ok x" and fin: "finite L"
    using layout_places [OF lay] by (auto simp: places_def)
  have inL: "set (p # r # us @ ys) \<subseteq> L" using sets by blast
  obtain vs g where vs: "e # us = vs @ [g]" by (metis list.distinct(1) rev_exhaust)
  let ?d2 = "?d1[g := (?d1 ! g)\<lparr>nxt := nxt (d ! p)\<rparr>]"
  define d3 where "d3 = ?d2[p := (?d2 ! p)\<lparr>nxt := word_of_nat e\<rparr>]"
  have eo: "e \<notin> set (p # r # us @ ys)" using inL e(1) by blast
  have gin: "g \<in> insert e (set us)" "g \<noteq> p" "g < length d" "g \<notin> set ys" "g \<notin> set vs"
  proof -
    show gi: "g \<in> insert e (set us)" using vs by (metis in_set_conv_decomp list.simps(15))
    show "g \<noteq> p" "g \<notin> set ys" using gi eo dist by auto
    show "g < length d" using gi e(2) inL pl by auto
    have "distinct (e # us)" using eo dist by auto
    then show "g \<notin> set vs" unfolding vs by simp
  qed
  have seg1: "lseg ?d1 (word_of_nat e) (vs @ [g]) target"
    unfolding vs [symmetric] using us(1) eo e(2) by simp
  have mv: "movelink ?d1 target e (nxt (d ! p)) = Some ?d2"
  proof (rule movelink_lseg [OF seg1 refl])
    show "\<forall>y\<in>set (vs @ [g]). y < length ?d1 \<and> idx_ok y"
      unfolding vs [symmetric] using e inL pl by auto
    have "set (tl (vs @ [g])) = set us" unfolding vs [symmetric] by simp
    then show "\<forall>y\<in>set (tl (vs @ [g])). word_of_nat y \<noteq> target" using us(2) by blast
  qed (use e in simp)
  have ent: "entry d3 i = (if i = e then entry d r else entry d i)" for i
  proof -
    have "entry d3 i = entry ?d1 i" by (simp add: d3_def)
    then show ?thesis using e(2) by (simp add: entry_update entry_def)
  qed
  have buc: "bucket b d3 i = (if i = e then bucket b d r else bucket b d i)" for i
    using ent [of i] by (auto simp: entry_def)
  have rr: "bucket b d r = r \<or> bucket b d r = p" and pp: "bucket b d p = r \<or> bucket b d p = p"
    using sets by auto
  have new: "lseg d3 (word_of_nat p) (p # e # us @ ys) NO_RECORD"
  proof -
    have d3p: "nxt (d3 ! p) = word_of_nat e" using r(2) pl by (simp add: nth_upd d3_def)
    have pe: "p \<notin> set (vs @ [g])" unfolding vs [symmetric] using eo dist by auto
    have "lseg ?d2 (word_of_nat e) (vs @ [g]) (nxt (d ! p))"
      using seg1 gin(3,5) by (auto simp: lseg_append nth_upd)
    then have "lseg d3 (word_of_nat e) (vs @ [g]) (nxt (d ! p))" using pe by (simp add: d3_def)
    then have "lseg d3 (word_of_nat e) (e # us) (nxt (d ! p))" unfolding vs .
    moreover have "lseg d3 (nxt (d ! p)) ys NO_RECORD"
      using ys gin(4) eo dist by (simp add: d3_def)
    ultimately have "lseg d3 (word_of_nat e) ((e # us) @ ys) NO_RECORD" unfolding lseg_append by blast
    then show ?thesis using d3p by simp
  qed
  have "stored d3 (insert e (L - {r})) = add_mset (entry d r) (stored d3 (L - {r}))"
    using stored_insert [of "L - {r}" e d3] fin e(1) ent by simp
  also have "stored d3 (L - {r}) = stored d (L - {r})" by (rule stored_cong) (use ent e(1) in auto)
  finally have st: "stored d3 (insert e (L - {r})) = stored d L" using stored_remove [OF fin r(1), of d] by simp
  have "layout b' d3 (insert e (L - {r}))"
  proof (rule layout_change [OF lay, where H = "{p, r}"])
    show "places d3 (insert e (L - {r}))" using layout_places [OF lay] e by (auto simp: places_def d3_def)
    show "nxt (d3 ! i) = nxt (d ! i)" if "i \<in> L" "bucket b d i \<notin> {p, r}" for i
    proof -
      have "i \<notin> set (p # r # us @ ys)" using sets that by auto
      then have "i \<noteq> p" "i \<noteq> g" "i \<noteq> e" using gin(1) that(1) e(1) by auto
      then show ?thesis by (simp add: d3_def)
    qed
    show "{i \<in> insert e (L - {r}). bucket b' d3 i = k} = {i \<in> L. bucket b d i = k}" if "k \<notin> {p, r}" for k
      using that rr e(1) by (auto simp: buc b')
    have "{i \<in> insert e (L - {r}). bucket b' d3 i = p} = insert e ({i \<in> L. bucket b d i = r \<or> bucket b d i = p} - {r})"
      using rr e(1) by (auto simp: buc b')
    also have "\<dots> = insert e (set (p # r # us @ ys) - {r})" unfolding sets ..
    also have "\<dots> = set (p # e # us @ ys)" using dist by auto
    finally have set: "set (p # e # us @ ys) = {i \<in> insert e (L - {r}). bucket b' d3 i = p}" ..
    have "distinct (p # e # us @ ys)" using dist eo by auto
    then have cp: "chain b' d3 (insert e (L - {r})) p (p # e # us @ ys)"
      using new set by (simp only: chain_def simp_thms)
    fix k i assume k: "k \<in> {p, r}" and i: "i \<in> insert e (L - {r})" "bucket b' d3 i = k"
    have "k \<noteq> r" using i r(3) by (auto simp: buc b' split: if_splits)
    then show "idx_ok k \<and> (\<exists>xs. chain b' d3 (insert e (L - {r})) k xs)"
      using k cp pl r(2) by blast
  qed
  then show ?thesis using mv st by (simp add: d3_def)
qed

section \<open>Moving the last link\<close>

text \<open>
  \<open>move_last\<close> after the record at some place has been taken out: \<open>b\<close> is the bucket function of the
  old size, \<open>b'\<close> that of the new one, which sends bucket \<open>r\<close> to bucket \<open>q\<close>.
\<close>

lemma move_last_ok:
  assumes lay: "layout b d ({..r} - {e})" and e: "e \<le> r" and r: "r < length d" "idx_ok r"
    and mb: "\<And>h. my_hash_mask h B0 (Suc r) = b h" and mb': "\<And>h. my_hash_mask h B r = b' h"
    and b': "0 < r \<Longrightarrow> q < r \<and> (\<forall>h. b' h = (if b h = r then q else b h))"
  shows "\<exists>d'. move_last B0 B r d e = Some d' \<and> length d' = length d \<and> layout b' d' {..<r} \<and>
    stored d' {..<r} = stored d ({..r} - {e})"
proof (cases "r = 0")
  case True
  then show ?thesis using e by (auto simp: move_last_def layout_def places_def stored_def)
next
  case False
  then have q: "q < r" and b': "\<And>h. b' h = (if b h = r then q else b h)" using b' by auto
  let ?L = "{..r} - {e}"
  note ml = move_last_def Let_def get_link_def put_link_def mb mb'
  show ?thesis
  proof (cases "e = r")
    case True
    then have "?L = {..<r}" by auto
    moreover have "layout b' d ?L" by (rule layout_shrink_empty [OF lay _ b']) (use True in simp)
    ultimately show ?thesis using True by (simp add: ml)
  next
    case False
    then have er: "e < r" and rL: "r \<in> ?L" and eL: "e \<notin> ?L" "e < length d" "idx_ok e"
      and L': "insert e (?L - {r}) = {..<r}" using e r by (auto simp: idx_ok_def)
    show ?thesis
    proof (cases "bucket b d r = r")
      case False
      let ?p = "bucket b d r"
      have p: "?p \<in> ?L" "bucket b d ?p = ?p" using layout_head [OF lay rL] by auto
      then have pr: "?p < r" "?p \<noteq> e" using False by auto
      obtain us g ys where c: "chain b d ?L ?p (us @ g # r # ys)" using chain_pred [OF lay rL refl False] by blast
      have ge: "g \<noteq> e" using chain_in [OF c, of g] eL(1) by auto
      let ?d1 = "d[e := d ! r]"
      have mv: "movelink ?d1 (word_of_nat r) ?p (word_of_nat e) = Some (?d1[g := (?d1 ! g)\<lparr>nxt := word_of_nat e\<rparr>])"
      proof (rule movelink_chain [OF lay c])
        fix x assume "x \<in> set (us @ [g])"
        then have "x \<noteq> e" using chain_in [OF c, of x] eL(1) by auto
        then show "nxt (?d1 ! x) = nxt (d ! x)" by simp
      qed simp
      note R = layout_relocate [OF lay c eL]
      have "layout b' (?d1[g := (?d1 ! g)\<lparr>nxt := word_of_nat e\<rparr>]) {..<r}"
        using layout_shrink_empty [OF R(1) _ b'] ge L' eL(1) rL by simp
      moreover have "move_last B0 B r d e = Some (?d1[g := (?d1 ! g)\<lparr>nxt := word_of_nat e\<rparr>])"
        using er r(1) pr False p(2) mv eL(2) by (simp add: ml b')
      ultimately show ?thesis using R(2) ge L' by simp
    next
      case rr: True
      then have bq: "b' (hash_nr (d ! r)) = q" by (simp add: b')
      have qi: "q < length d" "idx_ok q" using q r by (auto simp: idx_ok_def)
      show ?thesis
      proof (cases "q = e")
        case True
        then have "move_last B0 B r d e = Some (d[e := d ! r])" using er r(1) bq eL(2) by (simp add: ml)
        then show ?thesis using layout_move_head [OF lay rL rr eL b' [unfolded True]] L' by simp
      next
        case qe: False
        then have qL: "q \<in> ?L" "q \<noteq> r" using q by auto
        let ?bq = "bucket b d q"
        have b'q: "b' (hash_nr (d ! q)) = (if ?bq = r then q else ?bq)" by (simp add: b')
        consider (foreign) "?bq \<noteq> q" "?bq \<noteq> r" | (same) "?bq = r" | (own) "?bq = q" by blast
        then show ?thesis
        proof cases
          case foreign
          obtain us g ys where c: "chain b d ?L ?bq (us @ g # q # ys)"
            using chain_pred [OF lay qL(1) refl foreign(1)] by blast
          have g: "g \<in> ?L" "bucket b d g = ?bq" "g \<noteq> q" using chain_in [OF c, of g] c by (auto simp: chain_def)
          then have gne: "g \<noteq> e" "g \<noteq> r" "g < length d" using rr foreign(2) r(1) by auto
          let ?d2 = "d[e := d ! q, q := d ! r]"
          have mv: "movelink ?d2 (word_of_nat q) ?bq (word_of_nat e) = Some (?d2[g := (?d2 ! g)\<lparr>nxt := word_of_nat e\<rparr>])"
          proof (rule movelink_chain [OF lay c])
            fix x assume "x \<in> set (us @ [g])"
            then have "x \<noteq> e" "x \<noteq> q" using chain_in [OF c, of x] eL(1) c by (auto simp: chain_def)
            then show "nxt (?d2 ! x) = nxt (d ! x)" by simp
          qed simp
          let ?dR = "d[e := d ! q, g := (d ! g)\<lparr>nxt := word_of_nat e\<rparr>]"
          have R: "layout b ?dR (insert e (?L - {q}))" "stored ?dR (insert e (?L - {q})) = stored d ?L"
            using layout_relocate [OF lay c eL] by simp_all
          have dRr: "?dR ! r = d ! r" using gne er by simp
          have eq: "?dR[q := ?dR ! r] = ?d2[g := (?d2 ! g)\<lparr>nxt := word_of_nat e\<rparr>]"
            unfolding dRr using gne g(3) qe by (simp add: list_update_swap)
          have M: "layout b' (?dR[q := ?dR ! r]) (insert q (insert e (?L - {q}) - {r}))"
            "stored (?dR[q := ?dR ! r]) (insert q (insert e (?L - {q}) - {r})) = stored d ?L"
            using layout_move_head [OF R(1) _ _ _ _ _ b'] R(2) rL rr dRr qL qi qe er by simp_all
          moreover have "insert q (insert e (?L - {q}) - {r}) = {..<r}" using L' qL er by auto
          moreover have "move_last B0 B r d e = Some (?d2[g := (?d2 ! g)\<lparr>nxt := word_of_nat e\<rparr>])"
            using er r(1) bq b'q qe qi foreign mv eL(2) by (simp add: ml)
          ultimately show ?thesis using eq by simp
        next
          case same
          obtain zs where "chain b d ?L r (r # zs)" using layout_chain [OF lay rL rr] by blast
          moreover have "q \<in> set (r # zs)" using calculation qL(1) same unfolding chain_def by blast
          then obtain us ys where "zs = us @ q # ys" using qL(2) by (auto dest: split_list)
          ultimately have c: "chain b d ?L r (r # us @ q # ys)" by simp
          then have seg: "lseg d (nxt (d ! r)) us (word_of_nat q)" "lseg d (nxt (d ! q)) ys NO_RECORD"
            "distinct (q # r # us @ ys)" by (auto simp: chain_def lseg_append)
          have emptyq: "bucket b d i \<noteq> q" if "i \<in> ?L" for i
            using bucket_empty [OF lay _ that, of q] same qL(2) by simp
          have "set (q # r # us @ ys) = {i \<in> ?L. bucket b d i = r \<or> bucket b d i = q}"
            using c emptyq unfolding chain_def by auto
          moreover have "\<forall>u\<in>set us. (word_of_nat u :: uint32) \<noteq> word_of_nat q"
            using seg(3) chain_places [OF lay c] by (auto simp: idx_simps)
          ultimately obtain d2 where d2: "movelink (d[e := d ! r]) (word_of_nat q) e (nxt (d ! q)) = Some d2" "length d2 = length d"
            "layout b' (d2[q := (d2 ! q)\<lparr>nxt := word_of_nat e\<rparr>]) (insert e (?L - {r}))"
            "stored (d2[q := (d2 ! q)\<lparr>nxt := word_of_nat e\<rparr>]) (insert e (?L - {r})) = stored d ?L"
            using layout_merge [OF lay rL qL eL seg(1) _ seg(2,3) _ b'] by blast
          have "move_last B0 B r d e = Some (d2[q := (d2 ! q)\<lparr>nxt := word_of_nat e\<rparr>])"
            using er r(1) bq b'q qe qi same rr d2(1,2) eL(2) by (simp add: ml)
          then show ?thesis using d2(2-4) L' by simp
        next
          case own
          obtain us where cr: "chain b d ?L r (r # us)" using layout_chain [OF lay rL rr] by blast
          obtain ys where cq: "chain b d ?L q (q # ys)" using layout_chain [OF lay qL(1) own] by blast
          have seg: "lseg d (nxt (d ! r)) us NO_RECORD" "lseg d (nxt (d ! q)) ys NO_RECORD"
            using cr cq by (simp_all add: chain_def)
          have "set (r # us) = {i \<in> ?L. bucket b d i = r}" "set (q # ys) = {i \<in> ?L. bucket b d i = q}"
            using cr cq by (simp_all add: chain_def)
          moreover have "{i \<in> ?L. bucket b d i = r} \<inter> {i \<in> ?L. bucket b d i = q} = {}" using qL(2) by auto
          ultimately have "set (r # us) \<inter> set (q # ys) = {}"
            and sets: "set (q # r # us @ ys) = {i \<in> ?L. bucket b d i = r \<or> bucket b d i = q}" by auto
          then have dist: "distinct (q # r # us @ ys)" using cr cq by (auto simp: chain_def)
          have "\<forall>u\<in>set us. (word_of_nat u :: uint32) \<noteq> NO_RECORD"
            using chain_places [OF lay cr] by (auto simp: idx_simps)
          then obtain d2 where d2: "movelink (d[e := d ! r]) NO_RECORD e (nxt (d ! q)) = Some d2" "length d2 = length d"
            "layout b' (d2[q := (d2 ! q)\<lparr>nxt := word_of_nat e\<rparr>]) (insert e (?L - {r}))"
            "stored (d2[q := (d2 ! q)\<lparr>nxt := word_of_nat e\<rparr>]) (insert e (?L - {r})) = stored d ?L"
            using layout_merge [OF lay rL qL eL seg(1) _ seg(2) dist sets b'] by blast
          have "move_last B0 B r d e = Some (d2[q := (d2 ! q)\<lparr>nxt := word_of_nat e\<rparr>])"
            using er r(1) bq b'q qe qi qL(2) own rr d2(1,2) eL(2) by (simp add: ml)
          then show ?thesis using d2(2-4) L' by simp
        qed
      qed
    qed
  qed
qed

end
