(* ===== verification/Hash_Find.thy ===== *)
theory Hash_Find
  imports Hash_Del
begin

text \<open>
  Hash tables as a whole: the invariant of \<open>HASH\<close>, and searching in \<open>mysys/hash.c\<close>: the rows that
  \<open>my_hash_first\<close> and \<open>my_hash_next\<close> return.
\<close>

section \<open>The invariant\<close>

abbreviation bucket_of :: "HASH \<Rightarrow> uint32 \<Rightarrow> nat" where
  "bucket_of h v \<equiv> my_hash_mask v (blength h) (records h)"

definition table_ok :: "HASH \<Rightarrow> bool" where
  "table_ok h \<longleftrightarrow>
     dyn_ok (array h) \<and> elements (array h) = records h \<and> size_of_element (array h) = HASH_LINK_SIZE \<and>
     (\<exists>k. blength h = 2 ^ k) \<and> blength h div 2 \<le> records h \<and> records h < blength h \<and> idx_ok (records h) \<and>
     layout (bucket_of h) (links h) {..<records h}"

text \<open>Every link holds the hash value of its row's key, in the memory \<open>m\<close>.\<close>

definition hash_ok :: "memory \<Rightarrow> HASH \<Rightarrow> bool" where
  "hash_ok m h \<longleftrightarrow>
     table_ok h \<and>
     (\<forall>i<records h. hash_nr (links h ! i) = rec_hashnr h m (row (links h ! i)) \<and> row (links h ! i) \<noteq> 0)"

text \<open>
  What the table asks of its callbacks: the flag \<open>first\<close> does not change the key, and keys that
  compare equal have equal hash values.
\<close>

definition hash_contract :: "memory \<Rightarrow> HASH \<Rightarrow> bool" where
  "hash_contract m h \<longleftrightarrow>
     (\<forall>r. my_hash_key h m r True = my_hash_key h m r False) \<and>
     (\<forall>s t. length s = length t \<longrightarrow> strnncoll (charset h) s t False = 0 \<longrightarrow>
        hash_function h (charset h) s = hash_function h (charset h) t)"

context collation
begin

lemma sort_agrees:
  assumes "length s = length t" "strnncoll cs s t False = 0"
  shows "my_hash_sort cs s = my_hash_sort cs t"
  using coll_hash [OF assms] by (simp add: my_hash_sort_def)

end

text \<open>The row has the key with these bytes (of any length when \<open>len\<close> is 0).\<close>

definition row_matches :: "HASH \<Rightarrow> memory \<Rightarrow> nat \<Rightarrow> nat \<Rightarrow> nat \<Rightarrow> bool" where
  "row_matches h m key len r =
     (let (rec_key, rec_keylength) = my_hash_key h m r True
      in (len = 0 \<or> len = rec_keylength) \<and>
         strnncoll (charset h) (bytes_at m rec_key rec_keylength) (bytes_at m key rec_keylength) False = 0)"

lemma hashcmp_row: "hashcmp h m l key len \<longleftrightarrow> \<not> row_matches h m key len (row l)"
  by (auto simp: hashcmp_def row_matches_def split: prod.splits)

lemma matches_hash:
  assumes "hash_contract m h" "row_matches h m key len r" "len \<noteq> 0"
  shows "rec_hashnr h m r = hash_function h (charset h) (bytes_at m key len)"
proof -
  obtain k n where k: "my_hash_key h m r True = (k, n)" by fastforce
  then have "my_hash_key h m r False = (k, n)" using assms(1) by (simp add: hash_contract_def)
  moreover have "length (bytes_at m k n) = length (bytes_at m key n)" by (simp add: bytes_at_def)
  ultimately show ?thesis using assms k by (auto simp: row_matches_def rec_hashnr_def hash_contract_def)
qed

lemma table_layout: "table_ok h \<Longrightarrow> layout (bucket_of h) (links h) {..<records h}"
  by (simp add: table_ok_def)

lemma table_links: "table_ok h \<Longrightarrow> records h \<le> length (links h)"
  by (simp add: table_ok_def dyn_ok_def links_def)

lemma bucket_of_less: "table_ok h \<Longrightarrow> 0 < records h \<Longrightarrow> bucket_of h v < records h"
  by (rule mask_less) (auto simp: table_ok_def table_size_def)

lemma table_idx: "table_ok h \<Longrightarrow> i \<le> records h \<Longrightarrow> idx_ok i"
  by (simp add: table_ok_def idx_ok_def)

lemma rows_stored:
  assumes "records h \<le> length (links h)"
  shows "mset (rows_of h) = image_mset snd (stored (links h) {..<records h})"
proof -
  have "rows_of h = map (\<lambda>i. row (links h ! i)) [0..<records h]"
    using assms by (auto simp: rows_of_def intro!: nth_equalityI)
  then have "mset (rows_of h) = image_mset (\<lambda>i. row (links h ! i)) (mset [0..<records h])" by simp
  also have "mset [0..<records h] = mset_set {..<records h}" by (simp add: mset_upt atLeast0LessThan)
  finally show ?thesis by (simp add: stored_def entry_def image_mset.compositionality comp_def)
qed

section \<open>Walking along the links\<close>

definition hits :: "HASH \<Rightarrow> memory \<Rightarrow> nat \<Rightarrow> nat \<Rightarrow> nat list \<Rightarrow> nat list" where
  "hits h m key len zs = filter (\<lambda>x. row_matches h m key len (row (links h ! x))) zs"

definition found_at :: "HASH \<Rightarrow> nat list \<Rightarrow> nat \<times> uint32" where
  "found_at h xs = (case xs of [] \<Rightarrow> (0, NO_RECORD) | x # _ \<Rightarrow> (row (links h ! x), word_of_nat x))"

lemma next_loop_lseg:
  assumes "lseg (links h) w zs NO_RECORD" "\<forall>x\<in>set zs. x < length (links h) \<and> idx_ok x"
  shows "next_loop h m key len w = Some (found_at h (hits h m key len zs))"
  using assms
proof (induction zs arbitrary: w)
  case Nil
  then show ?case by (subst next_loop.simps) (simp add: found_at_def hits_def)
next
  case (Cons x zs)
  have "next_loop h m key len (nxt (links h ! x)) = Some (found_at h (hits h m key len zs))"
    using Cons by (intro Cons.IH) auto
  then show ?case using Cons.prems
    by (subst next_loop.simps) (auto simp: get_link_def idx_simps hashcmp_row found_at_def hits_def)
qed

lemma my_hash_next_lseg:
  assumes "lseg (links h) (nxt (links h ! x)) zs NO_RECORD" "\<forall>y\<in>set (x # zs). y < length (links h) \<and> idx_ok y"
  shows "my_hash_next h m key len (word_of_nat x) = Some (found_at h (hits h m key len zs))"
  using assms next_loop_lseg [of h "nxt (links h ! x)" zs m key len]
  by (auto simp: my_hash_next_def get_link_def idx_simps)

lemma first_loop_lseg:
  assumes "lseg (links h) (word_of_nat p) (p # zs) NO_RECORD" "\<forall>x\<in>set (p # zs). x < length (links h) \<and> idx_ok x"
    "flag \<Longrightarrow> bucket_of h (hash_nr (links h ! p)) = p"
  shows "first_loop h m key len flag p = Some (found_at h (hits h m key len (p # zs)))"
  using assms
proof (induction zs arbitrary: p flag)
  case Nil
  then show ?case
    by (subst first_loop.simps) (auto simp: get_link_def hashcmp_row found_at_def hits_def my_hash_rec_mask_def)
next
  case (Cons q zs)
  have "first_loop h m key len False q = Some (found_at h (hits h m key len (q # zs)))"
    using Cons.prems by (intro Cons.IH) auto
  then show ?case using Cons.prems
    by (subst first_loop.simps)
      (auto simp: get_link_def idx_simps hashcmp_row found_at_def hits_def my_hash_rec_mask_def)
qed

lemma filter_split: "filter P zs = us @ x # vs \<Longrightarrow> \<exists>as bs. zs = as @ x # bs \<and> vs = filter P bs"
proof (induction zs arbitrary: us)
  case (Cons z zs)
  show ?case
  proof (cases "P z \<and> us = []")
    case True
    then show ?thesis using Cons.prems by (intro exI [of _ "[]"] exI [of _ zs]) auto
  next
    case False
    then have "\<exists>us'. filter P zs = us' @ x # vs"
      using Cons.prems by (cases us) (auto split: if_splits)
    then obtain as bs where "zs = as @ x # bs" "vs = filter P bs" using Cons.IH by blast
    then show ?thesis by (intro exI [of _ "z # as"] exI [of _ bs]) auto
  qed
qed simp

text \<open>The links that a search along bucket \<open>p\<close> sees, and what it returns first.\<close>

lemma bucket_walk:
  assumes ok: "table_ok h" and p: "p < records h"
  obtains zs where "lseg (links h) (word_of_nat p) (p # zs) NO_RECORD" "distinct (p # zs)"
    "\<forall>x\<in>set (p # zs). x < records h \<and> x < length (links h) \<and> idx_ok x"
    "bucket_of h (hash_nr (links h ! p)) = p \<Longrightarrow> chain (bucket_of h) (links h) {..<records h} p (p # zs)"
proof -
  note lay = table_layout [OF ok]
  let ?k = "bucket_of h (hash_nr (links h ! p))"
  obtain ys where c: "chain (bucket_of h) (links h) {..<records h} ?k (?k # ys)"
    using layout_chain [OF lay, of p ?k] p by auto
  have "p \<in> set (?k # ys)" using c p unfolding chain_def by blast
  then obtain as zs where sp: "?k # ys = as @ p # zs" by (meson split_list)
  have seg: "lseg (links h) (word_of_nat p) (p # zs) NO_RECORD" "distinct (p # zs)"
    using c sp by (auto simp: chain_def lseg_append)
  have "\<forall>x\<in>set (?k # ys). x < records h \<and> x < length (links h) \<and> idx_ok x"
    using chain_in [OF c] table_links [OF ok] table_idx [OF ok] by fastforce
  then have pl: "\<forall>x\<in>set (p # zs). x < records h \<and> x < length (links h) \<and> idx_ok x" unfolding sp by simp
  have "chain (bucket_of h) (links h) {..<records h} p (p # zs)" if "?k = p"
  proof -
    have "as = []" using c sp \<open>?k = p\<close> by (cases as) (auto simp: chain_def)
    then show ?thesis using c sp \<open>?k = p\<close> by simp
  qed
  then show ?thesis using that seg pl by blast
qed

lemma first_ok:
  assumes ok: "table_ok h" and home: "\<And>x. x < records h \<Longrightarrow> row_matches h m key len (row (links h ! x)) \<Longrightarrow>
      bucket_of h (hash_nr (links h ! x)) = bucket_of h v"
  shows "\<exists>xs. my_hash_first_from_hash_value h m v key len = Some (found_at h xs) \<and> distinct xs \<and>
    set xs = {x. x < records h \<and> row_matches h m key len (row (links h ! x))} \<and>
    (\<forall>us x vs. xs = us @ x # vs \<longrightarrow> my_hash_next h m key len (word_of_nat x) = Some (found_at h vs))"
proof (cases "records h = 0")
  case True
  then show ?thesis by (auto simp: my_hash_first_from_hash_value_def found_at_def)
next
  case False
  let ?p = "bucket_of h v"
  have p: "?p < records h" using bucket_of_less [OF ok] False by simp
  obtain zs where zs: "lseg (links h) (word_of_nat ?p) (?p # zs) NO_RECORD" "distinct (?p # zs)"
    "\<forall>x\<in>set (?p # zs). x < records h \<and> x < length (links h) \<and> idx_ok x"
    "bucket_of h (hash_nr (links h ! ?p)) = ?p \<Longrightarrow> chain (bucket_of h) (links h) {..<records h} ?p (?p # zs)"
    using bucket_walk [OF ok p] by blast
  show ?thesis
  proof (cases "bucket_of h (hash_nr (links h ! ?p)) = ?p")
    case True
    let ?xs = "hits h m key len (?p # zs)"
    have "my_hash_first_from_hash_value h m v key len = Some (found_at h ?xs)"
      using False first_loop_lseg [OF zs(1)] zs(3) True by (simp add: my_hash_first_from_hash_value_def)
    moreover have "set ?xs = {x. x < records h \<and> row_matches h m key len (row (links h ! x))}"
    proof -
      have "set (?p # zs) = {x \<in> {..<records h}. bucket_of h (hash_nr (links h ! x)) = ?p}"
        using zs(4) [OF True] by (simp add: chain_def)
      then show ?thesis using home unfolding hits_def set_filter by blast
    qed
    moreover have "my_hash_next h m key len (word_of_nat x) = Some (found_at h vs)" if hit: "?xs = us @ x # vs" for us x vs
    proof -
      obtain as bs where ab: "?p # zs = as @ x # bs" "vs = hits h m key len bs"
        using filter_split [OF hit [unfolded hits_def]] by (auto simp: hits_def)
      then have "lseg (links h) (nxt (links h ! x)) bs NO_RECORD"
        using zs(1) by (auto simp: lseg_append simp del: lseg.simps(2)) (auto)
      moreover have "\<forall>y\<in>set (x # bs). y < length (links h) \<and> idx_ok y" using zs(3) ab(1) by auto
      ultimately show ?thesis using my_hash_next_lseg ab(2) by blast
    qed
    moreover have "distinct ?xs" using zs(2) by (simp add: hits_def)
    ultimately show ?thesis by blast
  next
    case foreign: False
    have none: "\<not> row_matches h m key len (row (links h ! x))" if "x < records h" for x
    proof
      assume "row_matches h m key len (row (links h ! x))"
      then have "bucket_of h (hash_nr (links h ! x)) = ?p" using home that by blast
      then show False using bucket_empty [OF table_layout [OF ok], of ?p x] foreign that by auto
    qed
    have "my_hash_first_from_hash_value h m v key len = Some (0, NO_RECORD)"
      using False none [OF p] foreign zs(3)
      by (auto simp: my_hash_first_from_hash_value_def my_hash_rec_mask_def hashcmp_row get_link_def first_loop.simps)
    then show ?thesis using none by (intro exI [of _ "[]"]) (auto simp: found_at_def)
  qed
qed

end
