(* ===== verification/Hash_Table.thy ===== *)
theory Hash_Table
  imports Hash_Find
begin

text \<open>
  The public operations of \<open>mysys/hash.c\<close>: a hash table is a bag of rows.  Insertion, deletion and
  update keep the invariant and change the bag as their names say, in every case of the split,
  merge and relink code; a search returns exactly the rows with the key.
\<close>

section \<open>Changes of the state\<close>

text \<open>The key callbacks are the same.\<close>

definition same_keys :: "HASH \<Rightarrow> HASH \<Rightarrow> bool" where
  "same_keys h h' \<longleftrightarrow>
     get_key h' = get_key h \<and> key_offset h' = key_offset h \<and> key_length h' = key_length h \<and>
     hash_function h' = hash_function h \<and> charset h' = charset h \<and> flags h' = flags h"

lemma same_keys_simps:
  assumes "same_keys h h'"
  shows "my_hash_key h' = my_hash_key h" "rec_hashnr h' = rec_hashnr h" "row_matches h' = row_matches h"
    "hash_contract m h' = hash_contract m h"
proof -
  show key: "my_hash_key h' = my_hash_key h" using assms by (intro ext) (simp add: my_hash_key_def same_keys_def split: option.splits)
  show "rec_hashnr h' = rec_hashnr h" "row_matches h' = row_matches h"
    using assms by (intro ext; simp add: rec_hashnr_def row_matches_def key same_keys_def)+
  show "hash_contract m h' = hash_contract m h" using assms by (simp add: hash_contract_def key same_keys_def)
qed

lemma set_stored: "finite L \<Longrightarrow> set_mset (stored d L) = entry d ` L"
  by (simp add: stored_def)

definition entries_ok :: "memory \<Rightarrow> HASH \<Rightarrow> (uint32 \<times> nat) multiset \<Rightarrow> bool" where
  "entries_ok m h S \<longleftrightarrow> (\<forall>p\<in>#S. fst p = rec_hashnr h m (snd p) \<and> snd p \<noteq> 0)"

lemma hash_ok_stored: "hash_ok m h \<longleftrightarrow> table_ok h \<and> entries_ok m h (stored (links h) {..<records h})"
  by (auto simp: hash_ok_def entries_ok_def set_stored entry_def)

lemma entries_ok_keys: "same_keys h h' \<Longrightarrow> entries_ok m h' S = entries_ok m h S"
  by (simp add: entries_ok_def same_keys_simps)

lemma layout_cong:
  assumes "layout b d L" "\<And>i. i \<in> L \<Longrightarrow> d' ! i = d ! i" "places d' L"
  shows "layout b d' L"
  by (rule layout_change [OF assms(1,3), where H = "{}"]) (use assms(2) in auto)

lemma links_simps [simp]:
  "links (set_links h d) = d" "links (h\<lparr>records := n\<rparr>) = links h" "links (h\<lparr>blength := B\<rparr>) = links h"
  "elements (array (set_links h d)) = elements (array h)"
  "size_of_element (array (set_links h d)) = size_of_element (array h)"
  "records (set_links h d) = records h" "blength (set_links h d) = blength h"
  by (simp_all add: links_def set_links_def)

lemma dyn_ok_set_links:
  "dyn_ok (array h) \<Longrightarrow> length d = length (links h) \<Longrightarrow> dyn_ok (array (set_links h d))"
  by (simp add: dyn_ok_def set_links_def links_def)

lemma same_keys_upd [simp]:
  "same_keys h h" "same_keys h (h'\<lparr>records := n\<rparr>) = same_keys h h'" "same_keys h (h'\<lparr>blength := n\<rparr>) = same_keys h h'"
  "same_keys h (h'\<lparr>array := a\<rparr>) = same_keys h h'" "same_keys h (set_links h' d) = same_keys h h'"
  by (simp_all add: same_keys_def set_links_def)

lemma alloc_dynamic_size: "alloc_dynamic alloc a = Some (a', r) \<Longrightarrow> size_of_element a' = size_of_element a"
  by (auto simp: alloc_dynamic_def leave_static_def Let_def split: if_splits option.splits bind_splits)

section \<open>Searching\<close>

text \<open>A client's loop: \<open>my_hash_first\<close>, then \<open>my_hash_next\<close> until it returns null, at most \<open>n\<close> times.\<close>

fun next_rows :: "HASH \<Rightarrow> memory \<Rightarrow> nat \<Rightarrow> nat \<Rightarrow> nat \<Rightarrow> nat \<times> uint32 \<Rightarrow> nat list option" where
  "next_rows h m key len 0 st = None"
| "next_rows h m key len (Suc n) st =
     (if fst st = 0 then Some []
      else do { st' \<leftarrow> my_hash_next h m key len (snd st);
                rs \<leftarrow> next_rows h m key len n st';
                Some (fst st # rs) })"

definition all_rows :: "HASH \<Rightarrow> memory \<Rightarrow> nat \<Rightarrow> nat \<Rightarrow> nat list option" where
  "all_rows h m key len = do { st \<leftarrow> my_hash_first h m key len; next_rows h m key len (records h + 1) st }"

lemma next_rows_ok:
  assumes "\<And>us x vs. xs = us @ x # vs \<Longrightarrow> my_hash_next h m key len (word_of_nat x) = Some (found_at h vs)"
    "\<forall>x\<in>set xs. row (links h ! x) \<noteq> 0" "length xs < n"
  shows "next_rows h m key len n (found_at h xs) = Some (map (\<lambda>x. row (links h ! x)) xs)"
  using assms
proof (induction xs arbitrary: n)
  case Nil
  then show ?case by (cases n) (auto simp: found_at_def)
next
  case (Cons x xs)
  obtain k where n: "n = Suc k" using Cons.prems(3) by (cases n) auto
  have "my_hash_next h m key len (word_of_nat x) = Some (found_at h xs)" using Cons.prems(1) [of "[]"] by simp
  moreover have "next_rows h m key len k (found_at h xs) = Some (map (\<lambda>x. row (links h ! x)) xs)"
  proof (rule Cons.IH)
    fix us y vs assume "xs = us @ y # vs"
    then show "my_hash_next h m key len (word_of_nat y) = Some (found_at h vs)" using Cons.prems(1) [of "x # us"] by simp
  qed (use Cons.prems n in auto)
  ultimately show ?case using Cons.prems(2) n by (simp add: found_at_def)
qed

lemma hash_first_ok:
  assumes "hash_ok m h" "hash_contract m h" "len \<noteq> 0"
  shows "\<exists>xs. my_hash_first_from_hash_value h m (hash_function h (charset h) (bytes_at m key len)) key len = Some (found_at h xs) \<and>
    distinct xs \<and> set xs = {x. x < records h \<and> row_matches h m key len (row (links h ! x))} \<and>
    (\<forall>us x vs. xs = us @ x # vs \<longrightarrow> my_hash_next h m key len (word_of_nat x) = Some (found_at h vs))"
proof (rule first_ok)
  show "table_ok h" using assms(1) by (simp add: hash_ok_def)
  fix x assume "x < records h" "row_matches h m key len (row (links h ! x))"
  then show "bucket_of h (hash_nr (links h ! x)) = bucket_of h (hash_function h (charset h) (bytes_at m key len))"
    using assms matches_hash [OF assms(2) _ assms(3)] by (simp add: hash_ok_def)
qed

lemma rows_filter:
  assumes "distinct xs" "set xs = {x. x < records h \<and> P (row (links h ! x))}" "records h \<le> length (links h)"
  shows "mset (map (\<lambda>x. row (links h ! x)) xs) = filter_mset P (mset (rows_of h))"
proof -
  have "mset xs = filter_mset (\<lambda>x. P (row (links h ! x))) (mset_set {..<records h})"
    using assms(1,2) by (simp add: mset_set_set [symmetric] filter_mset_mset_set)
  then have "mset (map (\<lambda>x. row (links h ! x)) xs) =
      filter_mset P (image_mset (\<lambda>x. row (links h ! x)) (mset_set {..<records h}))"
    by (simp add: filter_mset_image_mset)
  also have "image_mset (\<lambda>x. row (links h ! x)) (mset_set {..<records h}) = mset (rows_of h)"
    by (simp add: rows_stored [OF assms(3)] stored_def image_mset.compositionality comp_def entry_def)
  finally show ?thesis .
qed

lemma my_hash_search_ok:
  assumes "hash_ok m h" "hash_contract m h" "len \<noteq> 0"
  shows "\<exists>rs. all_rows h m key len = Some rs \<and> mset rs = filter_mset (row_matches h m key len) (mset (rows_of h)) \<and>
    my_hash_search h m key len = Some (if rs = [] then 0 else hd rs)"
proof -
  obtain xs where xs: "my_hash_first_from_hash_value h m (hash_function h (charset h) (bytes_at m key len)) key len = Some (found_at h xs)"
    "distinct xs" "set xs = {x. x < records h \<and> row_matches h m key len (row (links h ! x))}"
    "\<forall>us x vs. xs = us @ x # vs \<longrightarrow> my_hash_next h m key len (word_of_nat x) = Some (found_at h vs)"
    using hash_first_ok [OF assms] by blast
  let ?rs = "map (\<lambda>x. row (links h ! x)) xs"
  have "length xs = card (set xs)" using xs(2) by (simp add: distinct_card)
  also have "\<dots> \<le> card {..<records h}" by (rule card_mono) (use xs(3) in auto)
  finally have "length xs < records h + 1" by simp
  moreover have "\<forall>x\<in>set xs. row (links h ! x) \<noteq> 0" using xs(3) assms(1) by (auto simp: hash_ok_def)
  ultimately have "next_rows h m key len (records h + 1) (found_at h xs) = Some ?rs"
    using xs(4) by (intro next_rows_ok) blast+
  then have "all_rows h m key len = Some ?rs" using xs(1) assms(3) by (simp add: all_rows_def my_hash_first_def)
  moreover have "mset ?rs = filter_mset (row_matches h m key len) (mset (rows_of h))"
    using rows_filter [OF xs(2,3)] table_links assms(1) by (simp add: hash_ok_def)
  moreover have "my_hash_search h m key len = Some (if ?rs = [] then 0 else hd ?rs)"
    using xs(1) assms(3) by (cases xs) (auto simp: my_hash_search_def my_hash_first_def found_at_def)
  ultimately show ?thesis by blast
qed

section \<open>Insertion\<close>

lemma table_size_Suc:
  assumes "table_ok h" shows "table_size (blength h) (Suc (records h))" "blength h div 2 \<le> records h"
  using assms by (auto simp: table_ok_def table_size_def)

text \<open>A table with one more link, and \<open>blength\<close> doubled when it is full.\<close>

lemma table_grown:
  assumes h: "table_ok h" and a: "dyn_ok a" "elements a = Suc (records h)" "size_of_element a = HASH_LINK_SIZE"
    and d: "length d = length (block (buffer a))" "layout (\<lambda>v. my_hash_mask v (blength h) (Suc (records h))) d {..records h}"
    and n: "idx_ok (Suc (records h))"
  defines "h2 \<equiv> count_record (set_links (h\<lparr>array := a\<rparr>) d)"
  shows "table_ok h2" "links h2 = d" "records h2 = Suc (records h)" "same_keys h h2"
proof -
  show simps: "links h2 = d" "records h2 = Suc (records h)" "same_keys h h2"
    by (simp_all add: h2_def count_record_def Let_def)
  obtain k where k: "blength h = 2 ^ k" using h by (auto simp: table_ok_def)
  have B: "blength h2 = (if Suc (records h) = blength h then 2 * blength h else blength h)"
    by (simp add: h2_def count_record_def Let_def)
  have mask: "my_hash_mask v (blength h2) (records h2) = my_hash_mask v (blength h) (Suc (records h))" for v
    using mask_double [of v k] k by (simp add: B simps(2))
  have arr: "array h2 = (array (set_links (h\<lparr>array := a\<rparr>) d))" by (simp add: h2_def count_record_def Let_def)
  have "dyn_ok (array h2)" unfolding arr using a(1) d(1) by (simp add: dyn_ok_def set_links_def)
  moreover have "elements (array h2) = Suc (records h)" "size_of_element (array h2) = HASH_LINK_SIZE"
    using a(2,3) by (simp_all add: arr)
  moreover have "\<exists>j. blength h2 = 2 ^ j"
  proof (cases "Suc (records h) = blength h")
    case True
    then have "blength h2 = 2 ^ Suc k" using B k by simp
    then show ?thesis by blast
  qed (use B k in auto)
  moreover have "blength h2 div 2 \<le> Suc (records h)" "Suc (records h) < blength h2"
    using h B by (auto simp: table_ok_def)
  moreover have "layout (bucket_of h2) (links h2) {..<records h2}"
    using d(2) by (simp add: simps(1,2) lessThan_Suc_atMost mask [unfolded simps(2)])
  ultimately show "table_ok h2" using n by (simp add: table_ok_def simps(2))
qed

lemma table_idx_fits:
  assumes "table_ok h" "fits (array h) (records h)"
  shows "idx_ok (Suc (records h))"
proof -
  have "0 < size_of_element (array h)" "0 < alloc_increment (array h)" "size_of_element (array h) = 16"
    using assms(1) by (simp_all add: table_ok_def dyn_ok_def HASH_LINK_SIZE_def)
  moreover have "(records h + alloc_increment (array h)) * size_of_element (array h) < 2 ^ 32"
    using assms(2) by (simp add: fits_def)
  ultimately show ?thesis by (simp add: idx_ok_def)
qed

text \<open>Inserting when the key is allowed: the record is added, or there is no memory.\<close>

lemma insert_record_ok:
  assumes h: "table_ok h" and alloc: "alloc_ok HASH_LINK_SIZE alloc" "fits (array h) (records h)"
  shows "\<exists>h' e. insert_record alloc h cur record = Some (h', e) \<and>
    table_ok h' \<and> same_keys h h' \<and> (e \<longrightarrow> h' = h \<and> (\<exists>n. alloc n = None)) \<and>
    (\<not> e \<longrightarrow> stored (links h') {..<records h'} = add_mset (cur, record) (stored (links h) {..<records h}))"
proof -
  let ?n = "records h" let ?B = "blength h"
  have a0: "dyn_ok (array h)" "elements (array h) = ?n" "size_of_element (array h) = HASH_LINK_SIZE"
    using h by (simp_all add: table_ok_def)
  obtain a slot where a: "alloc_dynamic alloc (array h) = Some (a, slot)" "dyn_ok a"
    "case slot of None \<Rightarrow> a = array h
     | Some i \<Rightarrow> i = ?n \<and> elements a = ?n + 1 \<and> take i (block (buffer a)) = da_list (array h)"
    using alloc_dynamic_ok [of "array h" alloc, unfolded a0(2,3), OF alloc(1) a0(1) alloc(2)] by blast
  show ?thesis
  proof (cases slot)
    case None
    then have "a = array h" using a(3) by simp
    moreover have "\<exists>n. alloc n = None"
      using a(1) None by (auto simp: alloc_dynamic_def Let_def my_realloc_def split: if_splits option.splits)
    ultimately show ?thesis
      using None a(1) h by (intro exI [of _ h] exI [of _ True]) (simp add: insert_record_def)
  next
    case (Some i)
    then have i: "i = ?n" "elements a = Suc ?n" and tk: "take ?n (block (buffer a)) = da_list (array h)"
      using a(3) by auto
    let ?d = "block (buffer a)"
    have n: "?n < length ?d" using a(2) i(2) by (simp add: dyn_ok_def)
    note idx = table_idx_fits [OF h alloc(2)]
    then have idn: "idx_ok ?n" by (simp add: idx_ok_def)
    have eq: "?d ! j = links h ! j" if "j < ?n" for j
    proof -
      have "take ?n ?d ! j = take ?n (links h) ! j" using tk a0(2) by (simp add: da_list_def links_def)
      then show ?thesis using that by simp
    qed
    have "layout (bucket_of h) ?d {..<?n}"
      by (rule layout_cong [OF table_layout [OF h]]) (use eq n idn in \<open>auto simp: places_def idx_ok_def\<close>)
    moreover have st0: "stored ?d {..<?n} = stored (links h) {..<?n}"
      by (rule stored_cong) (simp add: entry_def eq)
    moreover note size = table_size_Suc [OF h]
    ultimately obtain d1 e where d1: "split_bucket ?B ?n ?d ?n = Some (d1, e)" "e \<le> ?n" "length d1 = length ?d"
      "layout (\<lambda>v. my_hash_mask v ?B (Suc ?n)) d1 ({..?n} - {e})" "stored d1 ({..?n} - {e}) = stored (links h) {..<?n}"
      using split_bucket_ok [OF size _ n idn] by metis
    obtain d2 where d2: "place_record ?B ?n d1 e cur record = Some d2" "length d2 = length ?d"
      "layout (\<lambda>v. my_hash_mask v ?B (Suc ?n)) d2 {..?n}" "stored d2 {..?n} = add_mset (cur, record) (stored (links h) {..<?n})"
      using place_record_ok [OF d1(4,2) _ idn size(1), of cur "record"] d1(3,5) n by auto
    note G = table_grown [OF h a(2) i(2) alloc_dynamic_size [OF a(1), unfolded a0(3)] d2(2,3) idx]
    have "insert_record alloc h cur record = Some (count_record (set_links (h\<lparr>array := a\<rparr>) d2), False)"
      using a(1) Some i(1) d1(1) d2(1) by (simp add: insert_record_def)
    then show ?thesis using d2(4) G by (intro exI conjI) (assumption | simp add: lessThan_Suc_atMost)+
  qed
qed

lemma my_hash_insert_ok:
  assumes "hash_ok m h" "hash_contract m h" "record \<noteq> 0" "my_hash_key h m record True = (key, len)" "len \<noteq> 0"
    "alloc_ok HASH_LINK_SIZE alloc" "fits (array h) (records h)"
  shows "\<exists>h' e. my_hash_insert alloc h m record = Some (h', e) \<and> hash_ok m h' \<and> same_keys h h' \<and>
    mset (rows_of h') = (if e then mset (rows_of h) else add_mset record (mset (rows_of h))) \<and>
    (flags h AND HASH_UNIQUE \<noteq> 0 \<and> (\<exists>r\<in>#mset (rows_of h). row_matches h m key len r) \<longrightarrow> e) \<and>
    (e \<longrightarrow> flags h AND HASH_UNIQUE \<noteq> 0 \<and> (\<exists>r\<in>#mset (rows_of h). row_matches h m key len r) \<or> (\<exists>n. alloc n = None))"
proof -
  have tab: "table_ok h" using assms(1) by (simp add: hash_ok_def)
  let ?cur = "hash_function h (charset h) (bytes_at m key len)"
  let ?uniq = "flags h AND HASH_UNIQUE \<noteq> 0"
  let ?dup = "\<exists>r\<in>#mset (rows_of h). row_matches h m key len r"
  obtain xs where xs: "my_hash_first_from_hash_value h m ?cur key len = Some (found_at h xs)" "distinct xs"
    "set xs = {x. x < records h \<and> row_matches h m key len (row (links h ! x))}"
    using hash_first_ok [OF assms(1,2,5)] by blast
  have rows: "mset (map (\<lambda>x. row (links h ! x)) xs) = filter_mset (row_matches h m key len) (mset (rows_of h))"
    by (rule rows_filter [OF xs(2,3) table_links [OF tab]])
  then have dup: "?dup \<longleftrightarrow> xs \<noteq> []"
    by (metis (no_types, lifting) filter_mset_eq_mempty_iff list.map_disc_iff mset_zero_iff)
  have nz: "fst (found_at h xs) = 0 \<longleftrightarrow> xs = []"
    using xs(3) assms(1) by (cases xs) (auto simp: found_at_def hash_ok_def)
  show ?thesis
  proof (cases "?uniq \<and> ?dup")
    case True
    then have "my_hash_insert alloc h m record = Some (h, True)"
      using assms(4) xs(1) nz dup
      by (simp add: my_hash_insert_def my_hash_search_using_hash_value_def)
    then show ?thesis using True assms(1) by (intro exI [of _ h] exI [of _ True]) simp
  next
    case False
    obtain h' e where h': "insert_record alloc h ?cur record = Some (h', e)"
      "table_ok h'" "same_keys h h'" "e \<longrightarrow> h' = h \<and> (\<exists>n. alloc n = None)"
      "\<not> e \<longrightarrow> stored (links h') {..<records h'} = add_mset (?cur, record) (stored (links h) {..<records h})"
      using insert_record_ok [OF tab assms(6,7)] by blast
    have "(if ?uniq then my_hash_search_using_hash_value h m ?cur key len else Some 0) = Some 0"
      using False xs(1) nz dup by (auto simp: my_hash_search_using_hash_value_def)
    then have ins: "my_hash_insert alloc h m record = Some (h', e)"
      using h'(1) by (simp add: my_hash_insert_def assms(4))
    have ent: "entries_ok m h (stored (links h) {..<records h})" using assms(1) by (simp add: hash_ok_stored)
    have "rec_hashnr h m record = ?cur"
      using assms(2,4) by (simp add: rec_hashnr_def hash_contract_def)
    then have "hash_ok m h'"
      using h'(2-5) ent assms(1,3)
      by (cases e) (auto simp: hash_ok_stored entries_ok_def same_keys_simps(2) [OF h'(3)])
    moreover have "mset (rows_of h') = (if e then mset (rows_of h) else add_mset record (mset (rows_of h)))"
      using h'(4,5) rows_stored [OF table_links [OF tab]] rows_stored [OF table_links [OF h'(2)]] by (cases e) auto
    ultimately show ?thesis using ins h'(3,4) False by (intro exI [of _ h'] exI [of _ e]) blast
  qed
qed

section \<open>Deletion\<close>

lemma shrink_size:
  assumes h: "table_ok h" and r: "records h = Suc r"
    and B: "B = (if r < blength h div 2 then blength h div 2 else blength h)"
  shows "table_size B (Suc r)" "B div 2 \<le> r" "r < B" "\<exists>j. B = 2 ^ j"
    "my_hash_mask v (blength h) (Suc r) = my_hash_mask v B (Suc r)"
proof -
  obtain k where k: "blength h = 2 ^ k" and le: "blength h div 2 \<le> Suc r" "Suc r < blength h"
    using h r by (auto simp: table_ok_def)
  obtain j where j: "k = Suc j" using k le(2) by (cases k) auto
  show pow: "\<exists>j. B = 2 ^ j" using k j B by (auto intro: exI [of _ j] exI [of _ k])
  show le': "B div 2 \<le> r" "r < B" using B le by (auto split: if_splits)
  then show "table_size B (Suc r)" using pow by (simp add: table_size_def)
  show "my_hash_mask v (blength h) (Suc r) = my_hash_mask v B (Suc r)"
  proof (cases "r < blength h div 2")
    case True
    then have "Suc r = 2 ^ j" "B = 2 ^ j" using B le k j by auto
    then show ?thesis using mask_double [of v j] k j by simp
  qed (simp add: B)
qed

lemma my_hash_delete_ok:
  assumes ok: "hash_ok m h" and rec: "record \<noteq> 0"
  shows "\<exists>h' e fs. my_hash_delete h m record = Some (h', e, fs) \<and> hash_ok m h' \<and> same_keys h h' \<and>
    (e \<longleftrightarrow> record \<notin># mset (rows_of h)) \<and> mset (rows_of h') = mset (rows_of h) - {#record#} \<and>
    fs = (if \<not> e \<and> free_element h then [record] else [])"
proof -
  have tab: "table_ok h" using ok by (simp add: hash_ok_def)
  note lay = table_layout [OF tab] and lnk = table_links [OF tab]
  let ?n = "records h" let ?d = "links h"
  have rows: "r \<in># mset (rows_of h) \<longleftrightarrow> (\<exists>x<?n. row (?d ! x) = r)" for r
    by (auto simp: rows_stored [OF lnk] set_stored entry_def image_image)
  show ?thesis
  proof (cases "?n = 0")
    case True
    then show ?thesis
      using ok rows by (intro exI [of _ h] exI [of _ True] exI [of _ "[]"]) (simp add: my_hash_delete_def)
  next
    case False
    let ?p = "bucket_of h (rec_hashnr h m record)"
    have p: "?p \<in> {..<?n}" "idx_ok ?p"
      using bucket_of_less [OF tab] False table_idx [OF tab] by (auto simp: less_imp_le)
    have home: "bucket_of h (hash_nr (?d ! x)) = ?p" if "x \<in> {..<?n}" "row (?d ! x) = record" for x
      using ok that by (auto simp: hash_ok_def)
    show ?thesis
    proof (cases "\<exists>x\<in>{..<?n}. row (?d ! x) = record")
      case none: False
      then have "my_hash_delete h m record = Some (h, True, [])"
        using find_record_ok(2) [OF lay p home] False by (simp add: my_hash_delete_def)
      moreover have "record \<notin># mset (rows_of h)" using none rows by auto
      ultimately show ?thesis
        using ok by (intro exI [of _ h] exI [of _ True] exI [of _ "[]"]) (simp add: diff_single_trivial)
    next
      case True
      then obtain us x ys where f: "chain (bucket_of h) ?d {..<?n} ?p (us @ x # ys)" "row (?d ! x) = record"
        "find_record ?d record ?p None = Some (Some (x, if us = [] then None else Some (last us)))"
        using find_record_ok(1) [OF lay p home] by blast
      obtain d1 e where d1: "unlink_record ?d x (if us = [] then None else Some (last us)) = Some (d1, e)"
        "e \<in> {..<?n}" "length d1 = length ?d" "layout (bucket_of h) d1 ({..<?n} - {e})"
        "stored ?d {..<?n} = add_mset (entry ?d x) (stored d1 ({..<?n} - {e}))"
        using unlink_record_ok [OF lay f(1)] by blast
      obtain r where r: "?n = Suc r" using False by (cases ?n) auto
      define B where "B = (if r < blength h div 2 then blength h div 2 else blength h)"
      note size = shrink_size [OF tab r B_def]
      have d1r: "r < length d1" "idx_ok r" using lnk r d1(3) table_idx [OF tab, of r] by auto
      have L: "{..<?n} = {..r}" using r by auto
      have lay1: "layout (\<lambda>v. my_hash_mask v (blength h) (Suc r)) d1 ({..r} - {e})"
        using d1(4) r by (simp add: lessThan_Suc_atMost)
      have "\<exists>d2. move_last (blength h) B r d1 e = Some d2 \<and> length d2 = length d1 \<and>
        layout (\<lambda>v. my_hash_mask v B r) d2 {..<r} \<and> stored d2 {..<r} = stored d1 ({..r} - {e})"
      proof (rule move_last_ok [OF lay1 _ d1r refl refl])
        show "e \<le> r" using d1(2) r by simp
        assume pos: "0 < r"
        then have "0 < B div 2" using size(1,3,4) by (auto simp: table_size_def)
        then show "r - B div 2 < r \<and> (\<forall>v. my_hash_mask v B r =
            (if my_hash_mask v (blength h) (Suc r) = r then r - B div 2 else my_hash_mask v (blength h) (Suc r)))"
          using mask_shrink [OF size(1,2) pos] size(5) pos by simp
      qed
      then obtain d2 where d2: "move_last (blength h) B r d1 e = Some d2" "length d2 = length d1"
        "layout (\<lambda>v. my_hash_mask v B r) d2 {..<r}" "stored d2 {..<r} = stored d1 ({..r} - {e})" by blast
      define h1 where "h1 = (set_links h d2)\<lparr>records := r, blength := B\<rparr>"
      define h2 where "h2 = h1\<lparr>array := fst (pop_dynamic (array h1))\<rparr>"
      have del: "my_hash_delete h m record = Some (h2, False, if free_element h then [record] else [])"
        using False f(3) d1(1) d2(1) r unfolding my_hash_delete_def
        by (simp add: h2_def h1_def B_def Let_def)
      have st: "links h2 = d2" "records h2 = r" "blength h2 = B" "same_keys h h2"
        using tab r by (simp_all add: h2_def h1_def links_def set_links_def pop_dynamic_def table_ok_def)
      have tab2: "table_ok h2"
      proof -
        have "dyn_ok (array h1)" "elements (array h1) = Suc r" "size_of_element (array h1) = HASH_LINK_SIZE"
          using tab d1(3) d2(2) r dyn_ok_set_links [of h d2] by (simp_all add: h1_def table_ok_def)
        then have "dyn_ok (array h2)" "elements (array h2) = r" "size_of_element (array h2) = HASH_LINK_SIZE"
          by (auto simp: h2_def pop_dynamic_def dyn_ok_def)
        then show ?thesis using size d1r(2) d2(3) by (simp add: table_ok_def st)
      qed
      have stored: "stored ?d {..<?n} = add_mset (entry ?d x) (stored (links h2) {..<records h2})"
        using d1(5) d2(4) L by (simp add: st)
      have "hash_ok m h2"
        using ok tab2 stored by (simp add: hash_ok_stored entries_ok_def same_keys_simps(2) [OF st(4)])
      moreover have "mset (rows_of h) = add_mset record (mset (rows_of h2))"
        using stored f(2) by (simp add: rows_stored [OF lnk] rows_stored [OF table_links [OF tab2]] entry_def)
      ultimately show ?thesis using del st(4) by (intro exI conjI) (assumption | simp)+
    qed
  qed
qed

end
