(* ===== verification/Hash_Update.thy ===== *)
theory Hash_Update
  imports Hash_Table
begin

text \<open>
  \<open>my_hash_update\<close> of \<open>mysys/hash.c\<close>: a row whose key has changed in memory is moved to its new
  bucket, and the debug check \<open>my_hash_check\<close>.
\<close>

section \<open>Putting a link into another bucket\<close>

lemma relink_ok:
  assumes lay: "layout (\<lambda>v. my_hash_mask v B n) d ({..<n} - {e})" and e: "e < n" and n: "n \<le> length d" "idx_ok n"
    and size: "table_size B n" and new: "new = my_hash_mask (hash_nr l) B n"
  shows "\<exists>d'. relink B n d e new l = Some d' \<and> length d' = length d \<and>
    layout (\<lambda>v. my_hash_mask v B n) d' {..<n} \<and>
    stored d' {..<n} = add_mset (hash_nr l, row l) (stored d ({..<n} - {e}))"
proof -
  let ?b = "\<lambda>v. my_hash_mask v B n" let ?L = "{..<n} - {e}"
  have eL: "e \<notin> ?L" "e < length d" "idx_ok e" "insert e ?L = {..<n}" using e n by (auto simp: idx_ok_def)
  have new_n: "new < n" using mask_less [OF size, of "hash_nr l"] e new by simp
  note defs = relink_def get_link_def put_link_def my_hash_rec_mask_def Let_def
  show ?thesis
  proof (cases "new = e")
    case True
    then have "relink B n d e new l = Some (d[e := l\<lparr>nxt := NO_RECORD\<rparr>])" using eL(2) by (simp add: defs)
    then show ?thesis using layout_add_own [OF lay eL(1-3), of "l\<lparr>nxt := NO_RECORD\<rparr>"] True new eL(4) by simp
  next
    case False
    then have nL: "new \<in> ?L" "new < length d" using new_n n(1) by auto
    show ?thesis
    proof (cases "bucket ?b d new = new")
      case True
      let ?l = "l\<lparr>nxt := nxt (d ! new)\<rparr>"
      have "relink B n d e new l = Some (d[e := ?l, new := (d ! new)\<lparr>nxt := word_of_nat e\<rparr>])"
        using False True nL eL(2) by (simp add: defs)
      then show ?thesis using layout_add_second [OF lay nL(1) True eL(1-3), of ?l] new eL(4) by simp
    next
      case other: False
      let ?d2 = "d[e := d ! new]"
      obtain d3 where d3: "movelink ?d2 (word_of_nat new) (bucket ?b d new) (word_of_nat e) = Some d3"
        "length d3 = length d" "layout ?b (d3[new := l\<lparr>nxt := NO_RECORD\<rparr>]) (insert e ?L)"
        "stored (d3[new := l\<lparr>nxt := NO_RECORD\<rparr>]) (insert e ?L) = add_mset (hash_nr l, row l) (stored d ?L)"
        using layout_displace [OF lay nL(1) other eL(1-3), of "l\<lparr>nxt := NO_RECORD\<rparr>" ?d2] new eL(2) by auto
      have "relink B n d e new l = Some (d3[new := l\<lparr>nxt := NO_RECORD\<rparr>])"
        using False other nL eL(2) d3(1,2) by (simp add: defs)
      then show ?thesis using d3(2-4) eL(4) by simp
    qed
  qed
qed

section \<open>Rows with the new key\<close>

lemma duplicate_loop_lseg:
  assumes "lseg (links h) w zs NO_RECORD" "\<forall>x\<in>set zs. x < length (links h) \<and> idx_ok x"
    "\<forall>x\<in>set zs. row (links h ! x) \<noteq> 0"
  shows "duplicate_loop h m key len record (found_at h (hits h m key len zs)) =
    Some (\<exists>x\<in>set zs. row_matches h m key len (row (links h ! x)) \<and> row (links h ! x) \<noteq> record)"
  using assms
proof (induction zs arbitrary: w)
  case Nil
  then show ?case by (subst duplicate_loop.simps) (simp add: found_at_def hits_def)
next
  case (Cons z zs)
  then have IH: "duplicate_loop h m key len record (found_at h (hits h m key len zs)) =
      Some (\<exists>x\<in>set zs. row_matches h m key len (row (links h ! x)) \<and> row (links h ! x) \<noteq> record)"
    by (intro Cons.IH [of "nxt (links h ! z)"]) auto
  show ?case
  proof (cases "row_matches h m key len (row (links h ! z))")
    case False
    then have "hits h m key len (z # zs) = hits h m key len zs" by (simp add: hits_def)
    then show ?thesis using IH False by simp
  next
    case True
    then have "found_at h (hits h m key len (z # zs)) = (row (links h ! z), word_of_nat z)"
      by (simp add: hits_def found_at_def)
    moreover have "my_hash_next h m key len (word_of_nat z) = Some (found_at h (hits h m key len zs))"
      using Cons.prems by (intro my_hash_next_lseg) auto
    ultimately show ?thesis using True IH Cons.prems(3) by (subst duplicate_loop.simps) auto
  qed
qed

text \<open>
  While the record still has its old hash value, every other row with the new key is in the new
  bucket.
\<close>

lemma duplicate_ok:
  assumes ok: "table_ok h" and nz: "\<forall>x<records h. row (links h ! x) \<noteq> 0"
    and home: "\<And>x. x < records h \<Longrightarrow> row_matches h m key len (row (links h ! x)) \<Longrightarrow> row (links h ! x) \<noteq> record \<Longrightarrow>
      bucket_of h (hash_nr (links h ! x)) = bucket_of h v"
  shows "duplicate_key h m v key len record =
    Some (\<exists>x<records h. row_matches h m key len (row (links h ! x)) \<and> row (links h ! x) \<noteq> record)"
proof (cases "records h = 0")
  case True
  then show ?thesis by (simp add: duplicate_key_def my_hash_first_from_hash_value_def duplicate_loop.simps)
next
  case False
  let ?p = "bucket_of h v"
  let ?bad = "\<lambda>x. row_matches h m key len (row (links h ! x)) \<and> row (links h ! x) \<noteq> record"
  have p: "?p < records h" using bucket_of_less [OF ok] False by simp
  obtain zs where zs: "lseg (links h) (word_of_nat ?p) (?p # zs) NO_RECORD" "distinct (?p # zs)"
    "\<forall>x\<in>set (?p # zs). x < records h \<and> x < length (links h) \<and> idx_ok x"
    "bucket_of h (hash_nr (links h ! ?p)) = ?p \<Longrightarrow> chain (bucket_of h) (links h) {..<records h} ?p (?p # zs)"
    using bucket_walk [OF ok p] by blast
  have dup: "duplicate_loop h m key len record (found_at h (hits h m key len (?p # zs))) = Some (\<exists>x\<in>set (?p # zs). ?bad x)"
    using zs(1,3) nz by (intro duplicate_loop_lseg) auto
  show ?thesis
  proof (cases "bucket_of h (hash_nr (links h ! ?p)) = ?p")
    case True
    have "set (?p # zs) = {x \<in> {..<records h}. bucket_of h (hash_nr (links h ! x)) = ?p}"
      using zs(4) [OF True] by (simp add: chain_def)
    then have "(\<exists>x\<in>set (?p # zs). ?bad x) \<longleftrightarrow> (\<exists>x<records h. ?bad x)" using home by blast
    moreover have "my_hash_first_from_hash_value h m v key len = Some (found_at h (hits h m key len (?p # zs)))"
      using False first_loop_lseg [OF zs(1)] zs(3) True by (simp add: my_hash_first_from_hash_value_def)
    ultimately show ?thesis using dup by (simp add: duplicate_key_def)
  next
    case foreign: False
    have none: "\<not> ?bad x" if "x < records h" for x
    proof
      assume "?bad x"
      then have "bucket_of h (hash_nr (links h ! x)) = ?p" using home that by blast
      then show False using bucket_empty [OF table_layout [OF ok], of ?p x] foreign that by auto
    qed
    show ?thesis
    proof (cases "row_matches h m key len (row (links h ! ?p))")
      case True
      then have "my_hash_first_from_hash_value h m v key len = Some (found_at h (hits h m key len (?p # zs)))"
        using False zs(3)
        by (simp add: my_hash_first_from_hash_value_def first_loop.simps get_link_def hashcmp_row found_at_def hits_def)
      then show ?thesis using dup none zs(3) by (auto simp: duplicate_key_def)
    next
      case nomatch: False
      then have "my_hash_first_from_hash_value h m v key len = Some (0, NO_RECORD)"
        using False foreign zs(3)
        by (simp add: my_hash_first_from_hash_value_def first_loop.simps get_link_def hashcmp_row my_hash_rec_mask_def)
      then show ?thesis using none by (auto simp: duplicate_key_def duplicate_loop.simps)
    qed
  qed
qed

section \<open>Updating\<close>

text \<open>
  The moment at which \<open>my_hash_update\<close> is called: the table fits the memory \<open>m0\<close> of before, the
  record is in it once, and since then only the record's key has changed.
\<close>

definition key_changed :: "memory \<Rightarrow> memory \<Rightarrow> HASH \<Rightarrow> nat \<Rightarrow> bool" where
  "key_changed m0 m h record \<longleftrightarrow>
     hash_ok m0 h \<and> count (mset (rows_of h)) record = 1 \<and>
     (\<forall>r\<in>#mset (rows_of h). r \<noteq> record \<longrightarrow> rec_hashnr h m r = rec_hashnr h m0 r)"

lemma key_changed_entries:
  assumes "key_changed m0 m h record" "stored (links h) {..<records h} = add_mset (v0, record) S" "v = rec_hashnr h m record"
  shows "entries_ok m h (add_mset (v, record) S)"
proof -
  have tab: "table_ok h" and ent: "entries_ok m0 h (add_mset (v0, record) S)"
    using assms(1,2) by (simp_all add: key_changed_def hash_ok_stored)
  have rows: "mset (rows_of h) = add_mset record (image_mset snd S)"
    using rows_stored [OF table_links [OF tab]] assms(2) by simp
  have "count (image_mset snd S) record = 0" using assms(1) rows by (simp add: key_changed_def)
  then have out: "snd p \<noteq> record" if "p \<in># S" for p using that by (auto simp: count_eq_zero_iff)
  have "rec_hashnr h m (snd p) = rec_hashnr h m0 (snd p)" if "p \<in># S" for p
    using assms(1) rows out [OF that] that by (simp add: key_changed_def)
  then show ?thesis using ent assms(3) by (simp add: entries_ok_def)
qed

text \<open>The links after a change of the hash value of one of them.\<close>

lemma rehash_ok:
  assumes h: "table_ok h" and x: "x < records h" "row (links h ! x) = record"
    and c: "chain (bucket_of h) (links h) {..<records h} (bucket_of h v0) (us @ x # ys)"
  shows "\<exists>d v1 S. stored (links h) {..<records h} = add_mset (v1, record) S \<and> length d = length (links h) \<and>
    rehash_record h x (if us = [] then None else Some (last us)) (bucket_of h v0) (bucket_of h v) v = Some (set_links h d, False) \<and>
    layout (bucket_of h) d {..<records h} \<and> stored d {..<records h} = add_mset (v, record) S"
proof -
  let ?d = "links h" let ?n = "records h"
  note lay = table_layout [OF h]
  have len: "x < length ?d" "?n \<le> length ?d" using table_links [OF h] x(1) by auto
  show ?thesis
  proof (cases "bucket_of h v0 = bucket_of h v")
    case True
    let ?d' = "?d[x := (?d ! x)\<lparr>hash_nr := v\<rparr>]"
    have bx: "bucket_of h (hash_nr (?d ! x)) = bucket_of h v" using chain_in [OF c, of x] True by simp
    have "layout (bucket_of h) ?d' {..<?n}"
    proof (rule layout_change [OF lay, where H = "{}"])
      show "places ?d' {..<?n}" using layout_places [OF lay] by (simp add: places_def)
      show "{i \<in> {..<?n}. bucket (bucket_of h) ?d' i = k} = {i \<in> {..<?n}. bucket (bucket_of h) ?d i = k}" for k
        using bx by (auto simp: nth_upd)
    qed (auto simp: nth_upd)
    moreover have "stored ?d {..<?n} = add_mset (entry ?d x) (stored ?d ({..<?n} - {x}))"
      by (rule stored_remove) (use x in auto)
    moreover have "stored ?d' {..<?n} = add_mset (v, record) (stored ?d ({..<?n} - {x}))"
    proof -
      have "stored ?d' {..<?n} = add_mset (entry ?d' x) (stored ?d' ({..<?n} - {x}))"
        by (rule stored_remove) (use x in auto)
      moreover have "stored ?d' ({..<?n} - {x}) = stored ?d ({..<?n} - {x})"
        by (rule stored_cong) (simp add: entry_update len)
      ultimately show ?thesis using len x(2) by (simp add: entry_def)
    qed
    ultimately show ?thesis using True len x(2)
      by (intro exI [of _ ?d'] exI [of _ "hash_nr (?d ! x)"] exI [of _ "stored ?d ({..<?n} - {x})"])
        (simp add: rehash_record_def get_link_def put_link_def entry_def)
  next
    case False
    obtain d1 e where d1: "unlink_record ?d x (if us = [] then None else Some (last us)) = Some (d1, e)"
      "e \<in> {..<?n}" "length d1 = length ?d" "layout (bucket_of h) d1 ({..<?n} - {e})"
      "stored ?d {..<?n} = add_mset (entry ?d x) (stored d1 ({..<?n} - {e}))"
      using unlink_record_ok [OF lay c] by blast
    have "table_size (blength h) ?n" using h by (auto simp: table_ok_def table_size_def)
    then obtain d2 where "relink (blength h) ?n d1 e (bucket_of h v) ((?d ! x)\<lparr>hash_nr := v\<rparr>) = Some d2"
      "length d2 = length d1" "layout (bucket_of h) d2 {..<?n}"
      "stored d2 {..<?n} = add_mset (v, record) (stored d1 ({..<?n} - {e}))"
      using relink_ok [OF d1(4) _ _ table_idx [OF h order_refl], of "bucket_of h v" "(?d ! x)\<lparr>hash_nr := v\<rparr>"] d1(2,3) len x(2) by auto
    then show ?thesis using False len x(2) d1
      by (intro exI [of _ d2] exI [of _ "hash_nr (?d ! x)"] exI [of _ "stored d1 ({..<?n} - {e})"])
        (simp add: rehash_record_def get_link_def entry_def)
  qed
qed

lemma my_hash_update_ok:
  assumes chg: "key_changed m0 m h record" and con: "hash_contract m h"
    and key: "my_hash_key h m record True = (key, len)" "len \<noteq> 0"
    and old: "hash_function h (charset h) (bytes_at m old_key (if old_len \<noteq> 0 then old_len else key_length h)) =
      rec_hashnr h m0 record"
  shows "\<exists>h' e. my_hash_update h m record old_key old_len = Some (h', e) \<and>
    (e \<longleftrightarrow> flags h AND HASH_UNIQUE \<noteq> 0 \<and> (\<exists>r\<in>#mset (rows_of h). r \<noteq> record \<and> row_matches h m key len r)) \<and>
    (if e then h' = h else hash_ok m h' \<and> mset (rows_of h') = mset (rows_of h))"
proof -
  let ?d = "links h" let ?n = "records h"
  have ok: "hash_ok m0 h" and tab: "table_ok h" using chg by (simp_all add: key_changed_def hash_ok_def)
  note lay = table_layout [OF tab] and lnk = table_links [OF tab]
  let ?v = "hash_function h (charset h) (bytes_at m key len)" let ?oldv = "rec_hashnr h m0 record"
  let ?bad = "\<lambda>x. row_matches h m key len (row (?d ! x)) \<and> row (?d ! x) \<noteq> record"
  have rows: "r \<in># mset (rows_of h) \<longleftrightarrow> (\<exists>x<?n. row (?d ! x) = r)" for r
    by (auto simp: rows_stored [OF lnk] set_stored entry_def image_image)
  have vrec: "rec_hashnr h m record = ?v" using con key by (simp add: rec_hashnr_def hash_contract_def)
  have dup: "duplicate_key h m ?v key len record = Some (\<exists>x<?n. ?bad x)"
  proof (rule duplicate_ok [OF tab])
    show "\<forall>x<?n. row (?d ! x) \<noteq> 0" using ok by (simp add: hash_ok_def)
    fix x assume x: "x < ?n" "row_matches h m key len (row (?d ! x))" "row (?d ! x) \<noteq> record"
    then have "row (?d ! x) \<in># mset (rows_of h)" using rows by blast
    then have "rec_hashnr h m (row (?d ! x)) = rec_hashnr h m0 (row (?d ! x))"
      using chg x(3) unfolding key_changed_def by blast
    then have "hash_nr (?d ! x) = rec_hashnr h m (row (?d ! x))" using ok x(1) by (simp add: hash_ok_def)
    then show "bucket_of h (hash_nr (?d ! x)) = bucket_of h ?v" using matches_hash [OF con x(2) key(2)] by simp
  qed
  have bad: "(\<exists>x<?n. ?bad x) \<longleftrightarrow> (\<exists>r\<in>#mset (rows_of h). r \<noteq> record \<and> row_matches h m key len r)"
    unfolding Bex_def rows by blast
  show ?thesis
  proof (cases "flags h AND HASH_UNIQUE \<noteq> 0 \<and> (\<exists>x<?n. ?bad x)")
    case True
    then have "my_hash_update h m record old_key old_len = Some (h, True)"
      using key dup by (simp add: my_hash_update_def and.commute)
    then show ?thesis using True bad by auto
  next
    case False
    have nodup: "(if HASH_UNIQUE AND flags h \<noteq> 0 then duplicate_key h m ?v key len record else Some False) = Some False"
      using False dup by (auto simp: and.commute)
    have "count (mset (rows_of h)) record = 1" using chg by (simp add: key_changed_def)
    then have "record \<in># mset (rows_of h)" by (metis count_eq_zero_iff zero_neq_one)
    then have ex: "\<exists>x\<in>{..<?n}. row (?d ! x) = record" using rows by blast
    have p: "bucket_of h ?oldv \<in> {..<?n}" "idx_ok (bucket_of h ?oldv)"
      using bucket_of_less [OF tab] ex table_idx [OF tab] by (auto simp: less_imp_le)
    have home: "bucket_of h (hash_nr (?d ! x)) = bucket_of h ?oldv" if "x \<in> {..<?n}" "row (?d ! x) = record" for x
      using ok that by (auto simp: hash_ok_def)
    obtain us x ys where f: "chain (bucket_of h) ?d {..<?n} (bucket_of h ?oldv) (us @ x # ys)" "row (?d ! x) = record"
      "find_record ?d record (bucket_of h ?oldv) None = Some (Some (x, if us = [] then None else Some (last us)))"
      using find_record_ok(1) [OF lay p home ex] by blast
    have x: "x < ?n" using chain_in [OF f(1), of x] by simp
    obtain d v1 S where d: "stored ?d {..<?n} = add_mset (v1, record) S" "length d = length ?d"
      "rehash_record h x (if us = [] then None else Some (last us)) (bucket_of h ?oldv) (bucket_of h ?v) ?v = Some (set_links h d, False)"
      "layout (bucket_of h) d {..<?n}" "stored d {..<?n} = add_mset (?v, record) S"
      using rehash_ok [OF tab x f(2,1), of ?v] by blast
    have "my_hash_update h m record old_key old_len = Some (set_links h d, False)"
      using key(1) nodup old f(3) d(3) by (simp add: my_hash_update_def)
    moreover have tab': "table_ok (set_links h d)"
      using tab d(2,4) dyn_ok_set_links [of h d] by (simp add: table_ok_def)
    moreover have "entries_ok m h (add_mset (?v, record) S)"
      by (rule key_changed_entries [OF chg d(1)]) (simp add: vrec)
    then have "hash_ok m (set_links h d)"
      using tab' d(5) entries_ok_keys [of h "set_links h d"] by (simp add: hash_ok_stored)
    moreover have "mset (rows_of (set_links h d)) = mset (rows_of h)"
      using d(1,5) by (simp add: rows_stored [OF lnk] rows_stored [OF table_links [OF tab']])
    ultimately show ?thesis using False bad by (intro exI [of _ "set_links h d"] exI [of _ False]) auto
  qed
qed

end
