(* ===== verification/Hash_Props.thy ===== *)
theory Hash_Props
  imports Hash_Update
begin

text \<open>
  The theorems on hash tables (\<open>mysys/hash.c\<close>), with the consistency check of debug builds, the
  initial state, and the interface of a bag that the table provides.
\<close>

section \<open>The consistency check\<close>

lemma check_links_ok:
  assumes "lseg d w zs NO_RECORD" "\<forall>x\<in>set zs. x < length d \<and> idx_ok x \<and> x < recs \<and> my_hash_rec_mask (d ! x) blen recs = i"
    "found + length zs \<le> recs"
  shows "check_links blen recs d i w found err = Some (found + length zs, err)"
  using assms
proof (induction zs arbitrary: w found)
  case Nil
  then show ?case by (subst check_links.simps) simp
next
  case (Cons z zs)
  have "check_links blen recs d i (nxt (d ! z)) (found + 1) err = Some (found + 1 + length zs, err)"
    using Cons.prems by (intro Cons.IH) auto
  then show ?case using Cons.prems by (subst check_links.simps) (auto simp: idx_simps get_link_def)
qed

lemma check_rows_ok:
  assumes ok: "hash_ok m h" and i: "i \<le> records h"
  shows "check_rows h m [i..<records h] (card {x. x < records h \<and> bucket_of h (hash_nr (links h ! x)) < i}, False) =
    Some (records h, False)"
  using i
proof (induction rule: inc_induct)
  case base
  have "{x. x < records h \<and> bucket_of h (hash_nr (links h ! x)) < records h} = {..<records h}"
    using bucket_of_less [of h] ok by (auto simp: hash_ok_def)
  then show ?case by simp
next
  case (step i)
  let ?d = "links h" let ?n = "records h"
  let ?lt = "\<lambda>i. {x. x < ?n \<and> bucket_of h (hash_nr (?d ! x)) < i}"
  let ?eq = "{x. x < ?n \<and> bucket_of h (hash_nr (?d ! x)) = i}"
  have tab: "table_ok h" using ok by (simp add: hash_ok_def)
  have lt: "?lt (Suc i) = ?lt i \<union> ?eq" and dis: "?lt i \<inter> ?eq = {}" by auto
  then have card: "card (?lt (Suc i)) = card (?lt i) + card ?eq" by (simp add: card_Un_disjoint)
  have "card (?lt (Suc i)) \<le> card {..<?n}" by (rule card_mono) auto
  then have le: "card (?lt i) + card ?eq \<le> ?n" using card by simp
  have len: "i < length ?d" "\<not> hash_nr (?d ! i) \<noteq> rec_hashnr h m (row (?d ! i))"
    using step table_links [OF tab] ok by (auto simp: hash_ok_def)
  have upt: "[i..<?n] = i # [Suc i..<?n]" using step by (simp add: upt_conv_Cons)
  show ?case
  proof (cases "bucket_of h (hash_nr (?d ! i)) = i")
    case False
    then have "bucket_of h (hash_nr (?d ! x)) \<noteq> i" if "x < ?n" for x
      using bucket_empty [OF table_layout [OF tab], of i x] that by auto
    then have "?lt (Suc i) = ?lt i" unfolding lt by blast
    then show ?thesis
      using step.IH len False by (simp add: upt get_link_def my_hash_rec_mask_def)
  next
    case True
    obtain zs where c: "chain (bucket_of h) ?d {..<?n} i (i # zs)"
      using layout_chain [OF table_layout [OF tab], of i i] True step by auto
    have "set (i # zs) = ?eq" "distinct (i # zs)" using c by (auto simp: chain_def)
    then have lenz: "card ?eq = length zs + 1" by (metis Suc_eq_plus1 distinct_card length_Cons)
    have "check_links (blength h) ?n ?d i (nxt (?d ! i)) (card (?lt i) + 1) False = Some (card (?lt i) + 1 + length zs, False)"
    proof (rule check_links_ok)
      show "lseg ?d (nxt (?d ! i)) zs NO_RECORD" using c by (simp add: chain_def)
      show "card (?lt i) + 1 + length zs \<le> ?n" using le lenz by simp
      show "\<forall>x\<in>set zs. x < length ?d \<and> idx_ok x \<and> x < ?n \<and> my_hash_rec_mask (?d ! x) (blength h) ?n = i"
        using chain_in [OF c] chain_places [OF table_layout [OF tab] c] by (auto simp: my_hash_rec_mask_def)
    qed
    then show ?thesis
      using step.IH card lenz len True by (simp add: upt get_link_def my_hash_rec_mask_def)
  qed
qed

section \<open>The empty table\<close>

lemma init_dynamic_array2_ok:
  assumes "alloc_ok sz alloc" "2 \<le> sz" "sz * n < 2 ^ 32"
  shows "dyn_ok (fst (init_dynamic_array2 alloc sz None n inc fl))"
    "elements (fst (init_dynamic_array2 alloc sz None n inc fl)) = 0"
    "size_of_element (fst (init_dynamic_array2 alloc sz None n inc fl)) = sz"
proof -
  have "2 * n \<le> sz * n" using assms(2) by (rule mult_le_mono1)
  then have "2 * n < 2 ^ 32" using assms(3) by (rule le_less_trans)
  then have inc: "0 < default_increment sz n" by (auto simp: default_increment_def Let_def)
  show "dyn_ok (fst (init_dynamic_array2 alloc sz None n inc fl))"
    "elements (fst (init_dynamic_array2 alloc sz None n inc fl)) = 0"
    "size_of_element (fst (init_dynamic_array2 alloc sz None n inc fl)) = sz"
    using assms inc
    by (auto simp: init_dynamic_array2_def Let_def dyn_ok_def alloc_ok_def split: option.splits)
qed

lemma my_hash_init2_ok:
  assumes "alloc_ok HASH_LINK_SIZE alloc" "HASH_LINK_SIZE * u32 sz < 2 ^ 32"
  shows "hash_ok m (fst (my_hash_init2 alloc growth cs sz offs len getk fn fr fl))"
    "rows_of (fst (my_hash_init2 alloc growth cs sz offs len getk fn fr fl)) = []"
  using init_dynamic_array2_ok [OF assms(1) _ assms(2), of growth]
  by (auto simp: my_hash_init2_def HASH_LINK_SIZE_def hash_ok_def table_ok_def layout_def places_def idx_ok_def
      rows_of_def case_prod_beta intro: exI [of _ 0])

lemma my_hash_reset_ok:
  assumes "hash_ok m h"
  shows "hash_ok m (fst (my_hash_reset h))" "rows_of (fst (my_hash_reset h)) = []"
    "snd (my_hash_reset h) = (if free_element h then rows_of h else [])"
  using assms
  by (auto simp: my_hash_reset_def my_hash_free_elements_def hash_ok_def table_ok_def layout_def places_def
      idx_ok_def rows_of_def dyn_ok_def intro: exI [of _ 0])

section \<open>A bag of rows\<close>

text \<open>
  What a client relies on: insertion adds to a bag or fails, deletion removes.  A failed insertion
  leaves the bag as it was, and deleting what was inserted restores it.
\<close>

locale bag =
  fixes invar :: "'s \<Rightarrow> bool" and els :: "'s \<Rightarrow> 'e multiset"
    and add :: "'s \<Rightarrow> 'e \<Rightarrow> ('s \<times> bool) option" and del :: "'s \<Rightarrow> 'e \<Rightarrow> ('s \<times> bool) option"
    and may_add :: "'s \<Rightarrow> 'e \<Rightarrow> bool" and may_del :: "'e \<Rightarrow> bool"
  assumes add_law: "invar s \<Longrightarrow> may_add s x \<Longrightarrow>
      \<exists>s' e. add s x = Some (s', e) \<and> invar s' \<and> els s' = (if e then els s else add_mset x (els s))"
    and del_law: "invar s \<Longrightarrow> may_del x \<Longrightarrow>
      \<exists>s' e. del s x = Some (s', e) \<and> invar s' \<and> (e \<longleftrightarrow> x \<notin># els s) \<and> els s' = els s - {#x#}"
begin

lemma add_then_del:
  assumes "invar s" "may_add s x" "may_del x" "add s x = Some (s', False)"
  shows "\<exists>s''. del s' x = Some (s'', False) \<and> invar s'' \<and> els s'' = els s"
proof -
  have s': "invar s'" "els s' = add_mset x (els s)" using add_law [OF assms(1,2)] assms(4) by auto
  then show ?thesis using del_law [OF s'(1) assms(3)] by auto
qed

end

text \<open>A table with what it needs from its surroundings: the callbacks' contract and room to grow.\<close>

definition table_invar :: "memory \<Rightarrow> HASH \<Rightarrow> bool" where
  "table_invar m h \<longleftrightarrow> hash_ok m h \<and> hash_contract m h"

definition may_insert :: "(nat \<Rightarrow> HASH_LINK list option) \<Rightarrow> memory \<Rightarrow> HASH \<Rightarrow> nat \<Rightarrow> bool" where
  "may_insert alloc m h record \<longleftrightarrow>
     record \<noteq> 0 \<and> snd (my_hash_key h m record True) \<noteq> 0 \<and> alloc_ok HASH_LINK_SIZE alloc \<and> fits (array h) (records h)"

definition delete_row :: "memory \<Rightarrow> HASH \<Rightarrow> nat \<Rightarrow> (HASH \<times> bool) option" where
  "delete_row m h record = map_option (\<lambda>(h', e, fs). (h', e)) (my_hash_delete h m record)"

interpretation hash_bag: bag "table_invar m" "\<lambda>h. mset (rows_of h)" "\<lambda>h r. my_hash_insert alloc h m r"
    "delete_row m" "may_insert alloc m" "\<lambda>r. r \<noteq> 0" for alloc m
proof
  fix h "record" assume h: "table_invar m h" and r: "may_insert alloc m h record"
  obtain key len where "my_hash_key h m record True = (key, len)" by fastforce
  then obtain h' e where "my_hash_insert alloc h m record = Some (h', e)" "hash_ok m h'" "same_keys h h'"
    "mset (rows_of h') = (if e then mset (rows_of h) else add_mset record (mset (rows_of h)))"
    using my_hash_insert_ok [of m h "record" key len alloc] h r by (auto simp: table_invar_def may_insert_def)
  then show "\<exists>h' e. my_hash_insert alloc h m record = Some (h', e) \<and> table_invar m h' \<and>
      mset (rows_of h') = (if e then mset (rows_of h) else add_mset record (mset (rows_of h)))"
    using h same_keys_simps(4) by (auto simp: table_invar_def)
next
  fix h "record" assume h: "table_invar m h" and r: "record \<noteq> (0 :: nat)"
  obtain h' e fs where "my_hash_delete h m record = Some (h', e, fs)" "hash_ok m h'" "same_keys h h'"
    "e \<longleftrightarrow> record \<notin># mset (rows_of h)" "mset (rows_of h') = mset (rows_of h) - {#record#}"
    using my_hash_delete_ok [of m h "record"] h r by (auto simp: table_invar_def)
  then show "\<exists>h' e. delete_row m h record = Some (h', e) \<and> table_invar m h' \<and>
      (e \<longleftrightarrow> record \<notin># mset (rows_of h)) \<and> mset (rows_of h') = mset (rows_of h) - {#record#}"
    using h same_keys_simps(4) by (auto simp: table_invar_def delete_row_def)
qed

section \<open>A small table\<close>

definition demo_alloc :: "nat \<Rightarrow> HASH_LINK list option" where
  "demo_alloc n = Some (replicate (n div 16) \<lparr>nxt = 0, hash_nr = 0, row = 0\<rparr>)"

definition demo_mem :: memory where "demo_mem a = word_of_nat (a div 2)"

definition demo_empty :: HASH where
  "demo_empty = fst (my_hash_init2 demo_alloc 4 my_charset_bin 2 0 1 None None True HASH_UNIQUE)"

definition demo_table :: HASH where
  "demo_table = fst (the (my_hash_insert demo_alloc demo_empty demo_mem 6))"

lemma demo_alloc_ok: "alloc_ok HASH_LINK_SIZE demo_alloc"
  by (simp add: alloc_ok_def demo_alloc_def HASH_LINK_SIZE_def)

lemma demo_memory: "(\<exists>n. demo_alloc n = None) \<longleftrightarrow> False"
  by (simp add: demo_alloc_def)

lemma demo_keys: "my_hash_key demo_empty m r f = (r, 1)"
  by (simp add: demo_empty_def my_hash_init2_def my_hash_key_def case_prod_beta)

lemma demo_contract: "hash_contract m demo_empty"
  unfolding hash_contract_def demo_keys
  by (simp add: demo_empty_def my_hash_init2_def case_prod_beta binary.sort_agrees)

lemma demo_empty_ok: "hash_ok demo_mem demo_empty" "rows_of demo_empty = []"
  unfolding demo_empty_def
  by (intro my_hash_init2_ok [OF demo_alloc_ok]; simp add: HASH_LINK_SIZE_def u32_def)+

lemma demo_no_rows: "(\<exists>r\<in>#mset (rows_of demo_empty). P r) \<longleftrightarrow> False"
  by (simp add: demo_empty_ok(2))

lemma demo_fits: "fits (array demo_empty) (records demo_empty)"
  by (simp add: demo_empty_def my_hash_init2_def case_prod_beta init_dynamic_array2_def demo_alloc_def Let_def
      fits_def HASH_LINK_SIZE_def u32_def)

lemma demo_insert: "my_hash_insert demo_alloc demo_empty demo_mem 6 = Some (demo_table, False)"
proof -
  obtain h' e where "my_hash_insert demo_alloc demo_empty demo_mem 6 = Some (h', e)" "\<not> e"
    using my_hash_insert_ok [OF demo_empty_ok(1) demo_contract _ demo_keys _ demo_alloc_ok demo_fits, of 6]
    unfolding demo_no_rows demo_memory by auto
  then show ?thesis by (simp add: demo_table_def)
qed

lemma demo_table_ok: "hash_ok demo_mem demo_table" "hash_contract m demo_table" "rows_of demo_table = [6]"
  "my_hash_key demo_table m r f = (r, 1)"
proof -
  have h: "hash_ok demo_mem demo_table" "same_keys demo_empty demo_table" "mset (rows_of demo_table) = add_mset 6 (mset (rows_of demo_empty))"
    using my_hash_insert_ok [OF demo_empty_ok(1) demo_contract _ demo_keys _ demo_alloc_ok demo_fits, of 6] demo_insert
    by auto
  then show "hash_ok demo_mem demo_table" "hash_contract m demo_table" "rows_of demo_table = [6]"
    "my_hash_key demo_table m r f = (r, 1)"
    using demo_empty_ok(2) same_keys_simps(1,4) [OF h(2)] demo_contract demo_keys by simp_all
qed

section \<open>Theorems\<close>





text \<open>
  C6: \<open>my_hash_delete\<close> always returns; it removes one occurrence of the given row and hands it to the
  \<open>free\<close> callback, or reports that the row is not there and changes nothing.  The table stays
  consistent, whichever way the last link has to be moved.
\<close>

theorem my_hash_delete_correct:
  assumes "hash_ok m h" "record \<noteq> 0"
  shows "\<exists>h' e fs. my_hash_delete h m record = Some (h', e, fs) \<and> hash_ok m h' \<and>
    (e \<longleftrightarrow> record \<notin># mset (rows_of h)) \<and> mset (rows_of h') = mset (rows_of h) - {#record#} \<and>
    fs = (if \<not> e \<and> free_element h then [record] else [])"
  using my_hash_delete_ok [OF assms] by blast

theorem my_hash_delete_witness:
  "\<exists>h' fs. my_hash_delete demo_table demo_mem 6 = Some (h', False, fs) \<and> hash_ok demo_mem h' \<and> rows_of h' = []"
  using my_hash_delete_correct [OF demo_table_ok(1), of 6] by (auto simp: demo_table_ok(3))



text \<open>
  C29: The consistency check of debug builds (\<open>my_hash_check\<close>) ends and reports no error on every
  table that the operations can produce: each link is reached exactly once, from the place of its
  bucket.
\<close>

theorem my_hash_check_quiet:
  assumes "hash_ok m h"
  shows "my_hash_check h m = Some False"
  using check_rows_ok [OF assms, of 0] by (simp add: my_hash_check_def)

theorem my_hash_check_witness: "my_hash_check demo_table demo_mem = Some False"
  by (rule my_hash_check_quiet [OF demo_table_ok(1)])

text \<open>
  Deleting a row that has just been inserted gives back the rows of before, without an error.
\<close>

theorem hash_insert_delete:
  assumes "table_invar m h" "may_insert alloc m h record" "my_hash_insert alloc h m record = Some (h', False)"
  shows "\<exists>h''. delete_row m h' record = Some (h'', False) \<and> table_invar m h'' \<and> mset (rows_of h'') = mset (rows_of h)"
  by (rule hash_bag.add_then_del [OF assms(1,2) _ assms(3)]) (use assms(2) in \<open>simp add: may_insert_def\<close>)

theorem hash_insert_delete_witness:
  "\<exists>h''. delete_row demo_mem demo_table 6 = Some (h'', False) \<and> rows_of h'' = []"
proof -
  have "may_insert demo_alloc demo_mem demo_empty 6"
    using demo_alloc_ok demo_fits by (simp add: may_insert_def demo_keys)
  moreover have "table_invar demo_mem demo_empty" using demo_empty_ok(1) demo_contract by (simp add: table_invar_def)
  ultimately show ?thesis
    using hash_insert_delete [OF _ _ demo_insert] by (auto simp: demo_empty_ok(2))
qed

end
