(* ===== verification/Wild_Cmp.thy ===== *)
theory Wild_Cmp
  imports Charset
begin

text \<open>
  Pattern matching for \<open>LIKE\<close>: \<open>my_wildcmp_8bit_impl\<close> of \<open>strings/ctype-simple.c\<close> and
  \<open>my_wildcmp_bin_impl\<close> of \<open>strings/ctype-bin.c\<close>, which have the same text and differ in the macro
  \<open>likeconv\<close>, a parameter here.  Strings and patterns are lists of bytes.  Plain \<open>char\<close> is signed, so
  that \<open>*wildstr == w_many\<close> compares the signed value of the byte with an \<open>int\<close>; behind a \<open>%\<close> the
  escape character is compared with an unsigned byte.  The results are 0 for a match, 1 for no
  match, and -1 for no match at any later position either.
\<close>

section \<open>The model\<close>

text \<open>\<open>do { if (str == str_end) return(result); str++; } while (++wildstr < wildend && *wildstr == w_one)\<close>\<close>

fun skip_ones :: "int \<Rightarrow> uchar list \<Rightarrow> uchar list \<Rightarrow> (uchar list \<times> uchar list) option" where
  "skip_ones w_one [] wild = None"
| "skip_ones w_one (s # str) wild =
     (if tl wild \<noteq> [] \<and> sint (hd (tl wild)) = w_one then skip_ones w_one str (tl wild) else Some (str, tl wild))"

text \<open>The loop that removes any \<open>%\<close> and \<open>_\<close> behind a \<open>%\<close>.\<close>

fun skip_wild :: "int \<Rightarrow> int \<Rightarrow> uchar list \<Rightarrow> uchar list \<Rightarrow> (uchar list \<times> uchar list) option" where
  "skip_wild w_one w_many str [] = Some (str, [])"
| "skip_wild w_one w_many str (w # wild) =
     (if sint w = w_many then skip_wild w_one w_many str wild
      else if sint w = w_one then (if str = [] then None else skip_wild w_one w_many (tl str) wild)
      else Some (str, w # wild))"

lemma skip_ones_shorter:
  "skip_ones w_one str wild = Some (s, w) \<Longrightarrow> wild \<noteq> [] \<Longrightarrow> length w < length wild \<and> length s \<le> length str"
proof (induction w_one str wild rule: skip_ones.induct)
  case (2 w_one c str wild)
  show ?case
  proof (cases "tl wild \<noteq> [] \<and> sint (hd (tl wild)) = w_one")
    case True
    then have "length w < length (tl wild) \<and> length s \<le> length str" using 2 by simp
    then show ?thesis by auto
  next
    case False
    then show ?thesis using 2 by auto
  qed
qed simp

lemma skip_wild_length: "skip_wild w_one w_many str wild = Some (s, w) \<Longrightarrow> length w \<le> length wild \<and> length s \<le> length str"
  by (induction w_one w_many str wild rule: skip_wild.induct) (auto split: if_splits)

text \<open>
  The cases of \<open>wild_loop\<close> are the parts of the body of \<open>while (wildstr != wildend)\<close>, and
  \<open>wild_scan\<close> is the final \<open>do\<close> loop, which looks for the next \<open>cmp\<close> and calls the function for the rest.
  \<open>guard\<close> is \<open>my_string_stack_guard\<close>.
\<close>

function (sequential) wild_impl ::
    "(uchar \<Rightarrow> uchar) \<Rightarrow> (nat \<Rightarrow> bool) \<Rightarrow> int \<Rightarrow> int \<Rightarrow> int \<Rightarrow> nat \<Rightarrow> uchar list \<Rightarrow> uchar list \<Rightarrow> int"
  and wild_loop ::
    "(uchar \<Rightarrow> uchar) \<Rightarrow> (nat \<Rightarrow> bool) \<Rightarrow> int \<Rightarrow> int \<Rightarrow> int \<Rightarrow> nat \<Rightarrow> int \<Rightarrow> uchar list \<Rightarrow> uchar list \<Rightarrow> int"
  and wild_scan ::
    "(uchar \<Rightarrow> uchar) \<Rightarrow> (nat \<Rightarrow> bool) \<Rightarrow> int \<Rightarrow> int \<Rightarrow> int \<Rightarrow> nat \<Rightarrow> uchar \<Rightarrow> uchar list \<Rightarrow> uchar list \<Rightarrow> int" where
  "wild_impl likeconv guard escape w_one w_many recurse_level str wild =
     (if guard recurse_level then 1
      else wild_loop likeconv guard escape w_one w_many recurse_level (-1) str wild)"
| "wild_loop likeconv guard escape w_one w_many recurse_level result str [] = (if str \<noteq> [] then 1 else 0)"
| "wild_loop likeconv guard escape w_one w_many recurse_level result str (w # wild) =
     (if sint w \<noteq> w_many \<and> sint w \<noteq> w_one then
        (let escaped = (sint w = escape \<and> wild \<noteq> []);
             c = (if escaped then hd wild else w);
             rest = (if escaped then tl wild else wild)
         in if str = [] \<or> likeconv c \<noteq> likeconv (hd str) then 1
            else if rest = [] then (if tl str \<noteq> [] then 1 else 0)
            else wild_loop likeconv guard escape w_one w_many recurse_level 1 (tl str) rest)
      else if sint w = w_one then
        (case skip_ones w_one str (w # wild) of
           None \<Rightarrow> result
         | Some (str', rest) \<Rightarrow> wild_loop likeconv guard escape w_one w_many recurse_level result str' rest)
      else
        (case skip_wild w_one w_many str wild of
           None \<Rightarrow> -1
         | Some (str', rest) \<Rightarrow>
             if rest = [] then 0
             else if str' = [] then -1
             else
               (let escaped = (uint (hd rest) = escape \<and> tl rest \<noteq> []);
                    cmp = likeconv (if escaped then hd (tl rest) else hd rest)
                in wild_scan likeconv guard escape w_one w_many recurse_level cmp str'
                     (if escaped then tl (tl rest) else tl rest))))"
| "wild_scan likeconv guard escape w_one w_many recurse_level cmp [] wild = -1"
| "wild_scan likeconv guard escape w_one w_many recurse_level cmp (s # str) wild =
     (if likeconv s \<noteq> cmp then wild_scan likeconv guard escape w_one w_many recurse_level cmp str wild
      else
        (let tmp = wild_impl likeconv guard escape w_one w_many (recurse_level + 1) str wild
         in if tmp \<le> 0 then tmp
            else wild_scan likeconv guard escape w_one w_many recurse_level cmp str wild))"
  by pat_completeness auto
termination
  by (relation "measure (\<lambda>x. case x of
        Inl (likeconv, guard, escape, w_one, w_many, lvl, str, wild) \<Rightarrow> 3 * length wild + length str + 1
      | Inr (Inl (likeconv, guard, escape, w_one, w_many, lvl, result, str, wild)) \<Rightarrow> 3 * length wild + length str
      | Inr (Inr (likeconv, guard, escape, w_one, w_many, lvl, cmp, str, wild)) \<Rightarrow> 3 * length wild + length str + 2)")
    (auto dest!: skip_wild_length skip_ones_shorter)

definition my_wildcmp_bin ::
  "(nat \<Rightarrow> bool) \<Rightarrow> uchar list \<Rightarrow> uchar list \<Rightarrow> int \<Rightarrow> int \<Rightarrow> int \<Rightarrow> int" where
  "my_wildcmp_bin guard str wild escape w_one w_many = wild_impl (\<lambda>c. c) guard escape w_one w_many 1 str wild"

definition my_wildcmp_8bit ::
  "charset_info_st \<Rightarrow> (nat \<Rightarrow> bool) \<Rightarrow> uchar list \<Rightarrow> uchar list \<Rightarrow> int \<Rightarrow> int \<Rightarrow> int \<Rightarrow> int" where
  "my_wildcmp_8bit cs guard str wild escape w_one w_many = wild_impl (weight cs) guard escape w_one w_many 1 str wild"

section \<open>What LIKE means\<close>

text \<open>The items of a pattern; an escape character makes the next byte a literal.\<close>

datatype item = Lit uchar | One | Many

fun pattern :: "int \<Rightarrow> int \<Rightarrow> int \<Rightarrow> uchar list \<Rightarrow> item list" where
  "pattern escape w_one w_many [] = []"
| "pattern escape w_one w_many (w # wild) =
     (if sint w = w_one then One # pattern escape w_one w_many wild
      else if sint w = w_many then Many # pattern escape w_one w_many wild
      else if sint w = escape \<and> wild \<noteq> [] then Lit (hd wild) # pattern escape w_one w_many (tl wild)
      else Lit w # pattern escape w_one w_many wild)"

fun like :: "(uchar \<Rightarrow> uchar) \<Rightarrow> item list \<Rightarrow> uchar list \<Rightarrow> bool" where
  "like f [] str \<longleftrightarrow> str = []"
| "like f (Lit c # p) str \<longleftrightarrow> str \<noteq> [] \<and> f (hd str) = f c \<and> like f p (tl str)"
| "like f (One # p) str \<longleftrightarrow> str \<noteq> [] \<and> like f p (tl str)"
| "like f (Many # p) str \<longleftrightarrow> (\<exists>k\<le>length str. like f p (drop k str))"

section \<open>The matcher decides LIKE\<close>

lemma like_many_step: "like f (Many # p) str \<longleftrightarrow> like f p str \<or> str \<noteq> [] \<and> like f (Many # p) (tl str)"
proof
  assume "like f (Many # p) str"
  then obtain k where k: "k \<le> length str" "like f p (drop k str)" by auto
  show "like f p str \<or> str \<noteq> [] \<and> like f (Many # p) (tl str)"
  proof (cases k)
    case (Suc i)
    then have "str \<noteq> []" "i \<le> length (tl str)" "like f p (drop i (tl str))" using k by (auto simp: drop_Suc)
    then show ?thesis by auto
  qed (use k in simp)
next
  assume "like f p str \<or> str \<noteq> [] \<and> like f (Many # p) (tl str)"
  then show "like f (Many # p) str"
  proof
    assume "str \<noteq> [] \<and> like f (Many # p) (tl str)"
    then obtain k where "str \<noteq> []" "k \<le> length (tl str)" "like f p (drop (Suc k) str)" by (auto simp: drop_Suc)
    then show ?thesis by (cases str) (auto intro!: exI [of _ "Suc k"])
  qed (auto intro: exI [of _ 0])
qed

lemma like_many_drop: "like f (Many # p) (drop k str) \<Longrightarrow> like f (Many # p) str"
proof (induction k arbitrary: str)
  case (Suc k)
  then have "like f (Many # p) (tl str)" by (simp only: drop_Suc)
  then show ?case using like_many_step [of f p str] Suc.IH [of "[]"] by (cases str) (auto simp del: like.simps(4))
qed simp

lemma like_many_many: "like f (Many # Many # p) str \<longleftrightarrow> like f (Many # p) str"
  using like_many_drop [of f p _ str] like_many_step [of f "Many # p" str] by (auto simp del: like.simps(4)) (auto)

lemma like_many_nil: "like f (Many # p) [] \<longleftrightarrow> like f p []"
  by simp

lemma like_many_one: "like f (Many # One # p) str \<longleftrightarrow> str \<noteq> [] \<and> like f (Many # p) (tl str)"
proof (induction str)
  case (Cons s str)
  then show ?case using like_many_step [of f "One # p" "s # str"] like_many_step [of f p str]
    by (auto simp del: like.simps(4))
qed simp

lemma like_length: "like f p str \<Longrightarrow> length (filter (\<lambda>i. i \<noteq> Many) p) \<le> length str"
proof (induction f p str rule: like.induct)
  case (4 f p str)
  then show ?case by fastforce
qed (auto simp: neq_Nil_conv)

text \<open>What a result of the matcher tells about the rest of the string and of the pattern.\<close>

definition verdict :: "(uchar \<Rightarrow> uchar) \<Rightarrow> item list \<Rightarrow> uchar list \<Rightarrow> int \<Rightarrow> bool" where
  "verdict f p str r \<longleftrightarrow> (r = 0 \<longleftrightarrow> like f p str) \<and> (r < 0 \<longrightarrow> (\<forall>k. \<not> like f p (drop k str)))"

lemma verdict_many:
  assumes "r = 0 \<longleftrightarrow> like f (Many # p) str"
  shows "verdict f (Many # p) str r"
  using assms like_many_drop [of f p _ str] by (auto simp: verdict_def simp del: like.simps(4))

lemma verdict_short:
  assumes "length str < length (filter (\<lambda>i. i \<noteq> Many) p)" "r \<noteq> 0"
  shows "verdict f p str r"
  using assms like_length [of f p] by (force simp: verdict_def)

lemma verdict_step:
  assumes "verdict f p (tl str) r" "str \<noteq> []" "f (hd str) = f c"
  shows "verdict f (Lit c # p) str r" "verdict f (One # p) str r"
proof -
  have tl: "tl (drop k str) = drop k (tl str)" for k by (rule drop_tl [symmetric])
  show "verdict f (Lit c # p) str r" "verdict f (One # p) str r"
    using assms by (auto simp: verdict_def tl)
qed

lemma skip_wild_like:
  assumes "w_one \<noteq> w_many"
  shows "like f (Many # pattern escape w_one w_many wild) str \<longleftrightarrow>
    (case skip_wild w_one w_many str wild of
       None \<Rightarrow> False
     | Some (s, w) \<Rightarrow> like f (Many # pattern escape w_one w_many w) s)"
proof (induction wild arbitrary: str)
  case (Cons w wild)
  then show ?case using assms by (simp add: like_many_many like_many_one del: like.simps(4))
qed simp

text \<open>A run of \<open>_\<close>.\<close>

lemma skip_ones_verdict:
  assumes "skip_ones w_one str (w # wild) = Some (s, w')" "sint w = w_one" "verdict f (pattern escape w_one w_many w') s r"
  shows "verdict f (pattern escape w_one w_many (w # wild)) str r"
  using assms
proof (induction str arbitrary: w wild)
  case (Cons a str)
  show ?case
  proof (cases "wild \<noteq> [] \<and> sint (hd wild) = w_one")
    case True
    then obtain v ws where wild: "wild = v # ws" "sint v = w_one" by (cases wild) auto
    then have "verdict f (pattern escape w_one w_many wild) str r" using Cons by simp
    then show ?thesis using verdict_step(2) [of f _ "a # str" r a] Cons.prems(2) by simp
  next
    case False
    then have "s = str" "w' = wild" using Cons.prems(1) by auto
    then show ?thesis using verdict_step(2) [of f _ "a # str" r a] Cons.prems(2,3) by simp
  qed
qed simp

lemma skip_ones_none:
  assumes "skip_ones w_one str (w # wild) = None" "sint w = w_one"
  shows "length str < length (filter (\<lambda>i. i \<noteq> Many) (pattern escape w_one w_many (w # wild)))"
  using assms
proof (induction str arbitrary: w wild)
  case (Cons a str)
  then obtain v ws where wild: "wild = v # ws" "sint v = w_one" "skip_ones w_one str (v # ws) = None"
    by (cases wild) (auto split: if_splits)
  then show ?case using Cons.IH [of v ws] Cons.prems(2) by simp
qed simp

section \<open>Signed and unsigned bytes\<close>

lemma sint_uint_ascii:
  assumes "0 \<le> e" "e < 128"
  shows "uint (c :: uchar) = e \<longleftrightarrow> sint c = e"
proof
  assume "uint c = e"
  then show "sint c = e" using assms by (simp add: sint_uint signed_take_bit_int_eq_self)
next
  assume "sint c = e"
  then show "uint c = e" using assms by (simp add: uint_sint take_bit_int_eq_self)
qed

section \<open>The matcher decides LIKE\<close>

text \<open>How deep the recursion can go: one level per \<open>%\<close> of the pattern.\<close>

definition stars :: "int \<Rightarrow> uchar list \<Rightarrow> nat" where
  "stars w_many wild = length (filter (\<lambda>w. sint w = w_many) wild)"

lemma stars_simps [simp]:
  "stars w_many [] = 0" "stars w_many (w # wild) = (if sint w = w_many then 1 else 0) + stars w_many wild"
  by (simp_all add: stars_def)

lemma stars_tl: "stars w_many (tl wild) \<le> stars w_many wild"
  by (cases wild) auto

lemma skip_ones_stars: "skip_ones w_one str wild = Some (s, w) \<Longrightarrow> stars w_many w \<le> stars w_many wild"
proof (induction w_one str wild rule: skip_ones.induct)
  case (2 w_one c str wild)
  then have "stars w_many w \<le> stars w_many (tl wild)" by (auto split: if_splits)
  then show ?case using stars_tl [of w_many wild] by simp
qed simp

lemma skip_wild_stars: "skip_wild w_one w_many str wild = Some (s, w) \<Longrightarrow> stars w_many w \<le> stars w_many wild"
  by (induction w_one w_many str wild rule: skip_wild.induct) (auto split: if_splits)

lemma skip_wild_head:
  "skip_wild w_one w_many str wild = Some (s, v # rest) \<Longrightarrow> sint v \<noteq> w_one \<and> sint v \<noteq> w_many"
  by (induction w_one w_many str wild rule: skip_wild.induct) (auto split: if_splits)

lemma scan_step:
  assumes "f c = cmp" "f s = cmp" "verdict f p str tmp"
    "0 < tmp \<Longrightarrow> r \<le> 0 \<and> (r = 0 \<longleftrightarrow> like f (Many # Lit c # p) str)"
  shows "(if tmp \<le> 0 then tmp else r) \<le> 0 \<and>
    ((if tmp \<le> 0 then tmp else r) = 0 \<longleftrightarrow> like f (Many # Lit c # p) (s # str))"
proof -
  have "like f (Many # Lit c # p) (s # str) \<longleftrightarrow> like f p str \<or> like f (Many # Lit c # p) str"
    using like_many_step [of f "Lit c # p" "s # str"] assms(1,2) by simp
  moreover have "\<not> like f (Many # Lit c # p) str" if "tmp < 0"
  proof -
    have "tl (drop k str) = drop (Suc k) str" for k by (simp add: drop_Suc drop_tl)
    then show ?thesis using assms(3) that by (auto simp: verdict_def)
  qed
  ultimately show ?thesis using assms(3,4) by (cases "tmp < 0"; cases "tmp = 0") (auto simp: verdict_def simp del: like.simps)
qed

definition quiet :: "(nat \<Rightarrow> bool) \<Rightarrow> nat \<Rightarrow> nat \<Rightarrow> bool" where
  "quiet guard a b \<longleftrightarrow> (\<forall>n. a \<le> n \<and> n \<le> b \<longrightarrow> \<not> guard n)"

lemma quiet_mono: "quiet guard a b \<Longrightarrow> a \<le> a' \<Longrightarrow> b' \<le> b \<Longrightarrow> quiet guard a' b'"
  by (auto simp: quiet_def)

definition wildcards_ok :: "int \<Rightarrow> int \<Rightarrow> int \<Rightarrow> bool" where
  "wildcards_ok escape w_one w_many \<longleftrightarrow> w_one \<noteq> w_many \<and> 0 \<le> escape \<and> escape < 128"

text \<open>The three branches of the loop body.\<close>

lemma loop_literal:
  assumes "sint w \<noteq> w_many" "sint w \<noteq> w_one" "escaped = (sint w = escape \<and> wild \<noteq> [])"
    "c = (if escaped then hd wild else w)" "rest = (if escaped then tl wild else wild)"
    "str \<noteq> [] \<Longrightarrow> f c = f (hd str) \<Longrightarrow> rest \<noteq> [] \<Longrightarrow> verdict f (pattern escape w_one w_many rest) (tl str) r"
  shows "verdict f (pattern escape w_one w_many (w # wild)) str
    (if str = [] \<or> f c \<noteq> f (hd str) then 1 else if rest = [] then (if tl str \<noteq> [] then 1 else 0) else r)"
proof -
  have p: "pattern escape w_one w_many (w # wild) = Lit c # pattern escape w_one w_many rest" using assms(1-5) by auto
  show ?thesis
  proof (cases "str = [] \<or> f c \<noteq> f (hd str) \<or> rest = []")
    case True
    then show ?thesis unfolding p by (auto simp: verdict_def)
  next
    case False
    then have "verdict f (Lit c # pattern escape w_one w_many rest) str r"
      using assms(6) by (intro verdict_step(1)) auto
    then show ?thesis using False unfolding p by simp
  qed
qed

lemma loop_many:
  assumes ok: "wildcards_ok escape w_one w_many" and w: "sint w = w_many" "sint w \<noteq> w_one"
    and scan: "\<And>str' v rest escaped c. skip_wild w_one w_many str wild = Some (str', v # rest) \<Longrightarrow>
      escaped = (uint v = escape \<and> rest \<noteq> []) \<Longrightarrow> c = (if escaped then hd rest else v) \<Longrightarrow> str' \<noteq> [] \<Longrightarrow>
      r (f c) str' (if escaped then tl rest else rest) = 0 \<longleftrightarrow>
        like f (Many # Lit c # pattern escape w_one w_many (if escaped then tl rest else rest)) str'"
  shows "verdict f (pattern escape w_one w_many (w # wild)) str
    (case skip_wild w_one w_many str wild of
       None \<Rightarrow> -1
     | Some (str', rest) \<Rightarrow>
         if rest = [] then 0
         else if str' = [] then -1
         else (let escaped = (uint (hd rest) = escape \<and> tl rest \<noteq> []);
                   cmp = f (if escaped then hd (tl rest) else hd rest)
               in r cmp str' (if escaped then tl (tl rest) else tl rest)))"
proof -
  have neq: "w_one \<noteq> w_many" and esc: "uint v = escape \<longleftrightarrow> sint v = escape" for v :: uchar
    using ok sint_uint_ascii by (auto simp: wildcards_ok_def)
  have p: "pattern escape w_one w_many (w # wild) = Many # pattern escape w_one w_many wild" using w by simp
  note like = skip_wild_like [OF neq, of f escape wild str]
  show ?thesis
  proof (cases "skip_wild w_one w_many str wild")
    case None
    then show ?thesis unfolding p using like by (intro verdict_many) simp
  next
    case (Some x)
    obtain s' wild' where x: "x = (s', wild')" by fastforce
    show ?thesis
    proof (cases wild')
      case Nil
      then show ?thesis unfolding p using like Some x by (intro verdict_many) (auto intro!: exI [of _ "length s'"])
    next
      case (Cons v rest)
      define e where "e \<longleftrightarrow> uint v = escape \<and> rest \<noteq> []"
      define c where "c = (if e then hd rest else v)"
      define rs where "rs = (if e then tl rest else rest)"
      have v: "sint v \<noteq> w_one" "sint v \<noteq> w_many" using skip_wild_head [of w_one w_many str wild s' v rest] Some x Cons by auto
      then have "pattern escape w_one w_many wild' = Lit c # pattern escape w_one w_many rs"
        using Cons esc by (auto simp: e_def c_def rs_def)
      then have l: "like f (Many # pattern escape w_one w_many wild) str \<longleftrightarrow> like f (Many # Lit c # pattern escape w_one w_many rs) s'"
        using like Some x by simp
      have "r (f c) s' rs = 0 \<longleftrightarrow> like f (Many # Lit c # pattern escape w_one w_many rs) s'" if "s' \<noteq> []"
        using scan [OF _ e_def c_def that] Some x Cons by (simp add: rs_def)
      then have "verdict f (Many # pattern escape w_one w_many wild) str (if s' = [] then -1 else r (f c) s' rs)"
        using l by (intro verdict_many) (auto simp del: like.simps(4) simp: like_many_nil)
      then show ?thesis unfolding p
        by (simp only: Some x Cons option.case prod.case list.sel Let_def e_def [symmetric] c_def [symmetric]
            rs_def [symmetric] list.distinct if_False)
    qed
  qed
qed

lemma wild_impl_verdict:
  "wildcards_ok escape w_one w_many \<Longrightarrow> quiet guard lvl (lvl + stars w_many wild) \<Longrightarrow>
    verdict f (pattern escape w_one w_many wild) str (wild_impl f guard escape w_one w_many lvl str wild)"
  "wildcards_ok escape w_one w_many \<Longrightarrow> quiet guard (lvl + 1) (lvl + stars w_many wild) \<Longrightarrow> result \<noteq> 0 \<Longrightarrow>
    verdict f (pattern escape w_one w_many wild) str (wild_loop f guard escape w_one w_many lvl result str wild)"
  "wildcards_ok escape w_one w_many \<Longrightarrow> quiet guard (lvl + 1) (lvl + 1 + stars w_many wild) \<Longrightarrow> f c = cmp \<Longrightarrow>
    wild_scan f guard escape w_one w_many lvl cmp str wild \<le> 0 \<and>
    (wild_scan f guard escape w_one w_many lvl cmp str wild = 0 \<longleftrightarrow> like f (Many # Lit c # pattern escape w_one w_many wild) str)"
proof (induction f guard escape w_one w_many lvl str wild and f guard escape w_one w_many lvl result str wild
    and f guard escape w_one w_many lvl cmp str wild arbitrary: and and c rule: wild_impl_wild_loop_wild_scan.induct)
  case (1 f guard escape w_one w_many lvl str wild)
  have "\<not> guard lvl" using 1 by (auto simp: quiet_def)
  moreover have "quiet guard (lvl + 1) (lvl + stars w_many wild)" using 1(3) by (rule quiet_mono) auto
  ultimately show ?case using 1 by simp
next
  case (2 f guard escape w_one w_many lvl result str)
  then show ?case by (simp add: verdict_def)
next
  case (3 f guard escape w_one w_many lvl result str w wild)
  have less: "quiet guard (lvl + 1) (lvl + n)" if "n \<le> stars w_many (w # wild)" for n
    using 3(5) by (rule quiet_mono) (use that in auto)
  consider "sint w \<noteq> w_many" "sint w \<noteq> w_one" | "sint w = w_one" | "sint w = w_many" "sint w \<noteq> w_one" by blast
  then show ?case
  proof cases
    case 1
    let ?e = "sint w = escape \<and> wild \<noteq> []"
    have st: "stars w_many (if ?e then tl wild else wild) \<le> stars w_many (w # wild)" using stars_tl [of w_many wild] by auto
    have "verdict f (pattern escape w_one w_many (w # wild)) str
      (if str = [] \<or> f (if ?e then hd wild else w) \<noteq> f (hd str) then 1
       else if (if ?e then tl wild else wild) = [] then (if tl str \<noteq> [] then 1 else 0)
       else wild_loop f guard escape w_one w_many lvl 1 (tl str) (if ?e then tl wild else wild))"
    proof (intro loop_literal [OF 1 refl refl refl] 3(1) [OF _ refl refl refl])
      show "quiet guard (lvl + 1) (lvl + stars w_many (if ?e then tl wild else wild))" by (rule less [OF st])
    qed (use 1 3(4) in auto)
    then show ?thesis using 1 by (simp add: Let_def)
  next
    case 2
    show ?thesis
    proof (cases "skip_ones w_one str (w # wild)")
      case None
      then show ?thesis using skip_ones_none [OF None 2] 3(6) 2 by (simp add: verdict_short)
    next
      case (Some x)
      obtain s' w' where x: "x = (s', w')" by fastforce
      have st: "stars w_many w' \<le> stars w_many (w # wild)" by (rule skip_ones_stars [OF Some [unfolded x]])
      have "verdict f (pattern escape w_one w_many w') s' (wild_loop f guard escape w_one w_many lvl result s' w')"
        by (rule 3(2) [OF _ 2 Some x [symmetric] 3(4) less [OF st] 3(6)]) (simp add: 2)
      then show ?thesis using skip_ones_verdict [of w_one str w wild s' w'] Some x 2 by simp
    qed
  next
    case many: 3
    have "verdict f (pattern escape w_one w_many (w # wild)) str
      (case skip_wild w_one w_many str wild of
         None \<Rightarrow> -1
       | Some (str', rest) \<Rightarrow>
           if rest = [] then 0
           else if str' = [] then -1
           else (let escaped = (uint (hd rest) = escape \<and> tl rest \<noteq> []);
                     cmp = f (if escaped then hd (tl rest) else hd rest)
                 in wild_scan f guard escape w_one w_many lvl cmp str' (if escaped then tl (tl rest) else tl rest)))"
    proof (rule loop_many [OF 3(4) many])
      fix str' v rest escaped c
      assume sk: "skip_wild w_one w_many str wild = Some (str', v # rest)" "escaped = (uint v = escape \<and> rest \<noteq> [])"
        "c = (if escaped then hd rest else v)" "str' \<noteq> []"
      have "stars w_many (if escaped then tl rest else rest) + 1 \<le> stars w_many (w # wild)"
        using skip_wild_stars [OF sk(1)] many stars_tl [of w_many rest] by auto
      then have q: "quiet guard (lvl + 1) (lvl + 1 + stars w_many (if escaped then tl rest else rest))"
        using less [of "stars w_many (if escaped then tl rest else rest) + 1"] by (simp add: add_ac)
      note ih = 3(3) [of "(str', v # rest)" str' "v # rest" escaped "f c" c, unfolded list.sel]
      have "f c = f (if escaped then hd rest else v)" using sk(3) by simp
      from ih [OF _ many(2) sk(1) refl _ sk(4) sk(2) this 3(4) q refl] many(1)
      show "wild_scan f guard escape w_one w_many lvl (f c) str' (if escaped then tl rest else rest) = 0 \<longleftrightarrow>
        like f (Many # Lit c # pattern escape w_one w_many (if escaped then tl rest else rest)) str'"
        by (simp del: like.simps)
    qed
    then show ?thesis using many by simp
  qed
next
  case (4 f guard escape w_one w_many lvl cmp wild)
  then show ?case by simp
next
  case (5 f guard escape w_one w_many lvl cmp s str wild)
  show ?case
  proof (cases "f s = cmp")
    case True
    define t where "t = wild_impl f guard escape w_one w_many (lvl + 1) str wild"
    have "verdict f (pattern escape w_one w_many wild) str t" using 5(2,4,5) True by (simp add: t_def del: wild_impl.simps)
    from scan_step [where f = f, OF 5(6) True this, of "wild_scan f guard escape w_one w_many lvl cmp str wild"]
    show ?thesis using 5(3) [OF _ t_def _ 5(4,5,6)] True
      by (simp only: wild_scan.simps t_def [symmetric] Let_def) simp
  next
    case False
    then show ?thesis using 5 like_many_step [of f _ "s # str"] by (simp del: like.simps(4))
  qed
qed

end
