(* ===== verification/Ctype_Simple.thy ===== *)
theory Ctype_Simple
  imports Charset Ctype_Bin
begin

text \<open>
  8-bit collations: \<open>strings/ctype-simple.c\<close> (collations given by a table of weights) and the 8-bit
  part of \<open>strings/ctype-bin.c\<close> (bytes compared as they are).  Strings are lists of bytes; a result
  written to a buffer is returned.  A C string with its terminator is a list that contains the
  byte 0, and running over the end of the list gives \<open>None\<close>.
\<close>

section \<open>Comparing\<close>

text \<open>The common loop: the difference of the first weights that differ.\<close>

fun coll_loop :: "(uchar \<Rightarrow> uchar) \<Rightarrow> uchar list \<Rightarrow> uchar list \<Rightarrow> int option" where
  "coll_loop f (a # s) (b # t) = (if f a \<noteq> f b then Some (uint (f a) - uint (f b)) else coll_loop f s t)"
| "coll_loop f _ _ = None"

definition my_strnncoll_simple :: "charset_info_st \<Rightarrow> uchar list \<Rightarrow> uchar list \<Rightarrow> bool \<Rightarrow> int" where
  "my_strnncoll_simple cs s t t_is_prefix =
     (let slen = (if t_is_prefix \<and> length s > length t then length t else length s)
      in case coll_loop (weight cs) s t of
           Some d \<Rightarrow> d
         | None \<Rightarrow> if slen > length t then 1 else if slen < length t then -1 else 0)"

text \<open>The rest of the longer string against spaces.\<close>

fun pad_loop :: "(uchar \<Rightarrow> uchar) \<Rightarrow> int \<Rightarrow> uchar list \<Rightarrow> int" where
  "pad_loop f swap [] = 0"
| "pad_loop f swap (a # s) =
     (if f a \<noteq> f 0x20 then (if f a < f 0x20 then - swap else swap) else pad_loop f swap s)"

definition my_strnncollsp_simple :: "charset_info_st \<Rightarrow> uchar list \<Rightarrow> uchar list \<Rightarrow> int" where
  "my_strnncollsp_simple cs a b =
     (let len = min (length a) (length b)
      in case coll_loop (weight cs) a b of
           Some d \<Rightarrow> d
         | None \<Rightarrow>
             if length a \<noteq> length b then
               (if length a < length b then pad_loop (weight cs) (-1) (drop len b)
                else pad_loop (weight cs) 1 (drop len a))
             else 0)"

definition my_strnncollsp_simple_nopad :: "charset_info_st \<Rightarrow> uchar list \<Rightarrow> uchar list \<Rightarrow> int" where
  "my_strnncollsp_simple_nopad cs a b = my_strnncoll_simple cs a b False"

definition my_strnncoll_8bit_bin :: "uchar list \<Rightarrow> uchar list \<Rightarrow> bool \<Rightarrow> int" where
  "my_strnncoll_8bit_bin s t t_is_prefix =
     (let len = min (length s) (length t);
          cmp = memcmp_list (take len s) (take len t)
      in if cmp \<noteq> 0 then cmp
         else s32 (int (if t_is_prefix then len else length s) - int (length t)))"

fun my_strnncollsp_padspace_bin :: "uchar list \<Rightarrow> int" where
  "my_strnncollsp_padspace_bin [] = 0"
| "my_strnncollsp_padspace_bin (c # str) =
     (if c < 0x20 then -1 else if c > 0x20 then 1 else my_strnncollsp_padspace_bin str)"

definition my_strnncollsp_8bit_bin :: "uchar list \<Rightarrow> uchar list \<Rightarrow> int" where
  "my_strnncollsp_8bit_bin a b =
     (let len = min (length a) (length b)
      in case coll_loop (\<lambda>c. c) a b of
           Some d \<Rightarrow> d
         | None \<Rightarrow>
             if length a = length b then 0
             else if length a < length b then - my_strnncollsp_padspace_bin (drop len b)
             else my_strnncollsp_padspace_bin (drop len a))"

definition my_strnncollsp_8bit_nopad_bin :: "uchar list \<Rightarrow> uchar list \<Rightarrow> int" where
  "my_strnncollsp_8bit_nopad_bin a b = my_strnncoll_8bit_bin a b False"

section \<open>Trailing spaces\<close>

definition SIZEOF_INT :: nat where "SIZEOF_INT = 4"

text \<open>\<open>while (end > lo && end[-1] == 0x20) end--;\<close>\<close>

fun trim_bytes :: "uchar list \<Rightarrow> nat \<Rightarrow> nat \<Rightarrow> nat" where
  "trim_bytes key lo 0 = 0"
| "trim_bytes key lo (Suc e) = (if Suc e > lo \<and> key ! e = 0x20 then trim_bytes key lo e else Suc e)"

text \<open>
  \<open>while (end > lo && ((unsigned*) end)[-1] == SPACE_INT) end-= SIZEOF_INT;\<close>.  The word in front of
  \<open>end\<close> equals \<open>0x20202020\<close> when its four bytes are spaces.
\<close>

function trim_words :: "uchar list \<Rightarrow> nat \<Rightarrow> nat \<Rightarrow> nat" where
  "trim_words key lo e =
     (if e > lo \<and> take SIZEOF_INT (drop (e - SIZEOF_INT) key) = replicate SIZEOF_INT 0x20
      then trim_words key lo (e - SIZEOF_INT) else e)"
  by pat_completeness auto
termination
  by (relation "measure (\<lambda>(_, _, e). e)") (auto simp: SIZEOF_INT_def)

declare trim_words.simps [simp del]

text \<open>
  The block \<open>if (len > 20)\<close>.  \<open>ptr\<close> is the address of the first byte; the word loop runs between aligned
  addresses only.
\<close>

definition skip_words :: "nat \<Rightarrow> uchar list \<Rightarrow> nat" where
  "skip_words ptr key =
     (let end_words = (ptr + length key) div SIZEOF_INT * SIZEOF_INT - ptr;
          start_words = (ptr + SIZEOF_INT - 1) div SIZEOF_INT * SIZEOF_INT - ptr
      in if end_words > 0 then
           (let e = trim_bytes key end_words (length key)
            in if key ! (e - 1) = 0x20 \<and> start_words < end_words then trim_words key start_words e else e)
         else length key)"

definition skip_trailing_space :: "nat \<Rightarrow> uchar list \<Rightarrow> nat" where
  "skip_trailing_space ptr key = trim_bytes key 0 (if length key > 20 then skip_words ptr key else length key)"

definition my_lengthsp_8bit :: "nat \<Rightarrow> uchar list \<Rightarrow> nat" where
  "my_lengthsp_8bit ptr key = skip_trailing_space ptr key"

definition my_lengthsp_binary :: "uchar list \<Rightarrow> nat" where
  "my_lengthsp_binary key = length key"

section \<open>Hashing\<close>

fun my_hash_sort_simple_nopad :: "charset_info_st \<Rightarrow> uchar list \<Rightarrow> ulonglong \<Rightarrow> ulonglong \<Rightarrow> ulonglong \<times> ulonglong" where
  "my_hash_sort_simple_nopad cs [] m1 m2 = (m1, m2)"
| "my_hash_sort_simple_nopad cs (c # key) m1 m2 =
     (let (a, b) = MY_HASH_ADD m1 m2 (weight cs c) in my_hash_sort_simple_nopad cs key a b)"

text \<open>\<open>for ( ; key < end ; ) if (sort_order[*--end] != space_weight) { end++; break; }\<close>\<close>

fun trim_weights :: "(uchar \<Rightarrow> uchar) \<Rightarrow> uchar list \<Rightarrow> nat \<Rightarrow> nat" where
  "trim_weights f key 0 = 0"
| "trim_weights f key (Suc e) = (if f (key ! e) \<noteq> f 0x20 then Suc e else trim_weights f key e)"

definition my_hash_sort_simple ::
  "charset_info_st \<Rightarrow> nat \<Rightarrow> uchar list \<Rightarrow> ulonglong \<Rightarrow> ulonglong \<Rightarrow> ulonglong \<times> ulonglong" where
  "my_hash_sort_simple cs ptr key nr1 nr2 =
     (let e = (if length key > 16 then skip_trailing_space ptr key else length key)
      in my_hash_sort_simple_nopad cs (take (trim_weights (weight cs) key e) key) nr1 nr2)"

definition my_hash_sort_8bit_bin :: "nat \<Rightarrow> uchar list \<Rightarrow> ulonglong \<Rightarrow> ulonglong \<Rightarrow> ulonglong \<times> ulonglong" where
  "my_hash_sort_8bit_bin ptr key nr1 nr2 = my_hash_sort_bin (take (skip_trailing_space ptr key) key) nr1 nr2"

section \<open>Upper and lower case\<close>

text \<open>\<open>while ((*str= map[*str]) != 0) str++;\<close>: the changed memory and the length of the string.\<close>

fun case_str :: "(uchar \<Rightarrow> uchar) \<Rightarrow> uchar list \<Rightarrow> (uchar list \<times> nat) option" where
  "case_str f [] = None"
| "case_str f (c # str) =
     (if f c = 0 then Some (0 # str, 0) else map_option (\<lambda>(s, n). (f c # s, n + 1)) (case_str f str))"

definition my_caseup_str_8bit :: "charset_info_st \<Rightarrow> uchar list \<Rightarrow> (uchar list \<times> nat) option" where
  "my_caseup_str_8bit cs str = case_str (tab (to_upper cs)) str"

definition my_casedn_str_8bit :: "charset_info_st \<Rightarrow> uchar list \<Rightarrow> (uchar list \<times> nat) option" where
  "my_casedn_str_8bit cs str = case_str (tab (to_lower cs)) str"

definition my_caseup_8bit :: "charset_info_st \<Rightarrow> uchar list \<Rightarrow> uchar list \<times> nat" where
  "my_caseup_8bit cs src = (map (tab (to_upper cs)) src, length src)"

definition my_casedn_8bit :: "charset_info_st \<Rightarrow> uchar list \<Rightarrow> uchar list \<times> nat" where
  "my_casedn_8bit cs src = (map (tab (to_lower cs)) src, length src)"

fun strcasecmp_loop :: "(uchar \<Rightarrow> uchar) \<Rightarrow> uchar list \<Rightarrow> uchar list \<Rightarrow> int option" where
  "strcasecmp_loop f (a # s) (b # t) =
     (if f a = f b then (if a = 0 then Some 0 else strcasecmp_loop f s t) else Some (uint (f a) - uint (f b)))"
| "strcasecmp_loop f _ _ = None"

definition my_strcasecmp_8bit :: "charset_info_st \<Rightarrow> uchar list \<Rightarrow> uchar list \<Rightarrow> int option" where
  "my_strcasecmp_8bit cs s t = strcasecmp_loop (tab (to_upper cs)) s t"

section \<open>Searching\<close>

record my_match_t =
  beg :: nat
  match_end :: nat
  mb_len :: nat

fun match_rest :: "(uchar \<Rightarrow> uchar) \<Rightarrow> uchar list \<Rightarrow> uchar list \<Rightarrow> bool" where
  "match_rest f i [] = True"
| "match_rest f [] (b # j) = False"
| "match_rest f (a # i) (b # j) = (f a = f b \<and> match_rest f i j)"

text \<open>The loop over the \<open>n\<close> positions where the search string can start; \<open>pos\<close> counts them.\<close>

fun instr_loop :: "(uchar \<Rightarrow> uchar) \<Rightarrow> uchar list \<Rightarrow> nat \<Rightarrow> uchar list \<Rightarrow> nat \<Rightarrow> nat option" where
  "instr_loop f search 0 str pos = None"
| "instr_loop f search (Suc n) str pos =
     (if f (hd str) = f (hd search) \<and> match_rest f (tl str) (tl search) then Some pos
      else instr_loop f search n (tl str) (pos + 1))"

definition instr_8bit :: "(uchar \<Rightarrow> uchar) \<Rightarrow> uchar list \<Rightarrow> uchar list \<Rightarrow> nat \<Rightarrow> nat \<times> my_match_t list" where
  "instr_8bit f b s nmatch =
     (if length s \<le> length b then
        if s = [] then (1, if nmatch \<noteq> 0 then [\<lparr>beg = 0, match_end = 0, mb_len = 0\<rparr>] else [])
        else
          (case instr_loop f s (length b - length s + 1) b 0 of
             None \<Rightarrow> (0, [])
           | Some p \<Rightarrow>
               (2, take nmatch
                     [\<lparr>beg = 0, match_end = u32 p, mb_len = u32 p\<rparr>,
                      \<lparr>beg = u32 p, match_end = u32 (u32 p + length s),
                       mb_len = u32 (u32 (u32 p + length s) + 2 ^ 32 - u32 p)\<rparr>]))
      else (0, []))"

definition my_instr_simple :: "charset_info_st \<Rightarrow> uchar list \<Rightarrow> uchar list \<Rightarrow> nat \<Rightarrow> nat \<times> my_match_t list" where
  "my_instr_simple cs b s nmatch = instr_8bit (weight cs) b s nmatch"

definition my_instr_bin :: "uchar list \<Rightarrow> uchar list \<Rightarrow> nat \<Rightarrow> nat \<times> my_match_t list" where
  "my_instr_bin b s nmatch = instr_8bit (\<lambda>c. c) b s nmatch"

section \<open>Sort keys\<close>

definition MY_STRXFRM_LEVEL_ALL :: uint32 where "MY_STRXFRM_LEVEL_ALL = 0x3F"
definition MY_STRXFRM_NLEVELS :: nat where "MY_STRXFRM_NLEVELS = 6"
definition MY_STRXFRM_DESC_SHIFT :: nat where "MY_STRXFRM_DESC_SHIFT = 8"
definition MY_STRXFRM_REVERSE_SHIFT :: nat where "MY_STRXFRM_REVERSE_SHIFT = 16"
definition MY_STRXFRM_PAD_WITH_SPACE :: uint32 where "MY_STRXFRM_PAD_WITH_SPACE = 0x40"
definition MY_STRXFRM_PAD_TO_MAXLEN :: uint32 where "MY_STRXFRM_PAD_TO_MAXLEN = 0x80"
definition MY_STRXFRM_DESC_LEVEL1 :: uint32 where "MY_STRXFRM_DESC_LEVEL1 = 0x100"
definition MY_STRXFRM_REVERSE_LEVEL1 :: uint32 where "MY_STRXFRM_REVERSE_LEVEL1 = 0x10000"

definition my_strnxfrmlen_simple :: "charset_info_st \<Rightarrow> nat \<Rightarrow> nat" where
  "my_strnxfrmlen_simple cs len = u64 (len * (if strxfrm_multiply cs \<noteq> 0 then strxfrm_multiply cs else 1))"

text \<open>The bytes written and the weights left; \<open>src\<close> and \<open>dst\<close> may be the same buffer.\<close>

definition my_strnxfrm_simple_internal :: "charset_info_st \<Rightarrow> nat \<Rightarrow> nat \<Rightarrow> uchar list \<Rightarrow> uchar list \<times> nat" where
  "my_strnxfrm_simple_internal cs dstlen nweights src =
     (let frmlen = (if min dstlen nweights > length src then length src else min dstlen nweights)
      in (map (weight cs) (take frmlen src), nweights - frmlen))"

text \<open>The two exchanging loops; \<open>j\<close> is \<open>strend\<close> after \<open>strend--\<close>, which may be one before \<open>str\<close>.\<close>

function swap_not_loop :: "uchar list \<Rightarrow> int \<Rightarrow> int \<Rightarrow> uchar list" where
  "swap_not_loop str i j =
     (if i \<le> j then
        swap_not_loop ((str[nat i := NOT (str ! nat j)])[nat j := NOT (str ! nat i)]) (i + 1) (j - 1)
      else str)"
  by pat_completeness auto
termination
  by (relation "measure (\<lambda>(_, i, j). nat (j + 1 - i))") auto

function swap_loop :: "uchar list \<Rightarrow> int \<Rightarrow> int \<Rightarrow> uchar list" where
  "swap_loop str i j =
     (if i < j then swap_loop ((str[nat i := str ! nat j])[nat j := str ! nat i]) (i + 1) (j - 1)
      else str)"
  by pat_completeness auto
termination
  by (relation "measure (\<lambda>(_, i, j). nat (j + 1 - i))") auto

declare swap_not_loop.simps [simp del] swap_loop.simps [simp del]

definition my_strxfrm_desc_and_reverse :: "uchar list \<Rightarrow> uint32 \<Rightarrow> nat \<Rightarrow> uchar list" where
  "my_strxfrm_desc_and_reverse str flags level =
     (if flags AND push_bit level MY_STRXFRM_DESC_LEVEL1 \<noteq> 0 then
        if flags AND push_bit level MY_STRXFRM_REVERSE_LEVEL1 \<noteq> 0
        then swap_not_loop str 0 (int (length str) - 1)
        else map (\<lambda>c. NOT c) str
      else if flags AND push_bit level MY_STRXFRM_REVERSE_LEVEL1 \<noteq> 0
        then swap_loop str 0 (int (length str) - 1)
        else str)"

definition my_fill_8bit :: "nat \<Rightarrow> uchar \<Rightarrow> uchar list" where
  "my_fill_8bit l fill = replicate l fill"

text \<open>\<open>room\<close> is \<open>strend - frmend\<close>; the result are the bytes of the key.\<close>

definition strxfrm_pad_desc_and_reverse ::
  "uchar \<Rightarrow> charset_info_st \<Rightarrow> uchar list \<Rightarrow> nat \<Rightarrow> nat \<Rightarrow> uint32 \<Rightarrow> nat \<Rightarrow> uchar list" where
  "strxfrm_pad_desc_and_reverse pad cs frm room nweights flags level =
     (let fill_length = (if nweights \<noteq> 0 \<and> room > 0 \<and> flags AND MY_STRXFRM_PAD_WITH_SPACE \<noteq> 0
                         then min (u32 room) (u32 (nweights * mbminlen cs)) else 0);
          str = my_strxfrm_desc_and_reverse (frm @ my_fill_8bit fill_length pad) flags level;
          room = room - fill_length
      in if flags AND MY_STRXFRM_PAD_TO_MAXLEN \<noteq> 0 \<and> room > 0 then str @ my_fill_8bit room pad else str)"

definition my_strxfrm_pad_desc_and_reverse ::
  "charset_info_st \<Rightarrow> uchar list \<Rightarrow> nat \<Rightarrow> nat \<Rightarrow> uint32 \<Rightarrow> nat \<Rightarrow> uchar list" where
  "my_strxfrm_pad_desc_and_reverse cs = strxfrm_pad_desc_and_reverse (pad_char cs) cs"

definition my_strxfrm_pad_desc_and_reverse_nopad ::
  "charset_info_st \<Rightarrow> uchar list \<Rightarrow> nat \<Rightarrow> nat \<Rightarrow> uint32 \<Rightarrow> nat \<Rightarrow> uchar list" where
  "my_strxfrm_pad_desc_and_reverse_nopad cs = strxfrm_pad_desc_and_reverse 0 cs"

definition my_strnxfrm_simple :: "charset_info_st \<Rightarrow> nat \<Rightarrow> nat \<Rightarrow> uchar list \<Rightarrow> uint32 \<Rightarrow> uchar list" where
  "my_strnxfrm_simple cs dstlen nweights src flags =
     (let (frm, left) = my_strnxfrm_simple_internal cs dstlen nweights src
      in my_strxfrm_pad_desc_and_reverse cs frm (dstlen - length frm) left flags 0)"

definition my_strnxfrm_simple_nopad :: "charset_info_st \<Rightarrow> nat \<Rightarrow> nat \<Rightarrow> uchar list \<Rightarrow> uint32 \<Rightarrow> uchar list" where
  "my_strnxfrm_simple_nopad cs dstlen nweights src flags =
     (let (frm, left) = my_strnxfrm_simple_internal cs dstlen nweights src
      in my_strxfrm_pad_desc_and_reverse_nopad cs frm (dstlen - length frm) left flags 0)"

definition my_strnxfrm_8bit_bin :: "charset_info_st \<Rightarrow> nat \<Rightarrow> nat \<Rightarrow> uchar list \<Rightarrow> uint32 \<Rightarrow> uchar list" where
  "my_strnxfrm_8bit_bin cs dstlen nweights src flags =
     (let srclen = min (min (length src) dstlen) nweights
      in my_strxfrm_pad_desc_and_reverse cs (take srclen src) (dstlen - srclen) (u32 (nweights - srclen)) flags 0)"

definition my_strnxfrm_8bit_nopad_bin :: "charset_info_st \<Rightarrow> nat \<Rightarrow> nat \<Rightarrow> uchar list \<Rightarrow> uint32 \<Rightarrow> uchar list" where
  "my_strnxfrm_8bit_nopad_bin cs dstlen nweights src flags =
     (let srclen = min (min (length src) dstlen) nweights
      in my_strxfrm_pad_desc_and_reverse_nopad cs (take srclen src) (dstlen - srclen) (u32 (nweights - srclen)) flags 0)"

text \<open>The loop over the levels of \<open>my_strxfrm_flag_normalize\<close>, from level \<open>i\<close> on with \<open>n\<close> to go.\<close>

fun level_loop :: "uint32 \<Rightarrow> uint32 \<Rightarrow> uint32 \<Rightarrow> nat \<Rightarrow> nat \<Rightarrow> nat \<Rightarrow> uint32 \<Rightarrow> uint32" where
  "level_loop flag_lev flag_dsc flag_rev maximum i 0 flags = flags"
| "level_loop flag_lev flag_dsc flag_rev maximum i (Suc n) flags =
     level_loop flag_lev flag_dsc flag_rev maximum (i + 1) n
       (if flag_lev AND push_bit i 1 \<noteq> 0 then
          (let dst_bit = push_bit (min i maximum) 1
           in flags OR dst_bit OR push_bit MY_STRXFRM_DESC_SHIFT (flag_dsc AND dst_bit)
              OR push_bit MY_STRXFRM_REVERSE_SHIFT (flag_rev AND dst_bit))
        else flags)"

definition my_strxfrm_flag_normalize :: "uint32 \<Rightarrow> nat \<Rightarrow> uint32" where
  "my_strxfrm_flag_normalize flags maximum =
     (let flag_pad = flags AND (MY_STRXFRM_PAD_WITH_SPACE OR MY_STRXFRM_PAD_TO_MAXLEN)
      in if flags AND MY_STRXFRM_LEVEL_ALL = 0
         then ([0, 0x01, 0x03, 0x07, 0x0F, 0x1F, 0x3F] ! maximum) OR flag_pad
         else
           (let flag_lev = flags AND MY_STRXFRM_LEVEL_ALL;
                flag_dsc = drop_bit MY_STRXFRM_DESC_SHIFT flags AND MY_STRXFRM_LEVEL_ALL;
                flag_rev = drop_bit MY_STRXFRM_REVERSE_SHIFT flags AND MY_STRXFRM_LEVEL_ALL
            in level_loop flag_lev flag_dsc flag_rev (maximum - 1) 0 MY_STRXFRM_NLEVELS 0 OR flag_pad))"

section \<open>Copying\<close>

text \<open>The length of the well-formed part and the bytes copied; neither reports an error.\<close>

definition my_well_formed_char_length_8bit :: "uchar list \<Rightarrow> nat \<Rightarrow> nat" where
  "my_well_formed_char_length_8bit s nchars = min (length s) nchars"

definition my_copy_8bit :: "nat \<Rightarrow> uchar list \<Rightarrow> nat \<Rightarrow> uchar list" where
  "my_copy_8bit dst_length src nchars =
     (let src_length = min (length src) dst_length;
          src_length = min src_length nchars
      in take src_length src)"

section \<open>Initialisation of a collation\<close>

fun max_char_loop :: "uchar list \<Rightarrow> nat \<Rightarrow> nat \<Rightarrow> uchar \<times> ulonglong \<Rightarrow> uchar \<times> ulonglong" where
  "max_char_loop t i 0 st = st"
| "max_char_loop t i (Suc n) (max_char, c) =
     max_char_loop t (i + 1) n (if t ! i > max_char then (t ! i, word_of_nat i) else (max_char, c))"

definition set_max_sort_char :: "charset_info_st \<Rightarrow> charset_info_st" where
  "set_max_sort_char cs =
     (if sort_order cs = [] then cs
      else cs\<lparr>max_sort_char := snd (max_char_loop (sort_order cs) 0 256 (weight cs (ucast (max_sort_char cs)), max_sort_char cs))\<rparr>)"

definition my_8bit_collation_flags_from_data :: "charset_info_st \<Rightarrow> uint32" where
  "my_8bit_collation_flags_from_data cs =
     (if sort_order cs \<noteq> [] \<and> weight cs 0x41 < weight cs 0x61 \<and> weight cs 0x61 < weight cs 0x42 then MY_CS_CSSORT else 0)"

text \<open>The result is the error flag and the collation; a null pointer for the table is the empty list.\<close>

definition my_coll_init_simple :: "charset_info_st \<Rightarrow> bool \<times> charset_info_st" where
  "my_coll_init_simple cs =
     (if sort_order cs = [] then (True, cs)
      else
        (let cs1 = cs\<lparr>cs_state := cs_state cs OR my_8bit_collation_flags_from_data cs\<rparr>
         in (False, set_max_sort_char cs1)))"

definition my_coll_init_8bit_bin :: "charset_info_st \<Rightarrow> charset_info_st" where
  "my_coll_init_8bit_bin cs = cs\<lparr>max_sort_char := 255\<rparr>"

end
