(* ===== verification/Coll_Order.thy ===== *)
theory Coll_Order
  imports Ctype_Simple
begin

text \<open>
  The comparison functions of 8-bit collations (\<open>strings/ctype-simple.c\<close>, \<open>strings/ctype-bin.c\<close>) compare
  strings as if they were padded with spaces; the relation is a total preorder, trailing spaces are
  cut correctly word by word, and strings that compare equal have the same hash value.
\<close>

section \<open>Comparison with padding\<close>

text \<open>Both functions that ignore trailing spaces compute the same function of the weights.\<close>

fun collsp :: "(uchar \<Rightarrow> uchar) \<Rightarrow> uchar list \<Rightarrow> uchar list \<Rightarrow> int" where
  "collsp f (a # s) (b # t) = (if f a \<noteq> f b then uint (f a) - uint (f b) else collsp f s t)"
| "collsp f [] t = pad_loop f (-1) t"
| "collsp f s [] = pad_loop f 1 s"

lemma collsp_loop:
  "(case coll_loop f a b of
      Some d \<Rightarrow> d
    | None \<Rightarrow>
        if length a \<noteq> length b then
          (if length a < length b then pad_loop f (-1) (drop (min (length a) (length b)) b)
           else pad_loop f 1 (drop (min (length a) (length b)) a))
        else 0) = collsp f a b"
  by (induction f a b rule: collsp.induct) (auto split: option.splits if_splits)

lemma my_strnncollsp_simple_collsp: "my_strnncollsp_simple cs a b = collsp (weight cs) a b"
  using collsp_loop [where f = "weight cs" and a = a and b = b] by (simp add: my_strnncollsp_simple_def Let_def)

lemma padspace_bin_loop: "my_strnncollsp_padspace_bin s = pad_loop (\<lambda>c. c) 1 s"
  by (induction s) auto

lemma pad_loop_neg: "pad_loop f (- x) s = - pad_loop f x s"
  by (induction s) auto

lemma my_strnncollsp_8bit_bin_collsp: "my_strnncollsp_8bit_bin a b = collsp (\<lambda>c. c) a b"
proof -
  have "- my_strnncollsp_padspace_bin s = pad_loop (\<lambda>c. c) (-1) s" for s
    using pad_loop_neg [of "\<lambda>c. c" 1 s] by (simp add: padspace_bin_loop)
  then have "my_strnncollsp_8bit_bin a b =
     (case coll_loop (\<lambda>c. c) a b of
        Some d \<Rightarrow> d
      | None \<Rightarrow>
          if length a \<noteq> length b then
            (if length a < length b then pad_loop (\<lambda>c. c) (-1) (drop (min (length a) (length b)) b)
             else pad_loop (\<lambda>c. c) 1 (drop (min (length a) (length b)) a))
          else 0)"
    by (simp add: my_strnncollsp_8bit_bin_def Let_def padspace_bin_loop split: option.splits)
  then show ?thesis unfolding collsp_loop .
qed

section \<open>The order\<close>

text \<open>The weights of a string extended with spaces to \<open>n\<close> bytes.\<close>

definition padded :: "(uchar \<Rightarrow> uchar) \<Rightarrow> nat \<Rightarrow> uchar list \<Rightarrow> uchar list" where
  "padded f n s = map f (s @ replicate (n - length s) 0x20)"

lemma padded_simps [simp]:
  "padded f n [] = replicate n (f 0x20)" "padded f (Suc n) (a # s) = f a # padded f n s"
  by (simp_all add: padded_def)

lemma length_padded: "length s \<le> n \<Longrightarrow> length (padded f n s) = n"
  by (simp add: padded_def)

lemma sgn_uint_diff: "a \<noteq> b \<Longrightarrow> sgn (uint a - uint b) = (if a < b then -1 else 1)" for a b :: uchar
  by (auto simp: sgn_if word_less_def word_uint_eq_iff)

lemma pad_loop_memcmp:
  "length t \<le> n \<Longrightarrow> sgn (pad_loop f 1 t) = sgn (memcmp_list (padded f n t) (replicate n (f 0x20)))"
proof (induction t arbitrary: n)
  case Nil
  then show ?case using memcmp_list_zero [of "replicate n (f 0x20)" "replicate n (f 0x20)"] by simp
next
  case (Cons a t)
  then obtain m where "n = Suc m" "length t \<le> m" by (cases n) auto
  then show ?case using Cons.IH [of m] by (auto simp: sgn_uint_diff)
qed

lemma memcmp_list_sym: "memcmp_list t s = - memcmp_list s t"
  by (induction s t rule: memcmp_list.induct) auto

lemma collsp_padded:
  "length a \<le> n \<Longrightarrow> length b \<le> n \<Longrightarrow> sgn (collsp f a b) = sgn (memcmp_list (padded f n a) (padded f n b))"
proof (induction f a b arbitrary: n rule: collsp.induct)
  case (1 f a s b t)
  then obtain m where "n = Suc m" by (cases n) auto
  then show ?case using 1 by auto
next
  case (2 f t)
  have "sgn (pad_loop f (-1) t) = - sgn (pad_loop f 1 t)" using pad_loop_neg [of f 1 t] by (simp add: sgn_minus)
  then show ?case using 2 pad_loop_memcmp [of t n f] memcmp_list_sym [of "padded f n t"] by (simp add: sgn_minus)
next
  case (3 f a s)
  then show ?case using pad_loop_memcmp [of "a # s" n f] by simp
qed

lemma memcmp_list_trans:
  "length s = length t \<Longrightarrow> length t = length u \<Longrightarrow> memcmp_list s t \<le> 0 \<Longrightarrow> memcmp_list t u \<le> 0 \<Longrightarrow> memcmp_list s u \<le> 0"
proof (induction s arbitrary: t u)
  case (Cons a s)
  obtain b t' c u' where "t = b # t'" "u = c # u'" using Cons.prems(1,2) by (cases t; cases u) auto
  moreover have "uint a \<le> uint b \<Longrightarrow> uint b \<le> uint a \<Longrightarrow> a = b" by (meson order_antisym word_uint_eqI)
  ultimately show ?case using Cons.prems Cons.IH [of t' u'] by (cases "a = b"; cases "b = c"; cases "a = c") auto
qed simp

lemma sgn_le_0: "sgn x = sgn y \<Longrightarrow> x \<le> 0 \<longleftrightarrow> y \<le> 0" for x y :: int
  by (auto simp: sgn_if split: if_splits)

lemma collsp_comparator: "comparator (collsp f)"
proof
  fix a b :: "uchar list"
  let ?n = "max (length a) (length b)"
  show "collsp f a b < 0 \<longleftrightarrow> 0 < collsp f b a"
    using collsp_padded [of a ?n b f] collsp_padded [of b ?n a f] memcmp_list_sym [of "padded f ?n a" "padded f ?n b"]
    by (auto simp: sgn_if split: if_splits)
next
  fix a b c :: "uchar list"
  assume le: "collsp f a b \<le> 0" "collsp f b c \<le> 0"
  let ?n = "max (length a) (max (length b) (length c))"
  have sg: "sgn (collsp f a b) = sgn (memcmp_list (padded f ?n a) (padded f ?n b))"
    "sgn (collsp f b c) = sgn (memcmp_list (padded f ?n b) (padded f ?n c))"
    "sgn (collsp f a c) = sgn (memcmp_list (padded f ?n a) (padded f ?n c))"
    by (rule collsp_padded; simp)+
  have "memcmp_list (padded f ?n a) (padded f ?n c) \<le> 0"
  proof (rule memcmp_list_trans [of _ "padded f ?n b"])
    show "memcmp_list (padded f ?n a) (padded f ?n b) \<le> 0" using le(1) sgn_le_0 [OF sg(1)] by simp
    show "memcmp_list (padded f ?n b) (padded f ?n c) \<le> 0" using le(2) sgn_le_0 [OF sg(2)] by simp
  qed (simp_all add: length_padded)
  then show "collsp f a c \<le> 0" using sgn_le_0 [OF sg(3)] by simp
qed

interpretation simple_coll: comparator "my_strnncollsp_simple cs" for cs
  using collsp_comparator [of "weight cs"] by (simp add: my_strnncollsp_simple_collsp [abs_def])

interpretation bin_coll: comparator my_strnncollsp_8bit_bin
  using collsp_comparator [of "\<lambda>c. c"] by (simp add: my_strnncollsp_8bit_bin_collsp [abs_def])

section \<open>Trailing spaces\<close>

definition strip :: "(uchar \<Rightarrow> bool) \<Rightarrow> uchar list \<Rightarrow> uchar list" where
  "strip P s = rev (dropWhile P (rev s))"

text \<open>Where the stripped string ends.\<close>

definition trimmed :: "(uchar \<Rightarrow> bool) \<Rightarrow> uchar list \<Rightarrow> nat \<Rightarrow> bool" where
  "trimmed P s e \<longleftrightarrow>
     e \<le> length s \<and> (\<forall>i. e \<le> i \<and> i < length s \<longrightarrow> P (s ! i)) \<and> (e = 0 \<or> \<not> P (s ! (e - 1)))"

lemma strip_snoc: "strip P (s @ [c]) = (if P c then strip P s else s @ [c])"
  by (simp add: strip_def)

lemma strip_replicate: "P c \<Longrightarrow> strip P (s @ replicate n c) = strip P s"
proof (induction n)
  case (Suc n)
  have "s @ replicate (Suc n) c = (s @ replicate n c) @ [c]" by (simp add: replicate_append_same)
  then show ?case using Suc by (simp only: strip_snoc if_True)
qed simp

lemma trimmed_take: "trimmed P s e \<Longrightarrow> take e s = strip P s"
proof (induction s rule: rev_induct)
  case (snoc c s)
  show ?case
  proof (cases "e = length s + 1")
    case True
    then show ?thesis using snoc.prems by (simp add: trimmed_def strip_snoc nth_append)
  next
    case False
    then have e: "e \<le> length s" using snoc.prems by (simp add: trimmed_def)
    have all: "P ((s @ [c]) ! i)" if "e \<le> i" "i \<le> length s" for i using snoc.prems that by (simp add: trimmed_def)
    have "P c" using all [of "length s"] e by simp
    moreover have "trimmed P s e"
      unfolding trimmed_def
    proof (intro conjI allI impI)
      show "P (s ! i)" if "e \<le> i \<and> i < length s" for i using all [of i] that by (simp add: nth_append)
      have "(s @ [c]) ! (e - 1) = s ! (e - 1)" if "e \<noteq> 0" using that e by (cases e) (simp_all add: nth_append)
      then show "e = 0 \<or> \<not> P (s ! (e - 1))" using snoc.prems by (auto simp: trimmed_def)
    qed (rule e)
    ultimately show ?thesis using snoc.IH e by (simp add: strip_snoc)
  qed
qed (simp add: trimmed_def strip_def)

lemma trim_bytes_le: "trim_bytes key lo e \<le> e"
  by (induction key lo e rule: trim_bytes.induct) auto

lemma trim_bytes_spaces: "trim_bytes key lo e \<le> i \<Longrightarrow> i < e \<Longrightarrow> key ! i = 0x20"
  by (induction key lo e rule: trim_bytes.induct) (auto split: if_splits simp: less_Suc_eq)

lemma trim_bytes_stop: "trim_bytes key 0 e = 0 \<or> key ! (trim_bytes key 0 e - 1) \<noteq> 0x20"
  by (induction key "0 :: nat" e rule: trim_bytes.induct) auto

lemma trim_words_le: "trim_words key lo e \<le> e"
proof (induction key lo e rule: trim_words.induct)
  case (1 key lo e)
  then show ?case by (subst trim_words.simps) (auto dest: order_trans [OF _ diff_le_self])
qed

lemma trim_words_spaces: "e \<le> length key \<Longrightarrow> trim_words key lo e \<le> i \<Longrightarrow> i < e \<Longrightarrow> key ! i = 0x20"
proof (induction key lo e rule: trim_words.induct)
  case (1 key lo e)
  show ?case
  proof (cases "e > lo \<and> take SIZEOF_INT (drop (e - SIZEOF_INT) key) = replicate SIZEOF_INT 0x20")
    case True
    show ?thesis
    proof (cases "i < e - SIZEOF_INT")
      case True
      then show ?thesis using 1 \<open>e > lo \<and> _\<close> by (subst (asm) (2) trim_words.simps) auto
    next
      case False
      then have k: "i - (e - SIZEOF_INT) < SIZEOF_INT" "i = (e - SIZEOF_INT) + (i - (e - SIZEOF_INT))" using 1(4) by auto
      have "take SIZEOF_INT (drop (e - SIZEOF_INT) key) ! (i - (e - SIZEOF_INT)) = 0x20" using True k(1) by simp
      then show ?thesis using k 1(2,4) by simp
    qed
  next
    case False
    then show ?thesis using 1(3,4) by (subst (asm) trim_words.simps) auto
  qed
qed

definition spaces_from :: "uchar list \<Rightarrow> nat \<Rightarrow> bool" where
  "spaces_from key e \<longleftrightarrow> e \<le> length key \<and> (\<forall>i. e \<le> i \<and> i < length key \<longrightarrow> key ! i = 0x20)"

lemma spaces_from_bytes: "spaces_from key e \<Longrightarrow> spaces_from key (trim_bytes key lo e)"
  using trim_bytes_le [of key lo e] trim_bytes_spaces [of key lo e]
  unfolding spaces_from_def by (meson le_trans not_le)

lemma spaces_from_words: "spaces_from key e \<Longrightarrow> spaces_from key (trim_words key lo e)"
  using trim_words_le [of key lo e] trim_words_spaces [of e key lo]
  unfolding spaces_from_def by (meson le_trans not_le)

lemma spaces_from_length: "spaces_from key (length key)"
  by (auto simp: spaces_from_def)

lemma spaces_from_skip_words: "spaces_from key (skip_words ptr key)"
  by (simp add: skip_words_def Let_def spaces_from_length spaces_from_bytes spaces_from_words)

lemma skip_trailing_space_trimmed: "trimmed (\<lambda>c. c = 0x20) key (skip_trailing_space ptr key)"
proof -
  define e where "e = (if length key > 20 then skip_words ptr key else length key)"
  have "spaces_from key e" using spaces_from_skip_words spaces_from_length by (simp add: e_def)
  then have "spaces_from key (trim_bytes key 0 e)" by (rule spaces_from_bytes)
  then show ?thesis
    using trim_bytes_stop [of key e]
    unfolding skip_trailing_space_def e_def [symmetric] trimmed_def spaces_from_def by blast
qed

lemma skip_trailing_space_take: "take (skip_trailing_space ptr key) key = strip (\<lambda>c. c = 0x20) key"
  by (rule trimmed_take [OF skip_trailing_space_trimmed])

lemma skip_trailing_space_length: "skip_trailing_space ptr key = length (strip (\<lambda>c. c = 0x20) key)"
  using skip_trailing_space_trimmed [of key ptr] skip_trailing_space_take [of ptr key, symmetric]
  by (simp add: trimmed_def)

section \<open>Hashing\<close>

lemma hash_simple_nopad_bin: "my_hash_sort_simple_nopad cs key a b = my_hash_sort_bin (map (weight cs) key) a b"
  by (induction cs key a b rule: my_hash_sort_simple_nopad.induct) (auto split: prod.splits)

lemma trim_weights_trimmed:
  "e \<le> length key \<Longrightarrow> (\<forall>i. e \<le> i \<and> i < length key \<longrightarrow> f (key ! i) = f 0x20) \<Longrightarrow>
    trimmed (\<lambda>c. f c = f 0x20) key (trim_weights f key e)"
proof (induction f key e rule: trim_weights.induct)
  case (2 f key e)
  show ?case
  proof (cases "f (key ! e) = f 0x20")
    case True
    then have "f (key ! i) = f 0x20" if "e \<le> i" "i < length key" for i
      using 2(3) that by (cases "i = e") auto
    then show ?thesis using True 2 by simp
  next
    case False
    then show ?thesis using 2(2,3) by (simp add: trimmed_def)
  qed
qed (simp add: trimmed_def)

lemma map_strip: "map f (strip (\<lambda>c. P (f c)) s) = strip P (map f s)"
  by (induction s rule: rev_induct) (auto simp: strip_snoc strip_def)

lemma my_hash_sort_simple_strip:
  "my_hash_sort_simple cs ptr key a b = my_hash_sort_bin (strip (\<lambda>w. w = weight cs 0x20) (map (weight cs) key)) a b"
proof -
  let ?e = "if length key > 16 then skip_trailing_space ptr key else length key"
  have "trimmed (\<lambda>c. weight cs c = weight cs 0x20) key (trim_weights (weight cs) key ?e)"
    using skip_trailing_space_trimmed [of key ptr] by (intro trim_weights_trimmed) (auto simp: trimmed_def)
  then show ?thesis
    by (simp add: my_hash_sort_simple_def Let_def trimmed_take hash_simple_nopad_bin map_strip [symmetric])
qed

lemma my_hash_sort_8bit_bin_strip:
  "my_hash_sort_8bit_bin ptr key a b = my_hash_sort_bin (strip (\<lambda>c. c = 0x20) key) a b"
  by (simp add: my_hash_sort_8bit_bin_def skip_trailing_space_take)

lemma collsp_zero_strip:
  assumes "collsp f a b = 0"
  shows "strip (\<lambda>w. w = f 0x20) (map f a) = strip (\<lambda>w. w = f 0x20) (map f b)"
proof -
  let ?n = "max (length a) (length b)"
  have "memcmp_list (padded f ?n a) (padded f ?n b) = 0" using collsp_padded [of a ?n b f] assms by (simp add: sgn_if split: if_splits)
  then have "padded f ?n a = padded f ?n b" by (subst (asm) memcmp_list_zero) (simp_all add: length_padded)
  moreover have "strip (\<lambda>w. w = f 0x20) (padded f ?n s) = strip (\<lambda>w. w = f 0x20) (map f s)" for s
    by (simp add: padded_def strip_replicate)
  ultimately show ?thesis by metis
qed

text \<open>The view that hash tables have of a collation with a table of weights.\<close>

definition simple_charset :: "charset_info_st \<Rightarrow> nat \<Rightarrow> CHARSET_INFO" where
  "simple_charset cs ptr = \<lparr>strnncoll = my_strnncoll_simple cs, hash_sort = my_hash_sort_simple cs ptr\<rparr>"

lemma coll_loop_none: "length s = length t \<Longrightarrow> coll_loop f s t = None \<longleftrightarrow> map f s = map f t"
  by (induction f s t rule: coll_loop.induct) auto

lemma coll_loop_nonzero: "coll_loop f s t \<noteq> Some 0"
  by (induction f s t rule: coll_loop.induct) (auto simp: word_uint_eq_iff)

lemma strnncoll_simple_zero:
  "length s = length t \<Longrightarrow> my_strnncoll_simple cs s t False = 0 \<longleftrightarrow> map (weight cs) s = map (weight cs) t"
  using coll_loop_none [of s t "weight cs"] coll_loop_nonzero [of "weight cs" s t]
  by (auto simp: my_strnncoll_simple_def Let_def split: option.splits)

interpretation simple_hash: collation "simple_charset cs ptr" for cs ptr
  by unfold_locales (auto simp: simple_charset_def strnncoll_simple_zero my_hash_sort_simple_strip)

section \<open>Theorems\<close>

text \<open>
  C28: \<open>my_strnncollsp_simple\<close> and \<open>my_strnncollsp_8bit_bin\<close> compare as if the shorter string were
  extended with spaces to any common length: the sign of the result is the sign of comparing the
  padded weights (the padded bytes) byte by byte.
\<close>

theorem strnncollsp_pads:
  assumes "length a \<le> n" "length b \<le> n"
  shows "sgn (my_strnncollsp_simple cs a b) = sgn (memcmp_list (padded (weight cs) n a) (padded (weight cs) n b)) \<and>
    sgn (my_strnncollsp_8bit_bin a b) = sgn (memcmp_list (padded (\<lambda>c. c) n a) (padded (\<lambda>c. c) n b))"
  using collsp_padded [OF assms] by (simp add: my_strnncollsp_simple_collsp my_strnncollsp_8bit_bin_collsp)

theorem strnncollsp_pads_witness:
  "sgn (my_strnncollsp_8bit_bin [0x61] [0x61, 9]) = sgn (memcmp_list [0x61, 0x20, 0x20] [0x61, 9, 0x20])"
  using strnncollsp_pads [of "[0x61]" "Suc (Suc (Suc 0))" "[0x61, 9]" my_charset_latin1] by (simp add: padded_def)

text \<open>
  C12: Strings that compare equal have the same hash value, wherever they are in memory: with the
  table collations, and with the binary ones.  This is what makes equality and hashing agree in
  hash joins, \<open>DISTINCT\<close> and hash tables.
\<close>

theorem equal_strings_hash_equal:
  shows "(my_strnncollsp_simple cs a b = 0 \<longrightarrow> my_hash_sort_simple cs p a m1 m2 = my_hash_sort_simple cs q b m1 m2) \<and>
    (my_strnncollsp_8bit_bin a b = 0 \<longrightarrow> my_hash_sort_8bit_bin p a m1 m2 = my_hash_sort_8bit_bin q b m1 m2)"
  using collsp_zero_strip [of "weight cs" a b] collsp_zero_strip [of "\<lambda>c. c" a b]
  by (simp add: my_strnncollsp_simple_collsp my_strnncollsp_8bit_bin_collsp my_hash_sort_simple_strip my_hash_sort_8bit_bin_strip)

theorem equal_strings_hash_witness:
  "my_hash_sort_8bit_bin 8 [0x61, 0x20] 1 4 = my_hash_sort_8bit_bin 13 [0x61] 1 4"
  using equal_strings_hash_equal [of my_charset_latin1 "[0x61, 0x20]" "[0x61]" 8 1 4 13]
  by (simp add: my_strnncollsp_8bit_bin_collsp)

text \<open>
  \<open>skip_trailing_space\<close>, which steps back over whole aligned words, finds the end of the string
  without its trailing spaces, at any address and for any length.
\<close>

theorem skip_trailing_space_correct:
  "skip_trailing_space ptr key = length (strip (\<lambda>c. c = 0x20) key) \<and>
   take (skip_trailing_space ptr key) key = strip (\<lambda>c. c = 0x20) key"
  using skip_trailing_space_length skip_trailing_space_take by simp

end
