(* ===== verification/Sort_Key.thy ===== *)
theory Sort_Key
  imports Coll_Order
begin

text \<open>
  Sort keys of 8-bit collations (\<open>my_strnxfrm_simple\<close> and its helpers in \<open>strings/ctype-simple.c\<close>),
  substring search and the initialisation of a collation.
\<close>

section \<open>DESC and REVERSE\<close>

text \<open>One exchange, followed by reversing the part between the two places.\<close>

lemma exchange_nth:
  assumes "a + b = length s - 1" "a \<le> b" "s \<noteq> []" "k < length s" "t = (s[a := g (s ! b)])[b := g (s ! a)]"
  shows "(if a < k \<and> k < b then g (t ! (length s - 1 - k)) else t ! k) =
    (if a \<le> k \<and> k \<le> b then g (s ! (length s - 1 - k)) else s ! k)"
proof -
  have ab: "a < length s" "b < length s" using assms(1-3) by (cases s; auto)+
  have t: "t ! m = (if m = b then g (s ! a) else if m = a then g (s ! b) else s ! m)" if "m < length s" for m
    unfolding assms(5) using ab that by (simp add: nth_list_update)
  consider "a < k" "k < b" | "k = a" | "k = b" | "k < a \<or> b < k" by linarith
  then show ?thesis
  proof cases
    case 1
    then have "length s - 1 - k \<noteq> a" "length s - 1 - k \<noteq> b" "length s - 1 - k < length s" using assms(1,4) by linarith+
    then show ?thesis using 1 t by simp
  next
    case 2
    then have "length s - 1 - k = b" using assms(1) by linarith
    then show ?thesis using 2 t [OF ab(1)] assms(2) by auto
  next
    case 3
    then have "length s - 1 - k = a" using assms(1) by linarith
    then show ?thesis using 3 t [OF ab(2)] assms(2) by auto
  next
    case 4
    then show ?thesis using t [OF assms(4)] assms(2) by auto
  qed
qed

lemma int_le_diff: "int k \<le> int b - 1 \<longleftrightarrow> k < b" "int a + 1 \<le> int k \<longleftrightarrow> a < k"
  by linarith+

lemma exchange_nth_int:
  fixes i j :: int
  assumes "i + j = int (length s) - 1" "0 \<le> i" "i \<le> j" "k < length s"
    "t = (s[nat i := g (s ! nat j)])[nat j := g (s ! nat i)]"
  shows "(if i + 1 \<le> int k \<and> int k \<le> j - 1 then g (t ! (length s - 1 - k)) else t ! k) =
    (if i \<le> int k \<and> int k \<le> j then g (s ! (length s - 1 - k)) else s ! k)"
proof -
  obtain a b where ab: "i = int a" "j = int b" using assms(2,3) by (metis nonneg_int_cases order_trans)
  have "a + b = length s - 1" "a \<le> b" "s \<noteq> []" using assms(1,3,4) ab by auto
  then show ?thesis using exchange_nth [of a b s k t g] assms(4,5) by (simp add: ab Suc_le_eq int_le_diff)
qed

lemma swap_not_loop_nth:
  "i + j = int (length s) - 1 \<Longrightarrow> 0 \<le> i \<Longrightarrow>
   length (swap_not_loop s i j) = length s \<and>
   (\<forall>k < length s. swap_not_loop s i j ! k =
     (if i \<le> int k \<and> int k \<le> j then NOT (s ! (length s - 1 - k)) else s ! k))"
proof (induction s i j rule: swap_not_loop.induct)
  case (1 s i j)
  show ?case
  proof (cases "i \<le> j")
    case False
    then have "swap_not_loop s i j = s" by (subst swap_not_loop.simps) simp
    then show ?thesis using False by auto
  next
    case True
    let ?s = "(s[nat i := NOT (s ! nat j)])[nat j := NOT (s ! nat i)]"
    have eq: "swap_not_loop s i j = swap_not_loop ?s (i + 1) (j - 1)" using True by (subst swap_not_loop.simps) simp
    have ih: "length (swap_not_loop ?s (i + 1) (j - 1)) = length s"
      "\<forall>k < length s. swap_not_loop ?s (i + 1) (j - 1) ! k =
        (if i + 1 \<le> int k \<and> int k \<le> j - 1 then NOT (?s ! (length s - 1 - k)) else ?s ! k)"
      using 1(1) [OF True] 1(2,3) by simp_all
    then show ?thesis unfolding eq using exchange_nth_int [OF 1(2,3) True _ refl, of _ "\<lambda>c. NOT c"] by simp
  qed
qed

lemma swap_loop_nth:
  "i + j = int (length s) - 1 \<Longrightarrow> 0 \<le> i \<Longrightarrow>
   length (swap_loop s i j) = length s \<and>
   (\<forall>k < length s. swap_loop s i j ! k = (if i \<le> int k \<and> int k \<le> j then s ! (length s - 1 - k) else s ! k))"
proof (induction s i j rule: swap_loop.induct)
  case (1 s i j)
  show ?case
  proof (cases "i < j")
    case False
    have "s ! (length s - 1 - k) = s ! k" if "i \<le> int k \<and> int k \<le> j" for k
    proof -
      have "length s - 1 - k = k" using that False 1(2) by linarith
      then show ?thesis by simp
    qed
    moreover have "swap_loop s i j = s" using False by (subst swap_loop.simps) simp
    ultimately show ?thesis by simp
  next
    case True
    let ?s = "(s[nat i := s ! nat j])[nat j := s ! nat i]"
    have eq: "swap_loop s i j = swap_loop ?s (i + 1) (j - 1)" using True by (subst swap_loop.simps) simp
    have ih: "length (swap_loop ?s (i + 1) (j - 1)) = length s"
      "\<forall>k < length s. swap_loop ?s (i + 1) (j - 1) ! k =
        (if i + 1 \<le> int k \<and> int k \<le> j - 1 then ?s ! (length s - 1 - k) else ?s ! k)"
      using 1(1) [OF True] 1(2,3) by simp_all
    then show ?thesis unfolding eq using exchange_nth_int [OF 1(2,3) _ _ refl, of _ "\<lambda>c. c"] True by simp
  qed
qed

lemma swap_not_loop_rev: "swap_not_loop s 0 (int (length s) - 1) = map (\<lambda>c. NOT c) (rev s)"
  using swap_not_loop_nth [of 0 "int (length s) - 1" s] by (intro nth_equalityI) (auto simp: rev_nth)

lemma swap_loop_rev: "swap_loop s 0 (int (length s) - 1) = rev s"
  using swap_loop_nth [of 0 "int (length s) - 1" s] by (intro nth_equalityI) (auto simp: rev_nth)

section \<open>Sort keys\<close>

definition no_order_flags :: "uint32 \<Rightarrow> bool" where
  "no_order_flags flags \<longleftrightarrow> flags AND MY_STRXFRM_DESC_LEVEL1 = 0 \<and> flags AND MY_STRXFRM_REVERSE_LEVEL1 = 0"

lemma desc_and_reverse_id: "no_order_flags flags \<Longrightarrow> my_strxfrm_desc_and_reverse str flags 0 = str"
  by (simp add: my_strxfrm_desc_and_reverse_def no_order_flags_def)

lemma pad_key:
  assumes "no_order_flags flags" "flags AND MY_STRXFRM_PAD_TO_MAXLEN \<noteq> 0"
  shows "strxfrm_pad_desc_and_reverse pad cs frm room nweights flags 0 = frm @ replicate room pad"
proof -
  define fill where "fill = (if nweights \<noteq> 0 \<and> room > 0 \<and> flags AND MY_STRXFRM_PAD_WITH_SPACE \<noteq> 0
    then min (u32 room) (u32 (nweights * mbminlen cs)) else 0)"
  have "u32 room \<le> room" by (simp add: u32_def)
  then have "fill \<le> room" by (auto simp: fill_def)
  then have "replicate fill pad @ replicate (room - fill) pad = replicate room pad" by (simp add: replicate_add [symmetric])
  then show ?thesis
    unfolding strxfrm_pad_desc_and_reverse_def Let_def fill_def [symmetric] desc_and_reverse_id [OF assms(1)] my_fill_8bit_def
    using assms \<open>fill \<le> room\<close> by (cases "fill = room") auto
qed

lemma sort_key_padded:
  assumes "no_order_flags flags" "flags AND MY_STRXFRM_PAD_TO_MAXLEN \<noteq> 0" "length src \<le> dstlen" "length src \<le> nweights"
    "weight cs 0x20 = pad_char cs"
  shows "my_strnxfrm_simple cs dstlen nweights src flags = padded (weight cs) dstlen src"
  using assms
  by (simp add: my_strnxfrm_simple_def my_strnxfrm_simple_internal_def my_strxfrm_pad_desc_and_reverse_def pad_key padded_def)

text \<open>
  Levels above the maximum become the maximum, but their DESC and REVERSE flags are looked up at the
  place of the maximum and so lost: \<open>LEVEL2 | DESC_LEVEL2\<close> with one level gives \<open>LEVEL1\<close> ascending.
\<close>

lemma flag_normalize_drops_desc:
  "my_strxfrm_flag_normalize 0x202 1 = 0x001" "my_strxfrm_flag_normalize 0x101 1 = 0x101"
  by code_simp+

text \<open>Without levels all of them are taken; the padding flags stay.\<close>

lemma flag_normalize_default:
  "my_strxfrm_flag_normalize (MY_STRXFRM_PAD_WITH_SPACE OR MY_STRXFRM_PAD_TO_MAXLEN) 1 = 0xC1"
  by code_simp

section \<open>Searching\<close>

definition occurs :: "(uchar \<Rightarrow> uchar) \<Rightarrow> uchar list \<Rightarrow> uchar list \<Rightarrow> nat \<Rightarrow> bool" where
  "occurs f b s p \<longleftrightarrow> p + length s \<le> length b \<and> map f (take (length s) (drop p b)) = map f s"

lemma match_rest_take: "length j \<le> length i \<Longrightarrow> match_rest f i j \<longleftrightarrow> map f (take (length j) i) = map f j"
  by (induction f i j rule: match_rest.induct) auto

lemma occurs_Suc: "occurs f b s (Suc p) \<longleftrightarrow> b \<noteq> [] \<and> occurs f (tl b) s p"
  by (cases b) (auto simp: occurs_def)

lemma occurs_0: "s \<noteq> [] \<Longrightarrow> length s \<le> length b \<Longrightarrow>
    occurs f b s 0 \<longleftrightarrow> f (hd b) = f (hd s) \<and> match_rest f (tl b) (tl s)"
  by (cases b; cases s) (auto simp: occurs_def match_rest_take)

lemma instr_loop_first:
  assumes "s \<noteq> []" "n + length s = length b + 1"
  shows "case instr_loop f s n b pos of
      None \<Rightarrow> \<forall>q. \<not> occurs f b s q
    | Some p \<Rightarrow> \<exists>q. p = pos + q \<and> occurs f b s q \<and> (\<forall>r<q. \<not> occurs f b s r)"
  using assms
proof (induction n arbitrary: b pos)
  case 0
  then show ?case by (simp add: occurs_def)
next
  case (Suc n)
  have len: "length s \<le> length b" "b \<noteq> []" using Suc.prems by (cases b; cases s; simp)+
  show ?case
  proof (cases "occurs f b s 0")
    case True
    then show ?thesis using occurs_0 [OF Suc.prems(1) len(1)] by (auto intro!: exI [of _ 0])
  next
    case False
    then have step: "instr_loop f s (Suc n) b pos = instr_loop f s n (tl b) (pos + 1)"
      using occurs_0 [OF Suc.prems(1) len(1)] by auto
    have ih: "case instr_loop f s n (tl b) (pos + 1) of
        None \<Rightarrow> \<forall>q. \<not> occurs f (tl b) s q
      | Some p \<Rightarrow> \<exists>q. p = pos + 1 + q \<and> occurs f (tl b) s q \<and> (\<forall>r<q. \<not> occurs f (tl b) s r)"
      using Suc.prems len(2) by (intro Suc.IH) (auto simp: neq_Nil_conv)
    show ?thesis
    proof (cases "instr_loop f s n (tl b) (pos + 1)")
      case None
      then have "\<not> occurs f b s q" for q using ih False by (cases q) (auto simp: occurs_Suc)
      then show ?thesis using None unfolding step by simp
    next
      case (Some p)
      then obtain q where q: "p = pos + 1 + q" "occurs f (tl b) s q" "\<forall>r<q. \<not> occurs f (tl b) s r" using ih by auto
      have "\<not> occurs f b s r" if "r < Suc q" for r using that q(3) False by (cases r) (auto simp: occurs_Suc)
      then show ?thesis using Some q(1,2) len(2) unfolding step by (auto intro!: exI [of _ "Suc q"] simp: occurs_Suc)
    qed
  qed
qed

lemma instr_8bit_first:
  assumes "length b < 2 ^ 32"
  shows "case instr_8bit f b s nmatch of (r, ms) \<Rightarrow>
    (r = 0 \<longleftrightarrow> (\<forall>q. \<not> occurs f b s q)) \<and> (r = 1 \<longleftrightarrow> s = []) \<and>
    (r = 2 \<longrightarrow> (\<exists>q. occurs f b s q \<and> (\<forall>p<q. \<not> occurs f b s p) \<and>
      ms = take nmatch [\<lparr>beg = 0, match_end = q, mb_len = q\<rparr>, \<lparr>beg = q, match_end = q + length s, mb_len = length s\<rparr>]))"
proof (cases "length s \<le> length b \<and> s \<noteq> []")
  case False
  have "occurs f b [] 0" by (simp add: occurs_def)
  then show ?thesis using False by (auto simp: instr_8bit_def occurs_def)
next
  case True
  have first: "case instr_loop f s (length b - length s + 1) b 0 of
      None \<Rightarrow> \<forall>q. \<not> occurs f b s q
    | Some p \<Rightarrow> \<exists>q. p = 0 + q \<and> occurs f b s q \<and> (\<forall>r<q. \<not> occurs f b s r)"
    using True by (intro instr_loop_first) auto
  show ?thesis
  proof (cases "instr_loop f s (length b - length s + 1) b 0")
    case None
    then show ?thesis using first True by (simp add: instr_8bit_def)
  next
    case (Some p)
    then have p: "occurs f b s p" "\<forall>r<p. \<not> occurs f b s r" using first by auto
    have le: "p + length s < 2 ^ 32" using p(1) assms unfolding occurs_def by linarith
    then have "p < 2 ^ 32" by linarith
    moreover have "u32 (p + length s + 2 ^ 32 - p) = length s" using le by (simp add: u32_def)
    ultimately show ?thesis using Some True p le by (auto simp: instr_8bit_def)
  qed
qed

section \<open>Initialisation\<close>

lemma max_char_loop_max:
  "i + n \<le> length t \<Longrightarrow> length t = 256 \<Longrightarrow> tab t (ucast c) = mx \<Longrightarrow> max_char_loop t i n (mx, c) = (mx', c') \<Longrightarrow>
   tab t (ucast c') = mx' \<and> mx \<le> mx' \<and> (\<forall>k. i \<le> k \<and> k < i + n \<longrightarrow> t ! k \<le> mx')"
proof (induction n arbitrary: i mx c)
  case (Suc n)
  have i: "unat (ucast (word_of_nat i :: ulonglong) :: uchar) = i" using Suc.prems(1,2) by (simp add: unsigned_ucast_eq unat_of_nat take_bit_nat_eq_self)
  show ?case
  proof (cases "t ! i > mx")
    case True
    then have ih: "tab t (ucast c') = mx' \<and> t ! i \<le> mx' \<and> (\<forall>k. i + 1 \<le> k \<and> k < i + 1 + n \<longrightarrow> t ! k \<le> mx')"
      using Suc.prems i by (intro Suc.IH [of "i + 1" "word_of_nat i" "t ! i"]) (auto simp: tab_def)
    have "t ! k \<le> mx'" if "i \<le> k" "k < i + Suc n" for k using ih that by (cases "k = i") auto
    moreover have "mx \<le> mx'" using ih True by (meson less_imp_le order_trans)
    ultimately show ?thesis using ih by auto
  next
    case False
    then have ih: "tab t (ucast c') = mx' \<and> mx \<le> mx' \<and> (\<forall>k. i + 1 \<le> k \<and> k < i + 1 + n \<longrightarrow> t ! k \<le> mx')"
      using Suc.prems by (intro Suc.IH [of "i + 1" c mx]) auto
    have "t ! k \<le> mx'" if "i \<le> k" "k < i + Suc n" for k using ih that False by (cases "k = i") auto
    then show ?thesis using ih by auto
  qed
qed auto

lemma set_max_sort_char_max:
  assumes "length (sort_order cs) = 256"
  shows "weight (set_max_sort_char cs) c \<le> weight (set_max_sort_char cs) (ucast (max_sort_char (set_max_sort_char cs)))"
proof -
  obtain mx c' where l: "max_char_loop (sort_order cs) 0 256 (weight cs (ucast (max_sort_char cs)), max_sort_char cs) = (mx, c')"
    by fastforce
  have "weight cs (ucast c') = mx" "\<forall>k. k < 256 \<longrightarrow> sort_order cs ! k \<le> mx"
    using max_char_loop_max [OF _ assms refl l] assms by auto
  moreover have "unat c < 256" using unsigned_less [of c, where ?'a = nat] by simp
  moreover have "sort_order cs \<noteq> []" using assms by auto
  ultimately show ?thesis using l by (simp add: set_max_sort_char_def tab_def)
qed

section \<open>Theorems\<close>

text \<open>
  C13: With the flag \<open>MY_STRXFRM_PAD_TO_MAXLEN\<close> set and the flags \<open>DESC\<close> and \<open>REVERSE\<close> of the first level not
  set, every key of \<open>my_strnxfrm_simple\<close> fills its buffer, and comparing two sort keys with \<open>memcmp\<close> is the same
  as comparing the strings with the collation, provided that the padding character has the weight of the
  space and that neither the buffer nor \<open>nweights\<close> is shorter than the strings.
\<close>

theorem sort_key_order:
  assumes "no_order_flags flags" "flags AND MY_STRXFRM_PAD_TO_MAXLEN \<noteq> 0" "weight cs 0x20 = pad_char cs"
    "length a \<le> dstlen" "length a \<le> nweights" "length b \<le> dstlen" "length b \<le> nweights"
  shows "length (my_strnxfrm_simple cs dstlen nweights a flags) = dstlen \<and>
    sgn (memcmp_list (my_strnxfrm_simple cs dstlen nweights a flags) (my_strnxfrm_simple cs dstlen nweights b flags)) =
      sgn (my_strnncollsp_simple cs a b)"
  using assms by (simp add: sort_key_padded length_padded my_strnncollsp_simple_collsp collsp_padded)

theorem sort_key_order_witness:
  "sgn (memcmp_list (my_strnxfrm_simple my_charset_latin1 3 3 [0x61] MY_STRXFRM_PAD_TO_MAXLEN)
     (my_strnxfrm_simple my_charset_latin1 3 3 [0x41, 0x20] MY_STRXFRM_PAD_TO_MAXLEN)) =
   sgn (my_strnncollsp_simple my_charset_latin1 [0x61] [0x41, 0x20])"
proof -
  have "no_order_flags MY_STRXFRM_PAD_TO_MAXLEN"
    by (simp add: no_order_flags_def MY_STRXFRM_PAD_TO_MAXLEN_def MY_STRXFRM_DESC_LEVEL1_def MY_STRXFRM_REVERSE_LEVEL1_def)
  moreover have "weight my_charset_latin1 0x20 = pad_char my_charset_latin1"
    by (simp add: my_charset_latin1_def sort_order_latin1_def tab_def)
  moreover have "MY_STRXFRM_PAD_TO_MAXLEN AND MY_STRXFRM_PAD_TO_MAXLEN \<noteq> 0" by (simp add: MY_STRXFRM_PAD_TO_MAXLEN_def)
  ultimately show ?thesis
    using sort_key_order [of MY_STRXFRM_PAD_TO_MAXLEN my_charset_latin1 "[0x61]" 3 3 "[0x41, 0x20]"] by simp
qed

text \<open>
  In \<open>latin7_general_ci\<close> the space weighs \<open>0x30\<close>, but sort keys are padded with the byte \<open>0x20\<close>:
  \<open>'a'\<close> and \<open>'a '\<close> compare equal and still get different sort keys.
\<close>

theorem latin7_sort_key_differs:
  "my_strnncollsp_simple my_charset_latin7 [0x61] [0x61, 0x20] = 0 \<and>
   my_strnxfrm_simple my_charset_latin7 2 2 [0x61] MY_STRXFRM_PAD_TO_MAXLEN \<noteq>
     my_strnxfrm_simple my_charset_latin7 2 2 [0x61, 0x20] MY_STRXFRM_PAD_TO_MAXLEN"
proof -
  have pad: "strxfrm_pad_desc_and_reverse pad cs frm room nweights MY_STRXFRM_PAD_TO_MAXLEN 0 = frm @ replicate room pad"
    for pad cs frm room nweights
    by (rule pad_key) (simp_all add: no_order_flags_def MY_STRXFRM_PAD_TO_MAXLEN_def MY_STRXFRM_DESC_LEVEL1_def
        MY_STRXFRM_REVERSE_LEVEL1_def)
  have w: "weight my_charset_latin7 0x20 = 0x30" "pad_char my_charset_latin7 = 0x20"
    by (simp_all add: my_charset_latin7_def sort_order_latin7_general_ci_def tab_def)
  show ?thesis
    by (simp add: my_strnncollsp_simple_collsp my_strnxfrm_simple_def my_strnxfrm_simple_internal_def
        my_strxfrm_pad_desc_and_reverse_def pad w)
qed

text \<open>
  \<open>my_instr_simple\<close> and \<open>my_instr_bin\<close> find the first place where the search string occurs, up to the
  weights of the collation (byte by byte), and report it in the match structures; they return 0
  exactly when it does not occur, and 1 exactly for the empty string.
\<close>

theorem instr_finds_first:
  assumes "length b < 2 ^ 32" "f = weight cs \<and> (r, ms) = my_instr_simple cs b s nmatch \<or> f = (\<lambda>c. c) \<and> (r, ms) = my_instr_bin b s nmatch"
  shows "(r = 0 \<longleftrightarrow> (\<forall>q. \<not> occurs f b s q)) \<and> (r = 1 \<longleftrightarrow> s = []) \<and>
    (r = 2 \<longrightarrow> (\<exists>q. occurs f b s q \<and> (\<forall>p<q. \<not> occurs f b s p) \<and>
      ms = take nmatch [\<lparr>beg = 0, match_end = q, mb_len = q\<rparr>, \<lparr>beg = q, match_end = q + length s, mb_len = length s\<rparr>]))"
proof -
  have "(r, ms) = instr_8bit f b s nmatch" using assms(2) by (auto simp: my_instr_simple_def my_instr_bin_def)
  then show ?thesis using instr_8bit_first [OF assms(1), of f s nmatch] by (simp split: prod.splits)
qed

theorem instr_finds_first_witness:
  "\<exists>q. occurs (\<lambda>c. c) [0x61, 0x62, 0x62] [0x62] q \<and> \<not> (\<exists>p. p < q \<and> occurs (\<lambda>c. c) [0x61, 0x62, 0x62] [0x62] p)"
proof -
  have "(2, snd (my_instr_bin [0x61, 0x62, 0x62] [0x62] 1)) = my_instr_bin [0x61, 0x62, 0x62] [0x62] 1"
    by (simp add: my_instr_bin_def instr_8bit_def)
  then show ?thesis using instr_finds_first [of "[0x61, 0x62, 0x62]" "\<lambda>c. c" my_charset_latin1 2 _ "[0x62]" 1] by auto
qed

end
