(* ===== verification/Like_Range.thy ===== *)
theory Like_Range
  imports Wild_Cmp Sort_Key
begin

text \<open>
  The range of an index that a \<open>LIKE\<close> pattern needs (\<open>my_like_range_simple\<close> of
  \<open>strings/ctype-simple.c\<close>): every string that matches the pattern lies between the two bounds in
  the order of the collation.  The parameters \<open>escape\<close>, \<open>w_one\<close> and \<open>w_many\<close> are plain
  characters here, so they are compared byte by byte.
\<close>

section \<open>The model\<close>

record like_range =
  min_str :: "uchar list"
  max_str :: "uchar list"
  min_length :: nat
  max_length :: nat

text \<open>The main loop; \<open>mn\<close> and \<open>mx\<close> are what has been written to the two buffers of \<open>res_length\<close> bytes.\<close>

fun like_range_loop ::
  "charset_info_st \<Rightarrow> uchar \<Rightarrow> uchar \<Rightarrow> uchar \<Rightarrow> nat \<Rightarrow> nat \<Rightarrow> uchar list \<Rightarrow> uchar list \<Rightarrow> uchar list \<Rightarrow> like_range" where
  "like_range_loop cs escape w_one w_many res_length charlen mn mx ptr =
     (if ptr \<noteq> [] \<and> length mn \<noteq> res_length \<and> charlen > 0 then
        (if hd ptr = escape \<and> tl ptr \<noteq> [] then
           like_range_loop cs escape w_one w_many res_length (charlen - 1)
             (mn @ [hd (tl ptr)]) (mx @ [hd (tl ptr)]) (tl (tl ptr))
         else if hd ptr = w_one then
           like_range_loop cs escape w_one w_many res_length (charlen - 1)
             (mn @ [0]) (mx @ [ucast (max_sort_char cs)]) (tl ptr)
         else if hd ptr = w_many then
           \<lparr>min_str = mn @ replicate (res_length - length mn) 0,
            max_str = mx @ replicate (res_length - length mn) (ucast (max_sort_char cs)),
            min_length = (if cs_state cs AND (MY_CS_BINSORT OR MY_CS_NOPAD) \<noteq> 0 then length mn else res_length),
            max_length = res_length\<rparr>
         else
           like_range_loop cs escape w_one w_many res_length (charlen - 1) (mn @ [hd ptr]) (mx @ [hd ptr]) (tl ptr))
      else
        \<lparr>min_str = mn @ replicate (res_length - length mn) 0x20, max_str = mx @ replicate (res_length - length mn) 0x20,
         min_length = length mn, max_length = length mn\<rparr>)"

declare like_range_loop.simps [simp del]

definition my_like_range_simple ::
  "charset_info_st \<Rightarrow> uchar list \<Rightarrow> uchar \<Rightarrow> uchar \<Rightarrow> uchar \<Rightarrow> nat \<Rightarrow> like_range" where
  "my_like_range_simple cs ptr escape w_one w_many res_length =
     like_range_loop cs escape w_one w_many res_length (res_length div mbmaxlen cs) [] [] ptr"

section \<open>Bounds\<close>

text \<open>Comparison without padding, as a function of the weights.\<close>

fun coll_nopad :: "(uchar \<Rightarrow> uchar) \<Rightarrow> uchar list \<Rightarrow> uchar list \<Rightarrow> int" where
  "coll_nopad f (a # s) (b # t) = (if f a \<noteq> f b then uint (f a) - uint (f b) else coll_nopad f s t)"
| "coll_nopad f [] t = (if t = [] then 0 else -1)"
| "coll_nopad f s [] = 1"

lemma my_strnncoll_simple_nopad: "my_strnncoll_simple cs s t False = coll_nopad (weight cs) s t"
proof -
  have "(case coll_loop f s t of Some d \<Rightarrow> d
      | None \<Rightarrow> if length s > length t then 1 else if length s < length t then -1 else 0) = coll_nopad f s t" for f
    by (induction f s t rule: coll_nopad.induct) (auto split: option.splits if_splits)
  then show ?thesis by (simp add: my_strnncoll_simple_def)
qed

definition below :: "(uchar \<Rightarrow> uchar) \<Rightarrow> uchar list \<Rightarrow> uchar list \<Rightarrow> bool" where
  "below f = list_all2 (\<lambda>a b. f a \<le> f b)"

lemma below_length: "below f a b \<Longrightarrow> length a = length b"
  by (auto simp: below_def dest: list_all2_lengthD)

lemma below_snoc: "below f a b \<Longrightarrow> f x \<le> f y \<Longrightarrow> below f (a @ [x]) (b @ [y])"
  by (simp add: below_def list_all2_appendI)

lemma below_collsp: "below f a b \<Longrightarrow> collsp f u v \<le> 0 \<Longrightarrow> collsp f (a @ u) (b @ v) \<le> 0"
  unfolding below_def by (induction rule: list_all2_induct) (auto simp: word_le_def [symmetric])

lemma below_nopad: "below f a b \<Longrightarrow> coll_nopad f u v \<le> 0 \<Longrightarrow> coll_nopad f (a @ u) (b @ v) \<le> 0"
  unfolding below_def by (induction rule: list_all2_induct) (auto simp: word_le_def [symmetric])

lemma pad_zeros: "f 0 \<le> f 0x20 \<Longrightarrow> pad_loop f 1 (replicate n 0) \<le> 0"
  by (induction n) auto

lemma pad_maxs: "f 0x20 \<le> f m \<Longrightarrow> pad_loop f (-1) (replicate n m) \<le> 0"
  by (induction n) auto

lemma collsp_zeros: "(\<And>c. f 0 \<le> f c) \<Longrightarrow> length v \<le> n \<Longrightarrow> collsp f (replicate n 0) v \<le> 0"
proof (induction v arbitrary: n)
  case Nil
  then show ?case using pad_zeros [of f n] by (cases n) auto
next
  case (Cons a v)
  then show ?case by (cases n) (auto simp: word_le_def [symmetric])
qed

lemma collsp_maxs: "(\<And>c. f c \<le> f m) \<Longrightarrow> length v \<le> n \<Longrightarrow> collsp f v (replicate n m) \<le> 0"
proof (induction v arbitrary: n)
  case Nil
  then show ?case using pad_maxs [of f m n] by simp
next
  case (Cons a v)
  then show ?case by (cases n) (auto simp: word_le_def [symmetric])
qed

lemma nopad_maxs: "(\<And>c. f c \<le> f m) \<Longrightarrow> length v \<le> n \<Longrightarrow> coll_nopad f v (replicate n m) \<le> 0"
proof (induction v arbitrary: n)
  case (Cons a v)
  then show ?case by (cases n) (auto simp: word_le_def [symmetric])
qed auto

section \<open>The range of a pattern\<close>

text \<open>
  How a string lies between the bounds: with the same length as the bounds and weight by weight
  between them, or, for a pattern with \<open>%\<close>, with a part that is and a rest that is compared with the
  filling.
\<close>

definition exact_bounds :: "(uchar \<Rightarrow> uchar) \<Rightarrow> like_range \<Rightarrow> uchar list \<Rightarrow> bool" where
  "exact_bounds f r s \<longleftrightarrow>
     below f (take (min_length r) (min_str r)) s \<and> below f s (take (max_length r) (max_str r))"

definition open_bounds :: "charset_info_st \<Rightarrow> (uchar \<Rightarrow> uchar) \<Rightarrow> like_range \<Rightarrow> uchar list \<Rightarrow> bool" where
  "open_bounds cs f r s \<longleftrightarrow>
     (\<exists>mn mx u v k. s = u @ v \<and> below f mn u \<and> below f u mx \<and> length v \<le> k \<and>
        take (max_length r) (max_str r) = mx @ replicate k (ucast (max_sort_char cs)) \<and>
        take (min_length r) (min_str r) =
          (if cs_state cs AND (MY_CS_BINSORT OR MY_CS_NOPAD) \<noteq> 0 then mn else mn @ replicate k 0))"

definition weights_ok :: "charset_info_st \<Rightarrow> (uchar \<Rightarrow> uchar) \<Rightarrow> bool" where
  "weights_ok cs f \<longleftrightarrow> (\<forall>c. f 0 \<le> f c \<and> f c \<le> f (ucast (max_sort_char cs)))"

lemma sint_eq: "sint a = sint b \<longleftrightarrow> a = b" for a b :: uchar
  by (auto dest: signed_word_eqI)

lemma like_range_loop_bounds:
  assumes w: "weights_ok cs f" and dif: "escape \<noteq> w_one" "escape \<noteq> w_many" "w_one \<noteq> w_many"
  shows "below f mn s1 \<Longrightarrow> below f s1 mx \<Longrightarrow> like f (pattern (sint escape) (sint w_one) (sint w_many) ptr) s2 \<Longrightarrow>
    length (s1 @ s2) \<le> res \<Longrightarrow> charlen = res - length mn \<Longrightarrow>
    r = like_range_loop cs escape w_one w_many res charlen mn mx ptr \<Longrightarrow>
    exact_bounds f r (s1 @ s2) \<or> open_bounds cs f r (s1 @ s2)"
proof (induction "length ptr" arbitrary: ptr mn mx s1 s2 charlen rule: less_induct)
  case less
  let ?p = "pattern (sint escape) (sint w_one) (sint w_many)"
  have len: "length mn = length s1" "length mx = length s1" using less.prems(1,2) by (auto dest: below_length)
  have one: "exact_bounds f r (s1 @ s2) \<or> open_bounds cs f r (s1 @ s2)"
    if "s2 = a # t" "f x \<le> f a" "f a \<le> f y" "like f (?p rest) t" "length rest < length ptr"
      "r = like_range_loop cs escape w_one w_many res (charlen - 1) (mn @ [x]) (mx @ [y]) rest" for a t x y rest
    using less.hyps [of rest "mn @ [x]" "s1 @ [a]" "mx @ [y]" t "charlen - 1"] that less.prems(1,2,4,5) below_snoc len
    by simp
  show ?case
  proof (cases "ptr \<noteq> [] \<and> length mn \<noteq> res \<and> charlen > 0")
    case False
    have "s2 = []"
    proof (cases "ptr = []")
      case ne: False
      have "res \<le> length s1" using ne False less.prems(5) len by auto
      then have "length s2 = 0" using less.prems(4) unfolding length_append by linarith
      then show ?thesis by simp
    qed (use less.prems(3) in simp)
    moreover have "r = \<lparr>min_str = mn @ replicate (res - length mn) 0x20, max_str = mx @ replicate (res - length mn) 0x20,
         min_length = length mn, max_length = length mn\<rparr>"
      using False less.prems(6) by (subst (asm) like_range_loop.simps) auto
    ultimately show ?thesis using less.prems(1,2) len by (simp add: exact_bounds_def)
  next
    case True
    then obtain h t where ptr: "ptr = h # t" by (cases ptr) auto
    have r: "r = (if h = escape \<and> t \<noteq> [] then
           like_range_loop cs escape w_one w_many res (charlen - 1) (mn @ [hd t]) (mx @ [hd t]) (tl t)
         else if h = w_one then
           like_range_loop cs escape w_one w_many res (charlen - 1) (mn @ [0]) (mx @ [ucast (max_sort_char cs)]) t
         else if h = w_many then
           \<lparr>min_str = mn @ replicate (res - length mn) 0,
            max_str = mx @ replicate (res - length mn) (ucast (max_sort_char cs)),
            min_length = (if cs_state cs AND (MY_CS_BINSORT OR MY_CS_NOPAD) \<noteq> 0 then length mn else res),
            max_length = res\<rparr>
         else like_range_loop cs escape w_one w_many res (charlen - 1) (mn @ [h]) (mx @ [h]) t)"
      using True less.prems(6) unfolding ptr by (subst (asm) like_range_loop.simps) simp
    note lk = less.prems(3) [unfolded ptr]
    consider "h = escape" "t \<noteq> []" | "h = w_one" | "h = w_many" | "h \<noteq> w_one" "h \<noteq> w_many" "\<not> (h = escape \<and> t \<noteq> [])"
      by blast
    then show ?thesis
    proof cases
      case 1
      then have "s2 \<noteq> []" "f (hd s2) = f (hd t)" "like f (?p (tl t)) (tl s2)" using lk dif by (auto simp: sint_eq)
      then show ?thesis using one [of "hd s2" "tl s2" "hd t" "hd t" "tl t"] r 1 ptr by simp
    next
      case 2
      then have "s2 \<noteq> []" "like f (?p t) (tl s2)" using lk by auto
      then show ?thesis using one [of "hd s2" "tl s2" 0 "ucast (max_sort_char cs)" t] r 2 dif ptr w by (simp add: weights_ok_def)
    next
      case 3
      have "length s2 \<le> res - length mn" using less.prems(4) len by simp
      moreover have "take (max_length r) (max_str r) = mx @ replicate (res - length mn) (ucast (max_sort_char cs))"
        "take (min_length r) (min_str r) =
          (if cs_state cs AND (MY_CS_BINSORT OR MY_CS_NOPAD) \<noteq> 0 then mn else mn @ replicate (res - length mn) 0)"
        using r 3 dif less.prems(4) len by auto
      ultimately show ?thesis using less.prems(1,2) unfolding open_bounds_def by blast
    next
      case 4
      then have "s2 \<noteq> []" "f (hd s2) = f h" "like f (?p t) (tl s2)" using lk by (auto simp: sint_eq)
      then show ?thesis using one [of "hd s2" "tl s2" h h t] r 4 ptr by auto
    qed
  qed
qed

definition fits_buffers :: "nat \<Rightarrow> like_range \<Rightarrow> bool" where
  "fits_buffers res r \<longleftrightarrow> length (min_str r) = res \<and> length (max_str r) = res \<and> min_length r \<le> res \<and> max_length r \<le> res"

lemma like_range_loop_fits:
  "length mn = length mx \<Longrightarrow> length mn \<le> res \<Longrightarrow> fits_buffers res (like_range_loop cs escape w_one w_many res charlen mn mx ptr)"
proof (induction cs escape w_one w_many res charlen mn mx ptr rule: like_range_loop.induct)
  case (1 cs escape w_one w_many res charlen mn mx ptr)
  show ?case
  proof (cases "ptr \<noteq> [] \<and> length mn \<noteq> res \<and> charlen > 0")
    case True
    then have "length mn + 1 \<le> res" using 1(5) by simp
    then show ?thesis using 1 True by (subst like_range_loop.simps) (simp add: fits_buffers_def)
  next
    case False
    then show ?thesis using 1(4,5) by (subst like_range_loop.simps) (auto simp: fits_buffers_def)
  qed
qed

section \<open>Theorems\<close>

lemma my_like_range_simple_bounds:
  assumes "weights_ok cs f" "escape \<noteq> w_one" "escape \<noteq> w_many" "w_one \<noteq> w_many" "mbmaxlen cs = 1"
    "like f (pattern (sint escape) (sint w_one) (sint w_many) ptr) s" "length s \<le> res"
    "r = my_like_range_simple cs ptr escape w_one w_many res"
  shows "exact_bounds f r s \<or> open_bounds cs f r s"
  using like_range_loop_bounds [OF assms(1-4), of "[]" "[]" "[]" ptr s res res r] assms(5-8)
  by (simp add: below_def my_like_range_simple_def)

lemma collsp_self_append: "below f a b \<Longrightarrow> collsp f a b \<le> 0"
  using below_collsp [of f a b "[]" "[]"] by simp

lemma nopad_self_append: "below f a b \<Longrightarrow> coll_nopad f a b \<le> 0"
  using below_nopad [of f a b "[]" "[]"] by simp

lemma like_range_pad:
  assumes "weights_ok cs f" "cs_state cs AND (MY_CS_BINSORT OR MY_CS_NOPAD) = 0" "exact_bounds f r s \<or> open_bounds cs f r s"
  shows "collsp f (take (min_length r) (min_str r)) s \<le> 0 \<and> collsp f s (take (max_length r) (max_str r)) \<le> 0"
  using assms(3)
proof
  assume "open_bounds cs f r s"
  then obtain mn mx u v k where s: "s = u @ v" "below f mn u" "below f u mx" "length v \<le> k"
    "take (max_length r) (max_str r) = mx @ replicate k (ucast (max_sort_char cs))"
    "take (min_length r) (min_str r) = mn @ replicate k 0"
    using assms(2) unfolding open_bounds_def by auto
  have "collsp f (replicate k 0) v \<le> 0" "collsp f v (replicate k (ucast (max_sort_char cs))) \<le> 0"
    using assms(1) s(4) by (auto simp: weights_ok_def intro!: collsp_zeros collsp_maxs)
  then show ?thesis unfolding s using s(2,3) by (simp add: below_collsp)
qed (simp add: exact_bounds_def collsp_self_append)

lemma like_range_nopad:
  assumes "weights_ok cs f" "cs_state cs AND MY_CS_NOPAD \<noteq> 0" "exact_bounds f r s \<or> open_bounds cs f r s"
  shows "coll_nopad f (take (min_length r) (min_str r)) s \<le> 0 \<and> coll_nopad f s (take (max_length r) (max_str r)) \<le> 0"
  using assms(3)
proof
  assume "open_bounds cs f r s"
  moreover have "cs_state cs AND (MY_CS_BINSORT OR MY_CS_NOPAD) \<noteq> 0"
    using assms(2) by (auto simp: bit.conj_disj_distrib or_eq_0_iff)
  ultimately obtain mn mx u v k where s: "s = u @ v" "below f mn u" "below f u mx" "length v \<le> k"
    "take (max_length r) (max_str r) = mx @ replicate k (ucast (max_sort_char cs))" "take (min_length r) (min_str r) = mn"
    unfolding open_bounds_def by auto
  have "coll_nopad f [] v \<le> 0" "coll_nopad f v (replicate k (ucast (max_sort_char cs))) \<le> 0"
    using assms(1) s(4) by (auto simp: weights_ok_def intro!: nopad_maxs)
  then show ?thesis using below_nopad [OF s(2), of "[]" v] below_nopad [OF s(3)] unfolding s by simp
qed (simp add: exact_bounds_def nopad_self_append)

lemma initialised_weights:
  assumes "tables_ok cs" "cs' = snd (my_coll_init_simple cs)"
  shows "weights_ok cs' (weight cs')"
proof -
  obtain cs1 where cs1: "cs' = set_max_sort_char cs1" "sort_order cs1 = sort_order cs"
    using assms by (cases "sort_order cs = []") (auto simp: my_coll_init_simple_def tables_ok_def)
  then have "weight cs' = weight cs" by (simp add: set_max_sort_char_def)
  then show ?thesis
    using set_max_sort_char_max [of cs1] weight_0_le [OF assms(1)] assms(1) cs1 by (simp add: weights_ok_def tables_ok_def)
qed

text \<open>
  C10: Every string that fits the column and matches a \<open>LIKE\<close> pattern lies in the range that
  \<open>my_like_range_simple\<close> computes for the index, in the order of the collation: for table collations
  with padding (compared by \<open>my_strnncollsp_simple\<close>) and without (compared by \<open>my_strnncoll_simple\<close>).  The
  collation has been initialised by \<open>my_coll_init_simple\<close>, the byte 0 sorts first, and the escape
  character and the two wildcards are different bytes.
\<close>

theorem like_range_complete:
  assumes "tables_ok cs0" "cs = snd (my_coll_init_simple cs0)" "mbmaxlen cs = 1"
    "escape \<noteq> w_one" "escape \<noteq> w_many" "w_one \<noteq> w_many"
    "like (weight cs) (pattern (sint escape) (sint w_one) (sint w_many) ptr) s" "length s \<le> res"
    "r = my_like_range_simple cs ptr escape w_one w_many res"
  shows "(cs_state cs AND (MY_CS_BINSORT OR MY_CS_NOPAD) = 0 \<longrightarrow>
      my_strnncollsp_simple cs (take (min_length r) (min_str r)) s \<le> 0 \<and>
      my_strnncollsp_simple cs s (take (max_length r) (max_str r)) \<le> 0) \<and>
    (cs_state cs AND MY_CS_NOPAD \<noteq> 0 \<longrightarrow>
      my_strnncoll_simple cs (take (min_length r) (min_str r)) s False \<le> 0 \<and>
      my_strnncoll_simple cs s (take (max_length r) (max_str r)) False \<le> 0)"
proof -
  have w: "weights_ok cs (weight cs)" by (rule initialised_weights [OF assms(1,2)])
  have b: "exact_bounds (weight cs) r s \<or> open_bounds cs (weight cs) r s"
    by (rule my_like_range_simple_bounds [OF w assms(4-6) assms(3) assms(7-9)])
  show ?thesis
    using like_range_pad [OF w _ b] like_range_nopad [OF w _ b]
    by (simp add: my_strnncollsp_simple_collsp my_strnncoll_simple_nopad)
qed

theorem like_range_complete_witness:
  "my_strnncollsp_simple (snd (my_coll_init_simple my_charset_latin1))
     (take (min_length (my_like_range_simple (snd (my_coll_init_simple my_charset_latin1)) [0x61, 0x25] 0x5C 0x5F 0x25 4))
       (min_str (my_like_range_simple (snd (my_coll_init_simple my_charset_latin1)) [0x61, 0x25] 0x5C 0x5F 0x25 4))) [0x41, 9] \<le> 0"
proof -
  let ?cs = "snd (my_coll_init_simple my_charset_latin1)"
  have so: "sort_order ?cs = sort_order_latin1" "mbmaxlen ?cs = 1"
    "cs_state ?cs = cs_state my_charset_latin1 OR my_8bit_collation_flags_from_data my_charset_latin1"
    by (simp_all add: my_coll_init_simple_def set_max_sort_char_def my_charset_latin1_def sort_order_latin1_def)
  have "my_8bit_collation_flags_from_data my_charset_latin1 = 0"
    by (simp add: my_8bit_collation_flags_from_data_def my_charset_latin1_def sort_order_latin1_def tab_def)
  then have st: "cs_state ?cs AND (MY_CS_BINSORT OR MY_CS_NOPAD) = 0"
    unfolding so(3) by (simp add: my_charset_latin1_def MY_CS_BINSORT_def MY_CS_NOPAD_def)
  have "like (weight ?cs) (pattern (sint (0x5C :: uchar)) (sint (0x5F :: uchar)) (sint (0x25 :: uchar)) [0x61, 0x25]) [0x41, 9]"
    by (auto simp: sint_eq so sort_order_latin1_def tab_def intro!: exI [of _ "Suc 0"])
  then show ?thesis
    using like_range_complete [OF latin1_tables(1) refl so(2), of "0x5C" "0x5F" "0x25" "[0x61, 0x25]" "[0x41, 9]" 4 _] st by simp
qed

text \<open>
  C9: The matcher decides \<open>LIKE\<close>: \<open>my_wildcmp_8bit\<close> and \<open>my_wildcmp_bin\<close> return 0 exactly for the strings
  that the pattern describes, with the weights of the collation or byte by byte.  The wildcards
  are different, the escape character is ASCII, and the stack guard does not fire on the levels
  up to one more than the number of \<open>%\<close> signs.
\<close>

theorem like_matcher_correct:
  assumes "wildcards_ok escape w_one w_many" "quiet guard 1 (1 + stars w_many wild)"
  shows "(my_wildcmp_8bit cs guard str wild escape w_one w_many = 0 \<longleftrightarrow> like (weight cs) (pattern escape w_one w_many wild) str) \<and>
    (my_wildcmp_bin guard str wild escape w_one w_many = 0 \<longleftrightarrow> like (\<lambda>c. c) (pattern escape w_one w_many wild) str)"
  using wild_impl_verdict(1) [OF assms, of "weight cs" str] wild_impl_verdict(1) [OF assms, of "\<lambda>c. c" str]
  by (simp add: my_wildcmp_8bit_def my_wildcmp_bin_def verdict_def del: wild_impl.simps)

theorem like_matcher_witness:
  "my_wildcmp_bin (\<lambda>_. False) [0x61, 9] [0x61, 0x25] 0x5C 0x5F 0x25 = 0"
proof -
  have "wildcards_ok 0x5C 0x5F 0x25" "quiet (\<lambda>_. False) 1 (1 + stars 0x25 [0x61, 0x25])"
    by (simp_all add: wildcards_ok_def quiet_def)
  moreover have "like (\<lambda>c. c) (pattern 0x5C 0x5F 0x25 [0x61, 0x25]) [0x61, 9]"
    by (auto intro!: exI [of _ "Suc 0"])
  ultimately show ?thesis using like_matcher_correct [of "0x5C" "0x5F" "0x25" "\<lambda>_. False" "[0x61, 0x25]"] by blast
qed

text \<open>
  C38: \<open>my_like_range_simple\<close> fills both buffers exactly and never writes behind them, whatever the
  pattern; the key lengths it reports are inside the buffers.
\<close>

theorem like_range_in_buffer:
  "length (min_str (my_like_range_simple cs ptr escape w_one w_many res)) = res \<and>
   length (max_str (my_like_range_simple cs ptr escape w_one w_many res)) = res \<and>
   min_length (my_like_range_simple cs ptr escape w_one w_many res) \<le> res \<and>
   max_length (my_like_range_simple cs ptr escape w_one w_many res) \<le> res"
  using like_range_loop_fits [of "[]" "[]" res] by (simp add: my_like_range_simple_def fits_buffers_def)

text \<open>A pattern of plain characters \<open>p\<close> and one \<open>%\<close> at its end.\<close>

lemma like_prefix:
  assumes "set p \<inter> {escape, w_one, w_many} = {}" "w_one \<noteq> w_many"
  shows "like f (pattern (sint escape) (sint w_one) (sint w_many) (p @ [w_many])) (p @ t)"
  using assms by (induction p) (auto simp: sint_eq)

lemma stars_prefix: "w_many \<notin> set p \<Longrightarrow> stars (sint w_many) (p @ [w_many]) = 1"
  by (induction p) (auto simp: sint_eq)

lemma like_range_prefix:
  assumes "set p \<inter> {escape, w_one, w_many} = {}" "w_one \<noteq> w_many" "length mn + length p < res" "length p < charlen"
  shows "like_range_loop cs escape w_one w_many res charlen mn mx (p @ [w_many]) =
    \<lparr>min_str = mn @ p @ replicate (res - length (mn @ p)) 0,
     max_str = mx @ p @ replicate (res - length (mn @ p)) (ucast (max_sort_char cs)),
     min_length = (if cs_state cs AND (MY_CS_BINSORT OR MY_CS_NOPAD) \<noteq> 0 then length (mn @ p) else res),
     max_length = res\<rparr>"
  using assms
proof (induction p arbitrary: mn mx charlen)
  case Nil
  then show ?case by (subst like_range_loop.simps) auto
next
  case (Cons a p)
  have "like_range_loop cs escape w_one w_many res charlen mn mx ((a # p) @ [w_many]) =
      like_range_loop cs escape w_one w_many res (charlen - 1) (mn @ [a]) (mx @ [a]) (p @ [w_many])"
    using Cons.prems by (subst like_range_loop.simps) auto
  also have "\<dots> = \<lparr>min_str = (mn @ [a]) @ p @ replicate (res - length ((mn @ [a]) @ p)) 0,
     max_str = (mx @ [a]) @ p @ replicate (res - length ((mn @ [a]) @ p)) (ucast (max_sort_char cs)),
     min_length = (if cs_state cs AND (MY_CS_BINSORT OR MY_CS_NOPAD) \<noteq> 0 then length ((mn @ [a]) @ p) else res),
     max_length = res\<rparr>"
    by (rule Cons.IH) (use Cons.prems in auto)
  finally show ?case by simp
qed

lemma and_part: "(x :: 'a :: len word) AND a \<noteq> 0 \<Longrightarrow> x AND (a OR b) \<noteq> 0"
  by (auto simp: bit_eq_iff bit_simps)

lemma collsp_below_space: "c < 0x20 \<Longrightarrow> 0 < collsp (\<lambda>c. c) p (p @ c # u)"
  by (induction p) auto

text \<open>
  C39: For a collation with \<open>MY_CS_BINSORT\<close> that compares with padding, such as \<open>latin1_bin\<close>, the range of
  \<open>LIKE 'p%'\<close> misses matching strings: for every prefix \<open>p\<close> of plain characters that is shorter than the
  column, every string that continues \<open>p\<close> with a character below the space, and then with anything, matches
  the pattern and sorts before the lower bound that \<open>my_like_range_simple\<close> returns.  (The escape character is
  ASCII, the wildcards are different, and the stack guard does not fire on the first two levels.)
\<close>

theorem like_range_misses_binsort:
  assumes "cs_state cs AND MY_CS_BINSORT \<noteq> 0" "mbmaxlen cs = 1" "w_one \<noteq> w_many" "0 \<le> sint escape"
    "set p \<inter> {escape, w_one, w_many} = {}" "length p < res" "c < 0x20" "quiet guard 1 2"
    "r = my_like_range_simple cs (p @ [w_many]) escape w_one w_many res"
  shows "my_wildcmp_bin guard (p @ c # u) (p @ [w_many]) (sint escape) (sint w_one) (sint w_many) = 0 \<and>
    0 < my_strnncollsp_8bit_bin (take (min_length r) (min_str r)) (p @ c # u)"
proof -
  have "sint escape < 128" using sint_lt [of escape] by simp
  then have "wildcards_ok (sint escape) (sint w_one) (sint w_many)" using assms(3,4) by (simp add: wildcards_ok_def sint_eq)
  moreover have "quiet guard 1 (1 + stars (sint w_many) (p @ [w_many]))" using assms(5,8) by (simp add: stars_prefix numeral_2_eq_2)
  ultimately have "my_wildcmp_bin guard (p @ c # u) (p @ [w_many]) (sint escape) (sint w_one) (sint w_many) = 0 \<longleftrightarrow>
      like (\<lambda>c. c) (pattern (sint escape) (sint w_one) (sint w_many) (p @ [w_many])) (p @ c # u)"
    using wild_impl_verdict(1) [of "sint escape" "sint w_one" "sint w_many" guard 1 "p @ [w_many]" "\<lambda>c. c" "p @ c # u"]
    by (simp add: my_wildcmp_bin_def verdict_def del: wild_impl.simps)
  then have "my_wildcmp_bin guard (p @ c # u) (p @ [w_many]) (sint escape) (sint w_one) (sint w_many) = 0"
    using like_prefix [OF assms(5,3)] by blast
  moreover have "take (min_length r) (min_str r) = p"
    using assms(1-3,5,6) and_part [OF assms(1), of MY_CS_NOPAD]
    unfolding assms(9) my_like_range_simple_def by (subst (1 2) like_range_prefix) auto
  ultimately show ?thesis using collsp_below_space [OF assms(7)] by (simp add: my_strnncollsp_8bit_bin_collsp)
qed

theorem like_range_misses_witness:
  "0 < my_strnncollsp_8bit_bin
     (take (min_length (my_like_range_simple my_charset_latin1_bin [0x61, 0x25] 0x5C 0x5F 0x25 2))
       (min_str (my_like_range_simple my_charset_latin1_bin [0x61, 0x25] 0x5C 0x5F 0x25 2))) [0x61, 9]"
proof -
  have "cs_state my_charset_latin1_bin AND MY_CS_BINSORT \<noteq> 0" "mbmaxlen my_charset_latin1_bin = 1" "quiet (\<lambda>_. False) 1 2"
    by (simp_all add: my_charset_latin1_bin_def my_charset_latin1_def MY_CS_BINSORT_def quiet_def)
  then show ?thesis
    using like_range_misses_binsort [of my_charset_latin1_bin "0x5F" "0x25" "0x5C" "[0x61]" 2 9 "\<lambda>_. False" _ "[]"] by simp
qed

text \<open>With \<open>ESCAPE '%'\<close> the matcher takes the sign as a wildcard and the range takes it as an escape.\<close>

lemma like_range_escape_percent:
  "my_wildcmp_8bit my_charset_latin1 (\<lambda>_. False) [0x61, 0x62] [0x61, 0x25, 0x25] 0x25 0x5F 0x25 = 0 \<and>
   my_like_range_simple my_charset_latin1 [0x61, 0x25, 0x25] 0x25 0x5F 0x25 2 =
     \<lparr>min_str = [0x61, 0x25], max_str = [0x61, 0x25], min_length = 2, max_length = 2\<rparr>"
proof -
  have "my_like_range_simple my_charset_latin1 [0x61, 0x25, 0x25] 0x25 0x5F 0x25 2 =
     \<lparr>min_str = [0x61, 0x25], max_str = [0x61, 0x25], min_length = 2, max_length = 2\<rparr>"
    by (simp add: my_like_range_simple_def like_range_loop.simps my_charset_latin1_def)
  then show ?thesis by (simp add: my_wildcmp_8bit_def)
qed

end
