(* ===== verification/Strnto.thy ===== *)
theory Strnto
  imports Int_Str My_Ctype
begin

text \<open>
  Numbers in any base as text, with a length instead of a terminator: \<open>my_strntol_8bit\<close>,
  \<open>my_strntoul_8bit\<close>, \<open>my_strntoll_8bit\<close> and \<open>my_strntoull_8bit\<close> of \<open>strings/ctype-simple.c\<close>, and the
  decimal printers \<open>my_long10_to_str_8bit\<close> and \<open>my_longlong10_to_str_8bit\<close>.  The position \<open>*endptr\<close> is
  the rest of the text.  \<open>long\<close> has 64 bits; the first two functions accumulate in 32 bits.  The
  \<open>for (c = *s; s != e; c = *++s)\<close> loops of the first two also read the byte behind the text, whose
  value is not used.  The class \<open>my_isspace\<close> is the one of \<open>latin1\<close>.
\<close>

section \<open>The model\<close>

datatype conv_error = NO_ERROR | ERANGE | EDOM

definition INT_MAX32 :: nat where "INT_MAX32 = 0x7FFFFFFF"
definition UINT_MAX32 :: nat where "UINT_MAX32 = 0xFFFFFFFF"
definition LONGLONG_MAX :: nat where "LONGLONG_MAX = 0x7FFFFFFFFFFFFFFF"

text \<open>The value of a digit or letter; \<open>None\<close> leaves the loop.\<close>

definition digit_val :: "char \<Rightarrow> nat option" where
  "digit_val ch =
     (let c = of_char ch :: nat
      in if 48 \<le> c \<and> c \<le> 57 then Some (c - 48)
         else if 65 \<le> c \<and> c \<le> 90 then Some (c - 65 + 10)
         else if 97 \<le> c \<and> c \<le> 122 then Some (c - 97 + 10)
         else None)"

text \<open>The loop over the digits; \<open>mx\<close> is the largest value of the accumulator \<open>i\<close>.\<close>

fun num_loop :: "nat \<Rightarrow> nat \<Rightarrow> nat \<Rightarrow> bool \<Rightarrow> string \<Rightarrow> nat \<times> bool \<times> string" where
  "num_loop mx base i overflow [] = (i, overflow, [])"
| "num_loop mx base i overflow (ch # s) =
     (case digit_val ch of
        None \<Rightarrow> (i, overflow, ch # s)
      | Some c \<Rightarrow>
          if c \<ge> base then (i, overflow, ch # s)
          else if i > mx div base \<or> i = mx div base \<and> c > mx mod base then num_loop mx base i True s
          else num_loop mx base ((i * base + c) mod (mx + 1)) overflow s)"

text \<open>
  The part the four functions share: spaces, sign and digits.  \<open>None\<close> is the jump to \<open>noconv\<close>,
  else the sign, the accumulator, the overflow flag and the rest.
\<close>

definition strnto :: "nat \<Rightarrow> nat \<Rightarrow> string \<Rightarrow> (bool \<times> nat \<times> bool \<times> string) option" where
  "strnto mx base nptr =
     (let s = dropWhile my_isspace nptr
      in if s = [] then None
         else
           (let negative = (hd s = CHR ''-'');
                save = (if hd s = CHR ''-'' \<or> hd s = CHR ''+'' then tl s else s);
                (i, overflow, rest) = num_loop mx base 0 False save
            in if length rest = length save then None else Some (negative, i, overflow, rest)))"

definition my_strntol_8bit :: "string \<Rightarrow> nat \<Rightarrow> int \<times> conv_error \<times> string" where
  "my_strntol_8bit nptr base =
     (case strnto UINT_MAX32 base nptr of
        None \<Rightarrow> (0, EDOM, nptr)
      | Some (negative, i, overflow, rest) \<Rightarrow>
          (let overflow = (overflow \<or> (if negative then i > 0x80000000 else i > INT_MAX32))
           in if overflow then (if negative then - 0x80000000 else int INT_MAX32, ERANGE, rest)
              else (if negative then - int i else int i, NO_ERROR, rest)))"

definition my_strntoul_8bit :: "string \<Rightarrow> nat \<Rightarrow> nat \<times> conv_error \<times> string" where
  "my_strntoul_8bit nptr base =
     (case strnto UINT_MAX32 base nptr of
        None \<Rightarrow> (0, EDOM, nptr)
      | Some (negative, i, overflow, rest) \<Rightarrow>
          if overflow then (UINT_MAX32, ERANGE, rest)
          else (if negative then ulonglong_of (- int i) else i, NO_ERROR, rest))"

definition my_strntoll_8bit :: "string \<Rightarrow> nat \<Rightarrow> int \<times> conv_error \<times> string" where
  "my_strntoll_8bit nptr base =
     (case strnto ULONGLONG_MAX base nptr of
        None \<Rightarrow> (0, EDOM, nptr)
      | Some (negative, i, overflow, rest) \<Rightarrow>
          (let overflow = (overflow \<or> (if negative then i > 0x8000000000000000 else i > LONGLONG_MAX))
           in if overflow then (if negative then - 0x8000000000000000 else int LONGLONG_MAX, ERANGE, rest)
              else (if negative then s64 (- s64 (int i)) else s64 (int i), NO_ERROR, rest)))"

definition my_strntoull_8bit :: "string \<Rightarrow> nat \<Rightarrow> nat \<times> conv_error \<times> string" where
  "my_strntoull_8bit nptr base =
     (case strnto ULONGLONG_MAX base nptr of
        None \<Rightarrow> (0, EDOM, nptr)
      | Some (negative, i, overflow, rest) \<Rightarrow>
          if overflow then (ULONGLONG_MAX, ERANGE, rest)
          else (if negative then ulonglong_of (- s64 (int i)) else i, NO_ERROR, rest))"

text \<open>What is written to \<open>dst\<close>; the length of the result is the return value.\<close>

definition my_long10_to_str_8bit :: "nat \<Rightarrow> int \<Rightarrow> int \<Rightarrow> string" where
  "my_long10_to_str_8bit len radix val =
     (let negative = radix < 0 \<and> val < 0;
          uval = (if negative then ulonglong_of (0 - int (ulonglong_of val)) else ulonglong_of val);
          len = (if negative then u64 (len + 2 ^ 64 - 1) else len);
          new_val = uval div 10;
          p = digit_loop dig_vec_10 10 new_val [dig_vec_10 ! (uval - new_val * 10)]
      in (if negative then ''-'' else '''') @ take (min len (length p)) p)"

definition my_longlong10_to_str_8bit :: "nat \<Rightarrow> int \<Rightarrow> int \<Rightarrow> string" where
  "my_longlong10_to_str_8bit len radix val =
     (let negative = radix < 0 \<and> val < 0;
          uval = (if negative then ulonglong_of (0 - int (ulonglong_of val)) else ulonglong_of val);
          len = (if negative then u64 (len + 2 ^ 64 - 1) else len);
          p = (if uval = 0 then ''0''
               else case unsigned_loop dig_vec_10 10 uval [] of (long_val, p) \<Rightarrow> digit_loop dig_vec_10 10 long_val p);
          len = (if uval = 0 then 1 else min len (length p))
      in (if negative then ''-'' else '''') @ take len p)"

text \<open>\<open>my_scan_8bit\<close>: the length of a sequence.  For the integer tail \<open>*str\<close> is read before \<open>str\<close> is compared with \<open>end\<close>: \<open>None\<close> for an empty text.\<close>

datatype my_seq = MY_SEQ_INTTAIL | MY_SEQ_SPACES | MY_SEQ_NONSPACES

definition my_scan_8bit :: "string \<Rightarrow> my_seq \<Rightarrow> nat option" where
  "my_scan_8bit str sq =
     (case sq of
        MY_SEQ_INTTAIL \<Rightarrow>
          (case str of
             [] \<Rightarrow> None
           | c # str \<Rightarrow> Some (if c = CHR ''.'' then 1 + length (takeWhile (\<lambda>c. c = CHR ''0'') str) else 0))
      | MY_SEQ_SPACES \<Rightarrow> Some (length (takeWhile my_isspace str))
      | MY_SEQ_NONSPACES \<Rightarrow> Some (length (takeWhile (\<lambda>c. \<not> my_isspace c) str)))"

section \<open>The digits of a number\<close>

definition is_digit_in :: "nat \<Rightarrow> char \<Rightarrow> bool" where
  "is_digit_in base c \<longleftrightarrow> (case digit_val c of None \<Rightarrow> False | Some d \<Rightarrow> d < base)"

definition val_from :: "nat \<Rightarrow> nat \<Rightarrow> string \<Rightarrow> nat" where
  "val_from base v ds = foldl (\<lambda>v c. v * base + the (digit_val c)) v ds"

lemma val_from_simps [simp]:
  "val_from base v [] = v" "val_from base v (c # ds) = val_from base (v * base + the (digit_val c)) ds"
  by (simp_all add: val_from_def)

lemma val_from_ge: "1 \<le> base \<Longrightarrow> v \<le> val_from base v ds"
proof (induction ds arbitrary: v)
  case (Cons c ds)
  have "v \<le> v * base + the (digit_val c)" using Cons.prems by (cases base) auto
  then show ?case using Cons by (simp) (meson le_trans)
qed simp

lemma cutoff_iff:
  assumes "c < base"
  shows "i > mx div base \<or> i = mx div base \<and> c > mx mod base \<longleftrightarrow> i * base + c > (mx :: nat)"
proof -
  have mx: "mx = mx div base * base + mx mod base" "mx mod base < base" using assms by simp_all
  consider "i < mx div base" | "i = mx div base" | "i > mx div base" by linarith
  then show ?thesis
  proof cases
    case 1
    then have "(i + 1) * base \<le> mx div base * base" by (intro mult_le_mono1) simp
    then have "i * base + base \<le> mx div base * base" by simp
    then show ?thesis using 1 mx assms by linarith
  next
    case 2
    then have "mx = i * base + mx mod base" using mx(1) by simp
    then have "mx < i * base + c \<longleftrightarrow> mx mod base < c" by linarith
    then show ?thesis using 2 by simp
  next
    case 3
    then have "(mx div base + 1) * base \<le> i * base" by (intro mult_le_mono1) simp
    then have "mx div base * base + base \<le> i * base" by simp
    then show ?thesis using 3 mx by linarith
  qed
qed

lemma num_loop_overflow:
  "fst (snd (num_loop mx base i True s)) \<and> snd (snd (num_loop mx base i True s)) = dropWhile (is_digit_in base) s"
  by (induction s arbitrary: i) (auto simp: is_digit_in_def split: option.splits)

lemma num_loop_value:
  assumes "2 \<le> base" "i \<le> mx"
  shows "snd (snd (num_loop mx base i False s)) = dropWhile (is_digit_in base) s \<and>
    (let v = val_from base i (takeWhile (is_digit_in base) s)
     in if v \<le> mx then fst (num_loop mx base i False s) = v \<and> \<not> fst (snd (num_loop mx base i False s))
        else fst (snd (num_loop mx base i False s)))"
  using assms(2)
proof (induction s arbitrary: i)
  case (Cons ch s)
  show ?case
  proof (cases "is_digit_in base ch")
    case False
    then have "num_loop mx base i False (ch # s) = (i, False, ch # s)" by (auto simp: is_digit_in_def split: option.splits)
    then show ?thesis using False Cons.prems by simp
  next
    case True
    then obtain c where c: "digit_val ch = Some c" "c < base" by (auto simp: is_digit_in_def split: option.splits)
    show ?thesis
    proof (cases "i * base + c > mx")
      case over: True
      then have "num_loop mx base i False (ch # s) = num_loop mx base i True s" using c cutoff_iff [OF c(2), of mx i] by auto
      moreover have "val_from base (i * base + c) (takeWhile (is_digit_in base) s) > mx"
        using val_from_ge [of base "i * base + c"] over assms(1) by (meson le_trans less_le_trans one_le_numeral)
      ultimately show ?thesis using num_loop_overflow [of mx base i s] True c by (simp add: Let_def)
    next
      case fits: False
      then have step: "num_loop mx base i False (ch # s) = num_loop mx base (i * base + c) False s"
        using c cutoff_iff [OF c(2), of mx i] by auto
      show ?thesis unfolding step using Cons.IH [of "i * base + c"] fits True c by simp
    qed
  qed
qed simp

text \<open>The sign, the digits and the rest of a text.\<close>

definition number_parts :: "nat \<Rightarrow> string \<Rightarrow> bool \<times> string \<times> string" where
  "number_parts base nptr =
     (let s = dropWhile my_isspace nptr;
          save = (if s \<noteq> [] \<and> (hd s = CHR ''-'' \<or> hd s = CHR ''+'') then tl s else s)
      in (s \<noteq> [] \<and> hd s = CHR ''-'', takeWhile (is_digit_in base) save, dropWhile (is_digit_in base) save))"

lemma dropWhile_same_length: "length (dropWhile P s) = length s \<longleftrightarrow> takeWhile P s = []"
  by (metis add_cancel_left_left length_0_conv length_append takeWhile_dropWhile_id)

lemma strnto_parts:
  assumes "2 \<le> base" "number_parts base nptr = (neg, ds, rest)"
  shows "ds = [] \<Longrightarrow> strnto mx base nptr = None"
    "ds \<noteq> [] \<Longrightarrow> val_from base 0 ds \<le> mx \<Longrightarrow> strnto mx base nptr = Some (neg, val_from base 0 ds, False, rest)"
    "ds \<noteq> [] \<Longrightarrow> val_from base 0 ds > mx \<Longrightarrow> \<exists>i. strnto mx base nptr = Some (neg, i, True, rest)"
proof -
  define s where "s = dropWhile my_isspace nptr"
  define save where "save = (if hd s = CHR ''-'' \<or> hd s = CHR ''+'' then tl s else s)"
  obtain i ov r where loop: "num_loop mx base 0 False save = (i, ov, r)" by (cases "num_loop mx base 0 False save") auto
  have st: "strnto mx base nptr = (if s = [] \<or> length r = length save then None else Some (hd s = CHR ''-'', i, ov, r))"
    using loop by (simp add: strnto_def Let_def s_def [symmetric] save_def [symmetric])
  have r: "r = dropWhile (is_digit_in base) save" and v: "let v = val_from base 0 (takeWhile (is_digit_in base) save)
     in if v \<le> mx then i = v \<and> \<not> ov else ov"
    using num_loop_value [OF assms(1), of 0 mx save] unfolding loop by (simp_all only: fst_conv snd_conv zero_le simp_thms)
  have parts: "s \<noteq> [] \<Longrightarrow> neg = (hd s = CHR ''-'') \<and> ds = takeWhile (is_digit_in base) save \<and> rest = r"
    "s = [] \<Longrightarrow> ds = []"
    using assms(2) r by (auto simp: number_parts_def Let_def s_def [symmetric] save_def)
  show "strnto mx base nptr = None" if "ds = []"
    using st parts(1) that dropWhile_same_length [of "is_digit_in base" save] r by (cases "s = []") simp_all
  assume ne: "ds \<noteq> []"
  then have "s \<noteq> []" using parts(2) by blast
  then have "strnto mx base nptr = Some (neg, i, ov, rest)" and ds: "ds = takeWhile (is_digit_in base) save"
    using ne parts(1) st dropWhile_same_length [of "is_digit_in base" save] r by auto
  then show "val_from base 0 ds \<le> mx \<Longrightarrow> strnto mx base nptr = Some (neg, val_from base 0 ds, False, rest)"
    "val_from base 0 ds > mx \<Longrightarrow> \<exists>i. strnto mx base nptr = Some (neg, i, True, rest)"
    using v unfolding ds by (auto simp: Let_def split: if_splits)
qed

definition clip :: "int \<Rightarrow> int \<Rightarrow> int \<Rightarrow> int \<times> conv_error" where
  "clip lo hi x = (if x < lo then (lo, ERANGE) else if x > hi then (hi, ERANGE) else (x, NO_ERROR))"

definition signed_value :: "bool \<Rightarrow> nat \<Rightarrow> int" where
  "signed_value neg v = (if neg then - int v else int v)"

lemma s64_negate: "v \<le> 0x8000000000000000 \<Longrightarrow> s64 (- s64 (int v)) = - int v"
  by (cases "v = 0x8000000000000000") (simp_all add: s64_def)

lemma ulonglong_of_s64: "ulonglong_of (- s64 x) = ulonglong_of (- x)"
proof -
  have "(- s64 x) mod 2 ^ 64 = (- x) mod 2 ^ 64"
    unfolding s64_def by (simp add: mod_simps algebra_simps)
  then show ?thesis by (simp add: ulonglong_of_def)
qed

lemma strnto_value:
  assumes "2 \<le> base" "number_parts base nptr = (neg, ds, rest)" "v = val_from base 0 ds"
  shows "ds = [] \<Longrightarrow> my_strntol_8bit nptr base = (0, EDOM, nptr) \<and> my_strntoul_8bit nptr base = (0, EDOM, nptr) \<and>
      my_strntoll_8bit nptr base = (0, EDOM, nptr) \<and> my_strntoull_8bit nptr base = (0, EDOM, nptr)"
    "ds \<noteq> [] \<Longrightarrow> my_strntol_8bit nptr base = (case clip (- (2 ^ 31)) (2 ^ 31 - 1) (signed_value neg v) of (x, e) \<Rightarrow> (x, e, rest))"
    "ds \<noteq> [] \<Longrightarrow> my_strntoll_8bit nptr base = (case clip (- (2 ^ 63)) (2 ^ 63 - 1) (signed_value neg v) of (x, e) \<Rightarrow> (x, e, rest))"
    "ds \<noteq> [] \<Longrightarrow> my_strntoul_8bit nptr base =
      (if v < 2 ^ 32 then (ulonglong_of (signed_value neg v), NO_ERROR, rest) else (2 ^ 32 - 1, ERANGE, rest))"
    "ds \<noteq> [] \<Longrightarrow> my_strntoull_8bit nptr base =
      (if v < 2 ^ 64 then (ulonglong_of (signed_value neg v), NO_ERROR, rest) else (2 ^ 64 - 1, ERANGE, rest))"
proof -
  note parts = strnto_parts [OF assms(1,2), folded assms(3)]
  show "ds = [] \<Longrightarrow> my_strntol_8bit nptr base = (0, EDOM, nptr) \<and> my_strntoul_8bit nptr base = (0, EDOM, nptr) \<and>
      my_strntoll_8bit nptr base = (0, EDOM, nptr) \<and> my_strntoull_8bit nptr base = (0, EDOM, nptr)"
    by (simp add: parts(1) my_strntol_8bit_def my_strntoul_8bit_def my_strntoll_8bit_def my_strntoull_8bit_def)
  assume ne: "ds \<noteq> []"
  have fits: "strnto mx base nptr = Some (neg, v, False, rest)" if "v \<le> mx" for mx using parts(2) [OF ne that] .
  have over: "\<exists>i. strnto mx base nptr = Some (neg, i, True, rest)" if "\<not> v \<le> mx" for mx using parts(3) [OF ne] that by simp
  show "my_strntol_8bit nptr base = (case clip (- (2 ^ 31)) (2 ^ 31 - 1) (signed_value neg v) of (x, e) \<Rightarrow> (x, e, rest))"
  proof (cases "v \<le> UINT_MAX32")
    case True
    then show ?thesis using fits by (auto simp: my_strntol_8bit_def clip_def signed_value_def INT_MAX32_def Let_def)
  next
    case False
    then show ?thesis using over [OF False] by (auto simp: my_strntol_8bit_def clip_def signed_value_def INT_MAX32_def UINT_MAX32_def Let_def)
  qed
  show "my_strntoll_8bit nptr base = (case clip (- (2 ^ 63)) (2 ^ 63 - 1) (signed_value neg v) of (x, e) \<Rightarrow> (x, e, rest))"
  proof (cases "v \<le> ULONGLONG_MAX")
    case True
    then show ?thesis
      using fits [OF True] s64_negate [of v] s64_id [of "int v"]
      by (auto simp: my_strntoll_8bit_def clip_def signed_value_def LONGLONG_MAX_def Let_def)
  next
    case False
    then show ?thesis using over [OF False] by (auto simp: my_strntoll_8bit_def clip_def signed_value_def LONGLONG_MAX_def ULONGLONG_MAX_def Let_def)
  qed
  show "my_strntoul_8bit nptr base =
      (if v < 2 ^ 32 then (ulonglong_of (signed_value neg v), NO_ERROR, rest) else (2 ^ 32 - 1, ERANGE, rest))"
  proof (cases "v \<le> UINT_MAX32")
    case True
    then show ?thesis using fits by (auto simp: my_strntoul_8bit_def signed_value_def UINT_MAX32_def ulonglong_of_nonneg)
  next
    case False
    then show ?thesis using over [OF False] by (auto simp: my_strntoul_8bit_def UINT_MAX32_def)
  qed
  show "my_strntoull_8bit nptr base =
      (if v < 2 ^ 64 then (ulonglong_of (signed_value neg v), NO_ERROR, rest) else (2 ^ 64 - 1, ERANGE, rest))"
  proof (cases "v \<le> ULONGLONG_MAX")
    case True
    then show ?thesis
      using fits by (auto simp: my_strntoull_8bit_def signed_value_def ULONGLONG_MAX_def ulonglong_of_s64 ulonglong_of_nonneg)
  next
    case False
    then show ?thesis using over [OF False] by (auto simp: my_strntoull_8bit_def ULONGLONG_MAX_def)
  qed
qed

section \<open>Printing\<close>

lemma u64_minus_1: "1 \<le> len \<Longrightarrow> len < 2 ^ 64 \<Longrightarrow> u64 (len + 2 ^ 64 - 1) = len - 1"
  by (simp add: u64_def mod_if)

lemma dig_vec_10_upper: "d < 10 \<Longrightarrow> dig_vec_10 ! d = dig_vec_upper ! d"
proof -
  have "dig_vec_10 = take 10 dig_vec_upper" by (simp add: dig_vec_10_eq dig_vec_upper_def)
  then show "d < 10 \<Longrightarrow> dig_vec_10 ! d = dig_vec_upper ! d" by (metis nth_take)
qed

lemma digit_loop_10: "digit_loop dig_vec_10 10 n p = digit_loop dig_vec_upper 10 n p"
proof (induction n arbitrary: p rule: less_induct)
  case (less n)
  have "n - n div 10 * 10 < 10" by (simp add: minus_div_mult)
  then show ?case
    using less by (cases "n = 0") (simp_all add: digit_loop.simps [of _ 10 n] digit_loop.simps [of _ 10 0] Let_def dig_vec_10_upper)
qed

lemma unsigned_loop_10: "unsigned_loop dig_vec_10 10 n p = unsigned_loop dig_vec_upper 10 n p"
proof (induction n arbitrary: p rule: less_induct)
  case (less n)
  have "n - n div 10 * 10 < 10" by (simp add: minus_div_mult)
  then show ?case
    using less [of "n div 10"] by (cases "n \<le> LONG_MAX") (simp_all add: unsigned_loop.simps [of _ 10 n] Let_def dig_vec_10_upper)
qed

lemma ll_digits_nonempty: "ll_digits dig_vec_upper 10 n \<noteq> []"
  using ll_digits_num_str [of 10 dig_vec_upper n] dig_vec_digits
  by (auto simp: num_str.simps [of dig_vec_upper 10 n])

lemma to_str_take:
  assumes "1 \<le> len" "len < 2 ^ 64" "- (2 ^ 63) \<le> val" "val < 2 ^ 63"
  shows "my_long10_to_str_8bit len radix val = take len (int10_to_str val radix)"
    "my_longlong10_to_str_8bit len radix val = take len (longlong10_to_str val radix)"
proof -
  show "my_long10_to_str_8bit len radix val = take len (int10_to_str val radix)"
    using assms u64_minus_1 [OF assms(1,2)]
    by (auto simp: my_long10_to_str_8bit_def int10_to_str_def Let_def take_Cons' min_def)
  show "my_longlong10_to_str_8bit len radix val = take len (longlong10_to_str val radix)"
    using assms u64_minus_1 [OF assms(1,2)] ulonglong_of_negate [of val]
    by (auto simp: my_longlong10_to_str_8bit_def longlong10_to_str_def ll_digits_def Let_def take_Cons' min_def
        digit_loop_10 unsigned_loop_10 split: prod.splits)
qed

section \<open>Printing and reading back\<close>

lemma digit_val_dig_vec:
  "list_all (\<lambda>d. digit_val (dig_vec_upper ! d) = Some d \<and> digit_val (dig_vec_lower ! d) = Some d) [0..<36]"
  by code_simp

lemma val_from_append: "val_from base v (as @ bs) = val_from base (val_from base v as) bs"
  by (simp add: val_from_def)

lemma num_str_value:
  assumes "2 \<le> r" "r \<le> 36" "dv = dig_vec_upper \<or> dv = dig_vec_lower"
  shows "list_all (is_digit_in r) (num_str dv r n) \<and> val_from r 0 (num_str dv r n) = n \<and> num_str dv r n \<noteq> []"
proof (induction n rule: less_induct)
  case (less n)
  have dig: "digit_val (dv ! d) = Some d" if "d < r" for d
    using digit_val_dig_vec that assms(2,3) by (auto simp: list_all_iff)
  show ?case
  proof (cases "n < r")
    case True
    then show ?thesis using dig [OF True] by (simp add: num_str.simps [of _ r n] is_digit_in_def)
  next
    case False
    then have "n div r < n" using assms(1) by (intro div_less_dividend) auto
    moreover have "n mod r < r" using assms(1) by simp
    ultimately show ?thesis
      using less [of "n div r"] dig [of "n mod r"] False assms(1)
      by (simp add: num_str.simps [of _ r n] is_digit_in_def val_from_append)
  qed
qed

lemma digit_in_not_sign: "is_digit_in r c \<Longrightarrow> c \<noteq> CHR ''-'' \<and> c \<noteq> CHR ''+'' \<and> \<not> my_isspace c"
  by (auto simp: is_digit_in_def digit_val_def my_isspace_iff Let_def split: option.splits if_splits)

lemma number_parts_signed_str:
  assumes "2 \<le> r" "r \<le> 36" "dv = dig_vec_upper \<or> dv = dig_vec_lower"
  shows "number_parts r (signed_str dv r x) = (x < 0, num_str dv r (nat \<bar>x\<bar>), [])"
proof -
  define ds where "ds = num_str dv r (nat \<bar>x\<bar>)"
  have ds: "list_all (is_digit_in r) ds" "ds \<noteq> []" using num_str_value [OF assms] by (simp_all add: ds_def)
  then have hd: "hd ds \<noteq> CHR ''-''" "hd ds \<noteq> CHR ''+''" "\<not> my_isspace (hd ds)"
    using digit_in_not_sign [of r "hd ds"] by (cases ds; simp)+
  have all: "takeWhile (is_digit_in r) ds = ds" "dropWhile (is_digit_in r) ds = []" using ds(1) by (simp_all add: list_all_iff)
  have "\<not> my_isspace (CHR ''-'')" by (simp add: my_isspace_iff)
  moreover have "dropWhile my_isspace ds = ds" using hd(3) ds(2) by (cases ds) simp_all
  ultimately show ?thesis using all hd ds(2) by (simp add: number_parts_def signed_str_def ds_def [symmetric] Let_def)
qed

text \<open>
  C27: The four conversions take the spaces, an optional sign and the longest run of digits of the base.
  Without a digit they return 0 and \<open>EDOM\<close> and the text itself as the rest; otherwise the value of all
  the digits with its sign, clipped to the range of the type with \<open>ERANGE\<close> when it does not fit
  (32 bits for the two \<open>long\<close> versions), and the text behind the digits.  A negative number that fits
  is negated modulo \<open>2 ^ 64\<close> by the unsigned versions.
\<close>

theorem strnto_correct:
  assumes "2 \<le> base" "number_parts base nptr = (neg, ds, rest)" "v = val_from base 0 ds"
  shows "if ds = [] then
      my_strntol_8bit nptr base = (0, EDOM, nptr) \<and> my_strntoul_8bit nptr base = (0, EDOM, nptr) \<and>
      my_strntoll_8bit nptr base = (0, EDOM, nptr) \<and> my_strntoull_8bit nptr base = (0, EDOM, nptr)
    else
      my_strntol_8bit nptr base = (case clip (- (2 ^ 31)) (2 ^ 31 - 1) (signed_value neg v) of (x, e) \<Rightarrow> (x, e, rest)) \<and>
      my_strntoll_8bit nptr base = (case clip (- (2 ^ 63)) (2 ^ 63 - 1) (signed_value neg v) of (x, e) \<Rightarrow> (x, e, rest)) \<and>
      my_strntoul_8bit nptr base =
        (if v < 2 ^ 32 then (ulonglong_of (signed_value neg v), NO_ERROR, rest) else (2 ^ 32 - 1, ERANGE, rest)) \<and>
      my_strntoull_8bit nptr base =
        (if v < 2 ^ 64 then (ulonglong_of (signed_value neg v), NO_ERROR, rest) else (2 ^ 64 - 1, ERANGE, rest))"
  using strnto_value [OF assms] by (cases "ds = []") (simp_all only: if_True if_False simp_thms)

theorem strnto_witness:
  "my_strntol_8bit ''  -1aFg'' 16 = (- 431, NO_ERROR, ''g'')"
proof -
  have "number_parts 16 ''  -1aFg'' = (True, ''1aF'', ''g'')"
    by (simp add: number_parts_def my_isspace_iff is_digit_in_def digit_val_def)
  from strnto_correct [OF _ this refl] show ?thesis
    by (simp add: digit_val_def clip_def signed_value_def)
qed

text \<open>
  A \<open>longlong\<close> printed with its sign in any base from 2 to 36 by \<open>int2str\<close> or \<open>ll2str\<close>, in upper or
  lower case, is read back by \<open>my_strntoll_8bit\<close>; and the decimal printers with a length write the
  first \<open>len\<close> characters of what the printers without one write.
\<close>

theorem print_read_roundtrip:
  assumes "2 \<le> r" "r \<le> 36" "- (2 ^ 63) \<le> x" "x < 2 ^ 63" "1 \<le> len" "len < 2 ^ 64"
  shows "my_strntoll_8bit (the (int2str x (- int r) up)) r = (x, NO_ERROR, []) \<and>
    my_strntoll_8bit (the (ll2str x (- int r) up)) r = (x, NO_ERROR, []) \<and>
    my_long10_to_str_8bit len radix x = take len (int10_to_str x radix) \<and>
    my_longlong10_to_str_8bit len radix x = take len (longlong10_to_str x radix)"
proof -
  define dv where "dv = (if up then dig_vec_upper else dig_vec_lower)"
  have dv: "dv = dig_vec_upper \<or> dv = dig_vec_lower" by (simp add: dv_def)
  have pr: "int2str x (- int r) up = Some (signed_str dv r x)" "ll2str x (- int r) up = Some (signed_str dv r x)"
    using int_to_str_correct [OF assms(1-4), of up] by (simp_all add: dv_def)
  note num = num_str_value [OF assms(1,2) dv, of "nat \<bar>x\<bar>"]
  have "my_strntoll_8bit (signed_str dv r x) r = (x, NO_ERROR, [])"
    using strnto_value(3) [OF assms(1) number_parts_signed_str [OF assms(1,2) dv] refl, of x] num assms(3,4)
    by (auto simp: clip_def signed_value_def)
  then show ?thesis using pr to_str_take [OF assms(5,6,3,4)] by simp
qed

theorem print_read_witness:
  "my_strntoll_8bit (the (ll2str (- 255) (- 16) True)) 16 = (- 255, NO_ERROR, [])"
  using print_read_roundtrip [of 16 "- 255" 20 True] by simp

end
