(* ===== verification/Strnto_Rnd.thy ===== *)
theory Strnto_Rnd
  imports Strnto
begin

text \<open>
  \<open>my_strntoull10rnd_8bit\<close> of \<open>strings/ctype-simple.c\<close>: the conversion of a decimal text with fraction
  and exponent to an integer, rounded half away from zero, which stores a text in an integer column.
  Positions are the rest of the text behind them, so \<open>dot - str\<close> is a difference of lengths.  The one
  signed overflow a short text can reach, in the exponent, is undefined in C: the model returns \<open>None\<close>.
\<close>

section \<open>The model\<close>

definition CUTOFF :: nat where "CUTOFF = ULONGLONG_MAX div 10"
definition CUTLIM :: nat where "CUTLIM = ULONGLONG_MAX mod 10"
definition DIGITS_IN_ULONGLONG :: nat where "DIGITS_IN_ULONGLONG = 20"

definition d10 :: "nat list" where
  "d10 = [1, 10, 100, 1000, 10000, 100000, 1000000, 10000000, 100000000, 1000000000,
     10000000000, 100000000000, 1000000000000, 10000000000000, 100000000000000, 1000000000000000,
     10000000000000000, 100000000000000000, 1000000000000000000, 10000000000000000000]"

text \<open>The labels \<open>ret_sign\<close> and \<open>ret_too_big\<close>.\<close>

definition ret_sign :: "bool \<Rightarrow> bool \<Rightarrow> nat \<Rightarrow> string \<Rightarrow> nat \<times> my_errno \<times> string" where
  "ret_sign unsigned_flag negative ull str =
     (if \<not> unsigned_flag then
        if negative then
          if ull > 0x8000000000000000 then (0x8000000000000000, MY_ERRNO_ERANGE, str)
          else (ulonglong_of (- s64 (int ull)), MY_ERRNO_OK, str)
        else if ull > LONGLONG_MAX then (LONGLONG_MAX, MY_ERRNO_ERANGE, str)
        else (ull, MY_ERRNO_OK, str)
      else if negative \<and> ull \<noteq> 0 then (0, MY_ERRNO_ERANGE, str)
      else (ull, MY_ERRNO_OK, str))"

definition ret_too_big :: "bool \<Rightarrow> bool \<Rightarrow> string \<Rightarrow> nat \<times> my_errno \<times> string" where
  "ret_too_big unsigned_flag negative str =
     (if unsigned_flag then ULONGLONG_MAX else if negative then 0x8000000000000000 else LONGLONG_MAX,
      MY_ERRNO_ERANGE, str)"

text \<open>The loop that multiplies by 10; \<open>None\<close> jumps to \<open>ret_too_big\<close>.\<close>

fun left_shift :: "nat \<Rightarrow> nat \<Rightarrow> nat option" where
  "left_shift 0 ull = Some ull"
| "left_shift (Suc n) ull = (if ull > CUTOFF then None else left_shift n (u64 (ull * 10)))"

definition apply_shift :: "bool \<Rightarrow> bool \<Rightarrow> nat \<Rightarrow> int \<Rightarrow> bool \<Rightarrow> string \<Rightarrow> nat \<times> my_errno \<times> string" where
  "apply_shift unsigned_flag negative ull shift addon str =
     (if shift = 0 then
        if addon then
          if ull = ULONGLONG_MAX then ret_too_big unsigned_flag negative str
          else ret_sign unsigned_flag negative (ull + 1) str
        else ret_sign unsigned_flag negative ull str
      else if shift < 0 then
        if - shift \<ge> int DIGITS_IN_ULONGLONG then (0, MY_ERRNO_OK, str)
        else
          (let d = d10 ! nat (- shift);
               r = u64 ((ull mod d) * 2);
               ull = ull div d
           in ret_sign unsigned_flag negative (if r \<ge> d then ull + 1 else ull) str)
      else if shift > int DIGITS_IN_ULONGLONG then
        if ull = 0 then ret_sign unsigned_flag negative ull str
        else ret_too_big unsigned_flag negative str
      else
        (case left_shift (nat shift) ull of
           None \<Rightarrow> ret_too_big unsigned_flag negative str
         | Some ull \<Rightarrow> ret_sign unsigned_flag negative ull str))"

text \<open>The digits of the exponent; \<open>None\<close> is the overflow of the \<open>int\<close>.\<close>

fun exp_loop :: "nat \<Rightarrow> string \<Rightarrow> (nat \<times> string) option" where
  "exp_loop exponent [] = Some (exponent, [])"
| "exp_loop exponent (c # str) =
     (if \<not> is_digit c then Some (exponent, c # str)
      else if exponent * 10 + digit_of c \<ge> 2 ^ 31 then None
      else exp_loop (exponent * 10 + digit_of c) str)"

definition int_ok :: "int \<Rightarrow> bool" where
  "int_ok x \<longleftrightarrow> - (2 ^ 31) \<le> x \<and> x < 2 ^ 31"

text \<open>From the label \<open>exp\<close> on.\<close>

definition exp_part :: "bool \<Rightarrow> bool \<Rightarrow> string \<Rightarrow> nat \<times> int \<times> bool \<times> nat \<times> string \<Rightarrow> (nat \<times> my_errno \<times> string) option" where
  "exp_part unsigned_flag negative beg st =
     (case st of (ull, shift, addon, digits, str) \<Rightarrow>
        if digits = 0 then Some (0, MY_ERRNO_EDOM, beg)
        else if str \<noteq> [] \<and> (hd str = CHR ''e'' \<or> hd str = CHR ''E'') \<and> tl str \<noteq> [] then
          (let negative_exp = (hd (tl str) = CHR ''-'');
               signed = (negative_exp \<or> hd (tl str) = CHR ''+'');
               str1 = (if signed then tl (tl str) else tl str)
           in if signed \<and> str1 = [] then Some (ret_sign unsigned_flag negative ull str)
              else
                case exp_loop 0 str1 of
                  None \<Rightarrow> None
                | Some (exponent, str2) \<Rightarrow>
                    (let shift = shift + (if negative_exp then - int exponent else int exponent)
                     in if int_ok shift then Some (apply_shift unsigned_flag negative ull shift addon str2)
                        else None))
        else Some (apply_shift unsigned_flag negative ull shift addon str))"

text \<open>
  The loop that accumulates into \<open>ull\<close>; \<open>dot\<close> is the position behind the period.  The result is
  \<open>ull\<close>, \<open>shift\<close>, \<open>addon\<close>, \<open>digits\<close> and \<open>str\<close> at the label \<open>exp\<close>.
\<close>

fun rnd_loop :: "string option \<Rightarrow> nat \<Rightarrow> nat \<Rightarrow> string \<Rightarrow> nat \<times> int \<times> bool \<times> nat \<times> string" where
  "rnd_loop dot ull digits [] =
     (ull, case dot of None \<Rightarrow> 0 | Some d \<Rightarrow> s32 (- int (length d)), False, digits, [])"
| "rnd_loop dot ull digits (c # s) =
     (if is_digit c then
        if ull < CUTOFF \<or> ull = CUTOFF \<and> digit_of c \<le> CUTLIM
        then rnd_loop dot (ull * 10 + digit_of c) (digits + 1) s
        else
          (let (ull, addon, str) =
                 (if ull = CUTOFF then (ULONGLONG_MAX, True, s) else (ull, digit_of c \<ge> 5, c # s))
           in case dot of
                None \<Rightarrow>
                  (let str1 = dropWhile is_digit str;
                       str2 = (if str1 \<noteq> [] \<and> hd str1 = CHR ''.'' then dropWhile is_digit (tl str1) else str1)
                   in (ull, s32 (int (length str - length str1)), addon, digits, str2))
              | Some d \<Rightarrow>
                  (ull, s32 (int (length str) - int (length d)), addon, digits, dropWhile is_digit str))
      else if c = CHR ''.'' then
        (case dot of
           Some d \<Rightarrow> (ull, 0, False, digits, c # s)
         | None \<Rightarrow> rnd_loop (Some s) ull digits s)
      else
        (ull, case dot of None \<Rightarrow> 0 | Some d \<Rightarrow> s32 (int (length (c # s)) - int (length d)), False, digits, c # s))"

definition my_strntoull10rnd_8bit :: "string \<Rightarrow> bool \<Rightarrow> (nat \<times> my_errno \<times> string) option" where
  "my_strntoull10rnd_8bit nptr unsigned_flag =
     (let str = dropWhile (\<lambda>c. c = CHR '' '' \<or> c = CHR 0x09) nptr
      in if str = [] then Some (0, MY_ERRNO_EDOM, [])
         else
           (let negative = (hd str = CHR ''-'');
                beg = (if negative \<or> hd str = CHR ''+'' then tl str else str)
            in if beg = [] then Some (0, MY_ERRNO_EDOM, [])
               else
                 case read_digits 9 0 beg of
                   (ul, str, _) \<Rightarrow>
                     if str = [] then
                       Some (if negative then
                               if unsigned_flag then (0, if ul \<noteq> 0 then MY_ERRNO_ERANGE else MY_ERRNO_OK, [])
                               else (ulonglong_of (- int ul), MY_ERRNO_OK, [])
                             else (ul, MY_ERRNO_OK, []))
                     else
                       exp_part unsigned_flag negative beg
                         (rnd_loop None ul (length beg - length str) str)))"


lemma read_digits_numeral [simp]:
  "read_digits (numeral k) i [] = (i, [], False)"
  "read_digits (numeral k) i (c # s) =
     (if digit_of c > 9 then (i, c # s, True) else read_digits (pred_numeral k) (i * 10 + digit_of c) s)"
  by (simp_all add: numeral_eq_Suc)

lemma left_shift_numeral [simp]:
  "left_shift (numeral k) ull = (if ull > CUTOFF then None else left_shift (pred_numeral k) (u64 (ull * 10)))"
  by (simp add: numeral_eq_Suc)

section \<open>Rounding\<close>

text \<open>\<open>N * 10 ^ k\<close>, rounded half up.\<close>

definition rounded :: "nat \<Rightarrow> int \<Rightarrow> nat" where
  "rounded N k = (if 0 \<le> k then N * 10 ^ nat k else (N + 10 ^ nat (- k) div 2) div 10 ^ nat (- k))"

text \<open>The values just below 1 for which \<open>(ull % d) * 2\<close> exceeds 64 bits.\<close>

definition lost :: "nat \<Rightarrow> int \<Rightarrow> bool" where
  "lost N k \<longleftrightarrow> k \<le> - 19 \<and> 2 ^ 63 * 10 ^ nat (- k) \<le> N * 10 ^ 19 \<and> N < 10 ^ nat (- k)"

text \<open>
  The value and the error that the comment of \<open>my_strntoull10rnd_8bit\<close> promises for a number of magnitude
  \<open>v\<close>, and what the labels \<open>ret_sign\<close> and \<open>ret_too_big\<close> return: the same, except for a negative number in an
  unsigned column whose magnitude exceeds 64 bits.
\<close>

definition documented_value :: "bool \<Rightarrow> bool \<Rightarrow> nat \<Rightarrow> nat \<times> my_errno" where
  "documented_value unsigned_flag negative v =
     (if unsigned_flag then
        if negative \<and> v \<noteq> 0 then (0, MY_ERRNO_ERANGE)
        else if v \<ge> 2 ^ 64 then (2 ^ 64 - 1, MY_ERRNO_ERANGE)
        else (v, MY_ERRNO_OK)
      else
        (case clip (- (2 ^ 63)) (2 ^ 63 - 1) (signed_value negative v) of
           (x, e) \<Rightarrow> (ulonglong_of x, if e = NO_ERROR then MY_ERRNO_OK else MY_ERRNO_ERANGE)))"

definition negative_overflow :: "bool \<Rightarrow> bool \<Rightarrow> nat \<Rightarrow> bool" where
  "negative_overflow unsigned_flag negative v \<longleftrightarrow> unsigned_flag \<and> negative \<and> 2 ^ 64 \<le> v"

definition rnd_value :: "bool \<Rightarrow> bool \<Rightarrow> nat \<Rightarrow> nat \<times> my_errno" where
  "rnd_value unsigned_flag negative v =
     (if negative_overflow unsigned_flag negative v then (2 ^ 64 - 1, MY_ERRNO_ERANGE)
      else documented_value unsigned_flag negative v)"

lemmas rnd_value_defs = rnd_value_def documented_value_def negative_overflow_def

definition with_rest :: "nat \<times> my_errno \<Rightarrow> string \<Rightarrow> nat \<times> my_errno \<times> string" where
  "with_rest r str = (fst r, snd r, str)"

lemma ret_value:
  "v \<le> ULONGLONG_MAX \<Longrightarrow> ret_sign u neg v str = with_rest (rnd_value u neg v) str"
  "v > ULONGLONG_MAX \<Longrightarrow> ret_too_big u neg str = with_rest (rnd_value u neg v) str"
  by (auto simp: ret_sign_def ret_too_big_def with_rest_def rnd_value_defs clip_def signed_value_def
      ULONGLONG_MAX_def LONGLONG_MAX_def ulonglong_of_s64 ulonglong_of_nonneg)
    (simp_all add: ulonglong_of_def)

lemma left_shift_spec:
  "ull \<le> ULONGLONG_MAX \<Longrightarrow> left_shift n ull = (if ull * 10 ^ n \<le> ULONGLONG_MAX then Some (ull * 10 ^ n) else None)"
proof (induction n arbitrary: ull)
  case (Suc n)
  show ?case
  proof (cases "ull > CUTOFF")
    case True
    then have "ull * 10 > ULONGLONG_MAX" by (simp add: CUTOFF_def ULONGLONG_MAX_def)
    moreover have "ull * 10 \<le> ull * 10 ^ Suc n" by simp
    ultimately have "\<not> ull * 10 ^ Suc n \<le> ULONGLONG_MAX" by linarith
    then show ?thesis using True by simp
  next
    case False
    then have "ull * 10 \<le> ULONGLONG_MAX" by (simp add: CUTOFF_def ULONGLONG_MAX_def)
    moreover have "u64 (ull * 10) = ull * 10" using calculation by (simp add: ULONGLONG_MAX_def)
    ultimately show ?thesis using False Suc.IH [of "ull * 10"] by (simp add: mult.assoc)
  qed
qed simp

lemma d10_nth: "n < 20 \<Longrightarrow> d10 ! n = 10 ^ n"
proof -
  have "d10 = map (\<lambda>n. 10 ^ n) [0..<20]" by (simp add: d10_def upt_rec)
  then show "d10 ! n = 10 ^ n" if "n < 20"
    using nth_map_upt [of n 20 0 "\<lambda>n. 10 ^ n :: nat"] that by (simp only: diff_zero add_0 simp_thms)
qed

lemma round_div:
  assumes "even d" "0 < d"
  shows "(n + d div 2) div d = (if d \<le> n mod d * 2 then n div d + 1 else n div (d :: nat))"
proof -
  obtain h where h: "d = 2 * h" using assms(1) by blast
  have "(n + h) div d = n div d + (n mod d + h) div d"
    using div_mult_self3 [of d "n div d" "n mod d + h"] assms(2) by (simp flip: add.assoc)
  moreover have "(n mod d + h) div d = (if d \<le> n mod d * 2 then 1 else 0)"
  proof -
    have "n mod d < d" using assms(2) by simp
    then show ?thesis using h by (auto simp: div_eq_0_iff div_nat_eqI)
  qed
  ultimately show ?thesis using h by simp
qed

lemma rounded_le:
  assumes "1 \<le> t"
  shows "rounded N (- int t) \<le> N div 10 + 1"
proof -
  have ten: "(10 :: nat) \<le> 10 ^ t" using power_increasing [OF assms, of "10 :: nat"] by simp
  then have "N div 10 ^ t \<le> N div 10" by (intro div_le_mono2) simp_all
  then show ?thesis
    using assms round_div [of "10 ^ t" N] by (simp add: rounded_def)
qed

lemma right_shift_spec:
  assumes "ull \<le> ULONGLONG_MAX" "1 \<le> t" "t < 20"
  shows "(if u64 (ull mod 10 ^ t * 2) \<ge> 10 ^ t then ull div 10 ^ t + 1 else ull div 10 ^ t) =
    (if lost ull (- int t) then 0 else rounded ull (- int t))"
proof -
  have even: "even (10 ^ t :: nat)" using assms(2) by simp
  have r: "rounded ull (- int t) = (if 10 ^ t \<le> ull mod 10 ^ t * 2 then ull div 10 ^ t + 1 else ull div 10 ^ t)"
    using assms(2) round_div [OF even, of ull] by (simp add: rounded_def)
  show ?thesis
  proof (cases "ull mod 10 ^ t * 2 < 2 ^ 64")
    case True
    have "\<not> lost ull (- int t)"
    proof
      assume l: "lost ull (- int t)"
      then have "t = 19" using assms(3) by (simp add: lost_def)
      then show False using l True by (simp add: lost_def)
    qed
    then show ?thesis using r True by simp
  next
    case False
    have "t = 19"
    proof (rule ccontr)
      assume "t \<noteq> 19"
      then have "(10 :: nat) ^ t \<le> 10 ^ 18" using assms(3) by (intro power_increasing) auto
      moreover have "ull mod 10 ^ t < 10 ^ t" by simp
      ultimately have "ull mod 10 ^ t < 10 ^ 18" by linarith
      then show False using False by simp
    qed
    moreover have "ull < 10 ^ 19"
    proof (rule ccontr)
      assume "\<not> ull < 10 ^ 19"
      then have "ull mod 10 ^ 19 = ull - 10 ^ 19" using assms(1) by (simp add: ULONGLONG_MAX_def mod_if)
      then show False using False \<open>t = 19\<close> assms(1) by (simp add: ULONGLONG_MAX_def)
    qed
    ultimately show ?thesis using False by (simp add: lost_def u64_def mod_if) linarith
  qed
qed

lemma apply_exact:
  assumes "N \<le> ULONGLONG_MAX"
  shows "apply_shift u neg N k False str = with_rest (rnd_value u neg (if lost N k then 0 else rounded N k)) str"
proof -
  consider "k = 0" | "k < 0" "- k \<ge> 20" | "k < 0" "- k < 20" | "k > 20" | "0 < k" "k \<le> 20" by linarith
  then show ?thesis
  proof cases
    case 1
    then show ?thesis using assms ret_value(1) by (simp add: apply_shift_def lost_def rounded_def)
  next
    case 2
    define t where "t = nat (- k)"
    have t: "20 \<le> t" "k = - int t" using 2 by (simp_all add: t_def)
    have big: "(10 :: nat) ^ 20 \<le> 10 ^ t" using t(1) by (intro power_increasing) auto
    have "N < 10 ^ t - 10 ^ t div 2" using big assms by (simp add: ULONGLONG_MAX_def)
    then have "rounded N k = 0" using t by (simp add: rounded_def div_eq_0_iff)
    moreover have "\<not> lost N k"
    proof
      assume "lost N k"
      then have "2 ^ 63 * 10 ^ t \<le> N * 10 ^ 19" using t by (simp add: lost_def)
      then show False using big assms by (simp add: ULONGLONG_MAX_def)
    qed
    ultimately show ?thesis using 2 
      by (simp add: apply_shift_def DIGITS_IN_ULONGLONG_def with_rest_def rnd_value_defs clip_def signed_value_def ulonglong_of_def)
  next
    case 3
    define t where "t = nat (- k)"
    have t: "1 \<le> t" "t < 20" "k = - int t" using 3 by (simp_all add: t_def)
    have le: "(if lost N k then 0 else rounded N k) \<le> ULONGLONG_MAX"
      using rounded_le [OF t(1), of N] assms t unfolding ULONGLONG_MAX_def t(3) by (cases "lost N (- int t)") (simp_all, linarith?)
    have "apply_shift u neg N k False str =
      ret_sign u neg (if u64 (N mod 10 ^ t * 2) \<ge> 10 ^ t then N div 10 ^ t + 1 else N div 10 ^ t) str"
      using t by (simp add: apply_shift_def DIGITS_IN_ULONGLONG_def Let_def d10_nth)
    then show ?thesis unfolding right_shift_spec [OF assms t(1,2)] t(3) [symmetric] ret_value(1) [OF le] .
  next
    case 4
    have "ULONGLONG_MAX < rounded N k" if "N \<noteq> 0"
    proof -
      have "(10 :: nat) ^ 20 \<le> 10 ^ nat k" using 4 by (intro power_increasing) auto
      also have "\<dots> \<le> N * 10 ^ nat k" using that by simp
      finally show ?thesis using 4 by (simp add: rounded_def ULONGLONG_MAX_def)
    qed
    moreover have "rounded N k = 0" if "N = 0" using 4 that by (simp add: rounded_def)
    moreover have "\<not> lost N k" using 4 by (simp add: lost_def)
    ultimately show ?thesis using 4 assms ret_value(1) [of 0] ret_value(2)
      by (simp add: apply_shift_def DIGITS_IN_ULONGLONG_def)
  next
    case 5
    have "\<not> lost N k" "rounded N k = N * 10 ^ nat k" using 5 by (simp_all add: lost_def rounded_def)
    then show ?thesis using 5 left_shift_spec [OF assms, of "nat k"] ret_value(1) [of "N * 10 ^ nat k"] ret_value(2) [of "N * 10 ^ nat k"]
      by (simp add: apply_shift_def DIGITS_IN_ULONGLONG_def not_le)
  qed
qed

section \<open>Digits that do not fit\<close>

lemma rounded_neg: "1 \<le> t \<Longrightarrow> rounded N (- int t) = (N + 10 ^ t div 2) div 10 ^ t"
  by (simp add: rounded_def)

lemma rounded_drop:
  assumes "1 \<le> t"
  shows "rounded N (- int (m + t)) = rounded (N div 10 ^ m) (- int t)"
proof -
  obtain j where t: "t = Suc j" using assms by (cases t) auto
  have half: "(10 :: nat) ^ (m + t) div 2 = 10 ^ m * (10 ^ t div 2)" unfolding t by (simp add: power_add)
  have "(N + 10 ^ (m + t) div 2) div 10 ^ (m + t) = (N + 10 ^ m * (10 ^ t div 2)) div 10 ^ m div 10 ^ t"
    unfolding half unfolding power_add by (rule div_mult2_eq)
  also have "\<dots> = (N div 10 ^ m + 10 ^ t div 2) div 10 ^ t" by (simp add: add.commute)
  finally show ?thesis using rounded_neg [of "m + t" N] rounded_neg [OF assms, of "N div 10 ^ m"] assms by (simp only: trans_le_add2)
qed

lemma not_lost:
  assumes "1 \<le> N div 10 ^ m" "- int m \<le> k"
  shows "\<not> lost N k"
proof
  assume l: "lost N k"
  then have "nat (- k) \<le> m" using assms(2) by simp
  then have "(10 :: nat) ^ nat (- k) \<le> 10 ^ m" by (intro power_increasing) auto
  moreover have "N < 10 ^ nat (- k)" using l by (simp add: lost_def)
  ultimately have "N < 10 ^ m" by linarith
  then show False using assms(1) by simp
qed

lemma lost_drop:
  assumes "CUTOFF < N div 10 ^ m"
  shows "lost N (- int (m + t)) \<longleftrightarrow> lost (N div 10 ^ m) (- int t)"
proof -
  have lt: "N < 10 ^ (m + t) \<longleftrightarrow> N div 10 ^ m < 10 ^ t"
    by (simp add: div_less_iff_less_mult power_add mult.commute)
  show ?thesis
  proof (cases "t < 19")
    case True
    then have "(10 :: nat) ^ t \<le> 10 ^ 18" by (intro power_increasing) auto
    then have "\<not> N div 10 ^ m < 10 ^ t" using assms by (simp add: CUTOFF_def ULONGLONG_MAX_def)
    then have "\<not> N < 10 ^ (m + t)" using lt by blast
    moreover have "nat (- (- int (m + t))) = m + t" "nat (- (- int t)) = t" by simp_all
    ultimately show ?thesis using True unfolding lost_def by simp
  next
    case False
    then obtain j where t: "t = 19 + j" using le_Suc_ex by (metis not_less)
    define p :: nat where "p = 10 ^ 19"
    have p: "0 < p" by (simp add: p_def)
    have e: "10 ^ (m + t) = 10 ^ m * 10 ^ j * p" "10 ^ t = 10 ^ j * p" unfolding t p_def power_add by simp_all
    have "2 ^ 63 * 10 ^ (m + t) \<le> N * p \<longleftrightarrow> 2 ^ 63 * 10 ^ j * 10 ^ m \<le> N"
      using p mult_le_cancel2 [of "2 ^ 63 * 10 ^ j * 10 ^ m" p N] unfolding e by (simp add: mult.commute mult.left_commute)
    also have "\<dots> \<longleftrightarrow> 2 ^ 63 * 10 ^ j \<le> N div 10 ^ m" by (simp add: less_eq_div_iff_mult_less_eq)
    also have "\<dots> \<longleftrightarrow> 2 ^ 63 * 10 ^ t \<le> N div 10 ^ m * p"
      using p mult_le_cancel2 [of "2 ^ 63 * 10 ^ j" p "N div 10 ^ m"] unfolding e by (simp add: mult.assoc)
    finally have ge: "2 ^ 63 * 10 ^ (m + t) \<le> N * p \<longleftrightarrow> 2 ^ 63 * 10 ^ t \<le> N div 10 ^ m * p" .
    have "nat (- (- int (m + t))) = m + t" "nat (- (- int t)) = t" "- int (m + t) \<le> - 19" "- int t \<le> - 19"
      using t by simp_all
    then show ?thesis using ge lt unfolding lost_def p_def by simp
  qed
qed

lemma rounded_too_big:
  assumes "CUTOFF < N div 10 ^ m" "1 \<le> s"
  shows "ULONGLONG_MAX < rounded N (int s - int m)"
proof -
  define q where "q = N div 10 ^ m"
  have q: "q * 10 ^ m \<le> N" by (simp add: q_def)
  have "(10 :: nat) ^ 1 \<le> 10 ^ s" using assms(2) by (intro power_increasing) auto
  then have "q * 10 \<le> q * 10 ^ s" by simp
  moreover have "ULONGLONG_MAX < q * 10" using assms(1) by (simp add: q_def CUTOFF_def ULONGLONG_MAX_def)
  moreover have "q * 10 ^ s \<le> rounded N (int s - int m)"
  proof (cases "m \<le> s")
    case True
    then obtain j where j: "s = m + j" using le_Suc_ex by blast
    have "q * 10 ^ m * 10 ^ j \<le> N * 10 ^ j" using q by (rule mult_le_mono1)
    then show ?thesis using j by (simp add: rounded_def power_add mult.assoc)
  next
    case False
    then obtain j where j: "m = s + j" using le_Suc_ex by (metis nat_le_linear)
    have "q * 10 ^ s * 10 ^ j \<le> N" using q by (simp add: j power_add mult.assoc)
    then have "q * 10 ^ s \<le> N div 10 ^ j" by (simp add: less_eq_div_iff_mult_less_eq)
    also have "\<dots> \<le> (N + 10 ^ j div 2) div 10 ^ j" by (rule div_le_mono) simp
    finally show ?thesis using j False by (simp add: rounded_def)
  qed
  ultimately show ?thesis by linarith
qed

lemma rounded_max:
  assumes "ULONGLONG_MAX < q" "q \<le> ULONGLONG_MAX + 4" "1 \<le> t"
  shows "rounded q (- int t) = rounded ULONGLONG_MAX (- int t)"
proof -
  obtain j where t: "t = Suc j" using assms(3) by (cases t) auto
  have "(q + 5 * 10 ^ j) div 10 = (ULONGLONG_MAX + 5 * 10 ^ j) div 10"
  proof (cases j)
    case 0
    then show ?thesis using assms(1,2) by (simp add: ULONGLONG_MAX_def)
  next
    case (Suc i)
    have "q div 10 = ULONGLONG_MAX div 10" using assms(1,2) by (simp add: ULONGLONG_MAX_def)
    then show ?thesis using Suc div_mult_self2 [of 10 q "5 * 10 ^ i"] div_mult_self2 [of 10 ULONGLONG_MAX "5 * 10 ^ i"]
      by (simp add: mult.assoc mult.left_commute)
  qed
  moreover have "(n + 10 ^ t div 2) div 10 ^ t = (n + 5 * 10 ^ j) div 10 div 10 ^ j" for n :: nat
    unfolding t by (simp add: div_mult2_eq)
  ultimately show ?thesis using assms(3) by (simp add: rounded_def)
qed

lemma not_lost_max:
  assumes "ULONGLONG_MAX \<le> q" "q \<le> ULONGLONG_MAX + 4"
  shows "\<not> lost q (- int t)"
proof
  assume l: "lost q (- int t)"
  have "t \<noteq> 19" using l assms by (auto simp: lost_def ULONGLONG_MAX_def)
  then have "20 \<le> t" using l by (simp add: lost_def)
  then have "(10 :: nat) ^ 20 \<le> 10 ^ t" by (intro power_increasing) auto
  then have "2 ^ 63 * 10 ^ 20 \<le> 2 ^ 63 * (10 :: nat) ^ t" by simp
  also have "\<dots> \<le> q * 10 ^ 19" using l by (simp add: lost_def)
  finally show False using assms by (simp add: ULONGLONG_MAX_def)
qed

text \<open>
  What the accumulation loop leaves for the digits \<open>N\<close> with \<open>F\<close> of them behind the period: \<open>m\<close> digits
  are dropped.
\<close>

definition scaled :: "nat \<Rightarrow> nat \<Rightarrow> nat \<Rightarrow> int \<Rightarrow> bool \<Rightarrow> bool" where
  "scaled N F ull shift addon \<longleftrightarrow>
     (\<exists>m. shift = int m - int F \<and>
       (m = 0 \<and> ull = N \<and> N \<le> ULONGLONG_MAX \<and> \<not> addon \<or>
        1 \<le> m \<and> CUTOFF < ull \<and> ull \<le> ULONGLONG_MAX \<and> N div 10 ^ m = ull \<and> (addon \<longleftrightarrow> 10 ^ m \<le> N mod 10 ^ m * 2) \<or>
        ull = ULONGLONG_MAX \<and> ULONGLONG_MAX < N div 10 ^ m \<and> N div 10 ^ m \<le> ULONGLONG_MAX + 4 \<and> addon))"

lemma apply_addon: "k \<noteq> 0 \<Longrightarrow> apply_shift u neg ull k addon str = apply_shift u neg ull k False str"
  by (simp add: apply_shift_def)

lemma apply_too_big:
  "0 < k \<Longrightarrow> CUTOFF < ull \<Longrightarrow> apply_shift u neg ull k addon str = ret_too_big u neg str"
  by (cases "nat k") (auto simp: apply_shift_def)

lemma apply_dropped:
  assumes "CUTOFF < N div 10 ^ m" "CUTOFF < ull" "ull \<le> ULONGLONG_MAX"
    "\<And>t. 1 \<le> t \<Longrightarrow> rounded (N div 10 ^ m) (- int t) = rounded ull (- int t) \<and>
       lost (N div 10 ^ m) (- int t) = lost ull (- int t)"
    "apply_shift u neg ull 0 addon str = with_rest (rnd_value u neg (rounded N (- int m))) str"
  shows "apply_shift u neg ull (int m + k) addon str = with_rest (rnd_value u neg (if lost N k then 0 else rounded N k)) str"
proof -
  have pos: "1 \<le> N div 10 ^ m" using assms(1) by simp
  consider "int m + k = 0" | "int m + k > 0" | "int m + k < 0" by linarith
  then show ?thesis
  proof cases
    case 1
    then have "k = - int m" by simp
    then show ?thesis using assms(5) not_lost [OF pos, of k] by simp
  next
    case 2
    define s where "s = nat (int m + k)"
    have k: "k = int s - int m" "1 \<le> s" using 2 by (simp_all add: s_def)
    have "\<not> lost N k" using not_lost [OF pos, of k] k by simp
    then show ?thesis
      using apply_too_big [OF 2 assms(2)] ret_value(2) [OF rounded_too_big [OF assms(1) k(2)]] k by simp
  next
    case 3
    define t where "t = nat (- (int m + k))"
    have k: "k = - int (m + t)" "int m + k = - int t" "1 \<le> t" using 3 by (simp_all add: t_def)
    have "apply_shift u neg ull (- int t) addon str =
      with_rest (rnd_value u neg (if lost ull (- int t) then 0 else rounded ull (- int t))) str"
      using apply_addon [of "- int t" u neg ull addon str] k(3) by (simp only: apply_exact [OF assms(3)])
    then show ?thesis
      unfolding k(2) unfolding k(1) lost_drop [OF assms(1)] rounded_drop [OF k(3)] using assms(4) [OF k(3)] by simp
  qed
qed

lemma apply_scaled:
  assumes "scaled N F ull shift addon"
  shows "apply_shift u neg ull (shift + e) addon str =
    with_rest (rnd_value u neg (if lost N (e - int F) then 0 else rounded N (e - int F))) str"
proof -
  obtain m where m: "shift = int m - int F" and cases:
    "m = 0 \<and> ull = N \<and> N \<le> ULONGLONG_MAX \<and> \<not> addon \<or>
     1 \<le> m \<and> CUTOFF < ull \<and> ull \<le> ULONGLONG_MAX \<and> N div 10 ^ m = ull \<and> (addon \<longleftrightarrow> 10 ^ m \<le> N mod 10 ^ m * 2) \<or>
     ull = ULONGLONG_MAX \<and> ULONGLONG_MAX < N div 10 ^ m \<and> N div 10 ^ m \<le> ULONGLONG_MAX + 4 \<and> addon"
    using assms by (auto simp: scaled_def)
  have sh: "shift + e = int m + (e - int F)" using m by simp
  have cut: "CUTOFF < ULONGLONG_MAX" by (simp add: CUTOFF_def ULONGLONG_MAX_def)
  show ?thesis unfolding sh
    using cases
  proof (elim disjE conjE)
    assume "m = 0" "ull = N" "N \<le> ULONGLONG_MAX" "\<not> addon"
    then show "apply_shift u neg ull (int m + (e - int F)) addon str =
      with_rest (rnd_value u neg (if lost N (e - int F) then 0 else rounded N (e - int F))) str"
      using apply_exact [of N] by simp
  next
    assume n: "1 \<le> m" "CUTOFF < ull" "ull \<le> ULONGLONG_MAX" "N div 10 ^ m = ull" "addon \<longleftrightarrow> 10 ^ m \<le> N mod 10 ^ m * 2"
    have r: "rounded N (- int m) = (if addon then ull + 1 else ull)"
      using round_div [of "10 ^ m" N] n by (simp add: rounded_def)
    have "apply_shift u neg ull 0 addon str = with_rest (rnd_value u neg (rounded N (- int m))) str"
      unfolding r using n(3) ret_value by (auto simp: apply_shift_def)
    then show "apply_shift u neg ull (int m + (e - int F)) addon str =
      with_rest (rnd_value u neg (if lost N (e - int F) then 0 else rounded N (e - int F))) str"
      using n by (intro apply_dropped) simp_all
  next
    assume n: "ull = ULONGLONG_MAX" "ULONGLONG_MAX < N div 10 ^ m" "N div 10 ^ m \<le> ULONGLONG_MAX + 4" addon
    have "N div 10 ^ m \<le> rounded N (- int m)" by (auto simp: rounded_def intro: div_le_mono)
    then have "ULONGLONG_MAX < rounded N (- int m)" using n(2) by linarith
    then have "apply_shift u neg ull 0 addon str = with_rest (rnd_value u neg (rounded N (- int m))) str"
      using n ret_value(2) by (simp add: apply_shift_def)
    then show "apply_shift u neg ull (int m + (e - int F)) addon str =
      with_rest (rnd_value u neg (if lost N (e - int F) then 0 else rounded N (e - int F))) str"
      using n cut rounded_max [OF n(2,3)] not_lost_max [of "N div 10 ^ m"] not_lost_max [of ULONGLONG_MAX]
      by (intro apply_dropped) simp_all
  qed
qed

section \<open>The loops\<close>

lemma scaled_overflow:
  assumes "list_all is_digit (f # fs)" "ull \<le> ULONGLONG_MAX" "\<not> (ull < CUTOFF \<or> ull = CUTOFF \<and> digit_of f \<le> CUTLIM)"
  shows "ull = CUTOFF \<Longrightarrow> scaled (dec_from ull (f # fs)) F ULONGLONG_MAX (int (length fs) - int F) True"
    "ull \<noteq> CUTOFF \<Longrightarrow> scaled (dec_from ull (f # fs)) F ull (int (length (f # fs)) - int F) (digit_of f \<ge> 5)"
proof -
  have low: "dec_val fs < 10 ^ length fs" "digit_of f \<le> 9" using assms(1) dec_val_bound by simp_all
  have lowf: "dec_val (f # fs) < 10 ^ length (f # fs)" using assms(1) dec_val_bound by blast
  show "scaled (dec_from ull (f # fs)) F ULONGLONG_MAX (int (length fs) - int F) True" if "ull = CUTOFF"
  proof -
    have N: "dec_from ull (f # fs) = (ull * 10 + digit_of f) * 10 ^ length fs + dec_val fs"
      using dec_from_shift [of "ull * 10 + digit_of f" fs] by simp
    have "dec_from ull (f # fs) div 10 ^ length fs = ull * 10 + digit_of f" unfolding N using low(1) by simp
    moreover have "ULONGLONG_MAX < ull * 10 + digit_of f" "ull * 10 + digit_of f \<le> ULONGLONG_MAX + 4"
      using that assms(3) low(2) by (simp_all add: CUTOFF_def CUTLIM_def ULONGLONG_MAX_def)
    ultimately show ?thesis unfolding scaled_def by (intro exI [of _ "length fs"]) simp
  qed
  show "scaled (dec_from ull (f # fs)) F ull (int (length (f # fs)) - int F) (digit_of f \<ge> 5)" if "ull \<noteq> CUTOFF"
  proof -
    define m where "m = length (f # fs)"
    have N: "dec_from ull (f # fs) = ull * 10 ^ m + dec_val (f # fs)"
      using dec_from_shift [of ull "f # fs"] unfolding m_def .
    have "dec_from ull (f # fs) div 10 ^ m = ull" "dec_from ull (f # fs) mod 10 ^ m = dec_val (f # fs)"
      unfolding N using lowf unfolding m_def [symmetric] by (simp_all del: dec_from_simps)
    moreover have "5 \<le> digit_of f \<longleftrightarrow> 10 ^ m \<le> dec_val (f # fs) * 2"
    proof -
      have v: "dec_val (f # fs) = digit_of f * 10 ^ length fs + dec_val fs"
        using dec_from_shift [of "digit_of f" fs] by simp
      have m: "(10 :: nat) ^ m = 10 * 10 ^ length fs" by (simp add: m_def)
      show ?thesis
      proof (cases "5 \<le> digit_of f")
        case True
        then have "5 * 10 ^ length fs \<le> digit_of f * 10 ^ length fs" by (intro mult_le_mono1)
        then have "10 ^ m \<le> dec_val (f # fs) * 2" unfolding v m by (simp only: add_mult_distrib)
        then show ?thesis using True by blast
      next
        case False
        then have "digit_of f * 10 ^ length fs \<le> 4 * 10 ^ length fs" by (intro mult_le_mono1) simp
        then have "dec_val (f # fs) * 2 < 10 ^ m" unfolding v m using low(1) by (simp only: add_mult_distrib)
        then show ?thesis using False by linarith
      qed
    qed
    ultimately show ?thesis using that assms(2,3) unfolding scaled_def m_def [symmetric]
      by (intro exI [of _ m]) (simp add: m_def)
  qed
qed

lemma scaled_exact: "N \<le> ULONGLONG_MAX \<Longrightarrow> scaled N F N (- int F) False"
  by (auto simp: scaled_def)

lemma accumulate_fits:
  "ull < CUTOFF \<or> ull = CUTOFF \<and> digit_of c \<le> CUTLIM \<Longrightarrow> is_digit c \<Longrightarrow> ull * 10 + digit_of c \<le> ULONGLONG_MAX"
  by (auto simp: CUTOFF_def CUTLIM_def ULONGLONG_MAX_def)

abbreviation ends_number :: "string \<Rightarrow> bool" where
  "ends_number rest \<equiv> rest = [] \<or> \<not> is_digit (hd rest) \<and> hd rest \<noteq> CHR ''.''"

lemma dropWhile_digits: "list_all is_digit ds \<Longrightarrow> stops rest \<Longrightarrow> dropWhile is_digit (ds @ rest) = rest"
  by (induction ds) (auto, cases rest, auto)

lemma loop_after_dot:
  assumes "list_all is_digit fs" "ends_number rest" "length d = c + length fs + length rest" "length d < 2 ^ 31" "ull \<le> ULONGLONG_MAX"
    "0 < dg \<or> fs \<noteq> [] \<and> ull = 0"
  shows "\<exists>u sh ad n. rnd_loop (Some d) ull dg (fs @ rest) = (u, sh, ad, n, rest) \<and> 0 < n \<and>
    scaled (dec_from ull fs) (c + length fs) u sh ad"
  using assms
proof (induction fs arbitrary: c ull dg)
  case Nil
  have "rnd_loop (Some d) ull dg rest = (ull, - int c, False, dg, rest)"
    using Nil.prems by (cases rest) (auto simp: s32_id)
  then show ?case using Nil.prems scaled_exact [of ull c] by auto
next
  case (Cons f fs)
  show ?case
  proof (cases "ull < CUTOFF \<or> ull = CUTOFF \<and> digit_of f \<le> CUTLIM")
    case True
    then show ?thesis
      using Cons.IH [of "c + 1" "ull * 10 + digit_of f" "dg + 1"] Cons.prems accumulate_fits [OF True] by simp
  next
    case False
    then have dg: "0 < dg" using Cons.prems(6) by (auto simp: CUTOFF_def ULONGLONG_MAX_def)
    have drop: "dropWhile is_digit (fs @ rest) = rest" using Cons.prems dropWhile_digits [of fs rest] by auto
    have sh: "s32 (int (length (fs @ rest)) - int (length d)) = int (length fs) - int (c + length (f # fs))"
      "s32 (int (length (f # fs @ rest)) - int (length d)) = int (length (f # fs)) - int (c + length (f # fs))"
      using Cons.prems(3,4) by (simp_all add: s32_id)
    show ?thesis
    proof (cases "ull = CUTOFF")
      case eq: True
      then show ?thesis
        using False Cons.prems(1) drop dg sh(1) scaled_overflow(1) [OF Cons.prems(1,5) False eq, of "c + length (f # fs)"] by auto
    next
      case ne: False
      then show ?thesis
        using False Cons.prems(1) drop dg sh(2) scaled_overflow(2) [OF Cons.prems(1,5) False ne, of "c + length (f # fs)"] by auto
    qed
  qed
qed

text \<open>The text behind the integer part: a period with the fraction, or neither.\<close>

definition fraction_text :: "bool \<Rightarrow> string \<Rightarrow> string" where
  "fraction_text dotted fp = (if dotted then CHR ''.'' # fp else [])"

lemma dot_not_digit [simp]: "\<not> is_digit (CHR ''.'')"
  by (simp add: digit_of_def)

lemma loop_before_dot:
  assumes "list_all is_digit is" "list_all is_digit fp" "\<not> dotted \<Longrightarrow> fp = []" "ends_number rest"
    "length (is @ fraction_text dotted fp @ rest) < 2 ^ 31" "ull \<le> ULONGLONG_MAX" "0 < dg \<or> is @ fp \<noteq> [] \<and> ull = 0"
  shows "\<exists>u sh ad n. rnd_loop None ull dg (is @ fraction_text dotted fp @ rest) = (u, sh, ad, n, rest) \<and> 0 < n \<and>
    scaled (dec_from ull (is @ fp)) (length fp) u sh ad"
  using assms(1,5,6,7)
proof (induction "is" arbitrary: ull dg)
  case Nil
  show ?case
  proof (cases dotted)
    case True
    then have "rnd_loop None ull dg ([] @ fraction_text dotted fp @ rest) = rnd_loop (Some (fp @ rest)) ull dg (fp @ rest)"
      by (simp add: fraction_text_def)
    then show ?thesis
      using loop_after_dot [of fp rest "fp @ rest" 0 ull dg] assms(2,4) Nil.prems True by (simp add: fraction_text_def)
  next
    case False
    then have "rnd_loop None ull dg ([] @ fraction_text dotted fp @ rest) = (ull, 0, False, dg, rest)"
      using assms(4) by (cases rest) (auto simp: fraction_text_def)
    then show ?thesis using Nil.prems assms(3) False scaled_exact [of ull 0] by auto
  qed
next
  case (Cons i "is")
  define tail where "tail = fraction_text dotted fp @ rest"
  show ?case
  proof (cases "ull < CUTOFF \<or> ull = CUTOFF \<and> digit_of i \<le> CUTLIM")
    case True
    then show ?thesis
      using Cons.IH [of "ull * 10 + digit_of i" "dg + 1"] Cons.prems accumulate_fits [OF True] by simp
  next
    case False
    then have dg: "0 < dg" using Cons.prems(4) by (auto simp: CUTOFF_def ULONGLONG_MAX_def)
    have digits: "list_all is_digit (i # is @ fp)" using Cons.prems(1) assms(2) by simp
    have drop: "dropWhile is_digit (is @ tail) = tail"
      using Cons.prems(1) assms(4) dropWhile_digits [of "is" tail] by (auto simp: tail_def fraction_text_def)
    have rest: "(if tail \<noteq> [] \<and> hd tail = CHR ''.'' then dropWhile is_digit (tl tail) else tail) = rest"
      using assms(2,4) dropWhile_digits [of fp rest] by (auto simp: tail_def fraction_text_def)
    have sh: "s32 (int (length is)) = int (length (is @ fp)) - int (length fp)"
      "s32 (int (Suc (length is))) = int (length (i # is @ fp)) - int (length fp)"
      using Cons.prems(2) by (simp_all add: s32_id)
    show ?thesis
    proof (cases "ull = CUTOFF")
      case eq: True
      then have "rnd_loop None ull dg ((i # is) @ tail) = (ULONGLONG_MAX, s32 (int (length is)), True, dg, rest)"
        using False Cons.prems(1) drop rest by (auto simp: Let_def simp del: dropWhile_eq_Nil_conv split: if_splits)
      then show ?thesis
        unfolding tail_def [symmetric] sh using dg scaled_overflow(1) [OF digits Cons.prems(3) False eq, of "length fp"] by auto
    next
      case ne: False
      then have "rnd_loop None ull dg ((i # is) @ tail) = (ull, s32 (int (Suc (length is))), digit_of i \<ge> 5, dg, rest)"
        using False Cons.prems(1) drop rest by (auto simp: Let_def simp del: dropWhile_eq_Nil_conv split: if_splits)
      then show ?thesis
        unfolding tail_def [symmetric] sh using dg scaled_overflow(2) [OF digits Cons.prems(3) False ne, of "length fp"] by auto
    qed
  qed
qed

lemma read_digits_loop:
  assumes "ul < 10 ^ k" "k + n \<le> 18" "read_digits n ul s = (ul', str, b)"
  shows "rnd_loop None ul dg s = rnd_loop None ul' (dg + (length s - length str)) str \<and> ul' < 10 ^ (k + n) \<and> length str \<le> length s"
  using assms
proof (induction n ul s arbitrary: k dg rule: read_digits.induct)
  case (3 n i c s)
  show ?case
  proof (cases "is_digit c")
    case True
    have "(10 :: nat) ^ k \<le> 10 ^ 18" using "3.prems"(2) by (intro power_increasing) auto
    then have "i < CUTOFF" using "3.prems"(1) by (simp add: CUTOFF_def ULONGLONG_MAX_def)
    moreover have "i * 10 + digit_of c < 10 ^ Suc k" using "3.prems"(1) True by simp
    ultimately show ?thesis
      using "3.IH" [of "Suc k" "dg + 1"] "3.prems"(2,3) True by (auto simp: Suc_diff_le)
  next
    case False
    have "(10 :: nat) ^ k \<le> 10 ^ (k + Suc n)" by (intro power_increasing) auto
    then show ?thesis using "3.prems" False by auto
  qed
next
  case (2 n i)
  have "(10 :: nat) ^ k \<le> 10 ^ (k + Suc n)" by (intro power_increasing) auto
  then show ?case using "2.prems" by auto
qed auto

lemma small_number:
  assumes "beg \<noteq> []" "read_digits 9 0 beg = (ul, str, b)"
  shows "(if str = [] then
            Some (if negative then
                    if u then (0, if ul \<noteq> 0 then MY_ERRNO_ERANGE else MY_ERRNO_OK, [])
                    else (ulonglong_of (- int ul), MY_ERRNO_OK, [])
                  else (ul, MY_ERRNO_OK, []))
          else exp_part u negative beg (rnd_loop None ul (length beg - length str) str)) =
    exp_part u negative beg (rnd_loop None 0 0 beg)"
proof -
  note r = read_digits_loop [of 0 0 9 beg ul str b 0, OF _ _ assms(2)]
  have "ret_sign u negative ul [] =
      (if negative then if u then (0, if ul \<noteq> 0 then MY_ERRNO_ERANGE else MY_ERRNO_OK, [])
         else (ulonglong_of (- int ul), MY_ERRNO_OK, [])
       else (ul, MY_ERRNO_OK, []))"
    using r by (auto simp: ret_sign_def ulonglong_of_s64 LONGLONG_MAX_def)
  then show ?thesis using r assms(1) by (auto simp: exp_part_def apply_shift_def)
qed

section \<open>The conversion\<close>

text \<open>The exponent \<open>e\<close> as text, and a decimal number as text.\<close>

definition exponent_text :: "string \<Rightarrow> int \<Rightarrow> bool" where
  "exponent_text ex e \<longleftrightarrow>
     ex = [] \<and> e = 0 \<or>
     (\<exists>c sg ds. ex = c # sg @ ds \<and> (c = CHR ''e'' \<or> c = CHR ''E'') \<and> ds \<noteq> [] \<and> list_all is_digit ds \<and>
       ((sg = [] \<or> sg = ''+'') \<and> e = int (dec_val ds) \<or> sg = ''-'' \<and> e = - int (dec_val ds)))"

definition decimal_text :: "string \<Rightarrow> bool \<Rightarrow> string \<Rightarrow> string \<Rightarrow> int \<Rightarrow> string \<Rightarrow> bool" where
  "decimal_text nptr negative ip fp e rest \<longleftrightarrow>
     (\<exists>sp sg dotted ex. nptr = sp @ sg @ ip @ fraction_text dotted fp @ ex @ rest \<and>
       list_all (\<lambda>c. c = CHR '' '' \<or> c = CHR 0x09) sp \<and>
       (if negative then sg = ''-'' else sg = [] \<or> sg = ''+'') \<and>
       list_all is_digit ip \<and> list_all is_digit fp \<and> ip @ fp \<noteq> [] \<and> (dotted \<or> fp = []) \<and> exponent_text ex e \<and>
       (rest = [] \<or> \<not> is_digit (hd rest) \<and> hd rest \<noteq> CHR ''.'' \<and> hd rest \<noteq> CHR ''e'' \<and> hd rest \<noteq> CHR ''E''))"

lemma exp_loop_spec:
  assumes "list_all is_digit ds" "stops rest" "dec_from v ds < 2 ^ 31"
  shows "exp_loop v (ds @ rest) = Some (dec_from v ds, rest)"
  using assms(1,3)
proof (induction ds arbitrary: v)
  case Nil
  then show ?case using assms(2) by (cases rest) auto
next
  case (Cons c ds)
  have "v * 10 + digit_of c \<le> dec_from (v * 10 + digit_of c) ds"
    using dec_from_shift [of "v * 10 + digit_of c" ds] by (simp add: trans_le_add1)
  then show ?case using Cons by simp
qed

lemma exp_part_spec:
  assumes "exponent_text ex e" "\<bar>e\<bar> < 2 ^ 30" "\<bar>shift\<bar> < 2 ^ 30" "0 < n"
    "rest = [] \<or> \<not> is_digit (hd rest) \<and> hd rest \<noteq> CHR ''.'' \<and> hd rest \<noteq> CHR ''e'' \<and> hd rest \<noteq> CHR ''E''"
  shows "exp_part u neg beg (ull, shift, addon, n, ex @ rest) = Some (apply_shift u neg ull (shift + e) addon rest)"
proof (cases "ex = []")
  case True
  then have "e = 0" using assms(1) by (simp add: exponent_text_def)
  then show ?thesis using assms(4,5) True by (auto simp: exp_part_def)
next
  case False
  then obtain c sg ds where ex: "ex = c # sg @ ds" "c = CHR ''e'' \<or> c = CHR ''E''" "ds \<noteq> []" "list_all is_digit ds"
    and sg: "(sg = [] \<or> sg = ''+'') \<and> e = int (dec_val ds) \<or> sg = ''-'' \<and> e = - int (dec_val ds)"
    using assms(1) unfolding exponent_text_def by blast
  have loop: "exp_loop 0 (ds @ rest) = Some (dec_val ds, rest)"
    using exp_loop_spec [of ds rest 0] ex(4) assms(2,5) sg by auto
  have hd: "hd (ds @ rest) \<noteq> CHR ''-''" "hd (ds @ rest) \<noteq> CHR ''+''"
    using ex(3,4) by (cases ds; auto simp: digit_of_def)+
  have ok: "int_ok (shift + e)" using assms(2,3) by (auto simp: int_ok_def)
  show ?thesis using sg
  proof (elim disjE conjE)
    assume "sg = []" "e = int (dec_val ds)"
    then show ?thesis using ex loop hd ok assms(4) by (auto simp: exp_part_def Let_def)
  next
    assume "sg = ''+''" "e = int (dec_val ds)"
    then show ?thesis using ex loop hd ok assms(4) by (auto simp: exp_part_def Let_def)
  next
    assume "sg = ''-''" "e = - int (dec_val ds)"
    then show ?thesis using ex loop hd ok assms(4) by (auto simp: exp_part_def Let_def)
  qed
qed

lemma scaled_shift_bound:
  assumes "scaled N F ull shift addon" "N < 10 ^ D" "F \<le> D"
  shows "\<bar>shift\<bar> \<le> int D"
proof -
  obtain m where m: "shift = int m - int F" "m = 0 \<or> 1 \<le> N div 10 ^ m"
    using assms(1) by (auto simp: scaled_def CUTOFF_def ULONGLONG_MAX_def)
  have "m \<le> D"
  proof (rule ccontr)
    assume "\<not> m \<le> D"
    then have "(10 :: nat) ^ D \<le> 10 ^ m" by (intro power_increasing) auto
    then have "N < 10 ^ m" using assms(2) by linarith
    then show False using m(2) \<open>\<not> m \<le> D\<close> by simp
  qed
  then show ?thesis using m(1) assms(3) by linarith
qed

lemma decimal_start:
  assumes "list_all is_digit ip" "list_all is_digit fp" "ip @ fp \<noteq> []" "dotted \<or> fp = []" "ip @ fraction_text dotted fp @ r = beg"
  shows "beg \<noteq> []" "hd beg \<noteq> CHR '' ''" "hd beg \<noteq> CHR 0x09" "hd beg \<noteq> CHR ''-''" "hd beg \<noteq> CHR ''+''"
proof -
  show ne: "beg \<noteq> []" using assms by (auto simp: fraction_text_def)
  have "hd beg = CHR ''.'' \<or> is_digit (hd beg)"
    using assms by (cases ip) (auto simp: fraction_text_def)
  then show "hd beg \<noteq> CHR '' ''" "hd beg \<noteq> CHR 0x09" "hd beg \<noteq> CHR ''-''" "hd beg \<noteq> CHR ''+''"
    by (auto simp: digit_of_def)
qed

lemma strntoull10rnd_start:
  assumes "list_all (\<lambda>c. c = CHR '' '' \<or> c = CHR 0x09) sp" "if negative then sg = ''-'' else sg = [] \<or> sg = ''+''"
    "beg \<noteq> []" "hd beg \<noteq> CHR '' ''" "hd beg \<noteq> CHR 0x09" "hd beg \<noteq> CHR ''-''" "hd beg \<noteq> CHR ''+''"
  shows "my_strntoull10rnd_8bit (sp @ sg @ beg) u = exp_part u negative beg (rnd_loop None 0 0 beg)"
proof -
  obtain ul str b where r: "read_digits 9 0 beg = (ul, str, b)" by (cases "read_digits 9 0 beg") auto
  define blank where "blank = (\<lambda>c. c = CHR '' '' \<or> c = CHR 0x09)"
  have "sg @ beg \<noteq> [] \<and> \<not> blank (hd (sg @ beg))"
    using assms(2-5) by (cases "sg = []") (auto simp: blank_def split: if_splits)
  then have "dropWhile blank (sg @ beg) = sg @ beg" by (cases "sg @ beg") auto
  moreover have "dropWhile blank (sp @ sg @ beg) = dropWhile blank (sg @ beg)"
    using assms(1) by (intro dropWhile_append2) (simp add: list_all_iff blank_def)
  ultimately have skip: "dropWhile blank (sp @ sg @ beg) = sg @ beg" by simp
  show ?thesis
    unfolding my_strntoull10rnd_8bit_def blank_def [symmetric] skip Let_def
    using assms(2,3,6,7) r small_number [OF assms(3) r, of negative u] by (cases "sg = []") (auto split: if_splits)
qed

lemma strntoull10rnd_value:
  assumes "decimal_text nptr negative ip fp e rest" "length nptr < 2 ^ 30" "\<bar>e\<bar> < 2 ^ 30"
  shows "my_strntoull10rnd_8bit nptr u =
    Some (with_rest (rnd_value u negative
      (if lost (dec_val (ip @ fp)) (e - int (length fp)) then 0 else rounded (dec_val (ip @ fp)) (e - int (length fp)))) rest)"
proof -
  obtain sp sg dotted ex where t: "nptr = sp @ sg @ ip @ fraction_text dotted fp @ ex @ rest"
    "list_all (\<lambda>c. c = CHR '' '' \<or> c = CHR 0x09) sp" "if negative then sg = ''-'' else sg = [] \<or> sg = ''+''"
    "list_all is_digit ip" "list_all is_digit fp" "ip @ fp \<noteq> []" "dotted \<or> fp = []" "exponent_text ex e"
    "rest = [] \<or> \<not> is_digit (hd rest) \<and> hd rest \<noteq> CHR ''.'' \<and> hd rest \<noteq> CHR ''e'' \<and> hd rest \<noteq> CHR ''E''"
    using assms(1) unfolding decimal_text_def by blast
  define beg where "beg = ip @ fraction_text dotted fp @ ex @ rest"
  note start = decimal_start [OF t(4-7) beg_def [symmetric]]
  have "ends_number (ex @ rest)" using t(8,9) by (auto simp: exponent_text_def digit_of_def)
  then obtain ull sh ad n where loop: "rnd_loop None 0 0 beg = (ull, sh, ad, n, ex @ rest)" "0 < n"
    "scaled (dec_val (ip @ fp)) (length fp) ull sh ad"
    using loop_before_dot [of ip fp dotted "ex @ rest" 0 0] t assms(2) unfolding beg_def by auto
  have "\<bar>sh\<bar> \<le> int (length (ip @ fp))"
    using t(4,5) dec_val_bound [of "ip @ fp"] by (intro scaled_shift_bound [OF loop(3)]) simp_all
  moreover have "length (ip @ fp) \<le> length nptr" using t(1,7) by (auto simp: fraction_text_def)
  ultimately have "\<bar>sh\<bar> < 2 ^ 30" using assms(2) by simp
  then have "exp_part u negative beg (rnd_loop None 0 0 beg) = Some (apply_shift u negative ull (sh + e) ad rest)"
    unfolding loop(1) using exp_part_spec t(8,9) assms(3) loop(2) by blast
  then show ?thesis
    using strntoull10rnd_start [OF t(2,3) start] apply_scaled [OF loop(3)] t(1) by (simp add: beg_def)
qed

section \<open>Properties\<close>

text \<open>
  C11: A decimal text with integer part \<open>ip\<close>, fraction \<open>fp\<close> and exponent \<open>e\<close> (text and exponent below
  \<open>2 ^ 30\<close>) is converted to its value rounded half away from zero, with the result and the \<open>ERANGE\<close> that the
  comment of the function documents for a number out of range: the nearest value of the signed or unsigned
  type.  This holds whatever the number of digits and wherever the period stands, with two exceptions.
  The values from 0.9223372036854775808 on and below 1 that are written with 19 or more digits behind the
  period (after the exponent is applied) give 0 instead of 1.  A negative number of magnitude \<open>2 ^ 64\<close> or more
  gives the largest unsigned value, not the documented 0, for an unsigned result.
\<close>

theorem strntoull10rnd_correct:
  assumes "decimal_text nptr negative ip fp e rest" "length nptr < 2 ^ 30" "\<bar>e\<bar> < 2 ^ 30"
    "N = dec_val (ip @ fp)" "k = e - int (length fp)" "v = (if lost N k then 0 else rounded N k)"
  shows "my_strntoull10rnd_8bit nptr unsigned_flag =
    (case (if unsigned_flag \<and> negative \<and> 2 ^ 64 \<le> v then (2 ^ 64 - 1, MY_ERRNO_ERANGE)
           else documented_value unsigned_flag negative v) of (x, err) \<Rightarrow> Some (x, err, rest))"
  using strntoull10rnd_value [OF assms(1-3), of unsigned_flag]
  unfolding assms(4-6) [symmetric] with_rest_def rnd_value_def negative_overflow_def
  by (simp add: split_beta)

theorem strntoull10rnd_witness:
  "my_strntoull10rnd_8bit '' -12.5E-1x'' False = Some (2 ^ 64 - 1, MY_ERRNO_OK, ''x'')"
proof -
  have "decimal_text '' -12.5E-1x'' True ''12'' ''5'' (- 1) ''x''"
    unfolding decimal_text_def exponent_text_def
    by (rule exI [of _ "'' ''"], rule exI [of _ "''-''"], rule exI [of _ True], rule exI [of _ "''E-1''"])
      (auto simp: fraction_text_def digit_of_def)
  from strntoull10rnd_correct [OF this _ _ refl refl refl, of False] show ?thesis
    by (simp add: digit_of_def lost_def rounded_def documented_value_def clip_def signed_value_def ulonglong_of_def)
qed

section \<open>Two periods\<close>

lemma loop_digits:
  assumes "list_all is_digit ds" "dec_from ull ds \<le> ULONGLONG_MAX"
  shows "rnd_loop dot ull digits (ds @ s) = rnd_loop dot (dec_from ull ds) (digits + length ds) s"
  using assms
proof (induction ds arbitrary: ull digits)
  case (Cons c ds)
  have "ull * 10 + digit_of c \<le> dec_from (ull * 10 + digit_of c) ds"
    using dec_from_shift [of "ull * 10 + digit_of c" ds] by (simp add: trans_le_add1)
  then have "ull * 10 + digit_of c \<le> ULONGLONG_MAX" using Cons.prems(2) by simp
  then have "ull < CUTOFF \<or> ull = CUTOFF \<and> digit_of c \<le> CUTLIM"
    by (auto simp: CUTOFF_def CUTLIM_def ULONGLONG_MAX_def)
  then show ?case using Cons by simp
qed simp

text \<open>
  C40: A second period makes the function forget the first one.  For all digits \<open>ip\<close> and \<open>fp\<close> whose number
  fits in 64 bits, a text \<open>ip.fp.\<close> with anything behind it is converted as if it were the integer with the
  digits \<open>ip fp\<close>, and the reading stops at the second period: 1.2.3 gives 12.  The comment of the function
  says that it stops at the first character that is not part of a number, which would give \<open>ip.fp\<close> rounded.
\<close>

theorem strntoull10rnd_second_period:
  assumes "list_all is_digit ip" "list_all is_digit fp" "ip @ fp \<noteq> []" "dec_val (ip @ fp) < 2 ^ 64"
  shows "my_strntoull10rnd_8bit ((if negative then ''-'' else []) @ ip @ ''.'' @ fp @ ''.'' @ rest) unsigned_flag =
    (case documented_value unsigned_flag negative (dec_val (ip @ fp)) of (x, err) \<Rightarrow> Some (x, err, ''.'' @ rest))"
proof -
  define beg where "beg = ip @ ''.'' @ fp @ ''.'' @ rest"
  have "hd beg = CHR ''.'' \<or> is_digit (hd beg)" using assms(1) by (cases ip) (simp_all add: beg_def)
  then have start: "beg \<noteq> []" "hd beg \<noteq> CHR '' ''" "hd beg \<noteq> CHR 0x09" "hd beg \<noteq> CHR ''-''" "hd beg \<noteq> CHR ''+''"
    by (auto simp: beg_def digit_of_def)
  have fits: "dec_from (dec_val ip) fp \<le> ULONGLONG_MAX"
    using assms(4) by (simp add: dec_from_append ULONGLONG_MAX_def)
  moreover have "dec_val ip \<le> dec_from (dec_val ip) fp" using dec_from_shift [of "dec_val ip" fp] by (simp add: trans_le_add1)
  ultimately have "rnd_loop None 0 0 beg = (dec_val (ip @ fp), 0, False, length ip + length fp, ''.'' @ rest)"
    using assms(1,2) by (simp add: beg_def loop_digits dec_from_append)
  then have "exp_part unsigned_flag negative beg (rnd_loop None 0 0 beg) =
      Some (ret_sign unsigned_flag negative (dec_val (ip @ fp)) (''.'' @ rest))"
    using assms(3) by (auto simp: exp_part_def apply_shift_def)
  moreover have "my_strntoull10rnd_8bit ([] @ (if negative then ''-'' else []) @ beg) unsigned_flag =
      exp_part unsigned_flag negative beg (rnd_loop None 0 0 beg)"
    by (rule strntoull10rnd_start [OF _ _ start]) simp_all
  moreover have "ret_sign unsigned_flag negative (dec_val (ip @ fp)) (''.'' @ rest) =
      with_rest (documented_value unsigned_flag negative (dec_val (ip @ fp))) (''.'' @ rest)"
    using assms(4) ret_value(1) [of "dec_val (ip @ fp)"]
    by (simp add: ULONGLONG_MAX_def rnd_value_def negative_overflow_def)
  ultimately show ?thesis by (simp add: beg_def with_rest_def split_beta)
qed

theorem strntoull10rnd_second_period_witness:
  "my_strntoull10rnd_8bit ''1.2.3'' False = Some (12, MY_ERRNO_OK, ''.3'')"
  using strntoull10rnd_second_period [of "''1''" "''2''" False "''3''" False]
  by (simp add: digit_of_def documented_value_def clip_def signed_value_def ulonglong_of_def)

text \<open>
  The other texts whose value is not the documented one: 0.9999999999999999999 is rounded to 0; an exponent
  sign with no digits behind it makes the period be ignored; a negative number below the range gives the
  largest unsigned value, where a smaller one gives 0.
\<close>

lemma strntoull10rnd_misreads:
  "my_strntoull10rnd_8bit ''0.9999999999999999999'' False = Some (0, MY_ERRNO_OK, [])"
  "my_strntoull10rnd_8bit ''0.999999999999999999'' False = Some (1, MY_ERRNO_OK, [])"
  "my_strntoull10rnd_8bit ''1.5e+'' False = Some (15, MY_ERRNO_OK, ''e+'')"
  "my_strntoull10rnd_8bit ''-99999999999999999999'' True = Some (2 ^ 64 - 1, MY_ERRNO_ERANGE, [])"
  "my_strntoull10rnd_8bit ''-9'' True = Some (0, MY_ERRNO_ERANGE, [])"
  by (simp_all add: my_strntoull10rnd_8bit_def exp_part_def apply_shift_def ret_sign_def ret_too_big_def CUTOFF_def
      CUTLIM_def DIGITS_IN_ULONGLONG_def d10_def ULONGLONG_MAX_def LONGLONG_MAX_def digit_of_def s32_def u64_def)

end
