(* ===== verification/Utf8.thy ===== *)
theory Utf8
  imports Prelude
begin

text \<open>
  UTF-8 in \<open>strings/ctype-utf8.c\<close>: the conversions between bytes and code points for the character sets
  \<open>utf8\<close> (at most three bytes) and \<open>utf8mb4\<close> (at most four), with and without an end of the buffer.
  The bytes from \<open>s\<close> to \<open>e\<close> are a list.  A reader returns the C result, and the code point when it has
  stored one; a writer returns the C result and the bytes it has written into \<open>room\<close> bytes.
\<close>

section \<open>The model\<close>

definition MY_CS_ILSEQ :: int where "MY_CS_ILSEQ = 0"
definition MY_CS_ILUNI :: int where "MY_CS_ILUNI = 0"
definition MY_CS_TOOSMALL :: int where "MY_CS_TOOSMALL = - 101"
definition MY_CS_TOOSMALL2 :: int where "MY_CS_TOOSMALL2 = - 102"
definition MY_CS_TOOSMALL3 :: int where "MY_CS_TOOSMALL3 = - 103"
definition MY_CS_TOOSMALL4 :: int where "MY_CS_TOOSMALL4 = - 104"
definition MY_CS_TOOSMALL6 :: int where "MY_CS_TOOSMALL6 = - 106"
definition MY_CS_TOOSMALLN :: "nat \<Rightarrow> int" where "MY_CS_TOOSMALLN n = - 100 - int n"

type_synonym my_wc_t = ulonglong

definition IS_CONTINUATION_BYTE :: "uchar \<Rightarrow> bool" where
  "IS_CONTINUATION_BYTE c \<longleftrightarrow> c XOR 0x80 < 0x40"

definition IS_UTF8MB3_STEP2 :: "uchar \<Rightarrow> uchar \<Rightarrow> uchar \<Rightarrow> bool" where
  "IS_UTF8MB3_STEP2 b0 b1 b2 \<longleftrightarrow> IS_CONTINUATION_BYTE b1 \<and> IS_CONTINUATION_BYTE b2 \<and> (b0 \<ge> 0xE1 \<or> b1 \<ge> 0xA0)"

definition IS_UTF8MB4_STEP2 :: "uchar \<Rightarrow> uchar \<Rightarrow> uchar \<Rightarrow> uchar \<Rightarrow> bool" where
  "IS_UTF8MB4_STEP2 b0 b1 b2 b3 \<longleftrightarrow>
     IS_CONTINUATION_BYTE b1 \<and> IS_CONTINUATION_BYTE b2 \<and> IS_CONTINUATION_BYTE b3 \<and>
     (b0 \<ge> 0xF1 \<or> b1 \<ge> 0x90) \<and> (b0 \<le> 0xF3 \<or> b1 \<le> 0x8F)"

definition UTF8MB2_CODE :: "uchar \<Rightarrow> uchar \<Rightarrow> my_wc_t" where
  "UTF8MB2_CODE b0 b1 = push_bit 6 (ucast (b0 AND 0x1F)) OR ucast (b1 XOR 0x80)"

definition UTF8MB3_CODE :: "uchar \<Rightarrow> uchar \<Rightarrow> uchar \<Rightarrow> my_wc_t" where
  "UTF8MB3_CODE b0 b1 b2 =
     push_bit 12 (ucast (b0 AND 0x0F)) OR push_bit 6 (ucast (b1 XOR 0x80)) OR ucast (b2 XOR 0x80)"

definition UTF8MB4_CODE :: "uchar \<Rightarrow> uchar \<Rightarrow> uchar \<Rightarrow> uchar \<Rightarrow> my_wc_t" where
  "UTF8MB4_CODE b0 b1 b2 b3 =
     push_bit 18 (ucast (b0 AND 0x07)) OR push_bit 12 (ucast (b1 XOR 0x80)) OR
     push_bit 6 (ucast (b2 XOR 0x80)) OR ucast (b3 XOR 0x80)"

text \<open>The part the readers of both character sets share: bytes below \<open>0xF0\<close>.\<close>

definition utf8_uni_mb3 :: "uchar list \<Rightarrow> int \<times> my_wc_t option" where
  "utf8_uni_mb3 s =
     (let c = s ! 0
      in if c < 0x80 then (1, Some (ucast c))
         else if c < 0xC2 then (MY_CS_ILSEQ, None)
         else if c < 0xE0 then
           if 2 > length s then (MY_CS_TOOSMALL2, None)
           else if \<not> IS_CONTINUATION_BYTE (s ! 1) then (MY_CS_ILSEQ, None)
           else (2, Some (UTF8MB2_CODE c (s ! 1)))
         else
           if 3 > length s then (MY_CS_TOOSMALL3, None)
           else if \<not> IS_UTF8MB3_STEP2 c (s ! 1) (s ! 2) then (MY_CS_ILSEQ, None)
           else (3, Some (UTF8MB3_CODE c (s ! 1) (s ! 2))))"

definition my_utf8_uni :: "uchar list \<Rightarrow> int \<times> my_wc_t option" where
  "my_utf8_uni s =
     (if s = [] then (MY_CS_TOOSMALL, None)
      else if s ! 0 < 0xF0 then utf8_uni_mb3 s
      else (MY_CS_ILSEQ, None))"

definition my_mb_wc_utf8mb4 :: "uchar list \<Rightarrow> int \<times> my_wc_t option" where
  "my_mb_wc_utf8mb4 s =
     (if s = [] then (MY_CS_TOOSMALL, None)
      else if s ! 0 < 0xF0 then utf8_uni_mb3 s
      else if s ! 0 < 0xF5 then
        if 4 > length s then (MY_CS_TOOSMALL4, None)
        else if \<not> IS_UTF8MB4_STEP2 (s ! 0) (s ! 1) (s ! 2) (s ! 3) then (MY_CS_ILSEQ, None)
        else (4, Some (UTF8MB4_CODE (s ! 0) (s ! 1) (s ! 2) (s ! 3)))
      else (MY_CS_ILSEQ, None))"

text \<open>The readers for terminated strings; \<open>s\<close> goes on to the end of the memory block.\<close>

definition my_utf8_uni_no_range :: "uchar list \<Rightarrow> int \<times> my_wc_t option" where
  "my_utf8_uni_no_range s =
     (let c = s ! 0
      in if c < 0x80 then (1, Some (ucast c))
         else if c < 0xC2 then (MY_CS_ILSEQ, None)
         else if c < 0xE0 then
           if \<not> (s ! 1) XOR 0x80 < 0x40 then (MY_CS_ILSEQ, None)
           else (2, Some (UTF8MB2_CODE c (s ! 1)))
         else if c < 0xF0 then
           if \<not> IS_UTF8MB3_STEP2 c (s ! 1) (s ! 2) then (MY_CS_ILSEQ, None)
           else (3, Some (UTF8MB3_CODE c (s ! 1) (s ! 2)))
         else (MY_CS_ILSEQ, None))"

definition my_mb_wc_utf8mb4_no_range :: "uchar list \<Rightarrow> int \<times> my_wc_t option" where
  "my_mb_wc_utf8mb4_no_range s =
     (let c = s ! 0
      in if c < 0x80 then (1, Some (ucast c))
         else if c < 0xC2 then (MY_CS_ILSEQ, None)
         else if c < 0xE0 then
           if \<not> IS_CONTINUATION_BYTE (s ! 1) then (MY_CS_ILSEQ, None)
           else (2, Some (UTF8MB2_CODE c (s ! 1)))
         else if c < 0xF0 then
           if \<not> IS_UTF8MB3_STEP2 c (s ! 1) (s ! 2) then (MY_CS_ILSEQ, None)
           else (3, Some (UTF8MB3_CODE c (s ! 1) (s ! 2)))
         else if c < 0xF5 then
           if \<not> IS_UTF8MB4_STEP2 c (s ! 1) (s ! 2) (s ! 3) then (MY_CS_ILSEQ, None)
           else (4, Some (UTF8MB4_CODE c (s ! 1) (s ! 2) (s ! 3)))
         else (MY_CS_ILSEQ, None))"

text \<open>The writers.  The \<open>switch\<close> that falls through writes the last byte first.\<close>

definition my_uni_utf8 :: "my_wc_t \<Rightarrow> nat \<Rightarrow> int \<times> uchar list" where
  "my_uni_utf8 wc room =
     (if wc < 0x80 then
        if room = 0 then (MY_CS_TOOSMALL, []) else (1, [ucast wc])
      else if wc < 0x800 then
        if 2 > room then (MY_CS_TOOSMALLN 2, [])
        else (2, [ucast (0xC0 OR drop_bit 6 wc), ucast (0x80 OR (wc AND 0x3F))])
      else if wc < 0x10000 then
        if 3 > room then (MY_CS_TOOSMALLN 3, [])
        else (3, [ucast (0xE0 OR drop_bit 12 wc), ucast (0x80 OR (drop_bit 6 wc AND 0x3F)), ucast (0x80 OR (wc AND 0x3F))])
      else (MY_CS_ILUNI, []))"

fun put_bytes :: "nat \<Rightarrow> my_wc_t \<Rightarrow> uchar list" where
  "put_bytes n wc =
     (if n = 4 then put_bytes 3 (drop_bit 6 wc OR 0x10000) @ [ucast (0x80 OR (wc AND 0x3F))]
      else if n = 3 then put_bytes 2 (drop_bit 6 wc OR 0x800) @ [ucast (0x80 OR (wc AND 0x3F))]
      else if n = 2 then put_bytes 1 (drop_bit 6 wc OR 0xC0) @ [ucast (0x80 OR (wc AND 0x3F))]
      else [ucast wc])"

declare put_bytes.simps [simp del]

definition my_uni_utf8_no_range :: "my_wc_t \<Rightarrow> int \<times> uchar list" where
  "my_uni_utf8_no_range wc =
     (if wc < 0x80 then (1, put_bytes 1 wc)
      else if wc < 0x800 then (2, put_bytes 2 wc)
      else if wc < 0x10000 then (3, put_bytes 3 wc)
      else (MY_CS_ILUNI, []))"

definition my_wc_mb_utf8mb4 :: "my_wc_t \<Rightarrow> nat \<Rightarrow> int \<times> uchar list" where
  "my_wc_mb_utf8mb4 wc room =
     (if room = 0 then (MY_CS_TOOSMALL, [])
      else if wc < 0x200000 then
        (let count = (if wc < 0x80 then 1 else if wc < 0x800 then 2 else if wc < 0x10000 then 3 else 4)
         in if count > room then (MY_CS_TOOSMALLN count, []) else (int count, put_bytes count wc))
      else (MY_CS_ILUNI, []))"

definition my_wc_mb_utf8mb4_no_range :: "my_wc_t \<Rightarrow> int \<times> uchar list" where
  "my_wc_mb_utf8mb4_no_range wc =
     (if wc < 0x200000 then
        (let count = (if wc < 0x80 then 1 else if wc < 0x800 then 2 else if wc < 0x10000 then 3 else 4)
         in (int count, put_bytes count wc))
      else (MY_CS_ILUNI, []))"

text \<open>The length of the first character.\<close>

definition my_valid_mbcharlen_utf8mb3 :: "uchar list \<Rightarrow> int" where
  "my_valid_mbcharlen_utf8mb3 s =
     (let c = s ! 0
      in if c < 0x80 then 1
         else if c < 0xC2 then MY_CS_ILSEQ
         else if c < 0xE0 then
           if 2 > length s then MY_CS_TOOSMALL2
           else if \<not> IS_CONTINUATION_BYTE (s ! 1) then MY_CS_ILSEQ
           else 2
         else
           if 3 > length s then MY_CS_TOOSMALL3
           else if \<not> IS_UTF8MB3_STEP2 c (s ! 1) (s ! 2) then MY_CS_ILSEQ
           else 3)"

definition my_charlen_utf8 :: "uchar list \<Rightarrow> int" where
  "my_charlen_utf8 s =
     (if s = [] then MY_CS_TOOSMALL
      else if s ! 0 < 0xF0 then my_valid_mbcharlen_utf8mb3 s
      else MY_CS_ILSEQ)"

definition my_charlen_utf8mb4 :: "uchar list \<Rightarrow> int" where
  "my_charlen_utf8mb4 s =
     (if s = [] then MY_CS_TOOSMALL
      else if s ! 0 < 0xF0 then my_valid_mbcharlen_utf8mb3 s
      else if s ! 0 < 0xF5 then
        if 4 > length s then MY_CS_TOOSMALL4
        else if \<not> IS_UTF8MB4_STEP2 (s ! 0) (s ! 1) (s ! 2) (s ! 3) then MY_CS_ILSEQ
        else 4
      else MY_CS_ILSEQ)"

section \<open>Words and bytes\<close>

lemma unat_drop: "unat (drop_bit n (x :: 64 word)) = unat x div 2 ^ n"
  unfolding unat_drop_bit_eq by (rule drop_bit_eq_div)

lemma unat_take: "unat (take_bit n (x :: 64 word)) = unat x mod 2 ^ n"
  unfolding unsigned_take_bit_eq by (rule take_bit_eq_mod)

lemma low6: "(x :: 64 word) AND 0x3F = take_bit 6 x"
proof -
  have "(0x3F :: 64 word) = mask 6" by (simp add: mask_eq_exp_minus_1)
  then show ?thesis by (simp only: take_bit_eq_mask)
qed

lemma unat_low6: "unat ((x :: 64 word) AND 0x3F) = unat x mod 64"
  unfolding low6 unat_take by simp

lemma push_or:
  fixes a b :: "64 word"
  assumes "unat b < 2 ^ k" "unat a < 2 ^ 32" "k \<le> 18"
  shows "unat (push_bit k a OR b) = 2 ^ k * unat a + unat b"
proof -
  have "unat b = unat (take_bit k b)" using assms(1) by (simp only: unat_take mod_less)
  then have "b = take_bit k b" by (rule unsigned_word_eqI)
  then have high: "\<not> bit b n" if "n \<ge> k" for n using that by (metis bit_take_bit_iff not_le)
  have "push_bit k a + b = push_bit k a OR b"
    by (rule disjunctive_add) (auto simp: bit_push_bit_iff dest: high)
  moreover have "(2 :: nat) ^ k \<le> 2 ^ 18" using assms(3) by (intro power_increasing) auto
  then have small: "2 ^ k * unat a + unat b < 2 ^ 64"
  proof -
    have "2 ^ k * unat a \<le> 2 ^ 18 * 2 ^ 32" using assms(2) \<open>2 ^ k \<le> 2 ^ 18\<close> by (intro mult_mono) auto
    then show ?thesis using assms(1) \<open>2 ^ k \<le> 2 ^ 18\<close> by simp
  qed
  moreover have "unat (push_bit k a) = 2 ^ k * unat a"
  proof -
    have "unat (push_bit k a) = take_bit 64 (push_bit k (unat a))" by (simp add: unsigned_push_bit_eq)
    then show ?thesis using small by (simp add: push_bit_eq_mult mult.commute take_bit_nat_eq_self_iff)
  qed
  ultimately show ?thesis using unat_add_lem [of "push_bit k a" b] by (simp flip: \<open>push_bit k a + b = push_bit k a OR b\<close>)
qed


lemma byte_table:
  "list_all (\<lambda>n. let b = word_of_nat n :: uchar in
     IS_CONTINUATION_BYTE b = (0x80 \<le> n \<and> n < 0xC0) \<and> (0x80 \<le> n \<longrightarrow> unat (b XOR 0x80) = n - 0x80) \<and>
     unat (b AND 0x1F) = n mod 32 \<and> unat (b AND 0x0F) = n mod 16 \<and> unat (b AND 0x07) = n mod 8) [0..<256]"
  by code_simp

lemma byte_facts:
  fixes b :: uchar
  shows "IS_CONTINUATION_BYTE b \<longleftrightarrow> 0x80 \<le> unat b \<and> unat b < 0xC0"
    "0x80 \<le> unat b \<Longrightarrow> unat (b XOR 0x80) = unat b - 0x80"
    "unat (b AND 0x1F) = unat b mod 32" "unat (b AND 0x0F) = unat b mod 16" "unat (b AND 0x07) = unat b mod 8"
proof -
  have "unat b < 256" using unsigned_less [of b, where ?'a = nat] by simp
  then have "let b' = word_of_nat (unat b) :: uchar in
     IS_CONTINUATION_BYTE b' = (0x80 \<le> unat b \<and> unat b < 0xC0) \<and> (0x80 \<le> unat b \<longrightarrow> unat (b' XOR 0x80) = unat b - 0x80) \<and>
     unat (b' AND 0x1F) = unat b mod 32 \<and> unat (b' AND 0x0F) = unat b mod 16 \<and> unat (b' AND 0x07) = unat b mod 8"
    using byte_table by (simp only: list_all_iff set_upt Ball_def atLeastLessThan_iff zero_le simp_thms)
  then show "IS_CONTINUATION_BYTE b \<longleftrightarrow> 0x80 \<le> unat b \<and> unat b < 0xC0"
    "0x80 \<le> unat b \<Longrightarrow> unat (b XOR 0x80) = unat b - 0x80"
    "unat (b AND 0x1F) = unat b mod 32" "unat (b AND 0x0F) = unat b mod 16" "unat (b AND 0x07) = unat b mod 8"
    by (simp_all add: Let_def)
qed

lemma unat_ucast_64 [simp]: "unat (ucast (b :: uchar) :: 64 word) = unat b"
proof -
  have "unat b < 2 ^ 64" using unsigned_less [of b, where ?'a = nat] by simp
  then show ?thesis by (simp add: unsigned_ucast_eq take_bit_nat_eq_self)
qed

lemma cont_low: "IS_CONTINUATION_BYTE b \<Longrightarrow> unat (b XOR 0x80) < 64 \<and> unat b = 128 + unat (b XOR 0x80)"
  using byte_facts(1,2) [of b] by auto

text \<open>The code points of the three forms, in terms of the payload of the bytes.\<close>

lemma unat_code2:
  "IS_CONTINUATION_BYTE b1 \<Longrightarrow> unat (UTF8MB2_CODE b0 b1) = 64 * (unat b0 mod 32) + unat (b1 XOR 0x80)"
  using cont_low [of b1] by (simp add: UTF8MB2_CODE_def byte_facts(3) push_or)

lemma unat_code3:
  assumes "IS_CONTINUATION_BYTE b1" "IS_CONTINUATION_BYTE b2"
  shows "unat (UTF8MB3_CODE b0 b1 b2) = 4096 * (unat b0 mod 16) + (64 * unat (b1 XOR 0x80) + unat (b2 XOR 0x80))"
  using cont_low [OF assms(1)] cont_low [OF assms(2)] by (simp add: UTF8MB3_CODE_def byte_facts(4) push_or)

lemma unat_code4:
  assumes "IS_CONTINUATION_BYTE b1" "IS_CONTINUATION_BYTE b2" "IS_CONTINUATION_BYTE b3"
  shows "unat (UTF8MB4_CODE b0 b1 b2 b3) =
    262144 * (unat b0 mod 8) + (4096 * unat (b1 XOR 0x80) + (64 * unat (b2 XOR 0x80) + unat (b3 XOR 0x80)))"
  using cont_low [OF assms(1)] cont_low [OF assms(2)] cont_low [OF assms(3)]
  by (simp add: UTF8MB4_CODE_def byte_facts(5) push_or)

section \<open>Writing\<close>

text \<open>The bytes of a code point, as RFC 3629 defines them.\<close>

definition utf8_form :: "nat \<Rightarrow> nat list" where
  "utf8_form n =
     (if n < 0x80 then [n]
      else if n < 0x800 then [192 + n div 64, 128 + n mod 64]
      else if n < 0x10000 then [224 + n div 4096, 128 + n div 64 mod 64, 128 + n mod 64]
      else [240 + n div 262144, 128 + n div 4096 mod 64, 128 + n div 64 mod 64, 128 + n mod 64])"

lemma or_const:
  fixes x :: my_wc_t
  assumes "unat x < 2 ^ k" "c = push_bit k a" "unat a < 2 ^ 32" "k \<le> 18"
  shows "unat (x OR c) = 2 ^ k * unat a + unat x"
  using push_or [OF assms(1,3,4)] assms(2) by (simp add: or.commute)

lemma unat_ucast_8: "unat (ucast (x :: my_wc_t) :: uchar) = unat x mod 256"
  by (simp add: unsigned_ucast_eq take_bit_eq_mod)

lemma ucast_eq_iff: "unat x < 256 \<Longrightarrow> (ucast (x :: my_wc_t) :: uchar) = word_of_nat (unat x)"
  by (simp add: of_nat_unat)

lemma cont_byte: "ucast (0x80 OR (x AND 0x3F) :: my_wc_t) = (word_of_nat (128 + unat x mod 64) :: uchar)"
proof -
  have "unat ((x AND 0x3F) OR 0x80) = 2 ^ 6 * unat (2 :: my_wc_t) + unat (x AND 0x3F)"
    by (rule or_const) (simp_all add: unat_low6)
  then have "unat (0x80 OR (x AND 0x3F)) = 128 + unat x mod 64" by (simp add: or.commute unat_low6)
  moreover have "128 + unat x mod 64 < 256" using mod_less_divisor [of 64 "unat x"] by linarith
  ultimately show ?thesis using ucast_eq_iff [of "0x80 OR (x AND 0x3F)"] by simp
qed

lemma div_steps: "n div 4096 = n div 64 div 64" "n div 262144 = n div 64 div 64 div (64 :: nat)"
  by (simp_all flip: div_mult2_eq)

lemma add_div_64:
  "(65536 + m) div 64 = 1024 + m div 64" "(65536 + m) mod 64 = m mod 64" "(2048 + m) div 64 = 32 + m div 64"
  "(2048 + (1024 + m)) div 64 = 48 + m div 64" "(1024 + m) mod 64 = m mod (64 :: nat)" "(2048 + m) mod 64 = m mod 64"
  using div_mult_self3 [of 64 1024 m] mod_mult_self3 [of 1024 64 m] div_mult_self3 [of 64 32 m]
    div_mult_self3 [of 64 48 m] mod_mult_self3 [of 16 64 m] mod_mult_self3 [of 32 64 m] by simp_all

lemma put_bytes_1: "unat wc < 256 \<Longrightarrow> put_bytes 1 wc = [word_of_nat (unat wc)]"
  using ucast_eq_iff by (simp add: put_bytes.simps)

lemma put_bytes_2:
  assumes "unat wc < 4096"
  shows "put_bytes 2 wc = [word_of_nat (192 + unat wc div 64), word_of_nat (128 + unat wc mod 64)]"
proof -
  have "unat (drop_bit 6 wc OR 0xC0) = 2 ^ 6 * unat (3 :: my_wc_t) + unat (drop_bit 6 wc)"
    by (rule or_const) (use assms in \<open>simp_all add: unat_drop\<close>)
  then have "unat (drop_bit 6 wc OR 0xC0) = 192 + unat wc div 64" by (simp add: unat_drop)
  then show ?thesis
    using assms put_bytes_1 [of "drop_bit 6 wc OR 0xC0"] by (subst put_bytes.simps) (simp add: cont_byte)
qed

lemma put_bytes_3:
  assumes "unat wc < 0x20000"
  shows "put_bytes 3 wc =
    [word_of_nat (192 + (2048 + unat wc div 64) div 64), word_of_nat (128 + unat wc div 64 mod 64), word_of_nat (128 + unat wc mod 64)]"
proof -
  have "unat (drop_bit 6 wc OR 0x800) = 2 ^ 11 * unat (1 :: my_wc_t) + unat (drop_bit 6 wc)"
    by (rule or_const) (use assms in \<open>simp_all add: unat_drop push_bit_eq_mult\<close>)
  then have u: "unat (drop_bit 6 wc OR 0x800) = 2048 + unat wc div 64" by (simp add: unat_drop)
  have "(2048 + unat wc div 64) mod 64 = unat wc div 64 mod 64" by (rule add_div_64)
  moreover have "2048 + unat wc div 64 < 4096" using assms by linarith
  ultimately show ?thesis
    using u put_bytes_2 [of "drop_bit 6 wc OR 0x800"] by (subst put_bytes.simps) (simp add: cont_byte)
qed

lemma put_bytes_4:
  assumes "unat wc < 0x200000"
  shows "put_bytes 4 wc = map word_of_nat
    [240 + unat wc div 262144, 128 + unat wc div 4096 mod 64, 128 + unat wc div 64 mod 64, 128 + unat wc mod 64]"
proof -
  define n where "n = unat wc"
  have "unat (drop_bit 6 wc OR 0x10000) = 2 ^ 16 * unat (1 :: my_wc_t) + unat (drop_bit 6 wc)"
    by (rule or_const) (use assms in \<open>simp_all add: unat_drop push_bit_eq_mult\<close>)
  then have u: "unat (drop_bit 6 wc OR 0x10000) = 65536 + n div 64" by (simp add: unat_drop n_def)
  have n: "n < 0x200000" using assms by (simp add: n_def)
  have "(65536 + n div 64) div 64 = 1024 + n div 4096" "(65536 + n div 64) mod 64 = n div 64 mod 64"
    "(2048 + (1024 + n div 4096)) div 64 = 48 + n div 262144" "(1024 + n div 4096) mod 64 = n div 4096 mod 64"
    unfolding div_steps add_div_64 by simp_all
  moreover have "65536 + n div 64 < 0x20000" using n by simp
  ultimately show ?thesis
    using u put_bytes_3 [of "drop_bit 6 wc OR 0x10000"] unfolding n_def [symmetric]
    by (subst put_bytes.simps) (simp add: cont_byte n_def [symmetric])
qed

lemma wc_less: "(wc :: my_wc_t) < 0x80 \<longleftrightarrow> unat wc < 0x80" "wc < 0x800 \<longleftrightarrow> unat wc < 0x800" "wc < 0x10000 \<longleftrightarrow> unat wc < 0x10000"
  "wc < 0x200000 \<longleftrightarrow> unat wc < 0x200000"
  by (simp_all add: word_less_nat_alt)

lemma put_bytes_form:
  assumes "unat wc < 0x200000"
  shows "put_bytes (if unat wc < 0x80 then 1 else if unat wc < 0x800 then 2 else if unat wc < 0x10000 then 3 else 4) wc =
    map word_of_nat (utf8_form (unat wc))"
proof -
  define n where "n = unat wc"
  have three: "192 + (2048 + n div 64) div 64 = 224 + n div 4096" unfolding div_steps add_div_64 by simp
  consider "n < 0x80" | "\<not> n < 0x80" "n < 0x800" | "\<not> n < 0x80" "\<not> n < 0x800" "n < 0x10000" |
    "\<not> n < 0x80" "\<not> n < 0x800" "\<not> n < 0x10000" by blast
  then show ?thesis
    using put_bytes_1 [of wc] put_bytes_2 [of wc] put_bytes_3 [of wc] put_bytes_4 [OF assms]
    unfolding n_def [symmetric] three by cases (simp_all add: utf8_form_def)
qed

lemma length_form: "length (utf8_form n) = (if n < 0x80 then 1 else if n < 0x800 then 2 else if n < 0x10000 then 3 else 4)"
  by (simp add: utf8_form_def)

text \<open>All writers write the form of the code point, and the results are its length.\<close>

lemma wc_mb_form:
  assumes "unat wc < 0x200000"
  shows "my_wc_mb_utf8mb4 wc room =
      (if room = 0 then (MY_CS_TOOSMALL, [])
       else if room < length (utf8_form (unat wc)) then (MY_CS_TOOSMALLN (length (utf8_form (unat wc))), [])
       else (int (length (utf8_form (unat wc))), map word_of_nat (utf8_form (unat wc))))"
    "my_wc_mb_utf8mb4_no_range wc = (int (length (utf8_form (unat wc))), map word_of_nat (utf8_form (unat wc)))"
  using assms put_bytes_form [OF assms]
  by (simp_all add: my_wc_mb_utf8mb4_def my_wc_mb_utf8mb4_no_range_def length_form wc_less Let_def split: if_splits)

lemma unat_high_byte:
  assumes "unat x < 64"
  shows "ucast (0xC0 OR x :: my_wc_t) = (word_of_nat (192 + unat x) :: uchar)"
proof -
  have "unat (x OR 0xC0) = 2 ^ 6 * unat (3 :: my_wc_t) + unat x" by (rule or_const) (use assms in simp_all)
  then have "unat (0xC0 OR x) = 192 + unat x" by (simp add: or.commute)
  then show ?thesis using ucast_eq_iff [of "0xC0 OR x"] assms by simp
qed

lemma uni_utf8_form:
  assumes "unat wc < 0x10000"
  shows "length (utf8_form (unat wc)) \<le> room \<Longrightarrow>
      my_uni_utf8 wc room = (int (length (utf8_form (unat wc))), map word_of_nat (utf8_form (unat wc)))"
    "my_uni_utf8_no_range wc = (int (length (utf8_form (unat wc))), map word_of_nat (utf8_form (unat wc)))"
proof -
  have e0: "ucast (0xE0 OR drop_bit 12 wc) = (word_of_nat (224 + unat wc div 4096) :: uchar)"
  proof -
    have "unat (drop_bit 12 wc OR 0xE0) = 2 ^ 5 * unat (7 :: my_wc_t) + unat (drop_bit 12 wc)"
      by (rule or_const) (use assms in \<open>simp_all add: unat_drop push_bit_eq_mult\<close>)
    then have "unat (0xE0 OR drop_bit 12 wc) = 224 + unat wc div 4096" by (simp add: or.commute unat_drop)
    then show ?thesis using ucast_eq_iff [of "0xE0 OR drop_bit 12 wc"] assms by simp
  qed
  define n where "n = unat wc"
  consider "n < 0x80" | "\<not> n < 0x80" "n < 0x800" | "\<not> n < 0x80" "\<not> n < 0x800" "n < 0x10000"
    using assms by (auto simp: n_def)
  then show "my_uni_utf8 wc room = (int (length (utf8_form (unat wc))), map word_of_nat (utf8_form (unat wc)))"
    if room: "length (utf8_form (unat wc)) \<le> room"
    using room [unfolded length_form, folded n_def] e0 [folded n_def] unat_high_byte [of "drop_bit 6 wc", unfolded unat_drop, folded n_def]
      ucast_eq_iff [of wc, folded n_def]
    unfolding n_def [symmetric]
    by cases (simp_all add: my_uni_utf8_def utf8_form_def wc_less cont_byte unat_drop n_def [symmetric])
  show "my_uni_utf8_no_range wc = (int (length (utf8_form (unat wc))), map word_of_nat (utf8_form (unat wc)))"
    using \<open>unat wc < 0x10000\<close> put_bytes_form [of wc, folded n_def] unfolding n_def [symmetric] my_uni_utf8_no_range_def length_form wc_less
    by (simp split: if_splits)
qed

section \<open>Reading\<close>

lemma digit_64: "n = 64 * m + c \<Longrightarrow> c < 64 \<Longrightarrow> n div 64 = m \<and> n mod (64 :: nat) = c"
  by simp

lemma form_2:
  assumes "194 \<le> x" "x < 224" "c < 64" "n = 64 * (x mod 32) + c"
  shows "utf8_form n = [x, 128 + c] \<and> n < 0x800"
proof -
  define z where "z = x - 192"
  have z: "x = 192 + z" "2 \<le> z" "z < 32" using assms(1,2) by (simp_all add: z_def)
  then have "x mod 32 = z" using mod_mult_self3 [of 6 32 z] by simp
  then have n: "n = 64 * z + c" using assms(4) by simp
  then show ?thesis using digit_64 [OF n assms(3)] z assms(3) by (simp add: utf8_form_def)
qed

lemma form_3:
  assumes "224 \<le> x" "x < 240" "b < 64" "c < 64" "225 \<le> x \<or> 32 \<le> b" "n = 4096 * (x mod 16) + (64 * b + c)"
  shows "utf8_form n = [x, 128 + b, 128 + c] \<and> 0x800 \<le> n \<and> n < 0x10000"
proof -
  define z where "z = x - 224"
  have z: "x = 224 + z" "z < 16" "1 \<le> z \<or> 32 \<le> b" using assms(1,2,5) by (auto simp: z_def)
  then have "x mod 16 = z" using mod_mult_self3 [of 14 16 z] by simp
  then have n: "n = 64 * (64 * z + b) + c" using assms(6) by simp
  note d = digit_64 [OF n assms(4)] digit_64 [of "n div 64" z b, OF _ assms(3)]
  have "0x800 \<le> n" "n < 0x10000" using n assms(3,4) z by auto
  then show ?thesis using d z by (simp add: utf8_form_def div_steps)
qed

lemma form_4:
  assumes "240 \<le> x" "x < 245" "a < 64" "b < 64" "c < 64" "241 \<le> x \<or> 16 \<le> a" "x \<le> 243 \<or> a \<le> 15"
    "n = 262144 * (x mod 8) + (4096 * a + (64 * b + c))"
  shows "utf8_form n = [x, 128 + a, 128 + b, 128 + c] \<and> 0x10000 \<le> n \<and> n < 0x110000"
proof -
  define z where "z = x - 240"
  have z: "x = 240 + z" "z < 5" "1 \<le> z \<or> 16 \<le> a" "z \<le> 3 \<or> a \<le> 15" using assms(1,2,6,7) by (auto simp: z_def)
  then have "x mod 8 = z" using mod_mult_self3 [of 30 8 z] by simp
  then have n: "n = 64 * (64 * (64 * z + a) + b) + c" using assms(8) by simp
  note d = digit_64 [OF n assms(5)] digit_64 [of "n div 64" "64 * z + a" b, OF _ assms(4)]
    digit_64 [of "n div 64 div 64" z a, OF _ assms(3)]
  have "0x10000 \<le> n" "n < 0x110000" using n assms(3-5) z by auto
  then show ?thesis using d z by (simp add: utf8_form_def div_steps)
qed

lemma byte_less:
  fixes b :: uchar
  shows "b < 0x80 \<longleftrightarrow> unat b < 0x80" "b < 0xC2 \<longleftrightarrow> unat b < 0xC2" "b < 0xE0 \<longleftrightarrow> unat b < 0xE0" "b < 0xF0 \<longleftrightarrow> unat b < 0xF0"
    "b < 0xF5 \<longleftrightarrow> unat b < 0xF5" "b \<ge> 0xE1 \<longleftrightarrow> 0xE1 \<le> unat b" "b \<ge> 0xA0 \<longleftrightarrow> 0xA0 \<le> unat b" "b \<ge> 0xF1 \<longleftrightarrow> 0xF1 \<le> unat b"
    "b \<ge> 0x90 \<longleftrightarrow> 0x90 \<le> unat b" "b \<le> 0xF3 \<longleftrightarrow> unat b \<le> 0xF3" "b \<le> 0x8F \<longleftrightarrow> unat b \<le> 0x8F"
  by (simp_all add: word_less_nat_alt word_le_nat_alt)

text \<open>
  The heads of a well-formed text and what a reader returns for each: the code point whose form the
  bytes are, or an error.
\<close>

definition reads :: "nat \<Rightarrow> uchar list \<Rightarrow> int \<times> my_wc_t option \<Rightarrow> bool" where
  "reads limit s r \<longleftrightarrow>
     (case r of
        (k, None) \<Rightarrow> k \<le> 0
      | (k, Some wc) \<Rightarrow> unat wc < limit \<and> k = int (length (utf8_form (unat wc))) \<and> nat k \<le> length s \<and>
          map unat (take (nat k) s) = utf8_form (unat wc))"

lemma reads_1: "s \<noteq> [] \<Longrightarrow> unat (s ! 0) < 0x80 \<Longrightarrow> 0x80 \<le> limit \<Longrightarrow> reads limit s (1, Some (ucast (s ! 0)))"
  by (cases s) (auto simp: reads_def utf8_form_def)

lemma reads_2:
  assumes "2 \<le> length s" "194 \<le> unat (s ! 0)" "unat (s ! 0) < 224" "IS_CONTINUATION_BYTE (s ! 1)" "0x800 \<le> limit"
  shows "reads limit s (2, Some (UTF8MB2_CODE (s ! 0) (s ! 1)))"
proof -
  obtain b0 b1 r where s: "s = b0 # b1 # r" using assms(1) by (cases s; cases "tl s") auto
  have c: "IS_CONTINUATION_BYTE b1" using assms(4) s by simp
  have "utf8_form (unat (UTF8MB2_CODE b0 b1)) = [unat b0, 128 + unat (b1 XOR 0x80)] \<and> unat (UTF8MB2_CODE b0 b1) < 0x800"
    using form_2 [OF _ _ _ unat_code2 [OF c]] assms(2,3) cont_low [OF c] s by simp
  then show ?thesis using s cont_low [OF c] assms(5) by (simp add: reads_def)
qed

lemma reads_3:
  assumes "3 \<le> length s" "224 \<le> unat (s ! 0)" "unat (s ! 0) < 240" "IS_UTF8MB3_STEP2 (s ! 0) (s ! 1) (s ! 2)" "0x10000 \<le> limit"
  shows "reads limit s (3, Some (UTF8MB3_CODE (s ! 0) (s ! 1) (s ! 2)))"
proof -
  obtain b0 b1 b2 r where s: "s = b0 # b1 # b2 # r" using assms(1) by (cases s; cases "tl s"; cases "tl (tl s)") auto
  have st: "IS_UTF8MB3_STEP2 b0 b1 b2" using assms(4) s by (simp add: numeral_2_eq_2)
  then have c: "IS_CONTINUATION_BYTE b1" "IS_CONTINUATION_BYTE b2" by (simp_all add: IS_UTF8MB3_STEP2_def)
  have "225 \<le> unat b0 \<or> 32 \<le> unat (b1 XOR 0x80)"
    using st cont_low [OF c(1)] by (auto simp: IS_UTF8MB3_STEP2_def byte_less)
  then have "utf8_form (unat (UTF8MB3_CODE b0 b1 b2)) = [unat b0, 128 + unat (b1 XOR 0x80), 128 + unat (b2 XOR 0x80)] \<and>
      unat (UTF8MB3_CODE b0 b1 b2) < 0x10000"
    using form_3 [OF _ _ _ _ _ unat_code3 [OF c]] assms(2,3) cont_low [OF c(1)] cont_low [OF c(2)] s by simp
  then show ?thesis using s cont_low [OF c(1)] cont_low [OF c(2)] assms(5) by (simp add: reads_def numeral_2_eq_2 numeral_3_eq_3)
qed

lemma reads_4:
  assumes "4 \<le> length s" "240 \<le> unat (s ! 0)" "unat (s ! 0) < 245" "IS_UTF8MB4_STEP2 (s ! 0) (s ! 1) (s ! 2) (s ! 3)" "0x110000 \<le> limit"
  shows "reads limit s (4, Some (UTF8MB4_CODE (s ! 0) (s ! 1) (s ! 2) (s ! 3)))"
proof -
  obtain b0 b1 b2 b3 r where s: "s = b0 # b1 # b2 # b3 # r"
    using assms(1) by (cases s; cases "tl s"; cases "tl (tl s)"; cases "tl (tl (tl s))") auto
  have st: "IS_UTF8MB4_STEP2 b0 b1 b2 b3" using assms(4) s by (simp add: numeral_2_eq_2 numeral_3_eq_3)
  then have c: "IS_CONTINUATION_BYTE b1" "IS_CONTINUATION_BYTE b2" "IS_CONTINUATION_BYTE b3" by (simp_all add: IS_UTF8MB4_STEP2_def)
  have "241 \<le> unat b0 \<or> 16 \<le> unat (b1 XOR 0x80)" "unat b0 \<le> 243 \<or> unat (b1 XOR 0x80) \<le> 15"
    using st cont_low [OF c(1)] by (auto simp: IS_UTF8MB4_STEP2_def byte_less)
  then have "utf8_form (unat (UTF8MB4_CODE b0 b1 b2 b3)) =
        [unat b0, 128 + unat (b1 XOR 0x80), 128 + unat (b2 XOR 0x80), 128 + unat (b3 XOR 0x80)] \<and>
      unat (UTF8MB4_CODE b0 b1 b2 b3) < 0x110000"
    using form_4 [OF _ _ _ _ _ _ _ unat_code4 [OF c]] assms(2,3) cont_low [OF c(1)] cont_low [OF c(2)] cont_low [OF c(3)] s by simp
  then show ?thesis using s cont_low [OF c(1)] cont_low [OF c(2)] cont_low [OF c(3)] assms(5)
    by (simp add: reads_def numeral_2_eq_2 numeral_3_eq_3 eval_nat_numeral(3) [of "num.Bit1 num.One"])
qed

lemma reads_error: "k \<le> 0 \<Longrightarrow> reads limit s (k, None)"
  by (simp add: reads_def)

lemmas cs_errors = MY_CS_ILSEQ_def MY_CS_ILUNI_def MY_CS_TOOSMALL_def MY_CS_TOOSMALL2_def MY_CS_TOOSMALL3_def
  MY_CS_TOOSMALL4_def MY_CS_TOOSMALLN_def

lemma readers_sound: "reads 0x10000 s (my_utf8_uni s)" "reads 0x110000 s (my_mb_wc_utf8mb4 s)"
proof -
  have mb3: "reads limit s (utf8_uni_mb3 s)" if "s \<noteq> []" "s ! 0 < 0xF0" "0x10000 \<le> limit" for limit
    using that unfolding utf8_uni_mb3_def Let_def
    by (auto simp: byte_less cs_errors simp del: One_nat_def intro!: reads_1 reads_2 reads_3 reads_error)
  then show "reads 0x10000 s (my_utf8_uni s)" by (simp add: my_utf8_uni_def cs_errors reads_error)
  show "reads 0x110000 s (my_mb_wc_utf8mb4 s)"
    using mb3 [where limit = "0x110000"] unfolding my_mb_wc_utf8mb4_def
    by (auto simp: byte_less cs_errors simp del: One_nat_def intro!: reads_4 reads_error)
qed

lemma unat_byte: "k < 256 \<Longrightarrow> unat (word_of_nat k :: uchar) = k"
  by (simp add: unsigned_of_nat take_bit_nat_eq_self)

lemma cont_of_nat: "IS_CONTINUATION_BYTE (word_of_nat (128 + n mod 64))" "unat (word_of_nat (128 + n mod 64) :: uchar) = 128 + n mod 64"
proof -
  have "128 + n mod 64 < 192" using mod_less_divisor [of 64 n] by linarith
  then show "unat (word_of_nat (128 + n mod 64) :: uchar) = 128 + n mod 64" by (intro unat_byte) simp
  then show "IS_CONTINUATION_BYTE (word_of_nat (128 + n mod 64))" using \<open>128 + n mod 64 < 192\<close> by (simp only: byte_facts(1)) simp
qed

lemma form_accepted:
  assumes "n < 0x110000" "s = map word_of_nat (utf8_form n) @ rest"
  shows "\<exists>wc. my_mb_wc_utf8mb4 s = (int (length (utf8_form n)), Some wc)"
    "n < 0x10000 \<Longrightarrow> my_utf8_uni s = my_mb_wc_utf8mb4 s"
proof -
  consider (1) "n < 0x80" | (2) "\<not> n < 0x80" "n < 0x800" | (3) "\<not> n < 0x80" "\<not> n < 0x800" "n < 0x10000" |
    (4) "\<not> n < 0x80" "\<not> n < 0x800" "\<not> n < 0x10000" by blast
  then have "(\<exists>wc. my_mb_wc_utf8mb4 s = (int (length (utf8_form n)), Some wc)) \<and> (n < 0x10000 \<longrightarrow> unat (s ! 0) < 0xF0)"
  proof cases
    case 1
    then have s: "s = word_of_nat n # rest" using assms(2) by (simp add: utf8_form_def)
    then show ?thesis using 1 unat_byte [of n] by (simp add: my_mb_wc_utf8mb4_def utf8_uni_mb3_def byte_less utf8_form_def)
  next
    case 2
    then have s: "s = word_of_nat (192 + n div 64) # word_of_nat (128 + n mod 64) # rest" using assms(2) by (simp add: utf8_form_def)
    have "2 \<le> n div 64" "n div 64 < 32" using 2 by auto
    then have "unat (word_of_nat (192 + n div 64) :: uchar) = 192 + n div 64" "194 \<le> 192 + n div 64" "192 + n div 64 < 224"
      using unat_byte [of "192 + n div 64"] by simp_all
    then show ?thesis using 2 cont_of_nat [of n] unfolding s
      by (simp add: my_mb_wc_utf8mb4_def utf8_uni_mb3_def byte_less utf8_form_def del: of_nat_add of_nat_numeral)
  next
    case 3
    then have s: "s = word_of_nat (224 + n div 4096) # word_of_nat (128 + n div 64 mod 64) # word_of_nat (128 + n mod 64) # rest"
      using assms(2) by (simp add: utf8_form_def)
    have "n div 4096 < 16" using 3 by auto
    then have u: "unat (word_of_nat (224 + n div 4096) :: uchar) = 224 + n div 4096" "224 + n div 4096 < 240"
      using unat_byte [of "224 + n div 4096"] by simp_all
    have "1 \<le> n div 4096 \<or> 32 \<le> n div 64 mod 64"
    proof (cases "n div 4096 = 0")
      case True
      then have "n div 64 < 64" "32 \<le> n div 64" using 3 by (auto simp: div_steps)
      then show ?thesis by simp
    qed simp
    then have "IS_UTF8MB3_STEP2 (word_of_nat (224 + n div 4096)) (word_of_nat (128 + n div 64 mod 64)) (word_of_nat (128 + n mod 64))"
      using u cont_of_nat [of n] cont_of_nat [of "n div 64"] unfolding IS_UTF8MB3_STEP2_def byte_less
      by (auto simp del: of_nat_add of_nat_numeral)
    then show ?thesis using 3 u unfolding s
      by (simp add: my_mb_wc_utf8mb4_def utf8_uni_mb3_def byte_less utf8_form_def numeral_2_eq_2 del: of_nat_add of_nat_numeral)
  next
    case 4
    then have s: "s = word_of_nat (240 + n div 262144) # word_of_nat (128 + n div 4096 mod 64) # word_of_nat (128 + n div 64 mod 64) #
        word_of_nat (128 + n mod 64) # rest"
      using assms(2) by (simp add: utf8_form_def)
    have h: "n div 262144 < 5" using assms(1) by auto
    then have u: "unat (word_of_nat (240 + n div 262144) :: uchar) = 240 + n div 262144" "240 + n div 262144 < 245"
      using unat_byte [of "240 + n div 262144"] by simp_all
    define q where "q = n div 4096"
    have q: "16 \<le> q" "q < 272" "n div 262144 = q div 64" using 4 assms(1) by (auto simp: q_def div_steps)
    have "1 \<le> q div 64 \<or> 16 \<le> q mod 64" using q(1) by (cases "q < 64") (simp_all add: Suc_le_eq div_greater_zero_iff)
    moreover have "q div 64 \<le> 3 \<or> q mod 64 \<le> 15"
    proof (cases "q < 256")
      case True
      then have "q div 64 < 4" by simp
      then show ?thesis by linarith
    next
      case False
      then have "q mod 64 = q - 256" using q(2) mod_mult_self3 [of 4 64 "q - 256"] by simp
      then show ?thesis using q(2) by linarith
    qed
    ultimately have "241 \<le> 240 + q div 64 \<or> 144 \<le> 128 + q mod 64" "240 + q div 64 \<le> 243 \<or> 128 + q mod 64 \<le> 143" by linarith+
    then have "IS_UTF8MB4_STEP2 (word_of_nat (240 + n div 262144)) (word_of_nat (128 + q mod 64)) (word_of_nat (128 + n div 64 mod 64))
        (word_of_nat (128 + n mod 64))"
      using cont_of_nat [of n] cont_of_nat [of "n div 64"] cont_of_nat [of q]
      unfolding IS_UTF8MB4_STEP2_def byte_less cont_of_nat u(1) unfolding q(3) by (simp only: simp_thms)
    then show ?thesis using 4 u unfolding s q_def
      by (simp add: my_mb_wc_utf8mb4_def byte_less utf8_form_def numeral_2_eq_2 numeral_3_eq_3 del: of_nat_add of_nat_numeral)
  qed
  then show "\<exists>wc. my_mb_wc_utf8mb4 s = (int (length (utf8_form n)), Some wc)"
    "n < 0x10000 \<Longrightarrow> my_utf8_uni s = my_mb_wc_utf8mb4 s"
    by (auto simp: my_utf8_uni_def my_mb_wc_utf8mb4_def byte_less)
qed

lemma digits_inj: "n div k = m div k \<Longrightarrow> n mod k = m mod k \<Longrightarrow> n = (m :: nat)"
  by (metis div_mult_mod_eq)

lemma form_inj:
  assumes "utf8_form n = utf8_form m"
  shows "n = m"
proof -
  have len: "length (utf8_form n) = length (utf8_form m)" using assms by simp
  consider "n < 0x80" "m < 0x80" | "\<not> n < 0x80" "n < 0x800" "\<not> m < 0x80" "m < 0x800" |
    "\<not> n < 0x800" "n < 0x10000" "\<not> m < 0x800" "m < 0x10000" | "\<not> n < 0x10000" "\<not> m < 0x10000"
    using len unfolding length_form by (auto split: if_splits)
  then show ?thesis
  proof cases
    case 1
    then show ?thesis using assms by (simp add: utf8_form_def)
  next
    case 2
    then show ?thesis using assms digits_inj [of n 64 m] by (simp add: utf8_form_def)
  next
    case 3
    then have "n div 64 div 64 = m div 64 div 64" "n div 64 mod 64 = m div 64 mod 64" "n mod 64 = m mod 64"
      using assms by (simp_all add: utf8_form_def div_steps)
    then show ?thesis using digits_inj [of "n div 64" 64 "m div 64"] digits_inj [of n 64 m] by blast
  next
    case 4
    then have "n div 64 div 64 div 64 = m div 64 div 64 div 64" "n div 64 div 64 mod 64 = m div 64 div 64 mod 64"
      "n div 64 mod 64 = m div 64 mod 64" "n mod 64 = m mod 64"
      using assms by (simp_all add: utf8_form_def div_steps)
    then show ?thesis
      using digits_inj [of "n div 64 div 64" 64 "m div 64 div 64"] digits_inj [of "n div 64" 64 "m div 64"] digits_inj [of n 64 m] by blast
  qed
qed

text \<open>Reading the form of a code point gives it back.\<close>

lemma read_form:
  assumes "unat wc < 0x110000"
  shows "my_mb_wc_utf8mb4 (map word_of_nat (utf8_form (unat wc)) @ rest) = (int (length (utf8_form (unat wc))), Some wc)"
    "unat wc < 0x10000 \<Longrightarrow>
     my_utf8_uni (map word_of_nat (utf8_form (unat wc)) @ rest) = (int (length (utf8_form (unat wc))), Some wc)"
proof -
  define s where "s = map word_of_nat (utf8_form (unat wc)) @ (rest :: uchar list)"
  obtain wc' where r: "my_mb_wc_utf8mb4 s = (int (length (utf8_form (unat wc))), Some wc')"
    using form_accepted(1) [OF assms s_def] by blast
  have bytes: "x < 256" if "x \<in> set (utf8_form (unat wc))" for x
    using that assms mod_less_divisor [of 64 "unat wc"] mod_less_divisor [of 64 "unat wc div 64"] mod_less_divisor [of 64 "unat wc div 4096"]
    by (auto simp: utf8_form_def split: if_splits)
  have "map (unat \<circ> (word_of_nat :: nat \<Rightarrow> uchar)) (utf8_form (unat wc)) = utf8_form (unat wc)"
    using bytes unat_byte by (intro map_idI) simp
  then have "utf8_form (unat wc') = utf8_form (unat wc)" using readers_sound(2) [of s] r by (simp add: reads_def s_def)
  then have "wc' = wc" using form_inj unsigned_word_eqI by blast
  then show "my_mb_wc_utf8mb4 (map word_of_nat (utf8_form (unat wc)) @ rest) = (int (length (utf8_form (unat wc))), Some wc)"
    using r unfolding s_def by simp
  then show "my_utf8_uni (map word_of_nat (utf8_form (unat wc)) @ rest) = (int (length (utf8_form (unat wc))), Some wc)"
    if "unat wc < 0x10000" using form_accepted(2) [OF assms refl that] by simp
qed

text \<open>The readers without an end agree with the others whenever these find a whole character or a bad byte.\<close>

lemma no_range_agrees:
  "s \<noteq> [] \<Longrightarrow> 0 \<le> fst (my_utf8_uni s) \<Longrightarrow> my_utf8_uni_no_range s = my_utf8_uni s"
  "s \<noteq> [] \<Longrightarrow> 0 \<le> fst (my_mb_wc_utf8mb4 s) \<Longrightarrow> my_mb_wc_utf8mb4_no_range s = my_mb_wc_utf8mb4 s"
  by (auto simp: my_utf8_uni_def my_utf8_uni_no_range_def my_mb_wc_utf8mb4_def my_mb_wc_utf8mb4_no_range_def utf8_uni_mb3_def
      Let_def cs_errors IS_CONTINUATION_BYTE_def byte_less split: if_splits)

lemma charlen_mb_wc: "my_charlen_utf8 s = fst (my_utf8_uni s)" "my_charlen_utf8mb4 s = fst (my_mb_wc_utf8mb4 s)"
  by (simp_all add: my_charlen_utf8_def my_charlen_utf8mb4_def my_utf8_uni_def my_mb_wc_utf8mb4_def utf8_uni_mb3_def
      my_valid_mbcharlen_utf8mb3_def Let_def)

text \<open>Positive lengths only depend on the bytes of the character.\<close>

lemma unat_form: "map unat bs = utf8_form n \<Longrightarrow> bs = map (word_of_nat :: nat \<Rightarrow> uchar) (utf8_form n)"
proof -
  assume "map unat bs = utf8_form n"
  then have "map word_of_nat (map unat bs) = map (word_of_nat :: nat \<Rightarrow> uchar) (utf8_form n)" by simp
  then show ?thesis by (simp add: comp_def)
qed

lemma read_head:
  assumes "reads limit s (k, wc)" "0 < k"
  obtains w where "wc = Some w" "unat w < limit" "k = int (length (utf8_form (unat w)))" "nat k \<le> length s"
    "take (nat k) s = map word_of_nat (utf8_form (unat w))"
  using assms unat_form by (cases wc) (auto simp: reads_def)

lemma charlen_utf8_char:
  assumes "0 < my_charlen_utf8 s"
  shows "my_charlen_utf8 (take (nat (my_charlen_utf8 s)) s @ t) = my_charlen_utf8 s \<and> nat (my_charlen_utf8 s) \<le> length s \<and> my_charlen_utf8 s \<le> 3"
proof -
  obtain k wc where r: "my_utf8_uni s = (k, wc)" "0 < k" using assms by (cases "my_utf8_uni s") (simp add: charlen_mb_wc)
  obtain w where w: "wc = Some w" "unat w < 0x10000" "k = int (length (utf8_form (unat w)))" "nat k \<le> length s"
    "take (nat k) s = map word_of_nat (utf8_form (unat w))"
    using read_head [of "0x10000" s k wc] readers_sound(1) [of s] r by metis
  have "my_utf8_uni (take (nat k) s @ t) = (k, wc)" using read_form(2) [of w t] w by simp
  then show ?thesis using r w by (simp add: charlen_mb_wc length_form)
qed

lemma charlen_utf8mb4_char:
  assumes "0 < my_charlen_utf8mb4 s"
  shows "my_charlen_utf8mb4 (take (nat (my_charlen_utf8mb4 s)) s @ t) = my_charlen_utf8mb4 s \<and>
    nat (my_charlen_utf8mb4 s) \<le> length s \<and> my_charlen_utf8mb4 s \<le> 4"
proof -
  obtain k wc where r: "my_mb_wc_utf8mb4 s = (k, wc)" "0 < k" using assms by (cases "my_mb_wc_utf8mb4 s") (simp add: charlen_mb_wc)
  obtain w where w: "wc = Some w" "unat w < 0x110000" "k = int (length (utf8_form (unat w)))" "nat k \<le> length s"
    "take (nat k) s = map word_of_nat (utf8_form (unat w))"
    using read_head [of "0x110000" s k wc] readers_sound(2) [of s] r by metis
  have "my_mb_wc_utf8mb4 (take (nat k) s @ t) = (k, wc)" using read_form(1) [of w t] w by simp
  then show ?thesis using r w by (simp add: charlen_mb_wc length_form)
qed

section \<open>Theorems\<close>

lemma uni_utf8_small: "unat wc < 0x10000 \<Longrightarrow> room < length (utf8_form (unat wc)) \<Longrightarrow> fst (my_uni_utf8 wc room) < 0"
  by (simp add: my_uni_utf8_def wc_less length_form cs_errors split: if_splits)

text \<open>The character set as a code on byte streams.\<close>

definition utf8mb4_enc :: "my_wc_t \<Rightarrow> uchar list" where
  "utf8mb4_enc wc = snd (my_wc_mb_utf8mb4 wc 4)"

definition utf8mb4_dec :: "uchar list \<Rightarrow> (my_wc_t \<times> uchar list) option" where
  "utf8mb4_dec s = (case my_mb_wc_utf8mb4 s of (k, Some wc) \<Rightarrow> Some (wc, drop (nat k) s) | (k, None) \<Rightarrow> None)"

lemma length_form_le: "length (utf8_form n) \<le> 4" "0 < length (utf8_form n)"
  by (simp_all add: length_form)

interpretation utf8mb4: stream_codec "\<lambda>wc. unat wc < 0x110000" utf8mb4_enc utf8mb4_dec
proof
  fix wc :: my_wc_t and rest
  assume wc: "unat wc < 0x110000"
  then have "utf8mb4_enc wc = map word_of_nat (utf8_form (unat wc))"
    using wc_mb_form(1) [of wc 4] length_form_le(1) [of "unat wc"] by (simp add: utf8mb4_enc_def)
  then show "utf8mb4_dec (utf8mb4_enc wc @ rest) = Some (wc, rest)"
    using read_form(1) [OF wc, of rest] by (simp add: utf8mb4_dec_def)
qed

text \<open>
  C14: UTF-8 has exactly one form for each code point, the shortest, and nothing else is read: the readers
  accept a text and return a code point exactly when the writers write this code point, with the same
  length and the same bytes; the code points are those below \<open>0x10000\<close> for \<open>utf8\<close> and up to \<open>0x10FFFF\<close>
  for \<open>utf8mb4\<close>.
\<close>

theorem utf8_readers_invert_writers:
  "(my_mb_wc_utf8mb4 s = (k, Some wc) \<longleftrightarrow>
      unat wc < 0x110000 \<and> 0 < k \<and> my_wc_mb_utf8mb4 wc (length s) = (k, take (nat k) s)) \<and>
   (my_utf8_uni s = (k, Some wc) \<longleftrightarrow>
      unat wc < 0x10000 \<and> 0 < k \<and> my_uni_utf8 wc (length s) = (k, take (nat k) s))"
proof -
  define f where "f = utf8_form (unat wc)"
  define bs where "bs = map (word_of_nat :: nat \<Rightarrow> uchar) f"
  have f: "0 < length f" "length f \<le> 4" using length_form_le [of "unat wc"] by (simp_all add: f_def)
  have sound: "unat wc < limit \<and> k = int (length f) \<and> length f \<le> length s \<and> take (length f) s = bs"
    if "reads limit s (k, Some wc)" for limit
    using that unat_form [of "take (nat k) s" "unat wc"] by (auto simp: reads_def f_def bs_def)
  have glue: "s = bs @ drop (length f) s" if "take (length f) s = bs" using that append_take_drop_id by metis
  have "my_mb_wc_utf8mb4 s = (k, Some wc) \<longleftrightarrow> unat wc < 0x110000 \<and> k = int (length f) \<and> take (length f) s = bs \<and> length f \<le> length s"
    using sound [of "0x110000"] readers_sound(2) [of s] read_form(1) [of wc "drop (length f) s"] glue
    by (auto simp: f_def [symmetric] bs_def [symmetric])
  moreover have "unat wc < 0x110000 \<and> 0 < k \<and> my_wc_mb_utf8mb4 wc (length s) = (k, take (nat k) s) \<longleftrightarrow>
      unat wc < 0x110000 \<and> k = int (length f) \<and> take (length f) s = bs \<and> length f \<le> length s"
    using wc_mb_form(1) [of wc "length s"] f by (auto simp: f_def [symmetric] bs_def [symmetric] cs_errors split: if_splits)
  moreover have "my_utf8_uni s = (k, Some wc) \<longleftrightarrow> unat wc < 0x10000 \<and> k = int (length f) \<and> take (length f) s = bs \<and> length f \<le> length s"
    using sound [of "0x10000"] readers_sound(1) [of s] read_form(2) [of wc "drop (length f) s"] glue
    by (auto simp: f_def [symmetric] bs_def [symmetric])
  moreover have "unat wc < 0x10000 \<and> 0 < k \<and> my_uni_utf8 wc (length s) = (k, take (nat k) s) \<longleftrightarrow>
      unat wc < 0x10000 \<and> k = int (length f) \<and> take (length f) s = bs \<and> length f \<le> length s"
    using uni_utf8_form(1) [of wc "length s"] uni_utf8_small [of wc "length s"] f
    by (cases "length f \<le> length s") (auto simp: f_def [symmetric] bs_def [symmetric])
  ultimately show ?thesis by blast
qed

text \<open>
  The \<open>utf8mb4\<close> writer also accepts the numbers from \<open>0x110000\<close> to \<open>0x1FFFFF\<close>, which are not code
  points; the bytes it writes are refused by the reader.
\<close>

theorem utf8mb4_writes_unreadable:
  "my_wc_mb_utf8mb4 0x110000 4 = (4, [0xF4, 0x90, 0x80, 0x80]) \<and> my_mb_wc_utf8mb4 [0xF4, 0x90, 0x80, 0x80] = (MY_CS_ILSEQ, None)"
  by code_simp

end
