(* ===== verification/Mb_String.thy ===== *)
theory Mb_String
  imports Utf8
begin

text \<open>
  Strings of multi-byte character sets: \<open>strings/ctype-mb.c\<close> and \<open>strings/ctype-mb.ic\<close>, for a character
  set given by its functions \<open>charlen\<close> (the length of the first character, or an error) and \<open>wc_mb\<close>.
  Positions are offsets from the beginning of the string.
\<close>

section \<open>The model\<close>

record MY_STRCOPY_STATUS =
  m_source_end_pos :: nat
  m_well_formed_error_pos :: "nat option"

text \<open>\<open>well_formed_char_length\<close> of \<open>ctype-mb.ic\<close>; \<open>pos\<close> is the offset of \<open>b\<close>.\<close>

fun well_formed_char_length :: "(uchar list \<Rightarrow> int) \<Rightarrow> nat \<Rightarrow> uchar list \<Rightarrow> nat \<Rightarrow> nat \<times> MY_STRCOPY_STATUS" where
  "well_formed_char_length charlen pos b 0 = (0, \<lparr>m_source_end_pos = pos, m_well_formed_error_pos = None\<rparr>)"
| "well_formed_char_length charlen pos b (Suc nchars) =
     (let chlen = charlen b
      in if chlen \<le> 0
         then (0, \<lparr>m_source_end_pos = pos, m_well_formed_error_pos = (if b \<noteq> [] then Some pos else None)\<rparr>)
         else
           (case well_formed_char_length charlen (pos + nat chlen) (drop (nat chlen) b) nchars of
              (n, status) \<Rightarrow> (n + 1, status)))"

definition my_ismbchar :: "(uchar list \<Rightarrow> int) \<Rightarrow> uchar list \<Rightarrow> nat" where
  "my_ismbchar charlen str = (let char_length = charlen str in if char_length > 1 then nat char_length else 0)"

definition char_step :: "(uchar list \<Rightarrow> int) \<Rightarrow> uchar list \<Rightarrow> nat" where
  "char_step charlen str = (let mb_len = my_ismbchar charlen str in if mb_len \<noteq> 0 then mb_len else 1)"

function my_numchars_mb :: "(uchar list \<Rightarrow> int) \<Rightarrow> uchar list \<Rightarrow> nat" where
  "my_numchars_mb charlen str =
     (if str = [] then 0 else 1 + my_numchars_mb charlen (drop (char_step charlen str) str))"
  by pat_completeness auto
termination
  by (relation "measure (\<lambda>(_, str). length str)") (auto simp: char_step_def Let_def)

declare my_numchars_mb.simps [simp del]

text \<open>
  The loop of \<open>my_charpos_mb\<close>: the bytes passed, and whether \<open>len\<close> became 0.  A last character may
  not end behind the string, since \<open>charlen\<close> looks at the end.
\<close>

fun charpos_loop :: "(uchar list \<Rightarrow> int) \<Rightarrow> uchar list \<Rightarrow> nat \<Rightarrow> nat option" where
  "charpos_loop charlen str 0 = Some 0"
| "charpos_loop charlen str (Suc len) =
     (if str = [] then None
      else map_option (\<lambda>p. char_step charlen str + p) (charpos_loop charlen (drop (char_step charlen str) str) len))"

definition my_charpos_mb :: "(uchar list \<Rightarrow> int) \<Rightarrow> uchar list \<Rightarrow> nat \<Rightarrow> nat" where
  "my_charpos_mb charlen str len =
     (case charpos_loop charlen str len of None \<Rightarrow> length str + 2 | Some p \<Rightarrow> p)"

text \<open>The bytes written to \<open>to\<close> (with \<open>room\<close> bytes left), and the status.\<close>

fun my_append_fix_badly_formed_tail ::
  "(uchar list \<Rightarrow> int) \<Rightarrow> (my_wc_t \<Rightarrow> nat \<Rightarrow> int \<times> uchar list) \<Rightarrow> nat \<Rightarrow> nat \<Rightarrow> uchar list \<Rightarrow> nat \<Rightarrow> nat option \<Rightarrow> uchar list \<times> MY_STRCOPY_STATUS" where
  "my_append_fix_badly_formed_tail charlen wc_mb room pos from 0 err =
     ([], \<lparr>m_source_end_pos = pos, m_well_formed_error_pos = err\<rparr>)"
| "my_append_fix_badly_formed_tail charlen wc_mb room pos from (Suc nchars) err =
     (let chlen = charlen from
      in if chlen > 0 then
           if chlen > int room then ([], \<lparr>m_source_end_pos = pos, m_well_formed_error_pos = err\<rparr>)
           else
             (case my_append_fix_badly_formed_tail charlen wc_mb (room - nat chlen) (pos + nat chlen) (drop (nat chlen) from) nchars err of
                (to, status) \<Rightarrow> (take (nat chlen) from @ to, status))
         else if chlen \<noteq> MY_CS_ILSEQ \<and> from = [] then ([], \<lparr>m_source_end_pos = pos, m_well_formed_error_pos = err\<rparr>)
         else
           (let err = (if err = None then Some pos else err);
                (chlen, bytes) = wc_mb 0x3F room
            in if chlen \<le> 0 then ([], \<lparr>m_source_end_pos = pos, m_well_formed_error_pos = err\<rparr>)
               else
                 (case my_append_fix_badly_formed_tail charlen wc_mb (room - nat chlen) (pos + 1) (tl from) nchars err of
                    (to, status) \<Rightarrow> (bytes @ to, status))))"

definition my_copy_fix_mb ::
  "(uchar list \<Rightarrow> int) \<Rightarrow> (my_wc_t \<Rightarrow> nat \<Rightarrow> int \<times> uchar list) \<Rightarrow> nat \<Rightarrow> uchar list \<Rightarrow> nat \<Rightarrow> uchar list \<times> MY_STRCOPY_STATUS" where
  "my_copy_fix_mb charlen wc_mb dst_length src nchars =
     (let src = take dst_length src;
          (well_formed_nchars, status) = well_formed_char_length charlen 0 src nchars;
          well_formed_length = m_source_end_pos status;
          dst = take well_formed_length src
      in if m_well_formed_error_pos status = None then (dst, status)
         else
           (case my_append_fix_badly_formed_tail charlen wc_mb (dst_length - well_formed_length) well_formed_length
                   (drop well_formed_length src) (nchars - well_formed_nchars) (m_well_formed_error_pos status) of
              (to, status) \<Rightarrow> (dst @ to, status)))"

section \<open>What a character set promises\<close>

text \<open>A string of \<open>n\<close> characters.\<close>

inductive char_string :: "(uchar list \<Rightarrow> int) \<Rightarrow> nat \<Rightarrow> uchar list \<Rightarrow> bool" for charlen where
  char_nil: "char_string charlen 0 []"
| char_cons: "0 < charlen s \<Longrightarrow> nat (charlen s) \<le> length s \<Longrightarrow> char_string charlen n (drop (nat (charlen s)) s) \<Longrightarrow>
    char_string charlen (Suc n) s"

inductive_cases char_string_0: "char_string charlen 0 s"
inductive_cases char_string_Suc: "char_string charlen (Suc n) s"

locale mb_charset =
  fixes charlen :: "uchar list \<Rightarrow> int"
    and wc_mb :: "my_wc_t \<Rightarrow> nat \<Rightarrow> int \<times> uchar list"
  assumes charlen_char: "0 < charlen s \<Longrightarrow> charlen (take (nat (charlen s)) s @ t) = charlen s \<and> nat (charlen s) \<le> length s"
    and charlen_nil: "charlen [] < 0"
    and question_mark: "wc_mb 0x3F room = (if room = 0 then (MY_CS_TOOSMALL, []) else (1, [0x3F]))"
    and charlen_question: "charlen (0x3F # t) = 1"
begin

lemma charlen_append: "0 < charlen s \<Longrightarrow> charlen (s @ t) = charlen s"
  using charlen_char [of s "drop (nat (charlen s)) s @ t"] by (metis append.assoc append_take_drop_id)

lemma char_string_append: "char_string charlen n a \<Longrightarrow> char_string charlen m b \<Longrightarrow> char_string charlen (n + m) (a @ b)"
proof (induction rule: char_string.induct)
  case (char_cons s n)
  then have "char_string charlen (n + m) (drop (nat (charlen s)) (s @ b))" by simp
  then show ?case using char_cons.hyps charlen_append [of s b] by (auto intro: char_string.char_cons)
qed simp

lemma char_string_one: "0 < charlen s \<Longrightarrow> char_string charlen 1 (take (nat (charlen s)) s)"
  using charlen_char [of s "[]"] char_string.char_cons [of charlen "take (nat (charlen s)) s" 0] by (simp add: char_nil)

lemma char_string_question: "char_string charlen 1 [0x3F]"
  using char_string.char_cons [of charlen "[0x3F]" 0] charlen_question [of "[]"] by (simp add: char_nil)

lemma well_formed_prefix:
  assumes "well_formed_char_length charlen pos b n = (c, st)"
  shows "\<exists>e. m_source_end_pos st = pos + e \<and> e \<le> length b \<and> char_string charlen c (take e b) \<and> c \<le> n \<and>
    (if m_well_formed_error_pos st = None then c = n \<or> e = length b
     else m_well_formed_error_pos st = Some (pos + e) \<and> c < n \<and> drop e b \<noteq> [] \<and> charlen (drop e b) \<le> 0)"
  using assms
proof (induction n arbitrary: pos b c st)
  case 0
  then show ?case by (auto intro!: exI [of _ 0] char_nil)
next
  case (Suc n)
  show ?case
  proof (cases "charlen b \<le> 0")
    case True
    then show ?thesis using Suc.prems by (cases "b = []") (auto intro!: exI [of _ 0] char_nil)
  next
    case False
    define k where "k = nat (charlen b)"
    obtain c' where c': "well_formed_char_length charlen (pos + k) (drop k b) n = (c', st)" "c = Suc c'"
      using Suc.prems False by (auto simp: Let_def k_def split: prod.splits)
    obtain e where e: "m_source_end_pos st = pos + k + e" "e \<le> length (drop k b)" "char_string charlen c' (take e (drop k b))" "c' \<le> n"
      "if m_well_formed_error_pos st = None then c' = n \<or> e = length (drop k b)
       else m_well_formed_error_pos st = Some (pos + k + e) \<and> c' < n \<and> drop e (drop k b) \<noteq> [] \<and> charlen (drop e (drop k b)) \<le> 0"
      using Suc.IH [OF c'(1)] by blast
    have k: "k \<le> length b" using charlen_char [of b "[]"] False by (simp add: k_def)
    have "char_string charlen (1 + c') (take k b @ take e (drop k b))"
      using char_string_append [OF char_string_one e(3), of b] False by (simp add: k_def)
    then have "char_string charlen c (take (k + e) b)" using c'(2) by (simp add: take_add)
    then show ?thesis using e c'(2) k by (intro exI [of _ "k + e"]) (auto simp: add.assoc add.commute split: if_splits)
  qed
qed

lemma fixed_tail:
  assumes "my_append_fix_badly_formed_tail charlen wc_mb room pos from n err = (to, st)"
  shows "length to \<le> room \<and> (\<exists>c\<le>n. char_string charlen c to) \<and> pos \<le> m_source_end_pos st \<and>
    m_source_end_pos st \<le> pos + length from \<and> (err \<noteq> None \<longrightarrow> m_well_formed_error_pos st = err)"
  using assms
proof (induction n arbitrary: room pos "from" err to st)
  case 0
  then show ?case by (auto intro: char_nil)
next
  case (Suc n)
  consider (big) "0 < charlen from" "charlen from > int room" | (good) "0 < charlen from" "charlen from \<le> int room"
    | (stop) "charlen from \<le> 0" "from = []" | (bad) "charlen from \<le> 0" "from \<noteq> []" by linarith
  then show ?case
  proof cases
    case big
    then show ?thesis using Suc.prems by (auto intro: char_nil)
  next
    case stop
    then show ?thesis using Suc.prems charlen_nil by (auto simp: MY_CS_ILSEQ_def intro: char_nil)
  next
    case good
    define k where "k = nat (charlen from)"
    obtain to' where r: "my_append_fix_badly_formed_tail charlen wc_mb (room - k) (pos + k) (drop k from) n err = (to', st)"
      "to = take k from @ to'"
      using Suc.prems good by (auto simp: Let_def k_def split: prod.splits)
    have k: "k \<le> room" "k \<le> length from" using good charlen_char [of "from" "[]"] by (simp_all add: k_def)
    obtain c where c: "c \<le> n" "char_string charlen c to'" using Suc.IH [OF r(1)] by blast
    then have "char_string charlen (Suc c) to" using r(2) char_string_append [OF char_string_one c(2)] good by (simp add: k_def)
    then show ?thesis using Suc.IH [OF r(1)] r(2) k c(1) by auto
  next
    case bad
    define err' where "err' = (if err = None then Some pos else err)"
    show ?thesis
    proof (cases "room = 0")
      case True
      then show ?thesis using Suc.prems bad question_mark [of room] by (auto simp: Let_def MY_CS_TOOSMALL_def intro: char_nil)
    next
      case False
      then obtain to' where r: "my_append_fix_badly_formed_tail charlen wc_mb (room - 1) (pos + 1) (tl from) n err' = (to', st)"
        "to = 0x3F # to'"
        using Suc.prems bad question_mark [of room] by (auto simp: Let_def err'_def split: prod.splits)
      obtain c where c: "c \<le> n" "char_string charlen c to'" using Suc.IH [OF r(1)] by blast
      then have "char_string charlen (Suc c) to" using r(2) char_string_append [OF char_string_question c(2)] by simp
      moreover have "err \<noteq> None \<longrightarrow> err' = err" "err' \<noteq> None" by (auto simp: err'_def)
      ultimately show ?thesis using Suc.IH [OF r(1)] r(2) bad(2) c(1) False by (cases "from") auto
    qed
  qed
qed

lemma copy_fix:
  assumes "my_copy_fix_mb charlen wc_mb dst_length src nchars = (dst, st)"
  shows "length dst \<le> dst_length \<and> (\<exists>c\<le>nchars. char_string charlen c dst) \<and> m_source_end_pos st \<le> length src \<and>
    (m_well_formed_error_pos st = None \<longrightarrow> dst = take (m_source_end_pos st) src)"
proof -
  define s where "s = take dst_length src"
  obtain c w where w: "well_formed_char_length charlen 0 s nchars = (c, w)" by fastforce
  define e where "e = m_source_end_pos w"
  have e: "e \<le> length s" "char_string charlen c (take e s)" "c \<le> nchars"
    using well_formed_prefix [OF w] by (auto simp: e_def)
  have le: "e \<le> dst_length" "e \<le> length src" using e(1) by (simp_all add: s_def)
  show ?thesis
  proof (cases "m_well_formed_error_pos w = None")
    case True
    then have "my_copy_fix_mb charlen wc_mb dst_length src nchars = (take e s, w)"
      using w by (simp add: my_copy_fix_mb_def s_def [symmetric] e_def)
    then have "dst = take e s" "st = w" using assms by simp_all
    moreover have "take e s = take e src" using le(1) by (simp add: s_def)
    ultimately have "dst = take e src" "length dst = e" "char_string charlen c dst" "m_source_end_pos st = e"
      using e le by (simp_all add: e_def)
    then show ?thesis using e(3) le by (intro conjI exI [of _ c]) simp_all
  next
    case False
    then obtain to where t: "my_append_fix_badly_formed_tail charlen wc_mb (dst_length - e) e (drop e s) (nchars - c) (m_well_formed_error_pos w) = (to, st)"
      "dst = take e s @ to"
      using assms w by (auto simp: my_copy_fix_mb_def s_def [symmetric] e_def Let_def split: prod.splits)
    note f = fixed_tail [OF t(1)]
    obtain d where d: "d \<le> nchars - c" "char_string charlen d to" using f by blast
    have "char_string charlen (c + d) dst" using char_string_append [OF e(2) d(2)] t(2) by simp
    moreover have "c + d \<le> nchars" using d(1) e(3) by simp
    moreover have "m_source_end_pos st \<le> length src" using f e(1) by (simp add: s_def)
    ultimately show ?thesis using f t(2) e(1) le False by auto
  qed
qed

lemma well_formed_whole:
  assumes "char_string charlen n s" "n \<le> m"
  shows "well_formed_char_length charlen pos s m = (n, \<lparr>m_source_end_pos = pos + length s, m_well_formed_error_pos = None\<rparr>)"
  using assms
proof (induction arbitrary: pos m rule: char_string.induct)
  case char_nil
  then show ?case using charlen_nil by (cases m) auto
next
  case (char_cons s n)
  then obtain m' where "m = Suc m'" "n \<le> m'" by (cases m) auto
  then show ?case using char_cons by (simp add: Let_def)
qed

lemma copy_whole:
  assumes "char_string charlen n src" "n \<le> nchars" "length src \<le> dst_length"
  shows "my_copy_fix_mb charlen wc_mb dst_length src nchars =
    (src, \<lparr>m_source_end_pos = length src, m_well_formed_error_pos = None\<rparr>)"
  using well_formed_whole [OF assms(1,2), of 0] assms(3) by (simp add: my_copy_fix_mb_def)

lemma step_char: "0 < charlen s \<Longrightarrow> char_step charlen s = nat (charlen s)"
  by (auto simp: char_step_def my_ismbchar_def Let_def)

lemma numchars: "char_string charlen n s \<Longrightarrow> my_numchars_mb charlen s = n"
proof (induction rule: char_string.induct)
  case (char_cons s n)
  then have "s \<noteq> []" using charlen_nil by auto
  then show ?case using char_cons by (subst my_numchars_mb.simps) (simp add: step_char)
qed (simp add: my_numchars_mb.simps)

lemma charpos_prefix:
  assumes "char_string charlen n s" "k \<le> n"
  shows "\<exists>p. charpos_loop charlen s k = Some p \<and> p \<le> length s \<and> char_string charlen k (take p s)"
  using assms
proof (induction arbitrary: k rule: char_string.induct)
  case char_nil
  then show ?case by (auto intro: char_string.char_nil)
next
  case (char_cons s n)
  show ?case
  proof (cases k)
    case 0
    then show ?thesis by (auto intro: char_string.char_nil)
  next
    case (Suc k')
    define c where "c = nat (charlen s)"
    obtain p where p: "charpos_loop charlen (drop c s) k' = Some p" "p \<le> length (drop c s)" "char_string charlen k' (take p (drop c s))"
      using char_cons.IH [of k'] char_cons.prems Suc by (auto simp: c_def)
    have "char_string charlen (Suc k') (take (c + p) s)"
      using char_string_append [OF char_string_one p(3), of s] char_cons.hyps(1) by (simp add: c_def take_add)
    moreover have "s \<noteq> []" using char_cons.hyps(1) charlen_nil by auto
    ultimately show ?thesis
      using p char_cons.hyps(1,2) Suc by (intro exI [of _ "c + p"]) (auto simp: step_char c_def)
  qed
qed

end

section \<open>UTF-8\<close>

lemma charlen_utf8_laws:
  "my_charlen_utf8 [] < 0" "my_charlen_utf8 (0x3F # t) = 1" "my_charlen_utf8mb4 [] < 0" "my_charlen_utf8mb4 (0x3F # t) = 1"
  by (simp_all add: my_charlen_utf8_def my_charlen_utf8mb4_def my_valid_mbcharlen_utf8mb3_def MY_CS_TOOSMALL_def)

lemma question_mark_utf8:
  "my_uni_utf8 0x3F room = (if room = 0 then (MY_CS_TOOSMALL, []) else (1, [0x3F]))"
  "my_wc_mb_utf8mb4 0x3F room = (if room = 0 then (MY_CS_TOOSMALL, []) else (1, [0x3F]))"
  by (simp_all add: my_uni_utf8_def my_wc_mb_utf8mb4_def put_bytes.simps Let_def)

interpretation utf8_strings: mb_charset my_charlen_utf8 my_uni_utf8
  using charlen_utf8_char charlen_utf8_laws question_mark_utf8 by unfold_locales auto

interpretation utf8mb4_strings: mb_charset my_charlen_utf8mb4 my_wc_mb_utf8mb4
  using charlen_utf8mb4_char charlen_utf8_laws question_mark_utf8 by unfold_locales auto

section \<open>Theorems\<close>

text \<open>
  C15: Whatever bytes come in, \<open>my_copy_fix_mb\<close> writes a well-formed string of \<open>utf8\<close> (or \<open>utf8mb4\<close>) of at
  most \<open>nchars\<close> characters and at most \<open>dst_length\<close> bytes and reads at most the source; without an error
  position the copy is a prefix of the source, and a well-formed source that fits is copied as it is.
\<close>

theorem copy_fix_mb_well_formed:
  assumes "charlen = my_charlen_utf8 \<and> wc_mb = my_uni_utf8 \<or> charlen = my_charlen_utf8mb4 \<and> wc_mb = my_wc_mb_utf8mb4"
    "my_copy_fix_mb charlen wc_mb dst_length src nchars = (dst, status)"
  shows "length dst \<le> dst_length \<and> (\<exists>n\<le>nchars. char_string charlen n dst) \<and> m_source_end_pos status \<le> length src \<and>
    (m_well_formed_error_pos status = None \<longrightarrow> dst = take (m_source_end_pos status) src) \<and>
    (\<forall>n\<le>nchars. char_string charlen n src \<longrightarrow> length src \<le> dst_length \<longrightarrow> dst = src \<and> m_well_formed_error_pos status = None)"
  using assms utf8_strings.copy_fix [of dst_length src nchars dst status] utf8mb4_strings.copy_fix [of dst_length src nchars dst status]
    utf8_strings.copy_whole [of _ src nchars dst_length] utf8mb4_strings.copy_whole [of _ src nchars dst_length]
  by (elim disjE conjE) auto

theorem copy_fix_mb_witness:
  "\<exists>n. char_string my_charlen_utf8mb4 n (fst (my_copy_fix_mb my_charlen_utf8mb4 my_wc_mb_utf8mb4 8 [0x41, 0xFF, 0xC3, 0xA9] 10))"
  using copy_fix_mb_well_formed [of my_charlen_utf8mb4 my_wc_mb_utf8mb4 8 "[0x41, 0xFF, 0xC3, 0xA9]" 10] by (auto simp: prod_eq_iff)

text \<open>
  A valid character that is cut by the end of the destination is reported as badly formed and replaced
  by a question mark.
\<close>

lemma copy_fix_mb_cuts:
  "my_copy_fix_mb my_charlen_utf8 my_uni_utf8 1 [0xC3, 0xA9] 1 =
     ([0x3F], \<lparr>m_source_end_pos = 1, m_well_formed_error_pos = Some 0\<rparr>)"
  "my_copy_fix_mb my_charlen_utf8 my_uni_utf8 2 [0xC3, 0xA9] 1 =
     ([0xC3, 0xA9], \<lparr>m_source_end_pos = 2, m_well_formed_error_pos = None\<rparr>)"
  by code_simp+

text \<open>
  In a well-formed string of \<open>n\<close> characters \<open>my_numchars_mb\<close> counts \<open>n\<close>, and \<open>my_charpos_mb\<close> gives the place
  behind the first \<open>k\<close> characters for every \<open>k \<le> n\<close>.
\<close>

theorem charpos_numchars:
  assumes "charlen = my_charlen_utf8 \<or> charlen = my_charlen_utf8mb4" "char_string charlen n s" "k \<le> n"
  shows "my_numchars_mb charlen s = n \<and> my_charpos_mb charlen s k \<le> length s \<and>
    char_string charlen k (take (my_charpos_mb charlen s k) s)"
  using assms utf8_strings.numchars [of n s] utf8mb4_strings.numchars [of n s] utf8_strings.charpos_prefix [of n s k] utf8mb4_strings.charpos_prefix [of n s k]
  by (elim disjE) (auto simp: my_charpos_mb_def)

theorem charpos_numchars_witness:
  "my_numchars_mb my_charlen_utf8 [0x41, 0xC3, 0xA9] = Suc (Suc 0)"
proof -
  have "char_string my_charlen_utf8 (Suc (Suc 0)) [0x41, 0xC3, 0xA9]"
    by (rule char_cons, code_simp, code_simp, simp add: my_charlen_utf8_def my_valid_mbcharlen_utf8mb3_def,
        rule char_cons, code_simp, code_simp, simp add: my_charlen_utf8_def my_valid_mbcharlen_utf8mb3_def IS_CONTINUATION_BYTE_def char_nil)
  then show ?thesis using charpos_numchars [of my_charlen_utf8 "Suc (Suc 0)" "[0x41, 0xC3, 0xA9]" 0] by simp
qed

end
