(* ===== verification/Spec2Isabelle.thy ===== *)
theory Spec2Isabelle
  imports Bitmap Queues Ptr_Cmp Rb_Tree Net_Pack Base64 Time_Str Thr_Lock_Check Thr_Multi_Lock String_Array Hash_Props Like_Range Strnto_Rnd Mb_String
begin

text \<open>
  A verification library for the C core of TSpider, the MariaDB 10.3 server with the Spider storage
  engine: the portability and data-structure layer \<open>mysys\<close>, the string library \<open>strings\<close>, and the
  code that the server shares with its client library in \<open>sql-common\<close>.  The SQL layer and the storage
  engines, which are C++, stand on these parts: they lock tables with \<open>thr_lock\<close>, find table
  definitions, users and prepared statements in hash tables, collect distinct values in red-black
  trees, merge sorted runs with priority queues, mark columns in bitmaps, and turn the text of every
  query and every column into numbers, dates and sort keys.

  \<^bold>\<open>How the code is modelled.\<close>  One theory per component, in the order of the source; a \<open>struct\<close> is a
  record, an enumeration a datatype, a function of the source a definition of the same name.  A
  function that changes its argument returns the changed state.  Machine integers are words or
  numbers with the wrap-around written out (\<open>u32\<close>, \<open>u64\<close>, \<open>s32\<close>, \<open>s64\<close> of \<open>Prelude\<close> and \<open>Int_Str\<close>); memory
  is a function from addresses to bytes where addresses matter, else a list.  What C leaves undefined
  (an access outside of a block, a null pointer, a signed overflow that can happen) is the result
  \<open>None\<close>; so is a loop that does not end, which is a \<open>partial_function\<close> in the option monad, and the
  theorems on such functions state that they return.  Memory allocation is a parameter that may fail.

  \<^bold>\<open>Components.\<close>
  \<^item> Table locks (\<open>mysys/thr_lock.c\<close>).  \<open>Thr_Lock\<close>: the four queues of a lock and the functions \<open>thr_lock\<close>,
    \<open>wait_for_lock\<close> (split at the sleep: any other operation may come in between), \<open>thr_unlock\<close> with
    \<open>wake_up_waiters\<close> and \<open>free_all_read_locks\<close>, abort, downgrade, upgrade, reschedule.  \<open>Thr_Lock_Inv\<close>: the
    invariant and its preservation by every function.  \<open>Thr_Lock_Step\<close>: the inductive step relation of
    all threads, mutual exclusion, no lost wake-up, the results of waiting.  \<open>Lock_Sort\<close> and
    \<open>Thr_Multi_Lock\<close>: taking several locks in a fixed order, all or none.  \<open>Thr_Lock_Check\<close>: the checks of
    debug builds find nothing wrong with the queues of a reachable state, as long as locks that allow several
    concurrent inserts have no \<open>TL_WRITE_ALLOW_WRITE\<close>.
  \<^item> Hash tables (\<open>mysys/hash.c\<close>).  \<open>My_Hash\<close>: the model of all functions.  \<open>Hash_Chain\<close>, \<open>Hash_Split\<close>,
    \<open>Hash_Ops\<close>, \<open>Hash_Del\<close>, \<open>Hash_Find\<close>, \<open>Hash_Update\<close>, \<open>Hash_Table\<close>: buckets as chains in one array, the split of
    a bucket, deletion with the move of the last link.  \<open>Hash_Props\<close>: a table is a bag of rows.
  \<^item> Red-black trees (\<open>mysys/tree.c\<close>, \<open>Rb_Tree\<close>): sorted contents and balance through insertion and
    deletion, searches, scans; 64 slots are enough for the path.
  \<^item> Priority queues (\<open>mysys/queues.c\<close>, \<open>Queues\<close>), key comparison (\<open>mysys/ptr_cmp.c\<close>, \<open>Ptr_Cmp\<close>), bitmaps
    (\<open>mysys/my_bitmap.c\<close>, \<open>Bitmap\<close> and \<open>Bit_Count\<close>), growing arrays and strings (\<open>mysys/array.c\<close>,
    \<open>mysys/string.c\<close>, \<open>Dyn_Array\<close>, \<open>Dyn_String\<close>) and TSpider's string arrays built of both
    (\<open>String_Array\<close>), base64 (\<open>mysys/base64.c\<close>, \<open>Base64\<close>).
  \<^item> Length-encoded integers of the protocol (\<open>sql-common/pack.c\<close>, \<open>Net_Pack\<close>).
  \<^item> Dates and times (\<open>sql-common/my_time.c\<close>): \<open>My_Time\<close> has the calendar and the number forms, \<open>Time_Str\<close> the
    parsers and printers.
  \<^item> Numbers as text: \<open>Int_Str\<close> (\<open>strings/int2str.c\<close>, \<open>longlong2str.c\<close>, \<open>my_strtoll10.c\<close>), \<open>Strnto\<close> (the
    conversions in any base of \<open>strings/ctype-simple.c\<close>) and \<open>Strnto_Rnd\<close> (\<open>my_strntoull10rnd_8bit\<close>, the
    rounding conversion that stores a text in an integer column).
  \<^item> 8-bit collations (\<open>strings/ctype-simple.c\<close>, \<open>strings/ctype-bin.c\<close>).  \<open>Charset\<close>, \<open>My_Ctype\<close>: the tables.
    \<open>Ctype_Bin\<close>, \<open>Ctype_Simple\<close>: the functions.  \<open>Coll_Order\<close>: comparing, padding and hashing.  \<open>Sort_Key\<close>:
    sort keys and substring search.  \<open>Wild_Cmp\<close>, \<open>Like_Range\<close>: the \<open>LIKE\<close> matcher and the range of an index
    it needs.
  \<^item> UTF-8 (\<open>strings/ctype-utf8.c\<close>, \<open>strings/ctype-mb.c\<close>).  \<open>Utf8\<close>: reading and writing a character of \<open>utf8\<close> (up to
    three bytes) and \<open>utf8mb4\<close>; exactly the shortest forms are read.  \<open>Mb_String\<close>: counting, positioning and
    copying the characters of a string of any multi-byte character set; a copy is always well-formed.

  \<^bold>\<open>What the theorems show.\<close>  Invariants with their preservation (locks, trees, hash tables, queues);
  safety of locking and of the date parsers; the functional result of each operation on every branch,
  errors included; equality with a plain reference definition (the matcher with the meaning of \<open>LIKE\<close>,
  sort keys with comparison, \<open>calc_daynr\<close> with counting days, the grouped \<open>my_strtoll10\<close> with reading digits
  one by one, the rounding conversion with exact arithmetic); refinement of sets, lists and bags;
  round trips of every printer and parser pair; termination of the loops; and the classes of
  inputs on which the code does something else than its comments say.

  \<^bold>\<open>Interfaces.\<close>  What one component asks of another is a locale: \<open>comparator\<close> (a three-way comparison;
  provided by the key comparisons and by both kinds of collations, required by trees and queues),
  \<open>element_order\<close> (heaps), \<open>collation\<close> (equal keys have equal hash values; provided by the binary and the
  table collations, required by hash tables), \<open>index_set\<close> (bitmaps), \<open>stream_codec\<close> (protocol integers, row
  pointers, \<open>utf8mb4\<close>), \<open>mb_charset\<close> (what the generic string functions ask of \<open>charlen\<close> and \<open>wc_mb\<close>; provided by
  \<open>utf8\<close> and \<open>utf8mb4\<close>), \<open>priority_queue\<close>, \<open>bag\<close> (hash tables) and \<open>transition_system\<close> (locks).  Each is interpreted on
  the definitions of the model, and the lemmas proved in the locale carry the theorems.

  \<^bold>\<open>Bounds and hypotheses.\<close>  Sizes stay below the limits of their C types: \<open>idx_ok\<close> and \<open>fits\<close> bound the links
  of a table so that indices and byte counts do not wrap at 32 bits; \<open>addressable\<close> bounds
  the addresses of lock requests so that the 32-bit counter \<open>read_no_write_count\<close> does not wrap.  \<open>alloc_ok\<close> says that a block has the size asked for; where a result
  needs an allocation to succeed the theorem says so, and otherwise it covers the failure.
  \<open>hash_contract\<close> is what the callbacks of a table have to satisfy, and this theory shows it for the
  collations.  The lock theorems hold for every mix of lock types and every interleaving of calls that keep
  the rules in \<open>request_ok\<close>, \<open>unlock_ok\<close>, \<open>exclusive\<close>, \<open>downgrade_ok\<close> and \<open>upgrade_ok\<close>: a request is not queued
  twice and asks for a read or write type; a thread asks for its write locks on a table from the strongest
  type down, and for none beside a delayed one (comment and assertion in \<open>thr_lock\<close>); only granted locks and
  waiting delayed ones are released; \<open>TL_WRITE_ONLY\<close> is given only while one thread holds all locks of the
  table, and only such a lock is downgraded, to a type not weaker than the thread's others; only delayed
  locks are upgraded, to an exclusive type; only a lone writer is rescheduled.  \<open>wildcards_ok\<close> asks for
  different wildcards and an ASCII escape character, \<open>quiet\<close> that the stack guard does not stop the matcher;
  \<open>tables_ok\<close> that a table of weights has 256 entries and the byte 0 sorts first.  The texts read by \<open>my_strntoull10rnd_8bit\<close> are shorter than
  \<open>2 ^ 30\<close>, as are its exponents.  No definition uses fuel other than the number of iterations that the
  source itself fixes.

  \<^bold>\<open>Not modelled.\<close>  The C++ layers (\<open>sql\<close>, \<open>storage\<close>), which are reached only through their class
  hierarchies and do their work over the network and files; the client library and the operating
  system layer of \<open>mysys\<close> (files, memory, threads, caches), which are input and output; vendored
  libraries; the multi-byte character sets other than UTF-8 and the collations of UTF-8, which
  are mostly generated tables, the file name character set and the multi-byte wildcard matcher; decimals,
  floating point, JSON, XML and dynamic columns; the lock-free containers, which need a model of
  atomic operations.  Of the modelled files: the variants for Galera (\<open>WITH_WSREP\<close>), debug output and
  instrumentation, \<open>tree_record_pos\<close> (floating point), the time zone of the system, and the conversion of
  8-bit characters from and to Unicode.
\<close>

section \<open>Queues and keys\<close>

text \<open>The heap lemmas hold for keys compared byte by byte, as the merge code compares them.\<close>

interpretation native_order: element_order "native_compare len m" for len m
  by unfold_locales

section \<open>Hash tables over collations\<close>

text \<open>
  A hash table whose keys are strings of a table collation, such as \<open>latin1_swedish_ci\<close>: the collation
  gives the table what it asks for, so that keys are found up to the weights of their characters.
\<close>

definition same_weights :: "charset_info_st \<Rightarrow> uchar list \<Rightarrow> uchar list \<Rightarrow> bool" where
  "same_weights cs s t \<longleftrightarrow> map (weight cs) s = map (weight cs) t"

lemma row_matches_weights:
  assumes "charset h = simple_charset cs ptr" "get_key h = None" "key_length h = len" "len \<noteq> 0"
  shows "row_matches h m key len r \<longleftrightarrow> same_weights cs (bytes_at m (r + key_offset h) len) (bytes_at m key len)"
  using assms by (simp add: row_matches_def my_hash_key_def same_weights_def simple_charset_def strnncoll_simple_zero bytes_at_def)

lemma simple_contract:
  assumes "charset h = simple_charset cs ptr" "get_key h = None" "hash_function h = my_hash_sort"
  shows "hash_contract m h"
  using assms collation.sort_agrees [OF simple_hash.collation_axioms, of _ _ cs ptr] by (simp add: hash_contract_def my_hash_key_def)

text \<open>
  C18: In a table with keys of fixed length and a table collation, a search returns exactly the rows
  whose keys have the same weights as the key searched for, in whatever case they are written, each as
  often as it is stored, although only the rows of one bucket are compared.
\<close>

theorem collated_search:
  assumes "hash_ok m h" "charset h = simple_charset cs ptr" "get_key h = None" "hash_function h = my_hash_sort"
    "key_length h = len" "len \<noteq> 0"
  shows "\<exists>rs. all_rows h m key len = Some rs \<and>
    mset rs = filter_mset (\<lambda>r. same_weights cs (bytes_at m (r + key_offset h) len) (bytes_at m key len)) (mset (rows_of h)) \<and>
    my_hash_search h m key len = Some (if rs = [] then 0 else hd rs)"
proof -
  have "row_matches h m key len = (\<lambda>r. same_weights cs (bytes_at m (r + key_offset h) len) (bytes_at m key len))"
    using row_matches_weights [OF assms(2,3,5,6)] by (intro ext)
  then show ?thesis
    using my_hash_search_ok [OF assms(1) simple_contract [OF assms(2-4)] assms(6), of key] by (simp only:)
qed

text \<open>A table with one name of one letter: \<open>a\<close> is stored and \<open>A\<close> is searched for.\<close>

definition name_mem :: memory where
  "name_mem a = (if a = 6 then 0x61 else 0x41)"

definition name_empty :: HASH where
  "name_empty = fst (my_hash_init2 demo_alloc 4 (simple_charset my_charset_latin1 0) 2 0 1 None None True HASH_UNIQUE)"

lemma name_empty_config:
  "charset name_empty = simple_charset my_charset_latin1 0" "get_key name_empty = None" "hash_function name_empty = my_hash_sort"
  "key_length name_empty = 1" "key_offset name_empty = 0"
  by (simp_all add: name_empty_def my_hash_init2_def case_prod_beta)

lemma name_empty_ok: "hash_ok name_mem name_empty" "rows_of name_empty = []"
  unfolding name_empty_def
  by (intro my_hash_init2_ok [OF demo_alloc_ok]; simp add: HASH_LINK_SIZE_def u32_def)+

lemma name_empty_fits: "fits (array name_empty) (records name_empty)"
  by (simp add: name_empty_def my_hash_init2_def case_prod_beta init_dynamic_array2_def demo_alloc_def Let_def
      fits_def HASH_LINK_SIZE_def u32_def)

lemma name_table:
  "\<exists>h. hash_ok name_mem h \<and> same_keys name_empty h \<and> rows_of h = [6]"
proof -
  have k: "my_hash_key name_empty name_mem 6 True = (6, 1)" by (simp add: my_hash_key_def name_empty_config)
  have no: "(\<exists>r\<in>#mset (rows_of name_empty). P r) \<longleftrightarrow> False" for P by (simp add: name_empty_ok(2))
  obtain h where "hash_ok name_mem h" "same_keys name_empty h" "mset (rows_of h) = add_mset 6 (mset (rows_of name_empty))"
    using my_hash_insert_ok [OF name_empty_ok(1) simple_contract [OF name_empty_config(1-3)] _ k _ demo_alloc_ok name_empty_fits]
    unfolding no demo_memory by auto
  then show ?thesis using name_empty_ok(2) by auto
qed

theorem collated_search_witness:
  "\<exists>h. charset h = simple_charset my_charset_latin1 0 \<and> my_hash_search h name_mem 7 1 = Some 6"
proof -
  obtain h where h: "hash_ok name_mem h" "same_keys name_empty h" "rows_of h = [6]" using name_table by blast
  have c: "charset h = simple_charset my_charset_latin1 0" "get_key h = None" "hash_function h = my_hash_sort"
    "key_length h = 1" "key_offset h = 0"
    using h(2) name_empty_config by (simp_all add: same_keys_def)
  have "same_weights my_charset_latin1 (bytes_at name_mem 6 1) (bytes_at name_mem 7 1)"
    by (simp add: same_weights_def bytes_at_def name_mem_def my_charset_latin1_def sort_order_latin1_def tab_def)
  then show ?thesis using collated_search [OF h(1) c(1-4), of 7] h(3) c by auto
qed

end
